(* ===== verification/Prelude.thy ===== *)
theory Prelude
  imports Main "HOL-Library.Word"
begin

text \<open>
  Shared vocabulary of the development: the C integer types, the scan of a fixed table for
  the first slot that satisfies a test (the loop shape of most kernel tables), and the
  arithmetic facts about 64-bit words that several components use.
\<close>

unbundle bit_operations_syntax

section \<open>C integer types\<close>

type_synonym u8 = "8 word"
type_synonym u16 = "16 word"
type_synonym u32 = "32 word"
type_synonym u64 = "64 word"

text \<open>
  \<open>kernel_defs\<close> collects the defining equations of small helpers that proofs of several
  components unfold together; \<open>frame_simps\<close> collects the facts that an operation leaves the
  fields of another component alone.
\<close>

named_theorems kernel_defs
named_theorems frame_simps

abbreviation UINT32_MAX :: u32 where "UINT32_MAX \<equiv> 0xFFFFFFFF"
abbreviation UINT64_MAX :: u64 where "UINT64_MAX \<equiv> 0xFFFFFFFFFFFFFFFF"

section \<open>Scanning a table\<close>

text \<open>
  The loop \<^verbatim>\<open>for (i = 0; i < N; i++) if (P(table[i])) return i;\<close> of the fixed-size kernel
  tables: the index of the first entry satisfying the test, if there is one.
\<close>

primrec find_idx :: "('a \<Rightarrow> bool) \<Rightarrow> 'a list \<Rightarrow> nat option" where
  "find_idx P [] = None"
| "find_idx P (x # xs) = (if P x then Some 0 else map_option Suc (find_idx P xs))"

lemma find_idx_None_iff: "find_idx P xs = None \<longleftrightarrow> (\<forall>x \<in> set xs. \<not> P x)"
  by (induction xs) auto

lemma find_idx_Some_iff:
  "find_idx P xs = Some i \<longleftrightarrow> i < length xs \<and> P (xs ! i) \<and> (\<forall>j < i. \<not> P (xs ! j))"
proof (induction xs arbitrary: i)
  case Nil
  then show ?case by simp
next
  case (Cons x xs)
  show ?case
  proof (cases i)
    case 0
    then show ?thesis by auto
  next
    case (Suc k)
    then show ?thesis using Cons.IH [of k] by (auto simp: less_Suc_eq_0_disj)
  qed
qed

lemma find_idx_SomeD:
  assumes "find_idx P xs = Some i"
  shows "i < length xs" and "P (xs ! i)" and "\<And>j. j < i \<Longrightarrow> \<not> P (xs ! j)"
  using assms by (auto simp: find_idx_Some_iff)

lemma find_idx_cong:
  "length xs = length ys \<Longrightarrow> (\<And>i. i < length ys \<Longrightarrow> P (xs ! i) = Q (ys ! i)) \<Longrightarrow>
   find_idx P xs = find_idx Q ys"
proof (induction xs arbitrary: ys)
  case Nil
  then show ?case by simp
next
  case (Cons x xs)
  then obtain y ys' where ys: "ys = y # ys'" by (cases ys) auto
  have "find_idx P xs = find_idx Q ys'"
    using Cons.prems ys by (intro Cons.IH) force+
  moreover have "P x = Q y" using Cons.prems(2) [of 0] ys by simp
  ultimately show ?case using ys by simp
qed

text \<open>
  Where at most one entry satisfies the test, the scan finds it: the fact behind every lookup
  in a table whose keys are unique.
\<close>

lemma find_idx_unique:
  assumes "i < length xs" and "P (xs ! i)"
    and "\<And>j. j < length xs \<Longrightarrow> P (xs ! j) \<Longrightarrow> j = i"
  shows "find_idx P xs = Some i"
proof -
  have "\<not> P (xs ! j)" if "j < i" for j
    using assms(1) assms(3) [of j] that by auto
  then show ?thesis using assms(1,2) by (simp add: find_idx_Some_iff)
qed

definition count_if :: "('a \<Rightarrow> bool) \<Rightarrow> 'a list \<Rightarrow> nat" where
  "count_if P xs = length (filter P xs)"

lemma count_if_simps [simp]:
  "count_if P [] = 0"
  "count_if P (x # xs) = (if P x then Suc (count_if P xs) else count_if P xs)"
  by (simp_all add: count_if_def)

lemma count_if_le: "count_if P xs \<le> length xs"
  by (simp add: count_if_def)

lemma count_if_append [simp]: "count_if P (xs @ ys) = count_if P xs + count_if P ys"
  by (simp add: count_if_def)

lemma count_if_update:
  "i < length xs \<Longrightarrow>
   count_if P (xs[i := v]) + (if P (xs ! i) then 1 else 0) =
   count_if P xs + (if P v then 1 else 0)"
proof (induction xs arbitrary: i)
  case Nil
  then show ?case by simp
next
  case (Cons x xs)
  then show ?case by (cases i) auto
qed

section \<open>Words\<close>

lemma unat64_less: "unat (w :: u64) < 2 ^ 64"
  using unsigned_less [of w] by simp

lemma unat32_less: "unat (w :: u32) < 2 ^ 32"
  using unsigned_less [of w] by simp

lemma unat_ucast_u32 [simp]: "unat (ucast (w :: u32) :: u64) = unat w"
  using unat32_less [of w] by (simp add: unsigned_ucast_eq take_bit_eq_mod)

lemma unat_ucast_u8 [simp]:
  "unat (ucast (w :: u8) :: u64) = unat w" "unat (ucast (w :: u8) :: u32) = unat w"
  using unsigned_less [of w, where 'a = nat] by (simp_all add: unsigned_ucast_eq take_bit_eq_mod)

lemma unat_ucast_u16 [simp]:
  "unat (ucast (w :: u16) :: u64) = unat w" "unat (ucast (w :: u16) :: u32) = unat w"
  using unsigned_less [of w, where 'a = nat] by (simp_all add: unsigned_ucast_eq take_bit_eq_mod)

lemma unat_and_mask_mod:
  fixes x :: u64
  shows "unat (x AND mask n) = unat x mod 2 ^ n"
  by (simp only: take_bit_eq_mask [symmetric] unsigned_take_bit_eq) (simp add: take_bit_eq_mod)

lemma word_page_and:
  fixes x :: u64
  shows "unat (x AND 4095) = unat x mod 4096"
  using unat_and_mask_mod [of x 12] by (simp add: mask_eq_exp_minus_1)

lemma unat_add_small:
  fixes a :: u64
  assumes "unat a + i < 2 ^ 64"
  shows "unat (a + of_nat i) = unat a + i"
proof -
  have "unat (of_nat i :: u64) = i" using assms by (simp add: unat_of_nat take_bit_eq_mod)
  then show ?thesis using assms by (simp add: unat_word_ariths)
qed

text \<open>Rounding down to a page.\<close>

lemma word_and_not_eq_diff:
  fixes x :: u64
  shows "x AND NOT m = x - (x AND m)"
proof -
  have "NOT x AND (x AND m) = 0" by (rule bit_eqI) (simp add: bit_simps)
  then have "x - (x AND m) = x AND NOT (x AND m)" by (rule disjunctive_diff_eq_and_not)
  also have "\<dots> = x AND NOT m" by (rule bit_eqI) (auto simp: bit_simps)
  finally show ?thesis by simp
qed

lemma unat_page_floor:
  fixes x :: u64
  shows "unat (x AND NOT 4095) = unat x div 4096 * 4096"
proof -
  have "x AND 4095 \<le> x" by (simp add: word_le_nat_alt word_page_and)
  then have "unat (x AND NOT 4095) = unat x - unat x mod 4096"
    unfolding word_and_not_eq_diff by (simp only: unat_sub word_page_and)
  then show ?thesis by (simp add: minus_mod_eq_div_mult)
qed

lemma unat_page_floor_minus: "unat (x AND - 4096 :: u64) = unat x div 4096 * 4096"
  using unat_page_floor [of x] by simp

end
