(* ===== verification/CString.thy ===== *)
theory CString
  imports Prelude
begin

text \<open>
  C strings and the string routines of \<^verbatim>\<open>kernel/utils.c\<close> and \<^verbatim>\<open>libc/string.c\<close>. A
  \<^verbatim>\<open>const char*\<close> is the list of bytes from the pointer to the end of the object it points into;
  reading at the end of the list yields the terminating NUL, and a fixed array
  \<^verbatim>\<open>char name[N]\<close> is a list of length \<open>N\<close>. The C value of such a string is \<open>cstr\<close>, the bytes before
  the first NUL.
\<close>

section \<open>Reading a string\<close>

definition c_at :: "u8 list \<Rightarrow> nat \<Rightarrow> u8" where
  "c_at s i = (if i < length s then s ! i else 0)"

definition cstr :: "u8 list \<Rightarrow> u8 list" where
  "cstr s = takeWhile (\<lambda>c. c \<noteq> 0) s"

definition bytes_of :: "string \<Rightarrow> u8 list" where
  "bytes_of s = map of_char s"

lemma cstr_simps [simp]:
  "cstr [] = []"
  "cstr (c # s) = (if c = 0 then [] else c # cstr s)"
  by (simp_all add: cstr_def)

lemma c_at_simps [simp]:
  "c_at [] i = 0"
  "c_at (c # s) 0 = c"
  "c_at (c # s) (Suc i) = c_at s i"
  by (simp_all add: c_at_def)

lemma cstr_no_nul: "c \<in> set (cstr s) \<Longrightarrow> c \<noteq> 0"
  by (auto simp: cstr_def dest: set_takeWhileD)

lemma cstr_cstr [simp]: "cstr (cstr s) = cstr s"
  by (induction s) auto

lemma cstr_append_nul: "0 \<notin> set p \<Longrightarrow> cstr (p @ 0 # q) = p"
  by (induction p) auto

lemma length_cstr_le: "length (cstr s) \<le> length s"
  by (simp add: cstr_def length_takeWhile_le)

lemma c_at_cstr: "i < length (cstr s) \<Longrightarrow> c_at s i = cstr s ! i \<and> c_at s i \<noteq> 0"
proof (induction s arbitrary: i)
  case Nil
  then show ?case by simp
next
  case (Cons c s)
  then show ?case using Cons.IH [of "i - 1"] by (cases i) (auto split: if_splits)
qed

lemma c_at_length_cstr: "c_at s (length (cstr s)) = 0"
  by (induction s) auto

section \<open>Comparison and length\<close>

function strcmp :: "u8 list \<Rightarrow> u8 list \<Rightarrow> int" where
  "strcmp s1 s2 =
     (if c_at s1 0 \<noteq> 0 \<and> c_at s1 0 = c_at s2 0 then strcmp (tl s1) (tl s2)
      else uint (c_at s1 0) - uint (c_at s2 0))"
  by pat_completeness auto
termination
  by (relation "measure (\<lambda>(s1, s2). length s1)") (auto simp: c_at_def split: if_splits)

declare strcmp.simps [simp del]

function strlen :: "u8 list \<Rightarrow> nat" where
  "strlen s = (if c_at s 0 \<noteq> 0 then Suc (strlen (tl s)) else 0)"
  by pat_completeness auto
termination
  by (relation "measure length") (auto simp: c_at_def split: if_splits)

declare strlen.simps [simp del]

function str_eq :: "u8 list \<Rightarrow> u8 list \<Rightarrow> bool" where
  "str_eq a b =
     (if c_at a 0 \<noteq> 0 \<and> c_at b 0 \<noteq> 0
      then (if c_at a 0 \<noteq> c_at b 0 then False else str_eq (tl a) (tl b))
      else c_at a 0 = c_at b 0)"
  by pat_completeness auto
termination
  by (relation "measure (\<lambda>(a, b). length a)") (auto simp: c_at_def split: if_splits)

declare str_eq.simps [simp del]

lemma c_at_0: "c_at s 0 = (case cstr s of [] \<Rightarrow> 0 | c # _ \<Rightarrow> c)"
  by (cases s) auto

lemma cstr_tl: "c_at s 0 \<noteq> 0 \<Longrightarrow> cstr s = c_at s 0 # cstr (tl s)"
  by (cases s) auto

lemma cstr_hd: "cstr s = c # r \<Longrightarrow> c \<noteq> 0"
  using cstr_no_nul [of c s] by simp

lemma cstr_Nil_iff: "cstr s = [] \<longleftrightarrow> c_at s 0 = 0"
  by (cases s) auto

text \<open>Both comparison routines decide equality of the C values of their arguments.\<close>

lemma strcmp_eq_0_iff: "strcmp s1 s2 = 0 \<longleftrightarrow> cstr s1 = cstr s2"
proof (induction s1 s2 rule: strcmp.induct)
  case (1 s1 s2)
  show ?case
  proof (cases "c_at s1 0 \<noteq> 0 \<and> c_at s1 0 = c_at s2 0")
    case True
    then have "cstr s1 = c_at s1 0 # cstr (tl s1)" "cstr s2 = c_at s1 0 # cstr (tl s2)"
      using cstr_tl [of s1] cstr_tl [of s2] by auto
    moreover have "strcmp s1 s2 = strcmp (tl s1) (tl s2)"
      using True by (subst strcmp.simps) auto
    ultimately show ?thesis using 1 [OF True] by (metis list.inject)
  next
    case False
    then have step: "strcmp s1 s2 = uint (c_at s1 0) - uint (c_at s2 0)"
      by (subst strcmp.simps) auto
    have "cstr s1 = cstr s2 \<longleftrightarrow> c_at s1 0 = c_at s2 0"
      using False by (auto simp: c_at_0 split: list.splits dest: cstr_hd)
    then show ?thesis by (simp add: step word_uint_eq_iff)
  qed
qed

lemma str_eq_iff: "str_eq a b \<longleftrightarrow> cstr a = cstr b"
proof (induction a b rule: str_eq.induct)
  case (1 a b)
  show ?case
  proof (cases "c_at a 0 \<noteq> 0 \<and> c_at b 0 \<noteq> 0")
    case True
    then have "cstr a = c_at a 0 # cstr (tl a)" "cstr b = c_at b 0 # cstr (tl b)"
      using cstr_tl [of a] cstr_tl [of b] by auto
    moreover have "str_eq a b = (c_at a 0 = c_at b 0 \<and> str_eq (tl a) (tl b))"
      using True by (subst str_eq.simps) simp
    ultimately show ?thesis using 1 True by auto
  next
    case False
    then have "str_eq a b = (c_at a 0 = c_at b 0)" by (subst str_eq.simps) auto
    moreover have "cstr a = cstr b \<longleftrightarrow> c_at a 0 = c_at b 0"
      using False by (auto simp: c_at_0 split: list.splits dest: cstr_hd)
    ultimately show ?thesis by simp
  qed
qed

lemma strlen_cstr: "strlen s = length (cstr s)"
proof (induction s rule: strlen.induct)
  case (1 s)
  then show ?case
    by (cases "c_at s 0 = 0") (auto simp: strlen.simps [of s] cstr_tl cstr_Nil_iff [THEN iffD2])
qed

section \<open>Copying a name into a fixed array\<close>

text \<open>
  The loop \<^verbatim>\<open>for (j = 0; j < lim && name[j] != 0; j++) dst[j] = name[j]; dst[j] = 0;\<close> by which the
  file, cache, account and keystore tables store a name.
\<close>

function copy_name_loop :: "nat \<Rightarrow> nat \<Rightarrow> u8 list \<Rightarrow> u8 list \<Rightarrow> u8 list" where
  "copy_name_loop j lim src dst =
     (if j < lim \<and> c_at src j \<noteq> 0
      then copy_name_loop (Suc j) lim src (dst[j := c_at src j])
      else dst[j := 0])"
  by pat_completeness auto
termination by (relation "measure (\<lambda>(j, lim, src, dst). lim - j)") auto

declare copy_name_loop.simps [simp del]

definition copy_name :: "nat \<Rightarrow> u8 list \<Rightarrow> u8 list \<Rightarrow> u8 list" where
  "copy_name lim src dst = copy_name_loop 0 lim src dst"

lemma length_copy_name_loop [simp]: "length (copy_name_loop j lim src dst) = length dst"
  by (induction j lim src dst rule: copy_name_loop.induct) (subst copy_name_loop.simps, auto)

lemma length_copy_name [simp]: "length (copy_name lim src dst) = length dst"
  by (simp add: copy_name_def)

lemma copy_name_loop_take:
  assumes "lim < length dst" and "j \<le> length (cstr src)" and "j \<le> lim"
    and "take j dst = take j (cstr src)"
  shows "cstr (copy_name_loop j lim src dst) = take lim (cstr src)"
  using assms
proof (induction j lim src dst rule: copy_name_loop.induct)
  case (1 j lim src dst)
  have jd: "j < length dst" using "1.prems" by simp
  show ?case
  proof (cases "j < lim \<and> c_at src j \<noteq> 0")
    case True
    have j: "j < length (cstr src)"
      using True "1.prems"(2) c_at_length_cstr [of src] by (cases "j = length (cstr src)") auto
    have "take (Suc j) (dst[j := c_at src j]) = take (Suc j) (cstr src)"
      using "1.prems"(4) jd j c_at_cstr [OF j] by (simp add: take_Suc_conv_app_nth)
    then show ?thesis using True "1.IH" [OF True] "1.prems" j
      by (subst copy_name_loop.simps) simp
  next
    case False
    have cut: "take lim (cstr src) = take j (cstr src)"
    proof (cases "j < lim")
      case True
      then have "c_at src j = 0" using False by simp
      then have "j = length (cstr src)"
        using "1.prems"(2) c_at_cstr [of j src] by (metis le_neq_implies_less)
      then show ?thesis using True by simp
    next
      case False
      then show ?thesis using "1.prems"(3) by simp
    qed
    have "dst[j := 0] = take j dst @ 0 # drop (Suc j) dst"
      using jd by (rule upd_conv_take_nth_drop)
    moreover have "0 \<notin> set (take j (cstr src))"
      using cstr_no_nul by (metis in_set_takeD)
    ultimately have "cstr (dst[j := 0]) = take j (cstr src)"
      using "1.prems"(4) by (simp add: cstr_append_nul)
    moreover have "copy_name_loop j lim src dst = dst[j := 0]"
      using False by (subst copy_name_loop.simps) auto
    ultimately show ?thesis using cut by simp
  qed
qed

text \<open>The stored name is the given one, cut to the capacity of the field.\<close>

lemma cstr_copy_name: "lim < length dst \<Longrightarrow> cstr (copy_name lim src dst) = take lim (cstr src)"
  by (simp add: copy_name_def copy_name_loop_take)

section \<open>Numbers as text\<close>

text \<open>
  \<^verbatim>\<open>itoa\<close>: digits come out least significant first and the buffer is then reversed in place.
  With a base below 2 the C loop divides by zero or does not end; the model has no result there.
\<close>

definition digit_char :: "nat \<Rightarrow> u8" where
  "digit_char rem = (if rem > 9 then of_nat (rem - 10) + 97 else of_nat rem + 48)"

function itoa_digits :: "nat \<Rightarrow> nat \<Rightarrow> u8 list" where
  "itoa_digits num base =
     (if num = 0 \<or> base < 2 then []
      else digit_char (num mod base) # itoa_digits (num div base) base)"
  by pat_completeness auto
termination
  by (relation "measure fst") (auto intro: div_less_dividend)

declare itoa_digits.simps [simp del]

function swap_loop :: "'a list \<Rightarrow> nat \<Rightarrow> nat \<Rightarrow> 'a list" where
  "swap_loop xs start end' =
     (if start < end'
      then swap_loop (xs[start := xs ! end', end' := xs ! start]) (Suc start) (end' - 1)
      else xs)"
  by pat_completeness auto
termination by (relation "measure (\<lambda>(xs, s, e). e - s)") auto

declare swap_loop.simps [simp del]

definition itoa :: "u64 \<Rightarrow> nat \<Rightarrow> u8 list option" where
  "itoa num base =
     (if num = 0 then Some [48]
      else if base < 2 then None
      else let ds = itoa_digits (unat num) base in Some (swap_loop ds 0 (length ds - 1)))"

lemma length_swap_loop [simp]: "length (swap_loop xs s e) = length xs"
  by (induction xs s e rule: swap_loop.induct) (subst swap_loop.simps, auto)

lemma nth_swap_loop:
  assumes "e < length xs" and "i < length xs"
  shows "swap_loop xs s e ! i = (if s \<le> i \<and> i \<le> e then xs ! (s + e - i) else xs ! i)"
  using assms
proof (induction xs s e rule: swap_loop.induct)
  case (1 xs s e)
  show ?case
  proof (cases "s < e")
    case True
    let ?ys = "xs[s := xs ! e, e := xs ! s]"
    have "swap_loop ?ys (Suc s) (e - 1) ! i =
      (if Suc s \<le> i \<and> i \<le> e - 1 then ?ys ! (Suc s + (e - 1) - i) else ?ys ! i)"
      using "1.IH" [OF True] "1.prems" by simp
    then show ?thesis using True "1.prems"
      by (subst swap_loop.simps) (auto simp: nth_list_update)
  next
    case False
    then have "swap_loop xs s e = xs" by (subst swap_loop.simps) simp
    moreover have "i = s + e - i" if "s \<le> i" "i \<le> e" using that False by simp
    ultimately show ?thesis by auto
  qed
qed

lemma swap_loop_rev: "swap_loop xs 0 (length xs - 1) = rev xs"
proof (cases xs)
  case Nil
  then show ?thesis by (simp add: swap_loop.simps)
next
  case (Cons x ys)
  then have ne: "length xs - 1 < length xs" by simp
  show ?thesis
  proof (rule nth_equalityI)
    fix i assume "i < length (swap_loop xs 0 (length xs - 1))"
    then have i: "i < length xs" by simp
    then have "i \<le> length xs - 1" by simp
    then show "swap_loop xs 0 (length xs - 1) ! i = rev xs ! i"
      unfolding nth_swap_loop [OF ne i] using i by (simp add: rev_nth)
  qed simp
qed

text \<open>Reading a digit string back, the inverse of \<open>itoa\<close>.\<close>

definition char_digit :: "u8 \<Rightarrow> nat" where
  "char_digit c = (if 97 \<le> c then unat (c - 97) + 10 else unat (c - 48))"

definition atoi_base :: "nat \<Rightarrow> u8 list \<Rightarrow> nat" where
  "atoi_base base s = foldl (\<lambda>acc c. acc * base + char_digit c) 0 s"

lemma char_digit_char:
  assumes "d < 36"
  shows "char_digit (digit_char d) = d"
proof -
  have small: "unat (of_nat n :: u8) = n" if "n < 256" for n
    using that by (simp add: unat_of_nat take_bit_eq_mod)
  show ?thesis
  proof (cases "d > 9")
    case True
    have u: "unat (of_nat (d - 10) + 97 :: u8) = d + 87"
      using assms True by (simp add: unat_word_ariths small)
    have "unat (digit_char d) = d + 87" using u True by (simp add: digit_char_def)
    moreover from this have "97 \<le> digit_char d" using True by (simp add: word_le_nat_alt)
    moreover from this have "unat (digit_char d - 97) = unat (digit_char d) - 97"
      by (simp add: unat_sub)
    ultimately show ?thesis using True by (simp add: char_digit_def)
  next
    case False
    have u: "unat (of_nat d + 48 :: u8) = d + 48"
      using False by (simp add: unat_word_ariths small)
    have "unat (digit_char d) = d + 48" using u False by (simp add: digit_char_def)
    moreover from this have "\<not> 97 \<le> digit_char d" and "48 \<le> digit_char d"
      using False by (simp_all add: word_le_nat_alt)
    moreover from this(2) have "unat (digit_char d - 48) = unat (digit_char d) - 48"
      by (simp add: unat_sub)
    ultimately show ?thesis by (simp add: char_digit_def)
  qed
qed

lemma atoi_itoa_digits:
  "2 \<le> base \<Longrightarrow> base \<le> 36 \<Longrightarrow> atoi_base base (rev (itoa_digits num base)) = num"
proof (induction num base rule: itoa_digits.induct)
  case (1 num base)
  show ?case
  proof (cases "num = 0")
    case True
    then show ?thesis by (simp add: itoa_digits.simps atoi_base_def)
  next
    case False
    then have unfold: "itoa_digits num base =
        digit_char (num mod base) # itoa_digits (num div base) base"
      using "1.prems" by (subst itoa_digits.simps) simp
    have "num mod base < base" using "1.prems" by simp
    then have "num mod base < 36" using "1.prems" by linarith
    then have "char_digit (digit_char (num mod base)) = num mod base" by (rule char_digit_char)
    then show ?thesis using "1.IH" "1.prems" False by (simp add: unfold atoi_base_def)
  qed
qed

text \<open>
  The text \<^verbatim>\<open>itoa\<close> writes denotes the number it was given, in every base from 2 to 36.
\<close>

theorem itoa_roundtrip:
  assumes "2 \<le> base" and "base \<le> 36"
  shows "\<exists>s. itoa num base = Some s \<and> s \<noteq> [] \<and> atoi_base base s = unat num"
proof (cases "num = 0")
  case True
  then show ?thesis by (simp add: itoa_def atoi_base_def char_digit_def)
next
  case False
  then have "unat num \<noteq> 0" by (simp add: unat_eq_zero)
  then have "itoa_digits (unat num) base \<noteq> []"
    using assms by (subst itoa_digits.simps) simp
  then show ?thesis using False assms
    using swap_loop_rev [of "itoa_digits (unat num) base"]
    by (simp add: itoa_def Let_def atoi_itoa_digits)
qed

theorem itoa_roundtrip_witness:
  "\<exists>s. itoa 2026 10 = Some s \<and> s \<noteq> [] \<and> atoi_base 10 s = unat (2026 :: u64)"
  by (rule itoa_roundtrip) simp_all

end
