(* ===== verification/Frames.thy ===== *)
theory Frames
  imports Prelude
begin

text \<open>
  The contract between the physical page allocator and its clients (page tables, heap, user pages,
  shared segments): allocation hands out a frame nobody references, with one reference; releasing
  a frame drops one reference; frame 0 is never handed out. What the clients' allocate-all-or-roll-back
  loops need is proved here once.
\<close>

locale frame_alloc =
  fixes inv :: "'s \<Rightarrow> bool"
    and alloc :: "'s \<Rightarrow> 's \<times> u64"
    and free :: "'s \<Rightarrow> u64 \<Rightarrow> 's"
    and refs :: "'s \<Rightarrow> u64 \<Rightarrow> nat"
  assumes alloc_inv: "inv s \<Longrightarrow> alloc s = (s', a) \<Longrightarrow> inv s'"
    and alloc_fresh: "inv s \<Longrightarrow> alloc s = (s', a) \<Longrightarrow> a \<noteq> 0 \<Longrightarrow> refs s a = 0"
    and alloc_refs: "inv s \<Longrightarrow> alloc s = (s', a) \<Longrightarrow> a \<noteq> 0 \<Longrightarrow> refs s' = (refs s)(a := 1)"
    and alloc_none: "inv s \<Longrightarrow> alloc s = (s', 0) \<Longrightarrow> s' = s"
    and free_inv: "inv s \<Longrightarrow> inv (free s a)"
    and free_refs: "inv s \<Longrightarrow> refs (free s a) = (refs s)(a := refs s a - 1)"
    and refs_null: "refs s 0 = 0"
begin

lemma free_list_inv: "inv s \<Longrightarrow> inv (foldl free s as)"
  by (induction as arbitrary: s) (simp_all add: free_inv)

text \<open>Releasing a list of frames drops as many references as each frame has occurrences.\<close>

lemma free_list_refs: "inv s \<Longrightarrow> refs (foldl free s as) x = refs s x - count_list as x"
proof (induction as arbitrary: s)
  case Nil
  then show ?case by simp
next
  case (Cons a as)
  then show ?case by (simp add: free_inv free_refs)
qed

lemma alloc_refs_other:
  "inv s \<Longrightarrow> alloc s = (s', a) \<Longrightarrow> x \<noteq> a \<Longrightarrow> refs s' x = refs s x"
  by (cases "a = 0") (auto dest: alloc_refs alloc_none)

lemma alloc_refs_mono: "inv s \<Longrightarrow> alloc s = (s', a) \<Longrightarrow> refs s x \<le> refs s' x"
  by (cases "x = a") (auto simp: alloc_refs_other refs_null dest: alloc_fresh)

lemma alloc_keeps_live: "inv s \<Longrightarrow> alloc s = (s', a) \<Longrightarrow> 0 < refs s x \<Longrightarrow> 0 < refs s' x"
  using alloc_refs_mono [of s s' a x] by simp

text \<open>A frame allocated and given back leaves no trace in the reference counts.\<close>

lemma alloc_free_restores:
  assumes "inv s" and "alloc s = (s', a)" and "a \<noteq> 0"
  shows "refs (free s' a) = refs s"
  using assms alloc_fresh [OF assms] alloc_inv [OF assms(1,2)]
  by (simp add: free_refs alloc_refs fun_upd_idem)

text \<open>A batch of allocations: every frame is new, and they are pairwise different.\<close>

lemma batch_extend:
  assumes "inv s'" and "\<And>x. refs s' x = refs s x + count_list as x"
    and "\<And>x. x \<in> set as \<Longrightarrow> refs s x = 0 \<and> x \<noteq> 0" and "distinct as"
    and "alloc s' = (s'', a)" and "a \<noteq> 0"
  shows "inv s''" and "\<And>x. refs s'' x = refs s x + count_list (as @ [a]) x"
    and "\<And>x. x \<in> set (as @ [a]) \<Longrightarrow> refs s x = 0 \<and> x \<noteq> 0" and "distinct (as @ [a])"
proof -
  have fresh: "refs s' a = 0" using assms(1,5,6) by (rule alloc_fresh)
  have r: "refs s'' = (refs s')(a := 1)" using assms(1,5,6) by (rule alloc_refs)
  have new: "a \<notin> set as" using fresh assms(2) [of a] by (simp add: count_list_0_iff)
  show "inv s''" using assms(1,5) by (rule alloc_inv)
  show "refs s'' x = refs s x + count_list (as @ [a]) x" for x
    using fresh assms(2) [of x] by (auto simp: r)
  show "refs s x = 0 \<and> x \<noteq> 0" if "x \<in> set (as @ [a])" for x
    using that assms(3) [of x] assms(2) [of a] assms(6) fresh by auto
  show "distinct (as @ [a])" using assms(4) new by simp
qed

text \<open>Rolling a batch back restores every count.\<close>

lemma batch_rollback:
  assumes "inv s'" and "\<And>x. refs s' x = refs s x + count_list as x"
  shows "refs (foldl free s' as) = refs s"
  using assms by (simp add: fun_eq_iff free_list_refs)

end

end
