(* ===== verification/Pmm.thy ===== *)
theory Pmm
  imports Frames
begin

text \<open>
  The physical page allocator, \<^verbatim>\<open>mm/pmm.c\<close>: a bitmap (bit set = not free) and a reference count
  per page, scanned from the page after the last allocation. Page numbers are naturals, since
  they stay below \<^verbatim>\<open>total_pages\<close>; addresses, counters and counts keep their C width. Operations
  are polymorphic in the rest of the kernel state (the record's more part), so the theories above
  extend the record and call them as they are.
\<close>

section \<open>State\<close>

record pmm_state =
  bitmap :: "u8 list"
  refcounts :: "u32 list"
  total_pages :: nat
  free_pages :: u64
  last_alloc_index :: nat
  highest_address :: u64
  hhdm_offset :: u64

abbreviation PAGE_SIZE :: nat where "PAGE_SIZE \<equiv> 4096"

definition bitmap_set :: "nat \<Rightarrow> u8 list \<Rightarrow> u8 list" where
  "bitmap_set b bm = bm[b div 8 := bm ! (b div 8) OR push_bit (b mod 8) 1]"

definition bitmap_clear :: "nat \<Rightarrow> u8 list \<Rightarrow> u8 list" where
  "bitmap_clear b bm = bm[b div 8 := bm ! (b div 8) AND NOT (push_bit (b mod 8) 1)]"

definition bitmap_test :: "nat \<Rightarrow> u8 list \<Rightarrow> bool" where
  "bitmap_test b bm \<longleftrightarrow> bm ! (b div 8) AND push_bit (b mod 8) 1 \<noteq> 0"

definition page_addr :: "nat \<Rightarrow> u64" where
  "page_addr p = of_nat (p * PAGE_SIZE)"

definition addr_page :: "u64 \<Rightarrow> nat" where
  "addr_page a = unat a div PAGE_SIZE"

section \<open>Boot: building the bitmap from the memory map\<close>

record memmap_entry =
  e_base :: u64
  e_length :: u64
  e_type :: u64

text \<open>Limine's entry types: usable 0, bootloader reclaimable 5, kernel and modules 6.\<close>

definition counts_as_ram :: "memmap_entry \<Rightarrow> bool" where
  "counts_as_ram e \<longleftrightarrow> (let ty = ucast (e_type e) :: u32 in ty = 0 \<or> ty = 5 \<or> ty = 6)"

definition raise_highest :: "memmap_entry \<Rightarrow> u64 \<Rightarrow> u64" where
  "raise_highest e high =
     (if counts_as_ram e \<and> e_base e + e_length e > high then e_base e + e_length e else high)"

text \<open>The first usable region that holds the metadata; page 0 is never used.\<close>

definition meta_start :: "memmap_entry \<Rightarrow> u64" where
  "meta_start e = (let start = (e_base e + 4095) AND NOT 4095 in if start = 0 then 4096 else start)"

definition fits_metadata :: "u64 \<Rightarrow> memmap_entry \<Rightarrow> bool" where
  "fits_metadata metadata_pages e \<longleftrightarrow>
     e_type e = 0 \<and>
     (let end' = (e_base e + e_length e) AND NOT 4095
      in end' \<ge> meta_start e \<and> end' - meta_start e \<ge> metadata_pages * 4096)"

definition open_page :: "nat \<Rightarrow> 'a pmm_state_scheme \<Rightarrow> 'a pmm_state_scheme" where
  "open_page page s =
     s\<lparr>free_pages := (if bitmap_test page (bitmap s) then free_pages s + 1 else free_pages s),
       bitmap := bitmap_clear page (bitmap s),
       refcounts := (refcounts s)[page := 0]\<rparr>"

definition open_entry :: "memmap_entry \<Rightarrow> 'a pmm_state_scheme \<Rightarrow> 'a pmm_state_scheme" where
  "open_entry e s =
     (if e_type e \<noteq> 0 then s
      else let first = unat ((e_base e + 4095) div 4096);
               end' = unat ((e_base e + e_length e) div 4096);
               first = (if first = 0 then 1 else first)
           in fold open_page [first ..< end'] s)"

definition reserve_page :: "nat \<Rightarrow> 'a pmm_state_scheme \<Rightarrow> 'a pmm_state_scheme" where
  "reserve_page page s =
     s\<lparr>bitmap := bitmap_set page (bitmap s),
       refcounts := (refcounts s)[page := UINT32_MAX],
       free_pages := free_pages s - 1\<rparr>"

text \<open>
  \<open>None\<close> is the boot halt for lack of metadata memory. \<open>hhdm\<close> and \<open>mmap\<close> are the two Limine
  responses (absent when the bootloader gave none).
\<close>

definition pmm_init ::
    "u64 option \<Rightarrow> memmap_entry list option \<Rightarrow> 'a pmm_state_scheme \<Rightarrow> 'a pmm_state_scheme option" where
  "pmm_init hhdm mmap s0 =
     (let s1 = (case hhdm of None \<Rightarrow> s0 | Some off \<Rightarrow> s0\<lparr>hhdm_offset := off\<rparr>)
      in case mmap of
           None \<Rightarrow> Some s1
         | Some entries \<Rightarrow>
             (let high = fold raise_highest entries (highest_address s1);
                  total = (high + 4096 - 1) div 4096;
                  bitmap_size = (total + 7) div 8;
                  refs_offset = (bitmap_size + 4 - 1) AND NOT 3;
                  metadata_bytes = refs_offset + total * 4;
                  metadata_pages = (metadata_bytes + 4096 - 1) div 4096
              in case find_idx (fits_metadata metadata_pages) entries of
                   None \<Rightarrow> None
                 | Some i \<Rightarrow>
                     (let metadata_phys = meta_start (entries ! i);
                          s2 = s1\<lparr>highest_address := high,
                                  total_pages := unat total,
                                  bitmap := replicate (unat bitmap_size) 0xFF,
                                  refcounts := replicate (unat total) UINT32_MAX,
                                  free_pages := 0\<rparr>;
                          s3 = fold open_entry entries s2;
                          first = unat (metadata_phys div 4096)
                      in Some (fold reserve_page [first ..< first + unat metadata_pages] s3))))"

section \<open>Allocation\<close>

function pmm_alloc_scan :: "nat \<Rightarrow> 'a pmm_state_scheme \<Rightarrow> 'a pmm_state_scheme \<times> u64" where
  "pmm_alloc_scan i s =
     (if i < total_pages s
      then let idx = (last_alloc_index s + i) mod total_pages s
           in if \<not> bitmap_test idx (bitmap s)
              then (s\<lparr>bitmap := bitmap_set idx (bitmap s),
                      refcounts := (refcounts s)[idx := 1],
                      free_pages := free_pages s - 1,
                      last_alloc_index := idx + 1\<rparr>, page_addr idx)
              else pmm_alloc_scan (Suc i) s
      else (s, 0))"
  by pat_completeness auto
termination by (relation "measure (\<lambda>(i, s). total_pages s - i)") auto

declare pmm_alloc_scan.simps [simp del]

definition pmm_alloc_page :: "'a pmm_state_scheme \<Rightarrow> 'a pmm_state_scheme \<times> u64" where
  "pmm_alloc_page s = pmm_alloc_scan 0 s"

text \<open>The scan for \<open>count\<close> free pages in a row; \<open>run\<close> is the length of the run that began at
  \<open>start\<close>.\<close>

function contig_scan :: "'a pmm_state_scheme \<Rightarrow> nat \<Rightarrow> nat \<Rightarrow> nat \<Rightarrow> nat \<Rightarrow> nat option" where
  "contig_scan s count i run start =
     (if i < total_pages s
      then if \<not> bitmap_test i (bitmap s)
           then let start = (if run = 0 then i else start); run = Suc run
                in if run = count then Some start else contig_scan s count (Suc i) run start
           else contig_scan s count (Suc i) 0 start
      else None)"
  by pat_completeness auto
termination by (relation "measure (\<lambda>(s, count, i, run, start). total_pages s - i)") auto

declare contig_scan.simps [simp del]

definition take_page :: "nat \<Rightarrow> 'a pmm_state_scheme \<Rightarrow> 'a pmm_state_scheme" where
  "take_page page s =
     s\<lparr>bitmap := bitmap_set page (bitmap s), refcounts := (refcounts s)[page := 1]\<rparr>"

definition pmm_alloc_contiguous_pages ::
    "'a pmm_state_scheme \<Rightarrow> u64 \<Rightarrow> 'a pmm_state_scheme \<times> u64" where
  "pmm_alloc_contiguous_pages s count =
     (if count = 0 \<or> count > free_pages s then (s, 0)
      else if count = 1 then pmm_alloc_page s
      else case contig_scan s (unat count) 0 0 0 of
             None \<Rightarrow> (s, 0)
           | Some start \<Rightarrow>
               ((fold take_page [start ..< start + unat count] s)
                  \<lparr>free_pages := free_pages s - count\<rparr>, page_addr start))"

section \<open>Reference counts\<close>

definition allocated_frame :: "'a pmm_state_scheme \<Rightarrow> u64 \<Rightarrow> bool" where
  "allocated_frame s ptr \<longleftrightarrow>
     (let page = addr_page ptr
      in ptr \<noteq> 0 \<and> ptr AND 4095 = 0 \<and> page < total_pages s \<and> bitmap_test page (bitmap s) \<and>
         refcounts s ! page \<noteq> 0 \<and> refcounts s ! page \<noteq> UINT32_MAX)"

definition pmm_free_page :: "'a pmm_state_scheme \<Rightarrow> u64 \<Rightarrow> 'a pmm_state_scheme" where
  "pmm_free_page s ptr =
     (if \<not> allocated_frame s ptr then s
      else let page = addr_page ptr;
               left = refcounts s ! page - 1;
               s = s\<lparr>refcounts := (refcounts s)[page := left]\<rparr>
           in if left \<noteq> 0 then s
              else s\<lparr>bitmap := bitmap_clear page (bitmap s), free_pages := free_pages s + 1\<rparr>)"

definition pmm_ref_page :: "'a pmm_state_scheme \<Rightarrow> u64 \<Rightarrow> 'a pmm_state_scheme \<times> bool" where
  "pmm_ref_page s ptr =
     (if \<not> allocated_frame s ptr then (s, False)
      else let page = addr_page ptr
           in if refcounts s ! page = UINT32_MAX - 1 then (s, False)
              else (s\<lparr>refcounts := (refcounts s)[page := refcounts s ! page + 1]\<rparr>, True))"

definition pmm_get_refcount :: "'a pmm_state_scheme \<Rightarrow> u64 \<Rightarrow> u32" where
  "pmm_get_refcount s ptr =
     (if allocated_frame s ptr then refcounts s ! addr_page ptr else 0)"

definition pmm_get_free_ram :: "'a pmm_state_scheme \<Rightarrow> u64" where
  "pmm_get_free_ram s = free_pages s * 4096"

section \<open>Bits of the bitmap\<close>

lemma bitmap_test_bit: "bitmap_test b bm \<longleftrightarrow> bit (bm ! (b div 8)) (b mod 8)"
  by (simp add: bitmap_test_def bit_iff_and_push_bit_not_eq_0)

lemma length_bitmap_set [simp]: "length (bitmap_set b bm) = length bm"
  by (simp add: bitmap_set_def)

lemma length_bitmap_clear [simp]: "length (bitmap_clear b bm) = length bm"
  by (simp add: bitmap_clear_def)

lemma same_bit: "b div 8 = c div 8 \<Longrightarrow> b mod 8 = c mod 8 \<Longrightarrow> b = (c :: nat)"
  by (metis div_mult_mod_eq)

lemma bit_u8_exp: "k < 8 \<Longrightarrow> bit (2 ^ k :: u8) j \<longleftrightarrow> j = k"
  by (auto simp: bit_exp_iff)

lemma bitmap_test_set [simp]:
  "c div 8 < length bm \<Longrightarrow> bitmap_test b (bitmap_set c bm) \<longleftrightarrow> b = c \<or> bitmap_test b bm"
  by (cases "b div 8 = c div 8")
    (auto simp: bitmap_test_bit bitmap_set_def bit_or_iff bit_u8_exp push_bit_eq_mult dest: same_bit)

lemma bitmap_test_clear [simp]:
  "c div 8 < length bm \<Longrightarrow> bitmap_test b (bitmap_clear c bm) \<longleftrightarrow> b \<noteq> c \<and> bitmap_test b bm"
  by (cases "b div 8 = c div 8")
    (auto simp: bitmap_test_bit bitmap_clear_def bit_and_iff bit_not_iff bit_u8_exp push_bit_eq_mult
       dest: same_bit)

section \<open>The allocator's invariant\<close>

text \<open>
  Bitmap and counts agree page by page, the counter of free pages is exact, and page 0 is never free.
\<close>

definition pmm_inv :: "'a pmm_state_scheme \<Rightarrow> bool" where
  "pmm_inv s \<longleftrightarrow>
     length (bitmap s) = (total_pages s + 7) div 8 \<and>
     length (refcounts s) = total_pages s \<and>
     total_pages s \<le> 2 ^ 40 \<and>
     (\<forall>p < total_pages s. bitmap_test p (bitmap s) \<longleftrightarrow> refcounts s ! p \<noteq> 0) \<and>
     (0 < total_pages s \<longrightarrow> refcounts s ! 0 \<noteq> 0) \<and>
     unat (free_pages s) = count_if (\<lambda>r. r = 0) (refcounts s)"

lemma pmm_invD:
  assumes "pmm_inv s"
  shows "length (bitmap s) = (total_pages s + 7) div 8" and "length (refcounts s) = total_pages s"
    and "total_pages s \<le> 2 ^ 40"
    and "\<And>p. p < total_pages s \<Longrightarrow> bitmap_test p (bitmap s) \<longleftrightarrow> refcounts s ! p \<noteq> 0"
    and "0 < total_pages s \<Longrightarrow> refcounts s ! 0 \<noteq> 0"
    and "unat (free_pages s) = count_if (\<lambda>r. r = 0) (refcounts s)"
    and "\<And>p. p < total_pages s \<Longrightarrow> p div 8 < length (bitmap s)"
  using assms by (auto simp: pmm_inv_def)

text \<open>How many references a frame has; 0 for a free, reserved or non-existent frame.\<close>

definition frame_refs :: "'a pmm_state_scheme \<Rightarrow> u64 \<Rightarrow> nat" where
  "frame_refs s a = unat (pmm_get_refcount s a)"

lemma unat_page_addr: "p < 2 ^ 40 \<Longrightarrow> unat (page_addr p) = p * PAGE_SIZE"
  by (simp only: page_addr_def unat_of_nat take_bit_eq_mod) simp

lemma addr_page_page_addr [simp]: "p < 2 ^ 40 \<Longrightarrow> addr_page (page_addr p) = p"
  unfolding addr_page_def by (simp only: unat_page_addr nonzero_mult_div_cancel_right)

lemma page_addr_aligned: "p < 2 ^ 40 \<Longrightarrow> page_addr p AND 4095 = 0"
  by (rule word_unat_eq_iff [THEN iffD2]) (simp only: word_page_and unat_page_addr, simp)

lemma page_addr_0_iff: "p < 2 ^ 40 \<Longrightarrow> page_addr p = 0 \<longleftrightarrow> p = 0"
  using unat_page_addr [of p] by (auto simp: page_addr_def)

lemma aligned_page_addr:
  assumes "a AND 4095 = 0"
  shows "page_addr (addr_page a) = a"
proof -
  have "unat a mod 4096 = 0" using word_page_and [of a] assms by simp
  then have "addr_page a * PAGE_SIZE = unat a" by (auto simp: addr_page_def)
  then show ?thesis by (simp add: page_addr_def)
qed

lemma allocated_frameD:
  assumes "allocated_frame s a"
  shows "a \<noteq> 0" and "a AND 4095 = 0" and "addr_page a < total_pages s"
    and "refcounts s ! addr_page a \<noteq> 0" and "refcounts s ! addr_page a \<noteq> UINT32_MAX"
    and "page_addr (addr_page a) = a"
  using assms by (auto simp: allocated_frame_def Let_def intro: aligned_page_addr)

lemma frame_refs_pos: "pmm_inv s \<Longrightarrow> 0 < frame_refs s a \<longleftrightarrow> allocated_frame s a"
  by (cases "allocated_frame s a")
    (auto simp: frame_refs_def pmm_get_refcount_def unat_gt_0 dest: allocated_frameD)

lemma allocated_page_addr:
  assumes "pmm_inv s" and "p < total_pages s"
  shows "allocated_frame s (page_addr p) \<longleftrightarrow>
         p \<noteq> 0 \<and> refcounts s ! p \<noteq> 0 \<and> refcounts s ! p \<noteq> UINT32_MAX"
proof -
  have p: "p < 2 ^ 40" using pmm_invD(3) [OF assms(1)] assms(2) by (rule order.strict_trans2 [rotated])
  show ?thesis
    unfolding allocated_frame_def Let_def addr_page_page_addr [OF p] page_addr_aligned [OF p]
      page_addr_0_iff [OF p] pmm_invD(4) [OF assms]
    using assms(2) by blast
qed

text \<open>
  Every frame is named by its page number, so two states whose counts differ at one page only have
  the same references elsewhere.
\<close>

lemma frame_refs_update:
  assumes inv: "pmm_inv s" "pmm_inv s'" and tot: "total_pages s' = total_pages s"
    and upd: "refcounts s' = (refcounts s)[p := v]"
    and p: "p < total_pages s" "p \<noteq> 0" and v: "v \<noteq> UINT32_MAX"
  shows "frame_refs s' = (frame_refs s)(page_addr p := unat v)"
proof
  fix a
  have p52: "p < 2 ^ 40" using pmm_invD(3) [OF inv(1)] p by simp
  show "frame_refs s' a = ((frame_refs s)(page_addr p := unat v)) a"
  proof (cases "a = page_addr p")
    case True
    have "refcounts s' ! p = v" using upd p pmm_invD(2) [OF inv(1)] by simp
    then show ?thesis using True p p52 v tot allocated_page_addr [OF inv(2), of p]
      by (auto simp: frame_refs_def pmm_get_refcount_def)
  next
    case False
    have "allocated_frame s' a = allocated_frame s a \<and>
      (allocated_frame s a \<longrightarrow> refcounts s' ! addr_page a = refcounts s ! addr_page a)"
    proof (cases "a \<noteq> 0 \<and> a AND 4095 = 0 \<and> addr_page a < total_pages s")
      case True
      then have "page_addr (addr_page a) = a" by (intro aligned_page_addr) simp
      then have "addr_page a \<noteq> p" using False by metis
      then have "refcounts s' ! addr_page a = refcounts s ! addr_page a" using upd by simp
      then show ?thesis
        using True tot pmm_invD(4) [OF inv(1)] pmm_invD(4) [OF inv(2)]
        by (auto simp: allocated_frame_def Let_def)
    next
      case False
      then show ?thesis using tot by (auto simp: allocated_frame_def Let_def)
    qed
    then show ?thesis using False by (simp add: frame_refs_def pmm_get_refcount_def)
  qed
qed

section \<open>Allocation of one page\<close>

text \<open>One page changes its count; the invariant asks that the bit and the counter follow.\<close>

lemma pmm_inv_step:
  assumes inv: "pmm_inv s" and p: "p < total_pages s" and nz: "p = 0 \<Longrightarrow> v \<noteq> 0"
    and tot: "total_pages s' = total_pages s" and len: "length (bitmap s') = length (bitmap s)"
    and refs: "refcounts s' = (refcounts s)[p := v]"
    and bits: "\<And>q. q < total_pages s \<Longrightarrow>
      bitmap_test q (bitmap s') \<longleftrightarrow> (if q = p then v \<noteq> 0 else bitmap_test q (bitmap s))"
    and cnt: "unat (free_pages s') + (if refcounts s ! p = 0 then 1 else 0) =
      unat (free_pages s) + (if v = 0 then 1 else 0)"
  shows "pmm_inv s'"
proof -
  note invD = pmm_invD [OF inv]
  have "unat (free_pages s') = count_if (\<lambda>r. r = 0) (refcounts s')"
    using count_if_update [of p "refcounts s" "\<lambda>r. r = 0" v] p cnt invD(2,6)
    by (simp add: refs split: if_splits)
  moreover have "refcounts s' ! 0 \<noteq> 0" if "0 < total_pages s"
    using invD(5) [OF that] invD(2) nz that p by (cases "p = 0") (simp_all add: refs)
  moreover have "bitmap_test q (bitmap s') \<longleftrightarrow> refcounts s' ! q \<noteq> 0" if "q < total_pages s" for q
    using that invD(2,4) by (simp add: refs bits)
  ultimately show ?thesis
    using invD(1,2,3) by (simp add: pmm_inv_def tot len refs)
qed

lemma count_if_pos: "i < length xs \<Longrightarrow> P (xs ! i) \<Longrightarrow> 0 < count_if P xs"
  by (simp add: count_if_def filter_empty_conv) (use nth_mem in blast)

lemma free_page_counted:
  assumes "pmm_inv s" and "p < total_pages s" and "\<not> bitmap_test p (bitmap s)"
  shows "refcounts s ! p = 0" and "p \<noteq> 0" and "0 < unat (free_pages s)"
    and "unat (free_pages s - 1) = unat (free_pages s) - 1"
proof -
  note invD = pmm_invD [OF assms(1)]
  show rc: "refcounts s ! p = 0" using invD(4) assms(2,3) by blast
  then show "p \<noteq> 0" using invD(5) assms(2) by (metis gr_implies_not_zero gr0I)
  show pos: "0 < unat (free_pages s)"
    using count_if_pos [of p "refcounts s" "\<lambda>r. r = 0"] invD(2,6) assms(2) rc by simp
  then show "unat (free_pages s - 1) = unat (free_pages s) - 1"
    by (simp add: unat_gt_0 unat_minus_one)
qed

lemma some_free_page:
  assumes "pmm_inv s" and "free_pages s \<noteq> 0"
  obtains p where "p < total_pages s" and "\<not> bitmap_test p (bitmap s)"
proof -
  note invD = pmm_invD [OF assms(1)]
  have "count_if (\<lambda>r. r = 0) (refcounts s) \<noteq> 0"
    using invD(6) assms(2) by (metis unat_eq_zero)
  then have "filter (\<lambda>r. r = 0) (refcounts s) \<noteq> []" by (auto simp: count_if_def)
  then obtain p where "p < length (refcounts s)" "refcounts s ! p = 0"
    by (auto simp: filter_empty_conv in_set_conv_nth)
  then show thesis using invD(2,4) that by metis
qed

definition taken :: "'a pmm_state_scheme \<Rightarrow> nat \<Rightarrow> 'a pmm_state_scheme" where
  "taken s idx = s\<lparr>bitmap := bitmap_set idx (bitmap s), refcounts := (refcounts s)[idx := 1],
     free_pages := free_pages s - 1, last_alloc_index := idx + 1\<rparr>"

lemma taken_inv:
  assumes inv: "pmm_inv s" and p: "p < total_pages s" "\<not> bitmap_test p (bitmap s)"
  shows "pmm_inv (taken s p)" and "frame_refs (taken s p) = (frame_refs s)(page_addr p := 1)"
proof -
  note free = free_page_counted [OF inv p]
  show inv': "pmm_inv (taken s p)"
    by (rule pmm_inv_step [OF inv p(1), where v = 1])
      (use free pmm_invD(7) [OF inv p(1)] in \<open>auto simp: taken_def\<close>)
  show "frame_refs (taken s p) = (frame_refs s)(page_addr p := 1)"
    using frame_refs_update [OF inv inv' _ _ p(1) free(2), of 1] by (simp add: taken_def)
qed

lemma free_page_refs:
  assumes "pmm_inv s" and "p < total_pages s" and "\<not> bitmap_test p (bitmap s)"
  shows "frame_refs s (page_addr p) = 0"
  using assms allocated_page_addr [OF assms(1,2)] pmm_invD(4) [OF assms(1,2)]
  by (simp add: frame_refs_def pmm_get_refcount_def)

text \<open>The scan stops at the first free page after the last allocation, wrapping around.\<close>

lemma pmm_alloc_scan_cases:
  obtains (full) "pmm_alloc_scan i s = (s, 0)"
      "\<And>j. i \<le> j \<Longrightarrow> j < total_pages s \<Longrightarrow>
        bitmap_test ((last_alloc_index s + j) mod total_pages s) (bitmap s)"
  | (found) j where "i \<le> j" "j < total_pages s"
      "\<not> bitmap_test ((last_alloc_index s + j) mod total_pages s) (bitmap s)"
      "\<And>k. i \<le> k \<Longrightarrow> k < j \<Longrightarrow>
        bitmap_test ((last_alloc_index s + k) mod total_pages s) (bitmap s)"
      "pmm_alloc_scan i s = (taken s ((last_alloc_index s + j) mod total_pages s),
        page_addr ((last_alloc_index s + j) mod total_pages s))"
proof (induction i s arbitrary: thesis rule: pmm_alloc_scan.induct)
  case (1 i s)
  let ?idx = "(last_alloc_index s + i) mod total_pages s"
  show ?case
  proof (cases "i < total_pages s")
    case False
    then show ?thesis using 1(2) by (simp add: pmm_alloc_scan.simps [of i])
  next
    case True
    show ?thesis
    proof (cases "bitmap_test ?idx (bitmap s)")
      case False
      then show ?thesis using 1(3) [of i] True
        by (simp add: pmm_alloc_scan.simps [of i] taken_def Let_def)
    next
      case taken: True
      have eq: "pmm_alloc_scan i s = pmm_alloc_scan (Suc i) s"
        using True taken by (simp add: pmm_alloc_scan.simps [of i])
      show ?thesis
      proof (rule 1(1) [OF True refl], simp add: taken)
        assume "pmm_alloc_scan (Suc i) s = (s, 0)"
          and "\<And>j. Suc i \<le> j \<Longrightarrow> j < total_pages s \<Longrightarrow>
            bitmap_test ((last_alloc_index s + j) mod total_pages s) (bitmap s)"
        then show thesis using 1(2) eq taken by (metis Suc_leI le_neq_implies_less)
      next
        fix j
        assume "Suc i \<le> j" "j < total_pages s"
          "\<not> bitmap_test ((last_alloc_index s + j) mod total_pages s) (bitmap s)"
          "\<And>k. Suc i \<le> k \<Longrightarrow> k < j \<Longrightarrow>
            bitmap_test ((last_alloc_index s + k) mod total_pages s) (bitmap s)"
          "pmm_alloc_scan (Suc i) s = (taken s ((last_alloc_index s + j) mod total_pages s),
            page_addr ((last_alloc_index s + j) mod total_pages s))"
        then show thesis using 1(3) [of j] eq taken by (metis Suc_leI Suc_leD le_neq_implies_less)
      qed
    qed
  qed
qed

lemma wrap_hits:
  assumes "p < (n :: nat)"
  obtains j where "j < n" and "(k + j) mod n = p"
proof
  have n: "0 < n" and last: "k mod n < n" using assms by auto
  show "(p + n - k mod n) mod n < n" using n by simp
  have "(k + (p + n - k mod n) mod n) mod n = (k mod n + (p + n - k mod n)) mod n"
    by (simp add: mod_add_left_eq mod_add_right_eq)
  also have "k mod n + (p + n - k mod n) = p + n" using last by linarith
  finally show "(k + (p + n - k mod n) mod n) mod n = p" using assms by simp
qed

lemma pmm_alloc_page_cases:
  assumes inv: "pmm_inv s"
  obtains (full) "free_pages s = 0" "pmm_alloc_page s = (s, 0)"
  | (found) p where "p < total_pages s" "\<not> bitmap_test p (bitmap s)" "free_pages s \<noteq> 0" "p \<noteq> 0"
      "pmm_alloc_page s = (taken s p, page_addr p)" "page_addr p \<noteq> 0"
proof (cases rule: pmm_alloc_scan_cases [of 0 s])
  case full': full
  have "free_pages s = 0"
  proof (rule ccontr)
    assume "free_pages s \<noteq> 0"
    then obtain p where p: "p < total_pages s" "\<not> bitmap_test p (bitmap s)"
      by (rule some_free_page [OF inv])
    then obtain j where "j < total_pages s" "(last_alloc_index s + j) mod total_pages s = p"
      by (blast elim: wrap_hits [where k = "last_alloc_index s"])
    then show False using full'(2) [of j] p by simp
  qed
  then show thesis using full' full by (simp add: pmm_alloc_page_def)
next
  case found': (found j)
  let ?p = "(last_alloc_index s + j) mod total_pages s"
  have p: "?p < total_pages s" using found'(2) by simp
  note free = free_page_counted [OF inv p found'(3)]
  have "?p < 2 ^ 40" using p pmm_invD(3) [OF inv] by (rule order.strict_trans2)
  then have "page_addr ?p \<noteq> 0" using free(2) by (metis page_addr_0_iff)
  moreover have "free_pages s \<noteq> 0" using free(3) by auto
  ultimately show thesis using found [of ?p] p free(2) found' by (simp add: pmm_alloc_page_def)
qed

section \<open>Releasing and sharing\<close>

lemma allocated_bit:
  assumes "allocated_frame s a"
  shows "bitmap_test (addr_page a) (bitmap s)"
  using assms by (simp add: allocated_frame_def Let_def)

lemma allocated_page_nz:
  assumes "allocated_frame s a"
  shows "addr_page a \<noteq> 0"
  using allocated_frameD(1,6) [OF assms] by (metis page_addr_def mult_zero_left of_nat_0)

lemma frame_refs_allocated: "allocated_frame s a \<Longrightarrow> frame_refs s a = unat (refcounts s ! addr_page a)"
  by (simp add: frame_refs_def pmm_get_refcount_def)

lemma frame_refs_unallocated: "\<not> allocated_frame s a \<Longrightarrow> frame_refs s a = 0"
  by (simp add: frame_refs_def pmm_get_refcount_def)

lemma unat_free_incr:
  assumes "pmm_inv s" and "p < total_pages s" and "refcounts s ! p \<noteq> 0"
  shows "unat (free_pages s + 1) = Suc (unat (free_pages s))"
proof -
  have "count_if (\<lambda>r. r = 0) (refcounts s) \<le> total_pages s"
    using count_if_le [of "\<lambda>r. r = 0" "refcounts s"] pmm_invD(2) [OF assms(1)] by simp
  then have "unat (free_pages s) \<le> 2 ^ 40" using pmm_invD(3,6) [OF assms(1)] by linarith
  then show ?thesis using unat_add_small [of "free_pages s" 1] by simp
qed

lemma pmm_free_page_inv:
  assumes inv: "pmm_inv s"
  shows "pmm_inv (pmm_free_page s a)"
    and "frame_refs (pmm_free_page s a) = (frame_refs s)(a := frame_refs s a - 1)"
proof -
  have "pmm_inv (pmm_free_page s a) \<and>
    frame_refs (pmm_free_page s a) = (frame_refs s)(a := frame_refs s a - 1)"
  proof (cases "allocated_frame s a")
    case False
    then show ?thesis using inv by (simp add: pmm_free_page_def frame_refs_unallocated fun_upd_idem)
  next
    case True
    note fr = allocated_frameD [OF True] and nz = allocated_page_nz [OF True]
    let ?p = "addr_page a" and ?v = "refcounts s ! addr_page a - 1" and ?s = "pmm_free_page s a"
    have upd: "refcounts ?s = (refcounts s)[?p := ?v]" and tot: "total_pages ?s = total_pages s"
      using True by (simp_all add: pmm_free_page_def Let_def)
    have inv': "pmm_inv ?s"
    proof (rule pmm_inv_step [OF inv fr(3) _ tot _ upd])
      show "bitmap_test q (bitmap ?s) \<longleftrightarrow> (if q = ?p then ?v \<noteq> 0 else bitmap_test q (bitmap s))"
        for q
        using True pmm_invD(7) [OF inv fr(3)] allocated_bit [OF True]
        by (auto simp: pmm_free_page_def Let_def)
      show "unat (free_pages ?s) + (if refcounts s ! ?p = 0 then 1 else 0) =
        unat (free_pages s) + (if ?v = 0 then 1 else 0)"
        using True fr(4) unat_free_incr [OF inv fr(3,4)]
        by (simp add: pmm_free_page_def Let_def)
    qed (use True nz in \<open>simp_all add: pmm_free_page_def Let_def\<close>)
    have "unat ?v = frame_refs s a - 1"
      using fr(4) by (simp add: frame_refs_allocated [OF True] unat_minus_one)
    moreover have "unat ?v < 2 ^ 32 - 1"
      using fr(4) unat32_less [of "refcounts s ! ?p"] by (simp add: unat_minus_one unat_gt_0)
    then have "?v \<noteq> UINT32_MAX" by auto
    ultimately show ?thesis
      using frame_refs_update [OF inv inv' tot upd fr(3) nz] inv' fr(6) by simp
  qed
  then show "pmm_inv (pmm_free_page s a)"
    and "frame_refs (pmm_free_page s a) = (frame_refs s)(a := frame_refs s a - 1)" by blast+
qed

lemma pmm_ref_page_inv:
  assumes inv: "pmm_inv s" and step: "pmm_ref_page s a = (s', ok)"
  shows "pmm_inv s'" and "ok \<longleftrightarrow> 0 < frame_refs s a \<and> frame_refs s a < 2 ^ 32 - 2"
    and "frame_refs s' = (if ok then (frame_refs s)(a := frame_refs s a + 1) else frame_refs s)"
    and "free_pages s' = free_pages s" and "\<not> ok \<Longrightarrow> s' = s"
proof -
  let ?p = "addr_page a"
  show rest: "free_pages s' = free_pages s" "\<not> ok \<Longrightarrow> s' = s"
    using step by (auto simp: pmm_ref_page_def Let_def split: if_splits)
  have max: "refcounts s ! ?p = UINT32_MAX - 1 \<longleftrightarrow> unat (refcounts s ! ?p) = 2 ^ 32 - 2"
    by (simp add: word_unat_eq_iff)
  have lt: "allocated_frame s a \<Longrightarrow> unat (refcounts s ! ?p) < 2 ^ 32 - 1"
    using allocated_frameD(5) [of s a] unat32_less [of "refcounts s ! ?p"]
    by (simp add: word_unat_eq_iff)
  show ok: "ok \<longleftrightarrow> 0 < frame_refs s a \<and> frame_refs s a < 2 ^ 32 - 2"
  proof (cases "allocated_frame s a")
    case False
    then show ?thesis using step by (simp add: pmm_ref_page_def frame_refs_unallocated)
  next
    case True
    have "ok \<longleftrightarrow> refcounts s ! ?p \<noteq> UINT32_MAX - 1"
      using step True by (auto simp: pmm_ref_page_def Let_def split: if_splits)
    then show ?thesis using max lt True frame_refs_pos [OF inv, of a]
      by (auto simp: frame_refs_allocated)
  qed
  have "pmm_inv s' \<and>
    frame_refs s' = (if ok then (frame_refs s)(a := frame_refs s a + 1) else frame_refs s)"
  proof (cases ok)
    case False
    then show ?thesis using rest inv by simp
  next
    case True
    then have al: "allocated_frame s a" using ok frame_refs_pos [OF inv] by blast
    note fr = allocated_frameD [OF al] and nz = allocated_page_nz [OF al]
    let ?v = "refcounts s ! ?p + 1"
    have upd: "refcounts s' = (refcounts s)[?p := ?v]" and tot: "total_pages s' = total_pages s"
      and bm: "bitmap s' = bitmap s"
      using step True by (auto simp: pmm_ref_page_def Let_def split: if_splits)
    have "unat (refcounts s ! ?p) < 2 ^ 32 - 2" using ok True by (simp add: frame_refs_allocated [OF al])
    then have v: "unat ?v = frame_refs s a + 1"
      by (simp add: frame_refs_allocated [OF al] unat_word_ariths)
    have v1: "?v \<noteq> 0" and v2: "?v \<noteq> UINT32_MAX"
      using v ok True by (auto simp: word_unat_eq_iff)
    have inv': "pmm_inv s'"
      by (rule pmm_inv_step [OF inv fr(3) _ tot _ upd])
        (use v1 bm rest(1) fr(4) allocated_bit [OF al] in auto)
    show ?thesis using frame_refs_update [OF inv inv' tot upd fr(3) nz v2] inv' fr(6) v True by simp
  qed
  then show "pmm_inv s'"
    and "frame_refs s' = (if ok then (frame_refs s)(a := frame_refs s a + 1) else frame_refs s)"
    by blast+
qed

section \<open>The allocator meets the frame contract\<close>

lemma pmm_alloc_contract:
  assumes inv: "pmm_inv s" and step: "pmm_alloc_page s = (s', a)"
  shows "pmm_inv s'" and "a \<noteq> 0 \<Longrightarrow> frame_refs s a = 0"
    and "a \<noteq> 0 \<Longrightarrow> frame_refs s' = (frame_refs s)(a := 1)"
    and "a = 0 \<Longrightarrow> s' = s" and "a = 0 \<longleftrightarrow> free_pages s = 0"
    and "a \<noteq> 0 \<Longrightarrow> a AND 4095 = 0 \<and> addr_page a < total_pages s"
    and "a \<noteq> 0 \<Longrightarrow> unat (free_pages s') = unat (free_pages s) - 1"
    and "total_pages s' = total_pages s"
proof -
  have "pmm_inv s' \<and> (a \<noteq> 0 \<longrightarrow> frame_refs s a = 0) \<and>
    (a \<noteq> 0 \<longrightarrow> frame_refs s' = (frame_refs s)(a := 1)) \<and> (a = 0 \<longrightarrow> s' = s) \<and>
    (a = 0 \<longleftrightarrow> free_pages s = 0) \<and>
    (a \<noteq> 0 \<longrightarrow> a AND 4095 = 0 \<and> addr_page a < total_pages s) \<and>
    (a \<noteq> 0 \<longrightarrow> unat (free_pages s') = unat (free_pages s) - 1) \<and> total_pages s' = total_pages s"
    using inv
  proof (cases rule: pmm_alloc_page_cases)
    case full
    then show ?thesis using step inv by simp
  next
    case (found p)
    have eq: "s' = taken s p" "a = page_addr p" using found step by auto
    have p: "p < 2 ^ 40" using found(1) pmm_invD(3) [OF inv] by (rule order.strict_trans2)
    have "total_pages s' = total_pages s" "free_pages s' = free_pages s - 1"
      by (simp_all add: eq taken_def)
    then show ?thesis
      using taken_inv [OF inv found(1,2)] free_page_refs [OF inv found(1,2)] found
        free_page_counted(4) [OF inv found(1,2)] addr_page_page_addr [OF p]
        page_addr_aligned [OF p] eq by simp
  qed
  then show "pmm_inv s'" and "a \<noteq> 0 \<Longrightarrow> frame_refs s a = 0"
    and "a \<noteq> 0 \<Longrightarrow> frame_refs s' = (frame_refs s)(a := 1)"
    and "a = 0 \<Longrightarrow> s' = s" and "a = 0 \<longleftrightarrow> free_pages s = 0"
    and "a \<noteq> 0 \<Longrightarrow> a AND 4095 = 0 \<and> addr_page a < total_pages s"
    and "a \<noteq> 0 \<Longrightarrow> unat (free_pages s') = unat (free_pages s) - 1"
    and "total_pages s' = total_pages s" by blast+
qed

lemma frame_refs_null: "frame_refs s 0 = 0"
  by (simp add: frame_refs_unallocated allocated_frame_def)

interpretation pmm: frame_alloc pmm_inv pmm_alloc_page pmm_free_page frame_refs
  by unfold_locales
    (fact pmm_alloc_contract(1) pmm_alloc_contract(2) pmm_alloc_contract(3)
       pmm_alloc_contract(4) [OF _ _ refl] pmm_free_page_inv frame_refs_null)+

section \<open>Runs of pages\<close>

definition free_run :: "'a pmm_state_scheme \<Rightarrow> nat \<Rightarrow> nat \<Rightarrow> bool" where
  "free_run s start n \<longleftrightarrow>
     start + n \<le> total_pages s \<and> (\<forall>q \<in> {start ..< start + n}. \<not> bitmap_test q (bitmap s))"

lemma contig_scan_sound:
  assumes "contig_scan s count i run start = Some p" and "run < count"
    and "run \<noteq> 0 \<Longrightarrow> start + run = i"
    and "\<And>q. run \<noteq> 0 \<Longrightarrow> start \<le> q \<Longrightarrow> q < i \<Longrightarrow> \<not> bitmap_test q (bitmap s)"
  shows "free_run s p count"
  using assms
proof (induction s count i run start arbitrary: p rule: contig_scan.induct)
  case (1 s count i run start)
  have lt: "i < total_pages s"
    using 1(3) by (rule contrapos_pp) (simp add: contig_scan.simps [of s])
  show ?case
  proof (cases "bitmap_test i (bitmap s)")
    case True
    then have "contig_scan s count (Suc i) 0 start = Some p"
      using 1(3) lt by (simp add: contig_scan.simps [of s count i])
    then show ?thesis using 1(2) [OF lt] True 1(4) by simp
  next
    case False
    let ?start = "if run = 0 then i else start"
    have eq: "?start + run = i" using 1(5) by simp
    have free: "\<not> bitmap_test q (bitmap s)" if "?start \<le> q" "q < Suc i" for q
      using that False 1(6) [of q] by (cases "q = i") (auto split: if_splits)
    show ?thesis
    proof (cases "Suc run = count")
      case True
      then have "p = ?start"
        using 1(3) lt False by (simp add: contig_scan.simps [of s count i] split: if_splits)
      then show ?thesis using True lt eq free by (auto simp: free_run_def)
    next
      case neq: False
      then have "contig_scan s count (Suc i) (Suc run) ?start = Some p"
        using 1(3) lt False by (simp add: contig_scan.simps [of s count i] Let_def)
      then show ?thesis using 1(1) [OF lt False refl refl neq] neq 1(4) eq free by simp
    qed
  qed
qed

lemma contig_scan_complete:
  assumes "contig_scan s count i run start = None" and "run < count" and "run \<le> i"
    and "i - run \<le> p"
  shows "\<not> free_run s p count"
  using assms
proof (induction s count i run start arbitrary: p rule: contig_scan.induct)
  case (1 s count i run start)
  show ?case
  proof (cases "i < total_pages s")
    case False
    then show ?thesis using 1(4-6) by (auto simp: free_run_def)
  next
    case lt: True
    show ?thesis
    proof (cases "bitmap_test i (bitmap s)")
      case True
      then have none: "contig_scan s count (Suc i) 0 start = None"
        using 1(3) lt by (simp add: contig_scan.simps [of s count i])
      show ?thesis
      proof (cases "p \<le> i")
        case True
        then have "i \<in> {p ..< p + count}" using 1(4-6) by auto
        then show ?thesis using \<open>bitmap_test i (bitmap s)\<close> by (auto simp: free_run_def)
      next
        case False
        then show ?thesis using 1(2) [OF lt] \<open>bitmap_test i (bitmap s)\<close> none 1(4) by simp
      qed
    next
      case False
      have neq: "Suc run \<noteq> count"
        using 1(3) lt False by (auto simp: contig_scan.simps [of s count i] Let_def)
      then have "contig_scan s count (Suc i) (Suc run) (if run = 0 then i else start) = None"
        using 1(3) lt False by (simp add: contig_scan.simps [of s count i] Let_def)
      then show ?thesis using 1(1) [OF lt False refl refl neq] neq 1(4-6) by simp
    qed
  qed
qed

definition taken_run :: "'a pmm_state_scheme \<Rightarrow> nat \<Rightarrow> nat \<Rightarrow> 'a pmm_state_scheme" where
  "taken_run s start n =
     (fold take_page [start ..< start + n] s)\<lparr>free_pages := free_pages s - of_nat n\<rparr>"

lemma take_pages_fields [simp]:
  "total_pages (fold take_page ps s) = total_pages s"
  "length (bitmap (fold take_page ps s)) = length (bitmap s)"
  by (induction ps arbitrary: s) (simp_all add: take_page_def)

lemma taken_run_inv:
  assumes inv: "pmm_inv s" and run: "free_run s start n"
  shows "pmm_inv (taken_run s start n)"
    and "frame_refs (taken_run s start n) =
      (\<lambda>a. if a \<in> page_addr ` {start ..< start + n} then 1 else frame_refs s a)"
    and "bitmap_test q (bitmap (taken_run s start n)) \<longleftrightarrow>
      q \<in> {start ..< start + n} \<or> bitmap_test q (bitmap s)"
proof -
  have "free_run s start n \<Longrightarrow> pmm_inv (taken_run s start n) \<and>
    frame_refs (taken_run s start n) =
      (\<lambda>a. if a \<in> page_addr ` {start ..< start + n} then 1 else frame_refs s a) \<and>
    (\<forall>q. bitmap_test q (bitmap (taken_run s start n)) \<longleftrightarrow>
      q \<in> {start ..< start + n} \<or> bitmap_test q (bitmap s))"
  proof (induction n)
    case 0
    then show ?case using inv by (simp add: taken_run_def)
  next
    case (Suc n)
    let ?t = "taken_run s start n" and ?u = "taken_run s start (Suc n)" and ?p = "start + n"
    have IH: "pmm_inv ?t" "frame_refs ?t =
        (\<lambda>a. if a \<in> page_addr ` {start ..< start + n} then 1 else frame_refs s a)"
      "\<And>q. bitmap_test q (bitmap ?t) \<longleftrightarrow> q \<in> {start ..< start + n} \<or> bitmap_test q (bitmap s)"
      using Suc by (auto simp: free_run_def)
    have p: "?p < total_pages ?t" "\<not> bitmap_test ?p (bitmap ?t)"
      using Suc.prems unfolding IH(3) by (simp_all add: free_run_def taken_run_def)
    note fr = free_page_counted [OF IH(1) p]
    have u: "total_pages ?u = total_pages ?t" "bitmap ?u = bitmap_set ?p (bitmap ?t)"
      "refcounts ?u = (refcounts ?t)[?p := 1]" "free_pages ?u = free_pages ?t - 1"
      by (simp_all add: taken_run_def take_page_def)
    have bits: "bitmap_test q (bitmap ?u) \<longleftrightarrow> q = ?p \<or> bitmap_test q (bitmap ?t)" for q
      using pmm_invD(7) [OF IH(1) p(1)] by (simp add: u)
    have inv': "pmm_inv ?u"
      by (rule pmm_inv_step [OF IH(1) p(1) _ u(1) _ u(3)]) (use fr u bits in auto)
    have "frame_refs ?u = (frame_refs ?t)(page_addr ?p := unat (1 :: u32))"
      by (rule frame_refs_update [OF IH(1) inv' u(1,3) p(1) fr(2)]) simp
    then show ?case using inv' by (auto simp: IH bits fun_eq_iff atLeastLessThanSuc)
  qed
  then show "pmm_inv (taken_run s start n)" and "frame_refs (taken_run s start n) =
      (\<lambda>a. if a \<in> page_addr ` {start ..< start + n} then 1 else frame_refs s a)"
    and "bitmap_test q (bitmap (taken_run s start n)) \<longleftrightarrow>
      q \<in> {start ..< start + n} \<or> bitmap_test q (bitmap s)"
    using run by blast+
qed

lemma free_run_counted:
  assumes inv: "pmm_inv s" and run: "free_run s start n"
  shows "n \<le> unat (free_pages s)"
proof -
  let ?Z = "{i. i < length (refcounts s) \<and> refcounts s ! i = 0}"
  have "{start ..< start + n} \<subseteq> ?Z"
    using run pmm_invD(2,4) [OF inv] by (auto simp: free_run_def)
  then have "n \<le> card ?Z" using card_mono [of ?Z "{start ..< start + n}"] by simp
  then show ?thesis by (simp add: pmm_invD(6) [OF inv] count_if_def length_filter_conv_card)
qed

section \<open>Boot\<close>

text \<open>What Limine promises: addresses within the 52-bit physical range of x86-64.\<close>

definition sane_memmap :: "memmap_entry list \<Rightarrow> bool" where
  "sane_memmap entries \<longleftrightarrow>
     (\<forall>e \<in> set entries. unat (e_base e) + unat (e_length e) \<le> 2 ^ 52)"

text \<open>The pages a usable entry contributes, and those the metadata takes from it.\<close>

definition usable_pages :: "memmap_entry \<Rightarrow> nat set" where
  "usable_pages e =
     (if e_type e \<noteq> 0 then {}
      else {p. p \<noteq> 0 \<and> unat (e_base e) \<le> p * 4096 \<and>
               (p + 1) * 4096 \<le> unat (e_base e) + unat (e_length e)})"

lemma entry_top: "unat (e_base e) + unat (e_length e) \<le> 2 ^ 52 \<Longrightarrow>
  unat (e_base e + e_length e) = unat (e_base e) + unat (e_length e)"
  using unat_add_small [of "e_base e" "unat (e_length e)"] by simp

lemma entry_round_up: "unat (e_base e) + unat (e_length e) \<le> 2 ^ 52 \<Longrightarrow>
  unat (e_base e + 4095) = unat (e_base e) + 4095"
  using unat_add_small [of "e_base e" 4095] by simp

lemma usable_pages_range:
  assumes "e_type e = 0" and "unat (e_base e) + unat (e_length e) \<le> 2 ^ 52"
  shows "usable_pages e =
    {(if unat ((e_base e + 4095) div 4096) = 0 then 1 else unat ((e_base e + 4095) div 4096)) ..<
     unat ((e_base e + e_length e) div 4096)}"
  using assms by (auto simp: usable_pages_def unat_div entry_top entry_round_up)

lemma raise_highest_mono: "unat high \<le> unat (raise_highest e high)"
  by (simp add: raise_highest_def word_less_nat_alt)

lemma fold_raise_highest:
  assumes "\<forall>e \<in> set es. unat (e_base e) + unat (e_length e) \<le> 2 ^ 52" and "unat high \<le> 2 ^ 52"
  shows "unat high \<le> unat (fold raise_highest es high) \<and>
    unat (fold raise_highest es high) \<le> 2 ^ 52 \<and>
    (\<forall>e \<in> set es. e_type e = 0 \<longrightarrow>
      unat (e_base e) + unat (e_length e) \<le> unat (fold raise_highest es high))"
  using assms
proof (induction es arbitrary: high)
  case Nil
  then show ?case by simp
next
  case (Cons e es)
  let ?h = "raise_highest e high"
  have top: "unat (e_base e + e_length e) = unat (e_base e) + unat (e_length e)"
    using Cons.prems by (intro entry_top) simp
  then have "unat ?h \<le> 2 ^ 52" using Cons.prems by (simp add: raise_highest_def)
  moreover have "unat (e_base e) + unat (e_length e) \<le> unat ?h" if "e_type e = 0"
    using that top by (auto simp: raise_highest_def counts_as_ram_def word_less_nat_alt not_less)
  moreover have "unat high \<le> unat ?h" by (rule raise_highest_mono)
  ultimately show ?case using Cons.IH [of ?h] Cons.prems by fastforce
qed

lemma open_page_inv:
  assumes inv: "pmm_inv s" and p: "p < total_pages s" "p \<noteq> 0"
  shows "pmm_inv (open_page p s)" and "total_pages (open_page p s) = total_pages s"
    and "refcounts (open_page p s) = (refcounts s)[p := 0]"
proof -
  show t: "total_pages (open_page p s) = total_pages s"
    "refcounts (open_page p s) = (refcounts s)[p := 0]" by (simp_all add: open_page_def)
  show "pmm_inv (open_page p s)"
  proof (rule pmm_inv_step [OF inv p(1) _ t(1) _ t(2)])
    show "unat (free_pages (open_page p s)) + (if refcounts s ! p = 0 then 1 else 0) =
      unat (free_pages s) + (if (0 :: u32) = 0 then 1 else 0)"
      using pmm_invD(4) [OF inv p(1)] unat_free_incr [OF inv p(1)] by (simp add: open_page_def)
  qed (use p pmm_invD(7) [OF inv p(1)] in \<open>auto simp: open_page_def\<close>)
qed

lemma reserve_page_inv:
  assumes inv: "pmm_inv s" and p: "p < total_pages s" "refcounts s ! p = 0"
  shows "pmm_inv (reserve_page p s)" and "total_pages (reserve_page p s) = total_pages s"
    and "refcounts (reserve_page p s) = (refcounts s)[p := UINT32_MAX]"
proof -
  have free: "\<not> bitmap_test p (bitmap s)" using pmm_invD(4) [OF inv p(1)] p(2) by simp
  note fr = free_page_counted [OF inv p(1) free]
  show t: "total_pages (reserve_page p s) = total_pages s"
    "refcounts (reserve_page p s) = (refcounts s)[p := UINT32_MAX]"
    by (simp_all add: reserve_page_def)
  show "pmm_inv (reserve_page p s)"
    by (rule pmm_inv_step [OF inv p(1) _ t(1) _ t(2)])
      (use p fr pmm_invD(7) [OF inv p(1)] in \<open>auto simp: reserve_page_def\<close>)
qed

lemma fold_open_page:
  assumes "pmm_inv s" and "\<forall>p \<in> set ps. p < total_pages s \<and> p \<noteq> 0"
  shows "pmm_inv (fold open_page ps s) \<and> total_pages (fold open_page ps s) = total_pages s \<and>
    (\<forall>p < total_pages s. refcounts (fold open_page ps s) ! p =
      (if p \<in> set ps then 0 else refcounts s ! p))"
  using assms
proof (induction ps arbitrary: s)
  case Nil
  then show ?case by simp
next
  case (Cons p ps)
  have p: "p < total_pages s" "p \<noteq> 0" using Cons.prems(2) by simp_all
  note op = open_page_inv [OF Cons.prems(1) p]
  have "\<forall>q \<in> set ps. q < total_pages (open_page p s) \<and> q \<noteq> 0" using Cons.prems(2) op(2) by simp
  from Cons.IH [OF op(1) this] show ?case
    using op(2,3) pmm_invD(2) [OF Cons.prems(1)] by (auto simp: nth_list_update)
qed

lemma fold_reserve_page:
  assumes "pmm_inv s" and "\<forall>p \<in> set ps. p < total_pages s \<and> refcounts s ! p = 0"
    and "distinct ps"
  shows "pmm_inv (fold reserve_page ps s) \<and> total_pages (fold reserve_page ps s) = total_pages s \<and>
    (\<forall>p < total_pages s. refcounts (fold reserve_page ps s) ! p =
      (if p \<in> set ps then UINT32_MAX else refcounts s ! p))"
  using assms
proof (induction ps arbitrary: s)
  case Nil
  then show ?case by simp
next
  case (Cons p ps)
  have p: "p < total_pages s" "refcounts s ! p = 0" using Cons.prems(2) by simp_all
  note op = reserve_page_inv [OF Cons.prems(1) p]
  have len: "length (refcounts s) = total_pages s" using pmm_invD(2) [OF Cons.prems(1)] .
  have "\<forall>q \<in> set ps. q < total_pages (reserve_page p s) \<and> refcounts (reserve_page p s) ! q = 0"
    using Cons.prems(2,3) op(2,3) len by (auto simp: nth_list_update)
  from Cons.IH [OF op(1) this] show ?case
    using Cons.prems(3) op(2,3) len by (auto simp: nth_list_update)
qed

lemma open_entries:
  assumes "pmm_inv s" and "sane_memmap es"
    and "\<forall>e \<in> set es. e_type e = 0 \<longrightarrow>
      unat (e_base e) + unat (e_length e) \<le> total_pages s * 4096"
  shows "pmm_inv (fold open_entry es s) \<and> total_pages (fold open_entry es s) = total_pages s \<and>
    (\<forall>p < total_pages s. refcounts (fold open_entry es s) ! p =
      (if \<exists>e \<in> set es. p \<in> usable_pages e then 0 else refcounts s ! p))"
  using assms
proof (induction es arbitrary: s)
  case Nil
  then show ?case by simp
next
  case (Cons e es)
  have sane: "unat (e_base e) + unat (e_length e) \<le> 2 ^ 52" "sane_memmap es"
    using Cons.prems(2) by (simp_all add: sane_memmap_def)
  have step: "pmm_inv (open_entry e s) \<and> total_pages (open_entry e s) = total_pages s \<and>
    (\<forall>p < total_pages s. refcounts (open_entry e s) ! p =
      (if p \<in> usable_pages e then 0 else refcounts s ! p))"
  proof (cases "e_type e = 0")
    case False
    then show ?thesis using Cons.prems(1) by (simp add: open_entry_def usable_pages_def)
  next
    case True
    define lo where "lo = (let f = unat ((e_base e + 4095) div 4096) in if f = 0 then 1 else f)"
    define hi where "hi = unat ((e_base e + e_length e) div 4096)"
    have set: "set [lo ..< hi] = usable_pages e"
      by (simp add: usable_pages_range [OF True sane(1)] lo_def hi_def)
    have in_range: "\<forall>p \<in> set [lo ..< hi]. p < total_pages s \<and> p \<noteq> 0"
      unfolding set using Cons.prems(3) True by (force simp: usable_pages_def)
    have eq: "open_entry e s = fold open_page [lo ..< hi] s"
      using True by (simp add: open_entry_def lo_def hi_def Let_def)
    show ?thesis
      using fold_open_page [OF Cons.prems(1) in_range] unfolding eq set by blast
  qed
  then show ?case using Cons.IH [of "open_entry e s"] Cons.prems(3) sane(2) by auto
qed

lemma bit_all_ones: "k < 8 \<Longrightarrow> bit (0xFF :: u8) k"
  using bit_mask_iff [of 8 k, where 'a = u8] by (simp add: mask_eq_exp_minus_1)

lemma closed_bitmap_inv:
  assumes "total_pages s \<le> 2 ^ 40" and "bitmap s = replicate ((total_pages s + 7) div 8) 0xFF"
    and "refcounts s = replicate (total_pages s) UINT32_MAX" and "free_pages s = 0"
  shows "pmm_inv s"
proof -
  have "bitmap_test p (bitmap s)" if "p < total_pages s" for p
  proof -
    have "p div 8 < (total_pages s + 7) div 8" using that by linarith
    then show ?thesis
      using bit_all_ones [of "p mod 8"] by (simp add: bitmap_test_bit assms(2))
  qed
  then show ?thesis using assms by (simp add: pmm_inv_def count_if_def)
qed

text \<open>What the metadata scan computes, in naturals.\<close>

lemma metadata_arith:
  fixes high n :: u64
  assumes "unat high \<le> 2 ^ 52" and n_def: "n = (high + 4096 - 1) div 4096"
  shows "unat n = (unat high + 4095) div 4096" and "unat n \<le> 2 ^ 40"
    and "unat ((n + 7) div 8) = (unat n + 7) div 8"
    and "unat (((((n + 7) div 8 + 4 - 1) AND NOT 3) + n * 4 + 4096 - 1) div 4096) \<le> 2 ^ 41"
proof -
  have "unat (high + 4095) = unat high + 4095"
    using assms(1) unat_add_small [of high 4095] by simp
  moreover have "n = (high + 4095) div 4096" by (simp add: n_def add.commute)
  ultimately show t: "unat n = (unat high + 4095) div 4096" by (simp add: unat_div)
  then show le: "unat n \<le> 2 ^ 40" using assms(1) by simp
  then have "unat (n + 7) = unat n + 7" using unat_add_small [of n 7] by simp
  then show b: "unat ((n + 7) div 8) = (unat n + 7) div 8" by (simp add: unat_div)
  let ?b = "(n + 7) div 8"
  have "unat (?b + 3) = unat ?b + 3" using b le unat_add_small [of ?b 3] by simp
  moreover have "(?b + 3) AND NOT 3 \<le> ?b + 3" by (rule word_and_le2)
  ultimately have r: "unat ((?b + 3) AND NOT 3) \<le> 2 ^ 39 + 4"
    using b le by (simp add: word_le_nat_alt)
  have m: "unat (n * 4) = unat n * 4" using le by (simp add: unat_word_ariths)
  have s1: "unat (((?b + 3) AND NOT 3) + n * 4) = unat ((?b + 3) AND NOT 3) + unat (n * 4)"
    using r m le unat_add_small [of "(?b + 3) AND NOT 3" "unat (n * 4)"] by simp
  let ?m = "((?b + 3) AND NOT 3) + n * 4"
  have "unat (?m + 4095) = unat ?m + 4095"
    using unat_add_small [of ?m 4095] s1 r m le by simp
  then have "unat ((?m + 4095) div 4096) = (unat ?m + 4095) div 4096" by (simp add: unat_div)
  also have "\<dots> \<le> 2 ^ 41" using s1 r m le by simp
  finally show "unat (((((n + 7) div 8 + 4 - 1) AND NOT 3) + n * 4 + 4096 - 1) div 4096)
    \<le> 2 ^ 41" by (simp add: algebra_simps)
qed

text \<open>The pages of the region that holds the metadata belong to its entry.\<close>

lemma metadata_in_entry:
  assumes fits: "fits_metadata n e" and sane: "unat (e_base e) + unat (e_length e) \<le> 2 ^ 52"
    and n: "unat n \<le> 2 ^ 41" and p: "p \<in> {unat (meta_start e div 4096) ..< unat (meta_start e div 4096) + unat n}"
  shows "p \<in> usable_pages e"
proof -
  let ?top = "unat (e_base e) + unat (e_length e)"
  define first where "first = (unat (e_base e) + 4095) div 4096"
  have floor: "unat ((e_base e + 4095) AND NOT 4095) = first * 4096"
    using unat_page_floor [of "e_base e + 4095"] entry_round_up [OF sane] by (simp add: first_def)
  have z: "(e_base e + 4095) AND NOT 4095 = 0 \<longleftrightarrow> first = 0"
    using floor by (metis mult_is_0 unat_eq_zero unsigned_0 zero_neq_numeral)
  have start: "unat (meta_start e) = (if first = 0 then 1 else first) * 4096"
  proof (cases "first = 0")
    case True
    then have "meta_start e = 4096" using z unfolding meta_start_def Let_def by simp
    then show ?thesis using True by simp
  next
    case False
    then have "meta_start e = (e_base e + 4095) AND NOT 4095"
      using z unfolding meta_start_def Let_def by simp
    then show ?thesis using False floor by simp
  qed
  have top: "unat ((e_base e + e_length e) AND NOT 4095) = ?top div 4096 * 4096"
    using unat_page_floor [of "e_base e + e_length e"] entry_top [OF sane] by simp
  have t: "e_type e = 0" and le: "meta_start e \<le> (e_base e + e_length e) AND NOT 4095"
    and room: "n * 4096 \<le> ((e_base e + e_length e) AND NOT 4095) - meta_start e"
    using fits by (simp_all add: fits_metadata_def Let_def)
  have "unat (n * 4096) = unat n * 4096" using n by (simp add: unat_word_ariths)
  then have "unat n * 4096 \<le> ?top div 4096 * 4096 - unat (meta_start e)"
    using room le top by (simp add: word_le_nat_alt unat_sub)
  moreover have "unat (meta_start e) \<le> ?top div 4096 * 4096"
    using le top by (simp add: word_le_nat_alt)
  ultimately have hi: "unat (meta_start e div 4096) + unat n \<le> ?top div 4096"
    using start by (simp add: unat_div)
  have lo: "unat (meta_start e div 4096) = (if first = 0 then 1 else first)"
    using start by (simp add: unat_div)
  have "unat (e_base e) \<le> first * 4096" by (simp add: first_def)
  then show ?thesis using t p hi lo
    by (auto simp: usable_pages_def first_def split: if_splits)
qed

definition metadata_frames :: "u64 \<Rightarrow> memmap_entry list \<Rightarrow> u64" where
  "metadata_frames high entries =
     (let n = (fold raise_highest entries high + 4096 - 1) div 4096
      in ((((n + 7) div 8 + 4 - 1) AND NOT 3) + n * 4 + 4096 - 1) div 4096)"

lemma pmm_init_unfold:
  assumes "highest_address s = high"
  shows "pmm_init hhdm (Some es) s =
    (case find_idx (fits_metadata (metadata_frames high es)) es of None \<Rightarrow> None
     | Some i \<Rightarrow>
       let n = (fold raise_highest es high + 4096 - 1) div 4096;
           m = unat (meta_start (es ! i) div 4096)
       in Some (fold reserve_page [m ..< m + unat (metadata_frames high es)] (fold open_entry es
            ((case hhdm of None \<Rightarrow> s | Some off \<Rightarrow> s\<lparr>hhdm_offset := off\<rparr>)
              \<lparr>highest_address := fold raise_highest es high, total_pages := unat n,
               bitmap := replicate (unat ((n + 7) div 8)) 0xFF,
               refcounts := replicate (unat n) UINT32_MAX, free_pages := 0\<rparr>))))"
  using assms by (simp add: pmm_init_def metadata_frames_def Let_def split: option.splits)


text \<open>
  A concrete machine: one usable region of eight pages at 1 MiB.
\<close>

definition boot_zero :: pmm_state where
  "boot_zero = \<lparr>bitmap = [], refcounts = [], total_pages = 0, free_pages = 0,
     last_alloc_index = 0, highest_address = 0, hhdm_offset = 0\<rparr>"

definition small_map :: "memmap_entry list" where
  "small_map = [\<lparr>e_base = 0, e_length = 0x4000, e_type = 0\<rparr>]"

definition small_machine :: pmm_state where
  "small_machine = \<lparr>bitmap = [0xF3], refcounts = [UINT32_MAX, UINT32_MAX, 0, 0], total_pages = 4,
     free_pages = 2, last_alloc_index = 0, highest_address = 0x4000, hhdm_offset = 0\<rparr>"

lemma small_boot: "pmm_init None (Some small_map) boot_zero = Some small_machine"
  by code_simp

lemma small_machine_inv: "pmm_inv small_machine"
proof -
  have "bitmap_test p [0xF3] \<longleftrightarrow> [UINT32_MAX, UINT32_MAX, 0, 0] ! p \<noteq> 0" if "p < 4" for p
  proof -
    have "p \<in> {0, 1, 2, 3}" using that by auto
    then show ?thesis by (auto simp: bitmap_test_def)
  qed
  then show ?thesis by (simp add: pmm_inv_def small_machine_def)
qed


text \<open>
  Allocating a page fails exactly when no page is free; otherwise the page was free, is
  page-aligned, inside memory and not page 0, now has one reference, the free counter drops by one
  and no other frame's count changes.
\<close>

lemma pmm_alloc_page_spec:
  assumes "pmm_inv s" and "pmm_alloc_page s = (s', a)"
  shows "pmm_inv s' \<and> (a = 0 \<longleftrightarrow> free_pages s = 0) \<and>
    (if a = 0 then s' = s
     else frame_refs s a = 0 \<and> frame_refs s' = (frame_refs s)(a := 1) \<and>
       a AND 4095 = 0 \<and> addr_page a < total_pages s \<and>
       unat (free_pages s') = unat (free_pages s) - 1)"
  using pmm_alloc_contract [OF assms] by auto

lemma pmm_alloc_page_spec_witness:
  "frame_refs (fst (pmm_alloc_page small_machine)) 0x2000 = 1"
proof -
  have "pmm_alloc_page small_machine = (fst (pmm_alloc_page small_machine), 0x2000)" by code_simp
  from pmm_alloc_page_spec [OF small_machine_inv this] show ?thesis by simp
qed

lemma pmm_alloc_contiguous_cases:
  assumes inv: "pmm_inv s" and step: "pmm_alloc_contiguous_pages s count = (s', a)"
  obtains (fail) "a = 0" "s' = s" "count = 0 \<or> (\<forall>p. \<not> free_run s p (unat count))"
  | (one) "count = 1" "pmm_alloc_page s = (s', a)" "free_pages s \<noteq> 0"
  | (run) p where "free_run s p (unat count)" "s' = taken_run s p (unat count)" "a = page_addr p"
      "0 < unat count"
proof -
  consider (zero) "count = 0" | (many) "count > free_pages s"
    | (one) "count = 1" "\<not> count > free_pages s"
    | (scan) "count \<noteq> 0" "count \<noteq> 1" "\<not> count > free_pages s"
    by blast
  then show thesis
  proof cases
    case zero
    then show ?thesis using step by (intro fail) (simp_all add: pmm_alloc_contiguous_pages_def)
  next
    case many
    then have "\<not> free_run s p (unat count)" for p
      using free_run_counted [OF inv, of p "unat count"] by (auto simp: word_less_nat_alt)
    then show ?thesis using many step by (intro fail) (simp_all add: pmm_alloc_contiguous_pages_def)
  next
    case one
    have "free_pages s \<noteq> 0" using one by auto
    moreover have "pmm_alloc_page s = (s', a)"
      using one step by (simp add: pmm_alloc_contiguous_pages_def)
    ultimately show ?thesis using one that(2) by blast
  next
    case scan
    have pos: "0 < unat count" using scan(1) by (simp add: unat_gt_0)
    show ?thesis
    proof (cases "contig_scan s (unat count) 0 0 0")
      case None
      have "\<not> free_run s p (unat count)" for p
        by (rule contig_scan_complete [OF None pos]) simp_all
      then show ?thesis using None scan step
        by (intro fail) (simp_all add: pmm_alloc_contiguous_pages_def)
    next
      case (Some p)
      have "free_run s p (unat count)" by (rule contig_scan_sound [OF Some pos]) simp_all
      moreover have "s' = taken_run s p (unat count)" "a = page_addr p"
        using Some scan step by (simp_all add: pmm_alloc_contiguous_pages_def taken_run_def)
      ultimately show ?thesis using that(3) pos by blast
    qed
  qed
qed

lemma free_run_nz:
  assumes "pmm_inv s" and "free_run s p n" and "0 < n"
  shows "page_addr p \<noteq> 0"
proof -
  have p: "p < total_pages s" "\<not> bitmap_test p (bitmap s)"
    using assms(2,3) by (auto simp: free_run_def)
  have "p < 2 ^ 40" using p(1) pmm_invD(3) [OF assms(1)] by (rule order.strict_trans2)
  then show ?thesis using free_page_counted(2) [OF assms(1) p] by (metis page_addr_0_iff)
qed

lemma pmm_alloc_contiguous_effect:
  assumes "pmm_inv s" and "pmm_alloc_contiguous_pages s count = (s', a)"
  shows "pmm_inv s' \<and>
    (if a = 0 then s' = s \<and> (count = 0 \<or> (\<forall>p. \<not> free_run s p (unat count)))
     else free_run s (addr_page a) (unat count) \<and>
       frame_refs s' = (\<lambda>x. if x \<in> page_addr ` {addr_page a ..< addr_page a + unat count} then 1
                            else frame_refs s x))"
  using assms
proof (cases rule: pmm_alloc_contiguous_cases)
  case fail
  then show ?thesis using assms(1) by simp
next
  case one
  note al = pmm_alloc_contract [OF assms(1) one(2)]
  have nz: "a \<noteq> 0" using al(5) one(3) by simp
  then have "page_addr (addr_page a) = a" using al(6) aligned_page_addr by blast
  moreover have "free_run s (addr_page a) 1"
    using al(2,6) nz one pmm_invD(4) [OF assms(1)] frame_refs_pos [OF assms(1), of a]
      pmm_alloc_page_cases [OF assms(1)]
    by (metis (no_types, lifting) add.commute atLeastLessThan_singleton free_run_def Pair_inject
        Suc_leI addr_page_page_addr order.strict_trans2 plus_1_eq_Suc pmm_invD(3)
        singletonD assms(1))
  ultimately show ?thesis using al nz one by (auto simp: fun_eq_iff)
next
  case (run p)
  have "p < total_pages s" using run by (auto simp: free_run_def)
  then have "p < 2 ^ 40" using pmm_invD(3) [OF assms(1)] by (rule order.strict_trans2)
  then have "addr_page a = p" using run by simp
  then show ?thesis
    using taken_run_inv [OF assms(1) run(1)] run free_run_nz [OF assms(1) run(1,4)] by simp
qed

text \<open>
  C9: a request for \<open>count\<close> contiguous pages fails exactly when \<open>count\<close> is 0 or memory has no run of
  \<open>count\<close> free pages, and then changes nothing; otherwise it returns the first page of such a run,
  each page of the run gets one reference, and no other frame's count changes.
\<close>

theorem pmm_alloc_contiguous_spec:
  assumes "pmm_inv s" and "pmm_alloc_contiguous_pages s count = (s', a)"
  shows "pmm_inv s' \<and>
    (if a = 0 then s' = s \<and> (count = 0 \<or> (\<forall>p. \<not> free_run s p (unat count)))
     else free_run s (addr_page a) (unat count) \<and>
       frame_refs s' = (\<lambda>x. if x \<in> page_addr ` {addr_page a ..< addr_page a + unat count} then 1
                            else frame_refs s x))"
  by (rule pmm_alloc_contiguous_effect [OF assms])

lemma pmm_alloc_contiguous_spec_witness:
  "free_run small_machine 2 2"
proof -
  have "pmm_alloc_contiguous_pages small_machine 2 =
    (fst (pmm_alloc_contiguous_pages small_machine 2), 0x2000)" by code_simp
  from pmm_alloc_contiguous_spec [OF small_machine_inv this] show ?thesis
    by (simp add: addr_page_def)
qed

text \<open>
  Releasing a frame drops exactly one reference, and the frame becomes free exactly when it was
  the last one; releasing anything else (null, a misaligned address, a free or reserved frame)
  changes nothing. Sharing a frame adds a reference unless the count is saturated, and sharing then
  releasing restores every count.
\<close>

lemma pmm_ref_free_spec:
  assumes "pmm_inv s" and "pmm_ref_page s a = (s', ok)"
  shows "pmm_inv s' \<and> pmm_inv (pmm_free_page s a) \<and>
    frame_refs (pmm_free_page s a) = (frame_refs s)(a := frame_refs s a - 1) \<and>
    free_pages (pmm_free_page s a) =
      (if frame_refs s a = 1 then free_pages s + 1 else free_pages s) \<and>
    (ok \<longleftrightarrow> 0 < frame_refs s a \<and> frame_refs s a < 2 ^ 32 - 2) \<and>
    frame_refs s' = (if ok then (frame_refs s)(a := frame_refs s a + 1) else frame_refs s) \<and>
    (ok \<longrightarrow> frame_refs (pmm_free_page s' a) = frame_refs s)"
proof -
  have one: "w = 1 \<longleftrightarrow> unat w = Suc 0" for w :: u32
    by (simp add: word_unat_eq_iff [of w 1])
  have "free_pages (pmm_free_page s a) =
      (if frame_refs s a = 1 then free_pages s + 1 else free_pages s)"
    by (cases "allocated_frame s a")
      (simp_all add: pmm_free_page_def frame_refs_allocated frame_refs_unallocated one Let_def)
  then show ?thesis
    using pmm_free_page_inv [OF assms(1)] pmm_ref_page_inv [OF assms]
      pmm_free_page_inv(2) [OF pmm_ref_page_inv(1) [OF assms]]
    by (simp add: fun_upd_idem)
qed

lemma pmm_ref_free_spec_witness:
  "snd (pmm_ref_page (fst (pmm_alloc_page small_machine)) 0x2000)"
proof -
  let ?s = "fst (pmm_alloc_page small_machine)"
  have al: "pmm_alloc_page small_machine = (?s, 0x2000)" by code_simp
  have inv: "pmm_inv ?s" and one: "frame_refs ?s 0x2000 = 1"
    using pmm_alloc_contract(1,3) [OF small_machine_inv al] by simp_all
  have "pmm_ref_page ?s 0x2000 = (fst (pmm_ref_page ?s 0x2000), snd (pmm_ref_page ?s 0x2000))"
    by simp
  from pmm_ref_free_spec [OF inv this] show ?thesis using one by simp
qed

section \<open>Frames in use\<close>

text \<open>
  A frame is busy when the allocator will not hand it out: allocated, reserved, or outside the
  memory it manages (where the bootloader's own page tables may lie).
\<close>

definition frame_busy :: "'a pmm_state_scheme \<Rightarrow> u64 \<Rightarrow> bool" where
  "frame_busy s a \<longleftrightarrow> addr_page a < total_pages s \<longrightarrow> refcounts s ! addr_page a \<noteq> 0"

lemma frame_refs_busy: "pmm_inv s \<Longrightarrow> 0 < frame_refs s a \<Longrightarrow> frame_busy s a"
  using frame_refs_pos [of s a] allocated_frameD(4) [of s a] by (auto simp: frame_busy_def)

lemma alloc_busy:
  assumes "pmm_inv s" and "pmm_alloc_page s = (s', a)" and "a \<noteq> 0"
  shows "\<not> frame_busy s a" and "frame_busy s' a" and "frame_busy s b \<Longrightarrow> frame_busy s' b"
    and "unat a < 2 ^ 52"
proof -
  have "(\<not> frame_busy s a) \<and> frame_busy s' a \<and> (frame_busy s b \<longrightarrow> frame_busy s' b) \<and>
    unat a < 2 ^ 52"
    using assms(1)
  proof (cases rule: pmm_alloc_page_cases)
    case full
    then show ?thesis using assms by simp
  next
    case (found p)
    have eq: "s' = taken s p" "a = page_addr p" using found assms(2) by auto
    have p: "p < 2 ^ 40" using found(1) pmm_invD(3) [OF assms(1)] by (rule order.strict_trans2)
    have len: "length (refcounts s) = total_pages s" by (rule pmm_invD(2) [OF assms(1)])
    have "unat a < 2 ^ 52" using unat_page_addr [OF p] p unfolding eq by simp
    then show ?thesis
      using found(1,2) p len free_page_counted(1) [OF assms(1) found(1,2)] unfolding eq
      by (simp add: frame_busy_def taken_def nth_list_update)
  qed
  then show "\<not> frame_busy s a" and "frame_busy s' a" and "frame_busy s b \<Longrightarrow> frame_busy s' b"
    and "unat a < 2 ^ 52" by blast+
qed

lemma free_busy: "addr_page b \<noteq> addr_page a \<Longrightarrow> frame_busy s b \<Longrightarrow> frame_busy (pmm_free_page s a) b"
  by (simp add: frame_busy_def pmm_free_page_def Let_def)

text \<open>Where no frame in use is given up, the free counter does not grow.\<close>

lemma free_pages_mono:
  assumes "pmm_inv s" and "pmm_inv s'" and "total_pages s' = total_pages s"
    and "\<And>b. frame_busy s b \<Longrightarrow> frame_busy s' b"
  shows "unat (free_pages s') \<le> unat (free_pages s)"
proof -
  have "{i. i < length (refcounts s') \<and> refcounts s' ! i = 0} \<subseteq>
      {i. i < length (refcounts s) \<and> refcounts s ! i = 0}"
  proof
    fix i assume "i \<in> {i. i < length (refcounts s') \<and> refcounts s' ! i = 0}"
    then have i: "i < total_pages s" "refcounts s' ! i = 0"
      using pmm_invD(2) [OF assms(2)] assms(3) by simp_all
    then have "i < 2 ^ 40" using pmm_invD(3) [OF assms(1)] by simp
    then have "addr_page (page_addr i) = i" by simp
    then show "i \<in> {i. i < length (refcounts s) \<and> refcounts s ! i = 0}"
      using assms(3) assms(4) [of "page_addr i"] i pmm_invD(2) [OF assms(1)]
      by (auto simp: frame_busy_def)
  qed
  then have "card {i. i < length (refcounts s') \<and> refcounts s' ! i = 0} \<le>
      card {i. i < length (refcounts s) \<and> refcounts s ! i = 0}"
    by (intro card_mono) auto
  then show ?thesis
    by (simp add: pmm_invD(6) [OF assms(1)] pmm_invD(6) [OF assms(2)] count_if_def length_filter_conv_card)
qed

end
