(* ===== verification/ByteMem.thy ===== *)
theory ByteMem
  imports Prelude
begin

text \<open>
  The byte-addressed memory that kernel pointers reach, the memory routines of
  \<^verbatim>\<open>kernel/utils.c\<close> and \<^verbatim>\<open>libc/string.c\<close> on it, and 64-bit little-endian loads and stores
  (a C access through a \<^verbatim>\<open>uint64_t*\<close>).
\<close>

type_synonym bmem = "u64 \<Rightarrow> u8"

section \<open>memset and memcpy\<close>

primrec memset :: "bmem \<Rightarrow> u64 \<Rightarrow> u8 \<Rightarrow> nat \<Rightarrow> bmem" where
  "memset m p c 0 = m"
| "memset m p c (Suc n) = memset (m(p := c)) (p + 1) c n"

primrec memcpy :: "bmem \<Rightarrow> u64 \<Rightarrow> u64 \<Rightarrow> nat \<Rightarrow> bmem" where
  "memcpy m d s 0 = m"
| "memcpy m d s (Suc n) = memcpy (m(d := m s)) (d + 1) (s + 1) n"

text \<open>Distances between addresses: walking on by one shortens the distance by one.\<close>

lemma unat_step_dist:
  fixes a p :: u64
  assumes "a \<noteq> p"
  shows "unat (a - p) = Suc (unat (a - (p + 1)))"
proof -
  have nz: "a - p \<noteq> 0" using assms by simp
  have eq: "a - (p + 1) = (a - p) - 1" by (simp add: algebra_simps)
  have "unat ((a - p) - 1) = unat (a - p) - 1" using nz by (rule unat_minus_one)
  moreover have "0 < unat (a - p)" using nz by (simp add: unat_gt_0)
  ultimately show ?thesis unfolding eq by arith
qed

lemma memset_apply [simp]:
  "memset m p c n = (\<lambda>a. if unat (a - p) < n then c else m a)"
proof (induction n arbitrary: m p)
  case 0
  then show ?case by simp
next
  case (Suc n)
  have "(if unat (a - (p + 1)) < n then c else (m(p := c)) a) =
        (if unat (a - p) < Suc n then c else m a)" for a
    by (cases "a = p") (simp_all add: unat_step_dist)
  then show ?case using Suc.IH by simp
qed

definition ranges_disjoint :: "u64 \<Rightarrow> nat \<Rightarrow> u64 \<Rightarrow> nat \<Rightarrow> bool" where
  "ranges_disjoint p n q k \<longleftrightarrow> (\<forall>a. unat (a - p) < n \<longrightarrow> \<not> unat (a - q) < k)"

lemma memcpy_aux:
  assumes "\<And>a. unat (a - d) < n \<Longrightarrow> \<not> unat (a - s) < n"
  shows "memcpy m d s n a = (if unat (a - d) < n then m (s + (a - d)) else m a)"
  using assms
proof (induction n arbitrary: m d s)
  case 0
  then show ?case by simp
next
  case (Suc n)
  have dj: "\<not> unat (b - (s + 1)) < n" if "unat (b - (d + 1)) < n" for b
  proof (cases "b = d \<or> b = s")
    case False
    then show ?thesis using Suc.prems [of b] that by (auto simp: unat_step_dist)
  next
    case True
    then show ?thesis using Suc.prems [of b] that unat_step_dist [of b d] unat_step_dist [of b s]
      by (cases "b = d"; cases "b = s") auto
  qed
  have ns: "d \<noteq> s + of_nat k" if "k < Suc n" for k
  proof
    assume d: "d = s + of_nat k"
    have "unat (d - s) < Suc n"
      using that d by (simp add: unat_of_nat take_bit_eq_mod order.strict_trans1 [OF mod_less_eq_dividend])
    then show False using Suc.prems [of d] by simp
  qed
  have step: "memcpy m d s (Suc n) a =
     (if unat (a - (d + 1)) < n then (m(d := m s)) (s + 1 + (a - (d + 1))) else (m(d := m s)) a)"
    unfolding memcpy.simps by (rule Suc.IH) (rule dj)
  show ?case
  proof (cases "a = d")
    case True
    have "s + 1 + (a - (d + 1)) = s" using True by simp
    then show ?thesis unfolding step using True ns [of 0] by simp
  next
    case False
    have idx: "s + 1 + (a - (d + 1)) = s + (a - d)" by simp
    have c: "unat (a - (d + 1)) < n \<longleftrightarrow> unat (a - d) < Suc n"
      unfolding unat_step_dist [OF False] by simp
    have "s + (a - d) \<noteq> d" if "unat (a - d) < Suc n"
      using ns [OF that] by auto
    then have "(m(d := m s)) (s + (a - d)) = m (s + (a - d))" if "unat (a - d) < Suc n"
      using that by (metis fun_upd_other)
    then show ?thesis unfolding step idx c using False by (metis fun_upd_other)
  qed
qed

text \<open>A copy between disjoint ranges moves every byte and touches nothing else.\<close>

lemma memcpy_disjoint:
  assumes "ranges_disjoint d n s n"
  shows "memcpy m d s n = (\<lambda>a. if unat (a - d) < n then m (s + (a - d)) else m a)"
  using memcpy_aux [of d n s m] assms by (auto simp: ranges_disjoint_def)

text \<open>Whatever the overlap, a copy leaves the bytes outside its destination alone.\<close>

lemma memcpy_outside: "\<not> unat (a - d) < n \<Longrightarrow> memcpy m d s n a = m a"
proof (induction n arbitrary: m d s)
  case 0
  then show ?case by simp
next
  case (Suc n)
  then have "a \<noteq> d" by auto
  then have "\<not> unat (a - (d + 1)) < n" using Suc.prems unat_step_dist [of a d] by simp
  then show ?case using Suc.IH \<open>a \<noteq> d\<close> by simp
qed

section \<open>memmove and memcmp\<close>

primrec copy_backward :: "bmem \<Rightarrow> u64 \<Rightarrow> u64 \<Rightarrow> nat \<Rightarrow> bmem" where
  "copy_backward m d s 0 = m"
| "copy_backward m d s (Suc n) =
     copy_backward (m(d + of_nat n := m (s + of_nat n))) d s n"

definition memmove :: "bmem \<Rightarrow> u64 \<Rightarrow> u64 \<Rightarrow> nat \<Rightarrow> bmem" where
  "memmove m d s n = (if d < s then memcpy m d s n else copy_backward m d s n)"

primrec memcmp :: "bmem \<Rightarrow> u64 \<Rightarrow> u64 \<Rightarrow> nat \<Rightarrow> int" where
  "memcmp m a b 0 = 0"
| "memcmp m a b (Suc n) =
     (if m a \<noteq> m b then uint (m a) - uint (m b) else memcmp m (a + 1) (b + 1) n)"

lemma memcpy_forward:
  assumes "d < s" and "unat s + n \<le> 2 ^ 64" and "i < n"
  shows "memcpy m d s n (d + of_nat i) = m (s + of_nat i)"
  using assms
proof (induction n arbitrary: m d s i)
  case 0
  then show ?case by simp
next
  case (Suc n)
  show ?case
  proof (cases i)
    case 0
    have "d - (d + 1) = - 1" by simp
    moreover have "unat (- 1 :: u64) = 2 ^ 64 - 1"
      by (simp add: unsigned_minus_1_eq_mask mask_eq_exp_minus_1)
    ultimately have "\<not> unat (d - (d + 1)) < n" using Suc.prems(2) by simp
    then have "memcpy (m(d := m s)) (d + 1) (s + 1) n d = (m(d := m s)) d"
      by (rule memcpy_outside)
    then show ?thesis unfolding memcpy.simps using 0 by simp
  next
    case (Suc k)
    have k: "k < n" using Suc.prems(3) Suc by simp
    have us: "unat (s + 1) = unat s + 1" using Suc.prems(2) k unat_add_small [of s 1] by simp
    have ds: "unat d < unat s" using Suc.prems(1) by (simp add: word_less_nat_alt)
    have ud: "unat (d + 1) = unat d + 1" using ds us Suc.prems(2) k unat_add_small [of d 1] by simp
    have "d + 1 < s + 1" using us ud ds by (simp add: word_less_nat_alt)
    moreover have "unat (s + 1) + n \<le> 2 ^ 64" using us Suc.prems(2) by simp
    ultimately have ih: "memcpy (m(d := m s)) (d + 1) (s + 1) n (d + 1 + of_nat k) =
        (m(d := m s)) (s + 1 + of_nat k)" using k by (rule Suc.IH)
    have "unat (s + of_nat i) = unat s + i" using Suc.prems by (intro unat_add_small) simp
    then have "s + of_nat i \<noteq> d" using ds by auto
    then show ?thesis using ih Suc by (simp add: add.assoc)
  qed
qed

lemma copy_backward_correct:
  assumes "s \<le> d" and "unat d + n \<le> 2 ^ 64" and "i < n"
  shows "copy_backward m d s n (d + of_nat i) = m (s + of_nat i)"
    and "\<not> unat (a - d) < n \<Longrightarrow> copy_backward m d s n a = m a"
proof -
  have sd: "unat s \<le> unat d" using assms(1) by (simp add: word_le_nat_alt)
  have main: "unat d + k \<le> 2 ^ 64 \<Longrightarrow>
     (\<forall>j < k. copy_backward m d s k (d + of_nat j) = m (s + of_nat j)) \<and>
     (\<forall>a. \<not> unat (a - d) < k \<longrightarrow> copy_backward m d s k a = m a)" for k m
  proof (induction k arbitrary: m)
    case 0
    then show ?case by simp
  next
    case (Suc k)
    let ?m = "m(d + of_nat k := m (s + of_nat k))"
    have "unat d + k \<le> 2 ^ 64" using Suc.prems by simp
    note ih = Suc.IH [OF this, THEN conjunct1, rule_format, of _ ?m]
      Suc.IH [OF this, THEN conjunct2, rule_format, of _ ?m]
    have uk: "unat (of_nat k :: u64) = k" using Suc.prems
      by (simp add: unat_of_nat take_bit_eq_mod)
    have nov: "s + of_nat j \<noteq> d + of_nat k" if "j < k" for j
    proof -
      have "unat (s + of_nat j) = unat s + j" using Suc.prems sd that by (intro unat_add_small) simp
      moreover have "unat (d + of_nat k) = unat d + k" using Suc.prems by (intro unat_add_small) simp
      ultimately show ?thesis using sd that by auto
    qed
    have "copy_backward m d s (Suc k) (d + of_nat j) = m (s + of_nat j)" if "j < Suc k" for j
    proof (cases "j = k")
      case True
      then have "\<not> unat (d + of_nat j - d) < k" using uk by simp
      then show ?thesis unfolding copy_backward.simps using ih(2) True by simp
    next
      case False
      then have "j < k" using that by simp
      then show ?thesis unfolding copy_backward.simps using ih(1) nov by simp
    qed
    moreover have "copy_backward m d s (Suc k) a = m a" if far: "\<not> unat (a - d) < Suc k" for a
    proof -
      have "a \<noteq> d + of_nat k" using far uk by auto
      moreover have "\<not> unat (a - d) < k" using far by simp
      ultimately show ?thesis unfolding copy_backward.simps using ih(2) by simp
    qed
    ultimately show ?case by blast
  qed
  show "copy_backward m d s n (d + of_nat i) = m (s + of_nat i)"
    using main [of n m] assms by blast
  show "copy_backward m d s n a = m a" if "\<not> unat (a - d) < n"
    using main [of n m] assms that by blast
qed

lemma memcmp_zero_iff: "n \<le> 2 ^ 64 \<Longrightarrow>
   memcmp m a b n = 0 \<longleftrightarrow> (\<forall>i < n. m (a + of_nat i) = m (b + of_nat i))"
proof (induction n arbitrary: a b)
  case 0
  then show ?case by simp
next
  case (Suc n)
  have "(\<forall>i < Suc n. m (a + of_nat i) = m (b + of_nat i)) \<longleftrightarrow>
        m a = m b \<and> (\<forall>i < n. m (a + 1 + of_nat i) = m (b + 1 + of_nat i))"
    by (simp only: All_less_Suc2) (simp add: add.assoc)
  moreover have "uint (m a) - uint (m b) \<noteq> 0" if "m a \<noteq> m b"
    using that by (simp add: word_uint_eq_iff)
  ultimately show ?case using Suc.IH [of "a + 1" "b + 1"] Suc.prems by auto
qed

section \<open>64-bit little-endian access\<close>

definition ld64 :: "bmem \<Rightarrow> u64 \<Rightarrow> u64" where
  "ld64 m a =
     ucast (m a) OR push_bit 8 (ucast (m (a + 1))) OR push_bit 16 (ucast (m (a + 2))) OR
     push_bit 24 (ucast (m (a + 3))) OR push_bit 32 (ucast (m (a + 4))) OR
     push_bit 40 (ucast (m (a + 5))) OR push_bit 48 (ucast (m (a + 6))) OR
     push_bit 56 (ucast (m (a + 7)))"

definition st64 :: "bmem \<Rightarrow> u64 \<Rightarrow> u64 \<Rightarrow> bmem" where
  "st64 m a v = m(a := ucast v, a + 1 := ucast (drop_bit 8 v), a + 2 := ucast (drop_bit 16 v),
     a + 3 := ucast (drop_bit 24 v), a + 4 := ucast (drop_bit 32 v),
     a + 5 := ucast (drop_bit 40 v), a + 6 := ucast (drop_bit 48 v),
     a + 7 := ucast (drop_bit 56 v))"

lemma bytes_of_u64:
  fixes v :: u64
  shows "ucast (ucast v :: u8) OR push_bit 8 (ucast (ucast (drop_bit 8 v) :: u8)) OR
     push_bit 16 (ucast (ucast (drop_bit 16 v) :: u8)) OR
     push_bit 24 (ucast (ucast (drop_bit 24 v) :: u8)) OR
     push_bit 32 (ucast (ucast (drop_bit 32 v) :: u8)) OR
     push_bit 40 (ucast (ucast (drop_bit 40 v) :: u8)) OR
     push_bit 48 (ucast (ucast (drop_bit 48 v) :: u8)) OR
     push_bit 56 (ucast (ucast (drop_bit 56 v) :: u8)) = v"
proof (rule bit_word_eqI)
  fix n assume "n < LENGTH(64)"
  then have n: "n < 64" by simp
  consider "n < 8" | "8 \<le> n \<and> n < 16" | "16 \<le> n \<and> n < 24" | "24 \<le> n \<and> n < 32"
    | "32 \<le> n \<and> n < 40" | "40 \<le> n \<and> n < 48" | "48 \<le> n \<and> n < 56" | "56 \<le> n" by linarith
  then show "bit (ucast (ucast v :: u8) OR push_bit 8 (ucast (ucast (drop_bit 8 v) :: u8)) OR
     push_bit 16 (ucast (ucast (drop_bit 16 v) :: u8)) OR
     push_bit 24 (ucast (ucast (drop_bit 24 v) :: u8)) OR
     push_bit 32 (ucast (ucast (drop_bit 32 v) :: u8)) OR
     push_bit 40 (ucast (ucast (drop_bit 40 v) :: u8)) OR
     push_bit 48 (ucast (ucast (drop_bit 48 v) :: u8)) OR
     push_bit 56 (ucast (ucast (drop_bit 56 v) :: u8)) :: u64) n = bit v n"
    using n by cases (auto simp: bit_or_iff bit_push_bit_iff bit_unsigned_iff bit_drop_bit_eq)
qed

lemma ld64_st64_same [simp]: "ld64 (st64 m a v) a = v"
  unfolding ld64_def st64_def by (simp add: bytes_of_u64)

lemma st64_other: "\<not> unat (b - a) < 8 \<Longrightarrow> st64 m a v b = m b"
proof -
  assume far: "\<not> unat (b - a) < 8"
  have "b \<noteq> a + k" if "unat k < 8" for k :: u64
    using far that by (metis add_diff_cancel_left')
  from this [of 0] this [of 1] this [of 2] this [of 3] this [of 4] this [of 5] this [of 6]
    this [of 7] show ?thesis unfolding st64_def by simp
qed

lemma ld64_cong: "(\<And>i. i < 8 \<Longrightarrow> m (a + of_nat i) = m' (a + of_nat i)) \<Longrightarrow> ld64 m a = ld64 m' a"
proof -
  assume eq: "\<And>i. i < 8 \<Longrightarrow> m (a + of_nat i) = m' (a + of_nat i)"
  show ?thesis unfolding ld64_def
    using eq [of 0] eq [of 1] eq [of 2] eq [of 3] eq [of 4] eq [of 5] eq [of 6] eq [of 7] by simp
qed

text \<open>Two aligned quadwords are the same or do not overlap.\<close>

lemma ld64_st64_other:
  assumes "8 dvd unat (b - a)" and "a \<noteq> b"
  shows "ld64 (st64 m a v) b = ld64 m b"
proof (rule ld64_cong)
  fix i :: nat assume i: "i < 8"
  define d where "d = unat (b - a)"
  have d: "8 dvd d" "0 < d" "d < 2 ^ 64"
    using assms unsigned_less [of "b - a"] by (auto simp: d_def unat_gt_0)
  have "8 \<le> d" using d(1,2) by (auto dest: dvd_imp_le)
  moreover have "d + i < 2 ^ 64"
  proof -
    obtain k where k: "d = 8 * k" using d(1) by auto
    then have "k < 2 ^ 61" using d(3) by simp
    then show ?thesis using k i by simp
  qed
  moreover have "unat (b + of_nat i - a) = (d + i) mod 2 ^ 64"
  proof -
    have "b + of_nat i - a = of_nat d + of_nat i" by (simp add: d_def)
    also have "\<dots> = of_nat (d + i)" by simp
    finally show ?thesis by (simp only: unat_of_nat take_bit_eq_mod) simp
  qed
  ultimately have "\<not> unat (b + of_nat i - a) < 8" by simp
  then show "st64 m a v (b + of_nat i) = m (b + of_nat i)" by (rule st64_other)
qed

text \<open>A load from a range that was filled with zero bytes.\<close>

lemma ld64_zero:
  assumes "\<And>i. i < 8 \<Longrightarrow> m (a + of_nat i) = 0"
  shows "ld64 m a = 0"
proof -
  have "ld64 m a = ld64 (\<lambda>_. 0) a" using assms by (intro ld64_cong) simp
  then show ?thesis by (simp add: ld64_def)
qed

section \<open>A range of memory as a list\<close>

definition mem_bytes :: "bmem \<Rightarrow> u64 \<Rightarrow> nat \<Rightarrow> u8 list" where
  "mem_bytes m a n = map (\<lambda>i. m (a + of_nat i)) [0..<n]"

lemma length_mem_bytes [simp]: "length (mem_bytes m a n) = n"
  by (simp add: mem_bytes_def)

lemma nth_mem_bytes [simp]: "i < n \<Longrightarrow> mem_bytes m a n ! i = m (a + of_nat i)"
  by (simp add: mem_bytes_def)

lemma mem_bytes_0 [simp]: "mem_bytes m a 0 = []"
  by (simp add: mem_bytes_def)

lemma mem_bytes_Suc: "mem_bytes m a (Suc n) = m a # mem_bytes m (a + 1) n"
  by (rule nth_equalityI) (auto simp: mem_bytes_def nth_Cons algebra_simps simp del: upt_Suc split: nat.split)

lemma mem_bytes_sub: "k + n \<le> l \<Longrightarrow> take n (drop k (mem_bytes m a l)) = mem_bytes m (a + of_nat k) n"
  by (rule nth_equalityI) (auto simp: mem_bytes_def algebra_simps)

end
