(* ===== verification/Vmm.thy ===== *)
theory Vmm
  imports Pmm ByteMem
begin

text \<open>
  The page tables, \<^verbatim>\<open>mm/vmm.c\<close>: four-level x86-64 tables in the kernel's memory, reached through the
  direct map. A table is named by its kernel pointer (its frame plus \<^verbatim>\<open>hhdm_offset\<close>), an entry by the
  address of its 8 bytes, as in the code; null is 0. A shootdown is recorded in \<open>tlb_log\<close>; \<open>cr3\<close> and
  \<open>active_cr3\<close> are the register and the per-CPU field of the running CPU.
\<close>

section \<open>State\<close>

record machine = pmm_state +
  mem :: bmem
  kernel_pml4 :: u64
  cr3 :: u64
  active_cr3 :: u64
  tlb_log :: "(u64 \<times> u64) list"

abbreviation PTE_PRESENT :: u64 where "PTE_PRESENT \<equiv> 1"
abbreviation PTE_WRITE :: u64 where "PTE_WRITE \<equiv> 2"
abbreviation PTE_USER :: u64 where "PTE_USER \<equiv> 4"
abbreviation PTE_LARGE :: u64 where "PTE_LARGE \<equiv> 0x80"
abbreviation PTE_COW :: u64 where "PTE_COW \<equiv> 0x200"
abbreviation PTE_NX :: u64 where "PTE_NX \<equiv> 0x8000000000000000"
abbreviation PTE_ADDR_MASK :: u64 where "PTE_ADDR_MASK \<equiv> 0x000FFFFFFFFFF000"
abbreviation PTE_FLAG_MASK :: u64 where "PTE_FLAG_MASK \<equiv> 0x8000000000000FFF"
abbreviation USER_TOP :: u64 where "USER_TOP \<equiv> 0x800000000000"
abbreviation UPPER_HALF :: u64 where "UPPER_HALF \<equiv> 0xFFFF800000000000"

definition vmm_pte_address :: "u64 \<Rightarrow> u64" where
  "vmm_pte_address entry = entry AND PTE_ADDR_MASK"

definition has :: "u64 \<Rightarrow> u64 \<Rightarrow> bool" where
  "has entry flag \<longleftrightarrow> entry AND flag \<noteq> 0"

definition table_at :: "'a machine_scheme \<Rightarrow> u64 \<Rightarrow> u64" where
  "table_at s entry = vmm_pte_address entry + hhdm_offset s"

definition canonical :: "u64 \<Rightarrow> bool" where
  "canonical va \<longleftrightarrow> va < USER_TOP \<or> va \<ge> UPPER_HALF"

definition index_at :: "u64 \<Rightarrow> nat \<Rightarrow> nat" where
  "index_at va level = unat (drop_bit (12 + 9 * level) va AND 511)"

definition slot_at :: "u64 \<Rightarrow> nat \<Rightarrow> u64" where
  "slot_at table i = table + of_nat (8 * i)"

definition get64 :: "'a machine_scheme \<Rightarrow> u64 \<Rightarrow> u64" where
  "get64 s p = ld64 (mem s) p"

definition put64 :: "u64 \<Rightarrow> u64 \<Rightarrow> 'a machine_scheme \<Rightarrow> 'a machine_scheme" where
  "put64 p v s = s\<lparr>mem := st64 (mem s) p v\<rparr>"

definition tlb_shootdown :: "u64 \<Rightarrow> u64 \<Rightarrow> 'a machine_scheme \<Rightarrow> 'a machine_scheme" where
  "tlb_shootdown pml4 va s = s\<lparr>tlb_log := tlb_log s @ [(pml4, va)]\<rparr>"

definition vmm_init :: "'a machine_scheme \<Rightarrow> 'a machine_scheme" where
  "vmm_init s = s\<lparr>kernel_pml4 := table_at s (cr3 s)\<rparr>"

section \<open>Mapping a page\<close>

text \<open>An existing ancestor entry blocks a mapping whose permissions it would have to widen.\<close>

definition ancestor_blocks :: "u64 \<Rightarrow> u64 \<Rightarrow> bool" where
  "ancestor_blocks entry flags \<longleftrightarrow>
     has entry PTE_LARGE \<or> (has flags PTE_USER \<and> \<not> has entry PTE_USER) \<or>
     (has flags PTE_WRITE \<and> \<not> has entry PTE_WRITE) \<or>
     (\<not> has flags PTE_NX \<and> has entry PTE_NX)"

definition zero_table :: "u64 \<Rightarrow> 'a machine_scheme \<Rightarrow> 'a machine_scheme" where
  "zero_table table s = fold (\<lambda>i. put64 (slot_at table i) 0) [0 ..< 512] s"

text \<open>
  The walk of \<open>map_page\<close> from \<open>level\<close> down to the page table, creating missing tables; \<open>created\<close> is
  the stack of the entries it filled, newest first. \<open>None\<close> is the jump to \<open>rollback\<close>.
\<close>

primrec map_walk ::
    "nat \<Rightarrow> u64 \<Rightarrow> u64 \<Rightarrow> 'a machine_scheme \<Rightarrow> u64 \<Rightarrow> u64 list \<Rightarrow> 'a machine_scheme \<times> u64 list \<times> u64 option"
where
  "map_walk 0 va flags s table created = (s, created, Some table)"
| "map_walk (Suc l) va flags s table created =
     (let slot = slot_at table (index_at va (Suc l));
          entry = get64 s slot
      in if has entry PTE_PRESENT
         then if ancestor_blocks entry flags then (s, created, None)
              else map_walk l va flags s (table_at s entry) created
         else case pmm_alloc_page s of
                (s, frame) \<Rightarrow>
                  if frame = 0 then (s, created, None)
                  else let s = zero_table (table_at s frame) s;
                           entry = frame OR PTE_PRESENT OR PTE_WRITE OR PTE_USER;
                           s = put64 slot entry s
                       in map_walk l va flags s (table_at s entry) (slot # created))"

text \<open>Unlinking the created tables, newest first; the frames are freed oldest first, after the flush.\<close>

primrec unlink_slots :: "u64 list \<Rightarrow> 'a machine_scheme \<Rightarrow> 'a machine_scheme \<times> u64 list" where
  "unlink_slots [] s = (s, [])"
| "unlink_slots (slot # slots) s =
     (let frame = vmm_pte_address (get64 s slot);
          (s, retired) = unlink_slots slots (put64 slot 0 s)
      in (s, frame # retired))"

definition map_rollback :: "u64 \<Rightarrow> u64 list \<Rightarrow> 'a machine_scheme \<Rightarrow> 'a machine_scheme" where
  "map_rollback pml4 created s =
     (case unlink_slots created s of
        (s, retired) \<Rightarrow>
          let s = (if retired \<noteq> [] then tlb_shootdown pml4 UINT64_MAX s else s)
          in foldl pmm_free_page s (rev retired))"

definition map_page_args_ok :: "u64 \<Rightarrow> u64 \<Rightarrow> u64 \<Rightarrow> u64 \<Rightarrow> bool" where
  "map_page_args_ok pml4 va phys flags \<longleftrightarrow>
     pml4 \<noteq> 0 \<and> canonical va \<and> va AND 4095 = 0 \<and> phys AND NOT PTE_ADDR_MASK = 0 \<and>
     has flags PTE_PRESENT \<and> flags AND NOT PTE_FLAG_MASK = 0 \<and>
     \<not> (has flags PTE_USER \<and> va \<ge> USER_TOP)"

definition map_page ::
    "u64 \<Rightarrow> u64 \<Rightarrow> u64 \<Rightarrow> u64 \<Rightarrow> bool \<Rightarrow> 'a machine_scheme \<Rightarrow> 'a machine_scheme \<times> bool" where
  "map_page pml4 va phys flags flush s =
     (if \<not> map_page_args_ok pml4 va phys flags then (s, False)
      else case map_walk 3 va flags s pml4 [] of
             (s, created, None) \<Rightarrow> (map_rollback pml4 created s, False)
           | (s, created, Some table) \<Rightarrow>
               let leaf = slot_at table (index_at va 0)
               in if has (get64 s leaf) PTE_PRESENT then (map_rollback pml4 created s, False)
                  else let s = put64 leaf (phys OR flags) s
                       in (if flush then tlb_shootdown pml4 va s else s, True))"

definition vmm_map_page_in ::
    "u64 \<Rightarrow> u64 \<Rightarrow> u64 \<Rightarrow> u64 \<Rightarrow> 'a machine_scheme \<Rightarrow> 'a machine_scheme \<times> bool" where
  "vmm_map_page_in pml4 va phys flags s = map_page pml4 va phys flags True s"

definition vmm_map_page ::
    "u64 \<Rightarrow> u64 \<Rightarrow> u64 \<Rightarrow> 'a machine_scheme \<Rightarrow> 'a machine_scheme \<times> bool" where
  "vmm_map_page va phys flags s = vmm_map_page_in (kernel_pml4 s) va phys flags s"

definition valid_range :: "u64 \<Rightarrow> u32 \<Rightarrow> bool" where
  "valid_range base count \<longleftrightarrow>
     (let bytes = ucast count * 4096 :: u64
      in count \<noteq> 0 \<and> base AND 4095 = 0 \<and> canonical base \<and>
         bytes - 1 \<le> UINT64_MAX - base \<and> canonical (base + bytes - 1))"

section \<open>Looking up\<close>

primrec walk_to :: "nat \<Rightarrow> 'a machine_scheme \<Rightarrow> u64 \<Rightarrow> u64 \<Rightarrow> u64 option" where
  "walk_to 0 s table va = Some table"
| "walk_to (Suc l) s table va =
     (let entry = get64 s (slot_at table (index_at va (Suc l)))
      in if \<not> has entry PTE_PRESENT \<or> has entry PTE_LARGE then None
         else walk_to l s (table_at s entry) va)"

definition vmm_pte_in :: "'a machine_scheme \<Rightarrow> u64 \<Rightarrow> u64 \<Rightarrow> u64 option" where
  "vmm_pte_in s pml4 va =
     (if pml4 = 0 \<or> \<not> canonical va then None
      else case walk_to 3 s pml4 va of
             None \<Rightarrow> None
           | Some table \<Rightarrow>
               let leaf = slot_at table (index_at va 0)
               in if has (get64 s leaf) PTE_PRESENT then Some leaf else None)"

text \<open>The physical address and the flags.\<close>

definition vmm_get_physical_in :: "'a machine_scheme \<Rightarrow> u64 \<Rightarrow> u64 \<Rightarrow> u64 \<times> u64" where
  "vmm_get_physical_in s pml4 va =
     (case vmm_pte_in s pml4 va of
        None \<Rightarrow> (0, 0)
      | Some p \<Rightarrow> (vmm_pte_address (get64 s p), get64 s p AND PTE_FLAG_MASK))"

definition vmm_get_physical :: "'a machine_scheme \<Rightarrow> u64 \<Rightarrow> u64 \<times> u64" where
  "vmm_get_physical s va = vmm_get_physical_in s (kernel_pml4 s) va"

primrec accessible_from :: "nat \<Rightarrow> 'a machine_scheme \<Rightarrow> u64 \<Rightarrow> u64 \<Rightarrow> bool \<Rightarrow> bool" where
  "accessible_from 0 s table va write =
     (let entry = get64 s (slot_at table (index_at va 0))
      in entry AND (PTE_PRESENT OR PTE_USER) = (PTE_PRESENT OR PTE_USER) \<and>
         \<not> (write \<and> \<not> has entry (PTE_WRITE OR PTE_COW)))"
| "accessible_from (Suc l) s table va write =
     (let entry = get64 s (slot_at table (index_at va (Suc l)))
      in entry AND (PTE_PRESENT OR PTE_USER) = (PTE_PRESENT OR PTE_USER) \<and>
         \<not> (has entry PTE_LARGE \<or> (write \<and> \<not> has entry PTE_WRITE)) \<and>
         accessible_from l s (table_at s entry) va write)"

definition vmm_user_accessible :: "'a machine_scheme \<Rightarrow> u64 \<Rightarrow> u64 \<Rightarrow> bool \<Rightarrow> bool" where
  "vmm_user_accessible s pml4 va write \<longleftrightarrow>
     pml4 \<noteq> 0 \<and> \<not> va \<ge> USER_TOP \<and> accessible_from 3 s pml4 va write"

section \<open>Unmapping\<close>

definition empty_table :: "'a machine_scheme \<Rightarrow> u64 \<Rightarrow> bool" where
  "empty_table s table \<longleftrightarrow> list_all (\<lambda>i. \<not> has (get64 s (slot_at table i)) PTE_PRESENT) [0 ..< 512]"

text \<open>The tables and the entries on the way to the page table of \<open>va\<close>, root first.\<close>

primrec walk_path :: "nat \<Rightarrow> 'a machine_scheme \<Rightarrow> u64 \<Rightarrow> u64 \<Rightarrow> (u64 \<times> u64) list option" where
  "walk_path 0 s table va = Some []"
| "walk_path (Suc l) s table va =
     (let slot = slot_at table (index_at va (Suc l));
          entry = get64 s slot
      in if \<not> has entry PTE_PRESENT \<or> has entry PTE_LARGE then None
         else map_option (\<lambda>path. (slot, table_at s entry) # path)
                (walk_path l s (table_at s entry) va))"

text \<open>
  The pruning loop, deepest table first: \<open>path\<close> holds (entry, child table) pairs, deepest first; the
  last is the root's, which is kept in the upper half. It stops at the first table in use.
\<close>

fun prune :: "u64 \<Rightarrow> (u64 \<times> u64) list \<Rightarrow> 'a machine_scheme \<Rightarrow> u64 list \<Rightarrow> 'a machine_scheme \<times> u64 list" where
  "prune va [] s retired = (s, retired)"
| "prune va ((slot, table) # path) s retired =
     (if path = [] \<and> va \<ge> UPPER_HALF then (s, retired)
      else if \<not> empty_table s table then (s, retired)
      else let frame = vmm_pte_address (get64 s slot)
           in prune va path (put64 slot 0 s) (retired @ [frame]))"

definition vmm_unmap_page_in :: "u64 \<Rightarrow> u64 \<Rightarrow> 'a machine_scheme \<Rightarrow> 'a machine_scheme \<times> u64" where
  "vmm_unmap_page_in pml4 va s =
     (if pml4 = 0 \<or> \<not> canonical va \<or> va AND 4095 \<noteq> 0 then (s, 0)
      else case walk_path 3 s pml4 va of
             None \<Rightarrow> (s, 0)
           | Some path \<Rightarrow>
               let table = snd (last path);
                   leaf = slot_at table (index_at va 0)
               in if \<not> has (get64 s leaf) PTE_PRESENT then (s, 0)
                  else let phys = vmm_pte_address (get64 s leaf);
                           (s, retired) = prune va (rev path) (put64 leaf 0 s) [];
                           s = tlb_shootdown pml4 (if retired \<noteq> [] then UINT64_MAX else va) s
                       in (foldl pmm_free_page s (rev retired), phys))"

definition vmm_unmap_page :: "u64 \<Rightarrow> 'a machine_scheme \<Rightarrow> 'a machine_scheme \<times> u64" where
  "vmm_unmap_page va s = vmm_unmap_page_in (kernel_pml4 s) va s"

section \<open>Ranges\<close>

definition page_at :: "u64 \<Rightarrow> nat \<Rightarrow> u64" where
  "page_at base i = base + of_nat i * 4096"

definition clear_leaf :: "u64 \<Rightarrow> u64 \<Rightarrow> 'a machine_scheme \<times> u32 \<Rightarrow> 'a machine_scheme \<times> u32" where
  "clear_leaf pml4 va = (\<lambda>(s, removed).
     case vmm_pte_in s pml4 va of
       None \<Rightarrow> (s, removed)
     | Some leaf \<Rightarrow> (put64 leaf 0 s, removed + 1))"

definition release_tables :: "u64 \<Rightarrow> u64 list \<Rightarrow> 'a machine_scheme \<Rightarrow> 'a machine_scheme" where
  "release_tables pml4 retired s =
     foldl pmm_free_page (tlb_shootdown pml4 UINT64_MAX s) (rev retired)"

text \<open>The pruning of a range: as \<open>prune\<close>, with a retirement buffer that is emptied at 16 frames.\<close>

fun prune_buffered ::
    "u64 \<Rightarrow> u64 \<Rightarrow> (u64 \<times> u64) list \<Rightarrow> 'a machine_scheme \<Rightarrow> u64 list \<Rightarrow> 'a machine_scheme \<times> u64 list"
where
  "prune_buffered pml4 va [] s retired = (s, retired)"
| "prune_buffered pml4 va ((slot, table) # path) s retired =
     (if path = [] \<and> va \<ge> UPPER_HALF then (s, retired)
      else if \<not> empty_table s table then (s, retired)
      else let retired = retired @ [vmm_pte_address (get64 s slot)];
               s = put64 slot 0 s
           in if length retired = 16
              then prune_buffered pml4 va path (release_tables pml4 retired s) []
              else prune_buffered pml4 va path s retired)"

definition prune_at ::
    "u64 \<Rightarrow> u64 \<Rightarrow> 'a machine_scheme \<Rightarrow> u64 list \<Rightarrow> 'a machine_scheme \<times> u64 list" where
  "prune_at pml4 va s retired =
     (case walk_path 3 s pml4 va of
        None \<Rightarrow> (s, retired)
      | Some path \<Rightarrow> prune_buffered pml4 va (rev path) s retired)"

text \<open>The next 2 MiB boundary above \<open>va\<close>.\<close>

definition next_region :: "u64 \<Rightarrow> u64" where
  "next_region va = (va OR 0x1FFFFF) + 1"

definition regions_left :: "u64 \<Rightarrow> u64 \<Rightarrow> nat" where
  "regions_left va last' =
     nat ((int (unat last' div 2 ^ 21) - int (unat va div 2 ^ 21)) mod 2 ^ 43)"

lemma next_region_unat: "unat (next_region va) = ((unat va div 2 ^ 21 + 1) mod 2 ^ 43) * 2 ^ 21"
proof -
  let ?q = "unat va div 2 ^ 21"
  have "va OR 0x1FFFFF = (va AND NOT (mask 21)) + mask 21"
  proof -
    have "(va AND NOT (mask 21)) + mask 21 = (va AND NOT (mask 21)) OR mask 21"
      by (rule disjunctive_add_eq_or) (rule bit_eqI, simp add: bit_simps)
    also have "\<dots> = va OR mask 21" by (rule bit_eqI) (auto simp: bit_simps)
    finally show ?thesis by (simp add: mask_eq_exp_minus_1)
  qed
  moreover have "(va AND NOT (mask 21)) = of_nat (?q * 2 ^ 21)"
  proof -
    have "va AND NOT (mask 21) = va - (va AND mask 21)" by (rule word_and_not_eq_diff)
    moreover have "va AND mask 21 = of_nat (unat va mod 2 ^ 21)"
      unfolding unat_and_mask_mod [of va 21, symmetric] by simp
    moreover have "va = of_nat (?q * 2 ^ 21) + of_nat (unat va mod 2 ^ 21)"
      unfolding of_nat_add [symmetric] div_mult_mod_eq by simp
    ultimately show ?thesis by (metis add_diff_cancel_right')
  qed
  ultimately have "next_region va = of_nat (?q * 2 ^ 21) + of_nat (2 ^ 21)"
    by (simp add: next_region_def mask_eq_exp_minus_1)
  then have "next_region va = of_nat ((?q + 1) * 2 ^ 21)" by (simp add: algebra_simps)
  then have "unat (next_region va) = ((?q + 1) * 2 ^ 21) mod 2 ^ 64"
    by (simp only: unat_of_nat take_bit_eq_mod) simp
  also have "(2 :: nat) ^ 64 = 2 ^ 43 * 2 ^ 21" by simp
  finally show ?thesis by (simp only: mod_mult_mult2)
qed

lemma next_region_div: "unat (next_region va) div 2 ^ 21 = (unat va div 2 ^ 21 + 1) mod 2 ^ 43"
  by (simp add: next_region_unat)

lemma regions_left_next:
  assumes "drop_bit 21 va \<noteq> drop_bit 21 last'"
  shows "regions_left (next_region va) last' < regions_left va last'"
proof -
  let ?v = "int (unat va div 2 ^ 21)" and ?l = "int (unat last' div 2 ^ 21)"
  have range: "?v < 2 ^ 43" "?l < 2 ^ 43"
    using unat64_less [of va] unat64_less [of last'] by simp_all
  have ne: "?v \<noteq> ?l"
    using assms by (metis (no_types) drop_bit_eq_div nat_int unat_drop_bit_eq word_unat_eq_iff)
  have next': "int (unat (next_region va) div 2 ^ 21) = (?v + 1) mod 2 ^ 43"
    by (simp only: next_region_div) (simp add: zmod_int add.commute)
  have eq: "(?l - (?v + 1) mod 2 ^ 43) mod 2 ^ 43 = ((?l - ?v) - 1) mod 2 ^ 43"
    by (simp add: mod_diff_right_eq algebra_simps)
  have "(?l - ?v) mod 2 ^ 43 \<noteq> 0"
  proof
    assume "(?l - ?v) mod 2 ^ 43 = 0"
    then have "?l mod 2 ^ 43 = ?v mod 2 ^ 43" by (simp only: mod_eq_dvd_iff mod_eq_0_iff_dvd)
    then show False using range ne by simp
  qed
  then have pos: "0 < (?l - ?v) mod 2 ^ 43" by (simp add: less_le)
  have "((?l - ?v) - 1) mod 2 ^ 43 = ((?l - ?v) mod 2 ^ 43 - 1) mod 2 ^ 43"
    by (simp only: mod_diff_left_eq)
  also have "\<dots> = (?l - ?v) mod 2 ^ 43 - 1"
    using pos pos_mod_bound [of "2 ^ 43 :: int" "?l - ?v"] by (intro mod_pos_pos_trivial) simp_all
  finally have "((?l - ?v) - 1) mod 2 ^ 43 < (?l - ?v) mod 2 ^ 43" by simp
  then show ?thesis unfolding regions_left_def next' eq using pos by (simp only: nat_less_iff nat_mono_iff)
qed

function prune_range ::
    "u64 \<Rightarrow> u64 \<Rightarrow> u64 \<Rightarrow> 'a machine_scheme \<Rightarrow> u64 list \<Rightarrow> 'a machine_scheme \<times> u64 list" where
  "prune_range pml4 va last' s retired =
     (case prune_at pml4 va s retired of
        (s, retired) \<Rightarrow>
          if drop_bit 21 va = drop_bit 21 last' then (s, retired)
          else prune_range pml4 (next_region va) last' s retired)"
  by pat_completeness auto
termination
  by (relation "measure (\<lambda>(pml4, va, last', s, retired). regions_left va last')")
    (simp_all add: regions_left_next)

declare prune_range.simps [simp del]

definition vmm_unmap_pages_in ::
    "u64 \<Rightarrow> u64 \<Rightarrow> u32 \<Rightarrow> 'a machine_scheme \<Rightarrow> 'a machine_scheme \<times> u32" where
  "vmm_unmap_pages_in pml4 base count s =
     (if pml4 = 0 \<or> \<not> valid_range base count then (s, 0)
      else case fold (\<lambda>i. clear_leaf pml4 (page_at base i)) [0 ..< unat count] (s, 0) of
             (s, removed) \<Rightarrow>
               if removed = 0 then (s, 0)
               else case prune_range pml4 base (base + (ucast count - 1) * 4096) s [] of
                      (s, retired) \<Rightarrow> (release_tables pml4 retired s, removed))"

text \<open>
  \<open>pages\<close> are the frames still to map, \<open>i\<close> those mapped; a failure unmaps these again.
\<close>

primrec map_pages_loop ::
    "u64 \<Rightarrow> u64 \<Rightarrow> u64 \<Rightarrow> nat \<Rightarrow> u64 list \<Rightarrow> 'a machine_scheme \<Rightarrow> 'a machine_scheme \<times> bool" where
  "map_pages_loop pml4 base flags i [] s = (tlb_shootdown pml4 UINT64_MAX s, True)"
| "map_pages_loop pml4 base flags i (phys # pages) s =
     (case map_page pml4 (page_at base i) phys flags False s of
        (s, True) \<Rightarrow> map_pages_loop pml4 base flags (Suc i) pages s
      | (s, False) \<Rightarrow>
          (if i \<noteq> 0 then fst (vmm_unmap_pages_in pml4 base (of_nat i) s) else s, False))"

definition vmm_map_pages_in ::
    "u64 \<Rightarrow> u64 \<Rightarrow> u64 list option \<Rightarrow> u32 \<Rightarrow> u64 \<Rightarrow> 'a machine_scheme \<Rightarrow> 'a machine_scheme \<times> bool" where
  "vmm_map_pages_in pml4 base pages count flags s =
     (case pages of
        None \<Rightarrow> (s, False)
      | Some ps \<Rightarrow>
          if pml4 = 0 \<or> \<not> valid_range base count then (s, False)
          else map_pages_loop pml4 base flags 0 (take (unat count) ps) s)"

section \<open>Address spaces\<close>

definition vmm_create_address_space :: "'a machine_scheme \<Rightarrow> 'a machine_scheme \<times> u64" where
  "vmm_create_address_space s =
     (case pmm_alloc_page s of
        (s, phys) \<Rightarrow>
          if phys = 0 then (s, 0)
          else let pml4 = table_at s phys
               in (fold (\<lambda>i s. put64 (slot_at pml4 i)
                      (if i < 256 then 0 else get64 s (slot_at (kernel_pml4 s) i)) s) [0 ..< 512] s,
                   pml4))"

primrec free_tables :: "nat \<Rightarrow> u64 \<Rightarrow> nat \<Rightarrow> 'a machine_scheme \<Rightarrow> 'a machine_scheme" where
  "free_tables 0 table limit s = pmm_free_page s (table - hhdm_offset s)"
| "free_tables (Suc l) table limit s =
     (let s = fold (\<lambda>i s.
                let entry = get64 s (slot_at table i)
                in if \<not> has entry PTE_PRESENT \<or> has entry PTE_LARGE then s
                   else free_tables l (table_at s entry) 512 s) [0 ..< limit] s
      in pmm_free_page s (table - hhdm_offset s))"

definition vmm_destroy_address_space :: "u64 \<Rightarrow> 'a machine_scheme \<Rightarrow> 'a machine_scheme" where
  "vmm_destroy_address_space pml4 s =
     (if pml4 \<noteq> 0 \<and> pml4 \<noteq> kernel_pml4 s then free_tables 3 pml4 256 s else s)"

text \<open>A loop that its body can stop: the callback's protocol, result 0 to stop.\<close>

primrec each :: "('i \<Rightarrow> 'c \<Rightarrow> 'c \<times> bool) \<Rightarrow> 'i list \<Rightarrow> 'c \<Rightarrow> 'c \<times> bool" where
  "each f [] c = (c, True)"
| "each f (i # is) c = (case f i c of (c, True) \<Rightarrow> each f is c | (c, False) \<Rightarrow> (c, False))"

text \<open>The callback may change the machine: every entry is read when the loop comes to it.\<close>

primrec visit_table ::
    "nat \<Rightarrow> u64 \<Rightarrow> nat \<Rightarrow> u64 \<Rightarrow> (u64 \<Rightarrow> u64 \<Rightarrow> 'a machine_scheme \<Rightarrow> 'a machine_scheme \<times> bool) \<Rightarrow>
     'a machine_scheme \<Rightarrow> 'a machine_scheme \<times> bool"
where
  "visit_table 0 table limit base visit s =
     each (\<lambda>i s. let entry = get64 s (slot_at table i);
                     va = base OR push_bit 12 (of_nat i)
                 in if \<not> has entry PTE_PRESENT then (s, True) else visit va entry s) [0 ..< limit] s"
| "visit_table (Suc l) table limit base visit s =
     each (\<lambda>i s. let entry = get64 s (slot_at table i);
                     va = base OR push_bit (12 + 9 * Suc l) (of_nat i)
                 in if \<not> has entry PTE_PRESENT then (s, True)
                    else if has entry PTE_LARGE then (s, False)
                    else visit_table l (table_at s entry) 512 va visit s) [0 ..< limit] s"

definition vmm_visit_user_pages ::
    "u64 \<Rightarrow> (u64 \<Rightarrow> u64 \<Rightarrow> 'a machine_scheme \<Rightarrow> 'a machine_scheme \<times> bool) \<Rightarrow>
     'a machine_scheme \<Rightarrow> 'a machine_scheme \<times> bool" where
  "vmm_visit_user_pages pml4 visit s =
     (if pml4 = 0 then (s, False) else visit_table 3 pml4 256 0 visit s)"

definition vmm_switch_pml4 :: "u64 \<Rightarrow> 'a machine_scheme \<Rightarrow> 'a machine_scheme" where
  "vmm_switch_pml4 pml4 s =
     (let pml4 = (if pml4 = 0 then kernel_pml4 s else pml4);
          phys = pml4 - hhdm_offset s
      in s\<lparr>cr3 := phys, active_cr3 := phys\<rparr>)"

end
