(* ===== verification/VmmTree.thy ===== *)
theory VmmTree
  imports Vmm
begin

text \<open>
  Correctness of the page tables of \<open>Vmm\<close>: each table in memory has one role (its level, the
  address space it belongs to and the address bits above it), so that an entry is reached by one
  page only. Under this invariant mapping and unmapping change the translation of exactly one page.
\<close>

section \<open>Entries in memory\<close>

lemma dvd_unat_diff:
  fixes a b :: u64
  assumes "8 dvd unat a" and "8 dvd unat b"
  shows "8 dvd unat (b - a)"
proof (cases "a \<le> b")
  case True
  then have "unat (b - a) = unat b - unat a" by (rule unat_sub)
  then show ?thesis using assms by (simp add: dvd_diff_nat)
next
  case False
  have "unat (b - a) = (unat b + (2 ^ 64 - unat a)) mod 2 ^ 64"
    using unat64_less [of a] False
    by (simp add: unat_sub_if_size word_size word_le_nat_alt)
  moreover have "8 dvd (2 ^ 64 - unat a)" using assms(1) by (intro dvd_diff_nat) simp_all
  ultimately show ?thesis using assms(2) by (simp add: dvd_mod_iff dvd_add)
qed

definition aligned8 :: "u64 \<Rightarrow> bool" where "aligned8 p \<longleftrightarrow> 8 dvd unat p"

lemma get64_put64:
  "aligned8 p \<Longrightarrow> aligned8 q \<Longrightarrow> get64 (put64 p v s) q = (if p = q then v else get64 s q)"
  by (auto simp: get64_def put64_def aligned8_def intro!: ld64_st64_other dvd_unat_diff)

lemma page_aligned:
  fixes t :: u64
  assumes "t AND 4095 = 0"
  obtains q where "unat t = 4096 * q" and "4096 * q + 4096 \<le> 2 ^ 64"
proof
  have "unat t mod 4096 = 0" using word_page_and [of t] assms by simp
  then show q: "unat t = 4096 * (unat t div 4096)" by (metis mult_div_mod_eq add_0_right)
  have "unat t div 4096 < 2 ^ 52" using unat64_less [of t] by (simp add: div_less_iff_less_mult)
  then show "4096 * (unat t div 4096) + 4096 \<le> 2 ^ 64" by simp
qed

lemma unat_slot_at:
  assumes "t AND 4095 = 0" and "i < 512"
  shows "unat (slot_at t i) = unat t + 8 * i"
proof -
  obtain q where "unat t = 4096 * q" "4096 * q + 4096 \<le> 2 ^ 64"
    using assms(1) by (rule page_aligned)
  then have "unat t + 8 * i < 2 ^ 64" using assms(2) by linarith
  then show ?thesis unfolding slot_at_def by (rule unat_add_small)
qed

lemma aligned8_slot [simp]:
  assumes "t AND 4095 = 0" and "i < 512"
  shows "aligned8 (slot_at t i)"
proof -
  obtain q where "unat t = 4096 * q" using assms(1) by (rule page_aligned)
  then have "unat (slot_at t i) = 8 * (512 * q + i)" using unat_slot_at [OF assms] by simp
  then show ?thesis by (simp add: aligned8_def)
qed

lemma slot_at_inj:
  assumes "t AND 4095 = 0" "t' AND 4095 = 0" "i < 512" "i' < 512"
  shows "slot_at t i = slot_at t' i' \<longleftrightarrow> t = t' \<and> i = i'"
proof
  assume "slot_at t i = slot_at t' i'"
  then have eq: "unat t + 8 * i = unat t' + 8 * i'"
    using unat_slot_at [OF assms(1,3)] unat_slot_at [OF assms(2,4)] by simp
  obtain q q' where q: "unat t = 4096 * q" "unat t' = 4096 * q'"
    using page_aligned [OF assms(1)] page_aligned [OF assms(2)] by metis
  have "q = (4096 * q + 8 * i) div 4096" "q' = (4096 * q' + 8 * i') div 4096"
    using assms(3,4) by simp_all
  then have "q = q'" using eq q by metis
  then show "t = t' \<and> i = i'" using eq q by (simp add: word_unat_eq_iff)
qed simp

lemma index_at_less [simp]: "index_at va l < 512"
  using unat_and_mask_mod [of "drop_bit (12 + 9 * l) va" 9]
  by (simp add: index_at_def mask_eq_exp_minus_1)

lemma index_at_div: "index_at va l = unat va div 2 ^ (12 + 9 * l) mod 512"
  using unat_and_mask_mod [of "drop_bit (12 + 9 * l) va" 9]
  unfolding index_at_def by (simp add: mask_eq_exp_minus_1 unat_drop_bit_eq flip: drop_bit_eq_div)

lemma fold_put64_get:
  assumes "t AND 4095 = 0" and "aligned8 q" and "\<forall>i \<in> set is. i < 512"
  shows "get64 (fold (\<lambda>i. put64 (slot_at t i) v) is s) q =
    (if \<exists>i \<in> set is. q = slot_at t i then v else get64 s q)"
  using assms(3)
proof (induction "is" arbitrary: s)
  case Nil
  then show ?case by simp
next
  case (Cons i js)
  then show ?case using assms(1,2) by (auto simp: get64_put64)
qed

lemma get64_zero_table:
  assumes "t AND 4095 = 0" and "aligned8 q"
  shows "get64 (zero_table t s) q = (if \<exists>i < 512. q = slot_at t i then 0 else get64 s q)"
  using fold_put64_get [OF assms, of "[0 ..< 512]" 0 s] by (auto simp: zero_table_def)

section \<open>What the operations leave alone\<close>

lemma put64_frame [simp]:
  "bitmap (put64 p v s) = bitmap s" "refcounts (put64 p v s) = refcounts s"
  "total_pages (put64 p v s) = total_pages s" "free_pages (put64 p v s) = free_pages s"
  "hhdm_offset (put64 p v s) = hhdm_offset s" "kernel_pml4 (put64 p v s) = kernel_pml4 s"
  "tlb_log (put64 p v s) = tlb_log s"
  by (simp_all add: put64_def)

lemma shootdown_frame [simp]:
  "bitmap (tlb_shootdown p v s) = bitmap s" "refcounts (tlb_shootdown p v s) = refcounts s"
  "total_pages (tlb_shootdown p v s) = total_pages s" "free_pages (tlb_shootdown p v s) = free_pages s"
  "hhdm_offset (tlb_shootdown p v s) = hhdm_offset s"
  "kernel_pml4 (tlb_shootdown p v s) = kernel_pml4 s"
  "mem (tlb_shootdown p v s) = mem s" "get64 (tlb_shootdown p v s) q = get64 s q"
  by (simp_all add: tlb_shootdown_def get64_def)

lemma pmm_facts_cong:
  assumes "bitmap s' = bitmap s" "refcounts s' = refcounts s" "total_pages s' = total_pages s"
    "free_pages s' = free_pages s"
  shows "pmm_inv s' \<longleftrightarrow> pmm_inv s" and "frame_refs s' = frame_refs s"
    and "frame_busy s' = frame_busy s"
  using assms
  by (simp_all add: pmm_inv_def frame_refs_def pmm_get_refcount_def allocated_frame_def
      frame_busy_def fun_eq_iff Let_def)

lemma put64_pmm [simp]:
  "pmm_inv (put64 p v s) = pmm_inv s" "frame_refs (put64 p v s) = frame_refs s"
  "frame_busy (put64 p v s) = frame_busy s"
  by (rule pmm_facts_cong; simp)+

lemma shootdown_pmm [simp]:
  "pmm_inv (tlb_shootdown p v s) = pmm_inv s" "frame_refs (tlb_shootdown p v s) = frame_refs s"
  "frame_busy (tlb_shootdown p v s) = frame_busy s"
  by (rule pmm_facts_cong; simp)+

lemma fold_put64_frame [simp]:
  "hhdm_offset (fold (\<lambda>i. put64 (f i) v) is s) = hhdm_offset s"
  "kernel_pml4 (fold (\<lambda>i. put64 (f i) v) is s) = kernel_pml4 s"
  "tlb_log (fold (\<lambda>i. put64 (f i) v) is s) = tlb_log s"
  "total_pages (fold (\<lambda>i. put64 (f i) v) is s) = total_pages s"
  "pmm_inv (fold (\<lambda>i. put64 (f i) v) is s) = pmm_inv s"
  "frame_refs (fold (\<lambda>i. put64 (f i) v) is s) = frame_refs s"
  "frame_busy (fold (\<lambda>i. put64 (f i) v) is s) = frame_busy s"
  by (induction "is" arbitrary: s) simp_all

lemma pmm_alloc_page_frame:
  assumes "pmm_alloc_page s = (s', a)"
  shows "mem s' = mem s" and "hhdm_offset s' = hhdm_offset s" and "kernel_pml4 s' = kernel_pml4 s"
    and "tlb_log s' = tlb_log s" and "total_pages s' = total_pages s"
proof -
  have "s' = s \<or> (\<exists>p. s' = taken s p)"
    by (cases rule: pmm_alloc_scan_cases [of 0 s]) (use assms in \<open>auto simp: pmm_alloc_page_def\<close>)
  then show "mem s' = mem s" and "hhdm_offset s' = hhdm_offset s"
    and "kernel_pml4 s' = kernel_pml4 s" and "tlb_log s' = tlb_log s"
    and "total_pages s' = total_pages s"
    by (auto simp: taken_def)
qed

lemma pmm_free_page_frame [simp]:
  "mem (pmm_free_page s a) = mem s" "hhdm_offset (pmm_free_page s a) = hhdm_offset s"
  "kernel_pml4 (pmm_free_page s a) = kernel_pml4 s" "tlb_log (pmm_free_page s a) = tlb_log s"
  "total_pages (pmm_free_page s a) = total_pages s" "get64 (pmm_free_page s a) q = get64 s q"
  by (simp_all add: pmm_free_page_def Let_def get64_def)

lemma foldl_free_frame [simp]:
  "mem (foldl pmm_free_page s as) = mem s"
  "hhdm_offset (foldl pmm_free_page s as) = hhdm_offset s"
  "kernel_pml4 (foldl pmm_free_page s as) = kernel_pml4 s"
  "tlb_log (foldl pmm_free_page s as) = tlb_log s"
  "total_pages (foldl pmm_free_page s as) = total_pages s"
  "get64 (foldl pmm_free_page s as) q = get64 s q"
  by (induction as arbitrary: s) simp_all

lemma foldl_free_busy:
  "addr_page b \<notin> addr_page ` set as \<Longrightarrow> frame_busy s b \<Longrightarrow> frame_busy (foldl pmm_free_page s as) b"
  by (induction as arbitrary: s) (auto intro: free_busy)

section \<open>Roles of tables\<close>

text \<open>
  The role of a table: its level, its space (the root of a user half; the level-2 table itself for
  the shared kernel half) and the index path from the root to it, as one number.
\<close>

type_synonym role = "nat \<times> u64 \<times> nat"

definition child_role :: "role \<Rightarrow> nat \<Rightarrow> u64 \<Rightarrow> role" where
  "child_role r i c =
     (case r of (l, sp, pre) \<Rightarrow>
        if l = 3 then (if i < 256 then (2, sp, i) else (2, c, i)) else (l - 1, sp, pre * 512 + i))"

definition links :: "u64 \<Rightarrow> bool" where
  "links entry \<longleftrightarrow> has entry PTE_PRESENT \<and> \<not> has entry PTE_LARGE"

definition pt_inv :: "'a machine_scheme \<Rightarrow> (u64 \<Rightarrow> role option) \<Rightarrow> bool" where
  "pt_inv s \<rho> \<longleftrightarrow>
     hhdm_offset s AND 4095 = 0 \<and> unat (hhdm_offset s) + total_pages s * 4096 \<le> 2 ^ 64 \<and>
     inj_on \<rho> (dom \<rho>) \<and>
     (\<forall>t l sp pre. \<rho> t = Some (l, sp, pre) \<longrightarrow>
        t AND 4095 = 0 \<and> t \<noteq> 0 \<and> frame_busy s (t - hhdm_offset s) \<and>
        addr_page (t - hhdm_offset s) < total_pages s \<and> l \<le> 3 \<and>
        (l = 3 \<longrightarrow> sp = t \<and> pre = 0) \<and>
        (0 < l \<longrightarrow> (\<forall>i < 512. links (get64 s (slot_at t i)) \<longrightarrow>
           \<rho> (table_at s (get64 s (slot_at t i))) =
             Some (child_role (l, sp, pre) i (table_at s (get64 s (slot_at t i)))))) \<and>
        (l < 3 \<longrightarrow> (\<exists>T i r. i < 512 \<and> \<rho> T = Some (Suc l, r) \<and>
           links (get64 s (slot_at T i)) \<and> table_at s (get64 s (slot_at T i)) = t)))"

lemma pt_invD:
  assumes "pt_inv s \<rho>" and "\<rho> t = Some (l, sp, pre)"
  shows "t AND 4095 = 0" and "t \<noteq> 0" and "frame_busy s (t - hhdm_offset s)" and "l \<le> 3"
    and "l = 3 \<Longrightarrow> sp = t \<and> pre = 0"
    and "0 < l \<Longrightarrow> i < 512 \<Longrightarrow> links (get64 s (slot_at t i)) \<Longrightarrow>
      \<rho> (table_at s (get64 s (slot_at t i))) =
        Some (child_role (l, sp, pre) i (table_at s (get64 s (slot_at t i))))"
    and "l < 3 \<Longrightarrow> \<exists>T i r. i < 512 \<and> \<rho> T = Some (Suc l, r) \<and>
      links (get64 s (slot_at T i)) \<and> table_at s (get64 s (slot_at T i)) = t"
    and "addr_page (t - hhdm_offset s) < total_pages s"
  using assms unfolding pt_inv_def by blast+

lemma pt_inv_global:
  assumes "pt_inv s \<rho>"
  shows "hhdm_offset s AND 4095 = 0" and "\<rho> t = Some r \<Longrightarrow> \<rho> t' = Some r \<Longrightarrow> t = t'"
    and "unat (hhdm_offset s) + total_pages s * 4096 \<le> 2 ^ 64" and "inj_on \<rho> (dom \<rho>)"
proof -
  show "hhdm_offset s AND 4095 = 0" and "unat (hhdm_offset s) + total_pages s * 4096 \<le> 2 ^ 64"
    and "inj_on \<rho> (dom \<rho>)"
    using assms by (simp_all add: pt_inv_def)
  assume t: "\<rho> t = Some r" "\<rho> t' = Some r"
  have "inj_on \<rho> (dom \<rho>)" using assms by (simp add: pt_inv_def)
  moreover have "t \<in> dom \<rho>" "t' \<in> dom \<rho>" using t(1) t(2) by (blast intro: domI)+
  ultimately show "t = t'" using t by (simp add: inj_onD)
qed

lemma pt_inv_dom:
  assumes "pt_inv s \<rho>" and "t \<in> dom \<rho>"
  shows "t AND 4095 = 0" and "t \<noteq> 0" and "frame_busy s (t - hhdm_offset s)"
    and "addr_page (t - hhdm_offset s) < total_pages s"
proof -
  obtain l sp pre where "\<rho> t = Some (l, sp, pre)" using assms(2) by (auto simp: dom_def)
  then show "t AND 4095 = 0" and "t \<noteq> 0" and "frame_busy s (t - hhdm_offset s)"
    and "addr_page (t - hhdm_offset s) < total_pages s"
    using pt_invD(1-3,8) [OF assms(1)] by blast+
qed

lemma child_role_level: "child_role (Suc l, sp, pre) i c = (l, fst (snd (child_role (Suc l, sp, pre) i c)),
    snd (snd (child_role (Suc l, sp, pre) i c)))"
  by (simp add: child_role_def)

section \<open>The translation a table tree defines\<close>

text \<open>The leaf entry that \<open>va\<close> reaches from a table of level \<open>l\<close>, if it is present.\<close>

definition leaf_entry :: "'a machine_scheme \<Rightarrow> u64 \<Rightarrow> u64 \<Rightarrow> u64 option" where
  "leaf_entry s t va =
     (let e = get64 s (slot_at t (index_at va 0)) in if has e PTE_PRESENT then Some e else None)"

definition lookup_from :: "nat \<Rightarrow> 'a machine_scheme \<Rightarrow> u64 \<Rightarrow> u64 \<Rightarrow> u64 option" where
  "lookup_from l s t va = Option.bind (walk_to l s t va) (\<lambda>T. leaf_entry s T va)"

definition pt_lookup :: "'a machine_scheme \<Rightarrow> u64 \<Rightarrow> u64 \<Rightarrow> u64 option" where
  "pt_lookup s pml4 va =
     (if pml4 = 0 \<or> \<not> canonical va then None else lookup_from 3 s pml4 va)"

lemma pt_lookup_pte: "pt_lookup s pml4 va = map_option (get64 s) (vmm_pte_in s pml4 va)"
  by (simp add: pt_lookup_def lookup_from_def vmm_pte_in_def leaf_entry_def Let_def
      split: option.splits)

lemma lookup_from_0 [simp]: "lookup_from 0 s t va = leaf_entry s t va"
  by (simp add: lookup_from_def)

lemma walk_to_Suc: "walk_to (Suc l) s t va =
    (let e = get64 s (slot_at t (index_at va (Suc l)))
     in if links e then walk_to l s (table_at s e) va else None)"
  by (simp add: Let_def links_def)

declare walk_to.simps(2) [simp del]

lemma lookup_from_Suc: "lookup_from (Suc l) s t va =
    (let e = get64 s (slot_at t (index_at va (Suc l)))
     in if links e then lookup_from l s (table_at s e) va else None)"
  by (simp add: lookup_from_def walk_to_Suc Let_def)

text \<open>
  Two memories with the same table entries, as far as they are present, translate alike.
\<close>

definition same_entries :: "(u64 \<Rightarrow> role option) \<Rightarrow> 'a machine_scheme \<Rightarrow> 'b machine_scheme \<Rightarrow> bool" where
  "same_entries \<rho> s s' \<longleftrightarrow>
     hhdm_offset s' = hhdm_offset s \<and>
     (\<forall>t \<in> dom \<rho>. \<forall>i < 512. get64 s' (slot_at t i) = get64 s (slot_at t i) \<or>
        (\<not> has (get64 s (slot_at t i)) PTE_PRESENT \<and> \<not> has (get64 s' (slot_at t i)) PTE_PRESENT))"

lemma same_entriesD:
  assumes "same_entries \<rho> s s'" and "\<rho> t = Some r" and "i < 512"
  shows "links (get64 s' (slot_at t i)) = links (get64 s (slot_at t i))"
    and "has (get64 s' (slot_at t i)) PTE_PRESENT = has (get64 s (slot_at t i)) PTE_PRESENT"
    and "has (get64 s (slot_at t i)) PTE_PRESENT \<Longrightarrow> get64 s' (slot_at t i) = get64 s (slot_at t i)"
    and "links (get64 s (slot_at t i)) \<Longrightarrow>
      table_at s' (get64 s' (slot_at t i)) = table_at s (get64 s (slot_at t i))"
proof -
  have hh: "hhdm_offset s' = hhdm_offset s"
    and d: "get64 s' (slot_at t i) = get64 s (slot_at t i) \<or>
        (\<not> has (get64 s (slot_at t i)) PTE_PRESENT \<and> \<not> has (get64 s' (slot_at t i)) PTE_PRESENT)"
    using assms(1,3) domI [of \<rho> t, OF assms(2)] by (auto simp: same_entries_def)
  from d show "links (get64 s' (slot_at t i)) = links (get64 s (slot_at t i))"
    and "has (get64 s' (slot_at t i)) PTE_PRESENT = has (get64 s (slot_at t i)) PTE_PRESENT"
    and "has (get64 s (slot_at t i)) PTE_PRESENT \<Longrightarrow> get64 s' (slot_at t i) = get64 s (slot_at t i)"
    and "links (get64 s (slot_at t i)) \<Longrightarrow>
      table_at s' (get64 s' (slot_at t i)) = table_at s (get64 s (slot_at t i))"
    by (auto simp: links_def table_at_def hh)
qed

lemma same_entries_lookup:
  assumes "same_entries \<rho> s s'" and "pt_inv s \<rho>"
  shows "\<rho> t = Some (l, sp, pre) \<Longrightarrow> lookup_from l s' t va = lookup_from l s t va"
proof (induction l arbitrary: t sp pre)
  case 0
  then show ?case using same_entriesD [OF assms(1) 0, of "index_at va 0"]
    by (auto simp: leaf_entry_def Let_def)
next
  case (Suc l)
  note d = same_entriesD [OF assms(1) Suc.prems, of "index_at va (Suc l)"]
  let ?e = "get64 s (slot_at t (index_at va (Suc l)))"
  show ?case
  proof (cases "links ?e")
    case True
    then have "\<rho> (table_at s ?e) = Some (child_role (Suc l, sp, pre) (index_at va (Suc l)) (table_at s ?e))"
      using pt_invD(6) [OF assms(2) Suc.prems, of "index_at va (Suc l)"] by simp
    then have "lookup_from l s' (table_at s ?e) va = lookup_from l s (table_at s ?e) va"
      using Suc.IH child_role_level by metis
    then show ?thesis using True d by (simp add: lookup_from_Suc Let_def)
  next
    case False
    then show ?thesis using d by (simp add: lookup_from_Suc Let_def)
  qed
qed

lemma same_entries_inv:
  assumes same: "same_entries \<rho> s s'" and inv: "pt_inv s \<rho>"
    and tot: "total_pages s' = total_pages s"
    and busy: "\<And>t. t \<in> dom \<rho> \<Longrightarrow> frame_busy s (t - hhdm_offset s) \<Longrightarrow> frame_busy s' (t - hhdm_offset s)"
  shows "pt_inv s' \<rho>"
proof -
  have hh: "hhdm_offset s' = hhdm_offset s" using same by (simp add: same_entries_def)
  have "\<rho> (table_at s' (get64 s' (slot_at t i))) =
      Some (child_role (l, sp, pre) i (table_at s' (get64 s' (slot_at t i))))"
    if t: "\<rho> t = Some (l, sp, pre)" "0 < l" "i < 512" "links (get64 s' (slot_at t i))" for t l sp pre i
    using same_entriesD [OF same t(1,3)] pt_invD(6) [OF inv t(1,2,3)] t(4) by simp
  moreover have "frame_busy s' (t - hhdm_offset s')" if t: "\<rho> t = Some (l, sp, pre)" for t l sp pre
    using busy [of t] pt_invD(3) [OF inv t] t hh by auto
  moreover have "\<exists>T i r. i < 512 \<and> \<rho> T = Some (Suc l, r) \<and>
      links (get64 s' (slot_at T i)) \<and> table_at s' (get64 s' (slot_at T i)) = t"
    if t: "\<rho> t = Some (l, sp, pre)" "l < 3" for t l sp pre
    using pt_invD(7) [OF inv t] same_entriesD [OF same] by metis
  ultimately show ?thesis
    using pt_invD(1,2,4,5,8) [OF inv] pt_inv_global(1,3,4) [OF inv] hh tot unfolding pt_inv_def by auto
qed

text \<open>Where a walk ends: the role of the page table it reaches.\<close>

lemma walk_role:
  assumes "pt_inv s \<rho>" and "\<rho> t = Some (l, sp, pre)" and "walk_to l s t va = Some T" and "l < 3"
  shows "\<rho> T = Some (0, sp, pre * 512 ^ l +
    (case l of 0 \<Rightarrow> 0 | Suc 0 \<Rightarrow> index_at va 1 | _ \<Rightarrow> index_at va 2 * 512 + index_at va 1))"
proof -
  have step: "\<exists>t'. \<rho> t' = Some (k, sp', pre' * 512 + index_at va (Suc k)) \<and> walk_to k s t' va = Some T"
    if t: "\<rho> t = Some (Suc k, sp', pre')" "walk_to (Suc k) s t va = Some T" "k < 2" for t k sp' pre'
  proof -
    let ?e = "get64 s (slot_at t (index_at va (Suc k)))"
    have l: "links ?e" and w: "walk_to k s (table_at s ?e) va = Some T"
      using t(2) by (auto simp: walk_to_Suc Let_def split: if_splits)
    have "\<rho> (table_at s ?e) = Some (k, sp', pre' * 512 + index_at va (Suc k))"
      using pt_invD(6) [OF assms(1) t(1), of "index_at va (Suc k)"] l t(3)
      by (simp add: child_role_def)
    then show ?thesis using w by blast
  qed
  consider "l = 0" | "l = 1" | "l = 2" using assms(4) by linarith
  then show ?thesis
  proof cases
    case 1
    then show ?thesis using assms by simp
  next
    case 2
    then show ?thesis using step [of t 0 sp pre] assms(2,3) by auto
  next
    case 3
    then obtain t1 where "\<rho> t1 = Some (1, sp, pre * 512 + index_at va 2)" "walk_to 1 s t1 va = Some T"
      using step [of t 1 sp pre] assms(2,3) by (auto simp: numeral_2_eq_2)
    then show ?thesis using step [of t1 0 sp] 3
      by (auto simp: numeral_2_eq_2 algebra_simps)
  qed
qed

lemma walk3_role:
  assumes inv: "pt_inv s \<rho>" and root: "\<rho> r = Some (3, r, 0)" and w: "walk_to 3 s r va = Some T"
  obtains sp where "\<rho> T = Some (0, sp, (index_at va 3 * 512 + index_at va 2) * 512 + index_at va 1)"
    and "index_at va 3 < 256 \<Longrightarrow> sp = r"
proof -
  let ?e = "get64 s (slot_at r (index_at va 3))"
  have "walk_to (Suc 2) s r va = Some T" using w by (simp add: numeral_3_eq_3 numeral_2_eq_2)
  then have l: "links ?e" and w2: "walk_to 2 s (table_at s ?e) va = Some T"
    by (auto simp: walk_to_Suc Let_def numeral_3_eq_3 numeral_2_eq_2 split: if_splits)
  have "\<rho> (table_at s ?e) = Some (child_role (3, r, 0) (index_at va 3) (table_at s ?e))"
    using pt_invD(6) [OF inv root, of "index_at va 3"] l by simp
  then obtain sp where "\<rho> (table_at s ?e) = Some (2, sp, index_at va 3)"
      "index_at va 3 < 256 \<Longrightarrow> sp = r"
    by (auto simp: child_role_def split: if_splits)
  then show thesis using walk_role [OF inv _ w2, of sp "index_at va 3"] that
    by (auto simp: numeral_2_eq_2 algebra_simps)
qed

lemma digits_eq:
  fixes a b c :: nat
  assumes "(a * 512 + b) * 512 + c = (a' * 512 + b') * 512 + c'"
    and "b < 512" "c < 512" "b' < 512" "c' < 512"
  shows "a = a'" and "b = b'" and "c = c'"
proof -
  have digit: "x = y \<and> d = e" if "x * 512 + d = y * 512 + e" "d < 512" "e < 512" for x y d e :: nat
  proof -
    have "(x * 512 + d) div 512 = x" "(y * 512 + e) div 512 = y" using that(2,3) by simp_all
    then show ?thesis using that(1) by simp
  qed
  have "a * 512 + b = a' * 512 + b' \<and> c = c'" using digit [OF assms(1,3,5)] .
  then show "a = a'" and "b = b'" and "c = c'" using digit [of a b a' b'] assms(2,4) by simp_all
qed

text \<open>Canonical addresses with the same four indices lie in the same page.\<close>

lemma page_from_indices: "unat va div 4096 mod 2 ^ 36 =
    ((index_at va 3 * 512 + index_at va 2) * 512 + index_at va 1) * 512 + index_at va 0"
proof -
  define n where "n = unat va div 4096"
  have d: "unat va div (4096 * k) = n div k" for k by (simp add: n_def div_mult2_eq)
  have i: "index_at va 0 = n mod 512" "index_at va 1 = n div 512 mod 512"
    "index_at va 2 = n div 512 div 512 mod 512" "index_at va 3 = n div 512 div 512 div 512 mod 512"
    using d [of 1] d [of 512] d [of 262144] d [of 134217728]
    by (simp_all add: index_at_div flip: div_mult2_eq)
  have "(2 :: nat) ^ 36 = 512 * (512 * (512 * 512))" by simp
  then have "n mod 2 ^ 36 = 512 * (512 * (512 * (n div 512 div 512 div 512 mod 512) +
      n div 512 div 512 mod 512) + n div 512 mod 512) + n mod 512"
    by (simp only: mod_mult2_eq)
  then show ?thesis unfolding i n_def by (simp add: mult.commute)
qed

lemma index_at_3_lower: "canonical va \<Longrightarrow> index_at va 3 < 256 \<longleftrightarrow> va < USER_TOP"
proof -
  assume can: "canonical va"
  have i: "index_at va 3 = unat va div 2 ^ 39 mod 512" by (simp add: index_at_div)
  show ?thesis
  proof (cases "va < USER_TOP")
    case True
    then have "unat va < 2 ^ 47" by (simp add: word_less_nat_alt)
    then have "unat va div 2 ^ 39 < 256" by (simp add: div_less_iff_less_mult)
    then show ?thesis using True i by simp
  next
    case False
    then have "2 ^ 64 - 2 ^ 47 \<le> unat va" using can by (simp add: canonical_def word_le_nat_alt)
    then have "2 ^ 25 - 256 \<le> unat va div 2 ^ 39" and "unat va div 2 ^ 39 < 2 ^ 25"
      using unat64_less [of va] by (simp_all add: less_eq_div_iff_mult_less_eq div_less_iff_less_mult)
    moreover define k where "k = unat va div 2 ^ 39 - (2 ^ 25 - 512)"
    ultimately have k: "unat va div 2 ^ 39 = k + 65535 * 512" "256 \<le> k" "k < 512" by simp_all
    have "(k + 65535 * 512) mod 512 = k" using k(3) by (simp only: mod_mult_self1 mod_less)
    then have "index_at va 3 = k" unfolding i k(1) .
    then show ?thesis using False k by simp
  qed
qed

lemma same_page_iff:
  assumes "canonical va" and "canonical vb"
    and "index_at va 0 = index_at vb 0" "index_at va 1 = index_at vb 1"
      "index_at va 2 = index_at vb 2" "index_at va 3 = index_at vb 3"
  shows "va AND NOT 4095 = vb AND NOT 4095"
proof -
  have m: "unat va div 4096 mod 2 ^ 36 = unat vb div 4096 mod 2 ^ 36"
    using assms(3-6) by (simp only: page_from_indices)
  have half: "va < USER_TOP \<longleftrightarrow> vb < USER_TOP"
    using index_at_3_lower [OF assms(1)] index_at_3_lower [OF assms(2)] assms(6) by simp
  have "unat va div 4096 = unat vb div 4096"
  proof (cases "va < USER_TOP")
    case True
    then have "unat va div 4096 < 2 ^ 36" "unat vb div 4096 < 2 ^ 36"
      using half by (simp_all add: word_less_nat_alt div_less_iff_less_mult)
    then show ?thesis using m by simp
  next
    case False
    then have "2 ^ 52 - 2 ^ 35 \<le> unat va div 4096" "2 ^ 52 - 2 ^ 35 \<le> unat vb div 4096"
      using half assms(1,2)
      by (simp_all add: canonical_def word_le_nat_alt less_eq_div_iff_mult_less_eq)
    moreover have "unat va div 4096 < 2 ^ 52" "unat vb div 4096 < 2 ^ 52"
      using unat64_less [of va] unat64_less [of vb] by (simp_all add: div_less_iff_less_mult)
    ultimately have "unat va div 4096 div 2 ^ 36 = 65535" "unat vb div 4096 div 2 ^ 36 = 65535"
      by (intro div_nat_eqI; simp)+
    then show ?thesis using m by (metis div_mult_mod_eq)
  qed
  then show ?thesis by (simp only: word_unat_eq_iff unat_page_floor)
qed

section \<open>Entries that link a table\<close>

lemma bit_of_zero: "w = 0 \<Longrightarrow> \<not> bit (w :: u64) n"
  by simp

lemma bit_and_not_zero: "w AND NOT m = 0 \<Longrightarrow> n < 64 \<Longrightarrow> bit w n \<longrightarrow> bit m n" for w m :: u64
  using bit_of_zero [of "w AND NOT m" n] unfolding bit_and_iff bit_not_iff by auto

lemma addr_mask_bits: "bit PTE_ADDR_MASK n \<longleftrightarrow> 12 \<le> n \<and> n < 52"
proof -
  have eq: "PTE_ADDR_MASK = push_bit 12 (mask 40)"
    by (simp add: mask_eq_exp_minus_1 push_bit_eq_mult)
  show ?thesis unfolding eq by (auto simp: bit_simps)
qed

lemma entry_parts:
  assumes "phys AND NOT PTE_ADDR_MASK = 0" and "flags AND NOT PTE_FLAG_MASK = 0"
  shows "vmm_pte_address (phys OR flags) = phys" and "(phys OR flags) AND PTE_FLAG_MASK = flags"
    and "\<And>f. f AND NOT PTE_FLAG_MASK = 0 \<Longrightarrow> has (phys OR flags) f = has flags f"
proof -
  have p: "bit phys n \<Longrightarrow> bit PTE_ADDR_MASK n" if "n < 64" for n
    using bit_and_not_zero [OF assms(1) that] by blast
  have f: "bit w n \<Longrightarrow> bit PTE_FLAG_MASK n" if "w AND NOT PTE_FLAG_MASK = 0" "n < 64" for w n
    using bit_and_not_zero [OF that] by blast
  have disj: "\<not> (bit PTE_ADDR_MASK n \<and> bit PTE_FLAG_MASK n)" for n
  proof -
    have "PTE_ADDR_MASK AND PTE_FLAG_MASK = 0" by simp
    from bit_of_zero [OF this, of n] show ?thesis unfolding bit_and_iff .
  qed
  show "vmm_pte_address (phys OR flags) = phys"
    unfolding vmm_pte_address_def using p f [OF assms(2)] disj
    by (intro bit_word_eqI) (auto simp: bit_and_iff bit_or_iff)
  show "(phys OR flags) AND PTE_FLAG_MASK = flags"
    using p f [OF assms(2)] disj by (intro bit_word_eqI) (auto simp: bit_and_iff bit_or_iff)
  show "has (phys OR flags) w = has flags w" if "w AND NOT PTE_FLAG_MASK = 0" for w
  proof -
    have "(phys OR flags) AND w = flags AND w"
      using p f [OF that] disj by (intro bit_word_eqI) (auto simp: bit_and_iff bit_or_iff)
    then show ?thesis by (simp add: has_def)
  qed
qed

lemma frame_word:
  assumes "f AND 4095 = 0" and "unat f < 2 ^ 52"
  shows "f AND NOT PTE_ADDR_MASK = 0"
proof (rule bit_word_eqI)
  fix n assume n: "n < LENGTH(64)"
  have "f AND mask 12 = 0" using assms(1) by (simp add: mask_eq_exp_minus_1)
  then have "\<not> (bit f n \<and> n < 12)"
    using bit_of_zero [of "f AND mask 12" n] n unfolding bit_and_iff bit_mask_iff by auto
  moreover have "take_bit 52 f = f"
    using assms(2) by (simp add: word_unat_eq_iff unsigned_take_bit_eq take_bit_nat_eq_self)
  then have "bit f n \<Longrightarrow> n < 52" by (metis bit_take_bit_iff)
  ultimately show "bit (f AND NOT PTE_ADDR_MASK) n = bit 0 n"
    using addr_mask_bits [of n] unfolding bit_and_iff bit_not_iff by auto
qed

lemma link_entry:
  assumes "f AND NOT PTE_ADDR_MASK = 0"
  shows "vmm_pte_address (f OR PTE_PRESENT OR PTE_WRITE OR PTE_USER) = f"
    and "links (f OR PTE_PRESENT OR PTE_WRITE OR PTE_USER)"
    and "has (f OR PTE_PRESENT OR PTE_WRITE OR PTE_USER) PTE_PRESENT"
proof -
  have eq: "f OR PTE_PRESENT OR PTE_WRITE OR PTE_USER = f OR 7" by (simp add: or.assoc)
  have seven: "(7 :: u64) AND NOT PTE_FLAG_MASK = 0" by simp
  note parts = entry_parts [OF assms seven]
  show "vmm_pte_address (f OR PTE_PRESENT OR PTE_WRITE OR PTE_USER) = f"
    unfolding eq by (rule parts(1))
  show p: "has (f OR PTE_PRESENT OR PTE_WRITE OR PTE_USER) PTE_PRESENT"
    unfolding eq by (subst parts(3)) (simp_all add: has_def)
  have "\<not> has (f OR 7) PTE_LARGE" by (subst parts(3)) (simp_all add: has_def)
  then show "links (f OR PTE_PRESENT OR PTE_WRITE OR PTE_USER)"
    using p unfolding eq links_def by simp
qed

section \<open>Growing a tree\<close>

definition slot_frames :: "'a machine_scheme \<Rightarrow> u64 list \<Rightarrow> u64 list" where
  "slot_frames s ps = map (\<lambda>p. vmm_pte_address (get64 s p)) ps"

text \<open>
  \<open>s'\<close> is \<open>s\<close> with tables linked at the entries \<open>new\<close>, whose frames were free in \<open>s\<close>; the entries of
  the tables of \<open>\<rho>\<close> are otherwise unchanged.
\<close>

definition grown :: "(u64 \<Rightarrow> role option) \<Rightarrow> 'a machine_scheme \<Rightarrow> 'a machine_scheme \<Rightarrow> u64 list \<Rightarrow> bool" where
  "grown \<rho> s s' new \<longleftrightarrow>
     hhdm_offset s' = hhdm_offset s \<and> kernel_pml4 s' = kernel_pml4 s \<and>
     total_pages s' = total_pages s \<and> distinct new \<and> (\<forall>p \<in> set new. aligned8 p) \<and>
     (\<forall>t \<in> dom \<rho>. \<forall>i < 512.
        if slot_at t i \<in> set new then \<not> has (get64 s (slot_at t i)) PTE_PRESENT
        else get64 s' (slot_at t i) = get64 s (slot_at t i)) \<and>
     (\<forall>x. frame_refs s' x = frame_refs s x + count_list (slot_frames s' new) x) \<and>
     (\<forall>f \<in> set (slot_frames s' new). \<not> frame_busy s f) \<and>
     (\<forall>b. frame_busy s b \<longrightarrow> frame_busy s' b)"

lemma grown_refl [simp]: "grown \<rho> s s []"
  by (simp add: grown_def slot_frames_def)

lemma grown_entries:
  assumes "grown \<rho> s s' new" and "t \<in> dom \<rho>" and "i < 512"
  shows "if slot_at t i \<in> set new then \<not> has (get64 s (slot_at t i)) PTE_PRESENT
    else get64 s' (slot_at t i) = get64 s (slot_at t i)"
  using assms unfolding grown_def by blast

lemma grown_trans:
  assumes g: "grown \<rho> s s1 [p]" and g1: "grown \<rho>1 s1 s2 new" and le: "dom \<rho> \<subseteq> dom \<rho>1"
    and p: "\<exists>t \<in> dom \<rho>1. \<exists>i < 512. p = slot_at t i" "has (get64 s1 p) PTE_PRESENT"
  shows "grown \<rho> s s2 (new @ [p])"
proof -
  have notin: "p \<notin> set new" and same: "get64 s2 p = get64 s1 p"
    using g1 p by (auto simp: grown_def split: if_splits)
  have fr: "slot_frames s2 (new @ [p]) = slot_frames s2 new @ slot_frames s1 [p]"
    using same by (simp add: slot_frames_def)
  have ent: "if slot_at t i \<in> set (new @ [p]) then \<not> has (get64 s (slot_at t i)) PTE_PRESENT
        else get64 s2 (slot_at t i) = get64 s (slot_at t i)" if t: "t \<in> dom \<rho>" "i < 512" for t i
  proof -
    have t1: "t \<in> dom \<rho>1" using t le by blast
    have a: "if slot_at t i = p then \<not> has (get64 s (slot_at t i)) PTE_PRESENT
        else get64 s1 (slot_at t i) = get64 s (slot_at t i)"
      using grown_entries [OF g t] by simp
    have b: "if slot_at t i \<in> set new then \<not> has (get64 s1 (slot_at t i)) PTE_PRESENT
        else get64 s2 (slot_at t i) = get64 s1 (slot_at t i)"
      by (rule grown_entries [OF g1 t1 t(2)])
    show ?thesis using a b notin by (auto split: if_splits)
  qed
  have "\<not> frame_busy s f" if "f \<in> set (slot_frames s2 (new @ [p]))" for f
    using that g g1 unfolding fr by (auto simp: grown_def)
  then show ?thesis using g g1 ent notin unfolding grown_def fr by auto
qed

lemma unlink_slots_facts:
  assumes "distinct new" and "\<forall>p \<in> set new. aligned8 p" and "unlink_slots new s = (s', retired)"
  shows "retired = slot_frames s new" and "aligned8 q \<Longrightarrow> get64 s' q = (if q \<in> set new then 0 else get64 s q)"
    and "bitmap s' = bitmap s" "refcounts s' = refcounts s" "total_pages s' = total_pages s"
    and "free_pages s' = free_pages s" "hhdm_offset s' = hhdm_offset s"
    and "kernel_pml4 s' = kernel_pml4 s" "tlb_log s' = tlb_log s"
proof -
  have "retired = slot_frames s new \<and>
    (\<forall>q. aligned8 q \<longrightarrow> get64 s' q = (if q \<in> set new then 0 else get64 s q)) \<and>
    bitmap s' = bitmap s \<and> refcounts s' = refcounts s \<and> total_pages s' = total_pages s \<and>
    free_pages s' = free_pages s \<and> hhdm_offset s' = hhdm_offset s \<and>
    kernel_pml4 s' = kernel_pml4 s \<and> tlb_log s' = tlb_log s"
    using assms
  proof (induction new arbitrary: s s' retired)
    case Nil
    then show ?case by (simp add: slot_frames_def)
  next
    case (Cons p new)
    obtain s1 r1 where u: "unlink_slots new (put64 p 0 s) = (s1, r1)" by fastforce
    have eq: "s' = s1" "retired = vmm_pte_address (get64 s p) # r1"
      using Cons.prems(3) u by (simp_all add: Let_def)
    have al: "aligned8 p" "\<forall>q \<in> set new. aligned8 q" "p \<notin> set new" "distinct new"
      using Cons.prems(1,2) by simp_all
    have "slot_frames (put64 p 0 s) new = slot_frames s new"
      using al by (auto simp: slot_frames_def get64_put64)
    then show ?case
      using Cons.IH [OF al(4,2) u] al(1,3) eq by (auto simp: slot_frames_def get64_put64)
  qed
  then show "retired = slot_frames s new" "aligned8 q \<Longrightarrow> get64 s' q = (if q \<in> set new then 0 else get64 s q)"
    "bitmap s' = bitmap s" "refcounts s' = refcounts s" "total_pages s' = total_pages s"
    "free_pages s' = free_pages s" "hhdm_offset s' = hhdm_offset s"
    "kernel_pml4 s' = kernel_pml4 s" "tlb_log s' = tlb_log s"
    by blast+
qed

lemma pmm_fold_free:
  assumes "pmm_inv s"
  shows "pmm_inv (foldl pmm_free_page s as)"
    and "frame_refs (foldl pmm_free_page s as) x = frame_refs s x - count_list as x"
  using assms by (auto intro: pmm.free_list_inv simp: pmm.free_list_refs)

text \<open>Rolling a grown tree back restores the translations and the reference counts.\<close>

lemma busy_by_page: "addr_page a = addr_page b \<Longrightarrow> frame_busy s a = frame_busy s b"
  by (simp add: frame_busy_def)

lemma rollback_restores:
  assumes inv: "pt_inv s \<rho>" and pmm': "pmm_inv s'" and g: "grown \<rho> s s' new"
  shows "pmm_inv (map_rollback pml4 new s')" and "pt_inv (map_rollback pml4 new s') \<rho>"
    and "same_entries \<rho> s (map_rollback pml4 new s')"
    and "frame_refs (map_rollback pml4 new s') = frame_refs s"
    and "kernel_pml4 (map_rollback pml4 new s') = kernel_pml4 s"
    and "frame_busy s b \<Longrightarrow> frame_busy (map_rollback pml4 new s') b"
    and "total_pages (map_rollback pml4 new s') = total_pages s"
proof -
  obtain s1 ret where u: "unlink_slots new s' = (s1, ret)" by fastforce
  have al: "distinct new" "\<forall>p \<in> set new. aligned8 p" using g by (simp_all add: grown_def)
  note uf = unlink_slots_facts [OF al u]
  define s2 where "s2 = (if ret \<noteq> [] then tlb_shootdown pml4 UINT64_MAX s1 else s1)"
  define s3 where "s3 = map_rollback pml4 new s'"
  have s3: "s3 = foldl pmm_free_page s2 (rev ret)"
    by (simp add: s3_def map_rollback_def u s2_def Let_def)
  have s2: "pmm_inv s2" "frame_refs s2 = frame_refs s'" "frame_busy s2 = frame_busy s'"
    "hhdm_offset s2 = hhdm_offset s" "total_pages s2 = total_pages s"
    "kernel_pml4 s2 = kernel_pml4 s" "get64 s2 = get64 s1"
    using pmm' uf(3-9) g pmm_facts_cong [of s1 s'] by (auto simp: s2_def grown_def)
  have busy: "frame_busy s3 b" if "frame_busy s b" for b
  proof -
    have "addr_page b \<noteq> addr_page f" if f: "f \<in> set (rev ret)" for f
      using g f uf(1) \<open>frame_busy s b\<close> busy_by_page [of b f s] by (auto simp: grown_def)
    then have "addr_page b \<notin> addr_page ` set (rev ret)" by blast
    moreover have "frame_busy s2 b" using g that s2(3) by (simp add: grown_def)
    ultimately show ?thesis unfolding s3 by (rule foldl_free_busy)
  qed
  show pmm3: "pmm_inv (map_rollback pml4 new s')"
    unfolding s3_def [symmetric] s3 by (rule pmm_fold_free [OF s2(1)])
  show "frame_refs (map_rollback pml4 new s') = frame_refs s"
  proof
    fix x
    have "frame_refs s3 x = frame_refs s' x - count_list ret x"
      unfolding s3 by (simp add: pmm_fold_free(2) [OF s2(1)] s2(2))
    also have "\<dots> = frame_refs s x" using g uf(1) by (simp add: grown_def)
    finally show "frame_refs (map_rollback pml4 new s') x = frame_refs s x" by (simp add: s3_def)
  qed
  have get3: "get64 s3 q = (if q \<in> set new then 0 else get64 s' q)" if "aligned8 q" for q
    using uf(2) [OF that] s2(7) unfolding s3 by simp
  show same: "same_entries \<rho> s (map_rollback pml4 new s')"
    unfolding s3_def [symmetric] same_entries_def
  proof (intro conjI ballI allI impI)
    show "hhdm_offset s3 = hhdm_offset s" unfolding s3 by (simp add: s2(4))
    fix t i assume t: "t \<in> dom \<rho>" "i < (512 :: nat)"
    then have "aligned8 (slot_at t i)" using pt_invD(1) [OF inv] by (auto simp: dom_def)
    then show "get64 s3 (slot_at t i) = get64 s (slot_at t i) \<or>
      \<not> has (get64 s (slot_at t i)) PTE_PRESENT \<and> \<not> has (get64 s3 (slot_at t i)) PTE_PRESENT"
      using g t get3 [of "slot_at t i"] unfolding grown_def by (auto simp: has_def split: if_splits)
  qed
  have "total_pages s3 = total_pages s" unfolding s3 by (simp add: s2(5))
  then show "total_pages (map_rollback pml4 new s') = total_pages s" by (simp add: s3_def)
  then show "pt_inv (map_rollback pml4 new s') \<rho>"
    using same_entries_inv [OF same inv] busy unfolding s3_def by blast
  show "kernel_pml4 (map_rollback pml4 new s') = kernel_pml4 s"
    unfolding s3_def [symmetric] s3 by (simp add: s2(6))
  show "frame_busy s b \<Longrightarrow> frame_busy (map_rollback pml4 new s') b"
    using busy by (simp add: s3_def)
qed

section \<open>Linking a new table\<close>

lemma unat_sub_page: "addr_page (a :: u64) = addr_page b \<Longrightarrow> a AND 4095 = 0 \<Longrightarrow> b AND 4095 = 0 \<Longrightarrow> a = b"
  using aligned_page_addr by metis

lemma page_sub_aligned:
  fixes a b :: u64
  assumes "a AND 4095 = 0" and "b AND 4095 = 0"
  shows "(a - b) AND 4095 = 0"
proof -
  have m: "w AND 4095 = 0 \<longleftrightarrow> 4096 dvd unat w" for w :: u64
    using word_page_and [of w] by (metis dvd_eq_mod_eq_0 unat_eq_zero unsigned_0)
  show ?thesis
  proof (cases "b \<le> a")
    case True
    then show ?thesis using assms unfolding m by (simp add: unat_sub dvd_diff_nat)
  next
    case False
    have "(4096 :: nat) dvd 2 ^ 64 - unat b" using assms(2) unfolding m by (intro dvd_diff_nat) simp_all
    moreover have "unat (a - b) = 2 ^ 64 - unat b + unat a"
      using False unat64_less [of b] by (simp add: unat_sub_if_size word_size word_le_nat_alt)
    ultimately show ?thesis using assms(1) unfolding m by (simp only: dvd_add)
  qed
qed

lemma page_add_aligned:
  fixes a b :: u64
  assumes "a AND 4095 = 0" and "b AND 4095 = 0"
  shows "(a + b) AND 4095 = 0"
proof -
  have m: "w AND 4095 = 0 \<longleftrightarrow> 4096 dvd unat w" for w :: u64
    using word_page_and [of w] by (metis dvd_eq_mod_eq_0 unat_eq_zero unsigned_0)
  have "(4096 :: nat) dvd 2 ^ LENGTH(64)" by simp
  then show ?thesis using assms unfolding m unat_word_ariths
    by (simp only: dvd_mod_iff dvd_add)
qed

lemma child_role_inj:
  assumes "child_role r i c = child_role r' i' c'" and "i < 512" "i' < 512"
    and "fst r = Suc l" "fst r' = Suc l" "c \<noteq> c'"
    and "fst r = 3 \<Longrightarrow> snd (snd r) = 0" "fst r' = 3 \<Longrightarrow> snd (snd r') = 0"
  shows "i = i'" and "fst r = 3 \<Longrightarrow> fst (snd r) = fst (snd r')" and "fst r \<noteq> 3 \<Longrightarrow> r = r'"
proof -
  obtain sp pre sp' pre' where r: "r = (Suc l, sp, pre)" "r' = (Suc l, sp', pre')"
    using assms(4,5) by (cases r; cases r') auto
  have digit: "pre = pre' \<and> i = i'" if "pre * 512 + i = pre' * 512 + i'"
  proof -
    have "(pre * 512 + i) div 512 = pre" "(pre' * 512 + i') div 512 = pre'"
      using assms(2,3) by simp_all
    then show ?thesis using that by simp
  qed
  show "i = i'" and "fst r = 3 \<Longrightarrow> fst (snd r) = fst (snd r')" and "fst r \<noteq> 3 \<Longrightarrow> r = r'"
    using assms(1,6) digit unfolding r by (auto simp: child_role_def split: if_splits)
qed

lemma direct_map_nz:
  assumes "pt_inv s \<rho>" and "addr_page f < total_pages s" and "f \<noteq> 0"
  shows "f + hhdm_offset s \<noteq> 0"
proof -
  have "unat f < total_pages s * 4096"
    using assms(2) by (simp add: addr_page_def div_less_iff_less_mult)
  then have "unat (hhdm_offset s + f) = unat (hhdm_offset s) + unat f"
    using pt_inv_global(3) [OF assms(1)] unat_add_small [of "hhdm_offset s" "unat f"] by simp
  then show ?thesis using assms(3) by (metis add.commute add_is_0 unat_eq_zero unsigned_0)
qed

lemma add_table:
  assumes pm: "pmm_inv s" and inv: "pt_inv s \<rho>"
    and T: "\<rho> T = Some (Suc l, sp, pre)" and i: "i < 512"
    and absent: "\<not> has (get64 s (slot_at T i)) PTE_PRESENT"
    and alloc: "pmm_alloc_page s = (s1, f)" "f \<noteq> 0"
    and N: "N = table_at s1 f" and e: "e = f OR PTE_PRESENT OR PTE_WRITE OR PTE_USER"
    and s2: "s2 = put64 (slot_at T i) e (zero_table N s1)"
    and r': "\<rho>' = \<rho>(N \<mapsto> child_role (Suc l, sp, pre) i N)"
  shows "pmm_inv s2" and "pt_inv s2 \<rho>'" and "N \<notin> dom \<rho>" and "grown \<rho> s s2 [slot_at T i]"
    and "get64 s2 (slot_at T i) = e" and "table_at s2 e = N" and "links e"
    and "\<rho> t = Some (k, sp', pre') \<Longrightarrow> lookup_from k s2 t va = lookup_from k s t va"
    and "lookup_from k s2 N va = None"
proof -
  note al = pmm_alloc_contract [OF pm alloc(1)] and fr = pmm_alloc_page_frame [OF alloc(1)]
    and bu = alloc_busy [OF pm alloc]
  have hh: "hhdm_offset s AND 4095 = 0" "unat (hhdm_offset s) + total_pages s * 4096 \<le> 2 ^ 64"
    using pt_inv_global [OF inv] by blast+
  have fa: "f AND 4095 = 0" "addr_page f < total_pages s" using al(6) alloc(2) by blast+
  have fw: "f AND NOT PTE_ADDR_MASK = 0" using fa(1) bu(4) by (rule frame_word)
  have f_addr: "vmm_pte_address f = f" using entry_parts(1) [OF fw, of 0] by simp
  have Nf: "N = f + hhdm_offset s" by (simp add: N table_at_def f_addr fr(2))
  have N_al: "N AND 4095 = 0" unfolding Nf using fa(1) hh(1) by (rule page_add_aligned)
  have N0: "N \<noteq> 0" unfolding Nf using inv fa(2) alloc(2) by (rule direct_map_nz)
  have T_al: "T AND 4095 = 0" by (rule pt_invD(1) [OF inv T])
  show N_new: "N \<notin> dom \<rho>"
  proof
    assume "N \<in> dom \<rho>"
    then have "frame_busy s (N - hhdm_offset s)" using pt_invD(3) [OF inv] by (auto simp: dom_def)
    then show False using bu(1) by (simp add: Nf)
  qed
  have TN: "T \<noteq> N" using T N_new by auto
  have g1: "get64 s1 q = get64 s q" for q by (simp add: get64_def fr(1))
  have get2: "get64 s2 (slot_at t j) =
      (if t = T \<and> j = i then e else if t = N then 0 else get64 s (slot_at t j))"
    if "t AND 4095 = 0" "j < 512" for t j
  proof -
    have "\<exists>k < 512. slot_at t j = slot_at N k" if "t = N" using that \<open>j < 512\<close> by blast
    moreover have "t = N" if "\<exists>k < 512. slot_at t j = slot_at N k"
      using that slot_at_inj [OF \<open>t AND 4095 = 0\<close> N_al \<open>j < 512\<close>] by blast
    ultimately show ?thesis unfolding s2 using that T_al i N_al
      by (auto simp: get64_put64 get64_zero_table slot_at_inj g1)
  qed
  have hh2: "hhdm_offset s2 = hhdm_offset s" and tot2: "total_pages s2 = total_pages s"
    and ker2: "kernel_pml4 s2 = kernel_pml4 s"
    by (simp_all add: s2 zero_table_def fr)
  show pm2: "pmm_inv s2" using al(1) by (simp add: s2 zero_table_def)
  have refs2: "frame_refs s2 = (frame_refs s)(f := 1)" and busy2: "frame_busy s2 = frame_busy s1"
    using al(3) alloc(2) by (simp_all add: s2 zero_table_def)
  show get_e: "get64 s2 (slot_at T i) = e" using get2 [OF T_al i] by simp
  note le = link_entry [OF fw, folded e]
  show at: "table_at s2 e = N" by (simp add: table_at_def le hh2 Nf add.commute)
  show "links e" by (rule le(2))
  have old: "table_at s2 w = table_at s w" for w by (simp add: table_at_def hh2)
  show "grown \<rho> s s2 [slot_at T i]"
    unfolding grown_def
  proof (intro conjI ballI allI impI)
    fix t j assume t: "t \<in> dom \<rho>" "j < (512 :: nat)"
    have ta: "t AND 4095 = 0" using t(1) pt_invD(1) [OF inv] by (auto simp: dom_def)
    have "t \<noteq> N" using t(1) N_new by blast
    then show "if slot_at t j \<in> set [slot_at T i] then \<not> has (get64 s (slot_at t j)) PTE_PRESENT
      else get64 s2 (slot_at t j) = get64 s (slot_at t j)"
      using get2 [OF ta t(2)] slot_at_inj [OF ta T_al t(2) i] absent by auto
  next
    fix x
    show "frame_refs s2 x = frame_refs s x + count_list (slot_frames s2 [slot_at T i]) x"
      using al(2) alloc(2) by (simp add: refs2 slot_frames_def get_e le(1))
  next
    fix x assume "x \<in> set (slot_frames s2 [slot_at T i])"
    then show "\<not> frame_busy s x" using bu(1) by (simp add: slot_frames_def get_e le(1))
  qed (use T_al i hh2 tot2 ker2 bu(3) busy2 in auto)
  have zero_links: "\<not> has (get64 s2 (slot_at N j)) PTE_PRESENT" if "j < 512" for j
    using get2 [OF N_al that] TN by (simp add: has_def)
  show look_N: "lookup_from k s2 N va = None" for k
    using zero_links [of "index_at va 0"] zero_links [of "index_at va k"]
    by (cases k) (simp_all add: leaf_entry_def lookup_from_Suc links_def Let_def)
  show "\<rho> t = Some (k, sp', pre') \<Longrightarrow> lookup_from k s2 t va = lookup_from k s t va" for t k sp' pre'
  proof (induction k arbitrary: t sp' pre')
    case 0
    have ta: "t AND 4095 = 0" by (rule pt_invD(1) [OF inv 0])
    have "t \<noteq> T" "t \<noteq> N" using 0 T N_new by auto
    then show ?case using get2 [OF ta, of "index_at va 0"] by (simp add: leaf_entry_def)
  next
    case (Suc k)
    let ?j = "index_at va (Suc k)"
    have ta: "t AND 4095 = 0" by (rule pt_invD(1) [OF inv Suc.prems])
    have tN: "t \<noteq> N" using Suc.prems N_new by auto
    show ?case
    proof (cases "t = T \<and> ?j = i")
      case True
      then have "lookup_from (Suc k) s2 t va = None"
        using get_e at le(2) look_N [of k] by (auto simp: lookup_from_Suc Let_def)
      moreover have "lookup_from (Suc k) s t va = None"
        using True absent by (auto simp: lookup_from_Suc Let_def links_def)
      ultimately show ?thesis by simp
    next
      case False
      then have same: "get64 s2 (slot_at t ?j) = get64 s (slot_at t ?j)"
        using get2 [OF ta, of ?j] tN by auto
      let ?e = "get64 s (slot_at t ?j)"
      show ?thesis
      proof (cases "links ?e")
        case True
        have "\<rho> (table_at s ?e) = Some (child_role (Suc k, sp', pre') ?j (table_at s ?e))"
          using pt_invD(6) [OF inv Suc.prems, of ?j] True by simp
        then have "lookup_from k s2 (table_at s ?e) va = lookup_from k s (table_at s ?e) va"
          using Suc.IH child_role_level by metis
        then show ?thesis by (simp add: lookup_from_Suc same old Let_def)
      qed (simp add: lookup_from_Suc same Let_def)
    qed
  qed
  have lT: "Suc l \<le> 3" by (rule pt_invD(4) [OF inv T])
  have new_role: "\<rho> t \<noteq> Some (child_role (Suc l, sp, pre) i N)" for t
  proof
    assume t: "\<rho> t = Some (child_role (Suc l, sp, pre) i N)"
    have tN: "t \<noteq> N" using t N_new by auto
    have "\<rho> t = Some (l, snd (child_role (Suc l, sp, pre) i N))"
      using t child_role_level by (metis prod.collapse fst_conv)
    then obtain P j r where P: "j < 512" "\<rho> P = Some (Suc l, r)"
        "links (get64 s (slot_at P j))" "table_at s (get64 s (slot_at P j)) = t"
      using pt_invD(7) [OF inv, of t l] lT by (metis prod.collapse less_Suc_eq_le numeral_3_eq_3 Suc_le_mono)
    obtain psp ppre where r: "r = (psp, ppre)" by (cases r)
    have "\<rho> t = Some (child_role (Suc l, psp, ppre) j t)"
      using pt_invD(6) [OF inv P(2) [unfolded r] _ P(1,3)] P(4) by simp
    then have eq: "child_role (Suc l, sp, pre) i N = child_role (Suc l, psp, ppre) j t"
      using t by simp
    have z: "Suc l = 3 \<Longrightarrow> sp = T \<and> pre = 0" "Suc l = 3 \<Longrightarrow> psp = P \<and> ppre = 0"
      using pt_invD(5) [OF inv T] pt_invD(5) [OF inv P(2) [unfolded r]] by simp_all
    note ci = child_role_inj [OF eq i P(1), of l]
    have ij: "i = j" using ci(1) tN z by auto
    have "P = T"
    proof (cases "Suc l = 3")
      case True
      then show ?thesis using ci(2) tN z by auto
    next
      case False
      then have "(sp, pre) = r" using ci(3) tN z r by auto
      then show ?thesis using pt_inv_global(2) [OF inv T] P(2) by auto
    qed
    then show False using P(3) absent ij by (simp add: links_def)
  qed
  show "pt_inv s2 \<rho>'"
    unfolding pt_inv_def
  proof (intro conjI allI impI)
    show "hhdm_offset s2 AND 4095 = 0" "unat (hhdm_offset s2) + total_pages s2 * 4096 \<le> 2 ^ 64"
      using hh by (simp_all add: hh2 tot2)
    show "inj_on \<rho>' (dom \<rho>')"
      using pt_inv_global(2) [OF inv] new_role N_new unfolding r'
      by (auto simp: inj_on_def dom_def split: if_splits)
  next
    fix t k tsp tpre assume t: "\<rho>' t = Some (k, tsp, tpre)"
    have tcases: "t = N \<and> (k, tsp, tpre) = child_role (Suc l, sp, pre) i N \<or>
        t \<noteq> N \<and> \<rho> t = Some (k, tsp, tpre)"
      using t by (auto simp: r' split: if_splits)
    have kN: "k = l" if "t = N" using tcases that child_role_level [of l sp pre i N] by (metis fst_conv)
    show ta: "t AND 4095 = 0" using tcases N_al pt_invD(1) [OF inv] by blast
    show "t \<noteq> 0" using tcases N0 pt_invD(2) [OF inv] by blast
    show "frame_busy s2 (t - hhdm_offset s2)"
      using tcases bu(2,3) pt_invD(3) [OF inv] unfolding busy2 hh2 by (auto simp: Nf)
    show "addr_page (t - hhdm_offset s2) < total_pages s2"
      using tcases fa(2) pt_invD(8) [OF inv] unfolding hh2 tot2 by (auto simp: Nf)
    show "k \<le> 3" using tcases kN lT pt_invD(4) [OF inv] by auto
    show "tsp = t" "tpre = 0" if "k = 3" using tcases kN lT pt_invD(5) [OF inv] that by auto
    show "\<rho>' (table_at s2 (get64 s2 (slot_at t j))) =
        Some (child_role (k, tsp, tpre) j (table_at s2 (get64 s2 (slot_at t j))))"
      if j: "0 < k" "j < 512" "links (get64 s2 (slot_at t j))" for j
    proof -
      have tN: "t \<noteq> N" using j(3) zero_links [OF j(2)] by (auto simp: links_def)
      show ?thesis
      proof (cases "t = T \<and> j = i")
        case True
        then show ?thesis using tcases tN T by (simp add: get_e at r')
      next
        case False
        then have same: "get64 s2 (slot_at t j) = get64 s (slot_at t j)"
          using get2 [OF ta j(2)] tN by auto
        have rt: "\<rho> t = Some (k, tsp, tpre)" using tcases tN by simp
        have "\<rho> (table_at s (get64 s (slot_at t j))) =
          Some (child_role (k, tsp, tpre) j (table_at s (get64 s (slot_at t j))))"
          using pt_invD(6) [OF inv rt j(1,2)] j(3) same by simp
        then show ?thesis using N_new by (auto simp: same old r')
      qed
    qed
    show "\<exists>P j r. j < 512 \<and> \<rho>' P = Some (Suc k, r) \<and>
        links (get64 s2 (slot_at P j)) \<and> table_at s2 (get64 s2 (slot_at P j)) = t" if "k < 3"
    proof (cases "t = N")
      case True
      then show ?thesis using kN i T TN get_e at le(2)
        by (intro exI [of _ T] exI [of _ i] exI [of _ "(sp, pre)"]) (simp add: r')
    next
      case False
      then have "\<rho> t = Some (k, tsp, tpre)" using tcases by simp
      from pt_invD(7) [OF inv this that] obtain P j r where P: "j < 512" "\<rho> P = Some (Suc k, r)"
          "links (get64 s (slot_at P j))" "table_at s (get64 s (slot_at P j)) = t" by blast
      have PN: "P \<noteq> N" using P(2) N_new by auto
      have ne: "\<not> (P = T \<and> j = i)" using P(3) absent by (auto simp: links_def)
      have "P AND 4095 = 0" using pt_invD(1) [OF inv] P(2) by (cases r) blast
      then have "get64 s2 (slot_at P j) = get64 s (slot_at P j)" using get2 [OF _ P(1)] PN ne by auto
      then show ?thesis using P PN
        by (intro exI [of _ P] exI [of _ j] exI [of _ r]) (simp add: r' old)
    qed
  qed
qed

section \<open>Mapping\<close>

definition keeps_lookups :: "(u64 \<Rightarrow> role option) \<Rightarrow> 'a machine_scheme \<Rightarrow> 'a machine_scheme \<Rightarrow> bool" where
  "keeps_lookups \<rho> s s' \<longleftrightarrow>
     (\<forall>t k sp pre va. \<rho> t = Some (k, sp, pre) \<longrightarrow> lookup_from k s' t va = lookup_from k s t va)"

lemma keeps_lookups_trans:
  assumes "keeps_lookups \<rho> s s1" and "keeps_lookups \<rho>1 s1 s2" and "\<rho> \<subseteq>\<^sub>m \<rho>1"
  shows "keeps_lookups \<rho> s s2"
  unfolding keeps_lookups_def
proof (intro allI impI)
  fix t k sp pre va assume t: "\<rho> t = Some (k, sp, pre)"
  then have "\<rho>1 t = Some (k, sp, pre)" using assms(3) by (force simp: map_le_def dom_def)
  then show "lookup_from k s2 t va = lookup_from k s t va"
    using assms(1,2) t by (simp add: keeps_lookups_def)
qed

lemma link_facts:
  assumes "pmm_inv s" and "pmm_alloc_page s = (s1, f)" and "f \<noteq> 0"
    and "e = f OR PTE_PRESENT OR PTE_WRITE OR PTE_USER"
  shows "vmm_pte_address e = f"
  using link_entry(1) [OF frame_word] pmm_alloc_contract(6) [OF assms(1,2)]
    alloc_busy(4) [OF assms(1-3)] assms(3,4) by blast

lemma map_walk_spec:
  assumes "pmm_inv s" and "pt_inv s \<rho>" and "\<rho> table = Some (l, sp, pre)"
    and "map_walk l va flags s table created = (s', created', res)"
  shows "\<exists>new \<rho>'. created' = new @ created \<and> pmm_inv s' \<and> pt_inv s' \<rho>' \<and> \<rho> \<subseteq>\<^sub>m \<rho>' \<and>
    grown \<rho> s s' new \<and> keeps_lookups \<rho> s s' \<and>
    (\<forall>t \<in> dom \<rho>' - dom \<rho>. \<not> frame_busy s (t - hhdm_offset s)) \<and>
    (\<forall>T. res = Some T \<longrightarrow> walk_to l s' table va = Some T \<and> (\<exists>sp' pre'. \<rho>' T = Some (0, sp', pre')))"
  using assms
proof (induction l arbitrary: s \<rho> table sp pre created)
  case 0
  then show ?case by (intro exI [of _ "[]"] exI [of _ \<rho>]) (auto simp: keeps_lookups_def)
next
  case (Suc l)
  let ?i = "index_at va (Suc l)"
  let ?slot = "slot_at table ?i"
  let ?e = "get64 s ?slot"
  have same_slot: "get64 s'' ?slot = get64 s1 ?slot"
    if g: "grown \<rho>1 s1 s'' new" and d: "\<rho>1 table = Some r" and p: "has (get64 s1 ?slot) PTE_PRESENT"
    for \<rho>1 r s1 s'' new
    using grown_entries [OF g domI [of \<rho>1, OF d], of ?i] p by (simp split: if_splits)
  have hh: "table_at s'' w = table_at s1 w" if "grown \<rho>1 s1 s'' new" for \<rho>1 s1 s'' new w
    using that by (simp add: grown_def table_at_def)
  show ?case
  proof (cases "has ?e PTE_PRESENT")
    case present: True
    show ?thesis
    proof (cases "ancestor_blocks ?e flags")
      case True
      then have "s' = s" "created' = created" "res = None"
        using Suc.prems(4) present by (simp_all add: Let_def)
      then show ?thesis using Suc.prems
        by (intro exI [of _ "[]"] exI [of _ \<rho>]) (simp add: keeps_lookups_def)
    next
      case False
      then have rest: "map_walk l va flags s (table_at s ?e) created = (s', created', res)"
        using Suc.prems(4) present by (simp_all add: Let_def)
      have lk: "links ?e" using present False by (simp add: links_def ancestor_blocks_def)
      have "\<rho> (table_at s ?e) = Some (child_role (Suc l, sp, pre) ?i (table_at s ?e))"
        using pt_invD(6) [OF Suc.prems(2,3), of ?i] lk by simp
      then obtain sp1 pre1 where role: "\<rho> (table_at s ?e) = Some (l, sp1, pre1)"
        using child_role_level by metis
      from Suc.IH [OF Suc.prems(1,2) role rest] obtain new \<rho>' where
        h: "created' = new @ created" "pmm_inv s'" "pt_inv s' \<rho>'" "\<rho> \<subseteq>\<^sub>m \<rho>'" "grown \<rho> s s' new"
          "keeps_lookups \<rho> s s'" "\<forall>t \<in> dom \<rho>' - dom \<rho>. \<not> frame_busy s (t - hhdm_offset s)"
          "\<forall>T. res = Some T \<longrightarrow> walk_to l s' (table_at s ?e) va = Some T \<and>
             (\<exists>sp' pre'. \<rho>' T = Some (0, sp', pre'))"
        by blast
      have "get64 s' ?slot = ?e" by (rule same_slot [OF h(5) Suc.prems(3) present])
      then have "\<forall>T. res = Some T \<longrightarrow> walk_to (Suc l) s' table va = Some T"
        using h(8) lk hh [OF h(5)] by (simp add: walk_to_Suc Let_def)
      then show ?thesis using h(1-7) h(8) by (intro exI [of _ new] exI [of _ \<rho>'] conjI) auto
    qed
  next
    case absent: False
    obtain s1 f where al: "pmm_alloc_page s = (s1, f)" by fastforce
    show ?thesis
    proof (cases "f = 0")
      case True
      then have "s1 = s" using pmm_alloc_contract(4) [OF Suc.prems(1) al] by simp
      then have "s' = s" "created' = created" "res = None"
        using Suc.prems(4) absent al True by (simp_all add: Let_def)
      then show ?thesis using Suc.prems
        by (intro exI [of _ "[]"] exI [of _ \<rho>]) (simp add: keeps_lookups_def)
    next
      case False
      define N where "N = table_at s1 f"
      define e where "e = f OR PTE_PRESENT OR PTE_WRITE OR PTE_USER"
      define s2 where "s2 = put64 ?slot e (zero_table N s1)"
      define \<rho>1 where "\<rho>1 = \<rho>(N \<mapsto> child_role (Suc l, sp, pre) ?i N)"
      note add = add_table [OF Suc.prems(1,2,3) _ absent al False N_def e_def s2_def \<rho>1_def, simplified]
      have le: "\<rho> \<subseteq>\<^sub>m \<rho>1" using add(3) unfolding \<rho>1_def by (simp add: map_le_def)
      have rest: "map_walk l va flags s2 N (?slot # created) = (s', created', res)"
        using Suc.prems(4) absent al False add(6)
        unfolding s2_def e_def by (simp add: Let_def N_def [symmetric])
      obtain sp1 pre1 where role: "\<rho>1 N = Some (l, sp1, pre1)"
        unfolding \<rho>1_def using child_role_level by (metis fun_upd_same)
      from Suc.IH [OF add(1,2) role rest] obtain new \<rho>' where
        h: "created' = new @ ?slot # created" "pmm_inv s'" "pt_inv s' \<rho>'" "\<rho>1 \<subseteq>\<^sub>m \<rho>'"
          "grown \<rho>1 s2 s' new" "keeps_lookups \<rho>1 s2 s'"
          "\<forall>t \<in> dom \<rho>' - dom \<rho>1. \<not> frame_busy s2 (t - hhdm_offset s2)"
          "\<forall>T. res = Some T \<longrightarrow> walk_to l s' N va = Some T \<and>
             (\<exists>sp' pre'. \<rho>' T = Some (0, sp', pre'))"
        by blast
      have tN: "table \<noteq> N" using Suc.prems(3) add(3) by auto
      have in1: "\<rho>1 table = Some (Suc l, sp, pre)" using Suc.prems(3) tN by (simp add: \<rho>1_def)
      have pres2: "has (get64 s2 ?slot) PTE_PRESENT" using add(5,7) by (simp add: links_def)
      have get': "get64 s' ?slot = e" using same_slot [OF h(5) in1 pres2] add(5) by simp
      have "grown \<rho> s s' (new @ [?slot])"
      proof (rule grown_trans [OF add(4) h(5) _ _ pres2])
        show "dom \<rho> \<subseteq> dom \<rho>1" by (auto simp: \<rho>1_def)
        show "\<exists>t \<in> dom \<rho>1. \<exists>i < 512. ?slot = slot_at t i"
          by (intro bexI [of _ table] exI [of _ ?i] domI [of \<rho>1, OF in1]) simp_all
      qed
      moreover have "keeps_lookups \<rho> s s2"
        using add(8) by (simp add: keeps_lookups_def)
      then have "keeps_lookups \<rho> s s'" using h(6) le by (rule keeps_lookups_trans)
      moreover have "\<forall>T. res = Some T \<longrightarrow> walk_to (Suc l) s' table va = Some T"
        using h(8) get' add(6,7) hh [OF h(5)] by (simp add: walk_to_Suc Let_def)
      moreover have "\<rho> \<subseteq>\<^sub>m \<rho>'" using le h(4) by (rule map_le_trans)
      moreover have "\<not> frame_busy s (t - hhdm_offset s)" if t: "t \<in> dom \<rho>' - dom \<rho>" for t
      proof (cases "t = N")
        case True
        have "vmm_pte_address e = f" by (rule link_facts [OF Suc.prems(1) al \<open>f \<noteq> 0\<close> e_def])
        then have "N - hhdm_offset s = f"
          using add(6) add(4) by (auto simp: table_at_def grown_def)
        then show ?thesis using True alloc_busy(1) [OF Suc.prems(1) al \<open>f \<noteq> 0\<close>] by simp
      next
        case False
        then have "\<not> frame_busy s2 (t - hhdm_offset s2)"
          using t bspec [OF h(7), of t] by (auto simp: \<rho>1_def)
        then show ?thesis using add(4) by (auto simp: grown_def)
      qed
      ultimately show ?thesis using h(1-3) h(8)
        by (intro exI [of _ "new @ [?slot]"] exI [of _ \<rho>'] conjI) auto
    qed
  qed
qed

text \<open>Writing a leaf changes the translation of the addresses whose walk ends at it.\<close>

lemma put_leaf:
  assumes inv: "pt_inv s \<rho>" and T: "\<rho> T = Some (0, spT, preT)" and i: "i < 512"
  shows "pt_inv (put64 (slot_at T i) v s) \<rho>"
    and "\<rho> t = Some (l, sp, pre) \<Longrightarrow> walk_to l (put64 (slot_at T i) v s) t va = walk_to l s t va"
    and "\<rho> t = Some (l, sp, pre) \<Longrightarrow> lookup_from l (put64 (slot_at T i) v s) t va =
      (if walk_to l s t va = Some T \<and> index_at va 0 = i then if has v PTE_PRESENT then Some v else None
       else lookup_from l s t va)"
proof -
  let ?s = "put64 (slot_at T i) v s"
  have Ta: "T AND 4095 = 0" by (rule pt_invD(1) [OF inv T])
  have get: "get64 ?s (slot_at t j) = (if t = T \<and> j = i then v else get64 s (slot_at t j))"
    if "\<rho> t = Some (l, sp, pre)" "j < 512" for t l sp pre j
    using that pt_invD(1) [OF inv that(1)] Ta i by (auto simp: get64_put64 slot_at_inj)
  have inner: "get64 ?s (slot_at t j) = get64 s (slot_at t j)"
    if "\<rho> t = Some (l, sp, pre)" "j < 512" "0 < l" for t l sp pre j
    using get [OF that(1,2)] that T by auto
  have old: "table_at ?s w = table_at s w" for w by (simp add: table_at_def)
  show "pt_inv ?s \<rho>"
    unfolding pt_inv_def
  proof (intro conjI allI impI)
    fix t l sp pre assume t: "\<rho> t = Some (l, sp, pre)"
    note d = pt_invD [OF inv t]
    show "t AND 4095 = 0" "t \<noteq> 0" "frame_busy ?s (t - hhdm_offset ?s)" "l \<le> 3"
      "l = 3 \<Longrightarrow> sp = t" "l = 3 \<Longrightarrow> pre = 0" "addr_page (t - hhdm_offset ?s) < total_pages ?s"
      using d(1-5,8) by simp_all
    show "\<rho> (table_at ?s (get64 ?s (slot_at t j))) =
      Some (child_role (l, sp, pre) j (table_at ?s (get64 ?s (slot_at t j))))"
      if "0 < l" "j < 512" "links (get64 ?s (slot_at t j))" for j
      using inner [OF t that(2,1)] d(6) [OF that(1,2)] that(3) old by simp
    show "\<exists>P j r. j < 512 \<and> \<rho> P = Some (Suc l, r) \<and> links (get64 ?s (slot_at P j)) \<and>
      table_at ?s (get64 ?s (slot_at P j)) = t" if "l < 3"
    proof -
      from d(7) [OF that] obtain P j r where P: "j < 512" "\<rho> P = Some (Suc l, r)"
        "links (get64 s (slot_at P j))" "table_at s (get64 s (slot_at P j)) = t" by blast
      obtain a b where "r = (a, b)" by (cases r)
      then show ?thesis using P inner [of P "Suc l" a b j] old
        by (intro exI [of _ P] exI [of _ j] exI [of _ r]) simp
    qed
  qed (use pt_inv_global [OF inv] in auto)
  show walk: "walk_to l ?s t va = walk_to l s t va" if "\<rho> t = Some (l, sp, pre)" for l t sp pre
    using that
  proof (induction l arbitrary: t sp pre)
    case 0
    then show ?case by simp
  next
    case (Suc l)
    let ?j = "index_at va (Suc l)" and ?e = "get64 s (slot_at t (index_at va (Suc l)))"
    have same: "get64 ?s (slot_at t ?j) = ?e" using inner [OF Suc.prems, of ?j] by simp
    show ?case
    proof (cases "links ?e")
      case True
      then have "\<rho> (table_at s ?e) = Some (child_role (Suc l, sp, pre) ?j (table_at s ?e))"
        using pt_invD(6) [OF inv Suc.prems, of ?j] by simp
      then have "walk_to l ?s (table_at s ?e) va = walk_to l s (table_at s ?e) va"
        using Suc.IH child_role_level by metis
      then show ?thesis by (simp add: walk_to_Suc same old Let_def)
    qed (simp add: walk_to_Suc same Let_def)
  qed
  show "lookup_from l ?s t va =
      (if walk_to l s t va = Some T \<and> index_at va 0 = i then if has v PTE_PRESENT then Some v else None
       else lookup_from l s t va)" if t: "\<rho> t = Some (l, sp, pre)"
  proof (cases "walk_to l s t va")
    case None
    then show ?thesis using walk [OF t] by (simp add: lookup_from_def)
  next
    case (Some P)
    have "\<exists>k a b. \<rho> P = Some (k, a, b)" using t Some
    proof (induction l arbitrary: t sp pre)
      case (Suc l)
      let ?e = "get64 s (slot_at t (index_at va (Suc l)))"
      have "links ?e" "walk_to l s (table_at s ?e) va = Some P"
        using Suc.prems(2) by (auto simp: walk_to_Suc Let_def split: if_splits)
      then show ?case
        using Suc.IH child_role_level pt_invD(6) [OF inv Suc.prems(1), of "index_at va (Suc l)"]
        by (metis index_at_less zero_less_Suc)
    qed auto
    then have "get64 ?s (slot_at P (index_at va 0)) =
        (if P = T \<and> index_at va 0 = i then v else get64 s (slot_at P (index_at va 0)))"
      using get [of P] by auto
    then show ?thesis using walk [OF t] Some
      by (cases "P = T \<and> index_at va 0 = i") (auto simp: lookup_from_def leaf_entry_def Let_def)
  qed
qed

text \<open>
  What the rest of the kernel relies on: a sound page allocator and a tree of tables in which the
  members of \<open>R\<close> are roots of address spaces, and no frame of \<open>F\<close> (the frames that hold data) is
  free or holds a table.
\<close>

definition data_frames :: "'a machine_scheme \<Rightarrow> (u64 \<Rightarrow> role option) \<Rightarrow> u64 set \<Rightarrow> bool" where
  "data_frames s \<rho> F \<longleftrightarrow>
     (\<forall>f \<in> F. frame_busy s f \<and> f AND 4095 = 0 \<and> f + hhdm_offset s \<notin> dom \<rho>)"

definition vm_ok :: "'a machine_scheme \<Rightarrow> u64 set \<Rightarrow> u64 set \<Rightarrow> bool" where
  "vm_ok s R F \<longleftrightarrow> pmm_inv s \<and>
     (\<exists>\<rho>. pt_inv s \<rho> \<and> (\<forall>r \<in> R. \<rho> r = Some (3, r, 0)) \<and> data_frames s \<rho> F)"

lemma data_frames_mono:
  assumes "data_frames s \<rho> F" and "hhdm_offset s' = hhdm_offset s"
    and "\<And>b. frame_busy s b \<Longrightarrow> frame_busy s' b"
    and "\<And>t. t \<in> dom \<rho>' - dom \<rho> \<Longrightarrow> \<not> frame_busy s (t - hhdm_offset s)"
  shows "data_frames s' \<rho>' F"
proof -
  have "f + hhdm_offset s \<notin> dom \<rho>'" if f: "f \<in> F" for f
    using assms(4) [of "f + hhdm_offset s"] assms(1) f by (auto simp: data_frames_def)
  then show ?thesis using assms(1-3) by (auto simp: data_frames_def)
qed

lemma same_leaf_same_page:
  assumes inv: "pt_inv s \<rho>" and roots: "\<rho> r = Some (3, r, 0)" "\<rho> r' = Some (3, r', 0)"
    and w: "walk_to 3 s r va = Some T" "walk_to 3 s r' vb = Some T" "index_at va 0 = index_at vb 0"
    and can: "canonical va" "canonical vb"
  shows "va AND NOT 4095 = vb AND NOT 4095" and "va < USER_TOP \<Longrightarrow> r = r'"
proof -
  obtain sp where a: "\<rho> T = Some (0, sp, (index_at va 3 * 512 + index_at va 2) * 512 + index_at va 1)"
      "index_at va 3 < 256 \<Longrightarrow> sp = r"
    using walk3_role [OF inv roots(1) w(1)] by blast
  obtain sp' where b: "\<rho> T = Some (0, sp', (index_at vb 3 * 512 + index_at vb 2) * 512 + index_at vb 1)"
      "index_at vb 3 < 256 \<Longrightarrow> sp' = r'"
    using walk3_role [OF inv roots(2) w(2)] by blast
  have "(index_at va 3 * 512 + index_at va 2) * 512 + index_at va 1 =
      (index_at vb 3 * 512 + index_at vb 2) * 512 + index_at vb 1" and sp: "sp = sp'"
    using a(1) b(1) by simp_all
  from digits_eq [OF this(1)] have ix: "index_at va 3 = index_at vb 3" "index_at va 2 = index_at vb 2"
    "index_at va 1 = index_at vb 1" by simp_all
  show "va AND NOT 4095 = vb AND NOT 4095" using can w(3) ix by (intro same_page_iff) simp_all
  show "va < USER_TOP \<Longrightarrow> r = r'"
    using index_at_3_lower [OF can(1)] a(2) b(2) ix(1) sp by simp
qed

lemma page_floor_id: "va AND 4095 = 0 \<Longrightarrow> va AND NOT 4095 = (va :: u64)"
  unfolding word_and_not_eq_diff by simp

lemma keeps_pt_lookup:
  assumes "keeps_lookups \<rho> s s'" and "\<rho> r = Some (3, r, 0)"
  shows "pt_lookup s' r va = pt_lookup s r va"
  using assms by (simp add: pt_lookup_def keeps_lookups_def)

lemma same_entries_keeps: "same_entries \<rho> s s' \<Longrightarrow> pt_inv s \<rho> \<Longrightarrow> keeps_lookups \<rho> s s'"
  by (simp add: keeps_lookups_def same_entries_lookup)

lemma shootdown_pt [simp]:
  "pt_inv (tlb_shootdown p v s) \<rho> = pt_inv s \<rho>"
  "walk_to l (tlb_shootdown p v s) t va = walk_to l s t va"
  "lookup_from l (tlb_shootdown p v s) t va = lookup_from l s t va"
  "pt_lookup (tlb_shootdown p v s) t va = pt_lookup s t va"
proof -
  have "walk_to l (tlb_shootdown p v s) t va = walk_to l s t va" for l t
    by (induction l arbitrary: t) (simp_all add: walk_to_Suc table_at_def Let_def)
  then show "walk_to l (tlb_shootdown p v s) t va = walk_to l s t va"
    and "lookup_from l (tlb_shootdown p v s) t va = lookup_from l s t va"
    and "pt_lookup (tlb_shootdown p v s) t va = pt_lookup s t va"
    by (simp_all add: lookup_from_def pt_lookup_def leaf_entry_def)
qed (simp add: pt_inv_def table_at_def)

lemma vm_ok_shootdown [simp]: "vm_ok (tlb_shootdown p v s) R F = vm_ok s R F"
  by (simp add: vm_ok_def data_frames_def)

lemma map_page_cases:
  assumes pm: "pmm_inv s" and inv: "pt_inv s \<rho>" and root: "\<rho> pml4 = Some (3, pml4, 0)"
    and m: "map_page pml4 va phys flags flush s = (s', ok)"
  obtains (ok) s1 \<rho>' T a b where "ok" "map_page_args_ok pml4 va phys flags" "pmm_inv s1" "pt_inv s1 \<rho>'"
      "\<rho> \<subseteq>\<^sub>m \<rho>'" "keeps_lookups \<rho> s s1" "walk_to 3 s1 pml4 va = Some T" "\<rho>' T = Some (0, a, b)"
      "\<not> has (get64 s1 (slot_at T (index_at va 0))) PTE_PRESENT"
      "s' = (if flush then tlb_shootdown pml4 va (put64 (slot_at T (index_at va 0)) (phys OR flags) s1)
             else put64 (slot_at T (index_at va 0)) (phys OR flags) s1)"
      "kernel_pml4 s1 = kernel_pml4 s" "\<And>F. data_frames s \<rho> F \<Longrightarrow> data_frames s1 \<rho>' F"
      "hhdm_offset s1 = hhdm_offset s" "\<And>b. frame_busy s b \<Longrightarrow> frame_busy s1 b"
      "total_pages s1 = total_pages s" "\<And>b. frame_busy s b \<Longrightarrow> frame_refs s1 b = frame_refs s b"
  | (fail) "\<not> ok" "pmm_inv s'" "pt_inv s' \<rho>" "keeps_lookups \<rho> s s'" "frame_refs s' = frame_refs s"
      "kernel_pml4 s' = kernel_pml4 s" "\<And>F. data_frames s \<rho> F \<Longrightarrow> data_frames s' \<rho> F"
      "hhdm_offset s' = hhdm_offset s" "\<And>b. frame_busy s b \<Longrightarrow> frame_busy s' b"
      "total_pages s' = total_pages s"
proof (cases "map_page_args_ok pml4 va phys flags")
  case False
  then have "s' = s" "\<not> ok" using m by (simp_all add: map_page_def)
  then show thesis using pm inv by (intro fail) (simp_all add: keeps_lookups_def)
next
  case args: True
  obtain s1 created res where w: "map_walk 3 va flags s pml4 [] = (s1, created, res)"
    by (metis prod_cases3)
  from map_walk_spec [OF pm inv root w] obtain \<rho>' where
    h: "pmm_inv s1" "pt_inv s1 \<rho>'" "\<rho> \<subseteq>\<^sub>m \<rho>'" "grown \<rho> s s1 created" "keeps_lookups \<rho> s s1"
      "\<forall>t \<in> dom \<rho>' - dom \<rho>. \<not> frame_busy s (t - hhdm_offset s)"
      "\<forall>T. res = Some T \<longrightarrow> walk_to 3 s1 pml4 va = Some T \<and> (\<exists>a b. \<rho>' T = Some (0, a, b))"
    by auto
  have fails: thesis if "(s', ok) = (map_rollback pml4 created s1, False)"
  proof -
    note rb = rollback_restores [OF inv h(1,4)]
    have "hhdm_offset s' = hhdm_offset s"
      using rb(3) that by (auto simp: same_entries_def)
    moreover from this have "data_frames s' \<rho> F" if "data_frames s \<rho> F" for F
      using rb(6) \<open>(s', ok) = _\<close> \<open>hhdm_offset s' = hhdm_offset s\<close>
      by (intro data_frames_mono [OF that]) auto
    ultimately show thesis
      using rb(1-5,7) rb(6) that same_entries_keeps [OF _ inv] by (intro fail) auto
  qed
  show thesis
  proof (cases res)
    case None
    then show thesis using m args w by (intro fails) (simp add: map_page_def)
  next
    case (Some T)
    let ?leaf = "slot_at T (index_at va 0)"
    obtain a b where T: "walk_to 3 s1 pml4 va = Some T" "\<rho>' T = Some (0, a, b)"
      using h(7) Some by blast
    show thesis
    proof (cases "has (get64 s1 ?leaf) PTE_PRESENT")
      case True
      then show thesis using m args w Some by (intro fails) (simp add: map_page_def)
    next
      case False
      then have "s' = (if flush then tlb_shootdown pml4 va (put64 ?leaf (phys OR flags) s1)
          else put64 ?leaf (phys OR flags) s1)" "ok"
        using m args w Some by (simp_all add: map_page_def Let_def)
      moreover have keep: "kernel_pml4 s1 = kernel_pml4 s" "hhdm_offset s1 = hhdm_offset s"
        "\<And>b. frame_busy s b \<Longrightarrow> frame_busy s1 b" "total_pages s1 = total_pages s"
        "\<And>b. frame_busy s b \<Longrightarrow> frame_refs s1 b = frame_refs s b"
        using h(4) by (auto simp: grown_def count_list_0_iff)
      moreover have "data_frames s1 \<rho>' F" if "data_frames s \<rho> F" for F
        using data_frames_mono [OF that keep(2,3)] h(6) by blast
      ultimately show thesis using ok args h(1-5) T False by blast
    qed
  qed
qed

lemma map_page_keeps:
  assumes ok: "vm_ok s R F" and p: "pml4 \<in> R" and m: "map_page pml4 va phys flags flush s = (s', ok)"
  shows "vm_ok s' R F" and "kernel_pml4 s' = kernel_pml4 s"
    and "\<not> ok \<Longrightarrow> frame_refs s' = frame_refs s"
    and "\<not> ok \<Longrightarrow> r \<in> R \<Longrightarrow> pt_lookup s' r vb = pt_lookup s r vb"
    and "ok \<Longrightarrow> map_page_args_ok pml4 va phys flags"
    and "ok \<Longrightarrow> pt_lookup s pml4 va = None" and "ok \<Longrightarrow> pt_lookup s' pml4 va = Some (phys OR flags)"
    and "ok \<Longrightarrow> r \<in> R \<Longrightarrow> vb AND NOT 4095 \<noteq> va \<or> (va < USER_TOP \<and> r \<noteq> pml4) \<Longrightarrow>
      pt_lookup s' r vb = pt_lookup s r vb"
    and "frame_busy s x \<Longrightarrow> frame_busy s' x" and "total_pages s' = total_pages s"
    and "hhdm_offset s' = hhdm_offset s" and "frame_busy s x \<Longrightarrow> frame_refs s' x = frame_refs s x"
proof -
  obtain \<rho> where pm: "pmm_inv s" and inv: "pt_inv s \<rho>" and R: "\<forall>r \<in> R. \<rho> r = Some (3, r, 0)"
    and F: "data_frames s \<rho> F"
    using ok by (auto simp: vm_ok_def)
  have root: "\<rho> pml4 = Some (3, pml4, 0)" using R p by blast
  have "vm_ok s' R F \<and> kernel_pml4 s' = kernel_pml4 s \<and>
    (frame_busy s x \<longrightarrow> frame_busy s' x \<and> frame_refs s' x = frame_refs s x) \<and> total_pages s' = total_pages s \<and>
    hhdm_offset s' = hhdm_offset s \<and>
    (\<not> ok \<longrightarrow> frame_refs s' = frame_refs s \<and> (r \<in> R \<longrightarrow> pt_lookup s' r vb = pt_lookup s r vb)) \<and>
    (ok \<longrightarrow> map_page_args_ok pml4 va phys flags \<and> pt_lookup s pml4 va = None \<and>
       pt_lookup s' pml4 va = Some (phys OR flags) \<and>
       (r \<in> R \<and> (vb AND NOT 4095 \<noteq> va \<or> (va < USER_TOP \<and> r \<noteq> pml4)) \<longrightarrow>
          pt_lookup s' r vb = pt_lookup s r vb))"
    using pm inv root m
  proof (cases rule: map_page_cases)
    case fail
    then have "vm_ok s' R F" using R F by (auto simp: vm_ok_def)
    then show ?thesis using fail R keeps_pt_lookup [OF fail(4)] fun_cong [OF fail(5), of x] by blast
  next
    case (ok s1 \<rho>' T a b)
    let ?leaf = "slot_at T (index_at va 0)" and ?v = "phys OR flags"
    let ?s = "put64 ?leaf ?v s1"
    have R': "\<forall>r \<in> R. \<rho>' r = Some (3, r, 0)"
    proof
      fix r assume "r \<in> R"
      then show "\<rho>' r = Some (3, r, 0)" using R ok(5) by (metis domI map_le_def)
    qed
    note put = put_leaf [OF ok(4,8) index_at_less, where v = ?v]
    have look: "pt_lookup s' = pt_lookup ?s" by (simp add: ok(10) fun_eq_iff)
    have "pmm_inv s'" "pt_inv s' \<rho>'" "data_frames s' \<rho>' F"
      using ok(3) put(1) ok(12) [OF F] by (simp_all add: ok(10) data_frames_def)
    then have 1: "vm_ok s' R F" using R' by (auto simp: vm_ok_def)
    have args: "pml4 \<noteq> 0" "canonical va" "va AND 4095 = 0" and v: "has flags PTE_PRESENT"
      and fm: "phys AND NOT PTE_ADDR_MASK = 0" "flags AND NOT PTE_FLAG_MASK = 0"
      using ok(2) unfolding map_page_args_ok_def by blast+
    have pv: "has ?v PTE_PRESENT" using entry_parts(3) [OF fm, of PTE_PRESENT] v by simp
    have 2: "pt_lookup s pml4 va = None"
    proof -
      have "pt_lookup s1 pml4 va = None" using ok(7,9) by (simp add: pt_lookup_def lookup_from_def leaf_entry_def)
      then show ?thesis using keeps_pt_lookup [OF ok(6) root] by simp
    qed
    have 3: "pt_lookup s' pml4 va = Some ?v"
      using put(3) [where t = pml4 and l = 3 and sp = pml4 and pre = 0 and va1 = va] R' p ok(7) args(1,2) pv by (simp add: look pt_lookup_def)
    have 4: "pt_lookup s' r vb = pt_lookup s r vb"
      if r: "r \<in> R" "vb AND NOT 4095 \<noteq> va \<or> (va < USER_TOP \<and> r \<noteq> pml4)"
    proof (cases "canonical vb")
      case True
      have "\<not> (walk_to 3 s1 r vb = Some T \<and> index_at vb 0 = index_at va 0)"
      proof
        assume "walk_to 3 s1 r vb = Some T \<and> index_at vb 0 = index_at va 0"
        then have "va AND NOT 4095 = vb AND NOT 4095" "va < USER_TOP \<Longrightarrow> pml4 = r"
          using same_leaf_same_page [OF ok(4) _ _ ok(7), of r vb] R' p r(1) args(2) True by auto
        then show False using r(2) page_floor_id [OF args(3)] by auto
      qed
      then have "lookup_from 3 ?s r vb = lookup_from 3 s1 r vb"
        using put(3) [where t = r and l = 3 and sp = r and pre = 0 and va = vb] R' r(1) by auto
      then have "pt_lookup s' r vb = pt_lookup s1 r vb" by (simp add: look pt_lookup_def)
      then show ?thesis using keeps_pt_lookup [OF ok(6), of r vb] R r(1) by simp
    qed (simp add: pt_lookup_def)
    have "kernel_pml4 s' = kernel_pml4 s"
      "frame_busy s x \<longrightarrow> frame_busy s' x \<and> frame_refs s' x = frame_refs s x"
      "total_pages s' = total_pages s" "hhdm_offset s' = hhdm_offset s"
      using ok(11,13,15) ok(14) ok(16) by (simp_all add: ok(10))
    then show ?thesis using 1 2 3 4 ok(1,2) by blast
  qed
  then show "vm_ok s' R F" and "kernel_pml4 s' = kernel_pml4 s"
    and "\<not> ok \<Longrightarrow> frame_refs s' = frame_refs s"
    and "\<not> ok \<Longrightarrow> r \<in> R \<Longrightarrow> pt_lookup s' r vb = pt_lookup s r vb"
    and "ok \<Longrightarrow> map_page_args_ok pml4 va phys flags"
    and "ok \<Longrightarrow> pt_lookup s pml4 va = None" and "ok \<Longrightarrow> pt_lookup s' pml4 va = Some (phys OR flags)"
    and "ok \<Longrightarrow> r \<in> R \<Longrightarrow> vb AND NOT 4095 \<noteq> va \<or> (va < USER_TOP \<and> r \<noteq> pml4) \<Longrightarrow>
      pt_lookup s' r vb = pt_lookup s r vb"
    and "frame_busy s x \<Longrightarrow> frame_busy s' x" and "total_pages s' = total_pages s"
    and "hhdm_offset s' = hhdm_offset s" and "frame_busy s x \<Longrightarrow> frame_refs s' x = frame_refs s x"
    by blast+
qed

text \<open>Allocating and releasing data frames keeps the tables.\<close>

lemma pt_lookup_cong:
  assumes "mem s' = mem s" and "hhdm_offset s' = hhdm_offset s"
  shows "pt_lookup s' r va = pt_lookup s r va"
proof -
  have "walk_to l s' t va = walk_to l s t va" for l t
    by (induction l arbitrary: t) (simp_all add: walk_to_Suc table_at_def get64_def assms Let_def)
  then show ?thesis by (simp add: pt_lookup_def lookup_from_def leaf_entry_def get64_def assms)
qed

lemma pt_inv_cong:
  assumes "pt_inv s \<rho>" and "mem s' = mem s" "hhdm_offset s' = hhdm_offset s"
    "total_pages s' = total_pages s"
    and "\<And>t. t \<in> dom \<rho> \<Longrightarrow> frame_busy s' (t - hhdm_offset s)"
  shows "pt_inv s' \<rho>"
proof (rule same_entries_inv [OF _ assms(1) assms(4)])
  show "same_entries \<rho> s s'" using assms(2,3) by (simp add: same_entries_def get64_def)
qed (rule assms(5))

lemma vm_ok_subset: "vm_ok s R F \<Longrightarrow> R' \<subseteq> R \<Longrightarrow> F' \<subseteq> F \<Longrightarrow> vm_ok s R' F'"
  unfolding vm_ok_def data_frames_def by (meson subsetD)

lemma vm_ok_pmm: "vm_ok s R F \<Longrightarrow> pmm_inv s"
  by (simp add: vm_ok_def)

lemma vm_ok_alloc:
  assumes ok: "vm_ok s R F" and al: "pmm_alloc_page s = (s', a)" and a: "a \<noteq> 0"
  shows "vm_ok s' R (insert a F)" and "a \<notin> F"
proof -
  obtain \<rho> where h: "pmm_inv s" "pt_inv s \<rho>" "\<forall>r \<in> R. \<rho> r = Some (3, r, 0)" "data_frames s \<rho> F"
    using ok by (auto simp: vm_ok_def)
  note ct = pmm_alloc_contract [OF h(1) al] and fr = pmm_alloc_page_frame [OF al]
    and bu = alloc_busy [OF h(1) al a]
  show "a \<notin> F" using h(4) bu(1) by (auto simp: data_frames_def)
  have "pt_inv s' \<rho>"
    by (rule pt_inv_cong [OF h(2) fr(1,2,5)]) (use pt_invD(3) [OF h(2)] bu(3) in auto)
  moreover have "a + hhdm_offset s \<notin> dom \<rho>"
  proof
    assume "a + hhdm_offset s \<in> dom \<rho>"
    then have "frame_busy s (a + hhdm_offset s - hhdm_offset s)" using pt_inv_dom(3) [OF h(2)] by blast
    then show False using bu(1) by simp
  qed
  moreover have "a AND 4095 = 0" using ct(6) a by blast
  ultimately have "data_frames s' \<rho> (insert a F)"
    using h(4) bu(2,3) fr(2) by (simp add: data_frames_def)
  then show "vm_ok s' R (insert a F)" using ct(1) h(3) \<open>pt_inv s' \<rho>\<close> unfolding vm_ok_def by blast
qed

lemma data_frame_free:
  assumes pm: "pmm_inv s" and inv: "pt_inv s \<rho>" and F: "data_frames s \<rho> F" and f: "f \<in> F"
  shows "pmm_inv (pmm_free_page s f)" and "pt_inv (pmm_free_page s f) \<rho>"
    and "data_frames (pmm_free_page s f) \<rho> (F - {f})"
proof -
  have fa: "f AND 4095 = 0" "f + hhdm_offset s \<notin> dom \<rho>" using F f by (auto simp: data_frames_def)
  show "pmm_inv (pmm_free_page s f)" by (rule pmm_free_page_inv(1) [OF pm])
  show "pt_inv (pmm_free_page s f) \<rho>"
  proof (rule pt_inv_cong [OF inv])
    fix t assume t: "t \<in> dom \<rho>"
    then have ta: "t AND 4095 = 0" "frame_busy s (t - hhdm_offset s)"
      using pt_inv_dom [OF inv] by blast+
    have "addr_page (t - hhdm_offset s) \<noteq> addr_page f"
    proof
      assume "addr_page (t - hhdm_offset s) = addr_page f"
      then have "t - hhdm_offset s = f"
        using unat_sub_page page_sub_aligned ta(1) pt_inv_global(1) [OF inv] fa(1) by metis
      then show False using fa(2) t by auto
    qed
    then show "frame_busy (pmm_free_page s f) (t - hhdm_offset s)" using ta(2) by (rule free_busy)
  qed simp_all
  show "data_frames (pmm_free_page s f) \<rho> (F - {f})"
    unfolding data_frames_def
  proof (intro ballI conjI)
    fix g assume g: "g \<in> F - {f}"
    then have ga: "frame_busy s g" "g AND 4095 = 0" "g + hhdm_offset s \<notin> dom \<rho>"
      using F by (auto simp: data_frames_def)
    have "addr_page g \<noteq> addr_page f" using unat_sub_page ga(2) fa(1) g by auto
    then show "frame_busy (pmm_free_page s f) g" using ga(1) by (rule free_busy)
  qed (use F in \<open>auto simp: data_frames_def\<close>)
qed

lemma vm_ok_free:
  assumes ok: "vm_ok s R F" and f: "f \<in> F"
  shows "vm_ok (pmm_free_page s f) R (F - {f})"
proof -
  obtain \<rho> where h: "pmm_inv s" "pt_inv s \<rho>" "\<forall>r \<in> R. \<rho> r = Some (3, r, 0)" "data_frames s \<rho> F"
    using ok by (auto simp: vm_ok_def)
  show ?thesis using data_frame_free [OF h(1,2,4) f] h(3) by (auto simp: vm_ok_def)
qed

text \<open>
  C1: mapping a page either succeeds, and then the page was unmapped, now translates to exactly the
  frame and flags given, and no other page of any address space changes (other address spaces at all,
  for a user page); or fails, and then every translation and every frame's reference count is as
  before. The tables stay well-formed either way.
\<close>

theorem map_page_correct:
  assumes "vm_ok s R F" and "pml4 \<in> R" and "map_page pml4 va phys flags flush s = (s', ok)"
  shows "vm_ok s' R F \<and>
    (if ok then pt_lookup s pml4 va = None \<and> pt_lookup s' pml4 va = Some (phys OR flags) \<and>
       vmm_get_physical_in s' pml4 va = (phys, flags) \<and>
       (\<forall>r vb. r \<in> R \<and> (vb AND NOT 4095 \<noteq> va \<or> (va < USER_TOP \<and> r \<noteq> pml4)) \<longrightarrow>
          pt_lookup s' r vb = pt_lookup s r vb)
     else frame_refs s' = frame_refs s \<and> (\<forall>r vb. r \<in> R \<longrightarrow> pt_lookup s' r vb = pt_lookup s r vb))"
proof -
  note k = map_page_keeps [OF assms]
  have phys: "vmm_get_physical_in s' pml4 va = (phys, flags)" if ok
  proof -
    have fm: "phys AND NOT PTE_ADDR_MASK = 0" "flags AND NOT PTE_FLAG_MASK = 0"
      using k(5) [OF that] by (auto simp: map_page_args_ok_def)
    have "map_option (get64 s') (vmm_pte_in s' pml4 va) = Some (phys OR flags)"
      using k(7) [OF that] by (simp only: pt_lookup_pte)
    then show ?thesis using entry_parts(1,2) [OF fm] by (auto simp: vmm_get_physical_in_def)
  qed
  show ?thesis
  proof (cases ok)
    case True
    then show ?thesis using k(1) k(6) k(7) k(8) phys by simp
  next
    case False
    then show ?thesis using k(1) k(3) k(4) by simp
  qed
qed

text \<open>A machine of eight pages with an empty root table in page 1.\<close>

definition tiny_root :: u64 where "tiny_root = 0xFFFF800000001000"

definition tiny_machine :: machine where
  "tiny_machine = \<lparr>bitmap = [0x03], refcounts = [UINT32_MAX, UINT32_MAX, 0, 0, 0, 0, 0, 0],
     total_pages = 8, free_pages = 6, last_alloc_index = 0, highest_address = 0x8000,
     hhdm_offset = 0xFFFF800000000000, mem = (\<lambda>_. 0), kernel_pml4 = tiny_root,
     cr3 = 0x1000, active_cr3 = 0x1000, tlb_log = []\<rparr>"

lemma tiny_pmm_inv: "pmm_inv tiny_machine"
proof -
  have "bitmap_test p [0x03] \<longleftrightarrow> [UINT32_MAX, UINT32_MAX, 0, 0, 0, 0, 0, 0] ! p \<noteq> 0"
    if "p < 8" for p
  proof -
    have "p \<in> {0, 1, 2, 3, 4, 5, 6, 7}" using that by auto
    then show ?thesis by (auto simp: bitmap_test_def)
  qed
  then show ?thesis by (simp add: pmm_inv_def tiny_machine_def)
qed

lemma tiny_vm_ok: "vm_ok tiny_machine {tiny_root} {}"
proof -
  have "get64 tiny_machine q = 0" for q
    by (simp add: get64_def tiny_machine_def ld64_zero)
  moreover have "frame_busy tiny_machine (tiny_root - hhdm_offset tiny_machine)"
    by (simp add: frame_busy_def tiny_machine_def tiny_root_def addr_page_def)
  ultimately have "pt_inv tiny_machine [tiny_root \<mapsto> (3, tiny_root, 0)]"
    by (auto simp: pt_inv_def links_def has_def inj_on_def tiny_root_def tiny_machine_def
        addr_page_def split: if_splits)
  then show ?thesis using tiny_pmm_inv by (auto simp: vm_ok_def data_frames_def)
qed

lemma map_page_correct_witness:
  "vm_ok (fst (vmm_map_page_in tiny_root 0x400000 0x5000 7 tiny_machine)) {tiny_root} {}"
proof -
  let ?m = "vmm_map_page_in tiny_root 0x400000 0x5000 7 tiny_machine"
  have "map_page tiny_root 0x400000 0x5000 7 True tiny_machine = (fst ?m, snd ?m)"
    by (simp add: vmm_map_page_in_def)
  from map_page_correct [OF tiny_vm_ok _ this] show ?thesis by simp
qed

end
