(* ===== verification/VmmSpace.thy ===== *)
theory VmmSpace
  imports VmmTree
begin

text \<open>
  Correctness of unmapping (with the pruning of tables that became empty) and of the creation of
  address spaces, on the invariant of \<open>VmmTree\<close>.
\<close>

section \<open>Unlinking an empty table\<close>

lemma child_role_same:
  assumes "child_role (Suc l, sp, pre) i c = child_role (Suc l, sp', pre') i' c"
    and "i < 512" "i' < 512" and "l < 2 \<or> (i < 256 \<and> l = 2 \<and> pre = pre')"
  shows "i = i'" and "sp = sp'" and "pre = pre'"
proof -
  have digit: "pre = pre' \<and> i = i'" if "pre * 512 + i = pre' * 512 + i'"
  proof -
    have "(pre * 512 + i) div 512 = pre" "(pre' * 512 + i') div 512 = pre'"
      using assms(2,3) by simp_all
    then show ?thesis using that by simp
  qed
  show "i = i'" and "sp = sp'" and "pre = pre'"
    using assms(1,4) digit by (auto simp: child_role_def split: if_splits)
qed

lemma remove_table:
  assumes inv: "pt_inv s \<rho>" and T: "\<rho> T = Some (Suc l, sp, pre)" and i: "i < 512"
    and lk: "links (get64 s (slot_at T i))" and N: "N = table_at s (get64 s (slot_at T i))"
    and empty: "empty_table s N" and user: "l < 2 \<or> i < 256"
    and s': "s' = put64 (slot_at T i) 0 s" and r': "\<rho>' = \<rho>(N := None)"
  shows "pt_inv s' \<rho>'" and "keeps_lookups \<rho>' s s'" and "\<rho> N = Some (l, snd (child_role (Suc l, sp, pre) i N))"
    and "\<And>t k a b j. \<rho> t = Some (k, a, b) \<Longrightarrow> j < 512 \<Longrightarrow> t \<noteq> T \<Longrightarrow>
      get64 s' (slot_at t j) = get64 s (slot_at t j)"
proof -
  have Ta: "T AND 4095 = 0" by (rule pt_invD(1) [OF inv T])
  have l3: "Suc l \<le> 3" by (rule pt_invD(4) [OF inv T])
  have roleN: "\<rho> N = Some (child_role (Suc l, sp, pre) i N)"
    using pt_invD(6) [OF inv T _ i lk] N by simp
  then show roleN': "\<rho> N = Some (l, snd (child_role (Suc l, sp, pre) i N))"
    using child_role_level by (metis prod.collapse fst_conv)
  have get: "get64 s' (slot_at t j) = (if t = T \<and> j = i then 0 else get64 s (slot_at t j))"
    if "\<rho> t = Some (k, a, b)" "j < 512" for t k a b j
    using that pt_invD(1) [OF inv that(1)] Ta i by (auto simp: s' get64_put64 slot_at_inj)
  show "\<And>t k a b j. \<rho> t = Some (k, a, b) \<Longrightarrow> j < 512 \<Longrightarrow> t \<noteq> T \<Longrightarrow>
      get64 s' (slot_at t j) = get64 s (slot_at t j)"
    using get by simp
  have old: "table_at s' w = table_at s w" for w by (simp add: s' table_at_def)
  have noN: "\<not> has (get64 s (slot_at N j)) PTE_PRESENT" if "j < 512" for j
    using empty that by (simp add: empty_table_def list_all_iff)
  have TN: "T \<noteq> N" using T roleN' by auto
  have only: "t = T \<and> j = i"
    if t: "\<rho> t = Some (k, a, b)" "0 < k" "j < 512" "links (get64 s (slot_at t j))"
      "table_at s (get64 s (slot_at t j)) = N" for t k a b j
  proof -
    have eq: "child_role (k, a, b) j N = child_role (Suc l, sp, pre) i N"
      using pt_invD(6) [OF inv t(1-4)] t(5) roleN by simp
    obtain k' where k': "k = Suc k'" using t(2) by (cases k) auto
    have "k' = l" using eq child_role_level unfolding k' by (metis fst_conv)
    then have k: "k = Suc l" using k' by simp
    have z: "Suc l = 3 \<Longrightarrow> pre = b"
      using pt_invD(5) [OF inv T] pt_invD(5) [OF inv t(1)] k by simp
    have cond: "l < 2 \<or> (i < 256 \<and> l = 2 \<and> pre = b)" using user z l3 by auto
    note cs = child_role_same [OF eq [symmetric, unfolded k] i t(3) cond]
    then have "\<rho> t = Some (Suc l, sp, pre)" using t(1) k by simp
    then show ?thesis using pt_inv_global(2) [OF inv T] cs(1) by auto
  qed
  show inv': "pt_inv s' \<rho>'"
    unfolding pt_inv_def
  proof (intro conjI allI impI)
    show "hhdm_offset s' AND 4095 = 0" "unat (hhdm_offset s') + total_pages s' * 4096 \<le> 2 ^ 64"
      using pt_inv_global [OF inv] by (simp_all add: s')
    show "inj_on \<rho>' (dom \<rho>')"
      using pt_inv_global(2) [OF inv] unfolding r' by (auto simp: inj_on_def dom_def split: if_splits)
  next
    fix t k a b assume t': "\<rho>' t = Some (k, a, b)"
    then have t: "\<rho> t = Some (k, a, b)" and tN: "t \<noteq> N" by (auto simp: r' split: if_splits)
    note d = pt_invD [OF inv t]
    show "t AND 4095 = 0" "t \<noteq> 0" "frame_busy s' (t - hhdm_offset s')" "k \<le> 3"
      "k = 3 \<Longrightarrow> a = t" "k = 3 \<Longrightarrow> b = 0" "addr_page (t - hhdm_offset s') < total_pages s'"
      using d(1-5,8) by (simp_all add: s')
    show "\<rho>' (table_at s' (get64 s' (slot_at t j))) =
      Some (child_role (k, a, b) j (table_at s' (get64 s' (slot_at t j))))"
      if j: "0 < k" "j < 512" "links (get64 s' (slot_at t j))" for j
    proof -
      have ne: "\<not> (t = T \<and> j = i)" using j(3) get [OF t j(2)] by (auto simp: links_def has_def)
      then have same: "get64 s' (slot_at t j) = get64 s (slot_at t j)" using get [OF t j(2)] by auto
      then have "table_at s (get64 s (slot_at t j)) \<noteq> N" using only [OF t j(1,2)] j(3) ne by auto
      then show ?thesis using d(6) [OF j(1,2)] j(3) by (simp add: same old r')
    qed
    show "\<exists>P j r. j < 512 \<and> \<rho>' P = Some (Suc k, r) \<and> links (get64 s' (slot_at P j)) \<and>
      table_at s' (get64 s' (slot_at P j)) = t" if "k < 3"
    proof -
      from d(7) [OF that] obtain P j r where P: "j < 512" "\<rho> P = Some (Suc k, r)"
        "links (get64 s (slot_at P j))" "table_at s (get64 s (slot_at P j)) = t" by blast
      have "P \<noteq> N" using P(3) noN [OF P(1)] by (auto simp: links_def)
      moreover have "\<not> (P = T \<and> j = i)" using P(4) N tN by auto
      then have "get64 s' (slot_at P j) = get64 s (slot_at P j)"
        using get [of P "Suc k" "fst r" "snd r" j] P(1,2) by auto
      ultimately show ?thesis using P old
        by (intro exI [of _ P] exI [of _ j] exI [of _ r]) (simp add: r')
    qed
  qed
  show "keeps_lookups \<rho>' s s'"
    unfolding keeps_lookups_def
  proof (intro allI impI)
    fix t k a b va assume "\<rho>' t = Some (k, a, b)"
    then show "lookup_from k s' t va = lookup_from k s t va"
    proof (induction k arbitrary: t a b)
      case 0
      then have t: "\<rho> t = Some (0, a, b)" by (simp add: r' split: if_splits)
      then have "t \<noteq> T" using T by auto
      then show ?case using get [OF t, of "index_at va 0"] by (simp add: leaf_entry_def)
    next
      case (Suc k)
      then have t: "\<rho> t = Some (Suc k, a, b)" by (simp add: r' split: if_splits)
      let ?j = "index_at va (Suc k)"
      let ?e = "get64 s (slot_at t ?j)"
      show ?case
      proof (cases "t = T \<and> ?j = i")
        case True
        have "\<not> has (get64 s (slot_at N (index_at va k))) PTE_PRESENT"
          "\<not> has (get64 s (slot_at N (index_at va 0))) PTE_PRESENT" using noN by simp_all
        then have "lookup_from k s N va = None"
          by (cases k) (simp_all add: leaf_entry_def lookup_from_Suc links_def Let_def)
        then have "lookup_from (Suc k) s t va = None"
          using True lk N by (simp add: lookup_from_Suc Let_def)
        moreover have "lookup_from (Suc k) s' t va = None"
          using True get [OF t, of ?j] i by (simp add: lookup_from_Suc Let_def links_def has_def)
        ultimately show ?thesis by simp
      next
        case False
        then have same: "get64 s' (slot_at t ?j) = ?e" using get [OF t, of ?j] by auto
        show ?thesis
        proof (cases "links ?e")
          case True
          have "table_at s ?e \<noteq> N" using only [OF t, of ?j] True False by auto
          then have "\<rho>' (table_at s ?e) = Some (child_role (Suc k, a, b) ?j (table_at s ?e))"
            using pt_invD(6) [OF inv t, of ?j] True by (simp add: r')
          then have "lookup_from k s' (table_at s ?e) va = lookup_from k s (table_at s ?e) va"
            using Suc.IH child_role_level by metis
          then show ?thesis by (simp add: lookup_from_Suc same old Let_def)
        qed (simp add: lookup_from_Suc same Let_def)
      qed
    qed
  qed
qed

section \<open>Pruning\<close>

text \<open>
  A path as \<open>prune\<close> takes it: from the table of level \<open>l\<close> up to the root, each entry linking the table
  below it.
\<close>

fun path_ok :: "'a machine_scheme \<Rightarrow> (u64 \<Rightarrow> role option) \<Rightarrow> u64 \<Rightarrow> nat \<Rightarrow> u64 \<Rightarrow> (u64 \<times> u64) list \<Rightarrow> bool"
where
  "path_ok s \<rho> va l table [] \<longleftrightarrow> l = 3"
| "path_ok s \<rho> va l table ((slot, t) # ps) \<longleftrightarrow>
     t = table \<and> l < 3 \<and>
     (\<exists>T r. slot = slot_at T (index_at va (Suc l)) \<and> \<rho> T = Some (Suc l, r) \<and>
        links (get64 s slot) \<and> table_at s (get64 s slot) = table \<and> path_ok s \<rho> va (Suc l) T ps)"

lemma path_ok_cong:
  assumes "path_ok s \<rho> va l table ps" and "hhdm_offset s' = hhdm_offset s"
    and "\<And>t k r j. \<rho> t = Some (k, r) \<Longrightarrow> l < k \<Longrightarrow> j < 512 \<Longrightarrow> get64 s' (slot_at t j) = get64 s (slot_at t j)"
    and "\<And>t k r. \<rho> t = Some (k, r) \<Longrightarrow> l < k \<Longrightarrow> \<rho>' t = \<rho> t"
  shows "path_ok s' \<rho>' va l table ps"
  using assms
proof (induction ps arbitrary: l table)
  case Nil
  then show ?case by simp
next
  case (Cons p ps)
  obtain slot t where p: "p = (slot, t)" by (cases p)
  from Cons.prems(1) obtain T r where h: "t = table" "l < 3" "slot = slot_at T (index_at va (Suc l))"
    "\<rho> T = Some (Suc l, r)" "links (get64 s slot)" "table_at s (get64 s slot) = table"
    "path_ok s \<rho> va (Suc l) T ps" by (auto simp: p)
  have "get64 s' slot = get64 s slot" using Cons.prems(3) [OF h(4), of "index_at va (Suc l)"] h(3) by simp
  moreover have "\<rho>' T = Some (Suc l, r)" using Cons.prems(4) [OF h(4)] h(4) by simp
  moreover have "path_ok s' \<rho>' va (Suc l) T ps"
    by (rule Cons.IH [OF h(7) Cons.prems(2)]) (use Cons.prems(3,4) in auto)
  ultimately show ?case using h Cons.prems(2) by (auto simp: p table_at_def)
qed

lemma prune_spec:
  assumes "pt_inv s \<rho>" and "path_ok s \<rho> va l table ps" and "canonical va"
    and "prune va ps s retired = (s', retired')" and "\<rho> table = Some (l, r0)"
  shows "\<exists>\<rho>' new. retired' = retired @ new \<and> pt_inv s' \<rho>' \<and> \<rho>' \<subseteq>\<^sub>m \<rho> \<and> keeps_lookups \<rho>' s s' \<and>
    (\<forall>f \<in> set new. \<exists>t \<in> dom \<rho> - dom \<rho>'. f = t - hhdm_offset s) \<and>
    (\<forall>t r. \<rho> t = Some (3, r) \<longrightarrow> \<rho>' t = Some (3, r)) \<and>
    bitmap s' = bitmap s \<and> refcounts s' = refcounts s \<and> free_pages s' = free_pages s \<and>
    total_pages s' = total_pages s \<and> hhdm_offset s' = hhdm_offset s \<and> kernel_pml4 s' = kernel_pml4 s"
  using assms
proof (induction ps arbitrary: s \<rho> l table retired r0)
  case Nil
  then show ?case by (intro exI [of _ \<rho>] exI [of _ "[]"]) (auto simp: keeps_lookups_def)
next
  case (Cons p ps)
  obtain slot t where p: "p = (slot, t)" by (cases p)
  from Cons.prems(2) obtain T r where h: "t = table" "l < 3" "slot = slot_at T (index_at va (Suc l))"
    "\<rho> T = Some (Suc l, r)" "links (get64 s slot)" "table_at s (get64 s slot) = table"
    "path_ok s \<rho> va (Suc l) T ps" by (auto simp: p)
  show ?case
  proof (cases "(ps = [] \<and> va \<ge> UPPER_HALF) \<or> \<not> empty_table s table")
    case True
    then have "s' = s" "retired' = retired"
      using Cons.prems(4) by (auto simp: p h(1) split: if_splits)
    then show ?thesis using Cons.prems(1)
      by (intro exI [of _ \<rho>] exI [of _ "[]"]) (auto simp: keeps_lookups_def)
  next
    case False
    define s1 where "s1 = put64 slot 0 s"
    define \<rho>1 where "\<rho>1 = \<rho>(table := None)"
    let ?f = "vmm_pte_address (get64 s slot)"
    have rest: "prune va ps s1 (retired @ [?f]) = (s', retired')"
      using Cons.prems(4) False by (auto simp: p h(1) s1_def Let_def)
    obtain sp pre where r: "r = (sp, pre)" by (cases r)
    have user: "l < 2 \<or> index_at va (Suc l) < 256"
    proof (cases "l < 2")
      case False
      then have "l = 2" using h(2) by simp
      then have "ps = []" using h(7) by (cases ps) (auto split: prod.splits)
      then have "va < USER_TOP" using \<open>\<not> (_ \<or> _)\<close> Cons.prems(3) by (auto simp: canonical_def)
      then show ?thesis using index_at_3_lower [OF Cons.prems(3)] \<open>l = 2\<close> by (simp add: numeral_3_eq_3)
    qed simp
    have lk: "links (get64 s (slot_at T (index_at va (Suc l))))" using h(3,5) by simp
    have tb: "table = table_at s (get64 s (slot_at T (index_at va (Suc l))))" using h(3,6) by simp
    have em: "empty_table s table" using False by simp
    have s1: "s1 = put64 (slot_at T (index_at va (Suc l))) 0 s" by (simp add: s1_def h(3))
    note rm = remove_table [OF Cons.prems(1) h(4) [unfolded r] index_at_less lk tb em user s1 \<rho>1_def]
    have Tn: "T \<noteq> table" using h(4) rm(3) by auto
    have T1: "\<rho>1 T = Some (Suc l, r)" using h(4) Tn by (simp add: \<rho>1_def)
    have po: "path_ok s1 \<rho>1 va (Suc l) T ps"
    proof (rule path_ok_cong [OF h(7)])
      show "hhdm_offset s1 = hhdm_offset s" by (simp add: s1)
      show "get64 s1 (slot_at t' j) = get64 s (slot_at t' j)"
        if "\<rho> t' = Some (k, r')" "Suc l < k" "j < 512" for t' k r' j
        using rm(4) [of t' k "fst r'" "snd r'" j] that h(4) by (cases "t' = T") auto
      show "\<rho>1 t' = \<rho> t'" if "\<rho> t' = Some (k, r')" "Suc l < k" for t' k r'
        using that rm(3) by (auto simp: \<rho>1_def)
    qed
    from Cons.IH [OF rm(1) po Cons.prems(3) rest T1] obtain \<rho>' new where
      g: "retired' = (retired @ [?f]) @ new" "pt_inv s' \<rho>'" "\<rho>' \<subseteq>\<^sub>m \<rho>1" "keeps_lookups \<rho>' s1 s'"
        "\<forall>f \<in> set new. \<exists>t \<in> dom \<rho>1 - dom \<rho>'. f = t - hhdm_offset s1"
        "\<forall>t r. \<rho>1 t = Some (3, r) \<longrightarrow> \<rho>' t = Some (3, r)"
        "bitmap s' = bitmap s1" "refcounts s' = refcounts s1" "free_pages s' = free_pages s1"
        "total_pages s' = total_pages s1" "hhdm_offset s' = hhdm_offset s1"
        "kernel_pml4 s' = kernel_pml4 s1"
      by blast
    have le1: "\<rho>1 \<subseteq>\<^sub>m \<rho>" by (auto simp: \<rho>1_def map_le_def)
    have le': "\<rho>' \<subseteq>\<^sub>m \<rho>" using g(3) le1 by (rule map_le_trans)
    have dsub: "dom \<rho>' \<subseteq> dom \<rho>1" using g(3) by (rule map_le_implies_dom_le)
    have gone: "table \<in> dom \<rho> - dom \<rho>'" using rm(3) dsub by (auto simp: \<rho>1_def)
    have "?f = table - hhdm_offset s" using h(6) by (auto simp: table_at_def)
    then have "\<forall>f \<in> set (?f # new). \<exists>t \<in> dom \<rho> - dom \<rho>'. f = t - hhdm_offset s"
    proof -
      have "\<exists>t \<in> dom \<rho> - dom \<rho>'. f = t - hhdm_offset s" if f: "f \<in> set new" for f
        using bspec [OF g(5) f] by (auto simp: s1 \<rho>1_def)
      then show ?thesis using gone \<open>?f = _\<close> by auto
    qed
    moreover have "keeps_lookups \<rho>' s s'"
      unfolding keeps_lookups_def
    proof (intro allI impI)
      fix t k a b vb assume t: "\<rho>' t = Some (k, a, b)"
      then have "\<rho>1 t = Some (k, a, b)" using g(3) by (metis domI map_le_def)
      then show "lookup_from k s' t vb = lookup_from k s t vb"
        using g(4) rm(2) t by (simp add: keeps_lookups_def)
    qed
    moreover have "\<rho>' t = Some (3, r)" if t: "\<rho> t = Some (3, r)" for t r
    proof -
      have "t \<noteq> table" using t rm(3) h(2) by auto
      then have "\<rho>1 t = Some (3, r)" using t by (simp add: \<rho>1_def)
      then show ?thesis using g(6) by blast
    qed
    ultimately show ?thesis using g le'
      by (intro exI [of _ \<rho>'] exI [of _ "?f # new"]) (simp add: s1)
  qed
qed

section \<open>Unmapping a page\<close>

lemma walk_path_to:
  assumes "pt_inv s \<rho>" and "\<rho> t = Some (l, sp, pre)"
  shows "walk_to l s t va = map_option (\<lambda>ps. if ps = [] then t else snd (last ps)) (walk_path l s t va)"
  using assms(2)
proof (induction l arbitrary: t sp pre)
  case 0
  then show ?case by simp
next
  case (Suc l)
  let ?e = "get64 s (slot_at t (index_at va (Suc l)))"
  show ?case
  proof (cases "links ?e")
    case True
    then have "\<rho> (table_at s ?e) = Some (child_role (Suc l, sp, pre) (index_at va (Suc l)) (table_at s ?e))"
      using pt_invD(6) [OF assms(1) Suc.prems, of "index_at va (Suc l)"] by simp
    then obtain sp' pre' where "\<rho> (table_at s ?e) = Some (l, sp', pre')"
      using child_role_level by metis
    then have "walk_to l s (table_at s ?e) va =
        map_option (\<lambda>ps. if ps = [] then table_at s ?e else snd (last ps)) (walk_path l s (table_at s ?e) va)"
      by (rule Suc.IH)
    moreover have "walk_to (Suc l) s t va = walk_to l s (table_at s ?e) va"
      using True by (simp add: walk_to_Suc Let_def)
    moreover have "walk_path (Suc l) s t va = map_option (\<lambda>path.
        (slot_at t (index_at va (Suc l)), table_at s ?e) # path) (walk_path l s (table_at s ?e) va)"
      using True by (simp add: Let_def links_def)
    ultimately show ?thesis by (cases "walk_path l s (table_at s ?e) va") simp_all
  next
    case False
    then have "walk_path (Suc l) s t va = None" by (simp add: Let_def links_def)
    then show ?thesis using False by (simp add: walk_to_Suc Let_def)
  qed
qed

lemma walk_path_ok:
  assumes inv: "pt_inv s \<rho>" and "\<rho> t = Some (l, sp, pre)" and "walk_path l s t va = Some ps"
    and "path_ok s \<rho> va l t up"
  shows "path_ok s \<rho> va 0 (if ps = [] then t else snd (last ps)) (rev ps @ up)"
  using assms(2-)
proof (induction l arbitrary: t sp pre ps up)
  case 0
  then show ?case by simp
next
  case (Suc l)
  let ?slot = "slot_at t (index_at va (Suc l))"
  let ?e = "get64 s ?slot" and ?c = "table_at s (get64 s ?slot)"
  from Suc.prems(2) obtain qs where lk: "links ?e" and qs: "walk_path l s ?c va = Some qs"
    and ps: "ps = (?slot, ?c) # qs"
    by (auto simp: Let_def links_def split: if_splits)
  have "\<rho> ?c = Some (child_role (Suc l, sp, pre) (index_at va (Suc l)) ?c)"
    using pt_invD(6) [OF inv Suc.prems(1), of "index_at va (Suc l)"] lk by simp
  then obtain sp' pre' where role: "\<rho> ?c = Some (l, sp', pre')" using child_role_level by metis
  have l3: "l < 3" using pt_invD(4) [OF inv Suc.prems(1)] by simp
  have "path_ok s \<rho> va l ?c ((?slot, ?c) # up)" using Suc.prems(1,3) lk l3 by auto
  from Suc.IH [OF role qs this] show ?case by (cases "qs = []") (simp_all add: ps)
qed

lemma unmap_page_main:
  assumes ok: "vm_ok s R F" and p: "pml4 \<in> R" and u: "vmm_unmap_page_in pml4 va s = (s', phys)"
    and args: "canonical va" "va AND 4095 = 0"
  shows "vm_ok s' R F" and "pt_lookup s' pml4 va = None"
    and "phys = (case pt_lookup s pml4 va of None \<Rightarrow> 0 | Some e \<Rightarrow> vmm_pte_address e)"
    and "r \<in> R \<Longrightarrow> vb AND NOT 4095 \<noteq> va \<or> (va < USER_TOP \<and> r \<noteq> pml4) \<Longrightarrow>
      pt_lookup s' r vb = pt_lookup s r vb"
    and "frame_refs s' x \<le> frame_refs s x" and "x \<in> F \<Longrightarrow> frame_refs s' x = frame_refs s x"
proof -
  obtain \<rho> where pm: "pmm_inv s" and inv: "pt_inv s \<rho>" and R: "\<forall>r \<in> R. \<rho> r = Some (3, r, 0)"
    and F: "data_frames s \<rho> F"
    using ok by (auto simp: vm_ok_def)
  have root: "\<rho> pml4 = Some (3, pml4, 0)" using R p by blast
  have p0: "pml4 \<noteq> 0" by (rule pt_invD(2) [OF inv root])
  note wp = walk_path_to [OF inv root, of va]
  have "vm_ok s' R F \<and> pt_lookup s' pml4 va = None \<and>
    phys = (case pt_lookup s pml4 va of None \<Rightarrow> 0 | Some e \<Rightarrow> vmm_pte_address e) \<and>
    (r \<in> R \<and> (vb AND NOT 4095 \<noteq> va \<or> (va < USER_TOP \<and> r \<noteq> pml4)) \<longrightarrow>
      pt_lookup s' r vb = pt_lookup s r vb) \<and> frame_refs s' x \<le> frame_refs s x \<and>
    (x \<in> F \<longrightarrow> frame_refs s' x = frame_refs s x)"
  proof (cases "walk_path 3 s pml4 va")
    case None
    then have "s' = s" "phys = 0" using u args p0 by (simp_all add: vmm_unmap_page_in_def)
    moreover have "pt_lookup s pml4 va = None" using wp None by (simp add: pt_lookup_def lookup_from_def)
    ultimately show ?thesis using ok by simp
  next
    case (Some path)
    have ne: "path \<noteq> []" using Some by (auto simp: numeral_3_eq_3 Let_def split: if_splits)
    let ?T = "snd (last path)"
    let ?leaf = "slot_at ?T (index_at va 0)"
    have w: "walk_to 3 s pml4 va = Some ?T" using wp Some ne by simp
    obtain a b where T: "\<rho> ?T = Some (0, a, b)" using walk3_role [OF inv root w] by metis
    show ?thesis
    proof (cases "has (get64 s ?leaf) PTE_PRESENT")
      case False
      then have "s' = s" "phys = 0" using u args p0 Some by (simp_all add: vmm_unmap_page_in_def Let_def)
      moreover have "pt_lookup s pml4 va = None"
        using w False by (simp add: pt_lookup_def lookup_from_def leaf_entry_def)
      ultimately show ?thesis using ok by simp
    next
      case True
      define s1 where "s1 = put64 ?leaf 0 s"
      obtain s2 retired where pr: "prune va (rev path) s1 [] = (s2, retired)" by fastforce
      define s3 where "s3 = tlb_shootdown pml4 (if retired \<noteq> [] then UINT64_MAX else va) s2"
      have s': "s' = foldl pmm_free_page s3 (rev retired)" and phys: "phys = vmm_pte_address (get64 s ?leaf)"
        using u args p0 Some True pr by (simp_all add: vmm_unmap_page_in_def Let_def s1_def s3_def)
      note put = put_leaf [OF inv T index_at_less [of va 0], where v = 0, folded s1_def]
      have po0: "path_ok s \<rho> va 0 ?T (rev path)" using walk_path_ok [OF inv root Some, of "[]"] ne by simp
      have po: "path_ok s1 \<rho> va 0 ?T (rev path)"
      proof (rule path_ok_cong [OF po0])
        show "get64 s1 (slot_at t j) = get64 s (slot_at t j)"
          if t: "\<rho> t = Some (k, r')" "0 < k" "j < 512" for t k r' j
        proof -
          have "t AND 4095 = 0" "?T AND 4095 = 0" "t \<noteq> ?T"
            using pt_invD(1) [OF inv, of t k "fst r'" "snd r'"] pt_invD(1) [OF inv T] t T by auto
          then show ?thesis using t(3) by (auto simp: s1_def get64_put64 slot_at_inj)
        qed
      qed (simp_all add: s1_def)
      from prune_spec [OF put(1) po args(1) pr T] obtain \<rho>' where
        g: "pt_inv s2 \<rho>'" "\<rho>' \<subseteq>\<^sub>m \<rho>" "keeps_lookups \<rho>' s1 s2"
          "\<forall>f \<in> set retired. \<exists>t \<in> dom \<rho> - dom \<rho>'. f = t - hhdm_offset s1"
          "\<forall>t r. \<rho> t = Some (3, r) \<longrightarrow> \<rho>' t = Some (3, r)"
          "bitmap s2 = bitmap s1" "refcounts s2 = refcounts s1" "free_pages s2 = free_pages s1"
          "total_pages s2 = total_pages s1" "hhdm_offset s2 = hhdm_offset s1"
        by auto
      have pm3: "pmm_inv s3" and refs3: "frame_refs s3 = frame_refs s"
        using pm pmm_facts_cong [OF g(6,7,9,8)] by (simp_all add: s3_def s1_def)
      have hh3: "hhdm_offset s3 = hhdm_offset s" by (simp add: s3_def g(10) s1_def)
      have inv3: "pt_inv s3 \<rho>'" using g(1) by (simp add: s3_def)
      have look3: "pt_lookup s' v = pt_lookup s3 v" for v
      proof -
        have "walk_to l s' t va = walk_to l s3 t va" for l t va
          by (induction l arbitrary: t) (simp_all add: s' walk_to_Suc table_at_def Let_def)
        then show ?thesis by (simp add: fun_eq_iff pt_lookup_def lookup_from_def leaf_entry_def s')
      qed
      have "same_entries \<rho>' s3 s'" by (simp add: same_entries_def s')
      then have inv': "pt_inv s' \<rho>'"
      proof (rule same_entries_inv [OF _ inv3])
        show "total_pages s' = total_pages s3" by (simp add: s')
        fix t assume t: "t \<in> dom \<rho>'" "frame_busy s3 (t - hhdm_offset s3)"
        have "addr_page (t - hhdm_offset s3) \<notin> addr_page ` set (rev retired)"
        proof
          assume "addr_page (t - hhdm_offset s3) \<in> addr_page ` set (rev retired)"
          then obtain f where f: "f \<in> set retired" "addr_page (t - hhdm_offset s) = addr_page f"
            by (auto simp: hh3)
          then obtain t2 where t2: "t2 \<in> dom \<rho>" "t2 \<notin> dom \<rho>'" "f = t2 - hhdm_offset s"
            using bspec [OF g(4) f(1)] by (auto simp: s1_def)
          have "t AND 4095 = 0" "t2 AND 4095 = 0"
            using t(1) t2(1) pt_invD(1) [OF inv] pt_invD(1) [OF inv3] by (auto simp: dom_def)
          then have "t - hhdm_offset s = t2 - hhdm_offset s"
            using f(2) t2(3) page_sub_aligned pt_inv_global(1) [OF inv] unat_sub_page by metis
          then show False using t(1) t2(2) by simp
        qed
        then show "frame_busy s' (t - hhdm_offset s3)"
          using t(2) unfolding s' by (rule foldl_free_busy)
      qed
      have apart: "addr_page f \<notin> addr_page ` set (rev retired)" if "f \<in> F" for f
      proof
        assume "addr_page f \<in> addr_page ` set (rev retired)"
        then obtain f2 where f2: "f2 \<in> set retired" "addr_page f = addr_page f2" by auto
        then obtain t2 where t2: "t2 \<in> dom \<rho>" "f2 = t2 - hhdm_offset s"
          using bspec [OF g(4) f2(1)] by (auto simp: s1_def)
        have "t2 AND 4095 = 0" using t2(1) pt_invD(1) [OF inv] by auto
        moreover have f: "f AND 4095 = 0" "f + hhdm_offset s \<notin> dom \<rho>"
          using F that by (auto simp: data_frames_def)
        ultimately have "f = t2 - hhdm_offset s"
          using f2(2) t2(2) page_sub_aligned pt_inv_global(1) [OF inv] unat_sub_page by metis
        then show False using f(2) t2(1) by simp
      qed
      have F': "data_frames s' \<rho>' F"
        unfolding data_frames_def
      proof (intro ballI conjI)
        fix f assume "f \<in> F"
        then have f: "frame_busy s f" "f AND 4095 = 0" "f + hhdm_offset s \<notin> dom \<rho>"
          using F by (auto simp: data_frames_def)
        show "f AND 4095 = 0" by (rule f(2))
        show "f + hhdm_offset s' \<notin> dom \<rho>'"
          using f(3) map_le_implies_dom_le [OF g(2)] by (auto simp: s' hh3)
        have "frame_busy s3 f"
          using f(1) pmm_facts_cong(3) [OF g(6,7,9,8)] by (simp add: s3_def s1_def)
        then show "frame_busy s' f" using apart [OF \<open>f \<in> F\<close>] unfolding s' by (intro foldl_free_busy)
      qed
      have R': "\<forall>r \<in> R. \<rho>' r = Some (3, r, 0)" using R g(5) by blast
      have 1: "vm_ok s' R F"
        using pmm_fold_free(1) [OF pm3] inv' R' F' unfolding s' vm_ok_def by blast
      have to1: "pt_lookup s' r v = pt_lookup s1 r v" if "r \<in> R" for r v
        using keeps_pt_lookup [OF g(3)] R' that by (simp add: look3 s3_def)
      have 2: "pt_lookup s' pml4 va = None"
        using put(3) [OF root, of va] w to1 [OF p] by (simp add: pt_lookup_def has_def)
      have 3: "phys = (case pt_lookup s pml4 va of None \<Rightarrow> 0 | Some e \<Rightarrow> vmm_pte_address e)"
        using w True args p0 by (simp add: phys pt_lookup_def lookup_from_def leaf_entry_def)
      have 4: "pt_lookup s' r vb = pt_lookup s r vb"
        if r: "r \<in> R" "vb AND NOT 4095 \<noteq> va \<or> (va < USER_TOP \<and> r \<noteq> pml4)"
      proof (cases "canonical vb")
        case can: True
        have "\<not> (walk_to 3 s r vb = Some ?T \<and> index_at vb 0 = index_at va 0)"
        proof
          assume "walk_to 3 s r vb = Some ?T \<and> index_at vb 0 = index_at va 0"
          then have "va AND NOT 4095 = vb AND NOT 4095" "va < USER_TOP \<Longrightarrow> pml4 = r"
            using same_leaf_same_page [OF inv root _ w, of r vb] R r(1) args(1) can by auto
          then show False using r(2) page_floor_id [OF args(2)] by auto
        qed
        then show ?thesis using put(3) [where t = r and va = vb and l = 3] R r(1) to1 [OF r(1)]
          by (auto simp: pt_lookup_def)
      next
        case False
        then show ?thesis by (simp add: pt_lookup_def)
      qed
      have refs: "frame_refs s' x = frame_refs s x - count_list retired x" for x
        unfolding s' by (simp add: pmm_fold_free(2) [OF pm3] refs3)
      have "frame_refs s' x = frame_refs s x" if "x \<in> F"
      proof -
        have "x \<notin> set retired" using apart [OF that] by auto
        then have "count_list retired x = 0" by (simp add: count_list_0_iff)
        then show ?thesis by (simp add: refs)
      qed
      then show ?thesis using 1 2 3 4 by (simp add: refs)
    qed
  qed
  then show "vm_ok s' R F" and "pt_lookup s' pml4 va = None"
    and "phys = (case pt_lookup s pml4 va of None \<Rightarrow> 0 | Some e \<Rightarrow> vmm_pte_address e)"
    and "r \<in> R \<Longrightarrow> vb AND NOT 4095 \<noteq> va \<or> (va < USER_TOP \<and> r \<noteq> pml4) \<Longrightarrow>
      pt_lookup s' r vb = pt_lookup s r vb"
    and "frame_refs s' x \<le> frame_refs s x" and "x \<in> F \<Longrightarrow> frame_refs s' x = frame_refs s x"
    by blast+
qed

text \<open>Addresses of one page translate alike.\<close>

lemma page_index:
  assumes "vb AND NOT 4095 = va"
  shows "index_at vb l = index_at va l"
proof -
  have "unat va = unat vb div 4096 * 4096" using unat_page_floor [of vb] assms by simp
  then have "unat va div 4096 = unat vb div 4096" by simp
  moreover have "unat w div 2 ^ (12 + 9 * l) = unat w div 4096 div 2 ^ (9 * l)" for w :: u64
    by (simp add: power_add div_mult2_eq)
  ultimately show ?thesis by (simp add: index_at_div)
qed

lemma page_lookup:
  assumes can: "canonical va" and page: "vb AND NOT 4095 = va"
  shows "pt_lookup s r vb = pt_lookup s r va"
proof -
  have va: "unat va = unat vb div 4096 * 4096" using unat_page_floor [of vb] page by simp
  have "canonical vb"
  proof (cases "va < USER_TOP")
    case True
    then have "unat vb div 4096 * 4096 < 2 ^ 47" using va by (simp add: word_less_nat_alt)
    then have "unat vb div 4096 < 2 ^ 35" by simp
    then have "unat vb < 2 ^ 47" by (simp add: div_less_iff_less_mult)
    then show ?thesis by (simp add: canonical_def word_less_nat_alt)
  next
    case False
    then have "va \<ge> UPPER_HALF" using can by (simp add: canonical_def)
    moreover have "va \<le> vb" using va by (simp add: word_le_nat_alt)
    ultimately show ?thesis by (auto simp: canonical_def)
  qed
  moreover have "walk_to l s t vb = walk_to l s t va" for l t
    by (induction l arbitrary: t) (simp_all add: walk_to_Suc page_index [OF page] Let_def)
  ultimately show ?thesis
    using can by (simp add: pt_lookup_def lookup_from_def leaf_entry_def page_index [OF page])
qed

text \<open>
  C5: unmapping a page removes exactly its translation and returns the frame it had (0 if it had
  none); every other page of every address space keeps its translation although empty tables were
  pruned and their frames released, the tables stay well-formed, and no frame gains a reference. A
  bad argument changes nothing.
\<close>

theorem unmap_page_correct:
  assumes "vm_ok s R F" and "pml4 \<in> R" and "vmm_unmap_page_in pml4 va s = (s', phys)"
  shows "vm_ok s' R F \<and> (\<forall>x. frame_refs s' x \<le> frame_refs s x) \<and>
    (if canonical va \<and> va AND 4095 = 0
     then pt_lookup s' pml4 va = None \<and>
       phys = (case pt_lookup s pml4 va of None \<Rightarrow> 0 | Some e \<Rightarrow> vmm_pte_address e) \<and>
       (\<forall>r vb. r \<in> R \<and> (vb AND NOT 4095 \<noteq> va \<or> (va < USER_TOP \<and> r \<noteq> pml4)) \<longrightarrow>
          pt_lookup s' r vb = pt_lookup s r vb)
     else s' = s \<and> phys = 0)"
proof (cases "canonical va \<and> va AND 4095 = 0")
  case True
  then show ?thesis using unmap_page_main [OF assms] by simp
next
  case False
  then have "s' = s \<and> phys = 0" using assms(3) by (auto simp: vmm_unmap_page_in_def)
  then show ?thesis using assms(1) False by auto
qed

lemma unmap_page_correct_witness:
  "pt_lookup (fst (vmm_unmap_page_in tiny_root 0x400000 tiny_machine)) tiny_root 0x400000 = None"
proof -
  let ?u = "vmm_unmap_page_in tiny_root 0x400000 tiny_machine"
  have "canonical 0x400000" by (simp add: canonical_def)
  then show ?thesis
    using unmap_page_correct [OF tiny_vm_ok, of tiny_root "0x400000" "fst ?u" "snd ?u"] by simp
qed

section \<open>When mapping succeeds\<close>

lemma fold_put64_free: "free_pages (fold (\<lambda>i. put64 (f i) v) is s) = free_pages s"
  by (induction "is" arbitrary: s) simp_all

lemma fresh_walk:
  assumes "pmm_inv s" and "pt_inv s \<rho>" and "\<rho> table = Some (l, sp, pre)"
    and "\<forall>i < 512. \<not> has (get64 s (slot_at table i)) PTE_PRESENT" and "l \<le> unat (free_pages s)"
  shows "\<exists>s' created' T. map_walk l va flags s table created = (s', created', Some T) \<and>
    \<not> has (get64 s' (slot_at T (index_at va 0))) PTE_PRESENT"
  using assms
proof (induction l arbitrary: s \<rho> table sp pre created)
  case 0
  then show ?case by simp
next
  case (Suc l)
  let ?i = "index_at va (Suc l)"
  let ?slot = "slot_at table ?i"
  have absent: "\<not> has (get64 s ?slot) PTE_PRESENT" using Suc.prems(4) by simp
  obtain s1 f where al: "pmm_alloc_page s = (s1, f)" by fastforce
  have f: "f \<noteq> 0" using pmm_alloc_contract(5) [OF Suc.prems(1) al] Suc.prems(5) by auto
  define N where "N = table_at s1 f"
  define e where "e = f OR PTE_PRESENT OR PTE_WRITE OR PTE_USER"
  define s2 where "s2 = put64 ?slot e (zero_table N s1)"
  define \<rho>1 where "\<rho>1 = \<rho>(N \<mapsto> child_role (Suc l, sp, pre) ?i N)"
  note add = add_table [OF Suc.prems(1,2,3) index_at_less absent al f N_def e_def s2_def \<rho>1_def]
  have "unat (free_pages s2) = unat (free_pages s) - 1"
    using pmm_alloc_contract(7) [OF Suc.prems(1) al f] by (simp add: s2_def zero_table_def fold_put64_free)
  then have room: "l \<le> unat (free_pages s2)" using Suc.prems(5) by simp
  obtain sp1 pre1 where role: "\<rho>1 N = Some (l, sp1, pre1)"
    unfolding \<rho>1_def using child_role_level by (metis fun_upd_same)
  have ta: "table AND 4095 = 0" "N AND 4095 = 0"
    using pt_invD(1) [OF Suc.prems(2,3)] pt_invD(1) [OF add(2) role] by auto
  have tN: "table \<noteq> N" using Suc.prems(3) add(3) by auto
  have zero: "\<forall>i < 512. \<not> has (get64 s2 (slot_at N i)) PTE_PRESENT"
    using ta tN by (auto simp: s2_def get64_put64 get64_zero_table slot_at_inj has_def)
  have "map_walk (Suc l) va flags s table created = map_walk l va flags s2 N (?slot # created)"
    using absent al f add(6) unfolding s2_def e_def by (simp add: Let_def N_def [symmetric])
  then show ?case using Suc.IH [OF add(1,2) role zero room] by simp
qed

lemma map_page_room:
  assumes "vm_ok s R F" and "pml4 \<in> R" and "map_page_args_ok pml4 va phys flags"
    and "\<not> has (get64 s (slot_at pml4 (index_at va 3))) PTE_PRESENT" and "3 \<le> unat (free_pages s)"
  shows "snd (vmm_map_page_in pml4 va phys flags s)"
proof -
  obtain \<rho> where pm: "pmm_inv s" and inv: "pt_inv s \<rho>" and root: "\<rho> pml4 = Some (3, pml4, 0)"
    using assms(1,2) by (auto simp: vm_ok_def)
  let ?slot = "slot_at pml4 (index_at va 3)"
  obtain s1 f where al: "pmm_alloc_page s = (s1, f)" by fastforce
  have f: "f \<noteq> 0" using pmm_alloc_contract(5) [OF pm al] assms(5) by auto
  have root3: "\<rho> pml4 = Some (Suc 2, pml4, 0)" using root by (simp add: numeral_3_eq_3 numeral_2_eq_2)
  define N where "N = table_at s1 f"
  define e where "e = f OR PTE_PRESENT OR PTE_WRITE OR PTE_USER"
  define s2 where "s2 = put64 ?slot e (zero_table N s1)"
  define \<rho>1 where "\<rho>1 = \<rho>(N \<mapsto> child_role (Suc 2, pml4, 0) (index_at va 3) N)"
  note add = add_table [OF pm inv root3 index_at_less assms(4) al f N_def e_def s2_def \<rho>1_def]
  obtain sp1 pre1 where role: "\<rho>1 N = Some (2, sp1, pre1)"
    unfolding \<rho>1_def using child_role_level by (metis fun_upd_same)
  have ta: "pml4 AND 4095 = 0" "N AND 4095 = 0" and ne: "pml4 \<noteq> N"
    using pt_invD(1) [OF inv root] pt_invD(1) [OF add(2) role] root add(3) by auto
  have zero: "\<forall>i < 512. \<not> has (get64 s2 (slot_at N i)) PTE_PRESENT"
    using ta ne by (auto simp: s2_def get64_put64 get64_zero_table slot_at_inj has_def)
  have room: "2 \<le> unat (free_pages s2)"
    using pmm_alloc_contract(7) [OF pm al f] assms(5)
    by (simp add: s2_def zero_table_def fold_put64_free)
  obtain s' cr T where w: "map_walk 2 va flags s2 N [?slot] = (s', cr, Some T)"
      "\<not> has (get64 s' (slot_at T (index_at va 0))) PTE_PRESENT"
    using fresh_walk [OF add(1,2) role zero room] by blast
  have step: "map_walk (Suc 2) va flags s pml4 [] = map_walk 2 va flags s2 N [?slot]"
    using assms(4) al f add(6) unfolding s2_def e_def map_walk.simps(2)
    by (simp add: Let_def N_def [symmetric] numeral_3_eq_3 [symmetric])
  then have "map_walk 3 va flags s pml4 [] = (s', cr, Some T)" using w(1) by (simp add: numeral_3_eq_3 numeral_2_eq_2)
  then show ?thesis using assms(3) w(2) by (simp add: vmm_map_page_in_def map_page_def Let_def)
qed

lemma tiny_get64: "get64 tiny_machine q = 0"
  by (simp add: get64_def tiny_machine_def ld64_zero)

lemma tiny_args: "map_page_args_ok tiny_root 0x400000 0x5000 7"
  by (simp add: map_page_args_ok_def tiny_root_def canonical_def has_def)

lemma tiny_root_absent: "\<not> has (get64 tiny_machine (slot_at tiny_root i)) PTE_PRESENT"
  by (simp add: tiny_get64 has_def)

lemma tiny_free: "3 \<le> unat (free_pages tiny_machine)"
  by (simp add: tiny_machine_def)

section \<open>Creating an address space\<close>

definition copy_slot :: "u64 \<Rightarrow> nat \<Rightarrow> 'a machine_scheme \<Rightarrow> 'a machine_scheme" where
  "copy_slot P i s =
     put64 (slot_at P i) (if i < 256 then 0 else get64 s (slot_at (kernel_pml4 s) i)) s"

lemma fold_copy_slot:
  assumes "P AND 4095 = 0" "kernel_pml4 s AND 4095 = 0" "P \<noteq> kernel_pml4 s"
    and "\<forall>i \<in> set is. i < 512" "distinct is" "t AND 4095 = 0" "j < 512"
  shows "get64 (fold (copy_slot P) is s) (slot_at t j) =
      (if t = P \<and> j \<in> set is then (if j < 256 then 0 else get64 s (slot_at (kernel_pml4 s) j))
       else get64 s (slot_at t j))"
    and "kernel_pml4 (fold (copy_slot P) is s) = kernel_pml4 s"
    and "hhdm_offset (fold (copy_slot P) is s) = hhdm_offset s"
    and "total_pages (fold (copy_slot P) is s) = total_pages s"
    and "pmm_inv (fold (copy_slot P) is s) = pmm_inv s"
    and "frame_busy (fold (copy_slot P) is s) = frame_busy s"
    and "frame_refs (fold (copy_slot P) is s) = frame_refs s"
proof -
  have "get64 (fold (copy_slot P) is s) (slot_at t j) =
      (if t = P \<and> j \<in> set is then (if j < 256 then 0 else get64 s (slot_at (kernel_pml4 s) j))
       else get64 s (slot_at t j)) \<and>
    kernel_pml4 (fold (copy_slot P) is s) = kernel_pml4 s \<and>
    hhdm_offset (fold (copy_slot P) is s) = hhdm_offset s \<and>
    total_pages (fold (copy_slot P) is s) = total_pages s \<and>
    pmm_inv (fold (copy_slot P) is s) = pmm_inv s \<and>
    frame_busy (fold (copy_slot P) is s) = frame_busy s \<and>
    frame_refs (fold (copy_slot P) is s) = frame_refs s"
    using assms
  proof (induction "is" arbitrary: s)
    case Nil
    then show ?case by simp
  next
    case (Cons i js)
    let ?s1 = "copy_slot P i s"
    have k1: "kernel_pml4 ?s1 = kernel_pml4 s" by (simp add: copy_slot_def)
    have g1: "get64 ?s1 (slot_at t j) = (if t = P \<and> j = i then
        (if i < 256 then 0 else get64 s (slot_at (kernel_pml4 s) i)) else get64 s (slot_at t j))"
      if "t AND 4095 = 0" "j < 512" for t j
      using that Cons.prems(1,4) by (auto simp: copy_slot_def get64_put64 slot_at_inj)
    have kg: "get64 ?s1 (slot_at (kernel_pml4 s) j) = get64 s (slot_at (kernel_pml4 s) j)" if "j < 512" for j
      using g1 [OF Cons.prems(2) that] Cons.prems(3) by auto
    have "hhdm_offset ?s1 = hhdm_offset s" "total_pages ?s1 = total_pages s"
      "pmm_inv ?s1 = pmm_inv s" "frame_busy ?s1 = frame_busy s" "frame_refs ?s1 = frame_refs s"
      by (simp_all add: copy_slot_def)
    then show ?case
      using Cons.IH [of ?s1] Cons.prems g1 [OF Cons.prems(6,7)] kg [OF Cons.prems(7)] k1
      by (auto split: if_splits)
  qed
  then show "get64 (fold (copy_slot P) is s) (slot_at t j) =
      (if t = P \<and> j \<in> set is then (if j < 256 then 0 else get64 s (slot_at (kernel_pml4 s) j))
       else get64 s (slot_at t j))"
    and "kernel_pml4 (fold (copy_slot P) is s) = kernel_pml4 s"
    and "hhdm_offset (fold (copy_slot P) is s) = hhdm_offset s"
    and "total_pages (fold (copy_slot P) is s) = total_pages s"
    and "pmm_inv (fold (copy_slot P) is s) = pmm_inv s"
    and "frame_busy (fold (copy_slot P) is s) = frame_busy s"
    and "frame_refs (fold (copy_slot P) is s) = frame_refs s"
    by blast+
qed

lemma create_space_main:
  assumes ok: "vm_ok s R F" and K: "kernel_pml4 s \<in> R"
    and c: "vmm_create_address_space s = (s', P)" and P: "P \<noteq> 0"
  shows "vm_ok s' (insert P R) F" and "P \<notin> R" and "va < USER_TOP \<Longrightarrow> pt_lookup s' P va = None"
    and "va \<ge> UPPER_HALF \<Longrightarrow> pt_lookup s' P va = pt_lookup s' (kernel_pml4 s) va"
    and "r \<in> R \<Longrightarrow> pt_lookup s' r va = pt_lookup s r va"
    and "frame_refs s' = (frame_refs s)(P - hhdm_offset s := 1)"
proof -
  obtain \<rho> where pm: "pmm_inv s" and inv: "pt_inv s \<rho>" and R: "\<forall>r \<in> R. \<rho> r = Some (3, r, 0)"
    and F: "data_frames s \<rho> F"
    using ok by (auto simp: vm_ok_def)
  let ?K = "kernel_pml4 s"
  have root: "\<rho> ?K = Some (3, ?K, 0)" using R K by blast
  obtain s1 f where al: "pmm_alloc_page s = (s1, f)" by fastforce
  have f: "f \<noteq> 0" using c al P by (auto simp: vmm_create_address_space_def split: if_splits)
  note ct = pmm_alloc_contract [OF pm al] and fr = pmm_alloc_page_frame [OF al] and bu = alloc_busy [OF pm al f]
  have hh: "hhdm_offset s AND 4095 = 0" "unat (hhdm_offset s) + total_pages s * 4096 \<le> 2 ^ 64"
    using pt_inv_global [OF inv] by blast+
  have fa: "f AND 4095 = 0" "addr_page f < total_pages s" using ct(6) f by blast+
  have f_addr: "vmm_pte_address f = f" using entry_parts(1) [OF frame_word [OF fa(1) bu(4)], of 0] by simp
  have Pf: "P = f + hhdm_offset s" and s': "s' = fold (copy_slot P) [0 ..< 512] s1"
    using c al f f_addr
    by (auto simp: vmm_create_address_space_def table_at_def fr(2) Let_def copy_slot_def [abs_def])
  have Pa: "P AND 4095 = 0" unfolding Pf using fa(1) hh(1) by (rule page_add_aligned)
  have Ka: "kernel_pml4 s1 AND 4095 = 0" using pt_invD(1) [OF inv root] by (simp add: fr(3))
  have P_new: "P \<notin> dom \<rho>"
  proof
    assume "P \<in> dom \<rho>"
    then have "frame_busy s (P - hhdm_offset s)" using pt_invD(3) [OF inv] by (auto simp: dom_def)
    then show False using bu(1) by (simp add: Pf)
  qed
  have PK: "P \<noteq> kernel_pml4 s1" using root P_new by (auto simp: fr(3))
  have g1: "get64 s1 q = get64 s q" for q by (simp add: get64_def fr(1))
  note cp = fold_copy_slot [OF Pa Ka PK, of "[0 ..< 512]", simplified, folded s']
  have get: "get64 s' (slot_at t j) = (if t = P then (if j < 256 then 0 else get64 s (slot_at ?K j))
      else get64 s (slot_at t j))" if "t AND 4095 = 0" "j < 512" for t j
    using cp(1) [OF that] that by (simp add: g1 fr(3))
  have hh': "hhdm_offset s' = hhdm_offset s" and tot': "total_pages s' = total_pages s"
    and busy': "frame_busy s' = frame_busy s1"
    using cp(3,4,6) [OF Pa, of 0] by (simp_all add: fr)
  have old: "table_at s' w = table_at s w" for w by (simp add: table_at_def hh')
  define \<rho>' where "\<rho>' = \<rho>(P \<mapsto> (3, P, 0))"
  have child: "child_role (3, P, 0) j c = child_role (3, ?K, 0) j c" if "\<not> j < 256" for j c
    using that by (simp add: child_role_def)
  have inv': "pt_inv s' \<rho>'"
    unfolding pt_inv_def
  proof (intro conjI allI impI)
    show "hhdm_offset s' AND 4095 = 0" "unat (hhdm_offset s') + total_pages s' * 4096 \<le> 2 ^ 64"
      using hh by (simp_all add: hh' tot')
    have "\<rho> t \<noteq> Some (3, P, 0)" for t using pt_invD(5) [OF inv, of t 3 P 0] P_new by auto
    then show "inj_on \<rho>' (dom \<rho>')"
      using pt_inv_global(2) [OF inv] by (auto simp: \<rho>'_def inj_on_def dom_def split: if_splits)
  next
    fix t k a b assume t: "\<rho>' t = Some (k, a, b)"
    have tc: "t = P \<and> k = 3 \<and> a = P \<and> b = 0 \<or> t \<noteq> P \<and> \<rho> t = Some (k, a, b)"
      using t by (auto simp: \<rho>'_def split: if_splits)
    show ta: "t AND 4095 = 0" using tc Pa pt_invD(1) [OF inv] by blast
    show "t \<noteq> 0" using tc P pt_invD(2) [OF inv] by blast
    show "frame_busy s' (t - hhdm_offset s')"
      using tc bu(2,3) pt_invD(3) [OF inv] unfolding busy' hh' by (auto simp: Pf)
    show "addr_page (t - hhdm_offset s') < total_pages s'"
      using tc ct(6) [OF f] pt_invD(8) [OF inv] unfolding hh' tot' by (auto simp: Pf)
    show "k \<le> 3" using tc pt_invD(4) [OF inv] by blast
    show "a = t" "b = 0" if "k = 3" using tc pt_invD(5) [OF inv] that by blast+
    show "\<rho>' (table_at s' (get64 s' (slot_at t j))) =
      Some (child_role (k, a, b) j (table_at s' (get64 s' (slot_at t j))))"
      if j: "0 < k" "j < 512" "links (get64 s' (slot_at t j))" for j
    proof (cases "t = P")
      case True
      have j256: "\<not> j < 256" using j(3) get [OF ta j(2)] True by (auto simp: links_def has_def)
      then have same: "get64 s' (slot_at t j) = get64 s (slot_at ?K j)" using get [OF ta j(2)] True by simp
      have "\<rho> (table_at s (get64 s (slot_at ?K j))) =
        Some (child_role (3, ?K, 0) j (table_at s (get64 s (slot_at ?K j))))"
        using pt_invD(6) [OF inv root _ j(2)] j(3) same by simp
      moreover from this have "table_at s (get64 s (slot_at ?K j)) \<noteq> P" using P_new by auto
      ultimately show ?thesis using tc child [OF j256] same unfolding True by (simp add: old \<rho>'_def)
    next
      case False
      then have same: "get64 s' (slot_at t j) = get64 s (slot_at t j)" using get [OF ta j(2)] by simp
      have rt: "\<rho> t = Some (k, a, b)" using tc False by simp
      have c: "\<rho> (table_at s (get64 s (slot_at t j))) =
        Some (child_role (k, a, b) j (table_at s (get64 s (slot_at t j))))"
        using pt_invD(6) [OF inv rt j(1,2)] j(3) same by simp
      then have "table_at s (get64 s (slot_at t j)) \<noteq> P" using P_new by auto
      then show ?thesis using c by (simp add: same old \<rho>'_def)
    qed
    show "\<exists>Q j r. j < 512 \<and> \<rho>' Q = Some (Suc k, r) \<and> links (get64 s' (slot_at Q j)) \<and>
      table_at s' (get64 s' (slot_at Q j)) = t" if k: "k < 3"
    proof -
      have rt: "\<rho> t = Some (k, a, b)" using tc k by auto
      from pt_invD(7) [OF inv rt k] obtain Q j r where Q: "j < 512" "\<rho> Q = Some (Suc k, r)"
        "links (get64 s (slot_at Q j))" "table_at s (get64 s (slot_at Q j)) = t" by blast
      have QP: "Q \<noteq> P" using Q(2) P_new by auto
      have "Q AND 4095 = 0" using pt_invD(1) [OF inv] Q(2) by (cases r) blast
      then have "get64 s' (slot_at Q j) = get64 s (slot_at Q j)" using get [OF _ Q(1)] QP by simp
      then show ?thesis using Q QP
        by (intro exI [of _ Q] exI [of _ j] exI [of _ r]) (simp add: \<rho>'_def old)
    qed
  qed
  have "pmm_inv s'" using cp(5) [OF Pa, of 0] ct(1) by simp
  moreover have "data_frames s' \<rho>' F"
  proof (rule data_frames_mono [OF F hh'])
    show "frame_busy s' b" if "frame_busy s b" for b using bu(3) that by (simp add: busy')
    show "\<not> frame_busy s (t - hhdm_offset s)" if "t \<in> dom \<rho>' - dom \<rho>" for t
      using that bu(1) by (auto simp: \<rho>'_def Pf split: if_splits)
  qed
  ultimately show "vm_ok s' (insert P R) F"
    using inv' R P_new unfolding vm_ok_def by (intro conjI exI [of _ \<rho>']) (auto simp: \<rho>'_def)
  show PR: "P \<notin> R" using R P_new by auto
  have same: "same_entries \<rho> s s'"
    unfolding same_entries_def
  proof (intro conjI ballI allI impI disjI1)
    fix t i assume t: "t \<in> dom \<rho>" "i < (512 :: nat)"
    then have "t AND 4095 = 0" "t \<noteq> P" using pt_invD(1) [OF inv] P_new by auto
    then show "get64 s' (slot_at t i) = get64 s (slot_at t i)" using get t(2) by simp
  qed (rule hh')
  show old_look: "pt_lookup s' r va = pt_lookup s r va" if "r \<in> R" for r va
    using keeps_pt_lookup [OF same_entries_keeps [OF same inv]] R that by blast
  show "pt_lookup s' P va = None" if "va < USER_TOP"
  proof -
    have "canonical va" using that by (simp add: canonical_def)
    then have "index_at va 3 < 256" using index_at_3_lower that by blast
    then have "\<not> links (get64 s' (slot_at P (index_at va 3)))"
      using get [OF Pa index_at_less] by (simp add: links_def has_def)
    then have "lookup_from (Suc 2) s' P va = None"
      by (simp add: lookup_from_Suc Let_def numeral_3_eq_3 numeral_2_eq_2)
    then show ?thesis by (simp add: pt_lookup_def numeral_3_eq_3 numeral_2_eq_2)
  qed
  show "pt_lookup s' P va = pt_lookup s' ?K va" if "va \<ge> UPPER_HALF"
  proof -
    have can: "canonical va" and "\<not> va < USER_TOP"
      using that by (simp_all add: canonical_def word_le_nat_alt word_less_nat_alt)
    then have "\<not> index_at va 3 < 256" using index_at_3_lower by blast
    then have "get64 s' (slot_at P (index_at va 3)) = get64 s' (slot_at ?K (index_at va 3))"
      using get [OF Pa index_at_less [of va 3]] get [OF pt_invD(1) [OF inv root] index_at_less [of va 3]] PK
      by (simp add: fr(3))
    then have "lookup_from (Suc 2) s' P va = lookup_from (Suc 2) s' ?K va"
      by (simp add: lookup_from_Suc numeral_3_eq_3 numeral_2_eq_2)
    then show ?thesis using P pt_invD(2) [OF inv root]
      by (simp add: pt_lookup_def numeral_3_eq_3 numeral_2_eq_2)
  qed
  show "frame_refs s' = (frame_refs s)(P - hhdm_offset s := 1)"
    using cp(7) [OF Pa, of 0] ct(3) [OF f] by (simp add: Pf)
qed

lemma create_space_fails:
  assumes "vm_ok s R F" and "vmm_create_address_space s = (s', 0)"
  shows "s' = s" and "free_pages s = 0"
proof -
  obtain \<rho> where pm: "pmm_inv s" and inv: "pt_inv s \<rho>" using assms(1) by (auto simp: vm_ok_def)
  obtain s1 f where al: "pmm_alloc_page s = (s1, f)" by fastforce
  note ct = pmm_alloc_contract [OF pm al]
  have "f = 0"
  proof (rule ccontr)
    assume f: "f \<noteq> 0"
    then have "vmm_pte_address f = f"
      using entry_parts(1) [OF frame_word, of f 0] ct(6) alloc_busy(4) [OF pm al f] by simp
    then have "f + hhdm_offset s = 0"
      using assms(2) al f pmm_alloc_page_frame(2) [OF al]
      by (simp add: vmm_create_address_space_def table_at_def Let_def)
    then show False using direct_map_nz [OF inv] ct(6) f by blast
  qed
  then show "s' = s" and "free_pages s = 0"
    using assms(2) al ct(4,5) by (simp_all add: vmm_create_address_space_def)
qed

text \<open>
  C38: a new address space has an empty user half and the kernel's upper half, is a root of its own,
  takes one frame, and leaves every existing translation alone; creation fails only when no frame is
  left, and then changes nothing.
\<close>

theorem create_address_space_correct:
  assumes "vm_ok s R F" and "kernel_pml4 s \<in> R" and "vmm_create_address_space s = (s', P)"
  shows "if P = 0 then s' = s \<and> free_pages s = 0
     else vm_ok s' (insert P R) F \<and> P \<notin> R \<and>
       frame_refs s' = (frame_refs s)(P - hhdm_offset s := 1) \<and>
       (\<forall>va. va < USER_TOP \<longrightarrow> pt_lookup s' P va = None) \<and>
       (\<forall>va. va \<ge> UPPER_HALF \<longrightarrow> pt_lookup s' P va = pt_lookup s' (kernel_pml4 s) va) \<and>
       (\<forall>r va. r \<in> R \<longrightarrow> pt_lookup s' r va = pt_lookup s r va)"
proof (cases "P = 0")
  case True
  then show ?thesis using create_space_fails [OF assms(1)] assms(3) by simp
next
  case False
  then show ?thesis using create_space_main [OF assms False] by simp
qed

lemma create_address_space_correct_witness:
  "pt_lookup (fst (vmm_create_address_space tiny_machine))
     (snd (vmm_create_address_space tiny_machine)) 0x400000 = None"
proof -
  let ?c = "vmm_create_address_space tiny_machine"
  have "kernel_pml4 tiny_machine \<in> {tiny_root}" by (simp add: tiny_machine_def)
  from create_address_space_correct [OF tiny_vm_ok this, of "fst ?c" "snd ?c"]
  show ?thesis by (auto simp: pt_lookup_def split: if_splits)
qed

section \<open>The rest of the kernel state\<close>

lemma vm_ok_cong:
  assumes "bitmap s' = bitmap s" "refcounts s' = refcounts s" "total_pages s' = total_pages s"
    "free_pages s' = free_pages s" "hhdm_offset s' = hhdm_offset s" "mem s' = mem s"
  shows "vm_ok s' R F = vm_ok s R F"
proof -
  have "get64 s' q = get64 s q" for q using assms(6) by (simp add: get64_def)
  then have "get64 s' = get64 s" by (rule ext)
  moreover have "table_at s' = table_at s" using assms(5) by (simp add: table_at_def fun_eq_iff)
  ultimately show ?thesis
    unfolding vm_ok_def pt_inv_def data_frames_def pmm_inv_def frame_busy_def using assms by simp
qed

text \<open>
  No operation of the page tables or the page allocator touches the parts of the kernel state that
  the theories above add to the machine.
\<close>

lemma more_basic [frame_simps]:
  "machine.more (put64 p v s) = machine.more s"
  "machine.more (tlb_shootdown p v s) = machine.more s"
  "machine.more (pmm_free_page s a) = machine.more s"
  by (simp_all add: put64_def tlb_shootdown_def pmm_free_page_def Let_def)

lemma more_alloc [frame_simps]: "machine.more (fst (pmm_alloc_page s)) = machine.more s"
proof -
  have "fst (pmm_alloc_page s) = s \<or> (\<exists>p. fst (pmm_alloc_page s) = taken s p)"
    by (cases rule: pmm_alloc_scan_cases [of 0 s]) (auto simp: pmm_alloc_page_def)
  then show ?thesis by (auto simp: taken_def)
qed

lemma more_frees [frame_simps]: "machine.more (foldl pmm_free_page s as) = machine.more s"
  by (induction as arbitrary: s) (simp_all add: frame_simps)

lemma more_puts [frame_simps]:
  "machine.more (fold (\<lambda>i s. put64 (f i) (g i s) s) is s) = machine.more s"
  by (induction "is" arbitrary: s) (simp_all add: frame_simps)

lemma more_puts_const [frame_simps]: "machine.more (fold (\<lambda>i. put64 (f i) v) is s) = machine.more s"
  by (induction "is" arbitrary: s) (simp_all add: frame_simps)

lemma more_unlink [frame_simps]: "machine.more (fst (unlink_slots ps s)) = machine.more s"
proof (induction ps arbitrary: s)
  case Nil
  then show ?case by simp
next
  case (Cons p ps)
  obtain s1 r where "unlink_slots ps (put64 p 0 s) = (s1, r)" by fastforce
  then show ?case using Cons.IH [of "put64 p 0 s"] by (simp add: Let_def frame_simps)
qed

lemma more_walk [frame_simps]: "machine.more (fst (map_walk l va flags s t created)) = machine.more s"
proof (induction l arbitrary: s t created)
  case 0
  then show ?case by simp
next
  case (Suc l)
  obtain s1 f where al: "pmm_alloc_page s = (s1, f)" by fastforce
  then have "machine.more s1 = machine.more s" using more_alloc [of s] by simp
  then show ?case using Suc.IH al by (simp add: Let_def zero_table_def frame_simps)
qed

lemma more_map [frame_simps]: "machine.more (fst (map_page pml4 va phys flags flush s)) = machine.more s"
proof -
  obtain s1 created res where w: "map_walk 3 va flags s pml4 [] = (s1, created, res)"
    by (metis prod_cases3)
  then have 1: "machine.more s1 = machine.more s" using more_walk [of 3 va flags s pml4 "[]"] by simp
  obtain s2 ret where u: "unlink_slots created s1 = (s2, ret)" by fastforce
  then have "machine.more s2 = machine.more s1" using more_unlink [of created s1] by simp
  then have "machine.more (map_rollback pml4 created s1) = machine.more s"
    using u 1 by (simp add: map_rollback_def Let_def frame_simps)
  then show ?thesis using w 1 by (simp add: map_page_def Let_def frame_simps split: option.split)
qed

lemma more_prune [frame_simps]: "machine.more (fst (prune va ps s retired)) = machine.more s"
  by (induction va ps s retired rule: prune.induct) (simp_all add: Let_def frame_simps)

lemma more_unmap [frame_simps]: "machine.more (fst (vmm_unmap_page_in pml4 va s)) = machine.more s"
proof -
  have pr: "machine.more s2 = machine.more s1" if "prune va ps s1 [] = (s2, r)" for ps s1 s2 r
    using more_prune [of va ps s1 "[]"] that by simp
  show ?thesis
    by (auto simp: vmm_unmap_page_in_def Let_def frame_simps split: option.split prod.split dest!: pr)
qed

lemma more_create [frame_simps]: "machine.more (fst (vmm_create_address_space s)) = machine.more s"
proof -
  obtain s1 f where al: "pmm_alloc_page s = (s1, f)" by fastforce
  then have "machine.more s1 = machine.more s" using more_alloc [of s] by simp
  then show ?thesis using al by (simp add: vmm_create_address_space_def Let_def frame_simps)
qed

lemma more_free_tables [frame_simps]:
  fixes s :: "'a machine_scheme"
  shows "machine.more (free_tables l t n s) = machine.more s"
proof (induction l arbitrary: t n s)
  case 0
  then show ?case by (simp add: frame_simps)
next
  case (Suc l)
  have "machine.more (fold (\<lambda>i s. let entry = get64 s (slot_at t i)
      in if \<not> has entry PTE_PRESENT \<or> has entry PTE_LARGE then s
         else free_tables l (table_at s entry) 512 s) is s) = machine.more s"
    for "is" and s :: "'a machine_scheme"
  proof (induction "is" arbitrary: s)
    case Nil
    then show ?case by simp
  next
    case (Cons i js)
    then show ?case using Suc.IH by (simp add: Let_def)
  qed
  then show ?case by (simp add: frame_simps Let_def)
qed

end
