(* ===== verification/Heap.thy ===== *)
theory Heap
  imports VmmSpace
begin

text \<open>
  The kernel heap, \<^verbatim>\<open>mm/heap.c\<close>: a first-fit allocator over a virtual range that grows by 64 KiB.
  The linked list of block headers is the list \<open>heap_blocks\<close> in list order, each block with the
  address of its 32-byte header; the bytes behind the headers are in \<open>mem\<close>.
\<close>

section \<open>State\<close>

record heap_block =
  b_addr :: u64
  b_size :: u64
  b_free :: bool

record heap_state = machine +
  heap_blocks :: "heap_block list"
  heap_end :: u64

abbreviation HEAP_START :: u64 where "HEAP_START \<equiv> 0xFFFFC00000000000"
abbreviation HEAP_SIZE :: u64 where "HEAP_SIZE \<equiv> 0x10000"
abbreviation HEADER :: u64 where "HEADER \<equiv> 32"

section \<open>Growing\<close>

text \<open>The pages mapped for one growth step; the result is how many of them were mapped.\<close>

primrec map_heap_pages :: "u64 list \<Rightarrow> 'a machine_scheme \<Rightarrow> 'a machine_scheme \<times> u64 list \<times> bool" where
  "map_heap_pages [] s = (s, [], True)"
| "map_heap_pages (va # vas) s =
     (case pmm_alloc_page s of
        (s, phys) \<Rightarrow>
          if phys = 0 then (s, [], False)
          else case vmm_map_page va phys 3 s of
                 (s, False) \<Rightarrow> (pmm_free_page s phys, [], False)
               | (s, True) \<Rightarrow>
                   case map_heap_pages vas s of (s, mapped, ok) \<Rightarrow> (s, va # mapped, ok))"

text \<open>The rollback, last page first.\<close>

definition unmap_heap_page :: "u64 \<Rightarrow> 'a machine_scheme \<Rightarrow> 'a machine_scheme" where
  "unmap_heap_page va s =
     (case vmm_unmap_page va s of (s, phys) \<Rightarrow> if phys \<noteq> 0 then pmm_free_page s phys else s)"

definition heap_pages :: "u64 \<Rightarrow> u64 list" where
  "heap_pages base = map (page_at base) [0 ..< 16]"

text \<open>\<open>None\<close> is the boot halt.\<close>

definition heap_init :: "'a heap_state_scheme \<Rightarrow> 'a heap_state_scheme option" where
  "heap_init s =
     (case map_heap_pages (heap_pages HEAP_START) s of
        (s, mapped, ok) \<Rightarrow>
          if ok
          then Some (s\<lparr>heap_blocks := [\<lparr>b_addr = HEAP_START, b_size = HEAP_SIZE - HEADER, b_free = True\<rparr>],
                       heap_end := HEAP_START + HEAP_SIZE\<rparr>)
          else None)"

definition append_block :: "u64 \<Rightarrow> heap_block list \<Rightarrow> heap_block list" where
  "append_block addr bs =
     (if b_free (last bs)
      then butlast bs @ [(last bs)\<lparr>b_size := b_size (last bs) + (HEADER + (HEAP_SIZE - HEADER))\<rparr>]
      else bs @ [\<lparr>b_addr = addr, b_size = HEAP_SIZE - HEADER, b_free = True\<rparr>])"

definition heap_grow :: "'a heap_state_scheme \<Rightarrow> 'a heap_state_scheme \<times> bool" where
  "heap_grow s =
     (if heap_end s > UINT64_MAX - HEAP_SIZE then (s, False)
      else case map_heap_pages (heap_pages (heap_end s)) s of
             (s, mapped, True) \<Rightarrow>
               (s\<lparr>heap_blocks := append_block (heap_end s) (heap_blocks s),
                  heap_end := heap_end s + HEAP_SIZE\<rparr>, True)
           | (s, mapped, False) \<Rightarrow> (fold unmap_heap_page (rev mapped) s, False))"

section \<open>Allocating\<close>

definition fits :: "u64 \<Rightarrow> heap_block \<Rightarrow> bool" where
  "fits sz b \<longleftrightarrow> b_free b \<and> b_size b \<ge> sz"

definition take_block :: "u64 \<Rightarrow> nat \<Rightarrow> heap_block list \<Rightarrow> heap_block list" where
  "take_block sz i bs =
     (let curr = bs ! i
      in if b_size curr > sz + HEADER
         then take i bs @
              [curr\<lparr>b_size := sz, b_free := False\<rparr>,
               \<lparr>b_addr = b_addr curr + HEADER + sz, b_size = b_size curr - sz - HEADER, b_free = True\<rparr>] @
              drop (Suc i) bs
         else bs[i := curr\<lparr>b_free := False\<rparr>])"

definition round16 :: "u64 \<Rightarrow> u64" where
  "round16 sz = (sz + 15) AND NOT 15"

text \<open>The search and the jump back to it after a growth step, \<open>fuel\<close> times at most.\<close>

primrec kmalloc_retry :: "nat \<Rightarrow> u64 \<Rightarrow> 'a heap_state_scheme \<Rightarrow> ('a heap_state_scheme \<times> u64) option" where
  "kmalloc_retry 0 sz s = None"
| "kmalloc_retry (Suc fuel) sz s =
     (case find_idx (fits sz) (heap_blocks s) of
        Some i \<Rightarrow>
          Some (s\<lparr>heap_blocks := take_block sz i (heap_blocks s)\<rparr>,
                b_addr (heap_blocks s ! i) + HEADER)
      | None \<Rightarrow>
          (case heap_grow s of
             (s, True) \<Rightarrow> kmalloc_retry fuel sz s
           | (s, False) \<Rightarrow> Some (s, 0)))"

text \<open>Each growth step takes sixteen frames or fails, so one step per free frame is enough.\<close>

definition kmalloc :: "u64 \<Rightarrow> 'a heap_state_scheme \<Rightarrow> ('a heap_state_scheme \<times> u64) option" where
  "kmalloc sz s =
     (if sz = 0 \<or> sz > UINT64_MAX - 15 - HEADER then Some (s, 0)
      else kmalloc_retry (Suc (unat (free_pages s))) (round16 sz) s)"

section \<open>Freeing\<close>

definition merge_at :: "nat \<Rightarrow> heap_block list \<Rightarrow> heap_block list" where
  "merge_at j bs =
     take j bs @ [(bs ! j)\<lparr>b_size := b_size (bs ! j) + (HEADER + b_size (bs ! Suc j))\<rparr>] @ drop (j + 2) bs"

definition free_block :: "nat \<Rightarrow> heap_block list \<Rightarrow> heap_block list" where
  "free_block i bs =
     (let bs = bs[i := (bs ! i)\<lparr>b_free := True\<rparr>];
          (bs, j) = (if 0 < i \<and> b_free (bs ! (i - 1)) then (merge_at (i - 1) bs, i - 1) else (bs, i))
      in if Suc j < length bs \<and> b_free (bs ! Suc j) then merge_at j bs else bs)"

text \<open>\<open>None\<close>: the pointer is not one the heap gave out, and the C code writes to a wild header.\<close>

definition kfree :: "u64 \<Rightarrow> 'a heap_state_scheme \<Rightarrow> 'a heap_state_scheme option" where
  "kfree ptr s =
     (if ptr = 0 then Some s
      else case find_idx (\<lambda>b. b_addr b = ptr - HEADER) (heap_blocks s) of
             None \<Rightarrow> None
           | Some i \<Rightarrow> Some (s\<lparr>heap_blocks := free_block i (heap_blocks s)\<rparr>))"

definition krealloc :: "u64 \<Rightarrow> u64 \<Rightarrow> 'a heap_state_scheme \<Rightarrow> ('a heap_state_scheme \<times> u64) option" where
  "krealloc ptr new_size s =
     (if ptr = 0 then kmalloc new_size s
      else if new_size = 0 then map_option (\<lambda>s. (s, 0)) (kfree ptr s)
      else case find_idx (\<lambda>b. b_addr b = ptr - HEADER) (heap_blocks s) of
             None \<Rightarrow> None
           | Some i \<Rightarrow>
               let old_size = b_size (heap_blocks s ! i)
               in if old_size \<ge> new_size then Some (s, ptr)
                  else case kmalloc new_size s of
                         None \<Rightarrow> None
                       | Some (s, new_ptr) \<Rightarrow>
                           if new_ptr = 0 then Some (s, 0)
                           else map_option (\<lambda>s. (s, new_ptr))
                                  (kfree ptr (s\<lparr>mem := memcpy (mem s) new_ptr ptr (unat old_size)\<rparr>)))"

section \<open>The list of blocks\<close>

text \<open>
  The blocks tile the heap: each starts where the one before it ends, sizes are positive multiples
  of 16, and no two free blocks are adjacent.
\<close>

fun tiled :: "nat \<Rightarrow> heap_block list \<Rightarrow> nat \<Rightarrow> bool" where
  "tiled a [] e \<longleftrightarrow> a = e"
| "tiled a (b # bs) e \<longleftrightarrow>
     unat (b_addr b) = a \<and> 16 dvd unat (b_size b) \<and> b_size b \<noteq> 0 \<and>
     tiled (a + 32 + unat (b_size b)) bs e"

definition no_free_pair :: "heap_block list \<Rightarrow> bool" where
  "no_free_pair bs \<longleftrightarrow> successively (\<lambda>b c. \<not> (b_free b \<and> b_free c)) bs"

definition blocks_ok :: "heap_block list \<Rightarrow> u64 \<Rightarrow> bool" where
  "blocks_ok bs e \<longleftrightarrow> bs \<noteq> [] \<and> tiled (unat HEAP_START) bs (unat e) \<and> no_free_pair bs"

text \<open>What the heap has given out: the size of the block behind each pointer in use.\<close>

definition live_blocks :: "heap_block list \<Rightarrow> u64 \<Rightarrow> u64 option" where
  "live_blocks bs p = map_option b_size (find (\<lambda>b. \<not> b_free b \<and> b_addr b + HEADER = p) bs)"

lemma tiled_append: "tiled a (xs @ ys) e \<longleftrightarrow> (\<exists>m. tiled a xs m \<and> tiled m ys e)"
  by (induction xs arbitrary: a) auto

lemma tiled_le: "tiled a bs e \<Longrightarrow> a + 32 * length bs \<le> e"
  by (induction bs arbitrary: a) (auto, fastforce)

lemma tiled_mem:
  assumes "tiled a bs e" and "b \<in> set bs"
  shows "a \<le> unat (b_addr b)" and "unat (b_addr b) + 32 + unat (b_size b) \<le> e"
proof -
  obtain xs ys where bs: "bs = xs @ b # ys" using assms(2) by (auto simp: in_set_conv_decomp)
  then obtain m where m: "tiled a xs m" "tiled m (b # ys) e" using assms(1) by (auto simp: tiled_append)
  show "a \<le> unat (b_addr b)" using tiled_le [OF m(1)] m(2) by simp
  have "tiled (m + 32 + unat (b_size b)) ys e" using m(2) by simp
  from tiled_le [OF this] show "unat (b_addr b) + 32 + unat (b_size b) \<le> e" using m(2) by simp
qed

text \<open>Two blocks of a tiling do not overlap.\<close>

lemma tiled_apart:
  assumes "tiled a (xs @ b # ys) e" and "c \<in> set xs \<or> c \<in> set ys"
  shows "unat (b_addr b) + 32 + unat (b_size b) \<le> unat (b_addr c) \<or>
    unat (b_addr c) + 32 + unat (b_size c) \<le> unat (b_addr b)"
proof -
  obtain m where m: "tiled a xs m" "tiled m (b # ys) e" using assms(1) by (auto simp: tiled_append)
  then have b: "unat (b_addr b) = m" "tiled (m + 32 + unat (b_size b)) ys e" by simp_all
  from assms(2) show ?thesis
  proof
    assume "c \<in> set xs"
    then show ?thesis using tiled_mem(2) [OF m(1)] b(1) by simp
  next
    assume "c \<in> set ys"
    then show ?thesis using tiled_mem(1) [OF b(2)] b(1) by simp
  qed
qed

lemma tiled_distinct: "tiled a bs e \<Longrightarrow> distinct (map b_addr bs)"
proof (induction bs arbitrary: a)
  case Nil
  then show ?case by simp
next
  case (Cons b bs)
  have rest: "tiled (a + 32 + unat (b_size b)) bs e" and ba: "unat (b_addr b) = a"
    using Cons.prems by auto
  have "b_addr c \<noteq> b_addr b" if "c \<in> set bs" for c
    using tiled_mem(1) [OF rest that] ba by auto
  then have "b_addr b \<notin> b_addr ` set bs" by force
  then show ?case using Cons.IH [OF rest] by simp
qed

lemma tiled_other:
  assumes "tiled a (xs @ b # ys) e" and "c \<in> set xs \<union> set ys"
  shows "b_addr c \<noteq> b_addr b"
proof -
  have "b_addr b \<notin> b_addr ` (set xs \<union> set ys)" using tiled_distinct [OF assms(1)] by auto
  then show ?thesis using assms(2) by (metis imageI)
qed

lemma live_iff:
  assumes "tiled a bs e"
  shows "live_blocks bs p = Some n \<longleftrightarrow> (\<exists>b \<in> set bs. \<not> b_free b \<and> b_addr b + HEADER = p \<and> b_size b = n)"
proof
  assume "live_blocks bs p = Some n"
  then show "\<exists>b \<in> set bs. \<not> b_free b \<and> b_addr b + HEADER = p \<and> b_size b = n"
    by (auto simp: live_blocks_def find_Some_iff)
next
  assume "\<exists>b \<in> set bs. \<not> b_free b \<and> b_addr b + HEADER = p \<and> b_size b = n"
  then obtain b where b: "b \<in> set bs" "\<not> b_free b" "b_addr b + HEADER = p" "b_size b = n" by blast
  then obtain c where c: "find (\<lambda>b. \<not> b_free b \<and> b_addr b + HEADER = p) bs = Some c"
    by (cases "find (\<lambda>b. \<not> b_free b \<and> b_addr b + HEADER = p) bs") (auto simp: find_None_iff)
  then have "c \<in> set bs" "b_addr c = b_addr b" using b(3) by (auto simp: find_Some_iff)
  then have "c = b" using tiled_distinct [OF assms] b(1) by (auto simp: distinct_map inj_on_def)
  then show "live_blocks bs p = Some n" using c b(4) by (simp add: live_blocks_def)
qed

lemma split_at:
  assumes "i < length bs"
  obtains xs b ys where "bs = xs @ b # ys" "length xs = i" "bs ! i = b" "take i bs = xs"
    "drop (Suc i) bs = ys"
  using assms id_take_nth_drop [OF assms] that [of "take i bs" "bs ! i" "drop (Suc i) bs"] by simp

lemma no_free_pair_append:
  "no_free_pair (xs @ b # ys) \<longleftrightarrow>
     no_free_pair xs \<and> no_free_pair ys \<and>
     (b_free b \<longrightarrow> (xs \<noteq> [] \<longrightarrow> \<not> b_free (last xs)) \<and> (ys \<noteq> [] \<longrightarrow> \<not> b_free (hd ys)))"
  by (cases ys) (auto simp: no_free_pair_def successively_append_iff)

lemma live_cong_set:
  assumes "tiled a bs e" and "tiled a' bs' e'"
    and "\<And>b. \<not> b_free b \<Longrightarrow> b \<in> set bs' \<longleftrightarrow> b \<in> set bs"
  shows "live_blocks bs' = live_blocks bs"
proof
  fix p
  have "live_blocks bs' p = Some n \<longleftrightarrow> live_blocks bs p = Some n" for n
    unfolding live_iff [OF assms(1)] live_iff [OF assms(2)] using assms(3) by blast
  then show "live_blocks bs' p = live_blocks bs p" by (metis option.exhaust)
qed

lemma ptr_inj: "b_addr b + HEADER = b_addr c + HEADER \<longleftrightarrow> b_addr b = b_addr c"
  by simp

text \<open>A block changes hands: the map of live blocks is updated at its pointer.\<close>

lemma live_update:
  assumes t: "tiled a (xs @ b # ys) e" and t': "tiled a (xs @ b' # zs) e"
    and ad: "b_addr b' = b_addr b" and zs: "\<And>c. \<not> b_free c \<Longrightarrow> c \<in> set zs \<longleftrightarrow> c \<in> set ys"
  shows "live_blocks (xs @ b' # zs) =
    (live_blocks (xs @ b # ys))(b_addr b + HEADER := (if b_free b' then None else Some (b_size b')))"
proof
  fix p
  have d: "c \<in> set xs \<union> set ys \<Longrightarrow> b_addr c \<noteq> b_addr b" for c
    by (rule tiled_other [OF t])
  have "live_blocks (xs @ b' # zs) p = Some n \<longleftrightarrow>
    ((live_blocks (xs @ b # ys))(b_addr b + HEADER := (if b_free b' then None else Some (b_size b')))) p =
      Some n" for n
    unfolding fun_upd_apply using d zs ad
    by (auto simp: live_iff [OF t] live_iff [OF t'] split: if_splits)
  then show "live_blocks (xs @ b' # zs) p =
    ((live_blocks (xs @ b # ys))(b_addr b + HEADER := (if b_free b' then None else Some (b_size b')))) p"
    by (metis option.exhaust)
qed

lemma take_block_correct:
  assumes ok: "blocks_ok bs e" and f: "find_idx (fits sz) bs = Some i"
    and sz: "16 dvd unat sz" "sz \<noteq> 0" "unat sz + 32 < 2 ^ 64"
  shows "blocks_ok (take_block sz i bs) e"
    and "live_blocks bs (b_addr (bs ! i) + HEADER) = None"
    and "\<exists>n \<ge> sz. live_blocks (take_block sz i bs) = (live_blocks bs)(b_addr (bs ! i) + HEADER \<mapsto> n)"
proof -
  note fd = find_idx_SomeD [OF f]
  obtain xs b ys where bs: "bs = xs @ b # ys" and i: "length xs = i" "bs ! i = b"
    "take i bs = xs" "drop (Suc i) bs = ys"
    using fd(1) by (rule split_at)
  have t: "tiled (unat HEAP_START) (xs @ b # ys) (unat e)" and nf: "no_free_pair (xs @ b # ys)"
    using ok by (simp_all add: blocks_ok_def bs)
  obtain m where m: "tiled (unat HEAP_START) xs m" "tiled m (b # ys) (unat e)"
    using t unfolding tiled_append by blast
  have b: "b_free b" "sz \<le> b_size b" using fd(2) i(2) by (simp_all add: fits_def)
  have d: "c \<in> set xs \<union> set ys \<Longrightarrow> b_addr c \<noteq> b_addr b" for c
    by (rule tiled_other [OF t])
  have "\<not> (\<exists>n. live_blocks bs (b_addr b + HEADER) = Some n)"
    using d b(1) unfolding bs by (auto simp: live_iff [OF t])
  then show "live_blocks bs (b_addr (bs ! i) + HEADER) = None" by (simp add: i(2))
  have "blocks_ok (take_block sz i bs) e \<and>
    (\<exists>n \<ge> sz. live_blocks (take_block sz i bs) = (live_blocks bs)(b_addr (bs ! i) + HEADER \<mapsto> n))"
  proof (cases "b_size b > sz + HEADER")
    case False
    let ?b = "b\<lparr>b_free := False\<rparr>"
    have tb: "take_block sz i bs = xs @ ?b # ys"
      using False i by (simp add: take_block_def bs list_update_append Let_def)
    have t': "tiled (unat HEAP_START) (xs @ ?b # ys) (unat e)"
      using m unfolding tiled_append by (intro exI [of _ m]) simp
    have "no_free_pair (xs @ ?b # ys)" using nf by (simp add: no_free_pair_append)
    then have "blocks_ok (take_block sz i bs) e" using t' by (simp add: blocks_ok_def tb)
    moreover have "live_blocks (take_block sz i bs) = (live_blocks bs)(b_addr b + HEADER \<mapsto> b_size b)"
      unfolding tb using live_update [OF t t'] by (simp add: bs)
    ultimately show ?thesis using b(2) i(2) by auto
  next
    case True
    let ?b = "b\<lparr>b_size := sz, b_free := False\<rparr>"
    let ?r = "\<lparr>b_addr = b_addr b + HEADER + sz, b_size = b_size b - sz - HEADER, b_free = True\<rparr>"
    have tb: "take_block sz i bs = xs @ ?b # ?r # ys"
      using True i by (simp add: take_block_def Let_def)
    have s32: "unat (sz + HEADER) = unat sz + 32"
      using sz(3) unat_add_small [of sz 32] by simp
    then have gt: "unat sz + 32 < unat (b_size b)" using True by (simp add: word_less_nat_alt)
    have mb: "unat (b_addr b) = m" "16 dvd unat (b_size b)" "tiled (m + 32 + unat (b_size b)) ys (unat e)"
      using m(2) by simp_all
    have "unat (b_addr b) + (32 + unat (b_size b)) < 2 ^ 64"
      using tiled_le [OF mb(3)] mb(1) unat64_less [of e] by simp
    then have "unat (b_addr b + of_nat (32 + unat sz)) = unat (b_addr b) + (32 + unat sz)"
      using gt by (intro unat_add_small) simp
    then have ra: "unat (b_addr ?r) = m + 32 + unat sz" using mb(1) by (simp add: algebra_simps)
    have "unat (b_size b - (sz + HEADER)) = unat (b_size b) - (unat sz + 32)"
      using unat_sub [OF less_imp_le [OF True]] s32 by simp
    then have rs: "unat (b_size ?r) = unat (b_size b) - (unat sz + 32)" by (simp add: diff_diff_eq)
    have "b_size ?r \<noteq> 0" using rs gt by (auto simp: unat_eq_zero)
    moreover have "16 dvd unat (b_size ?r)"
      unfolding rs using mb(2) sz(1) by (intro dvd_diff_nat dvd_add) simp_all
    moreover have "m + 32 + unat sz + 32 + unat (b_size ?r) = m + 32 + unat (b_size b)"
      using rs gt by simp
    then have "tiled (m + 32 + unat sz + 32 + unat (b_size ?r)) ys (unat e)"
      using mb(3) by (simp only:)
    ultimately have "tiled (m + 32 + unat sz) (?r # ys) (unat e)" using ra by (simp only: tiled.simps simp_thms)
    then have "tiled m (?b # ?r # ys) (unat e)" using mb(1) sz by simp
    then have t': "tiled (unat HEAP_START) (xs @ ?b # ?r # ys) (unat e)"
      using m(1) unfolding tiled_append by blast
    have "no_free_pair (xs @ ?b # ?r # ys)"
      using nf b(1) no_free_pair_append [of xs b ys] no_free_pair_append [of xs ?b "?r # ys"]
        no_free_pair_append [of "[]" ?r ys]
      by simp (simp add: no_free_pair_def)
    then have "blocks_ok (take_block sz i bs) e" using t' by (simp add: blocks_ok_def tb)
    moreover have "live_blocks (take_block sz i bs) = (live_blocks bs)(b_addr b + HEADER \<mapsto> sz)"
    proof -
      have "c \<in> set (?r # ys) \<longleftrightarrow> c \<in> set ys" if "\<not> b_free c" for c using that by auto
      then show ?thesis using live_update [OF t t'] unfolding tb by (simp add: bs)
    qed
    ultimately show ?thesis using i(2) by auto
  qed
  then show "blocks_ok (take_block sz i bs) e"
    and "\<exists>n \<ge> sz. live_blocks (take_block sz i bs) = (live_blocks bs)(b_addr (bs ! i) + HEADER \<mapsto> n)"
    by blast+
qed

text \<open>Merging a block with the next one.\<close>

definition merged :: "heap_block \<Rightarrow> heap_block \<Rightarrow> heap_block" where
  "merged b c = b\<lparr>b_size := b_size b + (HEADER + b_size c)\<rparr>"

lemma merge_at_append: "merge_at (length us) (us @ p # q # ys) = us @ merged p q # ys"
  by (simp add: merge_at_def merged_def nth_append)

lemma merge_correct:
  assumes t: "tiled a (us @ p # q # ys) e" and e: "e < 2 ^ 64"
  shows "tiled a (us @ merged p q # ys) e"
    and "b_free p \<Longrightarrow> b_free q \<Longrightarrow> live_blocks (us @ merged p q # ys) = live_blocks (us @ p # q # ys)"
proof -
  obtain m where m: "tiled a us m" "tiled m (p # q # ys) e" using t unfolding tiled_append by blast
  then have pq: "unat (b_addr p) = m" "16 dvd unat (b_size p)" "b_size p \<noteq> 0"
    "unat (b_addr q) = m + 32 + unat (b_size p)" "16 dvd unat (b_size q)" "b_size q \<noteq> 0"
    "tiled (m + 32 + unat (b_size p) + 32 + unat (b_size q)) ys e" by auto
  have "unat (b_size p) + (32 + unat (b_size q)) < 2 ^ 64" using tiled_le [OF pq(7)] e by simp
  then have "unat (b_size p + of_nat (32 + unat (b_size q))) = unat (b_size p) + (32 + unat (b_size q))"
    by (rule unat_add_small)
  then have u: "unat (b_size (merged p q)) = unat (b_size p) + (32 + unat (b_size q))"
    by (simp add: merged_def)
  have "16 dvd unat (b_size (merged p q))" unfolding u using pq(2,5) by simp
  moreover have "b_size (merged p q) \<noteq> 0"
  proof
    assume "b_size (merged p q) = 0"
    then have "unat (b_size (merged p q)) = 0" by simp
    then show False using u by simp
  qed
  moreover have "m + 32 + unat (b_size (merged p q)) = m + 32 + unat (b_size p) + 32 + unat (b_size q)"
    using u by simp
  ultimately have "tiled m (merged p q # ys) e" using pq(1,7) by (simp only: tiled.simps) (simp add: merged_def)
  then show t': "tiled a (us @ merged p q # ys) e" using m(1) unfolding tiled_append by blast
  show "live_blocks (us @ merged p q # ys) = live_blocks (us @ p # q # ys)" if "b_free p" "b_free q"
    by (rule live_cong_set [OF t t']) (use that in \<open>auto simp: merged_def\<close>)
qed

text \<open>The two merges of \<open>kfree\<close>, on the list split at the freed block.\<close>

definition merge_prev :: "heap_block list \<Rightarrow> heap_block \<Rightarrow> heap_block list \<times> heap_block" where
  "merge_prev xs b = (if xs \<noteq> [] \<and> b_free (last xs) then (butlast xs, merged (last xs) b) else (xs, b))"

lemma free_block_append:
  fixes xs b ys
  defines "m \<equiv> merge_prev xs (b\<lparr>b_free := True\<rparr>)"
  shows "free_block (length xs) (xs @ b # ys) =
    (case ys of [] \<Rightarrow> fst m @ [snd m]
     | c # cs \<Rightarrow> if b_free c then fst m @ merged (snd m) c # cs else fst m @ snd m # c # cs)"
proof -
  let ?b = "b\<lparr>b_free := True\<rparr>"
  have u: "(xs @ b # ys)[length xs := ((xs @ b # ys) ! length xs)\<lparr>b_free := True\<rparr>] = xs @ ?b # ys" by simp
  have prev: "(if 0 < length xs \<and> b_free ((xs @ ?b # ys) ! (length xs - 1))
      then (merge_at (length xs - 1) (xs @ ?b # ys), length xs - 1) else (xs @ ?b # ys, length xs)) =
    (fst m @ snd m # ys, length (fst m))"
  proof (cases "xs = []")
    case True
    then show ?thesis by (simp add: m_def merge_prev_def)
  next
    case False
    then obtain us p where xs: "xs = us @ [p]" by (metis append_butlast_last_id)
    then have "(xs @ ?b # ys) ! (length xs - 1) = p" by (simp add: nth_append)
    then show ?thesis using merge_at_append [of us p ?b ys]
      by (simp add: m_def merge_prev_def xs)
  qed
  have next': "(if Suc (length us) < length (us @ c # ys) \<and> b_free ((us @ c # ys) ! Suc (length us))
      then merge_at (length us) (us @ c # ys) else us @ c # ys) =
    (case ys of [] \<Rightarrow> us @ [c] | d # ds \<Rightarrow> if b_free d then us @ merged c d # ds else us @ c # d # ds)"
    for us c
    using merge_at_append [of us c] by (cases ys) (simp_all add: nth_append)
  show ?thesis
    unfolding free_block_def u Let_def prev by (simp only: prod.case next')
qed

lemma free_block_correct:
  assumes ok: "blocks_ok bs e" and i: "i < length bs" and used: "\<not> b_free (bs ! i)"
  shows "blocks_ok (free_block i bs) e"
    and "live_blocks (free_block i bs) = (live_blocks bs)(b_addr (bs ! i) + HEADER := None)"
proof -
  obtain xs b ys where bs: "bs = xs @ b # ys" and len: "length xs = i" "bs ! i = b"
    using i by (rule split_at)
  let ?b = "b\<lparr>b_free := True\<rparr>"
  have t: "tiled (unat HEAP_START) (xs @ b # ys) (unat e)" and nf: "no_free_pair (xs @ b # ys)"
    using ok by (simp_all add: blocks_ok_def bs)
  have e: "unat e < 2 ^ 64" by (rule unat64_less)
  have t1: "tiled (unat HEAP_START) (xs @ ?b # ys) (unat e)"
    using t unfolding tiled_append by (auto intro!: exI)
  have l1: "live_blocks (xs @ ?b # ys) = (live_blocks bs)(b_addr b + HEADER := None)"
    using live_update [OF t t1] by (simp add: bs)
  obtain us c where m: "merge_prev xs ?b = (us, c)" by fastforce
  have prev: "tiled (unat HEAP_START) (us @ c # ys) (unat e)" "b_free c"
    "live_blocks (us @ c # ys) = live_blocks (xs @ ?b # ys)"
    "no_free_pair us" "us \<noteq> [] \<longrightarrow> \<not> b_free (last us)"
  proof -
    have "tiled (unat HEAP_START) (us @ c # ys) (unat e) \<and> b_free c \<and>
      live_blocks (us @ c # ys) = live_blocks (xs @ ?b # ys) \<and> no_free_pair us \<and>
      (us \<noteq> [] \<longrightarrow> \<not> b_free (last us))"
    proof (cases "xs \<noteq> [] \<and> b_free (last xs)")
      case True
      then obtain vs p where xs: "xs = vs @ [p]" by (metis append_butlast_last_id)
      have uc: "us = vs" "c = merged p ?b" using m True xs by (simp_all add: merge_prev_def)
      have "tiled (unat HEAP_START) (vs @ p # ?b # ys) (unat e)" using t1 xs by simp
      note mc = merge_correct [OF this e]
      have "no_free_pair (vs @ p # b # ys)" using nf xs by simp
      then have "no_free_pair vs" "vs \<noteq> [] \<longrightarrow> \<not> b_free (last vs)"
        using True xs by (simp_all add: no_free_pair_append [of vs p "b # ys"])
      then show ?thesis using mc True xs uc by (simp add: merged_def)
    next
      case False
      then have "us = xs" "c = ?b" using m by (auto simp: merge_prev_def)
      then show ?thesis using t1 nf False by (auto simp: no_free_pair_append [of xs b ys])
    qed
    then show "tiled (unat HEAP_START) (us @ c # ys) (unat e)" "b_free c"
      "live_blocks (us @ c # ys) = live_blocks (xs @ ?b # ys)"
      "no_free_pair us" "us \<noteq> [] \<longrightarrow> \<not> b_free (last us)" by blast+
  qed
  have nfy: "no_free_pair ys" using nf by (simp add: no_free_pair_append)
  have fb: "free_block i bs = (case ys of [] \<Rightarrow> us @ [c]
     | d # ds \<Rightarrow> if b_free d then us @ merged c d # ds else us @ c # d # ds)"
    using free_block_append [of xs b ys] m len(1) by (simp add: bs split: list.splits)
  have "blocks_ok (free_block i bs) e \<and> live_blocks (free_block i bs) = live_blocks (us @ c # ys)"
  proof (cases ys)
    case Nil
    then show ?thesis using prev fb no_free_pair_append [of us c "[]"]
      by (simp add: blocks_ok_def) (simp add: no_free_pair_def)
  next
    case (Cons d ds)
    have ds: "no_free_pair ds" "b_free d \<Longrightarrow> ds \<noteq> [] \<longrightarrow> \<not> b_free (hd ds)"
      using nfy no_free_pair_append [of "[]" d ds] by (simp_all add: Cons)
    show ?thesis
    proof (cases "b_free d")
      case True
      have "tiled (unat HEAP_START) (us @ c # d # ds) (unat e)" using prev(1) Cons by simp
      note mc = merge_correct [OF this e]
      have "no_free_pair (us @ merged c d # ds)" using prev(4,5) ds True by (simp add: no_free_pair_append)
      then show ?thesis using mc prev(2) True fb Cons by (simp add: blocks_ok_def)
    next
      case False
      have "no_free_pair (us @ c # ys)" using prev(4,5) nfy False Cons by (simp add: no_free_pair_append)
      then show ?thesis using prev(1) False fb Cons by (simp add: blocks_ok_def)
    qed
  qed
  then show "blocks_ok (free_block i bs) e"
    and "live_blocks (free_block i bs) = (live_blocks bs)(b_addr (bs ! i) + HEADER := None)"
    using prev(3) l1 len(2) by simp_all
qed

section \<open>Growth\<close>

lemma prune_kernel: "kernel_pml4 (fst (prune va ps s retired)) = kernel_pml4 s"
  by (induction va ps s retired rule: prune.induct) (simp_all add: Let_def)

lemma unmap_kernel: "kernel_pml4 (fst (vmm_unmap_page_in pml4 va s)) = kernel_pml4 s"
proof -
  have pr: "kernel_pml4 s2 = kernel_pml4 s1" if "prune va ps s1 [] = (s2, r)" for ps s1 s2 r
    using prune_kernel [of va ps s1 "[]"] that by simp
  show ?thesis
    by (auto simp: vmm_unmap_page_in_def Let_def tlb_shootdown_def split: option.split prod.split
        dest!: pr)
qed

text \<open>
  What mapping pages of the heap leaves behind: each mapped page has a frame of its own, held as
  data.
\<close>

definition pages_held :: "'a machine_scheme \<Rightarrow> u64 list \<Rightarrow> u64 list \<Rightarrow> bool" where
  "pages_held s vas gs \<longleftrightarrow> distinct gs \<and> distinct vas \<and>
     list_all2 (\<lambda>w g. g \<noteq> 0 \<and> canonical w \<and> w AND 4095 = 0 \<and>
       (\<exists>e. pt_lookup s (kernel_pml4 s) w = Some e \<and> vmm_pte_address e = g)) vas gs"

lemma list_all2_mono_strong:
  assumes "list_all2 P xs ys" and "\<And>x y. x \<in> set xs \<Longrightarrow> P x y \<Longrightarrow> Q x y"
  shows "list_all2 Q xs ys"
  using assms by (induction rule: list_all2_induct) auto

lemma map_heap_pages_spec:
  assumes "vm_ok s R F" and "kernel_pml4 s \<in> R" and "distinct vas"
    and "map_heap_pages vas s = (s', mapped, ok)"
  shows "\<exists>gs. vm_ok s' R (F \<union> set gs) \<and> set gs \<inter> F = {} \<and> kernel_pml4 s' = kernel_pml4 s \<and>
    pages_held s' mapped gs \<and> set mapped \<subseteq> set vas \<and>
    (\<forall>vb. vb AND NOT 4095 \<notin> set vas \<longrightarrow>
       pt_lookup s' (kernel_pml4 s) vb = pt_lookup s (kernel_pml4 s) vb) \<and>
    (ok \<longrightarrow> mapped = vas \<and> unat (free_pages s') + length vas \<le> unat (free_pages s))"
  using assms
proof (induction vas arbitrary: s F mapped)
  case Nil
  then show ?case by (intro exI [of _ "[]"]) (simp add: pages_held_def)
next
  case (Cons va vas)
  let ?K = "kernel_pml4 s"
  obtain s1 f where al: "pmm_alloc_page s = (s1, f)" by fastforce
  show ?case
  proof (cases "f = 0")
    case True
    then have "s' = s" "mapped = []" "\<not> ok"
      using Cons.prems(4) al pmm_alloc_contract(4) [OF vm_ok_pmm [OF Cons.prems(1)] al] by auto
    then show ?thesis using Cons.prems(1) by (intro exI [of _ "[]"]) (simp add: pages_held_def)
  next
    case f: False
    note ct = pmm_alloc_contract [OF vm_ok_pmm [OF Cons.prems(1)] al] and fr = pmm_alloc_page_frame [OF al]
    note v1 = vm_ok_alloc [OF Cons.prems(1) al f]
    have look1: "pt_lookup s1 r vb = pt_lookup s r vb" for r vb
      using pt_lookup_cong [OF fr(1,2)] by simp
    have K1: "kernel_pml4 s1 = ?K" by (rule fr(3))
    obtain s2 okm where m: "vmm_map_page va f 3 s1 = (s2, okm)" by fastforce
    then have mp: "map_page ?K va f 3 True s1 = (s2, okm)"
      by (simp add: vmm_map_page_def vmm_map_page_in_def K1)
    note k = map_page_keeps [OF v1(1) Cons.prems(2) mp]
    show ?thesis
    proof (cases okm)
      case False
      then have eq: "s' = pmm_free_page s2 f" "mapped = []" "\<not> ok"
        using Cons.prems(4) al f m by auto
      have "vm_ok s' R (insert f F - {f})" unfolding eq(1) by (rule vm_ok_free [OF k(1)]) simp
      moreover have "insert f F - {f} = F" using v1(2) by auto
      moreover have "pt_lookup s' ?K vb = pt_lookup s ?K vb" for vb
        using k(4) [OF False Cons.prems(2)] look1 pt_lookup_cong [of s' s2] by (simp add: eq(1))
      ultimately show ?thesis using eq k(2) K1
        by (intro exI [of _ "[]"]) (simp add: pages_held_def)
    next
      case True
      obtain mapped' where rest: "map_heap_pages vas s2 = (s', mapped', ok)" "mapped = va # mapped'"
        using Cons.prems(4) al f m True by (auto split: prod.splits)
      have K2: "kernel_pml4 s2 = ?K" using k(2) K1 by simp
      have args: "canonical va" "va AND 4095 = 0" "f AND NOT PTE_ADDR_MASK = 0"
        using k(5) [OF True] unfolding map_page_args_ok_def by blast+
      from Cons.IH [OF k(1) _ _ rest(1)] Cons.prems(2,3) K2 obtain gs where
        h: "vm_ok s' R (insert f F \<union> set gs)" "set gs \<inter> insert f F = {}" "kernel_pml4 s' = ?K"
          "pages_held s' mapped' gs" "set mapped' \<subseteq> set vas"
          "\<forall>vb. vb AND NOT 4095 \<notin> set vas \<longrightarrow> pt_lookup s' ?K vb = pt_lookup s2 ?K vb"
          "ok \<longrightarrow> mapped' = vas \<and> unat (free_pages s') + length vas \<le> unat (free_pages s2)"
        by auto
      have "va AND NOT 4095 = va" using args(2) by (rule page_floor_id)
      then have "pt_lookup s' ?K va = pt_lookup s2 ?K va" using h(6) Cons.prems(3) by simp
      then have leaf: "pt_lookup s' ?K va = Some (f OR 3)" using k(7) [OF True] by simp
      have "vmm_pte_address (f OR 3) = f" using entry_parts(1) [OF args(3), of 3] by simp
      then have "pages_held s' mapped (f # gs)"
        using h(2-5) leaf args f Cons.prems(3) by (auto simp: pages_held_def rest(2))
      moreover have "pt_lookup s' ?K vb = pt_lookup s ?K vb" if "vb AND NOT 4095 \<notin> set (va # vas)" for vb
        using h(6) k(8) [OF True Cons.prems(2), of vb] look1 that by simp
      moreover have "unat (free_pages s2) \<le> unat (free_pages s1)"
        by (rule free_pages_mono [OF ct(1) vm_ok_pmm [OF k(1)] k(10) k(9)])
      then have "ok \<longrightarrow> mapped = va # vas \<and> unat (free_pages s') + length (va # vas) \<le> unat (free_pages s)"
      proof -
        have "unat (free_pages s) \<noteq> 0" using ct(5) f by (simp add: unat_eq_zero)
        then show ?thesis using h(7) ct(7) f rest(2) \<open>unat (free_pages s2) \<le> _\<close> by auto
      qed
      ultimately show ?thesis using h rest(2) Cons.prems(3) v1(2)
        by (intro exI [of _ "f # gs"]) auto
    qed
  qed
qed

lemma unmap_heap_page_spec:
  assumes ok: "vm_ok s R (F \<union> set (g # gs))" and K: "kernel_pml4 s \<in> R"
    and held: "pages_held s (va # vas) (g # gs)" and dj: "set (g # gs) \<inter> F = {}"
  shows "vm_ok (unmap_heap_page va s) R (F \<union> set gs)"
    and "kernel_pml4 (unmap_heap_page va s) = kernel_pml4 s"
    and "pages_held (unmap_heap_page va s) vas gs"
    and "vb AND NOT 4095 \<noteq> va \<Longrightarrow>
      pt_lookup (unmap_heap_page va s) (kernel_pml4 s) vb = pt_lookup s (kernel_pml4 s) vb"
proof -
  obtain s1 phys where u: "vmm_unmap_page va s = (s1, phys)" by fastforce
  then have u': "vmm_unmap_page_in (kernel_pml4 s) va s = (s1, phys)" by (simp add: vmm_unmap_page_def)
  obtain e where e: "canonical va" "va AND 4095 = 0" "pt_lookup s (kernel_pml4 s) va = Some e"
    "vmm_pte_address e = g" and nz: "g \<noteq> 0"
    using held by (auto simp: pages_held_def)
  note um = unmap_page_main [OF ok K u' e(1,2)]
  have pg: "phys = g" using um(3) e by simp
  have s': "unmap_heap_page va s = pmm_free_page s1 g" using u pg nz by (simp add: unmap_heap_page_def)
  have "vm_ok (pmm_free_page s1 g) R (F \<union> set (g # gs) - {g})" by (rule vm_ok_free [OF um(1)]) simp
  moreover have "F \<union> set (g # gs) - {g} = F \<union> set gs"
    using held dj by (auto simp: pages_held_def)
  ultimately show "vm_ok (unmap_heap_page va s) R (F \<union> set gs)" by (simp add: s')
  have K1: "kernel_pml4 s1 = kernel_pml4 s" using unmap_kernel [of "kernel_pml4 s" va s] u' by simp
  then show K': "kernel_pml4 (unmap_heap_page va s) = kernel_pml4 s" by (simp add: s')
  show look: "pt_lookup (unmap_heap_page va s) (kernel_pml4 s) vb = pt_lookup s (kernel_pml4 s) vb"
    if "vb AND NOT 4095 \<noteq> va" for vb
    using um(4) [OF K] that pt_lookup_cong [of "pmm_free_page s1 g" s1] by (simp add: s')
  have same: "pt_lookup (unmap_heap_page va s) (kernel_pml4 s) vb = pt_lookup s (kernel_pml4 s) vb"
    if "vb \<in> set vas" "vb AND 4095 = 0" for vb
    using look [of vb] page_floor_id [OF that(2)] that(1) held by (auto simp: pages_held_def)
  let ?P = "\<lambda>s w g. g \<noteq> 0 \<and> canonical w \<and> w AND 4095 = 0 \<and>
    (\<exists>e. pt_lookup s (kernel_pml4 s) w = Some e \<and> vmm_pte_address e = g)"
  have "list_all2 (?P s) vas gs" using held by (simp add: pages_held_def)
  then have "list_all2 (?P (unmap_heap_page va s)) vas gs"
    by (rule list_all2_mono_strong) (use same K' in auto)
  then show "pages_held (unmap_heap_page va s) vas gs" using held by (simp add: pages_held_def)
qed

lemma unmap_heap_pages_spec:
  assumes "vm_ok s R (F \<union> set gs)" and "kernel_pml4 s \<in> R"
    and "pages_held s vas gs" and "set gs \<inter> F = {}"
  shows "vm_ok (fold unmap_heap_page vas s) R F"
    and "kernel_pml4 (fold unmap_heap_page vas s) = kernel_pml4 s"
    and "vb AND NOT 4095 \<notin> set vas \<Longrightarrow>
      pt_lookup (fold unmap_heap_page vas s) (kernel_pml4 s) vb = pt_lookup s (kernel_pml4 s) vb"
proof -
  have "vm_ok (fold unmap_heap_page vas s) R F \<and>
    kernel_pml4 (fold unmap_heap_page vas s) = kernel_pml4 s \<and>
    (vb AND NOT 4095 \<notin> set vas \<longrightarrow>
      pt_lookup (fold unmap_heap_page vas s) (kernel_pml4 s) vb = pt_lookup s (kernel_pml4 s) vb)"
    using assms
  proof (induction vas arbitrary: s gs)
    case Nil
    then show ?case by (simp add: pages_held_def)
  next
    case (Cons va vas)
    obtain g hs where gs: "gs = g # hs"
      using Cons.prems(3) by (cases gs) (auto simp: pages_held_def)
    note st = unmap_heap_page_spec [OF Cons.prems(1)[unfolded gs] Cons.prems(2) Cons.prems(3)[unfolded gs]
        Cons.prems(4)[unfolded gs]]
    have "set hs \<inter> F = {}" using Cons.prems(4) gs by auto
    then show ?case using Cons.IH [OF st(1) _ st(3)] st(2) st(4) Cons.prems(2) by simp
  qed
  then show "vm_ok (fold unmap_heap_page vas s) R F"
    and "kernel_pml4 (fold unmap_heap_page vas s) = kernel_pml4 s"
    and "vb AND NOT 4095 \<notin> set vas \<Longrightarrow>
      pt_lookup (fold unmap_heap_page vas s) (kernel_pml4 s) vb = pt_lookup s (kernel_pml4 s) vb"
    by blast+
qed

lemma pages_held_rev: "pages_held s vas gs \<Longrightarrow> pages_held s (rev vas) (rev gs)"
  by (simp add: pages_held_def list_all2_rev)

text \<open>The heap's own invariant: over a sound address space, the blocks tile the heap.\<close>

definition heap_ok :: "'a heap_state_scheme \<Rightarrow> u64 set \<Rightarrow> bool" where
  "heap_ok s R \<longleftrightarrow> (\<exists>F. vm_ok s R F) \<and> kernel_pml4 s \<in> R \<and> blocks_ok (heap_blocks s) (heap_end s)"

abbreviation live :: "'a heap_state_scheme \<Rightarrow> u64 \<Rightarrow> u64 option" where
  "live s \<equiv> live_blocks (heap_blocks s)"

lemma heap_more:
  assumes "machine.more s' = machine.more s"
  shows "heap_blocks s' = heap_blocks s" and "heap_end s' = heap_end s"
  using assms by (cases s; cases s'; simp)+

lemma more_map_heap [frame_simps]: "machine.more (fst (map_heap_pages vas s)) = machine.more s"
proof (induction vas arbitrary: s)
  case Nil
  then show ?case by simp
next
  case (Cons va vas)
  obtain s1 f where al: "pmm_alloc_page s = (s1, f)" by fastforce
  obtain s2 ok where m: "vmm_map_page va f 3 s1 = (s2, ok)" by fastforce
  obtain s3 mp ok' where r: "map_heap_pages vas s2 = (s3, mp, ok')" by (metis prod_cases3)
  have "machine.more s1 = machine.more s" "machine.more s2 = machine.more s1"
    "machine.more s3 = machine.more s2"
    using more_alloc [of s] more_map [of "kernel_pml4 s1" va f 3 True s1] Cons.IH [of s2] al m r
    by (simp_all add: vmm_map_page_def vmm_map_page_in_def)
  then show ?case using al m r by (cases ok) (simp_all add: frame_simps)
qed

lemma more_unmap_heap [frame_simps]: "machine.more (fold unmap_heap_page vas s) = machine.more s"
proof (induction vas arbitrary: s)
  case Nil
  then show ?case by simp
next
  case (Cons va vas)
  obtain s1 p where "vmm_unmap_page va s = (s1, p)" by fastforce
  then have "machine.more (unmap_heap_page va s) = machine.more s"
    using more_unmap [of "kernel_pml4 s" va s]
    by (simp add: unmap_heap_page_def vmm_unmap_page_def frame_simps)
  then show ?case using Cons.IH by simp
qed

lemma page_at_inj:
  assumes "unat base + 65536 \<le> 2 ^ 64" and "i < 16" "j < 16" "page_at base i = page_at base j"
  shows "i = j"
proof -
  have "unat (page_at base k) = unat base + k * 4096" if "k < 16" for k
    using unat_add_small [of base "k * 4096"] assms(1) that by (simp add: page_at_def)
  then show ?thesis using assms(2-4) by (metis add_left_cancel mult_right_cancel zero_neq_numeral)
qed

lemma append_block_correct:
  assumes ok: "blocks_ok bs e" and e: "unat e + 65536 < 2 ^ 64"
  shows "blocks_ok (append_block e bs) (e + HEAP_SIZE)"
    and "live_blocks (append_block e bs) = live_blocks bs"
proof -
  obtain us p where bs: "bs = us @ [p]" using ok by (metis append_butlast_last_id blocks_ok_def)
  have t: "tiled (unat HEAP_START) (us @ [p]) (unat e)" and nf: "no_free_pair (us @ [p])"
    using ok by (simp_all add: blocks_ok_def bs)
  let ?q = "\<lparr>b_addr = e, b_size = HEAP_SIZE - HEADER, b_free = True\<rparr>"
  have ue: "unat (e + HEAP_SIZE) = unat e + 65536" using unat_add_small [of e 65536] e by simp
  have t2: "tiled (unat HEAP_START) ((us @ [p]) @ [?q]) (unat (e + HEAP_SIZE))"
    unfolding tiled_append [of _ "us @ [p]"] using t by (intro exI [of _ "unat e"]) (simp add: ue)
  have lq: "live_blocks ((us @ [p]) @ [?q]) = live_blocks (us @ [p])"
    by (rule live_cong_set [OF t t2]) auto
  have "blocks_ok (append_block e bs) (e + HEAP_SIZE) \<and>
    live_blocks (append_block e bs) = live_blocks bs"
  proof (cases "b_free p")
    case False
    have "no_free_pair ((us @ [p]) @ [?q])"
      using nf False by (simp add: no_free_pair_def successively_append_iff)
    then show ?thesis using False t2 lq by (simp add: append_block_def bs blocks_ok_def)
  next
    case True
    have ab: "append_block e bs = us @ [merged p ?q]"
      using True by (simp add: append_block_def bs merged_def)
    have "tiled (unat HEAP_START) (us @ p # ?q # []) (unat (e + HEAP_SIZE))" using t2 by simp
    note mc = merge_correct [OF this unat64_less]
    have "no_free_pair (us @ [merged p ?q])"
      using nf no_free_pair_append [of us p "[]"] no_free_pair_append [of us "merged p ?q" "[]"]
      by (simp add: merged_def)
    then show ?thesis unfolding ab using mc True lq by (simp add: bs blocks_ok_def)
  qed
  then show "blocks_ok (append_block e bs) (e + HEAP_SIZE)"
    and "live_blocks (append_block e bs) = live_blocks bs" by blast+
qed

lemma heap_grow_spec:
  assumes ok: "heap_ok s R" and g: "heap_grow s = (s', ext)"
  shows "heap_ok s' R" and "live s' = live s" and "kernel_pml4 s' = kernel_pml4 s"
    and "ext \<Longrightarrow> unat (free_pages s') + 16 \<le> unat (free_pages s)"
    and "\<not> ext \<Longrightarrow> heap_blocks s' = heap_blocks s \<and> heap_end s' = heap_end s"
proof -
  obtain F where vm: "vm_ok s R F" and K: "kernel_pml4 s \<in> R" and bl: "blocks_ok (heap_blocks s) (heap_end s)"
    using ok by (auto simp: heap_ok_def)
  have "heap_ok s' R \<and> live s' = live s \<and> kernel_pml4 s' = kernel_pml4 s \<and>
    (ext \<longrightarrow> unat (free_pages s') + 16 \<le> unat (free_pages s)) \<and>
    (\<not> ext \<longrightarrow> heap_blocks s' = heap_blocks s \<and> heap_end s' = heap_end s)"
  proof (cases "heap_end s > UINT64_MAX - HEAP_SIZE")
    case True
    then show ?thesis using g ok by (simp add: heap_grow_def)
  next
    case False
    then have e: "unat (heap_end s) + 65536 < 2 ^ 64" by (simp add: word_less_nat_alt)
    obtain s1 mapped okm where m: "map_heap_pages (heap_pages (heap_end s)) s = (s1, mapped, okm)"
      by (metis prod_cases3)
    have "inj_on (page_at (heap_end s)) {0 ..< 16}"
      using page_at_inj [of "heap_end s"] e by (auto simp: inj_on_def)
    then have d: "distinct (heap_pages (heap_end s))" by (simp add: heap_pages_def distinct_map)
    from map_heap_pages_spec [OF vm K d m] obtain gs where
      h: "vm_ok s1 R (F \<union> set gs)" "set gs \<inter> F = {}" "kernel_pml4 s1 = kernel_pml4 s"
        "pages_held s1 mapped gs"
        "okm \<longrightarrow> unat (free_pages s1) + length (heap_pages (heap_end s)) \<le> unat (free_pages s)"
      by blast
    have keep1: "heap_blocks s1 = heap_blocks s" "heap_end s1 = heap_end s"
      using heap_more [of s1 s] more_map_heap [of "heap_pages (heap_end s)" s] m by simp_all
    show ?thesis
    proof (cases okm)
      case True
      have s': "s' = s1\<lparr>heap_blocks := append_block (heap_end s) (heap_blocks s),
          heap_end := heap_end s + HEAP_SIZE\<rparr>" "ext"
        using g False m True keep1 by (simp_all add: heap_grow_def)
      have "vm_ok s' R (F \<union> set gs)"
        using h(1) vm_ok_cong [of s' s1] by (simp add: s')
      then show ?thesis using append_block_correct [OF bl e] h(3,5) K True
        by (auto simp: heap_ok_def s' heap_pages_def)
    next
      case notok: False
      have s': "s' = fold unmap_heap_page (rev mapped) s1" "\<not> ext"
        using g False m notok by (simp_all add: heap_grow_def)
      note um = unmap_heap_pages_spec [OF _ _ pages_held_rev [OF h(4)], of R F]
      have "vm_ok s' R F" "kernel_pml4 s' = kernel_pml4 s" using um h(1-3) K by (simp_all add: s')
      moreover have "heap_blocks s' = heap_blocks s" "heap_end s' = heap_end s"
        using heap_more [of s' s1] more_unmap_heap [of "rev mapped" s1] keep1 by (simp_all add: s')
      ultimately show ?thesis using K bl s'(2) by (auto simp: heap_ok_def)
    qed
  qed
  then show "heap_ok s' R" and "live s' = live s" and "kernel_pml4 s' = kernel_pml4 s"
    and "ext \<Longrightarrow> unat (free_pages s') + 16 \<le> unat (free_pages s)"
    and "\<not> ext \<Longrightarrow> heap_blocks s' = heap_blocks s \<and> heap_end s' = heap_end s" by blast+
qed

section \<open>Allocation and release\<close>

lemma round16_facts:
  assumes "sz \<noteq> 0" and "\<not> sz > UINT64_MAX - 15 - HEADER"
  shows "16 dvd unat (round16 sz)" and "round16 sz \<noteq> 0" and "sz \<le> round16 sz"
    and "unat (round16 sz) + 32 < 2 ^ 64"
proof -
  have small: "unat sz + 47 < 2 ^ 64" using assms(2) by (simp add: word_less_nat_alt)
  have u: "unat (sz + 15) = unat sz + 15" using unat_add_small [of sz 15] small by simp
  have m: "unat ((sz + 15) AND 15) = (unat sz + 15) mod 16"
    using unat_and_mask_mod [of "sz + 15" 4] u by (simp add: mask_eq_exp_minus_1)
  have "(sz + 15) AND 15 \<le> sz + 15" by (simp add: word_le_nat_alt u m)
  then have r: "unat (round16 sz) = (unat sz + 15) div 16 * 16"
    unfolding round16_def word_and_not_eq_diff by (simp only: unat_sub u m minus_mod_eq_div_mult)
  show "16 dvd unat (round16 sz)" by (simp add: r)
  show "sz \<le> round16 sz" by (simp add: word_le_nat_alt r; linarith)
  then show "round16 sz \<noteq> 0" using assms(1) by auto
  show "unat (round16 sz) + 32 < 2 ^ 64" using small by (simp add: r; linarith)
qed

text \<open>Where the loop has one turn per free frame left, it ends.\<close>

definition alloc_result ::
    "'a heap_state_scheme \<Rightarrow> u64 \<Rightarrow> 'a heap_state_scheme \<Rightarrow> u64 \<Rightarrow> bool" where
  "alloc_result s sz s' p \<longleftrightarrow>
     (if p = 0 then live s' = live s
      else live s p = None \<and> (\<exists>n \<ge> sz. live s' = (live s)(p \<mapsto> n)))"

lemma alloc_result_weaken:
  "alloc_result s sz s' p \<Longrightarrow> sz' \<le> sz \<Longrightarrow> alloc_result s sz' s' p"
  unfolding alloc_result_def by (meson order.trans)

lemma kmalloc_retry_spec:
  assumes "heap_ok s R" and "unat (free_pages s) < fuel"
    and sz: "16 dvd unat sz" "sz \<noteq> 0" "unat sz + 32 < 2 ^ 64"
  shows "\<exists>s' p. kmalloc_retry fuel sz s = Some (s', p) \<and> heap_ok s' R \<and>
    kernel_pml4 s' = kernel_pml4 s \<and>
    alloc_result s sz s' p"
  using assms(1,2)
proof (induction fuel arbitrary: s)
  case 0
  then show ?case by simp
next
  case (Suc fuel)
  show ?case
  proof (cases "find_idx (fits sz) (heap_blocks s)")
    case None
    obtain s1 ok where g: "heap_grow s = (s1, ok)" by fastforce
    note gs = heap_grow_spec [OF Suc.prems(1) g]
    show ?thesis
    proof (cases ok)
      case True
      then have "unat (free_pages s1) < fuel" using gs(4) Suc.prems(2) by simp
      from Suc.IH [OF gs(1) this] obtain s' p where
        h: "kmalloc_retry fuel sz s1 = Some (s', p)" "heap_ok s' R"
          "kernel_pml4 s' = kernel_pml4 s1" "alloc_result s1 sz s' p" by blast
      have "alloc_result s sz s' p" using h(4) unfolding alloc_result_def gs(2) .
      then show ?thesis using None g True gs(3) h(1-3) by simp
    next
      case False
      then show ?thesis using None g gs by (simp add: alloc_result_def)
    qed
  next
    case (Some i)
    let ?s = "s\<lparr>heap_blocks := take_block sz i (heap_blocks s)\<rparr>"
    let ?p = "b_addr (heap_blocks s ! i) + HEADER"
    have bl: "blocks_ok (heap_blocks s) (heap_end s)" using Suc.prems(1) by (simp add: heap_ok_def)
    note tb = take_block_correct [OF bl Some sz]
    have mem_b: "heap_blocks s ! i \<in> set (heap_blocks s)" using find_idx_SomeD(1) [OF Some] by simp
    have "unat ?p = unat (b_addr (heap_blocks s ! i)) + 32"
      using tiled_mem [OF _ mem_b] bl unat64_less [of "heap_end s"]
        unat_add_small [of "b_addr (heap_blocks s ! i)" 32]
      by (fastforce simp: blocks_ok_def)
    then have "?p \<noteq> 0" by (metis add_is_0 unsigned_0 zero_neq_numeral)
    moreover have "heap_ok ?s R"
      using Suc.prems(1) tb(1) vm_ok_cong [of ?s s] by (simp add: heap_ok_def)
    ultimately show ?thesis using Some tb(2,3) by (auto simp: alloc_result_def)
  qed
qed

lemma kmalloc_spec:
  assumes "heap_ok s R"
  shows "\<exists>s' p. kmalloc sz s = Some (s', p) \<and> heap_ok s' R \<and> kernel_pml4 s' = kernel_pml4 s \<and>
    alloc_result s sz s' p"
proof (cases "sz = 0 \<or> sz > UINT64_MAX - 15 - HEADER")
  case True
  then show ?thesis using assms by (simp add: kmalloc_def alloc_result_def)
next
  case False
  then have nz: "sz \<noteq> 0" "\<not> sz > UINT64_MAX - 15 - HEADER" by simp_all
  note r = round16_facts [OF nz]
  from kmalloc_retry_spec [OF assms lessI r(1,2,4)] obtain s' p where
    h: "kmalloc_retry (Suc (unat (free_pages s))) (round16 sz) s = Some (s', p)" "heap_ok s' R"
      "kernel_pml4 s' = kernel_pml4 s" "alloc_result s (round16 sz) s' p" by blast
  have "kmalloc sz s = Some (s', p)" using h(1) False unfolding kmalloc_def by (simp only: if_False)
  then show ?thesis using h(2,3) alloc_result_weaken [OF h(4) r(3)] by blast
qed

text \<open>The region behind a live pointer, header excluded, and that no two such regions meet.\<close>

lemma live_region:
  assumes "heap_ok s R" and "live s p = Some n"
  shows "unat HEAP_START + 32 \<le> unat p" and "unat p + unat n \<le> unat (heap_end s)"
    and "p AND 15 = 0" and "p \<noteq> 0"
proof -
  have t: "tiled (unat HEAP_START) (heap_blocks s) (unat (heap_end s))"
    using assms(1) by (simp add: heap_ok_def blocks_ok_def)
  obtain b where b: "b \<in> set (heap_blocks s)" "b_addr b + HEADER = p" "b_size b = n"
    using assms(2) unfolding live_iff [OF t] by blast
  note m = tiled_mem [OF t b(1)]
  have "unat (b_addr b) + 32 < 2 ^ 64" using m(2) unat64_less [of "heap_end s"] by linarith
  then have up: "unat p = unat (b_addr b) + 32" using b(2) unat_add_small [of "b_addr b" 32] by simp
  show "unat HEAP_START + 32 \<le> unat p" and "unat p + unat n \<le> unat (heap_end s)"
    using m b(3) up by simp_all
  then show "p \<noteq> 0" by auto
  have dvd: "tiled a bs e \<Longrightarrow> 16 dvd a \<Longrightarrow> c \<in> set bs \<Longrightarrow> 16 dvd unat (b_addr c)" for a bs e c
  proof (induction bs arbitrary: a)
    case Nil
    then show ?case by simp
  next
    case (Cons d ds)
    have "16 dvd a + 32 + unat (b_size d)" using Cons.prems(1,2) by (intro dvd_add) simp_all
    then show ?case using Cons by auto
  qed
  have "16 dvd unat (b_addr b)" by (rule dvd [OF t _ b(1)]) simp
  then have "16 dvd unat p" unfolding up by (intro dvd_add) simp_all
  then have "unat p mod 16 = 0" by (rule dvd_imp_mod_0)
  then show "p AND 15 = 0"
    using unat_and_mask_mod [of p 4] by (simp add: mask_eq_exp_minus_1 unat_eq_zero)
qed

lemma live_apart:
  assumes "heap_ok s R" and "live s p = Some n" and "live s q = Some k" and "p \<noteq> q"
  shows "unat p + unat n \<le> unat q \<or> unat q + unat k \<le> unat p"
proof -
  have t: "tiled (unat HEAP_START) (heap_blocks s) (unat (heap_end s))"
    using assms(1) by (simp add: heap_ok_def blocks_ok_def)
  obtain b c where b: "b \<in> set (heap_blocks s)" "b_addr b + HEADER = p" "b_size b = n"
    and c: "c \<in> set (heap_blocks s)" "b_addr c + HEADER = q" "b_size c = k"
    using assms(2,3) unfolding live_iff [OF t] by blast
  have ub: "unat p = unat (b_addr b) + 32" and uc: "unat q = unat (b_addr c) + 32"
    using tiled_mem [OF t b(1)] tiled_mem [OF t c(1)] unat64_less [of "heap_end s"]
      unat_add_small [of "b_addr b" 32] unat_add_small [of "b_addr c" 32] b(2) c(2) by auto
  obtain xs ys where bs: "heap_blocks s = xs @ b # ys" using b(1) by (auto simp: in_set_conv_decomp)
  have "c \<in> set xs \<or> c \<in> set ys" using c(1) assms(4) b(2) c(2) bs by auto
  from tiled_apart [OF t [unfolded bs] this] show ?thesis using ub uc b(3) c(3) by auto
qed

lemma kfree_spec:
  assumes ok: "heap_ok s R" and live: "live s p = Some n"
  shows "\<exists>s'. kfree p s = Some s' \<and> heap_ok s' R \<and> live s' = (live s)(p := None) \<and>
    kernel_pml4 s' = kernel_pml4 s \<and> mem s' = mem s"
proof -
  have bl: "blocks_ok (heap_blocks s) (heap_end s)" using ok by (simp add: heap_ok_def)
  have t: "tiled (unat HEAP_START) (heap_blocks s) (unat (heap_end s))"
    using bl by (simp add: blocks_ok_def)
  obtain b where b: "b \<in> set (heap_blocks s)" "\<not> b_free b" "b_addr b + HEADER = p" "b_size b = n"
    using live unfolding live_iff [OF t] by blast
  obtain i where i: "i < length (heap_blocks s)" "heap_blocks s ! i = b"
    using b(1) by (auto simp: in_set_conv_nth)
  have addr: "b_addr b = p - HEADER" using b(3) by auto
  have f: "find_idx (\<lambda>b. b_addr b = p - HEADER) (heap_blocks s) = Some i"
  proof (rule find_idx_unique [OF i(1)])
    show "b_addr (heap_blocks s ! i) = p - HEADER" using i(2) addr by simp
    fix j assume j: "j < length (heap_blocks s)" "b_addr (heap_blocks s ! j) = p - HEADER"
    have "distinct (map b_addr (heap_blocks s))" by (rule tiled_distinct [OF t])
    then show "j = i" using i j addr by (simp add: distinct_conv_nth) metis
  qed
  let ?s = "s\<lparr>heap_blocks := free_block i (heap_blocks s)\<rparr>"
  have used: "\<not> b_free (heap_blocks s ! i)" using i(2) b(2) by simp
  note fb = free_block_correct [OF bl i(1) used]
  have "p \<noteq> 0" by (rule live_region(4) [OF ok live])
  then have "kfree p s = Some ?s" using f by (simp add: kfree_def)
  moreover have "heap_ok ?s R" using ok fb(1) vm_ok_cong [of ?s s] by (simp add: heap_ok_def)
  ultimately show ?thesis using fb(2) i(2) b(3) by simp
qed

section \<open>The contract of the allocator\<close>

text \<open>
  What the clients of \<open>kmalloc\<close> and \<open>kfree\<close> rely on: a result is a fresh region of at least the
  requested size that meets no region in use, and releasing it takes exactly it away.
\<close>

locale region_alloc =
  fixes inv :: "'s \<Rightarrow> bool"
    and alloc :: "u64 \<Rightarrow> 's \<Rightarrow> ('s \<times> u64) option"
    and free :: "u64 \<Rightarrow> 's \<Rightarrow> 's option"
    and regions :: "'s \<Rightarrow> u64 \<Rightarrow> u64 option"
  assumes alloc_total: "inv s \<Longrightarrow> \<exists>s' p. alloc n s = Some (s', p)"
    and alloc_inv: "inv s \<Longrightarrow> alloc n s = Some (s', p) \<Longrightarrow> inv s'"
    and alloc_null: "inv s \<Longrightarrow> alloc n s = Some (s', 0) \<Longrightarrow> regions s' = regions s"
    and alloc_new: "inv s \<Longrightarrow> alloc n s = Some (s', p) \<Longrightarrow> p \<noteq> 0 \<Longrightarrow>
      regions s p = None \<and> (\<exists>k \<ge> n. regions s' = (regions s)(p \<mapsto> k))"
    and free_ok: "inv s \<Longrightarrow> regions s p = Some k \<Longrightarrow>
      \<exists>s'. free p s = Some s' \<and> inv s' \<and> regions s' = (regions s)(p := None)"
    and apart: "inv s \<Longrightarrow> regions s p = Some n \<Longrightarrow> regions s q = Some k \<Longrightarrow> p \<noteq> q \<Longrightarrow>
      unat p + unat n \<le> unat q \<or> unat q + unat k \<le> unat p"
begin

lemma alloc_keeps:
  assumes "inv s" and "alloc n s = Some (s', p)" and "regions s q = Some k"
  shows "regions s' q = Some k" and "q \<noteq> p \<or> p = 0"
proof -
  have "regions s' q = Some k \<and> (q \<noteq> p \<or> p = 0)"
  proof (cases "p = 0")
    case True
    then show ?thesis using alloc_null [OF assms(1)] assms(2,3) by simp
  next
    case False
    then show ?thesis using alloc_new [OF assms(1,2) False] assms(3) by auto
  qed
  then show "regions s' q = Some k" and "q \<noteq> p \<or> p = 0" by blast+
qed

text \<open>A region allocated and released leaves the regions in use as they were.\<close>

lemma alloc_free:
  assumes "inv s" and "alloc n s = Some (s', p)" and "p \<noteq> 0"
  obtains s'' where "free p s' = Some s''" "inv s''" "regions s'' = regions s"
proof -
  obtain k where k: "regions s p = None" "regions s' = (regions s)(p \<mapsto> k)"
    using alloc_new [OF assms] by blast
  have "regions s' p = Some k" using k(2) by simp
  from free_ok [OF alloc_inv [OF assms(1,2)] this] obtain s'' where
    "free p s' = Some s''" "inv s''" "regions s'' = (regions s')(p := None)" by blast
  then show thesis using that k by (simp add: fun_upd_idem)
qed

lemma new_apart:
  assumes "inv s" and "alloc n s = Some (s', p)" and "p \<noteq> 0" and "regions s q = Some k"
  shows "unat p + unat n \<le> unat q \<or> unat q + unat k \<le> unat p"
proof -
  obtain m where m: "n \<le> m" "regions s' p = Some m" using alloc_new [OF assms(1-3)] by auto
  have "regions s' q = Some k" "p \<noteq> q" using alloc_keeps [OF assms(1,2,4)] assms(3) by auto
  from apart [OF alloc_inv [OF assms(1,2)] m(2) this] show ?thesis
    using m(1) by (auto simp: word_le_nat_alt)
qed

end

lemma kmalloc_cases:
  assumes "heap_ok s R" and "kmalloc sz s = Some (s', p)"
  shows "heap_ok s' R" and "alloc_result s sz s' p" and "kernel_pml4 s' = kernel_pml4 s"
  using kmalloc_spec [OF assms(1), of sz] assms(2) by auto

interpretation heap: region_alloc "\<lambda>s. heap_ok s R" kmalloc kfree live
proof unfold_locales
  fix s :: "'a heap_state_scheme" and n
  assume ok: "heap_ok s R"
  show "\<exists>s' p. kmalloc n s = Some (s', p)" using kmalloc_spec [OF ok, of n] by blast
  show "heap_ok s' R" if "kmalloc n s = Some (s', p)" for s' p using kmalloc_cases(1) [OF ok that] .
  show "live s' = live s" if "kmalloc n s = Some (s', 0)" for s'
    using kmalloc_cases(2) [OF ok that] by (simp add: alloc_result_def)
  show "live s p = None \<and> (\<exists>k \<ge> n. live s' = (live s)(p \<mapsto> k))"
    if "kmalloc n s = Some (s', p)" "p \<noteq> 0" for s' p
    using kmalloc_cases(2) [OF ok that(1)] that(2) unfolding alloc_result_def by simp
  show "\<exists>s'. kfree p s = Some s' \<and> heap_ok s' R \<and> live s' = (live s)(p := None)"
    if "live s p = Some k" for p k
    using kfree_spec [OF ok that] by blast
  show "unat p + unat k \<le> unat q \<or> unat q + unat m \<le> unat p"
    if "live s p = Some k" "live s q = Some m" "p \<noteq> q" for p k q m
    using live_apart [OF ok that] .
qed

section \<open>Properties\<close>

text \<open>
  Starting the heap over a sound address space, if sixteen frames and the tables for them can be
  had, gives a heap of one free block that has nothing given out.
\<close>

lemma heap_init_establishes:
  assumes "vm_ok s R F" and "kernel_pml4 s \<in> R" and "heap_init s = Some s'"
  shows "heap_ok s' R \<and> live s' = Map.empty \<and>
    unat (free_pages s') + 16 \<le> unat (free_pages s)"
proof -
  obtain s1 mapped okm where m: "map_heap_pages (heap_pages HEAP_START) s = (s1, mapped, okm)"
    by (metis prod_cases3)
  have okm: "okm" and s': "s' = s1\<lparr>heap_blocks := [\<lparr>b_addr = HEAP_START, b_size = HEAP_SIZE - HEADER,
      b_free = True\<rparr>], heap_end := HEAP_START + HEAP_SIZE\<rparr>"
    using assms(3) m by (simp_all add: heap_init_def split: if_splits)
  have "inj_on (page_at HEAP_START) {0 ..< 16}"
    using page_at_inj [of HEAP_START] by (auto simp: inj_on_def)
  then have d: "distinct (heap_pages HEAP_START)" by (simp add: heap_pages_def distinct_map)
  from map_heap_pages_spec [OF assms(1,2) d m] obtain gs where
    h: "vm_ok s1 R (F \<union> set gs)" "kernel_pml4 s1 = kernel_pml4 s"
      "okm \<longrightarrow> unat (free_pages s1) + length (heap_pages HEAP_START) \<le> unat (free_pages s)"
    by blast
  have "vm_ok s' R (F \<union> set gs)" using h(1) vm_ok_cong [of s' s1] by (simp add: s')
  then show ?thesis using h(2,3) okm assms(2)
    by (auto simp: heap_ok_def s' heap_pages_def blocks_ok_def no_free_pair_def live_blocks_def)
qed

text \<open>A machine whose heap has one free block.\<close>

definition tiny_heap :: heap_state where
  "tiny_heap = \<lparr>bitmap = bitmap tiny_machine, refcounts = refcounts tiny_machine,
     total_pages = total_pages tiny_machine, free_pages = free_pages tiny_machine,
     last_alloc_index = 0, highest_address = 0x8000, hhdm_offset = hhdm_offset tiny_machine,
     mem = mem tiny_machine, kernel_pml4 = tiny_root, cr3 = 0x1000, active_cr3 = 0x1000, tlb_log = [],
     heap_blocks = [\<lparr>b_addr = HEAP_START, b_size = HEAP_SIZE - HEADER, b_free = True\<rparr>],
     heap_end = HEAP_START + HEAP_SIZE\<rparr>"

lemma tiny_heap_vm: "vm_ok tiny_heap {tiny_root} {}"
  using tiny_vm_ok vm_ok_cong [of tiny_heap tiny_machine] by (simp add: tiny_heap_def)

lemma tiny_heap_ok: "heap_ok tiny_heap {tiny_root}"
  using tiny_heap_vm by (auto simp: heap_ok_def tiny_heap_def blocks_ok_def no_free_pair_def)

text \<open>
  C3: \<^verbatim>\<open>kmalloc\<close> always returns (its retry loop ends), keeps the heap's invariant, and either gives
  null and changes nothing that is in use, or gives a 16-byte-aligned pointer, not in use before, to a
  region of at least the requested size inside the heap that meets no other region in use, and no
  other region moves or changes size.
\<close>

theorem kmalloc_correct:
  assumes "heap_ok s R"
  shows "\<exists>s' p. kmalloc n s = Some (s', p) \<and> heap_ok s' R \<and>
    (if p = 0 then live s' = live s
     else p AND 15 = 0 \<and> live s p = None \<and> (\<exists>k \<ge> n. live s' = (live s)(p \<mapsto> k)) \<and>
       unat p + unat n \<le> unat (heap_end s') \<and>
       (\<forall>q k. live s q = Some k \<longrightarrow> unat p + unat n \<le> unat q \<or> unat q + unat k \<le> unat p))"
proof -
  obtain s' p where k: "kmalloc n s = Some (s', p)" using heap.alloc_total [OF assms] by blast
  have ok: "heap_ok s' R" by (rule heap.alloc_inv [OF assms k])
  show ?thesis
  proof (cases "p = 0")
    case True
    then show ?thesis using k ok heap.alloc_null [OF assms] by auto
  next
    case False
    note new = heap.alloc_new [OF assms k False]
    then obtain m where m: "n \<le> m" "live s' p = Some m" by auto
    have "unat p + unat n \<le> unat (heap_end s')"
      using live_region(2) [OF ok m(2)] m(1) by (simp add: word_le_nat_alt)
    then show ?thesis
      using k ok False new live_region(3) [OF ok m(2)] heap.new_apart [OF assms k False] by auto
  qed
qed

lemma kmalloc_correct_witness: "\<exists>s' p. kmalloc 100 tiny_heap = Some (s', p) \<and> heap_ok s' {tiny_root}"
  using kmalloc_correct [OF tiny_heap_ok, of 100] by blast

text \<open>
  C29: releasing a pointer in use succeeds, takes exactly its region out of use and keeps the heap's
  invariant (so the freed block has been merged with its free neighbours); allocating and releasing
  leaves the regions in use as they were.
\<close>

theorem kfree_correct:
  assumes "heap_ok s R" and "live s p = Some k"
  shows "\<exists>s'. kfree p s = Some s' \<and> heap_ok s' R \<and> live s' = (live s)(p := None) \<and>
    (\<forall>n s1 q. kmalloc n s = Some (s1, q) \<and> q \<noteq> 0 \<longrightarrow>
       (\<exists>s2. kfree q s1 = Some s2 \<and> heap_ok s2 R \<and> live s2 = live s))"
  using heap.free_ok [OF assms] heap.alloc_free [OF assms(1)] by metis

lemma kfree_correct_witness:
  "\<exists>s'. kfree (HEAP_START + HEADER) (fst (the (kmalloc 100 tiny_heap))) = Some s'"
proof -
  let ?s = "fst (the (kmalloc 100 tiny_heap))"
  have k: "kmalloc 100 tiny_heap = Some (?s, HEAP_START + HEADER)"
    by (simp add: kmalloc_def tiny_heap_def fits_def round16_def)
  have "live tiny_heap = Map.empty" by (auto simp: tiny_heap_def live_blocks_def)
  then obtain n where "live ?s (HEAP_START + HEADER) = Some n"
    using kmalloc_cases(2) [OF tiny_heap_ok k] by (auto simp: alloc_result_def)
  from kfree_correct [OF kmalloc_cases(1) [OF tiny_heap_ok k] this] show ?thesis by blast
qed

end
