(* ===== verification/VmmFrame.thy ===== *)
theory VmmFrame
  imports VmmSpace
begin

text \<open>
  What the operations on page tables leave alone: they write only the frames of tables, through the
  direct map. The memory outside the direct map and the bytes of the data frames \<open>F\<close> stay as they are.
\<close>

section \<open>The direct map\<close>

definition in_direct_map :: "'a machine_scheme \<Rightarrow> u64 \<Rightarrow> bool" where
  "in_direct_map s a \<longleftrightarrow>
     unat (hhdm_offset s) \<le> unat a \<and> unat a < unat (hhdm_offset s) + total_pages s * 4096"

text \<open>A byte of the page at \<open>t\<close>, and of a frame of \<open>F\<close> as the kernel sees it.\<close>

definition in_page :: "u64 \<Rightarrow> u64 \<Rightarrow> bool" where
  "in_page t a \<longleftrightarrow> unat (a - t) < 4096"

definition in_frames :: "u64 set \<Rightarrow> 'a machine_scheme \<Rightarrow> u64 \<Rightarrow> bool" where
  "in_frames F s a \<longleftrightarrow> (\<exists>f \<in> F. in_page (f + hhdm_offset s) a)"

lemma in_page_unat:
  assumes "t AND 4095 = 0" and "in_page t a"
  shows "unat a = unat t + unat (a - t)"
proof -
  obtain q where "unat t = 4096 * q" "4096 * q + 4096 \<le> 2 ^ 64" using assms(1) by (rule page_aligned)
  then have "unat t + unat (a - t) < 2 ^ 64" using assms(2) unfolding in_page_def by linarith
  then show ?thesis using unat_add_small [of t "unat (a - t)"] by simp
qed

lemma in_page_unique:
  assumes "t AND 4095 = 0" "u AND 4095 = 0" and "in_page t a" "in_page u a"
  shows "t = u"
proof -
  obtain q r where qr: "unat t = 4096 * q" "unat u = 4096 * r"
    using page_aligned [OF assms(1)] page_aligned [OF assms(2)] by metis
  have "unat t div 4096 = unat a div 4096" "unat u div 4096 = unat a div 4096"
    using in_page_unat [OF assms(1,3)] in_page_unat [OF assms(2,4)] assms(3,4) qr
    by (simp_all add: in_page_def)
  then show ?thesis using qr by (simp add: word_unat_eq_iff)
qed

definition mem_frame :: "u64 set \<Rightarrow> 'a machine_scheme \<Rightarrow> 'a machine_scheme \<Rightarrow> bool" where
  "mem_frame F s s' \<longleftrightarrow> hhdm_offset s' = hhdm_offset s \<and> total_pages s' = total_pages s \<and>
     (\<forall>a. \<not> in_direct_map s a \<or> in_frames F s a \<longrightarrow> mem s' a = mem s a)"

definition table_slot :: "u64 set \<Rightarrow> 'a machine_scheme \<Rightarrow> u64 \<Rightarrow> bool" where
  "table_slot F s p \<longleftrightarrow> (\<exists>t i. i < 512 \<and> p = slot_at t i \<and> t AND 4095 = 0 \<and>
     unat (hhdm_offset s) \<le> unat t \<and> unat t + 4096 \<le> unat (hhdm_offset s) + total_pages s * 4096 \<and>
     (\<forall>f \<in> F. (f + hhdm_offset s) AND 4095 = 0 \<and> f + hhdm_offset s \<noteq> t))"

lemma mem_frame_refl [simp]: "mem_frame F s s"
  by (simp add: mem_frame_def)

lemma mem_frame_trans: "mem_frame F s t \<Longrightarrow> mem_frame F t u \<Longrightarrow> mem_frame F s u"
  by (simp add: mem_frame_def in_direct_map_def in_frames_def)

lemma mem_frame_mono: "mem_frame F s s' \<Longrightarrow> F' \<subseteq> F \<Longrightarrow> mem_frame F' s s'"
  unfolding mem_frame_def in_frames_def by blast

lemma mem_frame_same:
  "hhdm_offset s' = hhdm_offset s \<Longrightarrow> total_pages s' = total_pages s \<Longrightarrow> mem s' = mem s \<Longrightarrow> mem_frame F s s'"
  by (simp add: mem_frame_def)

lemma table_slot_cong:
  "hhdm_offset s' = hhdm_offset s \<Longrightarrow> total_pages s' = total_pages s \<Longrightarrow> table_slot F s' = table_slot F s"
  by (simp add: table_slot_def fun_eq_iff)

lemma table_slot_frame: "mem_frame F s s' \<Longrightarrow> table_slot F s' = table_slot F s"
  by (rule table_slot_cong) (simp_all add: mem_frame_def)

lemma frame_put:
  assumes "table_slot F s p"
  shows "mem_frame F s (put64 p v s)"
proof -
  obtain t i where p: "i < 512" "p = slot_at t i" "t AND 4095 = 0"
    "unat (hhdm_offset s) \<le> unat t" "unat t + 4096 \<le> unat (hhdm_offset s) + total_pages s * 4096"
    and F: "\<forall>f \<in> F. (f + hhdm_offset s) AND 4095 = 0 \<and> f + hhdm_offset s \<noteq> t"
    using assms by (auto simp: table_slot_def)
  have up: "unat p = unat t + 8 * i" using unat_slot_at [OF p(3,1)] p(2) by simp
  have pt: "p - t = of_nat (8 * i)" using p(2) by (simp add: slot_at_def)
  have "mem (put64 p v s) a = mem s a" if out: "\<not> in_direct_map s a \<or> in_frames F s a" for a
  proof -
    have "\<not> unat (a - p) < 8"
    proof
      assume near: "unat (a - p) < 8"
      have "a - t = (a - p) + of_nat (8 * i)" using pt by (simp add: algebra_simps)
      moreover have "unat ((a - p) + of_nat (8 * i)) = unat (a - p) + 8 * i"
        using near p(1) by (intro unat_add_small) simp
      ultimately have "unat (a - t) = unat (a - p) + 8 * i" by (simp only:)
      then have page: "in_page t a" using near p(1) by (simp add: in_page_def)
      then have "in_direct_map s a"
        using in_page_unat [OF p(3) page] p(4,5) by (simp add: in_direct_map_def in_page_def)
      then obtain f where "f \<in> F" "in_page (f + hhdm_offset s) a" using out by (auto simp: in_frames_def)
      then show False using in_page_unique [OF p(3) _ page] F by metis
    qed
    then show ?thesis by (simp add: put64_def st64_other)
  qed
  then show ?thesis by (simp add: mem_frame_def)
qed

lemma in_window:
  assumes hh: "hhdm_offset s AND 4095 = 0" "unat (hhdm_offset s) + total_pages s * 4096 \<le> 2 ^ 64"
    and f: "f AND 4095 = 0" "addr_page f < total_pages s" and i: "i < 512"
    and F: "\<forall>g \<in> F. g AND 4095 = 0 \<and> g \<noteq> f"
  shows "table_slot F s (slot_at (f + hhdm_offset s) i)"
proof -
  obtain q where q: "unat f = 4096 * q" using f(1) by (rule page_aligned)
  then have "q < total_pages s" using f(2) by (simp add: addr_page_def)
  then have le: "4096 * q + 4096 \<le> total_pages s * 4096" by simp
  moreover have "unat (hhdm_offset s + f) = unat (hhdm_offset s) + unat f"
  proof -
    have "unat (hhdm_offset s) + unat f < 2 ^ 64" using le hh(2) q by linarith
    then show ?thesis using unat_add_small [of "hhdm_offset s" "unat f"] by simp
  qed
  moreover have "(f + hhdm_offset s) AND 4095 = 0" using f(1) hh(1) by (rule page_add_aligned)
  moreover have "\<forall>g \<in> F. (g + hhdm_offset s) AND 4095 = 0 \<and> g + hhdm_offset s \<noteq> f + hhdm_offset s"
    using F page_add_aligned [OF _ hh(1)] by simp
  ultimately show ?thesis using i q unfolding table_slot_def
    by (intro exI [of _ "f + hhdm_offset s"] exI [of _ i]) (simp add: add.commute)
qed

lemma role_slot:
  assumes inv: "pt_inv s \<rho>" and F: "data_frames s \<rho> F" and t: "t \<in> dom \<rho>" and i: "i < 512"
  shows "table_slot F s (slot_at t i)"
proof -
  note d = pt_inv_dom [OF inv t]
  have hh: "hhdm_offset s AND 4095 = 0" "unat (hhdm_offset s) + total_pages s * 4096 \<le> 2 ^ 64"
    using pt_inv_global [OF inv] by blast+
  have "(t - hhdm_offset s) AND 4095 = 0" using d(1) hh(1) page_sub_aligned by blast
  moreover have "addr_page (t - hhdm_offset s) < total_pages s"
    using d(4) .
  moreover have "\<forall>g \<in> F. g AND 4095 = 0 \<and> g \<noteq> t - hhdm_offset s" using F t by (auto simp: data_frames_def)
  ultimately show ?thesis using in_window [OF hh _ _ i, of "t - hhdm_offset s"] by simp
qed

lemma frame_puts:
  "(\<And>i. i \<in> set is \<Longrightarrow> table_slot F s (f i)) \<Longrightarrow> mem_frame F s (fold (\<lambda>i. put64 (f i) v) is s)"
proof (induction "is" arbitrary: s)
  case Nil
  then show ?case by simp
next
  case (Cons i "is")
  have 1: "mem_frame F s (put64 (f i) v s)" using Cons.prems by (intro frame_put) simp
  have "mem_frame F (put64 (f i) v s) (fold (\<lambda>i. put64 (f i) v) is (put64 (f i) v s))"
    by (rule Cons.IH) (simp add: table_slot_frame [OF 1] Cons.prems)
  then show ?case using mem_frame_trans [OF 1] by simp
qed

lemma frame_free: "mem_frame F s (foldl pmm_free_page s as)"
  by (rule mem_frame_same) simp_all

lemma frame_alloc: "pmm_alloc_page s = (s', a) \<Longrightarrow> mem_frame F s s'"
  using pmm_alloc_page_frame [of s s' a] by (intro mem_frame_same) simp_all

lemma frame_shootdown: "mem_frame F s (tlb_shootdown p v s)"
  by (rule mem_frame_same) (simp_all add: tlb_shootdown_def)

section \<open>Page-table operations write tables only\<close>

lemma map_walk_frame:
  assumes "pmm_inv s" and "pt_inv s \<rho>" and "\<rho> table = Some (l, sp, pre)"
    and "map_walk l va flags s table created = (s', created', res)" and "data_frames s \<rho> F"
  shows "mem_frame F s s' \<and> (\<forall>p \<in> set created'. p \<in> set created \<or> table_slot F s p)"
  using assms
proof (induction l arbitrary: s \<rho> table sp pre created)
  case 0
  then show ?case by simp
next
  case (Suc l)
  let ?i = "index_at va (Suc l)"
  let ?slot = "slot_at table ?i"
  let ?e = "get64 s ?slot"
  have sl: "table_slot F s ?slot" by (rule role_slot [OF Suc.prems(2,5) domI [of \<rho>, OF Suc.prems(3)]]) simp
  show ?case
  proof (cases "has ?e PTE_PRESENT")
    case present: True
    show ?thesis
    proof (cases "ancestor_blocks ?e flags")
      case True
      then show ?thesis using Suc.prems(4) present by (simp add: Let_def)
    next
      case False
      then have rest: "map_walk l va flags s (table_at s ?e) created = (s', created', res)"
        using Suc.prems(4) present by (simp_all add: Let_def)
      have "links ?e" using present False by (simp add: links_def ancestor_blocks_def)
      then have "\<rho> (table_at s ?e) = Some (child_role (Suc l, sp, pre) ?i (table_at s ?e))"
        using pt_invD(6) [OF Suc.prems(2,3), of ?i] by simp
      then obtain sp1 pre1 where "\<rho> (table_at s ?e) = Some (l, sp1, pre1)"
        using child_role_level by metis
      from Suc.IH [OF Suc.prems(1,2) this rest Suc.prems(5)] show ?thesis .
    qed
  next
    case absent: False
    obtain s1 f where al: "pmm_alloc_page s = (s1, f)" by fastforce
    show ?thesis
    proof (cases "f = 0")
      case True
      then show ?thesis using Suc.prems(4) absent al frame_alloc [OF al] by (simp add: Let_def)
    next
      case False
      define N where "N = table_at s1 f"
      define e where "e = f OR PTE_PRESENT OR PTE_WRITE OR PTE_USER"
      define s2 where "s2 = put64 ?slot e (zero_table N s1)"
      define \<rho>1 where "\<rho>1 = \<rho>(N \<mapsto> child_role (Suc l, sp, pre) ?i N)"
      note add = add_table [OF Suc.prems(1,2,3) _ absent al False N_def e_def s2_def \<rho>1_def, simplified]
      have rest: "map_walk l va flags s2 N (?slot # created) = (s', created', res)"
        using Suc.prems(4) absent al False add(6)
        unfolding s2_def e_def by (simp add: Let_def N_def [symmetric])
      obtain sp1 pre1 where role: "\<rho>1 N = Some (l, sp1, pre1)"
        unfolding \<rho>1_def using child_role_level by (metis fun_upd_same)
      have keep: "hhdm_offset s2 = hhdm_offset s" "\<And>b. frame_busy s b \<Longrightarrow> frame_busy s2 b"
        using add(4) by (auto simp: grown_def)
      have F1: "data_frames s2 \<rho>1 F"
      proof (rule data_frames_mono [OF Suc.prems(5) keep])
        fix t assume "t \<in> dom \<rho>1 - dom \<rho>"
        then have "t - hhdm_offset s = f"
          using pmm_alloc_page_frame(2) [OF al] link_entry(1) [of f]
            frame_word [OF _ alloc_busy(4) [OF Suc.prems(1) al False]] pmm_alloc_contract(6) [OF Suc.prems(1) al] False
            entry_parts(1) [of f 0]
          by (auto simp: \<rho>1_def N_def table_at_def split: if_splits)
        then show "\<not> frame_busy s (t - hhdm_offset s)" using alloc_busy(1) [OF Suc.prems(1) al False] by simp
      qed
      have "N \<in> dom \<rho>1" by (simp add: \<rho>1_def)
      then have slN2: "table_slot F s2 (slot_at N i)" if "i < 512" for i
        using role_slot [OF add(2) F1] that by blast
      have f1: "mem_frame F s s1" by (rule frame_alloc [OF al])
      have "hhdm_offset s2 = hhdm_offset s1" "total_pages s2 = total_pages s1"
        by (simp_all add: s2_def zero_table_def)
      then have slN: "table_slot F s1 (slot_at N i)" if "i < 512" for i
        using slN2 [OF that] table_slot_cong [of s2 s1] by simp
      have f2: "mem_frame F s1 (zero_table N s1)"
        unfolding zero_table_def by (rule frame_puts) (simp add: slN)
      have f12: "mem_frame F s (zero_table N s1)" by (rule mem_frame_trans [OF f1 f2])
      then have "mem_frame F (zero_table N s1) s2"
        unfolding s2_def using sl table_slot_frame [OF f12] by (intro frame_put) simp
      then have fs2: "mem_frame F s s2" by (rule mem_frame_trans [OF f12])
      from Suc.IH [OF add(1,2) role rest F1] show ?thesis
        using mem_frame_trans [OF fs2] table_slot_frame [OF fs2] sl by auto
    qed
  qed
qed

lemma unlink_frame:
  "(\<forall>p \<in> set ps. table_slot F s p) \<Longrightarrow> mem_frame F s (fst (unlink_slots ps s))"
proof (induction ps arbitrary: s)
  case Nil
  then show ?case by simp
next
  case (Cons p ps)
  have 1: "mem_frame F s (put64 p 0 s)" using Cons.prems by (intro frame_put) simp
  have "mem_frame F (put64 p 0 s) (fst (unlink_slots ps (put64 p 0 s)))"
    by (rule Cons.IH) (use Cons.prems table_slot_frame [OF 1] in simp)
  then show ?case using mem_frame_trans [OF 1]
    by (cases "unlink_slots ps (put64 p 0 s)") (simp add: Let_def)
qed

lemma rollback_frame:
  assumes "\<forall>p \<in> set ps. table_slot F s p"
  shows "mem_frame F s (map_rollback pml4 ps s)"
proof -
  obtain s1 r where u: "unlink_slots ps s = (s1, r)" by fastforce
  have 1: "mem_frame F s s1" using unlink_frame [OF assms] u by simp
  then have 2: "mem_frame F s (if r \<noteq> [] then tlb_shootdown pml4 UINT64_MAX s1 else s1)"
    using mem_frame_trans [OF 1 frame_shootdown] by simp
  show ?thesis using mem_frame_trans [OF 2 frame_free] by (simp add: map_rollback_def u Let_def)
qed

lemma map_page_frame:
  assumes "pmm_inv s" and "pt_inv s \<rho>" and "\<rho> pml4 = Some (3, pml4, 0)" and F: "data_frames s \<rho> F"
  shows "mem_frame F s (fst (map_page pml4 va phys flags flush s))"
proof (cases "map_page_args_ok pml4 va phys flags")
  case False
  then show ?thesis by (simp add: map_page_def)
next
  case args: True
  obtain s1 created res where w: "map_walk 3 va flags s pml4 [] = (s1, created, res)"
    by (metis prod_cases3)
  have 1: "mem_frame F s s1" and c: "\<forall>p \<in> set created. table_slot F s p"
    using map_walk_frame [OF assms(1-3) w F] by auto
  have "\<forall>p \<in> set created. table_slot F s1 p" using c table_slot_frame [OF 1] by simp
  then have rb: "mem_frame F s (map_rollback pml4 created s1)"
    using rollback_frame mem_frame_trans [OF 1] by blast
  show ?thesis
  proof (cases res)
    case None
    then show ?thesis using args w rb by (simp add: map_page_def)
  next
    case (Some T)
    let ?leaf = "slot_at T (index_at va 0)"
    from map_walk_spec [OF assms(1-3) w] Some obtain \<rho>' a b where
      r: "pt_inv s1 \<rho>'" "\<rho>' T = Some (0, a, b)" "grown \<rho> s s1 created"
        "\<forall>t \<in> dom \<rho>' - dom \<rho>. \<not> frame_busy s (t - hhdm_offset s)" by auto
    have "data_frames s1 \<rho>' F"
      by (rule data_frames_mono [OF F]) (use r(3,4) in \<open>auto simp: grown_def\<close>)
    then have "table_slot F s1 ?leaf" using role_slot [OF r(1) _ domI [of \<rho>', OF r(2)]] by simp
    then have 2: "mem_frame F s (put64 ?leaf v s1)" for v using frame_put mem_frame_trans [OF 1] by blast
    then show ?thesis
      using args w Some rb mem_frame_trans [OF 2 frame_shootdown] by (simp add: map_page_def Let_def)
  qed
qed

lemma prune_frame:
  "(\<forall>p \<in> set path. table_slot F s (fst p)) \<Longrightarrow> mem_frame F s (fst (prune va path s retired))"
proof (induction va path s retired rule: prune.induct)
  case (1 va s retired)
  then show ?case by simp
next
  case (2 va slot table path s retired)
  let ?s = "put64 slot 0 s"
  show ?case
  proof (cases "(path = [] \<and> va \<ge> UPPER_HALF) \<or> \<not> empty_table s table")
    case True
    then show ?thesis by auto
  next
    case False
    have 1: "mem_frame F s ?s" using "2.prems" by (intro frame_put) simp
    have "\<forall>p \<in> set path. table_slot F ?s (fst p)" using "2.prems" table_slot_frame [OF 1] by simp
    then have "mem_frame F ?s (fst (prune va path ?s (retired @ [vmm_pte_address (get64 s slot)])))"
      using "2.IH" False by blast
    then show ?thesis using False mem_frame_trans [OF 1] by (auto simp: Let_def)
  qed
qed

lemma path_slots:
  assumes "pt_inv s \<rho>" and "path_ok s \<rho> va l table ps" and F: "data_frames s \<rho> F"
  shows "\<forall>p \<in> set ps. table_slot F s (fst p)"
  using assms(2)
proof (induction ps arbitrary: l table)
  case Nil
  then show ?case by simp
next
  case (Cons p ps)
  from Cons.prems obtain T r where h: "fst p = slot_at T (index_at va (Suc l))"
    "\<rho> T = Some (Suc l, r)" "path_ok s \<rho> va (Suc l) T ps" by (cases p) auto
  then show ?case using role_slot [OF assms(1) F domI [of \<rho>, OF h(2)] index_at_less] Cons.IH [OF h(3)] by simp
qed

lemma unmap_page_frame:
  assumes inv: "pt_inv s \<rho>" and root: "\<rho> pml4 = Some (3, pml4, 0)" and F: "data_frames s \<rho> F"
  shows "mem_frame F s (fst (vmm_unmap_page_in pml4 va s))"
proof (cases "pml4 = 0 \<or> \<not> canonical va \<or> va AND 4095 \<noteq> 0")
  case True
  then show ?thesis by (simp add: vmm_unmap_page_in_def)
next
  case args: False
  show ?thesis
  proof (cases "walk_path 3 s pml4 va")
    case None
    then show ?thesis by (simp add: vmm_unmap_page_in_def)
  next
    case (Some path)
    have ne: "path \<noteq> []" using Some by (auto simp: numeral_3_eq_3 Let_def split: if_splits)
    let ?T = "snd (last path)"
    let ?leaf = "slot_at ?T (index_at va 0)"
    have "walk_to 3 s pml4 va = Some ?T" using walk_path_to [OF inv root, of va] Some ne by simp
    then obtain a b where T: "\<rho> ?T = Some (0, a, b)" using walk3_role [OF inv root] by metis
    have 1: "mem_frame F s (put64 ?leaf 0 s)"
      by (rule frame_put [OF role_slot [OF inv F domI [of \<rho>, OF T] index_at_less]])
    have "path_ok s \<rho> va 0 ?T (rev path)" using walk_path_ok [OF inv root Some, of "[]"] ne by simp
    then have "\<forall>p \<in> set (rev path). table_slot F (put64 ?leaf 0 s) (fst p)"
      using path_slots [OF inv _ F] table_slot_frame [OF 1] by simp
    from mem_frame_trans [OF 1 prune_frame [OF this]]
    have 2: "mem_frame F s (fst (prune va (rev path) (put64 ?leaf 0 s) []))" for va .
    obtain s2 r where pr: "prune va (rev path) (put64 ?leaf 0 s) [] = (s2, r)" by fastforce
    have "mem_frame F s s2" using 2 [of va] pr by simp
    then have "mem_frame F s (foldl pmm_free_page (tlb_shootdown pml4 v s2) as)" for v as
      using mem_frame_trans frame_shootdown frame_free by blast
    then show ?thesis using Some pr by (simp add: vmm_unmap_page_in_def Let_def)
  qed
qed


section \<open>What user space and the data frames see\<close>

text \<open>
  The kernel's own mappings and allocations leave this alone: the bytes and the reference counts of
  the frames \<open>F\<close>, and every user translation of the address spaces \<open>R\<close>.
\<close>

definition user_kept :: "u64 set \<Rightarrow> u64 set \<Rightarrow> 'a machine_scheme \<Rightarrow> 'a machine_scheme \<Rightarrow> bool" where
  "user_kept R F s s' \<longleftrightarrow> mem_frame F s s' \<and> (\<forall>f \<in> F. frame_refs s' f = frame_refs s f) \<and>
     (\<forall>r \<in> R. \<forall>va < USER_TOP. pt_lookup s' r va = pt_lookup s r va)"

lemma user_keptD:
  assumes "user_kept R F s s'"
  shows "mem_frame F s s'" and "f \<in> F \<Longrightarrow> frame_refs s' f = frame_refs s f"
    and "r \<in> R \<Longrightarrow> va < USER_TOP \<Longrightarrow> pt_lookup s' r va = pt_lookup s r va"
  using assms by (auto simp: user_kept_def)

lemma user_kept_refl [simp]: "user_kept R F s s"
  by (simp add: user_kept_def)

lemma user_kept_trans: "user_kept R F s t \<Longrightarrow> user_kept R F t u \<Longrightarrow> user_kept R F s u"
  using mem_frame_trans by (simp add: user_kept_def) blast

lemma user_kept_mono: "user_kept R F s s' \<Longrightarrow> F' \<subseteq> F \<Longrightarrow> user_kept R F' s s'"
  using mem_frame_mono unfolding user_kept_def by blast

lemma vm_ok_root: "vm_ok s R F \<Longrightarrow> r \<in> R \<Longrightarrow>
    \<exists>\<rho>. pmm_inv s \<and> pt_inv s \<rho> \<and> \<rho> r = Some (3, r, 0) \<and> data_frames s \<rho> F"
  by (auto simp: vm_ok_def)

lemma user_kept_alloc:
  assumes ok: "vm_ok s R F" and al: "pmm_alloc_page s = (s', a)"
  shows "user_kept R F s s'"
proof (cases "a = 0")
  case True
  then show ?thesis using pmm_alloc_contract(4) [OF vm_ok_pmm [OF ok] al] by simp
next
  case False
  note ct = pmm_alloc_contract [OF vm_ok_pmm [OF ok] al] and fr = pmm_alloc_page_frame [OF al]
  have "frame_refs s' f = frame_refs s f" if "f \<in> F" for f
    using ct(3) False vm_ok_alloc(2) [OF ok al False] that by auto
  then show ?thesis
    using frame_alloc [OF al] pt_lookup_cong [OF fr(1,2)] by (simp add: user_kept_def)
qed

lemma user_kept_free:
  assumes ok: "vm_ok s R F" and f: "f \<notin> F"
  shows "user_kept R F s (pmm_free_page s f)"
proof -
  have "frame_refs (pmm_free_page s f) g = frame_refs s g" if "g \<in> F" for g
    using pmm_free_page_inv(2) [OF vm_ok_pmm [OF ok]] f that by auto
  then show ?thesis
    using frame_free [of F s "[f]"] pt_lookup_cong [of "pmm_free_page s f" s] by (simp add: user_kept_def)
qed

lemma user_page_below: "vb < USER_TOP \<Longrightarrow> USER_TOP \<le> va \<Longrightarrow> vb AND NOT 4095 \<noteq> va"
  using word_and_le2 [of vb "NOT 4095"] by auto

lemma user_kept_map:
  assumes ok: "vm_ok s R F" and p: "pml4 \<in> R" and va: "USER_TOP \<le> va"
    and m: "map_page pml4 va phys flags flush s = (s', r)"
  shows "user_kept R F s s'"
proof -
  obtain \<rho> where h: "pmm_inv s" "pt_inv s \<rho>" "\<rho> pml4 = Some (3, pml4, 0)" "data_frames s \<rho> F"
    using vm_ok_root [OF ok p] by blast
  have 1: "mem_frame F s s'" using map_page_frame [OF h, of va phys flags flush] m by simp
  note k = map_page_keeps [OF ok p m]
  have 2: "frame_refs s' f = frame_refs s f" if "f \<in> F" for f
    using k(12) that h(4) by (auto simp: data_frames_def)
  have 3: "pt_lookup s' q vb = pt_lookup s q vb" if "q \<in> R" "vb < USER_TOP" for q vb
    using k(4) k(8) user_page_below [OF that(2) va] that(1) by (cases r) blast+
  show ?thesis using 1 2 3 by (simp add: user_kept_def)
qed

lemma user_kept_unmap:
  assumes ok: "vm_ok s R F" and p: "pml4 \<in> R" and va: "USER_TOP \<le> va" "canonical va" "va AND 4095 = 0"
    and u: "vmm_unmap_page_in pml4 va s = (s', phys)"
  shows "user_kept R F s s'"
proof -
  obtain \<rho> where h: "pmm_inv s" "pt_inv s \<rho>" "\<rho> pml4 = Some (3, pml4, 0)" "data_frames s \<rho> F"
    using vm_ok_root [OF ok p] by blast
  have 1: "mem_frame F s s'" using unmap_page_frame [OF h(2-4), of va] u by simp
  note k = unmap_page_main [OF ok p u va(2,3)]
  have 2: "frame_refs s' f = frame_refs s f" if "f \<in> F" for f by (rule k(6) [OF that])
  have 3: "pt_lookup s' q vb = pt_lookup s q vb" if "q \<in> R" "vb < USER_TOP" for q vb
    using k(4) user_page_below [OF that(2) va(1)] that(1) by blast
  show ?thesis using 1 2 3 by (simp add: user_kept_def)
qed

end
