(* ===== verification/HeapMem.thy ===== *)
theory HeapMem
  imports Heap VmmFrame
begin

text \<open>
  The bytes behind the heap's regions. Page-table operations write only the frames of tables, through
  the direct map; when the heap's addresses lie outside the direct map, the contents of every region
  in use survive the growth of the heap, and \<^verbatim>\<open>krealloc\<close> moves a region with its contents.
\<close>

section \<open>What the heap leaves alone\<close>

lemma map_heap_pages_kept:
  assumes "vm_ok s R F" and "kernel_pml4 s \<in> R" and "\<forall>va \<in> set vas. USER_TOP \<le> va"
  shows "user_kept R F s (fst (map_heap_pages vas s))"
  using assms
proof (induction vas arbitrary: s)
  case Nil
  then show ?case by simp
next
  case (Cons va vas)
  obtain s1 f where al: "pmm_alloc_page s = (s1, f)" by fastforce
  have 1: "user_kept R F s s1" by (rule user_kept_alloc [OF Cons.prems(1) al])
  obtain s2 okm where m: "vmm_map_page va f 3 s1 = (s2, okm)" by fastforce
  then have mp: "map_page (kernel_pml4 s) va f 3 True s1 = (s2, okm)"
    by (simp add: vmm_map_page_def vmm_map_page_in_def pmm_alloc_page_frame(3) [OF al])
  show ?case
  proof (cases "f = 0")
    case True
    then show ?thesis using al 1 by simp
  next
    case False
    note v1 = vm_ok_alloc [OF Cons.prems(1) al False]
    have v1': "vm_ok s1 R F" by (rule vm_ok_subset [OF v1(1)]) auto
    have v2: "vm_ok s2 R F" and K2: "kernel_pml4 s2 \<in> R"
      using map_page_keeps(1,2) [OF v1' Cons.prems(2) mp] pmm_alloc_page_frame(3) [OF al] Cons.prems(2)
      by simp_all
    have "USER_TOP \<le> va" using Cons.prems(3) by simp
    then have 2: "user_kept R F s s2"
      using user_kept_trans [OF 1 user_kept_map [OF v1' Cons.prems(2) _ mp]] by simp
    have 3: "user_kept R F s (fst (map_heap_pages vas s2))"
      by (rule user_kept_trans [OF 2 Cons.IH [OF v2 K2]]) (use Cons.prems(3) in simp)
    have "user_kept R F s (pmm_free_page s2 f)"
      by (rule user_kept_trans [OF 2 user_kept_free [OF v2 v1(2)]])
    then show ?thesis using 3 al False m by (cases "map_heap_pages vas s2"; cases okm) simp_all
  qed
qed

lemma unmap_heap_pages_kept:
  assumes "vm_ok s R (F \<union> set gs)" and "kernel_pml4 s \<in> R"
    and "pages_held s vas gs" and "set gs \<inter> F = {}" and "\<forall>va \<in> set vas. USER_TOP \<le> va"
  shows "user_kept R F s (fold unmap_heap_page vas s)"
  using assms
proof (induction vas arbitrary: s gs)
  case Nil
  then show ?case by simp
next
  case (Cons va vas)
  obtain g hs where gs: "gs = g # hs"
    using Cons.prems(3) by (cases gs) (auto simp: pages_held_def)
  have va: "USER_TOP \<le> va" "canonical va" "va AND 4095 = 0"
    and e: "\<exists>e. pt_lookup s (kernel_pml4 s) va = Some e \<and> vmm_pte_address e = g" and gF: "g \<notin> F"
    using Cons.prems(3,4,5) gs by (auto simp: pages_held_def)
  obtain s1 phys where u: "vmm_unmap_page va s = (s1, phys)" by fastforce
  then have u': "vmm_unmap_page_in (kernel_pml4 s) va s = (s1, phys)" by (simp add: vmm_unmap_page_def)
  have vF: "vm_ok s R F" by (rule vm_ok_subset [OF Cons.prems(1)]) auto
  note um = unmap_page_main [OF vF Cons.prems(2) u' va(2,3)]
  have "phys = g" using um(3) e by auto
  moreover have "user_kept R F s s1" by (rule user_kept_unmap [OF vF Cons.prems(2) va u'])
  ultimately have 1: "user_kept R F s (unmap_heap_page va s)"
    using user_kept_trans [OF _ user_kept_free [OF um(1) gF]] u by (simp add: unmap_heap_page_def)
  note st = unmap_heap_page_spec [OF Cons.prems(1)[unfolded gs] Cons.prems(2) Cons.prems(3)[unfolded gs]
      Cons.prems(4)[unfolded gs]]
  have "user_kept R F (unmap_heap_page va s) (fold unmap_heap_page vas (unmap_heap_page va s))"
    using Cons.IH [OF st(1) _ st(3)] st(2) Cons.prems(2,4,5) gs by auto
  then show ?case using user_kept_trans [OF 1] by simp
qed

lemma heap_pages_high:
  assumes bl: "blocks_ok bs e" and room: "unat e + 65536 < 2 ^ 64"
  shows "\<forall>va \<in> set (heap_pages e). USER_TOP \<le> va"
proof
  fix va assume "va \<in> set (heap_pages e)"
  then obtain i where i: "i < 16" "va = page_at e i" by (auto simp: heap_pages_def)
  have "tiled (unat HEAP_START) bs (unat e)" using bl by (simp add: blocks_ok_def)
  from tiled_le [OF this] have "unat HEAP_START \<le> unat e" by simp
  moreover have "unat va = unat e + i * 4096"
    using i room unat_add_small [of e "i * 4096"] by (simp add: page_at_def)
  ultimately show "USER_TOP \<le> va" by (simp add: word_le_nat_alt)
qed

lemma heap_grow_kept:
  assumes ok: "heap_ok s R" and vm: "vm_ok s R F"
  shows "vm_ok (fst (heap_grow s)) R F" and "user_kept R F s (fst (heap_grow s))"
proof -
  have K: "kernel_pml4 s \<in> R" and bl: "blocks_ok (heap_blocks s) (heap_end s)"
    using ok by (auto simp: heap_ok_def)
  obtain s1 mapped okm where m: "map_heap_pages (heap_pages (heap_end s)) s = (s1, mapped, okm)"
    by (metis prod_cases3)
  have "vm_ok (fst (heap_grow s)) R F \<and> user_kept R F s (fst (heap_grow s))"
  proof (cases "heap_end s > UINT64_MAX - HEAP_SIZE")
    case True
    then show ?thesis using vm by (simp add: heap_grow_def)
  next
    case room: False
    then have e: "unat (heap_end s) + 65536 < 2 ^ 64" by (simp add: word_less_nat_alt)
    note high = heap_pages_high [OF bl e]
    have 1: "user_kept R F s s1" using map_heap_pages_kept [OF vm K high] m by simp
    have "inj_on (page_at (heap_end s)) {0 ..< 16}"
      using page_at_inj [of "heap_end s"] e by (auto simp: inj_on_def)
    then have d: "distinct (heap_pages (heap_end s))" by (simp add: heap_pages_def distinct_map)
    from map_heap_pages_spec [OF vm K d m] obtain gs where
      h: "vm_ok s1 R (F \<union> set gs)" "set gs \<inter> F = {}" "kernel_pml4 s1 = kernel_pml4 s"
        "pages_held s1 mapped gs" "set mapped \<subseteq> set (heap_pages (heap_end s))" by blast
    have v1: "vm_ok s1 R F" by (rule vm_ok_subset [OF h(1)]) auto
    show ?thesis
    proof (cases okm)
      case True
      have g: "fst (heap_grow s) = s1\<lparr>heap_blocks := append_block (heap_end s1) (heap_blocks s1),
          heap_end := heap_end s1 + HEAP_SIZE\<rparr>"
        using room m True by (simp add: heap_grow_def)
      have "vm_ok (fst (heap_grow s)) R F" unfolding g using v1 by (subst vm_ok_cong [of _ s1]) simp_all
      moreover have "user_kept R F s1 (s1\<lparr>heap_blocks := b, heap_end := e\<rparr>)" for b e
        using mem_frame_same [of "s1\<lparr>heap_blocks := b, heap_end := e\<rparr>" s1] pt_lookup_cong [of "s1\<lparr>heap_blocks := b, heap_end := e\<rparr>" s1]
          pmm_facts_cong(2) [of "s1\<lparr>heap_blocks := b, heap_end := e\<rparr>" s1]
        by (simp add: user_kept_def)
      ultimately show ?thesis unfolding g using user_kept_trans [OF 1] by blast
    next
      case False
      then have g: "fst (heap_grow s) = fold unmap_heap_page (rev mapped) s1"
        using room m by (simp add: heap_grow_def)
      have K1: "kernel_pml4 s1 \<in> R" using K h(3) by simp
      have gs: "vm_ok s1 R (F \<union> set (rev gs))" "set (rev gs) \<inter> F = {}" using h(1,2) by simp_all
      note um = unmap_heap_pages_spec [OF gs(1) K1 pages_held_rev [OF h(4)] gs(2)]
      have "user_kept R F s1 (fold unmap_heap_page (rev mapped) s1)"
        by (rule unmap_heap_pages_kept [OF gs(1) K1 pages_held_rev [OF h(4)] gs(2)]) (use high h(5) in auto)
      then show ?thesis unfolding g using um(1) user_kept_trans [OF 1] by blast
    qed
  qed
  then show "vm_ok (fst (heap_grow s)) R F" and "user_kept R F s (fst (heap_grow s))" by blast+
qed

lemma heap_fields_kept:
  assumes "vm_ok s R F"
  shows "vm_ok (s\<lparr>heap_blocks := bs\<rparr>) R F" and "user_kept R F s (s\<lparr>heap_blocks := bs\<rparr>)"
proof -
  show "vm_ok (s\<lparr>heap_blocks := bs\<rparr>) R F" using assms by (subst vm_ok_cong [of _ s]) simp_all
  show "user_kept R F s (s\<lparr>heap_blocks := bs\<rparr>)"
    using mem_frame_same [of "s\<lparr>heap_blocks := bs\<rparr>" s] pt_lookup_cong [of "s\<lparr>heap_blocks := bs\<rparr>" s]
      pmm_facts_cong(2) [of "s\<lparr>heap_blocks := bs\<rparr>" s]
    by (simp add: user_kept_def)
qed

lemma kmalloc_retry_kept:
  "heap_ok s R \<Longrightarrow> vm_ok s R F \<Longrightarrow> kmalloc_retry fuel sz s = Some (s', p) \<Longrightarrow>
     vm_ok s' R F \<and> user_kept R F s s'"
proof (induction fuel arbitrary: s)
  case 0
  then show ?case by simp
next
  case (Suc fuel)
  show ?case
  proof (cases "find_idx (fits sz) (heap_blocks s)")
    case (Some i)
    then show ?thesis using Suc.prems heap_fields_kept [OF Suc.prems(2)] by auto
  next
    case None
    obtain s1 ext where g: "heap_grow s = (s1, ext)" by fastforce
    have 1: "vm_ok s1 R F" "user_kept R F s s1"
      using heap_grow_kept [OF Suc.prems(1,2)] g by simp_all
    show ?thesis
    proof (cases ext)
      case True
      then have "kmalloc_retry fuel sz s1 = Some (s', p)" using Suc.prems(3) None g by simp
      from Suc.IH [OF heap_grow_spec(1) [OF Suc.prems(1) g] 1(1) this] show ?thesis
        using user_kept_trans [OF 1(2)] by blast
    next
      case False
      then show ?thesis using Suc.prems(3) None g 1 by simp
    qed
  qed
qed

lemma kmalloc_kept:
  assumes "heap_ok s R" and "vm_ok s R F" and "kmalloc sz s = Some (s', p)"
  shows "vm_ok s' R F" and "user_kept R F s s'"
proof -
  have "vm_ok s' R F \<and> user_kept R F s s'"
    using assms kmalloc_retry_kept [of s R F "Suc (unat (free_pages s))" "round16 sz" s' p]
    by (cases "sz = 0 \<or> sz > UINT64_MAX - 15 - HEADER") (simp_all add: kmalloc_def del: kmalloc_retry.simps)
  then show "vm_ok s' R F" and "user_kept R F s s'" by blast+
qed

lemma kfree_kept:
  assumes "vm_ok s R F" and "kfree p s = Some s'"
  shows "vm_ok s' R F" and "user_kept R F s s'"
  using assms heap_fields_kept [OF assms(1)] by (auto simp: kfree_def split: if_splits option.splits)

lemma kmalloc_frame: "heap_ok s R \<Longrightarrow> kmalloc sz s = Some (s', p) \<Longrightarrow> mem_frame {} s s'"
  using kmalloc_kept(2) mem_frame_mono user_keptD(1) by (metis empty_subsetI heap_ok_def)

section \<open>The heap's contents\<close>

text \<open>
  The heap lies above the direct map: the boot loader places the direct map at the start of the upper
  half, and the machine has less than 64 TiB of memory.
\<close>

definition heap_apart :: "'a machine_scheme \<Rightarrow> bool" where
  "heap_apart s \<longleftrightarrow> unat (hhdm_offset s) + total_pages s * 4096 \<le> unat HEAP_START"

definition heap_sound :: "'a heap_state_scheme \<Rightarrow> u64 set \<Rightarrow> bool" where
  "heap_sound s R \<longleftrightarrow> heap_ok s R \<and> heap_apart s"

lemma frame_apart: "mem_frame F s s' \<Longrightarrow> heap_apart s \<Longrightarrow> heap_apart s'"
  by (simp add: mem_frame_def heap_apart_def)

lemma frame_bytes: "mem_frame F s s' \<Longrightarrow> heap_apart s \<Longrightarrow> HEAP_START \<le> a \<Longrightarrow> mem s' a = mem s a"
  by (auto simp: mem_frame_def heap_apart_def in_direct_map_def word_le_nat_alt)

lemma kfree_mem: "kfree p s = Some s' \<Longrightarrow>
    mem s' = mem s \<and> hhdm_offset s' = hhdm_offset s \<and> total_pages s' = total_pages s"
  by (auto simp: kfree_def split: if_splits option.splits)

lemma kfree_apart: "kfree p s = Some s' \<Longrightarrow> heap_apart s \<Longrightarrow> heap_apart s'"
  using kfree_mem [of p s s'] by (simp add: heap_apart_def)

section \<open>Regions with contents\<close>

text \<open>
  The interface of an allocator whose regions keep their bytes, on top of the one of \<open>Heap\<close>.
  \<open>put\<close> is what a client does to the bytes of its own region.
\<close>

locale byte_alloc = region_alloc inv alloc free regions
  for inv :: "'s \<Rightarrow> bool" and alloc free and regions :: "'s \<Rightarrow> u64 \<Rightarrow> u64 option" +
  fixes byte :: "'s \<Rightarrow> bmem" and put :: "bmem \<Rightarrow> 's \<Rightarrow> 's"
  assumes alloc_bytes: "inv s \<Longrightarrow> alloc n s = Some (s', p) \<Longrightarrow> regions s q = Some k \<Longrightarrow>
      i < unat k \<Longrightarrow> byte s' (q + of_nat i) = byte s (q + of_nat i)"
    and free_bytes: "inv s \<Longrightarrow> free p s = Some s' \<Longrightarrow> byte s' = byte s"
    and region_bound: "inv s \<Longrightarrow> regions s p = Some k \<Longrightarrow> unat p + unat k < 2 ^ 64"
    and put_byte: "byte (put m s) = m"
    and put_regions: "regions (put m s) = regions s"
    and put_inv: "inv s \<Longrightarrow> (\<And>a. (\<forall>p k. regions s p = Some k \<longrightarrow> \<not> unat (a - p) < unat k) \<Longrightarrow>
      m a = byte s a) \<Longrightarrow> inv (put m s)"
begin

definition contents :: "'s \<Rightarrow> u64 \<Rightarrow> nat \<Rightarrow> u8 list" where
  "contents s p n = map (\<lambda>i. byte s (p + of_nat i)) [0 ..< n]"

lemma length_contents [simp]: "length (contents s p n) = n"
  by (simp add: contents_def)

lemma contents_alloc:
  assumes "inv s" and "alloc m s = Some (s', p)" and "regions s q = Some k" and "n \<le> unat k"
  shows "contents s' q n = contents s q n"
  using alloc_bytes [OF assms(1-3)] assms(4) by (simp add: contents_def)

lemma contents_free: "inv s \<Longrightarrow> free p s = Some s' \<Longrightarrow> contents s' q n = contents s q n"
  by (simp add: contents_def free_bytes)

text \<open>A byte of one region is not a byte of another.\<close>

lemma other_region:
  assumes "inv s" and "regions s p = Some n" and "regions s q = Some k" and "p \<noteq> q" and "i < unat k"
  shows "\<not> unat (q + of_nat i - p) < unat n"
proof
  assume near: "unat (q + of_nat i - p) < unat n"
  have bp: "unat p + unat n < 2 ^ 64" and bq: "unat q + unat k < 2 ^ 64"
    using region_bound [OF assms(1)] assms(2,3) by blast+
  have uq: "unat (q + of_nat i) = unat q + i" using unat_add_small [of q i] bq assms(5) by linarith
  have "unat (q + of_nat i) = unat p + unat (q + of_nat i - p)"
    using unat_add_small [of p "unat (q + of_nat i - p)"] near bp by simp
  then show False using apart [OF assms(1-4)] near uq assms(5) by linarith
qed

text \<open>Writing inside one region leaves the others alone and keeps the invariant.\<close>

lemma put_region:
  assumes "inv s" and "regions s p = Some n" and m: "\<And>a. \<not> unat (a - p) < unat n \<Longrightarrow> m a = byte s a"
  shows "inv (put m s)" and "regions (put m s) = regions s"
    and "regions s q = Some k \<Longrightarrow> p \<noteq> q \<Longrightarrow> j \<le> unat k \<Longrightarrow> contents (put m s) q j = contents s q j"
proof -
  show "inv (put m s)" using put_inv [OF assms(1)] m assms(2) by blast
  show "regions (put m s) = regions s" by (rule put_regions)
  show "contents (put m s) q j = contents s q j" if "regions s q = Some k" "p \<noteq> q" "j \<le> unat k"
    using m other_region [OF assms(1,2) that(1,2)] that(3) by (auto simp: contents_def put_byte)
qed

end

section \<open>The kernel heap provides the interface\<close>

lemma get64_window:
  assumes "table_slot {} s p" and "\<And>a. in_direct_map s a \<Longrightarrow> mem s' a = mem s a"
  shows "get64 s' p = get64 s p"
proof -
  obtain t i where p: "i < 512" "p = slot_at t i" "t AND 4095 = 0"
    "unat (hhdm_offset s) \<le> unat t" "unat t + 4096 \<le> unat (hhdm_offset s) + total_pages s * 4096"
    using assms(1) by (auto simp: table_slot_def)
  have up: "unat p = unat t + 8 * i" using unat_slot_at [OF p(3,1)] p(2) by simp
  obtain q where q: "unat t = 4096 * q" "4096 * q + 4096 \<le> 2 ^ 64" using p(3) by (rule page_aligned)
  have "mem s' (p + of_nat j) = mem s (p + of_nat j)" if j: "j < 8" for j
  proof -
    have "unat (p + of_nat j) = unat p + j" using unat_add_small [of p j] q up p(1) j by linarith
    then have "in_direct_map s (p + of_nat j)" using p up j by (simp add: in_direct_map_def)
    then show ?thesis by (rule assms(2))
  qed
  then show ?thesis unfolding get64_def by (rule ld64_cong)
qed

lemma vm_ok_mem:
  assumes ok: "vm_ok s R F" and m: "\<And>a. in_direct_map s a \<Longrightarrow> m a = mem s a"
  shows "vm_ok (s\<lparr>mem := m\<rparr>) R F"
proof -
  let ?s = "s\<lparr>mem := m\<rparr>"
  obtain \<rho> where pm: "pmm_inv s" and inv: "pt_inv s \<rho>" and R: "\<forall>r \<in> R. \<rho> r = Some (3, r, 0)"
    and F: "data_frames s \<rho> F" using ok by (auto simp: vm_ok_def)
  have "get64 ?s (slot_at t i) = get64 s (slot_at t i)" if "t \<in> dom \<rho>" "i < 512" for t i
    by (rule get64_window [OF role_slot [OF inv _ that, of "{}"]]) (simp_all add: m data_frames_def)
  then have same: "same_entries \<rho> s ?s" by (simp add: same_entries_def)
  have busy: "frame_busy ?s = frame_busy s" by (simp add: frame_busy_def fun_eq_iff)
  have "pt_inv ?s \<rho>" by (rule same_entries_inv [OF same inv]) (simp_all add: busy)
  moreover have "pmm_inv ?s" using pm by (simp add: pmm_inv_def)
  moreover have "data_frames ?s \<rho> F" using F by (simp add: data_frames_def busy)
  ultimately show ?thesis using R by (auto simp: vm_ok_def)
qed

lemma heap_sound_mem:
  assumes "heap_sound s R" and m: "\<And>a. (\<forall>p k. live s p = Some k \<longrightarrow> \<not> unat (a - p) < unat k) \<Longrightarrow> m a = mem s a"
  shows "heap_sound (s\<lparr>mem := m\<rparr>) R"
proof -
  have ok: "heap_ok s R" and ap: "heap_apart s" using assms(1) by (simp_all add: heap_sound_def)
  have "m a = mem s a" if a: "in_direct_map s a" for a
  proof (rule m, intro allI impI)
    fix p k assume live: "live s p = Some k"
    note lr = live_region(1,2) [OF ok live]
    have lo: "unat a < unat HEAP_START" using a ap by (simp add: in_direct_map_def heap_apart_def)
    show "\<not> unat (a - p) < unat k"
    proof
      assume near: "unat (a - p) < unat k"
      have "unat p + unat (a - p) < 2 ^ 64" using near lr(2) unat64_less [of "heap_end s"] by linarith
      then have "unat a = unat p + unat (a - p)" using unat_add_small [of p "unat (a - p)"] by simp
      then show False using lo lr(1) by simp
    qed
  qed
  then show ?thesis using ok ap vm_ok_mem [of s R _ m]
    by (auto simp: heap_sound_def heap_ok_def heap_apart_def)
qed

lemma live_bytes:
  assumes "heap_sound s R" and "kmalloc n s = Some (s', p)" and "live s q = Some k" and "i < unat k"
  shows "mem s' (q + of_nat i) = mem s (q + of_nat i)"
proof -
  have ok: "heap_ok s R" and ap: "heap_apart s" using assms(1) by (simp_all add: heap_sound_def)
  note lr = live_region(1,2) [OF ok assms(3)]
  have "unat q + i < 2 ^ 64" using lr(2) assms(4) unat64_less [of "heap_end s"] by linarith
  then have "unat (q + of_nat i) = unat q + i" by (rule unat_add_small)
  then have "HEAP_START \<le> q + of_nat i" using lr(1) by (simp add: word_le_nat_alt)
  then show ?thesis by (rule frame_bytes [OF kmalloc_frame [OF ok assms(2)] ap])
qed

interpretation kheap: byte_alloc "\<lambda>s. heap_sound s R" kmalloc kfree live mem "\<lambda>m s. s\<lparr>mem := m\<rparr>"
proof unfold_locales
  fix s :: "'a heap_state_scheme" and n
  assume sound: "heap_sound s R"
  then have ok: "heap_ok s R" and ap: "heap_apart s" by (simp_all add: heap_sound_def)
  show "\<exists>s' p. kmalloc n s = Some (s', p)" by (rule heap.alloc_total [OF ok])
  show "heap_sound s' R" if "kmalloc n s = Some (s', p)" for s' p
    using heap.alloc_inv [OF ok that] frame_apart [OF kmalloc_frame [OF ok that] ap]
    by (simp add: heap_sound_def)
  show "live s' = live s" if "kmalloc n s = Some (s', 0)" for s' by (rule heap.alloc_null [OF ok that])
  show "live s p = None \<and> (\<exists>k \<ge> n. live s' = (live s)(p \<mapsto> k))"
    if "kmalloc n s = Some (s', p)" "p \<noteq> 0" for s' p by (rule heap.alloc_new [OF ok that])
  show "\<exists>s'. kfree p s = Some s' \<and> heap_sound s' R \<and> live s' = (live s)(p := None)"
    if "live s p = Some k" for p k
    using heap.free_ok [OF ok that] kfree_apart [OF _ ap] by (auto simp: heap_sound_def)
  show "unat p + unat k \<le> unat q \<or> unat q + unat m \<le> unat p"
    if "live s p = Some k" "live s q = Some m" "p \<noteq> q" for p k q m
    by (rule heap.apart [OF ok that])
  show "mem s' (q + of_nat i) = mem s (q + of_nat i)"
    if "kmalloc n s = Some (s', p)" "live s q = Some k" "i < unat k" for s' p q k i
    by (rule live_bytes [OF sound that])
  show "mem s' = mem s" if "kfree p s = Some s'" for p s' using kfree_mem [OF that] by simp
  show "unat p + unat k < 2 ^ 64" if "live s p = Some k" for p k
    using live_region(2) [OF ok that] unat64_less [of "heap_end s"] by linarith
  show "heap_sound (s\<lparr>mem := m\<rparr>) R"
    if "\<And>a. \<forall>p k. live s p = Some k \<longrightarrow> \<not> unat (a - p) < unat k \<Longrightarrow> m a = mem s a" for m
    by (rule heap_sound_mem [OF sound that])
qed simp_all

section \<open>Moving a region\<close>

lemma live_find:
  assumes "heap_ok s R" and "live s p = Some k"
  obtains i where "find_idx (\<lambda>b. b_addr b = p - HEADER) (heap_blocks s) = Some i"
    "b_size (heap_blocks s ! i) = k"
proof -
  have t: "tiled (unat HEAP_START) (heap_blocks s) (unat (heap_end s))"
    using assms(1) by (simp add: heap_ok_def blocks_ok_def)
  obtain b where b: "b \<in> set (heap_blocks s)" "b_addr b + HEADER = p" "b_size b = k"
    using assms(2) unfolding live_iff [OF t] by blast
  obtain i where i: "i < length (heap_blocks s)" "heap_blocks s ! i = b"
    using b(1) by (auto simp: in_set_conv_nth)
  have addr: "b_addr b = p - HEADER" using b(2) by auto
  have "find_idx (\<lambda>b. b_addr b = p - HEADER) (heap_blocks s) = Some i"
  proof (rule find_idx_unique [OF i(1)])
    show "b_addr (heap_blocks s ! i) = p - HEADER" using i(2) addr by simp
    fix j assume j: "j < length (heap_blocks s)" "b_addr (heap_blocks s ! j) = p - HEADER"
    have "distinct (map b_addr (heap_blocks s))" by (rule tiled_distinct [OF t])
    then show "j = i" using i j addr by (simp add: distinct_conv_nth) metis
  qed
  then show thesis using that i(2) b(3) by simp
qed

text \<open>What \<open>krealloc\<close> leaves: the region moved or grown in place, with its bytes.\<close>

definition moved :: "'a heap_state_scheme \<Rightarrow> u64 \<Rightarrow> u64 \<Rightarrow> u64 \<Rightarrow> 'a heap_state_scheme \<Rightarrow> u64 \<Rightarrow> bool" where
  "moved s p k n s' q \<longleftrightarrow>
     (if q = 0 then live s' = live s \<and>
        (\<forall>r j. live s r = Some j \<longrightarrow> kheap.contents s' r (unat j) = kheap.contents s r (unat j))
      else (\<exists>m \<ge> n. live s' = (live s)(p := None, q \<mapsto> m)) \<and>
        (q = p \<or> live s q = None) \<and>
        kheap.contents s' q (min (unat k) (unat n)) = kheap.contents s p (min (unat k) (unat n)) \<and>
        (\<forall>r j. live s r = Some j \<and> r \<noteq> p \<longrightarrow>
           kheap.contents s' r (unat j) = kheap.contents s r (unat j)))"

lemma krealloc_spec:
  assumes sound: "heap_sound s R" and live: "live s p = Some k" and n: "n \<noteq> 0"
  shows "\<exists>s' q. krealloc p n s = Some (s', q) \<and> heap_sound s' R \<and> moved s p k n s' q"
proof -
  have ok: "heap_ok s R" using sound by (simp add: heap_sound_def)
  have p0: "p \<noteq> 0" by (rule live_region(4) [OF ok live])
  obtain i where i: "find_idx (\<lambda>b. b_addr b = p - HEADER) (heap_blocks s) = Some i"
    "b_size (heap_blocks s ! i) = k" by (rule live_find [OF ok live])
  show ?thesis
  proof (cases "n \<le> k")
    case True
    then have "krealloc p n s = Some (s, p)" using i p0 n by (simp add: krealloc_def Let_def)
    moreover have "live s = (live s)(p := None, p \<mapsto> k)" using live by auto
    ultimately show ?thesis using sound p0 True live unfolding moved_def by auto
  next
    case False
    obtain s1 q where al: "kmalloc n s = Some (s1, q)" using kheap.alloc_total [OF sound] by blast
    have s1: "heap_sound s1 R" by (rule kheap.alloc_inv [OF sound al])
    show ?thesis
    proof (cases "q = 0")
      case True
      then have "krealloc p n s = Some (s1, 0)" using i p0 n False al by (simp add: krealloc_def Let_def)
      moreover have "live s1 = live s" using kheap.alloc_null [OF sound] al True by simp
      moreover have "kheap.contents s1 r (unat j) = kheap.contents s r (unat j)"
        if "live s r = Some j" for r j
        using kheap.contents_alloc [OF sound al that] by simp
      ultimately show ?thesis using s1 by (auto simp: moved_def)
    next
      case q: False
      let ?m = "memcpy (mem s1) q p (unat k)"
      let ?s2 = "s1\<lparr>mem := ?m\<rparr>"
      obtain m where m: "live s q = None" "n \<le> m" "live s1 = (live s)(q \<mapsto> m)"
        using kheap.alloc_new [OF sound al q] by blast
      have lq: "live s1 q = Some m" and pq: "p \<noteq> q" using m live by auto
      then have lp: "live s1 p = Some k" using m live by simp
      have km: "unat k < unat m" using False m(2) by (simp add: word_less_nat_alt word_le_nat_alt)
      have "\<not> unat (a - q) < unat k \<Longrightarrow> ?m a = mem s1 a" for a by (rule memcpy_outside)
      then have out: "\<not> unat (a - q) < unat m \<Longrightarrow> ?m a = mem s1 a" for a using km by simp
      have put: "heap_sound ?s2 R" by (rule kheap.put_region(1) [OF s1 lq out])
      have others: "kheap.contents ?s2 r i = kheap.contents s1 r i"
        if "live s1 r = Some j" "q \<noteq> r" "i \<le> unat j" for r j i
        using kheap.put_region(3) [OF s1 lq, of ?m] out that by blast
      have dis: "ranges_disjoint q (unat k) p (unat k)"
        unfolding ranges_disjoint_def
      proof (intro allI impI notI)
        fix a assume a: "unat (a - q) < unat k" "unat (a - p) < unat k"
        have "\<not> unat (p + of_nat (unat (a - p)) - q) < unat m"
          by (rule kheap.other_region [OF s1 lq lp _ a(2)]) (use pq in simp)
        then show False using a(1) km by simp
      qed
      have copied: "kheap.contents ?s2 q (unat k) = kheap.contents s1 p (unat k)"
        using memcpy_disjoint [OF dis, of "mem s1"] unat64_less [of k]
        by (simp add: kheap.contents_def unat_of_nat take_bit_eq_mod)
      have live2: "live ?s2 p = Some k" using lp by simp
      obtain s3 where f: "kfree p ?s2 = Some s3" "heap_sound s3 R" "live s3 = (live ?s2)(p := None)"
        using kheap.free_ok [OF put live2] by blast
      have "krealloc p n s = Some (s3, q)" using i p0 n False al q f(1) by (simp add: krealloc_def Let_def)
      moreover have "live s3 = (live s)(p := None, q \<mapsto> m)" using f(3) m(3) pq by (simp add: fun_upd_twist)
      moreover have "min (unat k) (unat n) = unat k" using False by (simp add: word_le_nat_alt)
      moreover have c3: "kheap.contents s3 r j = kheap.contents ?s2 r j" for r j
        by (rule kheap.contents_free [OF put f(1)])
      moreover have "kheap.contents s1 r (unat j) = kheap.contents s r (unat j)"
        if "live s r = Some j" for r j
        using kheap.contents_alloc [OF sound al that] by simp
      moreover from this have "kheap.contents ?s2 r (unat j) = kheap.contents s r (unat j)"
        if "live s r = Some j" "r \<noteq> p" for r j
      proof -
        have "live s1 r = Some j" "q \<noteq> r" using that m by auto
        from others [OF this] show ?thesis using \<open>\<And>j r. live s r = Some j \<Longrightarrow> _\<close> [OF that(1)] by simp
      qed
      ultimately show ?thesis using f(2) q m(1,2) copied live
        by (intro exI [of _ s3] exI [of _ q]) (auto simp: moved_def)
    qed
  qed
qed

section \<open>Properties\<close>

lemma tiny_heap_sound: "heap_sound tiny_heap {tiny_root}"
  using tiny_heap_ok by (simp add: heap_sound_def heap_apart_def tiny_heap_def tiny_machine_def)

text \<open>
  C27: \<^verbatim>\<open>krealloc\<close> of a region in use returns. Either it gives null and every region in use keeps its
  place and contents, or it gives a region of at least the new size that begins with the bytes of the
  old one, the old region is no longer in use (unless it was kept in place), and all other regions
  keep their place and contents.
\<close>

theorem krealloc_correct:
  assumes "heap_sound s R" and "live s p = Some k" and "n \<noteq> 0"
  shows "\<exists>s' q. krealloc p n s = Some (s', q) \<and> heap_sound s' R \<and> moved s p k n s' q"
  using krealloc_spec [OF assms] .

lemma krealloc_correct_witness:
  "\<exists>s' q. krealloc (HEAP_START + HEADER) 5000 (fst (the (kmalloc 100 tiny_heap))) = Some (s', q) \<and>
    heap_sound s' {tiny_root}"
proof -
  let ?s = "fst (the (kmalloc 100 tiny_heap))"
  have k: "kmalloc 100 tiny_heap = Some (?s, HEAP_START + HEADER)"
    by (simp add: kmalloc_def tiny_heap_def fits_def round16_def)
  have "live tiny_heap = Map.empty" by (auto simp: tiny_heap_def live_blocks_def)
  then obtain n where "live ?s (HEAP_START + HEADER) = Some n"
    using kheap.alloc_new [OF tiny_heap_sound k] by auto
  from krealloc_correct [OF kheap.alloc_inv [OF tiny_heap_sound k] this, of 5000] show ?thesis by auto
qed

end
