(* ===== verification/Tmpfs.thy ===== *)
theory Tmpfs
  imports HeapMem CString
begin

text \<open>
  The in-memory file system, \<^verbatim>\<open>fs/tmpfs.c\<close>: a table of 32 files, each with a buffer from the kernel
  heap that grows by \<^verbatim>\<open>krealloc\<close>. The buffers are bytes of \<open>mem\<close>; the caller's buffer of a read or a
  write is the list of bytes written to it or read from it, and a null pointer is \<^const>\<open>None\<close>.
\<close>

section \<open>State\<close>

record tmpfs_file =
  in_use :: bool
  file_name :: "u8 list"
  file_data :: u64
  file_size :: u64
  file_cap :: u64

record tmpfs_state = heap_state +
  tmp_files :: "tmpfs_file list"

abbreviation TMPFS_MAX_FILES :: nat where "TMPFS_MAX_FILES \<equiv> 32"
abbreviation TMPFS_MAX_SIZE :: u64 where "TMPFS_MAX_SIZE \<equiv> 65536"
abbreviation TMPFS_INITIAL_CAP :: u64 where "TMPFS_INITIAL_CAP \<equiv> 4096"

section \<open>Operations\<close>

definition clear_file :: "tmpfs_file \<Rightarrow> tmpfs_file" where
  "clear_file f = f\<lparr>in_use := False, file_data := 0, file_size := 0, file_cap := 0\<rparr>"

definition tmpfs_init :: "'a tmpfs_state_scheme \<Rightarrow> 'a tmpfs_state_scheme" where
  "tmpfs_init s = s\<lparr>tmp_files := map clear_file (tmp_files s)\<rparr>"

definition named :: "u8 list \<Rightarrow> tmpfs_file \<Rightarrow> bool" where
  "named name f \<longleftrightarrow> in_use f \<and> strcmp (file_name f) name = 0"

definition tmpfs_open :: "'a tmpfs_state_scheme \<Rightarrow> u8 list option \<Rightarrow> int" where
  "tmpfs_open s name =
     (case name of None \<Rightarrow> -1
      | Some nm \<Rightarrow> (case find_idx (named nm) (tmp_files s) of None \<Rightarrow> -1 | Some i \<Rightarrow> int i))"

text \<open>
  Operations that use the heap have no result when the heap has none; the properties show that they
  have one in every sound state.
\<close>

definition tmpfs_create ::
    "u8 list option \<Rightarrow> 'a tmpfs_state_scheme \<Rightarrow> ('a tmpfs_state_scheme \<times> int) option" where
  "tmpfs_create name s =
     (case name of None \<Rightarrow> Some (s, -1)
      | Some nm \<Rightarrow>
          let existing = tmpfs_open s name
          in if existing \<ge> 0 then Some (s, existing)
             else case find_idx (\<lambda>f. \<not> in_use f) (tmp_files s) of
                    None \<Rightarrow> Some (s, -1)
                  | Some i \<Rightarrow>
                      (case kmalloc TMPFS_INITIAL_CAP s of
                         None \<Rightarrow> None
                       | Some (s, buf) \<Rightarrow>
                           if buf = 0 then Some (s, -1)
                           else let f = tmp_files s ! i;
                                    f = f\<lparr>file_name := copy_name 99 nm (file_name f), file_data := buf,
                                          file_size := 0, file_cap := TMPFS_INITIAL_CAP, in_use := True\<rparr>
                                in Some (s\<lparr>mem := memset (mem s) buf 0 4096, tmp_files := (tmp_files s)[i := f]\<rparr>,
                                         int i)))"

text \<open>The doubling loop of a write; it does not end when the capacity is zero.\<close>

partial_function (option) grow_cap :: "u64 \<Rightarrow> u64 \<Rightarrow> u64 option" where
  "grow_cap new_cap end_pos =
     (if new_cap < end_pos
      then (let c = new_cap * 2 in grow_cap (if c > TMPFS_MAX_SIZE then TMPFS_MAX_SIZE else c) end_pos)
      else Some new_cap)"

primrec put_bytes :: "bmem \<Rightarrow> u64 \<Rightarrow> u8 list \<Rightarrow> bmem" where
  "put_bytes m a [] = m"
| "put_bytes m a (b # bs) = put_bytes (m(a := b)) (a + 1) bs"

text \<open>Making room: the buffer is moved and the new part cleared. The flag tells success.\<close>

definition tmpfs_grow ::
    "nat \<Rightarrow> u64 \<Rightarrow> 'a tmpfs_state_scheme \<Rightarrow> ('a tmpfs_state_scheme \<times> bool) option" where
  "tmpfs_grow i end_pos s =
     (let f = tmp_files s ! i
      in if end_pos > file_cap f
         then case grow_cap (file_cap f) end_pos of
                None \<Rightarrow> None
              | Some new_cap \<Rightarrow>
                  (case krealloc (file_data f) new_cap s of
                     None \<Rightarrow> None
                   | Some (s, new_buf) \<Rightarrow>
                       if new_buf = 0 then Some (s, False)
                       else Some (s\<lparr>mem := memset (mem s) (new_buf + file_cap f) 0 (unat (new_cap - file_cap f)),
                                    tmp_files := (tmp_files s)[i := f\<lparr>file_data := new_buf, file_cap := new_cap\<rparr>]\<rparr>,
                                  True))
         else Some (s, True))"

definition clamp_write :: "u64 \<Rightarrow> u64 \<Rightarrow> u64" where
  "clamp_write offset count =
     (if offset + count > TMPFS_MAX_SIZE
      then if offset < TMPFS_MAX_SIZE then TMPFS_MAX_SIZE - offset else 0
      else count)"

definition tmpfs_write ::
    "int \<Rightarrow> u64 \<Rightarrow> u8 list option \<Rightarrow> u64 \<Rightarrow> 'a tmpfs_state_scheme \<Rightarrow> ('a tmpfs_state_scheme \<times> int) option" where
  "tmpfs_write index offset buf count s =
     (if index < 0 \<or> index \<ge> int TMPFS_MAX_FILES then Some (s, -1)
      else case buf of
             None \<Rightarrow> Some (s, -1)
           | Some src \<Rightarrow>
               let i = nat index
               in if \<not> in_use (tmp_files s ! i) then Some (s, -1)
                  else let count = clamp_write offset count;
                           end_pos = offset + count
                       in if count = 0 then Some (s, 0)
                          else case tmpfs_grow i end_pos s of
                                 None \<Rightarrow> None
                               | Some (s, False) \<Rightarrow> Some (s, -1)
                               | Some (s, True) \<Rightarrow>
                                   let f = tmp_files s ! i;
                                       s = s\<lparr>mem := put_bytes (mem s) (file_data f + offset) (take (unat count) src)\<rparr>;
                                       f = (if end_pos > file_size f then f\<lparr>file_size := end_pos\<rparr> else f)
                                   in Some (s\<lparr>tmp_files := (tmp_files s)[i := f]\<rparr>, uint count))"

text \<open>The bytes a read delivers; their number is what C returns.\<close>

definition tmpfs_read :: "'a tmpfs_state_scheme \<Rightarrow> int \<Rightarrow> u64 \<Rightarrow> bool \<Rightarrow> u64 \<Rightarrow> u8 list option" where
  "tmpfs_read s index offset buf_null count =
     (if index < 0 \<or> index \<ge> int TMPFS_MAX_FILES then None
      else let f = tmp_files s ! nat index
           in if \<not> in_use f \<or> buf_null then None
              else if offset \<ge> file_size f then Some []
              else let remaining = file_size f - offset;
                       count = (if count > remaining then remaining else count)
                   in Some (map (\<lambda>i. mem s (file_data f + (offset + of_nat i))) [0 ..< unat count]))"

definition tmpfs_unlink ::
    "u8 list option \<Rightarrow> 'a tmpfs_state_scheme \<Rightarrow> ('a tmpfs_state_scheme \<times> int) option" where
  "tmpfs_unlink name s =
     (case name of None \<Rightarrow> Some (s, -1)
      | Some nm \<Rightarrow>
          (case find_idx (named nm) (tmp_files s) of
             None \<Rightarrow> Some (s, -1)
           | Some i \<Rightarrow>
               let f = tmp_files s ! i
               in case (if file_data f \<noteq> 0 then kfree (file_data f) s else Some s) of
                    None \<Rightarrow> None
                  | Some s \<Rightarrow> Some (s\<lparr>tmp_files := (tmp_files s)[i := clear_file f]\<rparr>, 0)))"

text \<open>The name is copied into the caller's buffer of 100 bytes.\<close>

definition tmpfs_get_entry :: "'a tmpfs_state_scheme \<Rightarrow> int \<Rightarrow> u8 list \<Rightarrow> (u8 list \<times> u64) option" where
  "tmpfs_get_entry s index name_buf =
     (if index < 0 \<or> index \<ge> int TMPFS_MAX_FILES then None
      else let f = tmp_files s ! nat index
           in if \<not> in_use f then None
              else Some (copy_name 99 (file_name f) name_buf, file_size f))"

definition tmpfs_file_count :: "'a tmpfs_state_scheme \<Rightarrow> nat" where
  "tmpfs_file_count s = count_if in_use (tmp_files s)"


section \<open>Frames\<close>

text \<open>The heap's operations leave the file table alone.\<close>

lemma more_grow [frame_simps]: "heap_state.more (fst (heap_grow s)) = heap_state.more s"
proof -
  have more: "machine.more t = machine.more s \<Longrightarrow> heap_state.more t = heap_state.more s"
    for t s :: "'a heap_state_scheme"
    by (cases t; cases s) simp
  obtain t m ok where h: "map_heap_pages (heap_pages (heap_end s)) s = (t, m, ok)" by (metis prod_cases3)
  have 1: "heap_state.more t = heap_state.more s"
    by (rule more) (use more_map_heap [of "heap_pages (heap_end s)" s] h in simp)
  have 2: "heap_state.more (fold unmap_heap_page (rev m) t) = heap_state.more t"
    by (rule more) (rule more_unmap_heap)
  show ?thesis using h 1 2 by (cases ok) (simp_all add: heap_grow_def)
qed

lemma more_retry: "kmalloc_retry fuel sz s = Some (s', p) \<Longrightarrow> heap_state.more s' = heap_state.more s"
proof (induction fuel arbitrary: s)
  case 0
  then show ?case by simp
next
  case (Suc fuel)
  obtain t ok where "heap_grow s = (t, ok)" by fastforce
  then show ?case using Suc more_grow [of s] by (cases ok) (auto split: option.splits)
qed

lemma more_kmalloc: "kmalloc sz s = Some (s', p) \<Longrightarrow> heap_state.more s' = heap_state.more s"
  using more_retry [of "Suc (unat (free_pages s))" "round16 sz" s s' p]
  by (cases "sz = 0 \<or> sz > UINT64_MAX - 15 - HEADER") (simp_all add: kmalloc_def del: kmalloc_retry.simps)

lemma more_kfree: "kfree p s = Some s' \<Longrightarrow> heap_state.more s' = heap_state.more s"
  by (auto simp: kfree_def split: if_splits option.splits)

lemma more_krealloc: "krealloc p n s = Some (s', q) \<Longrightarrow> heap_state.more s' = heap_state.more s"
  by (auto simp: krealloc_def Let_def dest!: more_kmalloc more_kfree split: if_splits option.splits)

lemma files_more: "heap_state.more s' = heap_state.more s \<Longrightarrow> tmp_files s' = tmp_files s"
  by (cases s; cases s') simp

section \<open>The invariant and the abstract file system\<close>

definition file_ok :: "'a heap_state_scheme \<Rightarrow> tmpfs_file \<Rightarrow> bool" where
  "file_ok s f \<longleftrightarrow>
     length (file_name f) = 100 \<and>
     (in_use f \<longrightarrow>
        file_size f \<le> file_cap f \<and> TMPFS_INITIAL_CAP \<le> file_cap f \<and> file_cap f \<le> TMPFS_MAX_SIZE \<and>
        (\<exists>k. live s (file_data f) = Some k \<and> file_cap f \<le> k) \<and>
        (\<forall>i. unat (file_size f) \<le> i \<and> i < unat (file_cap f) \<longrightarrow> mem s (file_data f + of_nat i) = 0))"

definition apart_files :: "tmpfs_file list \<Rightarrow> bool" where
  "apart_files fs \<longleftrightarrow> (\<forall>i < length fs. \<forall>j < length fs.
     in_use (fs ! i) \<and> in_use (fs ! j) \<and> file_data (fs ! i) = file_data (fs ! j) \<longrightarrow> i = j)"

definition tmpfs_inv :: "'a tmpfs_state_scheme \<Rightarrow> u64 set \<Rightarrow> bool" where
  "tmpfs_inv s R \<longleftrightarrow> heap_sound s R \<and> length (tmp_files s) = TMPFS_MAX_FILES \<and>
     (\<forall>f \<in> set (tmp_files s). file_ok s f) \<and> apart_files (tmp_files s)"

text \<open>What a client sees: each slot is unused or holds a name and the bytes of a file.\<close>

definition file_bytes :: "'a heap_state_scheme \<Rightarrow> tmpfs_file \<Rightarrow> u8 list" where
  "file_bytes s f = kheap.contents s (file_data f) (unat (file_size f))"

definition view_file :: "'a heap_state_scheme \<Rightarrow> tmpfs_file \<Rightarrow> (u8 list \<times> u8 list) option" where
  "view_file s f = (if in_use f then Some (cstr (file_name f), file_bytes s f) else None)"

definition tmpfs_view :: "'a tmpfs_state_scheme \<Rightarrow> (u8 list \<times> u8 list) option list" where
  "tmpfs_view s = map (view_file s) (tmp_files s)"

lemma tmpfs_invD:
  assumes "tmpfs_inv s R"
  shows "heap_sound s R" and "length (tmp_files s) = TMPFS_MAX_FILES"
    and "i < TMPFS_MAX_FILES \<Longrightarrow> file_ok s (tmp_files s ! i)" and "apart_files (tmp_files s)"
  using assms by (auto simp: tmpfs_inv_def)

lemma length_view [simp]: "length (tmpfs_view s) = length (tmp_files s)"
  by (simp add: tmpfs_view_def)

lemma nth_view [simp]: "i < length (tmp_files s) \<Longrightarrow> tmpfs_view s ! i = view_file s (tmp_files s ! i)"
  by (simp add: tmpfs_view_def)

text \<open>A state in which every region of a file keeps its bytes keeps the file.\<close>

definition keeps_file :: "'a heap_state_scheme \<Rightarrow> 'a heap_state_scheme \<Rightarrow> tmpfs_file \<Rightarrow> bool" where
  "keeps_file s s' f \<longleftrightarrow> (in_use f \<longrightarrow>
     (\<forall>k. live s (file_data f) = Some k \<longrightarrow> live s' (file_data f) = Some k \<and>
        kheap.contents s' (file_data f) (unat k) = kheap.contents s (file_data f) (unat k)))"

lemma contents_byte:
  "kheap.contents s' q n = kheap.contents s p n \<Longrightarrow> i < n \<Longrightarrow> mem s' (q + of_nat i) = mem s (p + of_nat i)"
  by (auto simp: kheap.contents_def)

lemma keeps_file_ok:
  assumes "file_ok s f" and "keeps_file s s' f"
  shows "file_ok s' f" and "view_file s' f = view_file s f"
proof -
  show "file_ok s' f"
  proof (cases "in_use f")
    case True
    then obtain k where k: "live s (file_data f) = Some k" "file_cap f \<le> k"
      using assms(1) by (auto simp: file_ok_def)
    then have k': "live s' (file_data f) = Some k"
      "kheap.contents s' (file_data f) (unat k) = kheap.contents s (file_data f) (unat k)"
      using assms(2) True by (auto simp: keeps_file_def)
    have "mem s' (file_data f + of_nat i) = mem s (file_data f + of_nat i)" if "i < unat (file_cap f)" for i
      using contents_byte [OF k'(2)] that k(2) by (simp add: word_le_nat_alt)
    then show ?thesis using assms(1) k k' by (auto simp: file_ok_def)
  next
    case False
    then show ?thesis using assms(1) by (simp add: file_ok_def)
  qed
  show "view_file s' f = view_file s f"
  proof (cases "in_use f")
    case True
    then obtain k where k: "live s (file_data f) = Some k" "file_size f \<le> k"
      using assms(1) order.trans by (fastforce simp: file_ok_def)
    then have "kheap.contents s' (file_data f) (unat k) = kheap.contents s (file_data f) (unat k)"
      using assms(2) True by (auto simp: keeps_file_def)
    from contents_byte [OF this] show ?thesis
      using k(2) by (simp add: view_file_def file_bytes_def kheap.contents_def word_le_nat_alt)
  next
    case False
    then show ?thesis by (simp add: view_file_def)
  qed
qed

lemma file_live:
  assumes "tmpfs_inv s R" and "i < TMPFS_MAX_FILES" and "in_use (tmp_files s ! i)"
  obtains k where "live s (file_data (tmp_files s ! i)) = Some k" "file_cap (tmp_files s ! i) \<le> k"
  using tmpfs_invD(3) [OF assms(1,2)] assms(3) by (auto simp: file_ok_def)

text \<open>One slot changes; the others keep their files.\<close>

lemma update_slot:
  assumes inv: "tmpfs_inv s R" and i: "i < TMPFS_MAX_FILES"
    and s': "heap_sound s' R" "tmp_files s' = (tmp_files s)[i := f]"
    and f: "file_ok s' f"
    and keep: "\<And>j. j < TMPFS_MAX_FILES \<Longrightarrow> j \<noteq> i \<Longrightarrow> in_use (tmp_files s ! j) \<Longrightarrow>
      keeps_file s s' (tmp_files s ! j) \<and> (in_use f \<longrightarrow> file_data (tmp_files s ! j) \<noteq> file_data f)"
  shows "tmpfs_inv s' R" and "tmpfs_view s' = (tmpfs_view s)[i := view_file s' f]"
proof -
  note d = tmpfs_invD [OF inv]
  have keep': "keeps_file s s' (tmp_files s ! j)" if "j < TMPFS_MAX_FILES" "j \<noteq> i" for j
    using keep [OF that] by (cases "in_use (tmp_files s ! j)") (simp_all add: keeps_file_def)
  have ok: "file_ok s' (tmp_files s' ! j)" if "j < TMPFS_MAX_FILES" for j
    using keeps_file_ok(1) [OF d(3) keep'] that f i d(2) s'(2) by (cases "j = i") simp_all
  have "apart_files (tmp_files s')"
    unfolding apart_files_def
  proof (intro allI impI)
    fix a b assume ab: "a < length (tmp_files s')" "b < length (tmp_files s')"
      "in_use (tmp_files s' ! a) \<and> in_use (tmp_files s' ! b) \<and>
       file_data (tmp_files s' ! a) = file_data (tmp_files s' ! b)"
    then have ab': "a < TMPFS_MAX_FILES" "b < TMPFS_MAX_FILES" using d(2) s'(2) by simp_all
    show "a = b"
    proof (cases "a = i \<or> b = i")
      case True
      then show ?thesis using ab(3) keep [of a] keep [of b] ab' d(2) i unfolding s'(2)
        by (auto simp: nth_list_update split: if_splits)
    next
      case False
      then show ?thesis using ab(3) ab' d(2,4) unfolding s'(2) by (simp add: apart_files_def)
    qed
  qed
  then show "tmpfs_inv s' R" using s' ok d(2) by (auto simp: tmpfs_inv_def all_set_conv_all_nth)
  show "tmpfs_view s' = (tmpfs_view s)[i := view_file s' f]"
  proof (rule nth_equalityI)
    show "length (tmpfs_view s') = length ((tmpfs_view s)[i := view_file s' f])" by (simp add: s'(2))
    fix j assume "j < length (tmpfs_view s')"
    then have j: "j < TMPFS_MAX_FILES" using d(2) s'(2) by simp
    show "tmpfs_view s' ! j = (tmpfs_view s)[i := view_file s' f] ! j"
      using keeps_file_ok(2) [OF d(3) keep'] j d(2) i s'(2) by (cases "j = i") simp_all
  qed
qed

lemma same_slots:
  assumes inv: "tmpfs_inv s R" and s': "heap_sound s' R" "tmp_files s' = tmp_files s"
    and keep: "\<And>j. j < TMPFS_MAX_FILES \<Longrightarrow> in_use (tmp_files s ! j) \<Longrightarrow> keeps_file s s' (tmp_files s ! j)"
  shows "tmpfs_inv s' R" and "tmpfs_view s' = tmpfs_view s"
proof -
  note d = tmpfs_invD [OF inv]
  have keep': "keeps_file s s' (tmp_files s ! j)" if "j < TMPFS_MAX_FILES" for j
    using keep [OF that] by (cases "in_use (tmp_files s ! j)") (simp_all add: keeps_file_def)
  have "file_ok s' (tmp_files s ! j)" if "j < TMPFS_MAX_FILES" for j
    using keeps_file_ok(1) [OF d(3) keep'] that by simp
  then show "tmpfs_inv s' R" using s' d(2,4) by (auto simp: tmpfs_inv_def all_set_conv_all_nth)
  show "tmpfs_view s' = tmpfs_view s"
    using keeps_file_ok(2) [OF d(3) keep'] d(2) s'(2) by (intro nth_equalityI) simp_all
qed

lemma keeps_trans: "keeps_file s t f \<Longrightarrow> keeps_file t u f \<Longrightarrow> keeps_file s u f"
  by (auto simp: keeps_file_def)

lemma keeps_table [simp]: "keeps_file s (t\<lparr>tmp_files := fs\<rparr>) f = keeps_file s t f"
  by (simp add: keeps_file_def kheap.contents_def)

lemma file_ok_table [simp]:
  "file_ok (t\<lparr>tmp_files := fs\<rparr>) f = file_ok t f" "view_file (t\<lparr>tmp_files := fs\<rparr>) f = view_file t f"
  by (simp_all add: file_ok_def view_file_def file_bytes_def kheap.contents_def)

lemma contents_table [simp]: "kheap.contents (t\<lparr>tmp_files := fs\<rparr>) p n = kheap.contents t p n"
  by (simp add: kheap.contents_def)

lemma heap_sound_table [simp]: "heap_sound (t\<lparr>tmp_files := fs\<rparr>) R = heap_sound t R"
  using vm_ok_cong [of "t\<lparr>tmp_files := fs\<rparr>" t] by (simp add: heap_sound_def heap_ok_def heap_apart_def)

lemma alloc_keeps_file:
  assumes "heap_sound s R" and "kmalloc n s = Some (s', p)"
  shows "keeps_file s s' f"
  using kheap.alloc_keeps(1) [OF assms] kheap.contents_alloc [OF assms]
  by (simp add: keeps_file_def)

lemma put_keeps_file:
  assumes "heap_sound s R" and "live s p = Some n" and "\<And>a. \<not> unat (a - p) < unat n \<Longrightarrow> m a = mem s a"
    and "file_data f \<noteq> p"
  shows "keeps_file s (s\<lparr>mem := m\<rparr>) f"
  using kheap.put_region(3) [OF assms(1-3)] assms(4) by (auto simp: keeps_file_def)

lemma put_bytes_apply:
  "length bs < 2 ^ 64 \<Longrightarrow>
    put_bytes m a bs = (\<lambda>x. if unat (x - a) < length bs then bs ! unat (x - a) else m x)"
proof (induction bs arbitrary: m a)
  case Nil
  then show ?case by simp
next
  case (Cons b bs)
  show ?case
  proof (rule ext)
    fix x
    have ih: "put_bytes (m(a := b)) (a + 1) bs x =
        (if unat (x - (a + 1)) < length bs then bs ! unat (x - (a + 1)) else (m(a := b)) x)"
      using Cons by simp
    show "put_bytes m a (b # bs) x =
      (if unat (x - a) < length (b # bs) then (b # bs) ! unat (x - a) else m x)"
    proof (cases "x = a")
      case True
      have "unat (a - (a + 1)) = 2 ^ 64 - 1" by (simp add: unsigned_minus_1_eq_mask mask_eq_exp_minus_1)
      then show ?thesis using ih True Cons.prems by simp
    next
      case False
      then show ?thesis using ih unat_step_dist [OF False] by simp
    qed
  qed
qed

lemma unat_uminus: "w \<noteq> 0 \<Longrightarrow> unat (- w) = 2 ^ 64 - unat w" for w :: u64
  using unat_sub_if_size [of 0 w] by (simp add: word_size word_le_nat_alt unat_eq_zero)

lemma offset_dist:
  fixes p :: u64
  assumes "unat p + n < 2 ^ 64" and "i < n"
  shows "unat (p + of_nat i - p) = i" and "off \<le> i \<Longrightarrow> unat (p + of_nat i - (p + of_nat off)) = i - off"
    and "i < off \<Longrightarrow> off \<le> n \<Longrightarrow> n < 2 ^ 63 \<Longrightarrow> \<not> unat (p + of_nat i - (p + of_nat off)) < n"
proof -
  have i: "i < 2 ^ 64" using assms by linarith
  then show "unat (p + of_nat i - p) = i" by (simp add: unat_of_nat)
  show "unat (p + of_nat i - (p + of_nat off)) = i - off" if "off \<le> i"
  proof -
    have "p + of_nat i - (p + of_nat off) = (of_nat (i - off) :: u64)" using that by (simp add: of_nat_diff)
    then show ?thesis using i by (simp add: unat_of_nat)
  qed
  show "\<not> unat (p + of_nat i - (p + of_nat off)) < n" if "i < off" "off \<le> n" "n < 2 ^ 63"
  proof -
    have "p + of_nat i - (p + of_nat off) = - (of_nat (off - i) :: u64)"
      using that(1) by (simp add: of_nat_diff)
    moreover have "unat (of_nat (off - i) :: u64) = off - i" using that by (subst unat_of_nat) simp
    moreover have "(of_nat (off - i) :: u64) \<noteq> 0" using calculation(2) that(1) by auto
    ultimately have "unat (p + of_nat i - (p + of_nat off)) = 2 ^ 64 - (off - i)"
      by (metis unat_uminus)
    then show ?thesis using that by simp
  qed
qed

text \<open>The contents of a region after bytes have been stored in it.\<close>

lemma contents_put:
  assumes p: "unat p + n < 2 ^ 64" and fit: "off + length bs \<le> n" and n: "n < 2 ^ 63"
    and mem: "mem s' = put_bytes (mem s) (p + of_nat off) bs"
  shows "kheap.contents s' p n =
    take off (kheap.contents s p n) @ bs @ drop (off + length bs) (kheap.contents s p n)"
proof (rule nth_equalityI)
  show "length (kheap.contents s' p n) =
      length (take off (kheap.contents s p n) @ bs @ drop (off + length bs) (kheap.contents s p n))"
    using fit by simp
  fix i assume "i < length (kheap.contents s' p n)"
  then have i: "i < n" by simp
  have len: "length bs < 2 ^ 64" using fit p by linarith
  have v: "mem s' (p + of_nat i) =
      (if off \<le> i \<and> i < off + length bs then bs ! (i - off) else mem s (p + of_nat i))"
  proof (cases "off \<le> i")
    case True
    then show ?thesis using offset_dist(2) [OF p i True] unfolding mem put_bytes_apply [OF len] by auto
  next
    case False
    then have "\<not> unat (p + of_nat i - (p + of_nat off)) < n" using offset_dist(3) [OF p i] fit n by simp
    then show ?thesis using False fit unfolding mem put_bytes_apply [OF len] by simp
  qed
  show "kheap.contents s' p n ! i =
      (take off (kheap.contents s p n) @ bs @ drop (off + length bs) (kheap.contents s p n)) ! i"
    using v i fit by (auto simp: kheap.contents_def nth_append)
qed

text \<open>A buffer of capacity \<open>cap\<close> holds the file's bytes and zeros.\<close>

lemma buffer_contents:
  assumes "file_ok s f" and "in_use f"
  shows "kheap.contents s (file_data f) (unat (file_cap f)) =
    file_bytes s f @ replicate (unat (file_cap f) - unat (file_size f)) 0"
proof (rule nth_equalityI)
  have le: "unat (file_size f) \<le> unat (file_cap f)"
    using assms by (simp add: file_ok_def word_le_nat_alt)
  show "length (kheap.contents s (file_data f) (unat (file_cap f))) =
      length (file_bytes s f @ replicate (unat (file_cap f) - unat (file_size f)) 0)"
    using le by (simp add: file_bytes_def)
  fix i assume "i < length (kheap.contents s (file_data f) (unat (file_cap f)))"
  then show "kheap.contents s (file_data f) (unat (file_cap f)) ! i =
      (file_bytes s f @ replicate (unat (file_cap f) - unat (file_size f)) 0) ! i"
    using assms le by (auto simp: file_bytes_def kheap.contents_def nth_append file_ok_def)
qed

section \<open>Making room\<close>

lemma grow_cap_spec:
  assumes "TMPFS_INITIAL_CAP \<le> c" and "c \<le> TMPFS_MAX_SIZE" and "e \<le> TMPFS_MAX_SIZE"
  shows "\<exists>r. grow_cap c e = Some r \<and> e \<le> r \<and> c \<le> r \<and> r \<le> TMPFS_MAX_SIZE"
  using assms
proof (induction "65536 - unat c" arbitrary: c rule: less_induct)
  case less
  show ?case
  proof (cases "c < e")
    case False
    then show ?thesis using less.prems by (subst grow_cap.simps) auto
  next
    case True
    have uc: "4096 \<le> unat c" "unat c < 65536" using less.prems True by (auto simp: word_le_nat_alt word_less_nat_alt)
    have u2: "unat (c * 2) = unat c * 2" using uc(2) by (simp add: unat_word_ariths)
    define d where "d = (if c * 2 > TMPFS_MAX_SIZE then TMPFS_MAX_SIZE else c * 2)"
    have d: "unat c < unat d" "unat d \<le> 65536" using u2 uc by (auto simp: d_def word_less_nat_alt)
    then have "TMPFS_INITIAL_CAP \<le> d" "d \<le> TMPFS_MAX_SIZE" "c \<le> d"
      using uc by (simp_all add: word_le_nat_alt)
    moreover have "65536 - unat d < 65536 - unat c" using d uc by linarith
    moreover from less.hyps [OF this] calculation less.prems(3) obtain r where
      "grow_cap d e = Some r" "e \<le> r" "d \<le> r" "r \<le> TMPFS_MAX_SIZE" by blast
    ultimately show ?thesis using True by (subst grow_cap.simps) (auto simp: d_def Let_def)
  qed
qed

definition room_for :: "u64 \<Rightarrow> tmpfs_file \<Rightarrow> tmpfs_file \<Rightarrow> bool" where
  "room_for e f g \<longleftrightarrow> (\<exists>p c. g = f\<lparr>file_data := p, file_cap := c\<rparr> \<and> e \<le> c)"

lemma tmpfs_grow_spec:
  assumes inv: "tmpfs_inv s R" and i: "i < TMPFS_MAX_FILES" and used: "in_use (tmp_files s ! i)"
    and e: "e \<le> TMPFS_MAX_SIZE"
  shows "\<exists>s' ok. tmpfs_grow i e s = Some (s', ok) \<and> tmpfs_inv s' R \<and> tmpfs_view s' = tmpfs_view s \<and>
    (ok \<longrightarrow> room_for e (tmp_files s ! i) (tmp_files s' ! i)) \<and>
    (e \<le> file_cap (tmp_files s ! i) \<longrightarrow> ok)"
proof -
  let ?f = "tmp_files s ! i"
  note d = tmpfs_invD [OF inv]
  have fok: "file_ok s ?f" by (rule d(3) [OF i])
  then have cap: "TMPFS_INITIAL_CAP \<le> file_cap ?f" "file_cap ?f \<le> TMPFS_MAX_SIZE" "file_size ?f \<le> file_cap ?f"
    and zero: "\<forall>j. unat (file_size ?f) \<le> j \<and> j < unat (file_cap ?f) \<longrightarrow> mem s (file_data ?f + of_nat j) = 0"
    using used by (simp_all add: file_ok_def)
  obtain k where k: "live s (file_data ?f) = Some k" "file_cap ?f \<le> k" by (rule file_live [OF inv i used])
  show ?thesis
  proof (cases "e > file_cap ?f")
    case False
    then have "tmpfs_grow i e s = Some (s, True)" "room_for e ?f ?f"
      by (simp_all add: tmpfs_grow_def Let_def room_for_def)
        (intro exI [of _ "file_data ?f"] exI [of _ "file_cap ?f"]; simp)
    then show ?thesis using inv by auto
  next
    case True
    from grow_cap_spec [OF cap(1,2) e] obtain c where
      c: "grow_cap (file_cap ?f) e = Some c" "e \<le> c" "file_cap ?f \<le> c" "c \<le> TMPFS_MAX_SIZE" by blast
    have "c \<noteq> 0" using c(2) True by auto
    from krealloc_spec [OF d(1) k(1) this] obtain s1 q where
      r: "krealloc (file_data ?f) c s = Some (s1, q)" "heap_sound s1 R" "moved s (file_data ?f) k c s1 q" by blast
    have t1: "tmp_files s1 = tmp_files s" by (rule files_more [OF more_krealloc [OF r(1)]])
    show ?thesis
    proof (cases "q = 0")
      case null: True
      then have "keeps_file s s1 f" for f using r(3) by (simp add: moved_def keeps_file_def)
      then have "tmpfs_inv s1 R" "tmpfs_view s1 = tmpfs_view s"
        using same_slots [OF inv r(2) t1] by blast+
      moreover have "tmpfs_grow i e s = Some (s1, False)"
        using True c(1) r(1) null by (simp add: tmpfs_grow_def Let_def)
      ultimately show ?thesis using True by (intro exI [of _ s1] exI [of _ False]) simp
    next
      case False
      then obtain m where m: "c \<le> m" "live s1 = (live s)(file_data ?f := None, q \<mapsto> m)"
        "q = file_data ?f \<or> live s q = None"
        "kheap.contents s1 q (min (unat k) (unat c)) = kheap.contents s (file_data ?f) (min (unat k) (unat c))"
        "\<forall>r j. live s r = Some j \<and> r \<noteq> file_data ?f \<longrightarrow>
           kheap.contents s1 r (unat j) = kheap.contents s r (unat j)"
        using r(3) by (auto simp: moved_def)
      let ?C = "unat (file_cap ?f)"
      let ?m = "memset (mem s1) (q + file_cap ?f) 0 (unat (c - file_cap ?f))"
      let ?g = "?f\<lparr>file_data := q, file_cap := c\<rparr>"
      let ?s2 = "s1\<lparr>mem := ?m\<rparr>"
      let ?s' = "?s2\<lparr>tmp_files := (tmp_files s1)[i := ?g]\<rparr>"
      have lq: "live s1 q = Some m" using m(2) by simp
      have bq: "unat q + unat m < 2 ^ 64" by (rule kheap.region_bound [OF r(2) lq])
      have cc: "?C \<le> unat c" "unat c \<le> unat m" "?C \<le> unat k" "unat c \<le> 65536"
        using c(3,4) m(1) k(2) by (simp_all add: word_le_nat_alt)
      have gap: "unat (c - file_cap ?f) = unat c - ?C" using c(3) by (simp add: unat_sub word_le_nat_alt)
      have dist: "unat (q + of_nat j - (q + file_cap ?f)) < unat (c - file_cap ?f) \<longleftrightarrow> ?C \<le> j"
        if "j < unat c" for j
      proof (cases "?C \<le> j")
        case True
        then show ?thesis
          using offset_dist(2) [of q "unat c" j ?C] bq cc that by (simp add: gap)
      next
        case False
        then show ?thesis using offset_dist(3) [of q "unat c" j ?C] bq cc that by (simp add: gap)
      qed
      have out: "?m a = mem s1 a" if far: "\<not> unat (a - q) < unat m" for a
      proof -
        have "\<not> unat (a - (q + file_cap ?f)) < unat (c - file_cap ?f)"
        proof
          assume near: "unat (a - (q + file_cap ?f)) < unat (c - file_cap ?f)"
          have "a - q = file_cap ?f + of_nat (unat (a - (q + file_cap ?f)))" by simp
          moreover have "unat (file_cap ?f) + unat (a - (q + file_cap ?f)) < 2 ^ 64"
            using near gap cc by simp
          ultimately have "unat (a - q) = ?C + unat (a - (q + file_cap ?f))"
            by (metis unat_add_small)
          then show False using far near gap cc by linarith
        qed
        then show ?thesis by simp
      qed
      have s2: "heap_sound ?s2 R" by (rule kheap.put_region(1) [OF r(2) lq out])
      have "kheap.contents s1 q ?C = kheap.contents s (file_data ?f) ?C"
        using contents_byte [OF m(4)] cc by (simp add: kheap.contents_def)
      from contents_byte [OF this] have old: "mem s1 (q + of_nat j) = mem s (file_data ?f + of_nat j)"
        if "j < ?C" for j using that by simp
      have new: "?m (q + of_nat j) = (if j < ?C then mem s (file_data ?f + of_nat j) else 0)"
        if "j < unat c" for j using dist [OF that] old by (auto simp: not_less)
      have size: "unat (file_size ?f) \<le> ?C" using cap(3) by (simp add: word_le_nat_alt)
      have gok: "file_ok ?s' ?g"
        using fok used c(3,4) cap lq m(1) new zero order.trans [OF cap(3) c(3)] order.trans [OF cap(1) c(3)]
        by (auto simp: file_ok_def)
      have gview: "view_file ?s' ?g = view_file s ?f"
        using used new size cc by (auto simp: view_file_def file_bytes_def kheap.contents_def)
      have keep: "keeps_file s ?s' (tmp_files s ! j) \<and>
          (in_use ?g \<longrightarrow> file_data (tmp_files s ! j) \<noteq> file_data ?g)"
        if j: "j < TMPFS_MAX_FILES" "j \<noteq> i" "in_use (tmp_files s ! j)" for j
      proof -
        let ?h = "tmp_files s ! j"
        obtain l where l: "live s (file_data ?h) = Some l" by (rule file_live [OF inv j(1,3)])
        have ne: "file_data ?h \<noteq> file_data ?f"
          using d(2,4) i j used by (auto simp: apart_files_def)
        then have nq: "file_data ?h \<noteq> q" using m(3) l by auto
        have "keeps_file s s1 ?h" using m(2,5) l ne nq by (simp add: keeps_file_def)
        moreover have "keeps_file s1 ?s2 ?h" by (rule put_keeps_file [OF r(2) lq out nq])
        ultimately show ?thesis using keeps_trans nq by auto
      qed
      have "heap_sound ?s' R" using s2 by simp
      moreover have "tmp_files ?s' = (tmp_files s)[i := ?g]" by (simp add: t1)
      ultimately have "tmpfs_inv ?s' R" "tmpfs_view ?s' = (tmpfs_view s)[i := view_file ?s' ?g]"
        using update_slot [OF inv i _ _ gok keep] by blast+
      moreover have "(tmpfs_view s)[i := view_file ?s' ?g] = tmpfs_view s"
        unfolding gview using i d(2) by (simp add: list_update_same_conv)
      moreover have "tmpfs_grow i e s = Some (?s', True)"
        using True c(1) r(1) False by (simp add: tmpfs_grow_def Let_def)
      moreover have "room_for e ?f (tmp_files ?s' ! i)"
        using c(2) i d(2) t1 by (auto simp: room_for_def)
      ultimately show ?thesis by (intro exI [of _ ?s'] exI [of _ True]) simp
    qed
  qed
qed

section \<open>Writing and reading\<close>

text \<open>The bytes of a file after bytes are stored at an offset; a gap is filled with zeros.\<close>

definition splice :: "u8 list \<Rightarrow> nat \<Rightarrow> u8 list \<Rightarrow> u8 list" where
  "splice old off bs =
     take off (old @ replicate (off - length old) 0) @ bs @ drop (off + length bs) old"

text \<open>How many of \<open>count\<close> bytes at \<open>off\<close> fit below the size limit.\<close>

definition fitting :: "nat \<Rightarrow> nat \<Rightarrow> nat" where
  "fitting off count = min count (65536 - off)"

lemma clamp_write_spec:
  assumes "unat offset + unat count < 2 ^ 64"
  shows "unat (clamp_write offset count) = fitting (unat offset) (unat count)"
    and "clamp_write offset count \<noteq> 0 \<Longrightarrow> offset + clamp_write offset count \<le> TMPFS_MAX_SIZE"
    and "clamp_write offset count \<noteq> 0 \<Longrightarrow>
      unat (offset + clamp_write offset count) = unat offset + unat (clamp_write offset count)"
proof -
  have sum: "unat (offset + count) = unat offset + unat count"
    using unat_add_small [of offset "unat count"] assms by simp
  show c: "unat (clamp_write offset count) = fitting (unat offset) (unat count)"
    using sum by (auto simp: clamp_write_def fitting_def word_less_nat_alt unat_sub word_le_nat_alt)
  assume "clamp_write offset count \<noteq> 0"
  then have "unat (clamp_write offset count) \<noteq> 0" by (simp add: unat_eq_zero)
  then have le: "unat offset + unat (clamp_write offset count) \<le> 65536"
    unfolding c by (auto simp: fitting_def)
  then show e: "unat (offset + clamp_write offset count) = unat offset + unat (clamp_write offset count)"
    using unat_add_small [of offset "unat (clamp_write offset count)"] by simp
  show "offset + clamp_write offset count \<le> TMPFS_MAX_SIZE" using le e by (simp add: word_le_nat_alt)
qed

lemma splice_buffer:
  assumes "length old \<le> c" and "off + length bs \<le> c"
  shows "take (max (length old) (off + length bs))
      (take off (old @ replicate (c - length old) 0) @ bs @
       drop (off + length bs) (old @ replicate (c - length old) 0)) = splice old off bs"
proof -
  let ?n = "length old" and ?e = "off + length bs"
  have "c - ?n - (?e - ?n) = c - max ?n ?e" by simp
  then have 2: "drop ?e (old @ replicate (c - ?n) 0) = drop ?e old @ replicate (c - max ?n ?e) 0" by simp
  have 1: "take off (old @ replicate (c - ?n) 0) = take off (old @ replicate (off - ?n) 0)"
    using assms by simp
  have "length (splice old off bs) = max ?n ?e" by (simp add: splice_def)
  then have "take (max ?n ?e) (splice old off bs @ replicate (c - max ?n ?e) 0) = splice old off bs" by simp
  then show ?thesis unfolding 1 2 by (simp add: splice_def)
qed

lemma nth_append_ge: "length xs \<le> j \<Longrightarrow> (xs @ ys) ! j = ys ! (j - length xs)"
  by (simp add: nth_append)

lemma splice_tail:
  assumes "length old \<le> c" and "off + length bs \<le> c"
    and "max (length old) (off + length bs) \<le> j" and "j < c"
  shows "(take off (old @ replicate (c - length old) 0) @ bs @
       drop (off + length bs) (old @ replicate (c - length old) 0)) ! j = 0"
proof -
  let ?X = "old @ replicate (c - length old) 0"
  have "length ?X = c" using assms(1) by simp
  then have la: "length (take off ?X @ bs) = off + length bs" using assms(2) by simp
  have "((take off ?X @ bs) @ drop (off + length bs) ?X) ! j = drop (off + length bs) ?X ! (j - (off + length bs))"
    using assms(3) nth_append_ge [of "take off ?X @ bs" j "drop (off + length bs) ?X"]
    unfolding la max.bounded_iff by blast
  also have "\<dots> = ?X ! j" using assms by (subst nth_drop) simp_all
  also have "\<dots> = 0" using assms by (simp add: nth_append diff_less_mono)
  finally show ?thesis by simp
qed

lemma tmpfs_write_spec:
  assumes inv: "tmpfs_inv s R" and i: "i < TMPFS_MAX_FILES"
    and v: "tmpfs_view s ! i = Some (nm, old)"
    and src: "unat count \<le> length src" and nowrap: "unat offset + unat count < 2 ^ 64"
  shows "\<exists>s' r. tmpfs_write (int i) offset (Some src) count s = Some (s', r) \<and> tmpfs_inv s' R \<and>
    (if r = -1 then tmpfs_view s' = tmpfs_view s
     else r = int (fitting (unat offset) (unat count)) \<and>
       tmpfs_view s' = (if r = 0 then tmpfs_view s else (tmpfs_view s)
         [i := Some (nm, splice old (unat offset) (take (fitting (unat offset) (unat count)) src))]))"
proof -
  let ?c = "clamp_write offset count"
  let ?e = "offset + ?c"
  note d = tmpfs_invD [OF inv]
  note cl = clamp_write_spec [OF nowrap]
  have used: "in_use (tmp_files s ! i)" and old: "old = file_bytes s (tmp_files s ! i)"
    and nm: "nm = cstr (file_name (tmp_files s ! i))"
    using v i d(2) by (auto simp: view_file_def split: if_splits)
  have guards: "\<not> (int i < 0 \<or> int i \<ge> int TMPFS_MAX_FILES)" using i by simp
  show ?thesis
  proof (cases "?c = 0")
    case True
    then have "tmpfs_write (int i) offset (Some src) count s = Some (s, 0)"
      using used guards by (simp add: tmpfs_write_def Let_def)
    moreover have "fitting (unat offset) (unat count) = 0" using cl(1) True by simp
    ultimately show ?thesis using inv by simp
  next
    case c: False
    from tmpfs_grow_spec [OF inv i used cl(2) [OF c]] obtain s1 ok where
      g: "tmpfs_grow i ?e s = Some (s1, ok)" "tmpfs_inv s1 R" "tmpfs_view s1 = tmpfs_view s"
        "ok \<longrightarrow> room_for ?e (tmp_files s ! i) (tmp_files s1 ! i)" by blast
    show ?thesis
    proof (cases ok)
      case False
      then have "tmpfs_write (int i) offset (Some src) count s = Some (s1, -1)"
        using used guards c g(1) by (simp add: tmpfs_write_def Let_def)
      then show ?thesis using g(2,3) by (intro exI [of _ s1] exI [of _ "-1"]) simp
    next
      case True
      let ?f = "tmp_files s1 ! i"
      let ?bs = "take (unat ?c) src"
      let ?m = "put_bytes (mem s1) (file_data ?f + offset) ?bs"
      let ?g = "if ?e > file_size ?f then ?f\<lparr>file_size := ?e\<rparr> else ?f"
      let ?s2 = "s1\<lparr>mem := ?m\<rparr>"
      let ?s' = "?s2\<lparr>tmp_files := (tmp_files s1)[i := ?g]\<rparr>"
      note d1 = tmpfs_invD [OF g(2)]
      have roomy: "?e \<le> file_cap ?f" "in_use ?f" "file_name ?f = file_name (tmp_files s ! i)"
        using g(4) True used by (auto simp: room_for_def)
      have old1: "old = file_bytes s1 ?f"
        using g(3) v i d1(2) roomy(2) by (auto simp: view_file_def dest: arg_cong [of _ _ "\<lambda>xs. xs ! i"])
      have fok: "file_ok s1 ?f" by (rule d1(3) [OF i])
      obtain k where k: "live s1 (file_data ?f) = Some k" "file_cap ?f \<le> k"
        by (rule file_live [OF g(2) i roomy(2)])
      have bk: "unat (file_data ?f) + unat k < 2 ^ 64" by (rule kheap.region_bound [OF d1(1) k(1)])
      have cap: "unat (file_cap ?f) \<le> unat k" "unat (file_size ?f) \<le> unat (file_cap ?f)"
        "unat (file_cap ?f) \<le> 65536" using fok roomy(2) k(2) by (simp_all add: file_ok_def word_le_nat_alt)
      have lb: "length ?bs = unat ?c" using src cl(1) by (simp add: fitting_def)
      have fit: "unat offset + length ?bs \<le> unat (file_cap ?f)"
        using roomy(1) cl(3) [OF c] lb by (simp add: word_le_nat_alt)
      have len64: "length ?bs < 2 ^ 64" using fit cap by simp
      have out: "?m a = mem s1 a" if far: "\<not> unat (a - file_data ?f) < unat k" for a
      proof -
        have "\<not> unat (a - (file_data ?f + offset)) < length ?bs"
        proof
          assume near: "unat (a - (file_data ?f + offset)) < length ?bs"
          have "a - file_data ?f = offset + of_nat (unat (a - (file_data ?f + offset)))" by simp
          moreover have "unat offset + unat (a - (file_data ?f + offset)) < 2 ^ 64"
            by (rule order.strict_trans1 [of _ 65536]) (use near fit cap in linarith, simp)
          ultimately have "unat (a - file_data ?f) = unat offset + unat (a - (file_data ?f + offset))"
            by (metis unat_add_small)
          then show False using far near fit cap by linarith
        qed
        then show ?thesis unfolding put_bytes_apply [OF len64] by (simp only: if_False)
      qed
      have s2: "heap_sound ?s2 R" by (rule kheap.put_region(1) [OF d1(1) k(1) out])
      have "kheap.contents ?s2 (file_data ?f) (unat (file_cap ?f)) =
          take (unat offset) (kheap.contents s1 (file_data ?f) (unat (file_cap ?f))) @ ?bs @
          drop (unat offset + length ?bs) (kheap.contents s1 (file_data ?f) (unat (file_cap ?f)))"
        by (rule contents_put) (use bk cap fit in simp_all)
      then have buf: "kheap.contents ?s2 (file_data ?f) (unat (file_cap ?f)) =
          take (unat offset) (old @ replicate (unat (file_cap ?f) - length old) 0) @ ?bs @
          drop (unat offset + length ?bs) (old @ replicate (unat (file_cap ?f) - length old) 0)"
        unfolding buffer_contents [OF fok roomy(2)] old1 [symmetric] by (simp add: old1 file_bytes_def)
      have lo: "length old = unat (file_size ?f)" by (simp add: old1 file_bytes_def)
      have size': "unat (file_size ?g) = max (length old) (unat offset + length ?bs)"
        using cl(3) [OF c] lb lo by (auto simp: word_less_nat_alt)
      have data: "file_data ?g = file_data ?f" "file_cap ?g = file_cap ?f" "in_use ?g"
        "file_name ?g = file_name ?f" using roomy(2) by simp_all
      have "file_bytes ?s' ?g = take (unat (file_size ?g)) (kheap.contents ?s2 (file_data ?f) (unat (file_cap ?f)))"
        using size' fit cap lo by (auto simp: file_bytes_def kheap.contents_def take_map)
      also have "\<dots> = splice old (unat offset) ?bs"
        unfolding buf size' by (rule splice_buffer) (use fit cap lo in simp_all)
      finally have fb: "file_bytes ?s' ?g = splice old (unat offset) ?bs" .
      have zeros: "?m (file_data ?f + of_nat j) = 0"
        if j: "unat (file_size ?g) \<le> j" "j < unat (file_cap ?f)" for j
      proof -
        have "?m (file_data ?f + of_nat j) = kheap.contents ?s2 (file_data ?f) (unat (file_cap ?f)) ! j"
          using j by (simp add: kheap.contents_def)
        also have "\<dots> = 0" unfolding buf by (rule splice_tail) (use j size' fit lo cap in simp_all)
        finally show ?thesis .
      qed
      have sz: "file_size ?g \<le> file_cap ?f"
        using size' cap fit lo by (simp only: word_le_nat_alt)
      have "live ?s' (file_data ?f) = Some k" using k(1) by simp
      then have gok: "file_ok ?s' ?g"
        using fok k(2) zeros sz roomy(2) unfolding file_ok_def data by simp
      have keep: "keeps_file s1 ?s' (tmp_files s1 ! j) \<and>
          (in_use ?g \<longrightarrow> file_data (tmp_files s1 ! j) \<noteq> file_data ?g)"
        if j: "j < TMPFS_MAX_FILES" "j \<noteq> i" "in_use (tmp_files s1 ! j)" for j
      proof -
        have ne: "file_data (tmp_files s1 ! j) \<noteq> file_data ?f"
          using d1(2,4) i j roomy(2) by (auto simp: apart_files_def)
        then show ?thesis using put_keeps_file [OF d1(1) k(1) out ne] data(1) by simp
      qed
      have snd: "heap_sound ?s' R" using s2 by simp
      have tab: "tmp_files ?s' = (tmp_files s1)[i := ?g]" by simp
      have up: "tmpfs_inv ?s' R" "tmpfs_view ?s' = (tmpfs_view s1)[i := view_file ?s' ?g]"
        using update_slot [OF g(2) i snd tab gok] keep by blast+
      have vf: "view_file ?s' ?g = Some (nm, splice old (unat offset) ?bs)"
        using fb data(3,4) roomy(3) nm by (simp add: view_file_def)
      have run: "tmpfs_write (int i) offset (Some src) count s = Some (?s', uint ?c)"
        using used guards c g(1) True by (simp add: tmpfs_write_def Let_def)
      have "unat ?c \<noteq> 0" using c by (simp add: unat_eq_zero)
      then have num: "uint ?c = int (fitting (unat offset) (unat count))" "uint ?c \<noteq> -1" "uint ?c \<noteq> 0"
        using cl(1) unfolding uint_nat by simp_all
      define t where "t = ?s'"
      note run' = run [folded t_def] and inv' = up(1) [folded t_def] and view' = up(2) [unfolded vf g(3), folded t_def]
      show ?thesis
      proof (intro exI conjI)
        show "tmpfs_write (int i) offset (Some src) count s = Some (t, uint ?c)" by (rule run')
        show "tmpfs_inv t R" by (rule inv')
        show "if uint ?c = -1 then tmpfs_view t = tmpfs_view s
          else uint ?c = int (fitting (unat offset) (unat count)) \<and>
            tmpfs_view t = (if uint ?c = 0 then tmpfs_view s else (tmpfs_view s)
              [i := Some (nm, splice old (unat offset) (take (fitting (unat offset) (unat count)) src))])"
          unfolding if_not_P [OF num(2)] if_not_P [OF num(3)]
          using num(1) view' unfolding cl(1) by (rule conjI)
      qed
    qed
  qed
qed

lemma tmpfs_read_spec:
  assumes inv: "tmpfs_inv s R" and i: "i < TMPFS_MAX_FILES"
    and v: "tmpfs_view s ! i = Some (nm, old)"
  shows "tmpfs_read s (int i) offset False count = Some (take (unat count) (drop (unat offset) old))"
proof -
  let ?f = "tmp_files s ! i"
  note d = tmpfs_invD [OF inv]
  have used: "in_use ?f" and old: "old = file_bytes s ?f"
    using v i d(2) by (auto simp: view_file_def split: if_splits)
  have lo: "length old = unat (file_size ?f)" by (simp add: old file_bytes_def)
  have guards: "\<not> (int i < 0 \<or> int i \<ge> int TMPFS_MAX_FILES)" using i by simp
  show ?thesis
  proof (cases "offset \<ge> file_size ?f")
    case True
    then show ?thesis using used guards lo by (simp add: tmpfs_read_def Let_def word_le_nat_alt)
  next
    case False
    then have lt: "unat offset < unat (file_size ?f)" by (simp add: word_le_nat_alt)
    let ?n = "unat (if count > file_size ?f - offset then file_size ?f - offset else count)"
    have n: "?n = min (unat count) (unat (file_size ?f) - unat offset)"
      using lt by (auto simp: unat_sub word_less_nat_alt word_le_nat_alt)
    have "map (\<lambda>j. mem s (file_data ?f + (offset + of_nat j))) [0 ..< ?n] =
        take (unat count) (drop (unat offset) old)"
    proof (rule nth_equalityI)
      show "length (map (\<lambda>j. mem s (file_data ?f + (offset + of_nat j))) [0 ..< ?n]) =
          length (take (unat count) (drop (unat offset) old))" using lo n by simp
      fix j assume "j < length (map (\<lambda>j. mem s (file_data ?f + (offset + of_nat j))) [0 ..< ?n])"
      then have j: "j < ?n" by simp
      then have "unat offset + j < unat (file_size ?f)" "j < unat count" using n lt by linarith+
      then show "map (\<lambda>j. mem s (file_data ?f + (offset + of_nat j))) [0 ..< ?n] ! j =
          take (unat count) (drop (unat offset) old) ! j"
        using j lo lt unfolding old file_bytes_def kheap.contents_def by (simp add: add.assoc)
    qed
    then show ?thesis using used guards False by (simp add: tmpfs_read_def Let_def)
  qed
qed

section \<open>Creating and unlinking\<close>

text \<open>The slot a name leads to.\<close>

definition slot_of :: "(u8 list \<times> u8 list) option list \<Rightarrow> u8 list \<Rightarrow> nat option" where
  "slot_of vs name = find_idx (\<lambda>v. \<exists>bs. v = Some (name, bs)) vs"

lemma find_named:
  "find_idx (named nm) (tmp_files s) = slot_of (tmpfs_view s) (cstr nm)"
  unfolding slot_of_def
  by (rule find_idx_cong) (auto simp: named_def view_file_def strcmp_eq_0_iff)

lemma tmpfs_open_spec:
  "tmpfs_open s (Some nm) = (case slot_of (tmpfs_view s) (cstr nm) of None \<Rightarrow> -1 | Some i \<Rightarrow> int i)"
  by (simp add: tmpfs_open_def find_named)

lemma slot_ofD:
  assumes "slot_of (tmpfs_view s) name = Some i"
  shows "i < length (tmp_files s)" and "\<exists>bs. tmpfs_view s ! i = Some (name, bs)"
  using find_idx_SomeD(1,2) [OF assms [unfolded slot_of_def]] by simp_all

definition free_slot :: "(u8 list \<times> u8 list) option list \<Rightarrow> nat option" where
  "free_slot vs = find_idx (\<lambda>v. v = None) vs"

lemma find_free: "find_idx (\<lambda>f. \<not> in_use f) (tmp_files s) = free_slot (tmpfs_view s)"
  unfolding free_slot_def by (rule find_idx_cong) (auto simp: view_file_def)

lemma tmpfs_create_spec:
  assumes inv: "tmpfs_inv s R"
  shows "\<exists>s' r. tmpfs_create (Some nm) s = Some (s', r) \<and> tmpfs_inv s' R \<and>
    (case slot_of (tmpfs_view s) (cstr nm) of
       Some i \<Rightarrow> r = int i \<and> tmpfs_view s' = tmpfs_view s
     | None \<Rightarrow> r = -1 \<and> tmpfs_view s' = tmpfs_view s \<or>
         (\<exists>i. free_slot (tmpfs_view s) = Some i \<and> r = int i \<and>
            tmpfs_view s' = (tmpfs_view s)[i := Some (take 99 (cstr nm), [])]))"
proof -
  note d = tmpfs_invD [OF inv]
  show ?thesis
  proof (cases "slot_of (tmpfs_view s) (cstr nm)")
    case (Some i)
    then have "tmpfs_create (Some nm) s = Some (s, int i)"
      by (simp add: tmpfs_create_def tmpfs_open_spec Let_def)
    then show ?thesis using inv Some by simp
  next
    case None
    have new: "tmpfs_open s (Some nm) = -1" using None by (simp add: tmpfs_open_spec)
    show ?thesis
    proof (cases "free_slot (tmpfs_view s)")
      case full: None
      then have "tmpfs_create (Some nm) s = Some (s, -1)"
        using new by (simp add: tmpfs_create_def find_free Let_def)
      then show ?thesis using inv None by simp
    next
      case (Some i)
      have i: "i < TMPFS_MAX_FILES" and unused: "\<not> in_use (tmp_files s ! i)"
        using find_idx_SomeD(1,2) [OF Some [unfolded free_slot_def]] d(2)
        by (auto simp: view_file_def split: if_splits)
      obtain s1 p where al: "kmalloc TMPFS_INITIAL_CAP s = Some (s1, p)"
        using kheap.alloc_total [OF d(1)] by blast
      have t1: "tmp_files s1 = tmp_files s" by (rule files_more [OF more_kmalloc [OF al]])
      have s1: "heap_sound s1 R" by (rule kheap.alloc_inv [OF d(1) al])
      have k1: "keeps_file s s1 f" for f by (rule alloc_keeps_file [OF d(1) al])
      show ?thesis
      proof (cases "p = 0")
        case True
        then have "tmpfs_create (Some nm) s = Some (s1, -1)"
          using new Some al by (simp add: tmpfs_create_def find_free Let_def)
        moreover have "tmpfs_inv s1 R" "tmpfs_view s1 = tmpfs_view s"
          using same_slots [OF inv s1 t1 k1] by blast+
        ultimately show ?thesis using None by simp
      next
        case False
        let ?f = "tmp_files s ! i"
        let ?g = "?f\<lparr>file_name := copy_name 99 nm (file_name ?f), file_data := p, file_size := 0,
          file_cap := TMPFS_INITIAL_CAP, in_use := True\<rparr>"
        let ?m = "memset (mem s1) p 0 4096"
        let ?s2 = "s1\<lparr>mem := ?m\<rparr>"
        let ?s' = "?s2\<lparr>tmp_files := (tmp_files s1)[i := ?g]\<rparr>"
        obtain k where k: "live s p = None" "TMPFS_INITIAL_CAP \<le> k" "live s1 = (live s)(p \<mapsto> k)"
          using kheap.alloc_new [OF d(1) al False] by blast
        have lp: "live s1 p = Some k" using k(3) by simp
        have k4: "4096 \<le> unat k" using k(2) by (simp add: word_le_nat_alt)
        have out: "\<not> unat (a - p) < unat k \<Longrightarrow> ?m a = mem s1 a" for a using k4 by simp
        have s2: "heap_sound ?s2 R" by (rule kheap.put_region(1) [OF s1 lp out])
        have bound: "unat p + unat k < 2 ^ 64" by (rule kheap.region_bound [OF s1 lp])
        have zero: "?m (p + of_nat j) = 0" if "j < 4096" for j
          using offset_dist(1) [OF bound, of j] that k4 by simp
        have nmlen: "length (file_name ?f) = 100" using d(3) [OF i] by (simp add: file_ok_def)
        have gok: "file_ok ?s' ?g" using lp k(2) zero nmlen by (auto simp: file_ok_def)
        have keep: "keeps_file s ?s' (tmp_files s ! j) \<and>
            (in_use ?g \<longrightarrow> file_data (tmp_files s ! j) \<noteq> file_data ?g)"
          if j: "j < TMPFS_MAX_FILES" "j \<noteq> i" "in_use (tmp_files s ! j)" for j
        proof -
          obtain l where "live s (file_data (tmp_files s ! j)) = Some l"
            by (rule file_live [OF inv j(1,3)])
          then have ne: "file_data (tmp_files s ! j) \<noteq> p" using k(1) by auto
          then show ?thesis using keeps_trans [OF k1 put_keeps_file [OF s1 lp out ne]] by simp
        qed
        have "heap_sound ?s' R" using s2 by simp
        moreover have "tmp_files ?s' = (tmp_files s)[i := ?g]" by (simp add: t1)
        ultimately have "tmpfs_inv ?s' R" "tmpfs_view ?s' = (tmpfs_view s)[i := view_file ?s' ?g]"
          using update_slot [OF inv i _ _ gok keep] by blast+
        moreover have "view_file ?s' ?g = Some (take 99 (cstr nm), [])"
          using cstr_copy_name [of 99 "file_name ?f" nm] nmlen
          by (simp add: view_file_def file_bytes_def kheap.contents_def)
        moreover have "tmpfs_create (Some nm) s = Some (?s', int i)"
          using new Some al False by (simp add: tmpfs_create_def find_free Let_def t1)
        ultimately show ?thesis using None Some by (intro exI [of _ ?s'] exI [of _ "int i"]) simp
      qed
    qed
  qed
qed

lemma tmpfs_unlink_spec:
  assumes inv: "tmpfs_inv s R"
  shows "\<exists>s' r. tmpfs_unlink (Some nm) s = Some (s', r) \<and> tmpfs_inv s' R \<and>
    (case slot_of (tmpfs_view s) (cstr nm) of
       None \<Rightarrow> r = -1 \<and> s' = s
     | Some i \<Rightarrow> r = 0 \<and> tmpfs_view s' = (tmpfs_view s)[i := None])"
proof -
  note d = tmpfs_invD [OF inv]
  show ?thesis
  proof (cases "slot_of (tmpfs_view s) (cstr nm)")
    case None
    then show ?thesis using inv by (simp add: tmpfs_unlink_def find_named)
  next
    case (Some i)
    let ?f = "tmp_files s ! i"
    have i: "i < TMPFS_MAX_FILES" and used: "in_use ?f"
      using slot_ofD [OF Some] d(2) by (auto simp: view_file_def split: if_splits)
    obtain k where k: "live s (file_data ?f) = Some k" by (rule file_live [OF inv i used])
    obtain s1 where f: "kfree (file_data ?f) s = Some s1" "heap_sound s1 R"
      "live s1 = (live s)(file_data ?f := None)" using kheap.free_ok [OF d(1) k] by blast
    have t1: "tmp_files s1 = tmp_files s" by (rule files_more [OF more_kfree [OF f(1)]])
    have nz: "file_data ?f \<noteq> 0" using live_region(4) k d(1) by (auto simp: heap_sound_def)
    let ?g = "clear_file ?f"
    let ?s' = "s1\<lparr>tmp_files := (tmp_files s1)[i := ?g]\<rparr>"
    have gok: "file_ok ?s' ?g" using d(3) [OF i] by (simp add: file_ok_def clear_file_def)
    have keep: "keeps_file s ?s' (tmp_files s ! j) \<and>
        (in_use ?g \<longrightarrow> file_data (tmp_files s ! j) \<noteq> file_data ?g)"
      if j: "j < TMPFS_MAX_FILES" "j \<noteq> i" "in_use (tmp_files s ! j)" for j
    proof -
      have "file_data (tmp_files s ! j) \<noteq> file_data ?f"
        using d(2,4) i j used by (auto simp: apart_files_def)
      then show ?thesis using f(3) kheap.contents_free [OF d(1) f(1)]
        by (simp add: keeps_file_def clear_file_def)
    qed
    have "heap_sound ?s' R" using f(2) by simp
    moreover have "tmp_files ?s' = (tmp_files s)[i := ?g]" by (simp add: t1)
    ultimately have "tmpfs_inv ?s' R" "tmpfs_view ?s' = (tmpfs_view s)[i := view_file ?s' ?g]"
      using update_slot [OF inv i _ _ gok keep] by blast+
    moreover have "view_file ?s' ?g = None" by (simp add: view_file_def clear_file_def)
    moreover have "tmpfs_unlink (Some nm) s = Some (?s', 0)"
      using Some nz f(1) by (simp add: tmpfs_unlink_def find_named Let_def t1)
    ultimately show ?thesis using Some by (intro exI [of _ ?s'] exI [of _ 0]) simp
  qed
qed

end
