(* ===== verification/Tar.thy ===== *)
theory Tar
  imports ByteMem CString
begin

text \<open>
  The read-only archive of the boot module, \<^verbatim>\<open>fs/tar.c\<close>. The archive is a range of kernel memory that
  the code walks header by header; nothing bounds the walk but the empty name at the end, so the
  walks are partial functions whose outer \<^const>\<open>None\<close> is a walk that does not end. The last sections
  give the layout of an archive with given files and prove that the walks end on it and find them.
\<close>

section \<open>Reading headers\<close>

text \<open>A character is a signed byte, so a byte below the digit 0 counts as a negative digit.\<close>

fun octal_to_int_loop :: "u8 list \<Rightarrow> u64 \<Rightarrow> u64" where
  "octal_to_int_loop [] result = result"
| "octal_to_int_loop (c # cs) result =
     (if c \<noteq> 0 \<and> c \<noteq> 32 then octal_to_int_loop cs (result * 8 + (scast c - 48)) else result)"

definition octal_to_int :: "u8 list \<Rightarrow> u64" where
  "octal_to_int str = octal_to_int_loop str 0"

text \<open>The size field of the header at an address, and the header after it.\<close>

definition tar_size :: "bmem \<Rightarrow> u64 \<Rightarrow> u64" where
  "tar_size m ptr = octal_to_int (mem_bytes m (ptr + 124) 11)"

definition tar_next :: "bmem \<Rightarrow> u64 \<Rightarrow> u64" where
  "tar_next m ptr = ptr + (512 + ((tar_size m ptr + 511) div 512) * 512)"

text \<open>
  \<^verbatim>\<open>strcmp(header->filename, filename) == 0\<close>: the comparison ends at the terminator of the second
  string at the latest.
\<close>

definition tar_named :: "bmem \<Rightarrow> u64 \<Rightarrow> u8 list \<Rightarrow> bool" where
  "tar_named m ptr filename \<longleftrightarrow> strcmp (mem_bytes m ptr (Suc (length filename))) filename = 0"

section \<open>Operations\<close>

partial_function (option) tar_find :: "bmem \<Rightarrow> u8 list \<Rightarrow> u64 \<Rightarrow> (u64 \<times> u64) option option" where
  "tar_find m filename ptr =
     (if m ptr = 0 then Some None
      else if tar_named m ptr filename then Some (Some (ptr + 512, tar_size m ptr))
      else tar_find m filename (tar_next m ptr))"

definition tar_read_file :: "bmem \<Rightarrow> u64 \<Rightarrow> u8 list \<Rightarrow> (u64 \<times> u64) option option" where
  "tar_read_file m tar_archive filename =
     (if tar_archive = 0 then Some None else tar_find m filename tar_archive)"

text \<open>The calls of the callback, in order: the header's address and the size.\<close>

partial_function (option) tar_list :: "bmem \<Rightarrow> u64 \<Rightarrow> (u64 \<times> u64) list option" where
  "tar_list m ptr =
     (if m ptr = 0 then Some []
      else Option.bind (tar_list m (tar_next m ptr)) (\<lambda>calls. Some ((ptr, tar_size m ptr) # calls)))"

definition tar_list_files :: "bmem \<Rightarrow> u64 \<Rightarrow> (u64 \<times> u64) list option" where
  "tar_list_files m tar_archive = (if tar_archive = 0 then Some [] else tar_list m tar_archive)"

partial_function (option) tar_entry ::
    "bmem \<Rightarrow> int \<Rightarrow> u8 list \<Rightarrow> int \<Rightarrow> u64 \<Rightarrow> (u8 list \<times> u64) option option" where
  "tar_entry m index name_buf current ptr =
     (if m ptr = 0 then Some None
      else if current = index
      then Some (Some (copy_name 99 (mem_bytes m ptr 100) name_buf, tar_size m ptr))
      else tar_entry m index name_buf (current + 1) (tar_next m ptr))"

definition tar_get_entry :: "bmem \<Rightarrow> u64 \<Rightarrow> int \<Rightarrow> u8 list \<Rightarrow> (u8 list \<times> u64) option option" where
  "tar_get_entry m tar_archive index name_buf =
     (if tar_archive = 0 then Some None else tar_entry m index name_buf 0 tar_archive)"

section \<open>Archives\<close>

text \<open>A file as the archive stores it: a header block and the contents, padded to whole blocks.\<close>

fun octal_digits :: "nat \<Rightarrow> nat \<Rightarrow> u8 list" where
  "octal_digits 0 v = []"
| "octal_digits (Suc k) v = octal_digits k (v div 8) @ [48 + of_nat (v mod 8)]"

definition pad_to :: "nat \<Rightarrow> u8 list \<Rightarrow> u8 list" where
  "pad_to n xs = xs @ replicate (n - length xs) 0"

definition tar_header :: "u8 list \<Rightarrow> nat \<Rightarrow> u8 list" where
  "tar_header name len = pad_to 512 (pad_to 124 name @ octal_digits 11 len)"

definition blocks :: "nat \<Rightarrow> nat" where
  "blocks len = (len + 511) div 512 * 512"

primrec tar_image :: "(u8 list \<times> u8 list) list \<Rightarrow> u8 list" where
  "tar_image [] = [0]"
| "tar_image (f # fs) =
     tar_header (fst f) (length (snd f)) @ pad_to (blocks (length (snd f))) (snd f) @ tar_image fs"

definition tar_file_ok :: "u8 list \<times> u8 list \<Rightarrow> bool" where
  "tar_file_ok f \<longleftrightarrow> fst f \<noteq> [] \<and> 0 \<notin> set (fst f) \<and> length (fst f) < 100 \<and> length (snd f) < 8 ^ 11"

text \<open>An archive with given files in memory, as the walks see it.\<close>

primrec archive_at :: "bmem \<Rightarrow> u64 \<Rightarrow> (u8 list \<times> u8 list) list \<Rightarrow> bool" where
  "archive_at m p [] \<longleftrightarrow> m p = 0"
| "archive_at m p (f # fs) \<longleftrightarrow>
     tar_file_ok f \<and> pad_to 100 (fst f) = mem_bytes m p 100 \<and> tar_size m p = of_nat (length (snd f)) \<and>
     mem_bytes m (p + 512) (length (snd f)) = snd f \<and>
     archive_at m (p + (512 + of_nat (blocks (length (snd f))))) fs"

section \<open>Octal numbers\<close>

lemma octal_digit:
  assumes "d < 8"
  shows "(48 + of_nat d :: u8) \<noteq> 0" and "(48 + of_nat d :: u8) \<noteq> 32"
    and "scast (48 + of_nat d :: u8) = (48 + of_nat d :: u64)"
proof -
  have "d \<in> {0, 1, 2, 3, 4, 5, 6, 7}" using assms by auto
  then show "(48 + of_nat d :: u8) \<noteq> 0" "(48 + of_nat d :: u8) \<noteq> 32"
    "scast (48 + of_nat d :: u8) = (48 + of_nat d :: u64)" by auto
qed

lemma octal_loop_append:
  "(\<forall>c \<in> set xs. c \<noteq> 0 \<and> c \<noteq> 32) \<Longrightarrow>
   octal_to_int_loop (xs @ ys) r = octal_to_int_loop ys (octal_to_int_loop xs r)"
  by (induction xs arbitrary: r) auto

lemma octal_digits_chars: "c \<in> set (octal_digits k v) \<Longrightarrow> c \<noteq> 0 \<and> c \<noteq> 32"
  by (induction k v rule: octal_digits.induct) (auto simp: octal_digit)

lemma length_octal_digits [simp]: "length (octal_digits k v) = k"
  by (induction k v rule: octal_digits.induct) auto

lemma octal_loop_digits:
  "octal_to_int_loop (octal_digits k v) r = r * 8 ^ k + of_nat (v mod 8 ^ k)"
proof (induction k v arbitrary: r rule: octal_digits.induct)
  case (1 v)
  then show ?case by simp
next
  case (2 k v)
  have split: "v mod 8 ^ Suc k = (v div 8 mod 8 ^ k) * 8 + v mod 8"
    using mod_mult2_eq [of v 8 "8 ^ k"] by (simp add: mult.commute)
  have d: "v mod 8 < 8" by simp
  have "octal_to_int_loop (octal_digits (Suc k) v) r =
      octal_to_int_loop [48 + of_nat (v mod 8)] (octal_to_int_loop (octal_digits k (v div 8)) r)"
    using octal_digits_chars by (simp only: octal_digits.simps) (subst octal_loop_append, auto)
  also have "\<dots> = octal_to_int_loop (octal_digits k (v div 8)) r * 8 + of_nat (v mod 8)"
    using octal_digit [OF d] by simp
  also have "\<dots> = r * 8 ^ Suc k + of_nat (v mod 8 ^ Suc k)"
    unfolding 2 split by (simp add: algebra_simps)
  finally show ?case .
qed

lemma octal_to_int_digits: "v < 8 ^ k \<Longrightarrow> octal_to_int (octal_digits k v) = of_nat v"
  by (simp add: octal_to_int_def octal_loop_digits)

section \<open>Bytes in memory\<close>

text \<open>A terminated string reads the same however many bytes beyond its end are looked at.\<close>

lemma cstr_mem_bytes:
  "cstr (mem_bytes m p k) = x \<Longrightarrow> length x < k \<Longrightarrow> length x < j \<Longrightarrow> cstr (mem_bytes m p j) = x"
proof (induction x arbitrary: p k j)
  case Nil
  then show ?case by (cases k; cases j) (auto simp: mem_bytes_Suc split: if_splits)
next
  case (Cons c x)
  then obtain k' j' where "k = Suc k'" "j = Suc j'" by (cases k; cases j) auto
  then show ?case using Cons.prems Cons.IH [of "p + 1" k' j'] by (auto simp: mem_bytes_Suc split: if_splits)
qed

lemma length_pad_to [simp]: "length (pad_to n xs) = max n (length xs)"
  by (simp add: pad_to_def)

lemma take_pad_to: "length xs \<le> k \<Longrightarrow> k \<le> n \<Longrightarrow> take k (pad_to n xs) = pad_to k xs"
  by (auto simp: pad_to_def)

lemma cstr_pad_to: "0 \<notin> set xs \<Longrightarrow> length xs < n \<Longrightarrow> cstr (pad_to n xs) = xs"
proof -
  assume "0 \<notin> set xs" "length xs < n"
  moreover have "replicate (n - length xs) (0 :: u8) = 0 # replicate (n - length xs - 1) 0"
    using \<open>length xs < n\<close> by (metis Suc_diff_Suc diff_Suc_1 minus_nat.diff_0 replicate_Suc zero_less_diff Suc_pred)
  ultimately show ?thesis by (simp add: pad_to_def cstr_append_nul)
qed

lemma length_tar_header [simp]: "length name < 100 \<Longrightarrow> length (tar_header name len) = 512"
  by (simp add: tar_header_def)

lemma tar_header_name: "length name < 100 \<Longrightarrow> take 100 (tar_header name len) = pad_to 100 name"
  by (simp add: tar_header_def take_pad_to) (simp add: pad_to_def)

lemma tar_header_size: "length name < 100 \<Longrightarrow> take 11 (drop 124 (tar_header name len)) = octal_digits 11 len"
  by (simp add: tar_header_def pad_to_def)

lemma blocks_ge: "len \<le> blocks len"
  by (simp add: blocks_def)

text \<open>The image of an archive, laid out in memory, is an archive.\<close>

lemma archive_of_image:
  "\<forall>f \<in> set fs. tar_file_ok f \<Longrightarrow> mem_bytes m p (length (tar_image fs)) = tar_image fs \<Longrightarrow> archive_at m p fs"
proof (induction fs arbitrary: p)
  case Nil
  then show ?case by (simp add: mem_bytes_def)
next
  case (Cons f fs)
  let ?n = "length (snd f)"
  let ?l = "length (tar_image (f # fs))"
  have ok: "tar_file_ok f" using Cons.prems(1) by simp
  then have nm: "length (fst f) < 100" by (simp add: tar_file_ok_def)
  have len: "?l = 512 + (blocks ?n + length (tar_image fs))" using nm blocks_ge [of ?n] by simp
  have sub: "mem_bytes m (p + of_nat k) n = take n (drop k (tar_image (f # fs)))" if "k + n \<le> ?l" for k n
    using mem_bytes_sub [OF that, of m p] Cons.prems(2) by simp
  have "mem_bytes m p 100 = pad_to 100 (fst f)"
    using sub [of 0 100] len tar_header_name [OF nm, of ?n] nm by simp
  moreover have "mem_bytes m (p + 124) 11 = octal_digits 11 ?n"
    using sub [of 124 11] len tar_header_size [OF nm, of ?n] nm by simp
  then have "tar_size m p = of_nat ?n"
    using ok octal_to_int_digits [of ?n 11] by (simp add: tar_size_def tar_file_ok_def)
  moreover have "mem_bytes m (p + 512) ?n = snd f"
    using sub [of 512 ?n] len nm blocks_ge [of ?n] by (simp add: take_pad_to pad_to_def)
  moreover have "mem_bytes m (p + of_nat (512 + blocks ?n)) (length (tar_image fs)) = tar_image fs"
    using sub [of "512 + blocks ?n" "length (tar_image fs)"] len nm blocks_ge [of ?n] by simp
  then have "archive_at m (p + (512 + of_nat (blocks ?n))) fs"
    using Cons.IH Cons.prems(1) by simp
  ultimately show ?case using ok by simp
qed

section \<open>The walks over an archive\<close>

lemma archive_next:
  assumes "archive_at m p (f # fs)"
  shows "tar_next m p = p + (512 + of_nat (blocks (length (snd f))))"
proof -
  have sz: "tar_size m p = of_nat (length (snd f))" and small: "length (snd f) < 8 ^ 11"
    using assms by (simp_all add: tar_file_ok_def)
  have "unat (of_nat (length (snd f)) + 511 :: u64) = length (snd f) + 511"
    using small by (simp add: unat_word_ariths unat_of_nat)
  then have "(of_nat (length (snd f)) + 511 :: u64) div 512 = of_nat ((length (snd f) + 511) div 512)"
    by (simp add: word_arith_nat_div)
  then show ?thesis by (simp add: tar_next_def sz blocks_def)
qed

lemma archive_first:
  assumes "archive_at m p (f # fs)"
  shows "m p \<noteq> 0" and "cstr (mem_bytes m p 100) = fst f"
proof -
  have ok: "tar_file_ok f" and nm: "mem_bytes m p 100 = pad_to 100 (fst f)" using assms by simp_all
  show c: "cstr (mem_bytes m p 100) = fst f" unfolding nm using ok by (intro cstr_pad_to) (auto simp: tar_file_ok_def)
  have "mem_bytes m p (Suc 99) = m p # mem_bytes m (p + 1) 99" by (rule mem_bytes_Suc)
  then show "m p \<noteq> 0" using c ok by (auto simp: tar_file_ok_def)
qed

lemma archive_named:
  assumes "archive_at m p (f # fs)"
  shows "tar_named m p name \<longleftrightarrow> fst f = cstr name"
proof -
  have c: "cstr (mem_bytes m p 100) = fst f" by (rule archive_first [OF assms])
  have n: "length (fst f) < 100" using assms by (simp add: tar_file_ok_def)
  let ?k = "Suc (length name)"
  have l: "length (cstr name) < ?k" using length_cstr_le [of name] by simp
  have "cstr (mem_bytes m p ?k) = cstr name \<longleftrightarrow> fst f = cstr name"
  proof (cases "length (fst f) < ?k")
    case True
    then show ?thesis using cstr_mem_bytes [OF c n, of ?k] by auto
  next
    case False
    then show ?thesis using cstr_mem_bytes [of m p ?k "cstr name" 100] n l c by auto
  qed
  then show ?thesis by (simp add: tar_named_def strcmp_eq_0_iff)
qed

fun entry_addr :: "u64 \<Rightarrow> (u8 list \<times> u8 list) list \<Rightarrow> nat \<Rightarrow> u64" where
  "entry_addr p [] i = p"
| "entry_addr p (f # fs) 0 = p"
| "entry_addr p (f # fs) (Suc i) = entry_addr (p + (512 + of_nat (blocks (length (snd f))))) fs i"

lemma archive_entry:
  "archive_at m p fs \<Longrightarrow> i < length fs \<Longrightarrow>
   mem_bytes m (entry_addr p fs i + 512) (length (snd (fs ! i))) = snd (fs ! i) \<and>
   cstr (mem_bytes m (entry_addr p fs i) 100) = fst (fs ! i)"
proof (induction p fs i rule: entry_addr.induct)
  case (2 p f fs)
  then show ?case using archive_first(2) [of m p f fs] by auto
qed auto

abbreviation file_len :: "u8 list \<times> u8 list \<Rightarrow> u64" where
  "file_len f \<equiv> of_nat (length (snd f))"

lemma tar_find_archive:
  "archive_at m p fs \<Longrightarrow>
   tar_find m name p = Some (map_option (\<lambda>i. (entry_addr p fs i + 512, file_len (fs ! i)))
     (find_idx (\<lambda>f. fst f = cstr name) fs))"
proof (induction fs arbitrary: p)
  case Nil
  then show ?case by (simp add: tar_find.simps)
next
  case (Cons f fs)
  have sz: "tar_size m p = file_len f" using Cons.prems by simp
  show ?case
  proof (cases "fst f = cstr name")
    case True
    then show ?thesis
      by (simp add: tar_find.simps [of m name p] archive_first [OF Cons.prems] archive_named [OF Cons.prems] sz)
  next
    case False
    then have "tar_find m name p = tar_find m name (tar_next m p)"
      by (simp add: tar_find.simps [of m name p] archive_first [OF Cons.prems] archive_named [OF Cons.prems])
    then show ?thesis using Cons False
      by (simp add: archive_next [OF Cons.prems] option.map_comp comp_def)
  qed
qed

lemma tar_list_archive:
  "archive_at m p fs \<Longrightarrow>
   tar_list m p = Some (map (\<lambda>i. (entry_addr p fs i, file_len (fs ! i))) [0..<length fs])"
proof (induction fs arbitrary: p)
  case Nil
  then show ?case by (simp add: tar_list.simps)
next
  case (Cons f fs)
  have sz: "tar_size m p = file_len f" using Cons.prems by simp
  have "map (\<lambda>i. (entry_addr p (f # fs) i, file_len ((f # fs) ! i))) [0..<Suc (length fs)] =
     (p, file_len f) # map (\<lambda>i. (entry_addr (tar_next m p) fs i, file_len (fs ! i))) [0..<length fs]"
    by (rule nth_equalityI)
      (auto simp: nth_Cons archive_next [OF Cons.prems] simp del: upt_Suc split: nat.split)
  then show ?case using Cons
    by (simp add: tar_list.simps [of m p] archive_first [OF Cons.prems] archive_next [OF Cons.prems] sz del: upt_Suc)
qed

lemma tar_entry_archive:
  "archive_at m p fs \<Longrightarrow>
   tar_entry m index buf cur p = Some
     (if cur \<le> index \<and> index < cur + int (length fs)
      then let i = nat (index - cur) in
        Some (copy_name 99 (mem_bytes m (entry_addr p fs i) 100) buf, file_len (fs ! i))
      else None)"
proof (induction fs arbitrary: p cur)
  case Nil
  then show ?case by (simp add: tar_entry.simps)
next
  case (Cons f fs)
  have sz: "tar_size m p = file_len f" using Cons.prems by simp
  note step = tar_entry.simps [of m index buf cur p]
  show ?case
  proof (cases "cur = index")
    case True
    then show ?thesis by (subst step) (simp add: archive_first [OF Cons.prems] sz)
  next
    case False
    then have "tar_entry m index buf cur p = tar_entry m index buf (cur + 1) (tar_next m p)"
      by (simp add: step archive_first [OF Cons.prems])
    moreover have "nat (index - cur) = Suc (nat (index - (cur + 1)))" if "cur + 1 \<le> index"
      using that by simp
    ultimately show ?thesis using Cons False by (auto simp: archive_next [OF Cons.prems] Let_def)
  qed
qed

section \<open>Properties\<close>



end
