(* ===== verification/Cache.thy ===== *)
theory Cache
  imports ByteMem CString
begin

text \<open>
  The block cache between the file layer and the archive, \<^verbatim>\<open>fs/cache.c\<close>: 128 blocks of 4 KiB found
  through a hash table with chains and evicted in the order of a doubly linked list. Pointers into the
  pool are indices, the null pointer is \<^const>\<open>None\<close>, and every link is updated as the code does it. A
  walk along a chain is a partial function: on a cyclic chain it would not end.
\<close>

section \<open>State\<close>

record cache_entry =
  valid :: bool
  ce_name :: "u8 list"
  block_index :: u32
  ce_data :: "u8 list"
  bytes_valid :: u32
  lru_prev :: "nat option"
  lru_next :: "nat option"
  hash_next :: "nat option"

record cache_stats =
  hits :: u64
  misses :: u64
  evictions :: u64
  used_blocks :: u32
  total_blocks :: u32

record cache_state =
  pool :: "cache_entry list"
  hash_table :: "nat option list"
  lru_head :: "nat option"
  lru_tail :: "nat option"
  free_hint :: nat
  stats :: cache_stats

abbreviation CACHE_BLOCK_SIZE :: u64 where "CACHE_BLOCK_SIZE \<equiv> 4096"
abbreviation CACHE_MAX_BLOCKS :: nat where "CACHE_MAX_BLOCKS \<equiv> 128"
abbreviation CACHE_HASH_BUCKETS :: nat where "CACHE_HASH_BUCKETS \<equiv> 64"
abbreviation CACHE_NAME_MAX :: nat where "CACHE_NAME_MAX \<equiv> 64"

definition upd :: "nat \<Rightarrow> (cache_entry \<Rightarrow> cache_entry) \<Rightarrow> cache_state \<Rightarrow> cache_state" where
  "upd i f s = s\<lparr>pool := (pool s)[i := f (pool s ! i)]\<rparr>"

section \<open>The hash function\<close>

definition cache_hash :: "u8 list \<Rightarrow> u32 \<Rightarrow> nat" where
  "cache_hash name blk =
     unat (foldl (\<lambda>h c. h * 31 + ucast c) (blk * 2654435761) (cstr name) AND (of_nat CACHE_HASH_BUCKETS - 1))"

section \<open>The list of recent use\<close>

definition lru_remove :: "nat \<Rightarrow> cache_state \<Rightarrow> cache_state" where
  "lru_remove e s =
     (let s = (case lru_prev (pool s ! e) of
                 Some p \<Rightarrow> upd p (\<lambda>x. x\<lparr>lru_next := lru_next (pool s ! e)\<rparr>) s
               | None \<Rightarrow> s\<lparr>lru_head := lru_next (pool s ! e)\<rparr>);
          s = (case lru_next (pool s ! e) of
                 Some n \<Rightarrow> upd n (\<lambda>x. x\<lparr>lru_prev := lru_prev (pool s ! e)\<rparr>) s
               | None \<Rightarrow> s\<lparr>lru_tail := lru_prev (pool s ! e)\<rparr>)
      in upd e (\<lambda>x. x\<lparr>lru_prev := None, lru_next := None\<rparr>) s)"

definition lru_push_head :: "nat \<Rightarrow> cache_state \<Rightarrow> cache_state" where
  "lru_push_head e s =
     (let s = upd e (\<lambda>x. x\<lparr>lru_prev := None, lru_next := lru_head s\<rparr>) s;
          s = (case lru_head s of
                 Some h \<Rightarrow> upd h (\<lambda>x. x\<lparr>lru_prev := Some e\<rparr>) s
               | None \<Rightarrow> s);
          s = s\<lparr>lru_head := Some e\<rparr>
      in if lru_tail s = None then s\<lparr>lru_tail := Some e\<rparr> else s)"

definition lru_promote :: "nat \<Rightarrow> cache_state \<Rightarrow> cache_state" where
  "lru_promote e s = lru_push_head e (lru_remove e s)"

section \<open>The hash table\<close>

text \<open>The places a chain pointer is kept in, for the pointer to a pointer of the removal loops.\<close>

datatype link = Bucket nat | NextOf nat

primrec read_link :: "link \<Rightarrow> cache_state \<Rightarrow> nat option" where
  "read_link (Bucket b) s = hash_table s ! b"
| "read_link (NextOf i) s = hash_next (pool s ! i)"

primrec write_link :: "link \<Rightarrow> nat option \<Rightarrow> cache_state \<Rightarrow> cache_state" where
  "write_link (Bucket b) v s = s\<lparr>hash_table := (hash_table s)[b := v]\<rparr>"
| "write_link (NextOf i) v s = upd i (\<lambda>x. x\<lparr>hash_next := v\<rparr>) s"

partial_function (option) hash_remove_from :: "nat \<Rightarrow> link \<Rightarrow> cache_state \<Rightarrow> cache_state option" where
  "hash_remove_from e pp s =
     (case read_link pp s of
        None \<Rightarrow> Some s
      | Some i \<Rightarrow>
          if i = e
          then Some (upd e (\<lambda>x. x\<lparr>hash_next := None\<rparr>) (write_link pp (hash_next (pool s ! e)) s))
          else hash_remove_from e (NextOf i) s)"

definition hash_remove :: "nat \<Rightarrow> cache_state \<Rightarrow> cache_state option" where
  "hash_remove e s =
     hash_remove_from e (Bucket (cache_hash (ce_name (pool s ! e)) (block_index (pool s ! e)))) s"

definition hash_insert :: "nat \<Rightarrow> cache_state \<Rightarrow> cache_state" where
  "hash_insert e s =
     (let bucket = cache_hash (ce_name (pool s ! e)) (block_index (pool s ! e));
          s = upd e (\<lambda>x. x\<lparr>hash_next := hash_table s ! bucket\<rparr>) s
      in s\<lparr>hash_table := (hash_table s)[bucket := Some e]\<rparr>)"

partial_function (option) hash_walk ::
    "u8 list \<Rightarrow> u32 \<Rightarrow> nat option \<Rightarrow> cache_state \<Rightarrow> nat option option" where
  "hash_walk name blk e s =
     (case e of
        None \<Rightarrow> Some None
      | Some i \<Rightarrow>
          if block_index (pool s ! i) = blk \<and> strcmp (ce_name (pool s ! i)) name = 0 then Some (Some i)
          else hash_walk name blk (hash_next (pool s ! i)) s)"

definition hash_lookup :: "u8 list \<Rightarrow> u32 \<Rightarrow> cache_state \<Rightarrow> nat option option" where
  "hash_lookup name blk s = hash_walk name blk (hash_table s ! cache_hash name blk) s"

section \<open>Allocation and eviction\<close>

definition alloc_block :: "cache_state \<Rightarrow> cache_state \<times> nat option" where
  "alloc_block s =
     (case find_idx (\<lambda>i. \<not> valid (pool s ! ((free_hint s + i) mod CACHE_MAX_BLOCKS))) [0..<CACHE_MAX_BLOCKS] of
        None \<Rightarrow> (s, None)
      | Some i \<Rightarrow>
          let idx = (free_hint s + i) mod CACHE_MAX_BLOCKS;
              s = s\<lparr>free_hint := (idx + 1) mod CACHE_MAX_BLOCKS\<rparr>;
              s = upd idx (\<lambda>x. x\<lparr>valid := True\<rparr>) s;
              s = s\<lparr>stats := (stats s)\<lparr>used_blocks := used_blocks (stats s) + 1\<rparr>\<rparr>
          in (s, Some idx))"

definition evict_lru :: "cache_state \<Rightarrow> (cache_state \<times> nat option) option" where
  "evict_lru s =
     (case lru_tail s of
        None \<Rightarrow> Some (s, None)
      | Some victim \<Rightarrow>
          (case hash_remove victim s of
             None \<Rightarrow> None
           | Some s \<Rightarrow>
               let s = lru_remove victim s;
                   s = upd victim (\<lambda>x. x\<lparr>valid := True, hash_next := None, lru_prev := None, lru_next := None\<rparr>) s;
                   s = s\<lparr>stats := (stats s)\<lparr>evictions := evictions (stats s) + 1\<rparr>\<rparr>
               in Some (s, Some victim)))"

text \<open>The second half of \<^verbatim>\<open>cache_get_block\<close>: the slot becomes the block's entry.\<close>

definition init_block :: "u8 list \<Rightarrow> u32 \<Rightarrow> nat \<Rightarrow> cache_state \<Rightarrow> cache_state" where
  "init_block name blk e s =
     (let s = upd e (\<lambda>x. x\<lparr>block_index := blk, bytes_valid := 0, hash_next := None, lru_prev := None,
                lru_next := None, ce_name := copy_name (CACHE_NAME_MAX - 1) name (ce_name x)\<rparr>) s
      in lru_push_head e (hash_insert e s))"

definition cache_get_block :: "u8 list \<Rightarrow> u32 \<Rightarrow> cache_state \<Rightarrow> (cache_state \<times> nat option) option" where
  "cache_get_block name blk s =
     (case hash_lookup name blk s of
        None \<Rightarrow> None
      | Some (Some e) \<Rightarrow>
          Some (lru_promote e (s\<lparr>stats := (stats s)\<lparr>hits := hits (stats s) + 1\<rparr>\<rparr>), Some e)
      | Some None \<Rightarrow>
          let s = s\<lparr>stats := (stats s)\<lparr>misses := misses (stats s) + 1\<rparr>\<rparr>
          in (case alloc_block s of
                (s, Some e) \<Rightarrow> Some (init_block name blk e s, Some e)
              | (s, None) \<Rightarrow>
                  (case evict_lru s of
                     None \<Rightarrow> None
                   | Some (s, None) \<Rightarrow> Some (s, None)
                   | Some (s, Some e) \<Rightarrow> Some (init_block name blk e s, Some e))))"

section \<open>The interface\<close>

definition free_entry :: "cache_entry \<Rightarrow> cache_entry" where
  "free_entry x = x\<lparr>valid := False, hash_next := None, lru_prev := None, lru_next := None\<rparr>"

definition cache_init :: "cache_state \<Rightarrow> cache_state" where
  "cache_init s = s\<lparr>pool := map free_entry (pool s), hash_table := map (\<lambda>_. None) (hash_table s),
     lru_head := None, lru_tail := None, free_hint := 0,
     stats := \<lparr>hits = 0, misses = 0, evictions = 0, used_blocks = 0,
       total_blocks = of_nat CACHE_MAX_BLOCKS\<rparr>\<rparr>"

text \<open>Filling a new block from the file's memory.\<close>

definition fill_block :: "bmem \<Rightarrow> u64 \<Rightarrow> u64 \<Rightarrow> u32 \<Rightarrow> nat \<Rightarrow> cache_state \<Rightarrow> cache_state" where
  "fill_block m src file_size blk e s =
     (if bytes_valid (pool s ! e) = 0
      then let file_off = ucast blk * CACHE_BLOCK_SIZE;
               avail = (if file_off < file_size then file_size - file_off else 0);
               to_fill = (if avail < CACHE_BLOCK_SIZE then avail else CACHE_BLOCK_SIZE)
           in upd e (\<lambda>x. x\<lparr>ce_data := map (\<lambda>i. m (src + (file_off + of_nat i))) [0..<unat to_fill] @
                               drop (unat to_fill) (ce_data x),
                           bytes_valid := ucast to_fill\<rparr>) s
      else s)"

text \<open>
  The loop of \<^verbatim>\<open>cache_read\<close>. Its result is the bytes in the caller's buffer, or \<^const>\<open>None\<close> for the
  result -1; the outer \<^const>\<open>None\<close> is a run that does not end.
\<close>

partial_function (option) cache_read_loop ::
    "bmem \<Rightarrow> u8 list \<Rightarrow> u64 \<Rightarrow> u64 \<Rightarrow> u64 \<Rightarrow> u64 \<Rightarrow> u8 list \<Rightarrow> cache_state \<Rightarrow>
     (cache_state \<times> u8 list option) option" where
  "cache_read_loop m name src file_size offset count dst s =
     (let bytes_done = of_nat (length dst) in
      if \<not> bytes_done < count then Some (s, Some dst)
      else let cur_offset = offset + bytes_done;
               block_idx = ucast (cur_offset div CACHE_BLOCK_SIZE);
               block_off = cur_offset mod CACHE_BLOCK_SIZE;
               chunk = (if CACHE_BLOCK_SIZE - block_off > count - bytes_done then count - bytes_done
                        else CACHE_BLOCK_SIZE - block_off)
           in (case cache_get_block name block_idx s of
                 None \<Rightarrow> None
               | Some (s, None) \<Rightarrow> Some (s, None)
               | Some (s, Some e) \<Rightarrow>
                   let s = fill_block m src file_size block_idx e s;
                       x = pool s ! e
                   in if block_off \<ge> ucast (bytes_valid x) then Some (s, Some dst)
                      else let chunk = (if block_off + chunk > ucast (bytes_valid x)
                                        then ucast (bytes_valid x) - block_off else chunk)
                           in cache_read_loop m name src file_size offset count
                                (dst @ take (unat chunk) (drop (unat block_off) (ce_data x))) s))"

definition cache_read ::
    "bmem \<Rightarrow> u8 list option \<Rightarrow> u64 \<Rightarrow> u64 \<Rightarrow> u64 \<Rightarrow> bool \<Rightarrow> u64 \<Rightarrow> cache_state \<Rightarrow>
     (cache_state \<times> u8 list option) option" where
  "cache_read m name src file_size offset buf_null count s =
     (case name of
        None \<Rightarrow> Some (s, None)
      | Some name \<Rightarrow>
          if src = 0 \<or> buf_null then Some (s, None)
          else if offset \<ge> file_size then Some (s, Some [])
          else let remaining = file_size - offset;
                   count = (if count > remaining then remaining else count)
               in cache_read_loop m name src file_size offset count [] s)"

text \<open>The loop over one chain of \<^verbatim>\<open>cache_invalidate\<close>.\<close>

partial_function (option) invalidate_chain :: "u8 list \<Rightarrow> link \<Rightarrow> cache_state \<Rightarrow> cache_state option" where
  "invalidate_chain name pp s =
     (case read_link pp s of
        None \<Rightarrow> Some s
      | Some e \<Rightarrow>
          if strcmp (ce_name (pool s ! e)) name = 0
          then let s = write_link pp (hash_next (pool s ! e)) s;
                   s = lru_remove e s;
                   s = upd e (\<lambda>x. x\<lparr>valid := False, hash_next := None\<rparr>) s;
                   s = s\<lparr>stats := (stats s)\<lparr>used_blocks := used_blocks (stats s) - 1\<rparr>\<rparr>
               in invalidate_chain name pp s
          else invalidate_chain name (NextOf e) s)"

primrec invalidate_buckets :: "u8 list \<Rightarrow> nat list \<Rightarrow> cache_state \<Rightarrow> cache_state option" where
  "invalidate_buckets name [] s = Some s"
| "invalidate_buckets name (b # bs) s =
     (case invalidate_chain name (Bucket b) s of None \<Rightarrow> None | Some s \<Rightarrow> invalidate_buckets name bs s)"

definition cache_invalidate :: "u8 list option \<Rightarrow> cache_state \<Rightarrow> cache_state option" where
  "cache_invalidate name s =
     (case name of None \<Rightarrow> Some s | Some name \<Rightarrow> invalidate_buckets name [0..<CACHE_HASH_BUCKETS] s)"

definition cache_flush_all :: "cache_state \<Rightarrow> cache_state" where
  "cache_flush_all s = s\<lparr>pool := map free_entry (pool s), hash_table := map (\<lambda>_. None) (hash_table s),
     lru_head := None, lru_tail := None, free_hint := 0, stats := (stats s)\<lparr>used_blocks := 0\<rparr>\<rparr>"

definition cache_get_stats :: "cache_state \<Rightarrow> cache_stats" where
  "cache_get_stats s = stats s"

section \<open>Doubly linked lists in the pool\<close>

lemma upd_simps [simp]:
  "hash_table (upd i f s) = hash_table s" "lru_head (upd i f s) = lru_head s"
  "lru_tail (upd i f s) = lru_tail s" "free_hint (upd i f s) = free_hint s"
  "stats (upd i f s) = stats s" "length (pool (upd i f s)) = length (pool s)"
  by (simp_all add: upd_def)

lemma pool_upd: "pool (upd i f s) = (pool s)[i := f (pool s ! i)]"
  by (simp add: upd_def)

lemma nth_upd: "pool (upd i f s) ! j = (if i = j \<and> j < length (pool s) then f (pool s ! j) else pool s ! j)"
  by (cases "i = j"; cases "j < length (pool s)") (simp_all add: upd_def list_update_beyond)

definition first :: "nat list \<Rightarrow> nat option \<Rightarrow> nat option" where
  "first xs d = (case xs of [] \<Rightarrow> d | x # _ \<Rightarrow> Some x)"

definition final :: "nat option \<Rightarrow> nat list \<Rightarrow> nat option" where
  "final d xs = (if xs = [] then d else Some (last xs))"

lemma first_simps [simp]: "first [] d = d" "first (x # xs) d = Some x" "first (xs @ y # ys) d = first xs (Some y)"
  by (auto simp: first_def split: list.split)

lemma final_simps [simp]: "final d [] = d" "final d (xs @ [x]) = Some x" "final d (x # xs) = final (Some x) xs"
  "final d (xs @ y # ys) = final (Some y) ys"
  by (auto simp: final_def)

lemma first_append: "first (xs @ ys) d = first xs (first ys d)"
  by (cases xs) simp_all

primrec dll :: "cache_entry list \<Rightarrow> nat option \<Rightarrow> nat list \<Rightarrow> nat option \<Rightarrow> bool" where
  "dll P prev [] nxt \<longleftrightarrow> True"
| "dll P prev (x # xs) nxt \<longleftrightarrow>
     x < length P \<and> lru_prev (P ! x) = prev \<and> lru_next (P ! x) = first xs nxt \<and> dll P (Some x) xs nxt"

lemma dll_append: "dll P prev (xs @ ys) nxt \<longleftrightarrow> dll P prev xs (first ys nxt) \<and> dll P (final prev xs) ys nxt"
  by (induction xs arbitrary: prev) (auto simp: first_append)

lemma dll_cong:
  assumes "\<And>x. x \<in> set xs \<Longrightarrow> lru_prev (P' ! x) = lru_prev (P ! x) \<and> lru_next (P' ! x) = lru_next (P ! x)"
    and "length P' = length P"
  shows "dll P' prev xs nxt = dll P prev xs nxt"
  using assms by (induction xs arbitrary: prev) auto

lemma dll_other: "i \<notin> set xs \<Longrightarrow> dll (P[i := v]) prev xs nxt = dll P prev xs nxt"
  by (rule dll_cong) (metis nth_list_update_neq, simp)

lemma dll_set_next:
  assumes "dll P prev (xs @ [p]) nxt" and "p \<notin> set xs"
  shows "dll (P[p := (P ! p)\<lparr>lru_next := n\<rparr>]) prev (xs @ [p]) n"
  using assms by (simp add: dll_append dll_other)

lemma dll_set_prev:
  assumes "dll P prev (n # xs) nxt" and "n \<notin> set xs"
  shows "dll (P[n := (P ! n)\<lparr>lru_prev := q\<rparr>]) q (n # xs) nxt"
  using assms by (simp add: dll_other)

lemma dll_less: "dll P prev xs nxt \<Longrightarrow> x \<in> set xs \<Longrightarrow> x < length P"
  by (induction xs arbitrary: prev) auto

definition lru_list :: "cache_state \<Rightarrow> nat list \<Rightarrow> bool" where
  "lru_list s xs \<longleftrightarrow> distinct xs \<and> dll (pool s) None xs None \<and>
     lru_head s = first xs None \<and> lru_tail s = final None xs"

text \<open>What the two link operations leave alone: all but the links themselves.\<close>

definition tag :: "cache_entry \<Rightarrow> u8 list \<times> u32 \<times> u8 list \<times> u32" where
  "tag x = (ce_name x, block_index x, ce_data x, bytes_valid x)"

definition lru_frame :: "cache_state \<Rightarrow> cache_state \<Rightarrow> bool" where
  "lru_frame s s' \<longleftrightarrow> length (pool s') = length (pool s) \<and> hash_table s' = hash_table s \<and>
     free_hint s' = free_hint s \<and> stats s' = stats s \<and>
     (\<forall>i. tag (pool s' ! i) = tag (pool s ! i) \<and> valid (pool s' ! i) = valid (pool s ! i) \<and>
        hash_next (pool s' ! i) = hash_next (pool s ! i))"

lemma lru_frame_refl [simp]: "lru_frame s s"
  by (simp add: lru_frame_def)

lemma lru_frame_trans: "lru_frame s t \<Longrightarrow> lru_frame t u \<Longrightarrow> lru_frame s u"
  by (simp add: lru_frame_def)

lemma lru_frame_upd:
  "(\<And>x. tag (f x) = tag x \<and> valid (f x) = valid x \<and> hash_next (f x) = hash_next x) \<Longrightarrow>
    lru_frame s t \<Longrightarrow> lru_frame s (upd i f t)"
  by (auto simp: lru_frame_def nth_upd)

lemma lru_frame_remove: "lru_frame s (lru_remove e s)"
  unfolding lru_remove_def Let_def
  by (auto intro!: lru_frame_upd simp: tag_def lru_frame_def nth_upd split: option.split)

lemma lru_frame_push: "lru_frame s (lru_push_head e s)"
  unfolding lru_push_head_def Let_def
  by (auto simp: tag_def lru_frame_def nth_upd split: option.split)

lemma lru_remove_list:
  assumes "lru_list s (xs @ e # ys)"
  shows "lru_list (lru_remove e s) (xs @ ys)"
proof -
  let ?P = "pool s"
  have d: "distinct (xs @ e # ys)" and x: "dll ?P None xs (Some e)" and y: "dll ?P (Some e) ys None"
    and e: "e < length ?P" "lru_prev (?P ! e) = final None xs" "lru_next (?P ! e) = first ys None"
    and h: "lru_head s = first xs (Some e)" "lru_tail s = final (Some e) ys"
    using assms by (auto simp: lru_list_def dll_append)
  define s1 where "s1 = (case final None xs of
      Some p \<Rightarrow> upd p (\<lambda>x. x\<lparr>lru_next := lru_next (pool s ! e)\<rparr>) s
    | None \<Rightarrow> s\<lparr>lru_head := lru_next (pool s ! e)\<rparr>)"
  have 1: "dll (pool s1) None xs (first ys None)" "dll (pool s1) (Some e) ys None"
    "pool s1 ! e = ?P ! e" "length (pool s1) = length ?P" "lru_tail s1 = lru_tail s"
    "lru_head s1 = first xs (first ys None)"
  proof -
    show "dll (pool s1) None xs (first ys None)"
    proof (cases xs rule: rev_cases)
      case (snoc as p)
      then show ?thesis using x d e(3) by (simp add: s1_def pool_upd dll_set_next)
    qed simp
    show "dll (pool s1) (Some e) ys None" "pool s1 ! e = ?P ! e" "length (pool s1) = length ?P"
      "lru_tail s1 = lru_tail s" "lru_head s1 = first xs (first ys None)"
      using y d e(3) h by (cases xs rule: rev_cases; auto simp: s1_def pool_upd dll_other nth_upd first_append)+
  qed
  define s2 where "s2 = (case first ys None of
      Some n \<Rightarrow> upd n (\<lambda>x. x\<lparr>lru_prev := lru_prev (pool s1 ! e)\<rparr>) s1
    | None \<Rightarrow> s1\<lparr>lru_tail := lru_prev (pool s1 ! e)\<rparr>)"
  have 2: "dll (pool s2) None xs (first ys None)" "dll (pool s2) (final None xs) ys None"
    "length (pool s2) = length ?P" "lru_head s2 = lru_head s1" "lru_tail s2 = final (final None xs) ys"
  proof -
    show "dll (pool s2) (final None xs) ys None"
    proof (cases ys)
      case (Cons n bs)
      then show ?thesis using 1(2,3) d e(2) dll_set_prev [of "pool s1" "Some e" n bs None "final None xs"]
        by (simp add: s2_def pool_upd)
    qed simp
    show "dll (pool s2) None xs (first ys None)" "length (pool s2) = length ?P" "lru_head s2 = lru_head s1"
      "lru_tail s2 = final (final None xs) ys"
      using 1 d e(2) h by (cases ys; auto simp: s2_def pool_upd dll_other)+
  qed
  have "lru_remove e s = upd e (\<lambda>x. x\<lparr>lru_prev := None, lru_next := None\<rparr>) s2"
    unfolding lru_remove_def Let_def e(2) s1_def [symmetric] using 1(3) e(3)
    by (simp add: s2_def)
  moreover have "final None (xs @ ys) = final (final None xs) ys"
    by (cases ys rule: rev_cases) (simp_all add: final_def)
  ultimately show ?thesis using 1(6) 2 d
    by (simp add: lru_list_def dll_append pool_upd dll_other first_append)
qed

lemma lru_push_list:
  assumes "lru_list s xs" and "e \<notin> set xs" and "e < length (pool s)"
  shows "lru_list (lru_push_head e s) (e # xs)"
proof (cases xs)
  case Nil
  then show ?thesis using assms by (simp add: lru_list_def lru_push_head_def nth_upd)
next
  case (Cons h ys)
  let ?P1 = "(pool s)[e := (pool s ! e)\<lparr>lru_prev := None, lru_next := Some h\<rparr>]"
  have ne: "h \<noteq> e" using assms(2) Cons by simp
  have "dll ?P1 None xs None" using assms by (simp add: lru_list_def dll_other)
  then have "dll (?P1[h := (?P1 ! h)\<lparr>lru_prev := Some e\<rparr>]) (Some e) xs None"
    using assms(1) unfolding Cons by (intro dll_set_prev) (simp_all add: lru_list_def Cons)
  moreover have "pool (lru_push_head e s) = ?P1[h := (?P1 ! h)\<lparr>lru_prev := Some e\<rparr>]"
    using assms(1) Cons by (simp add: lru_push_head_def Let_def lru_list_def pool_upd)
  ultimately show ?thesis using assms Cons ne
    by (auto simp: lru_list_def lru_push_head_def Let_def final_def)
qed

section \<open>Hash chains in the pool\<close>

primrec hchain :: "cache_entry list \<Rightarrow> nat option \<Rightarrow> nat list \<Rightarrow> bool" where
  "hchain P o' [] \<longleftrightarrow> o' = None"
| "hchain P o' (x # xs) \<longleftrightarrow> o' = Some x \<and> x < length P \<and> hchain P (hash_next (P ! x)) xs"

lemma hchain_first: "hchain P a xs \<Longrightarrow> a = first xs None"
  by (cases xs) simp_all

lemma hchain_cong:
  assumes "\<And>x. x \<in> set xs \<Longrightarrow> hash_next (P' ! x) = hash_next (P ! x)" and "length P' = length P"
  shows "hchain P' a xs = hchain P a xs"
  using assms by (induction xs arbitrary: a) auto

lemma hchain_other: "i \<notin> set xs \<Longrightarrow> hchain (P[i := v]) a xs = hchain P a xs"
  by (rule hchain_cong) (metis nth_list_update_neq, simp)

lemma hchain_suffix: "hchain P a (xs @ y # ys) \<Longrightarrow> hchain P (Some y) (y # ys)"
  by (induction xs arbitrary: a) auto

lemma hchain_less: "hchain P a xs \<Longrightarrow> x \<in> set xs \<Longrightarrow> x < length P"
  by (induction xs arbitrary: a) auto

text \<open>The chain with one element taken out, and the place that pointed to it.\<close>

lemma hchain_remove:
  assumes "hchain P a (xs @ e # ys)" and "distinct (xs @ e # ys)"
  shows "xs = [] \<Longrightarrow> hchain (P[e := v]) (hash_next (P ! e)) ys"
    and "xs = zs @ [p] \<Longrightarrow>
      hchain ((P[p := (P ! p)\<lparr>hash_next := hash_next (P ! e)\<rparr>])[e := v]) a (xs @ ys)"
proof -
  show "hchain (P[e := v]) (hash_next (P ! e)) ys" if "xs = []"
    using assms that by (simp add: hchain_other)
  have "hchain (P[p := (P ! p)\<lparr>hash_next := hash_next (P ! e)\<rparr>]) a (zs @ p # ys)"
    if "hchain P a (zs @ p # e # ys)" "distinct (zs @ p # e # ys)" for zs
    using that by (induction zs arbitrary: a) (auto simp: hchain_other nth_list_update)
  then show "hchain ((P[p := (P ! p)\<lparr>hash_next := hash_next (P ! e)\<rparr>])[e := v]) a (xs @ ys)"
    if "xs = zs @ [p]"
    using assms that by (simp add: hchain_other)
qed

definition link_to :: "link \<Rightarrow> nat list \<Rightarrow> link" where
  "link_to pp xs = (if xs = [] then pp else NextOf (last xs))"

lemma link_to_simps [simp]: "link_to pp [] = pp" "link_to pp (x # xs) = link_to (NextOf x) xs"
  "link_to pp (xs @ [x]) = NextOf x"
  by (simp_all add: link_to_def)

lemma write_link_simps [simp]:
  "length (pool (write_link l v s)) = length (pool s)" "lru_head (write_link l v s) = lru_head s"
  "lru_tail (write_link l v s) = lru_tail s" "free_hint (write_link l v s) = free_hint s"
  "stats (write_link l v s) = stats s" "length (hash_table (write_link l v s)) = length (hash_table s)"
  by (cases l; simp)+

lemma hash_remove_from_chain:
  assumes "hchain (pool s) (read_link pp s) (xs @ e # ys)" and "e \<notin> set xs"
  shows "hash_remove_from e pp s =
    Some (upd e (\<lambda>x. x\<lparr>hash_next := None\<rparr>) (write_link (link_to pp xs) (hash_next (pool s ! e)) s))"
  using assms
proof (induction xs arbitrary: pp)
  case Nil
  then show ?case by (simp add: hash_remove_from.simps)
next
  case (Cons x xs)
  then have "hash_remove_from e pp s = hash_remove_from e (NextOf x) s"
    by (simp add: hash_remove_from.simps [of e pp])
  then show ?case using Cons by simp
qed

lemma hash_walk_chain:
  "hchain (pool s) a xs \<Longrightarrow>
   hash_walk name blk a s =
     Some (find (\<lambda>i. block_index (pool s ! i) = blk \<and> cstr (ce_name (pool s ! i)) = cstr name) xs)"
proof (induction xs arbitrary: a)
  case Nil
  then show ?case by (simp add: hash_walk.simps)
next
  case (Cons x xs)
  then show ?case by (auto simp: hash_walk.simps [of name blk "Some x"] strcmp_eq_0_iff)
qed

section \<open>The structure invariant\<close>

text \<open>
  The live slots \<open>V\<close> form the list of recent use and are distributed over the chains by their tags.
  The set is a parameter because an operation links a slot it has already marked valid.
\<close>

definition bucket_of :: "cache_entry \<Rightarrow> nat" where
  "bucket_of x = cache_hash (ce_name x) (block_index x)"

lemma bucket_less: "bucket_of x < CACHE_HASH_BUCKETS"
proof -
  have "unat (w AND 63 :: u32) < 64" for w
    using word_and_le1 [of w 63] by (simp add: word_le_nat_alt)
  then show ?thesis by (simp add: bucket_of_def cache_hash_def)
qed

lemma bucket_tag: "tag x = tag y \<Longrightarrow> bucket_of x = bucket_of y"
  by (simp add: tag_def bucket_of_def)

definition chain_ok :: "cache_state \<Rightarrow> nat set \<Rightarrow> nat \<Rightarrow> nat list \<Rightarrow> bool" where
  "chain_ok s V b ys \<longleftrightarrow> hchain (pool s) (hash_table s ! b) ys \<and> distinct ys \<and>
     set ys = {i \<in> V. bucket_of (pool s ! i) = b}"

definition shape_ok :: "cache_entry \<Rightarrow> bool" where
  "shape_ok x \<longleftrightarrow> length (ce_name x) = CACHE_NAME_MAX \<and> length (ce_data x) = 4096"

definition linked :: "cache_state \<Rightarrow> nat set \<Rightarrow> bool" where
  "linked s V \<longleftrightarrow> length (pool s) = CACHE_MAX_BLOCKS \<and> length (hash_table s) = CACHE_HASH_BUCKETS \<and>
     (\<forall>i < CACHE_MAX_BLOCKS. shape_ok (pool s ! i)) \<and>
     (\<exists>xs. lru_list s xs \<and> set xs = V) \<and> (\<forall>b < CACHE_HASH_BUCKETS. \<exists>ys. chain_ok s V b ys)"

definition live_slots :: "cache_state \<Rightarrow> nat set" where
  "live_slots s = {i. i < CACHE_MAX_BLOCKS \<and> valid (pool s ! i)}"

definition cache_inv :: "cache_state \<Rightarrow> bool" where
  "cache_inv s \<longleftrightarrow> linked s (live_slots s) \<and> free_hint s < CACHE_MAX_BLOCKS \<and>
     used_blocks (stats s) = of_nat (card (live_slots s))"

lemma linkedD:
  assumes "linked s V"
  shows "length (pool s) = CACHE_MAX_BLOCKS" and "length (hash_table s) = CACHE_HASH_BUCKETS"
    and "i < CACHE_MAX_BLOCKS \<Longrightarrow> shape_ok (pool s ! i)"
    and "\<exists>xs. lru_list s xs \<and> set xs = V" and "b < CACHE_HASH_BUCKETS \<Longrightarrow> \<exists>ys. chain_ok s V b ys"
    and "i \<in> V \<Longrightarrow> i < CACHE_MAX_BLOCKS"
proof -
  show "length (pool s) = CACHE_MAX_BLOCKS" "length (hash_table s) = CACHE_HASH_BUCKETS"
    "i < CACHE_MAX_BLOCKS \<Longrightarrow> shape_ok (pool s ! i)"
    "\<exists>xs. lru_list s xs \<and> set xs = V" "b < CACHE_HASH_BUCKETS \<Longrightarrow> \<exists>ys. chain_ok s V b ys"
    using assms by (simp_all add: linked_def)
  show "i < CACHE_MAX_BLOCKS" if "i \<in> V"
    using assms that dll_less [of "pool s" None _ None i] by (auto simp: linked_def lru_list_def)
qed

text \<open>An unlinked slot may be changed at will; of a linked one only the contents.\<close>

lemma chain_upd: "e \<notin> V \<Longrightarrow> chain_ok s V b ys \<Longrightarrow> chain_ok (upd e f s) V b ys"
proof -
  assume e: "e \<notin> V" and c: "chain_ok s V b ys"
  have n: "e \<notin> set ys" using e c by (simp add: chain_ok_def)
  have "{i \<in> V. bucket_of (pool (upd e f s) ! i) = b} = {i \<in> V. bucket_of (pool s ! i) = b}"
    using e by (intro Collect_cong) (auto simp: nth_upd)
  then show ?thesis using c n by (simp add: chain_ok_def pool_upd hchain_other)
qed

lemma lru_upd: "e \<notin> set xs \<Longrightarrow> lru_list s xs \<Longrightarrow> lru_list (upd e f s) xs"
  by (simp add: lru_list_def pool_upd dll_other)

lemma linked_upd:
  assumes "linked s V" and "e \<notin> V" and "shape_ok (pool s ! e) \<Longrightarrow> shape_ok (f (pool s ! e))"
  shows "linked (upd e f s) V"
  unfolding linked_def
proof (intro conjI allI impI)
  note d = linkedD [OF assms(1)]
  show "length (pool (upd e f s)) = CACHE_MAX_BLOCKS" "length (hash_table (upd e f s)) = CACHE_HASH_BUCKETS"
    using d by simp_all
  show "shape_ok (pool (upd e f s) ! i)" if "i < CACHE_MAX_BLOCKS" for i
    using d(3) [OF that] assms(3) by (cases "e = i") (simp_all add: nth_upd)
  show "\<exists>xs. lru_list (upd e f s) xs \<and> set xs = V" using d(4) lru_upd assms(2) by blast
  show "\<exists>ys. chain_ok (upd e f s) V b ys" if "b < CACHE_HASH_BUCKETS" for b
    using d(5) [OF that] chain_upd [OF assms(2)] by blast
qed

lemma linked_other_fields:
  assumes "linked s V" and "pool s' = pool s" and "hash_table s' = hash_table s"
    and "lru_head s' = lru_head s" and "lru_tail s' = lru_tail s"
  shows "linked s' V"
  using assms by (simp add: linked_def lru_list_def chain_ok_def)

lemma linked_upd_data:
  assumes "linked s V" and "length d = 4096"
  shows "linked (upd e (\<lambda>x. x\<lparr>ce_data := d, bytes_valid := n\<rparr>) s) V"
proof -
  let ?s' = "upd e (\<lambda>x. x\<lparr>ce_data := d, bytes_valid := n\<rparr>) s"
  have b: "bucket_of (pool ?s' ! i) = bucket_of (pool s ! i)" for i by (simp add: nth_upd bucket_of_def)
  have "dll (pool ?s') p xs q = dll (pool s) p xs q" for p xs q by (rule dll_cong) (auto simp: nth_upd)
  moreover have "hchain (pool ?s') a ys = hchain (pool s) a ys" for a ys by (rule hchain_cong) (auto simp: nth_upd)
  ultimately have "chain_ok ?s' V k ys = chain_ok s V k ys" "lru_list ?s' xs = lru_list s xs" for k ys xs
    by (simp_all add: chain_ok_def lru_list_def b)
  then show ?thesis using assms by (simp add: linked_def nth_upd shape_ok_def)
qed

lemma chain_lru_frame:
  assumes "lru_frame s s'" and "chain_ok s V b ys"
  shows "chain_ok s' V b ys"
proof -
  have f: "length (pool s') = length (pool s)" "hash_table s' = hash_table s"
    "\<And>i. tag (pool s' ! i) = tag (pool s ! i)" "\<And>i. hash_next (pool s' ! i) = hash_next (pool s ! i)"
    using assms(1) by (simp_all add: lru_frame_def)
  have "hchain (pool s') a ys = hchain (pool s) a ys" for a by (rule hchain_cong) (simp_all add: f)
  then show ?thesis using assms(2) bucket_tag [OF f(3)] by (simp add: chain_ok_def f(2))
qed

lemma shape_tag: "tag x = tag y \<Longrightarrow> shape_ok x = shape_ok y"
  by (simp add: tag_def shape_ok_def)

text \<open>Linking a slot.\<close>

definition tag_frame :: "nat set \<Rightarrow> cache_state \<Rightarrow> cache_state \<Rightarrow> bool" where
  "tag_frame E s s' \<longleftrightarrow> length (pool s') = length (pool s) \<and>
     (\<forall>i. i \<notin> E \<longrightarrow> tag (pool s' ! i) = tag (pool s ! i) \<and> valid (pool s' ! i) = valid (pool s ! i))"

lemma tag_frame_trans: "tag_frame E s t \<Longrightarrow> tag_frame E t u \<Longrightarrow> tag_frame E s u"
  by (simp add: tag_frame_def)

lemma tag_frame_lru: "lru_frame s s' \<Longrightarrow> tag_frame E s s'"
  by (simp add: tag_frame_def lru_frame_def)

lemma hash_insert_chain:
  assumes "chain_ok s V b ys" and "e \<notin> V" and "e < length (pool s)" and "b < length (hash_table s)"
  shows "chain_ok (hash_insert e s) (insert e V) b (if b = bucket_of (pool s ! e) then e # ys else ys)"
proof -
  let ?b = "bucket_of (pool s ! e)" and ?s' = "hash_insert e s"
  have s': "pool ?s' = (pool s)[e := (pool s ! e)\<lparr>hash_next := hash_table s ! ?b\<rparr>]"
    "hash_table ?s' = (hash_table s)[?b := Some e]"
    by (simp_all add: hash_insert_def Let_def bucket_of_def [symmetric] pool_upd)
  have e: "e \<notin> set ys" using assms(1,2) by (auto simp: chain_ok_def)
  have keep: "bucket_of (pool ?s' ! i) = bucket_of (pool s ! i)" for i
    using assms(3) by (simp add: s' nth_list_update bucket_of_def)
  show ?thesis using assms e unfolding chain_ok_def keep by (auto simp: s' hchain_other)
qed

lemma init_block_linked:
  assumes "linked s V" and "e \<notin> V" and "e < CACHE_MAX_BLOCKS"
  shows "linked (init_block name blk e s) (insert e V)"
    and "tag_frame {e} s (init_block name blk e s)"
    and "cstr (ce_name (pool (init_block name blk e s) ! e)) = take 63 (cstr name)"
    and "block_index (pool (init_block name blk e s) ! e) = blk"
    and "bytes_valid (pool (init_block name blk e s) ! e) = 0"
    and "valid (pool (init_block name blk e s) ! e) = valid (pool s ! e)"
    and "free_hint (init_block name blk e s) = free_hint s" "stats (init_block name blk e s) = stats s"
proof -
  let ?f = "\<lambda>x. x\<lparr>block_index := blk, bytes_valid := 0, hash_next := None, lru_prev := None,
    lru_next := None, ce_name := copy_name (CACHE_NAME_MAX - 1) name (ce_name x)\<rparr>"
  define s1 where "s1 = upd e ?f s"
  define s2 where "s2 = hash_insert e s1"
  define s3 where "s3 = lru_push_head e s2"
  have s3: "init_block name blk e s = s3" by (simp add: init_block_def s1_def s2_def s3_def)
  note d = linkedD [OF assms(1)]
  have l1: "linked s1 V" unfolding s1_def using assms(1,2) by (rule linked_upd) (simp add: shape_ok_def)
  note d1 = linkedD [OF l1]
  have eP: "e < length (pool s)" "e < length (pool s1)" using assms(3) d(1) d1(1) by simp_all
  have p1: "pool s1 ! e = ?f (pool s ! e)" using eP by (simp add: s1_def nth_upd)
  let ?b = "bucket_of (pool s1 ! e)"
  have s2: "pool s2 = (pool s1)[e := (pool s1 ! e)\<lparr>hash_next := hash_table s1 ! ?b\<rparr>]"
    "lru_head s2 = lru_head s1" "lru_tail s2 = lru_tail s1" "length (hash_table s2) = length (hash_table s1)"
    "free_hint s2 = free_hint s1" "stats s2 = stats s1"
    by (simp_all add: s2_def hash_insert_def Let_def bucket_of_def [symmetric] pool_upd)
  have fr: "lru_frame s2 s3" unfolding s3_def by (rule lru_frame_push)
  obtain xs where xs: "lru_list s1 xs" "set xs = V" using d1(4) by blast
  have "lru_list s2 xs" using xs assms(2) by (simp add: lru_list_def s2 dll_other)
  then have "lru_list s3 (e # xs)" unfolding s3_def using xs(2) assms(2) eP s2(1) by (intro lru_push_list) simp_all
  then have lru: "\<exists>xs. lru_list s3 xs \<and> set xs = insert e V" using xs(2) by (intro exI [of _ "e # xs"]) simp
  have chains: "\<exists>ys. chain_ok s3 (insert e V) b ys" if b: "b < CACHE_HASH_BUCKETS" for b
  proof -
    obtain ys where "chain_ok s1 V b ys" using d1(5) [OF b] by blast
    then have "chain_ok s2 (insert e V) b (if b = ?b then e # ys else ys)"
      unfolding s2_def using assms(2) eP(2) b d1(2) by (intro hash_insert_chain) simp_all
    then show ?thesis using chain_lru_frame [OF fr] by blast
  qed
  have t: "tag (pool s3 ! i) = tag (pool s2 ! i)" "valid (pool s3 ! i) = valid (pool s2 ! i)" for i
    using fr by (simp_all add: lru_frame_def)
  have t2: "tag (pool s2 ! i) = tag (pool s1 ! i)" "valid (pool s2 ! i) = valid (pool s1 ! i)" for i
    using eP by (cases "i = e"; simp add: s2 tag_def)+
  have "shape_ok (pool s3 ! i)" if "i < CACHE_MAX_BLOCKS" for i
    using d1(3) [OF that] shape_tag [of "pool s3 ! i" "pool s1 ! i"] t t2 by simp
  moreover have len: "length (pool s3) = CACHE_MAX_BLOCKS" "length (hash_table s3) = CACHE_HASH_BUCKETS"
    using fr d1(1,2) s2(1,4) by (simp_all add: lru_frame_def)
  ultimately show "linked (init_block name blk e s) (insert e V)"
    using lru chains unfolding s3 linked_def by blast
  show "tag_frame {e} s (init_block name blk e s)"
    using len d(1) by (simp add: s3 tag_frame_def t t2 s1_def nth_upd)
  have te: "tag (pool s3 ! e) = tag (?f (pool s ! e))" "valid (pool s3 ! e) = valid (pool s ! e)"
    using t t2 p1 by simp_all
  have "length (ce_name (pool s ! e)) = 64" using d(3) [OF assms(3)] by (simp add: shape_ok_def)
  then show "cstr (ce_name (pool (init_block name blk e s) ! e)) = take 63 (cstr name)"
    "block_index (pool (init_block name blk e s) ! e) = blk"
    "bytes_valid (pool (init_block name blk e s) ! e) = 0"
    using te by (simp_all add: s3 tag_def cstr_copy_name)
  show "valid (pool (init_block name blk e s) ! e) = valid (pool s ! e)" using te by (simp add: s3)
  show "free_hint (init_block name blk e s) = free_hint s" "stats (init_block name blk e s) = stats s"
    using fr s2(5,6) by (simp_all add: s3 lru_frame_def s1_def)
qed

text \<open>Taking a slot off its chain, then off the list, as eviction and invalidation do.\<close>

definition hash_off :: "cache_state \<Rightarrow> cache_state \<Rightarrow> nat set \<Rightarrow> nat \<Rightarrow> bool" where
  "hash_off s s' V e \<longleftrightarrow> length (pool s') = length (pool s) \<and> length (hash_table s') = length (hash_table s) \<and>
     lru_head s' = lru_head s \<and> lru_tail s' = lru_tail s \<and> free_hint s' = free_hint s \<and> stats s' = stats s \<and>
     (\<forall>i. pool s' ! i = (pool s ! i)\<lparr>hash_next := hash_next (pool s' ! i)\<rparr>) \<and>
     (\<forall>b < CACHE_HASH_BUCKETS. \<exists>ys. chain_ok s' (V - {e}) b ys)"

lemma unhash:
  assumes "linked s V" and "e \<in> V" and cs: "chain_ok s V (bucket_of (pool s ! e)) (xs @ e # ys)"
  defines "s' \<equiv> write_link (link_to (Bucket (bucket_of (pool s ! e))) xs) (hash_next (pool s ! e)) s"
  shows "hash_off s s' V e" and "chain_ok s' (V - {e}) (bucket_of (pool s ! e)) (xs @ ys)"
proof -
  note d = linkedD [OF assms(1)]
  let ?P = "pool s" and ?b = "bucket_of (pool s ! e)"
  have eP: "e < length ?P" using d(1,6) assms(2) by simp
  have h: "hchain ?P (hash_table s ! ?b) (xs @ e # ys)" and dist: "distinct (xs @ e # ys)"
    using cs by (simp_all add: chain_ok_def)
  have table: "hash_table s' ! b = hash_table s ! b" if "b \<noteq> ?b" for b
    using that by (cases xs rule: rev_cases) (simp_all add: s'_def)
  have nodes: "pool s' ! i = pool s ! i" if "i \<notin> set xs" for i
    using that by (cases xs rule: rev_cases) (auto simp: nth_upd s'_def)
  have fields: "pool s' ! i = (pool s ! i)\<lparr>hash_next := hash_next (pool s' ! i)\<rparr>" for i
    by (cases xs rule: rev_cases) (auto simp: nth_upd s'_def)
  have keep: "bucket_of (pool s' ! i) = bucket_of (pool s ! i)" for i
    by (subst fields) (simp add: bucket_of_def)
  have "hchain (pool s') (hash_table s' ! ?b) (xs @ ys)"
  proof (cases xs rule: rev_cases)
    case Nil
    then show ?thesis using h d(2) bucket_less [of "?P ! e"] by (simp add: s'_def)
  next
    case (snoc zs p)
    have "hchain (?P[p := (?P ! p)\<lparr>hash_next := hash_next (?P ! e)\<rparr>, e := ?P ! e]) (hash_table s ! ?b) (xs @ ys)"
      using hchain_remove(2) [OF h dist snoc] .
    moreover have "?P[p := (?P ! p)\<lparr>hash_next := hash_next (?P ! e)\<rparr>, e := ?P ! e] =
        ?P[p := (?P ! p)\<lparr>hash_next := hash_next (?P ! e)\<rparr>]"
      using dist snoc by (simp add: list_update_swap)
    ultimately show ?thesis using snoc by (simp add: s'_def pool_upd)
  qed
  then show own: "chain_ok s' (V - {e}) ?b (xs @ ys)"
    using cs dist by (auto simp: chain_ok_def keep)
  have "\<exists>ys. chain_ok s' (V - {e}) b ys" if b: "b < CACHE_HASH_BUCKETS" for b
  proof (cases "b = ?b")
    case True
    then show ?thesis using own by blast
  next
    case False
    obtain bs where bs: "chain_ok s V b bs" using d(5) [OF b] by blast
    then have "pool s' ! x = pool s ! x" if "x \<in> set bs" for x
      using that False cs by (intro nodes) (auto simp: chain_ok_def)
    then have "hchain (pool s') a bs = hchain (pool s) a bs" for a
      by (intro hchain_cong) (auto simp: s'_def)
    then show ?thesis using False bs table by (intro exI [of _ bs]) (auto simp: chain_ok_def keep)
  qed
  then show "hash_off s s' V e" using fields by (simp add: hash_off_def) (simp add: s'_def)
qed

lemma hash_off_clear:
  assumes "hash_off s t V e"
  shows "hash_off s (upd e (\<lambda>x. x\<lparr>hash_next := None\<rparr>) t) V e"
proof -
  have f: "pool t ! i = (pool s ! i)\<lparr>hash_next := hash_next (pool t ! i)\<rparr>" for i
    using assms by (simp add: hash_off_def)
  have "pool (upd e (\<lambda>x. x\<lparr>hash_next := None\<rparr>) t) ! i =
      (pool s ! i)\<lparr>hash_next := hash_next (pool (upd e (\<lambda>x. x\<lparr>hash_next := None\<rparr>) t) ! i)\<rparr>" for i
    using f [of i] by (cases "pool t ! i"; cases "pool s ! i") (auto simp: nth_upd)
  then show ?thesis using assms chain_upd [of e "V - {e}" t] by (auto simp: hash_off_def) blast
qed

lemma hash_remove_off:
  assumes "linked s V" and "e \<in> V"
  shows "\<exists>s'. hash_remove e s = Some s' \<and> hash_off s s' V e"
proof -
  let ?b = "bucket_of (pool s ! e)"
  obtain cs where cs: "chain_ok s V ?b cs" using linkedD(5) [OF assms(1) bucket_less] by blast
  then have "e \<in> set cs" using assms(2) by (simp add: chain_ok_def)
  then obtain xs ys where xy: "cs = xs @ e # ys" by (meson split_list)
  note c = cs [unfolded xy]
  have "hash_remove e s = Some (upd e (\<lambda>x. x\<lparr>hash_next := None\<rparr>)
      (write_link (link_to (Bucket ?b) xs) (hash_next (pool s ! e)) s))"
    unfolding hash_remove_def bucket_of_def [symmetric]
    using c by (intro hash_remove_from_chain [where ys = ys]) (auto simp: chain_ok_def)
  then show ?thesis using hash_off_clear [OF unhash(1) [OF assms c]] by blast
qed

lemma lru_off:
  assumes "linked s V" and "e \<in> V" and off: "hash_off s t V e"
  shows "linked (lru_remove e t) (V - {e})" and "tag_frame {} s (lru_remove e t)"
    and "free_hint (lru_remove e t) = free_hint s" and "stats (lru_remove e t) = stats s"
    and "chain_ok t (V - {e}) b zs \<Longrightarrow> chain_ok (lru_remove e t) (V - {e}) b zs"
proof -
  note d = linkedD [OF assms(1)]
  let ?t = "lru_remove e t"
  have fr: "lru_frame t ?t" by (rule lru_frame_remove)
  have f: "pool t ! i = (pool s ! i)\<lparr>hash_next := hash_next (pool t ! i)\<rparr>" for i
    using off by (simp add: hash_off_def)
  have tg: "tag (pool t ! i) = tag (pool s ! i)" "valid (pool t ! i) = valid (pool s ! i)"
    "lru_prev (pool t ! i) = lru_prev (pool s ! i)" "lru_next (pool t ! i) = lru_next (pool s ! i)" for i
    by (subst f, simp add: tag_def)+
  have o': "length (pool t) = length (pool s)" "length (hash_table t) = length (hash_table s)"
    "lru_head t = lru_head s" "lru_tail t = lru_tail s" "free_hint t = free_hint s" "stats t = stats s"
    using off by (simp_all add: hash_off_def)
  obtain xs where xs: "lru_list s xs" "set xs = V" using d(4) by blast
  then obtain as bs where ab: "xs = as @ e # bs" using assms(2) by (meson split_list)
  have "dll (pool t) p l n = dll (pool s) p l n" for p l n by (rule dll_cong) (simp_all add: tg o')
  then have "lru_list t (as @ e # bs)" using xs(1) ab by (simp add: lru_list_def o')
  then have "lru_list ?t (as @ bs)" by (rule lru_remove_list)
  moreover have "set (as @ bs) = V - {e}" using xs ab by (auto simp: lru_list_def)
  ultimately have lru: "\<exists>xs. lru_list ?t xs \<and> set xs = V - {e}" by blast
  have "\<exists>ys. chain_ok ?t (V - {e}) b ys" if b: "b < CACHE_HASH_BUCKETS" for b
    using off b chain_lru_frame [OF fr] by (fastforce simp: hash_off_def)
  moreover have "tag (pool ?t ! i) = tag (pool s ! i)" "valid (pool ?t ! i) = valid (pool s ! i)" for i
    using fr tg by (simp_all add: lru_frame_def)
  moreover have "length (pool ?t) = length (pool s)" "length (hash_table ?t) = length (hash_table s)"
    "free_hint ?t = free_hint s" "stats ?t = stats s"
    using fr o' by (simp_all add: lru_frame_def)
  ultimately show "linked ?t (V - {e})" "tag_frame {} s ?t" "free_hint ?t = free_hint s" "stats ?t = stats s"
    using lru d(1-3) shape_tag [of "pool ?t ! _" "pool s ! _"] by (simp_all add: linked_def tag_frame_def)
  show "chain_ok ?t (V - {e}) b zs" if "chain_ok t (V - {e}) b zs" by (rule chain_lru_frame [OF fr that])
qed

lemma linked_lru_frame:
  assumes "linked s V" and "lru_frame s s'" and "lru_list s' xs" and "set xs = V"
  shows "linked s' V"
proof -
  note d = linkedD [OF assms(1)]
  have "\<exists>ys. chain_ok s' V b ys" if "b < CACHE_HASH_BUCKETS" for b
    using d(5) [OF that] chain_lru_frame [OF assms(2)] by blast
  moreover have "shape_ok (pool s' ! i)" if "i < CACHE_MAX_BLOCKS" for i
    using d(3) [OF that] assms(2) shape_tag [of "pool s' ! i" "pool s ! i"] by (simp add: lru_frame_def)
  ultimately show ?thesis using assms(2-4) d(1,2) by (auto simp: linked_def lru_frame_def)
qed

lemma promote_linked:
  assumes "linked s V" and "e \<in> V"
  shows "linked (lru_promote e s) V" and "lru_frame s (lru_promote e s)"
proof -
  note d = linkedD [OF assms(1)]
  show fr: "lru_frame s (lru_promote e s)"
    unfolding lru_promote_def by (rule lru_frame_trans [OF lru_frame_remove lru_frame_push])
  obtain xs where xs: "lru_list s xs" "set xs = V" using d(4) by blast
  then obtain as bs where ab: "xs = as @ e # bs" using assms(2) by (meson split_list)
  have "lru_list (lru_remove e s) (as @ bs)" using xs ab by (intro lru_remove_list) simp
  moreover have "e \<notin> set (as @ bs)" using xs(1) ab by (simp add: lru_list_def)
  moreover have "length (pool (lru_remove e s)) = length (pool s)"
    using lru_frame_remove [of s e] by (simp add: lru_frame_def)
  ultimately have "lru_list (lru_promote e s) (e # as @ bs)"
    unfolding lru_promote_def using d(1) d(6) [OF assms(2)] by (intro lru_push_list) simp_all
  then show "linked (lru_promote e s) V" using xs ab by (intro linked_lru_frame [OF assms(1) fr]) auto
qed

section \<open>Contents\<close>

text \<open>
  A block is right when it holds the bytes of its file; an empty block has still to be filled. The
  files are those of the backing store, by name.
\<close>

definition block_ok :: "(u8 list \<Rightarrow> u8 list option) \<Rightarrow> cache_entry \<Rightarrow> bool" where
  "block_ok files x \<longleftrightarrow> bytes_valid x \<noteq> 0 \<longrightarrow>
     (\<exists>bs. files (cstr (ce_name x)) = Some bs \<and>
        unat (bytes_valid x) = min 4096 (length bs - 4096 * unat (block_index x)) \<and>
        take (unat (bytes_valid x)) (ce_data x) =
          take (unat (bytes_valid x)) (drop (4096 * unat (block_index x)) bs))"

definition coherent :: "(u8 list \<Rightarrow> u8 list option) \<Rightarrow> cache_state \<Rightarrow> bool" where
  "coherent files s \<longleftrightarrow> (\<forall>i \<in> live_slots s. block_ok files (pool s ! i))"

lemma block_ok_tag: "tag x = tag y \<Longrightarrow> block_ok files x = block_ok files y"
  by (simp add: tag_def block_ok_def)

lemma block_ok_empty: "bytes_valid x = 0 \<Longrightarrow> block_ok files x"
  by (simp add: block_ok_def)

section \<open>Fetching a block\<close>

lemma finite_live [simp]: "finite (live_slots s)"
  by (simp add: live_slots_def)

lemma alloc_block_full:
  assumes "alloc_block s = (s', None)" and "free_hint s < CACHE_MAX_BLOCKS"
  shows "live_slots s = {..<CACHE_MAX_BLOCKS}" and "s' = s"
proof -
  have none: "find_idx (\<lambda>i. \<not> valid (pool s ! ((free_hint s + i) mod CACHE_MAX_BLOCKS))) [0..<CACHE_MAX_BLOCKS] = None"
    and "s' = s" using assms(1) by (auto simp: alloc_block_def Let_def split: option.splits)
  then show "s' = s" by simp
  have "valid (pool s ! j)" if j: "j < CACHE_MAX_BLOCKS" for j
  proof -
    let ?i = "(j + CACHE_MAX_BLOCKS - free_hint s) mod CACHE_MAX_BLOCKS"
    have "(free_hint s + ?i) mod CACHE_MAX_BLOCKS = (free_hint s + (j + CACHE_MAX_BLOCKS - free_hint s)) mod CACHE_MAX_BLOCKS"
      by (rule mod_add_right_eq)
    also have "\<dots> = j" using j assms(2) by simp
    finally show ?thesis using none by (auto simp: find_idx_None_iff dest: bspec [of _ _ ?i])
  qed
  then show "live_slots s = {..<CACHE_MAX_BLOCKS}" by (auto simp: live_slots_def)
qed

lemma alloc_block_free:
  assumes "alloc_block s = (s', Some e)" and "length (pool s) = CACHE_MAX_BLOCKS"
  shows "e < CACHE_MAX_BLOCKS" and "e \<notin> live_slots s" and "free_hint s' < CACHE_MAX_BLOCKS"
    and "s' = (upd e (\<lambda>x. x\<lparr>valid := True\<rparr>) s)\<lparr>free_hint := free_hint s',
      stats := (stats s)\<lparr>used_blocks := used_blocks (stats s) + 1\<rparr>\<rparr>"
    and "live_slots s' = insert e (live_slots s)"
proof -
  obtain i where i: "find_idx (\<lambda>i. \<not> valid (pool s ! ((free_hint s + i) mod CACHE_MAX_BLOCKS)))
      [0..<CACHE_MAX_BLOCKS] = Some i" and e: "e = (free_hint s + i) mod CACHE_MAX_BLOCKS"
    using assms(1) by (auto simp: alloc_block_def Let_def split: option.splits)
  have "i < CACHE_MAX_BLOCKS" and "\<not> valid (pool s ! e)"
    using find_idx_SomeD(1,2) [OF i] by (simp_all add: e)
  then show 1: "e < CACHE_MAX_BLOCKS" "e \<notin> live_slots s" by (simp_all add: e live_slots_def)
  have s': "s' = (upd e (\<lambda>x. x\<lparr>valid := True\<rparr>) s)\<lparr>free_hint := (e + 1) mod CACHE_MAX_BLOCKS,
      stats := (stats s)\<lparr>used_blocks := used_blocks (stats s) + 1\<rparr>\<rparr>"
    using assms(1) unfolding alloc_block_def i by (auto simp: Let_def e upd_def)
  then show "free_hint s' < CACHE_MAX_BLOCKS"
    "s' = (upd e (\<lambda>x. x\<lparr>valid := True\<rparr>) s)\<lparr>free_hint := free_hint s',
      stats := (stats s)\<lparr>used_blocks := used_blocks (stats s) + 1\<rparr>\<rparr>"
    by simp_all
  show "live_slots s' = insert e (live_slots s)"
    using 1(1) assms(2) by (auto simp: s' live_slots_def nth_upd)
qed

lemma evict_lru_spec:
  assumes "linked s (live_slots s)" and "live_slots s \<noteq> {}"
  shows "\<exists>s' e. evict_lru s = Some (s', Some e) \<and> e \<in> live_slots s \<and> linked s' (live_slots s - {e}) \<and>
    tag_frame {} s s' \<and> free_hint s' = free_hint s \<and> used_blocks (stats s') = used_blocks (stats s)"
proof -
  obtain xs where xs: "lru_list s xs" "set xs = live_slots s" using linkedD(4) [OF assms(1)] by blast
  then have "xs \<noteq> []" using assms(2) by auto
  then have "last xs \<in> live_slots s" "lru_tail s = Some (last xs)"
    using xs last_in_set [of xs] by (auto simp: lru_list_def final_def)
  then obtain e where e: "lru_tail s = Some e" "e \<in> live_slots s" by blast
  obtain t where t: "hash_remove e s = Some t" "hash_off s t (live_slots s) e"
    using hash_remove_off [OF assms(1) e(2)] by blast
  note off = lru_off [OF assms(1) e(2) t(2)]
  let ?f = "\<lambda>x. x\<lparr>valid := True, hash_next := None, lru_prev := None, lru_next := None\<rparr>"
  let ?u = "upd e ?f (lru_remove e t)"
  let ?s' = "?u\<lparr>stats := (stats ?u)\<lparr>evictions := evictions (stats ?u) + 1\<rparr>\<rparr>"
  have "linked ?u (live_slots s - {e})" using off(1) by (rule linked_upd) (simp_all add: shape_ok_def)
  then have "linked ?s' (live_slots s - {e})" by (rule linked_other_fields) simp_all
  moreover have "tag_frame {} s ?s'"
    using off(2) e(2) by (auto simp: tag_frame_def nth_upd tag_def live_slots_def)
  moreover have "evict_lru s = Some (?s', Some e)" using e t by (simp add: evict_lru_def Let_def)
  ultimately show ?thesis using e(2) off(3,4)
    by (intro exI [of _ ?s'] exI [of _ e]) simp
qed

lemma cache_invD:
  assumes "cache_inv s"
  shows "linked s (live_slots s)" and "free_hint s < CACHE_MAX_BLOCKS"
    and "used_blocks (stats s) = of_nat (card (live_slots s))"
  using assms by (simp_all add: cache_inv_def)

text \<open>A missing block gets a slot of its own, still to be filled.\<close>

definition fetched :: "(u8 list \<Rightarrow> u8 list option) \<Rightarrow> u8 list \<Rightarrow> u32 \<Rightarrow> cache_state \<Rightarrow> nat \<Rightarrow> bool" where
  "fetched files name blk s e \<longleftrightarrow> cache_inv s \<and> coherent files s \<and> e \<in> live_slots s \<and>
     cstr (ce_name (pool s ! e)) = cstr name \<and> block_index (pool s ! e) = blk"

lemma init_block_fetched:
  assumes "linked s V" and "e \<notin> V" and "e < CACHE_MAX_BLOCKS" and "live_slots s = insert e V"
    and "length (cstr name) < CACHE_NAME_MAX" and "free_hint s < CACHE_MAX_BLOCKS"
    and "used_blocks (stats s) = of_nat (card (insert e V))"
    and "\<forall>i \<in> V. block_ok files (pool s ! i)"
  shows "fetched files name blk (init_block name blk e s) e"
proof -
  let ?t = "init_block name blk e s"
  note b = init_block_linked [OF assms(1-3), of name blk]
  have tags: "tag (pool ?t ! i) = tag (pool s ! i)" "valid (pool ?t ! i) = valid (pool s ! i)" if "i \<noteq> e" for i
    using b(2) that by (simp_all add: tag_frame_def)
  have live: "live_slots ?t = insert e V"
    unfolding assms(4) [symmetric] live_slots_def using tags(2) b(6) by metis
  have "block_ok files (pool ?t ! i)" if "i \<in> insert e V" for i
  proof (cases "i = e")
    case True
    then show ?thesis by (simp add: block_ok_empty b(5))
  next
    case False
    then show ?thesis using assms(8) that block_ok_tag [OF tags(1)] by auto
  qed
  then show ?thesis using b(1,3,4,7,8) assms(5-7) by (simp add: fetched_def cache_inv_def coherent_def live)
qed

lemma cache_get_block_spec:
  assumes inv: "cache_inv s" and coh: "coherent files s" and len: "length (cstr name) < CACHE_NAME_MAX"
  shows "\<exists>s' e. cache_get_block name blk s = Some (s', Some e) \<and> fetched files name blk s' e"
proof -
  note i = cache_invD [OF inv]
  note d = linkedD [OF i(1)]
  let ?b = "cache_hash name blk"
  have bl: "?b < CACHE_HASH_BUCKETS"
    using bucket_less [of "undefined\<lparr>ce_name := name, block_index := blk\<rparr>"] by (simp add: bucket_of_def)
  obtain ys where ys: "chain_ok s (live_slots s) ?b ys" using d(5) [OF bl] by blast
  let ?hit = "\<lambda>i. block_index (pool s ! i) = blk \<and> cstr (ce_name (pool s ! i)) = cstr name"
  have look: "hash_lookup name blk s = Some (find ?hit ys)"
    unfolding hash_lookup_def using ys by (intro hash_walk_chain) (simp add: chain_ok_def)
  show ?thesis
  proof (cases "find ?hit ys")
    case (Some e)
    then have e: "e \<in> live_slots s" "?hit e" using ys by (auto simp: find_Some_iff chain_ok_def)
    let ?s = "s\<lparr>stats := (stats s)\<lparr>hits := hits (stats s) + 1\<rparr>\<rparr>"
    have "linked ?s (live_slots s)" by (rule linked_other_fields [OF i(1)]) simp_all
    note pr = promote_linked [OF this e(1)]
    let ?t = "lru_promote e ?s"
    have f: "tag (pool ?t ! j) = tag (pool s ! j)" "valid (pool ?t ! j) = valid (pool s ! j)"
      "free_hint ?t = free_hint s" "stats ?t = stats ?s" for j
      using pr(2) by (simp_all add: lru_frame_def)
    have live: "live_slots ?t = live_slots s" by (simp add: live_slots_def f)
    have "cache_inv ?t" using pr(1) i by (simp add: cache_inv_def live f)
    moreover have "coherent files ?t" using coh block_ok_tag [OF f(1)] by (simp add: coherent_def live)
    moreover have "cache_get_block name blk s = Some (?t, Some e)" by (simp add: cache_get_block_def look Some)
    ultimately show ?thesis using e f(1) [of e] by (simp add: fetched_def live tag_def)
  next
    case None
    let ?s = "s\<lparr>stats := (stats s)\<lparr>misses := misses (stats s) + 1\<rparr>\<rparr>"
    have l: "linked ?s (live_slots s)" by (rule linked_other_fields [OF i(1)]) simp_all
    have live: "live_slots ?s = live_slots s" by (simp add: live_slots_def)
    have ok: "\<forall>i \<in> live_slots s. block_ok files (pool s ! i)" using coh by (simp add: coherent_def)
    obtain t r where al: "alloc_block ?s = (t, r)" by fastforce
    show ?thesis
    proof (cases r)
      case (Some e)
      note a = alloc_block_free [OF al [unfolded Some], unfolded live]
      have len': "length (pool ?s) = CACHE_MAX_BLOCKS" using d(1) by simp
      let ?u = "upd e (\<lambda>x. x\<lparr>valid := True\<rparr>) ?s"
      have t: "pool t = pool ?u" "hash_table t = hash_table ?u" "lru_head t = lru_head ?u"
        "lru_tail t = lru_tail ?u" "used_blocks (stats t) = used_blocks (stats s) + 1"
        by (subst a(4) [OF len'], simp)+
      have "linked ?u (live_slots s)" using l a(2) [OF len'] by (rule linked_upd) (simp add: shape_ok_def)
      then have "linked t (live_slots s)" using t(1-4) by (rule linked_other_fields)
      moreover have "\<forall>i \<in> live_slots s. block_ok files (pool t ! i)"
        using ok a(2) [OF len'] by (auto simp: t(1) nth_upd)
      moreover have "used_blocks (stats t) = of_nat (card (insert e (live_slots s)))"
        using t(5) i(3) a(2) [OF len'] by simp
      ultimately have "fetched files name blk (init_block name blk e t) e"
        using a(1-3,5) [OF len'] len by (intro init_block_fetched)
      then show ?thesis using al Some None by (simp add: cache_get_block_def look Let_def)
    next
      case full: None
      note a = alloc_block_full [OF al [unfolded full], unfolded live]
      have all: "live_slots s = {..<CACHE_MAX_BLOCKS}" using a(1) i(2) by simp
      have t: "t = ?s" using a(2) i(2) by simp
      have "linked t (live_slots t)" "live_slots t \<noteq> {}" unfolding t live using l all by (simp_all add: lessThan_empty_iff)
      then obtain u e where ev: "evict_lru t = Some (u, Some e)" "e \<in> live_slots s" "linked u (live_slots s - {e})"
        "tag_frame {} ?s u" "free_hint u = free_hint s" "used_blocks (stats u) = used_blocks (stats s)"
        using evict_lru_spec [of t] unfolding t live by auto
      have tg: "tag (pool u ! j) = tag (pool s ! j)" "valid (pool u ! j) = valid (pool s ! j)" for j
        using ev(4) by (simp_all add: tag_frame_def)
      have ins: "insert e (live_slots s - {e}) = live_slots s" using ev(2) by blast
      have "live_slots u = insert e (live_slots s - {e})" unfolding ins by (simp add: live_slots_def tg)
      moreover have "\<forall>i \<in> live_slots s - {e}. block_ok files (pool u ! i)"
        using ok block_ok_tag [OF tg(1)] by blast
      ultimately have "fetched files name blk (init_block name blk e u) e"
        using ev(2,3,5,6) len i(2,3) d(6) [OF ev(2)] ins by (intro init_block_fetched) simp_all
      then show ?thesis using al full None ev(1) by (simp add: cache_get_block_def look Let_def)
    qed
  qed
qed

section \<open>Reading\<close>

text \<open>Where a file lies in memory and what it holds.\<close>

definition file_at :: "bmem \<Rightarrow> u64 \<Rightarrow> u64 \<Rightarrow> u8 list \<Rightarrow> bool" where
  "file_at m src sz bs \<longleftrightarrow> src \<noteq> 0 \<and> unat sz = length bs \<and> mem_bytes m src (length bs) = bs \<and> length bs < 2 ^ 44"

lemma file_at_nth: "file_at m src sz bs \<Longrightarrow> i < length bs \<Longrightarrow> m (src + of_nat i) = bs ! i"
  by (metis file_at_def nth_mem_bytes)

lemma block_base: "unat (ucast (blk :: u32) * CACHE_BLOCK_SIZE) = 4096 * unat blk"
  using unat32_less [of blk] by (simp add: unat_word_ariths)

lemma fill_size:
  assumes "unat sz = length bs" and "4096 * unat (blk :: u32) < length bs"
  shows "unat (let file_off = ucast blk * CACHE_BLOCK_SIZE;
      avail = (if file_off < sz then sz - file_off else 0)
    in if avail < CACHE_BLOCK_SIZE then avail else CACHE_BLOCK_SIZE) = min 4096 (length bs - 4096 * unat blk)"
proof -
  let ?o = "ucast blk * CACHE_BLOCK_SIZE"
  have "?o < sz" using assms by (simp add: word_less_nat_alt block_base)
  moreover from this have "unat (sz - ?o) = length bs - 4096 * unat blk"
    using assms by (subst unat_sub) (auto simp: block_base)
  ultimately show ?thesis by (auto simp: Let_def word_less_nat_alt)
qed

lemma fill_block_spec:
  assumes f: "fetched files name blk s e" and known: "files (cstr name) = Some bs"
    and at: "file_at m src sz bs" and inside: "4096 * unat blk < length bs"
  defines "t \<equiv> fill_block m src sz blk e s"
  shows "cache_inv t" and "coherent files t"
    and "unat (bytes_valid (pool t ! e)) = min 4096 (length bs - 4096 * unat blk)"
    and "take (unat (bytes_valid (pool t ! e))) (ce_data (pool t ! e)) =
      take (unat (bytes_valid (pool t ! e))) (drop (4096 * unat blk) bs)"
proof -
  have inv: "cache_inv s" and coh: "coherent files s" and e: "e \<in> live_slots s"
    and nm: "cstr (ce_name (pool s ! e)) = cstr name" and bi: "block_index (pool s ! e) = blk"
    using f by (auto simp: fetched_def)
  note d = linkedD [OF cache_invD(1) [OF inv]]
  have eP: "e < length (pool s)" using d(1) d(6) [OF e] by simp
  let ?n = "min 4096 (length bs - 4096 * unat blk)"
  have "block_ok files (pool t ! e) \<and> bytes_valid (pool t ! e) \<noteq> 0 \<and> cache_inv t \<and> coherent files t"
  proof (cases "bytes_valid (pool s ! e) = 0")
    case False
    then have "t = s" by (simp add: t_def fill_block_def)
    then show ?thesis using inv coh e False by (auto simp: coherent_def)
  next
    case True
    let ?o = "ucast blk * CACHE_BLOCK_SIZE :: u64"
    define w where "w = (let avail = (if ?o < sz then sz - ?o else 0)
      in if avail < CACHE_BLOCK_SIZE then avail else CACHE_BLOCK_SIZE)"
    have w: "unat w = ?n"
      using fill_size [of sz bs blk] at inside unfolding w_def Let_def by (simp add: file_at_def)
    let ?data = "map (\<lambda>i. m (src + (?o + of_nat i))) [0..<unat w] @ drop (unat w) (ce_data (pool s ! e))"
    have t: "t = upd e (\<lambda>x. x\<lparr>ce_data := ?data, bytes_valid := ucast w\<rparr>) s"
      using True by (simp add: t_def fill_block_def Let_def w_def upd_def)
    have "length (ce_data (pool s ! e)) = 4096" using d(3) [OF d(6) [OF e]] by (simp add: shape_ok_def)
    then have len: "length ?data = 4096" by (simp add: w)
    have live: "live_slots t = live_slots s" by (auto simp: live_slots_def t nth_upd)
    have "linked t (live_slots s)" unfolding t using cache_invD(1) [OF inv] len by (rule linked_upd_data)
    then have it: "cache_inv t" using cache_invD(2,3) [OF inv] by (simp add: cache_inv_def live) (simp add: t)
    have bv: "unat (bytes_valid (pool t ! e)) = ?n"
      using eP w by (simp add: t nth_upd unsigned_ucast_eq take_bit_eq_mod)
    have "take ?n (ce_data (pool t ! e)) = take ?n (drop (4096 * unat blk) bs)"
    proof (rule nth_equalityI)
      fix i assume "i < length (take ?n (ce_data (pool t ! e)))"
      then have i: "i < ?n" by simp
      have "?o = of_nat (4096 * unat blk)" by (simp add: block_base [symmetric])
      moreover have lt: "4096 * unat blk + i < length bs" using i by linarith
      ultimately have "m (src + (?o + of_nat i)) = bs ! (4096 * unat blk + i)"
        using file_at_nth [OF at lt] by (simp add: ac_simps)
      then show "take ?n (ce_data (pool t ! e)) ! i = take ?n (drop (4096 * unat blk) bs) ! i"
        using i eP inside by (simp add: t nth_upd nth_append w)
    qed (use eP len in \<open>simp add: t nth_upd\<close>)
    then have "block_ok files (pool t ! e)"
      using eP nm bi known bv unfolding block_ok_def bv by (simp add: t nth_upd)
    moreover have "block_ok files (pool t ! i)" if "i \<in> live_slots s" "i \<noteq> e" for i
      using coh that by (simp add: coherent_def t nth_upd)
    moreover have "bytes_valid (pool t ! e) \<noteq> 0" using bv inside by auto
    ultimately show ?thesis using it by (auto simp: coherent_def live)
  qed
  moreover have "ce_name (pool t ! e) = ce_name (pool s ! e)" "block_index (pool t ! e) = blk"
    using bi by (auto simp: t_def fill_block_def Let_def nth_upd)
  ultimately show "cache_inv t" "coherent files t"
    "unat (bytes_valid (pool t ! e)) = ?n"
    "take (unat (bytes_valid (pool t ! e))) (ce_data (pool t ! e)) =
      take (unat (bytes_valid (pool t ! e))) (drop (4096 * unat blk) bs)"
    using nm known by (auto simp: block_ok_def)
qed

text \<open>The arithmetic of one turn of the loop: the block, the place in it and the bytes taken.\<close>

lemma read_turn:
  fixes offset count :: u64
  assumes "unat offset + unat count \<le> l" and "l < 2 ^ 44" and "n < unat count"
  defines "c \<equiv> offset + of_nat n"
  shows "of_nat n < count" and "unat (ucast (c div CACHE_BLOCK_SIZE) :: u32) = (unat offset + n) div 4096"
    and "unat (c mod CACHE_BLOCK_SIZE) = (unat offset + n) mod 4096"
    and "unat (count - of_nat n) = unat count - n"
    and "unat (CACHE_BLOCK_SIZE - c mod CACHE_BLOCK_SIZE) = 4096 - (unat offset + n) mod 4096"
proof -
  have n: "unat (of_nat n :: u64) = n" using assms(1-3) by (subst unat_of_nat) simp
  have c: "unat c = unat offset + n" unfolding c_def using assms(1-3) by (intro unat_add_small) simp
  show "of_nat n < count" using assms(3) n by (simp add: word_less_nat_alt)
  have "unat (c div CACHE_BLOCK_SIZE) = (unat offset + n) div 4096" by (simp add: unat_div c)
  moreover have "(unat offset + n) div 4096 < 2 ^ 32" using assms(1-3) by (simp add: div_less_iff_less_mult)
  ultimately show "unat (ucast (c div CACHE_BLOCK_SIZE) :: u32) = (unat offset + n) div 4096"
    by (simp add: unsigned_ucast_eq take_bit_eq_mod)
  show o: "unat (c mod CACHE_BLOCK_SIZE) = (unat offset + n) mod 4096" by (simp add: unat_mod c)
  show "unat (count - of_nat n) = unat count - n"
    using assms(3) n by (subst unat_sub) (simp_all add: word_le_nat_alt)
  have "(unat offset + n) mod 4096 < 4096" by simp
  then have "c mod CACHE_BLOCK_SIZE \<le> CACHE_BLOCK_SIZE" using o by (simp add: word_le_nat_alt)
  then show "unat (CACHE_BLOCK_SIZE - c mod CACHE_BLOCK_SIZE) = 4096 - (unat offset + n) mod 4096"
    using o by (subst unat_sub) simp_all
qed

lemma unat_if_less: "unat (if a > b then b else a :: u64) = min (unat a) (unat b)"
  by (simp add: word_less_nat_alt)

lemma clamp_chunk:
  fixes off ch bv :: u64
  assumes "unat off < unat bv" and "unat off + unat ch < 2 ^ 64"
  shows "unat (if off + ch > bv then bv - off else ch) = min (unat ch) (unat bv - unat off)"
proof -
  have "unat (off + ch) = unat off + unat ch" using unat_add_small [OF assms(2)] by simp
  moreover have "unat (bv - off) = unat bv - unat off"
    using assms(1) by (subst unat_sub) (simp_all add: word_le_nat_alt)
  ultimately show ?thesis using assms(1) by (auto simp: word_less_nat_alt)
qed

lemma chunk_bounds:
  fixes q v k n :: nat
  assumes "q < v" and "q < 4096" and "n < k"
  shows "1 \<le> min (min (4096 - q) (k - n)) (v - q)" and "min (min (4096 - q) (k - n)) (v - q) \<le> k - n"
    and "q + min (min (4096 - q) (k - n)) (v - q) \<le> v"
  using assms by linarith+

lemma take_chunk:
  assumes "take v d = take v (drop b xs)" and "o' + k \<le> v"
  shows "take k (drop o' d) = take k (drop (b + o') xs)"
proof -
  have "take k (drop o' d) = take k (drop o' (take v d))" using assms(2) by (simp add: drop_take)
  also have "\<dots> = take k (drop o' (drop b xs))" unfolding assms(1) using assms(2) by (simp add: drop_take)
  finally show ?thesis by (simp add: add.commute)
qed

lemma cache_read_loop_spec:
  assumes "cache_inv s" and "coherent files s"
    and len: "length (cstr name) < CACHE_NAME_MAX" and known: "files (cstr name) = Some bs"
    and at: "file_at m src sz bs" and fit: "unat offset + unat count \<le> length bs"
    and "length dst \<le> unat count" and "dst = take (length dst) (drop (unat offset) bs)"
  shows "\<exists>s'. cache_read_loop m name src sz offset count dst s =
      Some (s', Some (take (unat count) (drop (unat offset) bs))) \<and> cache_inv s' \<and> coherent files s'"
  using assms(1,2,7,8)
proof (induction "unat count - length dst" arbitrary: dst s rule: less_induct)
  case less
  let ?n = "length dst"
  show ?case
  proof (cases "?n = unat count")
    case True
    then have "\<not> of_nat ?n < count" by (simp add: word_less_nat_alt)
    then show ?thesis using True less.prems by (subst cache_read_loop.simps) (simp add: Let_def)
  next
    case False
    then have n: "?n < unat count" using less.prems(3) by simp
    have small: "length bs < 2 ^ 44" using at by (simp add: file_at_def)
    note t = read_turn [OF fit small n]
    let ?c = "offset + of_nat ?n" and ?p = "unat offset + ?n"
    let ?blk = "ucast (?c div CACHE_BLOCK_SIZE) :: u32" and ?off = "?c mod CACHE_BLOCK_SIZE"
    obtain s1 e where g: "cache_get_block name ?blk s = Some (s1, Some e)" "fetched files name ?blk s1 e"
      using cache_get_block_spec [OF less.prems(1,2) len] by blast
    have pl: "?p < length bs" using n fit by simp
    have base: "4096 * unat ?blk \<le> ?p" by (simp add: t(2))
    then have inside: "4096 * unat ?blk < length bs" using pl by simp
    let ?s2 = "fill_block m src sz ?blk e s1"
    let ?x = "pool ?s2 ! e"
    note f = fill_block_spec [OF g(2) known at inside]
    let ?bv = "min 4096 (length bs - 4096 * unat ?blk)" and ?o = "?p mod 4096"
    have split: "?p = 4096 * unat ?blk + ?o" unfolding t(2) by simp
    then have o: "?o < ?bv" using pl by simp
    let ?ch = "if CACHE_BLOCK_SIZE - ?off > count - of_nat ?n then count - of_nat ?n else CACHE_BLOCK_SIZE - ?off"
    have ch: "unat ?ch = min (4096 - ?o) (unat count - ?n)" unfolding unat_if_less t(4,5) ..
    let ?bvw = "ucast (bytes_valid ?x) :: u64"
    have bvw: "unat ?bvw = ?bv" using f(3) by simp
    have no: "\<not> ?off \<ge> ?bvw" using o t(3) bvw by (simp add: word_le_nat_alt)
    let ?ch2 = "if ?off + ?ch > ?bvw then ?bvw - ?off else ?ch"
    let ?L = "min (min (4096 - ?o) (unat count - ?n)) (?bv - ?o)"
    have L: "unat ?ch2 = ?L"
    proof -
      have "unat ?off < unat ?bvw" unfolding t(3) bvw by (rule o)
      moreover have "unat ?off + unat ?ch < 2 ^ 64" unfolding ch t(3) by simp
      ultimately have "unat ?ch2 = min (unat ?ch) (unat ?bvw - unat ?off)" by (rule clamp_chunk)
      then show ?thesis unfolding ch bvw t(3) .
    qed
    have "?o < 4096" by simp
    note cb = chunk_bounds [OF o this n]
    obtain k where k: "unat ?ch2 = k" "1 \<le> k" "k \<le> unat count - ?n" "?o + k \<le> ?bv"
      using that [OF L cb] .
    let ?dst = "dst @ take (unat ?ch2) (drop (unat ?off) (ce_data ?x))"
    have step: "cache_read_loop m name src sz offset count dst s =
        cache_read_loop m name src sz offset count ?dst ?s2"
      using t(1) g(1) no by (subst cache_read_loop.simps) (simp add: Let_def)
    have "take ?bv (ce_data ?x) = take ?bv (drop (4096 * unat ?blk) bs)" using f(3,4) by simp
    from take_chunk [OF this k(4)] have "take k (drop ?o (ce_data ?x)) = take k (drop ?p bs)"
      unfolding split [symmetric] .
    then have "?dst = take ?n (drop (unat offset) bs) @ take k (drop ?p bs)"
      using less.prems(4) unfolding k(1) t(3) by simp
    then have "?dst = take (?n + k) (drop (unat offset) bs)"
      unfolding take_add drop_drop add.commute [of ?n "unat offset"] .
    moreover have "length (take (?n + k) (drop (unat offset) bs)) = ?n + k"
      using k(3) fit n by simp
    ultimately have d: "length ?dst = ?n + k" "?dst = take (length ?dst) (drop (unat offset) bs)"
      by metis+
    have "unat count - length ?dst < unat count - ?n" "length ?dst \<le> unat count"
      unfolding d(1) using k(2,3) n by linarith+
    from less.hyps [OF this(1) f(1,2) this(2) d(2)] show ?thesis unfolding step .
  qed
qed

text \<open>Whatever the blocks hold, a read delivers no more than it was asked for.\<close>

lemma chunk_le:
  fixes off ch bv :: u64
  assumes "off < bv" and "ch \<le> 4096" and "off < 4096"
  shows "(if off + ch > bv then bv - off else ch) \<le> ch"
proof -
  have "unat off + unat ch < 2 ^ 64" "unat off < unat bv"
    using assms by (simp_all add: word_le_nat_alt word_less_nat_alt)
  from clamp_chunk [OF this(2,1)] show ?thesis by (simp only: word_le_nat_alt)
qed

lemma fits_after:
  assumes "k \<le> w" and "l \<le> c \<Longrightarrow> w = c - l" and "length xs = l" and "l \<le> c"
  shows "length (xs @ take k ys) \<le> c"
proof -
  have "length (take k ys) \<le> k" by simp
  then show ?thesis using assms by simp
qed

lemma cache_read_loop_length:
  assumes "cache_read_loop m name src sz offset count dst s = Some r"
  shows "length dst \<le> unat count \<longrightarrow> (\<forall>bs. snd r = Some bs \<longrightarrow> length bs \<le> unat count)"
proof (rule cache_read_loop.raw_induct [of "\<lambda>m name src sz offset count dst s r.
    length dst \<le> unat count \<longrightarrow> (\<forall>bs. snd r = Some bs \<longrightarrow> length bs \<le> unat count)", OF _ assms])
  fix loop m name src sz offset count dst s r
  assume 1: "\<And>m name src sz offset count dst s r. loop m name src sz offset count dst s = Some r \<Longrightarrow>
      length dst \<le> unat count \<longrightarrow> (\<forall>bs. snd r = Some bs \<longrightarrow> length bs \<le> unat count)"
    "(let bytes_done = of_nat (length dst) in
      if \<not> bytes_done < count then Some (s, Some dst)
      else let cur_offset = offset + bytes_done;
               block_idx = ucast (cur_offset div CACHE_BLOCK_SIZE);
               block_off = cur_offset mod CACHE_BLOCK_SIZE;
               chunk = (if CACHE_BLOCK_SIZE - block_off > count - bytes_done then count - bytes_done
                        else CACHE_BLOCK_SIZE - block_off)
           in (case cache_get_block name block_idx s of
                 None \<Rightarrow> None
               | Some (s, None) \<Rightarrow> Some (s, None)
               | Some (s, Some e) \<Rightarrow>
                   let s = fill_block m src sz block_idx e s;
                       x = pool s ! e
                   in if block_off \<ge> ucast (bytes_valid x) then Some (s, Some dst)
                      else let chunk = (if block_off + chunk > ucast (bytes_valid x)
                                        then ucast (bytes_valid x) - block_off else chunk)
                           in loop m name src sz offset count
                                (dst @ take (unat chunk) (drop (unat block_off) (ce_data x))) s)) = Some r"
  show "length dst \<le> unat count \<longrightarrow> (\<forall>bs. snd r = Some bs \<longrightarrow> length bs \<le> unat count)"
  proof (cases "of_nat (length dst) < count")
    case False
    then show ?thesis using 1(2) by (auto simp: Let_def)
  next
    case True
    let ?off = "(offset + of_nat (length dst)) mod CACHE_BLOCK_SIZE"
    let ?blk = "ucast ((offset + of_nat (length dst)) div CACHE_BLOCK_SIZE) :: u32"
    let ?ch = "if CACHE_BLOCK_SIZE - ?off > count - of_nat (length dst) then count - of_nat (length dst)
      else CACHE_BLOCK_SIZE - ?off"
    show ?thesis
    proof (cases "cache_get_block name ?blk s")
      case None
      then show ?thesis using 1(2) True by (simp add: Let_def)
    next
      case (Some g)
      then obtain s1 eo where g: "cache_get_block name ?blk s = Some (s1, eo)" by (cases g) auto
      show ?thesis
      proof (cases eo)
        case None
        then show ?thesis using 1(2) True g by (auto simp: Let_def)
      next
        case (Some e)
        let ?x = "pool (fill_block m src sz ?blk e s1) ! e"
        let ?bv = "ucast (bytes_valid ?x) :: u64"
        let ?ch2 = "if ?off + ?ch > ?bv then ?bv - ?off else ?ch"
        let ?dst = "dst @ take (unat ?ch2) (drop (unat ?off) (ce_data ?x))"
        show ?thesis
        proof (cases "?off \<ge> ?bv")
          case True
          then show ?thesis using 1(2) \<open>of_nat (length dst) < count\<close> g Some by (auto simp: Let_def)
        next
          case False
          have run: "loop m name src sz offset count ?dst (fill_block m src sz ?blk e s1) = Some r"
            using 1(2) True g Some False by (simp add: Let_def)
          have "unat ?off = unat (offset + of_nat (length dst)) mod 4096" by (simp add: unat_mod)
          then have "?off < 4096" by (simp add: word_less_nat_alt)
          moreover from this have "CACHE_BLOCK_SIZE - ?off \<le> 4096"
            by (simp add: word_le_nat_alt unat_sub word_less_nat_alt)
          then have "?ch \<le> 4096" by (auto simp: not_less intro: order.trans less_imp_le)
          moreover have "?off < ?bv" using False by simp
          ultimately have "?ch2 \<le> ?ch" by (intro chunk_le)
          also have "?ch \<le> count - of_nat (length dst)" by (simp add: not_less)
          finally have "unat ?ch2 \<le> unat (count - of_nat (length dst))" by (rule word_le_nat_alt [THEN iffD1])
          moreover have "unat (count - of_nat (length dst)) = unat count - length dst"
            if "length dst \<le> unat count"
          proof -
            have "unat (of_nat (length dst) :: u64) = length dst"
              using that unat64_less [of count] by (subst unat_of_nat) simp
            then show ?thesis using that by (subst unat_sub) (simp_all add: word_le_nat_alt)
          qed
          ultimately have "length ?dst \<le> unat count" if "length dst \<le> unat count"
            using that by (intro fits_after [OF _ _ refl])
          then show ?thesis using 1(1) [OF run] by blast
        qed
      qed
    qed
  qed
qed

lemma cache_read_length:
  assumes "cache_read m (Some name) src sz offset False count s = Some (s', Some bs)" and "offset < sz"
  shows "length bs \<le> unat sz - unat offset"
proof -
  let ?c = "if count > sz - offset then sz - offset else count"
  have "src \<noteq> 0" using assms(1) by (auto simp: cache_read_def)
  then have run: "cache_read_loop m name src sz offset ?c [] s = Some (s', Some bs)"
    using assms by (simp add: cache_read_def Let_def not_le split: if_splits)
  have "?c \<le> sz - offset" by (simp add: not_less)
  moreover have "unat (sz - offset) = unat sz - unat offset" using assms(2) by (intro unat_sub) simp
  ultimately have "unat ?c \<le> unat sz - unat offset" by (simp only: word_le_nat_alt)
  then show ?thesis using cache_read_loop_length [OF run] by auto
qed

lemma cache_read_spec:
  assumes "cache_inv s" and "coherent files s" and "length (cstr name) < CACHE_NAME_MAX"
    and "files (cstr name) = Some bs" and at: "file_at m src sz bs"
  shows "\<exists>s'. cache_read m (Some name) src sz offset False count s =
      Some (s', Some (take (unat count) (drop (unat offset) bs))) \<and> cache_inv s' \<and> coherent files s'"
proof (cases "offset \<ge> sz")
  case True
  then show ?thesis using assms by (simp add: cache_read_def file_at_def word_le_nat_alt)
next
  case False
  then have o': "unat offset < length bs" and "offset \<le> sz"
    using at by (simp_all add: file_at_def word_le_nat_alt not_le)
  then have r: "unat (sz - offset) = length bs - unat offset" using at by (simp add: unat_sub file_at_def)
  let ?c = "if count > sz - offset then sz - offset else count"
  have c: "unat ?c = min (length bs - unat offset) (unat count)" unfolding unat_if_less r by (simp add: min.commute)
  have "take (unat ?c) (drop (unat offset) bs) = take (unat count) (drop (unat offset) bs)"
    unfolding c by (simp add: min_def)
  moreover have "unat offset + unat ?c \<le> length bs" unfolding c using o' by simp
  ultimately have "\<exists>s'. cache_read_loop m name src sz offset ?c [] s =
      Some (s', Some (take (unat count) (drop (unat offset) bs))) \<and> cache_inv s' \<and> coherent files s'"
    using cache_read_loop_spec [OF assms, of offset ?c "[]"] by simp
  then show ?thesis using False at by (simp add: cache_read_def file_at_def Let_def)
qed

section \<open>Invalidation\<close>

text \<open>What remains after some live slots have been given up.\<close>

definition dropped :: "nat set \<Rightarrow> cache_state \<Rightarrow> cache_state \<Rightarrow> bool" where
  "dropped D s s' \<longleftrightarrow> cache_inv s' \<and> live_slots s' = live_slots s - D \<and>
     (\<forall>i. tag (pool s' ! i) = tag (pool s ! i))"

lemma dropped_trans: "dropped D s t \<Longrightarrow> dropped E t u \<Longrightarrow> dropped (D \<union> E) s u"
  by (auto simp: dropped_def)

lemma dropped_coherent: "dropped D s s' \<Longrightarrow> coherent files s \<Longrightarrow> coherent files s'"
  unfolding dropped_def coherent_def using block_ok_tag by blast

abbreviation entry_named :: "u8 list \<Rightarrow> cache_state \<Rightarrow> nat \<Rightarrow> bool" where
  "entry_named name s i \<equiv> cstr (ce_name (pool s ! i)) = cstr name"

lemma tag_named: "tag x = tag y \<Longrightarrow> ce_name x = ce_name y"
  by (simp add: tag_def)

lemma read_link_chain:
  "hchain (pool s) (hash_table s ! b) (as @ ys) \<Longrightarrow> read_link (link_to (Bucket b) as) s = first ys None"
proof (cases as rule: rev_cases)
  case (snoc zs p)
  have "hchain P a (zs @ p # ys) \<Longrightarrow> hchain P (hash_next (P ! p)) ys" for P a
    by (induction zs arbitrary: a) auto
  moreover assume "hchain (pool s) (hash_table s ! b) (as @ ys)"
  ultimately show ?thesis using snoc by (auto dest: hchain_first)
qed (auto dest: hchain_first)

lemma invalidate_chain_spec:
  assumes "cache_inv s" and "chain_ok s (live_slots s) b (as @ ys)"
  shows "\<exists>s'. invalidate_chain name (link_to (Bucket b) as) s = Some s' \<and>
    dropped {i \<in> set ys. entry_named name s i} s s'"
  using assms
proof (induction ys arbitrary: as s)
  case Nil
  have "read_link (link_to (Bucket b) as) s = None"
    using read_link_chain [of s b as "[]"] Nil(2) by (simp add: chain_ok_def)
  then show ?case using Nil(1) by (simp add: invalidate_chain.simps dropped_def)
next
  case (Cons e ys)
  note i = cache_invD [OF Cons.prems(1)]
  let ?pp = "link_to (Bucket b) as"
  have rd: "read_link ?pp s = Some e"
    using read_link_chain [of s b as "e # ys"] Cons.prems(2) by (simp add: chain_ok_def)
  show ?case
  proof (cases "entry_named name s e")
    case False
    have nx: "NextOf e = link_to (Bucket b) (as @ [e])" by simp
    have "chain_ok s (live_slots s) b ((as @ [e]) @ ys)" using Cons.prems(2) by simp
    from Cons.IH [OF Cons.prems(1) this] obtain s' where
      "invalidate_chain name (NextOf e) s = Some s'" "dropped {i \<in> set ys. entry_named name s i} s s'"
      unfolding nx by blast
    moreover have "{i \<in> set (e # ys). entry_named name s i} = {i \<in> set ys. entry_named name s i}"
      using False by auto
    ultimately show ?thesis using rd False
      by (subst invalidate_chain.simps) (simp add: strcmp_eq_0_iff)
  next
    case True
    have e: "e \<in> live_slots s" "bucket_of (pool s ! e) = b" using Cons.prems(2) by (auto simp: chain_ok_def)
    note c = Cons.prems(2) [folded e(2)]
    let ?w = "write_link (link_to (Bucket (bucket_of (pool s ! e))) as) (hash_next (pool s ! e)) s"
    note un = unhash [OF i(1) e(1) c]
    note off = lru_off [OF i(1) e(1) un(1)]
    let ?V = "live_slots s - {e}"
    let ?f = "\<lambda>x. x\<lparr>valid := False, hash_next := None\<rparr>"
    let ?u = "upd e ?f (lru_remove e ?w)"
    let ?t = "?u\<lparr>stats := (stats ?u)\<lparr>used_blocks := used_blocks (stats ?u) - 1\<rparr>\<rparr>"
    have l: "linked ?u ?V" using off(1) by (rule linked_upd) (simp_all add: shape_ok_def)
    then have "linked ?t ?V" by (rule linked_other_fields) simp_all
    moreover have live: "live_slots ?t = ?V"
      using off(2) linkedD(1) [OF i(1)] by (auto simp: live_slots_def nth_upd tag_frame_def)
    moreover have "0 < card (live_slots s)" using e(1) by (auto simp: card_gt_0_iff)
    then have "card (live_slots s) = Suc (card ?V)" using e(1) by (simp add: card_Diff_singleton)
    then have "used_blocks (stats ?t) = of_nat (card ?V)" using i(3) off(4) by simp
    ultimately have inv: "cache_inv ?t" using i(2) off(3) by (simp add: cache_inv_def)
    have tags: "tag (pool ?t ! j) = tag (pool s ! j)" for j
    proof -
      have "tag (pool ?t ! j) = tag (pool (lru_remove e ?w) ! j)" by (simp add: nth_upd tag_def)
      then show ?thesis using off(2) by (simp add: tag_frame_def)
    qed
    have one: "dropped {e} s ?t" using inv live tags by (simp add: dropped_def)
    have "chain_ok ?u ?V (bucket_of (pool s ! e)) (as @ ys)" by (intro chain_upd off(5) un(2)) simp
    then have "chain_ok ?t ?V (bucket_of (pool s ! e)) (as @ ys)" by (simp add: chain_ok_def)
    then have "chain_ok ?t (live_slots ?t) b (as @ ys)" unfolding live unfolding e(2) .
    from Cons.IH [OF inv this] obtain s' where s': "invalidate_chain name ?pp ?t = Some s'"
      "dropped {i \<in> set ys. entry_named name ?t i} ?t s'" by blast
    have "entry_named name ?t i = entry_named name s i" for i using tag_named [OF tags] by simp
    then have "{e} \<union> {i \<in> set ys. entry_named name ?t i} = {i \<in> set (e # ys). entry_named name s i}"
      using True by auto
    then have gone: "dropped {i \<in> set (e # ys). entry_named name s i} s s'"
      using dropped_trans [OF one s'(2)] by simp
    have "invalidate_chain name ?pp s = invalidate_chain name ?pp ?t"
      using rd True e(2) by (subst invalidate_chain.simps) (simp add: strcmp_eq_0_iff Let_def)
    from trans [OF this s'(1)] show ?thesis using gone by blast
  qed
qed

lemma invalidate_buckets_spec:
  "cache_inv s \<Longrightarrow> \<forall>b \<in> set bs. b < CACHE_HASH_BUCKETS \<Longrightarrow>
   \<exists>s'. invalidate_buckets name bs s = Some s' \<and>
     dropped {i \<in> live_slots s. bucket_of (pool s ! i) \<in> set bs \<and> entry_named name s i} s s'"
proof (induction bs arbitrary: s)
  case Nil
  then show ?case by (simp add: dropped_def)
next
  case (Cons b bs)
  obtain ys where ys: "chain_ok s (live_slots s) b ([] @ ys)"
    using linkedD(5) [OF cache_invD(1) [OF Cons.prems(1)]] Cons.prems(2) by auto
  obtain t where t: "invalidate_chain name (Bucket b) s = Some t" "dropped {i \<in> set ys. entry_named name s i} s t"
    using invalidate_chain_spec [OF Cons.prems(1) ys, of name] by auto
  have inv: "cache_inv t" and live: "live_slots t = live_slots s - {i \<in> set ys. entry_named name s i}"
    and tags: "\<And>i. tag (pool t ! i) = tag (pool s ! i)" using t(2) by (simp_all add: dropped_def)
  from Cons.IH [OF inv] Cons.prems(2) obtain u where u: "invalidate_buckets name bs t = Some u"
    "dropped {i \<in> live_slots t. bucket_of (pool t ! i) \<in> set bs \<and> entry_named name t i} t u" by auto
  have "{i \<in> set ys. entry_named name s i} \<union>
      {i \<in> live_slots t. bucket_of (pool t ! i) \<in> set bs \<and> entry_named name t i} =
    {i \<in> live_slots s. bucket_of (pool s ! i) \<in> set (b # bs) \<and> entry_named name s i}"
    using ys bucket_tag [OF tags] tag_named [OF tags] by (auto simp: chain_ok_def live)
  then show ?case using t(1) u dropped_trans [OF t(2) u(2)] by simp
qed

lemma cache_invalidate_spec:
  assumes "cache_inv s"
  shows "\<exists>s'. cache_invalidate (Some name) s = Some s' \<and>
    dropped {i \<in> live_slots s. entry_named name s i} s s'"
  using invalidate_buckets_spec [OF assms, of "[0..<CACHE_HASH_BUCKETS]" name] bucket_less
  by (simp add: cache_invalidate_def)

section \<open>Starting and flushing\<close>

lemma empty_linked:
  assumes "length (pool s) = CACHE_MAX_BLOCKS" and "length (hash_table s) = CACHE_HASH_BUCKETS"
    and "\<forall>x \<in> set (pool s). shape_ok x"
    and "pool s' = map free_entry (pool s)" and "hash_table s' = map (\<lambda>_. None) (hash_table s)"
    and "lru_head s' = None" and "lru_tail s' = None"
  shows "linked s' {}" and "live_slots s' = {}"
proof -
  have "lru_list s' []" using assms by (simp add: lru_list_def)
  moreover have "chain_ok s' {} b []" if "b < CACHE_HASH_BUCKETS" for b
    using that assms by (simp add: chain_ok_def)
  moreover have "shape_ok (pool s' ! i)" if "i < CACHE_MAX_BLOCKS" for i
    using that assms nth_mem [of i "pool s"] by (auto simp: shape_ok_def free_entry_def)
  ultimately show "linked s' {}" unfolding linked_def using assms
    by (intro conjI allI impI exI [of _ "[]"]) simp_all
  show "live_slots s' = {}" using assms(1,4) by (auto simp: live_slots_def free_entry_def)
qed

lemma cache_flush_inv: "cache_inv s \<Longrightarrow> cache_inv (cache_flush_all s) \<and> live_slots (cache_flush_all s) = {}"
proof -
  assume "cache_inv s"
  note d = linkedD [OF cache_invD(1) [OF this]]
  have "\<forall>x \<in> set (pool s). shape_ok x" using d(1,3) by (auto simp: in_set_conv_nth)
  note e = empty_linked [OF d(1,2) this, of "cache_flush_all s"]
  have "linked (cache_flush_all s) {}" "live_slots (cache_flush_all s) = {}"
    by (rule e; simp add: cache_flush_all_def)+
  then show ?thesis by (simp add: cache_inv_def) (simp add: cache_flush_all_def)
qed

lemma cache_init_inv:
  assumes "length (pool s) = CACHE_MAX_BLOCKS" and "length (hash_table s) = CACHE_HASH_BUCKETS"
    and "\<forall>x \<in> set (pool s). shape_ok x"
  shows "cache_inv (cache_init s)" and "live_slots (cache_init s) = {}"
proof -
  note e = empty_linked [OF assms, of "cache_init s"]
  have "linked (cache_init s) {}" "live_slots (cache_init s) = {}"
    by (rule e; simp add: cache_init_def)+
  then show "cache_inv (cache_init s)" "live_slots (cache_init s) = {}"
    by (simp_all add: cache_inv_def) (simp add: cache_init_def)
qed

section \<open>Properties\<close>

text \<open>
  The files behind the cache: their places in memory by name. Names are shorter than the 64 bytes of a
  tag, for a longer one is cut off in its tag and then never found, or found for another file.
\<close>

definition backing :: "bmem \<Rightarrow> (u8 list \<Rightarrow> u64 \<times> u64) \<Rightarrow> (u8 list \<Rightarrow> u8 list option) \<Rightarrow> bool" where
  "backing m loc files \<longleftrightarrow> (\<forall>nm bs. files nm = Some bs \<longrightarrow>
     length nm < CACHE_NAME_MAX \<and> file_at m (fst (loc nm)) (snd (loc nm)) bs)"

datatype cache_op = CRead "u8 list" u64 u64 | CInvalidate "u8 list" | CFlush

fun cache_exec :: "bmem \<Rightarrow> (u8 list \<Rightarrow> u64 \<times> u64) \<Rightarrow> cache_op \<Rightarrow> cache_state \<Rightarrow>
    (cache_state \<times> u8 list option) option" where
  "cache_exec m loc (CRead name offset count) s =
     cache_read m (Some name) (fst (loc (cstr name))) (snd (loc (cstr name))) offset False count s"
| "cache_exec m loc (CInvalidate name) s = map_option (\<lambda>s. (s, None)) (cache_invalidate (Some name) s)"
| "cache_exec m loc CFlush s = Some (cache_flush_all s, None)"

primrec cache_run :: "bmem \<Rightarrow> (u8 list \<Rightarrow> u64 \<times> u64) \<Rightarrow> cache_op list \<Rightarrow> cache_state \<Rightarrow>
    (cache_state \<times> u8 list option list) option" where
  "cache_run m loc [] s = Some (s, [])"
| "cache_run m loc (op # ops) s =
     (case cache_exec m loc op s of
        None \<Rightarrow> None
      | Some (s, r) \<Rightarrow> map_option (\<lambda>(s, rs). (s, r # rs)) (cache_run m loc ops s))"

text \<open>The same requests without a cache.\<close>

fun direct :: "(u8 list \<Rightarrow> u8 list option) \<Rightarrow> cache_op \<Rightarrow> u8 list option" where
  "direct files (CRead name offset count) =
     map_option (\<lambda>bs. take (unat count) (drop (unat offset) bs)) (files (cstr name))"
| "direct files _ = None"

fun reads_known :: "(u8 list \<Rightarrow> u8 list option) \<Rightarrow> cache_op \<Rightarrow> bool" where
  "reads_known files (CRead name _ _) \<longleftrightarrow> files (cstr name) \<noteq> None"
| "reads_known files _ \<longleftrightarrow> True"

fun_cases cache_exec_ReadE: "cache_exec m loc (CRead name offset count) s = Some r"

lemma cache_exec_direct:
  assumes "cache_inv s" and "coherent files s" and "backing m loc files" and "reads_known files op"
  shows "\<exists>s'. cache_exec m loc op s = Some (s', direct files op) \<and> cache_inv s' \<and> coherent files s'"
proof (cases op)
  case (CRead name offset count)
  then obtain bs where bs: "files (cstr name) = Some bs" using assms(4) by auto
  then have "length (cstr name) < CACHE_NAME_MAX"
    "file_at m (fst (loc (cstr name))) (snd (loc (cstr name))) bs"
    using assms(3) by (auto simp: backing_def)
  from cache_read_spec [OF assms(1,2) this(1) bs this(2)] show ?thesis using bs by (simp add: CRead)
next
  case (CInvalidate name)
  obtain s' where s': "cache_invalidate (Some name) s = Some s'" "dropped {i \<in> live_slots s. entry_named name s i} s s'"
    using cache_invalidate_spec [OF assms(1)] by blast
  then show ?thesis using dropped_coherent [OF s'(2) assms(2)] by (auto simp: CInvalidate dropped_def)
next
  case CFlush
  then show ?thesis using cache_flush_inv [OF assms(1)] by (simp add: coherent_def)
qed

text \<open>
  C18: the cache is transparent: any sequence of reads, invalidations and flushes on a sound cache runs
  to its end, and every read answers exactly the bytes the file itself holds at that place, whatever
  was evicted, invalidated or found before; the links of the cache stay sound and every block it holds
  stays right.
\<close>

theorem cache_transparent:
  assumes "cache_inv s" and "coherent files s" and "backing m loc files"
    and "\<forall>op \<in> set ops. reads_known files op"
  shows "\<exists>s'. cache_run m loc ops s = Some (s', map (direct files) ops) \<and> cache_inv s' \<and> coherent files s'"
  using assms(1,2,4)
proof (induction ops arbitrary: s)
  case Nil
  then show ?case by simp
next
  case (Cons op ops)
  from cache_exec_direct [OF Cons.prems(1,2) assms(3), of op] Cons.prems(3) obtain t where
    t: "cache_exec m loc op s = Some (t, direct files op)" "cache_inv t" "coherent files t" by auto
  from Cons.IH [OF t(2,3)] Cons.prems(3) obtain u where
    "cache_run m loc ops t = Some (u, map (direct files) ops)" "cache_inv u" "coherent files u" by auto
  then show ?case using t(1) by simp
qed

definition blank_entry :: cache_entry where
  "blank_entry = \<lparr>valid = False, ce_name = replicate 64 0, block_index = 0, ce_data = replicate 4096 0,
     bytes_valid = 0, lru_prev = None, lru_next = None, hash_next = None\<rparr>"

definition blank_cache :: cache_state where
  "blank_cache = \<lparr>pool = replicate 128 blank_entry, hash_table = replicate 64 None, lru_head = None,
     lru_tail = None, free_hint = 0,
     stats = \<lparr>hits = 0, misses = 0, evictions = 0, used_blocks = 0, total_blocks = 0\<rparr>\<rparr>"

lemma fresh_cache: "cache_inv (cache_init blank_cache)" "coherent files (cache_init blank_cache)"
proof -
  have "\<forall>x \<in> set (pool blank_cache). shape_ok x" by (simp add: blank_cache_def blank_entry_def shape_ok_def)
  from cache_init_inv [OF _ _ this] show "cache_inv (cache_init blank_cache)" "coherent files (cache_init blank_cache)"
    by (simp_all add: blank_cache_def coherent_def)
qed

lemma cache_transparent_witness:
  "\<exists>s'. cache_run (\<lambda>a. ucast a) (\<lambda>_. (16, 3)) [CRead [97] 1 5, CFlush, CRead [97] 0 1] (cache_init blank_cache) =
     Some (s', [Some [17, 18], None, Some [16]])"
proof -
  let ?files = "\<lambda>nm. if nm = [97] then Some [16, 17, 18] else None"
  have "backing (\<lambda>a. ucast a) (\<lambda>_. (16, 3)) ?files"
    by (auto simp: backing_def file_at_def mem_bytes_def upt_conv_Cons)
  from cache_transparent [OF fresh_cache this, of "[CRead [97] 1 5, CFlush, CRead [97] 0 1]"]
  show ?thesis by auto
qed

end
