(* ===== verification/Vfs.thy ===== *)
theory Vfs
  imports Tmpfs Tar Cache
begin

text \<open>
  The file layer, \<^verbatim>\<open>fs/vfs.c\<close>: a table of 16 descriptors over the two back ends, the archive of theory
  Tar (read through the cache of theory Cache) and the file table of theory Tmpfs. The state is the
  one of tmpfs with the cache, the archive's address and the running task's descriptors; a missing
  task is the descriptor table \<^const>\<open>None\<close>. The code ignores its \<^verbatim>\<open>pid\<close> arguments, so they are left out.
\<close>

section \<open>State\<close>

datatype vfs_type = VFS_TYPE_NONE | VFS_TYPE_FILE | VFS_TYPE_DIR

record vfs_fd =
  fd_type :: vfs_type
  fd_name :: "u8 list"
  fd_data :: u64
  fd_size :: u64
  fd_offset :: u64
  fd_writable :: bool
  fd_tmpfs_idx :: int

record vfs_state = tmpfs_state +
  vcache :: cache_state
  tar_archive :: u64
  fds :: "vfs_fd list option"

abbreviation VFS_MAX_FDS :: nat where "VFS_MAX_FDS \<equiv> 16"
abbreviation O_CREATE :: u32 where "O_CREATE \<equiv> 4"

definition vfs_init :: "'a vfs_state_scheme \<Rightarrow> 'a vfs_state_scheme" where
  "vfs_init s = tmpfs_init (s\<lparr>vcache := cache_init (vcache s)\<rparr>)"

section \<open>Opening and closing\<close>

text \<open>The scan for a free descriptor that every branch of \<^verbatim>\<open>vfs_open\<close> ends with.\<close>

definition claim_fd :: "(vfs_fd \<Rightarrow> vfs_fd) \<Rightarrow> 'a vfs_state_scheme \<Rightarrow> 'a vfs_state_scheme \<times> int" where
  "claim_fd f s =
     (case fds s of
        None \<Rightarrow> (s, -1)
      | Some fs \<Rightarrow>
          (case find_idx (\<lambda>x. fd_type x = VFS_TYPE_NONE) fs of
             None \<Rightarrow> (s, -1)
           | Some i \<Rightarrow> (s\<lparr>fds := Some (fs[i := f (fs ! i)])\<rparr>, int i)))"

definition dir_fd :: "vfs_fd \<Rightarrow> vfs_fd" where
  "dir_fd x = x\<lparr>fd_type := VFS_TYPE_DIR, fd_name := (fd_name x)[0 := 47, 1 := 0], fd_data := 0,
     fd_size := 0, fd_offset := 0, fd_writable := False, fd_tmpfs_idx := -1\<rparr>"

definition tmpfs_fd :: "u8 list \<Rightarrow> int \<Rightarrow> u64 \<Rightarrow> vfs_fd \<Rightarrow> vfs_fd" where
  "tmpfs_fd filename tidx sz x = x\<lparr>fd_type := VFS_TYPE_FILE, fd_writable := True, fd_tmpfs_idx := tidx,
     fd_data := 0, fd_offset := 0, fd_size := sz, fd_name := copy_name 99 filename (fd_name x)\<rparr>"

definition tar_fd :: "u8 list \<Rightarrow> u64 \<Rightarrow> u64 \<Rightarrow> vfs_fd \<Rightarrow> vfs_fd" where
  "tar_fd filename data sz x = x\<lparr>fd_type := VFS_TYPE_FILE, fd_writable := False, fd_tmpfs_idx := -1,
     fd_name := copy_name 99 filename (fd_name x), fd_data := data, fd_size := sz, fd_offset := 0\<rparr>"

definition entry_size :: "'a tmpfs_state_scheme \<Rightarrow> int \<Rightarrow> u64" where
  "entry_size s tidx = (case tmpfs_get_entry s tidx (replicate 100 0) of None \<Rightarrow> 0 | Some (_, sz) \<Rightarrow> sz)"

definition vfs_open ::
    "u8 list option \<Rightarrow> u32 \<Rightarrow> 'a vfs_state_scheme \<Rightarrow> ('a vfs_state_scheme \<times> int) option" where
  "vfs_open filename flags s =
     (case filename of
        None \<Rightarrow> Some (s, -1)
      | Some nm \<Rightarrow>
          if fds s = None then Some (s, -1)
          else if c_at nm 0 = 47 \<and> c_at nm 1 = 0 then Some (claim_fd dir_fd s)
          else let tidx = tmpfs_open s (Some nm)
               in if tidx \<ge> 0 then Some (claim_fd (tmpfs_fd nm tidx (entry_size s tidx)) s)
                  else case tar_read_file (mem s) (tar_archive s) nm of
                         None \<Rightarrow> None
                       | Some (Some (data, sz)) \<Rightarrow> Some (claim_fd (tar_fd nm data sz) s)
                       | Some None \<Rightarrow>
                           if flags AND O_CREATE \<noteq> 0
                           then case tmpfs_create (Some nm) s of
                                  None \<Rightarrow> None
                                | Some (s, tidx) \<Rightarrow>
                                    if tidx < 0 then Some (s, -1) else Some (claim_fd (tmpfs_fd nm tidx 0) s)
                           else Some (s, -1))"

definition bad_fd :: "int \<Rightarrow> bool" where
  "bad_fd fd \<longleftrightarrow> fd < 0 \<or> fd \<ge> int VFS_MAX_FDS"

definition vfs_close :: "int \<Rightarrow> 'a vfs_state_scheme \<Rightarrow> 'a vfs_state_scheme \<times> int" where
  "vfs_close fd s =
     (if bad_fd fd then (s, -1)
      else case fds s of
             None \<Rightarrow> (s, -1)
           | Some fs \<Rightarrow>
               let f = fs ! nat fd
               in if fd_type f = VFS_TYPE_NONE then (s, -1)
                  else (s\<lparr>fds := Some (fs[nat fd := f\<lparr>fd_type := VFS_TYPE_NONE, fd_writable := False,
                          fd_tmpfs_idx := -1\<rparr>])\<rparr>, 0))"

section \<open>Reading, writing, seeking\<close>

definition set_fd :: "int \<Rightarrow> vfs_fd \<Rightarrow> 'a vfs_state_scheme \<Rightarrow> 'a vfs_state_scheme" where
  "set_fd fd f s = s\<lparr>fds := map_option (\<lambda>fs. fs[nat fd := f]) (fds s)\<rparr>"

text \<open>The C result of a transfer: the number of bytes as an \<^verbatim>\<open>int\<close>, or -1.\<close>

definition transfer_result :: "u8 list option \<Rightarrow> int" where
  "transfer_result r = (case r of None \<Rightarrow> -1 | Some bs \<Rightarrow> sint (of_nat (length bs) :: u32))"

definition advance :: "int \<Rightarrow> vfs_fd \<Rightarrow> vfs_fd" where
  "advance result f = (if result > 0 then f\<lparr>fd_offset := fd_offset f + of_int result\<rparr> else f)"

text \<open>The bytes put into the caller's buffer; the C result is their \<^const>\<open>transfer_result\<close>.\<close>

definition vfs_read ::
    "int \<Rightarrow> bool \<Rightarrow> u64 \<Rightarrow> 'a vfs_state_scheme \<Rightarrow> ('a vfs_state_scheme \<times> u8 list option) option" where
  "vfs_read fd buf_null count s =
     (if bad_fd fd \<or> buf_null then Some (s, None)
      else case fds s of
             None \<Rightarrow> Some (s, None)
           | Some fs \<Rightarrow>
               let f = fs ! nat fd
               in if fd_type f \<noteq> VFS_TYPE_FILE then Some (s, None)
                  else if fd_offset f \<ge> fd_size f then Some (s, Some [])
                  else if fd_tmpfs_idx f \<ge> 0
                  then let r = tmpfs_read s (fd_tmpfs_idx f) (fd_offset f) buf_null count
                       in Some (set_fd fd (advance (transfer_result r) f) s, r)
                  else case cache_read (mem s) (Some (fd_name f)) (fd_data f) (fd_size f) (fd_offset f) buf_null
                              count (vcache s) of
                         None \<Rightarrow> None
                       | Some (c, r) \<Rightarrow>
                           Some (set_fd fd (advance (transfer_result r) f) (s\<lparr>vcache := c\<rparr>), r))"

text \<open>The clamped new position; the comparisons are signed.\<close>

definition seek_pos :: "u64 \<Rightarrow> int \<Rightarrow> vfs_fd \<Rightarrow> u64" where
  "seek_pos offset whence f =
     (let new_pos = (if whence = 0 then offset
                     else if whence = 1 then fd_offset f + offset
                     else fd_size f + offset);
          new_pos = (if sint new_pos < 0 then 0 else new_pos)
      in if sint new_pos > sint (fd_size f) then fd_size f else new_pos)"

definition vfs_seek :: "int \<Rightarrow> u64 \<Rightarrow> int \<Rightarrow> 'a vfs_state_scheme \<Rightarrow> 'a vfs_state_scheme \<times> int" where
  "vfs_seek fd offset whence s =
     (if bad_fd fd then (s, -1)
      else case fds s of
             None \<Rightarrow> (s, -1)
           | Some fs \<Rightarrow>
               let f = fs ! nat fd
               in if fd_type f \<noteq> VFS_TYPE_FILE then (s, -1)
                  else if whence < 0 \<or> whence > 2 then (s, -1)
                  else let new_pos = seek_pos offset whence f
                       in (set_fd fd (f\<lparr>fd_offset := new_pos\<rparr>) s, sint (ucast new_pos :: u32)))"

definition vfs_write ::
    "int \<Rightarrow> u8 list option \<Rightarrow> u64 \<Rightarrow> 'a vfs_state_scheme \<Rightarrow> ('a vfs_state_scheme \<times> int) option" where
  "vfs_write fd buf count s =
     (if bad_fd fd \<or> buf = None then Some (s, -1)
      else case fds s of
             None \<Rightarrow> Some (s, -1)
           | Some fs \<Rightarrow>
               let f = fs ! nat fd
               in if fd_type f \<noteq> VFS_TYPE_FILE then Some (s, -1)
                  else if \<not> fd_writable f \<or> fd_tmpfs_idx f < 0 then Some (s, -1)
                  else case tmpfs_write (fd_tmpfs_idx f) (fd_offset f) buf count s of
                         None \<Rightarrow> None
                       | Some (s, result) \<Rightarrow>
                           if result > 0
                           then let f = (advance result f)\<lparr>fd_size := entry_size s (fd_tmpfs_idx f)\<rparr>
                                in Some (set_fd fd f s, result)
                           else Some (s, result))"

section \<open>Directories\<close>

partial_function (option) tar_count_from :: "bmem \<Rightarrow> u64 \<Rightarrow> int \<Rightarrow> int option" where
  "tar_count_from m archive count =
     Option.bind (tar_get_entry m archive count (replicate 100 0))
       (\<lambda>e. case e of None \<Rightarrow> Some count | Some _ \<Rightarrow> tar_count_from m archive (count + 1))"

definition tar_entry_count :: "bmem \<Rightarrow> u64 \<Rightarrow> int option" where
  "tar_entry_count m archive = tar_count_from m archive 0"

definition is_dir_name :: "u8 list \<Rightarrow> bool" where
  "is_dir_name nm \<longleftrightarrow> strlen nm > 0 \<and> c_at nm (strlen nm - 1) = 47"

text \<open>The first phase: the cursor, the descriptor's new position and the entry found.\<close>

partial_function (option) readdir_tar ::
    "bmem \<Rightarrow> u64 \<Rightarrow> int \<Rightarrow> u8 list \<Rightarrow> int \<Rightarrow> u64 \<Rightarrow> (int \<times> u64 \<times> (u8 list \<times> u64) option) option" where
  "readdir_tar m archive tar_count name_buf cursor offset =
     (if cursor < tar_count
      then Option.bind (tar_get_entry m archive cursor (replicate 100 0))
        (\<lambda>e. case e of
             None \<Rightarrow> Some (cursor, offset, None)
           | Some (entry_name, entry_sz) \<Rightarrow>
               if is_dir_name entry_name
               then readdir_tar m archive tar_count name_buf (cursor + 1) (of_int (cursor + 1))
               else Some (cursor + 1, of_int (cursor + 1), Some (copy_name 99 entry_name name_buf, entry_sz)))
      else Some (cursor, offset, None))"

text \<open>The second phase; the last argument is the position in the file table.\<close>

function readdir_tmpfs ::
    "'a tmpfs_state_scheme \<Rightarrow> u8 list \<Rightarrow> int \<Rightarrow> u64 \<Rightarrow> int \<Rightarrow> u64 \<times> (u8 list \<times> u64) option" where
  "readdir_tmpfs s name_buf cursor offset tmpfs_cursor =
     (if tmpfs_cursor < int TMPFS_MAX_FILES
      then case tmpfs_get_entry s tmpfs_cursor name_buf of
             Some e \<Rightarrow> (of_int (cursor + 1), Some e)
           | None \<Rightarrow> readdir_tmpfs s name_buf (cursor + 1) (of_int (cursor + 1)) (tmpfs_cursor + 1)
      else (offset, None))"
  by pat_completeness auto
termination by (relation "measure (\<lambda>(s, nb, c, p, t). nat (32 - t))") auto

declare readdir_tmpfs.simps [simp del]

definition vfs_readdir :: "int \<Rightarrow> u8 list option \<Rightarrow> bool \<Rightarrow> 'a vfs_state_scheme \<Rightarrow>
    ('a vfs_state_scheme \<times> (u8 list \<times> u64) option) option" where
  "vfs_readdir fd name_buf size_null s =
     (if bad_fd fd \<or> size_null then Some (s, None)
      else case name_buf of
             None \<Rightarrow> Some (s, None)
           | Some nb \<Rightarrow>
               (case fds s of
                  None \<Rightarrow> Some (s, None)
                | Some fs \<Rightarrow>
                    let f = fs ! nat fd
                    in if fd_type f \<noteq> VFS_TYPE_DIR then Some (s, None)
                       else Option.bind (tar_entry_count (mem s) (tar_archive s)) (\<lambda>tar_count.
                         Option.bind (readdir_tar (mem s) (tar_archive s) tar_count nb
                             (sint (ucast (fd_offset f) :: u32)) (fd_offset f)) (\<lambda>r.
                           case r of
                             (cursor, offset, Some e) \<Rightarrow> Some (set_fd fd (f\<lparr>fd_offset := offset\<rparr>) s, Some e)
                           | (cursor, offset, None) \<Rightarrow>
                               let (offset, e) = readdir_tmpfs s nb cursor offset (cursor - tar_count)
                               in Some (set_fd fd (f\<lparr>fd_offset := offset\<rparr>) s, e)))))"

section \<open>Creating and unlinking\<close>

definition vfs_create :: "u8 list option \<Rightarrow> 'a vfs_state_scheme \<Rightarrow> ('a vfs_state_scheme \<times> int) option" where
  "vfs_create filename s =
     (case filename of
        None \<Rightarrow> Some (s, -1)
      | Some nm \<Rightarrow> map_option (\<lambda>(s, idx). (s, if idx \<ge> 0 then 0 else -1)) (tmpfs_create (Some nm) s))"

definition vfs_unlink :: "u8 list option \<Rightarrow> 'a vfs_state_scheme \<Rightarrow> ('a vfs_state_scheme \<times> int) option" where
  "vfs_unlink filename s =
     (case filename of None \<Rightarrow> Some (s, -1) | Some nm \<Rightarrow> tmpfs_unlink (Some nm) s)"

section \<open>What the back ends leave alone\<close>

lemma vfs_more:
  assumes "tmpfs_state.more s' = tmpfs_state.more s"
  shows "vcache s' = vcache s" and "tar_archive s' = tar_archive s" and "fds s' = fds s"
  using assms by (cases s; cases s'; simp)+

lemma tmpfs_more: "heap_state.more s' = heap_state.more s \<Longrightarrow> tmpfs_state.more s' = tmpfs_state.more s"
  by (cases s; cases s') simp

lemma tfs_more_create: "tmpfs_create nm s = Some (s', r) \<Longrightarrow> tmpfs_state.more s' = tmpfs_state.more s"
  by (auto simp: tmpfs_create_def Let_def dest!: more_kmalloc tmpfs_more
      split: option.splits if_splits)

lemma tfs_more_unlink: "tmpfs_unlink nm s = Some (s', r) \<Longrightarrow> tmpfs_state.more s' = tmpfs_state.more s"
  by (auto simp: tmpfs_unlink_def Let_def dest!: more_kfree tmpfs_more split: option.splits if_splits)

lemma tfs_more_grow: "tmpfs_grow i e s = Some (s', r) \<Longrightarrow> tmpfs_state.more s' = tmpfs_state.more s"
  by (auto simp: tmpfs_grow_def Let_def dest!: more_krealloc tmpfs_more split: option.splits if_splits)

lemma more_write: "tmpfs_write i off buf n s = Some (s', r) \<Longrightarrow> tmpfs_state.more s' = tmpfs_state.more s"
  by (auto simp: tmpfs_write_def Let_def dest!: tfs_more_grow split: option.splits if_splits bool.splits)

section \<open>The descriptor table\<close>

text \<open>
  An open file descriptor is either over tmpfs, writable, or over the archive, read-only; its position
  is bounded. The cached size of a tmpfs descriptor is only a snapshot: another descriptor may have
  changed the file since.
\<close>

definition fd_ok :: "vfs_fd \<Rightarrow> bool" where
  "fd_ok f \<longleftrightarrow> length (fd_name f) = 100 \<and>
     (fd_type f = VFS_TYPE_FILE \<longrightarrow>
        (if fd_writable f
         then 0 \<le> fd_tmpfs_idx f \<and> fd_tmpfs_idx f < int TMPFS_MAX_FILES \<and>
              fd_size f \<le> TMPFS_MAX_SIZE \<and> fd_offset f \<le> TMPFS_MAX_SIZE
         else fd_tmpfs_idx f = -1 \<and> fd_offset f \<le> fd_size f))"

definition fds_ok :: "'a vfs_state_scheme \<Rightarrow> bool" where
  "fds_ok s \<longleftrightarrow> (\<forall>fs. fds s = Some fs \<longrightarrow> length fs = VFS_MAX_FDS \<and> (\<forall>f \<in> set fs. fd_ok f))"

definition vfs_inv :: "'a vfs_state_scheme \<Rightarrow> u64 set \<Rightarrow> bool" where
  "vfs_inv s R \<longleftrightarrow> tmpfs_inv s R \<and> fds_ok s"

lemma fds_okD: "fds_ok s \<Longrightarrow> fds s = Some fs \<Longrightarrow> \<not> bad_fd fd \<Longrightarrow>
    length fs = VFS_MAX_FDS \<and> nat fd < length fs \<and> fd_ok (fs ! nat fd)"
  by (auto simp: fds_ok_def bad_fd_def nat_less_iff)

lemma fds_ok_same: "fds s' = fds s \<Longrightarrow> fds_ok s' = fds_ok s"
  by (simp add: fds_ok_def)

lemma heap_sound_vfs [simp]:
  fixes s :: "'a vfs_state_scheme"
  shows "heap_sound (s\<lparr>fds := x\<rparr>) R = heap_sound s R" "heap_sound (s\<lparr>vcache := c\<rparr>) R = heap_sound s R"
  using vm_ok_cong [of "s\<lparr>fds := x\<rparr>" s] vm_ok_cong [of "s\<lparr>vcache := c\<rparr>" s]
  by (simp_all add: heap_sound_def heap_ok_def heap_apart_def)

lemma tmpfs_inv_vfs [simp]:
  fixes s :: "'a vfs_state_scheme"
  shows "tmpfs_inv (s\<lparr>fds := x\<rparr>) R = tmpfs_inv s R" "tmpfs_inv (s\<lparr>vcache := c\<rparr>) R = tmpfs_inv s R"
  by (simp_all add: tmpfs_inv_def file_ok_def)

lemma tmpfs_view_vfs [simp]:
  fixes s :: "'a vfs_state_scheme"
  shows "tmpfs_view (s\<lparr>fds := x\<rparr>) = tmpfs_view s" "tmpfs_view (s\<lparr>vcache := c\<rparr>) = tmpfs_view s"
  by (simp_all add: tmpfs_view_def view_file_def file_bytes_def kheap.contents_def fun_eq_iff)

lemma set_fd_simps [simp]:
  "mem (set_fd fd f s) = mem s" "tmp_files (set_fd fd f s) = tmp_files s"
  "tmpfs_inv (set_fd fd f s) R = tmpfs_inv s R" "vcache (set_fd fd f s) = vcache s"
  "tar_archive (set_fd fd f s) = tar_archive s" "tmpfs_view (set_fd fd f s) = tmpfs_view s"
  "fds (set_fd fd f s) = map_option (\<lambda>fs. fs[nat fd := f]) (fds s)"
  by (simp_all add: set_fd_def)

lemma set_fd_ok: "fds_ok s \<Longrightarrow> fd_ok f \<Longrightarrow> fds_ok (set_fd fd f s)"
  by (auto simp: fds_ok_def dest!: set_update_subset_insert [THEN subsetD])

lemma claim_fd_cases:
  "claim_fd f s = (s, -1) \<or>
   (\<exists>fs i. fds s = Some fs \<and> i < length fs \<and> fd_type (fs ! i) = VFS_TYPE_NONE \<and>
      (\<forall>j < i. fd_type (fs ! j) \<noteq> VFS_TYPE_NONE) \<and>
      claim_fd f s = (set_fd (int i) (f (fs ! i)) s, int i))"
  by (auto simp: claim_fd_def set_fd_def find_idx_Some_iff split: option.splits)

lemma claim_fd_inv:
  assumes "vfs_inv s R" and "\<And>x. fd_ok x \<Longrightarrow> fd_ok (f x)"
  shows "vfs_inv (fst (claim_fd f s)) R"
proof -
  consider "claim_fd f s = (s, -1)"
    | fs i where "fds s = Some fs" "i < length fs" "claim_fd f s = (set_fd (int i) (f (fs ! i)) s, int i)"
    using claim_fd_cases [of f s] by blast
  then show ?thesis
  proof cases
    case (2 fs i)
    then have "fd_ok (fs ! i)" using assms(1) by (auto simp: vfs_inv_def fds_ok_def)
    then show ?thesis using 2(3) assms by (simp add: vfs_inv_def set_fd_ok)
  qed (use assms in simp)
qed

text \<open>The size of a file as \<^verbatim>\<open>tmpfs_get_entry\<close> reports it.\<close>

lemma entry_size_view:
  assumes "tmpfs_inv s R" and "i < TMPFS_MAX_FILES"
  shows "unat (entry_size s (int i)) = (case tmpfs_view s ! i of None \<Rightarrow> 0 | Some (_, bs) \<Rightarrow> length bs)"
    and "entry_size s (int i) \<le> TMPFS_MAX_SIZE"
proof -
  note d = tmpfs_invD [OF assms(1)]
  show "unat (entry_size s (int i)) = (case tmpfs_view s ! i of None \<Rightarrow> 0 | Some (_, bs) \<Rightarrow> length bs)"
    using assms(2) d(2) by (simp add: entry_size_def tmpfs_get_entry_def view_file_def file_bytes_def Let_def)
  show "entry_size s (int i) \<le> TMPFS_MAX_SIZE"
    using assms(2) d(3) [OF assms(2)]
    by (auto simp: entry_size_def tmpfs_get_entry_def Let_def file_ok_def intro: order.trans)
qed

section \<open>Every operation keeps the descriptors sound\<close>

lemma fd_ok_opened:
  "fd_ok x \<Longrightarrow> fd_ok (dir_fd x)"
  "fd_ok x \<Longrightarrow> 0 \<le> tidx \<Longrightarrow> tidx < int TMPFS_MAX_FILES \<Longrightarrow> sz \<le> TMPFS_MAX_SIZE \<Longrightarrow> fd_ok (tmpfs_fd nm tidx sz x)"
  "fd_ok x \<Longrightarrow> fd_ok (tar_fd nm data sz x)"
  by (simp_all add: fd_ok_def dir_fd_def tmpfs_fd_def tar_fd_def)

lemma tmpfs_open_range:
  assumes "tmpfs_inv s R" and "tmpfs_open s (Some nm) \<ge> 0"
  shows "tmpfs_open s (Some nm) < int TMPFS_MAX_FILES"
  using assms tmpfs_invD(2) [OF assms(1)] slot_ofD(1) [of s "cstr nm"]
  by (auto simp: tmpfs_open_spec split: option.splits)

lemma create_range:
  assumes inv: "tmpfs_inv s R" and c: "tmpfs_create (Some nm) s = Some (s', r)"
  shows "tmpfs_inv s' R" and "r < int TMPFS_MAX_FILES"
proof -
  have h: "tmpfs_inv s' R \<and>
    (case slot_of (tmpfs_view s) (cstr nm) of
       Some i \<Rightarrow> r = int i \<and> tmpfs_view s' = tmpfs_view s
     | None \<Rightarrow> r = -1 \<and> tmpfs_view s' = tmpfs_view s \<or>
         (\<exists>i. free_slot (tmpfs_view s) = Some i \<and> r = int i \<and>
            tmpfs_view s' = (tmpfs_view s)[i := Some (take 99 (cstr nm), [])]))"
    using tmpfs_create_spec [OF inv, of nm] c by auto
  then show "tmpfs_inv s' R" by blast
  show "r < int TMPFS_MAX_FILES"
  proof (cases "slot_of (tmpfs_view s) (cstr nm)")
    case (Some i)
    then show ?thesis using h slot_ofD(1) [OF Some] tmpfs_invD(2) [OF inv] by simp
  next
    case None
    then show ?thesis using h tmpfs_invD(2) [OF inv]
      by (auto simp: free_slot_def dest: find_idx_SomeD(1))
  qed
qed

lemma inv_more: "tmpfs_state.more s' = tmpfs_state.more s \<Longrightarrow> tmpfs_inv s' R \<Longrightarrow> vfs_inv s R \<Longrightarrow> vfs_inv s' R"
  using fds_ok_same [OF vfs_more(3)] by (auto simp: vfs_inv_def)

lemma vfs_open_inv:
  assumes inv: "vfs_inv s R" and r: "vfs_open nm flags s = Some (s', fd)"
  shows "vfs_inv s' R"
proof -
  have ti: "tmpfs_inv s R" using inv by (simp add: vfs_inv_def)
  have claim: "vfs_inv s' R" if "claim_fd f t = (s', fd)" "vfs_inv t R" "\<And>x. fd_ok x \<Longrightarrow> fd_ok (f x)" for f t
    using claim_fd_inv [of t R f] that by simp
  show ?thesis
  proof (cases nm)
    case None
    then show ?thesis using r inv by (simp add: vfs_open_def)
  next
    case (Some n)
    let ?ti = "tmpfs_open s (Some n)"
    consider "fds s = None \<or> s' = s" | "claim_fd dir_fd s = (s', fd)"
      | "?ti \<ge> 0" "claim_fd (tmpfs_fd n ?ti (entry_size s ?ti)) s = (s', fd)"
      | data sz where "claim_fd (tar_fd n data sz) s = (s', fd)"
      | t k where "tmpfs_create (Some n) s = Some (t, k)" "k < 0 \<and> s' = t \<or> 0 \<le> k \<and> claim_fd (tmpfs_fd n k 0) t = (s', fd)"
      using r Some by (auto simp: vfs_open_def Let_def not_less split: if_splits option.splits)
    then show ?thesis
    proof cases
      case 1
      then show ?thesis using r inv Some by (auto simp: vfs_open_def)
    next
      case 2
      then show ?thesis using claim inv fd_ok_opened(1) by blast
    next
      case 3
      have "?ti < int TMPFS_MAX_FILES" using tmpfs_open_range [OF ti 3(1)] .
      moreover from this have "entry_size s ?ti \<le> TMPFS_MAX_SIZE"
        using entry_size_view(2) [OF ti, of "nat ?ti"] 3(1) by simp
      ultimately show ?thesis using claim [OF 3(2) inv] fd_ok_opened(2) 3(1) by blast
    next
      case (4 data sz)
      then show ?thesis using claim inv fd_ok_opened(3) by blast
    next
      case (5 t k)
      note c = create_range [OF ti 5(1)]
      have t: "vfs_inv t R" using inv_more [OF tfs_more_create [OF 5(1)] c(1) inv] .
      show ?thesis using 5(2) t claim [OF _ t] fd_ok_opened(2) [OF _ _ c(2)] by fastforce
    qed
  qed
qed

lemma sint_le_uint: "sint (w :: u32) \<le> uint w"
proof -
  have "take_bit 32 (uint w) = uint w"
    using unsigned_less [of w, where 'a = int] by (intro take_bit_int_eq_self) simp_all
  then show ?thesis by (simp add: sint_uint signed_take_bit_eq_take_bit_minus)
qed

lemma transfer_result_pos:
  assumes "transfer_result (Some bs) > 0"
  shows "transfer_result (Some bs) \<le> int (length bs)"
proof -
  let ?w = "of_nat (length bs) :: u32"
  have "sint ?w \<le> uint ?w" by (rule sint_le_uint)
  also have "uint ?w \<le> int (length bs)" by (simp add: uint_nat unat_of_nat)
  finally show ?thesis by (simp add: transfer_result_def)
qed

lemma transfer_result_small: "length bs < 2 ^ 31 \<Longrightarrow> transfer_result (Some bs) = int (length bs)"
proof -
  assume l: "length bs < 2 ^ 31"
  then have u: "uint (of_nat (length bs) :: u32) = int (length bs)" by (simp add: uint_nat unat_of_nat)
  have "\<not> bit (int (length bs)) 31"
    using l by (simp add: bit_iff_odd)
  then show ?thesis using l
    by (simp add: transfer_result_def sint_uint u signed_take_bit_eq_take_bit_minus take_bit_eq_mod)
qed

text \<open>Advancing by what was delivered stays within what was there.\<close>

lemma advance_le:
  assumes "unat (fd_offset f) + length bs \<le> b" and "b < 2 ^ 64"
  shows "unat (fd_offset (advance (transfer_result (Some bs)) f)) \<le> b"
proof (cases "transfer_result (Some bs) > 0")
  case True
  then obtain n where n: "transfer_result (Some bs) = int n" "n \<le> length bs"
    using transfer_result_pos [OF True] by (metis le_nat_iff nat_int of_nat_le_iff order.strict_implies_order zero_le_imp_eq_int)
  have "unat (fd_offset f + of_nat n) = unat (fd_offset f) + n"
    using n(2) assms by (intro unat_add_small) simp
  then show ?thesis using True n assms by (simp add: advance_def)
next
  case False
  then show ?thesis using assms by (simp add: advance_def)
qed

lemma advance_simps [simp]:
  "fd_name (advance r f) = fd_name f" "fd_type (advance r f) = fd_type f" "fd_size (advance r f) = fd_size f"
  "fd_writable (advance r f) = fd_writable f" "fd_tmpfs_idx (advance r f) = fd_tmpfs_idx f"
  "fd_data (advance r f) = fd_data f" "transfer_result None = -1" "advance (-1) f = f"
  by (simp_all add: advance_def transfer_result_def)

lemma tmpfs_read_bound:
  assumes inv: "tmpfs_inv s R" and r: "tmpfs_read s idx off False count = Some bs"
  shows "unat off + length bs \<le> max (unat off) 65536"
proof -
  note d = tmpfs_invD [OF inv]
  have ix: "0 \<le> idx" "nat idx < TMPFS_MAX_FILES" and used: "in_use (tmp_files s ! nat idx)"
    using r by (auto simp: tmpfs_read_def Let_def nat_less_iff split: if_splits)
  obtain nm old where v: "tmpfs_view s ! nat idx = Some (nm, old)"
    using used ix(2) d(2) by (simp add: view_file_def)
  have "length old \<le> 65536"
    using entry_size_view [OF inv ix(2)] v by (simp add: word_le_nat_alt)
  moreover have "bs = take (unat count) (drop (unat off) old)"
    using tmpfs_read_spec [OF inv ix(2) v, of off count] r ix(1) by simp
  ultimately show ?thesis by auto
qed

lemma vfs_read_inv:
  assumes inv: "vfs_inv s R" and r: "vfs_read fd buf_null count s = Some (s', bs)"
  shows "vfs_inv s' R"
proof (cases "s' = s")
  case False
  have ti: "tmpfs_inv s R" and fo: "fds_ok s" using inv by (simp_all add: vfs_inv_def)
  obtain fs where fs: "fds s = Some fs" "\<not> bad_fd fd" "\<not> buf_null"
    using r False by (auto simp: vfs_read_def split: if_splits option.splits)
  let ?f = "fs ! nat fd"
  have f: "fd_ok ?f" using fds_okD [OF fo fs(1,2)] by blast
  have t: "fd_type ?f = VFS_TYPE_FILE" and lt: "fd_offset ?f < fd_size ?f"
    using r False fs by (auto simp: vfs_read_def Let_def split: if_splits)
  have nle: "(fd_size ?f \<le> fd_offset ?f) = False" using lt by simp
  have set': "vfs_inv (set_fd fd g s) R" if "fd_ok g" for g
    using inv set_fd_ok [OF fo that] by (simp add: vfs_inv_def)
  show ?thesis
  proof (cases "fd_tmpfs_idx ?f \<ge> 0")
    case True
    then have w: "fd_writable ?f" using f t by (auto simp: fd_ok_def split: if_splits)
    have s': "s' = set_fd fd (advance (transfer_result bs) ?f) s"
      and b: "bs = tmpfs_read s (fd_tmpfs_idx ?f) (fd_offset ?f) False count"
      using r fs t True by (auto simp: vfs_read_def Let_def nle)
    have "fd_ok (advance (transfer_result bs) ?f)"
    proof (cases bs)
      case None
      then show ?thesis using f by simp
    next
      case (Some xs)
      have "unat (fd_offset ?f) \<le> 65536" using f t w by (simp add: fd_ok_def word_le_nat_alt)
      then have "unat (fd_offset ?f) + length xs \<le> 65536"
        using tmpfs_read_bound [OF ti, of _ _ count xs] b Some by (metis max.absorb2)
      from advance_le [OF this] show ?thesis using f t w Some by (simp add: fd_ok_def word_le_nat_alt)
    qed
    then show ?thesis using set' s' by simp
  next
    case False
    then have w: "\<not> fd_writable ?f" using f t by (auto simp: fd_ok_def split: if_splits)
    obtain c where c: "cache_read (mem s) (Some (fd_name ?f)) (fd_data ?f) (fd_size ?f) (fd_offset ?f) False count
        (vcache s) = Some (c, bs)" and s': "s' = set_fd fd (advance (transfer_result bs) ?f) (s\<lparr>vcache := c\<rparr>)"
      using r fs t False by (auto simp: vfs_read_def Let_def nle split: option.splits)
    have "fd_ok (advance (transfer_result bs) ?f)"
    proof (cases bs)
      case None
      then show ?thesis using f by simp
    next
      case (Some xs)
      have "unat (fd_offset ?f) + length xs \<le> unat (fd_size ?f)"
        using cache_read_length [OF c [unfolded Some] lt] lt by (simp add: word_less_nat_alt)
      from advance_le [OF this unat64_less] show ?thesis using f t w Some by (simp add: fd_ok_def word_le_nat_alt)
    qed
    moreover have "vfs_inv (s\<lparr>vcache := c\<rparr>) R" using inv fds_ok_same [of "s\<lparr>vcache := c\<rparr>" s] by (simp add: vfs_inv_def)
    ultimately show ?thesis using s' by (simp add: vfs_inv_def set_fd_ok)
  qed
qed (use inv in simp)

lemma sint_nonneg:
  fixes w :: u64
  assumes "0 \<le> sint w"
  shows "sint w = uint w"
proof -
  have b: "uint w < 2 ^ 64" using unsigned_less [of w, where 'a = int] by simp
  have t: "take_bit 64 (uint w) = uint w" using b by (intro take_bit_int_eq_self) simp_all
  have "sint w = uint w - 2 ^ 64 * of_bool (bit (uint w) 63)"
    by (simp add: sint_uint signed_take_bit_eq_take_bit_minus t)
  then show ?thesis using assms b by (cases "bit (uint w) 63") simp_all
qed

lemma sint_le_le:
  fixes a b :: u64
  assumes "0 \<le> sint a" and "sint a \<le> sint b"
  shows "a \<le> b"
  using assms sint_nonneg [of a] sint_nonneg [of b] by (simp add: word_le_def)

lemma seek_pos_le: "seek_pos off wh f \<le> fd_size f"
proof -
  define p where "p = (if wh = 0 then off else if wh = 1 then fd_offset f + off else fd_size f + off)"
  define q where "q = (if sint p < 0 then 0 else p)"
  have "0 \<le> sint q" by (simp add: q_def not_less)
  then have "(if sint q > sint (fd_size f) then fd_size f else q) \<le> fd_size f"
    using sint_le_le [of q "fd_size f"] by (simp add: not_less)
  then show ?thesis by (simp only: seek_pos_def Let_def p_def q_def)
qed

lemma write_bound:
  assumes inv: "tmpfs_inv s R" and w: "tmpfs_write idx off (Some src) (of_nat (length src)) s = Some (s', r)"
    and off: "off \<le> TMPFS_MAX_SIZE" and len: "length src < 2 ^ 63"
  shows "tmpfs_inv s' R" and "r \<le> int (length src)" and "r > 0 \<Longrightarrow> unat off + nat r \<le> 65536"
proof -
  note d = tmpfs_invD [OF inv]
  have o': "unat off \<le> 65536" using off by (simp add: word_le_nat_alt)
  have n: "unat (of_nat (length src) :: u64) = length src" using len by (simp add: unat_of_nat)
  have "tmpfs_inv s' R \<and> (s' = s \<and> r = -1 \<or> r = -1 \<or> r = int (fitting (unat off) (length src)))"
  proof (cases "0 \<le> idx \<and> nat idx < TMPFS_MAX_FILES \<and> in_use (tmp_files s ! nat idx)")
    case False
    then have "s' = s \<and> r = -1" using w by (auto simp: tmpfs_write_def Let_def nat_less_iff split: if_splits)
    then show ?thesis using inv by simp
  next
    case True
    then obtain nm old where v: "tmpfs_view s ! nat idx = Some (nm, old)" using d(2) by (simp add: view_file_def)
    have "unat off + unat (of_nat (length src) :: u64) < 2 ^ 64" using o' len n by simp
    from tmpfs_write_spec [OF inv _ v _ this, of src] True n w show ?thesis by (auto split: if_splits)
  qed
  then show "tmpfs_inv s' R" "r \<le> int (length src)" "r > 0 \<Longrightarrow> unat off + nat r \<le> 65536"
    using o' by (auto simp: fitting_def)
qed

lemma vfs_write_inv:
  assumes inv: "vfs_inv s R" and len: "length src < 2 ^ 63"
    and r: "vfs_write fd (Some src) (of_nat (length src)) s = Some (s', res)"
  shows "vfs_inv s' R"
proof (cases "s' = s")
  case False
  have ti: "tmpfs_inv s R" and fo: "fds_ok s" using inv by (simp_all add: vfs_inv_def)
  obtain fs where fs: "fds s = Some fs" "\<not> bad_fd fd"
    using r False by (auto simp: vfs_write_def split: if_splits option.splits)
  let ?f = "fs ! nat fd"
  have f: "fd_ok ?f" using fds_okD [OF fo fs] by blast
  have t: "fd_type ?f = VFS_TYPE_FILE" "fd_writable ?f" "\<not> fd_tmpfs_idx ?f < 0"
    using r False fs by (auto simp: vfs_write_def Let_def split: if_splits)
  have off: "fd_offset ?f \<le> TMPFS_MAX_SIZE" and ix: "fd_tmpfs_idx ?f < int TMPFS_MAX_FILES"
    using f t by (auto simp: fd_ok_def)
  obtain s1 where w: "tmpfs_write (fd_tmpfs_idx ?f) (fd_offset ?f) (Some src) (of_nat (length src)) s = Some (s1, res)"
    and s': "s' = (if res > 0 then set_fd fd ((advance res ?f)\<lparr>fd_size := entry_size s1 (fd_tmpfs_idx ?f)\<rparr>) s1 else s1)"
    using r fs t by (auto simp: vfs_write_def Let_def split: option.splits if_splits)
  note wb = write_bound [OF ti w off len]
  have s1: "vfs_inv s1 R" by (rule inv_more [OF more_write [OF w] wb(1) inv])
  show ?thesis
  proof (cases "res > 0")
    case True
    have "unat (fd_offset ?f + of_nat (nat res)) = unat (fd_offset ?f) + nat res"
      using wb(3) [OF True] by (intro unat_add_small) simp
    then have "fd_offset ?f + of_int res \<le> TMPFS_MAX_SIZE"
      using wb(3) [OF True] True by (simp add: word_le_nat_alt)
    moreover have "entry_size s1 (fd_tmpfs_idx ?f) \<le> TMPFS_MAX_SIZE"
      using entry_size_view(2) [OF wb(1), of "nat (fd_tmpfs_idx ?f)"] t(3) ix by simp
    ultimately have "fd_ok ((advance res ?f)\<lparr>fd_size := entry_size s1 (fd_tmpfs_idx ?f)\<rparr>)"
      using f t True by (simp add: fd_ok_def advance_def)
    then show ?thesis using s1 s' True by (simp add: vfs_inv_def set_fd_ok)
  qed (use s1 s' in simp)
qed (use inv in simp)

lemma vfs_seek_inv:
  assumes inv: "vfs_inv s R"
  shows "vfs_inv (fst (vfs_seek fd off wh s)) R"
proof (cases "fst (vfs_seek fd off wh s) = s")
  case False
  have fo: "fds_ok s" using inv by (simp add: vfs_inv_def)
  obtain fs where fs: "fds s = Some fs" "\<not> bad_fd fd"
    using False by (auto simp: vfs_seek_def split: if_splits option.splits)
  let ?f = "fs ! nat fd"
  have f: "fd_ok ?f" using fds_okD [OF fo fs] by blast
  define z where "z = seek_pos off wh ?f"
  have s': "fst (vfs_seek fd off wh s) = set_fd fd (?f\<lparr>fd_offset := z\<rparr>) s" and t: "fd_type ?f = VFS_TYPE_FILE"
    using False fs by (auto simp: vfs_seek_def Let_def z_def split: if_splits)
  have "z \<le> fd_size ?f" unfolding z_def by (rule seek_pos_le)
  then have "fd_ok (?f\<lparr>fd_offset := z\<rparr>)" using f t by (auto simp: fd_ok_def intro: order.trans)
  then show ?thesis using inv by (simp add: s' vfs_inv_def set_fd_ok)
qed (use inv in simp)

lemma vfs_close_inv:
  assumes inv: "vfs_inv s R"
  shows "vfs_inv (fst (vfs_close fd s)) R"
proof (cases "fst (vfs_close fd s) = s")
  case False
  have fo: "fds_ok s" using inv by (simp add: vfs_inv_def)
  obtain fs where fs: "fds s = Some fs" "\<not> bad_fd fd"
    using False by (auto simp: vfs_close_def split: if_splits option.splits)
  let ?f = "fs ! nat fd"
  have "fd_ok ?f" using fds_okD [OF fo fs] by blast
  then have "fd_ok (?f\<lparr>fd_type := VFS_TYPE_NONE, fd_writable := False, fd_tmpfs_idx := -1\<rparr>)"
    by (simp add: fd_ok_def)
  moreover have "fd_type ?f \<noteq> VFS_TYPE_NONE"
  proof
    assume "fd_type ?f = VFS_TYPE_NONE"
    then have "fst (vfs_close fd s) = s" using fs by (simp add: vfs_close_def)
    then show False using False by simp
  qed
  then have "fst (vfs_close fd s) =
      set_fd fd (?f\<lparr>fd_type := VFS_TYPE_NONE, fd_writable := False, fd_tmpfs_idx := -1\<rparr>) s"
    using fs by (simp add: vfs_close_def set_fd_def)
  ultimately show ?thesis using inv by (simp add: vfs_inv_def set_fd_ok)
qed (use inv in simp)

lemma vfs_readdir_inv:
  assumes inv: "vfs_inv s R" and r: "vfs_readdir fd nb size_null s = Some (s', e)"
  shows "vfs_inv s' R"
proof (cases "s' = s")
  case False
  have fo: "fds_ok s" using inv by (simp add: vfs_inv_def)
  obtain fs where fs: "fds s = Some fs" "\<not> bad_fd fd"
    using r False by (auto simp: vfs_readdir_def split: if_splits option.splits)
  let ?f = "fs ! nat fd"
  have f: "fd_ok ?f" using fds_okD [OF fo fs] by blast
  obtain pos where "s' = set_fd fd (?f\<lparr>fd_offset := pos\<rparr>) s" and t: "fd_type ?f = VFS_TYPE_DIR"
    using r False fs
    by (auto simp: vfs_readdir_def Let_def bind_eq_Some_conv split: if_splits option.splits prod.splits)
  moreover have "fd_ok (?f\<lparr>fd_offset := pos\<rparr>)" using f t by (simp add: fd_ok_def)
  ultimately show ?thesis using inv by (simp add: vfs_inv_def set_fd_ok)
qed (use inv in simp)

lemma vfs_create_inv:
  assumes inv: "vfs_inv s R" and r: "vfs_create nm s = Some (s', res)"
  shows "vfs_inv s' R"
proof (cases nm)
  case (Some n)
  then obtain k where c: "tmpfs_create (Some n) s = Some (s', k)" using r by (auto simp: vfs_create_def)
  have "tmpfs_inv s R" using inv by (simp add: vfs_inv_def)
  then show ?thesis by (rule inv_more [OF tfs_more_create [OF c] create_range(1) [OF _ c] inv])
qed (use inv r in \<open>simp add: vfs_create_def\<close>)

lemma vfs_unlink_inv:
  assumes inv: "vfs_inv s R" and r: "vfs_unlink nm s = Some (s', res)"
  shows "vfs_inv s' R"
proof (cases nm)
  case (Some n)
  then have u: "tmpfs_unlink (Some n) s = Some (s', res)" using r by (simp add: vfs_unlink_def)
  have "tmpfs_inv s R" using inv by (simp add: vfs_inv_def)
  from tmpfs_unlink_spec [OF this, of n] u have "tmpfs_inv s' R" by auto
  then show ?thesis using inv_more [OF tfs_more_unlink [OF u] _ inv] by blast
qed (use inv r in \<open>simp add: vfs_unlink_def\<close>)

end
