(* ===== verification/TaskState.thy ===== *)
theory TaskState
  imports Vfs
begin

text \<open>
  The process state of the kernel: \<^verbatim>\<open>struct task\<close> and its parts (\<^verbatim>\<open>kernel/task.h\<close>, \<^verbatim>\<open>cpu/isr.h\<close>,
  \<^verbatim>\<open>mm/user_memory.h\<close>, \<^verbatim>\<open>mm/shm.h\<close>), the per-CPU data (\<^verbatim>\<open>cpu/percpu.h\<close>) and the globals of
  \<^verbatim>\<open>kernel/task.c\<close>, on top of the heap and the page tables.

  A \<^verbatim>\<open>struct task*\<close> is its address, 0 for NULL, and \<open>tasks\<close> is the store of these objects. The list
  linked through \<^verbatim>\<open>next\<close> from \<^verbatim>\<open>task_list_head\<close> to \<^verbatim>\<open>task_list_tail\<close> is the list of addresses
  \<open>task_list\<close>. The FPU of a CPU is the 512 bytes FXSAVE would store now. The arrays \<^verbatim>\<open>user_pages\<close> and
  \<^verbatim>\<open>user_vaddrs\<close> are lists whose common length is \<^verbatim>\<open>user_page_count\<close>; \<open>page_array\<close> is the heap block
  that holds them, 0 while they are the inline arrays. An operation that takes \<^verbatim>\<open>PREEMPT_GUARD\<close> is one
  atomic step; \<open>c\<close> is the index of the CPU it runs on.
\<close>

datatype task_run_state = TASK_RUNNING | TASK_READY | TASK_SLEEPING | TASK_WAITING | TASK_DEAD

record registers =
  r15 :: u64  r14 :: u64  r13 :: u64  r12 :: u64  r11 :: u64  r10 :: u64  r9 :: u64  r8 :: u64
  rdi :: u64  rsi :: u64  rbp :: u64  rbx :: u64  rdx :: u64  rcx :: u64  rax :: u64
  vector :: u64
  err_code :: u64
  rip :: u64  cs :: u64  rflags :: u64  rsp :: u64  ss :: u64

record user_allocation =
  a_base :: u64
  a_size :: u64
  a_pages :: u32

record shm_attach_record =
  at_shmid :: int
  at_vaddr :: u64
  at_page_count :: u32

record task =
  pid :: u32
  cpu_id :: u32
  ready_since :: u64
  tgid :: u32
  tstate :: task_run_state
  regs :: registers
  fpu :: "u8 list"
  stack_base :: u64
  sleep_until :: u64
  wait_target_pid :: u32
  t_pml4 :: u64
  kernel_stack :: u64
  kernel_stack_phys :: u64
  kernel_stack_pages :: u32
  entry_point :: u64
  allocations :: "(u64 \<times> user_allocation) list"
  is_thread :: bool
  thread_count :: u32
  priority :: int
  base_priority :: int
  nice :: int
  quantum :: u8
  quantum_max :: u8
  cpu_ticks :: u32
  sleep_count :: u32
  user_pages :: "u64 list"
  user_vaddrs :: "u64 list"
  page_array :: u64
  user_page_capacity :: u32
  task_fds :: "vfs_fd list"
  shm_attached :: "shm_attach_record list"
  t_uid :: u32
  t_gid :: u32

record percpu_data =
  pc_cpu_id :: u32
  lapic_id :: u32
  kernel_stack_top :: u64
  tss_rsp0 :: u64
  current :: u64
  retiring :: u64
  idle_task :: u64
  scheduler_online :: bool
  switches :: u64
  live_fpu :: "u8 list"

record task_resource_stats =
  kernel_stack_pages_used :: u64
  stack_alloc_failures :: u64
  tasks_reaped :: u64

record sched_state = heap_state +
  tasks :: "u64 \<Rightarrow> task"
  task_list :: "u64 list"
  next_pid :: u32
  placement_cursor :: u32
  reaper_task :: u64
  resource_stats :: task_resource_stats
  cpus :: "percpu_data list"
  cpu_count :: u32
  bsp_rsp0 :: u64

abbreviation MAX_CPUS :: nat where "MAX_CPUS \<equiv> 16"
abbreviation KERNEL_STACK_PAGES :: u32 where "KERNEL_STACK_PAGES \<equiv> 4"
abbreviation PRIO_IDLE :: int where "PRIO_IDLE \<equiv> 0"
abbreviation PRIO_NORMAL :: int where "PRIO_NORMAL \<equiv> 2"
abbreviation PRIO_HIGH :: int where "PRIO_HIGH \<equiv> 3"
abbreviation STARVATION_BOOST_INTERVAL :: u64 where "STARVATION_BOOST_INTERVAL \<equiv> 500"
abbreviation SHM_MAX_ATTACH :: nat where "SHM_MAX_ATTACH \<equiv> 16"

section \<open>Access\<close>

definition upd_task :: "u64 \<Rightarrow> (task \<Rightarrow> task) \<Rightarrow> 'a sched_state_scheme \<Rightarrow> 'a sched_state_scheme" where
  "upd_task a f s = s\<lparr>tasks := (tasks s)(a := f (tasks s a))\<rparr>"

definition cpu_slot :: "u32 \<Rightarrow> nat" where
  "cpu_slot i = (if unat i \<ge> MAX_CPUS then 0 else unat i)"

definition percpu_get :: "u32 \<Rightarrow> 'a sched_state_scheme \<Rightarrow> percpu_data" where
  "percpu_get i s = cpus s ! cpu_slot i"

definition upd_cpu :: "u32 \<Rightarrow> (percpu_data \<Rightarrow> percpu_data) \<Rightarrow> 'a sched_state_scheme \<Rightarrow> 'a sched_state_scheme" where
  "upd_cpu i f s = s\<lparr>cpus := (cpus s)[cpu_slot i := f (cpus s ! cpu_slot i)]\<rparr>"

definition current_task :: "u32 \<Rightarrow> 'a sched_state_scheme \<Rightarrow> u64" where
  "current_task c s = current (percpu_get c s)"

definition percpu_set_kernel_stack :: "u32 \<Rightarrow> u64 \<Rightarrow> 'a sched_state_scheme \<Rightarrow> 'a sched_state_scheme" where
  "percpu_set_kernel_stack i stack_top s =
     (if unat i \<ge> MAX_CPUS then s
      else let s = upd_cpu i (\<lambda>p. p\<lparr>tss_rsp0 := stack_top, kernel_stack_top := stack_top\<rparr>) s
           in if i = 0 then s\<lparr>bsp_rsp0 := stack_top\<rparr> else s)"

text \<open>The scan for a process id, in list order.\<close>

definition task_find_by_pid :: "u32 \<Rightarrow> 'a sched_state_scheme \<Rightarrow> u64" where
  "task_find_by_pid p s =
     (case find_idx (\<lambda>a. pid (tasks s a) = p) (task_list s) of None \<Rightarrow> 0 | Some i \<Rightarrow> task_list s ! i)"

definition task_memory_owner :: "u64 \<Rightarrow> 'a sched_state_scheme \<Rightarrow> u64" where
  "task_memory_owner t s =
     (if t = 0 \<or> \<not> is_thread (tasks s t) then t
      else let leader = task_find_by_pid (tgid (tasks s t)) s
           in if leader \<noteq> 0 \<and> t_pml4 (tasks s leader) = t_pml4 (tasks s t) then leader else 0)"

end
