(* ===== verification/UserMemory.thy ===== *)
theory UserMemory
  imports TaskState "HOL-Library.Monad_Syntax"
begin

text \<open>
  The private memory of a process, \<^verbatim>\<open>mm/user_memory.c\<close>: the list of frames a task owns with the pages
  they back, and the allocations its program made. An operation that calls the kernel heap has no
  result where the heap has none.
\<close>

abbreviation USER_INLINE_PAGES :: u32 where "USER_INLINE_PAGES \<equiv> 32"
abbreviation USER_MAX_PAGES :: u32 where "USER_MAX_PAGES \<equiv> 65536"
abbreviation USER_HEAP_BASE :: u64 where "USER_HEAP_BASE \<equiv> 0x60000000"
abbreviation USER_HEAP_END :: u64 where "USER_HEAP_END \<equiv> 0x68000000"
abbreviation VMM_FLAGS_USER_DATA :: u64 where "VMM_FLAGS_USER_DATA \<equiv> 0x8000000000000007"
abbreviation PAGE_BYTES :: u64 where "PAGE_BYTES \<equiv> 4096"

section \<open>The array of pages\<close>

definition user_page_count :: "task \<Rightarrow> u32" where
  "user_page_count t = of_nat (length (user_pages t))"

text \<open>Back to the inline arrays; the code does this for a task without pages.\<close>

definition user_memory_init :: "task \<Rightarrow> task" where
  "user_memory_init t = t\<lparr>page_array := 0, user_page_capacity := USER_INLINE_PAGES\<rparr>"

text \<open>The doubling loop; it does not end when the capacity is zero.\<close>

partial_function (option) double_to :: "u32 \<Rightarrow> u32 \<Rightarrow> u32 option" where
  "double_to capacity count = (if capacity < count then double_to (capacity * 2) count else Some capacity)"

definition user_pages_reserve ::
    "u64 \<Rightarrow> u32 \<Rightarrow> 'a sched_state_scheme \<Rightarrow> ('a sched_state_scheme \<times> bool) option" where
  "user_pages_reserve t count s =
     (if t = 0 \<or> is_thread (tasks s t) \<or> count > USER_MAX_PAGES then Some (s, False)
      else if count \<le> user_page_capacity (tasks s t) then Some (s, True)
      else do {
        capacity \<leftarrow> double_to (user_page_capacity (tasks s t)) count;
        (s, data) \<leftarrow> kmalloc (ucast capacity * 2 * 8) s;
        if data = 0 then Some (s, False)
        else do {
          s \<leftarrow> (if page_array (tasks s t) \<noteq> 0 then kfree (page_array (tasks s t)) s else Some s);
          Some (upd_task t (\<lambda>x. x\<lparr>page_array := data, user_page_capacity := capacity\<rparr>) s, True)
        }
      })"

primrec free_regions :: "u64 list \<Rightarrow> 'a heap_state_scheme \<Rightarrow> 'a heap_state_scheme option" where
  "free_regions [] s = Some s"
| "free_regions (p # ps) s = do { s \<leftarrow> kfree p s; free_regions ps s }"

definition user_memory_release :: "u64 \<Rightarrow> 'a sched_state_scheme \<Rightarrow> 'a sched_state_scheme option" where
  "user_memory_release t s =
     (if is_thread (tasks s t) then Some s
      else do {
        let s = foldl pmm_free_page s (user_pages (tasks s t));
        s \<leftarrow> (if page_array (tasks s t) \<noteq> 0 then kfree (page_array (tasks s t)) s else Some s);
        s \<leftarrow> free_regions (map fst (allocations (tasks s t))) s;
        Some (upd_task t (\<lambda>x. user_memory_init
          (x\<lparr>allocations := [], user_pages := [], user_vaddrs := []\<rparr>)) s)
      })"

text \<open>The copies made so far stay with the child when one fails.\<close>

primrec clone_allocations ::
    "(u64 \<times> user_allocation) list \<Rightarrow> u64 \<Rightarrow> 'a sched_state_scheme \<Rightarrow> ('a sched_state_scheme \<times> bool) option" where
  "clone_allocations [] child s = Some (s, True)"
| "clone_allocations (a # as) child s = do {
     (s, copy) \<leftarrow> kmalloc 32 s;
     if copy = 0 then Some (s, False)
     else clone_allocations as child
       (upd_task child (\<lambda>x. x\<lparr>allocations := allocations x @ [(copy, snd a)]\<rparr>) s)
   }"

definition user_allocations_clone ::
    "u64 \<Rightarrow> u64 \<Rightarrow> 'a sched_state_scheme \<Rightarrow> ('a sched_state_scheme \<times> bool) option" where
  "user_allocations_clone parent child s =
     (if allocations (tasks s child) \<noteq> [] then Some (s, False)
      else clone_allocations (allocations (tasks s parent)) child s)"

section \<open>Finding a free range\<close>

text \<open>
  One turn of the scans: a region of \<open>pages\<close> pages and a guard page at \<open>base\<close> that meets the candidate
  moves \<open>skip\<close> to its end.
\<close>

definition region_stop :: "u64 \<Rightarrow> u32 \<Rightarrow> u64" where
  "region_stop base pages = base + (ucast pages + 1) * PAGE_BYTES"

definition skip_region :: "u64 \<Rightarrow> u64 \<Rightarrow> u64 \<Rightarrow> u32 \<Rightarrow> u64 \<Rightarrow> u64" where
  "skip_region candidate span base pages skip =
     (let stop = region_stop base pages
      in if candidate < stop \<and> base < candidate + span \<and> stop > skip then stop else skip)"

definition skip_regions :: "task \<Rightarrow> u64 \<Rightarrow> u64 \<Rightarrow> u64" where
  "skip_regions t candidate span =
     (let skip = fold (\<lambda>(p, a). skip_region candidate span (a_base a) (a_pages a)) (allocations t) candidate
      in fold (\<lambda>a skip. if at_shmid a \<ge> 0 then skip_region candidate span (at_vaddr a) (at_page_count a) skip
           else skip) (shm_attached t) skip)"

text \<open>The first mapped page of the candidate, if there is one.\<close>

definition mapped_page :: "'a machine_scheme \<Rightarrow> u64 \<Rightarrow> u64 \<Rightarrow> u32 \<Rightarrow> u64 option" where
  "mapped_page s pml4 candidate pages =
     find (\<lambda>va. vmm_pte_in s pml4 va \<noteq> None) (map (page_at candidate) [0 ..< Suc (unat pages)])"

partial_function (option) find_range ::
    "task \<Rightarrow> 'a machine_scheme \<Rightarrow> u64 \<Rightarrow> u32 \<Rightarrow> u64 \<Rightarrow> u64 option" where
  "find_range t s end_addr pages candidate =
     (let span = (ucast pages + 1) * PAGE_BYTES
      in if candidate \<le> end_addr - span
         then let skip = skip_regions t candidate span
              in if skip \<noteq> candidate then find_range t s end_addr pages skip
                 else case mapped_page s (t_pml4 t) candidate pages of
                        None \<Rightarrow> Some candidate
                      | Some va \<Rightarrow> find_range t s end_addr pages (va + PAGE_BYTES)
         else Some 0)"

definition user_find_free_range ::
    "u64 \<Rightarrow> u64 \<Rightarrow> u64 \<Rightarrow> u32 \<Rightarrow> 'a sched_state_scheme \<Rightarrow> u64 option" where
  "user_find_free_range t start end_addr pages s =
     (let span = (ucast pages + 1) * PAGE_BYTES
      in if t = 0 \<or> t_pml4 (tasks s t) = 0 \<or> pages = 0 \<or> start \<ge> end_addr \<or> end_addr > USER_TOP \<or>
            start AND (PAGE_BYTES - 1) \<noteq> 0 \<or> span > end_addr - start
         then Some 0
         else find_range (tasks s t) s end_addr pages start)"

section \<open>Allocating and releasing\<close>

text \<open>The frames of a new allocation, cleared and recorded, until one is missing.\<close>

primrec take_user_pages ::
    "nat \<Rightarrow> nat \<Rightarrow> u64 \<Rightarrow> u64 \<Rightarrow> 'a sched_state_scheme \<Rightarrow> 'a sched_state_scheme \<times> bool" where
  "take_user_pages 0 i t base s = (s, True)"
| "take_user_pages (Suc n) i t base s =
     (case pmm_alloc_page s of
        (s, phys) \<Rightarrow>
          if phys = 0 then (s, False)
          else let s = s\<lparr>mem := memset (mem s) (phys + hhdm_offset s) 0 4096\<rparr>;
                   s = upd_task t (\<lambda>x. x\<lparr>user_pages := user_pages x @ [phys],
                                         user_vaddrs := user_vaddrs x @ [page_at base i]\<rparr>) s
               in take_user_pages n (Suc i) t base s)"

text \<open>The rollback: the pages from the count \<open>before\<close> on are given back, last first.\<close>

definition drop_user_pages :: "nat \<Rightarrow> u64 \<Rightarrow> 'a sched_state_scheme \<Rightarrow> 'a sched_state_scheme" where
  "drop_user_pages before t s =
     upd_task t (\<lambda>x. x\<lparr>user_pages := take before (user_pages x), user_vaddrs := take before (user_vaddrs x)\<rparr>)
       (foldl pmm_free_page s (rev (drop before (user_pages (tasks s t)))))"

definition user_alloc :: "u64 \<Rightarrow> u64 \<Rightarrow> 'a sched_state_scheme \<Rightarrow> ('a sched_state_scheme \<times> u64) option" where
  "user_alloc task sz s =
     (let t = task_memory_owner task s
      in if t = 0 \<or> t_pml4 (tasks s t) = 0 \<or> sz = 0 \<or> sz > USER_HEAP_END - USER_HEAP_BASE - PAGE_BYTES
         then Some (s, 0)
         else
           let pages = ucast ((sz + PAGE_BYTES - 1) div PAGE_BYTES) :: u32;
               count = user_page_count (tasks s t)
           in if pages > USER_MAX_PAGES - count then Some (s, 0)
              else do {
                base \<leftarrow> user_find_free_range t USER_HEAP_BASE USER_HEAP_END pages s;
                if base = 0 then Some (s, 0)
                else do {
                  (s, a) \<leftarrow> kmalloc 32 s;
                  if a = 0 then Some (s, 0)
                  else do {
                    (s, reserved) \<leftarrow> user_pages_reserve t (count + pages) s;
                    if \<not> reserved then do { s \<leftarrow> kfree a s; Some (s, 0) }
                    else do {
                      let before = length (user_pages (tasks s t));
                      let (s, ok) = take_user_pages (unat pages) 0 t base s;
                      let (s, ok) =
                        (if ok then vmm_map_pages_in (t_pml4 (tasks s t)) base
                           (Some (drop before (user_pages (tasks s t)))) pages VMM_FLAGS_USER_DATA s
                         else (s, False));
                      if ok
                      then Some (upd_task t (\<lambda>x. x\<lparr>allocations :=
                             (a, \<lparr>a_base = base, a_size = sz, a_pages = pages\<rparr>) # allocations x\<rparr>) s, base)
                      else do { s \<leftarrow> kfree a (drop_user_pages before t s); Some (s, 0) }
                    }
                  }
                }
              })"

text \<open>The sweep over the records: those of the range are replaced by the last one.\<close>

function sweep_range ::
    "u64 \<Rightarrow> u64 \<Rightarrow> nat \<Rightarrow> u64 list \<Rightarrow> u64 list \<Rightarrow> 'a pmm_state_scheme \<Rightarrow>
     u64 list \<times> u64 list \<times> 'a pmm_state_scheme" where
  "sweep_range base stop i ps vs s =
     (if i < length ps
      then if vs ! i < base \<or> vs ! i \<ge> stop then sweep_range base stop (Suc i) ps vs s
           else let s = pmm_free_page s (ps ! i); last' = length ps - 1
                in sweep_range base stop i (take last' (ps[i := ps ! last']))
                     (take last' (vs[i := vs ! last'])) s
      else (ps, vs, s))"
  by pat_completeness auto
termination
  by (relation "measure (\<lambda>(base, stop, i, ps, vs, s). length ps - i)") auto

declare sweep_range.simps [simp del]

definition find_allocation :: "u64 \<Rightarrow> task \<Rightarrow> nat option" where
  "find_allocation base t = find_idx (\<lambda>(p, a). a_base a = base) (allocations t)"

definition user_free :: "u64 \<Rightarrow> u64 \<Rightarrow> 'a sched_state_scheme \<Rightarrow> ('a sched_state_scheme \<times> int) option" where
  "user_free task base s =
     (if base = 0 then Some (s, 0)
      else
        let t = task_memory_owner task s
        in if t = 0 \<or> t_pml4 (tasks s t) = 0 then Some (s, -1)
           else case find_allocation base (tasks s t) of
                  None \<Rightarrow> Some (s, -1)
                | Some k \<Rightarrow>
                    let (p, a) = allocations (tasks s t) ! k;
                        stop = base + ucast (a_pages a) * PAGE_BYTES;
                        s = fst (vmm_unmap_pages_in (t_pml4 (tasks s t)) base (a_pages a) s);
                        (ps, vs, s) = sweep_range base stop 0 (user_pages (tasks s t))
                                        (user_vaddrs (tasks s t)) s;
                        s = upd_task t (\<lambda>x. x\<lparr>user_pages := ps, user_vaddrs := vs,
                              allocations := take k (allocations x) @ drop (Suc k) (allocations x)\<rparr>) s
                    in do { s \<leftarrow> kfree p s; Some (s, 0) })"

definition copy_user_page ::
    "u64 \<Rightarrow> u64 \<Rightarrow> u64 \<Rightarrow> u64 \<Rightarrow> nat \<Rightarrow> 'a machine_scheme \<Rightarrow> 'a machine_scheme" where
  "copy_user_page pml4 base replacement bytes i s =
     (let offset = of_nat i * PAGE_BYTES;
          src = fst (vmm_get_physical_in s pml4 (base + offset));
          dst = fst (vmm_get_physical_in s pml4 (replacement + offset));
          n = (if bytes - offset < PAGE_BYTES then bytes - offset else PAGE_BYTES)
      in s\<lparr>mem := memcpy (mem s) (dst + hhdm_offset s) (src + hhdm_offset s) (unat n)\<rparr>)"

definition user_realloc ::
    "u64 \<Rightarrow> u64 \<Rightarrow> u64 \<Rightarrow> 'a sched_state_scheme \<Rightarrow> ('a sched_state_scheme \<times> u64) option" where
  "user_realloc task base sz s =
     (if base = 0 then user_alloc task sz s
      else
        let t = task_memory_owner task s
        in if t = 0 \<or> t_pml4 (tasks s t) = 0 then Some (s, 0)
           else case find_allocation base (tasks s t) of
                  None \<Rightarrow> Some (s, 0)
                | Some k \<Rightarrow>
                    let a = snd (allocations (tasks s t) ! k)
                    in if sz = 0 then do { (s, r) \<leftarrow> user_free t base s; Some (s, 0) }
                       else if sz = a_size a then Some (s, base)
                       else do {
                         (s, replacement) \<leftarrow> user_alloc t sz s;
                         if replacement = 0 then Some (s, 0)
                         else do {
                           let bytes = (if sz < a_size a then sz else a_size a);
                           let s = fold (copy_user_page (t_pml4 (tasks s t)) base replacement bytes)
                                 [0 ..< (unat bytes + 4095) div 4096] s;
                           (s, r) \<leftarrow> user_free t base s;
                           Some (s, replacement)
                         }
                       })"

end
