(* ===== verification/Shm.thy ===== *)
theory Shm
  imports UserMemory
begin

text \<open>
  Shared segments, \<^verbatim>\<open>mm/shm.c\<close>: a table of 32 segments, each with frames of its own, which processes
  attach to their address spaces. The page array of a segment is a list whose length is
  \<^verbatim>\<open>page_count\<close>, \<open>seg_array\<close> the heap block that holds it.
\<close>

section \<open>State\<close>

record shm_segment =
  seg_in_use :: bool
  seg_shmid :: int
  seg_array :: u64
  seg_pages :: "u64 list"
  seg_size :: u32
  seg_refcount :: u32
  seg_creator :: u32

record shm_state = sched_state +
  segments :: "shm_segment list"
  next_shmid :: u32

abbreviation SHM_MAX_SEGMENTS :: nat where "SHM_MAX_SEGMENTS \<equiv> 32"
abbreviation SHM_MAX_BYTES :: u32 where "SHM_MAX_BYTES \<equiv> 4096 * 4096"
abbreviation USER_SHM_BASE :: u64 where "USER_SHM_BASE \<equiv> 0x90000000"
abbreviation USER_SHM_END :: u64 where "USER_SHM_END \<equiv> 0xD0000000"

definition no_segment :: shm_segment where
  "no_segment = \<lparr>seg_in_use = False, seg_shmid = 0, seg_array = 0, seg_pages = [], seg_size = 0,
     seg_refcount = 0, seg_creator = 0\<rparr>"

definition no_attachment :: shm_attach_record where
  "no_attachment = \<lparr>at_shmid = -1, at_vaddr = 0, at_page_count = 0\<rparr>"

definition upd_segment ::
    "nat \<Rightarrow> (shm_segment \<Rightarrow> shm_segment) \<Rightarrow> 'a shm_state_scheme \<Rightarrow> 'a shm_state_scheme" where
  "upd_segment i f s = s\<lparr>segments := (segments s)[i := f (segments s ! i)]\<rparr>"

definition seg_page_count :: "shm_segment \<Rightarrow> u32" where
  "seg_page_count g = of_nat (length (seg_pages g))"

section \<open>Segments\<close>

definition find_segment :: "int \<Rightarrow> 'a shm_state_scheme \<Rightarrow> nat option" where
  "find_segment n s = find_idx (\<lambda>g. seg_in_use g \<and> seg_shmid g = n) (segments s)"

definition release_segment :: "nat \<Rightarrow> 'a shm_state_scheme \<Rightarrow> 'a shm_state_scheme option" where
  "release_segment i s =
     (let g = segments s ! i;
          s = foldl pmm_free_page s (seg_pages g)
      in do { s \<leftarrow> kfree (seg_array g) s; Some (upd_segment i (\<lambda>_. no_segment) s) })"

definition shm_init :: "'a shm_state_scheme \<Rightarrow> 'a shm_state_scheme" where
  "shm_init s = s\<lparr>segments := map (\<lambda>_. no_segment) (segments s)\<rparr>"

text \<open>The frames of a new segment, cleared and recorded, until one is missing.\<close>

primrec fill_segment :: "nat \<Rightarrow> nat \<Rightarrow> 'a shm_state_scheme \<Rightarrow> 'a shm_state_scheme \<times> bool" where
  "fill_segment 0 i s = (s, True)"
| "fill_segment (Suc n) i s =
     (case pmm_alloc_page s of
        (s, phys) \<Rightarrow>
          if phys = 0 then (s, False)
          else let s = s\<lparr>mem := memset (mem s) (phys + hhdm_offset s) 0 4096\<rparr>
               in fill_segment n i (upd_segment i (\<lambda>g. g\<lparr>seg_pages := seg_pages g @ [phys]\<rparr>) s))"

definition shm_create :: "u32 \<Rightarrow> u32 \<Rightarrow> 'a shm_state_scheme \<Rightarrow> ('a shm_state_scheme \<times> int) option" where
  "shm_create p sz s =
     (if sz = 0 \<or> sz > SHM_MAX_BYTES \<or> next_shmid s > 0x7FFFFFFF then Some (s, -1)
      else
        let owner = task_memory_owner (task_find_by_pid p s) s;
            p = (if owner \<noteq> 0 then pid (tasks s owner) else p)
        in case find_idx (\<lambda>g. \<not> seg_in_use g) (segments s) of
             None \<Rightarrow> Some (s, -1)
           | Some i \<Rightarrow>
               let pages = (sz + 4096 - 1) div 4096
               in do {
                    (s, array) \<leftarrow> kmalloc (ucast pages * 8) s;
                    let s = upd_segment i (\<lambda>g. g\<lparr>seg_array := array\<rparr>) s;
                    if array = 0 then Some (s, -1)
                    else case fill_segment (unat pages) i (upd_segment i (\<lambda>g. g\<lparr>seg_pages := []\<rparr>) s) of
                           (s, False) \<Rightarrow> do { s \<leftarrow> release_segment i s; Some (s, -1) }
                         | (s, True) \<Rightarrow>
                             let n = uint (next_shmid s);
                                 s = upd_segment i (\<lambda>g. g\<lparr>seg_shmid := n, seg_size := sz, seg_creator := p,
                                       seg_refcount := 0, seg_in_use := True\<rparr>)
                                     (s\<lparr>next_shmid := next_shmid s + 1\<rparr>)
                             in Some (s, n)
                  })"

section \<open>Attachments\<close>

definition upd_attachment ::
    "u64 \<Rightarrow> nat \<Rightarrow> shm_attach_record \<Rightarrow> 'a sched_state_scheme \<Rightarrow> 'a sched_state_scheme" where
  "upd_attachment owner k a s =
     upd_task owner (\<lambda>t. t\<lparr>shm_attached := (shm_attached t)[k := a]\<rparr>) s"

definition shm_attach ::
    "int \<Rightarrow> u32 \<Rightarrow> u64 \<Rightarrow> 'a shm_state_scheme \<Rightarrow> ('a shm_state_scheme \<times> u64) option" where
  "shm_attach n p pml4 s =
     (let owner = task_memory_owner (task_find_by_pid p s) s
      in case find_segment n s of
           None \<Rightarrow> Some (s, 0)
         | Some i \<Rightarrow>
             let g = segments s ! i
             in if owner = 0 \<or> pml4 = 0 \<or> t_pml4 (tasks s owner) \<noteq> pml4 \<or> seg_refcount g = UINT32_MAX
                then Some (s, 0)
                else case find_idx (\<lambda>a. at_shmid a < 0) (shm_attached (tasks s owner)) of
                       None \<Rightarrow> Some (s, 0)
                     | Some k \<Rightarrow> do {
                         base \<leftarrow> user_find_free_range owner USER_SHM_BASE USER_SHM_END (seg_page_count g) s;
                         if base = 0 then Some (s, 0)
                         else case vmm_map_pages_in pml4 base (Some (seg_pages g)) (seg_page_count g)
                                     VMM_FLAGS_USER_DATA s of
                                (s, False) \<Rightarrow> Some (s, 0)
                              | (s, True) \<Rightarrow>
                                  Some (upd_attachment owner k
                                    \<lparr>at_shmid = n, at_vaddr = base, at_page_count = seg_page_count g\<rparr>
                                    (upd_segment i (\<lambda>g. g\<lparr>seg_refcount := seg_refcount g + 1\<rparr>) s), base)
                       })"

definition detach_record :: "u64 \<Rightarrow> nat \<Rightarrow> 'a shm_state_scheme \<Rightarrow> 'a shm_state_scheme option" where
  "detach_record owner k s =
     (let a = shm_attached (tasks s owner) ! k;
          s = fst (vmm_unmap_pages_in (t_pml4 (tasks s owner)) (at_vaddr a) (at_page_count a) s)
      in do {
           s \<leftarrow> (case find_segment (at_shmid a) s of
                   None \<Rightarrow> Some s
                 | Some i \<Rightarrow>
                     let s = upd_segment i (\<lambda>g. g\<lparr>seg_refcount := seg_refcount g - 1\<rparr>) s
                     in if seg_refcount (segments s ! i) = 0 then release_segment i s else Some s);
           Some (upd_attachment owner k no_attachment s)
         })"

definition shm_detach ::
    "u64 \<Rightarrow> u32 \<Rightarrow> u64 \<Rightarrow> 'a shm_state_scheme \<Rightarrow> ('a shm_state_scheme \<times> int) option" where
  "shm_detach base p pml4 s =
     (let owner = task_memory_owner (task_find_by_pid p s) s
      in if owner = 0 \<or> pml4 = 0 \<or> t_pml4 (tasks s owner) \<noteq> pml4 then Some (s, -1)
         else case find_idx (\<lambda>a. at_shmid a \<ge> 0 \<and> at_vaddr a = base) (shm_attached (tasks s owner)) of
                None \<Rightarrow> Some (s, -1)
              | Some k \<Rightarrow> do { s \<leftarrow> detach_record owner k s; Some (s, 0) })"

definition shm_destroy :: "int \<Rightarrow> 'a shm_state_scheme \<Rightarrow> ('a shm_state_scheme \<times> int) option" where
  "shm_destroy n s =
     (case find_segment n s of
        None \<Rightarrow> Some (s, -1)
      | Some i \<Rightarrow>
          if seg_refcount (segments s ! i) \<noteq> 0 then Some (s, -1)
          else do { s \<leftarrow> release_segment i s; Some (s, 0) })"

text \<open>A loop over indices whose body may have no result.\<close>

primrec for_each :: "(nat \<Rightarrow> 's \<Rightarrow> 's option) \<Rightarrow> nat list \<Rightarrow> 's \<Rightarrow> 's option" where
  "for_each f [] s = Some s"
| "for_each f (i # is) s = do { s \<leftarrow> f i s; for_each f is s }"

definition detach_if_used :: "u64 \<Rightarrow> nat \<Rightarrow> 'a shm_state_scheme \<Rightarrow> 'a shm_state_scheme option" where
  "detach_if_used t k s =
     (if at_shmid (shm_attached (tasks s t) ! k) \<ge> 0 then detach_record t k s else Some s)"

definition release_if_abandoned :: "u32 \<Rightarrow> nat \<Rightarrow> 'a shm_state_scheme \<Rightarrow> 'a shm_state_scheme option" where
  "release_if_abandoned p i s =
     (let g = segments s ! i
      in if seg_in_use g \<and> seg_creator g = p \<and> seg_refcount g = 0 then release_segment i s else Some s)"

definition shm_cleanup_process :: "u64 \<Rightarrow> 'a shm_state_scheme \<Rightarrow> 'a shm_state_scheme option" where
  "shm_cleanup_process t s =
     (if t = 0 \<or> is_thread (tasks s t) then Some s
      else do {
        s \<leftarrow> for_each (detach_if_used t) [0 ..< SHM_MAX_ATTACH] s;
        if pid (tasks s t) \<noteq> 0
        then for_each (release_if_abandoned (pid (tasks s t))) [0 ..< SHM_MAX_SEGMENTS] s
        else Some s
      })"

section \<open>Inheritance\<close>

definition attachment_owns :: "'a shm_state_scheme \<Rightarrow> u64 \<Rightarrow> u64 \<Rightarrow> shm_attach_record \<Rightarrow> bool" where
  "attachment_owns s va phys a \<longleftrightarrow>
     \<not> (at_shmid a < 0 \<or> va < at_vaddr a \<or> va - at_vaddr a \<ge> ucast (at_page_count a) * PAGE_BYTES) \<and>
     (case find_segment (at_shmid a) s of
        None \<Rightarrow> False
      | Some i \<Rightarrow>
          let g = segments s ! i
          in seg_refcount g \<noteq> 0 \<and> seg_page_count g = at_page_count a \<and>
             seg_pages g ! unat ((va - at_vaddr a) div PAGE_BYTES) = phys)"

definition shm_owns_mapping :: "u64 \<Rightarrow> u64 \<Rightarrow> u64 \<Rightarrow> 'a shm_state_scheme \<Rightarrow> bool" where
  "shm_owns_mapping owner va phys s \<longleftrightarrow>
     owner \<noteq> 0 \<and> list_ex (attachment_owns s va phys) (shm_attached (tasks s owner))"

text \<open>The check of one attachment; \<open>added\<close> counts the new references to each segment.\<close>

definition inherit_check ::
    "u64 \<Rightarrow> 'a shm_state_scheme \<Rightarrow> shm_attach_record \<Rightarrow> u32 list \<Rightarrow> u32 list option" where
  "inherit_check child s a added =
     (if at_shmid a < 0 then Some added
      else case find_segment (at_shmid a) s of
             None \<Rightarrow> None
           | Some i \<Rightarrow>
               let g = segments s ! i
               in if seg_page_count g \<noteq> at_page_count a then None
                  else let added = added[i := added ! i + 1]
                       in if seg_refcount g > UINT32_MAX - added ! i then None
                          else if list_all (\<lambda>p. fst (vmm_get_physical_in s (t_pml4 (tasks s child))
                                    (page_at (at_vaddr a) p)) = seg_pages g ! p)
                                  [0 ..< unat (at_page_count a)]
                               then Some added else None)"

primrec inherit_checks ::
    "u64 \<Rightarrow> 'a shm_state_scheme \<Rightarrow> shm_attach_record list \<Rightarrow> u32 list \<Rightarrow> u32 list option" where
  "inherit_checks child s [] added = Some added"
| "inherit_checks child s (a # as) added = do {
     added \<leftarrow> inherit_check child s a added;
     inherit_checks child s as added
   }"

definition shm_inherit_attachments ::
    "u64 \<Rightarrow> u64 \<Rightarrow> 'a shm_state_scheme \<Rightarrow> 'a shm_state_scheme \<times> bool" where
  "shm_inherit_attachments parent child s =
     (case inherit_checks child s (shm_attached (tasks s parent)) (replicate SHM_MAX_SEGMENTS 0) of
        None \<Rightarrow> (s, False)
      | Some added \<Rightarrow>
          (upd_task child (\<lambda>t. t\<lparr>shm_attached := shm_attached (tasks s parent)\<rparr>)
            (s\<lparr>segments := map2 (\<lambda>g n. g\<lparr>seg_refcount := seg_refcount g + n\<rparr>) (segments s) added\<rparr>), True))"

end
