(* ===== verification/Sched.thy ===== *)
theory Sched
  imports TaskState
begin

text \<open>
  The scheduler and the state changes of tasks, \<^verbatim>\<open>kernel/task.c\<close>: selection of the next task, time
  slices, sleeping, waiting, exit and their wake-ups, placement on CPUs, nice values. \<open>now\<close> is
  \<^verbatim>\<open>timer_get_ticks()\<close>. Serial output and inter-processor interrupts are left out.
\<close>

section \<open>Priorities\<close>

definition quantum_table :: "u8 list" where
  "quantum_table = [1, 1, 2, 4]"

definition clamp_priority :: "int \<Rightarrow> int" where
  "clamp_priority p = (if p < PRIO_IDLE then PRIO_IDLE else if p > PRIO_HIGH then PRIO_HIGH else p)"

definition task_init_priority :: "int \<Rightarrow> task \<Rightarrow> task" where
  "task_init_priority prio t =
     t\<lparr>base_priority := prio, priority := prio, nice := 0, quantum_max := quantum_table ! nat prio,
       quantum := quantum_table ! nat prio, cpu_ticks := 0, sleep_count := 0\<rparr>"

definition task_set_nice :: "u32 \<Rightarrow> int \<Rightarrow> 'a sched_state_scheme \<Rightarrow> 'a sched_state_scheme \<times> int" where
  "task_set_nice c nice_val s =
     (let cur = current_task c s
      in if cur = 0 then (s, -1)
         else let nice_val = (if nice_val < -2 then -2 else nice_val);
                  nice_val = (if nice_val > 2 then 2 else nice_val)
              in (upd_task cur (\<lambda>t.
                    let eff = base_priority t - nice_val;
                        prio = clamp_priority eff
                    in t\<lparr>nice := nice_val, priority := prio, quantum_max := quantum_table ! nat prio\<rparr>) s, 0))"

section \<open>Placement\<close>

primrec placement_scan :: "nat \<Rightarrow> u32 \<Rightarrow> 'a sched_state_scheme \<Rightarrow> 'a sched_state_scheme \<times> u32" where
  "placement_scan 0 count s = (s, 0)"
| "placement_scan (Suc n) count s =
     (let cpu = placement_cursor s mod count;
          s = s\<lparr>placement_cursor := placement_cursor s + 1\<rparr>
      in if idle_task (percpu_get cpu s) \<noteq> 0 then (s, cpu) else placement_scan n count s)"

definition placement_cpu :: "'a sched_state_scheme \<Rightarrow> 'a sched_state_scheme \<times> u32" where
  "placement_cpu s = (if cpu_count s = 0 then (s, 0) else placement_scan (unat (cpu_count s)) (cpu_count s) s)"

text \<open>A task is pinned while a CPU runs it or still stands on its kernel stack.\<close>

definition task_active :: "u64 \<Rightarrow> 'a sched_state_scheme \<Rightarrow> bool" where
  "task_active t s \<longleftrightarrow>
     (\<exists>i \<in> set [0 ..< unat (cpu_count s)].
        current (percpu_get (of_nat i) s) = t \<or> retiring (percpu_get (of_nat i) s) = t)"

definition task_set_cpu :: "u32 \<Rightarrow> u32 \<Rightarrow> 'a sched_state_scheme \<Rightarrow> 'a sched_state_scheme \<times> int" where
  "task_set_cpu p cpu s =
     (let t = task_find_by_pid p s
      in if t = 0 \<or> p = 0 \<or> t = reaper_task s \<or> cpu \<ge> cpu_count s \<or> idle_task (percpu_get cpu s) = 0 \<or>
            task_active t s \<or> tstate (tasks s t) = TASK_DEAD
         then (s, -1)
         else (upd_task t (\<lambda>x. x\<lparr>cpu_id := cpu\<rparr>) s, 0))"

text \<open>Entry on a different stack acknowledges that the outgoing one is no longer in use.\<close>

definition task_context_enter :: "u32 \<Rightarrow> u64 \<Rightarrow> 'a sched_state_scheme \<Rightarrow> 'a sched_state_scheme" where
  "task_context_enter c sp s =
     (let t = retiring (percpu_get c s)
      in if t = 0 then s
         else let low = kernel_stack (tasks s t) - ucast (kernel_stack_pages (tasks s t)) * 4096
              in if sp \<ge> low \<and> sp < kernel_stack (tasks s t) then s
                 else upd_cpu c (\<lambda>p. p\<lparr>retiring := 0\<rparr>) s)"

definition task_publish :: "u64 \<Rightarrow> 'a sched_state_scheme \<Rightarrow> 'a sched_state_scheme" where
  "task_publish t s =
     (let p = next_pid s;
          s = s\<lparr>next_pid := next_pid s + 1\<rparr>;
          s = upd_task t (\<lambda>x. let x = x\<lparr>pid := p\<rparr> in if \<not> is_thread x then x\<lparr>tgid := p\<rparr> else x) s
      in s\<lparr>task_list := task_list s @ [t]\<rparr>)"

section \<open>Sleeping, waiting, exit\<close>

definition sleep_current_task :: "u32 \<Rightarrow> u64 \<Rightarrow> 'a sched_state_scheme \<Rightarrow> 'a sched_state_scheme" where
  "sleep_current_task c wake_tick s =
     (if current_task c s \<noteq> 0
      then upd_task (current_task c s)
             (\<lambda>t. t\<lparr>sleep_until := wake_tick, tstate := TASK_SLEEPING, sleep_count := sleep_count t + 1\<rparr>) s
      else s)"

definition task_is_dead :: "u32 \<Rightarrow> 'a sched_state_scheme \<Rightarrow> bool" where
  "task_is_dead p s =
     (let t = task_find_by_pid p s in if t \<noteq> 0 then tstate (tasks s t) = TASK_DEAD else True)"

definition task_mark_running :: "u32 \<Rightarrow> 'a sched_state_scheme \<Rightarrow> 'a sched_state_scheme" where
  "task_mark_running c s =
     (let cur = current_task c s
      in if cur \<noteq> 0 \<and> tstate (tasks s cur) \<noteq> TASK_DEAD
         then upd_task cur (\<lambda>t. t\<lparr>tstate := TASK_RUNNING\<rparr>) s else s)"

definition wait_for_pid :: "u32 \<Rightarrow> u32 \<Rightarrow> 'a sched_state_scheme \<Rightarrow> 'a sched_state_scheme" where
  "wait_for_pid c target_pid s =
     (let cur = current_task c s; t = task_find_by_pid target_pid s
      in if cur = 0 then s
         else if t \<noteq> 0 \<and> tstate (tasks s t) = TASK_DEAD then s
         else if t = 0 then s
         else upd_task cur (\<lambda>x. x\<lparr>tstate := TASK_WAITING, wait_target_pid := target_pid\<rparr>) s)"

text \<open>One pass over the task list that changes each task on its own.\<close>

definition each_task :: "(task \<Rightarrow> task) \<Rightarrow> 'a sched_state_scheme \<Rightarrow> 'a sched_state_scheme" where
  "each_task f s = fold (\<lambda>a. upd_task a f) (task_list s) s"

definition wake :: "(u32 \<Rightarrow> bool) \<Rightarrow> task \<Rightarrow> task" where
  "wake P w = (if tstate w = TASK_WAITING \<and> P (wait_target_pid w) then w\<lparr>tstate := TASK_READY\<rparr> else w)"

text \<open>The part of \<^verbatim>\<open>exit_current_task\<close> before its endless halt.\<close>

definition exit_current_task :: "u32 \<Rightarrow> 'a sched_state_scheme \<Rightarrow> 'a sched_state_scheme" where
  "exit_current_task c s =
     (let cur = current_task c s
      in if cur \<noteq> 0
         then let s = upd_task cur (\<lambda>t. t\<lparr>tstate := TASK_DEAD\<rparr>) s
              in each_task (wake (\<lambda>p. p = pid (tasks s cur))) s
         else s)"

definition task_abort_current_group :: "u32 \<Rightarrow> 'a sched_state_scheme \<Rightarrow> 'a sched_state_scheme" where
  "task_abort_current_group c s =
     (let faulting = current_task c s;
          s = (if faulting \<noteq> 0 \<and> t_pml4 (tasks s faulting) \<noteq> 0
               then let root = t_pml4 (tasks s faulting);
                        s = each_task (\<lambda>t. if t_pml4 t = root then t\<lparr>tstate := TASK_DEAD\<rparr> else t) s
                    in each_task (wake (\<lambda>p. task_is_dead p s)) s
               else s)
      in exit_current_task c s)"

text \<open>
  The wake-up pass of \<^verbatim>\<open>task_abort_current_group\<close> asks for each waiter whether its target is dead;
  the pass itself only turns waiting tasks ready, so the answer is the same before and during it.

  The beginning of every system call, under the guard that is held until its end: a task that was
  killed meanwhile exits instead, any other is marked as running.
\<close>

definition syscall_enter :: "u32 \<Rightarrow> 'a sched_state_scheme \<Rightarrow> 'a sched_state_scheme \<times> bool" where
  "syscall_enter c s =
     (if current_task c s \<noteq> 0 \<and> tstate (tasks s (current_task c s)) = TASK_DEAD
      then (exit_current_task c s, False)
      else (task_mark_running c s, True))"

text \<open>The list part of the removal of one dead task by the reaper, with the wake-up of its waiters.\<close>

definition unlink_task :: "u64 \<Rightarrow> 'a sched_state_scheme \<Rightarrow> 'a sched_state_scheme" where
  "unlink_task t s =
     (let s = s\<lparr>task_list := remove1 t (task_list s)\<rparr>;
          s = each_task (wake (\<lambda>p. p = pid (tasks s t))) s
      in if is_thread (tasks s t)
         then let leader = task_find_by_pid (tgid (tasks s t)) s
              in if leader \<noteq> 0 \<and> thread_count (tasks s leader) \<noteq> 0
                 then upd_task leader (\<lambda>x. x\<lparr>thread_count := thread_count x - 1\<rparr>) s else s
         else s)"

text \<open>
  Whether the reaper may take \<open>t\<close>: it is dead and on no CPU; a group leader also marks the other
  tasks of its address space dead and waits for them to go first.
\<close>

definition reap_check :: "u64 \<Rightarrow> 'a sched_state_scheme \<Rightarrow> 'a sched_state_scheme \<times> bool" where
  "reap_check t s =
     (let can_reap = (tstate (tasks s t) = TASK_DEAD \<and> \<not> task_active t s \<and> pid (tasks s t) \<noteq> 0)
      in if can_reap \<and> \<not> is_thread (tasks s t) \<and> t_pml4 (tasks s t) \<noteq> 0
         then fold (\<lambda>th (s, can_reap).
                if th \<noteq> t \<and> t_pml4 (tasks s th) = t_pml4 (tasks s t)
                then (upd_task th (\<lambda>x. x\<lparr>tstate := TASK_DEAD\<rparr>) s, False) else (s, can_reap))
              (task_list s) (s, can_reap)
         else (s, can_reap))"

text \<open>The reaper's own waiting, between two rounds.\<close>

definition reaper_wait :: "u32 \<Rightarrow> 'a sched_state_scheme \<Rightarrow> 'a sched_state_scheme" where
  "reaper_wait c s = upd_task (current_task c s) (\<lambda>t. t\<lparr>tstate := TASK_WAITING\<rparr>) s"

text \<open>The test of the waiting loop of a blocking system call.\<close>

definition task_runnable :: "u32 \<Rightarrow> 'a sched_state_scheme \<Rightarrow> bool" where
  "task_runnable c s \<longleftrightarrow> current_task c s \<noteq> 0 \<and>
     tstate (tasks s (current_task c s)) \<in> {TASK_RUNNING, TASK_READY}"

section \<open>The scheduler\<close>

text \<open>The first pass: sleepers whose time has come, and the reaper if there is work for it.\<close>

definition tick_task :: "u64 \<Rightarrow> u64 \<Rightarrow> 'a sched_state_scheme \<Rightarrow> 'a sched_state_scheme" where
  "tick_task now t s =
     (let s = (if tstate (tasks s t) = TASK_SLEEPING \<and> now \<ge> sleep_until (tasks s t)
               then upd_task t (\<lambda>x. x\<lparr>tstate := TASK_READY, ready_since := now\<rparr>) s else s)
      in if tstate (tasks s t) = TASK_DEAD \<and> \<not> task_active t s \<and> reaper_task s \<noteq> 0 \<and>
            tstate (tasks s (reaper_task s)) = TASK_WAITING
         then upd_task (reaper_task s) (\<lambda>x. x\<lparr>tstate := TASK_READY\<rparr>) s else s)"

fun successor :: "u64 \<Rightarrow> u64 list \<Rightarrow> u64" where
  "successor a (x # y # zs) = (if x = a then y else successor a (y # zs))"
| "successor a zs = 0"

text \<open>The tasks in the order of the circular scan that starts behind the outgoing task.\<close>

definition scan_order :: "u64 \<Rightarrow> u64 list \<Rightarrow> u64 list" where
  "scan_order previous l =
     (let start = (if successor previous l \<noteq> 0 then successor previous l else hd l)
      in dropWhile (\<lambda>a. a \<noteq> start) l @ takeWhile (\<lambda>a. a \<noteq> start) l)"

definition eligible :: "u32 \<Rightarrow> u64 \<Rightarrow> 'a sched_state_scheme \<Rightarrow> u64 \<Rightarrow> bool" where
  "eligible c now s t \<longleftrightarrow> t \<noteq> idle_task (percpu_get c s) \<and> pid (tasks s t) \<noteq> 0 \<and>
     cpu_id (tasks s t) = pc_cpu_id (percpu_get c s) \<and> tstate (tasks s t) = TASK_READY"

definition boosted :: "u64 \<Rightarrow> task \<Rightarrow> int" where
  "boosted now t =
     (if now - ready_since t \<ge> STARVATION_BOOST_INTERVAL then PRIO_HIGH + 1 else priority t)"

definition pick_step ::
    "u32 \<Rightarrow> u64 \<Rightarrow> 'a sched_state_scheme \<Rightarrow> u64 \<Rightarrow> u64 \<times> int \<Rightarrow> u64 \<times> int" where
  "pick_step c now s t best =
     (if eligible c now s t \<and> boosted now (tasks s t) > snd best then (t, boosted now (tasks s t)) else best)"

definition pick :: "u32 \<Rightarrow> u64 \<Rightarrow> u64 \<Rightarrow> 'a sched_state_scheme \<Rightarrow> u64" where
  "pick c now previous s = fst (fold (pick_step c now s) (scan_order previous (task_list s)) (0, -1))"

definition save_context :: "u64 \<Rightarrow> registers \<Rightarrow> task \<Rightarrow> task" where
  "save_context now rs t =
     (if tstate t \<noteq> TASK_DEAD
      then let t = t\<lparr>regs := rs\<rparr>
           in if tstate t = TASK_RUNNING then t\<lparr>tstate := TASK_READY, ready_since := now\<rparr> else t
      else t)"

definition switch_fpu :: "u32 \<Rightarrow> u64 \<Rightarrow> u64 \<Rightarrow> 'a sched_state_scheme \<Rightarrow> 'a sched_state_scheme" where
  "switch_fpu c previous to s =
     (let s = upd_task previous (\<lambda>t. t\<lparr>fpu := live_fpu (percpu_get c s)\<rparr>) s
      in upd_cpu c (\<lambda>p. p\<lparr>live_fpu := fpu (tasks s to)\<rparr>) s)"

definition next_task :: "u32 \<Rightarrow> u64 \<Rightarrow> u64 \<Rightarrow> 'a sched_state_scheme \<Rightarrow> u64" where
  "next_task c now previous s =
     (let best = pick c now previous s in if best \<noteq> 0 then best else idle_task (percpu_get c s))"

definition resume :: "u64 \<Rightarrow> task \<Rightarrow> task" where
  "resume now t = t\<lparr>tstate := TASK_RUNNING, ready_since := now, quantum := quantum_max t\<rparr>"

definition switch_to ::
    "u32 \<Rightarrow> u64 \<Rightarrow> u64 \<Rightarrow> u64 \<Rightarrow> 'a sched_state_scheme \<Rightarrow> 'a sched_state_scheme \<times> registers" where
  "switch_to c now previous to s =
     (let s = upd_cpu c (\<lambda>p. p\<lparr>current := to\<rparr>) s;
          s = (if to \<noteq> previous then switch_fpu c previous to s else s);
          s = (if to \<noteq> previous \<and> pid (tasks s previous) \<noteq> 0 then upd_cpu c (\<lambda>p. p\<lparr>retiring := previous\<rparr>) s else s);
          s = upd_task to (resume now) s;
          s = vmm_switch_pml4 (t_pml4 (tasks s to)) s;
          s = percpu_set_kernel_stack (pc_cpu_id (percpu_get c s)) (kernel_stack (tasks s to)) s
      in (upd_cpu c (\<lambda>p. p\<lparr>switches := switches p + 1\<rparr>) s, regs (tasks s to)))"

definition switch_task ::
    "u32 \<Rightarrow> u64 \<Rightarrow> registers \<Rightarrow> 'a sched_state_scheme \<Rightarrow> 'a sched_state_scheme \<times> registers" where
  "switch_task c now rs s =
     (let previous = current_task c s;
          s = upd_task previous (save_context now rs) s
      in switch_to c now previous (next_task c now previous s) s)"

text \<open>
  One timer tick on CPU \<open>c\<close>. \<open>got\<close> is whether \<^verbatim>\<open>preempt_try_disable\<close> got the mutation lock.
\<close>

definition schedule ::
    "bool \<Rightarrow> u32 \<Rightarrow> u64 \<Rightarrow> registers \<Rightarrow> 'a sched_state_scheme \<Rightarrow> 'a sched_state_scheme \<times> registers" where
  "schedule got c now rs s =
     (if current_task c s = 0 \<or> \<not> got then (s, rs)
      else let s = fold (tick_task now) (task_list s) s;
               cur = current_task c s;
               s = upd_task cur (\<lambda>t. t\<lparr>cpu_ticks := cpu_ticks t + 1\<rparr>) s
           in if cur \<noteq> idle_task (percpu_get c s) \<and> tstate (tasks s cur) = TASK_RUNNING
              then let s = (if quantum (tasks s cur) \<noteq> 0
                            then upd_task cur (\<lambda>t. t\<lparr>quantum := quantum t - 1\<rparr>) s else s)
                   in if quantum (tasks s cur) \<noteq> 0 then (s, rs) else switch_task c now rs s
              else switch_task c now rs s)"

section \<open>Queries\<close>

definition get_current_pid :: "u32 \<Rightarrow> 'a sched_state_scheme \<Rightarrow> u32" where
  "get_current_pid c s = (if current_task c s \<noteq> 0 then pid (tasks s (current_task c s)) else 0)"

definition task_get_current_fds :: "u32 \<Rightarrow> 'a sched_state_scheme \<Rightarrow> vfs_fd list option" where
  "task_get_current_fds c s =
     (if current_task c s \<noteq> 0 then Some (task_fds (tasks s (current_task c s))) else None)"

definition task_get_current_pml4 :: "u32 \<Rightarrow> 'a sched_state_scheme \<Rightarrow> u64" where
  "task_get_current_pml4 c s = (if current_task c s \<noteq> 0 then t_pml4 (tasks s (current_task c s)) else 0)"

definition task_get_thread_count :: "u32 \<Rightarrow> 'a sched_state_scheme \<Rightarrow> u32" where
  "task_get_thread_count c s =
     (let cur = current_task c s
      in if cur = 0 then 0
         else let leader = task_find_by_pid (tgid (tasks s cur)) s
              in if leader \<noteq> 0 then thread_count (tasks s leader) else 1)"

definition task_set_uid :: "u32 \<Rightarrow> u32 \<Rightarrow> u32 \<Rightarrow> 'a sched_state_scheme \<Rightarrow> 'a sched_state_scheme" where
  "task_set_uid c u g s =
     (if current_task c s \<noteq> 0 then upd_task (current_task c s) (\<lambda>t. t\<lparr>t_uid := u, t_gid := g\<rparr>) s else s)"

definition task_get_uid :: "u32 \<Rightarrow> 'a sched_state_scheme \<Rightarrow> u32" where
  "task_get_uid c s = (if current_task c s = 0 then 0 else t_uid (tasks s (current_task c s)))"

definition state_char :: "task_run_state \<Rightarrow> u8 list" where
  "state_char st = bytes_of (case st of TASK_RUNNING \<Rightarrow> ''R'' | TASK_READY \<Rightarrow> ''r'' | TASK_SLEEPING \<Rightarrow> ''S''
     | TASK_WAITING \<Rightarrow> ''W'' | TASK_DEAD \<Rightarrow> ''D'')"

definition decimal :: "u64 \<Rightarrow> u8 list" where
  "decimal n = the (itoa n 10)"

text \<open>The text written to the buffer, with its terminating NUL; \<open>None\<close> is the result -1.\<close>

definition task_get_sched_info :: "u32 \<Rightarrow> u32 \<Rightarrow> 'a sched_state_scheme \<Rightarrow> u8 list option" where
  "task_get_sched_info c p s =
     (let a = (if p = 0 then current_task c s else task_find_by_pid p s);
          t = tasks s a
      in if a = 0 then None
         else Some (bytes_of ''PID='' @ decimal (ucast (pid t)) @
                bytes_of '' PRI='' @ decimal (of_int (priority t)) @
                bytes_of '' NICE='' @
                (if nice t < 0 then bytes_of ''-'' @ decimal (of_int (- nice t)) else decimal (of_int (nice t))) @
                bytes_of '' Q='' @ decimal (ucast (quantum t)) @
                bytes_of ''/'' @ decimal (ucast (quantum_max t)) @
                bytes_of '' CPU='' @ decimal (ucast (cpu_ticks t)) @
                bytes_of '' SLP='' @ decimal (ucast (sleep_count t)) @
                bytes_of '' ST='' @ state_char (tstate t) @ [10, 0]))"

end
