(* ===== verification/Cow.thy ===== *)
theory Cow
  imports Shm Sched
begin

text \<open>
  Copy on write, \<^verbatim>\<open>mm/cow.c\<close>: a fork shares the frames of the parent's private pages, both sides lose
  the right to write, and the first write fault on such a page gives the faulting side a frame of its
  own.
\<close>

definition private_index :: "task \<Rightarrow> u64 \<Rightarrow> u64 \<Rightarrow> nat option" where
  "private_index t va phys = find_idx (\<lambda>(v, p). v = va \<and> p = phys) (zip (user_vaddrs t) (user_pages t))"

section \<open>Cloning an address space\<close>

definition record_page :: "u64 \<Rightarrow> u64 \<Rightarrow> u64 \<Rightarrow> 'a sched_state_scheme \<Rightarrow> 'a sched_state_scheme" where
  "record_page t phys va s =
     upd_task t (\<lambda>x. x\<lparr>user_pages := user_pages x @ [phys], user_vaddrs := user_vaddrs x @ [va]\<rparr>) s"

definition clone_page ::
    "u64 \<Rightarrow> u64 \<Rightarrow> u64 \<Rightarrow> u64 \<Rightarrow> 'a shm_state_scheme \<Rightarrow> 'a shm_state_scheme \<times> bool" where
  "clone_page owner child va entry s =
     (let phys = vmm_pte_address entry;
          flags = entry AND PTE_FLAG_MASK;
          child_pml4 = t_pml4 (tasks s child)
      in if \<not> has flags PTE_USER then (s, False)
         else if private_index (tasks s owner) va phys = None
         then if has flags PTE_COW \<or> \<not> shm_owns_mapping owner va phys s then (s, False)
              else vmm_map_page_in child_pml4 va phys flags s
         else if user_page_count (tasks s child) \<ge> user_page_capacity (tasks s child) then (s, False)
         else case pmm_ref_page s phys of
                (s, False) \<Rightarrow> (s, False)
              | (s, True) \<Rightarrow>
                  let flags = (if has flags (PTE_WRITE OR PTE_COW)
                               then (flags AND NOT PTE_WRITE) OR PTE_COW else flags)
                  in case vmm_map_page_in child_pml4 va phys flags s of
                       (s, False) \<Rightarrow> (pmm_free_page s phys, False)
                     | (s, True) \<Rightarrow> (record_page child phys va s, True))"

text \<open>The last step protects the parent's pages. The code reads through the entry without a test.\<close>

definition protect_page :: "u64 \<Rightarrow> u64 \<Rightarrow> 'a machine_scheme \<Rightarrow> 'a machine_scheme option" where
  "protect_page pml4 va s =
     (case vmm_pte_in s pml4 va of
        None \<Rightarrow> None
      | Some p \<Rightarrow>
          if has (get64 s p) (PTE_WRITE OR PTE_COW)
          then Some (tlb_shootdown pml4 va (put64 p ((get64 s p AND NOT PTE_WRITE) OR PTE_COW) s))
          else Some s)"

primrec protect_pages :: "u64 \<Rightarrow> u64 list \<Rightarrow> 'a machine_scheme \<Rightarrow> 'a machine_scheme option" where
  "protect_pages pml4 [] s = Some s"
| "protect_pages pml4 (va # vas) s = do { s \<leftarrow> protect_page pml4 va s; protect_pages pml4 vas s }"

definition cow_clone_address_space ::
    "u64 \<Rightarrow> u64 \<Rightarrow> 'a shm_state_scheme \<Rightarrow> ('a shm_state_scheme \<times> bool) option" where
  "cow_clone_address_space parent child s =
     (let owner = task_memory_owner parent s
      in if owner = 0 \<or> t_pml4 (tasks s owner) = 0 \<or> user_page_count (tasks s owner) > USER_MAX_PAGES \<or>
            child = 0 \<or> t_pml4 (tasks s child) = 0 \<or> user_page_count (tasks s child) \<noteq> 0
         then Some (s, False)
         else do {
           (s, ok) \<leftarrow> user_pages_reserve child (user_page_count (tasks s owner)) s;
           (s, ok) \<leftarrow> (if ok then user_allocations_clone owner child s else Some (s, False));
           let (s, ok) =
             (if ok then vmm_visit_user_pages (t_pml4 (tasks s owner)) (clone_page owner child) s
              else (s, False));
           let ok = (ok \<and> user_page_count (tasks s child) = user_page_count (tasks s owner));
           let (s, ok) = (if ok then shm_inherit_attachments owner child s else (s, False));
           if \<not> ok then Some (s, False)
           else do {
             s \<leftarrow> protect_pages (t_pml4 (tasks s owner)) (user_vaddrs (tasks s child)) s;
             Some (s, True)
           }
         })"

section \<open>Resolving a fault\<close>

definition cow_resolve ::
    "u32 \<Rightarrow> u64 \<Rightarrow> u64 \<Rightarrow> 'a sched_state_scheme \<Rightarrow> 'a sched_state_scheme \<times> bool" where
  "cow_resolve c fault_addr error_code s =
     (if error_code AND NOT 4 \<noteq> 3 \<or> fault_addr \<ge> USER_TOP then (s, False)
      else
        let owner = task_memory_owner (task_find_by_pid (get_current_pid c s) s) s;
            pml4 = t_pml4 (tasks s owner);
            va = fault_addr AND NOT (PAGE_BYTES - 1)
        in if owner = 0 \<or> pml4 = 0 then (s, False)
           else case vmm_pte_in s pml4 va of
                  None \<Rightarrow> (s, False)
                | Some p \<Rightarrow>
                    let entry = get64 s p
                    in if entry AND (PTE_USER OR PTE_WRITE) = PTE_USER OR PTE_WRITE
                       then (tlb_shootdown pml4 va s, True)
                       else if entry AND (PTE_USER OR PTE_COW OR PTE_WRITE) \<noteq> PTE_USER OR PTE_COW
                       then (s, False)
                       else
                         let old_phys = vmm_pte_address entry;
                             refs = pmm_get_refcount s old_phys;
                             flags = ((entry AND PTE_FLAG_MASK) AND NOT PTE_COW) OR PTE_WRITE
                         in case private_index (tasks s owner) va old_phys of
                              None \<Rightarrow> (s, False)
                            | Some k \<Rightarrow>
                                if refs = 0 then (s, False)
                                else if refs = 1
                                then (tlb_shootdown pml4 va (put64 p (old_phys OR flags) s), True)
                                else case pmm_alloc_page s of
                                       (s, phys) \<Rightarrow>
                                         if phys = 0 then (s, False)
                                         else
                                           let s = s\<lparr>mem := memcpy (mem s) (phys + hhdm_offset s)
                                                 (old_phys + hhdm_offset s) 4096\<rparr>;
                                               s = put64 p (phys OR flags) s;
                                               s = upd_task owner (\<lambda>t. t\<lparr>user_pages :=
                                                 (user_pages t)[k := phys]\<rparr>) s;
                                               s = tlb_shootdown pml4 va s
                                           in (pmm_free_page s old_phys, True))"

end
