(* ===== verification/Uaccess.thy ===== *)
theory Uaccess
  imports Cow
begin

text \<open>
  Access to user memory, \<^verbatim>\<open>cpu/uaccess.c\<close> with the two copy loops of \<^verbatim>\<open>cpu/uaccess_asm.S\<close> and the page
  fault handler of \<^verbatim>\<open>cpu/isr.c\<close> that they can enter. A kernel buffer is the list of its bytes. The
  processor's part is \<open>hw_access\<close>: a supervisor access walks the tables of \<open>cr3\<close> and obeys their write
  bits (\<^verbatim>\<open>CR0.WP\<close> is set on every CPU). \<open>c\<close> is the CPU. \<^verbatim>\<open>vmm_read_pte_in\<close>, which the code calls but no file of
  the repository defines, is an argument.
\<close>

abbreviation USER_ADDR_MAX :: u64 where "USER_ADDR_MAX \<equiv> 0x800000000000"
abbreviation USER_STRING_MAX :: u64 where "USER_STRING_MAX \<equiv> 4096"

section \<open>Validation\<close>

definition is_user_range :: "u64 \<Rightarrow> u64 \<Rightarrow> bool" where
  "is_user_range addr len \<longleftrightarrow> len = 0 \<or> (addr \<noteq> 0 \<and> addr < USER_ADDR_MAX \<and> len \<le> USER_ADDR_MAX - addr)"

text \<open>The pages from that of \<open>addr\<close> up to \<open>addr + len\<close>, as the loops visit them.\<close>

definition touched_pages :: "u64 \<Rightarrow> u64 \<Rightarrow> u64 list" where
  "touched_pages addr len =
     map (page_at (addr AND NOT (PAGE_BYTES - 1)))
       [0 ..< (unat (addr AND (PAGE_BYTES - 1)) + unat len + 4095) div 4096]"

definition user_access_ok :: "u32 \<Rightarrow> u64 \<Rightarrow> u64 \<Rightarrow> bool \<Rightarrow> 'a sched_state_scheme \<Rightarrow> bool" where
  "user_access_ok c addr len write s \<longleftrightarrow>
     is_user_range addr len \<and>
     (len = 0 \<or>
      list_all (\<lambda>va. vmm_user_accessible s (task_get_current_pml4 c s) va write) (touched_pages addr len))"

primrec prepare_pages ::
    "('a sched_state_scheme \<Rightarrow> u64 \<Rightarrow> u64 \<Rightarrow> u64) \<Rightarrow> u32 \<Rightarrow> u64 list \<Rightarrow> 'a sched_state_scheme \<Rightarrow>
     'a sched_state_scheme \<times> int" where
  "prepare_pages read_pte c [] s = (s, 0)"
| "prepare_pages read_pte c (va # vas) s =
     (let entry = read_pte s (task_get_current_pml4 c s) va
      in if entry = 0 then (s, -1)
         else if has entry PTE_WRITE then prepare_pages read_pte c vas s
         else case cow_resolve c va 3 s of
                (s, False) \<Rightarrow> (s, -1)
              | (s, True) \<Rightarrow> prepare_pages read_pte c vas s)"

definition user_write_prepare ::
    "('a sched_state_scheme \<Rightarrow> u64 \<Rightarrow> u64 \<Rightarrow> u64) \<Rightarrow> u32 \<Rightarrow> u64 \<Rightarrow> u64 \<Rightarrow> 'a sched_state_scheme \<Rightarrow>
     'a sched_state_scheme \<times> int" where
  "user_write_prepare read_pte c addr len s =
     (if \<not> user_access_ok c addr len True s then (s, -1)
      else if len = 0 then (s, 0)
      else prepare_pages read_pte c (touched_pages addr len) s)"

section \<open>Faults\<close>

record copy_fixup =
  instruction :: u64
  recovery :: u64
  fix_write :: bool

text \<open>The labels of the assembly, at whatever addresses they are linked.\<close>

record copy_labels =
  from_load :: u64
  from_fault :: u64
  to_store :: u64
  to_fault :: u64

definition uaccess_fixups :: "copy_labels \<Rightarrow> copy_fixup list" where
  "uaccess_fixups L =
     [\<lparr>instruction = from_load L, recovery = from_fault L, fix_write = False\<rparr>,
      \<lparr>instruction = to_store L, recovery = to_fault L, fix_write = True\<rparr>]"

definition uaccess_fixup :: "copy_labels \<Rightarrow> bool \<Rightarrow> registers \<Rightarrow> u64 \<Rightarrow> registers option" where
  "uaccess_fixup L guarded r addr =
     (if has (cs r) 3 \<or> vector r \<noteq> 14 \<or> \<not> guarded \<or> \<not> is_user_range addr 1 \<or> has (err_code r) (NOT 3) then None
      else case find (\<lambda>f. rip r = instruction f \<and> has (err_code r) 2 = fix_write f) (uaccess_fixups L) of
             None \<Rightarrow> None
           | Some f \<Rightarrow> if addr \<noteq> (if fix_write f then rdi r else rsi r) then None
                      else Some (r\<lparr>rip := recovery f\<rparr>))"

text \<open>How the handler ends: back at the saved registers, with the end of the process, or in the halt loop.\<close>

datatype fault_end = Resume registers | AbortGroup | Halt

definition handle_page_fault ::
    "copy_labels \<Rightarrow> u32 \<Rightarrow> bool \<Rightarrow> u64 \<Rightarrow> registers \<Rightarrow> 'a sched_state_scheme \<Rightarrow> 'a sched_state_scheme \<times> fault_end" where
  "handle_page_fault L c guarded cr2 r s =
     (let err = err_code r;
          (s, resolved) = (if has err 8 then (s, False) else cow_resolve c cr2 err s)
      in if resolved then (s, Resume r)
         else case (if has err 8 then None else uaccess_fixup L guarded r cr2) of
                Some r' \<Rightarrow> (s, Resume r')
              | None \<Rightarrow>
                  if cs r AND 3 = 3 \<and> \<not> has err 8 \<and> current_task c s \<noteq> 0 \<and>
                     t_pml4 (tasks s (current_task c s)) \<noteq> 0
                  then (s, AbortGroup) else (s, Halt))"

section \<open>The copies\<close>

text \<open>
  The processor's translation of a supervisor access: the error code of a fault (bit 0: an entry forbids
  the access, bit 1: it is a write) or the physical address. An entry of a higher level with the large
  bit maps a large page; at the root the bit is reserved (error bit 3).
\<close>

primrec hw_walk :: "nat \<Rightarrow> 'a machine_scheme \<Rightarrow> u64 \<Rightarrow> u64 \<Rightarrow> bool \<Rightarrow> u64 + u64" where
  "hw_walk 0 s table va write =
     (let entry = get64 s (slot_at table (index_at va 0)); w = (if write then 2 else 0)
      in if \<not> has entry PTE_PRESENT then Inl w
         else if write \<and> \<not> has entry PTE_WRITE then Inl (1 OR w)
         else Inr (vmm_pte_address entry + (va AND 4095)))"
| "hw_walk (Suc l) s table va write =
     (let entry = get64 s (slot_at table (index_at va (Suc l))); w = (if write then 2 else 0);
          size = 12 + 9 * Suc l
      in if \<not> has entry PTE_PRESENT then Inl w
         else if has entry PTE_LARGE \<and> Suc l = 3 then Inl (9 OR w)
         else if write \<and> \<not> has entry PTE_WRITE
         then (if has entry PTE_LARGE then Inl (1 OR w)
               else case hw_walk l s (table_at s entry) va False of Inl e \<Rightarrow> Inl (e OR w) | Inr p \<Rightarrow> Inl (1 OR w))
         else if has entry PTE_LARGE
         then Inr ((vmm_pte_address entry AND NOT (mask size)) + (va AND mask size))
         else hw_walk l s (table_at s entry) va write)"

definition hw_access :: "'a machine_scheme \<Rightarrow> u64 \<Rightarrow> bool \<Rightarrow> u64 + u64" where
  "hw_access s va write = hw_walk 3 s (table_at s (cr3 s)) va write"

text \<open>
  One user instruction of the loops. The fault handler may have it executed again; the result tells
  whether it was completed or control went to its recovery entry.
\<close>

partial_function (option) user_store ::
    "copy_labels \<Rightarrow> u32 \<Rightarrow> registers \<Rightarrow> u64 \<Rightarrow> u8 \<Rightarrow> 'a sched_state_scheme \<Rightarrow> ('a sched_state_scheme \<times> bool) option" where
  "user_store L c r a v s =
     (case hw_access s a True of
        Inr p \<Rightarrow> Some (s\<lparr>mem := (mem s)(p + hhdm_offset s := v)\<rparr>, True)
      | Inl err \<Rightarrow>
          (case handle_page_fault L c True a
                  (r\<lparr>rip := to_store L, rdi := a, cs := 8, vector := 14, err_code := err\<rparr>) s of
             (s, Resume r') \<Rightarrow> if rip r' = to_store L then user_store L c r a v s else Some (s, False)
           | (s, AbortGroup) \<Rightarrow> None
           | (s, Halt) \<Rightarrow> None))"

partial_function (option) user_load ::
    "copy_labels \<Rightarrow> u32 \<Rightarrow> registers \<Rightarrow> u64 \<Rightarrow> 'a sched_state_scheme \<Rightarrow> ('a sched_state_scheme \<times> u8 option) option" where
  "user_load L c r a s =
     (case hw_access s a False of
        Inr p \<Rightarrow> Some (s, Some (mem s (p + hhdm_offset s)))
      | Inl err \<Rightarrow>
          (case handle_page_fault L c True a
                  (r\<lparr>rip := from_load L, rsi := a, cs := 8, vector := 14, err_code := err\<rparr>) s of
             (s, Resume r') \<Rightarrow> if rip r' = from_load L then user_load L c r a s else Some (s, None)
           | (s, AbortGroup) \<Rightarrow> None
           | (s, Halt) \<Rightarrow> None))"

primrec uaccess_copy_to_asm ::
    "copy_labels \<Rightarrow> u32 \<Rightarrow> registers \<Rightarrow> u64 \<Rightarrow> u8 list \<Rightarrow> 'a sched_state_scheme \<Rightarrow> ('a sched_state_scheme \<times> int) option" where
  "uaccess_copy_to_asm L c r a [] s = Some (s, 0)"
| "uaccess_copy_to_asm L c r a (v # vs) s = do {
     (s, ok) \<leftarrow> user_store L c r a v s;
     if ok then uaccess_copy_to_asm L c r (a + 1) vs s else Some (s, -1)
   }"

text \<open>The bytes read come with the result: all of them, or those before the fault.\<close>

primrec uaccess_copy_from_asm ::
    "copy_labels \<Rightarrow> u32 \<Rightarrow> registers \<Rightarrow> u64 \<Rightarrow> nat \<Rightarrow> 'a sched_state_scheme \<Rightarrow>
     ('a sched_state_scheme \<times> u8 list \<times> int) option" where
  "uaccess_copy_from_asm L c r a 0 s = Some (s, [], 0)"
| "uaccess_copy_from_asm L c r a (Suc n) s = do {
     (s, v) \<leftarrow> user_load L c r a s;
     case v of
       None \<Rightarrow> Some (s, [], -1)
     | Some v \<Rightarrow> do {
         (s, vs, res) \<leftarrow> uaccess_copy_from_asm L c r (a + 1) n s;
         Some (s, v # vs, res)
       }
   }"

definition copy_from_user ::
    "copy_labels \<Rightarrow> u32 \<Rightarrow> registers \<Rightarrow> u64 \<Rightarrow> u64 \<Rightarrow> 'a sched_state_scheme \<Rightarrow>
     ('a sched_state_scheme \<times> u8 list \<times> int) option" where
  "copy_from_user L c r src len s =
     (if \<not> user_access_ok c src len False s then Some (s, [], -1)
      else if len \<noteq> 0 then uaccess_copy_from_asm L c r src (unat len) s
      else Some (s, [], 0))"

definition copy_to_user ::
    "copy_labels \<Rightarrow> u32 \<Rightarrow> registers \<Rightarrow> u64 \<Rightarrow> u8 list \<Rightarrow> 'a sched_state_scheme \<Rightarrow> ('a sched_state_scheme \<times> int) option" where
  "copy_to_user L c r dst bytes s =
     (if \<not> user_access_ok c dst (of_nat (length bytes)) True s then Some (s, -1)
      else if bytes \<noteq> [] then uaccess_copy_to_asm L c r dst bytes s
      else Some (s, 0))"

text \<open>The string loop; \<open>n\<close> bytes may still be read. The bytes read come with the result.\<close>

primrec copy_string_from ::
    "copy_labels \<Rightarrow> u32 \<Rightarrow> registers \<Rightarrow> u64 \<Rightarrow> nat \<Rightarrow> nat \<Rightarrow> 'a sched_state_scheme \<Rightarrow>
     ('a sched_state_scheme \<times> u8 list \<times> int) option" where
  "copy_string_from L c r addr i 0 s = Some (s, [], -1)"
| "copy_string_from L c r addr i (Suc n) s =
     (let a = addr + of_nat i
      in if (i = 0 \<or> a AND (PAGE_BYTES - 1) = 0) \<and> \<not> user_access_ok c a 1 False s then Some (s, [], -1)
         else do {
           (s, v, res) \<leftarrow> uaccess_copy_from_asm L c r a 1 s;
           if res \<noteq> 0 then Some (s, [], -1)
           else if v ! 0 = 0 then Some (s, v, int i)
           else do {
             (s, vs, res) \<leftarrow> copy_string_from L c r addr (Suc i) n s;
             Some (s, v @ vs, res)
           }
         })"

definition copy_user_string ::
    "copy_labels \<Rightarrow> u32 \<Rightarrow> registers \<Rightarrow> u64 \<Rightarrow> u64 \<Rightarrow> 'a sched_state_scheme \<Rightarrow>
     ('a sched_state_scheme \<times> u8 list \<times> int) option" where
  "copy_user_string L c r src capacity s =
     (if capacity = 0 \<or> capacity > USER_STRING_MAX \<or> \<not> is_user_range src 1 then Some (s, [], -1)
      else copy_string_from L c r src 0 (unat capacity) s)"

end
