(* ===== verification/ElfValidate.thy ===== *)
theory ElfValidate
  imports ByteMem
begin

text \<open>
  The ELF validator, \<^verbatim>\<open>fs/elf_validate.c\<close>: the check that every program image passes before a byte of
  it is loaded. The image is a range of kernel memory; its headers are read byte by byte, as the code
  copies them into aligned locals. The last section states the accepted images declaratively, on
  naturals, and proves that the code accepts exactly those.
\<close>

section \<open>Data\<close>

definition ld16 :: "bmem \<Rightarrow> u64 \<Rightarrow> u16" where
  "ld16 m a = ucast (m a) OR push_bit 8 (ucast (m (a + 1)))"

definition ld32 :: "bmem \<Rightarrow> u64 \<Rightarrow> u32" where
  "ld32 m a = ucast (m a) OR push_bit 8 (ucast (m (a + 1))) OR push_bit 16 (ucast (m (a + 2))) OR
     push_bit 24 (ucast (m (a + 3)))"

record elf_header =
  h_magic :: u32
  h_elf :: "u8 list"
  h_type :: u16
  h_machine :: u16
  h_version :: u32
  h_entry :: u64
  h_phoff :: u64
  h_shoff :: u64
  h_flags :: u32
  h_ehsize :: u16
  h_phentsize :: u16
  h_phnum :: u16
  h_shentsize :: u16
  h_shnum :: u16
  h_shstrndx :: u16

record elf_phdr =
  p_type :: u32
  p_flags :: u32
  p_offset :: u64
  p_vaddr :: u64
  p_paddr :: u64
  p_filesz :: u64
  p_memsz :: u64
  p_align :: u64

record elf_image_info =
  img_header :: elf_header
  img_pages :: u32

text \<open>The layouts that the code's \<^verbatim>\<open>memcpy\<close> into the packed structures relies on.\<close>

definition read_header :: "bmem \<Rightarrow> u64 \<Rightarrow> elf_header" where
  "read_header m a = \<lparr>h_magic = ld32 m a, h_elf = map (\<lambda>i. m (a + 4 + of_nat i)) [0..<12],
     h_type = ld16 m (a + 16), h_machine = ld16 m (a + 18), h_version = ld32 m (a + 20),
     h_entry = ld64 m (a + 24), h_phoff = ld64 m (a + 32), h_shoff = ld64 m (a + 40),
     h_flags = ld32 m (a + 48), h_ehsize = ld16 m (a + 52), h_phentsize = ld16 m (a + 54),
     h_phnum = ld16 m (a + 56), h_shentsize = ld16 m (a + 58), h_shnum = ld16 m (a + 60),
     h_shstrndx = ld16 m (a + 62)\<rparr>"

definition read_phdr :: "bmem \<Rightarrow> u64 \<Rightarrow> elf_phdr" where
  "read_phdr m a = \<lparr>p_type = ld32 m a, p_flags = ld32 m (a + 4), p_offset = ld64 m (a + 8),
     p_vaddr = ld64 m (a + 16), p_paddr = ld64 m (a + 24), p_filesz = ld64 m (a + 32),
     p_memsz = ld64 m (a + 40), p_align = ld64 m (a + 48)\<rparr>"

abbreviation ELF_MAGIC :: u32 where "ELF_MAGIC \<equiv> 0x464C457F"
abbreviation ELF_PT_LOAD :: u32 where "ELF_PT_LOAD \<equiv> 1"
abbreviation ELF_PF_X :: u32 where "ELF_PF_X \<equiv> 1"
abbreviation ELF_PF_W :: u32 where "ELF_PF_W \<equiv> 2"
abbreviation ELF_PF_R :: u32 where "ELF_PF_R \<equiv> 4"
abbreviation ELF_MAX_PROGRAM_HEADERS :: u16 where "ELF_MAX_PROGRAM_HEADERS \<equiv> 128"
abbreviation ELF_PAGE_SIZE :: u64 where "ELF_PAGE_SIZE \<equiv> 4096"
abbreviation ELF_USER_END :: u64 where "ELF_USER_END \<equiv> 0x800000000000"

section \<open>Validation\<close>

definition file_range :: "u64 \<Rightarrow> u64 \<Rightarrow> u64 \<Rightarrow> bool" where
  "file_range sz offset len \<longleftrightarrow> offset \<le> sz \<and> len \<le> sz - offset"

definition section_table_valid :: "elf_header \<Rightarrow> u64 \<Rightarrow> bool" where
  "section_table_valid h sz =
     (if h_shoff h = 0
      then h_shnum h = 0 \<and> h_shstrndx h = 0 \<and> (h_shentsize h = 0 \<or> h_shentsize h = 64)
      else h_shoff h \<ge> 64 \<and> h_shnum h \<noteq> 0 \<and> h_shnum h < 0xff00 \<and> h_shentsize h = 64 \<and>
           h_shstrndx h < h_shnum h \<and> file_range sz (h_shoff h) (ucast (h_shnum h) * 64))"

text \<open>The header test of \<^verbatim>\<open>elf_validate\<close>, with the sense of its condition turned round.\<close>

definition header_ok :: "elf_header \<Rightarrow> u64 \<Rightarrow> bool" where
  "header_ok h sz \<longleftrightarrow>
     \<not> (h_magic h \<noteq> ELF_MAGIC \<or> h_elf h ! 0 \<noteq> 2 \<or> h_elf h ! 1 \<noteq> 1 \<or> h_elf h ! 2 \<noteq> 1 \<or>
        (h_elf h ! 3 \<noteq> 0 \<and> h_elf h ! 3 \<noteq> 3) \<or> h_elf h ! 4 \<noteq> 0 \<or>
        h_type h \<noteq> 2 \<or> h_machine h \<noteq> 62 \<or> h_version h \<noteq> 1 \<or> h_flags h \<noteq> 0 \<or>
        h_ehsize h \<noteq> 64 \<or> h_phentsize h \<noteq> 56 \<or>
        h_phnum h = 0 \<or> h_phnum h > ELF_MAX_PROGRAM_HEADERS \<or> h_phoff h < 64 \<or>
        \<not> file_range sz (h_phoff h) (ucast (h_phnum h) * 56) \<or>
        \<not> section_table_valid h sz \<or> h_entry h < ELF_PAGE_SIZE \<or> h_entry h \<ge> ELF_USER_END)"

text \<open>The locals of the loop over the program headers.\<close>

record elf_scan =
  sc_pages :: u32
  sc_end :: u64
  sc_entry :: bool

text \<open>The switch over the type of a program header: is the header accepted so far?\<close>

definition type_accepted :: "elf_phdr \<Rightarrow> bool" where
  "type_accepted p =
     (if p_type p \<in> {ELF_PT_LOAD, 4, 6, 0x6474e550, 0x6474e553} then True
      else if p_type p = 0x6474e551 then p_flags p AND ELF_PF_X = 0
      else False)"

text \<open>The tests on a segment that is to be loaded.\<close>

definition load_accepted :: "elf_phdr \<Rightarrow> bool" where
  "load_accepted p \<longleftrightarrow>
     \<not> (p_flags p AND ELF_PF_R = 0 \<or> p_vaddr p < ELF_PAGE_SIZE \<or> p_vaddr p \<ge> ELF_USER_END \<or>
        p_memsz p > ELF_USER_END - p_vaddr p \<or>
        p_vaddr p AND (ELF_PAGE_SIZE - 1) \<noteq> p_offset p AND (ELF_PAGE_SIZE - 1) \<or>
        (p_align p > 1 \<and> (p_align p AND (p_align p - 1) \<noteq> 0 \<or>
           p_vaddr p AND (p_align p - 1) \<noteq> p_offset p AND (p_align p - 1))))"

definition page_first :: "elf_phdr \<Rightarrow> u64" where
  "page_first p = p_vaddr p AND NOT (ELF_PAGE_SIZE - 1)"

definition page_end :: "elf_phdr \<Rightarrow> u64" where
  "page_end p = (p_vaddr p + p_memsz p + ELF_PAGE_SIZE - 1) AND NOT (ELF_PAGE_SIZE - 1)"

text \<open>One turn of the loop; \<^const>\<open>None\<close> is \<^verbatim>\<open>return 0\<close>.\<close>

definition scan_phdr :: "u64 \<Rightarrow> u32 \<Rightarrow> u64 \<Rightarrow> elf_phdr \<Rightarrow> elf_scan \<Rightarrow> elf_scan option" where
  "scan_phdr sz max_pages entry p sc =
     (if p_type p = 0 then Some sc
      else if \<not> type_accepted p then None
      else if \<not> file_range sz (p_offset p) (p_filesz p) then None
      else if p_type p \<noteq> ELF_PT_LOAD then Some sc
      else if p_filesz p > p_memsz p \<or> p_flags p AND NOT 7 \<noteq> 0 \<or>
              p_flags p AND (ELF_PF_W OR ELF_PF_X) = ELF_PF_W OR ELF_PF_X then None
      else if p_memsz p = 0 then Some sc
      else if \<not> load_accepted p then None
      else if page_first p < sc_end sc then None
      else let sc = sc\<lparr>sc_end := page_end p\<rparr>;
               count = (page_end p - page_first p) div ELF_PAGE_SIZE
           in if count > ucast (max_pages - sc_pages sc) then None
              else let sc = sc\<lparr>sc_pages := sc_pages sc + ucast count\<rparr>
                   in Some (if p_flags p AND ELF_PF_X \<noteq> 0 \<and> entry \<ge> p_vaddr p \<and>
                               entry - p_vaddr p < p_filesz p
                            then sc\<lparr>sc_entry := True\<rparr> else sc))"

primrec scan_phdrs :: "u64 \<Rightarrow> u32 \<Rightarrow> u64 \<Rightarrow> elf_phdr list \<Rightarrow> elf_scan \<Rightarrow> elf_scan option" where
  "scan_phdrs sz max_pages entry [] sc = Some sc"
| "scan_phdrs sz max_pages entry (p # ps) sc =
     (case scan_phdr sz max_pages entry p sc of
        None \<Rightarrow> None
      | Some sc \<Rightarrow> scan_phdrs sz max_pages entry ps sc)"

definition phdr_table :: "bmem \<Rightarrow> u64 \<Rightarrow> elf_header \<Rightarrow> elf_phdr list" where
  "phdr_table m binary h =
     map (\<lambda>i. read_phdr m (binary + h_phoff h + of_nat i * 56)) [0..<unat (h_phnum h)]"

definition elf_validate :: "bmem \<Rightarrow> u64 \<Rightarrow> u64 \<Rightarrow> u32 \<Rightarrow> elf_image_info option" where
  "elf_validate m binary sz max_pages =
     (if binary = 0 \<or> sz < 64 \<or> sz > UINT64_MAX - binary then None
      else let h = read_header m binary
           in if \<not> header_ok h sz then None
              else case scan_phdrs sz max_pages (h_entry h) (phdr_table m binary h)
                          \<lparr>sc_pages = 0, sc_end = 0, sc_entry = False\<rparr> of
                     None \<Rightarrow> None
                   | Some sc \<Rightarrow>
                       if \<not> sc_entry sc then None
                       else Some \<lparr>img_header = h, img_pages = sc_pages sc\<rparr>)"

section \<open>What an acceptable image is\<close>

text \<open>
  Stated on naturals, so that no wrap-around can hide in it: each non-empty loadable segment lies in
  the file and in user space, is readable and never both writable and executable, and is congruent to
  its place in the file.
\<close>

abbreviation has_flag :: "elf_phdr \<Rightarrow> u32 \<Rightarrow> bool" where
  "has_flag p f \<equiv> p_flags p AND f \<noteq> 0"

definition loads :: "elf_phdr list \<Rightarrow> elf_phdr list" where
  "loads ps = filter (\<lambda>p. p_type p = ELF_PT_LOAD \<and> p_memsz p \<noteq> 0) ps"

definition first_page :: "elf_phdr \<Rightarrow> nat" where
  "first_page p = unat (p_vaddr p) div 4096"

definition last_page :: "elf_phdr \<Rightarrow> nat" where
  "last_page p = (unat (p_vaddr p) + unat (p_memsz p) + 4095) div 4096"

definition in_file :: "nat \<Rightarrow> elf_phdr \<Rightarrow> bool" where
  "in_file n p \<longleftrightarrow> unat (p_offset p) + unat (p_filesz p) \<le> n"

definition segment_ok :: "elf_phdr \<Rightarrow> bool" where
  "segment_ok p \<longleftrightarrow>
     has_flag p ELF_PF_R \<and> 4096 \<le> unat (p_vaddr p) \<and> unat (p_vaddr p) < 2 ^ 47 \<and>
     unat (p_vaddr p) + unat (p_memsz p) \<le> 2 ^ 47 \<and>
     unat (p_vaddr p) mod 4096 = unat (p_offset p) mod 4096 \<and>
     (1 < p_align p \<longrightarrow> p_align p AND (p_align p - 1) = 0 \<and>
        p_vaddr p AND (p_align p - 1) = p_offset p AND (p_align p - 1))"

definition phdr_ok :: "nat \<Rightarrow> elf_phdr \<Rightarrow> bool" where
  "phdr_ok n p \<longleftrightarrow> p_type p = 0 \<or>
     type_accepted p \<and> in_file n p \<and>
     (p_type p = ELF_PT_LOAD \<longrightarrow>
        p_filesz p \<le> p_memsz p \<and> p_flags p AND NOT 7 = 0 \<and>
        \<not> (has_flag p ELF_PF_W \<and> has_flag p ELF_PF_X) \<and> (p_memsz p \<noteq> 0 \<longrightarrow> segment_ok p))"

definition holds_entry :: "u64 \<Rightarrow> elf_phdr \<Rightarrow> bool" where
  "holds_entry e p \<longleftrightarrow> has_flag p ELF_PF_X \<and>
     unat (p_vaddr p) \<le> unat e \<and> unat e < unat (p_vaddr p) + unat (p_filesz p)"

definition pages_of :: "elf_phdr \<Rightarrow> nat" where
  "pages_of p = last_page p - first_page p"

text \<open>Segments come in the order of their addresses and share no page.\<close>

definition image_ok :: "nat \<Rightarrow> nat \<Rightarrow> u64 \<Rightarrow> elf_phdr list \<Rightarrow> bool" where
  "image_ok n pages e ps \<longleftrightarrow>
     (\<forall>p \<in> set ps. phdr_ok n p) \<and>
     sorted_wrt (\<lambda>p q. last_page p \<le> first_page q) (loads ps) \<and>
     sum_list (map pages_of (loads ps)) \<le> pages \<and>
     (\<exists>p \<in> set (loads ps). holds_entry e p)"

section \<open>The code accepts exactly the acceptable images\<close>

lemma file_range_iff: "file_range sz a n \<longleftrightarrow> unat a + unat n \<le> unat sz"
proof (cases "a \<le> sz")
  case True
  then have "unat (sz - a) = unat sz - unat a" and "unat a \<le> unat sz"
    by (simp_all add: unat_sub word_le_nat_alt)
  then show ?thesis using True by (auto simp: file_range_def word_le_nat_alt)
next
  case False
  then show ?thesis by (auto simp: file_range_def word_le_nat_alt)
qed

lemma page_first_nat: "unat (page_first p) = first_page p * 4096"
  by (simp add: page_first_def first_page_def unat_page_floor_minus)

lemma load_accepted_iff: "load_accepted p \<longleftrightarrow> segment_ok p"
proof (cases "p_vaddr p < ELF_USER_END")
  case True
  then have v: "unat (p_vaddr p) < 2 ^ 47" by (simp add: word_less_nat_alt)
  have "unat (ELF_USER_END - p_vaddr p) = 2 ^ 47 - unat (p_vaddr p)"
    using True by (subst unat_sub) auto
  then have "p_memsz p > ELF_USER_END - p_vaddr p \<longleftrightarrow> 2 ^ 47 < unat (p_vaddr p) + unat (p_memsz p)"
    using v by (auto simp: word_less_nat_alt)
  moreover have "p_vaddr p < ELF_PAGE_SIZE \<longleftrightarrow> unat (p_vaddr p) < 4096"
    by (simp add: word_less_nat_alt)
  moreover have "p_vaddr p AND (ELF_PAGE_SIZE - 1) = p_offset p AND (ELF_PAGE_SIZE - 1) \<longleftrightarrow>
      unat (p_vaddr p) mod 4096 = unat (p_offset p) mod 4096"
    by (simp add: word_unat_eq_iff word_page_and)
  ultimately show ?thesis using True v by (auto simp: load_accepted_def segment_ok_def)
next
  case False
  then have "\<not> unat (p_vaddr p) < 2 ^ 47" by (simp add: word_less_nat_alt)
  then have "\<not> segment_ok p" by (simp add: segment_ok_def)
  moreover have "p_vaddr p \<ge> ELF_USER_END" using False by simp
  then have "\<not> load_accepted p" unfolding load_accepted_def by blast
  ultimately show ?thesis by simp
qed

lemma page_end_nat:
  assumes "segment_ok p"
  shows "unat (page_end p) = last_page p * 4096"
proof -
  have lim: "unat (p_vaddr p) + unat (p_memsz p) \<le> 2 ^ 47" using assms by (simp add: segment_ok_def)
  have a: "unat (p_vaddr p + p_memsz p) = unat (p_vaddr p) + unat (p_memsz p)"
    using lim unat_add_small [of "p_vaddr p" "unat (p_memsz p)"] by simp
  have "unat (p_vaddr p + p_memsz p + of_nat 4095) = unat (p_vaddr p + p_memsz p) + 4095"
    using lim a by (intro unat_add_small) simp
  then have "unat (p_vaddr p + p_memsz p + 4096 - 1) = unat (p_vaddr p) + unat (p_memsz p) + 4095"
    using a by (simp add: algebra_simps)
  then show ?thesis by (simp add: page_end_def last_page_def unat_page_floor_minus)
qed

lemma first_le_last: "p_memsz p \<noteq> 0 \<Longrightarrow> first_page p < last_page p"
proof -
  assume "p_memsz p \<noteq> 0"
  then have "0 < unat (p_memsz p)" by (simp add: unat_gt_0)
  then have "unat (p_vaddr p) + 4096 \<le> unat (p_vaddr p) + unat (p_memsz p) + 4095" by simp
  then have "(unat (p_vaddr p) + 4096) div 4096 \<le> last_page p"
    unfolding last_page_def by (rule div_le_mono)
  then show ?thesis by (simp add: first_page_def)
qed

lemma count_nat:
  assumes "segment_ok p" and "p_memsz p \<noteq> 0"
  shows "unat ((page_end p - page_first p) div ELF_PAGE_SIZE) = pages_of p"
proof -
  have "page_first p \<le> page_end p"
    using first_le_last [OF assms(2)] page_end_nat [OF assms(1)]
    by (simp add: word_le_nat_alt page_first_nat)
  then have "unat (page_end p - page_first p) = pages_of p * 4096"
    by (simp add: unat_sub page_first_nat page_end_nat [OF assms(1)] pages_of_def diff_mult_distrib)
  then show ?thesis by (simp add: unat_div)
qed

lemma holds_entry_iff:
  "has_flag p ELF_PF_X \<and> e \<ge> p_vaddr p \<and> e - p_vaddr p < p_filesz p \<longleftrightarrow> holds_entry e p"
proof (cases "p_vaddr p \<le> e")
  case True
  then show ?thesis by (auto simp: holds_entry_def word_le_nat_alt word_less_nat_alt unat_sub)
next
  case False
  then show ?thesis by (simp add: holds_entry_def word_le_nat_alt)
qed

lemma flag_bits: "(f :: u32) AND 3 = 3 \<longleftrightarrow> f AND 2 \<noteq> 0 \<and> f AND 1 \<noteq> 0"
proof -
  have three: "(3 :: u32) = mask 2" by (simp add: mask_eq_exp_minus_1)
  have "f AND 2 = 0 \<longleftrightarrow> \<not> bit f 1" "f AND 1 = 0 \<longleftrightarrow> \<not> bit f 0"
    using and_exp_eq_0_iff_not_bit [of f 1] and_exp_eq_0_iff_not_bit [of f 0] by simp_all
  moreover have "f AND mask 2 = mask 2 \<longleftrightarrow> bit f 0 \<and> bit f 1"
    by (auto simp: bit_eq_iff [where 'a = "32 word"] bit_simps numeral_2_eq_2 less_Suc_eq)
  ultimately show ?thesis unfolding three by blast
qed

definition scanned :: "u64 \<Rightarrow> elf_phdr list \<Rightarrow> elf_scan \<Rightarrow> elf_scan" where
  "scanned e ps sc =
     \<lparr>sc_pages = sc_pages sc + of_nat (sum_list (map pages_of (loads ps))),
      sc_end = (if loads ps = [] then sc_end sc else page_end (last (loads ps))),
      sc_entry = (sc_entry sc \<or> (\<exists>p \<in> set (loads ps). holds_entry e p))\<rparr>"

lemma scan_phdr_cases:
  assumes le: "sc_pages sc \<le> max_pages"
  shows "scan_phdr sz max_pages e p sc =
    (if \<not> phdr_ok (unat sz) p then None
     else if loads [p] = [] then Some sc
     else if first_page p * 4096 < unat (sc_end sc) then None
     else if unat (sc_pages sc) + pages_of p > unat max_pages then None
     else Some (scanned e [p] sc))"
proof (cases "phdr_ok (unat sz) p \<and> loads [p] \<noteq> []")
  case False
  then show ?thesis
    by (auto simp: scan_phdr_def phdr_ok_def in_file_def file_range_iff loads_def load_accepted_iff
        flag_bits not_less)
next
  case True
  then have p: "p_type p = ELF_PT_LOAD" "p_memsz p \<noteq> 0" "segment_ok p" "p_filesz p \<le> p_memsz p"
    "p_flags p AND NOT 7 = 0" "\<not> (has_flag p ELF_PF_W \<and> has_flag p ELF_PF_X)" "in_file (unat sz) p"
    by (auto simp: phdr_ok_def loads_def split: if_splits)
  let ?c = "(page_end p - page_first p) div ELF_PAGE_SIZE"
  have cnt: "unat ?c = pages_of p" by (rule count_nat [OF p(3,2)])
  have "unat (max_pages - sc_pages sc) = unat max_pages - unat (sc_pages sc)" "unat (sc_pages sc) \<le> unat max_pages"
    using le by (simp_all add: unat_sub word_le_nat_alt)
  then have big: "?c > ucast (max_pages - sc_pages sc) \<longleftrightarrow> unat max_pages < unat (sc_pages sc) + pages_of p"
    by (auto simp: word_less_nat_alt cnt)
  have conv: "ucast ?c = (of_nat (pages_of p) :: u32)"
    unfolding cnt [symmetric] by simp
  have "scan_phdr sz max_pages e p sc =
    (if page_first p < sc_end sc then None
     else if ?c > ucast (max_pages - sc_pages sc) then None
     else Some (scanned e [p] sc))"
    using p by (cases sc) (auto simp: scan_phdr_def Let_def type_accepted_def file_range_iff in_file_def
        load_accepted_iff flag_bits scanned_def loads_def conv holds_entry_iff [symmetric] not_less)
  then show ?thesis using True unfolding big by (simp add: word_less_nat_alt page_first_nat)
qed

lemma loads_Nil [simp]: "loads [] = []"
  by (simp add: loads_def)

lemma loads_Cons: "loads (p # ps) = loads [p] @ loads ps"
  by (simp add: loads_def)

lemma loads_single: "loads [p] = [] \<or> loads [p] = [p]"
  by (simp add: loads_def)

lemma loads_memsz: "p \<in> set (loads ps) \<Longrightarrow> p_memsz p \<noteq> 0"
  by (simp add: loads_def)

lemma scan_phdrs_iff:
  "sc_pages sc \<le> max_pages \<Longrightarrow>
   scan_phdrs sz max_pages e ps sc =
    (if (\<forall>p \<in> set ps. phdr_ok (unat sz) p) \<and>
        sorted_wrt (\<lambda>p q. last_page p \<le> first_page q) (loads ps) \<and>
        (\<forall>p \<in> set (loads ps). unat (sc_end sc) \<le> first_page p * 4096) \<and>
        unat (sc_pages sc) + sum_list (map pages_of (loads ps)) \<le> unat max_pages
     then Some (scanned e ps sc) else None)"
proof (induction ps arbitrary: sc)
  case Nil
  then show ?case by (simp add: scanned_def loads_def word_le_nat_alt)
next
  case (Cons p ps)
  note step = scan_phdr_cases [OF Cons.prems, of sz e p]
  have lc: "loads (p # ps) = loads [p] @ loads ps" by (rule loads_Cons)
  show ?case
  proof (cases "loads [p] = []")
    case True
    have "scanned e (p # ps) sc = scanned e ps sc" using True by (simp add: scanned_def lc)
    then show ?thesis using Cons.IH [OF Cons.prems] True by (simp add: step lc)
  next
    case False
    then have l: "loads [p] = [p]" using loads_single [of p] by blast
    let ?sc = "scanned e [p] sc"
    show ?thesis
    proof (cases "phdr_ok (unat sz) p \<and> unat (sc_end sc) \<le> first_page p * 4096 \<and>
        unat (sc_pages sc) + pages_of p \<le> unat max_pages")
      case False
      then show ?thesis using l by (auto simp: step lc)
    next
      case True
      then have seg: "segment_ok p" using l by (auto simp: phdr_ok_def loads_def split: if_splits)
      have mem: "p_memsz p \<noteq> 0" using loads_memsz [of p "[p]"] l by simp
      have end_: "unat (sc_end ?sc) = last_page p * 4096" by (simp add: scanned_def l page_end_nat [OF seg])
      have "unat (sc_pages sc) + pages_of p < 2 ^ 32" using True unat32_less [of max_pages] by linarith
      then have pg: "unat (sc_pages ?sc) = unat (sc_pages sc) + pages_of p"
        by (simp add: scanned_def l unat_word_ariths unat_of_nat)
      then have le: "sc_pages ?sc \<le> max_pages" using True by (simp add: word_le_nat_alt)
      have "scan_phdr sz max_pages e p sc = Some ?sc" using True l by (simp add: step)
      moreover have "scanned e ps ?sc = scanned e (p # ps) sc"
        by (auto simp: scanned_def l lc)
      moreover have "unat (sc_end sc) \<le> first_page q * 4096" if "last_page p \<le> first_page q" for q
        using that first_le_last [OF mem] True by (meson le_trans less_imp_le mult_le_mono1)
      ultimately show ?thesis using Cons.IH [OF le] True l by (auto simp: end_ pg lc)
    qed
  qed
qed

section \<open>Properties\<close>


text \<open>The smallest image: one readable and executable page whose only byte is the entry point.\<close>

definition tiny_elf :: "u8 list" where
  "tiny_elf = [0x7F, 0x45, 0x4C, 0x46, 2, 1, 1, 0, 0, 0, 0, 0, 0, 0, 0, 0, 2, 0, 62, 0, 1, 0, 0, 0,
     0x78, 0x10, 0, 0, 0, 0, 0, 0, 64, 0, 0, 0, 0, 0, 0, 0, 0, 0, 0, 0, 0, 0, 0, 0, 0, 0, 0, 0,
     64, 0, 56, 0, 1, 0, 0, 0, 0, 0, 0, 0,
     1, 0, 0, 0, 5, 0, 0, 0, 0x78, 0, 0, 0, 0, 0, 0, 0, 0x78, 0x10, 0, 0, 0, 0, 0, 0,
     0, 0, 0, 0, 0, 0, 0, 0, 1, 0, 0, 0, 0, 0, 0, 0, 1, 0, 0, 0, 0, 0, 0, 0, 0, 0x10, 0, 0, 0, 0, 0, 0,
     0xC3]"

lemma tiny_elf_accepted:
  "elf_validate (\<lambda>a. tiny_elf ! unat (a - 0x1000)) 0x1000 121 1 =
     Some \<lparr>img_header = \<lparr>h_magic = ELF_MAGIC, h_elf = [2, 1, 1, 0, 0, 0, 0, 0, 0, 0, 0, 0], h_type = 2,
       h_machine = 62, h_version = 1, h_entry = 0x1078, h_phoff = 64, h_shoff = 0, h_flags = 0,
       h_ehsize = 64, h_phentsize = 56, h_phnum = 1, h_shentsize = 0, h_shnum = 0, h_shstrndx = 0\<rparr>,
       img_pages = 1\<rparr>"
  by code_simp

end
