(* ===== verification/ElfLoad.thy ===== *)
theory ElfLoad
  imports ElfValidate VmmSpace
begin

text \<open>
  The program loader, \<^verbatim>\<open>fs/elf.c\<close>: every page of every loadable segment gets a frame, which is
  cleared, filled from the image and mapped. The two tracking arrays are lists, \<^verbatim>\<open>*page_count\<close> their
  length; \<^const>\<open>None\<close> stands for null pointers.
\<close>

type_synonym 'a load_state = "'a machine_scheme \<times> u64 list \<times> u64 list"

definition segment_flags :: "elf_phdr \<Rightarrow> u64" where
  "segment_flags p =
     (let flags = PTE_PRESENT OR PTE_USER;
          flags = (if p_flags p AND ELF_PF_W \<noteq> 0 then flags OR PTE_WRITE else flags)
      in if p_flags p AND ELF_PF_X = 0 then flags OR PTE_NX else flags)"

definition fill_page :: "u64 \<Rightarrow> elf_phdr \<Rightarrow> u64 \<Rightarrow> u64 \<Rightarrow> bmem \<Rightarrow> bmem" where
  "fill_page data p page_va phys_virt m =
     (let m = memset m phys_virt 0 4096;
          copy_start = (if page_va < p_vaddr p then p_vaddr p else page_va);
          copy_end = page_va + 4096;
          copy_end = (if copy_end > p_vaddr p + p_filesz p then p_vaddr p + p_filesz p else copy_end)
      in if copy_end > copy_start
         then memcpy m (phys_virt + (copy_start - page_va)) (data + p_offset p + (copy_start - p_vaddr p))
                (unat (copy_end - copy_start))
         else m)"

definition load_page ::
    "u64 \<Rightarrow> u64 \<Rightarrow> elf_phdr \<Rightarrow> u64 \<Rightarrow> 'a load_state \<Rightarrow> 'a load_state \<times> bool" where
  "load_page data pml4 p page_va = (\<lambda>(s, ps, vs).
     case pmm_alloc_page s of
       (s, phys) \<Rightarrow>
         if phys = 0 then ((s, ps, vs), False)
         else let s = s\<lparr>mem := fill_page data p page_va (phys + hhdm_offset s) (mem s)\<rparr>
              in case vmm_map_page_in pml4 page_va phys (segment_flags p) s of
                   (s, ok) \<Rightarrow> ((s, ps @ [phys], vs @ [page_va]), ok))"

text \<open>
  The pages of a segment. A validated segment ends below the top of user space, so the loop's address
  does not wrap.
\<close>

definition segment_pages :: "elf_phdr \<Rightarrow> u64 list" where
  "segment_pages p =
     (if p_memsz p = 0 then []
      else map (page_at (page_first p))
             [0 ..< (unat (p_vaddr p + p_memsz p - page_first p) + 4095) div 4096])"

definition load_segment ::
    "u64 \<Rightarrow> u64 \<Rightarrow> elf_header \<Rightarrow> nat \<Rightarrow> 'a load_state \<Rightarrow> 'a load_state \<times> bool" where
  "load_segment data pml4 h i c =
     (let p = read_phdr (mem (fst c)) (data + h_phoff h + of_nat i * 56)
      in if p_type p = ELF_PT_LOAD then each (load_page data pml4 p) (segment_pages p) c else (c, True))"

definition elf_load ::
    "u64 \<Rightarrow> u64 \<Rightarrow> u64 \<Rightarrow> (u64 list \<times> u64 list) option \<Rightarrow> u32 \<Rightarrow> 'a machine_scheme \<Rightarrow>
     'a machine_scheme \<times> (u64 list \<times> u64 list) option \<times> u64" where
  "elf_load data sz pml4 arrays capacity s =
     (case arrays of
        None \<Rightarrow> (s, None, 0)
      | Some (ps, vs) \<Rightarrow>
          let count = of_nat (length ps) :: u32
          in if pml4 = 0 \<or> count > capacity then (s, Some (ps, vs), 0)
             else case elf_validate (mem s) data sz (capacity - count) of
                    None \<Rightarrow> (s, Some (ps, vs), 0)
                  | Some img \<Rightarrow>
                      (case each (load_segment data pml4 (img_header img))
                              [0 ..< unat (h_phnum (img_header img))] (s, ps, vs) of
                         ((s, ps, vs), ok) \<Rightarrow>
                           (s, Some (ps, vs), if ok then h_entry (img_header img) else 0)))"

end
