(* ===== verification/TaskLife.thy ===== *)
theory TaskLife
  imports Cow ElfLoad
begin

text \<open>
  The life of a task, \<^verbatim>\<open>kernel/task.c\<close>: allocation of the record and the kernel stack, kernel tasks,
  programs, forks and threads, and their removal by the reaper. \<open>c\<close> is the running CPU, \<open>now\<close> the timer's
  tick count; addresses of functions and of static objects are arguments. Messages and the reschedule
  interrupt are left out. \<open>None\<close> is a halt of the boot or a failure of the heap.
\<close>

abbreviation TASK_BYTES :: u64 where "TASK_BYTES \<equiv> 3936"
abbreviation USER_STACK_BASE :: u64 where "USER_STACK_BASE \<equiv> 0x80001000"
abbreviation USER_STACK_PAGES :: u32 where "USER_STACK_PAGES \<equiv> 4"

section \<open>Records and stacks\<close>

definition zero_registers :: registers where
  "zero_registers = \<lparr>r15 = 0, r14 = 0, r13 = 0, r12 = 0, r11 = 0, r10 = 0, r9 = 0, r8 = 0, rdi = 0,
     rsi = 0, rbp = 0, rbx = 0, rdx = 0, rcx = 0, rax = 0, vector = 0, err_code = 0, rip = 0, cs = 0,
     rflags = 0, rsp = 0, ss = 0\<rparr>"

definition zero_fd :: vfs_fd where
  "zero_fd = \<lparr>fd_type = VFS_TYPE_NONE, fd_name = replicate 100 0, fd_data = 0, fd_size = 0, fd_offset = 0,
     fd_writable = False, fd_tmpfs_idx = 0\<rparr>"

definition zero_attachment :: shm_attach_record where
  "zero_attachment = \<lparr>at_shmid = 0, at_vaddr = 0, at_page_count = 0\<rparr>"

text \<open>The record after \<^verbatim>\<open>memset(t, 0, sizeof(*t))\<close>.\<close>

definition zero_task :: task where
  "zero_task = \<lparr>pid = 0, cpu_id = 0, ready_since = 0, tgid = 0, tstate = TASK_RUNNING,
     regs = zero_registers, fpu = replicate 512 0, stack_base = 0, sleep_until = 0, wait_target_pid = 0,
     t_pml4 = 0, kernel_stack = 0, kernel_stack_phys = 0, kernel_stack_pages = 0, entry_point = 0,
     allocations = [], is_thread = False, thread_count = 0, priority = 0, base_priority = 0, nice = 0,
     quantum = 0, quantum_max = 0, cpu_ticks = 0, sleep_count = 0, user_pages = [], user_vaddrs = [],
     page_array = 0, user_page_capacity = 0, task_fds = replicate 16 zero_fd,
     shm_attached = replicate 16 zero_attachment, t_uid = 0, t_gid = 0\<rparr>"

text \<open>\<^verbatim>\<open>cpu/fpu.c\<close>: control word \<^verbatim>\<open>0x037f\<close> at offset 0, \<^verbatim>\<open>0x1f80\<close> in MXCSR at offset 24, all else zero.\<close>

definition fpu_state_init :: "u8 list" where
  "fpu_state_init = (replicate 512 0)[0 := 0x7f, 1 := 0x03, 24 := 0x80, 25 := 0x1f]"

definition new_task :: "u32 \<Rightarrow> u64 \<Rightarrow> u32 \<Rightarrow> u32 \<Rightarrow> task" where
  "new_task c now u g =
     (let t = zero_task\<lparr>fpu := fpu_state_init\<rparr>;
          t = user_memory_init t;
          t = t\<lparr>tstate := TASK_READY, cpu_id := c, ready_since := now, thread_count := 1, t_uid := u, t_gid := g\<rparr>;
          t = task_init_priority PRIO_NORMAL t
      in t\<lparr>task_fds := map (\<lambda>f. f\<lparr>fd_tmpfs_idx := -1\<rparr>) (task_fds t),
           shm_attached := map (\<lambda>a. a\<lparr>at_shmid := -1\<rparr>) (shm_attached t)\<rparr>)"

definition put_task :: "u64 \<Rightarrow> task \<Rightarrow> 'a sched_state_scheme \<Rightarrow> 'a sched_state_scheme" where
  "put_task t x s = s\<lparr>tasks := (tasks s)(t := x)\<rparr>"

definition task_alloc ::
    "u32 \<Rightarrow> u64 \<Rightarrow> 'a sched_state_scheme \<Rightarrow> ('a sched_state_scheme \<times> u64) option" where
  "task_alloc c now s = do {
     (s, t) \<leftarrow> kmalloc TASK_BYTES s;
     let cur = current_task c s;
     if t = 0 then Some (s, 0)
     else Some (put_task t (new_task c now (if cur \<noteq> 0 then t_uid (tasks s cur) else 0)
                              (if cur \<noteq> 0 then t_gid (tasks s cur) else 0)) s, t)
   }"

definition task_alloc_stack :: "u64 \<Rightarrow> 'a sched_state_scheme \<Rightarrow> 'a sched_state_scheme \<times> bool" where
  "task_alloc_stack t s =
     (case pmm_alloc_contiguous_pages s (ucast KERNEL_STACK_PAGES) of
        (s, phys) \<Rightarrow>
          let st = resource_stats s
          in if phys = 0
             then (s\<lparr>resource_stats := st\<lparr>stack_alloc_failures := stack_alloc_failures st + 1\<rparr>\<rparr>, False)
             else (upd_task t (\<lambda>x. x\<lparr>kernel_stack_phys := phys, kernel_stack_pages := KERNEL_STACK_PAGES,
                       kernel_stack := phys + hhdm_offset s + ucast KERNEL_STACK_PAGES * 4096\<rparr>)
                     (s\<lparr>resource_stats := st\<lparr>kernel_stack_pages_used := kernel_stack_pages_used st +
                        ucast KERNEL_STACK_PAGES\<rparr>\<rparr>), True))"

definition task_free_stack :: "u64 \<Rightarrow> 'a sched_state_scheme \<Rightarrow> 'a sched_state_scheme" where
  "task_free_stack t s =
     (let x = tasks s t; n = kernel_stack_pages x;
          s = foldl pmm_free_page s (map (page_at (kernel_stack_phys x)) [0 ..< unat n]);
          st = resource_stats s;
          s = s\<lparr>resource_stats := st\<lparr>kernel_stack_pages_used := kernel_stack_pages_used st - ucast n\<rparr>\<rparr>
      in upd_task t (\<lambda>x. x\<lparr>kernel_stack_phys := 0, kernel_stack_pages := 0, kernel_stack := 0\<rparr>) s)"

text \<open>Release of an unpublished task after a failed construction.\<close>

definition task_discard :: "u64 \<Rightarrow> 'a shm_state_scheme \<Rightarrow> 'a shm_state_scheme option" where
  "task_discard t s = do {
     s \<leftarrow> shm_cleanup_process t s;
     s \<leftarrow> user_memory_release t s;
     let s = (if t_pml4 (tasks s t) \<noteq> 0 \<and> \<not> is_thread (tasks s t)
              then vmm_destroy_address_space (t_pml4 (tasks s t)) s else s);
     kfree t (task_free_stack t s)
   }"

definition task_get_resource_stats :: "'a sched_state_scheme \<Rightarrow> task_resource_stats" where
  "task_get_resource_stats s = resource_stats s"

text \<open>The record and the stack, as all constructors begin; \<open>0\<close> when either is missing.\<close>

definition task_with_stack ::
    "u32 \<Rightarrow> u64 \<Rightarrow> 'a sched_state_scheme \<Rightarrow> ('a sched_state_scheme \<times> u64) option" where
  "task_with_stack c now s = do {
     (s, t) \<leftarrow> task_alloc c now s;
     if t = 0 then Some (s, 0)
     else case task_alloc_stack t s of
            (s, False) \<Rightarrow> do { s \<leftarrow> kfree t s; Some (s, 0) }
          | (s, True) \<Rightarrow> Some (s, t)
   }"

section \<open>Kernel tasks\<close>

definition create_task ::
    "u64 \<Rightarrow> u32 \<Rightarrow> u64 \<Rightarrow> u64 \<Rightarrow> 'a sched_state_scheme \<Rightarrow> ('a sched_state_scheme \<times> u64) option" where
  "create_task trampoline c now entry s =
     (if entry = 0 \<or> task_list s = [] then Some (s, 0)
      else do {
        (s, t) \<leftarrow> task_with_stack c now s;
        if t = 0 then Some (s, 0)
        else do {
          let s = upd_task t (\<lambda>x. x\<lparr>entry_point := entry,
                    stack_base := kernel_stack x - ucast KERNEL_STACK_PAGES * 4096,
                    regs := (regs x)\<lparr>rip := trampoline, cs := 0x08, ss := 0x10, rflags := 0x202,
                               rsp := kernel_stack x - 8\<rparr>\<rparr>) s;
          let s = put64 (rsp (regs (tasks s t))) 0 s;
          Some (task_publish t s, t)
        }
      })"

definition create_task_on_cpu ::
    "u64 \<Rightarrow> u32 \<Rightarrow> u64 \<Rightarrow> u64 \<Rightarrow> u32 \<Rightarrow> 'a sched_state_scheme \<Rightarrow> ('a sched_state_scheme \<times> u64) option"
where
  "create_task_on_cpu trampoline c now entry cpu s =
     (if cpu \<ge> cpu_count s \<or> idle_task (percpu_get cpu s) = 0 then Some (s, 0)
      else do {
        (s, t) \<leftarrow> create_task trampoline c now entry s;
        Some (if t \<noteq> 0 then upd_task t (\<lambda>x. x\<lparr>cpu_id := cpu\<rparr>) s else s, t)
      })"

text \<open>
  The idle task of an application processor is the static object at \<open>ap_idle i\<close>; \<open>active i\<close> is whether
  that processor came up.
\<close>

definition init_ap_idle ::
    "(nat \<Rightarrow> u64) \<Rightarrow> (nat \<Rightarrow> bool) \<Rightarrow> nat \<Rightarrow> 'a sched_state_scheme \<Rightarrow> 'a sched_state_scheme" where
  "init_ap_idle ap_idle active i s =
     (if \<not> active i then s
      else let idle = zero_task\<lparr>fpu := fpu_state_init, cpu_id := of_nat i, tstate := TASK_RUNNING,
                        kernel_stack := kernel_stack_top (percpu_get (of_nat i) s)\<rparr>;
               s = put_task (ap_idle i) (task_init_priority PRIO_IDLE idle) s
           in upd_cpu (of_nat i) (\<lambda>p. p\<lparr>current := ap_idle i, idle_task := ap_idle i\<rparr>) s)"

definition task_init ::
    "u64 \<Rightarrow> u64 \<Rightarrow> u64 \<Rightarrow> (nat \<Rightarrow> u64) \<Rightarrow> (nat \<Rightarrow> bool) \<Rightarrow> u64 \<Rightarrow>
     'a sched_state_scheme \<Rightarrow> 'a sched_state_scheme option" where
  "task_init trampoline reaper_main boot_stack_top ap_idle active now s = do {
     (s, t) \<leftarrow> task_alloc 0 now s;
     if t = 0 then None
     else do {
       let s = upd_task t (\<lambda>x. let x = task_init_priority PRIO_IDLE
                 (x\<lparr>tstate := TASK_RUNNING, kernel_stack := boot_stack_top\<rparr>)
               in x\<lparr>regs := (regs x)\<lparr>cs := 0x08, ss := 0x10, rflags := 0x202, rsp := kernel_stack x\<rparr>\<rparr>) s;
       let s = upd_cpu 0 (\<lambda>p. p\<lparr>current := t, idle_task := t\<rparr>) (s\<lparr>task_list := [t]\<rparr>);
       let s = fold (init_ap_idle ap_idle active) [1 ..< unat (cpu_count s)] s;
       (s, r) \<leftarrow> create_task trampoline 0 now reaper_main s;
       let s = s\<lparr>reaper_task := r\<rparr>;
       if r = 0 then None
       else Some (upd_task r (\<lambda>x. (task_init_priority PRIO_HIGH x)\<lparr>tstate := TASK_WAITING\<rparr>) s)
     }
   }"

section \<open>Programs\<close>

text \<open>The pages of the user stack, from the lowest.\<close>

definition stack_page :: "u64 \<Rightarrow> nat \<Rightarrow> 'a sched_state_scheme \<Rightarrow> 'a sched_state_scheme \<times> bool" where
  "stack_page t i s =
     (case pmm_alloc_page s of
        (s, phys) \<Rightarrow>
          if phys = 0 then (s, False)
          else let va = page_at USER_STACK_BASE i;
                   s = record_page t phys va s;
                   s = s\<lparr>mem := memset (mem s) (phys + hhdm_offset s) 0 4096\<rparr>
               in vmm_map_page_in (t_pml4 (tasks s t)) va phys VMM_FLAGS_USER_DATA s)"

text \<open>The image, then the stack with its unmapped pages below and above; the result is the entry.\<close>

definition load_program ::
    "u64 \<Rightarrow> u64 \<Rightarrow> u64 \<Rightarrow> u32 \<Rightarrow> 'a sched_state_scheme \<Rightarrow> ('a sched_state_scheme \<times> u64) option" where
  "load_program t data sz pages s =
     (case vmm_create_address_space s of
        (s, pml4) \<Rightarrow> do {
          let s = upd_task t (\<lambda>x. x\<lparr>t_pml4 := pml4\<rparr>) s;
          if pml4 = 0 then Some (s, 0)
          else do {
            (s, ok) \<leftarrow> user_pages_reserve t (pages + USER_STACK_PAGES) s;
            if \<not> ok then Some (s, 0)
            else do {
              let (s, arrays, entry) =
                elf_load data sz pml4 (Some (user_pages (tasks s t), user_vaddrs (tasks s t)))
                  (user_page_capacity (tasks s t) - USER_STACK_PAGES) s;
              let s = (case arrays of None \<Rightarrow> s
                       | Some (ps, vs) \<Rightarrow> upd_task t (\<lambda>x. x\<lparr>user_pages := ps, user_vaddrs := vs\<rparr>) s);
              let guards = map (page_at (USER_STACK_BASE - 4096)) [0 ..< unat USER_STACK_PAGES + 2];
              if entry = 0 \<or> list_ex (\<lambda>va. vmm_pte_in s pml4 va \<noteq> None) guards then Some (s, 0)
              else case each (stack_page t) [0 ..< unat USER_STACK_PAGES] s of
                     (s, ok) \<Rightarrow> Some (s, if ok then entry else 0)
            }
          }
        })"

definition create_user_task ::
    "u32 \<Rightarrow> u64 \<Rightarrow> u64 \<Rightarrow> u64 \<Rightarrow> 'a shm_state_scheme \<Rightarrow> ('a shm_state_scheme \<times> u64) option" where
  "create_user_task c now data sz s =
     (case elf_validate (mem s) data sz (USER_MAX_PAGES - USER_STACK_PAGES) of
        None \<Rightarrow> Some (s, 0)
      | Some img \<Rightarrow> do {
          (s, t) \<leftarrow> task_with_stack c now s;
          if t = 0 then Some (s, 0)
          else do {
            (s, entry) \<leftarrow> load_program t data sz (img_pages img) s;
            if entry = 0 then do { s \<leftarrow> task_discard t s; Some (s, 0) }
            else do {
              let s = upd_task t (\<lambda>x. x\<lparr>stack_base := USER_STACK_BASE,
                        regs := (regs x)\<lparr>rip := entry, cs := 0x23, ss := 0x1B, rflags := 0x202,
                          rsp := USER_STACK_BASE + ucast USER_STACK_PAGES * 4096 - 16\<rparr>\<rparr>) s;
              let s = (if next_pid s = 2 then upd_task t (task_init_priority PRIO_HIGH) s else s);
              let (s, cpu) = placement_cpu s;
              let s = upd_task t (\<lambda>x. x\<lparr>cpu_id := cpu\<rparr>) s;
              Some (task_publish t s, t)
            }
          }
        })"

section \<open>Forks and threads\<close>

definition fork_child :: "task \<Rightarrow> registers \<Rightarrow> u8 list \<Rightarrow> task \<Rightarrow> task" where
  "fork_child parent frame fx x =
     x\<lparr>regs := frame\<lparr>rax := 0\<rparr>, fpu := fx, tstate := TASK_READY, stack_base := stack_base parent,
       sleep_until := 0, wait_target_pid := 0, task_fds := task_fds parent,
       base_priority := base_priority parent, priority := priority parent, nice := nice parent,
       quantum_max := quantum_max parent, quantum := quantum_max parent, cpu_ticks := 0, sleep_count := 0\<rparr>"

definition task_fork ::
    "u32 \<Rightarrow> u64 \<Rightarrow> registers option \<Rightarrow> 'a shm_state_scheme \<Rightarrow> ('a shm_state_scheme \<times> int) option" where
  "task_fork c now user_frame s =
     (let cur = current_task c s
      in case user_frame of
           None \<Rightarrow> Some (s, -1)
         | Some frame \<Rightarrow>
             if cur = 0 \<or> cs frame \<noteq> 0x23 \<or> ss frame \<noteq> 0x1B \<or> t_pml4 (tasks s cur) = 0 then Some (s, -1)
             else do {
               (s, child) \<leftarrow> task_with_stack c now s;
               if child = 0 then Some (s, -1)
               else do {
                 let (s, pml4) = vmm_create_address_space s;
                 let s = upd_task child (\<lambda>x. x\<lparr>t_pml4 := pml4\<rparr>) s;
                 (s, ok) \<leftarrow> (if pml4 = 0 then Some (s, False) else cow_clone_address_space cur child s);
                 if \<not> ok then do { s \<leftarrow> task_discard child s; Some (s, -1) }
                 else do {
                   let s = upd_task child (fork_child (tasks s cur) frame (live_fpu (percpu_get c s))) s;
                   let (s, cpu) = placement_cpu s;
                   let s = task_publish child (upd_task child (\<lambda>x. x\<lparr>cpu_id := cpu\<rparr>) s);
                   Some (s, sint (pid (tasks s child)))
                 }
               }
             })"

definition clone_thread :: "task \<Rightarrow> u64 \<Rightarrow> u64 \<Rightarrow> u8 list \<Rightarrow> task \<Rightarrow> task" where
  "clone_thread parent entry stack_top fx x =
     x\<lparr>regs := zero_registers\<lparr>rip := entry, cs := 0x23, rflags := 0x202, rsp := stack_top AND NOT 0xF, ss := 0x1B\<rparr>,
       fpu := fx, tgid := tgid parent, is_thread := True, thread_count := 0, tstate := TASK_READY,
       t_pml4 := t_pml4 parent, stack_base := stack_top - 4096, user_pages := [], user_vaddrs := [],
       task_fds := task_fds parent, shm_attached := map (\<lambda>_. no_attachment) (shm_attached x),
       base_priority := base_priority parent, priority := priority parent, nice := nice parent,
       quantum_max := quantum_max parent, quantum := quantum_max parent, cpu_ticks := 0, sleep_count := 0,
       sleep_until := 0, wait_target_pid := 0\<rparr>"

definition task_clone ::
    "u32 \<Rightarrow> u64 \<Rightarrow> u64 \<Rightarrow> u64 \<Rightarrow> 'a sched_state_scheme \<Rightarrow> ('a sched_state_scheme \<times> int) option" where
  "task_clone c now entry stack_top s =
     (let cur = current_task c s
      in if cur = 0 \<or> t_pml4 (tasks s cur) = 0 then Some (s, -1)
         else
           let leader = task_find_by_pid (tgid (tasks s cur)) s
           in if leader = 0 \<or> tstate (tasks s leader) = TASK_DEAD \<or> entry = 0 \<or> entry \<ge> USER_TOP \<or>
                 stack_top < 4096 \<or> stack_top \<ge> USER_TOP
              then Some (s, -1)
              else do {
                (s, thread) \<leftarrow> task_with_stack c now s;
                if thread = 0 then Some (s, -1)
                else do {
                  let s = upd_task thread (clone_thread (tasks s cur) entry stack_top
                            (live_fpu (percpu_get c s))) s;
                  let s = upd_task leader (\<lambda>x. x\<lparr>thread_count := thread_count x + 1\<rparr>) s;
                  let (s, cpu) = placement_cpu s;
                  let s = task_publish thread (upd_task thread (\<lambda>x. x\<lparr>cpu_id := cpu\<rparr>) s);
                  Some (s, sint (pid (tasks s thread)))
                }
              })"

section \<open>The reaper\<close>

definition release_process :: "u64 \<Rightarrow> 'a shm_state_scheme \<Rightarrow> 'a shm_state_scheme option" where
  "release_process t s = do {
     s \<leftarrow> shm_cleanup_process t s;
     s \<leftarrow> user_memory_release t s;
     Some (if t_pml4 (tasks s t) \<noteq> 0 then vmm_destroy_address_space (t_pml4 (tasks s t)) s else s)
   }"

definition reap_task :: "u64 \<Rightarrow> 'a shm_state_scheme \<Rightarrow> 'a shm_state_scheme option" where
  "reap_task t s =
     (case reap_check t s of
        (s, False) \<Rightarrow> Some s
      | (s, True) \<Rightarrow> do {
          let s = unlink_task t s;
          s \<leftarrow> (if is_thread (tasks s t) then Some s else release_process t s);
          s \<leftarrow> kfree t (task_free_stack t s);
          let st = resource_stats s;
          Some (s\<lparr>resource_stats := st\<lparr>tasks_reaped := tasks_reaped st + 1\<rparr>\<rparr>)
        })"

primrec reap_tasks :: "u64 list \<Rightarrow> 'a shm_state_scheme \<Rightarrow> 'a shm_state_scheme option" where
  "reap_tasks [] s = Some s"
| "reap_tasks (t # ts) s = do { s \<leftarrow> reap_task t s; reap_tasks ts s }"

text \<open>The pass goes over the list as it was: only the task at hand is ever taken out.\<close>

definition task_reap_dead :: "'a shm_state_scheme \<Rightarrow> 'a shm_state_scheme option" where
  "task_reap_dead s = reap_tasks (task_list s) s"

end
