(* ===== verification/VmmRange.thy ===== *)
theory VmmRange
  imports VmmFrame
begin

text \<open>
  Correctness of the operations on ranges of pages: \<^verbatim>\<open>vmm_unmap_pages_in\<close>, whose pruning retires table
  frames in batches of sixteen, and \<^verbatim>\<open>vmm_map_pages_in\<close>, which maps all of a range or nothing.
\<close>

section \<open>What changes\<close>

text \<open>Only translations of the pages \<open>V\<close> change, and user pages only in the address space \<open>pml4\<close>.\<close>

definition only_pages ::
    "u64 set \<Rightarrow> u64 \<Rightarrow> u64 set \<Rightarrow> 'a machine_scheme \<Rightarrow> 'a machine_scheme \<Rightarrow> bool" where
  "only_pages V pml4 R s s' \<longleftrightarrow> (\<forall>r \<in> R. \<forall>vb.
     vb AND NOT 4095 \<notin> V \<or> (vb AND NOT 4095 < USER_TOP \<and> r \<noteq> pml4) \<longrightarrow>
     pt_lookup s' r vb = pt_lookup s r vb)"

definition view_kept :: "u64 set \<Rightarrow> u64 set \<Rightarrow> 'a machine_scheme \<Rightarrow> 'a machine_scheme \<Rightarrow> bool" where
  "view_kept R F s s' \<longleftrightarrow> mem_frame F s s' \<and> (\<forall>f \<in> F. frame_refs s' f = frame_refs s f) \<and>
     kernel_pml4 s' = kernel_pml4 s \<and> (\<forall>r \<in> R. \<forall>va. pt_lookup s' r va = pt_lookup s r va)"

lemma view_kept_refl [simp]: "view_kept R F s s"
  by (simp add: view_kept_def)

lemma view_kept_trans: "view_kept R F s t \<Longrightarrow> view_kept R F t u \<Longrightarrow> view_kept R F s u"
  using mem_frame_trans by (simp add: view_kept_def) blast

lemma only_pages_refl [simp]: "only_pages V pml4 R s s"
  by (simp add: only_pages_def)

lemma only_pages_trans:
  "only_pages V pml4 R s t \<Longrightarrow> only_pages W pml4 R t u \<Longrightarrow> only_pages (V \<union> W) pml4 R s u"
  unfolding only_pages_def by (metis UnI1 UnI2)

lemma only_pages_view: "view_kept R F s s' \<Longrightarrow> only_pages {} pml4 R s s'"
  by (simp add: view_kept_def only_pages_def)

section \<open>Clearing the leaves\<close>

lemma clear_leaf_spec:
  assumes ok: "vm_ok s R F" and p: "pml4 \<in> R" and va: "canonical va" "va AND 4095 = 0"
    and c: "clear_leaf pml4 va (s, n) = (s', n')"
  shows "vm_ok s' R F" and "pt_lookup s' pml4 va = None" and "only_pages {va} pml4 R s s'"
    and "mem_frame F s s'" and "frame_refs s' = frame_refs s" and "kernel_pml4 s' = kernel_pml4 s"
    and "n' = n + (if pt_lookup s pml4 va = None then 0 else 1)"
proof -
  obtain \<rho> where pm: "pmm_inv s" and inv: "pt_inv s \<rho>" and R: "\<forall>r \<in> R. \<rho> r = Some (3, r, 0)"
    and F: "data_frames s \<rho> F"
    using ok by (auto simp: vm_ok_def)
  have root: "\<rho> pml4 = Some (3, pml4, 0)" using R p by blast
  have p0: "pml4 \<noteq> 0" by (rule pt_invD(2) [OF inv root])
  have "vm_ok s' R F \<and> pt_lookup s' pml4 va = None \<and> only_pages {va} pml4 R s s' \<and> mem_frame F s s' \<and>
    frame_refs s' = frame_refs s \<and> kernel_pml4 s' = kernel_pml4 s \<and>
    n' = n + (if pt_lookup s pml4 va = None then 0 else 1)"
  proof (cases "vmm_pte_in s pml4 va")
    case None
    then show ?thesis using c ok by (auto simp: clear_leaf_def pt_lookup_pte)
  next
    case (Some leaf)
    obtain T where w: "walk_to 3 s pml4 va = Some T" and leaf: "leaf = slot_at T (index_at va 0)"
      using Some p0 va(1) by (auto simp: vmm_pte_in_def Let_def split: option.splits if_splits)
    obtain a b where T: "\<rho> T = Some (0, a, b)" using walk3_role [OF inv root w] by metis
    have s': "s' = put64 leaf 0 s" "n' = n + 1" using c Some by (simp_all add: clear_leaf_def)
    note put = put_leaf [OF inv T index_at_less [of va 0], where v = 0, folded leaf]
    have "vm_ok s' R F" using pm put(1) R F by (auto simp: vm_ok_def s' data_frames_def)
    moreover have "pt_lookup s' pml4 va = None"
      using put(3) [OF root, of va] w leaf by (simp add: pt_lookup_def has_def s')
    moreover have "pt_lookup s' r vb = pt_lookup s r vb"
      if r: "r \<in> R" "vb AND NOT 4095 \<noteq> va \<or> (vb AND NOT 4095 < USER_TOP \<and> r \<noteq> pml4)" for r vb
    proof (cases "canonical vb")
      case can: True
      have "\<not> (walk_to 3 s r vb = Some T \<and> index_at vb 0 = index_at va 0)"
      proof
        assume "walk_to 3 s r vb = Some T \<and> index_at vb 0 = index_at va 0"
        then have "va AND NOT 4095 = vb AND NOT 4095" "va < USER_TOP \<Longrightarrow> pml4 = r"
          using same_leaf_same_page [OF inv root _ w, of r vb] R r(1) va(1) can by auto
        then show False using r(2) page_floor_id [OF va(2)] by auto
      qed
      then show ?thesis using put(3) [where t = r and va = vb and l = 3] R r(1)
        by (auto simp: pt_lookup_def s')
    qed (simp add: pt_lookup_def)
    then have "only_pages {va} pml4 R s s'" by (auto simp: only_pages_def)
    moreover have "mem_frame F s s'"
      unfolding s' leaf by (rule frame_put [OF role_slot [OF inv F domI [of \<rho>, OF T] index_at_less]])
    ultimately show ?thesis using Some by (simp add: s' pt_lookup_pte)
  qed
  then show "vm_ok s' R F" and "pt_lookup s' pml4 va = None" and "only_pages {va} pml4 R s s'"
    and "mem_frame F s s'" and "frame_refs s' = frame_refs s" and "kernel_pml4 s' = kernel_pml4 s"
    and "n' = n + (if pt_lookup s pml4 va = None then 0 else 1)" by blast+
qed

section \<open>Pruning a range\<close>

text \<open>
  Between two flushes the retired frames are still allocated and hold no table any more: they count as
  data frames.
\<close>

definition held ::
    "'a machine_scheme \<Rightarrow> (u64 \<Rightarrow> role option) \<Rightarrow> u64 set \<Rightarrow> u64 set \<Rightarrow> u64 list \<Rightarrow> bool" where
  "held s \<rho> R F retired \<longleftrightarrow> pmm_inv s \<and> pt_inv s \<rho> \<and> (\<forall>r \<in> R. \<rho> r = Some (3, r, 0)) \<and>
     data_frames s \<rho> (F \<union> set retired) \<and> distinct retired \<and> set retired \<inter> F = {}"

lemma held_vm_ok: "held s \<rho> R F [] \<Longrightarrow> vm_ok s R F"
  by (auto simp: held_def vm_ok_def)

lemma vm_ok_held: "vm_ok s R F \<Longrightarrow> \<exists>\<rho>. held s \<rho> R F []"
  by (auto simp: held_def vm_ok_def)

lemma data_frames_union: "data_frames s \<rho> (A \<union> B) \<longleftrightarrow> data_frames s \<rho> A \<and> data_frames s \<rho> B"
  by (auto simp: data_frames_def)

lemma free_held:
  assumes "pmm_inv s" and "pt_inv s \<rho>" and "data_frames s \<rho> (F \<union> set fs)" and "distinct fs"
    and "set fs \<inter> F = {}"
  shows "pmm_inv (foldl pmm_free_page s fs)" and "pt_inv (foldl pmm_free_page s fs) \<rho>"
    and "data_frames (foldl pmm_free_page s fs) \<rho> F"
    and "f \<in> F \<Longrightarrow> frame_refs (foldl pmm_free_page s fs) f = frame_refs s f"
proof -
  have "pmm_inv (foldl pmm_free_page s fs) \<and> pt_inv (foldl pmm_free_page s fs) \<rho> \<and>
    data_frames (foldl pmm_free_page s fs) \<rho> F"
    using assms
  proof (induction fs arbitrary: s)
    case Nil
    then show ?case by simp
  next
    case (Cons g fs)
    note st = data_frame_free [OF Cons.prems(1-3), of g]
    have "data_frames (pmm_free_page s g) \<rho> (F \<union> set (g # fs) - {g})" by (rule st(3)) simp
    moreover have "F \<union> set (g # fs) - {g} = F \<union> set fs" using Cons.prems(4,5) by auto
    ultimately show ?case using Cons.IH [OF st(1,2)] Cons.prems(4,5) by simp
  qed
  then show "pmm_inv (foldl pmm_free_page s fs)" and "pt_inv (foldl pmm_free_page s fs) \<rho>"
    and "data_frames (foldl pmm_free_page s fs) \<rho> F" by blast+
  assume "f \<in> F"
  then have "count_list fs f = 0" using assms(5) by (auto simp: count_list_0_iff)
  then show "frame_refs (foldl pmm_free_page s fs) f = frame_refs s f"
    by (simp add: pmm_fold_free(2) [OF assms(1)])
qed

lemma release_held:
  assumes h: "held s \<rho> R F retired"
  shows "held (release_tables pml4 retired s) \<rho> R F []" and "view_kept R F s (release_tables pml4 retired s)"
    and "get64 (release_tables pml4 retired s) p = get64 s p"
proof -
  let ?s = "tlb_shootdown pml4 UINT64_MAX s"
  have h': "pmm_inv ?s" "pt_inv ?s \<rho>" "data_frames ?s \<rho> (F \<union> set (rev retired))" "distinct (rev retired)"
    "set (rev retired) \<inter> F = {}" and R: "\<forall>r \<in> R. \<rho> r = Some (3, r, 0)"
    using h by (simp_all add: held_def data_frames_def)
  note fh = free_held [OF h']
  have rel: "release_tables pml4 retired s = foldl pmm_free_page ?s (rev retired)"
    by (simp add: release_tables_def)
  show "held (release_tables pml4 retired s) \<rho> R F []" using fh(1-3) R by (simp add: held_def rel)
  have "pt_lookup (foldl pmm_free_page ?s (rev retired)) r va = pt_lookup ?s r va" for r va
    by (rule pt_lookup_cong) simp_all
  moreover have "mem_frame F s (foldl pmm_free_page ?s (rev retired))"
    by (rule mem_frame_trans [OF frame_shootdown frame_free])
  ultimately show "view_kept R F s (release_tables pml4 retired s)"
    using fh(4) by (simp add: view_kept_def rel)
  show "get64 (release_tables pml4 retired s) p = get64 s p"
    by (simp add: rel get64_def tlb_shootdown_def)
qed

lemma unlink_held:
  assumes h: "held s \<rho> R F retired" and T: "\<rho> T = Some (Suc l, sp, pre)" and i: "i < 512"
    and lk: "links (get64 s (slot_at T i))" and N: "N = table_at s (get64 s (slot_at T i))"
    and empty: "empty_table s N" and user: "l < 2 \<or> i < 256"
  shows "held (put64 (slot_at T i) 0 s) (\<rho>(N := None)) R F (retired @ [vmm_pte_address (get64 s (slot_at T i))])"
    and "view_kept R F s (put64 (slot_at T i) 0 s)"
    and "\<rho> N = Some (l, snd (child_role (Suc l, sp, pre) i N))"
    and "\<And>t k a b j. \<rho> t = Some (k, a, b) \<Longrightarrow> j < 512 \<Longrightarrow> t \<noteq> T \<Longrightarrow>
      get64 (put64 (slot_at T i) 0 s) (slot_at t j) = get64 s (slot_at t j)"
proof -
  let ?s = "put64 (slot_at T i) 0 s" and ?f = "vmm_pte_address (get64 s (slot_at T i))"
  have pm: "pmm_inv s" and inv: "pt_inv s \<rho>" and R: "\<forall>r \<in> R. \<rho> r = Some (3, r, 0)"
    and D: "data_frames s \<rho> (F \<union> set retired)" and d: "distinct retired" "set retired \<inter> F = {}"
    using h by (auto simp: held_def)
  note rm = remove_table [OF inv T i lk N empty user refl refl]
  show roleN: "\<rho> N = Some (l, snd (child_role (Suc l, sp, pre) i N))" by (rule rm(3))
  show "\<And>t k a b j. \<rho> t = Some (k, a, b) \<Longrightarrow> j < 512 \<Longrightarrow> t \<noteq> T \<Longrightarrow>
      get64 ?s (slot_at t j) = get64 s (slot_at t j)" by (rule rm(4))
  have l3: "l < 3" using pt_invD(4) [OF inv T] by simp
  have f: "?f = N - hhdm_offset s" by (simp add: N table_at_def)
  have fN: "frame_busy s ?f" "?f AND 4095 = 0"
    using pt_inv_dom [OF inv domI [of \<rho>, OF roleN]] pt_inv_global(1) [OF inv] page_sub_aligned
    unfolding f by blast+
  have "?f + hhdm_offset s \<in> dom \<rho>" using roleN by (simp add: f domI)
  then have new: "?f \<notin> F \<union> set retired" using D unfolding data_frames_def by blast
  have "data_frames ?s (\<rho>(N := None)) (F \<union> set (retired @ [?f]))"
    using D fN by (auto simp: data_frames_def f)
  moreover have R': "\<forall>r \<in> R. (\<rho>(N := None)) r = Some (3, r, 0)" using R roleN l3 by auto
  ultimately show "held ?s (\<rho>(N := None)) R F (retired @ [?f])"
    using pm rm(1) d new by (simp add: held_def)
  have "mem_frame F s ?s"
    by (rule frame_put [OF role_slot [OF inv _ domI [of \<rho>, OF T] i]]) (use D in \<open>simp add: data_frames_union\<close>)
  moreover have "pt_lookup ?s r va = pt_lookup s r va" if "r \<in> R" for r va
    by (rule keeps_pt_lookup [OF rm(2)]) (use R' that in blast)
  ultimately show "view_kept R F s ?s" by (simp add: view_kept_def)
qed

lemma path_user:
  assumes "canonical va" and "path_ok s \<rho> va (Suc l) T ps" and "l < 3" and "\<not> (ps = [] \<and> va \<ge> UPPER_HALF)"
  shows "l < 2 \<or> index_at va (Suc l) < 256"
proof (cases "l < 2")
  case False
  then have "l = 2" using assms(3) by simp
  then have "ps = []" using assms(2) by (cases ps) (auto split: prod.splits)
  then have "va < USER_TOP" using assms(1,4) by (auto simp: canonical_def)
  then show ?thesis using index_at_3_lower [OF assms(1)] \<open>l = 2\<close> by (simp add: numeral_3_eq_3)
qed simp

lemma prune_buffered_spec:
  assumes "held s \<rho> R F retired" and "path_ok s \<rho> va l table ps" and "canonical va"
    and "prune_buffered pml4 va ps s retired = (s', retired')" and "\<rho> table = Some (l, r0)"
  shows "\<exists>\<rho>'. held s' \<rho>' R F retired' \<and> view_kept R F s s'"
  using assms
proof (induction ps arbitrary: s \<rho> l table retired r0)
  case Nil
  then show ?case by auto
next
  case (Cons p ps)
  obtain slot t where p: "p = (slot, t)" by (cases p)
  from Cons.prems(2) obtain T r where h: "t = table" "l < 3" "slot = slot_at T (index_at va (Suc l))"
    "\<rho> T = Some (Suc l, r)" "links (get64 s slot)" "table_at s (get64 s slot) = table"
    "path_ok s \<rho> va (Suc l) T ps" by (auto simp: p)
  show ?case
  proof (cases "(ps = [] \<and> va \<ge> UPPER_HALF) \<or> \<not> empty_table s table")
    case True
    then have "s' = s" "retired' = retired" using Cons.prems(4) by (auto simp: p h(1) split: if_splits)
    then show ?thesis using Cons.prems(1) by auto
  next
    case False
    define s1 where "s1 = put64 slot 0 s"
    define \<rho>1 where "\<rho>1 = \<rho>(table := None)"
    let ?r = "retired @ [vmm_pte_address (get64 s slot)]"
    define s2 where "s2 = (if length ?r = 16 then release_tables pml4 ?r s1 else s1)"
    define r2 where "r2 = (if length ?r = 16 then [] else ?r)"
    have rest: "prune_buffered pml4 va ps s2 r2 = (s', retired')"
      using Cons.prems(4) False
      by (cases "length ?r = 16") (auto simp: p h(1) s1_def s2_def r2_def Let_def)
    obtain sp pre where r: "r = (sp, pre)" by (cases r)
    have user: "l < 2 \<or> index_at va (Suc l) < 256"
      using path_user [OF Cons.prems(3) h(7,2)] False by blast
    have em: "empty_table s table" using False by simp
    note un = unlink_held [OF Cons.prems(1) h(4) [unfolded r] index_at_less h(5) [unfolded h(3)]
        h(6) [unfolded h(3), symmetric] em user, folded h(3), folded s1_def \<rho>1_def]
    have T1: "\<rho>1 T = Some (Suc l, r)" using h(4) un(3) by (auto simp: \<rho>1_def)
    have same: "get64 s2 (slot_at t' j) = get64 s (slot_at t' j)"
      if t': "\<rho> t' = Some (k, r')" "Suc l < k" "j < 512" for t' k r' j
    proof -
      have "t' \<noteq> T" using t' h(4) by auto
      then have "get64 s1 (slot_at t' j) = get64 s (slot_at t' j)"
        using un(4) [of t' k "fst r'" "snd r'" j] t' by simp
      then show ?thesis using release_held(3) [OF un(1)] by (simp add: s2_def)
    qed
    have h2: "held s2 \<rho>1 R F r2" and v2: "view_kept R F s s2"
      using un(1,2) release_held [OF un(1)] view_kept_trans [OF un(2)] by (simp_all add: s2_def r2_def)
    have po: "path_ok s2 \<rho>1 va (Suc l) T ps"
    proof (rule path_ok_cong [OF h(7)])
      show "hhdm_offset s2 = hhdm_offset s" using v2 by (simp add: view_kept_def mem_frame_def)
      show "\<rho>1 t' = \<rho> t'" if "\<rho> t' = Some (k, r')" "Suc l < k" for t' k r'
        using that un(3) by (auto simp: \<rho>1_def)
    qed (use same in blast)
    from Cons.IH [OF h2 po Cons.prems(3) rest T1] show ?thesis using view_kept_trans [OF v2] by blast
  qed
qed

lemma prune_at_spec:
  assumes h: "held s \<rho> R F retired" and p: "pml4 \<in> R" and can: "canonical va"
    and pr: "prune_at pml4 va s retired = (s', retired')"
  shows "\<exists>\<rho>'. held s' \<rho>' R F retired' \<and> view_kept R F s s'"
proof (cases "walk_path 3 s pml4 va")
  case None
  then show ?thesis using pr h by (auto simp: prune_at_def)
next
  case (Some path)
  have inv: "pt_inv s \<rho>" and root: "\<rho> pml4 = Some (3, pml4, 0)" using h p by (auto simp: held_def)
  have ne: "path \<noteq> []" using Some by (auto simp: numeral_3_eq_3 Let_def split: if_splits)
  let ?T = "snd (last path)"
  have w: "walk_to 3 s pml4 va = Some ?T" using walk_path_to [OF inv root, of va] Some ne by simp
  obtain a b where T: "\<rho> ?T = Some (0, a, b)" using walk3_role [OF inv root w] by metis
  have po: "path_ok s \<rho> va 0 ?T (rev path)" using walk_path_ok [OF inv root Some, of "[]"] ne by simp
  show ?thesis using prune_buffered_spec [OF h po can _ T] pr Some by (simp add: prune_at_def)
qed

lemma canonical_between:
  assumes "canonical a" and "canonical b" and "a \<le> c" and "c \<le> b" and "unat b - unat a < 2 ^ 63"
  shows "canonical c"
  using assms by (auto simp: canonical_def word_le_nat_alt word_less_nat_alt)

lemma next_region_below:
  assumes "va \<le> last'" and "drop_bit 21 va \<noteq> drop_bit 21 last'"
  shows "va \<le> next_region va" and "next_region va \<le> last'"
proof -
  let ?q = "unat va div 2 ^ 21" and ?l = "unat last' div 2 ^ 21"
  have le: "?q \<le> ?l" using assms(1) by (simp add: word_le_nat_alt div_le_mono)
  have "?q \<noteq> ?l"
    using assms(2) by (metis drop_bit_eq_div unat_drop_bit_eq word_unat_eq_iff)
  then have lt: "?q + 1 \<le> ?l" using le by simp
  moreover have "?l < 2 ^ 43" using unat64_less [of last'] by simp
  ultimately have n: "unat (next_region va) = (?q + 1) * 2 ^ 21" by (simp only: next_region_unat) simp
  have "(?q + 1) * 2 ^ 21 \<le> ?l * 2 ^ 21" using lt by (intro mult_le_mono1)
  also have "\<dots> \<le> unat last'" by simp
  finally show "next_region va \<le> last'" using n by (simp only: word_le_nat_alt)
  have "unat va \<le> (?q + 1) * 2 ^ 21" by simp
  then show "va \<le> next_region va" using n by (simp only: word_le_nat_alt)
qed

lemma prune_range_spec:
  assumes "held s \<rho> R F retired" and "pml4 \<in> R" and "canonical va" and "canonical last'" and "va \<le> last'"
    and "unat last' - unat va < 2 ^ 63" and "prune_range pml4 va last' s retired = (s', retired')"
  shows "\<exists>\<rho>'. held s' \<rho>' R F retired' \<and> view_kept R F s s'"
  using assms
proof (induction pml4 va last' s retired arbitrary: \<rho> rule: prune_range.induct)
  case (1 pml4 va last' s retired)
  obtain s1 r1 where pa: "prune_at pml4 va s retired = (s1, r1)" by fastforce
  from prune_at_spec [OF "1.prems"(1-3) pa] obtain \<rho>1 where
    h1: "held s1 \<rho>1 R F r1" and v1: "view_kept R F s s1" by blast
  show ?case
  proof (cases "drop_bit 21 va = drop_bit 21 last'")
    case True
    then have "s' = s1" "retired' = r1"
      using "1.prems"(7) pa by (simp_all add: prune_range.simps [of pml4 va])
    then show ?thesis using h1 v1 by blast
  next
    case False
    note nb = next_region_below [OF "1.prems"(5) False]
    have can: "canonical (next_region va)"
      by (rule canonical_between [OF "1.prems"(3,4) nb "1.prems"(6)])
    have near: "unat last' - unat (next_region va) < 2 ^ 63"
      using nb(1) "1.prems"(6) by (simp add: word_le_nat_alt)
    have rest: "prune_range pml4 (next_region va) last' s1 r1 = (s', retired')"
      using "1.prems"(7) pa False by (simp add: prune_range.simps [of pml4 va])
    from "1.IH" [OF pa [symmetric] False h1 "1.prems"(2) can "1.prems"(4) nb(2) near rest]
    show ?thesis using view_kept_trans [OF v1] by blast
  qed
qed

section \<open>A range\<close>

definition range_pages :: "u64 \<Rightarrow> nat \<Rightarrow> u64 set" where
  "range_pages base n = page_at base ` {..<n}"

text \<open>A change confined to the pages \<open>V\<close> that leaves the data frames \<open>F\<close> alone.\<close>

definition step_kept ::
    "u64 set \<Rightarrow> u64 \<Rightarrow> u64 set \<Rightarrow> u64 set \<Rightarrow> 'a machine_scheme \<Rightarrow> 'a machine_scheme \<Rightarrow> bool" where
  "step_kept V pml4 R F s s' \<longleftrightarrow> only_pages V pml4 R s s' \<and> mem_frame F s s' \<and>
     (\<forall>f \<in> F. frame_refs s' f = frame_refs s f) \<and> kernel_pml4 s' = kernel_pml4 s"

lemma step_kept_refl [simp]: "step_kept V pml4 R F s s"
  by (simp add: step_kept_def)

lemma step_kept_trans:
  "step_kept V pml4 R F s t \<Longrightarrow> step_kept W pml4 R F t u \<Longrightarrow> step_kept (V \<union> W) pml4 R F s u"
  using only_pages_trans mem_frame_trans by (simp add: step_kept_def) blast

lemma step_kept_view: "view_kept R F s s' \<Longrightarrow> step_kept {} pml4 R F s s'"
  by (simp add: step_kept_def view_kept_def only_pages_def)

lemma step_kept_lookup:
  "step_kept V pml4 R F s s' \<Longrightarrow> r \<in> R \<Longrightarrow> vb AND NOT 4095 \<notin> V \<Longrightarrow> pt_lookup s' r vb = pt_lookup s r vb"
  by (simp add: step_kept_def only_pages_def)

lemma step_kept_shootdown: "step_kept {} pml4 R F s (tlb_shootdown p v s)"
  using frame_shootdown [of F s p v] by (simp add: step_kept_def only_pages_def)

lemma range_pages_Suc: "range_pages base (Suc n) = range_pages base n \<union> {page_at base n}"
  by (auto simp: range_pages_def lessThan_Suc)

lemma valid_range_page:
  assumes v: "valid_range base count" and i: "i < unat count"
  shows "unat (page_at base i) = unat base + i * 4096" and "page_at base i AND 4095 = 0"
    and "canonical (page_at base i)"
proof -
  let ?bytes = "ucast count * 4096 :: u64"
  have c: "unat count < 2 ^ 32" using unsigned_less [of count] by simp
  then have ub: "unat ?bytes = unat count * 4096" by (simp add: unat_mult_lem [THEN iffD1])
  have b: "base AND 4095 = 0" "canonical base" "?bytes - 1 \<le> UINT64_MAX - base"
    "canonical (base + ?bytes - 1)"
    using v by (simp_all add: valid_range_def Let_def)
  have b1: "unat (?bytes - 1) = unat count * 4096 - 1"
    using ub i by (subst unat_minus_one) auto
  have room: "unat base + (unat count * 4096 - 1) < 2 ^ 64"
  proof -
    have "unat (UINT64_MAX - base) = 2 ^ 64 - 1 - unat base"
      using unat64_less [of base] by (simp add: unat_sub word_le_nat_alt)
    then show ?thesis using b(3) b1 unat64_less [of base] by (simp add: word_le_nat_alt)
  qed
  have le: "i * 4096 \<le> unat count * 4096 - 1" using i by simp
  show u: "unat (page_at base i) = unat base + i * 4096"
    using unat_add_small [of base "i * 4096"] room le by (simp add: page_at_def)
  obtain q where q: "unat base = 4096 * q" using b(1) by (rule page_aligned)
  then have "unat (page_at base i) mod 4096 = 0" by (simp add: u)
  then show "page_at base i AND 4095 = 0"
    using unat_and_mask_mod [of "page_at base i" 12] by (simp add: mask_eq_exp_minus_1 unat_eq_zero)
  have e: "unat (base + ?bytes - 1) = unat base + (unat count * 4096 - 1)"
  proof -
    have "base + ?bytes - 1 = base + of_nat (unat (?bytes - 1))" by simp
    moreover have "unat (base + of_nat (unat (?bytes - 1))) = unat base + unat (?bytes - 1)"
      by (rule unat_add_small) (use room b1 in simp)
    ultimately show ?thesis using b1 by (simp only:)
  qed
  show "canonical (page_at base i)"
    by (rule canonical_between [OF b(2,4)]) (use u e le c in \<open>simp_all add: word_le_nat_alt\<close>)
qed

lemma page_at_neq:
  assumes "valid_range base count" and "i < unat count" "j < unat count" "i \<noteq> j"
  shows "page_at base i \<noteq> page_at base j"
  using valid_range_page(1) [OF assms(1,2)] valid_range_page(1) [OF assms(1,3)] assms(4) by auto

lemma page_not_in_range:
  assumes v: "valid_range base count" and n: "n \<le> unat count" and i: "n \<le> i" "i < unat count"
  shows "page_at base i \<notin> range_pages base n"
proof
  assume "page_at base i \<in> range_pages base n"
  then obtain j where "j < n" "page_at base i = page_at base j" by (auto simp: range_pages_def)
  then show False using page_at_neq [OF v i(2), of j] n i(1) by simp
qed

lemma clear_leaves_spec:
  assumes v: "valid_range base count" and ok: "vm_ok s R F" and p: "pml4 \<in> R" and n: "n \<le> unat count"
    and c: "fold (\<lambda>i. clear_leaf pml4 (page_at base i)) [0 ..< n] (s, 0) = (s', removed)"
  shows "vm_ok s' R F" and "step_kept (range_pages base n) pml4 R F s s'"
    and "\<forall>i < n. pt_lookup s' pml4 (page_at base i) = None"
    and "removed = of_nat (length (filter (\<lambda>i. pt_lookup s pml4 (page_at base i) \<noteq> None) [0 ..< n]))"
proof -
  have "vm_ok s' R F \<and> step_kept (range_pages base n) pml4 R F s s' \<and>
    (\<forall>i < n. pt_lookup s' pml4 (page_at base i) = None) \<and>
    removed = of_nat (length (filter (\<lambda>i. pt_lookup s pml4 (page_at base i) \<noteq> None) [0 ..< n]))"
    using n c
  proof (induction n arbitrary: s' removed)
    case 0
    then show ?case using ok by simp
  next
    case (Suc n)
    obtain t r where t: "fold (\<lambda>i. clear_leaf pml4 (page_at base i)) [0 ..< n] (s, 0) = (t, r)" by fastforce
    then have cl: "clear_leaf pml4 (page_at base n) (t, r) = (s', removed)" using Suc.prems(2) by simp
    have n: "n < unat count" using Suc.prems(1) by simp
    note pg = valid_range_page [OF v n]
    have IH: "vm_ok t R F" "step_kept (range_pages base n) pml4 R F s t"
      "\<forall>i < n. pt_lookup t pml4 (page_at base i) = None"
      "r = of_nat (length (filter (\<lambda>i. pt_lookup s pml4 (page_at base i) \<noteq> None) [0 ..< n]))"
      using Suc.IH [OF _ t] n by simp_all
    note cs = clear_leaf_spec [OF IH(1) p pg(3,2) cl]
    have floor: "page_at base i AND NOT 4095 = page_at base i" if "i < unat count" for i
      by (rule page_floor_id [OF valid_range_page(2) [OF v that]])
    have "step_kept {page_at base n} pml4 R F t s'" using cs(3-6) by (simp add: step_kept_def)
    then have 1: "step_kept (range_pages base (Suc n)) pml4 R F s s'"
      unfolding range_pages_Suc by (rule step_kept_trans [OF IH(2)])
    have "pt_lookup s' pml4 (page_at base i) = None" if "i < Suc n" for i
    proof (cases "i = n")
      case False
      then have "page_at base i \<noteq> page_at base n" using page_at_neq [OF v] that n by simp
      then have "pt_lookup s' pml4 (page_at base i) = pt_lookup t pml4 (page_at base i)"
        using cs(3) p floor [of i] that n by (simp add: only_pages_def)
      then show ?thesis using IH(3) that False by simp
    qed (use cs(2) in simp)
    moreover have "pt_lookup t pml4 (page_at base n) = pt_lookup s pml4 (page_at base n)"
      using step_kept_lookup [OF IH(2) p] page_not_in_range [OF v, of n n] n floor [OF n] by simp
    ultimately show ?case using cs(1,7) IH(4) 1 by simp
  qed
  then show "vm_ok s' R F" and "step_kept (range_pages base n) pml4 R F s s'"
    and "\<forall>i < n. pt_lookup s' pml4 (page_at base i) = None"
    and "removed = of_nat (length (filter (\<lambda>i. pt_lookup s pml4 (page_at base i) \<noteq> None) [0 ..< n]))"
    by blast+
qed

lemma unmap_pages_spec:
  assumes ok: "vm_ok s R F" and p: "pml4 \<in> R" and v: "valid_range base count"
    and u: "vmm_unmap_pages_in pml4 base count s = (s', removed)"
  shows "vm_ok s' R F" and "step_kept (range_pages base (unat count)) pml4 R F s s'"
    and "\<forall>i < unat count. pt_lookup s' pml4 (page_at base i) = None"
    and "removed = of_nat (length (filter (\<lambda>i. pt_lookup s pml4 (page_at base i) \<noteq> None) [0 ..< unat count]))"
proof -
  obtain t r where t: "fold (\<lambda>i. clear_leaf pml4 (page_at base i)) [0 ..< unat count] (s, 0) = (t, r)"
    by fastforce
  note cs = clear_leaves_spec [OF v ok p order_refl t]
  obtain \<rho> where "\<rho> pml4 = Some (3, pml4, 0)" "pt_inv s \<rho>" using vm_ok_root [OF ok p] by blast
  then have p0: "pml4 \<noteq> 0" using pt_invD(2) by blast
  have "vm_ok s' R F \<and> view_kept R F t s' \<and> removed = r"
  proof (cases "r = 0")
    case True
    then show ?thesis using u p0 v t cs(1) by (simp add: vmm_unmap_pages_in_def)
  next
    case False
    define last' where "last' = base + (ucast count - 1) * 4096"
    obtain s2 retired where pr: "prune_range pml4 base last' t [] = (s2, retired)" by fastforce
    have s': "s' = release_tables pml4 retired s2" "removed = r"
      using u p0 v t False pr by (simp_all add: vmm_unmap_pages_in_def last'_def)
    have c: "0 < unat count" using v by (simp add: valid_range_def unat_gt_0 Let_def)
    have "of_nat (unat count - 1) = (ucast count - 1 :: u64)" using c by (simp add: of_nat_diff)
    then have last': "last' = page_at base (unat count - 1)" by (simp add: page_at_def last'_def)
    note pg = valid_range_page [OF v, of "unat count - 1", folded last']
    have small: "unat count < 2 ^ 32" using unsigned_less [of count] by simp
    have can: "canonical base" using v by (simp add: valid_range_def Let_def)
    have can': "canonical last'" using pg(3) c by simp
    have le: "base \<le> last'" using pg(1) c by (simp add: word_le_nat_alt)
    have near: "unat last' - unat base < 2 ^ 63" using pg(1) c small by simp
    obtain \<rho> where h: "held t \<rho> R F []" using vm_ok_held [OF cs(1)] by blast
    from prune_range_spec [OF h p can can' le near pr] obtain \<rho>' where
      h': "held s2 \<rho>' R F retired" and v2: "view_kept R F t s2" by blast
    note rl = release_held [OF h', of pml4]
    show ?thesis using held_vm_ok [OF rl(1)] view_kept_trans [OF v2 rl(2)] s' by simp
  qed
  then have 1: "vm_ok s' R F" "view_kept R F t s'" "removed = r" by blast+
  show "vm_ok s' R F" by (rule 1)
  show "step_kept (range_pages base (unat count)) pml4 R F s s'"
    using step_kept_trans [OF cs(2) step_kept_view [OF 1(2)]] by simp
  show "\<forall>i < unat count. pt_lookup s' pml4 (page_at base i) = None"
    using cs(3) 1(2) p by (simp add: view_kept_def)
  show "removed = of_nat (length (filter (\<lambda>i. pt_lookup s pml4 (page_at base i) \<noteq> None) [0 ..< unat count]))"
    using cs(4) 1(3) by simp
qed

section \<open>Mapping a range\<close>

lemma map_page_step:
  assumes ok: "vm_ok s R F" and p: "pml4 \<in> R" and m: "map_page pml4 va phys flags flush s = (s', r)"
  shows "vm_ok s' R F" and "step_kept (if r then {va} else {}) pml4 R F s s'"
    and "r \<Longrightarrow> pt_lookup s pml4 va = None \<and> pt_lookup s' pml4 va = Some (phys OR flags)"
proof -
  obtain \<rho> where h: "pmm_inv s" "pt_inv s \<rho>" "\<rho> pml4 = Some (3, pml4, 0)" "data_frames s \<rho> F"
    using vm_ok_root [OF ok p] by blast
  note k = map_page_keeps [OF ok p m]
  show "vm_ok s' R F" by (rule k(1))
  show "r \<Longrightarrow> pt_lookup s pml4 va = None \<and> pt_lookup s' pml4 va = Some (phys OR flags)"
    using k(6,7) by blast
  have 1: "mem_frame F s s'" using map_page_frame [OF h, of va phys flags flush] m by simp
  have 2: "frame_refs s' f = frame_refs s f" if "f \<in> F" for f
    using k(12) that h(4) by (auto simp: data_frames_def)
  have "only_pages (if r then {va} else {}) pml4 R s s'"
  proof (cases r)
    case True
    have "pt_lookup s' q vb = pt_lookup s q vb"
      if "q \<in> R" "vb AND NOT 4095 \<noteq> va \<or> vb AND NOT 4095 < USER_TOP \<and> q \<noteq> pml4" for q vb
      using k(8) [OF True that(1), of vb] that(2) by blast
    then show ?thesis using True by (simp add: only_pages_def)
  next
    case False
    then show ?thesis using k(4) [OF False] by (simp add: only_pages_def)
  qed
  then show "step_kept (if r then {va} else {}) pml4 R F s s'"
    using 1 2 k(2) by (simp add: step_kept_def)
qed

lemma valid_range_prefix:
  assumes v: "valid_range base count" and i: "0 < i" "i \<le> unat count"
  shows "valid_range base (of_nat i)" and "unat (of_nat i :: u32) = i"
proof -
  have c32: "unat count < 2 ^ 32" using unsigned_less [of count] by simp
  then have "i < 2 ^ 32" using i(2) by simp
  then show ui: "unat (of_nat i :: u32) = i" by (simp add: unat_of_nat take_bit_eq_mod)
  let ?b = "ucast (of_nat i :: u32) * 4096 :: u64" and ?c = "ucast count * 4096 :: u64"
  have ub: "unat ?b = i * 4096" "unat ?c = unat count * 4096"
    using ui \<open>i < 2 ^ 32\<close> c32 by (simp_all add: unat_mult_lem [THEN iffD1])
  have nz: "?b \<noteq> 0" "?c \<noteq> 0" using ub i by (metis mult_eq_0_iff unsigned_0 not_gr0 le_zero_eq zero_neq_numeral)+
  have m1: "unat (?b - 1) = i * 4096 - 1" "unat (?c - 1) = unat count * 4096 - 1"
    using unat_minus_one [OF nz(1)] unat_minus_one [OF nz(2)] by (simp_all only: ub)
  have "i * 4096 - 1 \<le> unat count * 4096 - 1" using i(2) by simp
  then have b1: "?b - 1 \<le> ?c - 1" by (simp only: word_le_nat_alt m1)
  have c: "base AND 4095 = 0" "canonical base" "?c - 1 \<le> UINT64_MAX - base" "canonical (base + ?c - 1)"
    using v by (simp_all add: valid_range_def Let_def)
  have room: "unat base + unat (?c - 1) < 2 ^ 64"
  proof -
    have "unat (UINT64_MAX - base) = 2 ^ 64 - 1 - unat base"
      using unat64_less [of base] by (simp add: unat_sub word_le_nat_alt)
    then show ?thesis using c(3) unat64_less [of base] by (simp add: word_le_nat_alt)
  qed
  have e: "unat (base + w - 1) = unat base + unat (w - 1)" if "w - 1 \<le> ?c - 1" for w
  proof -
    have "base + w - 1 = base + of_nat (unat (w - 1))" by simp
    moreover have "unat (base + of_nat (unat (w - 1))) = unat base + unat (w - 1)"
      by (rule unat_add_small) (use room that in \<open>simp add: word_le_nat_alt\<close>)
    ultimately show ?thesis by (simp only:)
  qed
  have le: "base \<le> base + ?b - 1" "base + ?b - 1 \<le> base + ?c - 1"
    using e [OF b1] e [of ?c] b1 by (simp_all add: word_le_nat_alt)
  have "unat (base + ?c - 1) - unat base < 2 ^ 63"
    using e [of ?c] m1(2) c32 by simp
  then have "canonical (base + ?b - 1)" by (rule canonical_between [OF c(2,4) le])
  moreover have "?b - 1 \<le> UINT64_MAX - base" using b1 c(3) by (rule order_trans)
  moreover have "(of_nat i :: u32) \<noteq> 0" using ui i(1) by auto
  ultimately show "valid_range base (of_nat i)" using c by (simp add: valid_range_def Let_def)
qed

text \<open>The pages mapped so far, from the state \<open>s0\<close> on.\<close>

definition mapped_so_far ::
    "u64 \<Rightarrow> u64 set \<Rightarrow> u64 set \<Rightarrow> u64 \<Rightarrow> u64 \<Rightarrow> u64 list \<Rightarrow> 'a machine_scheme \<Rightarrow> 'a machine_scheme \<Rightarrow> bool" where
  "mapped_so_far pml4 R F base flags qs s0 s \<longleftrightarrow>
     vm_ok s R F \<and> step_kept (range_pages base (length qs)) pml4 R F s0 s \<and>
     (\<forall>j < length qs. pt_lookup s0 pml4 (page_at base j) = None \<and>
        pt_lookup s pml4 (page_at base j) = Some (qs ! j OR flags))"

lemma mapped_next:
  assumes v: "valid_range base count" and p: "pml4 \<in> R" and n: "length qs < unat count"
    and h: "mapped_so_far pml4 R F base flags qs s0 s"
    and m: "map_page pml4 (page_at base (length qs)) phys flags flush s = (s', True)"
  shows "mapped_so_far pml4 R F base flags (qs @ [phys]) s0 s'"
proof -
  let ?va = "page_at base (length qs)"
  have ok: "vm_ok s R F" and k: "step_kept (range_pages base (length qs)) pml4 R F s0 s"
    and look: "\<forall>j < length qs. pt_lookup s0 pml4 (page_at base j) = None \<and>
      pt_lookup s pml4 (page_at base j) = Some (qs ! j OR flags)"
    using h by (auto simp: mapped_so_far_def)
  note st = map_page_step [OF ok p m]
  have floor: "page_at base i AND NOT 4095 = page_at base i" if "i < unat count" for i
    by (rule page_floor_id [OF valid_range_page(2) [OF v that]])
  have fresh: "pt_lookup s0 pml4 ?va = None"
    using step_kept_lookup [OF k p, of ?va] page_not_in_range [OF v _ order_refl n] n floor [OF n] st(3)
    by simp
  have "pt_lookup s0 pml4 (page_at base j) = None \<and>
      pt_lookup s' pml4 (page_at base j) = Some ((qs @ [phys]) ! j OR flags)"
    if j: "j < length (qs @ [phys])" for j
  proof (cases "j = length qs")
    case True
    then show ?thesis using fresh st(3) by simp
  next
    case False
    then have j': "j < length qs" using j by simp
    have "page_at base j \<noteq> ?va" using page_at_neq [OF v, of j "length qs"] n j' by simp
    then have "pt_lookup s' pml4 (page_at base j) = pt_lookup s pml4 (page_at base j)"
      using step_kept_lookup [OF st(2) p, of "page_at base j"] floor [of j] n j' by simp
    then show ?thesis using look j' by (simp add: nth_append)
  qed
  moreover have "step_kept (range_pages base (length (qs @ [phys]))) pml4 R F s0 s'"
    using step_kept_trans [OF k st(2)] by (simp add: range_pages_Suc)
  ultimately show ?thesis using st(1) by (simp add: mapped_so_far_def)
qed

text \<open>Giving the pages mapped so far back restores every translation of the address space.\<close>

lemma mapped_undo:
  assumes v: "valid_range base count" and p: "pml4 \<in> R" and n: "0 < length qs" "length qs \<le> unat count"
    and h: "mapped_so_far pml4 R F base flags qs s0 s"
    and u: "vmm_unmap_pages_in pml4 base (of_nat (length qs)) s = (s', r)"
  shows "vm_ok s' R F" and "step_kept (range_pages base (length qs)) pml4 R F s0 s'"
    and "pt_lookup s' pml4 vb = pt_lookup s0 pml4 vb"
proof -
  have ok: "vm_ok s R F" and k: "step_kept (range_pages base (length qs)) pml4 R F s0 s"
    and look: "\<forall>j < length qs. pt_lookup s0 pml4 (page_at base j) = None"
    using h by (auto simp: mapped_so_far_def)
  note vp = valid_range_prefix [OF v n]
  note um = unmap_pages_spec [OF ok p vp(1) u, unfolded vp(2)]
  show "vm_ok s' R F" by (rule um(1))
  show k': "step_kept (range_pages base (length qs)) pml4 R F s0 s'"
    using step_kept_trans [OF k um(2)] by simp
  show "pt_lookup s' pml4 vb = pt_lookup s0 pml4 vb"
  proof (cases "vb AND NOT 4095 \<in> range_pages base (length qs)")
    case False
    then show ?thesis by (rule step_kept_lookup [OF k' p])
  next
    case True
    then obtain j where j: "j < length qs" "vb AND NOT 4095 = page_at base j"
      by (auto simp: range_pages_def)
    have "canonical (page_at base j)" using valid_range_page(3) [OF v] j(1) n(2) by simp
    then have "pt_lookup s' pml4 vb = pt_lookup s' pml4 (page_at base j)"
      "pt_lookup s0 pml4 vb = pt_lookup s0 pml4 (page_at base j)"
      using page_lookup [OF _ j(2)] by blast+
    then show ?thesis using um(3) look j(1) by simp
  qed
qed

lemma map_pages_loop_spec:
  assumes v: "valid_range base count" and p: "pml4 \<in> R" and n: "length qs + length ps \<le> unat count"
    and h: "mapped_so_far pml4 R F base flags qs s0 s"
    and m: "map_pages_loop pml4 base flags (length qs) ps s = (s', ok)"
  shows "if ok then mapped_so_far pml4 R F base flags (qs @ ps) s0 s'
    else vm_ok s' R F \<and> (\<exists>k \<le> unat count. step_kept (range_pages base k) pml4 R F s0 s') \<and>
      (\<forall>vb. pt_lookup s' pml4 vb = pt_lookup s0 pml4 vb)"
  using n h m
proof (induction ps arbitrary: qs s)
  case Nil
  have k: "step_kept (range_pages base (length qs)) pml4 R F s0 (tlb_shootdown pml4 UINT64_MAX s)"
    using step_kept_trans [OF _ step_kept_shootdown] Nil.prems(2) by (auto simp: mapped_so_far_def)
  show ?case using Nil.prems(2,3) k by (auto simp: mapped_so_far_def)
next
  case (Cons phys ps)
  obtain t r where t: "map_page pml4 (page_at base (length qs)) phys flags False s = (t, r)" by fastforce
  show ?case
  proof (cases r)
    case True
    have n: "length qs < unat count" using Cons.prems(1) by simp
    have "mapped_so_far pml4 R F base flags (qs @ [phys]) s0 t"
      by (rule mapped_next [OF v p n Cons.prems(2)]) (use t True in simp)
    from Cons.IH [OF _ this] show ?thesis using Cons.prems(1,3) t True by (cases ok) simp_all
  next
    case False
    have ok: "vm_ok s R F" and k: "step_kept (range_pages base (length qs)) pml4 R F s0 s"
      using Cons.prems(2) by (simp_all add: mapped_so_far_def)
    note st = map_page_step [OF ok p t]
    have k': "step_kept (range_pages base (length qs)) pml4 R F s0 t"
      using step_kept_trans [OF k st(2)] False by simp
    have same: "pt_lookup t pml4 vb = pt_lookup s pml4 vb" for vb
      using step_kept_lookup [OF st(2) p] False by simp
    then have h': "mapped_so_far pml4 R F base flags qs s0 t"
      using Cons.prems(2) k' st(1) by (simp add: mapped_so_far_def)
    show ?thesis
    proof (cases "qs = []")
      case True
      then have "\<forall>vb. pt_lookup s pml4 vb = pt_lookup s0 pml4 vb"
        using step_kept_lookup [OF k p] by (simp add: range_pages_def)
      then show ?thesis using t False Cons.prems(3) st(1) k' same True by (auto intro!: exI [of _ 0])
    next
      case ne: False
      obtain u x where u: "vmm_unmap_pages_in pml4 base (of_nat (length qs)) t = (u, x)" by fastforce
      have n: "0 < length qs" "length qs \<le> unat count" using ne Cons.prems(1) by simp_all
      note un = mapped_undo [OF v p n h' u]
      have "s' = u" "\<not> ok" using t False Cons.prems(3) u ne by simp_all
      then show ?thesis using un n(2) by auto
    qed
  qed
qed

lemma map_pages_spec:
  assumes ok: "vm_ok s R F" and p: "pml4 \<in> R" and n: "unat count \<le> length ps"
    and m: "vmm_map_pages_in pml4 base (Some ps) count flags s = (s', ok)"
  shows "vm_ok s' R F"
    and "ok \<Longrightarrow> valid_range base count"
    and "ok \<Longrightarrow> step_kept (range_pages base (unat count)) pml4 R F s s'"
    and "ok \<Longrightarrow> i < unat count \<Longrightarrow> pt_lookup s pml4 (page_at base i) = None \<and>
      pt_lookup s' pml4 (page_at base i) = Some (ps ! i OR flags)"
    and "\<not> ok \<Longrightarrow> pt_lookup s' pml4 vb = pt_lookup s pml4 vb"
    and "\<not> ok \<Longrightarrow> \<exists>k \<le> unat count. step_kept (range_pages base k) pml4 R F s s'"
proof -
  obtain \<rho> where "\<rho> pml4 = Some (3, pml4, 0)" "pt_inv s \<rho>" using vm_ok_root [OF ok p] by blast
  then have p0: "pml4 \<noteq> 0" using pt_invD(2) by blast
  let ?qs = "take (unat count) ps"
  have len: "length ?qs = unat count" using n by simp
  have "vm_ok s' R F \<and>
    (ok \<longrightarrow> valid_range base count \<and> mapped_so_far pml4 R F base flags ?qs s s') \<and>
    (\<not> ok \<longrightarrow> (\<forall>vb. pt_lookup s' pml4 vb = pt_lookup s pml4 vb) \<and>
       (\<exists>k \<le> unat count. step_kept (range_pages base k) pml4 R F s s'))"
  proof (cases "valid_range base count")
    case False
    then have "s' = s" "\<not> ok" using m by (simp_all add: vmm_map_pages_in_def)
    then show ?thesis using assms(1) by (auto intro!: exI [of _ 0])
  next
    case True
    have start: "mapped_so_far pml4 R F base flags [] s s"
      using assms(1) by (simp add: mapped_so_far_def range_pages_def)
    have "map_pages_loop pml4 base flags (length []) ?qs s = (s', ok)"
      using m True p0 by (simp add: vmm_map_pages_in_def)
    from map_pages_loop_spec [OF True p _ start this]
    show ?thesis using True by (cases ok) (auto simp: mapped_so_far_def)
  qed
  note h = this [unfolded mapped_so_far_def len]
  show "vm_ok s' R F" and "ok \<Longrightarrow> valid_range base count"
    and "ok \<Longrightarrow> step_kept (range_pages base (unat count)) pml4 R F s s'"
    and "ok \<Longrightarrow> i < unat count \<Longrightarrow> pt_lookup s pml4 (page_at base i) = None \<and>
      pt_lookup s' pml4 (page_at base i) = Some (ps ! i OR flags)"
    and "\<not> ok \<Longrightarrow> pt_lookup s' pml4 vb = pt_lookup s pml4 vb"
    and "\<not> ok \<Longrightarrow> \<exists>k \<le> unat count. step_kept (range_pages base k) pml4 R F s s'"
    using h by (blast, blast, blast, simp, blast, blast)
qed

text \<open>A range of user pages.\<close>

lemma user_range_page:
  assumes v: "valid_range base count" and top: "unat base + unat count * 4096 \<le> 2 ^ 47" and i: "i < unat count"
  shows "page_at base i < USER_TOP"
  using valid_range_page(1) [OF v i] top i by (simp add: word_less_nat_alt)

lemma map_pages_failed:
  assumes ok: "vm_ok s R F" and p: "pml4 \<in> R" and n: "unat count \<le> length ps"
    and m: "vmm_map_pages_in pml4 base (Some ps) count flags s = (s', False)"
    and v: "valid_range base count" and top: "unat base + unat count * 4096 \<le> 2 ^ 47"
  shows "step_kept {} pml4 R F s s'"
proof -
  note mp = map_pages_spec(5,6) [OF ok p n m]
  obtain k where k: "k \<le> unat count" "step_kept (range_pages base k) pml4 R F s s'" using mp(2) by blast
  have "pt_lookup s' r vb = pt_lookup s r vb" if r: "r \<in> R" for r vb
  proof (cases "r = pml4")
    case False
    have "vb AND NOT 4095 < USER_TOP" if "vb AND NOT 4095 \<in> range_pages base k"
      using that user_range_page [OF v top] k(1) by (auto simp: range_pages_def)
    then show ?thesis using k(2) r False unfolding step_kept_def only_pages_def by blast
  qed (use mp(1) in simp)
  then show ?thesis using k(2) by (simp add: step_kept_def only_pages_def)
qed

text \<open>
  C2: mapping a range is all or nothing: on success every page was unmapped and now translates to the
  frame given for it, and unmapping the range again counts all its pages and restores every translation
  of the address space; on failure every translation is as before. In any case no page outside the
  range changes, user pages change in no other address space, the tables stay well-formed, and the
  bytes and reference counts of the frames that hold data are untouched.
\<close>

theorem map_range_correct:
  assumes "vm_ok s R F" and "pml4 \<in> R" and "unat count \<le> length ps"
    and "vmm_map_pages_in pml4 base (Some ps) count flags s = (s', ok)"
  shows "vm_ok s' R F \<and> step_kept (range_pages base (unat count)) pml4 R F s s' \<and>
    (if ok
     then (\<forall>i < unat count. pt_lookup s pml4 (page_at base i) = None \<and>
             pt_lookup s' pml4 (page_at base i) = Some (ps ! i OR flags)) \<and>
          (case vmm_unmap_pages_in pml4 base count s' of
             (s'', removed) \<Rightarrow> removed = count \<and> vm_ok s'' R F \<and>
               step_kept (range_pages base (unat count)) pml4 R F s' s'' \<and>
               (\<forall>vb. pt_lookup s'' pml4 vb = pt_lookup s pml4 vb))
     else \<forall>vb. pt_lookup s' pml4 vb = pt_lookup s pml4 vb)"
proof (cases ok)
  case True
  note mp = map_pages_spec [OF assms]
  have v: "valid_range base count" and k: "step_kept (range_pages base (unat count)) pml4 R F s s'"
    and look: "\<forall>i < unat count. pt_lookup s pml4 (page_at base i) = None \<and>
      pt_lookup s' pml4 (page_at base i) = Some (ps ! i OR flags)"
    using mp(2-4) True by blast+
  obtain s'' removed where u: "vmm_unmap_pages_in pml4 base count s' = (s'', removed)" by fastforce
  note um = unmap_pages_spec [OF mp(1) assms(2) v u]
  have c: "0 < unat count" using v by (simp add: valid_range_def Let_def unat_gt_0)
  have len: "length (take (unat count) ps) = unat count" using assms(3) by simp
  have m: "mapped_so_far pml4 R F base flags (take (unat count) ps) s s'"
    using mp(1) k look unfolding mapped_so_far_def len by simp
  have undone: "\<forall>vb. pt_lookup s'' pml4 vb = pt_lookup s pml4 vb"
    using mapped_undo(3) [OF v assms(2) _ _ m, unfolded len] u c by simp
  have "filter (\<lambda>i. pt_lookup s' pml4 (page_at base i) \<noteq> None) [0 ..< unat count] = [0 ..< unat count]"
    using look by simp
  then have "removed = count" using um(4) by simp
  then show ?thesis using mp(1) True k look um(1,2) undone by (simp add: u)
next
  case False
  note mp = map_pages_spec [OF assms]
  obtain k where k: "k \<le> unat count" "step_kept (range_pages base k) pml4 R F s s'"
    using mp(6) False by blast
  have "range_pages base k \<subseteq> range_pages base (unat count)" using k(1) by (auto simp: range_pages_def)
  then have "step_kept (range_pages base (unat count)) pml4 R F s s'"
    using k(2) unfolding step_kept_def only_pages_def by blast
  then show ?thesis using mp(1,5) False by simp
qed

lemma map_page_flush: "snd (map_page pml4 va phys flags flush s) = snd (map_page pml4 va phys flags True s)"
  by (simp add: map_page_def Let_def split: prod.split option.split)

lemma tiny_map_one: "snd (vmm_map_pages_in tiny_root 0x400000 (Some [0x5000]) 1 7 tiny_machine)"
proof -
  have "snd (vmm_map_page_in tiny_root 0x400000 0x5000 7 tiny_machine)"
    using map_page_room [OF tiny_vm_ok _ tiny_args tiny_root_absent tiny_free] by simp
  then have "snd (map_page tiny_root 0x400000 0x5000 7 False tiny_machine)"
    by (subst map_page_flush) (simp add: vmm_map_page_in_def)
  then obtain s1 where "map_page tiny_root 0x400000 0x5000 7 False tiny_machine = (s1, True)"
    by (metis prod.collapse)
  moreover have "valid_range 0x400000 1" by (simp add: valid_range_def canonical_def)
  moreover have "tiny_root \<noteq> 0" by (simp add: tiny_root_def)
  ultimately show ?thesis by (simp add: vmm_map_pages_in_def page_at_def)
qed

lemma map_range_correct_witness:
  "pt_lookup (fst (vmm_map_pages_in tiny_root 0x400000 (Some [0x5000]) 1 7 tiny_machine))
     tiny_root 0x400000 = Some 0x5007"
proof -
  obtain s' where m: "vmm_map_pages_in tiny_root 0x400000 (Some [0x5000]) 1 7 tiny_machine = (s', True)"
    using tiny_map_one by (metis prod.collapse)
  have "vm_ok tiny_machine {tiny_root} {}" by (rule tiny_vm_ok)
  from map_range_correct [OF this _ _ m]
  have "pt_lookup s' tiny_root (page_at 0x400000 0) = Some ([0x5000] ! 0 OR 7)" by simp
  then show ?thesis using m by (simp add: page_at_def)
qed

end
