(* ===== verification/UserFind.thy ===== *)
theory UserFind
  imports TaskLife VmmRange
begin

text \<open>
  The search of \<^verbatim>\<open>user_find_free_range\<close> in \<^verbatim>\<open>mm/user_memory.c\<close>: it returns, and what it returns is
  the first fit. A range is free when neither it nor the guard page behind it meets a region that the
  process has (guard pages included) or a page that is mapped.
\<close>

section \<open>Regions\<close>

definition task_regions :: "task \<Rightarrow> (u64 \<times> u32) list" where
  "task_regions t = map (\<lambda>(p, a). (a_base a, a_pages a)) (allocations t) @
     map (\<lambda>a. (at_vaddr a, at_page_count a)) (filter (\<lambda>a. at_shmid a \<ge> 0) (shm_attached t))"

definition region_end :: "u64 \<times> u32 \<Rightarrow> nat" where
  "region_end r = unat (fst r) + (unat (snd r) + 1) * 4096"

definition region_ok :: "u64 \<times> u32 \<Rightarrow> bool" where
  "region_ok r \<longleftrightarrow> fst r AND 4095 = 0 \<and> region_end r < 2 ^ 64"

definition meets :: "u64 \<Rightarrow> nat \<Rightarrow> u64 \<times> u32 \<Rightarrow> bool" where
  "meets c bytes r \<longleftrightarrow> unat c < region_end r \<and> unat (fst r) < unat c + bytes"

abbreviation span_of :: "u32 \<Rightarrow> nat" where "span_of pages \<equiv> (unat pages + 1) * 4096"

definition range_free :: "task \<Rightarrow> 'a machine_scheme \<Rightarrow> u32 \<Rightarrow> u64 \<Rightarrow> bool" where
  "range_free t s pages c \<longleftrightarrow> (\<forall>r \<in> set (task_regions t). \<not> meets c (span_of pages) r) \<and>
     (\<forall>i \<le> unat pages. vmm_pte_in s (t_pml4 t) (page_at c i) = None)"

lemma unat_span: "unat ((ucast (pages :: u32) + 1) * 4096 :: u64) = span_of pages"
proof -
  have "unat pages < 2 ^ 32" by (rule unat32_less)
  then show ?thesis by (simp add: unat_word_ariths)
qed

lemma aligned_nat: "(c :: u64) AND 4095 = 0 \<longleftrightarrow> unat c mod 4096 = 0"
  by (metis word_page_and unat_eq_zero)

lemma unat_region_stop:
  assumes "region_ok (b, p)"
  shows "unat (region_stop b p) = region_end (b, p)"
  using assms unat_add_lem [THEN iffD1, of b "(ucast p + 1) * 4096"] unat_span [of p]
  by (simp add: region_stop_def region_ok_def region_end_def)

lemma skip_region_nat:
  assumes "region_ok (b, p)" and "unat c + unat span < 2 ^ 64"
  shows "skip_region c span b p skip =
    (if meets c (unat span) (b, p) \<and> unat skip < region_end (b, p) then region_stop b p else skip)"
  using unat_region_stop [OF assms(1)] unat_add_lem [THEN iffD1, of c span] assms(2)
  by (simp add: skip_region_def meets_def Let_def word_less_nat_alt)

lemma skip_regions_fold:
  "skip_regions t c span = fold (\<lambda>(b, p). skip_region c span b p) (task_regions t) c"
proof -
  have "fold (\<lambda>a skip. if at_shmid a \<ge> 0 then skip_region c span (at_vaddr a) (at_page_count a) skip else skip) as k =
      fold (\<lambda>(b, p). skip_region c span b p)
        (map (\<lambda>a. (at_vaddr a, at_page_count a)) (filter (\<lambda>a. at_shmid a \<ge> 0) as)) k" for as k
    by (induction as arbitrary: k) simp_all
  then show ?thesis
    by (simp add: skip_regions_def task_regions_def Let_def fold_map comp_def case_prod_unfold)
qed

lemma region_end_aligned: "region_ok r \<Longrightarrow> region_end r mod 4096 = 0"
  by (simp add: region_ok_def region_end_def aligned_nat flip: dvd_eq_mod_eq_0)

text \<open>The scan over the regions moves to the last end among those that the candidate meets.\<close>

lemma skip_regions_spec:
  assumes "\<forall>r \<in> set rs. region_ok r" and "unat c + unat span < 2 ^ 64" and "unat skip mod 4096 = 0"
    and "k = fold (\<lambda>(b, p). skip_region c span b p) rs skip"
  shows "unat skip \<le> unat k \<and> unat k mod 4096 = 0 \<and>
    (k = skip \<or> (\<exists>r \<in> set rs. meets c (unat span) r \<and> unat k = region_end r)) \<and>
    (\<forall>r \<in> set rs. meets c (unat span) r \<longrightarrow> region_end r \<le> unat k)"
  using assms
proof (induction rs arbitrary: skip)
  case Nil
  then show ?case by simp
next
  case (Cons r rs)
  obtain b p where r: "r = (b, p)" by (cases r)
  have ok: "region_ok (b, p)" using Cons.prems(1) r by simp
  define k1 where "k1 = skip_region c span b p skip"
  note k1 = skip_region_nat [OF ok Cons.prems(2), of skip, folded k1_def]
  have al: "unat k1 mod 4096 = 0"
    using k1 Cons.prems(3) unat_region_stop [OF ok] region_end_aligned [OF ok] by simp
  have "k = fold (\<lambda>(b, p). skip_region c span b p) rs k1" using Cons.prems(4) r by (simp add: k1_def)
  note ih = Cons.IH [OF _ Cons.prems(2) al this]
  show ?case
  proof (cases "meets c (unat span) (b, p) \<and> unat skip < region_end (b, p)")
    case True
    then have "k1 = region_stop b p" using k1 by simp
    then have "unat k1 = region_end (b, p)" using unat_region_stop [OF ok] by simp
    then show ?thesis using ih Cons.prems(1) True r by auto
  next
    case False
    then have "k1 = skip" using k1 by auto
    then show ?thesis using ih Cons.prems(1) False r by auto
  qed
qed

lemma meets_later:
  "meets c bytes r \<Longrightarrow> unat c \<le> unat d \<Longrightarrow> unat d < region_end r \<Longrightarrow> meets d bytes r"
  by (simp add: meets_def)

section \<open>First fit\<close>

text \<open>\<open>d\<close> is the first fit from \<open>c\<close> on; 0 means that there is none.\<close>

definition first_fit :: "task \<Rightarrow> 'a machine_scheme \<Rightarrow> u64 \<Rightarrow> u32 \<Rightarrow> u64 \<Rightarrow> u64 \<Rightarrow> bool" where
  "first_fit t s end_addr pages c d \<longleftrightarrow>
     (d \<noteq> 0 \<longrightarrow> d AND 4095 = 0 \<and> c \<le> d \<and> unat d + span_of pages \<le> unat end_addr \<and> range_free t s pages d) \<and>
     (\<forall>x. x AND 4095 = 0 \<and> c \<le> x \<and> unat x + span_of pages \<le> unat end_addr \<and> (d = 0 \<or> x < d) \<longrightarrow>
        \<not> range_free t s pages x)"

lemma first_fit_from:
  assumes "first_fit t s end_addr pages k d" and "c \<le> k"
    and "\<And>x. x AND 4095 = 0 \<Longrightarrow> c \<le> x \<Longrightarrow> x < k \<Longrightarrow> \<not> range_free t s pages x"
  shows "first_fit t s end_addr pages c d"
proof -
  have "\<not> range_free t s pages x"
    if x: "x AND 4095 = 0 \<and> c \<le> x \<and> unat x + span_of pages \<le> unat end_addr \<and> (d = 0 \<or> x < d)" for x
  proof (cases "x < k")
    case True
    then show ?thesis using assms(3) x by blast
  next
    case False
    then show ?thesis using assms(1) x unfolding first_fit_def by (meson not_le)
  qed
  moreover have "d \<noteq> 0 \<longrightarrow> c \<le> d" using assms(1,2) unfolding first_fit_def by (meson order_trans)
  ultimately show ?thesis using assms(1) unfolding first_fit_def by blast
qed

lemma page_at_unat: "unat c + i * 4096 < 2 ^ 64 \<Longrightarrow> unat (page_at c i) = unat c + i * 4096"
  using unat_add_small [of c "i * 4096"] by (simp add: page_at_def)

text \<open>No candidate up to a mapped page of a rejected candidate is free.\<close>

lemma mapped_page_blocks:
  assumes "vmm_pte_in s (t_pml4 t) (page_at c i) \<noteq> None" and "i \<le> unat pages"
    and "unat c mod 4096 = 0" "unat x mod 4096 = 0" and "c \<le> x" and "unat x \<le> unat c + i * 4096"
    and "unat c + span_of pages < 2 ^ 64"
  shows "\<not> range_free t s pages x"
proof -
  define j where "j = (unat c + i * 4096 - unat x) div 4096"
  have d: "(unat c + i * 4096 - unat x) mod 4096 = 0"
  proof -
    have "4096 dvd unat c + i * 4096" "4096 dvd unat x" using assms(3,4) by (simp_all add: dvd_eq_mod_eq_0)
    then show ?thesis using dvd_diff_nat [of 4096] by (simp add: mod_eq_0_iff_dvd)
  qed
  then have "j * 4096 = unat c + i * 4096 - unat x" unfolding j_def by (metis div_mult_mod_eq add.right_neutral)
  then have e: "unat x + j * 4096 = unat c + i * 4096" using assms(6) by simp
  have cx: "unat c \<le> unat x" using assms(5) by (simp add: word_le_nat_alt)
  then have "j \<le> i" using e by linarith
  moreover have b: "unat c + i * 4096 < 2 ^ 64"
  proof -
    have "i * 4096 \<le> unat pages * 4096" using assms(2) by simp
    then show ?thesis using assms(7) by simp
  qed
  moreover have "page_at x j = page_at c i"
    using page_at_unat [of x j] page_at_unat [of c i] b e by (simp add: word_unat_eq_iff)
  ultimately show ?thesis using assms(1,2) unfolding range_free_def by (metis order_trans)
qed

lemma find_range_step:
  "find_range t s end_addr pages c =
     (let span = (ucast pages + 1) * PAGE_BYTES
      in if c \<le> end_addr - span
         then let skip = skip_regions t c span
              in if skip \<noteq> c then find_range t s end_addr pages skip
                 else case mapped_page s (t_pml4 t) c pages of
                        None \<Rightarrow> Some c
                      | Some va \<Rightarrow> find_range t s end_addr pages (va + PAGE_BYTES)
         else Some 0)"
  by (rule find_range.simps)

lemma mapped_page_None:
  "mapped_page s pml4 c pages = None \<longleftrightarrow> (\<forall>i \<le> unat pages. vmm_pte_in s pml4 (page_at c i) = None)"
  unfolding mapped_page_def find_None_iff by (auto simp: less_Suc_eq_le simp del: upt_Suc)

lemma mapped_page_Some:
  assumes "mapped_page s pml4 c pages = Some va"
  obtains i where "i \<le> unat pages" "va = page_at c i" "vmm_pte_in s pml4 va \<noteq> None"
proof -
  have "va \<in> set (map (page_at c) [0 ..< Suc (unat pages)])" "vmm_pte_in s pml4 va \<noteq> None"
    using assms unfolding mapped_page_def find_Some_iff by (auto simp del: upt_Suc)
  then show thesis using that by (auto simp: less_Suc_eq_le simp del: upt_Suc)
qed

lemma find_range_first_fit:
  assumes "\<forall>r \<in> set (task_regions t). region_ok r" and "end_addr \<le> USER_TOP"
    and "span_of pages \<le> unat end_addr" and "c AND 4095 = 0" and "c \<noteq> 0"
  shows "\<exists>d. find_range t s end_addr pages c = Some d \<and> first_fit t s end_addr pages c d"
  using assms(4,5)
proof (induction "unat end_addr - unat c" arbitrary: c rule: less_induct)
  case less
  let ?span = "(ucast pages + 1) * PAGE_BYTES"
  have span: "unat ?span = span_of pages" by (rule unat_span)
  have top: "unat end_addr \<le> 2 ^ 47" using assms(2) by (simp add: word_le_nat_alt)
  have sub: "unat (end_addr - ?span) = unat end_addr - span_of pages"
    using unat_sub [of ?span end_addr] assms(3) span by (simp add: word_le_nat_alt)
  show ?case
  proof (cases "c \<le> end_addr - ?span")
    case False
    then have "unat end_addr < unat c + span_of pages" using sub by (simp add: word_le_nat_alt)
    then have "\<not> unat x + span_of pages \<le> unat end_addr" if "c \<le> x" for x
      using that by (simp add: word_le_nat_alt)
    then have "first_fit t s end_addr pages c 0" unfolding first_fit_def by blast
    then show ?thesis using False by (subst find_range_step) (simp add: Let_def)
  next
    case True
    then have fit: "unat c + span_of pages \<le> unat end_addr"
      using sub assms(3) by (simp add: word_le_nat_alt)
    then have small: "unat c + unat ?span < 2 ^ 64" using span top by simp
    define k where "k = skip_regions t c ?span"
    have cal: "unat c mod 4096 = 0" using less.prems(1) aligned_nat by blast
    note sk = skip_regions_spec [OF assms(1) small cal k_def [unfolded skip_regions_fold], unfolded span]
    show ?thesis
    proof (cases "k = c")
      case False
      then have lt: "unat c < unat k" using sk by (simp add: word_unat_eq_iff)
      obtain r where r: "r \<in> set (task_regions t)" "meets c (span_of pages) r" "unat k = region_end r"
        using sk False by blast
      have "unat end_addr - unat k < unat end_addr - unat c" using lt fit by simp
      then obtain d where d: "find_range t s end_addr pages k = Some d" "first_fit t s end_addr pages k d"
        using less.hyps [of k] sk lt aligned_nat by (metis not_less_zero unat_0)
      have "first_fit t s end_addr pages c d"
      proof (rule first_fit_from [OF d(2)])
        show "c \<le> k" using lt by (simp add: word_le_nat_alt)
        show "\<not> range_free t s pages x" if "c \<le> x" "x < k" for x
          using meets_later [OF r(2), of x] r(1,3) that
          unfolding range_free_def by (auto simp: word_le_nat_alt word_less_nat_alt)
      qed
      then show ?thesis using True False d(1) by (subst find_range_step) (simp add: Let_def k_def)
    next
      case kc: True
      have unmet: "\<not> meets c (span_of pages) r" if "r \<in> set (task_regions t)" for r
        using sk kc that by (auto simp: meets_def)
      show ?thesis
      proof (cases "mapped_page s (t_pml4 t) c pages")
        case None
        then have "range_free t s pages c" using unmet mapped_page_None unfolding range_free_def by blast
        then have "first_fit t s end_addr pages c c"
          using fit less.prems unfolding first_fit_def by (meson not_le order_refl)
        then show ?thesis using True kc None by (subst find_range_step) (simp add: Let_def k_def)
      next
        case (Some va)
        then obtain i where i: "i \<le> unat pages" "va = page_at c i" "vmm_pte_in s (t_pml4 t) va \<noteq> None"
          by (rule mapped_page_Some)
        have ib: "i * 4096 \<le> unat pages * 4096" using i(1) by simp
        have va: "unat va = unat c + i * 4096"
          unfolding i(2) by (rule page_at_unat) (use fit top ib in simp)
        have nx: "unat (va + PAGE_BYTES) = unat c + i * 4096 + 4096"
          using unat_add_small [of va 4096] va fit top ib by simp
        have "unat end_addr - unat (va + PAGE_BYTES) < unat end_addr - unat c" using nx fit by simp
        moreover have "(va + PAGE_BYTES) AND 4095 = 0" using nx cal aligned_nat by simp
        moreover have "va + PAGE_BYTES \<noteq> 0" using nx by (metis add_is_0 unat_0 zero_neq_numeral)
        ultimately obtain d where d: "find_range t s end_addr pages (va + PAGE_BYTES) = Some d"
            "first_fit t s end_addr pages (va + PAGE_BYTES) d"
          using less.hyps by blast
        have "first_fit t s end_addr pages c d"
        proof (rule first_fit_from [OF d(2)])
          show "c \<le> va + PAGE_BYTES" using nx by (simp add: word_le_nat_alt)
          show "\<not> range_free t s pages x" if x: "x AND 4095 = 0" "c \<le> x" "x < va + PAGE_BYTES" for x
          proof (rule mapped_page_blocks [OF i(3) [unfolded i(2)] i(1) cal _ x(2)])
            show xal: "unat x mod 4096 = 0" using x(1) aligned_nat by blast
            show "unat x \<le> unat c + i * 4096"
            proof (rule ccontr)
              assume "\<not> unat x \<le> unat c + i * 4096"
              moreover have "unat x < unat c + i * 4096 + 4096" using x(3) nx by (simp add: word_less_nat_alt)
              moreover obtain a b where "unat x = 4096 * a" "unat c = 4096 * b"
                using page_aligned [OF x(1)] page_aligned [OF less.prems(1)] by metis
              ultimately have "4096 * (b + i) < 4096 * a" "4096 * a < 4096 * (b + i + 1)" by simp_all
              then have "b + i < a" "a < b + i + 1" unfolding mult_less_cancel1 by blast+
              then show False by simp
            qed
            show "unat c + span_of pages < 2 ^ 64" using fit top by simp
          qed
        qed
        then show ?thesis using True kc Some d(1) by (subst find_range_step) (simp add: Let_def k_def)
      qed
    qed
  qed
qed

section \<open>The search\<close>

lemma user_find_free_range_fit:
  assumes "t \<noteq> 0" and "t_pml4 (tasks s t) \<noteq> 0" and "pages \<noteq> 0" and "start \<noteq> 0" and "start AND 4095 = 0"
    and "end_addr \<le> USER_TOP" and "\<forall>r \<in> set (task_regions (tasks s t)). region_ok r"
  shows "\<exists>d. user_find_free_range t start end_addr pages s = Some d \<and>
    first_fit (tasks s t) s end_addr pages start d"
proof (cases "start \<ge> end_addr \<or> (ucast pages + 1) * PAGE_BYTES > end_addr - start")
  case True
  have "\<not> unat x + span_of pages \<le> unat end_addr" if "start \<le> x" for x
  proof (cases "start \<ge> end_addr")
    case True
    then show ?thesis using that by (simp add: word_le_nat_alt)
  next
    case False
    then have "unat (end_addr - start) = unat end_addr - unat start"
      by (intro unat_sub) (simp add: word_le_nat_alt)
    then show ?thesis
      using True False unat_span [of pages] that by (simp add: word_le_nat_alt word_less_nat_alt)
  qed
  then have "first_fit (tasks s t) s end_addr pages start 0" unfolding first_fit_def by blast
  then show ?thesis using True by (auto simp: user_find_free_range_def Let_def)
next
  case False
  then have "start \<le> end_addr" by (meson less_imp_le not_le)
  then have "unat (end_addr - start) = unat end_addr - unat start" by (simp add: unat_sub word_le_nat_alt)
  then have "\<not> unat end_addr - unat start < span_of pages"
    using False unat_span [of pages] unfolding word_less_nat_alt by simp
  then have "span_of pages \<le> unat end_addr" by linarith
  from find_range_first_fit [OF assms(7,6) this assms(5,4), of s] show ?thesis
    using assms False by (auto simp: user_find_free_range_def Let_def not_le not_less)
qed

text \<open>
  C22: the search for a free range of user addresses always returns, and returns the first fit: an
  aligned range inside the limits that meets no region of the process, guard pages included, and no
  mapped page, such that no earlier range would do; or 0 when no range of that size would do.
\<close>

theorem find_range_correct:
  assumes "t \<noteq> 0" and "t_pml4 (tasks s t) \<noteq> 0" and "pages \<noteq> 0" and "start \<noteq> 0" and "start AND 4095 = 0"
    and "end_addr \<le> USER_TOP" and "\<forall>r \<in> set (task_regions (tasks s t)). region_ok r"
  shows "\<exists>d. user_find_free_range t start end_addr pages s = Some d \<and>
    (d \<noteq> 0 \<longrightarrow> d AND 4095 = 0 \<and> start \<le> d \<and> unat d + (unat pages + 1) * 4096 \<le> unat end_addr \<and>
       range_free (tasks s t) s pages d) \<and>
    (\<forall>x. x AND 4095 = 0 \<and> start \<le> x \<and> unat x + (unat pages + 1) * 4096 \<le> unat end_addr \<and>
       (d = 0 \<or> x < d) \<longrightarrow> \<not> range_free (tasks s t) s pages x)"
  using user_find_free_range_fit [OF assms] unfolding first_fit_def .

text \<open>A process with one allocation of two pages, in the small machine.\<close>

definition tiny_process :: task where
  "tiny_process = (new_task 0 0 0 0)\<lparr>pid := 1, tgid := 1, t_pml4 := tiny_root\<rparr>"

definition tiny_user :: "task \<Rightarrow> shm_state" where
  "tiny_user t = \<lparr>bitmap = bitmap tiny_heap, refcounts = refcounts tiny_heap,
     total_pages = total_pages tiny_heap, free_pages = free_pages tiny_heap,
     last_alloc_index = 0, highest_address = 0x8000, hhdm_offset = hhdm_offset tiny_heap,
     mem = mem tiny_heap, kernel_pml4 = tiny_root, cr3 = 0x1000, active_cr3 = 0x1000, tlb_log = [],
     heap_blocks = heap_blocks tiny_heap, heap_end = heap_end tiny_heap,
     tasks = (\<lambda>_. zero_task)(0x1000 := t), task_list = [0x1000], next_pid = 2, placement_cursor = 0,
     reaper_task = 0, resource_stats = \<lparr>kernel_stack_pages_used = 0, stack_alloc_failures = 0, tasks_reaped = 0\<rparr>,
     cpus = [], cpu_count = 1, bsp_rsp0 = 0, segments = replicate 32 no_segment, next_shmid = 1\<rparr>"

lemma tiny_process_simps [simp]:
  "t_pml4 tiny_process = tiny_root" "allocations tiny_process = []" "pid tiny_process = 1"
  "tgid tiny_process = 1" "is_thread tiny_process = False" "user_pages tiny_process = []"
  "user_vaddrs tiny_process = []" "page_array tiny_process = 0" "user_page_capacity tiny_process = 32"
  "shm_attached tiny_process = replicate 16 no_attachment" "tstate tiny_process = TASK_READY"
  by (simp_all add: tiny_process_def new_task_def Let_def zero_task_def user_memory_init_def
      task_init_priority_def zero_attachment_def no_attachment_def)

definition one_allocation :: task where
  "one_allocation = tiny_process\<lparr>allocations := [(0x2000, \<lparr>a_base = 0x60000000, a_size = 5000, a_pages = 2\<rparr>)]\<rparr>"

lemma find_range_correct_witness:
  "\<exists>d. user_find_free_range 0x1000 USER_HEAP_BASE USER_HEAP_END 3 (tiny_user one_allocation) = Some d \<and>
     d \<noteq> 0x60000000"
proof -
  have "range_free one_allocation (tiny_user one_allocation) 3 0x60000000 = False"
    by (simp add: range_free_def one_allocation_def task_regions_def meets_def region_end_def)
  then show ?thesis
    using find_range_correct [where t = "0x1000" and s = "tiny_user one_allocation" and pages = 3 and
      start = USER_HEAP_BASE and end_addr = USER_HEAP_END]
    by (auto simp: tiny_user_def tiny_root_def one_allocation_def task_regions_def region_ok_def region_end_def
        no_attachment_def)
qed

end
