(* ===== verification/SchedInv.thy ===== *)
theory SchedInv
  imports Sched
begin

text \<open>
  The scheduler as a transition system. Every operation on tasks is an atomic step, since it holds the
  mutation lock; the steps of different CPUs interleave freely. The invariant says who owns a kernel
  stack: a task is on at most one CPU, running there or just switched away from.
\<close>

section \<open>Access to the two tables\<close>

lemma tasks_upd_task [simp]: "tasks (upd_task a f s) = (tasks s)(a := f (tasks s a))"
  by (simp add: upd_task_def)

lemma upd_task_fields [simp]:
  "task_list (upd_task a f s) = task_list s" "next_pid (upd_task a f s) = next_pid s"
  "reaper_task (upd_task a f s) = reaper_task s" "cpus (upd_task a f s) = cpus s"
  "cpu_count (upd_task a f s) = cpu_count s"
  by (simp_all add: upd_task_def)

lemma percpu_upd_task [simp]: "percpu_get c (upd_task a f s) = percpu_get c s"
  by (simp add: percpu_get_def)

lemma upd_cpu_fields [simp]:
  "tasks (upd_cpu c f s) = tasks s" "task_list (upd_cpu c f s) = task_list s"
  "next_pid (upd_cpu c f s) = next_pid s" "reaper_task (upd_cpu c f s) = reaper_task s"
  "cpu_count (upd_cpu c f s) = cpu_count s" "length (cpus (upd_cpu c f s)) = length (cpus s)"
  by (simp_all add: upd_cpu_def)

lemma cpu_slot_less [simp]: "cpu_slot c < 16"
  by (simp add: cpu_slot_def)

lemma percpu_upd_cpu:
  "length (cpus s) = 16 \<Longrightarrow>
    percpu_get i (upd_cpu c f s) = (if cpu_slot i = cpu_slot c then f (percpu_get i s) else percpu_get i s)"
  by (simp add: percpu_get_def upd_cpu_def nth_list_update)

lemma cpu_slot_inj: "c < n \<Longrightarrow> c' < n \<Longrightarrow> unat n \<le> 16 \<Longrightarrow> cpu_slot c = cpu_slot c' \<longleftrightarrow> c = c'"
  by (auto simp: cpu_slot_def word_less_nat_alt word_unat_eq_iff)

lemma each_task_apply:
  "distinct (task_list s) \<Longrightarrow>
    tasks (each_task f s) = (\<lambda>a. if a \<in> set (task_list s) then f (tasks s a) else tasks s a)"
proof -
  have "distinct l \<Longrightarrow> tasks (fold (\<lambda>a. upd_task a f) l s) = (\<lambda>a. if a \<in> set l then f (tasks s a) else tasks s a)" for l
    by (induction l arbitrary: s) auto
  then show "distinct (task_list s) \<Longrightarrow> ?thesis" by (simp add: each_task_def)
qed

lemma fold_upd_frame:
  "task_list (fold (\<lambda>a. upd_task a f) l s) = task_list s" "next_pid (fold (\<lambda>a. upd_task a f) l s) = next_pid s"
  "reaper_task (fold (\<lambda>a. upd_task a f) l s) = reaper_task s" "cpus (fold (\<lambda>a. upd_task a f) l s) = cpus s"
  "cpu_count (fold (\<lambda>a. upd_task a f) l s) = cpu_count s"
  by (induction l arbitrary: s) simp_all

lemma each_task_fields [simp]:
  "task_list (each_task f s) = task_list s" "next_pid (each_task f s) = next_pid s"
  "reaper_task (each_task f s) = reaper_task s" "cpus (each_task f s) = cpus s"
  "cpu_count (each_task f s) = cpu_count s"
  by (simp_all add: each_task_def fold_upd_frame)

lemma percpu_each_task [simp]: "percpu_get c (each_task f s) = percpu_get c s"
  by (simp add: percpu_get_def)

lemma current_cong: "cpus s' = cpus s \<Longrightarrow> current_task c s' = current_task c s"
  by (simp add: current_task_def percpu_get_def)

lemma current_upd_task [simp]: "current_task c (upd_task a f s) = current_task c s"
  by (simp add: current_task_def)

lemma find_pid_in:
  "task_find_by_pid p s \<noteq> 0 \<Longrightarrow> task_find_by_pid p s \<in> set (task_list s) \<and> pid (tasks s (task_find_by_pid p s)) = p"
  by (auto simp: task_find_by_pid_def dest: find_idx_SomeD split: option.splits)

lemma find_pid_none:
  "0 \<notin> set (task_list s) \<Longrightarrow> task_find_by_pid p s = 0 \<longleftrightarrow> (\<forall>a \<in> set (task_list s). pid (tasks s a) \<noteq> p)"
proof (cases "find_idx (\<lambda>a. pid (tasks s a) = p) (task_list s)")
  case (Some i)
  assume z: "0 \<notin> set (task_list s)"
  have "task_list s ! i \<in> set (task_list s)" "pid (tasks s (task_list s ! i)) = p"
    using find_idx_SomeD [OF Some] by auto
  then show ?thesis using z Some by (auto simp: task_find_by_pid_def)
next
  case None
  then have "task_find_by_pid p s = 0" by (simp add: task_find_by_pid_def)
  then show ?thesis using None by (simp add: find_idx_None_iff)
qed

section \<open>The invariant\<close>

definition owns :: "u32 \<Rightarrow> u64 \<Rightarrow> 'a sched_state_scheme \<Rightarrow> bool" where
  "owns c t s \<longleftrightarrow> t \<in> set (task_list s) \<and> pid (tasks s t) \<noteq> 0 \<and> cpu_id (tasks s t) = c"

definition cpu_ok :: "u32 \<Rightarrow> 'a sched_state_scheme \<Rightarrow> bool" where
  "cpu_ok c s \<longleftrightarrow> (let p = percpu_get c s in
     pc_cpu_id p = c \<and> (idle_task p \<noteq> 0 \<longrightarrow> pid (tasks s (idle_task p)) = 0) \<and>
     (current p \<noteq> 0 \<longrightarrow> idle_task p \<noteq> 0 \<and> (current p = idle_task p \<or> owns c (current p) s)) \<and>
     (retiring p \<noteq> 0 \<longrightarrow> owns c (retiring p) s))"

definition pids :: "'a sched_state_scheme \<Rightarrow> u32 set" where
  "pids s = (\<lambda>a. pid (tasks s a)) ` set (task_list s)"

definition list_ok :: "'a sched_state_scheme \<Rightarrow> bool" where
  "list_ok s \<longleftrightarrow> distinct (task_list s) \<and> 0 \<notin> set (task_list s) \<and>
     inj_on (\<lambda>a. pid (tasks s a)) (set (task_list s)) \<and>
     (\<forall>a \<in> set (task_list s). pid (tasks s a) < next_pid s) \<and>
     0 \<in> pids s"

definition cpus_ok :: "'a sched_state_scheme \<Rightarrow> bool" where
  "cpus_ok s \<longleftrightarrow> length (cpus s) = MAX_CPUS \<and> unat (cpu_count s) \<le> MAX_CPUS \<and>
     (\<forall>c < cpu_count s. cpu_ok c s) \<and>
     (\<forall>c < cpu_count s. \<forall>c' < cpu_count s.
        idle_task (percpu_get c s) = idle_task (percpu_get c' s) \<and> idle_task (percpu_get c s) \<noteq> 0 \<longrightarrow> c = c')"

text \<open>Who waits, waits for a task that is still in the list; the reaper waits for nobody.\<close>

definition waits_ok :: "'a sched_state_scheme \<Rightarrow> bool" where
  "waits_ok s \<longleftrightarrow> wait_target_pid (tasks s (reaper_task s)) = 0 \<and>
     (\<forall>a \<in> set (task_list s). tstate (tasks s a) = TASK_WAITING \<longrightarrow>
        wait_target_pid (tasks s a) \<in> pids s)"

definition sched_inv :: "'a sched_state_scheme \<Rightarrow> bool" where
  "sched_inv s \<longleftrightarrow> list_ok s \<and> cpus_ok s \<and> waits_ok s"

text \<open>Steps that change neither the list nor what identifies a task.\<close>

definition same_tasks :: "'a sched_state_scheme \<Rightarrow> 'a sched_state_scheme \<Rightarrow> bool" where
  "same_tasks s s' \<longleftrightarrow> task_list s' = task_list s \<and> next_pid s' = next_pid s \<and> reaper_task s' = reaper_task s \<and>
     cpu_count s' = cpu_count s \<and>
     (\<forall>a. pid (tasks s' a) = pid (tasks s a) \<and> cpu_id (tasks s' a) = cpu_id (tasks s a))"

definition no_new_waits :: "'a sched_state_scheme \<Rightarrow> 'a sched_state_scheme \<Rightarrow> bool" where
  "no_new_waits s s' \<longleftrightarrow> (\<forall>a. wait_target_pid (tasks s' a) = wait_target_pid (tasks s a) \<and>
     (tstate (tasks s' a) = TASK_WAITING \<longrightarrow> tstate (tasks s a) = TASK_WAITING))"

lemma same_pids: "same_tasks s s' \<Longrightarrow> pids s' = pids s"
  by (simp add: same_tasks_def pids_def)

lemma same_list_ok: "same_tasks s s' \<Longrightarrow> list_ok s \<Longrightarrow> list_ok s'"
  by (simp add: same_pids list_ok_def) (simp add: same_tasks_def inj_on_def)

lemma same_owns: "same_tasks s s' \<Longrightarrow> owns c t s' = owns c t s"
  by (simp add: same_tasks_def owns_def)

lemma same_waits_ok: "same_tasks s s' \<Longrightarrow> no_new_waits s s' \<Longrightarrow> waits_ok s \<Longrightarrow> waits_ok s'"
  by (simp add: same_pids waits_ok_def) (simp add: same_tasks_def no_new_waits_def)

lemma same_cpus_ok: "same_tasks s s' \<Longrightarrow> cpus s' = cpus s \<Longrightarrow> cpus_ok s \<Longrightarrow> cpus_ok s'"
proof -
  assume a: "same_tasks s s'" "cpus s' = cpus s" "cpus_ok s"
  have p: "percpu_get c s' = percpu_get c s" for c using a(2) by (simp add: percpu_get_def)
  have "cpu_ok c s' = cpu_ok c s" for c
    using a(1) by (simp add: cpu_ok_def p same_owns [OF a(1)]) (simp add: same_tasks_def Let_def)
  note ok = this
  have "cpu_count s' = cpu_count s" using a(1) by (simp add: same_tasks_def)
  then show "cpus_ok s'" using a(3) unfolding cpus_ok_def p a(2) ok by metis
qed

lemma same_inv:
  "same_tasks s s' \<Longrightarrow> cpus s' = cpus s \<Longrightarrow> no_new_waits s s' \<Longrightarrow> sched_inv s \<Longrightarrow> sched_inv s'"
  using same_list_ok same_cpus_ok same_waits_ok unfolding sched_inv_def by blast

lemma same_tasks_refl [simp]: "same_tasks s s" and no_new_waits_refl [simp]: "no_new_waits s s"
  by (simp_all add: same_tasks_def no_new_waits_def)

lemma same_tasks_trans: "same_tasks s t \<Longrightarrow> same_tasks t u \<Longrightarrow> same_tasks s u"
  by (simp add: same_tasks_def)

lemma no_new_waits_trans: "no_new_waits s t \<Longrightarrow> no_new_waits t u \<Longrightarrow> no_new_waits s u"
  by (simp add: no_new_waits_def)

section \<open>The operations keep the invariant\<close>

lemma upd_task_same:
  "(\<And>t. pid (f t) = pid t \<and> cpu_id (f t) = cpu_id t) \<Longrightarrow> same_tasks s (upd_task a f s)"
  by (simp add: same_tasks_def)

lemma upd_task_no_waits:
  "(\<And>t. wait_target_pid (f t) = wait_target_pid t \<and> (tstate (f t) = TASK_WAITING \<longrightarrow> tstate t = TASK_WAITING)) \<Longrightarrow>
    no_new_waits s (upd_task a f s)"
  by (simp add: no_new_waits_def)

text \<open>An update that changes neither identity nor waiting, anywhere.\<close>

lemma upd_task_inv:
  assumes "\<And>t. pid (f t) = pid t \<and> cpu_id (f t) = cpu_id t \<and> wait_target_pid (f t) = wait_target_pid t \<and>
      (tstate (f t) = TASK_WAITING \<longrightarrow> tstate t = TASK_WAITING)"
  shows "sched_inv s \<Longrightarrow> sched_inv (upd_task a f s)"
  using assms by (intro same_inv [OF upd_task_same _ upd_task_no_waits]) auto

lemma each_task_inv:
  assumes "\<And>t. pid (f t) = pid t \<and> cpu_id (f t) = cpu_id t \<and> wait_target_pid (f t) = wait_target_pid t \<and>
      (tstate (f t) = TASK_WAITING \<longrightarrow> tstate t = TASK_WAITING)"
  shows "sched_inv s \<Longrightarrow> sched_inv (each_task f s)"
proof -
  have "sched_inv s \<Longrightarrow> sched_inv (fold (\<lambda>a. upd_task a f) l s)" for l
    by (induction l arbitrary: s) (simp_all add: upd_task_inv [OF assms])
  then show "sched_inv s \<Longrightarrow> ?thesis" by (simp add: each_task_def)
qed

lemma wake_keeps [simp]:
  "pid (wake P t) = pid t" "cpu_id (wake P t) = cpu_id t" "wait_target_pid (wake P t) = wait_target_pid t"
  "tstate (wake P t) = TASK_WAITING \<longleftrightarrow> tstate t = TASK_WAITING \<and> \<not> P (wait_target_pid t)"
  by (auto simp: wake_def)

lemma exit_inv: "sched_inv s \<Longrightarrow> sched_inv (exit_current_task c s)"
  by (simp add: exit_current_task_def Let_def each_task_inv upd_task_inv)

lemma abort_inv: "sched_inv s \<Longrightarrow> sched_inv (task_abort_current_group c s)"
  by (simp add: task_abort_current_group_def Let_def exit_inv each_task_inv)

lemma mark_running_inv: "sched_inv s \<Longrightarrow> sched_inv (task_mark_running c s)"
  by (simp add: task_mark_running_def Let_def upd_task_inv)

lemma sleep_inv: "sched_inv s \<Longrightarrow> sched_inv (sleep_current_task c t s)"
  by (simp add: sleep_current_task_def Let_def upd_task_inv)

lemma nice_inv: "sched_inv s \<Longrightarrow> sched_inv (fst (task_set_nice c n s))"
  by (simp add: task_set_nice_def Let_def upd_task_inv)

lemma uid_inv: "sched_inv s \<Longrightarrow> sched_inv (task_set_uid c u g s)"
  by (simp add: task_set_uid_def upd_task_inv)

lemma enter_inv: "sched_inv s \<Longrightarrow> sched_inv (fst (syscall_enter c s))"
  by (simp add: syscall_enter_def exit_inv mark_running_inv)

lemma tick_task_inv: "sched_inv s \<Longrightarrow> sched_inv (tick_task now t s)"
  by (simp add: tick_task_def Let_def upd_task_inv)

lemma ticks_inv: "sched_inv s \<Longrightarrow> sched_inv (fold (tick_task now) l s)"
  by (induction l arbitrary: s) (simp_all add: tick_task_inv)

lemma ticks_fields:
  "task_list (fold (tick_task now) l s) = task_list s" "cpus (fold (tick_task now) l s) = cpus s"
  "cpu_count (fold (tick_task now) l s) = cpu_count s"
  by (induction l arbitrary: s) (simp_all add: tick_task_def Let_def)

lemma wait_inv:
  assumes inv: "sched_inv s" and nr: "current_task c s \<noteq> reaper_task s"
  shows "sched_inv (wait_for_pid c p s)"
proof (cases "wait_for_pid c p s = s")
  case False
  let ?cur = "current_task c s" and ?f = "\<lambda>x. x\<lparr>tstate := TASK_WAITING, wait_target_pid := p\<rparr>"
  have e: "wait_for_pid c p s = upd_task ?cur ?f s" and t: "task_find_by_pid p s \<noteq> 0"
    using False by (auto simp: wait_for_pid_def Let_def split: if_splits)
  have same: "same_tasks s (upd_task ?cur ?f s)" by (simp add: upd_task_same)
  have "p \<in> pids s" using find_pid_in [OF t] unfolding pids_def by (metis image_eqI)
  then have "waits_ok (upd_task ?cur ?f s)"
    using inv nr by (auto simp: sched_inv_def waits_ok_def same_pids [OF same])
  then show ?thesis
    using inv same_list_ok [OF same] same_cpus_ok [OF same] by (simp add: e sched_inv_def)
qed (simp add: inv)

lemma reaper_wait_inv:
  assumes inv: "sched_inv s" and r: "current_task c s = reaper_task s"
  shows "sched_inv (reaper_wait c s)"
proof -
  have same: "same_tasks s (reaper_wait c s)" by (simp add: reaper_wait_def upd_task_same)
  have "waits_ok (reaper_wait c s)"
    using inv r by (auto simp: sched_inv_def waits_ok_def list_ok_def same_pids [OF same]) (auto simp: reaper_wait_def)
  then show ?thesis
    using inv same_list_ok [OF same] same_cpus_ok [OF same] by (simp add: sched_inv_def reaper_wait_def)
qed

text \<open>A step that replaces the data of one CPU.\<close>

lemma replace_cpu_ok:
  assumes ok: "cpus_ok s" and same: "same_tasks s s'" and c: "c < cpu_count s"
    and e: "cpus s' = (cpus s)[cpu_slot c := p]"
    and p: "pc_cpu_id p = c" "idle_task p = idle_task (percpu_get c s)"
      "current p \<noteq> 0 \<Longrightarrow> idle_task p \<noteq> 0 \<and> (current p = idle_task p \<or> owns c (current p) s)"
      "retiring p \<noteq> 0 \<Longrightarrow> owns c (retiring p) s"
  shows "cpus_ok s'"
proof -
  have cnt: "cpu_count s' = cpu_count s" using same by (simp add: same_tasks_def)
  have l: "length (cpus s) = 16" "unat (cpu_count s) \<le> 16" using ok by (simp_all add: cpus_ok_def)
  have get: "percpu_get d s' = (if d = c then p else percpu_get d s)" if "d < cpu_count s" for d
    using l cpu_slot_inj [OF that c l(2)] by (auto simp: percpu_get_def e nth_list_update)
  have idle: "idle_task (percpu_get d s') = idle_task (percpu_get d s)" if "d < cpu_count s" for d
    using get [OF that] p(2) by simp
  have "cpu_ok d s'" if d: "d < cpu_count s" for d
  proof (cases "d = c")
    case True
    have "cpu_ok c s" using ok c by (simp add: cpus_ok_def)
    then show ?thesis using True get [OF d] p same
      by (simp add: cpu_ok_def Let_def same_owns [OF same]) (simp add: same_tasks_def)
  next
    case False
    have "cpu_ok d s" using ok d by (simp add: cpus_ok_def)
    then show ?thesis using False get [OF d] same
      by (simp add: cpu_ok_def Let_def same_owns [OF same]) (simp add: same_tasks_def)
  qed
  moreover have "\<forall>d < cpu_count s. \<forall>d' < cpu_count s.
      idle_task (percpu_get d s') = idle_task (percpu_get d' s') \<and> idle_task (percpu_get d s') \<noteq> 0 \<longrightarrow> d = d'"
    using ok idle unfolding cpus_ok_def by metis
  ultimately show ?thesis using l by (simp add: cpus_ok_def cnt e)
qed

lemma context_enter_inv:
  assumes inv: "sched_inv s" and c: "c < cpu_count s"
  shows "sched_inv (task_context_enter c sp s)"
proof (cases "task_context_enter c sp s = s")
  case False
  let ?s = "upd_cpu c (\<lambda>p. p\<lparr>retiring := 0\<rparr>) s"
  have e: "task_context_enter c sp s = ?s"
    using False by (auto simp: task_context_enter_def Let_def split: if_splits)
  have same: "same_tasks s ?s" "no_new_waits s ?s" by (simp_all add: same_tasks_def no_new_waits_def)
  have ok: "cpus_ok s" "cpu_ok c s" using inv c by (auto simp: sched_inv_def cpus_ok_def)
  have "cpus_ok ?s"
    by (rule replace_cpu_ok [OF ok(1) same(1) c, of "(percpu_get c s)\<lparr>retiring := 0\<rparr>"])
      (use ok(2) in \<open>auto simp: cpu_ok_def Let_def upd_cpu_def percpu_get_def\<close>)
  then show ?thesis
    using inv same_list_ok [OF same(1)] same_waits_ok [OF same] by (simp add: e sched_inv_def)
qed (simp add: inv)

section \<open>The selection\<close>

lemma set_scan_order: "set (scan_order a l) = set l"
proof -
  have "set (dropWhile P l) \<union> set (takeWhile P l) = set l" for P :: "u64 \<Rightarrow> bool"
    by (metis Un_commute set_append takeWhile_dropWhile_id)
  then show ?thesis by (simp add: scan_order_def Let_def)
qed

lemma pick_fold:
  "fold (pick_step c now s) l (b, k) = (b', k') \<Longrightarrow> k \<le> k' \<and> (b' = b \<and> k' = k \<or>
     b' \<in> set l \<and> eligible c now s b' \<and> k' = boosted now (tasks s b')) \<and>
   (\<forall>t \<in> set l. eligible c now s t \<longrightarrow> boosted now (tasks s t) \<le> k')"
proof (induction l arbitrary: b k)
  case Nil
  then show ?case by simp
next
  case (Cons t l)
  obtain b1 k1 where st: "pick_step c now s t (b, k) = (b1, k1)" by fastforce
  have "fold (pick_step c now s) l (b1, k1) = (b', k')" using Cons.prems st by simp
  from Cons.IH [OF this] show ?case using st by (auto simp: pick_step_def split: if_splits)
qed

lemma pick_eligible: "pick c now a s \<noteq> 0 \<Longrightarrow> pick c now a s \<in> set (task_list s) \<and> eligible c now s (pick c now a s)"
proof -
  assume nz: "pick c now a s \<noteq> 0"
  obtain b k where f: "fold (pick_step c now s) (scan_order a (task_list s)) (0, -1) = (b, k)" by fastforce
  then have b: "pick c now a s = b" by (simp add: pick_def)
  show ?thesis using pick_fold [OF f] nz unfolding b by (auto simp: set_scan_order)
qed

section \<open>Switching\<close>

lemma save_context_keeps [simp]:
  "pid (save_context now rs t) = pid t" "cpu_id (save_context now rs t) = cpu_id t"
  "wait_target_pid (save_context now rs t) = wait_target_pid t"
  "tstate (save_context now rs t) = (if tstate t = TASK_RUNNING then TASK_READY else tstate t)"
  "ready_since (save_context now rs t) = (if tstate t = TASK_RUNNING then now else ready_since t)"
  by (auto simp: save_context_def Let_def)

lemma percpu_set_kernel_stack_fields [simp]:
  "tasks (percpu_set_kernel_stack i k s) = tasks s" "task_list (percpu_set_kernel_stack i k s) = task_list s"
  "next_pid (percpu_set_kernel_stack i k s) = next_pid s" "reaper_task (percpu_set_kernel_stack i k s) = reaper_task s"
  "cpu_count (percpu_set_kernel_stack i k s) = cpu_count s"
  by (simp_all add: percpu_set_kernel_stack_def Let_def)

lemma percpu_get_cong: "cpus t = cpus s \<Longrightarrow> percpu_get c t = percpu_get c s"
  by (simp add: percpu_get_def)

lemma cpus_upd_cpu: "cpus (upd_cpu c f s) = (cpus s)[cpu_slot c := f (percpu_get c s)]"
  by (simp add: upd_cpu_def percpu_get_def)

lemma cpus_set_kernel_stack:
  "unat c < 16 \<Longrightarrow> cpus (percpu_set_kernel_stack c k s) =
    (cpus s)[cpu_slot c := (percpu_get c s)\<lparr>tss_rsp0 := k, kernel_stack_top := k\<rparr>]"
  by (simp add: percpu_set_kernel_stack_def Let_def cpus_upd_cpu)

lemma switch_fpu_fields [simp]:
  "task_list (switch_fpu c a b s) = task_list s" "next_pid (switch_fpu c a b s) = next_pid s"
  "reaper_task (switch_fpu c a b s) = reaper_task s" "cpu_count (switch_fpu c a b s) = cpu_count s"
  "length (cpus (switch_fpu c a b s)) = length (cpus s)"
  "tasks (switch_fpu c a b s) = (tasks s)(a := (tasks s a)\<lparr>fpu := live_fpu (percpu_get c s)\<rparr>)"
  by (simp_all add: switch_fpu_def Let_def)

lemma cpus_switch_fpu:
  "a \<noteq> b \<Longrightarrow> cpus (switch_fpu c a b s) = (cpus s)[cpu_slot c := (percpu_get c s)\<lparr>live_fpu := fpu (tasks s b)\<rparr>]"
  by (simp add: switch_fpu_def Let_def cpus_upd_cpu)

lemma vmm_switch_fields [simp]:
  "tasks (vmm_switch_pml4 r s) = tasks s" "task_list (vmm_switch_pml4 r s) = task_list s"
  "next_pid (vmm_switch_pml4 r s) = next_pid s" "reaper_task (vmm_switch_pml4 r s) = reaper_task s"
  "cpus (vmm_switch_pml4 r s) = cpus s" "cpu_count (vmm_switch_pml4 r s) = cpu_count s"
  by (simp_all add: vmm_switch_pml4_def Let_def)

lemma switch_shape:
  assumes l: "length (cpus s) = 16" and pc: "pc_cpu_id (percpu_get c s) = c" and c: "unat c < 16"
    and sw: "switch_to c now prev to s = (s', rs')"
  shows "task_list s' = task_list s \<and> next_pid s' = next_pid s \<and> reaper_task s' = reaper_task s \<and>
      cpu_count s' = cpu_count s"
    and "\<exists>p. cpus s' = (cpus s)[cpu_slot c := p] \<and> pc_cpu_id p = c \<and> idle_task p = idle_task (percpu_get c s) \<and>
      current p = to \<and> retiring p = (if to \<noteq> prev \<and> pid (tasks s prev) \<noteq> 0 then prev else retiring (percpu_get c s))"
    and "\<exists>x. tasks s' = (let m = (if to = prev then tasks s else (tasks s)(prev := (tasks s prev)\<lparr>fpu := x\<rparr>))
      in m(to := resume now (m to)))"
    and "rs' = regs (tasks s' to)"
proof -
  define s1 where "s1 = upd_cpu c (\<lambda>p. p\<lparr>current := to\<rparr>) s"
  define s2 where "s2 = (if to \<noteq> prev then switch_fpu c prev to s1 else s1)"
  define s3 where "s3 = (if to \<noteq> prev \<and> pid (tasks s2 prev) \<noteq> 0 then upd_cpu c (\<lambda>p. p\<lparr>retiring := prev\<rparr>) s2 else s2)"
  define s3' where "s3' = upd_task to (resume now) s3"
  define s4 where "s4 = vmm_switch_pml4 (t_pml4 (tasks s3' to)) s3'"
  define s5 where "s5 = percpu_set_kernel_stack (pc_cpu_id (percpu_get c s4)) (kernel_stack (tasks s4 to)) s4"
  have "switch_to c now prev to s = (upd_cpu c (\<lambda>p. p\<lparr>switches := switches p + 1\<rparr>) s5, regs (tasks s5 to))"
    by (simp only: switch_to_def Let_def s1_def s2_def s3_def s3'_def s4_def s5_def)
  then have e: "s' = upd_cpu c (\<lambda>p. p\<lparr>switches := switches p + 1\<rparr>) s5" "rs' = regs (tasks s5 to)"
    using sw by simp_all
  let ?i = "cpu_slot c" and ?p = "percpu_get c s"
  have c1: "cpus s1 = (cpus s)[?i := ?p\<lparr>current := to\<rparr>]"
    by (simp add: s1_def cpus_upd_cpu)
  have g1: "percpu_get c s1 = ?p\<lparr>current := to\<rparr>" by (simp add: percpu_get_def c1 l)
  define x where "x = (if to = prev then live_fpu ?p else fpu (tasks s1 to))"
  have c2: "cpus s2 = (cpus s)[?i := ?p\<lparr>current := to, live_fpu := x\<rparr>]"
    by (simp add: s2_def cpus_switch_fpu c1 g1 x_def)
  show "task_list s' = task_list s \<and> next_pid s' = next_pid s \<and> reaper_task s' = reaper_task s \<and>
      cpu_count s' = cpu_count s"
    by (simp add: e s5_def s4_def s3'_def s3_def s2_def s1_def)
  show "rs' = regs (tasks s' to)" by (simp add: e)
  show "\<exists>x. tasks s' = (let m = (if to = prev then tasks s else (tasks s)(prev := (tasks s prev)\<lparr>fpu := x\<rparr>))
      in m(to := resume now (m to)))"
    by (rule exI [of _ "live_fpu (percpu_get c s1)"])
      (simp add: e s5_def s4_def s3'_def s3_def s2_def Let_def, simp add: s1_def)
  have p2: "pid (tasks s2 prev) = pid (tasks s prev)" by (simp add: s2_def s1_def)
  have g2: "percpu_get c s2 = ?p\<lparr>current := to, live_fpu := x\<rparr>" by (simp add: percpu_get_def c2 l)
  define p3 where "p3 = (if to \<noteq> prev \<and> pid (tasks s prev) \<noteq> 0 then ?p\<lparr>current := to, live_fpu := x, retiring := prev\<rparr>
      else ?p\<lparr>current := to, live_fpu := x\<rparr>)"
  have c3: "cpus s3 = (cpus s)[?i := p3]" by (simp add: s3_def p2 cpus_upd_cpu c2 g2 p3_def)
  have c4: "cpus s4 = (cpus s)[?i := p3]" by (simp add: s4_def s3'_def c3)
  have g4: "percpu_get c s4 = p3" by (simp add: percpu_get_def c4 l)
  have pc3: "pc_cpu_id p3 = c" using pc by (simp add: p3_def)
  define p5 where "p5 = p3\<lparr>tss_rsp0 := kernel_stack (tasks s4 to), kernel_stack_top := kernel_stack (tasks s4 to)\<rparr>"
  have c5: "cpus s5 = (cpus s)[?i := p5]"
    by (simp add: s5_def g4 pc3 cpus_set_kernel_stack [OF c] c4 p5_def)
  have "percpu_get c s5 = p5" by (simp add: percpu_get_def c5 l)
  then have "cpus s' = (cpus s)[?i := p5\<lparr>switches := switches p5 + 1\<rparr>]" by (simp add: e cpus_upd_cpu c5)
  then show "\<exists>p. cpus s' = (cpus s)[?i := p] \<and> pc_cpu_id p = c \<and> idle_task p = idle_task ?p \<and>
      current p = to \<and> retiring p = (if to \<noteq> prev \<and> pid (tasks s prev) \<noteq> 0 then prev else retiring ?p)"
    using pc3 by (intro exI [of _ "p5\<lparr>switches := switches p5 + 1\<rparr>"]) (simp add: p5_def p3_def)
qed

lemma resume_keeps [simp]:
  "pid (resume now t) = pid t" "cpu_id (resume now t) = cpu_id t" "wait_target_pid (resume now t) = wait_target_pid t"
  "tstate (resume now t) = TASK_RUNNING" "ready_since (resume now t) = now" "quantum (resume now t) = quantum_max t"
  by (simp_all add: resume_def)

lemma switch_inv:
  assumes inv: "sched_inv s" and c: "c < cpu_count s" and cur: "current_task c s \<noteq> 0"
    and sw: "switch_task c now rs s = (s', rs')"
  shows "sched_inv s'"
proof -
  define prev where "prev = current_task c s"
  define t where "t = upd_task prev (save_context now rs) s"
  define to where "to = next_task c now prev t"
  have ti: "sched_inv t" unfolding t_def by (rule upd_task_inv [OF _ inv]) auto
  have tc: "cpus t = cpus s" "cpu_count t = cpu_count s" "percpu_get c t = percpu_get c s"
    by (simp_all add: t_def)
  have ok: "cpus_ok t" "cpu_ok c t" using ti c tc by (auto simp: sched_inv_def cpus_ok_def)
  have l: "length (cpus t) = 16" "unat c < 16" "pc_cpu_id (percpu_get c t) = c"
    using ok c tc(2) by (auto simp: cpus_ok_def cpu_ok_def Let_def word_less_nat_alt)
  have st: "switch_to c now prev to t = (s', rs')"
    using sw by (simp add: switch_task_def Let_def prev_def t_def to_def)
  note sh = switch_shape [OF l(1,3,2) st]
  obtain x where x: "tasks s' = (let m = (if to = prev then tasks t else (tasks t)(prev := (tasks t prev)\<lparr>fpu := x\<rparr>))
      in m(to := resume now (m to)))" using sh(3) by blast
  have same: "same_tasks t s'" "no_new_waits t s'"
    using sh(1) x by (auto simp: same_tasks_def no_new_waits_def Let_def)
  obtain p where p: "cpus s' = (cpus t)[cpu_slot c := p]" "pc_cpu_id p = c" "idle_task p = idle_task (percpu_get c t)"
    "current p = to" "retiring p = (if to \<noteq> prev \<and> pid (tasks t prev) \<noteq> 0 then prev else retiring (percpu_get c t))"
    using sh(2) by blast
  have idle: "idle_task (percpu_get c t) \<noteq> 0"
    using ok(2) cur by (auto simp: cpu_ok_def Let_def tc(3) current_task_def)
  have own: "to = idle_task (percpu_get c t) \<or> owns c to t"
    using pick_eligible [of c now prev t] l(3)
    by (auto simp: to_def next_task_def Let_def eligible_def owns_def split: if_splits)
  have prev: "prev = idle_task (percpu_get c t) \<or> owns c prev t"
    using ok(2) cur by (auto simp: cpu_ok_def Let_def tc(3) current_task_def prev_def)
  have "cpus_ok s'"
  proof (rule replace_cpu_ok [OF ok(1) same(1) _ p(1,2,3)])
    show "c < cpu_count t" using c tc(2) by simp
    show "idle_task p \<noteq> 0 \<and> (current p = idle_task p \<or> owns c (current p) t)" using idle own p(3,4) by simp
    assume "retiring p \<noteq> 0"
    then show "owns c (retiring p) t"
      using p(5) prev ok(2) by (auto simp: cpu_ok_def Let_def split: if_splits)
  qed
  then show ?thesis using ti same_list_ok [OF same(1)] same_waits_ok [OF same] by (simp add: sched_inv_def)
qed

lemma schedule_inv:
  assumes inv: "sched_inv s" and c: "c < cpu_count s"
  shows "sched_inv (fst (schedule got c now rs s))"
proof -
  let ?t = "fold (tick_task now) (task_list s) s"
  have t: "sched_inv ?t" by (rule ticks_inv [OF inv])
  have cnt: "cpu_count ?t = cpu_count s" by (rule ticks_fields)
  have cur: "current_task c ?t = current_task c s" by (rule current_cong) (rule ticks_fields)
  define u where "u = upd_task (current_task c ?t) (\<lambda>t. t\<lparr>cpu_ticks := cpu_ticks t + 1\<rparr>) ?t"
  define v where "v = upd_task (current_task c ?t) (\<lambda>t. t\<lparr>quantum := quantum t - 1\<rparr>) u"
  have u: "sched_inv u" unfolding u_def by (rule upd_task_inv [OF _ t]) simp
  have v: "sched_inv v" unfolding v_def by (rule upd_task_inv [OF _ u]) simp
  have cc: "c < cpu_count u" "c < cpu_count v" "current_task c u = current_task c s" "current_task c v = current_task c s"
    using c cnt cur by (simp_all add: u_def v_def)
  have sw: "sched_inv (fst (switch_task c now rs w))"
    if "sched_inv w" "c < cpu_count w" "current_task c w = current_task c s" "current_task c s \<noteq> 0" for w :: "'a sched_state_scheme"
    using switch_inv [OF that(1,2)] that(3,4) by (metis fst_conv surj_pair)
  show ?thesis
    using inv u v sw [OF u cc(1,3)] sw [OF v cc(2,4)]
    by (simp add: schedule_def Let_def flip: u_def) (simp add: v_def)
qed

lemma not_active:
  assumes "\<not> task_active t s" and "c < cpu_count s"
  shows "current (percpu_get c s) \<noteq> t" and "retiring (percpu_get c s) \<noteq> t"
proof -
  have "unat c \<in> set [0 ..< unat (cpu_count s)]" using assms(2) by (simp add: word_less_nat_alt)
  then have "\<not> (current (percpu_get (of_nat (unat c)) s) = t \<or> retiring (percpu_get (of_nat (unat c)) s) = t)"
    using assms(1) unfolding task_active_def by blast
  then show "current (percpu_get c s) \<noteq> t" and "retiring (percpu_get c s) \<noteq> t" by simp_all
qed

lemma set_cpu_inv:
  assumes inv: "sched_inv s"
  shows "sched_inv (fst (task_set_cpu p cpu s))"
proof (cases "fst (task_set_cpu p cpu s) = s")
  case False
  define t where "t = task_find_by_pid p s"
  let ?s = "upd_task t (\<lambda>x. x\<lparr>cpu_id := cpu\<rparr>) s"
  have e: "fst (task_set_cpu p cpu s) = ?s" and na: "\<not> task_active t s" and nz: "t \<noteq> 0" "p \<noteq> 0"
    using False by (auto simp: task_set_cpu_def Let_def t_def split: if_splits)
  have pt: "pid (tasks s t) \<noteq> 0" using find_pid_in [of p s] nz by (simp add: t_def)
  have own: "owns c a ?s = owns c a s" if "a \<noteq> t" for c a using that by (simp add: owns_def)
  have "cpu_ok c ?s" if "c < cpu_count s" "cpu_ok c s" for c
    using that not_active [OF na that(1)] pt own by (auto simp: cpu_ok_def Let_def)
  moreover have "cpus_ok s" using inv by (simp add: sched_inv_def)
  ultimately have "cpus_ok ?s" unfolding cpus_ok_def percpu_upd_task upd_task_fields by blast
  moreover have k: "pid (tasks ?s a) = pid (tasks s a)" "tstate (tasks ?s a) = tstate (tasks s a)"
    "wait_target_pid (tasks ?s a) = wait_target_pid (tasks s a)" for a by simp_all
  moreover have "pids ?s = pids s" by (simp only: pids_def k upd_task_fields)
  ultimately show ?thesis using inv
    unfolding e sched_inv_def list_ok_def waits_ok_def inj_on_def upd_task_fields k by simp
qed (simp add: inv)

text \<open>Publishing a task that no CPU and no list knows yet.\<close>

definition prio_ok :: "task \<Rightarrow> bool" where
  "prio_ok t \<longleftrightarrow> base_priority t \<in> {PRIO_IDLE .. PRIO_HIGH} \<and> nice t \<in> {-2 .. 2} \<and>
     priority t = clamp_priority (base_priority t - nice t) \<and>
     quantum_max t = quantum_table ! nat (priority t) \<and> quantum t \<le> 4"

definition fresh_task :: "u64 \<Rightarrow> 'a sched_state_scheme \<Rightarrow> bool" where
  "fresh_task t s \<longleftrightarrow> t \<noteq> 0 \<and> t \<notin> set (task_list s) \<and> tstate (tasks s t) = TASK_READY \<and>
     prio_ok (tasks s t) \<and> (\<forall>c < cpu_count s. idle_task (percpu_get c s) \<noteq> t)"

lemma publish_inv:
  assumes inv: "sched_inv s" and t: "fresh_task t s" and room: "next_pid s < UINT32_MAX"
  shows "sched_inv (task_publish t s)"
proof -
  let ?s = "task_publish t s"
  have f: "task_list ?s = task_list s @ [t]" "next_pid ?s = next_pid s + 1" "reaper_task ?s = reaper_task s"
    "cpus ?s = cpus s" "cpu_count ?s = cpu_count s" "percpu_get c ?s = percpu_get c s"
    "pid (tasks ?s t) = next_pid s" "cpu_id (tasks ?s t) = cpu_id (tasks s t)"
    "a \<noteq> t \<Longrightarrow> tasks ?s a = tasks s a"
    "tstate (tasks ?s t) = tstate (tasks s t)" "wait_target_pid (tasks ?s t) = wait_target_pid (tasks s t)" for a c
    by (simp_all add: task_publish_def Let_def percpu_get_def upd_task_def)
  have tn: "t \<notin> set (task_list s)" "t \<noteq> 0" using t by (auto simp: fresh_task_def)
  have lo: "list_ok s" "cpus_ok s" "waits_ok s" using inv by (auto simp: sched_inv_def)
  have up: "x < next_pid s \<Longrightarrow> x < next_pid s + 1" and lt: "next_pid s < next_pid s + 1" for x
    using room by (auto simp: word_less_nat_alt unat_word_ariths)
  have old: "pid (tasks ?s a) = pid (tasks s a)" "pid (tasks s a) < next_pid s" if "a \<in> set (task_list s)" for a
    using that tn f(9) [of a] lo(1) by (cases "a = t"; simp add: list_ok_def)+
  have p: "pids ?s = insert (next_pid s) (pids s)" using old f(1,7) by (auto simp: pids_def)
  have "inj_on (\<lambda>a. pid (tasks ?s a)) (set (task_list s))"
    using lo(1) old by (simp add: list_ok_def inj_on_def)
  moreover have "next_pid s \<notin> (\<lambda>a. pid (tasks ?s a)) ` set (task_list s)" using old by fastforce
  ultimately have "inj_on (\<lambda>a. pid (tasks ?s a)) (set (task_list ?s))"
    using tn(1) f(7) by (simp add: f(1))
  then have "list_ok ?s"
    using lo(1) tn old up lt f(1,2,7) by (simp add: list_ok_def p)
  moreover have own: "owns c a s \<Longrightarrow> owns c a ?s" for c a
    using tn f(1) f(9) [of a] by (cases "a = t") (auto simp: owns_def)
  have idle: "idle_task (percpu_get c s) \<noteq> t" if "c < cpu_count s" for c using t that by (simp add: fresh_task_def)
  have "cpu_ok c ?s" if "c < cpu_count s" "cpu_ok c s" for c
    using that own idle [OF that(1)] f(9) by (auto simp: cpu_ok_def Let_def f(6))
  then have "cpus_ok ?s" using lo(2) unfolding cpus_ok_def f(4,5,6) by blast
  moreover have w: "wait_target_pid (tasks ?s a) = wait_target_pid (tasks s a)"
    "tstate (tasks ?s a) = tstate (tasks s a)" for a
    using f(9) [of a] f(10,11) by (cases "a = t"; simp)+
  have "waits_ok ?s"
    using lo(3) t unfolding waits_ok_def w f(1,3) p by (auto simp: fresh_task_def)
  ultimately show ?thesis by (simp add: sched_inv_def)
qed

text \<open>Removing a dead task that no CPU uses.\<close>

lemma unlink_inv:
  assumes inv: "sched_inv s" and t: "t \<in> set (task_list s)" "\<not> task_active t s" "pid (tasks s t) \<noteq> 0"
  shows "sched_inv (unlink_task t s)"
proof -
  have lo: "list_ok s" "cpus_ok s" "waits_ok s" using inv by (auto simp: sched_inv_def)
  let ?P = "\<lambda>p. p = pid (tasks s t)"
  define u where "u = s\<lparr>task_list := remove1 t (task_list s)\<rparr>"
  define v where "v = each_task (wake ?P) u"
  have d: "distinct (task_list u)" using lo(1) by (simp add: u_def list_ok_def)
  have f: "task_list v = remove1 t (task_list s)" "next_pid v = next_pid s" "reaper_task v = reaper_task s"
    "cpus v = cpus s" "cpu_count v = cpu_count s" "percpu_get c v = percpu_get c s" for c
    by (simp_all add: v_def u_def percpu_get_def)
  have set_v: "set (task_list v) = set (task_list s) - {t}" using lo(1) f(1) by (simp add: list_ok_def)
  have tv: "tasks v a = (if a \<in> set (task_list s) - {t} then wake ?P (tasks s a) else tasks s a)" for a
    using each_task_apply [OF d, of "wake ?P"] set_v f(1) by (simp add: v_def u_def)
  have k: "pid (tasks v a) = pid (tasks s a)" "cpu_id (tasks v a) = cpu_id (tasks s a)"
    "wait_target_pid (tasks v a) = wait_target_pid (tasks s a)" for a by (simp_all add: tv)
  have inj: "inj_on (\<lambda>a. pid (tasks s a)) (set (task_list s))" using lo(1) by (simp add: list_ok_def)
  then have "pids v = pids s - {pid (tasks s t)}"
    using t(1) by (auto simp: pids_def k set_v inj_on_def image_iff)
  moreover from this have "list_ok v"
    using lo(1) inj t(3) unfolding list_ok_def by (auto simp: f k set_v inj_on_def)
  moreover have "owns c a v = owns c a s" if "a \<noteq> t" for c a
    using that by (simp add: owns_def k set_v)
  then have "cpu_ok c v" if "c < cpu_count s" "cpu_ok c s" for c
    using that not_active [OF t(2) that(1)] by (auto simp: cpu_ok_def Let_def f(6) k)
  then have "cpus_ok v" using lo(2) unfolding cpus_ok_def f(4,5,6) by blast
  moreover have "waits_ok v"
    using lo(3) \<open>pids v = _\<close> by (auto simp: waits_ok_def f(3) k tv set_v)
  ultimately have v: "sched_inv v" by (simp add: sched_inv_def)
  have "tasks v t = tasks s t" by (simp add: tv)
  then have "unlink_task t s = v \<or> (\<exists>l. unlink_task t s = upd_task l (\<lambda>x. x\<lparr>thread_count := thread_count x - 1\<rparr>) v)"
    by (auto simp: unlink_task_def Let_def u_def v_def split: if_splits)
  then show ?thesis using v upd_task_inv [of "\<lambda>x. x\<lparr>thread_count := thread_count x - 1\<rparr>" v] by auto
qed

lemma reap_check_inv: "sched_inv s \<Longrightarrow> sched_inv (fst (reap_check t s))"
proof -
  have "sched_inv u \<Longrightarrow> sched_inv (fst (fold (\<lambda>th (s, can_reap).
      if th \<noteq> t \<and> t_pml4 (tasks s th) = t_pml4 (tasks s t)
      then (upd_task th (\<lambda>x. x\<lparr>tstate := TASK_DEAD\<rparr>) s, False) else (s, can_reap)) l (u, b)))" for u :: "'a sched_state_scheme" and l b
    by (induction l arbitrary: u b) (simp_all add: upd_task_inv)
  then show "sched_inv s \<Longrightarrow> ?thesis" by (simp add: reap_check_def Let_def)
qed

lemma reap_check_ok:
  "snd (reap_check t s) \<Longrightarrow> tstate (tasks s t) = TASK_DEAD \<and> \<not> task_active t s \<and> pid (tasks s t) \<noteq> 0"
proof -
  have "snd (fold (\<lambda>th (s, can_reap).
      if th \<noteq> t \<and> t_pml4 (tasks s th) = t_pml4 (tasks s t)
      then (upd_task th (\<lambda>x. x\<lparr>tstate := TASK_DEAD\<rparr>) s, False) else (s, can_reap)) l (u, b)) \<Longrightarrow> b" for u :: "'a sched_state_scheme" and l b
    by (induction l arbitrary: u b) (auto split: if_splits)
  then show "snd (reap_check t s) \<Longrightarrow> ?thesis" by (simp add: reap_check_def Let_def split: if_splits)
qed

section \<open>The transition system\<close>

text \<open>
  What the CPUs do, in any order: timer ticks, returns to another kernel stack, system calls (each
  begins with \<open>syscall_enter\<close>), faults, creation of tasks, and the rounds of the reaper.
\<close>

inductive sched_step :: "sched_state \<Rightarrow> sched_state \<Rightarrow> bool" where
  tick: "c < cpu_count s \<Longrightarrow> sched_step s (fst (schedule got c now rs s))"
| enter: "c < cpu_count s \<Longrightarrow> sched_step s (task_context_enter c sp s)"
| call: "sched_step s (fst (syscall_enter c s))"
| sleep: "syscall_enter c s = (t, True) \<Longrightarrow> sched_step s (sleep_current_task c w t)"
| wait: "syscall_enter c s = (t, True) \<Longrightarrow> current_task c s \<noteq> reaper_task s \<Longrightarrow> sched_step s (wait_for_pid c p t)"
| exit: "syscall_enter c s = (t, True) \<Longrightarrow> sched_step s (exit_current_task c t)"
| abort: "sched_step s (task_abort_current_group c s)"
| nice: "syscall_enter c s = (t, True) \<Longrightarrow> sched_step s (fst (task_set_nice c n t))"
| uid: "syscall_enter c s = (t, True) \<Longrightarrow> sched_step s (task_set_uid c u g t)"
| move: "sched_step s (fst (task_set_cpu p cpu s))"
| publish: "fresh_task t s \<Longrightarrow> next_pid s < UINT32_MAX \<Longrightarrow> sched_step s (task_publish t s)"
| check: "sched_step s (fst (reap_check t s))"
| reap: "t \<in> set (task_list s) \<Longrightarrow> reap_check t s = (s', True) \<Longrightarrow> sched_step s (unlink_task t s')"
| rest: "current_task c s = reaper_task s \<Longrightarrow> sched_step s (reaper_wait c s)"

inductive_cases sched_stepE: "sched_step s s'"

lemma reap_check_true: "reap_check t s = (s', True) \<Longrightarrow> s' = s"
proof -
  have "fold (\<lambda>th (s, can_reap).
      if th \<noteq> t \<and> t_pml4 (tasks s th) = t_pml4 (tasks s t)
      then (upd_task th (\<lambda>x. x\<lparr>tstate := TASK_DEAD\<rparr>) s, False) else (s, can_reap)) l (u, b) = (v, True) \<Longrightarrow> v = u \<and> b"
    for u v :: "'a sched_state_scheme" and l b
    by (induction l arbitrary: u b) (force split: if_splits)+
  then show "reap_check t s = (s', True) \<Longrightarrow> ?thesis" by (auto simp: reap_check_def Let_def split: if_splits)
qed

lemma sched_step_inv: "sched_step s s' \<Longrightarrow> sched_inv s \<Longrightarrow> sched_inv s'"
proof (induction rule: sched_step.induct)
  case (wait c s t p)
  have "sched_inv t" using enter_inv [OF wait(3), of c] wait(1) by simp
  moreover have "current_task c t \<noteq> reaper_task t"
    using wait(1,2) by (auto simp: syscall_enter_def task_mark_running_def Let_def split: if_splits)
  ultimately show ?case by (rule wait_inv)
next
  case (reap t s s')
  then show ?case using unlink_inv [of s t] reap_check_ok [of t s] reap_check_true [of t s s'] by simp
next
  case (sleep c s t w)
  then show ?case using enter_inv [of s c] by (simp add: sleep_inv)
next
  case (exit c s t)
  then show ?case using enter_inv [of s c] by (simp add: exit_inv)
next
  case (nice c s t n)
  then show ?case using enter_inv [of s c] by (simp add: nice_inv)
next
  case (uid c s t u g)
  then show ?case using enter_inv [of s c] by (simp add: uid_inv)
qed (simp_all add: schedule_inv context_enter_inv enter_inv abort_inv set_cpu_inv publish_inv reap_check_inv reaper_wait_inv)

lemma sched_steps_inv: "sched_step\<^sup>*\<^sup>* s s' \<Longrightarrow> sched_inv s \<Longrightarrow> sched_inv s'"
  by (induction rule: rtranclp_induct) (auto intro: sched_step_inv)

end
