(* ===== verification/DataPages.thy ===== *)
theory DataPages
  imports VmmRange TaskLife SchedInv
begin

text \<open>
  Frames that hold data of user programs. Their bytes can be written without any effect on the page
  tables, a batch of them is taken from the allocator and cleared, and given back: the steps that user
  memory, shared segments, copy on write and the loader have in common.
\<close>

section \<open>The parts of the state that matter\<close>

text \<open>Two states with the same frames and the same memory.\<close>

definition same_machine :: "'a machine_scheme \<Rightarrow> 'a machine_scheme \<Rightarrow> bool" where
  "same_machine s s' \<longleftrightarrow> bitmap s' = bitmap s \<and> refcounts s' = refcounts s \<and> total_pages s' = total_pages s \<and>
     free_pages s' = free_pages s \<and> hhdm_offset s' = hhdm_offset s \<and> mem s' = mem s \<and> kernel_pml4 s' = kernel_pml4 s"

lemma same_machine_facts:
  fixes s s' :: "'a machine_scheme"
  assumes "same_machine s s'"
  shows "vm_ok s' R F = vm_ok s R F" and "frame_refs s' = frame_refs s" and "pmm_inv s' = pmm_inv s"
    and "pt_lookup s' r va = pt_lookup s r va" and "kernel_pml4 s' = kernel_pml4 s"
    and "mem s' = mem s" and "hhdm_offset s' = hhdm_offset s" and "total_pages s' = total_pages s"
proof -
  have eq: "bitmap s' = bitmap s" "refcounts s' = refcounts s" "total_pages s' = total_pages s"
    "free_pages s' = free_pages s" "hhdm_offset s' = hhdm_offset s" "mem s' = mem s"
    "kernel_pml4 s' = kernel_pml4 s"
    using assms by (simp_all add: same_machine_def)
  show "vm_ok s' R F = vm_ok s R F" by (rule vm_ok_cong) (fact eq)+
  show "frame_refs s' = frame_refs s" "pmm_inv s' = pmm_inv s" by (rule pmm_facts_cong; fact eq)+
  show "pt_lookup s' r va = pt_lookup s r va" by (rule pt_lookup_cong; fact eq)
qed (use assms in \<open>simp_all add: same_machine_def\<close>)

lemma same_machine_kept: "same_machine s s' \<Longrightarrow> user_kept R F s s'"
  using same_machine_facts [of s s'] by (simp add: user_kept_def mem_frame_def)

lemma same_machine_upd_task: "same_machine s (upd_task a f s)"
  by (simp add: same_machine_def upd_task_def)

lemma same_machine_heap:
  assumes "same_machine s s'" and "heap_blocks s' = heap_blocks s" "heap_end s' = heap_end s"
  shows "heap_ok s' R = heap_ok s R"
  using same_machine_facts(1,5) [OF assms(1)] assms(2,3) by (simp add: heap_ok_def)

lemma heap_upd_task [simp]:
  "heap_ok (upd_task a f s) R = heap_ok s R" "live (upd_task a f s) = live s"
  using same_machine_heap [OF same_machine_upd_task [of s a f]] by (simp_all add: upd_task_def)

lemma vm_upd_task [simp]:
  "vm_ok (upd_task a f s) R F = vm_ok s R F" "frame_refs (upd_task a f s) = frame_refs s"
  "pt_lookup (upd_task a f s) r va = pt_lookup s r va" "kernel_pml4 (upd_task a f s) = kernel_pml4 s"
  "mem (upd_task a f s) = mem s" "hhdm_offset (upd_task a f s) = hhdm_offset s"
  "total_pages (upd_task a f s) = total_pages s"
  using same_machine_facts [OF same_machine_upd_task [of s a f]] by blast+

lemma blocks_upd_task [simp]:
  "heap_blocks (upd_task a f s) = heap_blocks s" "heap_end (upd_task a f s) = heap_end s"
  by (simp_all add: upd_task_def)

lemma user_kept_upd_task [simp]: "user_kept R F s (upd_task a f s') = user_kept R F s s'"
  by (simp add: user_kept_def mem_frame_def)

text \<open>Operations on machines keep the parts of the state that lie above.\<close>

lemma more_fields:
  fixes s s' :: "'a sched_state_scheme"
  assumes "machine.more s' = machine.more s"
  shows "tasks s' = tasks s" "heap_blocks s' = heap_blocks s" "heap_end s' = heap_end s"
    "task_list s' = task_list s"
  using assms by (cases s; cases s'; simp)+

lemma heap_more_fields:
  fixes s s' :: "'a sched_state_scheme"
  assumes "heap_state.more s' = heap_state.more s"
  shows "tasks s' = tasks s" "task_list s' = task_list s"
  using assms by (cases s; cases s'; simp)+

lemma more_clear_leaf: "machine.more (fst (clear_leaf pml4 va (s, r))) = machine.more s"
  by (simp add: clear_leaf_def frame_simps split: option.split)

lemma more_clear_leaves:
  "machine.more (fst (fold (\<lambda>i. clear_leaf pml4 (f i)) is c)) = machine.more (fst c)"
proof (induction "is" arbitrary: c)
  case Nil
  then show ?case by simp
next
  case (Cons i js)
  then show ?case using more_clear_leaf [of pml4 "f i" "fst c" "snd c"] by simp
qed

lemma more_prune_buffered:
  "machine.more (fst (prune_buffered pml4 va ps s retired)) = machine.more s"
  by (induction pml4 va ps s retired rule: prune_buffered.induct)
    (auto simp: Let_def frame_simps release_tables_def)

lemma more_prune_range:
  "machine.more (fst (prune_range pml4 va stop s retired)) = machine.more s"
proof (induction pml4 va stop s retired rule: prune_range.induct)
  case (1 pml4 va stop s retired)
  obtain t r where t: "prune_at pml4 va s retired = (t, r)" by fastforce
  then have "machine.more t = machine.more s"
    using more_prune_buffered [of pml4 va _ s retired]
    by (auto simp: prune_at_def split: option.splits) (metis fst_conv)
  then show ?case using 1 t by (subst prune_range.simps) simp
qed

lemma more_unmap_pages [frame_simps]: "machine.more (fst (vmm_unmap_pages_in pml4 base count s)) = machine.more s"
proof -
  obtain t r where t: "fold (\<lambda>i. clear_leaf pml4 (page_at base i)) [0 ..< unat count] (s, 0) = (t, r)"
    by fastforce
  then have 1: "machine.more t = machine.more s" using more_clear_leaves by (metis fst_conv)
  obtain u q where u: "prune_range pml4 base (base + (ucast count - 1) * 4096) t [] = (u, q)" by fastforce
  then have "machine.more u = machine.more t" using more_prune_range by (metis fst_conv)
  then show ?thesis using t u 1 by (simp add: vmm_unmap_pages_in_def release_tables_def frame_simps)
qed

lemma more_map_pages [frame_simps]: "machine.more (fst (vmm_map_pages_in pml4 base ps count flags s)) = machine.more s"
proof -
  have "machine.more (fst (map_pages_loop pml4 base flags i qs s)) = machine.more s"
    for i qs and s :: "'a machine_scheme"
  proof (induction qs arbitrary: i s)
    case Nil
    then show ?case by (simp add: frame_simps)
  next
    case (Cons q qs)
    obtain t ok where m: "map_page pml4 (page_at base i) q flags False s = (t, ok)" by fastforce
    then have "machine.more t = machine.more s" using more_map by (metis fst_conv)
    then show ?case using m Cons by (cases ok) (simp_all add: frame_simps)
  qed
  then show ?thesis by (simp add: vmm_map_pages_in_def split: option.split)
qed

section \<open>Writing to a data frame\<close>

lemma slot_in_page:
  assumes "i < 512" and "k < 8"
  shows "in_page t (slot_at t i + of_nat k)"
proof -
  have "slot_at t i + of_nat k - t = of_nat (8 * i + k)" by (simp add: slot_at_def)
  moreover have "unat (of_nat (8 * i + k) :: u64) = 8 * i + k"
    using unat_add_small [of 0 "8 * i + k"] assms by simp
  ultimately show ?thesis using assms by (simp only: in_page_def)
qed

lemma data_entries_same:
  assumes inv: "pt_inv s \<rho>" and F: "data_frames s \<rho> F" and f: "f \<in> F"
    and m: "\<And>a. m a \<noteq> mem s a \<Longrightarrow> in_page (f + hhdm_offset s) a" and t: "t \<in> dom \<rho>" and i: "i < 512"
  shows "get64 (s\<lparr>mem := m\<rparr>) (slot_at t i) = get64 s (slot_at t i)"
  unfolding get64_def
proof (rule ld64_cong)
  fix k :: nat assume "k < 8"
  then have "in_page t (slot_at t i + of_nat k)" by (rule slot_in_page [OF i])
  moreover have fa: "f AND 4095 = 0" "f + hhdm_offset s \<notin> dom \<rho>" using F f by (auto simp: data_frames_def)
  have "(f + hhdm_offset s) AND 4095 = 0"
    by (rule page_add_aligned [OF fa(1)]) (use pt_inv_global [OF inv] in blast)
  moreover have "t \<noteq> f + hhdm_offset s" using t fa(2) by blast
  ultimately show "mem (s\<lparr>mem := m\<rparr>) (slot_at t i + of_nat k) = mem s (slot_at t i + of_nat k)"
    using m [of "slot_at t i + of_nat k"] in_page_unique [OF pt_inv_dom(1) [OF inv t]] by auto
qed

lemma data_write:
  assumes ok: "vm_ok s R F" and f: "f \<in> F"
    and m: "\<And>a. m a \<noteq> mem s a \<Longrightarrow> in_page (f + hhdm_offset s) a"
  shows "vm_ok (s\<lparr>mem := m\<rparr>) R F" and "r \<in> R \<Longrightarrow> pt_lookup (s\<lparr>mem := m\<rparr>) r va = pt_lookup s r va"
proof -
  let ?s = "s\<lparr>mem := m\<rparr>"
  obtain \<rho> where h: "pmm_inv s" "pt_inv s \<rho>" "\<forall>r \<in> R. \<rho> r = Some (3, r, 0)" "data_frames s \<rho> F"
    using ok by (auto simp: vm_ok_def)
  have same: "same_entries \<rho> s ?s"
    using data_entries_same [OF h(2,4) f m] by (simp add: same_entries_def)
  have facts: "pmm_inv ?s = pmm_inv s" "frame_busy ?s = frame_busy s" by (rule pmm_facts_cong; simp)+
  have "pt_inv ?s \<rho>" by (rule same_entries_inv [OF same h(2)]) (simp_all add: facts)
  moreover have "data_frames ?s \<rho> F" using h(4) by (simp add: data_frames_def facts)
  ultimately show "vm_ok ?s R F" using h(1,3) by (auto simp: vm_ok_def facts)
  show "pt_lookup ?s r va = pt_lookup s r va" if "r \<in> R"
    using keeps_pt_lookup [OF same_entries_keeps [OF same h(2)]] h(3) that by blast
qed

lemma data_page_mapped:
  assumes hh: "hhdm_offset s AND 4095 = 0" "unat (hhdm_offset s) + total_pages s * 4096 \<le> 2 ^ 64"
    and f: "f AND 4095 = 0" "addr_page f < total_pages s" and a: "in_page (f + hhdm_offset s) a"
  shows "in_direct_map s a"
proof -
  have t: "table_slot {} s (slot_at (f + hhdm_offset s) 0)" by (rule in_window [OF hh f]) simp_all
  obtain q where q: "unat f = 4096 * q" using f(1) by (rule page_aligned)
  then have "q < total_pages s" using f(2) by (simp add: addr_page_def)
  then have le: "4096 * q + 4096 \<le> total_pages s * 4096" by simp
  have "unat (hhdm_offset s) + unat f < 2 ^ 64" using le hh(2) q by linarith
  then have "unat (hhdm_offset s + f) = unat (hhdm_offset s) + unat f"
    using unat_add_small [of "hhdm_offset s" "unat f"] by simp
  moreover have "unat a = unat (f + hhdm_offset s) + unat (a - (f + hhdm_offset s))"
    by (rule in_page_unat [OF page_add_aligned [OF f(1) hh(1)] a])
  ultimately show ?thesis using a le q by (simp add: in_direct_map_def in_page_def add.commute)
qed

lemma data_write_kept:
  assumes ok: "vm_ok s R F" and f: "f \<in> F" and in_mem: "addr_page f < total_pages s"
    and m: "\<And>a. m a \<noteq> mem s a \<Longrightarrow> in_page (f + hhdm_offset s) a"
  shows "user_kept R (F - {f}) s (s\<lparr>mem := m\<rparr>)"
proof -
  let ?s = "s\<lparr>mem := m\<rparr>"
  obtain \<rho> where h: "pt_inv s \<rho>" "data_frames s \<rho> F" using ok by (auto simp: vm_ok_def)
  have hh: "hhdm_offset s AND 4095 = 0" "unat (hhdm_offset s) + total_pages s * 4096 \<le> 2 ^ 64"
    using pt_inv_global [OF h(1)] by blast+
  have al: "g AND 4095 = 0" if "g \<in> F" for g using h(2) that by (auto simp: data_frames_def)
  have "m a = mem s a" if a: "\<not> in_direct_map s a \<or> in_frames (F - {f}) s a" for a
  proof (rule ccontr)
    assume "m a \<noteq> mem s a"
    then have pf: "in_page (f + hhdm_offset s) a" by (rule m)
    then obtain g where g: "g \<in> F" "g \<noteq> f" "in_page (g + hhdm_offset s) a"
      using a data_page_mapped [OF hh al [OF f] in_mem pf] by (auto simp: in_frames_def)
    then show False
      using in_page_unique [OF _ _ g(3) pf] page_add_aligned [OF al hh(1)] f by (metis add_right_cancel)
  qed
  moreover have "frame_refs ?s = frame_refs s" by (rule pmm_facts_cong) simp_all
  ultimately show ?thesis
    using data_write(2) [OF ok f m] by (simp add: user_kept_def mem_frame_def)
qed

section \<open>A batch of cleared frames\<close>

definition clear_page :: "'a machine_scheme \<Rightarrow> u64 \<Rightarrow> bool" where
  "clear_page s f \<longleftrightarrow> (\<forall>a. in_page (f + hhdm_offset s) a \<longrightarrow> mem s a = 0)"

lemma clear_page_kept:
  assumes "user_kept R F s s'" and "f \<in> F"
  shows "clear_page s' f = clear_page s f"
proof -
  have "mem_frame F s s'" by (rule user_keptD(1) [OF assms(1)])
  moreover have "in_frames F s a" if "in_page (f + hhdm_offset s) a" for a
    using that assms(2) by (auto simp: in_frames_def)
  ultimately show ?thesis by (auto simp: clear_page_def mem_frame_def)
qed

text \<open>
  From \<open>s\<close> to \<open>s'\<close> the frames \<open>ps\<close> were taken and cleared; nothing else that matters changed.
\<close>

definition fresh_pages ::
    "u64 set \<Rightarrow> u64 set \<Rightarrow> u64 list \<Rightarrow> 'a machine_scheme \<Rightarrow> 'a machine_scheme \<Rightarrow> bool" where
  "fresh_pages R F ps s s' \<longleftrightarrow> vm_ok s' R (F \<union> set ps) \<and>
     (\<forall>x. frame_refs s' x = frame_refs s x + count_list ps x) \<and>
     (\<forall>x \<in> set ps. frame_refs s x = 0 \<and> x \<noteq> 0) \<and> distinct ps \<and> set ps \<inter> F = {} \<and>
     user_kept R F s s' \<and> kernel_pml4 s' = kernel_pml4 s \<and>
     (\<forall>r \<in> R. \<forall>va. pt_lookup s' r va = pt_lookup s r va) \<and> (\<forall>p \<in> set ps. clear_page s' p)"

lemma fresh_pages_Nil: "vm_ok s R F \<Longrightarrow> fresh_pages R F [] s s"
  by (simp add: fresh_pages_def)

lemma new_page:
  assumes ok: "vm_ok s R F" and al: "pmm_alloc_page s = (s1, a)" and a: "a \<noteq> 0"
    and s2: "s2 = s1\<lparr>mem := memset (mem s1) (a + hhdm_offset s1) 0 4096\<rparr>"
  shows "vm_ok s2 R (insert a F)" and "user_kept R F s s2" and "frame_refs s2 = frame_refs s1"
    and "clear_page s2 a" and "machine.more s2 = machine.more s" and "kernel_pml4 s2 = kernel_pml4 s"
    and "r \<in> R \<Longrightarrow> pt_lookup s2 r va = pt_lookup s r va" and "pmm_inv s2 = pmm_inv s1"
proof -
  note va = vm_ok_alloc [OF ok al a] and ct = pmm_alloc_contract(6,8) [OF vm_ok_pmm [OF ok] al]
    and fr = pmm_alloc_page_frame [OF al]
  let ?m = "memset (mem s1) (a + hhdm_offset s1) 0 4096"
  have m: "in_page (a + hhdm_offset s1) x" if "?m x \<noteq> mem s1 x" for x
    using that by (auto simp: in_page_def split: if_splits)
  have in_mem: "addr_page a < total_pages s1" using ct a by simp
  show "vm_ok s2 R (insert a F)" unfolding s2 by (rule data_write(1) [OF va(1) _ m]) auto
  have "user_kept R (insert a F - {a}) s1 s2"
    unfolding s2 by (rule data_write_kept [OF va(1) _ in_mem m]) auto
  then show "user_kept R F s s2" using user_kept_trans [OF user_kept_alloc [OF ok al]] va(2) by simp
  show "frame_refs s2 = frame_refs s1" "pmm_inv s2 = pmm_inv s1" unfolding s2 by (rule pmm_facts_cong; simp)+
  show "clear_page s2 a" by (simp add: clear_page_def s2 in_page_def)
  have "machine.more s1 = machine.more s" using more_alloc al by (metis fst_conv)
  then show "machine.more s2 = machine.more s" by (simp add: s2)
  show "kernel_pml4 s2 = kernel_pml4 s" using fr(3) by (simp add: s2)
  show "pt_lookup s2 r va = pt_lookup s r va" if "r \<in> R"
    using data_write(2) [OF va(1) _ m that] pt_lookup_cong [OF fr(1,2)] by (simp add: s2)
qed

lemma fresh_pages_snoc:
  assumes fp: "fresh_pages R F ps s s'" and al: "pmm_alloc_page s' = (s1, a)" and a: "a \<noteq> 0"
    and s2: "s2 = s1\<lparr>mem := memset (mem s1) (a + hhdm_offset s1) 0 4096\<rparr>"
  shows "fresh_pages R F (ps @ [a]) s s2"
proof -
  have ok: "vm_ok s' R (F \<union> set ps)" and refs: "\<And>x. frame_refs s' x = frame_refs s x + count_list ps x"
    and new: "\<And>x. x \<in> set ps \<Longrightarrow> frame_refs s x = 0 \<and> x \<noteq> 0" and d: "distinct ps"
    and dj: "set ps \<inter> F = {}" and k: "user_kept R F s s'" and kp: "kernel_pml4 s' = kernel_pml4 s"
    and look: "\<And>r va. r \<in> R \<Longrightarrow> pt_lookup s' r va = pt_lookup s r va"
    and cl: "\<And>p. p \<in> set ps \<Longrightarrow> clear_page s' p"
    using fp by (auto simp: fresh_pages_def)
  note np = new_page [OF ok al a s2]
  note be = pmm.batch_extend [OF vm_ok_pmm [OF ok] refs new d al a]
  have "user_kept R F s s2" using user_kept_trans [OF k user_kept_mono [OF np(2)]] by simp
  moreover have "clear_page s2 p" if "p \<in> set ps" for p using clear_page_kept [OF np(2)] cl that by simp
  moreover have "a \<notin> F" using vm_ok_alloc(2) [OF ok al a] by simp
  ultimately show ?thesis
    using np(1,3,4,6,7) be(2-4) kp look dj unfolding fresh_pages_def by (auto simp: insert_commute)
qed

lemma fresh_pages_same: "fresh_pages R F ps s s' \<Longrightarrow> same_machine s' s'' \<Longrightarrow> fresh_pages R F ps s s''"
  using same_machine_facts [of s' s''] user_kept_trans [OF _ same_machine_kept [of s' s'']]
  by (simp add: fresh_pages_def clear_page_def)

text \<open>Giving frames back; a frame that somebody else shares stays in use.\<close>

lemma free_shared:
  assumes "vm_ok s R (F \<union> set fs)" and "distinct fs" and "\<forall>f \<in> set fs \<inter> F. 1 < frame_refs s f"
  shows "vm_ok (foldl pmm_free_page s fs) R F"
  using assms
proof (induction fs arbitrary: s)
  case Nil
  then show ?case by simp
next
  case (Cons f fs)
  let ?s = "pmm_free_page s f"
  obtain \<rho> where h: "pmm_inv s" "pt_inv s \<rho>" "\<forall>r \<in> R. \<rho> r = Some (3, r, 0)" "data_frames s \<rho> (F \<union> set (f # fs))"
    using Cons.prems(1) by (auto simp: vm_ok_def)
  note st = data_frame_free [OF h(1,2,4), of f, simplified]
  have refs: "frame_refs ?s = (frame_refs s)(f := frame_refs s f - 1)" by (rule pmm_free_page_inv(2) [OF h(1)])
  have "data_frames ?s \<rho> {f}" if "f \<in> F"
    using Cons.prems(3) that refs h(4) frame_refs_busy [OF st(1), of f] by (simp add: data_frames_def)
  then have "data_frames ?s \<rho> (F \<union> set fs)"
    using st(3) Cons.prems(2) unfolding data_frames_def by auto
  then have "vm_ok ?s R (F \<union> set fs)" using st(1,2) h(3) by (auto simp: vm_ok_def)
  then show ?case using Cons.IH [of ?s] Cons.prems(2,3) refs by auto
qed

lemma frees_facts:
  "mem (foldl pmm_free_page s fs) = mem s" "hhdm_offset (foldl pmm_free_page s fs) = hhdm_offset s"
  "total_pages (foldl pmm_free_page s fs) = total_pages s" "kernel_pml4 (foldl pmm_free_page s fs) = kernel_pml4 s"
  "pt_lookup (foldl pmm_free_page s fs) r va = pt_lookup s r va"
proof -
  show f: "mem (foldl pmm_free_page s fs) = mem s" "hhdm_offset (foldl pmm_free_page s fs) = hhdm_offset s"
    "total_pages (foldl pmm_free_page s fs) = total_pages s" "kernel_pml4 (foldl pmm_free_page s fs) = kernel_pml4 s"
    by (induction fs arbitrary: s) simp_all
  show "pt_lookup (foldl pmm_free_page s fs) r va = pt_lookup s r va" by (rule pt_lookup_cong [OF f(1,2)])
qed

text \<open>Rolling a batch back undoes it, in whatever order.\<close>

lemma fresh_pages_rollback:
  assumes fp: "fresh_pages R F ps s s'" and q: "distinct qs" "set qs = set ps" and s2: "s2 = foldl pmm_free_page s' qs"
  shows "vm_ok s2 R F" and "user_kept R F s s2" and "frame_refs s2 = frame_refs s"
    and "r \<in> R \<Longrightarrow> pt_lookup s2 r va = pt_lookup s r va" and "kernel_pml4 s2 = kernel_pml4 s"
proof -
  have "distinct xs \<Longrightarrow> count_list xs x = (if x \<in> set xs then 1 else 0)" for xs :: "u64 list" and x
    by (induction xs) (auto simp: count_list_0_iff)
  moreover have "distinct ps" using fp by (simp add: fresh_pages_def)
  ultimately have cnt: "count_list qs x = count_list ps x" for x using q by simp
  have ok: "vm_ok s' R (F \<union> set qs)" and d: "distinct qs" and dj: "set qs \<inter> F = {}"
    and refs: "\<And>x. frame_refs s' x = frame_refs s x + count_list qs x" and k: "user_kept R F s s'"
    using fp q by (simp_all add: fresh_pages_def cnt)
  show "vm_ok s2 R F" unfolding s2 using free_shared [OF ok d] dj by simp
  show r: "frame_refs s2 = frame_refs s" unfolding s2 by (rule pmm.batch_rollback [OF vm_ok_pmm [OF ok] refs])
  show "pt_lookup s2 r va = pt_lookup s r va" if "r \<in> R"
    using fp that by (simp add: s2 frees_facts(5) fresh_pages_def)
  then show "user_kept R F s s2"
    using k r unfolding user_kept_def s2 mem_frame_def in_frames_def in_direct_map_def
    by (simp add: frees_facts)
  show "kernel_pml4 s2 = kernel_pml4 s" using fp by (simp add: s2 frees_facts fresh_pages_def)
qed

lemma frees_kept:
  assumes ok: "vm_ok s R (F \<union> set fs)" and d: "distinct fs" "set fs \<inter> F = {}"
  shows "vm_ok (foldl pmm_free_page s fs) R F" and "user_kept R F s (foldl pmm_free_page s fs)"
proof -
  show "vm_ok (foldl pmm_free_page s fs) R F" using free_shared [OF ok d(1)] d(2) by auto
  have "count_list fs f = 0" if "f \<in> F" for f using that d(2) by (auto simp: count_list_0_iff)
  then show "user_kept R F s (foldl pmm_free_page s fs)"
    using pmm.free_list_refs [OF vm_ok_pmm [OF ok]]
    by (simp add: user_kept_def mem_frame_def frees_facts)
qed

lemma step_kept_user: "step_kept {} pml4 R F s s' \<Longrightarrow> user_kept R F s s'"
  by (simp add: step_kept_def user_kept_def only_pages_def)

end
