(* ===== verification/UserAlloc.thy ===== *)
theory UserAlloc
  imports UserFind DataPages
begin

text \<open>
  Allocation of user memory: the invariant of a process, and what \<^verbatim>\<open>user_alloc\<close> of
  \<^verbatim>\<open>mm/user_memory.c\<close> does on its success and on each of its failures.
\<close>

section \<open>The invariant of a process\<close>

definition user_region :: "u64 \<times> u32 \<Rightarrow> bool" where
  "user_region r \<longleftrightarrow> fst r \<noteq> 0 \<and> fst r AND 4095 = 0 \<and> snd r \<noteq> 0 \<and> region_end r \<le> 2 ^ 47"

text \<open>The heap blocks that the process owns.\<close>

definition owned_nodes :: "task \<Rightarrow> u64 list" where
  "owned_nodes x = (if page_array x \<noteq> 0 then [page_array x] else []) @ map fst (allocations x)"

text \<open>
  \<open>R\<close> are the roots of all address spaces and \<open>G\<close> the data frames of everybody else; a frame that the
  process shares with them (after a fork) has further references.
\<close>

definition space_ok :: "'a sched_state_scheme \<Rightarrow> u64 set \<Rightarrow> u64 set \<Rightarrow> u64 \<Rightarrow> bool" where
  "space_ok s R G t \<longleftrightarrow>
     (let x = tasks s t
      in t \<noteq> 0 \<and> \<not> is_thread x \<and> t_pml4 x \<in> R \<and> heap_ok s R \<and> vm_ok s R (G \<union> set (user_pages x)) \<and>
         (\<forall>f \<in> G \<inter> set (user_pages x). 1 < frame_refs s f) \<and> distinct (user_pages x) \<and>
         length (user_vaddrs x) = length (user_pages x) \<and> length (user_pages x) \<le> 65536 \<and>
         length (user_pages x) \<le> unat (user_page_capacity x) \<and> 0 < user_page_capacity x \<and>
         distinct (owned_nodes x) \<and> set (owned_nodes x) \<subseteq> dom (live s) \<and>
         (\<forall>r \<in> set (task_regions x). user_region r))"

lemma user_region_ok: "user_region r \<Longrightarrow> region_ok r"
  by (simp add: user_region_def region_ok_def)

lemma user_range_valid:
  assumes "base AND 4095 = 0" and "pages \<noteq> 0" and "unat base + unat pages * 4096 \<le> 2 ^ 47"
  shows "valid_range base pages"
proof -
  let ?b = "ucast pages * 4096 :: u64"
  have b: "unat ?b = unat pages * 4096"
    using unat32_less [of pages] by (simp add: unat_word_ariths)
  have p: "0 < unat pages" using assms(2) by (simp add: unat_gt_0)
  have b1: "unat (?b - 1) = unat pages * 4096 - 1"
    using b p by (subst unat_minus_one) (auto simp: unat_eq_0 [symmetric] simp del: unat_eq_0)
  have sum: "unat (base + ?b) = unat base + unat pages * 4096"
    using b assms(3) by (simp add: unat_add_lem [THEN iffD1])
  have "unat (base + ?b - 1) = unat base + unat pages * 4096 - 1"
    using sum p by (subst unat_minus_one) (auto simp: unat_eq_0 [symmetric] simp del: unat_eq_0)
  then have "base + ?b - 1 < USER_TOP" using assms(3) p by (simp add: word_less_nat_alt)
  moreover have "base < USER_TOP" using assms(3) p by (simp add: word_less_nat_alt)
  moreover have "?b - 1 \<le> UINT64_MAX - base"
  proof -
    have "unat (UINT64_MAX - base) = 2 ^ 64 - 1 - unat base"
      using unat64_less [of base] by (simp add: unat_sub word_le_nat_alt)
    then show ?thesis using b1 assms(3) by (simp add: word_le_nat_alt)
  qed
  ultimately show ?thesis using assms(1,2) by (simp add: valid_range_def canonical_def Let_def)
qed

lemma user_region_valid: "user_region (b, p) \<Longrightarrow> valid_range b p"
  by (rule user_range_valid) (simp_all add: user_region_def region_end_def)

section \<open>Growing the arrays\<close>

lemma double_to_total:
  assumes "0 < c" and "n \<le> USER_MAX_PAGES"
  shows "\<exists>d. double_to c n = Some d \<and> n \<le> d \<and> c \<le> d"
  using assms(1)
proof (induction "unat n - unat c" arbitrary: c rule: less_induct)
  case less
  show ?case
  proof (cases "c < n")
    case False
    then show ?thesis by (subst double_to.simps) auto
  next
    case True
    have n: "unat n \<le> 65536" using assms(2) by (simp add: word_le_nat_alt)
    have c: "unat c < unat n" "0 < unat c" using True less.prems by (simp_all add: word_less_nat_alt)
    have "unat (c * 2) = 2 * unat c"
      using c n by (simp add: unat_word_ariths)
    then have "unat n - unat (c * 2) < unat n - unat c" "0 < c * 2" "c \<le> c * 2"
      using c by (simp_all add: word_less_nat_alt word_le_nat_alt)
    then obtain d where d: "double_to (c * 2) n = Some d" "n \<le> d" "c \<le> d"
      using less.hyps [of "c * 2"] by (meson order_trans)
    then show ?thesis using True d by (subst double_to.simps) simp
  qed
qed

lemma live_null: "heap_ok s R \<Longrightarrow> live s 0 = None"
  using live_region(4) by (cases "live s 0") auto

lemma reserve_spec:
  fixes s :: "'a sched_state_scheme" and t :: u64
  defines "x \<equiv> tasks s t"
  assumes hp: "heap_ok s R" and vm: "vm_ok s R F" and t: "t \<noteq> 0" "\<not> is_thread x" "0 < user_page_capacity x"
    and arr: "page_array x \<noteq> 0 \<Longrightarrow> page_array x \<in> dom (live s)"
  shows "\<exists>s' ok a c. user_pages_reserve t n s = Some (s', ok) \<and> heap_ok s' R \<and> vm_ok s' R F \<and>
    user_kept R F s s' \<and> task_list s' = task_list s \<and>
    tasks s' = (tasks s)(t := x\<lparr>page_array := a, user_page_capacity := c\<rparr>) \<and>
    user_page_capacity x \<le> c \<and> (ok \<longrightarrow> n \<le> c) \<and> dom (live s) - {page_array x} \<subseteq> dom (live s') \<and>
    (a = page_array x \<and> dom (live s) \<subseteq> dom (live s') \<or> a \<noteq> 0 \<and> a \<notin> dom (live s) \<and> a \<in> dom (live s'))"
proof (cases "n > USER_MAX_PAGES \<or> n \<le> user_page_capacity x")
  case True
  then show ?thesis
    using hp vm t unfolding x_def
    by (intro exI [of _ s] exI [of _ "n \<le> user_page_capacity (tasks s t) \<and> n \<le> USER_MAX_PAGES"]
        exI [of _ "page_array (tasks s t)"] exI [of _ "user_page_capacity (tasks s t)"])
      (auto simp: user_pages_reserve_def)
next
  case False
  then obtain c where c: "double_to (user_page_capacity x) n = Some c" "n \<le> c" "user_page_capacity x \<le> c"
    using double_to_total [OF t(3), of n] by (meson not_le)
  obtain s1 p where k: "kmalloc (ucast c * 2 * 8) s = Some (s1, p)" using heap.alloc_total [OF hp] by blast
  have ok1: "heap_ok s1 R" by (rule heap.alloc_inv [OF hp k])
  note vk = kmalloc_kept [OF hp vm k] and more1 = heap_more_fields [OF more_kmalloc [OF k]]
  show ?thesis
  proof (cases "p = 0")
    case True
    then have "user_pages_reserve t n s = Some (s1, False)"
      using False t c(1) k by (auto simp: user_pages_reserve_def x_def)
    moreover have "live s1 = live s" using heap.alloc_null [OF hp] k True by blast
    ultimately show ?thesis using ok1 vk more1 x_def
      by (intro exI [of _ s1] exI [of _ False] exI [of _ "page_array x"] exI [of _ "user_page_capacity x"]) simp
  next
    case p: False
    note new = heap.alloc_new [OF hp k p]
    then obtain m where m: "live s p = None" "live s1 = (live s)(p \<mapsto> m)" by blast
    define arr0 where "arr0 = page_array x"
    have "\<exists>s2. (if arr0 \<noteq> 0 then kfree arr0 s1 else Some s1) = Some s2 \<and> heap_ok s2 R \<and>
      live s2 = (live s1)(arr0 := None) \<and> vm_ok s2 R F \<and> user_kept R F s1 s2 \<and> tasks s2 = tasks s1 \<and>
      task_list s2 = task_list s1"
    proof (cases "arr0 = 0")
      case True
      have "(live s1)(0 := None) = live s1" using live_null [OF ok1] by (simp add: fun_upd_idem)
      then show ?thesis using True ok1 vk by simp
    next
      case False
      then have "arr0 \<in> dom (live s)" using arr by (simp add: arr0_def)
      then obtain j where "live s1 arr0 = Some j" using m by (cases "arr0 = p") auto
      then obtain s2 where s2: "kfree arr0 s1 = Some s2" "heap_ok s2 R" "live s2 = (live s1)(arr0 := None)"
        using heap.free_ok [OF ok1] by blast
      then show ?thesis
        using False kfree_kept [OF vk(1) s2(1)] heap_more_fields [OF more_kfree [OF s2(1)]] by simp
    qed
    then obtain s2 where s2: "(if arr0 \<noteq> 0 then kfree arr0 s1 else Some s1) = Some s2" "heap_ok s2 R"
      "live s2 = (live s1)(arr0 := None)" "vm_ok s2 R F" "user_kept R F s1 s2" "tasks s2 = tasks s1"
      "task_list s2 = task_list s1"
      by blast
    let ?s3 = "upd_task t (\<lambda>x. x\<lparr>page_array := p, user_page_capacity := c\<rparr>) s2"
    have run: "user_pages_reserve t n s = Some (?s3, True)"
      using False t c(1) k p s2(1) more1 by (auto simp: user_pages_reserve_def x_def arr0_def)
    have "p \<noteq> arr0" using m(1) arr p by (auto simp: arr0_def)
    then have "p \<in> dom (live ?s3)" "dom (live s) - {arr0} \<subseteq> dom (live ?s3)" using m s2(3) by auto
    moreover have "user_kept R F s ?s3"
      using user_kept_trans [OF user_kept_trans [OF vk(2) s2(5)] same_machine_kept [OF same_machine_upd_task]] .
    ultimately show ?thesis
      using run s2(2,4,6,7) more1 c p m(1)
      by (intro exI [of _ ?s3] exI [of _ True] exI [of _ p] exI [of _ c]) (auto simp: x_def arr0_def)
  qed
qed

section \<open>Taking the frames\<close>

lemma take_user_pages_spec:
  fixes s :: "'a sched_state_scheme"
  assumes "fresh_pages R F ps s0 s" and "take_user_pages n i t base s = (s', ok)"
  shows "\<exists>qs. fresh_pages R F (ps @ qs) s0 s' \<and> length qs \<le> n \<and> (ok \<longrightarrow> length qs = n) \<and>
    tasks s' = (tasks s)(t := (tasks s t)\<lparr>user_pages := user_pages (tasks s t) @ qs,
      user_vaddrs := user_vaddrs (tasks s t) @ map (page_at base) [i ..< i + length qs]\<rparr>) \<and>
    heap_blocks s' = heap_blocks s \<and> heap_end s' = heap_end s \<and> task_list s' = task_list s"
  using assms
proof (induction n arbitrary: i s ps)
  case 0
  then show ?case by (intro exI [of _ "[]"]) simp
next
  case (Suc n)
  obtain s1 a where al: "pmm_alloc_page s = (s1, a)" by fastforce
  have pm: "pmm_inv s" using Suc.prems(1) vm_ok_pmm by (auto simp: fresh_pages_def)
  show ?case
  proof (cases "a = 0")
    case True
    then have "s1 = s" using pmm_alloc_contract(4) [OF pm al] by blast
    then show ?thesis using Suc.prems al True by (intro exI [of _ "[]"]) auto
  next
    case False
    define s2 where "s2 = s1\<lparr>mem := memset (mem s1) (a + hhdm_offset s1) 0 4096\<rparr>"
    define s3 where "s3 = upd_task t (\<lambda>x. x\<lparr>user_pages := user_pages x @ [a],
      user_vaddrs := user_vaddrs x @ [page_at base i]\<rparr>) s2"
    have "fresh_pages R F (ps @ [a]) s0 s2"
      by (rule fresh_pages_snoc [OF Suc.prems(1) al False s2_def])
    then have fp: "fresh_pages R F (ps @ [a]) s0 s3"
      unfolding s3_def by (rule fresh_pages_same [OF _ same_machine_upd_task])
    have "take_user_pages n (Suc i) t base s3 = (s', ok)"
      using Suc.prems(2) al False by (simp add: s2_def s3_def Let_def del: memset_apply)
    from Suc.IH [OF fp this] obtain qs where qs: "fresh_pages R F ((ps @ [a]) @ qs) s0 s'" "length qs \<le> n"
      "ok \<longrightarrow> length qs = n" and ts: "tasks s' = (tasks s3)(t := (tasks s3 t)\<lparr>user_pages := user_pages (tasks s3 t) @ qs,
        user_vaddrs := user_vaddrs (tasks s3 t) @ map (page_at base) [Suc i ..< Suc i + length qs]\<rparr>)"
      and hb: "heap_blocks s' = heap_blocks s3" "heap_end s' = heap_end s3" "task_list s' = task_list s3"
      by blast
    have "machine.more s1 = machine.more s" using more_alloc al by (metis fst_conv)
    then have "machine.more s2 = machine.more s" by (simp add: s2_def)
    note mf = more_fields [OF this]
    have "[i ..< i + length (a # qs)] = i # [Suc i ..< Suc i + length qs]"
      using upt_conv_Cons [of i "i + length (a # qs)"] by (simp del: upt_Suc)
    then have "tasks s' = (tasks s)(t := (tasks s t)\<lparr>user_pages := user_pages (tasks s t) @ (a # qs),
        user_vaddrs := user_vaddrs (tasks s t) @ map (page_at base) [i ..< i + length (a # qs)]\<rparr>)"
      using ts mf by (simp add: s3_def del: upt_Suc)
    then show ?thesis using qs hb mf
      by (intro exI [of _ "a # qs"]) (simp add: s3_def upd_task_def)
  qed
qed

section \<open>Allocation\<close>

lemma owned_after_growth:
  assumes "distinct (owned_nodes x)" and "set (owned_nodes x) \<subseteq> D" and "0 \<notin> D" and "D - {page_array x} \<subseteq> D'"
    and "a = page_array x \<and> D \<subseteq> D' \<or> a \<noteq> 0 \<and> a \<notin> D \<and> a \<in> D'"
  shows "distinct (owned_nodes (x\<lparr>page_array := a, user_page_capacity := c\<rparr>))"
    and "set (owned_nodes (x\<lparr>page_array := a, user_page_capacity := c\<rparr>)) \<subseteq> D'"
    and "n \<in> D \<Longrightarrow> n \<notin> set (owned_nodes x) \<Longrightarrow>
      n \<in> D' \<and> n \<notin> set (owned_nodes (x\<lparr>page_array := a, user_page_capacity := c\<rparr>))"
proof -
  define N where "N = map fst (allocations x)"
  have o: "owned_nodes (x\<lparr>page_array := b, user_page_capacity := c\<rparr>) = (if b \<noteq> 0 then [b] else []) @ N" for b
    by (simp add: owned_nodes_def N_def)
  have o0: "owned_nodes x = (if page_array x \<noteq> 0 then [page_array x] else []) @ N"
    by (simp add: owned_nodes_def N_def)
  note as = assms [unfolded o0]
  show "distinct (owned_nodes (x\<lparr>page_array := a, user_page_capacity := c\<rparr>))" unfolding o
    using as by (auto split: if_splits)
  show "set (owned_nodes (x\<lparr>page_array := a, user_page_capacity := c\<rparr>)) \<subseteq> D'" unfolding o
    using as by (auto split: if_splits)
  show "n \<in> D' \<and> n \<notin> set (owned_nodes (x\<lparr>page_array := a, user_page_capacity := c\<rparr>))"
    if "n \<in> D" "n \<notin> set (owned_nodes x)"
    using as that unfolding o o0 by (auto split: if_splits)
qed

text \<open>Whatever the process still has after its arrays moved and the rest was kept.\<close>

lemma space_ok_kept:
  assumes sp: "space_ok s R G t" and F: "F = G \<union> set (user_pages (tasks s t))"
    and s': "heap_ok s' R" "vm_ok s' R F" "user_kept R F s s'"
    and ts: "tasks s' t = (tasks s t)\<lparr>page_array := a, user_page_capacity := c\<rparr>"
      "user_page_capacity (tasks s t) \<le> c"
    and n: "distinct (owned_nodes (tasks s' t))" "set (owned_nodes (tasks s' t)) \<subseteq> dom (live s')"
  shows "space_ok s' R G t"
proof -
  have "0 < user_page_capacity (tasks s t)" using sp by (simp add: space_ok_def Let_def)
  then have "0 < c" using ts(2) by (rule less_le_trans)
  moreover have "unat (user_page_capacity (tasks s t)) \<le> unat c" using ts(2) by (simp add: word_le_nat_alt)
  moreover have "task_regions (tasks s' t) = task_regions (tasks s t)" by (simp add: ts(1) task_regions_def)
  ultimately show ?thesis
    using sp s' n user_keptD(2) [OF s'(3)] F unfolding space_ok_def Let_def by (auto simp: ts(1))
qed

lemma alloc_size:
  assumes "sz \<noteq> 0" and "sz \<le> USER_HEAP_END - USER_HEAP_BASE - PAGE_BYTES"
  defines "pages \<equiv> ucast ((sz + PAGE_BYTES - 1) div PAGE_BYTES) :: u32"
  shows "unat pages = (unat sz + 4095) div 4096" and "0 < (unat sz + 4095) div 4096"
    and "(unat sz + 4095) div 4096 < 2 ^ 15"
proof -
  have b: "unat sz \<le> 0x7FFF000" using assms(2) by (simp add: word_le_nat_alt)
  have sz: "0 < unat sz" using assms(1) by (simp add: unat_gt_0)
  have "unat (sz + 4095) = unat sz + 4095" using unat_add_small [of sz 4095] b by simp
  moreover have "unat PAGE_BYTES = 4096" "sz + PAGE_BYTES - 1 = sz + 4095" by simp_all
  ultimately have "unat ((sz + PAGE_BYTES - 1) div PAGE_BYTES) = (unat sz + 4095) div 4096"
    by (simp only: unat_div)
  moreover show lt: "(unat sz + 4095) div 4096 < 2 ^ 15" using b by simp
  ultimately show "unat pages = (unat sz + 4095) div 4096"
    unfolding pages_def by (simp add: unsigned_ucast_eq take_bit_eq_mod)
  show "0 < (unat sz + 4095) div 4096" using sz by (simp add: div_greater_zero_iff)
qed

text \<open>The frames are taken and mapped, or everything is as it was before.\<close>

lemma map_fresh_pages:
  fixes s :: "'a sched_state_scheme"
  assumes vm: "vm_ok s R F" and hp: "heap_ok s R" and p: "t_pml4 (tasks s t) \<in> R"
    and base: "base AND 4095 = 0" "0 < unat pages" "unat base + unat pages * 4096 \<le> 2 ^ 47"
    and tk: "take_user_pages (unat pages) 0 t base s = (s1, ok1)"
    and mp: "(s2, ok) = (if ok1 then vmm_map_pages_in (t_pml4 (tasks s1 t)) base
        (Some (drop (length (user_pages (tasks s t))) (user_pages (tasks s1 t)))) pages VMM_FLAGS_USER_DATA s1
      else (s1, False))"
  shows "\<not> ok \<Longrightarrow> let s3 = drop_user_pages (length (user_pages (tasks s t))) t s2 in
      length (user_vaddrs (tasks s t)) = length (user_pages (tasks s t)) \<longrightarrow>
      vm_ok s3 R F \<and> heap_ok s3 R \<and> user_kept R F s s3 \<and> tasks s3 = tasks s \<and> live s3 = live s"
    and "ok \<Longrightarrow> \<exists>qs. length qs = unat pages \<and> distinct qs \<and> set qs \<inter> F = {} \<and>
      vm_ok s2 R (F \<union> set qs) \<and> heap_ok s2 R \<and> live s2 = live s \<and>
      (\<forall>q \<in> set qs. q \<noteq> 0 \<and> frame_refs s2 q = 1 \<and> clear_page s2 q) \<and>
      mem_frame F s s2 \<and> (\<forall>f \<in> F. frame_refs s2 f = frame_refs s f) \<and>
      only_pages (range_pages base (unat pages)) (t_pml4 (tasks s t)) R s s2 \<and>
      (\<forall>i < unat pages. pt_lookup s2 (t_pml4 (tasks s t)) (page_at base i) = Some (qs ! i OR VMM_FLAGS_USER_DATA)) \<and>
      tasks s2 = (tasks s)(t := (tasks s t)\<lparr>user_pages := user_pages (tasks s t) @ qs,
        user_vaddrs := user_vaddrs (tasks s t) @ map (page_at base) [0 ..< unat pages]\<rparr>)"
proof -
  let ?x = "tasks s t" and ?pml4 = "t_pml4 (tasks s t)"
  obtain qs where fp: "fresh_pages R F qs s s1" and len: "length qs \<le> unat pages" "ok1 \<longrightarrow> length qs = unat pages"
    and ts: "tasks s1 = (tasks s)(t := ?x\<lparr>user_pages := user_pages ?x @ qs,
      user_vaddrs := user_vaddrs ?x @ map (page_at base) [0 ..< length qs]\<rparr>)"
    and hb: "heap_blocks s1 = heap_blocks s" "heap_end s1 = heap_end s" "task_list s1 = task_list s"
    using take_user_pages_spec [OF fresh_pages_Nil [OF vm] tk] by auto
  have d: "distinct qs" "set qs \<inter> F = {}" and vm1: "vm_ok s1 R (F \<union> set qs)" and k1: "user_kept R F s s1"
    and kp: "kernel_pml4 s1 = kernel_pml4 s"
    using fp by (auto simp: fresh_pages_def)
  have val: "valid_range base pages" by (rule user_range_valid) (use base in \<open>simp_all add: unat_gt_0\<close>)
  have drp: "drop (length (user_pages ?x)) (user_pages (tasks s1 t)) = qs" and pm: "t_pml4 (tasks s1 t) = ?pml4"
    by (simp_all add: ts)
  have m: "(s2, ok) = (if ok1 then vmm_map_pages_in ?pml4 base (Some qs) pages VMM_FLAGS_USER_DATA s1 else (s1, False))"
    using mp unfolding drp pm .
  have "machine.more s2 = machine.more s1"
    using m more_map_pages [of ?pml4 base "Some qs" pages VMM_FLAGS_USER_DATA s1] by (metis fst_conv)
  note mf = more_fields [OF this]
  show "let s3 = drop_user_pages (length (user_pages ?x)) t s2 in
      length (user_vaddrs ?x) = length (user_pages ?x) \<longrightarrow>
      vm_ok s3 R F \<and> heap_ok s3 R \<and> user_kept R F s s3 \<and> tasks s3 = tasks s \<and> live s3 = live s" if "\<not> ok"
  proof -
    have v2: "vm_ok s2 R (F \<union> set qs) \<and> user_kept R F s1 s2 \<and> kernel_pml4 s2 = kernel_pml4 s1"
    proof (cases ok1)
      case False
      then show ?thesis using m vm1 by simp
    next
      case True
      then have e: "vmm_map_pages_in ?pml4 base (Some qs) pages VMM_FLAGS_USER_DATA s1 = (s2, False)"
        using m that by simp
      have n: "unat pages \<le> length qs" using len True by simp
      have sk: "step_kept {} ?pml4 R (F \<union> set qs) s1 s2"
        by (rule map_pages_failed [OF vm1 p n e val]) (use base(3) in simp)
      then show ?thesis
        using map_pages_spec(1) [OF vm1 p n e] user_kept_mono [OF step_kept_user [OF sk], of F]
        by (simp add: step_kept_def)
    qed
    define s3 where "s3 = foldl pmm_free_page s2 (rev qs)"
    have "vm_ok s3 R F" "user_kept R F s2 s3"
      unfolding s3_def using frees_kept [of s2 R F "rev qs"] v2 d by simp_all
    moreover have "kernel_pml4 s3 = kernel_pml4 s" using v2 kp by (simp add: s3_def frees_facts)
    moreover have "machine.more s3 = machine.more s2" by (simp add: s3_def frame_simps)
    note mf3 = more_fields [OF this]
    ultimately have "heap_ok s3 R" "user_kept R F s s3" "live s3 = live s"
      using hp mf mf3 hb user_kept_trans [OF user_kept_trans [OF k1, of s2], of s3] v2
      by (auto simp: heap_ok_def)
    moreover have "drop_user_pages (length (user_pages ?x)) t s2 = upd_task t (\<lambda>x. x\<lparr>
        user_pages := take (length (user_pages ?x)) (user_pages x),
        user_vaddrs := take (length (user_pages ?x)) (user_vaddrs x)\<rparr>) s3"
      using mf drp by (simp add: drop_user_pages_def s3_def ts)
    ultimately show ?thesis using \<open>vm_ok s3 R F\<close> mf mf3 ts
      by (simp add: Let_def)
  qed
  assume ok
  then have "ok1" and e: "vmm_map_pages_in ?pml4 base (Some qs) pages VMM_FLAGS_USER_DATA s1 = (s2, True)"
    using m by (simp_all split: if_splits)
  then have n: "unat pages = length qs" using len by simp
  note ms = map_pages_spec(1,3,4) [OF vm1 p eq_refl [OF n] e]
  have sk: "step_kept (range_pages base (unat pages)) ?pml4 R (F \<union> set qs) s1 s2" using ms(2) by simp
  have frm: "mem_frame (F \<union> set qs) s1 s2" and rf: "\<And>f. f \<in> F \<union> set qs \<Longrightarrow> frame_refs s2 f = frame_refs s1 f"
    and kp2: "kernel_pml4 s2 = kernel_pml4 s1" and op: "only_pages (range_pages base (unat pages)) ?pml4 R s1 s2"
    using sk by (simp_all add: step_kept_def)
  have "q \<noteq> 0 \<and> frame_refs s2 q = 1 \<and> clear_page s2 q" if q: "q \<in> set qs" for q
  proof -
    have "count_list qs q = 1" using d(1) q by (induction qs) (auto simp: count_list_0_iff)
    then have "frame_refs s2 q = 1" "q \<noteq> 0" "clear_page s1 q" using fp q rf by (auto simp: fresh_pages_def)
    moreover have "in_frames (F \<union> set qs) s1 a" if "in_page (q + hhdm_offset s1) a" for a
      using that q by (auto simp: in_frames_def)
    ultimately show ?thesis using frm by (auto simp: clear_page_def mem_frame_def)
  qed
  moreover have "only_pages (range_pages base (unat pages)) ?pml4 R s s2"
    using op fp by (simp add: only_pages_def fresh_pages_def)
  moreover have "mem_frame F s s2"
    using mem_frame_trans [OF user_keptD(1) [OF k1] mem_frame_mono [OF frm]] by simp
  moreover have "heap_ok s2 R" using hp ms(1) mf hb kp kp2 by (auto simp: heap_ok_def)
  moreover have "frame_refs s2 f = frame_refs s f" if "f \<in> F" for f using rf user_keptD(2) [OF k1] that by simp
  moreover have "pt_lookup s2 ?pml4 (page_at base i) = Some (qs ! i OR VMM_FLAGS_USER_DATA)" if "i < unat pages" for i
    using ms(3) that by simp
  ultimately show "\<exists>qs. length qs = unat pages \<and> distinct qs \<and> set qs \<inter> F = {} \<and>
      vm_ok s2 R (F \<union> set qs) \<and> heap_ok s2 R \<and> live s2 = live s \<and>
      (\<forall>q \<in> set qs. q \<noteq> 0 \<and> frame_refs s2 q = 1 \<and> clear_page s2 q) \<and>
      mem_frame F s s2 \<and> (\<forall>f \<in> F. frame_refs s2 f = frame_refs s f) \<and>
      only_pages (range_pages base (unat pages)) ?pml4 R s s2 \<and>
      (\<forall>i < unat pages. pt_lookup s2 ?pml4 (page_at base i) = Some (qs ! i OR VMM_FLAGS_USER_DATA)) \<and>
      tasks s2 = (tasks s)(t := ?x\<lparr>user_pages := user_pages ?x @ qs,
        user_vaddrs := user_vaddrs ?x @ map (page_at base) [0 ..< unat pages]\<rparr>)"
    using n d ms(1) mf hb ts by (intro exI [of _ qs]) auto
qed

text \<open>The outcomes of an allocation by the process \<open>t\<close>.\<close>

definition unchanged_for_user ::
    "u64 set \<Rightarrow> u64 set \<Rightarrow> u64 \<Rightarrow> 'a sched_state_scheme \<Rightarrow> 'a sched_state_scheme \<Rightarrow> bool" where
  "unchanged_for_user R F t s s' \<longleftrightarrow> user_kept R F s s' \<and>
     (\<exists>b c. tasks s' = (tasks s)(t := (tasks s t)\<lparr>page_array := b, user_page_capacity := c\<rparr>))"

definition new_allocation ::
    "u64 set \<Rightarrow> u64 set \<Rightarrow> u64 \<Rightarrow> u64 \<Rightarrow> u64 \<Rightarrow> 'a sched_state_scheme \<Rightarrow> 'a sched_state_scheme \<Rightarrow> bool" where
  "new_allocation R F t sz base s s' \<longleftrightarrow>
     (let x = tasks s t; n = (unat sz + 4095) div 4096
      in base AND 4095 = 0 \<and> USER_HEAP_BASE \<le> base \<and> unat base + (n + 1) * 4096 \<le> unat USER_HEAP_END \<and>
         range_free x s (of_nat n) base \<and> mem_frame F s s' \<and> (\<forall>f \<in> F. frame_refs s' f = frame_refs s f) \<and>
         (\<forall>r \<in> R. \<forall>va < USER_TOP. r \<noteq> t_pml4 x \<or> va AND NOT 4095 \<notin> range_pages base n \<longrightarrow>
            pt_lookup s' r va = pt_lookup s r va) \<and>
         (\<exists>ps a b c. length ps = n \<and> distinct ps \<and> set ps \<inter> F = {} \<and>
            (\<forall>p \<in> set ps. p \<noteq> 0 \<and> frame_refs s' p = 1 \<and> clear_page s' p) \<and>
            (\<forall>i < n. pt_lookup s' (t_pml4 x) (page_at base i) = Some (ps ! i OR VMM_FLAGS_USER_DATA)) \<and>
            tasks s' = (tasks s)(t := x\<lparr>page_array := b, user_page_capacity := c,
              user_pages := user_pages x @ ps, user_vaddrs := user_vaddrs x @ map (page_at base) [0 ..< n],
              allocations := (a, \<lparr>a_base = base, a_size = sz, a_pages = of_nat n\<rparr>) # allocations x\<rparr>)))"

lemma space_okD:
  assumes "space_ok s R G t"
  shows "t \<noteq> 0" "\<not> is_thread (tasks s t)" "t_pml4 (tasks s t) \<in> R" "heap_ok s R"
    "vm_ok s R (G \<union> set (user_pages (tasks s t)))" "length (user_vaddrs (tasks s t)) = length (user_pages (tasks s t))"
    "length (user_pages (tasks s t)) \<le> 65536" "0 < user_page_capacity (tasks s t)"
    "distinct (owned_nodes (tasks s t))" "set (owned_nodes (tasks s t)) \<subseteq> dom (live s)"
    "\<forall>r \<in> set (task_regions (tasks s t)). user_region r" "t_pml4 (tasks s t) \<noteq> 0"
proof -
  show "t \<noteq> 0" "\<not> is_thread (tasks s t)" and R: "t_pml4 (tasks s t) \<in> R" and "heap_ok s R"
    and vm: "vm_ok s R (G \<union> set (user_pages (tasks s t)))"
    and "length (user_vaddrs (tasks s t)) = length (user_pages (tasks s t))"
    "length (user_pages (tasks s t)) \<le> 65536" "0 < user_page_capacity (tasks s t)"
    "distinct (owned_nodes (tasks s t))" "set (owned_nodes (tasks s t)) \<subseteq> dom (live s)"
    "\<forall>r \<in> set (task_regions (tasks s t)). user_region r"
    using assms by (simp_all add: space_ok_def Let_def)
  show "t_pml4 (tasks s t) \<noteq> 0" using vm_ok_root [OF vm R] pt_invD(2) by blast
qed

lemma unchanged_same: "unchanged_for_user R F t s s"
  unfolding unchanged_for_user_def
  by (intro conjI user_kept_refl exI [of _ "page_array (tasks s t)"] exI [of _ "user_page_capacity (tasks s t)"]) simp

text \<open>The part of the code after a range has been found.\<close>

definition alloc_in_range ::
    "u64 \<Rightarrow> u64 \<Rightarrow> u32 \<Rightarrow> u64 \<Rightarrow> 'a sched_state_scheme \<Rightarrow> ('a sched_state_scheme \<times> u64) option" where
  "alloc_in_range t base pages sz s = do {
     (s, a) \<leftarrow> kmalloc 32 s;
     if a = 0 then Some (s, 0)
     else do {
       (s, reserved) \<leftarrow> user_pages_reserve t (user_page_count (tasks s t) + pages) s;
       if \<not> reserved then do { s \<leftarrow> kfree a s; Some (s, 0) }
       else do {
         let before = length (user_pages (tasks s t));
         let (s, ok) = take_user_pages (unat pages) 0 t base s;
         let (s, ok) =
           (if ok then vmm_map_pages_in (t_pml4 (tasks s t)) base
              (Some (drop before (user_pages (tasks s t)))) pages VMM_FLAGS_USER_DATA s
            else (s, False));
         if ok
         then Some (upd_task t (\<lambda>x. x\<lparr>allocations :=
                (a, \<lparr>a_base = base, a_size = sz, a_pages = pages\<rparr>) # allocations x\<rparr>) s, base)
         else do { s \<leftarrow> kfree a (drop_user_pages before t s); Some (s, 0) }
       }
     }
   }"

lemma user_alloc_in_range:
  assumes "task_memory_owner task s = t" and "t \<noteq> 0" and "t_pml4 (tasks s t) \<noteq> 0" and "sz \<noteq> 0"
    and "sz \<le> USER_HEAP_END - USER_HEAP_BASE - PAGE_BYTES"
    and "pages = ucast ((sz + PAGE_BYTES - 1) div PAGE_BYTES)" and "pages \<le> USER_MAX_PAGES - user_page_count (tasks s t)"
    and "user_find_free_range t USER_HEAP_BASE USER_HEAP_END pages s = Some base" and "base \<noteq> 0"
  shows "user_alloc task sz s = alloc_in_range t base pages sz s"
proof -
  obtain r where r: "kmalloc 32 s = r" by blast
  have "tasks s1 = tasks s" if "r = Some (s1, a)" for s1 a
    using heap_more_fields(1) [OF more_kmalloc, of 32 s s1 a] r that by simp
  then show ?thesis
    using assms(2-5,7-9) r unfolding user_alloc_def alloc_in_range_def Let_def assms(6) [symmetric] assms(1)
    by (cases r) (auto simp: not_less)
qed

lemma undo_node:
  assumes "heap_ok s R" and "vm_ok s R F" and "a \<in> dom (live s)"
  shows "\<exists>s'. kfree a s = Some s' \<and> heap_ok s' R \<and> vm_ok s' R F \<and> user_kept R F s s' \<and>
    tasks s' = tasks s \<and> live s' = (live s)(a := None)"
proof -
  obtain k where "live s a = Some k" using assms(3) by blast
  then obtain s' where "kfree a s = Some s'" "heap_ok s' R" "live s' = (live s)(a := None)"
    using heap.free_ok [OF assms(1)] by blast
  then show ?thesis using kfree_kept [OF assms(2)] heap_more_fields(1) [OF more_kfree] by blast
qed

lemma alloc_in_range_spec:
  fixes s :: "'a sched_state_scheme"
  assumes sp: "space_ok s R G t" and F: "F = G \<union> set (user_pages (tasks s t))"
    and n: "unat pages = (unat sz + 4095) div 4096" "0 < unat pages"
    and base: "base AND 4095 = 0" "base \<noteq> 0" "USER_HEAP_BASE \<le> base"
      "unat base + (unat pages + 1) * 4096 \<le> unat USER_HEAP_END"
    and free: "range_free (tasks s t) s pages base"
    and room: "unat pages + length (user_pages (tasks s t)) \<le> 65536"
  shows "\<exists>s' r. alloc_in_range t base pages sz s = Some (s', r) \<and> space_ok s' R G t \<and>
    (r = 0 \<and> unchanged_for_user R F t s s' \<or> r = base \<and> new_allocation R F t sz base s s')"
proof -
  let ?x = "tasks s t"
  note sd = space_okD [OF sp, folded F]
  have null: "0 \<notin> dom (live s)" using live_null [OF sd(4)] by (simp add: domIff)
  obtain s1 a where k: "kmalloc 32 s = Some (s1, a)" using heap.alloc_total [OF sd(4)] by blast
  have hp1: "heap_ok s1 R" by (rule heap.alloc_inv [OF sd(4) k])
  note v1 = kmalloc_kept [OF sd(4,5) k] and ts1 = heap_more_fields(1) [OF more_kmalloc [OF k]]
  show ?thesis
  proof (cases "a = 0")
    case True
    have "live s1 = live s" using heap.alloc_null [OF sd(4)] k True by blast
    then have "space_ok s1 R G t"
      using space_ok_kept [OF sp F hp1 v1, where a = "page_array ?x" and c = "user_page_capacity ?x"] sd(9,10) by (simp add: ts1)
    moreover have "unchanged_for_user R F t s s1"
      using v1(2) unchanged_same [of R F t s] by (simp add: unchanged_for_user_def ts1)
    ultimately show ?thesis using k True by (simp add: alloc_in_range_def)
  next
    case a: False
    obtain j where j: "live s a = None" "live s1 = (live s)(a \<mapsto> j)"
      using heap.alloc_new [OF sd(4) k a] by blast
    have null1: "0 \<notin> dom (live s1)" using null j a by simp
    have arr1: "page_array ?x \<noteq> 0 \<Longrightarrow> page_array ?x \<in> dom (live s1)"
      using sd(10) j by (auto simp: owned_nodes_def)
    have sub1: "set (owned_nodes ?x) \<subseteq> dom (live s1)" using sd(10) j by auto
    have an: "a \<notin> set (owned_nodes ?x)" "a \<in> dom (live s1)" using sd(10) j by auto
    obtain s2 ok b c where rs: "user_pages_reserve t (user_page_count ?x + pages) s1 = Some (s2, ok)"
      "heap_ok s2 R" "vm_ok s2 R F" "user_kept R F s1 s2"
      and ts2: "tasks s2 = (tasks s)(t := ?x\<lparr>page_array := b, user_page_capacity := c\<rparr>)"
      and c: "user_page_capacity ?x \<le> c" "ok \<longrightarrow> user_page_count ?x + pages \<le> c"
      and d: "dom (live s1) - {page_array ?x} \<subseteq> dom (live s2)"
        "b = page_array ?x \<and> dom (live s1) \<subseteq> dom (live s2) \<or> b \<noteq> 0 \<and> b \<notin> dom (live s1) \<and> b \<in> dom (live s2)"
      using reserve_spec [OF hp1 v1(1) sd(1), of "user_page_count ?x + pages"] sd(2,8) arr1
      unfolding ts1 by blast
    note nodes = owned_after_growth [OF sd(9) sub1 null1 d, where c = c]
    have x2: "tasks s2 t = ?x\<lparr>page_array := b, user_page_capacity := c\<rparr>" using ts2 by simp
    have a2: "a \<in> dom (live s2)" "a \<notin> set (owned_nodes (tasks s2 t))" using nodes(3) an x2 by auto
    have k2: "user_kept R F s s2" by (rule user_kept_trans [OF v1(2) rs(4)])
    have undo: "\<exists>s'. kfree a u = Some s' \<and> space_ok s' R G t \<and> unchanged_for_user R F t s s'"
      if u: "heap_ok u R" "vm_ok u R F" "user_kept R F s2 u" "tasks u = tasks s2" "live u = live s2"
      for u :: "'a sched_state_scheme"
    proof -
      obtain u' where u': "kfree a u = Some u'" "heap_ok u' R" "vm_ok u' R F" "user_kept R F u u'"
        "tasks u' = tasks u" "live u' = (live u)(a := None)"
        using undo_node [OF u(1,2)] a2 u(5) by auto
      have kk: "user_kept R F s u'" by (rule user_kept_trans [OF user_kept_trans [OF k2 u(3)] u'(4)])
      have "space_ok u' R G t"
      proof (rule space_ok_kept [OF sp F u'(2,3) kk _ c(1)])
        show "tasks u' t = ?x\<lparr>page_array := b, user_page_capacity := c\<rparr>" using u'(5) u(4) x2 by simp
        show "distinct (owned_nodes (tasks u' t))" using nodes(1) u'(5) u(4) x2 by simp
        show "set (owned_nodes (tasks u' t)) \<subseteq> dom (live u')"
          using nodes(2) a2 u'(5,6) u(4,5) x2 by auto
      qed
      moreover have "unchanged_for_user R F t s u'" using kk u'(5) u(4) ts2 unfolding unchanged_for_user_def by auto
      ultimately show ?thesis using u'(1) by blast
    qed
    show ?thesis
    proof (cases ok)
      case False
      obtain s' where "kfree a s2 = Some s'" "space_ok s' R G t" "unchanged_for_user R F t s s'"
        using undo [OF rs(2,3)] by auto
      then show ?thesis using k a rs(1) False ts1 by (simp add: alloc_in_range_def)
    next
      case reserved: True
      let ?x2 = "tasks s2 t"
      obtain s3 ok3 where tk: "take_user_pages (unat pages) 0 t base s2 = (s3, ok3)" by fastforce
      obtain s4 ok4 where mp: "(s4, ok4) = (if ok3 then vmm_map_pages_in (t_pml4 (tasks s3 t)) base
          (Some (drop (length (user_pages ?x2)) (user_pages (tasks s3 t)))) pages VMM_FLAGS_USER_DATA s3
        else (s3, False))"
        by (metis prod.collapse)
      have run: "alloc_in_range t base pages sz s =
        (if ok4 then Some (upd_task t (\<lambda>x. x\<lparr>allocations :=
            (a, \<lparr>a_base = base, a_size = sz, a_pages = pages\<rparr>) # allocations x\<rparr>) s4, base)
         else do { s \<leftarrow> kfree a (drop_user_pages (length (user_pages ?x2)) t s4); Some (s, 0) })"
        using k a rs(1) reserved ts1 tk by (simp add: alloc_in_range_def Let_def mp [symmetric])
      have top: "unat base + unat pages * 4096 \<le> 2 ^ 47" using base(4) by simp
      have p2: "t_pml4 ?x2 \<in> R" using x2 sd(3) by simp
      note mfp = map_fresh_pages [OF rs(3,2) p2 base(1) n(2) top tk mp]
      show ?thesis
      proof (cases ok4)
        case False
        define u where "u = drop_user_pages (length (user_pages ?x2)) t s4"
        have "vm_ok u R F" "heap_ok u R" "user_kept R F s2 u" "tasks u = tasks s2" "live u = live s2"
          using mfp(1) False sd(6) by (simp_all add: Let_def u_def x2)
        then obtain s' where "kfree a u = Some s'" "space_ok s' R G t" "unchanged_for_user R F t s s'"
          using undo [of u] by blast
        then show ?thesis using run False by (simp add: u_def)
      next
        case True
        then obtain qs where q: "length qs = unat pages" "distinct qs" "set qs \<inter> F = {}"
            "vm_ok s4 R (F \<union> set qs)" "heap_ok s4 R" "live s4 = live s2"
            "\<And>q. q \<in> set qs \<Longrightarrow> q \<noteq> 0 \<and> frame_refs s4 q = 1 \<and> clear_page s4 q"
            "mem_frame F s2 s4" "\<And>f. f \<in> F \<Longrightarrow> frame_refs s4 f = frame_refs s2 f"
            "only_pages (range_pages base (unat pages)) (t_pml4 ?x) R s2 s4"
            "\<And>i. i < unat pages \<Longrightarrow> pt_lookup s4 (t_pml4 ?x) (page_at base i) = Some (qs ! i OR VMM_FLAGS_USER_DATA)"
            "tasks s4 = (tasks s2)(t := ?x2\<lparr>user_pages := user_pages ?x2 @ qs,
              user_vaddrs := user_vaddrs ?x2 @ map (page_at base) [0 ..< unat pages]\<rparr>)"
          using mfp(2) by (auto simp: x2)
        define s5 where "s5 = upd_task t (\<lambda>x. x\<lparr>allocations :=
            (a, \<lparr>a_base = base, a_size = sz, a_pages = pages\<rparr>) # allocations x\<rparr>) s4"
        have x5: "tasks s5 t = ?x\<lparr>page_array := b, user_page_capacity := c, user_pages := user_pages ?x @ qs,
            user_vaddrs := user_vaddrs ?x @ map (page_at base) [0 ..< unat pages],
            allocations := (a, \<lparr>a_base = base, a_size = sz, a_pages = pages\<rparr>) # allocations ?x\<rparr>"
          using q(12) x2 by (simp add: s5_def)
        have pg: "pages = of_nat (unat pages)" by simp
        have ts5: "tasks s5 = (tasks s)(t := ?x\<lparr>page_array := b, user_page_capacity := c, user_pages := user_pages ?x @ qs,
            user_vaddrs := user_vaddrs ?x @ map (page_at base) [0 ..< unat pages],
            allocations := (a, \<lparr>a_base = base, a_size = sz, a_pages = pages\<rparr>) # allocations ?x\<rparr>)"
          using q(12) x2 ts2 by (simp add: s5_def)
        have "new_allocation R F t sz base s s5"
        proof -
          have "mem_frame F s s5"
            using mem_frame_trans [OF user_keptD(1) [OF k2] q(8)] by (simp add: s5_def mem_frame_def)
          moreover have "frame_refs s5 f = frame_refs s f" if "f \<in> F" for f
            using q(9) [OF that] user_keptD(2) [OF k2 that] by (simp add: s5_def)
          moreover have "pt_lookup s5 r va = pt_lookup s r va"
            if "r \<in> R" "va < USER_TOP" "r \<noteq> t_pml4 ?x \<or> va AND NOT 4095 \<notin> range_pages base (unat pages)" for r va
          proof -
            have "va AND NOT 4095 < USER_TOP" using that(2) word_and_le2 [of va "NOT 4095"] by (rule le_less_trans [rotated])
            then have "pt_lookup s4 r va = pt_lookup s2 r va" using q(10) that unfolding only_pages_def by blast
            then show ?thesis using user_keptD(3) [OF k2 that(1,2)] by (simp add: s5_def)
          qed
          moreover have "clear_page s5 p = clear_page s4 p" for p by (simp add: s5_def clear_page_def)
          moreover have "frame_refs s5 = frame_refs s4" "\<And>r va. pt_lookup s5 r va = pt_lookup s4 r va"
            by (simp_all add: s5_def)
          moreover have "\<exists>ps a b c. length ps = unat pages \<and> distinct ps \<and> set ps \<inter> F = {} \<and>
              (\<forall>p \<in> set ps. p \<noteq> 0 \<and> frame_refs s5 p = 1 \<and> clear_page s5 p) \<and>
              (\<forall>i < unat pages. pt_lookup s5 (t_pml4 ?x) (page_at base i) = Some (ps ! i OR VMM_FLAGS_USER_DATA)) \<and>
              tasks s5 = (tasks s)(t := ?x\<lparr>page_array := b, user_page_capacity := c,
                user_pages := user_pages ?x @ ps, user_vaddrs := user_vaddrs ?x @ map (page_at base) [0 ..< unat pages],
                allocations := (a, \<lparr>a_base = base, a_size = sz, a_pages = pages\<rparr>) # allocations ?x\<rparr>)"
            by (rule exI [of _ qs], rule exI [of _ a], rule exI [of _ b], rule exI [of _ c])
              (use q(1-3,7,11) ts5 calculation in simp)
          ultimately show ?thesis
            using base free unfolding new_allocation_def Let_def n(1) [symmetric] pg [symmetric] by simp
        qed
        moreover have "space_ok s5 R G t"
        proof -
          have "unat (user_page_count ?x + pages) = length (user_pages ?x) + unat pages"
            using room sd(7) unfolding user_page_count_def
            by (subst unat_add_lem [THEN iffD1]) (simp_all add: unat_of_nat take_bit_eq_mod)
          then have cap: "length (user_pages ?x) + unat pages \<le> unat c" "0 < c"
            using c reserved sd(8) by (auto simp: word_le_nat_alt word_less_nat_alt)
          have reg: "user_region (base, pages)"
            using base n(2) by (auto simp: user_region_def region_end_def)
          have nds: "distinct (owned_nodes (tasks s5 t))" "set (owned_nodes (tasks s5 t)) \<subseteq> dom (live s5)"
            using nodes(1,2) a2 q(6) x2 unfolding x5 by (auto simp: owned_nodes_def s5_def split: if_splits)
          have "1 < frame_refs s5 f" if "f \<in> G \<inter> (set (user_pages ?x) \<union> set qs)" for f
          proof -
            have f: "f \<in> F" "f \<in> set (user_pages ?x)" using that q(3) F by auto
            then have "1 < frame_refs s f" using sp that by (auto simp: space_ok_def Let_def)
            then show ?thesis using q(9) [OF f(1)] user_keptD(2) [OF k2 f(1)] by (simp add: s5_def)
          qed
          moreover have "distinct (user_pages ?x)" using sp by (simp add: space_ok_def Let_def)
          moreover have "G \<union> (set (user_pages ?x) \<union> set qs) = F \<union> set qs" using F by blast
          moreover have "set (task_regions (tasks s5 t)) = insert (base, pages) (set (task_regions ?x))"
            by (simp add: x5 task_regions_def)
          ultimately show ?thesis
            using sd(1-3,6,11) q(1-5) cap reg nds room F unfolding space_ok_def Let_def
            by (auto simp: x5) (auto simp: s5_def)
        qed
        ultimately have "space_ok s5 R G t \<and> new_allocation R F t sz base s s5" by blast
        then show ?thesis using run True by (simp add: s5_def)
      qed
    qed
  qed
qed

lemma user_alloc_outcome:
  assumes "space_ok s R G t" and "task_memory_owner task s = t"
  shows "\<exists>s' base. user_alloc task sz s = Some (s', base) \<and> space_ok s' R G t \<and>
    (if base = 0 then unchanged_for_user R (G \<union> set (user_pages (tasks s t))) t s s'
     else new_allocation R (G \<union> set (user_pages (tasks s t))) t sz base s s')"
proof -
  note sd = space_okD [OF assms(1)]
  define F where "F = G \<union> set (user_pages (tasks s t))"
  define pages where "pages = (ucast ((sz + PAGE_BYTES - 1) div PAGE_BYTES) :: u32)"
  let ?count = "user_page_count (tasks s t)"
  have stay: "user_alloc task sz s = Some (s, 0) \<Longrightarrow> ?thesis" using assms(1) unchanged_same by fastforce
  show ?thesis
  proof (cases "sz = 0 \<or> sz > USER_HEAP_END - USER_HEAP_BASE - PAGE_BYTES \<or> pages > USER_MAX_PAGES - ?count")
    case True
    then have "user_alloc task sz s = Some (s, 0)"
      using assms(2) unfolding user_alloc_def pages_def by (auto simp: Let_def)
    then show ?thesis by (rule stay)
  next
    case False
    note n = alloc_size [of sz, folded pages_def]
    have sz: "sz \<noteq> 0" "sz \<le> USER_HEAP_END - USER_HEAP_BASE - PAGE_BYTES" "pages \<le> USER_MAX_PAGES - ?count"
      using False by auto
    have np: "pages \<noteq> 0" "0 < unat pages" using n(1,2) sz(1,2) by (auto simp: unat_gt_0 [symmetric] simp del: unat_gt_0)
    have cnt: "unat ?count = length (user_pages (tasks s t))"
      using sd(7) unfolding user_page_count_def by (simp add: unat_of_nat take_bit_eq_mod)
    have "?count \<le> USER_MAX_PAGES" using cnt sd(7) by (simp add: word_le_nat_alt)
    then have "unat (USER_MAX_PAGES - ?count) = 65536 - unat ?count" by (simp add: unat_sub)
    then have room: "unat pages + length (user_pages (tasks s t)) \<le> 65536"
      using sz(3) cnt sd(7) by (simp add: word_le_nat_alt)
    have reg: "\<forall>r \<in> set (task_regions (tasks s t)). region_ok r" using sd(11) user_region_ok by blast
    obtain base where b: "user_find_free_range t USER_HEAP_BASE USER_HEAP_END pages s = Some base"
        "first_fit (tasks s t) s USER_HEAP_END pages USER_HEAP_BASE base"
      using user_find_free_range_fit [OF sd(1,12) np(1) _ _ _ reg, of USER_HEAP_BASE USER_HEAP_END] by auto
    show ?thesis
    proof (cases "base = 0")
      case True
      then have "user_alloc task sz s = Some (s, 0)"
        using assms(2) b(1) unfolding user_alloc_def Let_def pages_def by auto
      then show ?thesis by (rule stay)
    next
      case nz: False
      then have ff: "base AND 4095 = 0" "USER_HEAP_BASE \<le> base" "unat base + span_of pages \<le> unat USER_HEAP_END"
        "range_free (tasks s t) s pages base"
        using b(2) unfolding first_fit_def by blast+
      have "user_alloc task sz s = alloc_in_range t base pages sz s"
        by (rule user_alloc_in_range [OF assms(2) sd(1,12) sz(1,2) pages_def sz(3) b(1) nz])
      then show ?thesis
        using alloc_in_range_spec [OF assms(1) refl n(1) np(2) ff(1) nz ff(2,3,4) room] sz nz by fastforce
    qed
  qed
qed


lemma tiny_user_vm: "vm_ok (tiny_user x) {tiny_root} {}" and tiny_user_heap: "heap_ok (tiny_user x) {tiny_root}"
proof -
  have e: "vm_ok (tiny_user x) {tiny_root} {} = vm_ok tiny_machine {tiny_root} {}"
    unfolding vm_ok_def pt_inv_def data_frames_def pmm_inv_def frame_busy_def get64_def table_at_def
    by (simp add: tiny_user_def tiny_heap_def)
  then show v: "vm_ok (tiny_user x) {tiny_root} {}" using tiny_vm_ok by simp
  then show "heap_ok (tiny_user x) {tiny_root}"
    using tiny_heap_ok by (auto simp: heap_ok_def tiny_user_def tiny_heap_def)
qed

lemma tiny_space: "space_ok (tiny_user tiny_process) {tiny_root} {} 0x1000"
proof -
  have "tasks (tiny_user tiny_process) 0x1000 = tiny_process" by (simp add: tiny_user_def)
  then show ?thesis
    using tiny_user_vm [of tiny_process] tiny_user_heap [of tiny_process]
    by (auto simp: space_ok_def Let_def owned_nodes_def task_regions_def no_attachment_def)
qed

lemma tiny_owner: "task_memory_owner 0x1000 (tiny_user tiny_process) = 0x1000"
  by (simp add: task_memory_owner_def tiny_user_def)


end
