(* ===== verification/UserFree.thy ===== *)
theory UserFree
  imports UserAlloc
begin

text \<open>
  Release of user memory, \<^verbatim>\<open>user_free\<close> of \<^verbatim>\<open>mm/user_memory.c\<close>, and of the memory that a fresh
  allocation got.
\<close>

section \<open>The sweep over the records\<close>

text \<open>Removal by moving the last element into the gap.\<close>

lemma swap_remove:
  assumes "i < length xs" and "distinct xs"
  defines "ys \<equiv> take (length xs - 1) (xs[i := xs ! (length xs - 1)])"
  shows "distinct ys" and "set ys = set xs - {xs ! i}" and "take i ys = take i xs"
    and "length ys = length xs - 1"
proof -
  obtain zs z where xs: "xs = zs @ [z]" using assms(1) by (cases xs rule: rev_cases) auto
  have d: "distinct zs" "z \<notin> set zs" using assms(2) xs by auto
  have "distinct ys \<and> set ys = set xs - {xs ! i} \<and> take i ys = take i xs"
  proof (cases "i = length zs")
    case True
    then have "ys = zs" by (simp add: ys_def xs)
    then show ?thesis using d True by (auto simp: xs)
  next
    case False
    then have i: "i < length zs" using assms(1) xs by simp
    then have "ys = zs[i := z]" by (simp add: ys_def xs list_update_append)
    then show ?thesis
      using d i set_update_distinct [OF d(1) i] distinct_list_update [OF d(1), of z i]
      by (auto simp: xs nth_append)
  qed
  then show "distinct ys" and "set ys = set xs - {xs ! i}" and "take i ys = take i xs" by blast+
  show "length ys = length xs - 1" by (simp add: ys_def)
qed

definition outside :: "u64 \<Rightarrow> u64 \<Rightarrow> u64 \<Rightarrow> bool" where
  "outside base stop v \<longleftrightarrow> v < base \<or> stop \<le> v"

lemma sweep_range_spec:
  assumes "length vs = length ps" and "distinct ps" and "i \<le> length ps"
    and "\<forall>j < i. outside base stop (vs ! j)" and "sweep_range base stop i ps vs s = (ps', vs', s')"
  shows "length vs' = length ps' \<and> length ps' \<le> length ps \<and> distinct ps' \<and>
    set (zip ps' vs') = {(p, v) \<in> set (zip ps vs). outside base stop v} \<and>
    (\<exists>fs. s' = foldl pmm_free_page s fs \<and> distinct fs \<and>
      set fs = {p. \<exists>v. (p, v) \<in> set (zip ps vs) \<and> \<not> outside base stop v})"
  using assms
proof (induction base stop i ps vs s rule: sweep_range.induct)
  case (1 base stop i ps vs s)
  note hyp = 1(1,2) and p = 1(3-)
  show ?case
  proof (cases "i < length ps")
    case False
    then have e: "ps' = ps" "vs' = vs" "s' = s" using p(5) by (simp_all add: sweep_range.simps [of base stop i])
    have "outside base stop v" if "(q, v) \<in> set (zip ps vs)" for q v
      using that p(1,3,4) False by (auto simp: in_set_zip)
    then show ?thesis using e p(1,2) by (auto intro!: exI [of _ "[]"])
  next
    case i: True
    show ?thesis
    proof (cases "outside base stop (vs ! i)")
      case True
      then have c: "vs ! i < base \<or> vs ! i \<ge> stop" by (simp add: outside_def)
      have "sweep_range base stop (Suc i) ps vs s = (ps', vs', s')"
        using p(5) i c by (simp add: sweep_range.simps [of base stop i])
      moreover have "\<forall>j < Suc i. outside base stop (vs ! j)" using p(4) True by (simp add: less_Suc_eq)
      ultimately show ?thesis using hyp(1) [OF i c p(1,2)] i by simp
    next
      case False
      then have c: "\<not> (vs ! i < base \<or> vs ! i \<ge> stop)" by (simp add: outside_def)
      let ?n = "length ps - 1"
      define ps1 where "ps1 = take ?n (ps[i := ps ! ?n])"
      define vs1 where "vs1 = take ?n (vs[i := vs ! ?n])"
      let ?z = "zip ps vs" and ?z1 = "zip ps1 vs1"
      have dz: "distinct ?z" using p(2) by (rule distinct_zipI1)
      have lz: "length ?z = length ps" using p(1) by simp
      have "?z1 = take ?n (?z[i := ?z ! ?n])"
        using p(1) i by (simp add: ps1_def vs1_def take_zip [symmetric] zip_update [symmetric])
      note sz = swap_remove [of i ?z, unfolded lz, OF i dz, folded this]
      note sp = swap_remove [OF i p(2), folded ps1_def]
      have sv: "length vs1 = ?n" "take i vs1 = take i vs"
        using p(1) i by (auto simp: vs1_def take_map [symmetric] min_def intro!: nth_equalityI)
      have zi: "?z ! i = (ps ! i, vs ! i)" using p(1) i by simp
      have run: "sweep_range base stop i ps1 vs1 (pmm_free_page s (ps ! i)) = (ps', vs', s')"
        using p(5) i c by (simp add: sweep_range.simps [of base stop i] Let_def ps1_def vs1_def)
      have "\<forall>j < i. outside base stop (vs1 ! j)" using p(4) sv(2) by (metis nth_take)
      then have ih: "length vs' = length ps' \<and> length ps' \<le> length ps1 \<and> distinct ps' \<and>
        set (zip ps' vs') = {(p, v) \<in> set ?z1. outside base stop v} \<and>
        (\<exists>fs. s' = foldl pmm_free_page (pmm_free_page s (ps ! i)) fs \<and> distinct fs \<and>
          set fs = {p. \<exists>v. (p, v) \<in> set ?z1 \<and> \<not> outside base stop v})"
        using hyp(2) [OF i c refl refl, folded ps1_def vs1_def] sp(1,4) sv(1) run i by simp
      then obtain fs where fs: "s' = foldl pmm_free_page (pmm_free_page s (ps ! i)) fs" "distinct fs"
          "set fs = {p. \<exists>v. (p, v) \<in> set ?z1 \<and> \<not> outside base stop v}"
        by blast
      have new: "ps ! i \<notin> set fs" using fs(3) sp(2) by (auto dest: set_zip_leftD)
      have "(ps ! i, vs ! i) \<in> set ?z" using p(1) i zi nth_mem [of i ?z] by simp
      then have "set (ps ! i # fs) = {p. \<exists>v. (p, v) \<in> set ?z \<and> \<not> outside base stop v}"
        using fs(3) sz(2) zi False by auto
      moreover have "{(p, v) \<in> set ?z1. outside base stop v} = {(p, v) \<in> set ?z. outside base stop v}"
        using sz(2) zi False by auto
      ultimately show ?thesis
        using ih fs(1,2) new sp(4) by (intro conjI exI [of _ "ps ! i # fs"]) auto
    qed
  qed
qed

section \<open>Release\<close>

lemma kfree_same: "kfree p s = Some s' \<Longrightarrow> same_machine s s'"
  by (auto simp: kfree_def same_machine_def split: if_splits option.splits)

lemma nth_split: "k < length xs \<Longrightarrow> xs = take k xs @ xs ! k # drop (Suc k) xs"
  by (simp add: id_take_nth_drop)

text \<open>The effect of releasing an allocation: its frames lose one reference, its pages are unmapped.\<close>

definition released ::
    "u64 set \<Rightarrow> u64 set \<Rightarrow> u64 \<Rightarrow> nat \<Rightarrow> 'a sched_state_scheme \<Rightarrow> 'a sched_state_scheme \<Rightarrow> bool" where
  "released R F t k s s' \<longleftrightarrow>
     (let x = tasks s t; a = snd (allocations x ! k); base = a_base a; n = unat (a_pages a);
          stop = base + ucast (a_pages a) * PAGE_BYTES;
          records = set (zip (user_pages x) (user_vaddrs x));
          freed = {p. \<exists>v. (p, v) \<in> records \<and> \<not> outside base stop v}
      in (\<exists>ps vs. set (zip ps vs) = {(p, v) \<in> records. outside base stop v} \<and>
            tasks s' = (tasks s)(t := x\<lparr>user_pages := ps, user_vaddrs := vs,
              allocations := take k (allocations x) @ drop (Suc k) (allocations x)\<rparr>)) \<and>
         (\<forall>f \<in> F. frame_refs s' f = frame_refs s f - (if f \<in> freed then 1 else 0)) \<and>
         mem_frame F s s' \<and> (\<forall>i < n. pt_lookup s' (t_pml4 x) (page_at base i) = None) \<and>
         only_pages (range_pages base n) (t_pml4 x) R s s')"

lemma user_free_run:
  fixes s :: "'a sched_state_scheme"
  assumes sp: "space_ok s R G t" and own: "task_memory_owner task s = t" and base: "base \<noteq> 0"
    and fa: "find_allocation base (tasks s t) = Some k" and pa: "allocations (tasks s t) ! k = (p, a)"
  shows "\<exists>s'. user_free task base s = Some (s', 0) \<and> space_ok s' R G t \<and>
    released R (G \<union> set (user_pages (tasks s t))) t k s s'"
proof -
  let ?x = "tasks s t" and ?pml4 = "t_pml4 (tasks s t)"
  define F where "F = G \<union> set (user_pages ?x)"
  note sd = space_okD [OF sp, folded F_def]
  have k: "k < length (allocations ?x)" and ab: "a_base a = base"
    using find_idx_SomeD(1,2) [OF fa [unfolded find_allocation_def]] pa by auto
  have mem: "(p, a) \<in> set (allocations ?x)" using pa k nth_mem by metis
  have reg: "user_region (base, a_pages a)"
    using sd(11) mem ab by (force simp: task_regions_def)
  note val = user_region_valid [OF reg]
  let ?n = "unat (a_pages a)" and ?stop = "base + ucast (a_pages a) * PAGE_BYTES"
  obtain s1 r where um: "vmm_unmap_pages_in ?pml4 base (a_pages a) s = (s1, r)" by fastforce
  note us = unmap_pages_spec(1-3) [OF sd(5,3) val um]
  have "machine.more s1 = machine.more s" using more_unmap_pages um by (metis fst_conv)
  note mf1 = more_fields [OF this]
  obtain ps vs s2 where sw: "sweep_range base ?stop 0 (user_pages ?x) (user_vaddrs ?x) s1 = (ps, vs, s2)"
    by (metis prod_cases3)
  have dp: "distinct (user_pages ?x)" using sp by (simp add: space_ok_def Let_def)
  have ss: "length vs = length ps" "length ps \<le> length (user_pages ?x)" "distinct ps"
      "set (zip ps vs) = {(p, v) \<in> set (zip (user_pages ?x) (user_vaddrs ?x)). outside base ?stop v}"
      "\<exists>fs. s2 = foldl pmm_free_page s1 fs \<and> distinct fs \<and>
        set fs = {p. \<exists>v. (p, v) \<in> set (zip (user_pages ?x) (user_vaddrs ?x)) \<and> \<not> outside base ?stop v}"
    using sweep_range_spec [OF sd(6) dp _ _ sw] by simp_all
  obtain fs where fs: "s2 = foldl pmm_free_page s1 fs" "distinct fs"
      "set fs = {p. \<exists>v. (p, v) \<in> set (zip (user_pages ?x) (user_vaddrs ?x)) \<and> \<not> outside base ?stop v}"
    using ss(5) by blast
  have pst: "set ps = fst ` set (zip ps vs)" using ss(1) by (metis list.set_map map_fst_zip)
  have part: "set ps \<inter> set fs = {}" "set ps \<union> set fs = set (user_pages ?x)"
  proof -
    have "set (user_pages ?x) = fst ` set (zip (user_pages ?x) (user_vaddrs ?x))"
      using sd(6) by (metis list.set_map map_fst_zip)
    then show "set ps \<union> set fs = set (user_pages ?x)" unfolding pst ss(4) fs(3) by force
    have uniq: "v = w" if "(q, v) \<in> set (zip (user_pages ?x) (user_vaddrs ?x))"
        "(q, w) \<in> set (zip (user_pages ?x) (user_vaddrs ?x))" for q v w
      using that dp by (metis eq_key_imp_eq_value map_fst_zip sd(6))
    then show "set ps \<inter> set fs = {}" unfolding pst ss(4) fs(3) by (auto dest: uniq)
  qed
  let ?F' = "G \<union> set ps"
  have FF: "F = ?F' \<union> set fs" using part(2) by (auto simp: F_def)
  have refs1: "frame_refs s1 f = frame_refs s f" if "f \<in> F" for f using us(2) that by (simp add: step_kept_def)
  have shared: "1 < frame_refs s f" if "f \<in> G" "f \<in> set (user_pages ?x)" for f
    using sp that by (auto simp: space_ok_def Let_def)
  have ok2: "vm_ok s2 R ?F'"
    unfolding fs(1)
  proof (rule free_shared [OF us(1) [unfolded FF] fs(2)], intro ballI)
    fix f assume f: "f \<in> set fs \<inter> ?F'"
    then have "f \<in> G" "f \<in> set (user_pages ?x)" using part by auto
    then show "1 < frame_refs s1 f" using shared refs1 by (simp add: F_def)
  qed
  have refs2: "frame_refs s2 f = frame_refs s f - (if f \<in> set fs then 1 else 0)" if "f \<in> F" for f
  proof -
    have "count_list fs f = (if f \<in> set fs then 1 else 0)"
      using fs(2) by (induction fs) (auto simp: count_list_0_iff)
    then show ?thesis using pmm.free_list_refs [OF vm_ok_pmm [OF us(1)], of fs f] refs1 [OF that] by (simp add: fs(1))
  qed
  have mf2: "machine.more s2 = machine.more s1" by (simp add: fs(1) frame_simps)
  note mf2 = more_fields [OF mf2]
  define s3 where "s3 = upd_task t (\<lambda>x. x\<lparr>user_pages := ps, user_vaddrs := vs,
    allocations := take k (allocations x) @ drop (Suc k) (allocations x)\<rparr>) s2"
  have kp: "kernel_pml4 s2 = kernel_pml4 s" using us(2) by (simp add: fs(1) frees_facts step_kept_def)
  have hp3: "heap_ok s3 R" and lv3: "live s3 = live s"
    using sd(4) ok2 kp mf1 mf2 by (auto simp: heap_ok_def s3_def)
  have pn: "p \<in> set (owned_nodes ?x)" using mem by (force simp: owned_nodes_def)
  then have "p \<in> dom (live s3)" using sd(10) lv3 by auto
  moreover have "vm_ok s3 R ?F'" using ok2 by (simp add: s3_def)
  ultimately obtain s4 where s4: "kfree p s3 = Some s4" "heap_ok s4 R" "vm_ok s4 R ?F'" "user_kept R ?F' s3 s4"
      "tasks s4 = tasks s3" "live s4 = (live s3)(p := None)"
    using undo_node [OF hp3, of ?F' p] by blast
  note sm = same_machine_facts [OF kfree_same [OF s4(1)]]
  have ts4: "tasks s4 = (tasks s)(t := ?x\<lparr>user_pages := ps, user_vaddrs := vs,
      allocations := take k (allocations ?x) @ drop (Suc k) (allocations ?x)\<rparr>)"
    using s4(5) mf1 mf2 by (simp add: s3_def)
  then have x4: "tasks s4 t = ?x\<lparr>user_pages := ps, user_vaddrs := vs,
      allocations := take k (allocations ?x) @ drop (Suc k) (allocations ?x)\<rparr>"
    by simp
  have run: "user_free task base s = Some (s4, 0)"
    using own base sd(1,12) fa pa um sw s4(1) mf1(1) by (simp add: user_free_def Let_def s3_def)
  have rel: "released R F t k s s4"
  proof -
    have m4: "mem s4 = mem s1" "hhdm_offset s4 = hhdm_offset s1" "total_pages s4 = total_pages s1"
      using sm by (simp_all add: s3_def fs(1) frees_facts)
    have look: "pt_lookup s4 r v = pt_lookup s1 r v" for r v
      using sm(4) by (simp add: s3_def fs(1) frees_facts)
    have "frame_refs s4 = frame_refs s2" using sm(2) by (simp add: s3_def)
    moreover have "mem_frame F s s4" using us(2) m4 by (simp add: step_kept_def mem_frame_def)
    moreover have "only_pages (range_pages base ?n) ?pml4 R s s4"
      using us(2) look by (simp add: step_kept_def only_pages_def)
    ultimately show ?thesis
      unfolding released_def Let_def pa snd_conv ab fs(3) [symmetric] using refs2 us(3) look ts4 ss(4) by auto
  qed
  have "space_ok s4 R G t"
  proof -
    have nd: "distinct (owned_nodes (tasks s4 t)) \<and> set (owned_nodes (tasks s4 t)) \<subseteq> set (owned_nodes ?x) - {p}"
    proof -
      define A where "A = take k (allocations ?x)"
      define B where "B = drop (Suc k) (allocations ?x)"
      define pre where "pre = (if page_array ?x \<noteq> 0 then [page_array ?x] else [])"
      have "allocations ?x = A @ (p, a) # B" using nth_split [OF k] pa by (simp add: A_def B_def)
      then have "owned_nodes ?x = pre @ map fst A @ p # map fst B" by (simp add: owned_nodes_def pre_def)
      moreover have "owned_nodes (tasks s4 t) = pre @ map fst A @ map fst B"
        by (simp add: x4 owned_nodes_def pre_def A_def B_def)
      ultimately show ?thesis using sd(9) by auto
    qed
    moreover have "1 < frame_refs s4 f" if f: "f \<in> G \<inter> set ps" for f
    proof -
      have "f \<in> F" "f \<in> set (user_pages ?x)" "f \<notin> set fs" using f part by (auto simp: F_def)
      then show ?thesis using shared [of f] refs2 [of f] sm(2) f by (simp add: s3_def)
    qed
    moreover have "set (task_regions (tasks s4 t)) \<subseteq> set (task_regions ?x)"
      by (auto simp: x4 task_regions_def dest: in_set_takeD in_set_dropD)
    moreover have "length (user_pages ?x) \<le> unat (user_page_capacity ?x)" using sp by (simp add: space_ok_def Let_def)
    ultimately show ?thesis
      using sd ss(1-3) s4(2,3,6) lv3 unfolding space_ok_def Let_def by (auto simp: x4)
  qed
  then show ?thesis using run rel by (simp add: F_def)
qed

text \<open>
  C21: a program can give back exactly what it allocated. Releasing an allocation of the process
  succeeds, takes its pages out of the address space and out of the records, drops one reference of
  each of its frames and touches nothing else; any other address is refused without effect.
\<close>

theorem user_free_correct:
  assumes "space_ok s R G t" and "task_memory_owner task s = t" and "base \<noteq> 0"
  shows "case find_allocation base (tasks s t) of
      None \<Rightarrow> user_free task base s = Some (s, -1)
    | Some k \<Rightarrow> \<exists>s'. user_free task base s = Some (s', 0) \<and> space_ok s' R G t \<and>
        released R (G \<union> set (user_pages (tasks s t))) t k s s'"
proof (cases "find_allocation base (tasks s t)")
  case None
  then show ?thesis using assms space_okD(1,12) [OF assms(1)] by (simp add: user_free_def Let_def)
next
  case (Some k)
  obtain p a where "allocations (tasks s t) ! k = (p, a)" by fastforce
  from user_free_run [OF assms Some this] this Some show ?thesis by simp
qed

section \<open>Allocating and releasing\<close>

text \<open>Every record names a page that is mapped to the recorded frame.\<close>

definition records_ok :: "'a sched_state_scheme \<Rightarrow> u64 \<Rightarrow> bool" where
  "records_ok s t \<longleftrightarrow> (\<forall>(p, v) \<in> set (zip (user_pages (tasks s t)) (user_vaddrs (tasks s t))).
     v AND 4095 = 0 \<and> v < USER_TOP \<and>
     (\<exists>e. pt_lookup s (t_pml4 (tasks s t)) v = Some e \<and> vmm_pte_address e = p))"

lemma page_of_range:
  assumes "valid_range base n" and "v AND 4095 = 0" and "\<not> outside base (base + ucast n * PAGE_BYTES) v"
    and "unat base + unat n * 4096 \<le> 2 ^ 47" and "base AND 4095 = 0"
  shows "v \<in> range_pages base (unat n)"
proof -
  have b: "unat (base + ucast n * PAGE_BYTES) = unat base + unat n * 4096"
    using assms(4) unat32_less [of n] by (simp add: unat_add_lem [THEN iffD1] unat_word_ariths)
  have v: "unat base \<le> unat v" "unat v < unat base + unat n * 4096"
    using assms(3) b by (auto simp: outside_def word_less_nat_alt word_le_nat_alt)
  obtain q r where "unat v = 4096 * q" "unat base = 4096 * r"
    using page_aligned [OF assms(2)] page_aligned [OF assms(5)] by metis
  then have i: "q - r < unat n" "unat v = unat base + (q - r) * 4096" using v by auto
  then have "v = page_at base (q - r)"
    using valid_range_page(1) [OF assms(1) i(1)] by (simp add: word_unat_eq_iff)
  then show ?thesis using i(1) by (auto simp: range_pages_def)
qed

lemma range_page_inside:
  assumes "valid_range base n" and "v \<in> range_pages base (unat n)" and "unat base + unat n * 4096 \<le> 2 ^ 47"
  shows "\<not> outside base (base + ucast n * PAGE_BYTES) v"
proof -
  obtain i where i: "i < unat n" "v = page_at base i" using assms(2) by (auto simp: range_pages_def)
  have b: "unat (base + ucast n * PAGE_BYTES) = unat base + unat n * 4096"
    using assms(3) unat32_less [of n] by (simp add: unat_add_lem [THEN iffD1] unat_word_ariths)
  show ?thesis
    using valid_range_page(1) [OF assms(1) i(1)] i b by (simp add: outside_def word_less_nat_alt word_le_nat_alt)
qed

lemma live_frame_word:
  assumes "pmm_inv s" and "0 < frame_refs s f"
  shows "f AND NOT PTE_ADDR_MASK = 0"
proof (rule frame_word)
  have al: "allocated_frame s f" using frame_refs_pos [OF assms(1)] assms(2) by blast
  then show "f AND 4095 = 0" by (rule allocated_frameD(2))
  have "unat f div 4096 < 2 ^ 40"
    using allocated_frameD(3) [OF al] assms(1) by (simp add: addr_page_def pmm_inv_def)
  then show "unat f < 2 ^ 52" by (simp add: div_less_iff_less_mult)
qed

lemma new_allocation_facts:
  fixes s s1 :: "'a sched_state_scheme"
  assumes na: "new_allocation R F t sz base s s1" and sp1: "space_ok s1 R G t"
    and len: "length (user_vaddrs (tasks s t)) = length (user_pages (tasks s t))"
  shows "\<exists>ps a pages. unat pages = length ps \<and> t_pml4 (tasks s1 t) = t_pml4 (tasks s t) \<and>
    user_pages (tasks s1 t) = user_pages (tasks s t) @ ps \<and>
    user_vaddrs (tasks s1 t) = user_vaddrs (tasks s t) @ map (page_at base) [0 ..< unat pages] \<and>
    allocations (tasks s1 t) = (a, \<lparr>a_base = base, a_size = sz, a_pages = pages\<rparr>) # allocations (tasks s t) \<and>
    valid_range base pages \<and> unat base + unat pages * 4096 \<le> 2 ^ 47 \<and> base AND 4095 = 0 \<and>
    set ps \<inter> F = {} \<and> (\<forall>p \<in> set ps. frame_refs s1 p = 1) \<and>
    (\<forall>i < unat pages. pt_lookup s (t_pml4 (tasks s t)) (page_at base i) = None \<and>
       pt_lookup s1 (t_pml4 (tasks s t)) (page_at base i) = Some (ps ! i OR VMM_FLAGS_USER_DATA)) \<and>
    (\<forall>r \<in> R. \<forall>va < USER_TOP. r \<noteq> t_pml4 (tasks s t) \<or> va AND NOT 4095 \<notin> range_pages base (unat pages) \<longrightarrow>
       pt_lookup s1 r va = pt_lookup s r va)"
proof -
  define n where "n = (unat sz + 4095) div 4096"
  define pages where "pages = (of_nat n :: u32)"
  note d = na [unfolded new_allocation_def Let_def, folded n_def]
  have ex: "\<exists>ps a b c. length ps = n \<and> distinct ps \<and> set ps \<inter> F = {} \<and>
      (\<forall>p \<in> set ps. p \<noteq> 0 \<and> frame_refs s1 p = 1 \<and> clear_page s1 p) \<and>
      (\<forall>i < n. pt_lookup s1 (t_pml4 (tasks s t)) (page_at base i) = Some (ps ! i OR VMM_FLAGS_USER_DATA)) \<and>
      tasks s1 = (tasks s)(t := (tasks s t)\<lparr>page_array := b, user_page_capacity := c,
        user_pages := user_pages (tasks s t) @ ps,
        user_vaddrs := user_vaddrs (tasks s t) @ map (page_at base) [0 ..< n],
        allocations := (a, \<lparr>a_base = base, a_size = sz, a_pages = of_nat n\<rparr>) # allocations (tasks s t)\<rparr>)"
    using d by (elim conjE) assumption
  obtain ps a b c where H: "length ps = n \<and> distinct ps \<and> set ps \<inter> F = {} \<and>
      (\<forall>p \<in> set ps. p \<noteq> 0 \<and> frame_refs s1 p = 1 \<and> clear_page s1 p) \<and>
      (\<forall>i < n. pt_lookup s1 (t_pml4 (tasks s t)) (page_at base i) = Some (ps ! i OR VMM_FLAGS_USER_DATA)) \<and>
      tasks s1 = (tasks s)(t := (tasks s t)\<lparr>page_array := b, user_page_capacity := c,
        user_pages := user_pages (tasks s t) @ ps,
        user_vaddrs := user_vaddrs (tasks s t) @ map (page_at base) [0 ..< n],
        allocations := (a, \<lparr>a_base = base, a_size = sz, a_pages = of_nat n\<rparr>) # allocations (tasks s t)\<rparr>)"
    using ex by (elim exE) (rule that)
  have psa: "length ps = n" "set ps \<inter> F = {}" "\<And>p. p \<in> set ps \<Longrightarrow> frame_refs s1 p = 1"
      "\<And>i. i < n \<Longrightarrow> pt_lookup s1 (t_pml4 (tasks s t)) (page_at base i) = Some (ps ! i OR VMM_FLAGS_USER_DATA)"
      "tasks s1 = (tasks s)(t := (tasks s t)\<lparr>page_array := b, user_page_capacity := c,
        user_pages := user_pages (tasks s t) @ ps,
        user_vaddrs := user_vaddrs (tasks s t) @ map (page_at base) [0 ..< n],
        allocations := (a, \<lparr>a_base = base, a_size = sz, a_pages = pages\<rparr>) # allocations (tasks s t)\<rparr>)"
    using H by (simp_all add: pages_def)
  have b: "base AND 4095 = 0" "unat base + (n + 1) * 4096 \<le> unat USER_HEAP_END"
    "range_free (tasks s t) s pages base"
    using d by (simp_all add: pages_def)
  have n: "unat pages = n" using b(2) by (simp add: pages_def unat_of_nat take_bit_eq_mod)
  have top: "unat base + unat pages * 4096 \<le> 2 ^ 47" using b(2) n by simp
  have reg: "user_region (base, pages)"
    using space_okD(11) [OF sp1] psa(5) by (simp add: task_regions_def)
  have free: "pt_lookup s (t_pml4 (tasks s t)) (page_at base i) = None" if "i < unat pages" for i
    using b(3) that by (simp add: range_free_def pt_lookup_pte)
  moreover have "\<forall>r \<in> R. \<forall>va < USER_TOP. r \<noteq> t_pml4 (tasks s t) \<or> va AND NOT 4095 \<notin> range_pages base (unat pages) \<longrightarrow>
      pt_lookup s1 r va = pt_lookup s r va"
    using d unfolding n by blast
  ultimately show ?thesis
    using psa b(1) n top user_region_valid [OF reg]
    by (intro exI [of _ ps] exI [of _ a] exI [of _ pages]) simp
qed

lemma new_records_ok:
  fixes s s1 :: "'a sched_state_scheme"
  assumes na: "new_allocation R F t sz base s s1" and sp1: "space_ok s1 R G t" and sp: "space_ok s R G t"
    and r: "records_ok s t"
  shows "records_ok s1 t"
proof -
  let ?pml4 = "t_pml4 (tasks s t)"
  obtain ps a pages where same: "t_pml4 (tasks s1 t) = t_pml4 (tasks s t)" and f: "unat pages = length ps"
      "user_pages (tasks s1 t) = user_pages (tasks s t) @ ps"
      "user_vaddrs (tasks s1 t) = user_vaddrs (tasks s t) @ map (page_at base) [0 ..< unat pages]"
      "valid_range base pages" "unat base + unat pages * 4096 \<le> 2 ^ 47"
      "\<forall>p \<in> set ps. frame_refs s1 p = 1"
      "\<forall>i < unat pages. pt_lookup s ?pml4 (page_at base i) = None \<and>
         pt_lookup s1 ?pml4 (page_at base i) = Some (ps ! i OR VMM_FLAGS_USER_DATA)"
      "\<forall>r \<in> R. \<forall>va < USER_TOP. r \<noteq> ?pml4 \<or> va AND NOT 4095 \<notin> range_pages base (unat pages) \<longrightarrow>
        pt_lookup s1 r va = pt_lookup s r va"
    using new_allocation_facts [OF na sp1 space_okD(6) [OF sp]] by blast
  have old: "v AND 4095 = 0 \<and> v < USER_TOP \<and> (\<exists>e. pt_lookup s1 ?pml4 v = Some e \<and> vmm_pte_address e = p)"
    if pv: "(p, v) \<in> set (zip (user_pages (tasks s t)) (user_vaddrs (tasks s t)))" for p v
  proof -
    obtain e where v: "v AND 4095 = 0" "v < USER_TOP" "pt_lookup s ?pml4 v = Some e" "vmm_pte_address e = p"
      using r pv by (auto simp: records_ok_def)
    then have "v \<notin> range_pages base (unat pages)" using f(7) by (auto simp: range_pages_def)
    moreover have "v AND NOT 4095 = v" using word_and_not_eq_diff [of v 4095] v(1) by simp
    ultimately show ?thesis using f(8) space_okD(3) [OF sp] v by simp
  qed
  have new: "v AND 4095 = 0 \<and> v < USER_TOP \<and> (\<exists>e. pt_lookup s1 ?pml4 v = Some e \<and> vmm_pte_address e = p)"
    if pv: "(p, v) \<in> set (zip ps (map (page_at base) [0 ..< unat pages]))" for p v
  proof -
    obtain i where i: "i < unat pages" "p = ps ! i" "v = page_at base i"
      using pv f(1) by (auto simp: in_set_zip)
    have "0 < frame_refs s1 p" using f(1,6) i by simp
    then have "p AND NOT PTE_ADDR_MASK = 0"
      using live_frame_word [OF vm_ok_pmm [OF space_okD(5) [OF sp1]]] by blast
    then have "vmm_pte_address (p OR VMM_FLAGS_USER_DATA) = p" by (intro entry_parts(1)) simp_all
    then show ?thesis
      using f(7) i valid_range_page(2) [OF f(4) i(1)] user_range_page [OF f(4,5) i(1)] by auto
  qed
  have "zip (user_pages (tasks s1 t)) (user_vaddrs (tasks s1 t)) =
      zip (user_pages (tasks s t)) (user_vaddrs (tasks s t)) @ zip ps (map (page_at base) [0 ..< unat pages])"
    using space_okD(6) [OF sp] by (simp add: f(2,3))
  then show ?thesis using old new by (auto simp: records_ok_def same)
qed

text \<open>
  C30: what was allocated can be released again, and then the process and everybody else see what they
  saw before: the release succeeds, the records and allocations are those of before, every user
  translation and every frame in use is as it was, and the frames taken are free.
\<close>

theorem user_alloc_free:
  assumes "space_ok s R G t" and "records_ok s t" and "user_alloc t sz s = Some (s1, base)" and "base \<noteq> 0"
  shows "records_ok s1 t \<and> (\<exists>s2. user_free t base s1 = Some (s2, 0) \<and> space_ok s2 R G t \<and>
    set (zip (user_pages (tasks s2 t)) (user_vaddrs (tasks s2 t))) =
      set (zip (user_pages (tasks s t)) (user_vaddrs (tasks s t))) \<and>
    allocations (tasks s2 t) = allocations (tasks s t) \<and>
    (\<forall>r \<in> R. \<forall>va < USER_TOP. pt_lookup s2 r va = pt_lookup s r va) \<and>
    (\<forall>f \<in> G \<union> set (user_pages (tasks s t)). frame_refs s2 f = frame_refs s f) \<and>
    mem_frame (G \<union> set (user_pages (tasks s t))) s s2 \<and>
    (\<forall>p \<in> set (user_pages (tasks s1 t)) - set (user_pages (tasks s t)). frame_refs s2 p = 0))"
proof -
  let ?x = "tasks s t" and ?x1 = "tasks s1 t"
  define F where "F = G \<union> set (user_pages ?x)"
  have own: "task_memory_owner t u = t" if "space_ok u R G t" for u :: "'a sched_state_scheme"
    using space_okD(1,2) [OF that] by (simp add: task_memory_owner_def)
  have sp1: "space_ok s1 R G t" and na: "new_allocation R F t sz base s s1"
    using user_alloc_outcome [OF assms(1) own [OF assms(1)], of sz] assms(3,4) by (simp_all add: F_def)
  have r1: "records_ok s1 t" by (rule new_records_ok [OF na sp1 assms(1,2)])
  obtain ps a pages where n: "unat pages = length ps" "t_pml4 ?x1 = t_pml4 ?x"
      "user_pages ?x1 = user_pages ?x @ ps" "user_vaddrs ?x1 = user_vaddrs ?x @ map (page_at base) [0 ..< unat pages]"
      "allocations ?x1 = (a, \<lparr>a_base = base, a_size = sz, a_pages = pages\<rparr>) # allocations ?x"
      "valid_range base pages" "unat base + unat pages * 4096 \<le> 2 ^ 47" "base AND 4095 = 0" "set ps \<inter> F = {}"
      "\<forall>p \<in> set ps. frame_refs s1 p = 1"
      "\<forall>i < unat pages. pt_lookup s (t_pml4 ?x) (page_at base i) = None \<and>
         pt_lookup s1 (t_pml4 ?x) (page_at base i) = Some (ps ! i OR VMM_FLAGS_USER_DATA)"
      "\<forall>r \<in> R. \<forall>va < USER_TOP. r \<noteq> t_pml4 ?x \<or> va AND NOT 4095 \<notin> range_pages base (unat pages) \<longrightarrow>
         pt_lookup s1 r va = pt_lookup s r va"
    using new_allocation_facts [OF na sp1 space_okD(6) [OF assms(1)]] by blast
  have "find_allocation base ?x1 = Some 0" by (simp add: n(5) find_allocation_def)
  from user_free_run [OF sp1 own [OF sp1] assms(4) this, of a "\<lparr>a_base = base, a_size = sz, a_pages = pages\<rparr>"] n(5)
  obtain s2 where run: "user_free t base s1 = Some (s2, 0)" "space_ok s2 R G t"
      and rel: "released R (G \<union> set (user_pages ?x1)) t 0 s1 s2"
    by auto
  let ?stop = "base + ucast pages * PAGE_BYTES" and ?new = "zip ps (map (page_at base) [0 ..< unat pages])"
  have old_out: "outside base ?stop v" if pv: "(p, v) \<in> set (zip (user_pages ?x) (user_vaddrs ?x))" for p v
  proof (rule ccontr)
    assume "\<not> outside base ?stop v"
    moreover obtain e where "v AND 4095 = 0" "pt_lookup s (t_pml4 ?x) v = Some e"
      using assms(2) pv by (auto simp: records_ok_def)
    ultimately show False using page_of_range [OF n(6) _ _ n(7,8), of v] n(11) by (auto simp: range_pages_def)
  qed
  have new_in: "\<not> outside base ?stop v" if "(p, v) \<in> set ?new" for p v
    using range_page_inside [OF n(6) _ n(7), of v] that by (auto simp: range_pages_def dest!: set_zip_rightD)
  have rec: "set (zip (user_pages ?x1) (user_vaddrs ?x1)) = set (zip (user_pages ?x) (user_vaddrs ?x)) \<union> set ?new"
    using space_okD(6) [OF assms(1)] by (simp add: n(3,4))
  have freed: "{p. \<exists>v. (p, v) \<in> set (zip (user_pages ?x1) (user_vaddrs ?x1)) \<and> \<not> outside base ?stop v} = set ps"
  proof -
    have "p \<in> set ps \<longleftrightarrow> (\<exists>v. (p, v) \<in> set ?new)" for p
      using n(1) by (auto simp: in_set_conv_nth set_zip)
    then show ?thesis unfolding rec using old_out new_in by blast
  qed
  have kept: "{(p, v) \<in> set (zip (user_pages ?x1) (user_vaddrs ?x1)). outside base ?stop v} =
      set (zip (user_pages ?x) (user_vaddrs ?x))"
    using rec old_out new_in by auto
  note d = rel [unfolded released_def Let_def n(5) nth_Cons_0 snd_conv user_allocation.simps freed kept]
  obtain qs vs where q: "set (zip qs vs) = set (zip (user_pages ?x) (user_vaddrs ?x))"
      "tasks s2 = (tasks s1)(t := ?x1\<lparr>user_pages := qs, user_vaddrs := vs, allocations := allocations ?x\<rparr>)"
    using d by auto
  have refs: "frame_refs s2 f = frame_refs s1 f - (if f \<in> set ps then 1 else 0)" if "f \<in> F \<union> set ps" for f
    using d that by (auto simp: F_def n(3))
  have none: "pt_lookup s2 (t_pml4 ?x) (page_at base i) = None" if "i < unat pages" for i using d n(2) that by simp
  have op: "only_pages (range_pages base (unat pages)) (t_pml4 ?x) R s1 s2" using d n(2) by simp
  have mf: "mem_frame F s1 s2" using d mem_frame_mono [of _ s1 s2 F] by (auto simp: F_def n(3))
  have na': "\<forall>f \<in> F. frame_refs s1 f = frame_refs s f" "mem_frame F s s1"
    using na unfolding new_allocation_def Let_def by blast+
  have look: "pt_lookup s2 r va = pt_lookup s r va" if r: "r \<in> R" and va: "va < USER_TOP" for r va
  proof (cases "r \<noteq> t_pml4 ?x \<or> va AND NOT 4095 \<notin> range_pages base (unat pages)")
    case True
    have "va AND NOT 4095 < USER_TOP" using va word_and_le2 [of va "NOT 4095"] by (rule le_less_trans [rotated])
    then have "pt_lookup s2 r va = pt_lookup s1 r va" using op r True unfolding only_pages_def by blast
    then show ?thesis using n(12) r va True by simp
  next
    case False
    then obtain i where i: "i < unat pages" "va AND NOT 4095 = page_at base i" and rp: "r = t_pml4 ?x"
      by (auto simp: range_pages_def)
    have "pt_lookup u r va = pt_lookup u r (page_at base i)" for u :: "'a sched_state_scheme"
      using page_lookup [OF valid_range_page(3) [OF n(6) i(1)] i(2)] by blast
    then show ?thesis using none [OF i(1)] n(11) i(1) rp by simp
  qed
  have "frame_refs s2 f = frame_refs s f" if "f \<in> F" for f
    using refs [of f] na'(1) n(9) that by auto
  moreover have "frame_refs s2 p = 0" if "p \<in> set (user_pages ?x1) - set (user_pages ?x)" for p
    using refs [of p] n(3,10) that by auto
  moreover have "mem_frame F s s2" by (rule mem_frame_trans [OF na'(2) mf])
  ultimately show ?thesis using r1 run q look by (intro conjI exI [of _ s2]) (simp_all add: F_def)
qed

section \<open>Witnesses\<close>

definition tiny_owner_task :: task where
  "tiny_owner_task = tiny_process\<lparr>allocations :=
     [(HEAP_START + HEADER, \<lparr>a_base = 0x60000000, a_size = 4096, a_pages = 1\<rparr>)]\<rparr>"

text \<open>The heap of the small machine after its first block was taken for the record above.\<close>

definition tiny_owned :: shm_state where
  "tiny_owned = (tiny_user tiny_owner_task)\<lparr>heap_blocks := heap_blocks (fst (the (kmalloc 32 tiny_heap)))\<rparr>"

lemma tiny_owned_space: "space_ok tiny_owned {tiny_root} {} 0x1000"
proof -
  let ?h = "fst (the (kmalloc 32 tiny_heap))"
  have k: "kmalloc 32 tiny_heap = Some (?h, HEAP_START + HEADER)" and he: "heap_end ?h = heap_end tiny_heap"
    by (simp_all add: kmalloc_def tiny_heap_def fits_def round16_def)
  have "live tiny_heap = Map.empty" by (auto simp: tiny_heap_def live_blocks_def)
  then obtain n where "live ?h (HEAP_START + HEADER) = Some n"
    using kmalloc_cases(2) [OF tiny_heap_ok k] by (auto simp: alloc_result_def)
  then have lv: "HEAP_START + HEADER \<in> dom (live tiny_owned)" by (auto simp: tiny_owned_def)
  have sm: "same_machine (tiny_user tiny_owner_task) tiny_owned" by (simp add: same_machine_def tiny_owned_def)
  have vm: "vm_ok tiny_owned {tiny_root} {}" using same_machine_facts(1) [OF sm] tiny_user_vm by blast
  have "blocks_ok (heap_blocks ?h) (heap_end ?h)"
    using kmalloc_cases(1) [OF tiny_heap_ok k] by (simp add: heap_ok_def)
  then have "heap_ok tiny_owned {tiny_root}"
    using vm he by (auto simp: heap_ok_def tiny_owned_def tiny_user_def)
  moreover have "tasks tiny_owned 0x1000 = tiny_owner_task" by (simp add: tiny_owned_def tiny_user_def)
  ultimately show ?thesis
    using vm lv
    by (auto simp: space_ok_def Let_def owned_nodes_def task_regions_def no_attachment_def tiny_owner_task_def
        user_region_def region_end_def)
qed

lemma user_free_correct_witness:
  "\<exists>s'. user_free 0x1000 0x60000000 tiny_owned = Some (s', 0) \<and> space_ok s' {tiny_root} {} 0x1000"
proof -
  have ts: "tasks tiny_owned 0x1000 = tiny_owner_task" by (simp add: tiny_owned_def tiny_user_def)
  have "task_memory_owner 0x1000 tiny_owned = 0x1000"
    by (simp add: task_memory_owner_def ts tiny_owner_task_def)
  moreover have "find_allocation 0x60000000 (tasks tiny_owned 0x1000) = Some 0"
    by (simp add: ts tiny_owner_task_def find_allocation_def)
  ultimately show ?thesis using user_free_correct [OF tiny_owned_space, of "0x1000" "0x60000000"] by auto
qed

text \<open>One page can be allocated in the small machine.\<close>

lemma tiny_pages_free: "vmm_pte_in (tiny_user x) r va = None"
proof -
  have "get64 (tiny_user x) q = 0" for q
    by (simp add: tiny_user_def tiny_heap_def tiny_machine_def get64_def ld64_zero)
  then show ?thesis by (simp add: vmm_pte_in_def numeral_3_eq_3 walk_to_Suc links_def has_def Let_def)
qed

lemma tiny_map_page:
  assumes s: "vm_ok s {tiny_root} F" "mem s = (\<lambda>_. 0)" "3 \<le> unat (free_pages s)" and f: "0 < frame_refs s f"
    and base: "base AND 4095 = 0" "base < USER_TOP"
  shows "snd (vmm_map_pages_in tiny_root base (Some [f]) 1 VMM_FLAGS_USER_DATA s)"
proof -
  have args: "map_page_args_ok tiny_root base f VMM_FLAGS_USER_DATA"
    using base live_frame_word [OF vm_ok_pmm [OF s(1)] f]
    by (simp add: map_page_args_ok_def tiny_root_def canonical_def has_def)
  have "\<not> has (get64 s (slot_at tiny_root (index_at base 3))) PTE_PRESENT"
    by (simp add: get64_def s(2) ld64_zero has_def)
  then have "snd (map_page tiny_root base f VMM_FLAGS_USER_DATA False s)"
    using map_page_room [OF s(1) _ args _ s(3)] by (subst map_page_flush) (simp add: vmm_map_page_in_def)
  then obtain s1 where "map_page tiny_root base f VMM_FLAGS_USER_DATA False s = (s1, True)" by (metis prod.collapse)
  moreover have "unat base + unat (1 :: u32) * 4096 \<le> 2 ^ 47"
  proof -
    obtain q where q: "unat base = 4096 * q" using base(1) by (rule page_aligned)
    then have "4096 * q < 4096 * 2 ^ 35" using base(2) by (simp add: word_less_nat_alt)
    then have "q < 2 ^ 35" unfolding mult_less_cancel1 by blast
    then show ?thesis using q by simp
  qed
  then have "valid_range base 1" by (rule user_range_valid [OF base(1) one_neq_zero])
  moreover have "tiny_root \<noteq> 0" by (simp add: tiny_root_def)
  ultimately show ?thesis by (simp add: vmm_map_pages_in_def page_at_def)
qed

lemma tiny_alloc:
  obtains s1 base where "user_alloc 0x1000 4096 (tiny_user tiny_process) = Some (s1, base)" and "base \<noteq> 0"
proof -
  let ?s = "tiny_user tiny_process" and ?t = "0x1000 :: u64"
  have x: "tasks ?s ?t = tiny_process" by (simp add: tiny_user_def)
  have reg: "task_regions tiny_process = []" by (simp add: task_regions_def no_attachment_def)
  have free: "range_free tiny_process ?s 1 USER_HEAP_BASE"
    by (simp add: range_free_def reg tiny_pages_free)
  obtain base where b: "user_find_free_range ?t USER_HEAP_BASE USER_HEAP_END 1 ?s = Some base"
      "first_fit tiny_process ?s USER_HEAP_END 1 USER_HEAP_BASE base"
    using user_find_free_range_fit [of ?t ?s 1 USER_HEAP_BASE USER_HEAP_END] by (auto simp: x reg tiny_root_def)
  have nz: "base \<noteq> 0" using b(2) free unfolding first_fit_def by auto
  have base: "base AND 4095 = 0" "unat base + span_of 1 \<le> unat USER_HEAP_END"
    using b(2) nz unfolding first_fit_def by blast+
  have run: "user_alloc ?t 4096 ?s = alloc_in_range ?t base 1 4096 ?s"
    by (rule user_alloc_in_range [OF tiny_owner]) (use b(1) nz in \<open>simp_all add: x user_page_count_def tiny_root_def\<close>)
  obtain s1 a where k: "kmalloc 32 ?s = Some (s1, a)" and a: "a \<noteq> 0"
    and s1: "s1 = ?s\<lparr>heap_blocks := heap_blocks s1\<rparr>"
    by (simp add: kmalloc_def tiny_user_def tiny_heap_def fits_def round16_def)
  have f1: "tasks s1 = tasks ?s" "mem s1 = (\<lambda>_. 0)" "free_pages s1 = 6" "hhdm_offset s1 = hhdm_offset ?s"
    by (subst s1, simp add: tiny_user_def tiny_heap_def tiny_machine_def)+
  have rs: "user_pages_reserve ?t (user_page_count (tasks s1 ?t) + 1) s1 = Some (s1, True)"
    by (simp add: user_pages_reserve_def f1 x user_page_count_def)
  have vm: "vm_ok s1 {tiny_root} {}" by (rule kmalloc_kept(1) [OF tiny_user_heap tiny_user_vm k])
  obtain s2 f where al: "pmm_alloc_page s1 = (s2, f)" by fastforce
  note ct = pmm_alloc_contract [OF vm_ok_pmm [OF vm] al]
  have f: "f \<noteq> 0" using ct(5) f1(3) by auto
  define s3 where "s3 = s2\<lparr>mem := memset (mem s2) (f + hhdm_offset s2) 0 4096\<rparr>"
  define s4 where "s4 = upd_task ?t (\<lambda>x. x\<lparr>user_pages := user_pages x @ [f],
    user_vaddrs := user_vaddrs x @ [page_at base 0]\<rparr>) s3"
  note np = new_page [OF vm al f s3_def]
  have tk: "take_user_pages (unat (1 :: u32)) 0 ?t base s1 = (s4, True)"
    using al f by (simp add: s4_def s3_def Let_def del: memset_apply)
  have "machine.more s3 = machine.more s1" by (rule np(5))
  then have ts: "tasks s3 = tasks ?s" using more_fields(1) [of s3 s1] f1(1) by simp
  have m4: "mem s4 = (\<lambda>_. 0)" "unat (free_pages s4) = 5"
    using pmm_alloc_page_frame(1) [OF al] f1(2,3) ct(7) f
    by (auto simp: s4_def s3_def upd_task_def)
  have "0 < frame_refs s4 f" using np(3) ct(3) f by (simp add: s4_def)
  moreover have "base < USER_TOP" using base(2) by (simp add: word_less_nat_alt)
  moreover have "vm_ok s4 {tiny_root} {f}" using np(1) by (simp add: s4_def)
  ultimately have "snd (vmm_map_pages_in tiny_root base (Some [f]) 1 VMM_FLAGS_USER_DATA s4)"
    using tiny_map_page [of s4 "{f}" f base] m4 base(1) by simp
  then obtain s5 where mp: "vmm_map_pages_in tiny_root base (Some [f]) 1 VMM_FLAGS_USER_DATA s4 = (s5, True)"
    by (metis prod.collapse)
  have t4: "t_pml4 (tasks s4 ?t) = tiny_root" "user_pages (tasks s4 ?t) = [f]"
    by (simp_all add: s4_def ts x)
  have "\<exists>s6. alloc_in_range ?t base 1 4096 ?s = Some (s6, base)"
    using k a rs tk mp t4 f1(1) x by (simp add: alloc_in_range_def Let_def)
  then show thesis using run nz that by auto
qed

lemma user_alloc_free_witness:
  "\<exists>s1 base s2. user_alloc 0x1000 4096 (tiny_user tiny_process) = Some (s1, base) \<and> base \<noteq> 0 \<and>
     user_free 0x1000 base s1 = Some (s2, 0) \<and> allocations (tasks s2 0x1000) = []"
proof -
  obtain s1 base where a: "user_alloc 0x1000 4096 (tiny_user tiny_process) = Some (s1, base)" "base \<noteq> 0"
    by (rule tiny_alloc)
  have x: "tasks (tiny_user tiny_process) 0x1000 = tiny_process" by (simp add: tiny_user_def)
  then have "records_ok (tiny_user tiny_process) 0x1000" by (simp add: records_ok_def)
  from user_alloc_free [OF tiny_space this a] show ?thesis using a x by auto
qed

end
