(* ===== verification/CowProps.thy ===== *)
theory CowProps
  imports Uaccess UserFree
begin

text \<open>
  Shared frames, \<^verbatim>\<open>mm/cow.c\<close>: what user programs see of the memory, the invariant on private frames, and
  the resolution of a write fault, which nobody can observe.
\<close>

section \<open>The memory that user programs see\<close>

definition user_byte :: "'a machine_scheme \<Rightarrow> u64 \<Rightarrow> u64 \<Rightarrow> u8 option" where
  "user_byte s r va =
     map_option (\<lambda>e. mem s (vmm_pte_address e + hhdm_offset s + (va AND 4095))) (pt_lookup s r va)"

lemma offset_in_page: "in_page t (t + (va AND 4095))"
proof -
  have "unat (va AND 4095) = unat va mod 4096" using unat_and_mask_mod [of va 12] by (simp add: mask_eq_exp_minus_1)
  then show ?thesis by (simp add: in_page_def)
qed

lemma user_byte_kept:
  assumes "mem_frame F s s'" and "pt_lookup s' r va = pt_lookup s r va"
    and "\<And>e. pt_lookup s r va = Some e \<Longrightarrow> vmm_pte_address e \<in> F"
  shows "user_byte s' r va = user_byte s r va"
proof (cases "pt_lookup s r va")
  case None
  then show ?thesis using assms(2) by (simp add: user_byte_def)
next
  case (Some e)
  then have "in_frames F s (vmm_pte_address e + hhdm_offset s + (va AND 4095))"
    using assms(3) offset_in_page by (auto simp: in_frames_def)
  then show ?thesis using assms(1,2) Some by (simp add: user_byte_def mem_frame_def)
qed

lemma user_byte_cong:
  assumes "pt_lookup s' r va = pt_lookup s r va" and "mem s' = mem s" and "hhdm_offset s' = hhdm_offset s"
  shows "user_byte s' r va = user_byte s r va"
  using assms by (simp add: user_byte_def)

section \<open>Flags\<close>

lemma has_bit: "has w 1 \<longleftrightarrow> bit w 0" "has w 2 \<longleftrightarrow> bit w 1" "has w 4 \<longleftrightarrow> bit w 2" "has w 0x200 \<longleftrightarrow> bit w 9"
proof -
  have h: "has w (2 ^ n) \<longleftrightarrow> bit w n" for n by (simp add: has_def bit_iff_and_push_bit_not_eq_0 push_bit_eq_mult)
  show "has w 1 \<longleftrightarrow> bit w 0" "has w 2 \<longleftrightarrow> bit w 1" "has w 4 \<longleftrightarrow> bit w 2" "has w 0x200 \<longleftrightarrow> bit w 9"
    using h [of 0] h [of 1] h [of 2] h [of 9] by simp_all
qed

lemma and_flag:
  fixes w :: u64
  shows "w AND 1 = (if has w 1 then 1 else 0)" "w AND 2 = (if has w 2 then 2 else 0)"
    "w AND 4 = (if has w 4 then 4 else 0)" "w AND 0x200 = (if has w 0x200 then 0x200 else 0)"
proof -
  have f: "w AND push_bit n 1 = (if bit w n then push_bit n 1 else 0)" if "n < 64" for n
    using that by (intro bit_word_eqI) (auto simp: bit_simps)
  show "w AND 1 = (if has w 1 then 1 else 0)" "w AND 2 = (if has w 2 then 2 else 0)"
    "w AND 4 = (if has w 4 then 4 else 0)" "w AND 0x200 = (if has w 0x200 then 0x200 else 0)"
    unfolding has_bit using f [of 0] f [of 1] f [of 2] f [of 9] by (simp_all add: push_bit_eq_mult)
qed

lemma flag_tests:
  "e AND (PTE_PRESENT OR PTE_USER) = (PTE_PRESENT OR PTE_USER) \<longleftrightarrow> has e PTE_PRESENT \<and> has e PTE_USER"
  "e AND (PTE_USER OR PTE_WRITE) = (PTE_USER OR PTE_WRITE) \<longleftrightarrow> has e PTE_USER \<and> has e PTE_WRITE"
  "e AND (PTE_USER OR PTE_COW OR PTE_WRITE) = (PTE_USER OR PTE_COW) \<longleftrightarrow>
     has e PTE_USER \<and> has e PTE_COW \<and> \<not> has e PTE_WRITE"
  "has e (PTE_WRITE OR PTE_COW) \<longleftrightarrow> has e PTE_WRITE \<or> has e PTE_COW"
proof -
  have "e AND 5 = (e AND 1) OR (e AND 4)" "e AND 6 = (e AND 4) OR (e AND 2)"
    "e AND 0x206 = (e AND 4) OR (e AND 0x200) OR (e AND 2)" "e AND 0x202 = (e AND 2) OR (e AND 0x200)"
    unfolding bit.conj_disj_distrib [symmetric] by simp_all
  note g = this [unfolded and_flag [of e]]
  show "e AND (PTE_PRESENT OR PTE_USER) = (PTE_PRESENT OR PTE_USER) \<longleftrightarrow> has e PTE_PRESENT \<and> has e PTE_USER"
    "e AND (PTE_USER OR PTE_WRITE) = (PTE_USER OR PTE_WRITE) \<longleftrightarrow> has e PTE_USER \<and> has e PTE_WRITE"
    "e AND (PTE_USER OR PTE_COW OR PTE_WRITE) = (PTE_USER OR PTE_COW) \<longleftrightarrow>
     has e PTE_USER \<and> has e PTE_COW \<and> \<not> has e PTE_WRITE"
    using g(1-3) by (simp_all split: if_splits)
  show "has e (PTE_WRITE OR PTE_COW) \<longleftrightarrow> has e PTE_WRITE \<or> has e PTE_COW"
    using g(4) by (simp add: has_def [of e "0x202"] split: if_splits)
qed

lemma flag_mask_bits: "bit PTE_FLAG_MASK n \<longleftrightarrow> n < 12 \<or> n = 63"
proof -
  have eq: "PTE_FLAG_MASK = mask 12 OR push_bit 63 1" by (simp add: mask_eq_exp_minus_1 push_bit_eq_mult)
  show ?thesis unfolding eq bit_or_iff bit_mask_iff bit_push_bit_iff bit_1_iff by auto
qed

text \<open>The entry that a resolved page gets.\<close>

lemma resolved_entry:
  assumes "f AND NOT PTE_ADDR_MASK = 0" and "has e PTE_PRESENT" and "has e PTE_USER"
  defines "e' \<equiv> f OR (((e AND PTE_FLAG_MASK) AND NOT PTE_COW) OR PTE_WRITE)"
  shows "vmm_pte_address e' = f" and "has e' PTE_PRESENT" and "has e' PTE_USER" and "has e' PTE_WRITE"
    and "\<not> has e' PTE_COW"
proof -
  let ?g = "((e AND PTE_FLAG_MASK) AND NOT PTE_COW) OR PTE_WRITE"
  have "?g AND NOT PTE_FLAG_MASK = 0"
  proof (rule bit_word_eqI)
    fix n assume "n < LENGTH(64)"
    have "bit PTE_WRITE n \<Longrightarrow> n = 1" by (cases n; cases "n - 1") (auto simp: bit_numeral_rec)
    then show "bit (?g AND NOT PTE_FLAG_MASK) n = bit (0 :: u64) n"
      unfolding bit_and_iff bit_or_iff bit_not_iff flag_mask_bits by auto
  qed
  note ep = entry_parts [OF assms(1) this, folded e'_def]
  show "vmm_pte_address e' = f" by (rule ep(1))
  show "has e' PTE_PRESENT" "has e' PTE_USER" "has e' PTE_WRITE" "\<not> has e' PTE_COW"
    using assms(2,3) ep(3) [of 1] ep(3) [of 2] ep(3) [of 4] ep(3) [of "0x200"]
    by (simp_all add: has_bit bit_and_iff bit_or_iff bit_not_iff flag_mask_bits)
qed

section \<open>The entries above the leaf\<close>

text \<open>What \<^verbatim>\<open>vmm_user_accessible\<close> asks of the three upper levels.\<close>

primrec upper_ok :: "nat \<Rightarrow> 'a machine_scheme \<Rightarrow> u64 \<Rightarrow> u64 \<Rightarrow> bool \<Rightarrow> bool" where
  "upper_ok 0 s t va write = True"
| "upper_ok (Suc l) s t va write =
     (let e = get64 s (slot_at t (index_at va (Suc l)))
      in links e \<and> has e PTE_USER \<and> (write \<longrightarrow> has e PTE_WRITE) \<and> upper_ok l s (table_at s e) va write)"

lemma accessible_split:
  "accessible_from l s t va write \<longleftrightarrow> upper_ok l s t va write \<and>
     (\<exists>e. lookup_from l s t va = Some e \<and> has e PTE_USER \<and> (write \<longrightarrow> has e (PTE_WRITE OR PTE_COW)))"
proof (induction l arbitrary: t)
  case 0
  show ?case unfolding accessible_from.simps Let_def flag_tests(1)
    by (auto simp: leaf_entry_def Let_def split: if_splits)
next
  case (Suc l)
  show ?case unfolding accessible_from.simps Let_def flag_tests(1) Suc.IH
    by (auto simp: lookup_from_Suc Let_def links_def)
qed

lemma hw_walk_leaf:
  assumes "upper_ok l s t va write" and "lookup_from l s t va = Some e"
  shows "hw_walk l s t va write =
    (if write \<and> \<not> has e PTE_WRITE then Inl 3 else Inr (vmm_pte_address e + (va AND 4095)))"
  using assms
proof (induction l arbitrary: t)
  case 0
  then show ?case by (auto simp: leaf_entry_def Let_def split: if_splits)
next
  case (Suc l)
  then show ?case by (auto simp: Let_def lookup_from_Suc links_def)
qed

text \<open>They stay when only data or leaves are written.\<close>

definition same_upper :: "(u64 \<Rightarrow> role option) \<Rightarrow> 'a machine_scheme \<Rightarrow> 'b machine_scheme \<Rightarrow> bool" where
  "same_upper \<rho> s s' \<longleftrightarrow> hhdm_offset s' = hhdm_offset s \<and>
     (\<forall>t l r. \<rho> t = Some (Suc l, r) \<longrightarrow> (\<forall>i < 512. get64 s' (slot_at t i) = get64 s (slot_at t i)))"

lemma upper_ok_same:
  assumes "same_upper \<rho> s s'" and "pt_inv s \<rho>"
  shows "\<rho> t = Some (l, sp, pre) \<Longrightarrow> upper_ok l s' t va write = upper_ok l s t va write"
proof (induction l arbitrary: t sp pre)
  case 0
  then show ?case by simp
next
  case (Suc l)
  let ?e = "get64 s (slot_at t (index_at va (Suc l)))"
  have e: "get64 s' (slot_at t (index_at va (Suc l))) = ?e" "hhdm_offset s' = hhdm_offset s"
    using assms(1) Suc.prems by (auto simp: same_upper_def)
  have "upper_ok l s' (table_at s ?e) va write = upper_ok l s (table_at s ?e) va write" if "links ?e"
    using pt_invD(6) [OF assms(2) Suc.prems, of "index_at va (Suc l)"] that Suc.IH child_role_level
    by (metis index_at_less zero_less_Suc)
  then show ?case using e by (auto simp: Let_def table_at_def)
qed

lemma walk_to_same_upper:
  assumes "same_upper \<rho> s s'" and "pt_inv s \<rho>"
  shows "\<rho> t = Some (l, sp, pre) \<Longrightarrow> walk_to l s' t va = walk_to l s t va"
proof (induction l arbitrary: t sp pre)
  case 0
  then show ?case by simp
next
  case (Suc l)
  let ?e = "get64 s (slot_at t (index_at va (Suc l)))"
  have e: "get64 s' (slot_at t (index_at va (Suc l))) = ?e" "hhdm_offset s' = hhdm_offset s"
    using assms(1) Suc.prems by (auto simp: same_upper_def)
  have "walk_to l s' (table_at s ?e) va = walk_to l s (table_at s ?e) va" if "links ?e"
    using pt_invD(6) [OF assms(2) Suc.prems, of "index_at va (Suc l)"] that Suc.IH child_role_level
    by (metis index_at_less zero_less_Suc)
  then show ?case using e by (auto simp: walk_to_Suc Let_def table_at_def)
qed

lemma walk_to_cong:
  assumes "mem s' = mem s" and "hhdm_offset s' = hhdm_offset s"
  shows "walk_to l s' t va = walk_to l s t va"
  by (induction l arbitrary: t) (simp_all add: walk_to_Suc Let_def get64_def table_at_def assms)

lemma pte_in_same:
  assumes "walk_to 3 s' r va = walk_to 3 s r va" and "pt_lookup s' r va = pt_lookup s r va"
    and "vmm_pte_in s r va = Some p"
  shows "vmm_pte_in s' r va = Some p"
proof -
  have "vmm_pte_in s' r va \<noteq> None" using assms(2,3) by (auto simp: pt_lookup_pte)
  then show ?thesis using assms(1,3)
    by (auto simp: vmm_pte_in_def Let_def split: option.splits if_splits)
qed

lemma upper_ok_cong:
  assumes "mem s' = mem s" and "hhdm_offset s' = hhdm_offset s"
  shows "upper_ok l s' t va write = upper_ok l s t va write"
  by (induction l arbitrary: t) (simp_all add: Let_def get64_def table_at_def assms)

section \<open>Replacing a leaf\<close>

lemma card_one:
  assumes "finite A" "card A \<le> 1" "x \<in> A" shows "A = {x}"
  using assms card_le_Suc0_iff_eq [OF assms(1)] by auto

lemma put_pte:
  assumes ok: "vm_ok s R F" and p: "pml4 \<in> R" and v: "has v PTE_PRESENT"
    and leaf: "vmm_pte_in s pml4 va = Some leaf" and s': "s' = put64 leaf v s"
  shows "vm_ok s' R F" and "mem_frame F s s'" and "frame_refs s' = frame_refs s"
    and "kernel_pml4 s' = kernel_pml4 s" and "machine.more s' = machine.more s"
    and "r \<in> R \<Longrightarrow> upper_ok 3 s' r vb w = upper_ok 3 s r vb w"
    and "r \<in> R \<Longrightarrow> vb < USER_TOP \<Longrightarrow> va < USER_TOP \<Longrightarrow> pt_lookup s' r vb =
      (if r = pml4 \<and> vb AND NOT 4095 = va AND NOT 4095 then Some v else pt_lookup s r vb)"
proof -
  obtain \<rho> where pm: "pmm_inv s" and inv: "pt_inv s \<rho>" and R: "\<forall>r \<in> R. \<rho> r = Some (3, r, 0)"
    and F: "data_frames s \<rho> F"
    using ok by (auto simp: vm_ok_def)
  have root: "\<rho> pml4 = Some (3, pml4, 0)" using R p by blast
  obtain T where can: "canonical va" and w: "walk_to 3 s pml4 va = Some T" and lf: "leaf = slot_at T (index_at va 0)"
    using leaf by (auto simp: vmm_pte_in_def Let_def split: option.splits if_splits)
  obtain a b where T: "\<rho> T = Some (0, a, b)" using walk3_role [OF inv root w] by metis
  note put = put_leaf [OF inv T index_at_less [of va 0], where v = v, folded lf, folded s']
  have "pmm_inv s' = pmm_inv s" "frame_busy s' = frame_busy s" "hhdm_offset s' = hhdm_offset s"
    by (simp_all add: s')
  then show "vm_ok s' R F" using pm put(1) R F unfolding vm_ok_def data_frames_def by auto
  show "mem_frame F s s'"
    unfolding s' lf by (rule frame_put [OF role_slot [OF inv F domI [of \<rho>, OF T] index_at_less]])
  show "frame_refs s' = frame_refs s" "kernel_pml4 s' = kernel_pml4 s" by (simp_all add: s')
  show "machine.more s' = machine.more s" by (simp add: s' frame_simps)
  show "upper_ok 3 s' r vb w = upper_ok 3 s r vb w" if r: "r \<in> R"
  proof (rule upper_ok_same [OF _ inv])
    have "get64 s' (slot_at t i) = get64 s (slot_at t i)" if t: "\<rho> t = Some (Suc l, q)" "i < 512" for t l q i
      using that T pt_inv_dom(1) [OF inv, of t] pt_inv_dom(1) [OF inv, of T]
      by (auto simp: s' lf get64_put64 slot_at_inj domI)
    then show "same_upper \<rho> s s'" by (simp add: same_upper_def s')
    show "\<rho> r = Some (3, r, 0)" using R r by blast
  qed
  assume r: "r \<in> R" and vb: "vb < USER_TOP" and va: "va < USER_TOP"
  have rr: "\<rho> r = Some (3, r, 0)" using R r by blast
  have c: "canonical vb" using vb by (simp add: canonical_def)
  have r0: "r \<noteq> 0" by (rule pt_invD(2) [OF inv rr])
  have eq: "(walk_to 3 s r vb = Some T \<and> index_at vb 0 = index_at va 0) \<longleftrightarrow>
      r = pml4 \<and> vb AND NOT 4095 = va AND NOT 4095" (is "?L \<longleftrightarrow> ?Q")
  proof
    assume ?L
    then show ?Q using same_leaf_same_page [OF inv rr root _ w _ c can] vb by auto
  next
    assume q: ?Q
    have ix: "index_at vb l = index_at va l" for l
      using page_index [of vb "va AND NOT 4095"] page_index [of va "va AND NOT 4095"] q by simp
    then have "walk_to l s t vb = walk_to l s t va" for l t
      by (induction l arbitrary: t) (simp_all add: walk_to_Suc ix Let_def)
    then show ?L using w q ix by simp
  qed
  show "pt_lookup s' r vb =
      (if r = pml4 \<and> vb AND NOT 4095 = va AND NOT 4095 then Some v else pt_lookup s r vb)"
    using put(3) [OF rr, of vb] eq v c r0 by (simp add: pt_lookup_def)
qed

section \<open>Private frames\<close>

text \<open>The user pages that show a frame.\<close>

definition mappings :: "'a machine_scheme \<Rightarrow> u64 set \<Rightarrow> u64 \<Rightarrow> (u64 \<times> u64) set" where
  "mappings s R f =
     {(r, va). r \<in> R \<and> va < USER_TOP \<and> va AND 4095 = 0 \<and> (\<exists>e. pt_lookup s r va = Some e \<and> vmm_pte_address e = f)}"

text \<open>
  \<open>F\<close> are the frames that hold user data, \<open>P\<close> those of them that are private to processes, as opposed
  to those of shared segments: a private frame has a reference for every page that shows it, and one
  that a page may write is shown by this page alone.
\<close>

definition users_ok :: "'a machine_scheme \<Rightarrow> u64 set \<Rightarrow> u64 set \<Rightarrow> u64 set \<Rightarrow> bool" where
  "users_ok s R F P \<longleftrightarrow> vm_ok s R F \<and> P \<subseteq> F \<and>
     (\<forall>r \<in> R. \<forall>va < USER_TOP. \<forall>e. pt_lookup s r va = Some e \<longrightarrow> vmm_pte_address e \<in> F) \<and>
     (\<forall>f \<in> P. card (mappings s R f) \<le> frame_refs s f) \<and>
     (\<forall>r \<in> R. \<forall>va < USER_TOP. \<forall>e. pt_lookup s r va = Some e \<and> has e PTE_WRITE \<and> vmm_pte_address e \<in> P \<longrightarrow>
        mappings s R (vmm_pte_address e) = {(r, va AND NOT 4095)})"

lemma users_okD:
  assumes "users_ok s R F P"
  shows "vm_ok s R F" and "P \<subseteq> F"
    and "r \<in> R \<Longrightarrow> va < USER_TOP \<Longrightarrow> pt_lookup s r va = Some e \<Longrightarrow> vmm_pte_address e \<in> F"
    and "f \<in> P \<Longrightarrow> card (mappings s R f) \<le> frame_refs s f"
    and "r \<in> R \<Longrightarrow> va < USER_TOP \<Longrightarrow> pt_lookup s r va = Some e \<Longrightarrow> has e PTE_WRITE \<Longrightarrow> vmm_pte_address e \<in> P \<Longrightarrow>
      mappings s R (vmm_pte_address e) = {(r, va AND NOT 4095)}"
  using assms unfolding users_ok_def by blast+

lemma page_floor_user:
  assumes "(va :: u64) < USER_TOP"
  shows "va AND NOT 4095 < USER_TOP" and "(va AND NOT 4095) AND 4095 = 0" and "canonical (va AND NOT 4095)"
    and "pt_lookup s r (va AND NOT 4095) = pt_lookup s r va"
proof -
  show lt: "va AND NOT 4095 < USER_TOP"
    using assms word_and_le2 [of va "NOT 4095"] by (rule order.strict_trans1 [rotated])
  show "(va AND NOT 4095) AND 4095 = 0" by (simp add: and.assoc)
  show c: "canonical (va AND NOT 4095)" using lt by (simp add: canonical_def)
  show "pt_lookup s r (va AND NOT 4095) = pt_lookup s r va" by (rule page_lookup [OF c refl, symmetric])
qed

lemma in_mappings:
  "r \<in> R \<Longrightarrow> va < USER_TOP \<Longrightarrow> pt_lookup s r va = Some e \<Longrightarrow> (r, va AND NOT 4095) \<in> mappings s R (vmm_pte_address e)"
  using page_floor_user(1-3) [of va] page_floor_user(4) [of va s r] by (simp add: mappings_def)

lemma mappings_remap:
  assumes look: "\<And>r vb. r \<in> R \<Longrightarrow> vb < USER_TOP \<Longrightarrow>
      pt_lookup s' r vb = (if r = root \<and> vb AND NOT 4095 = va then Some e' else pt_lookup s r vb)"
    and root: "root \<in> R" "va < USER_TOP" "va AND 4095 = 0"
  shows "mappings s' R f = (if vmm_pte_address e' = f then insert (root, va) (mappings s R f)
    else mappings s R f - {(root, va)})"
proof -
  have "(r, vb) \<in> mappings s' R f \<longleftrightarrow>
      (if r = root \<and> vb = va then vmm_pte_address e' = f else (r, vb) \<in> mappings s R f)" for r vb
  proof (cases "r \<in> R \<and> vb < USER_TOP \<and> vb AND 4095 = 0")
    case True
    then show ?thesis using look [of r vb] page_floor_id [of vb] by (auto simp: mappings_def)
  next
    case False
    then show ?thesis using root by (auto simp: mappings_def)
  qed
  then show ?thesis by (auto split: if_splits)
qed

lemma data_write_upper:
  assumes ok: "vm_ok s R F" and f: "f \<in> F"
    and m: "\<And>a. m a \<noteq> mem s a \<Longrightarrow> in_page (f + hhdm_offset s) a" and r: "r \<in> R"
  shows "upper_ok 3 (s\<lparr>mem := m\<rparr>) r va w = upper_ok 3 s r va w"
    and "vmm_pte_in s r va = Some p \<Longrightarrow> vmm_pte_in (s\<lparr>mem := m\<rparr>) r va = Some p"
proof -
  obtain \<rho> where h: "pmm_inv s" "pt_inv s \<rho>" "\<forall>r \<in> R. \<rho> r = Some (3, r, 0)" "data_frames s \<rho> F"
    using ok by (auto simp: vm_ok_def)
  have su: "same_upper \<rho> s (s\<lparr>mem := m\<rparr>)"
    using data_entries_same [OF h(2,4) f m] domI [of \<rho>] by (fastforce simp: same_upper_def)
  have root: "\<rho> r = Some (3, r, 0)" using h(3) r by blast
  show "upper_ok 3 (s\<lparr>mem := m\<rparr>) r va w = upper_ok 3 s r va w" by (rule upper_ok_same [OF su h(2) root])
  show "vmm_pte_in (s\<lparr>mem := m\<rparr>) r va = Some p" if "vmm_pte_in s r va = Some p"
    by (rule pte_in_same [OF walk_to_same_upper [OF su h(2) root] data_write(2) [OF ok f m r] that])
qed

section \<open>A page gets another frame or other rights\<close>

text \<open>
  From \<open>s\<close> to \<open>s'\<close> the user page \<open>va\<close> of \<open>root\<close> gets the entry \<open>e'\<close> and nobody can tell: every byte that
  a user program can read is the same, in every address space. \<open>N\<close> are the frames taken.
\<close>

definition unseen ::
    "u64 set \<Rightarrow> u64 \<Rightarrow> u64 \<Rightarrow> 'a machine_scheme \<Rightarrow> 'a machine_scheme \<Rightarrow> bool" where
  "unseen R root va s s' \<longleftrightarrow> kernel_pml4 s' = kernel_pml4 s \<and> hhdm_offset s' = hhdm_offset s \<and>
     cr3 s' = cr3 s \<and> (\<forall>r \<in> R. \<forall>vb < USER_TOP. user_byte s' r vb = user_byte s r vb) \<and>
     (\<forall>r \<in> R. \<forall>vb < USER_TOP. r \<noteq> root \<or> vb AND NOT 4095 \<noteq> va \<longrightarrow> pt_lookup s' r vb = pt_lookup s r vb) \<and>
     (\<forall>r \<in> R. \<forall>vb w. upper_ok 3 s' r vb w = upper_ok 3 s r vb w)"

lemma unseen_refl [simp]: "unseen R root va s s"
  by (simp add: unseen_def)

lemma unseen_same_machine:
  assumes "same_machine s s'" and "cr3 s' = cr3 s" shows "unseen R root va s s'"
  using same_machine_facts(4-7) [OF assms(1)] assms(2) upper_ok_cong [of s' s] by (simp add: unseen_def user_byte_def)

text \<open>The only page that shows a frame may be given the right to write.\<close>

lemma cr3_kept [simp]:
  "cr3 (put64 p v s) = cr3 s" "cr3 (tlb_shootdown q va s) = cr3 s" "cr3 (pmm_free_page s f) = cr3 s"
  "cr3 (upd_task t g s0) = cr3 s0"
  by (simp_all add: put64_def tlb_shootdown_def pmm_free_page_def upd_task_def Let_def)

lemma cr3_alloc:
  assumes "pmm_alloc_page s = (s', a)" shows "cr3 s' = cr3 s"
proof -
  have "s' = s \<or> (\<exists>p. s' = taken s p)"
    by (cases rule: pmm_alloc_scan_cases [of 0 s]) (use assms in \<open>auto simp: pmm_alloc_page_def\<close>)
  then show ?thesis by (auto simp: taken_def)
qed

lemma grant_write:
  assumes u: "users_ok s R F P" and root: "root \<in> R" and a: "a < USER_TOP"
    and look: "pt_lookup s root a = Some e" and one: "frame_refs s (vmm_pte_address e) = 1"
    and priv: "vmm_pte_address e \<in> P"
    and leaf: "vmm_pte_in s root a = Some leaf" and e': "has e' PTE_PRESENT" "vmm_pte_address e' = vmm_pte_address e"
    and s': "s' = put64 leaf e' s"
  shows "users_ok s' R F P" and "unseen R root (a AND NOT 4095) s s'" and "pt_lookup s' root a = Some e'"
proof -
  let ?f = "vmm_pte_address e" and ?va = "a AND NOT 4095"
  note d = users_okD [OF u]
  note pp = put_pte [OF d(1) root e'(1) leaf s']
  have lk: "pt_lookup s' r vb = (if r = root \<and> vb AND NOT 4095 = ?va then Some e' else pt_lookup s r vb)"
    if "r \<in> R" "vb < USER_TOP" for r vb
    using pp(7) [OF that a] .
  show at: "pt_lookup s' root a = Some e'" using lk [OF root a] by simp
  have old: "pt_lookup s root vb = Some e" if "vb < USER_TOP" "vb AND NOT 4095 = ?va" for vb
    by (rule trans [OF trans [OF page_floor_user(4) [OF that(1), symmetric] _] look])
      (unfold that(2), rule page_floor_user(4) [OF a])
  have "(root, ?va) \<in> mappings s R ?f" by (rule in_mappings [OF root a look])
  then have sole: "mappings s R ?f = {(root, ?va)}" using d(4) [OF priv] one by (intro card_one) simp_all
  have mp: "mappings s' R f = mappings s R f" for f
  proof -
    have "mappings s' R f = (if vmm_pte_address e' = f then insert (root, ?va) (mappings s R f)
      else mappings s R f - {(root, ?va)})"
      by (rule mappings_remap [OF lk root page_floor_user(1,2) [OF a]])
    moreover have "(root, ?va) \<notin> mappings s R f" if "f \<noteq> ?f"
      using that old page_floor_user [OF a] by (auto simp: mappings_def)
    moreover have "(root, ?va) \<in> mappings s R ?f" by (rule in_mappings [OF root a look])
    ultimately show ?thesis using e'(2) by auto
  qed
  have addr: "vmm_pte_address x = vmm_pte_address y"
    if "r \<in> R" "vb < USER_TOP" "pt_lookup s' r vb = Some x" "pt_lookup s r vb = Some y" for r vb x y
    using that lk [OF that(1,2)] old [OF that(2)] e'(2) by (auto split: if_splits)
  show "users_ok s' R F P"
    unfolding users_ok_def mp pp(3)
  proof (intro conjI ballI allI impI)
    fix r vb x assume h: "r \<in> R" "vb < USER_TOP" "pt_lookup s' r vb = Some x"
    then show "vmm_pte_address x \<in> F"
      using lk [OF h(1,2)] d(3) [OF h(1,2)] d(2) priv e'(2) by (auto split: if_splits)
  next
    fix r vb x assume h: "r \<in> R" "vb < USER_TOP"
      "pt_lookup s' r vb = Some x \<and> has x PTE_WRITE \<and> vmm_pte_address x \<in> P"
    then show "mappings s R (vmm_pte_address x) = {(r, vb AND NOT 4095)}"
      using lk [OF h(1,2)] d(5) [OF h(1,2)] sole e'(2) by (auto split: if_splits)
  qed (use pp(1) d(2,4) in auto)
  have "user_byte s' r vb = user_byte s r vb" if h: "r \<in> R" "vb < USER_TOP" for r vb
  proof (cases "pt_lookup s r vb")
    case None
    then have "pt_lookup s' r vb = None" using lk [OF h] old [OF h(2)] by (auto split: if_splits)
    then show ?thesis using None by (simp add: user_byte_def)
  next
    case (Some y)
    then obtain x where x: "pt_lookup s' r vb = Some x" using lk [OF h] by (auto split: if_splits)
    have "in_frames F s (vmm_pte_address y + hhdm_offset s + (vb AND 4095))"
      using d(3) [OF h Some] offset_in_page by (auto simp: in_frames_def)
    then show ?thesis using pp(2) addr [OF h x Some] Some x by (simp add: user_byte_def mem_frame_def)
  qed
  then show "unseen R root ?va s s'"
    using lk pp(2,4,6) by (auto simp: unseen_def mem_frame_def s')
qed

lemma users_ok_same:
  assumes "same_machine s s'" shows "users_ok s' R F P = users_ok s R F P"
  using same_machine_facts(1,2,4) [OF assms] by (simp add: users_ok_def mappings_def)

lemma unseen_trans: "unseen R root va s t \<Longrightarrow> unseen R root va t u \<Longrightarrow> unseen R root va s u"
  unfolding unseen_def by metis

text \<open>A reference that no page stands for is given back.\<close>

lemma drop_reference:
  assumes u: "users_ok s R F P" and f: "f \<in> P" "card (mappings s R f) < frame_refs s f" "1 < frame_refs s f"
    and s': "s' = pmm_free_page s f"
  shows "users_ok s' R F P" and "unseen R root va s s'" and "frame_refs s' = (frame_refs s)(f := frame_refs s f - 1)"
    and "pt_lookup s' r vb = pt_lookup s r vb"
proof -
  note d = users_okD [OF u]
  show refs: "frame_refs s' = (frame_refs s)(f := frame_refs s f - 1)"
    unfolding s' by (rule pmm_free_page_inv(2) [OF vm_ok_pmm [OF d(1)]])
  have ff: "mem s' = mem s" "hhdm_offset s' = hhdm_offset s" "kernel_pml4 s' = kernel_pml4 s"
    "\<And>r vb. pt_lookup s' r vb = pt_lookup s r vb"
    using frees_facts(5) [of s "[f]"] by (simp_all add: s')
  have F: "F \<union> set [f] = F" using f(1) d(2) by auto
  have "vm_ok (foldl pmm_free_page s [f]) R F"
    by (rule free_shared) (use d(1) F f(3) in \<open>simp_all only: F, auto\<close>)
  then have vm: "vm_ok s' R F" by (simp add: s')
  have mp: "mappings s' R g = mappings s R g" for g by (simp add: mappings_def ff(4))
  show "users_ok s' R F P"
    unfolding users_ok_def mp ff(4) using vm d f(2) refs by auto
  show "unseen R root va s s'"
    using ff upper_ok_cong [of s' s] by (simp add: unseen_def user_byte_def s')
  show "pt_lookup s' r vb = pt_lookup s r vb" by (rule ff(4))
qed

text \<open>The page moves to a new frame with a copy of the bytes.\<close>

lemma move_page:
  assumes u: "users_ok s R F P" and root: "root \<in> R" and a: "a < USER_TOP"
    and look: "pt_lookup s root a = Some e" and priv: "vmm_pte_address e \<in> P"
    and al: "pmm_alloc_page s = (s1, n)" and n: "n \<noteq> 0"
    and s2: "s2 = s1\<lparr>mem := memcpy (mem s1) (n + hhdm_offset s1) (vmm_pte_address e + hhdm_offset s1) 4096\<rparr>"
    and leaf: "vmm_pte_in s root a = Some leaf" and e': "has e' PTE_PRESENT" "vmm_pte_address e' = n"
    and s': "s' = put64 leaf e' s2"
  shows "users_ok s' R (insert n F) (insert n P)" and "unseen R root (a AND NOT 4095) s s'"
    and "pt_lookup s' root a = Some e'" and "frame_refs s' = (frame_refs s)(n := 1)"
    and "mappings s' R (vmm_pte_address e) = mappings s R (vmm_pte_address e) - {(root, a AND NOT 4095)}"
    and "n \<notin> F" and "frame_refs s n = 0" and "machine.more s' = machine.more s"
proof -
  let ?f = "vmm_pte_address e" and ?va = "a AND NOT 4095" and ?h = "hhdm_offset s"
  note d = users_okD [OF u]
  note va = vm_ok_alloc [OF d(1) al n] and ct = pmm_alloc_contract(2,3,6) [OF vm_ok_pmm [OF d(1)] al n]
    and fr = pmm_alloc_page_frame [OF al]
  show n0: "n \<notin> F" and "frame_refs s n = 0" by (fact va(2), fact ct(1))
  have fF: "?f \<in> F" using priv d(2) by blast
  have m: "in_page (n + hhdm_offset s1) x"
    if "memcpy (mem s1) (n + hhdm_offset s1) (?f + hhdm_offset s1) 4096 x \<noteq> mem s1 x" for x
    using that memcpy_outside [of x "n + hhdm_offset s1" 4096] by (auto simp: in_page_def)
  have vm2: "vm_ok s2 R (insert n F)" unfolding s2 by (rule data_write(1) [OF va(1) _ m]) simp
  have lk2: "pt_lookup s2 r vb = pt_lookup s r vb" if "r \<in> R" for r vb
    using data_write(2) [OF va(1) _ m that] pt_lookup_cong [OF fr(1,2)] by (simp add: s2)
  have up2: "upper_ok 3 s2 r vb w = upper_ok 3 s r vb w" if "r \<in> R" for r vb w
    using data_write_upper [OF va(1) _ m that] upper_ok_cong [OF fr(1,2)] by (simp add: s2)
  have "vmm_pte_in s1 root a = Some leaf"
    by (rule pte_in_same [OF walk_to_cong pt_lookup_cong leaf]) (use fr in simp_all)
  then have leaf2: "vmm_pte_in s2 root a = Some leaf"
    unfolding s2 by (rule data_write_upper(2) [OF va(1) _ m root, rotated -1]) simp
  note pp = put_pte [OF vm2 root e'(1) leaf2 s']
  have lk: "pt_lookup s' r vb = (if r = root \<and> vb AND NOT 4095 = ?va then Some e' else pt_lookup s r vb)"
    if "r \<in> R" "vb < USER_TOP" for r vb
    using pp(7) [OF that a] lk2 [OF that(1)] by simp
  show at: "pt_lookup s' root a = Some e'" using lk [OF root a] by simp
  have refs2: "frame_refs s2 = frame_refs s1" unfolding s2 by (rule pmm_facts_cong) simp_all
  show refs: "frame_refs s' = (frame_refs s)(n := 1)" using pp(3) refs2 ct(2) by simp
  have mp: "mappings s' R g = (if g = n then insert (root, ?va) (mappings s R g) else mappings s R g - {(root, ?va)})"
    for g using mappings_remap [OF lk root page_floor_user(1,2) [OF a], of g] e'(2) by auto
  have new: "mappings s R n = {}" using d(3) n0 by (auto simp: mappings_def)
  have nf: "n \<noteq> ?f" using n0 fF by blast
  show "mappings s' R ?f = mappings s R ?f - {(root, ?va)}" using mp nf by simp
  show "users_ok s' R (insert n F) (insert n P)"
    unfolding users_ok_def
  proof (intro conjI ballI allI impI)
    show "vm_ok s' R (insert n F)" "insert n P \<subseteq> insert n F" using pp(1) d(2) by auto
  next
    fix r vb x assume "r \<in> R" "vb < USER_TOP" "pt_lookup s' r vb = Some x"
    then show "vmm_pte_address x \<in> insert n F" using lk d(3) e'(2) by (auto split: if_splits)
  next
    fix g assume "g \<in> insert n P"
    then show "card (mappings s' R g) \<le> frame_refs s' g"
      using new d(4) card_Diff1_le [of "mappings s R g" "(root, ?va)"] unfolding mp refs
      by (cases "g = n") (auto intro: order_trans)
  next
    fix r vb x assume h: "r \<in> R" "vb < USER_TOP"
      "pt_lookup s' r vb = Some x \<and> has x PTE_WRITE \<and> vmm_pte_address x \<in> insert n P"
    show "mappings s' R (vmm_pte_address x) = {(r, vb AND NOT 4095)}"
    proof (cases "r = root \<and> vb AND NOT 4095 = ?va")
      case True
      then have "x = e'" using lk [OF h(1,2)] h(3) by simp
      then show ?thesis using True new e'(2) by (simp add: mp)
    next
      case False
      then have x: "pt_lookup s r vb = Some x" using lk [OF h(1,2)] h(3) by auto
      then have "vmm_pte_address x \<in> F" by (rule d(3) [OF h(1,2)])
      then have "vmm_pte_address x \<noteq> n" using n0 by blast
      then show ?thesis using d(5) [OF h(1,2) x] h(3) False by (auto simp: mp)
    qed
  qed
  show "machine.more s' = machine.more s" using pp(5) more_alloc [of s] al by (simp add: s2)
  have in_mem: "addr_page n < total_pages s1" using ct(3) fr(5) by simp
  have "user_kept R (insert n F - {n}) s1 s2" unfolding s2 by (rule data_write_kept [OF va(1) _ in_mem m]) auto
  then have k2: "mem_frame F s1 s2" using user_keptD(1) n0 by fastforce
  have k3: "mem_frame F s2 s'" by (rule mem_frame_mono [OF pp(2)]) blast
  have k: "mem_frame F s s'" by (rule mem_frame_trans [OF mem_frame_trans [OF frame_alloc [OF al] k2] k3])
  have page: "user_byte s' root vb = user_byte s root vb" if vb: "vb < USER_TOP" "vb AND NOT 4095 = ?va" for vb
  proof -
    let ?o = "vb AND 4095"
    have old: "pt_lookup s root vb = Some e"
      by (rule trans [OF trans [OF page_floor_user(4) [OF vb(1), symmetric] _] look])
        (unfold vb(2), rule page_floor_user(4) [OF a])
    have al4: "?f AND 4095 = 0" "n AND 4095 = 0" "?h AND 4095 = 0"
      using vm2 fF ct(3) d(1) by (auto simp: vm_ok_def data_frames_def pt_inv_def)
    have dj: "ranges_disjoint (n + ?h) 4096 (?f + ?h) 4096"
      using in_page_unique [OF page_add_aligned [OF al4(2,3)] page_add_aligned [OF al4(1,3)]] nf
      by (auto simp: ranges_disjoint_def in_page_def)
    have "in_frames (insert n F) s2 (n + hhdm_offset s2 + ?o)" using offset_in_page by (auto simp: in_frames_def)
    then have "mem s' (n + hhdm_offset s2 + ?o) = mem s2 (n + hhdm_offset s2 + ?o)"
      using pp(2) unfolding mem_frame_def by blast
    moreover have "hhdm_offset s2 = ?h" by (simp add: s2 fr(2))
    moreover have "mem s2 (n + ?h + ?o) = mem s (?f + ?h + ?o)"
    proof -
      have "mem s2 = memcpy (mem s) (n + ?h) (?f + ?h) 4096" by (simp add: s2 fr)
      then have "mem s2 (n + ?h + ?o) = mem s (?f + ?h + (n + ?h + ?o - (n + ?h)))"
        unfolding memcpy_disjoint [OF dj] using offset_in_page [of "n + ?h" vb] by (simp add: in_page_def)
      then show ?thesis by simp
    qed
    ultimately show ?thesis
      using lk [OF root vb(1)] vb(2) old e'(2) pp(2) by (simp add: user_byte_def mem_frame_def)
  qed
  have "user_byte s' r vb = user_byte s r vb" if h: "r \<in> R" "vb < USER_TOP" for r vb
  proof (cases "r = root \<and> vb AND NOT 4095 = ?va")
    case True
    then show ?thesis using page h by simp
  next
    case False
    then have "pt_lookup s' r vb = pt_lookup s r vb" using lk [OF h] by auto
    then show ?thesis by (rule user_byte_kept [OF k]) (rule d(3) [OF h])
  qed
  moreover have "hhdm_offset s' = ?h" using k by (simp add: mem_frame_def)
  moreover have "kernel_pml4 s' = kernel_pml4 s" using pp(4) fr(3) by (simp add: s2)
  moreover have "upper_ok 3 s' r vb w = upper_ok 3 s r vb w" if "r \<in> R" for r vb w
    using pp(6) [OF that] up2 [OF that] by simp
  moreover have "cr3 s' = cr3 s" using cr3_alloc [OF al] by (simp add: s' s2)
  ultimately show "unseen R root ?va s s'" using lk unfolding unseen_def by auto
qed

section \<open>Resolving a fault\<close>

definition current_owner :: "u32 \<Rightarrow> 'a sched_state_scheme \<Rightarrow> u64" where
  "current_owner c s = task_memory_owner (task_find_by_pid (get_current_pid c s) s) s"

text \<open>
  The running process: its frames are private ones, and its pages that wait for a copy are on record.
\<close>

definition process_ok :: "u32 \<Rightarrow> 'a sched_state_scheme \<Rightarrow> u64 set \<Rightarrow> u64 set \<Rightarrow> u64 set \<Rightarrow> bool" where
  "process_ok c s R F P \<longleftrightarrow>
     (let t = current_owner c s; x = tasks s t
      in users_ok s R F P \<and> t \<noteq> 0 \<and> t_pml4 x \<in> R \<and> set (user_pages x) \<subseteq> P \<and>
         (\<forall>va < USER_TOP. \<forall>e. pt_lookup s (t_pml4 x) va = Some e \<and> has e PTE_USER \<and> has e PTE_COW \<and>
            \<not> has e PTE_WRITE \<longrightarrow> private_index x (va AND NOT 4095) (vmm_pte_address e) \<noteq> None))"

text \<open>The process runs on the CPU: its tables are loaded.\<close>

definition runs :: "u32 \<Rightarrow> 'a sched_state_scheme \<Rightarrow> u64 \<Rightarrow> bool" where
  "runs c s root \<longleftrightarrow> root = t_pml4 (tasks s (current_owner c s)) \<and> task_get_current_pml4 c s = root \<and>
     table_at s (cr3 s) = root"

lemma process_okD:
  assumes "process_ok c s R F P"
  shows "users_ok s R F P" and "current_owner c s \<noteq> 0" and "t_pml4 (tasks s (current_owner c s)) \<in> R"
    and "set (user_pages (tasks s (current_owner c s))) \<subseteq> P"
    and "va < USER_TOP \<Longrightarrow> pt_lookup s (t_pml4 (tasks s (current_owner c s))) va = Some e \<Longrightarrow> has e PTE_USER \<Longrightarrow>
      has e PTE_COW \<Longrightarrow> \<not> has e PTE_WRITE \<Longrightarrow>
      private_index (tasks s (current_owner c s)) (va AND NOT 4095) (vmm_pte_address e) \<noteq> None"
  using assms unfolding process_ok_def Let_def by blast+

lemma private_index_Some:
  assumes "private_index x va f = Some k"
  shows "k < length (user_pages x)" and "user_pages x ! k = f" and "f \<in> set (user_pages x)"
    and "k < length (user_vaddrs x)" and "user_vaddrs x ! k = va"
proof -
  have "k < length (zip (user_vaddrs x) (user_pages x))" "zip (user_vaddrs x) (user_pages x) ! k = (va, f)"
    using assms unfolding private_index_def find_idx_Some_iff by (auto split: prod.splits)
  then show k: "k < length (user_pages x)" "user_pages x ! k = f" "k < length (user_vaddrs x)"
    "user_vaddrs x ! k = va" by auto
  then show "f \<in> set (user_pages x)" using nth_mem by blast
qed

text \<open>The record of one page changes; those of the others stay.\<close>

lemma private_index_update:
  assumes "private_index x va f = Some k" and "private_index x vb g \<noteq> None" and "vb \<noteq> va"
  shows "private_index (x\<lparr>user_pages := (user_pages x)[k := n]\<rparr>) vb g \<noteq> None"
proof -
  obtain j where j: "private_index x vb g = Some j" using assms(2) by auto
  note k = private_index_Some [OF assms(1)] and j = private_index_Some [OF j]
  have "j \<noteq> k" using k(5) j(5) assms(3) by auto
  then have "(vb, g) \<in> set (zip (user_vaddrs x) ((user_pages x)[k := n]))"
    using j by (auto simp: in_set_zip intro!: exI [of _ j])
  then show ?thesis by (auto simp: private_index_def find_idx_None_iff)
qed

text \<open>What decides about the running process stays when only records of pages change.\<close>

lemma current_owner_kept:
  assumes "machine.more s' = machine.more (upd_task t (\<lambda>x. x\<lparr>user_pages := f x\<rparr>) s)"
  shows "current_owner c s' = current_owner c s" and "tasks s' = (tasks s)(t := (tasks s t)\<lparr>user_pages := f (tasks s t)\<rparr>)"
    and "task_get_current_pml4 c s' = task_get_current_pml4 c s"
proof -
  have e: "tasks s' = (tasks s)(t := (tasks s t)\<lparr>user_pages := f (tasks s t)\<rparr>)" "task_list s' = task_list s"
    "cpus s' = cpus s"
    using assms by (cases s; cases s'; simp add: upd_task_def)+
  show "tasks s' = (tasks s)(t := (tasks s t)\<lparr>user_pages := f (tasks s t)\<rparr>)" by (rule e(1))
  have c: "current_task c s' = current_task c s" by (simp add: current_task_def percpu_get_def e)
  have p: "pid (tasks s' u) = pid (tasks s u)" "tgid (tasks s' u) = tgid (tasks s u)"
    "is_thread (tasks s' u) = is_thread (tasks s u)" "t_pml4 (tasks s' u) = t_pml4 (tasks s u)" for u
    by (simp_all add: e)
  have fp: "task_find_by_pid q s' = task_find_by_pid q s" for q by (simp only: task_find_by_pid_def p e(2))
  show "current_owner c s' = current_owner c s"
    by (simp add: current_owner_def get_current_pid_def task_memory_owner_def c p fp)
  show "task_get_current_pml4 c s' = task_get_current_pml4 c s"
    by (simp add: task_get_current_pml4_def c p)
qed

lemma process_ok_step:
  assumes po: "process_ok c s R F P" and u: "users_ok s' R F' P'" and P: "P \<subseteq> P'"
    and more: "machine.more s' =
      machine.more (upd_task (current_owner c s) (\<lambda>x. x\<lparr>user_pages := (user_pages x)[k := n]\<rparr>) s)"
    and k: "private_index (tasks s (current_owner c s)) va f = Some k" and n: "n \<in> P'"
    and un: "unseen R (t_pml4 (tasks s (current_owner c s))) va s s'"
    and look: "pt_lookup s' (t_pml4 (tasks s (current_owner c s))) va = Some e" "has e PTE_WRITE"
    and va: "va < USER_TOP"
  shows "process_ok c s' R F' P'"
proof -
  let ?t = "current_owner c s"
  note d = process_okD [OF po] and ck = current_owner_kept [OF more]
  have x: "tasks s' (current_owner c s') = (tasks s ?t)\<lparr>user_pages := (user_pages (tasks s ?t))[k := n]\<rparr>"
    by (simp add: ck(1,2))
  have pages: "set (user_pages (tasks s' (current_owner c s'))) \<subseteq> P'"
    using d(4) P n set_update_subset_insert [of "user_pages (tasks s ?t)" k n] by (auto simp: x)
  have "private_index (tasks s' (current_owner c s')) (vb AND NOT 4095) (vmm_pte_address y) \<noteq> None"
    if h: "vb < USER_TOP" "pt_lookup s' (t_pml4 (tasks s ?t)) vb = Some y" "has y PTE_USER" "has y PTE_COW"
      "\<not> has y PTE_WRITE" for vb y
  proof -
    have ne: "vb AND NOT 4095 \<noteq> va"
    proof
      assume eq: "vb AND NOT 4095 = va"
      have "pt_lookup s' (t_pml4 (tasks s ?t)) va = Some y"
        using page_floor_user(4) [OF h(1), of s' "t_pml4 (tasks s ?t)"] h(2) by (simp only: eq)
      then show False using look h(5) by simp
    qed
    then have "pt_lookup s (t_pml4 (tasks s ?t)) vb = Some y"
      using un d(3) h(1,2) unfolding unseen_def by metis
    then show ?thesis unfolding x by (rule private_index_update [OF k d(5) [OF h(1) _ h(3-5)] ne])
  qed
  then show ?thesis using u d(2,3) pages x by (simp add: process_ok_def Let_def ck(1))
qed

lemma process_ok_same:
  assumes "same_machine s s'" and "machine.more s' = machine.more s"
  shows "process_ok c s' R F P = process_ok c s R F P"
proof -
  have "machine.more s' = machine.more (upd_task 0 (\<lambda>x. x\<lparr>user_pages := user_pages x\<rparr>) s)"
    using assms(2) by (simp add: upd_task_def)
  note ck = current_owner_kept [OF this]
  have "tasks s' = tasks s" by (simp add: ck(2))
  then show ?thesis
    by (simp add: process_ok_def Let_def ck(1) users_ok_same [OF assms(1)] same_machine_facts(4) [OF assms(1)])
qed

lemma frame_address [simp]: "vmm_pte_address e AND NOT PTE_ADDR_MASK = 0"
  by (simp add: vmm_pte_address_def and.assoc)

text \<open>
  The faults that must be resolved: a write (from either ring) to a present page, at a user address whose
  entry is a user's and either writable already or waiting for its copy, with the frame its own or a page
  free to copy it to.
\<close>

definition write_resolvable :: "'a sched_state_scheme \<Rightarrow> u64 \<Rightarrow> u64 \<Rightarrow> u64 \<Rightarrow> bool" where
  "write_resolvable s root err a \<longleftrightarrow> err AND NOT 4 = 3 \<and> a < USER_TOP \<and>
     (case pt_lookup s root a of None \<Rightarrow> False
      | Some e \<Rightarrow> has e PTE_USER \<and> (has e PTE_WRITE \<or>
          has e PTE_COW \<and> (frame_refs s (vmm_pte_address e) = 1 \<or> free_pages s \<noteq> 0)))"

lemma cow_resolve_spec:
  fixes s :: "'a sched_state_scheme"
  assumes po: "process_ok c s R F P" and step: "cow_resolve c a err s = (s', ok)"
  defines "t \<equiv> current_owner c s"
  defines "root \<equiv> t_pml4 (tasks s t)"
  shows "(\<not> ok \<longrightarrow> s' = s) \<and> (ok \<longleftrightarrow> write_resolvable s root err a) \<and>
    (ok \<longrightarrow> (\<exists>N f. process_ok c s' R (F \<union> N) (P \<union> N) \<and> (\<forall>x \<in> N. frame_refs s x = 0) \<and>
      unseen R root (a AND NOT 4095) s s' \<and> a < USER_TOP \<and>
      (\<exists>e. pt_lookup s' root a = Some e \<and> has e PTE_USER \<and> has e PTE_WRITE \<and>
        (\<forall>e0. pt_lookup s root a = Some e0 \<longrightarrow> vmm_pte_address e = vmm_pte_address e0 \<or> vmm_pte_address e \<in> N)) \<and>
      machine.more s' = machine.more (upd_task t (\<lambda>x. x\<lparr>user_pages := f x\<rparr>) s)))"
proof (cases "err AND NOT 4 = 3 \<and> a < USER_TOP")
  case False
  then show ?thesis using step by (auto simp: cow_resolve_def write_resolvable_def split: if_splits)
next
  case args: True
  note d = process_okD [OF po, folded t_def, folded root_def]
  note ud = users_okD [OF d(1)]
  define va where "va = a AND NOT (PAGE_BYTES - 1)"
  have va': "va = a AND NOT 4095" by (simp add: va_def)
  note fl = page_floor_user(1,2) [of a, folded va'] page_floor_user(4) [of a s, folded va']
  have va: "va < USER_TOP" "va AND 4095 = 0" and look: "pt_lookup s root a = pt_lookup s root va"
    using fl args by simp_all
  have floor': "pt_lookup s' root a = pt_lookup s' root va"
    using page_floor_user(4) [of a s' root] args by (simp add: va')
  have fva: "va AND NOT 4095 = va" by (rule page_floor_id [OF va(2)])
  have root0: "root \<noteq> 0" using ud(1) d(3) pt_invD(2) unfolding vm_ok_def by metis
  have own: "task_memory_owner (task_find_by_pid (get_current_pid c s) s) s = t"
    by (simp add: t_def current_owner_def)
  have g: "(err AND NOT 4 \<noteq> 3 \<or> a \<ge> USER_TOP) = False" "(t = 0 \<or> root = 0) = False"
    using args d(2) root0 by auto
  note code = step [unfolded cow_resolve_def own Let_def flag_tests(2,3), folded va_def, folded root_def,
      unfolded g if_False]
  have id: "machine.more (tlb_shootdown root va s) = machine.more (upd_task t (\<lambda>x. x\<lparr>user_pages := user_pages x\<rparr>) s)"
    by (simp add: upd_task_def frame_simps)
  show ?thesis
  proof (cases "vmm_pte_in s root va")
    case None
    then have "pt_lookup s root va = None" by (simp add: pt_lookup_pte)
    then have "pt_lookup s root a = None" by (simp add: look)
    then show ?thesis using code [unfolded None option.case] by (auto simp: write_resolvable_def)
  next
    case (Some p)
    define e0 where "e0 = get64 s p"
    have e0: "pt_lookup s root va = Some e0" using Some by (simp add: pt_lookup_pte e0_def)
    then have pres: "has e0 PTE_PRESENT"
      by (auto simp: pt_lookup_def lookup_from_def leaf_entry_def Let_def split: if_splits option.splits bind_splits)
    note code = code [unfolded Some option.case, folded e0_def]
    have wr: "write_resolvable s root err a \<longleftrightarrow> has e0 PTE_USER \<and> (has e0 PTE_WRITE \<or>
        has e0 PTE_COW \<and> (frame_refs s (vmm_pte_address e0) = 1 \<or> free_pages s \<noteq> 0))"
      using args by (simp add: write_resolvable_def look e0)
    consider (writable) "has e0 PTE_USER" "has e0 PTE_WRITE" | (refused) "\<not> has e0 PTE_USER \<or> \<not> has e0 PTE_COW \<and> \<not> has e0 PTE_WRITE"
      | (cow) "has e0 PTE_USER" "has e0 PTE_COW" "\<not> has e0 PTE_WRITE" by blast
    then show ?thesis
    proof cases
      case writable
      then have s': "s' = tlb_shootdown root va s" "ok" using code by auto
      have sm: "same_machine s s'" and c0: "cr3 s' = cr3 s" by (simp_all add: s' same_machine_def)
      have "machine.more s' = machine.more s" by (simp add: s' frame_simps)
      then have "process_ok c s' R F P" using process_ok_same [OF sm] po by blast
      moreover have "pt_lookup s' root a = Some e0" using e0 look by (simp add: s')
      ultimately show ?thesis
        using s'(2) unseen_same_machine [OF sm c0] writable args id e0 look unfolding wr
        by (intro conjI impI exI [of _ "{}"] exI [of _ user_pages]) (auto simp: s'(1))
    next
      case refused
      then have "s' = s" "\<not> ok" "\<not> write_resolvable s root err a" using code unfolding wr by (auto split: if_splits)
      then show ?thesis by simp
    next
      case cow
      let ?f = "vmm_pte_address e0" and ?fl = "((e0 AND PTE_FLAG_MASK) AND NOT PTE_COW) OR PTE_WRITE"
      obtain k where k: "private_index (tasks s t) va ?f = Some k"
        using d(5) [of va e0] va fva e0 cow by auto
      have priv: "?f \<in> P" using private_index_Some(3) [OF k] d(4) by blast
      have "(root, va) \<in> mappings s R ?f" using in_mappings [OF d(3) va(1) e0] fva by simp
      then have "0 < card (mappings s R ?f)" by (auto simp: card_gt_0_iff)
      then have refs: "0 < frame_refs s ?f" "card (mappings s R ?f) \<le> frame_refs s ?f" using ud(4) [OF priv] by simp_all
      then have r0: "pmm_get_refcount s ?f \<noteq> 0" by (auto simp: frame_refs_def)
      note code = code [unfolded k option.case]
      show ?thesis
      proof (cases "pmm_get_refcount s ?f = 1")
        case True
        note en = resolved_entry [OF frame_address [of e0] pres cow(1)]
        define s1 where "s1 = put64 p (?f OR ?fl) s"
        have s': "s' = tlb_shootdown root va s1" "ok" using code cow True by (auto simp: s1_def)
        have one: "frame_refs s ?f = 1" using True by (simp add: frame_refs_def)
        note gw = grant_write [OF d(1,3) va(1) e0 one priv Some en(2,1) s1_def, unfolded fva]
        have sm: "same_machine s1 s'" and c1: "cr3 s' = cr3 s1" by (simp_all add: s' same_machine_def)
        have un: "unseen R root va s s'" by (rule unseen_trans [OF gw(2) unseen_same_machine [OF sm c1]])
        have same: "upd_task t (\<lambda>x. x\<lparr>user_pages := (user_pages x)[k := ?f]\<rparr>) s = s"
          using private_index_Some(2) [OF k] list_update_id [of "user_pages (tasks s t)" k] by (simp add: upd_task_def)
        have more: "machine.more s' = machine.more (upd_task t (\<lambda>x. x\<lparr>user_pages := (user_pages x)[k := ?f]\<rparr>) s)"
          unfolding same by (simp add: s' s1_def frame_simps)
        have u: "users_ok s' R F P" using users_ok_same [OF sm] gw(1) by blast
        have at: "pt_lookup s' root va = Some (?f OR ?fl)" using gw(3) by (simp add: s')
        have "process_ok c s' R F P"
          by (rule process_ok_step [OF po u order_refl more [unfolded t_def] k [unfolded t_def] priv
              un [unfolded root_def t_def] at [unfolded root_def t_def] en(4) va(1)])
        moreover have "\<exists>e. pt_lookup s' root a = Some e \<and> has e PTE_USER \<and> has e PTE_WRITE \<and>
            (\<forall>e0. pt_lookup s root a = Some e0 \<longrightarrow> vmm_pte_address e = vmm_pte_address e0 \<or> vmm_pte_address e \<in> {})"
          using at en(1,3,4) floor' look e0 by auto
        ultimately show ?thesis using s'(2) un args more va' cow one unfolding wr
          by (intro conjI impI exI [of _ "{}"] exI [of _ "\<lambda>x. (user_pages x)[k := ?f]"]) simp_all
      next
        case False
        then have notone: "frame_refs s ?f \<noteq> 1" by (simp add: frame_refs_def word_unat_eq_iff)
        obtain s1 n where al: "pmm_alloc_page s = (s1, n)" by fastforce
        note ac = pmm_alloc_contract [OF vm_ok_pmm [OF ud(1)] al]
        show ?thesis
        proof (cases "n = 0")
          case True
          then have "s1 = s" "free_pages s = 0" using ac(4,5) by blast+
          then have "s' = s" "\<not> ok" "\<not> write_resolvable s root err a"
            using code cow r0 False al True notone unfolding wr by auto
          then show ?thesis by simp
        next
          case n: False
          then have free: "free_pages s \<noteq> 0" using ac(4,5) by blast
          define s2 where "s2 = s1\<lparr>mem := memcpy (mem s1) (n + hhdm_offset s1) (?f + hhdm_offset s1) 4096\<rparr>"
          define s3 where "s3 = put64 p (n OR ?fl) s2"
          define s4 where "s4 = tlb_shootdown root va (upd_task t (\<lambda>x. x\<lparr>user_pages := (user_pages x)[k := n]\<rparr>) s3)"
          have s': "s' = pmm_free_page s4 ?f" "ok"
            using code cow r0 False al n by (auto simp: s4_def s3_def s2_def)
          have "0 < frame_refs s1 n" using ac(3) n by simp
          note en = resolved_entry [OF live_frame_word [OF ac(1) this] pres cow(1)]
          note mv = move_page [OF d(1,3) va(1) e0 priv al n s2_def Some en(2,1) s3_def, unfolded fva]
          have sm: "same_machine s3 s4" and c3: "cr3 s4 = cr3 s3" by (simp_all add: s4_def same_machine_def upd_task_def)
          have "card (mappings s3 R ?f) < frame_refs s ?f"
            using refs \<open>(root, va) \<in> mappings s R ?f\<close> unfolding mv(5) by (simp add: card_Diff_singleton)
          moreover have "?f \<noteq> n" using mv(6) priv ud(2) by blast
          moreover have "1 < frame_refs s ?f" using refs(1) notone by simp
          moreover have "mappings s4 R ?f = mappings s3 R ?f"
            by (simp add: mappings_def same_machine_facts(4) [OF sm])
          moreover have "frame_refs s4 ?f = frame_refs s3 ?f" using same_machine_facts(2) [OF sm] by simp
          ultimately have dr: "card (mappings s4 R ?f) < frame_refs s4 ?f" "1 < frame_refs s4 ?f"
            using mv(4) by simp_all
          have u4: "users_ok s4 R (insert n F) (insert n P)" using users_ok_same [OF sm] mv(1) by blast
          note dp = drop_reference [OF u4 insertI2 [OF priv] dr s'(1)]
          have un: "unseen R root va s s'"
            by (rule unseen_trans [OF unseen_trans [OF mv(2) unseen_same_machine [OF sm c3]] dp(2)])
          have more: "machine.more s' = machine.more (upd_task t (\<lambda>x. x\<lparr>user_pages := (user_pages x)[k := n]\<rparr>) s)"
          proof -
            have "machine.more (pmm_free_page s4 ?f) = machine.more s4" using more_frees [of s4 "[?f]"] by simp
            then show ?thesis using mv(8) unfolding s'(1) s4_def
              by (cases s; cases s3) (simp add: upd_task_def frame_simps tlb_shootdown_def)
          qed
          have at: "pt_lookup s' root va = Some (n OR ?fl)"
            using mv(3) same_machine_facts(4) [OF sm] dp(4) by simp
          have "process_ok c s' R (insert n F) (insert n P)"
            by (rule process_ok_step [OF po dp(1) subset_insertI more [unfolded t_def] k [unfolded t_def] insertI1
                un [unfolded root_def t_def] at [unfolded root_def t_def] en(4) va(1)])
          moreover have "\<exists>e. pt_lookup s' root a = Some e \<and> has e PTE_USER \<and> has e PTE_WRITE \<and>
            (\<forall>e0. pt_lookup s root a = Some e0 \<longrightarrow> vmm_pte_address e = vmm_pte_address e0 \<or> vmm_pte_address e \<in> {n})"
            using at en(1,3,4) floor' by auto
          ultimately show ?thesis using s'(2) un args more mv(7) va' cow free unfolding wr
            by (intro conjI impI exI [of _ "{n}"] exI [of _ "\<lambda>x. (user_pages x)[k := n]"]) simp_all
        qed
      qed
    qed
  qed
qed

text \<open>
  C12: resolving a write fault never changes what any process reads at any user address, keeps the
  invariant on shared frames, and takes at most fresh frames. It succeeds exactly when it must: the fault
  is a write to a present page at a user address, the entry is a user's, and it is writable already, or
  waits for its copy while the frame is its own or a page is free. Then the page is writable; otherwise
  nothing changes.
\<close>

theorem cow_resolve_correct:
  fixes s :: "'a sched_state_scheme"
  assumes "process_ok c s R F P" and "cow_resolve c a err s = (s', ok)"
  defines "root \<equiv> t_pml4 (tasks s (current_owner c s))"
  shows "(ok \<longleftrightarrow> err AND NOT 4 = 3 \<and> a < USER_TOP \<and>
      (\<exists>e. pt_lookup s root a = Some e \<and> has e PTE_USER \<and> (has e PTE_WRITE \<or>
        has e PTE_COW \<and> (frame_refs s (vmm_pte_address e) = 1 \<or> free_pages s \<noteq> 0)))) \<and>
    (\<exists>N. process_ok c s' R (F \<union> N) (P \<union> N) \<and> (\<forall>x \<in> N. frame_refs s x = 0) \<and>
      (\<forall>r \<in> R. \<forall>va < USER_TOP. user_byte s' r va = user_byte s r va) \<and>
      (if ok then \<exists>e. pt_lookup s' root a = Some e \<and> has e PTE_USER \<and> has e PTE_WRITE else s' = s))"
proof -
  note spec = cow_resolve_spec [OF assms(1,2), folded root_def]
  have "ok \<longleftrightarrow> err AND NOT 4 = 3 \<and> a < USER_TOP \<and>
      (\<exists>e. pt_lookup s root a = Some e \<and> has e PTE_USER \<and> (has e PTE_WRITE \<or>
        has e PTE_COW \<and> (frame_refs s (vmm_pte_address e) = 1 \<or> free_pages s \<noteq> 0)))"
    using spec by (simp add: write_resolvable_def split: option.split)
  moreover have "\<exists>N. process_ok c s' R (F \<union> N) (P \<union> N) \<and> (\<forall>x \<in> N. frame_refs s x = 0) \<and>
      (\<forall>r \<in> R. \<forall>va < USER_TOP. user_byte s' r va = user_byte s r va) \<and>
      (if ok then \<exists>e. pt_lookup s' root a = Some e \<and> has e PTE_USER \<and> has e PTE_WRITE else s' = s)"
  proof (cases ok)
    case True
    from spec True obtain N e where
      "process_ok c s' R (F \<union> N) (P \<union> N)" "\<forall>x \<in> N. frame_refs s x = 0" "unseen R root (a AND NOT 4095) s s'"
      "pt_lookup s' root a = Some e" "has e PTE_USER" "has e PTE_WRITE" by blast
    then show ?thesis using True unfolding unseen_def by (intro exI [of _ N]) auto
  next
    case False
    then have "s' = s" using spec by blast
    then show ?thesis using assms(1) False by (intro exI [of _ "{}"]) auto
  qed
  ultimately show ?thesis by blast
qed

section \<open>A small process with one page\<close>

lemma link_flags: "has (f OR PTE_PRESENT OR PTE_WRITE OR PTE_USER) PTE_USER" "has (f OR PTE_PRESENT OR PTE_WRITE OR PTE_USER) PTE_WRITE"
  unfolding has_bit bit_or_iff by simp_all

text \<open>The walk of a mapping that a user program may write leads through entries that let it.\<close>

lemma map_walk_upper:
  assumes "pmm_inv s" and "pt_inv s \<rho>" and "\<rho> table = Some (l, sp, pre)"
    and "map_walk l va flags s table created = (s', created', Some T)" and "has flags PTE_USER" "has flags PTE_WRITE"
  shows "upper_ok l s' table va True"
  using assms
proof (induction l arbitrary: s \<rho> table sp pre created)
  case 0
  then show ?case by simp
next
  case (Suc l)
  let ?i = "index_at va (Suc l)"
  let ?slot = "slot_at table ?i"
  let ?e = "get64 s ?slot"
  have step: ?case
    if r: "\<rho>1 table = Some (Suc l, sp, pre)" "pmm_inv s1" "pt_inv s1 \<rho>1" "\<rho>1 (table_at s1 e) = Some (l, sp1, pre1)"
      and w: "map_walk l va flags s1 (table_at s1 e) cr = (s', created', Some T)"
      and e: "get64 s1 ?slot = e" "links e" "has e PTE_USER" "has e PTE_WRITE" for \<rho>1 s1 e sp1 pre1 cr
  proof -
    from map_walk_spec [OF r(2,3,4) w] obtain new where g: "grown \<rho>1 s1 s' new" by blast
    have "get64 s' ?slot = e"
      using grown_entries [OF g domI [of \<rho>1, OF r(1)], of ?i] e by (simp add: links_def split: if_splits)
    moreover have "table_at s' e = table_at s1 e" using g by (simp add: grown_def table_at_def)
    moreover have "upper_ok l s' (table_at s1 e) va True" by (rule Suc.IH [OF r(2-4) w Suc.prems(5,6)])
    ultimately show ?thesis using e by (simp add: Let_def)
  qed
  show ?case
  proof (cases "has ?e PTE_PRESENT")
    case present: True
    then have nb: "\<not> ancestor_blocks ?e flags" and rest: "map_walk l va flags s (table_at s ?e) created = (s', created', Some T)"
      using Suc.prems(4) by (simp_all add: Let_def split: if_splits)
    have e: "links ?e" "has ?e PTE_USER" "has ?e PTE_WRITE"
      using nb present Suc.prems(5,6) by (auto simp: ancestor_blocks_def links_def)
    have "\<rho> (table_at s ?e) = Some (child_role (Suc l, sp, pre) ?i (table_at s ?e))"
      using pt_invD(6) [OF Suc.prems(2,3), of ?i] e(1) by simp
    then obtain sp1 pre1 where "\<rho> (table_at s ?e) = Some (l, sp1, pre1)" using child_role_level by metis
    from step [OF Suc.prems(3,1,2) this rest refl e] show ?thesis .
  next
    case absent: False
    obtain s1 f where al: "pmm_alloc_page s = (s1, f)" by fastforce
    have f: "f \<noteq> 0" using Suc.prems(4) absent al by (auto simp: Let_def)
    define N where "N = table_at s1 f"
    define e where "e = f OR PTE_PRESENT OR PTE_WRITE OR PTE_USER"
    define s2 where "s2 = put64 ?slot e (zero_table N s1)"
    define \<rho>1 where "\<rho>1 = \<rho>(N \<mapsto> child_role (Suc l, sp, pre) ?i N)"
    note add = add_table [OF Suc.prems(1,2,3) _ absent al f N_def e_def s2_def \<rho>1_def, simplified]
    have rest: "map_walk l va flags s2 N (?slot # created) = (s', created', Some T)"
      using Suc.prems(4) absent al f add(6) unfolding s2_def e_def by (simp add: Let_def N_def [symmetric])
    obtain sp1 pre1 where role: "\<rho>1 N = Some (l, sp1, pre1)"
      unfolding \<rho>1_def using child_role_level by (metis fun_upd_same)
    have "table \<noteq> N" using Suc.prems(3) add(3) by auto
    then have "\<rho>1 table = Some (Suc l, sp, pre)" using Suc.prems(3) by (simp add: \<rho>1_def)
    from step [OF this add(1,2) role [folded add(6)] rest [folded add(6)] add(5,7) link_flags [of f, folded e_def]]
    show ?thesis .
  qed
qed

lemma map_page_upper:
  assumes ok: "vm_ok s R F" and p: "pml4 \<in> R" and m: "map_page pml4 va phys flags flush s = (s', True)"
    and fl: "has flags PTE_USER" "has flags PTE_WRITE"
  shows "upper_ok 3 s' pml4 va True"
proof -
  obtain \<rho> where h: "pmm_inv s" "pt_inv s \<rho>" "\<forall>r \<in> R. \<rho> r = Some (3, r, 0)" using ok by (auto simp: vm_ok_def)
  have root: "\<rho> pml4 = Some (3, pml4, 0)" using h(3) p by blast
  obtain s1 created T where w: "map_walk 3 va flags s pml4 [] = (s1, created, Some T)"
    and s': "s' = (if flush then tlb_shootdown pml4 va (put64 (slot_at T (index_at va 0)) (phys OR flags) s1)
             else put64 (slot_at T (index_at va 0)) (phys OR flags) s1)"
    using m by (auto simp: map_page_def Let_def split: if_splits prod.splits option.splits)
  have up: "upper_ok 3 s1 pml4 va True" by (rule map_walk_upper [OF h(1,2) root w fl])
  from map_walk_spec [OF h(1,2) root w] obtain \<rho>' a b where
    r: "pt_inv s1 \<rho>'" "\<rho> \<subseteq>\<^sub>m \<rho>'" "\<rho>' T = Some (0, a, b)" by blast
  have root': "\<rho>' pml4 = Some (3, pml4, 0)" using r(2) root by (metis domI map_le_def)
  let ?s = "put64 (slot_at T (index_at va 0)) (phys OR flags) s1"
  have "same_upper \<rho>' s1 ?s"
    using r(3) pt_inv_dom(1) [OF r(1)] by (auto simp: same_upper_def get64_put64 slot_at_inj domI)
  then have "upper_ok 3 ?s pml4 va True" using upper_ok_same [OF _ r(1) root'] up by blast
  moreover have "upper_ok 3 (tlb_shootdown pml4 va ?s) pml4 va True = upper_ok 3 ?s pml4 va True"
    by (rule upper_ok_cong) simp_all
  ultimately show ?thesis by (simp add: s')
qed


text \<open>The process of the small machine runs and has one page at 4 MiB.\<close>

definition tiny_cpu :: percpu_data where
  "tiny_cpu = \<lparr>pc_cpu_id = 0, lapic_id = 0, kernel_stack_top = 0, tss_rsp0 = 0, current = 0x1000,
     retiring = 0, idle_task = 0, scheduler_online = True, switches = 0, live_fpu = []\<rparr>"

definition tiny_running :: shm_state where
  "tiny_running = (tiny_user tiny_process)\<lparr>cpus := [tiny_cpu]\<rparr>"

lemma tiny_running_owner:
  assumes "tasks s = (\<lambda>_. zero_task)(0x1000 := x)" and "task_list s = [0x1000]" and "cpus s = [tiny_cpu]"
    and "x = tiny_process\<lparr>user_pages := ps, user_vaddrs := vs\<rparr>"
  shows "current_owner 0 s = 0x1000" and "task_get_current_pml4 0 s = tiny_root" and "tasks s 0x1000 = x"
proof -
  note e = assms
  show "tasks s 0x1000 = x" by (simp add: e)
  have c: "current_task 0 s = 0x1000" by (simp add: current_task_def percpu_get_def cpu_slot_def e tiny_cpu_def)
  show "task_get_current_pml4 0 s = tiny_root" by (simp add: task_get_current_pml4_def c e)
  show "current_owner 0 s = 0x1000"
    by (simp add: current_owner_def get_current_pid_def c task_find_by_pid_def find_idx.simps task_memory_owner_def e)
qed

lemma cr3_walk: "map_walk l va flags s t created = (s', created', T) \<Longrightarrow> cr3 s' = cr3 s"
proof (induction l arbitrary: s t created)
  case 0
  then show ?case by simp
next
  case (Suc l)
  obtain s1 f where al: "pmm_alloc_page s = (s1, f)" by fastforce
  have z: "cr3 (zero_table N x) = cr3 x" for N and x :: "'a machine_scheme"
  proof -
    have "cr3 (fold (\<lambda>i. put64 (slot_at N i) 0) is x) = cr3 x" for "is"
      by (induction "is" arbitrary: x) simp_all
    then show ?thesis by (simp add: zero_table_def)
  qed
  show ?case
    using Suc.prems Suc.IH cr3_alloc [OF al] al z by (fastforce simp: Let_def split: if_splits)
qed

lemma cr3_map:
  assumes "map_page pml4 va phys flags flush s = (s', True)" shows "cr3 s' = cr3 s"
  using assms cr3_walk [of 3 va flags s pml4 "[]"]
  by (fastforce simp: map_page_def Let_def split: if_splits prod.splits option.splits)

lemma more_cpus:
  fixes s s' :: "'a sched_state_scheme"
  assumes "machine.more s' = machine.more s" shows "cpus s' = cpus s"
  using assms by (cases s; cases s'; simp)

lemma tiny_page:
  assumes fl: "fl = 7 \<or> fl = 0x205"
  obtains s :: shm_state and f where "process_ok 0 s {tiny_root} {f} {f}" and "runs 0 s tiny_root"
    and "pt_lookup s tiny_root 0x400000 = Some (f OR fl)" and "vmm_pte_address (f OR fl) = f"
    and "\<And>g. g AND NOT PTE_FLAG_MASK = 0 \<Longrightarrow> has (f OR fl) g = has fl g"
    and "fl = 7 \<Longrightarrow> upper_ok 3 s tiny_root 0x400000 True"
    and "t_pml4 (tasks s (current_owner 0 s)) = tiny_root"
proof -
  let ?s = "tiny_running" and ?va = "0x400000 :: u64"
  have sm: "same_machine (tiny_user tiny_process) ?s" by (simp add: same_machine_def tiny_running_def)
  have vm: "vm_ok ?s {tiny_root} {}" using same_machine_facts(1) [OF sm] tiny_user_vm by blast
  have s0: "mem ?s = (\<lambda>_. 0)" "free_pages ?s = 6" "hhdm_offset ?s = 0xFFFF800000000000" "cr3 ?s = 0x1000"
    by (simp_all add: tiny_running_def tiny_user_def tiny_heap_def tiny_machine_def)
  obtain s1 f where al: "pmm_alloc_page ?s = (s1, f)" by fastforce
  note ct = pmm_alloc_contract [OF vm_ok_pmm [OF vm] al]
  have f: "f \<noteq> 0" using ct(5) s0(2) by auto
  define s2 where "s2 = s1\<lparr>mem := memset (mem s1) (f + hhdm_offset s1) 0 4096\<rparr>"
  note np = new_page [OF vm al f s2_def]
  have fp: "unat (free_pages s2) = 5" using ct(7) f s0(2) by (simp add: s2_def)
  have m2: "mem s2 = (\<lambda>_. 0)" using pmm_alloc_page_frame(1) [OF al] s0(1) by (simp add: s2_def fun_eq_iff)
  have h2: "hhdm_offset s2 = 0xFFFF800000000000" using pmm_alloc_page_frame(2) [OF al] s0(3) by (simp add: s2_def)
  have refs: "frame_refs s2 f = 1" using np(3) ct(3) f by simp
  have word: "f AND NOT PTE_ADDR_MASK = 0" using live_frame_word [OF vm_ok_pmm [OF np(1)], of f] refs by simp
  have flw: "fl AND NOT PTE_FLAG_MASK = 0" using fl by auto
  note ep = entry_parts [OF word flw]
  have args: "map_page_args_ok tiny_root ?va f fl"
    using fl word by (auto simp: map_page_args_ok_def tiny_root_def canonical_def has_def)
  have "\<not> has (get64 s2 (slot_at tiny_root (index_at ?va 3))) PTE_PRESENT"
    by (simp add: get64_def m2 ld64_zero has_def)
  then have "snd (vmm_map_page_in tiny_root ?va f fl s2)"
    using map_page_room [OF np(1) _ args] fp by simp
  then obtain s3 where mp: "vmm_map_page_in tiny_root ?va f fl s2 = (s3, True)" by (metis prod.collapse)
  then have mp: "map_page tiny_root ?va f fl True s2 = (s3, True)" by (simp add: vmm_map_page_in_def)
  note mk = map_page_keeps [OF np(1) _ mp, simplified]
  have look: "pt_lookup s3 tiny_root ?va = Some (f OR fl)" by (rule mk(7))
  have none: "pt_lookup s2 tiny_root vb = None" if "vb < USER_TOP" for vb
    by (simp add: pt_lookup_def numeral_3_eq_3 lookup_from_Suc get64_def m2 ld64_zero links_def has_def)
  have other: "pt_lookup s3 tiny_root vb = None" if "vb < USER_TOP" "vb AND NOT 4095 \<noteq> ?va" for vb
    using mk(8) [of tiny_root vb] none that by simp
  define s where "s = upd_task 0x1000 (\<lambda>x. x\<lparr>user_pages := [f], user_vaddrs := [?va]\<rparr>) s3"
  have sms: "same_machine s3 s" by (simp add: s_def same_machine_def upd_task_def)
  have more3: "machine.more s3 = machine.more ?s"
    using more_map [of tiny_root ?va f fl True s2] mp np(5) by simp
  have x: "tasks s = (\<lambda>_. zero_task)(0x1000 := tiny_process\<lparr>user_pages := [f], user_vaddrs := [?va]\<rparr>)"
    "task_list s = [0x1000]" "cpus s = [tiny_cpu]"
    using more_fields [OF more3] more_cpus [OF more3] by (simp_all add: s_def upd_task_def tiny_running_def tiny_user_def)
  note own = tiny_running_owner [OF x refl]
  have lk: "pt_lookup s tiny_root vb = (if vb AND NOT 4095 = ?va then Some (f OR fl) else None)" if "vb < USER_TOP" for vb
  proof -
    have "pt_lookup s tiny_root vb = pt_lookup s3 tiny_root vb" using same_machine_facts(4) [OF sms] by simp
    moreover have "pt_lookup s3 tiny_root vb = pt_lookup s3 tiny_root (vb AND NOT 4095)"
      by (rule page_floor_user(4) [OF that, symmetric])
    ultimately show ?thesis using look other [OF that] by auto
  qed
  have "vm_ok s {tiny_root} {f}" using mk(1) same_machine_facts(1) [OF sms] by simp
  moreover have mp1: "mappings s {tiny_root} g = (if g = f then {(tiny_root, ?va)} else {})" for g
  proof -
    have "(r, vb) \<in> mappings s {tiny_root} g \<longleftrightarrow> g = f \<and> r = tiny_root \<and> vb = ?va" for r vb
      using lk [of vb] lk [of ?va] page_floor_id [of vb] ep by (auto simp: mappings_def split: if_splits)
    then show ?thesis by auto
  qed
  moreover have "frame_refs s f = 1"
  proof -
    have "frame_busy s2 f" using frame_refs_busy [OF vm_ok_pmm [OF np(1)]] refs by simp
    then have "frame_refs s3 f = 1" using mk(12) refs by simp
    then show ?thesis using same_machine_facts(2) [OF sms] by simp
  qed
  ultimately have u: "users_ok s {tiny_root} {f} {f}" using lk ep by (auto simp: users_ok_def split: if_splits)
  have "private_index (tasks s 0x1000) ?va f = Some 0" by (simp add: own(3) private_index_def)
  then have "process_ok 0 s {tiny_root} {f} {f}" using u own lk ep by (auto simp: process_ok_def Let_def split: if_splits)
  moreover have "cr3 s = 0x1000"
    using cr3_map [OF mp] cr3_alloc [OF al] s0(4) by (simp add: s_def s2_def)
  then have "runs 0 s tiny_root" using own mk(11) h2 by (simp add: runs_def table_at_def s_def upd_task_def tiny_root_def vmm_pte_address_def)
  moreover have "upper_ok 3 s tiny_root ?va True" if "fl = 7"
  proof -
    have "upper_ok 3 s3 tiny_root ?va True" by (rule map_page_upper [OF np(1) _ mp]) (simp_all add: that has_def)
    moreover have "mem s = mem s3" "hhdm_offset s = hhdm_offset s3" by (simp_all add: s_def upd_task_def)
    ultimately show ?thesis using upper_ok_cong [of s s3] by blast
  qed
  moreover have "pt_lookup s tiny_root ?va = Some (f OR fl)" using lk [of ?va] by simp
  moreover have "t_pml4 (tasks s (current_owner 0 s)) = tiny_root" by (simp add: own)
  ultimately show thesis using that [of s f] ep(1,3) by blast
qed

lemma cow_resolve_correct_witness:
  "\<exists>(s :: shm_state) s' ok F P. process_ok 0 s {tiny_root} F P \<and> cow_resolve 0 0x400010 3 s = (s', ok) \<and>
     user_byte s' tiny_root 0x400020 = user_byte s tiny_root 0x400020 \<and> user_byte s tiny_root 0x400020 \<noteq> None"
proof -
  obtain s f where s: "process_ok 0 (s :: shm_state) {tiny_root} {f} {f}" "pt_lookup s tiny_root 0x400000 = Some (f OR 0x205)"
    by (rule tiny_page [of "0x205"]) auto
  obtain s' ok where r: "cow_resolve 0 0x400010 3 s = (s', ok)" by fastforce
  have "pt_lookup s tiny_root 0x400020 = pt_lookup s tiny_root (0x400020 AND NOT 4095)"
    by (rule page_floor_user(4) [symmetric]) simp
  then have "user_byte s tiny_root 0x400020 \<noteq> None" using s(2) by (simp add: user_byte_def)
  moreover have "user_byte s' tiny_root 0x400020 = user_byte s tiny_root 0x400020"
    using cow_resolve_correct [OF s(1) r] by auto
  ultimately show ?thesis using s(1) r by blast
qed

end
