(* ===== verification/UaccessProps.thy ===== *)
theory UaccessProps
  imports CowProps
begin

text \<open>
  The copies between kernel and user memory: they end, they read and write what the process itself would
  see, and whoever shares frames with it is not affected.
\<close>

section \<open>Addresses\<close>

lemma upper_ok_page: "upper_ok l s t (vb AND NOT 4095) w = upper_ok l s t vb w"
proof -
  have ix: "index_at (vb AND NOT 4095) l = index_at vb l" for l by (rule page_index [OF refl, symmetric])
  show ?thesis by (induction l arbitrary: t) (simp_all only: upper_ok.simps ix Let_def)
qed

lemma user_range_at:
  assumes "is_user_range addr len" and "i < unat len"
  shows "addr + of_nat i \<noteq> 0" and "addr + of_nat i < USER_TOP" and "unat (addr + of_nat i) = unat addr + i"
    and "unat addr + unat len \<le> 2 ^ 47" and "is_user_range (addr + of_nat i) 1"
proof -
  have h: "addr \<noteq> 0" "addr < USER_TOP" "len \<le> USER_TOP - addr"
    using assms by (auto simp: is_user_range_def)
  have a: "unat addr < 2 ^ 47" "0 < unat addr" using h(1,2) by (simp_all add: word_less_nat_alt unat_gt_0)
  have "unat (USER_TOP - addr) = 2 ^ 47 - unat addr"
    using a by (simp add: unat_sub word_le_nat_alt)
  then show le: "unat addr + unat len \<le> 2 ^ 47" using h(3) a by (simp add: word_le_nat_alt)
  show u: "unat (addr + of_nat i) = unat addr + i" 
  proof (rule unat_add_small)
    have "(2 :: nat) ^ 47 < 2 ^ 64" by simp
    then show "unat addr + i < 2 ^ 64" using le assms(2) by linarith
  qed
  show n0: "addr + of_nat i \<noteq> 0" using u a by (metis add_gr_0 less_irrefl unat_0)
  show lt: "addr + of_nat i < USER_TOP" using u le assms(2) by (simp add: word_less_nat_alt)
  have "1 \<le> USER_TOP - (addr + of_nat i)"
  proof -
    have "unat (USER_TOP - (addr + of_nat i)) = 2 ^ 47 - unat (addr + of_nat i)"
      using lt by (simp add: unat_sub word_le_nat_alt word_less_nat_alt)
    then show ?thesis using lt by (simp add: word_le_nat_alt word_less_nat_alt)
  qed
  then show "is_user_range (addr + of_nat i) 1" using n0 lt by (simp add: is_user_range_def)
qed

lemma touched_page:
  assumes "is_user_range addr len" and "i < unat len"
  shows "(addr + of_nat i) AND NOT 4095 \<in> set (touched_pages addr len)"
proof -
  note r = user_range_at [OF assms]
  let ?q = "unat addr div 4096" and ?m = "unat addr mod 4096"
  have floor: "unat (addr AND NOT 4095) = ?q * 4096" using unat_page_floor [of addr] by simp
  have off: "unat (addr AND 4095) = ?m" using unat_and_mask_mod [of addr 12] by (simp add: mask_eq_exp_minus_1)
  define j where "j = (?m + i) div 4096"
  have split: "unat addr = ?q * 4096 + ?m" by simp
  then have "unat addr + i = (?m + i) + ?q * 4096" by linarith
  then have "(unat addr + i) div 4096 = ?q + j" unfolding j_def by (metis add.commute div_mult_self1 zero_neq_numeral)
  then have u: "unat ((addr + of_nat i) AND NOT 4095) = ?q * 4096 + j * 4096"
    using unat_page_floor [of "addr + of_nat i"] r(3) by (simp add: algebra_simps)
  have "j * 4096 \<le> ?m + i" by (simp add: j_def)
  moreover have "(2 :: nat) ^ 47 < 2 ^ 64" by simp
  ultimately have "?q * 4096 + j * 4096 < 2 ^ 64" using r(4) assms(2) split by linarith
  then have "unat (page_at (addr AND NOT 4095) j) = ?q * 4096 + j * 4096"
    unfolding page_at_def using unat_add_small [of "addr AND NOT 4095" "j * 4096"] floor by (simp add: of_nat_mult)
  then have eq: "(addr + of_nat i) AND NOT 4095 = page_at (addr AND NOT 4095) j" using u by (simp add: word_unat_eq_iff)
  have "j < (?m + unat len + 4095) div 4096"
  proof -
    have "?m + i + 4096 \<le> ?m + unat len + 4095" using assms(2) by simp
    then have "(?m + i + 4096) div 4096 \<le> (?m + unat len + 4095) div 4096" by (rule div_le_mono)
    then show ?thesis by (simp add: j_def)
  qed
  then show ?thesis unfolding touched_pages_def eq using off by simp
qed

section \<open>One byte\<close>

text \<open>The rights the copies ask for.\<close>

definition may_load :: "'a machine_scheme \<Rightarrow> u64 \<Rightarrow> u64 \<Rightarrow> bool" where
  "may_load s root a \<longleftrightarrow> upper_ok 3 s root a False \<and> (\<exists>e. pt_lookup s root a = Some e \<and> has e PTE_USER)"

definition may_store :: "'a machine_scheme \<Rightarrow> u64 \<Rightarrow> u64 \<Rightarrow> bool" where
  "may_store s root a \<longleftrightarrow> upper_ok 3 s root a True \<and>
     (\<exists>e. pt_lookup s root a = Some e \<and> has e PTE_USER \<and> (has e PTE_WRITE \<or> has e PTE_COW))"

lemma pt_lookup_3: "pt_lookup s root a = Some e \<Longrightarrow> lookup_from 3 s root a = Some e"
  by (simp add: pt_lookup_def split: if_splits)

lemma user_accessible_may:
  "vmm_user_accessible s root va w \<longleftrightarrow>
     root \<noteq> 0 \<and> va < USER_TOP \<and> (if w then may_store s root va else may_load s root va)"
proof (cases "root \<noteq> 0 \<and> va < USER_TOP")
  case True
  then have "lookup_from 3 s root va = pt_lookup s root va" by (simp add: pt_lookup_def canonical_def)
  moreover have "has e 514 = (has e PTE_WRITE \<or> has e PTE_COW)" for e using flag_tests(4) by simp
  ultimately show ?thesis using True
    by (simp add: vmm_user_accessible_def accessible_split may_store_def may_load_def not_le)
next
  case False
  then show ?thesis by (auto simp: vmm_user_accessible_def)
qed

lemma may_page:
  assumes "va < USER_TOP" and "vb < USER_TOP" and "vb AND NOT 4095 = va AND NOT 4095"
  shows "may_load s root vb = may_load s root va" and "may_store s root vb = may_store s root va"
proof -
  have "pt_lookup s root vb = pt_lookup s root va"
    using page_floor_user(4) [OF assms(1), of s root] page_floor_user(4) [OF assms(2), of s root] assms(3) by simp
  moreover have "upper_ok 3 s root vb w = upper_ok 3 s root va w" for w
    using upper_ok_page [of 3 s root va w] upper_ok_page [of 3 s root vb w] assms(3) by simp
  ultimately show "may_load s root vb = may_load s root va" "may_store s root vb = may_store s root va"
    by (simp_all add: may_load_def may_store_def)
qed

lemma access_ok_may:
  assumes "user_access_ok c addr len w s" and "task_get_current_pml4 c s = root" and "i < unat len"
  shows "if w then may_store s root (addr + of_nat i) else may_load s root (addr + of_nat i)"
proof -
  have r: "is_user_range addr len" "len \<noteq> 0" using assms(1,3) by (auto simp: user_access_ok_def)
  have "vmm_user_accessible s root ((addr + of_nat i) AND NOT 4095) w"
    using assms(1,2) r(2) touched_page [OF r(1) assms(3)] by (simp add: user_access_ok_def list_all_iff)
  then show ?thesis
    using user_range_at(2) [OF r(1) assms(3)] page_floor_user(1,2) [of "addr + of_nat i"]
      may_page [of "addr + of_nat i" "(addr + of_nat i) AND NOT 4095" s root] page_floor_id
    unfolding user_accessible_may by (auto split: if_splits)
qed

lemma may_store_load: "may_store s root a \<Longrightarrow> may_load s root a"
proof -
  have "upper_ok l s t va True \<Longrightarrow> upper_ok l s t va False" for l t va
    by (induction l arbitrary: t) (auto simp: Let_def)
  then show "may_store s root a \<Longrightarrow> may_load s root a" by (auto simp: may_store_def may_load_def)
qed

lemma user_load_spec:
  assumes "table_at s (cr3 s) = root" and "may_load s root a"
  shows "\<exists>v. user_load L c r a s = Some (s, Some v) \<and> user_byte s root a = Some v"
proof -
  obtain e where e: "upper_ok 3 s root a False" "pt_lookup s root a = Some e" using assms(2) by (auto simp: may_load_def)
  have "hw_access s a False = Inr (vmm_pte_address e + (a AND 4095))"
    using hw_walk_leaf [OF e(1) pt_lookup_3 [OF e(2)]] assms(1) by (simp add: hw_access_def)
  then show ?thesis using e(2) by (subst user_load.simps) (simp add: user_byte_def algebra_simps)
qed

text \<open>A page whose frame, if it is mapped, is private to its process.\<close>

definition private_at :: "'a machine_scheme \<Rightarrow> u64 set \<Rightarrow> u64 \<Rightarrow> u64 \<Rightarrow> bool" where
  "private_at s P r va \<longleftrightarrow> (\<forall>e. pt_lookup s r va = Some e \<longrightarrow> vmm_pte_address e \<in> P)"

text \<open>
  From \<open>s\<close> to \<open>s'\<close> the first \<open>n\<close> bytes of \<open>vs\<close> were stored at \<open>a\<close> in the address space \<open>root\<close>; every other
  private byte of every process is as before.
\<close>

definition stored ::
    "u32 \<Rightarrow> u64 set \<Rightarrow> u64 set \<Rightarrow> u64 set \<Rightarrow> u64 \<Rightarrow> u64 \<Rightarrow> u8 list \<Rightarrow> nat \<Rightarrow>
     'a sched_state_scheme \<Rightarrow> 'a sched_state_scheme \<Rightarrow> u64 set \<Rightarrow> u64 set \<Rightarrow> bool" where
  "stored c R F P root a vs n s s' F' P' \<longleftrightarrow>
     process_ok c s' R F' P' \<and> F \<subseteq> F' \<and> P \<subseteq> P' \<and> runs c s' root \<and>
     (\<forall>b < USER_TOP. may_store s root b \<longrightarrow> may_store s' root b) \<and>
     (\<forall>r \<in> R. \<forall>vb < USER_TOP. private_at s P r vb \<longrightarrow> private_at s' P' r vb \<and>
        user_byte s' r vb = (if r = root \<and> unat (vb - a) < n then Some (vs ! unat (vb - a)) else user_byte s r vb))"

lemma stored_refl: "process_ok c s R F P \<Longrightarrow> runs c s root \<Longrightarrow> stored c R F P root a vs 0 s s F P"
  by (simp add: stored_def)

lemma private_step:
  assumes un: "unseen R root (a AND NOT 4095) s s1" and r: "r \<in> R" "vb < USER_TOP" and p: "private_at s P r vb"
    and a: "a < USER_TOP" and e: "pt_lookup s1 root a = Some e"
      "\<forall>e0. pt_lookup s root a = Some e0 \<longrightarrow> vmm_pte_address e = vmm_pte_address e0 \<or> vmm_pte_address e \<in> N"
    and m: "pt_lookup s root a \<noteq> None"
  shows "private_at s1 (P \<union> N) r vb"
proof (cases "r = root \<and> vb AND NOT 4095 = a AND NOT 4095")
  case False
  then have "pt_lookup s1 r vb = pt_lookup s r vb" using un r unfolding unseen_def by blast
  then show ?thesis using p by (auto simp: private_at_def)
next
  case True
  have eq: "pt_lookup x root vb = pt_lookup x root a" for x :: "'a machine_scheme"
    using page_floor_user(4) [OF r(2), of x root] page_floor_user(4) [OF a, of x root] True by simp
  show ?thesis using p e m True unfolding private_at_def by (auto simp: eq)
qed

lemma private_at_mem: "vm_ok s R F \<Longrightarrow> f \<in> F \<Longrightarrow> (\<And>x. m x \<noteq> mem s x \<Longrightarrow> in_page (f + hhdm_offset s) x) \<Longrightarrow> r \<in> R \<Longrightarrow>
    private_at (s\<lparr>mem := m\<rparr>) P r vb = private_at s P r vb"
  by (simp add: private_at_def data_write(2))

text \<open>Writing a byte of a page that may be written.\<close>

lemma poke:
  assumes u: "users_ok s R F P" and root: "root \<in> R" and a: "a < USER_TOP"
    and e: "pt_lookup s root a = Some e" "has e PTE_WRITE"
    and s': "s' = s\<lparr>mem := (mem s)(vmm_pte_address e + (a AND 4095) + hhdm_offset s := v)\<rparr>"
  shows "users_ok s' R F P" and "r \<in> R \<Longrightarrow> pt_lookup s' r vb = pt_lookup s r vb"
    and "r \<in> R \<Longrightarrow> upper_ok 3 s' r vb w = upper_ok 3 s r vb w" and "user_byte s' root a = Some v"
    and "r \<in> R \<Longrightarrow> vb < USER_TOP \<Longrightarrow> private_at s P r vb \<Longrightarrow> (r, vb) \<noteq> (root, a) \<Longrightarrow> user_byte s' r vb = user_byte s r vb"
proof -
  let ?f = "vmm_pte_address e" and ?p = "vmm_pte_address e + (a AND 4095) + hhdm_offset s"
  note d = users_okD [OF u]
  have f: "?f \<in> F" by (rule d(3) [OF root a e(1)])
  have p: "?p = ?f + hhdm_offset s + (a AND 4095)" by simp
  have inp: "in_page (?f + hhdm_offset s) ?p" unfolding p by (rule offset_in_page)
  have m: "\<And>x. ((mem s)(?p := v)) x \<noteq> mem s x \<Longrightarrow> in_page (?f + hhdm_offset s) x"
    using inp by (auto split: if_splits)
  note dw = data_write [OF d(1) f m]
  show lk: "pt_lookup s' r vb = pt_lookup s r vb" if "r \<in> R" for r vb unfolding s' by (rule dw(2)) (use that in auto)
  show "upper_ok 3 s' r vb w = upper_ok 3 s r vb w" if "r \<in> R" for r vb w
    unfolding s' by (rule data_write_upper(1) [OF d(1) f m]) (use that in auto)
  have "frame_refs s' = frame_refs s" unfolding s' by (rule pmm_facts_cong) simp_all
  moreover have "vm_ok s' R F" unfolding s' by (rule dw(1)) auto
  moreover have "mappings s' R g = mappings s R g" for g using lk by (auto simp: mappings_def)
  ultimately show "users_ok s' R F P" using u lk by (simp add: users_ok_def)
  show "user_byte s' root a = Some v" using lk [OF root, of a] e(1) by (simp add: user_byte_def s' algebra_simps)
  assume r: "r \<in> R" "vb < USER_TOP" and pr: "private_at s P r vb" and ne: "(r, vb) \<noteq> (root, a)"
  show "user_byte s' r vb = user_byte s r vb"
  proof (cases "pt_lookup s r vb")
    case None
    then show ?thesis using lk [OF r(1)] by (simp add: user_byte_def)
  next
    case (Some y)
    let ?q = "vmm_pte_address y + hhdm_offset s + (vb AND 4095)"
    have "?q \<noteq> ?p"
    proof
      assume eq: "?q = ?p"
      have al: "vmm_pte_address y AND 4095 = 0" "?f AND 4095 = 0" "hhdm_offset s AND 4095 = 0"
        using d(1) d(3) [OF r Some] f by (auto simp: vm_ok_def data_frames_def pt_inv_def)
      have "in_page (vmm_pte_address y + hhdm_offset s) ?p" using offset_in_page [of _ vb] unfolding eq [symmetric] .
      then have "vmm_pte_address y + hhdm_offset s = ?f + hhdm_offset s"
        using in_page_unique [OF page_add_aligned [OF al(1,3)] page_add_aligned [OF al(2,3)] _ inp] by blast
      then have same: "vmm_pte_address y = ?f" "vb AND 4095 = a AND 4095" using eq by simp_all
      then have "?f \<in> P" using pr Some by (simp add: private_at_def)
      then have "mappings s R ?f = {(root, a AND NOT 4095)}" by (rule d(5) [OF root a e])
      moreover have "(r, vb AND NOT 4095) \<in> mappings s R ?f" using in_mappings [OF r Some] same(1) by simp
      ultimately have "r = root" "vb AND NOT 4095 = a AND NOT 4095" by auto
      moreover have "x = (x AND NOT 4095) + (x AND 4095)" for x :: u64
        unfolding word_and_not_eq_diff by simp
      ultimately show False using ne same(2) by (metis prod.inject)
    qed
    then show ?thesis using Some lk [OF r(1)] by (simp add: user_byte_def s')
  qed
qed

lemma process_ok_poke:
  assumes po: "process_ok c s R F P" and u: "users_ok (s\<lparr>mem := m\<rparr>) R F P"
    and lk: "\<And>r va. r \<in> R \<Longrightarrow> pt_lookup (s\<lparr>mem := m\<rparr>) r va = pt_lookup s r va"
  shows "process_ok c (s\<lparr>mem := m\<rparr>) R F P"
proof -
  have "machine.more (s\<lparr>mem := m\<rparr>) = machine.more (upd_task 0 (\<lambda>x. x\<lparr>user_pages := user_pages x\<rparr>) s)"
    by (simp add: upd_task_def)
  note ck = current_owner_kept [OF this]
  have "tasks (s\<lparr>mem := m\<rparr>) = tasks s" by simp
  then show ?thesis using process_okD [OF po] u lk by (simp add: process_ok_def Let_def ck(1))
qed

lemma store_fault:
  assumes "cow_resolve c a 3 s = (s1, ok)" and "is_user_range a 1"
  shows "handle_page_fault L c True a (r\<lparr>rip := to_store L, rdi := a, cs := 8, vector := 14, err_code := 3\<rparr>) s =
    (s1, Resume (r\<lparr>rip := if ok then to_store L else to_fault L, rdi := a, cs := 8, vector := 14, err_code := 3\<rparr>))"
  using assms by (simp add: handle_page_fault_def uaccess_fixup_def uaccess_fixups_def has_def)

lemma hw_store:
  assumes "table_at s (cr3 s) = root" and "may_store s root a" and "pt_lookup s root a = Some e"
  shows "hw_access s a True = (if has e PTE_WRITE then Inr (vmm_pte_address e + (a AND 4095)) else Inl 3)"
  using hw_walk_leaf [of 3 s root a True e] pt_lookup_3 [OF assms(3)] assms(1,2)
  by (simp add: hw_access_def may_store_def)

lemma store_direct:
  assumes po: "process_ok c s R F P" and run: "runs c s root" and ms: "may_store s root a"
    and a: "a < USER_TOP" and e: "pt_lookup s root a = Some e" "has e PTE_WRITE"
  shows "\<exists>s'. user_store L c r a v s = Some (s', True) \<and> stored c R F P root a (v # vs) 1 s s' F P"
proof -
  let ?p = "vmm_pte_address e + (a AND 4095) + hhdm_offset s"
  define s' where "s' = s\<lparr>mem := (mem s)(?p := v)\<rparr>"
  note d = process_okD [OF po] and rn = run [unfolded runs_def]
  have root: "root \<in> R" using d(3) rn by simp
  note pk = poke [OF d(1) root a e s'_def]
  have "user_store L c r a v s = Some (s', True)"
    using hw_store [OF _ ms e(1)] rn e(2) by (subst user_store.simps) (simp add: s'_def)
  moreover have "process_ok c s' R F P"
    unfolding s'_def by (rule process_ok_poke [OF po pk(1) [unfolded s'_def] pk(2) [unfolded s'_def]])
  moreover have "runs c s' root"
  proof -
    have "machine.more s' = machine.more (upd_task 0 (\<lambda>x. x\<lparr>user_pages := user_pages x\<rparr>) s)"
      by (simp add: upd_task_def s'_def)
    note ck = current_owner_kept [OF this]
    have "tasks s' = tasks s" "table_at s' (cr3 s') = table_at s (cr3 s)" by (simp_all add: s'_def table_at_def)
    then show ?thesis using run by (simp add: runs_def ck(1,3))
  qed
  moreover have "may_store s' root b" if "may_store s root b" for b
    using that pk(2,3) [OF root] by (simp add: may_store_def)
  moreover have "private_at s' P q vb \<and> user_byte s' q vb =
      (if q = root \<and> unat (vb - a) < 1 then Some ((v # vs) ! unat (vb - a)) else user_byte s q vb)"
    if q: "q \<in> R" "vb < USER_TOP" "private_at s P q vb" for q vb
    using pk(4) pk(5) [OF q] pk(2) [OF q(1)] q(3) by (auto simp: private_at_def unat_eq_0)
  ultimately show ?thesis by (auto simp: stored_def)
qed

lemma stored_trans:
  assumes 1: "stored c R F P root a vs 0 s s1 F1 P1" and 2: "stored c R F1 P1 root a vs n s1 s2 F2 P2"
  shows "stored c R F P root a vs n s s2 F2 P2"
  unfolding stored_def
proof (intro conjI ballI allI impI)
  show "process_ok c s2 R F2 P2" "runs c s2 root" "F \<subseteq> F2" "P \<subseteq> P2" using 1 2 by (auto simp: stored_def)
next
  fix b assume "b < USER_TOP" "may_store s root b"
  then show "may_store s2 root b" using 1 2 by (simp add: stored_def)
next
  fix r vb assume "r \<in> R" "vb < USER_TOP" "private_at s P r vb"
  then show "private_at s2 P2 r vb" "user_byte s2 r vb =
      (if r = root \<and> unat (vb - a) < n then Some (vs ! unat (vb - a)) else user_byte s r vb)"
    using 1 2 by (simp_all add: stored_def)
qed

lemma user_store_spec:
  assumes po: "process_ok c s R F P" and run: "runs c s root" and ms: "may_store s root a"
    and a: "a < USER_TOP" "is_user_range a 1" and L: "to_fault L \<noteq> to_store L"
  shows "user_store L c r a v s = Some (s, False) \<and> free_pages s = 0 \<or>
    (\<exists>s' F' P'. user_store L c r a v s = Some (s', True) \<and> stored c R F P root a (v # vs) 1 s s' F' P')"
proof -
  obtain e where e: "pt_lookup s root a = Some e" "has e PTE_USER" "has e PTE_WRITE \<or> has e PTE_COW"
    using ms by (auto simp: may_store_def)
  have rn: "root = t_pml4 (tasks s (current_owner c s))" "table_at s (cr3 s) = root" using run by (simp_all add: runs_def)
  show ?thesis
  proof (cases "has e PTE_WRITE")
    case True
    then show ?thesis using store_direct [OF po run ms a(1) e(1)] by blast
  next
    case False
    have hw: "hw_access s a True = Inl 3" using hw_store [OF rn(2) ms e(1)] False by simp
    obtain s1 ok where cw: "cow_resolve c a 3 s = (s1, ok)" by fastforce
    note spec = cow_resolve_spec [OF po cw, folded rn(1)]
    have step: "user_store L c r a v s = (if ok then user_store L c r a v s1 else Some (s1, False))"
      using store_fault [OF cw a(2), of L r] L by (subst user_store.simps) (simp add: hw)
    show ?thesis
    proof (cases ok)
      case False
      then have "s1 = s" "\<not> write_resolvable s root 3 a" using spec by blast+
      then show ?thesis using step False e a(1) by (simp add: write_resolvable_def)
    next
      case True
      then obtain N f e1 where n: "process_ok c s1 R (F \<union> N) (P \<union> N)" "unseen R root (a AND NOT 4095) s s1"
          "pt_lookup s1 root a = Some e1" "has e1 PTE_USER" "has e1 PTE_WRITE"
          "\<forall>e0. pt_lookup s root a = Some e0 \<longrightarrow> vmm_pte_address e1 = vmm_pte_address e0 \<or> vmm_pte_address e1 \<in> N"
          "machine.more s1 = machine.more (upd_task (current_owner c s) (\<lambda>x. x\<lparr>user_pages := f x\<rparr>) s)"
        using spec by blast
      have root: "root \<in> R" using process_okD(3) [OF po] rn(1) by simp
      note ck = current_owner_kept [OF n(7)]
      have run1: "runs c s1 root"
        using run n(2) by (simp add: runs_def ck unseen_def table_at_def)
      have ms1: "may_store s1 root b" if b: "b < USER_TOP" "may_store s root b" for b
      proof (cases "b AND NOT 4095 = a AND NOT 4095")
        case True
        then have "pt_lookup s1 root b = pt_lookup s1 root a"
          using page_floor_user(4) [OF b(1), of s1 root] page_floor_user(4) [OF a(1), of s1 root] by simp
        then show ?thesis using b(2) n(2-5) root by (simp add: may_store_def unseen_def)
      next
        case False
        then show ?thesis using b n(2) root unfolding may_store_def unseen_def by metis
      qed
      have "stored c R F P root a (v # vs) 0 s s1 (F \<union> N) (P \<union> N)"
        unfolding stored_def
      proof (intro conjI ballI allI impI)
        fix q vb assume q: "q \<in> R" "vb < USER_TOP" "private_at s P q vb"
        show "private_at s1 (P \<union> N) q vb" by (rule private_step [OF n(2) q a(1) n(3,6)]) (simp add: e(1))
        show "user_byte s1 q vb = (if q = root \<and> unat (vb - a) < 0 then Some ((v # vs) ! unat (vb - a)) else user_byte s q vb)"
          using n(2) q by (simp add: unseen_def)
      qed (use n(1) run1 ms1 in auto)
      then show ?thesis
        using store_direct [OF n(1) run1 ms1 [OF a(1) ms] a(1) n(3,5), of L r v vs] stored_trans step True by fastforce
    qed
  qed
qed

section \<open>The loops\<close>

lemma next_offset:
  fixes vb a :: u64
  shows "unat (vb - a) = (if vb = a then 0 else Suc (unat (vb - (a + 1))))"
proof (cases "vb = a")
  case False
  then have "vb - a \<noteq> 0" by simp
  then have "unat (vb - a - 1) = unat (vb - a) - 1" "0 < unat (vb - a)" by (simp_all add: unat_minus_one unat_gt_0)
  then show ?thesis using False by (simp add: diff_diff_add)
qed simp

lemma stored_Cons:
  assumes 1: "stored c R F P root a (v # vs) 1 s s1 F1 P1" and 2: "stored c R F1 P1 root (a + 1) vs n s1 s2 F2 P2"
    and n: "n < 2 ^ 64 - 1"
  shows "stored c R F P root a (v # vs) (Suc n) s s2 F2 P2"
  unfolding stored_def
proof (intro conjI ballI allI impI)
  show "process_ok c s2 R F2 P2" "runs c s2 root" "F \<subseteq> F2" "P \<subseteq> P2" using 1 2 by (auto simp: stored_def)
next
  fix b assume "b < USER_TOP" "may_store s root b"
  then show "may_store s2 root b" using 1 2 by (simp add: stored_def)
next
  fix r vb assume h: "r \<in> R" "vb < USER_TOP" "private_at s P r vb"
  have 3: "private_at s1 P1 r vb"
    "user_byte s1 r vb = (if r = root \<and> unat (vb - a) < 1 then Some ((v # vs) ! unat (vb - a)) else user_byte s r vb)"
    using 1 h by (simp_all add: stored_def)
  have 4: "private_at s2 P2 r vb" "user_byte s2 r vb =
      (if r = root \<and> unat (vb - (a + 1)) < n then Some (vs ! unat (vb - (a + 1))) else user_byte s1 r vb)"
    using 2 h(1,2) 3(1) by (simp_all add: stored_def)
  show "private_at s2 P2 r vb" by (rule 4(1))
  have last: "unat (a - (a + 1)) = 2 ^ 64 - 1" 
  proof -
    have "a - (a + 1) = - 1" by simp
    then show ?thesis by (simp only: unsigned_minus_1_eq_mask mask_eq_exp_minus_1) simp
  qed
  show "user_byte s2 r vb =
      (if r = root \<and> unat (vb - a) < Suc n then Some ((v # vs) ! unat (vb - a)) else user_byte s r vb)"
    using 3(2) 4(2) n last next_offset [of vb a] by (cases "vb = a") auto
qed

lemma copy_to_asm_spec:
  assumes "process_ok c s R F P" and "runs c s root" and "to_fault L \<noteq> to_store L"
    and "\<forall>i < length vs. may_store s root (a + of_nat i) \<and> a + of_nat i < USER_TOP \<and> is_user_range (a + of_nat i) 1"
    and "length vs < 2 ^ 63"
  shows "\<exists>s' res n F' P'. uaccess_copy_to_asm L c r a vs s = Some (s', res) \<and> stored c R F P root a vs n s s' F' P' \<and>
    (res = 0 \<and> n = length vs \<or> res = -1 \<and> n < length vs \<and> free_pages s' = 0)"
  using assms
proof (induction vs arbitrary: a s F P)
  case Nil
  then show ?case using stored_refl [OF Nil(1,2), of a "[]"] by force
next
  case (Cons v vs)
  note p = Cons.prems
  have a: "may_store s root a" "a < USER_TOP" "is_user_range a 1" using p(4) by (auto dest: spec [of _ 0])
  consider (stop) "user_store L c r a v s = Some (s, False)" "free_pages s = 0"
    | (go) s1 F1 P1 where "user_store L c r a v s = Some (s1, True)" "stored c R F P root a (v # vs) 1 s s1 F1 P1"
    using user_store_spec [OF p(1,2) a p(3), of r v vs] by blast
  then show ?case
  proof cases
    case stop
    then show ?thesis using stored_refl [OF p(1,2), of a "v # vs"] by force
  next
    case go
    have st: "process_ok c s1 R F1 P1" "runs c s1 root" "\<forall>b < USER_TOP. may_store s root b \<longrightarrow> may_store s1 root b"
      using go(2) by (simp_all add: stored_def)
    have nx: "a + 1 + of_nat i = a + of_nat (Suc i)" for i by (simp add: algebra_simps)
    have "\<forall>i < length vs. may_store s1 root (a + 1 + of_nat i) \<and> a + 1 + of_nat i < USER_TOP \<and>
        is_user_range (a + 1 + of_nat i) 1"
      unfolding nx using p(4) st(3) by (auto dest: spec [of _ "Suc _"])
    from Cons.IH [OF st(1,2) p(3) this] p(5) obtain s' res n F' P' where
      ih: "uaccess_copy_to_asm L c r (a + 1) vs s1 = Some (s', res)" "stored c R F1 P1 root (a + 1) vs n s1 s' F' P'"
        "res = 0 \<and> n = length vs \<or> res = -1 \<and> n < length vs \<and> free_pages s' = 0"
      by auto
    have "n < 2 ^ 64 - 1" using ih(3) p(5) by auto
    note sc = stored_Cons [OF go(2) ih(2) this]
    show ?thesis
      by (intro exI [of _ s'] exI [of _ res] exI [of _ "Suc n"] exI [of _ F'] exI [of _ P'])
        (use go(1) ih(1,3) sc in auto)
  qed
qed

lemma copy_from_asm_spec:
  assumes "table_at s (cr3 s) = root" and "\<forall>i < n. may_load s root (a + of_nat i)"
  shows "\<exists>vs. uaccess_copy_from_asm L c r a n s = Some (s, vs, 0) \<and> length vs = n \<and>
    (\<forall>i < n. user_byte s root (a + of_nat i) = Some (vs ! i))"
  using assms(2)
proof (induction n arbitrary: a)
  case 0
  then show ?case by simp
next
  case (Suc n)
  have "may_load s root a" using Suc.prems by (auto dest: spec [of _ 0])
  then obtain v where v: "user_load L c r a s = Some (s, Some v)" "user_byte s root a = Some v"
    using user_load_spec [OF assms(1)] by blast
  have nx: "a + 1 + of_nat i = a + of_nat (Suc i)" for i by (simp add: algebra_simps)
  have "\<forall>i < n. may_load s root (a + 1 + of_nat i)" unfolding nx using Suc.prems by auto
  then obtain vs where vs: "uaccess_copy_from_asm L c r (a + 1) n s = Some (s, vs, 0)" "length vs = n"
      "\<forall>i < n. user_byte s root (a + 1 + of_nat i) = Some (vs ! i)"
    using Suc.IH by blast
  have "user_byte s root (a + of_nat i) = Some ((v # vs) ! i)" if "i < Suc n" for i
    using that v(2) vs(3) nx by (cases i) auto
  then show ?case using v(1) vs(1,2) by (intro exI [of _ "v # vs"]) simp
qed

section \<open>The copies\<close>

lemma copy_to_user_stored:
  assumes "process_ok c s R F P" and "runs c s root" and "to_fault L \<noteq> to_store L" and "length bytes < 2 ^ 63"
    and ok: "user_access_ok c dst (of_nat (length bytes)) True s"
  shows "\<exists>s' res n F' P'. copy_to_user L c r dst bytes s = Some (s', res) \<and> stored c R F P root dst bytes n s s' F' P' \<and>
    (res = 0 \<and> n = length bytes \<or> res = -1 \<and> n < length bytes \<and> free_pages s' = 0)"
proof (cases "bytes = []")
  case True
  then show ?thesis using ok stored_refl [OF assms(1,2), of dst "[]"] by (force simp: copy_to_user_def)
next
  case False
  have len: "unat (of_nat (length bytes) :: u64) = length bytes" using unat_add_small [of 0 "length bytes"] assms(4) by simp
  have rn: "task_get_current_pml4 c s = root" using assms(2) by (simp add: runs_def)
  have rg: "is_user_range dst (of_nat (length bytes))" using ok by (simp add: user_access_ok_def)
  have "\<forall>i < length bytes. may_store s root (dst + of_nat i) \<and> dst + of_nat i < USER_TOP \<and> is_user_range (dst + of_nat i) 1"
    using access_ok_may [of c dst "of_nat (length bytes)" True s root] ok rn user_range_at(2,5) [OF rg]
    unfolding len by simp
  from copy_to_asm_spec [OF assms(1-3) this assms(4), of r] ok False show ?thesis by (simp add: copy_to_user_def)
qed

text \<open>
  C13: a copy to user memory always ends. A refused range changes nothing. Otherwise the process finds the
  bytes at the destination (where its pages are private), and no other private byte of any process
  changes, also where a page had been shared by a fork and gets its own frame during the copy. The copy
  fails midway only when no frame is left; then a prefix was written.
\<close>

theorem copy_to_user_correct:
  assumes "process_ok c s R F P" and "runs c s root" and "to_fault L \<noteq> to_store L" and "length bytes < 2 ^ 63"
  shows "\<exists>s' res n F' P'. copy_to_user L c r dst bytes s = Some (s', res) \<and> F \<subseteq> F' \<and> P \<subseteq> P' \<and> process_ok c s' R F' P' \<and>
    (\<forall>q \<in> R. \<forall>va < USER_TOP. private_at s P q va \<longrightarrow> user_byte s' q va =
       (if q = root \<and> unat (va - dst) < n then Some (bytes ! unat (va - dst)) else user_byte s q va)) \<and>
    (if user_access_ok c dst (of_nat (length bytes)) True s
     then res = 0 \<and> n = length bytes \<or> res = -1 \<and> n < length bytes \<and> free_pages s' = 0
     else s' = s \<and> res = -1 \<and> n = 0)"
proof (cases "user_access_ok c dst (of_nat (length bytes)) True s")
  case False
  then show ?thesis using assms(1)
    by (intro exI [of _ s] exI [of _ "-1"] exI [of _ 0] exI [of _ F] exI [of _ P]) (simp add: copy_to_user_def)
next
  case True
  from copy_to_user_stored [OF assms True] obtain s' res n F' P'
    where st: "copy_to_user L c r dst bytes s = Some (s', res)" "stored c R F P root dst bytes n s s' F' P'"
      "res = 0 \<and> n = length bytes \<or> res = -1 \<and> n < length bytes \<and> free_pages s' = 0" by blast
  then show ?thesis
    by (intro exI [of _ s'] exI [of _ res] exI [of _ n] exI [of _ F'] exI [of _ P']) (use True in \<open>simp add: stored_def\<close>)
qed

text \<open>
  C32: what was copied to private pages of a process is read back from there, unchanged and completely.
\<close>

theorem copy_user_roundtrip:
  assumes "process_ok c s R F P" and "runs c s root" and "to_fault L \<noteq> to_store L" and "length bytes < 2 ^ 63"
    and priv: "\<forall>i < length bytes. private_at s P root (dst + of_nat i)"
    and copy: "copy_to_user L c r dst bytes s = Some (s', 0)"
  shows "copy_from_user L c r' dst (of_nat (length bytes)) s' = Some (s', bytes, 0)"
proof -
  have len: "unat (of_nat (length bytes) :: u64) = length bytes" using unat_add_small [of 0 "length bytes"] assms(4) by simp
  have ok: "user_access_ok c dst (of_nat (length bytes)) True s" using copy by (auto simp: copy_to_user_def split: if_splits)
  obtain F' P' where st: "stored c R F P root dst bytes (length bytes) s s' F' P'"
    using copy_to_user_stored [OF assms(1-4) ok, of r] copy by auto
  have run: "task_get_current_pml4 c s = root" "task_get_current_pml4 c s' = root" "table_at s' (cr3 s') = root"
    using assms(2) st by (simp_all add: runs_def stored_def)
  have root: "root \<in> R" using process_okD(3) [OF assms(1)] assms(2) by (simp add: runs_def)
  have load: "vmm_user_accessible s' root va False" if "vmm_user_accessible s root va True" for va
    using that st may_store_load [of s' root va] unfolding user_accessible_may stored_def by auto
  have ok': "user_access_ok c dst (of_nat (length bytes)) False s'"
    using ok load unfolding user_access_ok_def run by (auto simp: list_all_iff)
  show ?thesis
  proof (cases "bytes = []")
    case True
    then show ?thesis using ok' by (simp add: copy_from_user_def)
  next
    case False
    have rg: "is_user_range dst (of_nat (length bytes))" using ok by (simp add: user_access_ok_def)
    have "\<forall>i < length bytes. may_load s' root (dst + of_nat i)"
      using access_ok_may [of c dst "of_nat (length bytes)" False s' root] ok' run unfolding len by simp
    then obtain vs where vs: "uaccess_copy_from_asm L c r' dst (length bytes) s' = Some (s', vs, 0)"
        "length vs = length bytes" "\<forall>i < length bytes. user_byte s' root (dst + of_nat i) = Some (vs ! i)"
      using copy_from_asm_spec [OF run(3)] by blast
    have "vs ! i = bytes ! i" if i: "i < length bytes" for i
    proof -
      have "unat (of_nat i :: u64) = i" using unat_add_small [of 0 i] i assms(4) by simp
      then have "user_byte s' root (dst + of_nat i) = Some (bytes ! i)"
        using st root user_range_at(2) [OF rg, unfolded len, OF i] priv i by (simp add: stored_def)
      then show ?thesis using vs(3) i by simp
    qed
    then have "vs = bytes" using vs(2) by (intro nth_equalityI) auto
    then show ?thesis using ok' vs(1) False len assms(4) by (simp add: copy_from_user_def unat_eq_0 [symmetric] del: unat_eq_0)
  qed
qed

section \<open>Strings\<close>

text \<open>
  There is a string of \<open>k - i\<close> characters at position \<open>i\<close>: the process may read it up to its NUL.
\<close>

definition string_from :: "'a machine_scheme \<Rightarrow> u64 \<Rightarrow> u64 \<Rightarrow> nat \<Rightarrow> nat \<Rightarrow> bool" where
  "string_from s root src i k \<longleftrightarrow> i \<le> k \<and>
     (\<forall>j. i \<le> j \<and> j \<le> k \<longrightarrow> src + of_nat j < USER_TOP \<and> may_load s root (src + of_nat j)) \<and>
     user_byte s root (src + of_nat k) = Some 0 \<and> (\<forall>j. i \<le> j \<and> j < k \<longrightarrow> user_byte s root (src + of_nat j) \<noteq> Some 0)"

lemma string_from_here: "string_from s root src i k \<Longrightarrow> src + of_nat i < USER_TOP \<and> may_load s root (src + of_nat i)"
  by (auto simp: string_from_def)

lemma string_from_end:
  "user_byte s root (src + of_nat i) = Some 0 \<Longrightarrow> src + of_nat i < USER_TOP \<Longrightarrow> may_load s root (src + of_nat i) \<Longrightarrow>
     string_from s root src i k \<longleftrightarrow> k = i"
  by (auto simp: string_from_def le_less dest: le_antisym)

lemma string_from_next:
  assumes "user_byte s root (src + of_nat i) = Some v" and "v \<noteq> 0" and "src + of_nat i < USER_TOP"
    and "may_load s root (src + of_nat i)"
  shows "string_from s root src i k \<longleftrightarrow> string_from s root src (Suc i) k"
proof -
  have split: "(\<forall>j. i \<le> j \<and> Q j \<longrightarrow> X j) \<longleftrightarrow> (Q i \<longrightarrow> X i) \<and> (\<forall>j. Suc i \<le> j \<and> Q j \<longrightarrow> X j)" for Q X
    by (metis Suc_leD Suc_le_eq le_less order_refl)
  have "i \<noteq> k" if "user_byte s root (src + of_nat k) = Some 0" using that assms(1,2) by auto
  then show ?thesis unfolding string_from_def split using assms by (auto simp: Suc_le_eq)
qed

lemma copy_string_spec:
  assumes hw: "table_at s (cr3 s) = root" and cur: "task_get_current_pml4 c s = root" and r0: "root \<noteq> 0"
    and src: "src \<noteq> 0" "src < USER_TOP"
  shows "i + n \<le> 4096 \<Longrightarrow> (i \<noteq> 0 \<Longrightarrow> may_load s root (src + of_nat (i - 1)) \<and> src + of_nat (i - 1) < USER_TOP) \<Longrightarrow>
    \<exists>bs res. copy_string_from L c r src i n s = Some (s, bs, res) \<and>
      (if \<exists>k < i + n. string_from s root src i k
       then \<exists>k < i + n. string_from s root src i k \<and> res = int k \<and> length bs = Suc k - i \<and>
         (\<forall>j. i \<le> j \<and> j \<le> k \<longrightarrow> user_byte s root (src + of_nat j) = Some (bs ! (j - i)))
       else res = -1)"
proof (induction n arbitrary: i)
  case 0
  then show ?case by (auto simp: string_from_def)
next
  case (Suc n)
  let ?a = "src + of_nat i"
  have u: "unat ?a = unat src + i"
    using src(2) Suc.prems(1) by (intro unat_add_small) (simp add: word_less_nat_alt)
  have a0: "?a \<noteq> 0" using u src(1) by (metis add_is_0 unat_eq_0)
  have one: "is_user_range ?a 1 \<longleftrightarrow> ?a < USER_TOP"
  proof -
    have "1 \<le> USER_TOP - ?a" if "?a < USER_TOP"
    proof -
      have "unat (USER_TOP - ?a) = 2 ^ 47 - unat ?a" using that by (simp add: unat_sub word_le_nat_alt word_less_nat_alt)
      then show ?thesis using that by (simp add: word_le_nat_alt word_less_nat_alt)
    qed
    then show ?thesis using a0 by (auto simp: is_user_range_def)
  qed
  have tp: "touched_pages ?a 1 = [?a AND NOT 4095]"
  proof -
    have "unat (?a AND 4095) < 4096" using unat_and_mask_mod [of ?a 12] by (simp add: mask_eq_exp_minus_1)
    then have "(unat (?a AND 4095) + 1 + 4095) div 4096 = 1" by simp
    then show ?thesis by (simp add: touched_pages_def page_at_def)
  qed
  have test: "user_access_ok c ?a 1 False s \<longleftrightarrow> ?a < USER_TOP \<and> may_load s root ?a"
    using may_page(1) [of ?a "?a AND NOT 4095" s root] page_floor_user(1,2) [of ?a] page_floor_id r0
    by (auto simp: user_access_ok_def one tp cur user_accessible_may)
  define ok where "ok \<longleftrightarrow> ?a < USER_TOP \<and> may_load s root ?a"
  have skip: ok if "\<not> (i = 0 \<or> ?a AND (PAGE_BYTES - 1) = 0)"
  proof -
    have i: "i \<noteq> 0" and na: "?a AND 4095 \<noteq> 0" using that by auto
    let ?b = "src + of_nat (i - 1)"
    have b: "?b < USER_TOP" "may_load s root ?b" using Suc.prems(2) [OF i] by auto
    have ub: "unat ?b = unat src + (i - 1)"
      using src(2) Suc.prems(1) by (intro unat_add_small) (simp add: word_less_nat_alt)
    have "unat (?a AND 4095) = unat ?a mod 4096" using unat_and_mask_mod [of ?a 12] by (simp add: mask_eq_exp_minus_1)
    then have m: "unat ?a mod 4096 \<noteq> 0" using na by (metis unat_eq_0)
    have s: "unat ?a = Suc (unat ?b)" using u ub i by simp
    have "unat ?b < 2 ^ 47" using b(1) by (simp add: word_less_nat_alt)
    moreover have "unat ?a \<noteq> 2 ^ 47" using m by auto
    ultimately have lt: "?a < USER_TOP" using s by (simp add: word_less_nat_alt)
    have "unat ?a div 4096 = unat ?b div 4096" using m unfolding s by (simp add: div_Suc mod_Suc split: if_splits)
    then have "?b AND NOT 4095 = ?a AND NOT 4095"
      using unat_page_floor [of ?a] unat_page_floor [of ?b] by (simp add: word_unat_eq_iff)
    then show ok using may_page(1) [OF lt b(1), of s root] b(2) lt by (simp add: ok_def)
  qed
  show ?case
  proof (cases ok)
    case False
    then have "i = 0 \<or> ?a AND (PAGE_BYTES - 1) = 0" "\<not> user_access_ok c ?a 1 False s"
      using skip test unfolding ok_def by blast+
    then have "copy_string_from L c r src i (Suc n) s = Some (s, [], -1)" by (auto simp: Let_def)
    moreover have "\<not> string_from s root src i k" for k
      using string_from_here [of s root src i k] False by (auto simp: ok_def)
    ultimately show ?thesis by auto
  next
    case True
    then have lt: "?a < USER_TOP" and ld: "may_load s root ?a" by (simp_all add: ok_def)
    obtain v where v: "user_load L c r ?a s = Some (s, Some v)" "user_byte s root ?a = Some v"
      using user_load_spec [OF hw ld] by blast
    have run: "copy_string_from L c r src i (Suc n) s =
      (if v = 0 then Some (s, [v], int i) else do {
         (s, vs, res) \<leftarrow> copy_string_from L c r src (Suc i) n s; Some (s, v # vs, res) })"
      using lt ld test v(1) by (simp add: ok_def)
    show ?thesis
    proof (cases "v = 0")
      case True
      note se = string_from_end [OF v(2) [unfolded True] lt ld]
      show ?thesis using run True v(2) by (auto simp: se le_antisym intro!: exI [of _ "[0]"] exI [of _ "int i"])
    next
      case False
      note nx = string_from_next [OF v(2) False lt ld]
      obtain bs res where ih: "copy_string_from L c r src (Suc i) n s = Some (s, bs, res)"
        "if \<exists>k < Suc i + n. string_from s root src (Suc i) k
         then \<exists>k < Suc i + n. string_from s root src (Suc i) k \<and> res = int k \<and> length bs = Suc k - Suc i \<and>
           (\<forall>j. Suc i \<le> j \<and> j \<le> k \<longrightarrow> user_byte s root (src + of_nat j) = Some (bs ! (j - Suc i)))
         else res = -1"
        using Suc.IH [of "Suc i"] Suc.prems(1) ld lt by auto
      have bytes: "user_byte s root (src + of_nat j) = Some ((v # bs) ! (j - i))"
        if "i \<le> j" "j \<le> k" "\<forall>j. Suc i \<le> j \<and> j \<le> k \<longrightarrow> user_byte s root (src + of_nat j) = Some (bs ! (j - Suc i))" for j k
      proof (cases "j = i")
        case True
        then show ?thesis using v(2) by simp
      next
        case False
        then have "Suc i \<le> j" using that(1) by simp
        then show ?thesis using that(2,3) False by (simp add: nth_Cons')
      qed
      show ?thesis
      proof (cases "\<exists>k < Suc i + n. string_from s root src (Suc i) k")
        case True
        with ih(2) obtain k where k: "k < Suc i + n" "string_from s root src (Suc i) k" "res = int k" "length bs = Suc k - Suc i"
          "\<forall>j. Suc i \<le> j \<and> j \<le> k \<longrightarrow> user_byte s root (src + of_nat j) = Some (bs ! (j - Suc i))" by auto
        have "Suc i \<le> k" using k(2) by (simp add: string_from_def)
        then show ?thesis using run False ih(1) k bytes [OF _ _ k(5)]
          by (intro exI [of _ "v # bs"] exI [of _ res]) (auto simp: nx)
      next
        case none: False
        then show ?thesis using run False ih by (intro exI [of _ "v # bs"] exI [of _ res]) (auto simp: nx)
      qed
    qed
  qed
qed

text \<open>
  C15: copying a string from user memory ends, changes nothing, and gives exactly the string with its NUL
  and its length when the process may read it up to a NUL within the capacity, also over several pages
  and when the page after the NUL is not there; else the error.
\<close>

theorem copy_user_string_correct:
  assumes "runs c s root" and "root \<noteq> 0"
  shows "\<exists>bs res. copy_user_string L c r src capacity s = Some (s, bs, res) \<and>
    (if 0 < capacity \<and> capacity \<le> USER_STRING_MAX \<and> is_user_range src 1 \<and> (\<exists>k < unat capacity. string_from s root src 0 k)
     then \<exists>k < unat capacity. string_from s root src 0 k \<and> res = int k \<and> length bs = Suc k \<and>
       (\<forall>j \<le> k. user_byte s root (src + of_nat j) = Some (bs ! j))
     else res = -1)"
proof (cases "capacity = 0 \<or> capacity > USER_STRING_MAX \<or> \<not> is_user_range src 1")
  case True
  then show ?thesis by (auto simp: copy_user_string_def)
next
  case False
  have rn: "table_at s (cr3 s) = root" "task_get_current_pml4 c s = root" using assms(1) by (simp_all add: runs_def)
  have src: "src \<noteq> 0" "src < USER_TOP" using False by (auto simp: is_user_range_def)
  have "0 + unat capacity \<le> 4096" using False by (simp add: word_le_nat_alt not_less)
  note cs = copy_string_spec [OF rn assms(2) src this, of L r, unfolded add_0 minus_nat.diff_0]
  obtain bs res where "copy_string_from L c r src 0 (unat capacity) s = Some (s, bs, res)"
    "if \<exists>k < unat capacity. string_from s root src 0 k
     then \<exists>k < unat capacity. string_from s root src 0 k \<and> res = int k \<and> length bs = Suc k \<and>
       (\<forall>j. 0 \<le> j \<and> j \<le> k \<longrightarrow> user_byte s root (src + of_nat j) = Some (bs ! j))
     else res = -1"
    using cs by (elim meta_impE exE conjE) auto
  then show ?thesis using False
    by (intro exI [of _ bs] exI [of _ res], cases "\<exists>k < unat capacity. string_from s root src 0 k")
      (auto simp: copy_user_string_def not_less word_gt_0)
qed

section \<open>Witnesses\<close>

definition tiny_labels :: copy_labels where
  "tiny_labels = \<lparr>from_load = 1, from_fault = 2, to_store = 3, to_fault = 4\<rparr>"

lemma tiny_access:
  assumes "runs 0 s tiny_root" "tiny_root \<noteq> 0" "may_store s tiny_root 0x400000"
  shows "user_access_ok 0 0x400000 1 True s"
  using assms by (simp add: user_access_ok_def is_user_range_def touched_pages_def page_at_def user_accessible_may runs_def)

lemma copy_to_user_correct_witness:
  "\<exists>(s :: shm_state) s' res. runs 0 s tiny_root \<and> copy_to_user tiny_labels 0 (regs zero_task) 0x400010 [7, 8] s = Some (s', res)"
proof -
  obtain s f where s: "process_ok 0 (s :: shm_state) {tiny_root} {f} {f}" "runs 0 s tiny_root"
    by (rule tiny_page [of "0x205"]) auto
  show ?thesis using copy_to_user_correct [OF s, where L = tiny_labels and bytes = "[7, 8]" and dst = "0x400010" and r = "regs zero_task"] s(2) by (auto simp: tiny_labels_def)
qed

lemma tiny_store:
  assumes "runs 0 s tiny_root" "upper_ok 3 s tiny_root 0x400000 True" "pt_lookup s tiny_root 0x400000 = Some e" "has e PTE_WRITE"
  shows "user_store L 0 (regs zero_task) 0x400000 v s =
    Some (s\<lparr>mem := (mem s)(vmm_pte_address e + (0x400000 AND 4095) + hhdm_offset s := v)\<rparr>, True)"
proof -
  have "hw_access s 0x400000 True = Inr (vmm_pte_address e + (0x400000 AND 4095))"
    using hw_walk_leaf [OF assms(2) pt_lookup_3 [OF assms(3)]] assms(1,4) by (simp add: hw_access_def runs_def)
  then show ?thesis by (subst user_store.simps) simp
qed

lemma copy_user_roundtrip_witness:
  "\<exists>(s :: shm_state) s'. copy_to_user tiny_labels 0 (regs zero_task) 0x400000 [42] s = Some (s', 0) \<and>
     copy_from_user tiny_labels 0 (regs zero_task) 0x400000 1 s' = Some (s', [42], 0)"
proof -
  obtain s f where s: "process_ok 0 (s :: shm_state) {tiny_root} {f} {f}" "runs 0 s tiny_root"
    and lk: "pt_lookup s tiny_root 0x400000 = Some (f OR 7)" "vmm_pte_address (f OR 7) = f"
    and fl: "\<And>g. g AND NOT PTE_FLAG_MASK = 0 \<Longrightarrow> has (f OR 7) g = has 7 g"
    and up: "upper_ok 3 s tiny_root 0x400000 True"
    by (rule tiny_page [of 7]) auto
  have e: "has (f OR 7) PTE_WRITE" "has (f OR 7) PTE_USER" using fl [of PTE_WRITE] fl [of PTE_USER] by (simp_all add: has_def)
  have "user_access_ok 0 0x400000 1 True s"
    by (rule tiny_access [OF s(2)]) (use up lk e in \<open>auto simp: may_store_def tiny_root_def\<close>)
  then obtain s' where c: "copy_to_user tiny_labels 0 (regs zero_task) 0x400000 [42] s = Some (s', 0)"
    using tiny_store [OF s(2) up lk(1) e(1)] by (simp add: copy_to_user_def)
  have "copy_from_user tiny_labels 0 (regs zero_task) 0x400000 (of_nat (length [42 :: u8])) s' = Some (s', [42], 0)"
    by (rule copy_user_roundtrip [OF s _ _ _ c]) (use lk in \<open>simp_all add: tiny_labels_def private_at_def\<close>)
  then show ?thesis using c by auto
qed

lemma copy_user_string_correct_witness:
  "\<exists>(s :: shm_state) bs res. runs 0 s tiny_root \<and>
     copy_user_string tiny_labels 0 (regs zero_task) 0x400000 16 s = Some (s, bs, res)"
proof -
  obtain s f where s: "process_ok 0 (s :: shm_state) {tiny_root} {f} {f}" "runs 0 s tiny_root"
    by (rule tiny_page [of 7]) auto
  show ?thesis using copy_user_string_correct [OF s(2), where L = tiny_labels and r = "regs zero_task" and src = "0x400000" and capacity = 16] s(2) by (auto simp: tiny_root_def)
qed

end
