(* ===== verification/TmpfsRefine.thy ===== *)
theory TmpfsRefine
  imports Tmpfs
begin

text \<open>
  The file table of \<^verbatim>\<open>fs/tmpfs.c\<close> as a transition system on abstract files, and the proof that the code
  of theory Tmpfs implements it: a list of requests run on the code answers and acts as the abstract
  table does.
\<close>

section \<open>The file system as a transition system\<close>

text \<open>
  A client's view of the operations, on the abstract table: what each request may answer and what it
  leaves. An operation that needs memory may fail at any time.
\<close>

datatype tfs_op =
  Create "u8 list"
| Unlink "u8 list"
| WriteAt int u64 "u8 list"
| ReadAt int u64 u64

datatype tfs_result = Status int | Bytes "u8 list option"

definition tfs_file :: "(u8 list \<times> u8 list) option list \<Rightarrow> int \<Rightarrow> (u8 list \<times> u8 list) option" where
  "tfs_file vs index = (if index < 0 \<or> index \<ge> int (length vs) then None else vs ! nat index)"

inductive tfs_step ::
    "(u8 list \<times> u8 list) option list \<Rightarrow> tfs_op \<Rightarrow> tfs_result \<Rightarrow> (u8 list \<times> u8 list) option list \<Rightarrow> bool"
where
  create_old: "slot_of vs (cstr nm) = Some i \<Longrightarrow> tfs_step vs (Create nm) (Status (int i)) vs"
| create_new: "slot_of vs (cstr nm) = None \<Longrightarrow> free_slot vs = Some i \<Longrightarrow>
    tfs_step vs (Create nm) (Status (int i)) (vs[i := Some (take 99 (cstr nm), [])])"
| create_fail: "slot_of vs (cstr nm) = None \<Longrightarrow> tfs_step vs (Create nm) (Status (-1)) vs"
| unlink_ok: "slot_of vs (cstr nm) = Some i \<Longrightarrow> tfs_step vs (Unlink nm) (Status 0) (vs[i := None])"
| unlink_fail: "slot_of vs (cstr nm) = None \<Longrightarrow> tfs_step vs (Unlink nm) (Status (-1)) vs"
| write_ok: "tfs_file vs ix = Some (nm, old) \<Longrightarrow> n = fitting (unat off) (length src) \<Longrightarrow>
    tfs_step vs (WriteAt ix off src) (Status (int n))
      (if n = 0 then vs else vs[nat ix := Some (nm, splice old (unat off) (take n src))])"
| write_fail: "tfs_step vs (WriteAt ix off src) (Status (-1)) vs"
| read_ok: "tfs_file vs ix = Some (nm, bs) \<Longrightarrow>
    tfs_step vs (ReadAt ix off count) (Bytes (Some (take (unat count) (drop (unat off) bs)))) vs"
| read_fail: "tfs_file vs ix = None \<Longrightarrow> tfs_step vs (ReadAt ix off count) (Bytes None) vs"

inductive tfs_steps where
  steps_nil: "tfs_steps vs [] [] vs"
| steps_cons: "tfs_step vs op r vs' \<Longrightarrow> tfs_steps vs' ops rs vs'' \<Longrightarrow> tfs_steps vs (op # ops) (r # rs) vs''"

inductive_cases unlink_stepE: "tfs_step vs (Unlink nm) r vs'"
inductive_simps read_step_simps: "tfs_step vs (ReadAt ix off count) r vs'"

text \<open>Running the code on a list of requests.\<close>

fun tmpfs_exec :: "tfs_op \<Rightarrow> 'a tmpfs_state_scheme \<Rightarrow> ('a tmpfs_state_scheme \<times> tfs_result) option" where
  "tmpfs_exec (Create nm) s = map_option (\<lambda>(s, r). (s, Status r)) (tmpfs_create (Some nm) s)"
| "tmpfs_exec (Unlink nm) s = map_option (\<lambda>(s, r). (s, Status r)) (tmpfs_unlink (Some nm) s)"
| "tmpfs_exec (WriteAt ix off src) s =
     map_option (\<lambda>(s, r). (s, Status r)) (tmpfs_write ix off (Some src) (of_nat (length src)) s)"
| "tmpfs_exec (ReadAt ix off count) s = Some (s, Bytes (tmpfs_read s ix off False count))"

fun tmpfs_run :: "tfs_op list \<Rightarrow> 'a tmpfs_state_scheme \<Rightarrow> ('a tmpfs_state_scheme \<times> tfs_result list) option" where
  "tmpfs_run [] s = Some (s, [])"
| "tmpfs_run (op # ops) s =
     (case tmpfs_exec op s of None \<Rightarrow> None
      | Some (s, r) \<Rightarrow> map_option (\<lambda>(s, rs). (s, r # rs)) (tmpfs_run ops s))"

text \<open>A write whose end does not wrap around; the callers' offsets and counts are far below.\<close>

fun op_ok :: "tfs_op \<Rightarrow> bool" where
  "op_ok (WriteAt ix off src) \<longleftrightarrow> unat off + length src < 2 ^ 64"
| "op_ok _ \<longleftrightarrow> True"

lemma tfs_file_view:
  "length (tmp_files s) = TMPFS_MAX_FILES \<Longrightarrow>
    tfs_file (tmpfs_view s) ix =
      (if ix < 0 \<or> ix \<ge> int TMPFS_MAX_FILES then None else view_file s (tmp_files s ! nat ix))"
  by (simp add: tfs_file_def nat_less_iff)

lemma exec_refines:
  assumes inv: "tmpfs_inv s R" and ok: "op_ok op"
  shows "\<exists>s' r. tmpfs_exec op s = Some (s', r) \<and> tmpfs_inv s' R \<and> tfs_step (tmpfs_view s) op r (tmpfs_view s')"
proof (cases op)
  case (Create nm)
  from tmpfs_create_spec [OF inv, of nm] show ?thesis unfolding Create
    by (cases "slot_of (tmpfs_view s) (cstr nm)") (auto intro: tfs_step.intros)
next
  case (Unlink nm)
  from tmpfs_unlink_spec [OF inv, of nm] show ?thesis unfolding Unlink
    by (cases "slot_of (tmpfs_view s) (cstr nm)") (auto intro: tfs_step.intros)
next
  case (WriteAt ix off src)
  note d = tmpfs_invD [OF inv]
  show ?thesis
  proof (cases "tfs_file (tmpfs_view s) ix")
    case None
    then have "tmpfs_write ix off (Some src) (of_nat (length src)) s = Some (s, -1)"
      using d(2) by (auto simp: tfs_file_view tmpfs_write_def view_file_def Let_def split: if_splits)
    then show ?thesis using inv unfolding WriteAt by (auto intro: write_fail)
  next
    case (Some f)
    then obtain nm old where f: "tfs_file (tmpfs_view s) ix = Some (nm, old)" by (cases f) auto
    then have ix: "0 \<le> ix" "nat ix < TMPFS_MAX_FILES" and v: "tmpfs_view s ! nat ix = Some (nm, old)"
      using d(2) by (auto simp: tfs_file_def split: if_splits)
    have fit: "unat off + length src < 2 ^ 64" using ok WriteAt by simp
    then have len: "unat (of_nat (length src) :: u64) = length src" by (simp add: unat_of_nat)
    let ?n = "fitting (unat off) (length src)"
    from tmpfs_write_spec [OF inv ix(2) v, of "of_nat (length src)" src off, unfolded len] fit ix(1)
    obtain s' r where h: "tmpfs_write ix off (Some src) (of_nat (length src)) s = Some (s', r)" "tmpfs_inv s' R"
      "if r = -1 then tmpfs_view s' = tmpfs_view s
       else r = int ?n \<and> tmpfs_view s' = (if r = 0 then tmpfs_view s else (tmpfs_view s)
         [nat ix := Some (nm, splice old (unat off) (take ?n src))])" by auto
    have "tfs_step (tmpfs_view s) (WriteAt ix off src) (Status r) (tmpfs_view s')"
    proof (cases "r = -1")
      case True
      then show ?thesis using h(3) by (simp add: write_fail)
    next
      case False
      then show ?thesis using h(3) write_ok [OF f refl, of off src] by simp
    qed
    then show ?thesis using h(1,2) unfolding WriteAt by simp
  qed
next
  case (ReadAt ix off count)
  note d = tmpfs_invD [OF inv]
  show ?thesis
  proof (cases "tfs_file (tmpfs_view s) ix")
    case None
    then have "tmpfs_read s ix off False count = None"
      using d(2) by (auto simp: tfs_file_view tmpfs_read_def view_file_def Let_def split: if_splits)
    then show ?thesis using inv None unfolding ReadAt by (simp add: read_step_simps)
  next
    case (Some f)
    then obtain nm old where f: "tfs_file (tmpfs_view s) ix = Some (nm, old)" by (cases f) auto
    then have ix: "0 \<le> ix" "nat ix < TMPFS_MAX_FILES" and v: "tmpfs_view s ! nat ix = Some (nm, old)"
      using d(2) by (auto simp: tfs_file_def split: if_splits)
    show ?thesis using inv f tmpfs_read_spec [OF inv ix(2) v, of off count] ix(1) unfolding ReadAt
      by (simp add: read_step_simps)
  qed
qed

lemma splice_back: "take (length bs) (drop off (splice old off bs)) = bs"
  by (simp add: splice_def)

section \<open>Properties\<close>

text \<open>A small state with one empty file of name a.\<close>

definition tiny_file :: tmpfs_file where
  "tiny_file = \<lparr>in_use = True, file_name = 97 # replicate 99 0, file_data = HEAP_START + HEADER,
     file_size = 0, file_cap = TMPFS_INITIAL_CAP\<rparr>"

definition tiny_tmpfs :: tmpfs_state where
  "tiny_tmpfs = \<lparr>bitmap = bitmap tiny_machine, refcounts = refcounts tiny_machine,
     total_pages = total_pages tiny_machine, free_pages = free_pages tiny_machine,
     last_alloc_index = 0, highest_address = 0x8000, hhdm_offset = hhdm_offset tiny_machine,
     mem = mem tiny_machine, kernel_pml4 = tiny_root, cr3 = 0x1000, active_cr3 = 0x1000, tlb_log = [],
     heap_blocks = [\<lparr>b_addr = HEAP_START, b_size = 4096, b_free = False\<rparr>,
        \<lparr>b_addr = HEAP_START + 4128, b_size = 61376, b_free = True\<rparr>],
     heap_end = HEAP_START + HEAP_SIZE,
     tmp_files = tiny_file # replicate 31 (clear_file tiny_file)\<rparr>"

lemma tiny_tmpfs_live: "live tiny_tmpfs = [HEAP_START + HEADER \<mapsto> 4096]"
  by (rule ext) (auto simp: tiny_tmpfs_def live_blocks_def)

lemma tiny_tmpfs_sound: "heap_sound tiny_tmpfs {tiny_root}"
proof -
  have "vm_ok tiny_tmpfs {tiny_root} {}"
    using tiny_vm_ok vm_ok_cong [of tiny_tmpfs tiny_machine] by (simp add: tiny_tmpfs_def)
  moreover have "blocks_ok (heap_blocks tiny_tmpfs) (heap_end tiny_tmpfs)"
    by (simp add: tiny_tmpfs_def blocks_ok_def no_free_pair_def)
  moreover have "kernel_pml4 tiny_tmpfs = tiny_root" by (simp add: tiny_tmpfs_def)
  moreover have "heap_apart tiny_tmpfs" by (simp add: heap_apart_def tiny_tmpfs_def tiny_machine_def)
  ultimately show ?thesis unfolding heap_sound_def heap_ok_def by blast
qed

lemma tiny_tmpfs_inv: "tmpfs_inv tiny_tmpfs {tiny_root}"
proof -
  have files: "tmp_files tiny_tmpfs = tiny_file # replicate 31 (clear_file tiny_file)"
    by (simp only: tiny_tmpfs_def tmpfs_state.simps)
  have mem: "mem tiny_tmpfs = mem tiny_machine" by (simp only: tiny_tmpfs_def machine.simps)
  have zero: "mem tiny_tmpfs (HEAP_START + HEADER + of_nat i) = 0" for i
    by (simp add: mem tiny_machine_def)
  have "file_ok tiny_tmpfs tiny_file"
    using zero by (simp add: file_ok_def tiny_file_def tiny_tmpfs_live)
  moreover have "file_ok tiny_tmpfs (clear_file tiny_file)"
    by (simp add: file_ok_def tiny_file_def clear_file_def)
  moreover have "apart_files (tiny_file # replicate n (clear_file tiny_file))" for n
    by (auto simp: apart_files_def nth_Cons' clear_file_def)
  ultimately show ?thesis using tiny_tmpfs_sound by (simp add: tmpfs_inv_def files)
qed

text \<open>
  C10: every list of create, unlink, write and read requests runs to its end on a sound state, keeps
  the invariant (so no two files share memory and no file overlaps another region of the heap), and
  its answers and effects are those of the abstract file table.
\<close>

theorem tmpfs_refines:
  assumes "tmpfs_inv s R" and "\<forall>op \<in> set ops. op_ok op"
  shows "\<exists>s' rs. tmpfs_run ops s = Some (s', rs) \<and> tmpfs_inv s' R \<and>
    tfs_steps (tmpfs_view s) ops rs (tmpfs_view s')"
  using assms
proof (induction ops arbitrary: s)
  case Nil
  then show ?case by (auto intro: steps_nil)
next
  case (Cons op ops)
  from exec_refines [OF Cons.prems(1), of op] Cons.prems(2) obtain s1 r where
    1: "tmpfs_exec op s = Some (s1, r)" "tmpfs_inv s1 R" "tfs_step (tmpfs_view s) op r (tmpfs_view s1)"
    by auto
  from Cons.IH [OF 1(2)] Cons.prems(2) obtain s' rs where
    "tmpfs_run ops s1 = Some (s', rs)" "tmpfs_inv s' R" "tfs_steps (tmpfs_view s1) ops rs (tmpfs_view s')"
    by auto
  then show ?case using 1 by (auto intro: steps_cons)
qed

lemma tmpfs_refines_witness:
  "\<exists>s' rs. tmpfs_run [Create [98], WriteAt 0 2 [1, 2, 3], ReadAt 0 0 10, Unlink [97]] tiny_tmpfs = Some (s', rs) \<and>
    tmpfs_inv s' {tiny_root}"
  using tmpfs_refines [OF tiny_tmpfs_inv, of "[Create [98], WriteAt 0 2 [1, 2, 3], ReadAt 0 0 10, Unlink [97]]"]
  by auto

text \<open>
  What a write stores can be read back: a write either fails and leaves every file as it was, or
  stores as many of the bytes as fit below 64 KiB, a read at the same offset then gives exactly these
  bytes, and every other file is unchanged.
\<close>

lemma tmpfs_read_back:
  assumes "tmpfs_inv s R" and "i < TMPFS_MAX_FILES" and "tmpfs_view s ! i = Some (nm, old)"
    and "unat off + length src < 2 ^ 64"
  shows "\<exists>s' r. tmpfs_write (int i) off (Some src) (of_nat (length src)) s = Some (s', r) \<and>
    (r = -1 \<and> tmpfs_view s' = tmpfs_view s \<or>
     r = int (min (length src) (65536 - unat off)) \<and>
     tmpfs_read s' (int i) off False (of_nat (nat r)) = Some (take (nat r) src) \<and>
     (\<forall>j < TMPFS_MAX_FILES. j \<noteq> i \<longrightarrow> tmpfs_view s' ! j = tmpfs_view s ! j))"
proof -
  have len: "unat (of_nat (length src) :: u64) = length src" using assms(4) by (simp add: unat_of_nat)
  let ?n = "fitting (unat off) (length src)"
  from tmpfs_write_spec [OF assms(1-3), of "of_nat (length src)" src off, unfolded len] assms(4)
  obtain s' r where h: "tmpfs_write (int i) off (Some src) (of_nat (length src)) s = Some (s', r)"
    "tmpfs_inv s' R" "if r = -1 then tmpfs_view s' = tmpfs_view s
      else r = int ?n \<and> tmpfs_view s' = (if r = 0 then tmpfs_view s else (tmpfs_view s)
         [i := Some (nm, splice old (unat off) (take ?n src))])" by auto
  show ?thesis
  proof (cases "r = -1")
    case True
    then show ?thesis using h(1,3) by auto
  next
    case False
    then have r: "r = int ?n" and v: "tmpfs_view s' = (if ?n = 0 then tmpfs_view s else (tmpfs_view s)
         [i := Some (nm, splice old (unat off) (take ?n src))])" using h(3) by auto
    have n: "?n \<le> length src" "?n < 2 ^ 64" using assms(4) by (auto simp: fitting_def)
    have il: "i < length (tmpfs_view s)" using tmpfs_invD(2) [OF assms(1)] assms(2) by simp
    have l: "length (take ?n src) = ?n" using n(1) by simp
    obtain bs where bs: "tmpfs_view s' ! i = Some (nm, bs)" "take ?n (drop (unat off) bs) = take ?n src"
    proof (cases "?n = 0")
      case True
      then show ?thesis using that [of old] v assms(3) by simp
    next
      case False
      let ?bs = "splice old (unat off) (take ?n src)"
      have "tmpfs_view s' ! i = Some (nm, ?bs)" using v il False by simp
      then show ?thesis using that [of ?bs] splice_back [of "take ?n src" "unat off" old, unfolded l] by simp
    qed
    have "unat (of_nat ?n :: u64) = ?n" using n(2) by (simp add: unat_of_nat)
    then have "tmpfs_read s' (int i) off False (of_nat ?n) = Some (take ?n src)"
      using tmpfs_read_spec [OF h(2) assms(2) bs(1), of off "of_nat ?n"] bs(2) by simp
    then show ?thesis using h(1) r v by (auto simp: fitting_def)
  qed
qed

lemma tmpfs_read_back_witness: "\<exists>s' r. tmpfs_write 0 2 (Some [1, 2, 3]) 3 tiny_tmpfs = Some (s', r)"
proof -
  have "tmpfs_view tiny_tmpfs ! 0 = Some ([97], [])"
    by (simp add: tmpfs_view_def tiny_tmpfs_def heap_state.defs view_file_def tiny_file_def file_bytes_def
        kheap.contents_def cstr_def)
  from tmpfs_read_back [OF tiny_tmpfs_inv _ this, of 2 "[1, 2, 3]"] show ?thesis by auto
qed

end
