(* ===== verification/VfsProps.thy ===== *)
theory VfsProps
  imports Vfs TmpfsRefine
begin

text \<open>
  The properties of the file layer: every operation keeps the descriptor table sound, a file of the
  archive reads back through the cache as it was stored, what is written through a descriptor reads
  back through it, and a closed descriptor is refused.
\<close>

section \<open>Runs\<close>

datatype vfs_op =
  VOpen "u8 list option" u32
| VClose int
| VRead int bool u64
| VWrite int "u8 list"
| VSeek int u64 int
| VReaddir int "u8 list option" bool
| VCreate "u8 list option"
| VUnlink "u8 list option"

fun vfs_exec :: "vfs_op \<Rightarrow> 'a vfs_state_scheme \<Rightarrow> 'a vfs_state_scheme option" where
  "vfs_exec (VOpen nm flags) s = map_option fst (vfs_open nm flags s)"
| "vfs_exec (VClose fd) s = Some (fst (vfs_close fd s))"
| "vfs_exec (VRead fd buf_null count) s = map_option fst (vfs_read fd buf_null count s)"
| "vfs_exec (VWrite fd src) s = map_option fst (vfs_write fd (Some src) (of_nat (length src)) s)"
| "vfs_exec (VSeek fd off wh) s = Some (fst (vfs_seek fd off wh s))"
| "vfs_exec (VReaddir fd nb size_null) s = map_option fst (vfs_readdir fd nb size_null s)"
| "vfs_exec (VCreate nm) s = map_option fst (vfs_create nm s)"
| "vfs_exec (VUnlink nm) s = map_option fst (vfs_unlink nm s)"

fun_cases vfs_exec_OpenE: "vfs_exec (VOpen nm flags) s = Some s'"

primrec vfs_run :: "vfs_op list \<Rightarrow> 'a vfs_state_scheme \<Rightarrow> 'a vfs_state_scheme option" where
  "vfs_run [] s = Some s"
| "vfs_run (op # ops) s = Option.bind (vfs_exec op s) (vfs_run ops)"

fun write_fits :: "vfs_op \<Rightarrow> bool" where
  "write_fits (VWrite fd src) \<longleftrightarrow> length src < 2 ^ 63"
| "write_fits _ \<longleftrightarrow> True"

lemma vfs_exec_inv:
  assumes "vfs_inv s R" and "write_fits op" and "vfs_exec op s = Some s'"
  shows "vfs_inv s' R"
proof -
  show ?thesis
  proof (cases op)
    case (VWrite fd src)
    then obtain r where "vfs_write fd (Some src) (of_nat (length src)) s = Some (s', r)"
      using assms(3) by auto
    moreover have "length src < 2 ^ 63" using assms(2) VWrite by simp
    ultimately show ?thesis using vfs_write_inv assms(1) by blast
  next
    case (VRead fd b n)
    then obtain r where "vfs_read fd b n s = Some (s', r)" using assms(3) by auto
    then show ?thesis using vfs_read_inv assms(1) by blast
  next
    case (VOpen nm flags)
    then obtain r where "vfs_open nm flags s = Some (s', r)" using assms(3) by auto
    then show ?thesis using vfs_open_inv assms(1) by blast
  next
    case (VReaddir fd nb z)
    then obtain r where "vfs_readdir fd nb z s = Some (s', r)" using assms(3) by auto
    then show ?thesis using vfs_readdir_inv assms(1) by blast
  next
    case (VCreate nm)
    then obtain r where "vfs_create nm s = Some (s', r)" using assms(3) by auto
    then show ?thesis using vfs_create_inv assms(1) by blast
  next
    case (VUnlink nm)
    then obtain r where "vfs_unlink nm s = Some (s', r)" using assms(3) by auto
    then show ?thesis using vfs_unlink_inv assms(1) by blast
  qed (use assms vfs_close_inv vfs_seek_inv in auto)
qed


section \<open>Reading the archive\<close>

definition tar_files :: "(u8 list \<times> u8 list) list \<Rightarrow> u8 list \<Rightarrow> u8 list option" where
  "tar_files fs nm = (if length nm < CACHE_NAME_MAX
     then map_option (\<lambda>i. snd (fs ! i)) (find_idx (\<lambda>f. fst f = nm) fs) else None)"

definition archive_ready :: "'a vfs_state_scheme \<Rightarrow> (u8 list \<times> u8 list) list \<Rightarrow> bool" where
  "archive_ready s fs \<longleftrightarrow> tar_archive s \<noteq> 0 \<and> (\<forall>f \<in> set fs. tar_file_ok f) \<and>
     unat (tar_archive s) + length (tar_image fs) < 2 ^ 64 \<and>
     mem_bytes (mem s) (tar_archive s) (length (tar_image fs)) = tar_image fs \<and>
     cache_inv (vcache s) \<and> coherent (tar_files fs) (vcache s)"

lemma entry_addr_inside:
  "\<forall>f \<in> set fs. tar_file_ok f \<Longrightarrow> i < length fs \<Longrightarrow> unat p + length (tar_image fs) < 2 ^ 64 \<Longrightarrow>
   unat p \<le> unat (entry_addr p fs i) \<and>
   unat (entry_addr p fs i) + 512 \<le> unat p + length (tar_image fs)"
proof (induction p fs i rule: entry_addr.induct)
  case (3 p f fs i)
  let ?k = "512 + blocks (length (snd f))"
  have l: "length (tar_image (f # fs)) = ?k + length (tar_image fs)"
    using 3(2) blocks_ge [of "length (snd f)"] by (simp add: tar_file_ok_def)
  have "unat (p + of_nat ?k) = unat p + ?k" using 3(4) l by (intro unat_add_small) linarith
  then show ?case using 3 l by simp
next
  case (2 p f fs)
  then show ?case using blocks_ge [of "length (snd f)"] by (auto simp: tar_file_ok_def)
qed auto

text \<open>A descriptor in the middle of a file.\<close>

definition reading :: "(u8 list \<Rightarrow> u8 list option) \<Rightarrow> nat \<Rightarrow> u8 list \<Rightarrow> nat \<Rightarrow> 'a vfs_state_scheme \<Rightarrow> bool" where
  "reading files i bs pos s \<longleftrightarrow> cache_inv (vcache s) \<and> coherent files (vcache s) \<and>
     length bs < 2 ^ 31 \<and> pos \<le> length bs \<and> i < VFS_MAX_FDS \<and>
     (\<exists>fs. fds s = Some fs \<and> i < length fs \<and> fd_type (fs ! i) = VFS_TYPE_FILE \<and> fd_tmpfs_idx (fs ! i) = -1 \<and>
        files (cstr (fd_name (fs ! i))) = Some bs \<and> length (cstr (fd_name (fs ! i))) < CACHE_NAME_MAX \<and>
        unat (fd_offset (fs ! i)) = pos \<and> file_at (mem s) (fd_data (fs ! i)) (fd_size (fs ! i)) bs)"

lemma advance_nat: "fd_offset (advance (int n) f) = fd_offset f + of_nat n"
  by (simp add: advance_def)

lemma vfs_read_step:
  assumes r: "reading files i bs pos s"
  shows "\<exists>s'. vfs_read (int i) False n s = Some (s', Some (take (unat n) (drop pos bs))) \<and>
    reading files i bs (pos + length (take (unat n) (drop pos bs))) s'"
proof -
  obtain fs where fs: "fds s = Some fs" "i < length fs" "fd_type (fs ! i) = VFS_TYPE_FILE"
    "fd_tmpfs_idx (fs ! i) = -1" "files (cstr (fd_name (fs ! i))) = Some bs"
    "length (cstr (fd_name (fs ! i))) < CACHE_NAME_MAX" "unat (fd_offset (fs ! i)) = pos"
    "file_at (mem s) (fd_data (fs ! i)) (fd_size (fs ! i)) bs"
    and c: "cache_inv (vcache s)" "coherent files (vcache s)" "length bs < 2 ^ 31" "pos \<le> length bs" "i < VFS_MAX_FDS"
    using r by (auto simp: reading_def)
  let ?f = "fs ! i"
  let ?xs = "take (unat n) (drop pos bs)"
  have ok: "\<not> bad_fd (int i)" using c(5) by (simp add: bad_fd_def)
  have end_: "fd_offset ?f \<ge> fd_size ?f \<longleftrightarrow> length bs \<le> pos"
    using fs(7,8) by (simp add: word_le_nat_alt file_at_def)
  show ?thesis
  proof (cases "length bs \<le> pos")
    case True
    then have "vfs_read (int i) False n s = Some (s, Some [])"
      using ok fs end_ by (simp add: vfs_read_def)
    then show ?thesis using True r by simp
  next
    case False
    obtain c' where c': "cache_read (mem s) (Some (fd_name ?f)) (fd_data ?f) (fd_size ?f) (fd_offset ?f) False n
        (vcache s) = Some (c', Some ?xs)" "cache_inv c'" "coherent files c'"
      using cache_read_spec [OF c(1,2) fs(6,5,8)] fs(7) by blast
    have len: "length ?xs < 2 ^ 31" using c(3) by simp
    let ?g = "advance (transfer_result (Some ?xs)) ?f"
    let ?s = "set_fd (int i) ?g (s\<lparr>vcache := c'\<rparr>)"
    have run: "vfs_read (int i) False n s = Some (?s, Some ?xs)"
      using ok fs(1,3,4) end_ False c'(1) by (simp add: vfs_read_def Let_def)
    have fin: "pos + length ?xs \<le> length bs" using c(4) by simp
    have "length bs < 2 ^ 64" using c(3) by simp
    with fin have "pos + length ?xs < 2 ^ 64" by (rule le_less_trans)
    then have "unat (fd_offset ?f + of_nat (length ?xs)) = pos + length ?xs"
      using unat_add_small [of "fd_offset ?f" "length ?xs"] unfolding fs(7) by simp
    then have pos: "unat (fd_offset ?g) = pos + length ?xs"
      unfolding transfer_result_small [OF len] advance_nat .
    have "fds ?s = Some (fs[i := ?g])" "mem ?s = mem s" "vcache ?s = c'" using fs(1) by simp_all
    then have "reading files i bs (pos + length ?xs) ?s"
      unfolding reading_def using c(3,5) c'(2,3) fs pos fin by (intro conjI exI [of _ "fs[i := ?g]"]) simp_all
    then show ?thesis using run by blast
  qed
qed

lemma take_more: "take n (drop p bs) @ take k (drop (p + length (take n (drop p bs))) bs) = take (n + k) (drop p bs)"
proof (cases "n \<le> length bs - p")
  case True
  then have "length (take n (drop p bs)) = n" by simp
  then show ?thesis by (simp only: take_add drop_drop add.commute [of n p])
qed simp

primrec vfs_reads :: "int \<Rightarrow> u64 list \<Rightarrow> 'a vfs_state_scheme \<Rightarrow> ('a vfs_state_scheme \<times> u8 list) option" where
  "vfs_reads fd [] s = Some (s, [])"
| "vfs_reads fd (n # ns) s =
     (case vfs_read fd False n s of
        Some (s, Some xs) \<Rightarrow> map_option (\<lambda>(s, ys). (s, xs @ ys)) (vfs_reads fd ns s)
      | _ \<Rightarrow> None)"

lemma vfs_reads_all:
  "reading files i bs pos s \<Longrightarrow>
   \<exists>s'. vfs_reads (int i) ns s = Some (s', take (sum_list (map unat ns)) (drop pos bs))"
proof (induction ns arbitrary: s pos)
  case Nil
  then show ?case by simp
next
  case (Cons n ns)
  let ?xs = "take (unat n) (drop pos bs)"
  obtain t where t: "vfs_read (int i) False n s = Some (t, Some ?xs)" "reading files i bs (pos + length ?xs) t"
    using vfs_read_step [OF Cons.prems] by blast
  obtain u where u: "vfs_reads (int i) ns t = Some (u, take (sum_list (map unat ns)) (drop (pos + length ?xs) bs))"
    using Cons.IH [OF t(2)] by blast
  then show ?case using t(1) take_more [of "unat n" pos bs "sum_list (map unat ns)"] by simp
qed


text \<open>A small kernel state: an empty heap file table, a fresh cache and an archive of one file.\<close>

definition tiny_archive :: "(u8 list \<times> u8 list) list" where
  "tiny_archive = [([98], [7, 8, 9])]"

definition tiny_fd :: vfs_fd where
  "tiny_fd = \<lparr>fd_type = VFS_TYPE_NONE, fd_name = replicate 100 0, fd_data = 0, fd_size = 0,
     fd_offset = 0, fd_writable = False, fd_tmpfs_idx = -1\<rparr>"

definition tiny_vfs :: vfs_state where
  "tiny_vfs = \<lparr>bitmap = bitmap tiny_machine, refcounts = refcounts tiny_machine,
     total_pages = total_pages tiny_machine, free_pages = free_pages tiny_machine,
     last_alloc_index = 0, highest_address = 0x8000, hhdm_offset = hhdm_offset tiny_machine,
     mem = (\<lambda>a. if 16 \<le> unat a \<and> unat a < 16 + length (tar_image tiny_archive)
       then tar_image tiny_archive ! (unat a - 16) else 0),
     kernel_pml4 = tiny_root, cr3 = 0x1000, active_cr3 = 0x1000, tlb_log = [],
     heap_blocks = [], heap_end = HEAP_START + HEAP_SIZE,
     tmp_files = replicate 32 (clear_file tiny_file), vcache = cache_init blank_cache, tar_archive = 16,
     fds = Some (replicate 16 tiny_fd)\<rparr>"

lemma tiny_vfs_ready: "archive_ready tiny_vfs tiny_archive"
proof -
  have len: "length (tar_image tiny_archive) = 1025" by (simp add: tiny_archive_def blocks_def)
  have ok: "\<forall>f \<in> set tiny_archive. tar_file_ok f" by (simp add: tiny_archive_def tar_file_ok_def)
  have "mem_bytes (mem tiny_vfs) 16 (length (tar_image tiny_archive)) = tar_image tiny_archive"
  proof (rule nth_equalityI)
    fix i assume "i < length (mem_bytes (mem tiny_vfs) 16 (length (tar_image tiny_archive)))"
    then have "i < 1025" unfolding len by simp
    then have "unat (16 + of_nat i :: u64) = 16 + i" using unat_add_small [of 16 i] by simp
    then show "mem_bytes (mem tiny_vfs) 16 (length (tar_image tiny_archive)) ! i = tar_image tiny_archive ! i"
      using \<open>i < 1025\<close> by (simp add: tiny_vfs_def len)
  qed simp
  then show ?thesis using ok len fresh_cache by (simp add: archive_ready_def tiny_vfs_def)
qed


section \<open>Writing through a descriptor\<close>

lemma sint_small:
  fixes w :: u64
  assumes "unat w < 2 ^ 63"
  shows "sint w = uint w" and "uint w < 2 ^ 63"
proof -
  have "int (unat w) < int (2 ^ 63)" using assms by (simp only: of_nat_less_iff)
  then show b: "uint w < 2 ^ 63" by simp
  have "0 \<le> uint w" by simp
  then have "- (2 ^ 63) \<le> uint w" by (rule order.trans [rotated]) simp
  then show "sint w = uint w" using signed_take_bit_int_eq_self [OF _ b] by (simp add: sint_uint)
qed

lemma sint_small32:
  fixes w :: u64
  assumes "unat w < 2 ^ 31"
  shows "sint (ucast w :: u32) = int (unat w)"
proof -
  let ?v = "ucast w :: u32"
  have v: "unat ?v = unat w" using assms by (simp add: unsigned_ucast_eq take_bit_eq_mod)
  then have "int (unat ?v) < int (2 ^ 31)" using assms by (simp only: of_nat_less_iff)
  then have b: "uint ?v < 2 ^ 31" by simp
  have "0 \<le> uint ?v" by simp
  then have "- (2 ^ 31) \<le> uint ?v" by (rule order.trans [rotated]) simp
  then have "sint ?v = uint ?v" using signed_take_bit_int_eq_self [OF _ b] by (simp add: sint_uint)
  then show ?thesis using v by (metis uint_nat)
qed

lemma seek_pos_set:
  assumes "unat off \<le> unat (fd_size f)" and "unat (fd_size f) < 2 ^ 63"
  shows "seek_pos off 0 f = off"
proof -
  have "unat off < 2 ^ 63" using assms by linarith
  then have o': "sint off = int (unat off)" and sz: "sint (fd_size f) = int (unat (fd_size f))"
    using sint_small(1) [of off] sint_small(1) [OF assms(2)] by (simp_all only: uint_nat)
  have "\<not> sint off < 0" unfolding o' by simp
  moreover have "\<not> sint off > sint (fd_size f)" unfolding o' sz using assms(1) by (simp only: of_nat_less_iff not_less)
  ultimately show ?thesis by (simp add: seek_pos_def Let_def)
qed

lemma splice_length: "length (splice old off bs) = max (length old) (off + length bs)"
  by (auto simp: splice_def)

text \<open>
  C37: what is written through a descriptor over tmpfs reads back through it: the write either fails or
  stores as many bytes as fit, advances the descriptor by them and brings its size up to date, and
  seeking back to where it began and reading that many bytes gives exactly the bytes written.
\<close>

theorem vfs_write_read_back:
  assumes inv: "vfs_inv s R" and tab: "fds s = Some fs" and fd: "i < VFS_MAX_FDS"
    and f: "fd_type (fs ! i) = VFS_TYPE_FILE" "fd_writable (fs ! i)" "fd_tmpfs_idx (fs ! i) = int k"
    and v: "tmpfs_view s ! k = Some (nm, old)" and len: "length src < 2 ^ 31"
  shows "\<exists>s1 r. vfs_write (int i) (Some src) (of_nat (length src)) s = Some (s1, r) \<and> vfs_inv s1 R \<and>
    (0 < r \<longrightarrow> (let (s2, pos) = vfs_seek (int i) (fd_offset (fs ! i)) 0 s1 in
       pos = int (unat (fd_offset (fs ! i))) \<and>
       (\<exists>s3. vfs_read (int i) False (of_nat (nat r)) s2 = Some (s3, Some (take (nat r) src)))))"
proof -
  let ?f = "fs ! i" and ?off = "fd_offset (fs ! i)"
  have ti: "tmpfs_inv s R" and fo: "fds_ok s" using inv by (simp_all add: vfs_inv_def)
  have bf: "\<not> bad_fd (int i)" using fd by (simp add: bad_fd_def)
  have il: "i < length fs" and fok: "fd_ok ?f" using fds_okD [OF fo tab bf] by simp_all
  have k: "k < TMPFS_MAX_FILES" and o64: "?off \<le> TMPFS_MAX_SIZE" using fok f by (auto simp: fd_ok_def)
  have o': "unat ?off \<le> 65536" using o64 by (simp add: word_le_nat_alt)
  have n: "unat (of_nat (length src) :: u64) = length src" using len by (simp add: unat_of_nat)
  let ?n = "fitting (unat ?off) (length src)"
  have fits: "unat ?off + length src < 2 ^ 64" using o' len by simp
  from tmpfs_write_spec [OF ti k v, of "of_nat (length src)" src ?off, unfolded n] fits
  obtain t r where w: "tmpfs_write (int k) ?off (Some src) (of_nat (length src)) s = Some (t, r)" "tmpfs_inv t R"
    "if r = -1 then tmpfs_view t = tmpfs_view s
     else r = int ?n \<and> tmpfs_view t = (if r = 0 then tmpfs_view s else (tmpfs_view s)
       [k := Some (nm, splice old (unat ?off) (take ?n src))])" by auto
  let ?g = "(advance r ?f)\<lparr>fd_size := entry_size t (int k)\<rparr>"
  let ?s1 = "if r > 0 then set_fd (int i) ?g t else t"
  have run: "vfs_write (int i) (Some src) (of_nat (length src)) s = Some (?s1, r)"
    using bf tab f w(1) by (simp add: vfs_write_def)
  have inv1: "vfs_inv ?s1 R" using vfs_write_inv [OF inv _ run] len by simp
  show ?thesis
  proof (cases "r > 0")
    case False
    then show ?thesis using run inv1 by auto
  next
    case True
    then have r: "r = int ?n" and vt: "tmpfs_view t = (tmpfs_view s) [k := Some (nm, splice old (unat ?off) (take ?n src))]"
      using w(3) by (auto split: if_splits)
    have n0: "0 < ?n" and nl: "?n \<le> length src" and nb: "unat ?off + ?n \<le> 65536"
      using True r o' by (auto simp: fitting_def)
    have l: "length (take ?n src) = ?n" using nl by simp
    let ?new = "splice old (unat ?off) (take ?n src)"
    have vk: "tmpfs_view t ! k = Some (nm, ?new)"
      using vt tmpfs_invD(2) [OF ti] k by simp
    have sz: "unat (entry_size t (int k)) = length ?new" using entry_size_view(1) [OF w(2) k] vk by simp
    have lt: "unat ?off < unat (entry_size t (int k))" unfolding sz splice_length l using n0 by simp
    have small: "unat (entry_size t (int k)) \<le> 65536"
      using entry_size_view(2) [OF w(2) k] by (simp add: word_le_nat_alt)
    have tf: "fds t = Some fs" using vfs_more(3) [OF more_write [OF w(1)]] tab by simp
    let ?s1 = "set_fd (int i) ?g t"
    have "unat (entry_size t (int k)) < 2 ^ 63" using small by (rule le_less_trans) simp
    then have sp: "seek_pos ?off 0 ?g = ?off" using lt by (intro seek_pos_set) simp_all
    let ?h = "?g\<lparr>fd_offset := ?off\<rparr>"
    let ?s2 = "set_fd (int i) ?h ?s1"
    have seek: "vfs_seek (int i) ?off 0 ?s1 = (?s2, sint (ucast ?off :: u32))"
      using bf tf f(1) il sp by (simp add: vfs_seek_def Let_def)
    have pos: "sint (ucast ?off :: u32) = int (unat ?off)" using o' by (simp add: sint_small32)
    have rn: "unat (of_nat ?n :: u64) = ?n" using nb by (simp add: unat_of_nat)
    have rd: "tmpfs_read ?s2 (int k) ?off False (of_nat ?n) = Some (take ?n src)"
    proof -
      have "tmpfs_inv ?s2 R" "tmpfs_view ?s2 ! k = Some (nm, ?new)" using w(2) vk by simp_all
      from tmpfs_read_spec [OF this(1) k this(2), of ?off "of_nat ?n"] show ?thesis
        unfolding rn using splice_back [of "take ?n src" "unat ?off" old, unfolded l] by simp
    qed
    have nle: "(entry_size t (int k) \<le> ?off) = False" using lt by (simp add: word_le_nat_alt)
    have "\<exists>s3. vfs_read (int i) False (of_nat (nat r)) ?s2 = Some (s3, Some (take (nat r) src))"
      using bf tf f(1,3) il nle rd r by (simp add: vfs_read_def Let_def)
    then show ?thesis using run inv1 seek pos True by (intro exI [of _ ?s1] exI [of _ r]) simp
  qed
qed

lemma tmpfs_inv_cong:
  assumes "bitmap s' = bitmap s" "refcounts s' = refcounts s" "total_pages s' = total_pages s"
    "free_pages s' = free_pages s" "hhdm_offset s' = hhdm_offset s" "mem s' = mem s"
    "kernel_pml4 s' = kernel_pml4 s" "heap_blocks s' = heap_blocks s" "heap_end s' = heap_end s"
    "tmp_files s' = tmp_files s"
  shows "tmpfs_inv s' R = tmpfs_inv s R" and "tmpfs_view s' = tmpfs_view s"
proof -
  have "vm_ok s' R F = vm_ok s R F" for F using assms(1-6) by (rule vm_ok_cong)
  then show "tmpfs_inv s' R = tmpfs_inv s R"
    by (simp add: tmpfs_inv_def heap_sound_def heap_ok_def heap_apart_def file_ok_def assms)
  show "tmpfs_view s' = tmpfs_view s"
    by (simp add: tmpfs_view_def view_file_def file_bytes_def kheap.contents_def assms fun_eq_iff)
qed

definition tiny_open :: vfs_state where
  "tiny_open = \<lparr>bitmap = bitmap tiny_tmpfs, refcounts = refcounts tiny_tmpfs,
     total_pages = total_pages tiny_tmpfs, free_pages = free_pages tiny_tmpfs,
     last_alloc_index = 0, highest_address = 0x8000, hhdm_offset = hhdm_offset tiny_tmpfs,
     mem = mem tiny_tmpfs, kernel_pml4 = kernel_pml4 tiny_tmpfs, cr3 = 0x1000, active_cr3 = 0x1000, tlb_log = [],
     heap_blocks = heap_blocks tiny_tmpfs, heap_end = heap_end tiny_tmpfs,
     tmp_files = tmp_files tiny_tmpfs, vcache = cache_init blank_cache, tar_archive = 0,
     fds = Some (tmpfs_fd [97] 0 0 tiny_fd # replicate 15 tiny_fd)\<rparr>"

lemma tiny_open_inv: "vfs_inv tiny_open {tiny_root}" "tmpfs_view tiny_open = tmpfs_view tiny_tmpfs"
proof -
  note c = tmpfs_inv_cong [of tiny_open tiny_tmpfs, OF _ _ _ _ _ _ _ _ _ _]
  have "tmpfs_inv tiny_open {tiny_root} = tmpfs_inv tiny_tmpfs {tiny_root}"
    by (rule c(1)) (simp_all add: tiny_open_def)
  moreover have "fds_ok tiny_open"
    by (auto simp: fds_ok_def tiny_open_def fd_ok_def tmpfs_fd_def tiny_fd_def)
  ultimately show "vfs_inv tiny_open {tiny_root}" using tiny_tmpfs_inv by (simp add: vfs_inv_def)
  show "tmpfs_view tiny_open = tmpfs_view tiny_tmpfs" by (rule c(2)) (simp_all add: tiny_open_def)
qed

lemma tiny_view: "tmpfs_view tiny_tmpfs ! 0 = Some ([97], [])"
  by (simp add: tmpfs_view_def tiny_tmpfs_def view_file_def tiny_file_def file_bytes_def
      kheap.contents_def cstr_def)

lemma vfs_write_read_back_witness:
  "\<exists>s1 r. vfs_write 0 (Some [1, 2, 3]) 3 tiny_open = Some (s1, r) \<and> vfs_inv s1 {tiny_root}"
proof -
  have tab: "fds tiny_open = Some (tmpfs_fd [97] 0 0 tiny_fd # replicate 15 tiny_fd)" by (simp add: tiny_open_def)
  have v: "tmpfs_view tiny_open ! 0 = Some ([97], [])" using tiny_view tiny_open_inv(2) by simp
  from vfs_write_read_back [OF tiny_open_inv(1) tab, of 0 0 "[97]" "[]" "[1, 2, 3]"] v
  show ?thesis by (auto simp: tmpfs_fd_def)
qed


text \<open>
  A descriptor that has been closed is refused by every operation, which then changes nothing;
  closing it twice is an error; the other descriptors and the files stay as they were.
\<close>

lemma vfs_closed_refused:
  assumes "vfs_inv s R" and "vfs_close fd s = (s', 0)"
  shows "vfs_close fd s' = (s', -1) \<and> vfs_read fd b n s' = Some (s', None) \<and>
    vfs_write fd buf n s' = Some (s', -1) \<and> vfs_seek fd off wh s' = (s', -1) \<and>
    vfs_readdir fd nb b s' = Some (s', None) \<and> tmpfs_view s' = tmpfs_view s \<and>
    (\<forall>i. i \<noteq> nat fd \<longrightarrow> the (fds s') ! i = the (fds s) ! i)"
proof -
  obtain fs where fs: "fds s = Some fs" "\<not> bad_fd fd"
    using assms(2) by (auto simp: vfs_close_def split: if_splits option.splits)
  let ?f = "(fs ! nat fd)\<lparr>fd_type := VFS_TYPE_NONE, fd_writable := False, fd_tmpfs_idx := -1\<rparr>"
  have s': "s' = s\<lparr>fds := Some (fs[nat fd := ?f])\<rparr>"
    using assms(2) fs by (auto simp: vfs_close_def Let_def split: if_splits)
  have "nat fd < length fs" using fds_okD [OF _ fs] assms(1) by (auto simp: vfs_inv_def)
  then have "fds s' = Some (fs[nat fd := ?f])" "fd_type (fs[nat fd := ?f] ! nat fd) = VFS_TYPE_NONE"
    by (simp_all add: s')
  moreover have "tmpfs_view s' = tmpfs_view s" by (simp add: s')
  moreover have "\<forall>i. i \<noteq> nat fd \<longrightarrow> the (fds s') ! i = the (fds s) ! i"
    by (simp add: s' fs(1))
  ultimately show ?thesis using fs(2)
    by (simp add: vfs_close_def vfs_read_def vfs_write_def vfs_seek_def vfs_readdir_def split: option.split)
qed

lemma vfs_closed_refused_witness: "\<exists>s'. vfs_close 0 tiny_open = (s', 0) \<and> vfs_seek 0 5 0 s' = (s', -1)"
proof -
  obtain s' where c: "vfs_close 0 tiny_open = (s', 0)"
    by (simp add: vfs_close_def bad_fd_def tiny_open_def tmpfs_fd_def)
  from vfs_closed_refused [OF tiny_open_inv(1) c, of False 0 None 5 0 None] c show ?thesis by blast
qed

end
