(* ===== verification/Fips180.thy ===== *)
theory Fips180
  imports Complex_Main Prelude
begin

text \<open>
  The secure hash SHA-256 as FIPS 180-4 states it, over a message of whole bytes, with nothing taken
  from the program: the six logical functions over the library's rotation, the constants as the
  fractional parts of the roots of the first primes, the message schedule by its recurrence, the
  padding by its congruence. It is the specification that \<^verbatim>\<open>crypto/sha256.c\<close> is measured against.
\<close>

section \<open>Functions (4.1.2)\<close>

definition fips_Ch :: "u32 \<Rightarrow> u32 \<Rightarrow> u32 \<Rightarrow> u32" where
  "fips_Ch x y z = (x AND y) XOR (NOT x AND z)"

definition fips_Maj :: "u32 \<Rightarrow> u32 \<Rightarrow> u32 \<Rightarrow> u32" where
  "fips_Maj x y z = (x AND y) XOR (x AND z) XOR (y AND z)"

definition fips_Sigma0 :: "u32 \<Rightarrow> u32" where
  "fips_Sigma0 x = word_rotr 2 x XOR word_rotr 13 x XOR word_rotr 22 x"

definition fips_Sigma1 :: "u32 \<Rightarrow> u32" where
  "fips_Sigma1 x = word_rotr 6 x XOR word_rotr 11 x XOR word_rotr 25 x"

definition fips_sigma0 :: "u32 \<Rightarrow> u32" where
  "fips_sigma0 x = word_rotr 7 x XOR word_rotr 18 x XOR x div 2 ^ 3"

definition fips_sigma1 :: "u32 \<Rightarrow> u32" where
  "fips_sigma1 x = word_rotr 17 x XOR word_rotr 19 x XOR x div 2 ^ 10"

section \<open>Constants (4.2.2 and 5.3.3)\<close>

text \<open>
  The first thirty-two bits of the fractional part of a real number; the constants of the rounds take
  the cube roots of the first sixty-four primes, the initial hash value the square roots of the
  first eight.
\<close>

definition is_prime :: "nat \<Rightarrow> bool" where
  "is_prime n \<longleftrightarrow> 2 \<le> n \<and> list_all (\<lambda>d. \<not> d dvd n) [2 ..< n]"

definition first_primes :: "nat \<Rightarrow> nat list" where
  "first_primes k = take k (filter is_prime [2 ..< 312])"

definition frac_bits :: "real \<Rightarrow> u32" where
  "frac_bits x = of_int \<lfloor>frac x * 2 ^ 32\<rfloor>"

definition fips_K :: "u32 list" where
  "fips_K = map (\<lambda>p. frac_bits (root 3 (real p))) (first_primes 64)"

definition fips_H0 :: "u32 list" where
  "fips_H0 = map (\<lambda>p. frac_bits (sqrt (real p))) (first_primes 8)"

section \<open>Preprocessing (5.1.1 and 5.2.1)\<close>

text \<open>A number of \<open>k\<close> bytes and the number that bytes stand for, most significant byte first.\<close>

definition be_bytes :: "nat \<Rightarrow> nat \<Rightarrow> u8 list" where
  "be_bytes k v = map (\<lambda>i. of_nat (v div 256 ^ (k - Suc i))) [0 ..< k]"

definition be_number :: "u8 list \<Rightarrow> nat" where
  "be_number bs = foldl (\<lambda>v b. 256 * v + unat b) 0 bs"

text \<open>
  A one bit, the least number of zeros that leaves room for the length in the last block, and the
  length in bits as a 64-bit number. (The standard takes messages below \<open>2 ^ 64\<close> bits.)
\<close>

definition fips_pad :: "u8 list \<Rightarrow> u8 list" where
  "fips_pad m = m @ [0x80] @ replicate (LEAST k. (length m + 1 + k) mod 64 = 56) 0 @
     be_bytes 8 (8 * length m)"

definition fips_word :: "u8 list \<Rightarrow> nat \<Rightarrow> u32" where
  "fips_word block t = of_nat (be_number (take 4 (drop (4 * t) block)))"

definition fips_parse :: "u8 list \<Rightarrow> u8 list list" where
  "fips_parse m = map (\<lambda>i. take 64 (drop (64 * i) m)) [0 ..< length m div 64]"

section \<open>The hash computation (6.2.2)\<close>

fun fips_W :: "u8 list \<Rightarrow> nat \<Rightarrow> u32" where
  "fips_W block t =
     (if t < 16 then fips_word block t
      else fips_sigma1 (fips_W block (t - 2)) + fips_W block (t - 7) +
           fips_sigma0 (fips_W block (t - 15)) + fips_W block (t - 16))"

declare fips_W.simps [simp del]

type_synonym working_vars = "u32 \<times> u32 \<times> u32 \<times> u32 \<times> u32 \<times> u32 \<times> u32 \<times> u32"

primrec fips_rounds :: "(nat \<Rightarrow> u32) \<Rightarrow> nat \<Rightarrow> working_vars \<Rightarrow> working_vars" where
  "fips_rounds W 0 v = v"
| "fips_rounds W (Suc t) v =
     (case fips_rounds W t v of (a, b, c, d, e, f, g, h) \<Rightarrow>
        let T1 = h + fips_Sigma1 e + fips_Ch e f g + fips_K ! t + W t;
            T2 = fips_Sigma0 a + fips_Maj a b c
        in (T1 + T2, a, b, c, d + T1, e, f, g))"

definition fips_block :: "u32 list \<Rightarrow> u8 list \<Rightarrow> u32 list" where
  "fips_block H block =
     (case fips_rounds (fips_W block) 64 (H ! 0, H ! 1, H ! 2, H ! 3, H ! 4, H ! 5, H ! 6, H ! 7) of
        (a, b, c, d, e, f, g, h) \<Rightarrow> map2 (+) [a, b, c, d, e, f, g, h] H)"

definition fips_sha256 :: "u8 list \<Rightarrow> u8 list" where
  "fips_sha256 m =
     concat (map (\<lambda>w. be_bytes 4 (unat w)) (foldl fips_block fips_H0 (fips_parse (fips_pad m))))"

section \<open>The constants in figures\<close>

text \<open>A root is pinned by the powers of its neighbours.\<close>

lemma frac_bits_floor: "frac_bits x = of_int \<lfloor>x * 2 ^ 32\<rfloor>"
proof -
  have "frac x * 2 ^ 32 = x * 2 ^ 32 - of_int (\<lfloor>x\<rfloor> * 2 ^ 32)" by (simp add: frac_def algebra_simps)
  then have "\<lfloor>frac x * 2 ^ 32\<rfloor> = \<lfloor>x * 2 ^ 32\<rfloor> - \<lfloor>x\<rfloor> * 2 ^ 32" by (simp only: floor_diff_of_int)
  moreover have "(2 ^ 32 :: u32) = 0" by (rule bit_eqI) (simp only: bit_exp_iff, simp)
  ultimately show ?thesis by (simp only: frac_bits_def of_int_diff of_int_mult of_int_power of_int_numeral) simp
qed

lemma frac_bits_root:
  assumes k: "0 < k" and low: "c ^ k \<le> p * 2 ^ (32 * k)" and high: "p * 2 ^ (32 * k) < (c + 1) ^ k"
  shows "frac_bits (root k (real p)) = of_nat c"
proof -
  let ?x = "root k (real p) * 2 ^ 32"
  have x: "?x ^ k = real (p * 2 ^ (32 * k))" using k by (simp add: power_mult_distrib power_mult)
  have pos: "0 \<le> ?x" using k by simp
  have "real c ^ k \<le> ?x ^ k" unfolding x using low by (simp only: of_nat_le_iff flip: of_nat_power)
  then have "real c \<le> ?x" by (rule iffD1 [OF power_mono_iff, rotated 3]) (use pos k in simp_all)
  moreover have "?x ^ k < real (c + 1) ^ k" unfolding x using high by (simp only: of_nat_less_iff flip: of_nat_power)
  then have "?x < real (c + 1)" by (rule power_less_imp_less_base) simp
  ultimately have "\<lfloor>?x\<rfloor> = int c" by (simp add: floor_eq_iff)
  then show ?thesis by (simp add: frac_bits_floor)
qed

lemma frac_bits_roots:
  assumes "0 < k" and "list_all2 (\<lambda>p c. c ^ k \<le> p * 2 ^ (32 * k) \<and> p * 2 ^ (32 * k) < (c + 1) ^ k) ps cs"
  shows "map (\<lambda>p. frac_bits (root k (real p))) ps = map of_nat cs"
  using assms(2) frac_bits_root [OF assms(1)] by (induction rule: list_all2_induct) auto

text \<open>Below \<open>18\<^sup>2\<close> a number without a divisor among the primes up to seventeen is prime.\<close>

lemma small_divisor:
  assumes "2 \<le> d" "d < (18 :: nat)" "d dvd n"
  shows "\<exists>p \<in> {2, 3, 5, 7, 11, 13, 17}. p dvd n"
proof -
  have "d = 2 \<or> d = 3 \<or> d = 4 \<or> d = 5 \<or> d = 6 \<or> d = 7 \<or> d = 8 \<or> d = 9 \<or> d = 10 \<or> d = 11 \<or>
      d = 12 \<or> d = 13 \<or> d = 14 \<or> d = 15 \<or> d = 16 \<or> d = 17"
    using assms(1,2) by presburger
  then have "2 dvd d \<or> 3 dvd d \<or> 5 dvd d \<or> 7 dvd d \<or> 11 dvd d \<or> 13 dvd d \<or> 17 dvd d" by (elim disjE) simp_all
  then show ?thesis using dvd_trans assms(3) by blast
qed

lemma is_prime_small:
  assumes "n < 324"
  shows "is_prime n \<longleftrightarrow> 2 \<le> n \<and> list_all (\<lambda>p. p dvd n \<longrightarrow> p = n) [2, 3, 5, 7, 11, 13, 17]"
    (is "_ \<longleftrightarrow> _ \<and> ?small")
proof (cases "2 \<le> n")
  case True
  have "?small" if "is_prime n"
  proof -
    have "p = n" if "2 \<le> p" "p dvd n" for p
      using \<open>is_prime n\<close> that dvd_imp_le [OF that(2)] by (fastforce simp: is_prime_def list_all_iff)
    note p = this
    show ?thesis unfolding list_all_iff
    proof (intro ballI impI)
      fix q
      assume "q \<in> set [2, 3, 5, 7, 11, 13, 17]" "q dvd n"
      then show "q = n" by (intro p) auto
    qed
  qed
  moreover have "is_prime n" if s: "?small"
  proof (rule ccontr)
    assume "\<not> is_prime n"
    then obtain d where d: "2 \<le> d" "d < n" "d dvd n" using True by (auto simp: is_prime_def list_all_iff)
    obtain e where e: "n = d * e" using d(3) by (rule dvdE)
    have "e \<noteq> 0" "e \<noteq> 1" using d e by auto
    then have "2 \<le> e" by simp
    moreover have "1 * e < d * e" using d(1) \<open>e \<noteq> 0\<close> by (intro mult_less_mono1) simp_all
    ultimately have e2: "2 \<le> e" "e < n" "e dvd n" using e by simp_all
    have "\<exists>q. 2 \<le> q \<and> q < 18 \<and> q dvd n \<and> q < n"
    proof (cases "d < 18")
      case True
      then show ?thesis using d by blast
    next
      case False
      have "e < 18"
      proof (rule ccontr)
        assume "\<not> e < 18"
        then have "18 * 18 \<le> d * e" using False by (intro mult_le_mono) simp_all
        then show False using e assms by simp
      qed
      then show ?thesis using e2 by blast
    qed
    then obtain q where q: "2 \<le> q" "q < 18" "q dvd n" "q < n" by blast
    have "\<exists>p \<in> {2, 3, 5, 7, 11, 13, 17}. p dvd q" using small_divisor [of q q] q by simp
    then obtain p where p: "p \<in> {2, 3, 5, 7, 11, 13, 17}" "p dvd q" by blast
    have "p dvd n" using p(2) q(3) dvd_trans by blast
    then have "p = n" using s p(1) by auto
    then show False using dvd_imp_le [OF p(2)] q by simp
  qed
  ultimately show ?thesis using True by blast
qed (simp add: is_prime_def)

lemma primes_below_312:
  "filter is_prime [2 ..< 312] = [
    2, 3, 5, 7, 11, 13, 17, 19, 23, 29, 31, 37, 41, 43, 47, 53,
    59, 61, 67, 71, 73, 79, 83, 89, 97, 101, 103, 107, 109, 113, 127, 131,
    137, 139, 149, 151, 157, 163, 167, 173, 179, 181, 191, 193, 197, 199, 211, 223,
    227, 229, 233, 239, 241, 251, 257, 263, 269, 271, 277, 281, 283, 293, 307, 311]"
  by (simp add: is_prime_small)

lemma first_primes_64:
  "first_primes 64 = [
    2, 3, 5, 7, 11, 13, 17, 19, 23, 29, 31, 37, 41, 43, 47, 53,
    59, 61, 67, 71, 73, 79, 83, 89, 97, 101, 103, 107, 109, 113, 127, 131,
    137, 139, 149, 151, 157, 163, 167, 173, 179, 181, 191, 193, 197, 199, 211, 223,
    227, 229, 233, 239, 241, 251, 257, 263, 269, 271, 277, 281, 283, 293, 307, 311]"
  unfolding first_primes_def primes_below_312 by simp

lemma first_primes_8: "first_primes 8 = [2, 3, 5, 7, 11, 13, 17, 19]"
  unfolding first_primes_def primes_below_312 by simp

lemma fips_K_eq:
  "fips_K = map of_nat [
    0x1428a2f98, 0x171374491, 0x1b5c0fbcf, 0x1e9b5dba5, 0x23956c25b, 0x259f111f1,
    0x2923f82a4, 0x2ab1c5ed5, 0x2d807aa98, 0x312835b01, 0x3243185be, 0x3550c7dc3,
    0x372be5d74, 0x380deb1fe, 0x39bdc06a7, 0x3c19bf174, 0x3e49b69c1, 0x3efbe4786,
    0x40fc19dc6, 0x4240ca1cc, 0x42de92c6f, 0x44a7484aa, 0x45cb0a9dc, 0x476f988da,
    0x4983e5152, 0x4a831c66d, 0x4b00327c8, 0x4bf597fc7, 0x4c6e00bf3, 0x4d5a79147,
    0x506ca6351, 0x514292967, 0x527b70a85, 0x52e1b2138, 0x54d2c6dfc, 0x553380d13,
    0x5650a7354, 0x5766a0abb, 0x581c2c92e, 0x592722c85, 0x5a2bfe8a1, 0x5a81a664b,
    0x5c24b8b70, 0x5c76c51a3, 0x5d192e819, 0x5d6990624, 0x5f40e3585, 0x6106aa070,
    0x619a4c116, 0x61e376c08, 0x62748774c, 0x634b0bcb5, 0x6391c0cb3, 0x64ed8aa4a,
    0x65b9cca4f, 0x6682e6ff3, 0x6748f82ee, 0x678a5636f, 0x684c87814, 0x68cc70208,
    0x690befffa, 0x6a4506ceb, 0x6bef9a3f7, 0x6c67178f2]"
  unfolding fips_K_def first_primes_64 by (rule frac_bits_roots) simp_all

lemma fips_H0_eq:
  "fips_H0 = map of_nat [
    0x16a09e667, 0x1bb67ae85, 0x23c6ef372, 0x2a54ff53a, 0x3510e527f, 0x39b05688c, 0x41f83d9ab, 0x45be0cd19]"
  unfolding fips_H0_def first_primes_8 sqrt_def by (rule frac_bits_roots) simp_all

section \<open>Bytes and words\<close>

lemma length_be_bytes [simp]: "length (be_bytes k v) = k"
  by (simp add: be_bytes_def)

lemma number_step: "(of_nat (256 * v + unat (b :: u8)) :: u32) = push_bit 8 (of_nat v) OR ucast b"
proof -
  have "push_bit 8 (of_nat v :: u32) + ucast b = push_bit 8 (of_nat v) OR ucast b"
    by (rule disjunctive_add) (auto simp: bit_simps dest: bit_imp_le_length)
  moreover have "(of_nat (256 * v + unat b) :: u32) = push_bit 8 (of_nat v) + ucast b"
    by (simp add: push_bit_eq_mult)
  ultimately show ?thesis by simp
qed

lemma be_number_4:
  "(of_nat (be_number [a, b, c, d]) :: u32) =
     push_bit 24 (ucast a) OR push_bit 16 (ucast b) OR push_bit 8 (ucast c) OR ucast d"
proof -
  have "be_number [a, b, c, d] = 256 * (256 * (256 * (256 * 0 + unat a) + unat b) + unat c) + unat d"
    by (simp add: be_number_def)
  then show ?thesis by (simp only: number_step push_bit_or push_bit_push_bit) (simp add: or.assoc)
qed

lemma be_bytes_4:
  "be_bytes 4 (unat (w :: u32)) =
     [ucast (drop_bit 24 w), ucast (drop_bit 16 w), ucast (drop_bit 8 w), ucast w]"
proof -
  have b: "(of_nat (unat w div 2 ^ n) :: u8) = ucast (drop_bit n w)" for n
    by (rule bit_eqI) (auto simp: bit_simps simp flip: drop_bit_eq_div)
  show ?thesis using b [of 24] b [of 16] b [of 8] b [of 0] by (simp add: be_bytes_def upt_rec)
qed

lemma be_bytes_8:
  "be_bytes 8 v =
     (let w = of_nat v :: u64
      in [ucast (drop_bit 56 w), ucast (drop_bit 48 w), ucast (drop_bit 40 w), ucast (drop_bit 32 w),
          ucast (drop_bit 24 w), ucast (drop_bit 16 w), ucast (drop_bit 8 w), ucast w])"
proof -
  have b: "(of_nat (v div 2 ^ n) :: u8) = ucast (drop_bit n (of_nat v :: u64))" if "n \<le> 56" for n
    by (rule bit_eqI) (use that in \<open>auto simp: bit_simps simp flip: drop_bit_eq_div\<close>)
  show ?thesis using b [of 56] b [of 48] b [of 40] b [of 32] b [of 24] b [of 16] b [of 8] b [of 0]
    by (simp add: be_bytes_def upt_rec Let_def)
qed

end
