(* ===== verification/Sha256.thy ===== *)
theory Sha256
  imports Fips180
begin

text \<open>
  SHA-256, \<^verbatim>\<open>crypto/sha256.c\<close>: the compression function, the streaming context that buffers partial
  blocks, and the proof that streaming a message in any chunks gives the hash that FIPS 180-4 defines
  on the whole padded message.
\<close>

section \<open>Data\<close>

record sha256_ctx =
  sha_state :: "u32 list"
  bitcount :: u64
  sha_buffer :: "u8 list"
  buflen :: nat

text \<open>The round constants, in the rows of the source.\<close>

definition sha_K :: "u32 list" where
  "sha_K = concat
    [[0x428a2f98, 0x71374491, 0xb5c0fbcf, 0xe9b5dba5],
     [0x3956c25b, 0x59f111f1, 0x923f82a4, 0xab1c5ed5],
     [0xd807aa98, 0x12835b01, 0x243185be, 0x550c7dc3],
     [0x72be5d74, 0x80deb1fe, 0x9bdc06a7, 0xc19bf174],
     [0xe49b69c1, 0xefbe4786, 0x0fc19dc6, 0x240ca1cc],
     [0x2de92c6f, 0x4a7484aa, 0x5cb0a9dc, 0x76f988da],
     [0x983e5152, 0xa831c66d, 0xb00327c8, 0xbf597fc7],
     [0xc6e00bf3, 0xd5a79147, 0x06ca6351, 0x14292967],
     [0x27b70a85, 0x2e1b2138, 0x4d2c6dfc, 0x53380d13],
     [0x650a7354, 0x766a0abb, 0x81c2c92e, 0x92722c85],
     [0xa2bfe8a1, 0xa81a664b, 0xc24b8b70, 0xc76c51a3],
     [0xd192e819, 0xd6990624, 0xf40e3585, 0x106aa070],
     [0x19a4c116, 0x1e376c08, 0x2748774c, 0x34b0bcb5],
     [0x391c0cb3, 0x4ed8aa4a, 0x5b9cca4f, 0x682e6ff3],
     [0x748f82ee, 0x78a5636f, 0x84c87814, 0x8cc70208],
     [0x90befffa, 0xa4506ceb, 0xbef9a3f7, 0xc67178f2]]"

definition ROTR :: "u32 \<Rightarrow> nat \<Rightarrow> u32" where
  "ROTR x n = drop_bit n x OR push_bit (32 - n) x"

definition CH :: "u32 \<Rightarrow> u32 \<Rightarrow> u32 \<Rightarrow> u32" where
  "CH x y z = (x AND y) XOR (NOT x AND z)"

definition MAJ :: "u32 \<Rightarrow> u32 \<Rightarrow> u32 \<Rightarrow> u32" where
  "MAJ x y z = (x AND y) XOR (x AND z) XOR (y AND z)"

definition EP0 :: "u32 \<Rightarrow> u32" where
  "EP0 x = ROTR x 2 XOR ROTR x 13 XOR ROTR x 22"

definition EP1 :: "u32 \<Rightarrow> u32" where
  "EP1 x = ROTR x 6 XOR ROTR x 11 XOR ROTR x 25"

definition SIG0 :: "u32 \<Rightarrow> u32" where
  "SIG0 x = ROTR x 7 XOR ROTR x 18 XOR drop_bit 3 x"

definition SIG1 :: "u32 \<Rightarrow> u32" where
  "SIG1 x = ROTR x 17 XOR ROTR x 19 XOR drop_bit 10 x"

section \<open>The compression function\<close>

definition be32_at :: "u8 list \<Rightarrow> nat \<Rightarrow> u32" where
  "be32_at b i =
     push_bit 24 (ucast (b ! i)) OR push_bit 16 (ucast (b ! (i + 1))) OR
     push_bit 8 (ucast (b ! (i + 2))) OR ucast (b ! (i + 3))"

definition schedule :: "u8 list \<Rightarrow> u32 list" where
  "schedule block =
     fold (\<lambda>i W. W @ [SIG1 (W ! (i - 2)) + W ! (i - 7) + SIG0 (W ! (i - 15)) + W ! (i - 16)])
       [16 ..< 64] (map (\<lambda>i. be32_at block (i * 4)) [0 ..< 16])"

type_synonym work = "u32 \<times> u32 \<times> u32 \<times> u32 \<times> u32 \<times> u32 \<times> u32 \<times> u32"

fun sha_round :: "u32 \<Rightarrow> u32 \<Rightarrow> work \<Rightarrow> work" where
  "sha_round k w (a, b, c, d, e, f, g, h) =
     (let t1 = h + EP1 e + CH e f g + k + w;
          t2 = EP0 a + MAJ a b c
      in (t1 + t2, a, b, c, d + t1, e, f, g))"

definition sha256_compress :: "u32 list \<Rightarrow> u8 list \<Rightarrow> u32 list" where
  "sha256_compress st block =
     (let W = schedule block
      in case fold (\<lambda>i. sha_round (sha_K ! i) (W ! i)) [0 ..< 64]
                (st ! 0, st ! 1, st ! 2, st ! 3, st ! 4, st ! 5, st ! 6, st ! 7) of
           (a, b, c, d, e, f, g, h) \<Rightarrow>
             [st ! 0 + a, st ! 1 + b, st ! 2 + c, st ! 3 + d,
              st ! 4 + e, st ! 5 + f, st ! 6 + g, st ! 7 + h])"

definition sha256_transform :: "sha256_ctx \<Rightarrow> u8 list \<Rightarrow> sha256_ctx" where
  "sha256_transform ctx block = ctx\<lparr>sha_state := sha256_compress (sha_state ctx) block\<rparr>"

section \<open>The streaming interface\<close>

definition sha_H0 :: "u32 list" where
  "sha_H0 = [0x6a09e667, 0xbb67ae85, 0x3c6ef372, 0xa54ff53a,
             0x510e527f, 0x9b05688c, 0x1f83d9ab, 0x5be0cd19]"

text \<open>The buffer is uninitialised in C; its contents before \<open>buflen\<close> never matter.\<close>

definition sha256_init :: "u8 list \<Rightarrow> sha256_ctx" where
  "sha256_init garbage = \<lparr>sha_state = sha_H0, bitcount = 0, sha_buffer = garbage, buflen = 0\<rparr>"

definition overwrite :: "'a list \<Rightarrow> nat \<Rightarrow> 'a list \<Rightarrow> 'a list" where
  "overwrite buf off xs = take off buf @ xs @ drop (off + length xs) buf"

function sha256_blocks :: "sha256_ctx \<Rightarrow> u8 list \<Rightarrow> sha256_ctx" where
  "sha256_blocks ctx p =
     (if length p \<ge> 64 then sha256_blocks (sha256_transform ctx (take 64 p)) (drop 64 p)
      else ctx\<lparr>sha_buffer := overwrite (sha_buffer ctx) 0 p, buflen := length p\<rparr>)"
  by pat_completeness auto
termination by (relation "measure (\<lambda>(ctx, p). length p)") auto

declare sha256_blocks.simps [simp del]

definition sha256_update :: "sha256_ctx \<Rightarrow> u8 list \<Rightarrow> sha256_ctx" where
  "sha256_update ctx p =
     (let ctx = ctx\<lparr>bitcount := bitcount ctx + of_nat (length p) * 8\<rparr>
      in if buflen ctx > 0
         then let need = 64 - buflen ctx
              in if length p < need
                 then ctx\<lparr>sha_buffer := overwrite (sha_buffer ctx) (buflen ctx) p,
                         buflen := buflen ctx + length p\<rparr>
                 else let ctx = ctx\<lparr>sha_buffer := overwrite (sha_buffer ctx) (buflen ctx) (take need p)\<rparr>;
                          ctx = sha256_transform ctx (sha_buffer ctx)
                      in sha256_blocks (ctx\<lparr>buflen := 0\<rparr>) (drop need p)
         else sha256_blocks ctx p)"

definition be64 :: "u64 \<Rightarrow> u8 list" where
  "be64 bits = [ucast (drop_bit 56 bits), ucast (drop_bit 48 bits), ucast (drop_bit 40 bits),
     ucast (drop_bit 32 bits), ucast (drop_bit 24 bits), ucast (drop_bit 16 bits),
     ucast (drop_bit 8 bits), ucast bits]"

definition be32 :: "u32 \<Rightarrow> u8 list" where
  "be32 w = [ucast (drop_bit 24 w), ucast (drop_bit 16 w), ucast (drop_bit 8 w), ucast w]"

definition sha256_final :: "sha256_ctx \<Rightarrow> u8 list" where
  "sha256_final ctx =
     (let buf = (sha_buffer ctx)[buflen ctx := 0x80];
          pad_start = buflen ctx + 1;
          (ctx, buf, pad_start) =
            (if pad_start > 56
             then (let buf = overwrite buf pad_start (replicate (64 - pad_start) 0)
                   in (sha256_transform ctx buf, buf, 0))
             else (ctx, buf, pad_start));
          buf = overwrite buf pad_start (replicate (56 - pad_start) 0);
          buf = overwrite buf 56 (be64 (bitcount ctx));
          ctx = sha256_transform ctx buf
      in concat (map be32 (sha_state ctx)))"

definition sha256_hash :: "u8 list \<Rightarrow> u8 list \<Rightarrow> u8 list" where
  "sha256_hash garbage p = sha256_final (sha256_update (sha256_init garbage) p)"

definition hexchars :: string where
  "hexchars = ''0123456789abcdef''"

definition sha256_to_hex :: "u8 list \<Rightarrow> string" where
  "sha256_to_hex digest =
     concat (map (\<lambda>d. [hexchars ! unat (drop_bit 4 d AND 0xF), hexchars ! unat (d AND 0xF)]) digest) @ [CHR 0x00]"

section \<open>Chaining the blocks of a whole message\<close>

text \<open>
  The code's compression function over the blocks of a message that is given at once, and what is
  left of a partial block; \<open>sha_pad\<close> is the padding that \<open>sha256_final\<close> adds. This is the middle step
  between the streaming context and the standard.
\<close>

function chain :: "u32 list \<Rightarrow> u8 list \<Rightarrow> u32 list \<times> u8 list" where
  "chain st m = (if length m \<ge> 64 then chain (sha256_compress st (take 64 m)) (drop 64 m) else (st, m))"
  by pat_completeness auto
termination by (relation "measure (\<lambda>(st, m). length m)") auto

declare chain.simps [simp del]

definition sha_pad :: "u8 list \<Rightarrow> u8 list" where
  "sha_pad m = m @ 0x80 # replicate ((119 - length m mod 64) mod 64) 0 @ be64 (of_nat (length m) * 8)"

definition sha256_chained :: "u8 list \<Rightarrow> u8 list" where
  "sha256_chained m = concat (map be32 (fst (chain sha_H0 (sha_pad m))))"

lemma blocks_short [simp]:
  "length p < 64 \<Longrightarrow>
    sha256_blocks ctx p = ctx\<lparr>sha_buffer := overwrite (sha_buffer ctx) 0 p, buflen := length p\<rparr>"
  by (subst sha256_blocks.simps) simp

lemma blocks_long:
  "64 \<le> length p \<Longrightarrow>
    sha256_blocks ctx p = sha256_blocks (sha256_transform ctx (take 64 p)) (drop 64 p)"
  by (subst sha256_blocks.simps) simp

lemma chain_long:
  "64 \<le> length m \<Longrightarrow> chain st m = chain (sha256_compress st (take 64 m)) (drop 64 m)"
  by (subst chain.simps) simp

lemma chain_short [simp]: "length m < 64 \<Longrightarrow> chain st m = (st, m)"
  by (simp add: chain.simps)

lemma chain_block: "length b = 64 \<Longrightarrow> chain st (b @ m) = chain (sha256_compress st b) m"
  by (simp add: chain.simps [of st "b @ m"])

lemma chain_append: "chain st (m @ xs) = (case chain st m of (st', r) \<Rightarrow> chain st' (r @ xs))"
proof (induction st m rule: chain.induct)
  case (1 st m)
  show ?case
  proof (cases "length m \<ge> 64")
    case True
    have "chain st (m @ xs) = chain (sha256_compress st (take 64 m)) (drop 64 m @ xs)"
      using chain_block [of "take 64 m" st "drop 64 m @ xs"] True by (simp flip: append_assoc)
    then show ?thesis using 1 True by (simp add: chain.simps [of st m])
  next
    case False
    then show ?thesis by simp
  qed
qed

lemma chain_length: "chain st m = (st', r) \<Longrightarrow> length r = length m mod 64"
proof (induction st m rule: chain.induct)
  case (1 st m)
  show ?case
  proof (cases "length m \<ge> 64")
    case True
    then have "length r = (length m - 64) mod 64" using 1 by (simp add: chain.simps [of st m])
    then show ?thesis using True by (simp add: le_mod_geq)
  next
    case False
    then show ?thesis using 1(2) by simp
  qed
qed

section \<open>The context represents the message fed so far\<close>

definition absorbs :: "sha256_ctx \<Rightarrow> u8 list \<Rightarrow> bool" where
  "absorbs ctx m \<longleftrightarrow>
     chain sha_H0 m = (sha_state ctx, take (buflen ctx) (sha_buffer ctx)) \<and>
     length (sha_buffer ctx) = 64 \<and> buflen ctx < 64 \<and> bitcount ctx = of_nat (length m) * 8"

lemma length_overwrite [simp]: "off + length xs \<le> length buf \<Longrightarrow> length (overwrite buf off xs) = length buf"
  by (simp add: overwrite_def)

lemma take_overwrite: "off + length xs \<le> length buf \<Longrightarrow>
    take (off + length xs) (overwrite buf off xs) = take off buf @ xs"
  by (simp add: overwrite_def)

lemma absorbs_init: "length g = 64 \<Longrightarrow> absorbs (sha256_init g) []"
  by (simp add: absorbs_def sha256_init_def)

lemma blocks_chain:
  assumes "length (sha_buffer ctx) = 64"
  shows "chain (sha_state ctx) p =
      (sha_state (sha256_blocks ctx p), take (buflen (sha256_blocks ctx p)) (sha_buffer (sha256_blocks ctx p)))"
    and "length (sha_buffer (sha256_blocks ctx p)) = 64" and "buflen (sha256_blocks ctx p) < 64"
    and "bitcount (sha256_blocks ctx p) = bitcount ctx"
proof -
  have "chain (sha_state ctx) p =
      (sha_state (sha256_blocks ctx p), take (buflen (sha256_blocks ctx p)) (sha_buffer (sha256_blocks ctx p))) \<and>
    length (sha_buffer (sha256_blocks ctx p)) = 64 \<and> buflen (sha256_blocks ctx p) < 64 \<and>
    bitcount (sha256_blocks ctx p) = bitcount ctx"
    using assms
  proof (induction ctx p rule: sha256_blocks.induct)
    case (1 ctx p)
    show ?case
    proof (cases "length p \<ge> 64")
      case True
      have st: "sha_state (sha256_transform ctx b) = sha256_compress (sha_state ctx) b"
        "sha_buffer (sha256_transform ctx b) = sha_buffer ctx"
        "bitcount (sha256_transform ctx b) = bitcount ctx" for b
        by (simp_all add: sha256_transform_def)
      show ?thesis
        using "1.IH" [OF True] "1.prems" unfolding blocks_long [OF True] chain_long [OF True] st by blast
    next
      case False
      then show ?thesis using "1.prems" take_overwrite [of 0 p "sha_buffer ctx"] by simp
    qed
  qed
  then show "chain (sha_state ctx) p =
      (sha_state (sha256_blocks ctx p), take (buflen (sha256_blocks ctx p)) (sha_buffer (sha256_blocks ctx p)))"
    and "length (sha_buffer (sha256_blocks ctx p)) = 64" and "buflen (sha256_blocks ctx p) < 64"
    and "bitcount (sha256_blocks ctx p) = bitcount ctx"
    by blast+
qed

lemma absorbs_update:
  assumes "absorbs ctx m"
  shows "absorbs (sha256_update ctx p) (m @ p)"
proof -
  let ?c = "ctx\<lparr>bitcount := bitcount ctx + of_nat (length p) * 8\<rparr>"
  let ?r = "take (buflen ctx) (sha_buffer ctx)"
  have a: "chain sha_H0 m = (sha_state ctx, ?r)" "length (sha_buffer ctx) = 64" "buflen ctx < 64"
    and bits: "bitcount ?c = of_nat (length (m @ p)) * 8"
    using assms by (simp_all add: absorbs_def algebra_simps)
  have goal: "chain sha_H0 (m @ p) = chain (sha_state ctx) (?r @ p)" by (simp add: chain_append [of sha_H0 m p] a(1))
  have lr: "length ?r = buflen ctx" using a(2,3) by simp
  show ?thesis
  proof (cases "buflen ctx > 0")
    case False
    then have "sha256_update ctx p = sha256_blocks ?c p" by (simp add: sha256_update_def Let_def)
    then show ?thesis using blocks_chain [of ?c p] a goal bits False by (simp add: absorbs_def)
  next
    case buffered: True
    let ?need = "64 - buflen ctx"
    show ?thesis
    proof (cases "length p < ?need")
      case True
      then have "sha256_update ctx p = ?c\<lparr>sha_buffer := overwrite (sha_buffer ctx) (buflen ctx) p,
          buflen := buflen ctx + length p\<rparr>"
        using buffered by (simp add: sha256_update_def Let_def)
      moreover have "chain (sha_state ctx) (?r @ p) = (sha_state ctx, ?r @ p)" using True lr by simp
      ultimately show ?thesis
        using True a goal bits take_overwrite [of "buflen ctx" p "sha_buffer ctx"]
        by (simp add: absorbs_def)
    next
      case False
      let ?b = "overwrite (sha_buffer ctx) (buflen ctx) (take ?need p)"
      let ?d = "sha256_transform (?c\<lparr>sha_buffer := ?b\<rparr>) ?b\<lparr>buflen := 0\<rparr>"
      have u: "sha256_update ctx p = sha256_blocks ?d (drop ?need p)"
        using buffered False by (simp add: sha256_update_def Let_def)
      have b: "?b = ?r @ take ?need p" using a(2,3) False by (simp add: overwrite_def)
      have lb: "length ?b = 64" unfolding b using lr a(3) False by simp
      have "?r @ p = ?b @ drop ?need p" unfolding b by simp
      then have "chain sha_H0 (m @ p) = chain (sha256_compress (sha_state ctx) ?b) (drop ?need p)"
        using goal chain_block [OF lb] by simp
      moreover have "sha_state ?d = sha256_compress (sha_state ctx) ?b" "length (sha_buffer ?d) = 64"
        "bitcount ?d = bitcount ?c" using lb by (simp_all add: sha256_transform_def)
      ultimately show ?thesis using blocks_chain [of ?d "drop ?need p"] bits
        by (simp add: absorbs_def u)
    qed
  qed
qed

lemma length_be64 [simp]: "length (be64 w) = 8"
  by (simp add: be64_def)

lemma final_absorbed:
  assumes "absorbs ctx m"
  shows "sha256_final ctx = sha256_chained m"
proof -
  let ?n = "buflen ctx" and ?L = "be64 (bitcount ctx)"
  let ?r = "take ?n (sha_buffer ctx)"
  have a: "chain sha_H0 m = (sha_state ctx, ?r)" "length (sha_buffer ctx) = 64" "?n < 64"
    "bitcount ctx = of_nat (length m) * 8"
    using assms by (simp_all add: absorbs_def)
  have lr: "length ?r = ?n" using a(2,3) by simp
  have n: "length m mod 64 = ?n" using chain_length [OF a(1)] lr by simp
  have spec: "fst (chain sha_H0 (sha_pad m)) =
      fst (chain (sha_state ctx) (?r @ 0x80 # replicate ((119 - ?n) mod 64) 0 @ ?L))"
    unfolding sha_pad_def chain_append [of sha_H0 m] n a(4) by (simp add: a(1))
  have b0: "(sha_buffer ctx)[?n := 0x80] = ?r @ 0x80 # drop (Suc ?n) (sha_buffer ctx)"
    using a(2,3) by (simp add: upd_conv_take_nth_drop)
  show ?thesis
  proof (cases "?n + 1 > 56")
    case True
    let ?b1 = "?r @ 0x80 # replicate (63 - ?n) 0"
    have b1: "overwrite ((sha_buffer ctx)[?n := 0x80]) (?n + 1) (replicate (64 - (?n + 1)) 0) = ?b1"
      using a(2,3) lr by (simp add: overwrite_def b0)
    have l1: "length ?b1 = 64" using lr a(3) by simp
    let ?b2 = "replicate 56 0 @ ?L"
    have b2: "overwrite (overwrite ?b1 0 (replicate 56 0)) 56 ?L = ?b2"
      using l1 by (simp add: overwrite_def)
    have "(119 - ?n) mod 64 = (63 - ?n) + 56" using True a(3) by simp
    then have "replicate ((119 - ?n) mod 64) (0 :: u8) = replicate (63 - ?n) 0 @ replicate 56 0"
      by (simp only: replicate_add)
    then have eq: "?r @ 0x80 # replicate ((119 - ?n) mod 64) 0 @ ?L = ?b1 @ ?b2"
      by (simp only: append_assoc append_Cons)
    have "fst (chain (sha_state ctx) (?b1 @ ?b2)) =
        sha256_compress (sha256_compress (sha_state ctx) ?b1) ?b2"
      using chain_block [OF l1, of "sha_state ctx" ?b2] chain_block [of ?b2 _ "[]"] by simp
    then have "fst (chain sha_H0 (sha_pad m)) =
        sha256_compress (sha256_compress (sha_state ctx) ?b1) ?b2"
      unfolding spec eq .
    then show ?thesis
      using True b1 b2 by (simp add: sha256_final_def sha256_chained_def Let_def sha256_transform_def)
  next
    case False
    let ?b2 = "?r @ 0x80 # replicate (55 - ?n) 0 @ ?L"
    have l2: "length ?b2 = 64" using lr False by simp
    have "overwrite ((sha_buffer ctx)[?n := 0x80]) (?n + 1) (replicate (56 - (?n + 1)) 0) =
        ?r @ 0x80 # replicate (55 - ?n) 0 @ drop 56 (sha_buffer ctx)"
      using a(2,3) lr False Suc_diff_le [of ?n 55] by (simp add: overwrite_def b0)
    then have b2: "overwrite (overwrite ((sha_buffer ctx)[?n := 0x80]) (?n + 1)
        (replicate (56 - (?n + 1)) 0)) 56 ?L = ?b2"
      using a(2) lr False Suc_diff_le [of ?n 55] by (simp add: overwrite_def)
    have "(119 - ?n) mod 64 = 55 - ?n" using False by (simp add: mod_if)
    then have "fst (chain sha_H0 (sha_pad m)) = fst (chain (sha_state ctx) ?b2)" using spec by simp
    also have "\<dots> = sha256_compress (sha_state ctx) ?b2"
      using chain_block [OF l2, of "sha_state ctx" "[]"] by simp
    finally show ?thesis
      using False b2 by (simp add: sha256_final_def sha256_chained_def Let_def sha256_transform_def)
  qed
qed

section \<open>The standard's definition\<close>

text \<open>Each function, constant and step of the code is the one FIPS 180-4 states.\<close>

lemma ROTR_fips: "0 < n \<Longrightarrow> n < 32 \<Longrightarrow> ROTR x n = word_rotr n x"
proof -
  assume n: "0 < n" "n < 32"
  have "(i + n) mod 32 = (if i + n < 32 then i + n else i + n - 32)" if "i < 32" for i
    using that n by (simp add: mod_if)
  then show ?thesis using n
    by (intro bit_eqI) (auto simp: ROTR_def bit_simps bit_word_rotr_iff add.commute [of n] dest: bit_imp_le_length)
qed

lemma sha_functions_fips:
  "CH = fips_Ch" "MAJ = fips_Maj" "EP0 = fips_Sigma0" "EP1 = fips_Sigma1"
  "SIG0 = fips_sigma0" "SIG1 = fips_sigma1"
  by (simp_all add: fun_eq_iff CH_def fips_Ch_def MAJ_def fips_Maj_def EP0_def fips_Sigma0_def
      EP1_def fips_Sigma1_def SIG0_def fips_sigma0_def SIG1_def fips_sigma1_def ROTR_fips drop_bit_eq_div)

lemma sha_K_fips: "sha_K = fips_K"
  unfolding fips_K_eq sha_K_def by simp

lemma sha_H0_fips: "sha_H0 = fips_H0"
  unfolding fips_H0_eq sha_H0_def by simp

lemma be32_at_fips:
  assumes "length block = 64" "t < 16"
  shows "be32_at block (t * 4) = fips_word block t"
proof -
  have "take 4 (drop (4 * t) block) =
      [block ! (t * 4), block ! (t * 4 + 1), block ! (t * 4 + 2), block ! (t * 4 + 3)]"
    using assms by (intro nth_equalityI) (auto simp: nth_Cons' mult.commute numeral_eq_Suc less_Suc_eq)
  then show ?thesis unfolding fips_word_def be32_at_def by (simp only: be_number_4)
qed

lemma schedule_prefix:
  assumes "length block = 64"
  shows "fold (\<lambda>i W. W @ [SIG1 (W ! (i - 2)) + W ! (i - 7) + SIG0 (W ! (i - 15)) + W ! (i - 16)])
      [16 ..< 16 + k] (map (\<lambda>i. be32_at block (i * 4)) [0 ..< 16]) = map (fips_W block) [0 ..< 16 + k]"
proof (induction k)
  case 0
  have "be32_at block (i * 4) = fips_W block i" if "i < 16" for i
    using that be32_at_fips [OF assms that] by (simp add: fips_W.simps [of block i])
  then show ?case by (simp del: upt_rec_numeral)
next
  case (Suc k)
  have "fips_W block (16 + k) = fips_sigma1 (fips_W block (14 + k)) + fips_W block (9 + k) +
      fips_sigma0 (fips_W block (1 + k)) + fips_W block k"
    by (subst fips_W.simps) simp
  moreover have "[16 ..< 16 + Suc k] = [16 ..< 16 + k] @ [16 + k]" "[0 ..< 16 + Suc k] = [0 ..< 16 + k] @ [16 + k]"
    by (simp_all only: add_Suc_right upt_Suc) simp_all
  ultimately show ?case using Suc by (simp only: fold_append map_append o_apply)
      (simp add: sha_functions_fips del: upt_rec_numeral)
qed

lemma schedule_fips: "length block = 64 \<Longrightarrow> schedule block = map (fips_W block) [0 ..< 64]"
  using schedule_prefix [of block 48] unfolding schedule_def by (simp del: upt_rec_numeral)

lemma rounds_fips:
  assumes "length block = 64" "n \<le> 64"
  shows "fold (\<lambda>i. sha_round (sha_K ! i) (schedule block ! i)) [0 ..< n] v = fips_rounds (fips_W block) n v"
  using assms(2)
proof (induction n)
  case 0
  then show ?case by simp
next
  case (Suc n)
  have "schedule block ! n = fips_W block n" using Suc.prems schedule_fips [OF assms(1)] by (simp del: upt_rec_numeral)
  then show ?case using Suc
    by (simp add: sha_K_fips sha_functions_fips Let_def split: prod.split)
qed

lemma compress_fips:
  assumes "length st = 8" "length block = 64"
  shows "sha256_compress st block = fips_block st block"
proof -
  obtain s0 s1 s2 s3 s4 s5 s6 s7 where "st = [s0, s1, s2, s3, s4, s5, s6, s7]"
    using assms(1) by (auto simp: numeral_eq_Suc length_Suc_conv)
  then show ?thesis unfolding sha256_compress_def Let_def rounds_fips [OF assms(2) order_refl] fips_block_def
    by (simp split: prod.split add: add.commute)
qed

lemma length_compress [simp]: "length (sha256_compress st block) = 8"
  by (simp add: sha256_compress_def Let_def split: prod.split)

lemma parse_step: "64 \<le> length m \<Longrightarrow> fips_parse m = take 64 m # fips_parse (drop 64 m)"
proof -
  assume "64 \<le> length m"
  then have n: "length m div 64 = Suc ((length m - 64) div 64)" by (simp add: le_div_geq)
  have u: "[0 ..< Suc k] = 0 # map Suc [0 ..< k]" for k
    by (simp only: upt_conv_Cons [OF zero_less_Suc] map_Suc_upt)
  show ?thesis unfolding fips_parse_def n u by (simp add: add.commute)
qed

lemma chain_fips: "length st = 8 \<Longrightarrow> fst (chain st m) = foldl fips_block st (fips_parse m)"
proof (induction st m rule: chain.induct)
  case (1 st m)
  show ?case
  proof (cases "64 \<le> length m")
    case True
    then show ?thesis using 1 length_compress [of st "take 64 m"]
      by (simp add: chain_long parse_step compress_fips del: length_compress)
  next
    case False
    then show ?thesis by (simp add: fips_parse_def)
  qed
qed

lemma least_zeros:
  assumes "r < (64 :: nat)"
  shows "(LEAST k. (r + 1 + k) mod 64 = 56) = (119 - r) mod 64"
proof (rule Least_equality)
  have m: "x mod 64 = (if x < 64 then x else x - 64)" if "x < 128" for x :: nat
    using that by (simp add: le_mod_geq)
  have k: "(119 - r) mod 64 = (if r \<le> 55 then 55 - r else 119 - r)" using m [of "119 - r"] by simp
  show "(r + 1 + (119 - r) mod 64) mod 64 = 56"
  proof (cases "r \<le> 55")
    case True
    then show ?thesis unfolding k by simp
  next
    case False
    then have "r + 1 + (119 - r) = 120" using assms by simp
    then show ?thesis unfolding k using False by simp
  qed
  fix k
  assume z: "(r + 1 + k) mod 64 = 56"
  show "(119 - r) mod 64 \<le> k" unfolding k
  proof (cases "r + 1 + k < 128")
    case True
    then show "(if r \<le> 55 then 55 - r else 119 - r) \<le> k" using z m [OF True] assms by (auto split: if_splits)
  qed (use assms in auto)
qed

lemma pad_fips: "sha_pad m = fips_pad m"
proof -
  have r: "(length m + 1 + k) mod 64 = (length m mod 64 + 1 + k) mod 64" for k
    using mod_add_left_eq [of "length m" 64 "1 + k"] by (simp only: add.assoc)
  have "(LEAST k. (length m + 1 + k) mod 64 = 56) = (119 - length m mod 64) mod 64"
    unfolding r by (rule least_zeros) simp
  moreover have "be64 (of_nat (length m) * 8) = be_bytes 8 (8 * length m)"
    by (simp add: be64_def be_bytes_8 Let_def mult.commute)
  ultimately show ?thesis by (simp add: sha_pad_def fips_pad_def)
qed

lemma chained_fips: "sha256_chained m = fips_sha256 m"
proof -
  have "be32 = (\<lambda>w. be_bytes 4 (unat w))" by (simp add: fun_eq_iff be32_def be_bytes_4)
  then show ?thesis
    by (simp add: sha256_chained_def fips_sha256_def chain_fips pad_fips sha_H0_fips fips_H0_eq)
qed

section \<open>The standard's example\<close>

text \<open>
  The one block of the message "abc", evaluated: its schedule is the list of words below because it
  meets the recurrence, and sixteen rounds at a time lead to the published digest.
\<close>

definition abc_words :: "u32 list" where
  "abc_words =
    [0x61626380, 0, 0, 0, 0, 0, 0, 0,
     0, 0, 0, 0, 0, 0, 0, 0x18,
     0x61626380, 0xf0000, 0x7da86405, 0x600003c6, 0x3e9d7b78, 0x183fc00, 0x12dcbfdb, 0xe2e2c38e,
     0xc8215c1a, 0xb73679a2, 0xe5bc3909, 0x32663c5b, 0x9d209d67, 0xec8726cb, 0x702138a4, 0xd3b7973b,
     0x93f5997f, 0x3b68ba73, 0xaff4ffc1, 0xf10a5c62, 0xa8b3996, 0x72af830a, 0x9409e33e, 0x24641522,
     0x9f47bf94, 0xf0a64f5a, 0x3e246a79, 0x27333ba3, 0xc4763f2, 0x840abf27, 0x7a290d5d, 0x65c43da,
     0xfb3e89cb, 0xcc7617db, 0xb9e66c34, 0xa9993667, 0x84badedd, 0xc21462bc, 0x1487472c, 0xb20f7a99,
     0xef57b9cd, 0xebe6b238, 0x9fe3095e, 0x78bc8d4b, 0xa43fcf15, 0x668b2ff8, 0xeeaba2cc, 0x12b1edeb]"

lemma schedule_eqI:
  assumes "length block = 64" "length ws = 64"
    and "list_all (\<lambda>i. ws ! i = be32_at block (i * 4)) ([0, 1] @ [2 ..< 16])"
    and "list_all (\<lambda>i. ws ! i = SIG1 (ws ! (i - 2)) + ws ! (i - 7) + SIG0 (ws ! (i - 15)) + ws ! (i - 16)) [16 ..< 64]"
  shows "schedule block = ws"
proof -
  have w: "ws ! i = fips_W block i" if "i < 64" for i
    using that
  proof (induction i rule: less_induct)
    case (less i)
    show ?case
    proof (cases "i < 16")
      case True
      then have "i = 0 \<or> i = 1 \<or> i \<in> {2 ..< 16}" by auto
      then have "ws ! i = be32_at block (i * 4)" using assms(3) by (auto simp: list_all_iff simp del: upt_rec_numeral)
      then show ?thesis using True be32_at_fips [OF assms(1) True] by (simp add: fips_W.simps [of block i])
    next
      case False
      then have "ws ! i = SIG1 (ws ! (i - 2)) + ws ! (i - 7) + SIG0 (ws ! (i - 15)) + ws ! (i - 16)"
        using assms(4) less.prems by (simp add: list_all_iff del: upt_rec_numeral)
      then show ?thesis using False less by (subst fips_W.simps) (simp add: sha_functions_fips)
    qed
  qed
  show ?thesis unfolding schedule_fips [OF assms(1)]
    by (rule nth_equalityI) (use assms(2) w in \<open>simp_all del: upt_rec_numeral\<close>)
qed

lemma fold_nth_zip:
  "length ks = n \<Longrightarrow> length ws = n \<Longrightarrow>
    fold (\<lambda>i. f (ks ! i) (ws ! i)) [0 ..< n] v = fold (\<lambda>(k, w). f k w) (zip ks ws) v"
proof -
  assume l: "length ks = n" "length ws = n"
  have "zip ks ws = map (\<lambda>i. (ks ! i, ws ! i)) [0 ..< n]"
    by (rule nth_equalityI) (use l in simp_all)
  then show ?thesis by (simp add: fold_map o_def)
qed

lemma abc_schedule: "schedule ([0x61, 0x62, 0x63, 0x80] @ replicate 59 0 @ [24]) = abc_words"
proof (rule schedule_eqI)
  show "list_all (\<lambda>i. abc_words ! i = be32_at ([0x61, 0x62, 0x63, 0x80] @ replicate 59 0 @ [24]) (i * 4)) ([0, 1] @ [2 ..< 16])"
    by (simp add: abc_words_def be32_at_def nth_append nth_Cons')
  show "list_all (\<lambda>i. abc_words ! i = SIG1 (abc_words ! (i - 2)) + abc_words ! (i - 7) +
      SIG0 (abc_words ! (i - 15)) + abc_words ! (i - 16)) [16 ..< 64]"
    by (simp add: abc_words_def SIG0_def SIG1_def ROTR_def)
qed (simp_all add: abc_words_def)

lemma abc_rounds1:
  "fold (\<lambda>(k, w). sha_round k w)
    [(0x428a2f98, 0x61626380), (0x71374491, 0), (0xb5c0fbcf, 0), (0xe9b5dba5, 0),
     (0x3956c25b, 0), (0x59f111f1, 0), (0x923f82a4, 0), (0xab1c5ed5, 0),
     (0xd807aa98, 0), (0x12835b01, 0), (0x243185be, 0), (0x550c7dc3, 0),
     (0x72be5d74, 0), (0x80deb1fe, 0), (0x9bdc06a7, 0), (0xc19bf174, 0x18)]
    (0x6a09e667, 0xbb67ae85, 0x3c6ef372, 0xa54ff53a, 0x510e527f, 0x9b05688c, 0x1f83d9ab, 0x5be0cd19) =
    (0xb0fa238e, 0xc0645fde, 0xd932eb16, 0x87912990, 0x7590dcd, 0xb92f20c, 0x745a48de, 0x1e578218)"
  by (simp add: EP0_def EP1_def CH_def MAJ_def ROTR_def)

lemma abc_rounds2:
  "fold (\<lambda>(k, w). sha_round k w)
    [(0xe49b69c1, 0x61626380), (0xefbe4786, 0xf0000), (0xfc19dc6, 0x7da86405), (0x240ca1cc, 0x600003c6),
     (0x2de92c6f, 0x3e9d7b78), (0x4a7484aa, 0x183fc00), (0x5cb0a9dc, 0x12dcbfdb), (0x76f988da, 0xe2e2c38e),
     (0x983e5152, 0xc8215c1a), (0xa831c66d, 0xb73679a2), (0xb00327c8, 0xe5bc3909), (0xbf597fc7, 0x32663c5b),
     (0xc6e00bf3, 0x9d209d67), (0xd5a79147, 0xec8726cb), (0x6ca6351, 0x702138a4), (0x14292967, 0xd3b7973b)]
    (0xb0fa238e, 0xc0645fde, 0xd932eb16, 0x87912990, 0x7590dcd, 0xb92f20c, 0x745a48de, 0x1e578218) =
    (0x73b33bf5, 0xea992a22, 0xa0060b30, 0x363482c9, 0xba591112, 0x109ab3a, 0xade79437, 0x6112a3b7)"
  by (simp add: EP0_def EP1_def CH_def MAJ_def ROTR_def)

lemma abc_rounds3:
  "fold (\<lambda>(k, w). sha_round k w)
    [(0x27b70a85, 0x93f5997f), (0x2e1b2138, 0x3b68ba73), (0x4d2c6dfc, 0xaff4ffc1), (0x53380d13, 0xf10a5c62),
     (0x650a7354, 0xa8b3996), (0x766a0abb, 0x72af830a), (0x81c2c92e, 0x9409e33e), (0x92722c85, 0x24641522),
     (0xa2bfe8a1, 0x9f47bf94), (0xa81a664b, 0xf0a64f5a), (0xc24b8b70, 0x3e246a79), (0xc76c51a3, 0x27333ba3),
     (0xd192e819, 0xc4763f2), (0xd6990624, 0x840abf27), (0xf40e3585, 0x7a290d5d), (0x106aa070, 0x65c43da)]
    (0x73b33bf5, 0xea992a22, 0xa0060b30, 0x363482c9, 0xba591112, 0x109ab3a, 0xade79437, 0x6112a3b7) =
    (0x4172328d, 0xa14c14b0, 0x72ab4b91, 0x26628815, 0xfecf0bc6, 0xd57b94a9, 0xb7755da1, 0xa80f11f0)"
  by (simp add: EP0_def EP1_def CH_def MAJ_def ROTR_def)

lemma abc_rounds4:
  "fold (\<lambda>(k, w). sha_round k w)
    [(0x19a4c116, 0xfb3e89cb), (0x1e376c08, 0xcc7617db), (0x2748774c, 0xb9e66c34), (0x34b0bcb5, 0xa9993667),
     (0x391c0cb3, 0x84badedd), (0x4ed8aa4a, 0xc21462bc), (0x5b9cca4f, 0x1487472c), (0x682e6ff3, 0xb20f7a99),
     (0x748f82ee, 0xef57b9cd), (0x78a5636f, 0xebe6b238), (0x84c87814, 0x9fe3095e), (0x8cc70208, 0x78bc8d4b),
     (0x90befffa, 0xa43fcf15), (0xa4506ceb, 0x668b2ff8), (0xbef9a3f7, 0xeeaba2cc), (0xc67178f2, 0x12b1edeb)]
    (0x4172328d, 0xa14c14b0, 0x72ab4b91, 0x26628815, 0xfecf0bc6, 0xd57b94a9, 0xb7755da1, 0xa80f11f0) =
    (0x506e3058, 0xd39a2165, 0x4d24d6c, 0xb85e2ce9, 0x5ef50f24, 0xfb121210, 0x948d25b6, 0x961f4894)"
  by (simp add: EP0_def EP1_def CH_def MAJ_def ROTR_def)

lemma abc_compress:
  "sha256_compress sha_H0 ([0x61, 0x62, 0x63, 0x80] @ replicate 59 0 @ [24]) =
     [0xba7816bf, 0x8f01cfea, 0x414140de, 0x5dae2223, 0xb00361a3, 0x96177a9c, 0xb410ff61, 0xf20015ad]"
proof -
  have z: "zip sha_K abc_words =
    [(0x428a2f98, 0x61626380), (0x71374491, 0), (0xb5c0fbcf, 0), (0xe9b5dba5, 0),
     (0x3956c25b, 0), (0x59f111f1, 0), (0x923f82a4, 0), (0xab1c5ed5, 0),
     (0xd807aa98, 0), (0x12835b01, 0), (0x243185be, 0), (0x550c7dc3, 0),
     (0x72be5d74, 0), (0x80deb1fe, 0), (0x9bdc06a7, 0), (0xc19bf174, 0x18)] @
    [(0xe49b69c1, 0x61626380), (0xefbe4786, 0xf0000), (0xfc19dc6, 0x7da86405), (0x240ca1cc, 0x600003c6),
     (0x2de92c6f, 0x3e9d7b78), (0x4a7484aa, 0x183fc00), (0x5cb0a9dc, 0x12dcbfdb), (0x76f988da, 0xe2e2c38e),
     (0x983e5152, 0xc8215c1a), (0xa831c66d, 0xb73679a2), (0xb00327c8, 0xe5bc3909), (0xbf597fc7, 0x32663c5b),
     (0xc6e00bf3, 0x9d209d67), (0xd5a79147, 0xec8726cb), (0x6ca6351, 0x702138a4), (0x14292967, 0xd3b7973b)] @
    [(0x27b70a85, 0x93f5997f), (0x2e1b2138, 0x3b68ba73), (0x4d2c6dfc, 0xaff4ffc1), (0x53380d13, 0xf10a5c62),
     (0x650a7354, 0xa8b3996), (0x766a0abb, 0x72af830a), (0x81c2c92e, 0x9409e33e), (0x92722c85, 0x24641522),
     (0xa2bfe8a1, 0x9f47bf94), (0xa81a664b, 0xf0a64f5a), (0xc24b8b70, 0x3e246a79), (0xc76c51a3, 0x27333ba3),
     (0xd192e819, 0xc4763f2), (0xd6990624, 0x840abf27), (0xf40e3585, 0x7a290d5d), (0x106aa070, 0x65c43da)] @
    [(0x19a4c116, 0xfb3e89cb), (0x1e376c08, 0xcc7617db), (0x2748774c, 0xb9e66c34), (0x34b0bcb5, 0xa9993667),
     (0x391c0cb3, 0x84badedd), (0x4ed8aa4a, 0xc21462bc), (0x5b9cca4f, 0x1487472c), (0x682e6ff3, 0xb20f7a99),
     (0x748f82ee, 0xef57b9cd), (0x78a5636f, 0xebe6b238), (0x84c87814, 0x9fe3095e), (0x8cc70208, 0x78bc8d4b),
     (0x90befffa, 0xa43fcf15), (0xa4506ceb, 0x668b2ff8), (0xbef9a3f7, 0xeeaba2cc), (0xc67178f2, 0x12b1edeb)]"
    unfolding sha_K_def abc_words_def by simp
  have l: "length sha_K = 64" "length abc_words = 64" unfolding sha_K_def abc_words_def by simp_all
  have H: "sha_H0 ! 0 = 0x6a09e667" "sha_H0 ! 1 = 0xbb67ae85" "sha_H0 ! 2 = 0x3c6ef372" "sha_H0 ! 3 = 0xa54ff53a"
    "sha_H0 ! 4 = 0x510e527f" "sha_H0 ! 5 = 0x9b05688c" "sha_H0 ! 6 = 0x1f83d9ab" "sha_H0 ! 7 = 0x5be0cd19"
    by (simp_all add: sha_H0_def)
  show ?thesis
    unfolding sha256_compress_def Let_def abc_schedule fold_nth_zip [OF l] z fold_append o_apply H
      abc_rounds1 abc_rounds2 abc_rounds3 abc_rounds4 prod.case
    by simp
qed

lemma sha256_abc:
  "sha256_hash (replicate 64 0) [0x61, 0x62, 0x63] =
     [0xba, 0x78, 0x16, 0xbf, 0x8f, 0x01, 0xcf, 0xea, 0x41, 0x41, 0x40, 0xde, 0x5d, 0xae, 0x22, 0x23,
      0xb0, 0x03, 0x61, 0xa3, 0x96, 0x17, 0x7a, 0x9c, 0xb4, 0x10, 0xff, 0x61, 0xf2, 0x00, 0x15, 0xad]"
proof -
  let ?b = "[0x61, 0x62, 0x63, 0x80] @ replicate 59 0 @ [24 :: u8]"
  have pad: "sha_pad [0x61, 0x62, 0x63] = ?b"
  proof -
    have "replicate 59 (0 :: u8) = replicate 52 0 @ [0, 0, 0, 0, 0, 0, 0]" by (simp add: numeral_eq_Suc)
    then show ?thesis by (simp add: sha_pad_def be64_def)
  qed
  have "absorbs (sha256_update (sha256_init (replicate 64 0)) [0x61, 0x62, 0x63]) ([] @ [0x61, 0x62, 0x63])"
    by (rule absorbs_update [OF absorbs_init]) simp
  then have "sha256_hash (replicate 64 0) [0x61, 0x62, 0x63] = sha256_chained [0x61, 0x62, 0x63]"
    unfolding sha256_hash_def using final_absorbed by simp
  also have "\<dots> = concat (map be32 (sha256_compress sha_H0 ?b))"
    unfolding sha256_chained_def pad using chain_block [of ?b sha_H0 "[]"] by simp
  also note abc_compress
  finally show ?thesis by (simp add: be32_def)
qed

section \<open>Properties\<close>

lemma absorbs_chunks: "absorbs ctx m \<Longrightarrow> absorbs (foldl sha256_update ctx ps) (m @ concat ps)"
proof (induction ps arbitrary: ctx m)
  case Nil
  then show ?case by simp
next
  case (Cons p ps)
  from Cons.IH [OF absorbs_update [OF Cons.prems, of p]] show ?case by simp
qed

text \<open>
  C11: feeding a message to the context in any division into chunks and finishing gives the hash
  that FIPS 180-4 defines on the whole message, whatever the buffer held before. The standard's side is
  \<open>fips_sha256\<close>, whose functions, constants, schedule and padding are stated without the code's. The
  witness also checks the digest of "abc" that the standard publishes.
\<close>

theorem sha256_streaming:
  assumes "length garbage = 64"
  shows "sha256_final (foldl sha256_update (sha256_init garbage) chunks) = fips_sha256 (concat chunks)"
  using final_absorbed absorbs_chunks [OF absorbs_init [OF assms]] by (simp add: chained_fips)

lemma sha256_streaming_witness:
  "sha256_hash (replicate 64 0) [0x61, 0x62, 0x63] = fips_sha256 [0x61, 0x62, 0x63] \<and>
   fips_sha256 [0x61, 0x62, 0x63] =
     [0xba, 0x78, 0x16, 0xbf, 0x8f, 0x01, 0xcf, 0xea, 0x41, 0x41, 0x40, 0xde, 0x5d, 0xae, 0x22, 0x23,
      0xb0, 0x03, 0x61, 0xa3, 0x96, 0x17, 0x7a, 0x9c, 0xb4, 0x10, 0xff, 0x61, 0xf2, 0x00, 0x15, 0xad]"
  using sha256_streaming [of "replicate 64 0" "[[0x61, 0x62, 0x63]]"] sha256_abc
  by (simp add: sha256_hash_def)

end
