(* ===== verification/Hmac.thy ===== *)
theory Hmac
  imports Sha256
begin

text \<open>
  HMAC-SHA256 and PBKDF2, \<^verbatim>\<open>crypto/hmac.c\<close>, against RFC 2104 and RFC 8018. Every hash context is a
  local variable whose buffer C leaves uninitialised, so the operations take the contents of those
  buffers as an argument; the properties say that they do not matter.
\<close>

section \<open>The code\<close>

definition xor_pad :: "u8 \<Rightarrow> u8 list \<Rightarrow> u8 list" where
  "xor_pad c key = map (\<lambda>b. b XOR c) key @ replicate (64 - length key) c"

definition hmac_sha256 :: "(nat \<Rightarrow> u8 list) \<Rightarrow> u8 list \<Rightarrow> u8 list \<Rightarrow> u8 list" where
  "hmac_sha256 g key data =
     (let key = (if length key > 64 then sha256_hash (g 0) key else key);
          ctx = sha256_update (sha256_init (g 1)) (xor_pad 0x36 key);
          mac = sha256_final (sha256_update ctx data);
          ctx = sha256_update (sha256_init (g 2)) (xor_pad 0x5C key)
      in sha256_final (sha256_update ctx mac))"

definition salt_block :: "u8 list \<Rightarrow> u8 list" where
  "salt_block salt = take 128 salt @ [0, 0, 0, 1]"

definition pbkdf2_step ::
    "(nat \<Rightarrow> nat \<Rightarrow> u8 list) \<Rightarrow> u8 list \<Rightarrow> nat \<Rightarrow> u8 list \<times> u8 list \<Rightarrow> u8 list \<times> u8 list" where
  "pbkdf2_step g password iter UT =
     (let U = hmac_sha256 (g iter) password (fst UT) in (U, map2 (XOR) (snd UT) U))"

definition pbkdf2_hmac_sha256 ::
    "(nat \<Rightarrow> nat \<Rightarrow> u8 list) \<Rightarrow> u8 list \<Rightarrow> u8 list \<Rightarrow> u32 \<Rightarrow> nat \<Rightarrow> u8 list" where
  "pbkdf2_hmac_sha256 g password salt iterations dk_len =
     (let U = hmac_sha256 (g 0) password (salt_block salt);
          T = snd (fold (pbkdf2_step g password) [1 ..< unat iterations] (U, U))
      in take (min dk_len 32) T)"

section \<open>The standards\<close>

definition hmac_key :: "u8 list \<Rightarrow> u8 list" where
  "hmac_key K = (let k = if length K > 64 then fips_sha256 K else K in k @ replicate (64 - length k) 0)"

definition hmac_spec :: "u8 list \<Rightarrow> u8 list \<Rightarrow> u8 list" where
  "hmac_spec K m =
     fips_sha256 (map (\<lambda>b. b XOR 0x5C) (hmac_key K) @
       fips_sha256 (map (\<lambda>b. b XOR 0x36) (hmac_key K) @ m))"

primrec pbkdf2_U :: "u8 list \<Rightarrow> u8 list \<Rightarrow> nat \<Rightarrow> u8 list" where
  "pbkdf2_U P S 0 = hmac_spec P (S @ [0, 0, 0, 1])"
| "pbkdf2_U P S (Suc i) = hmac_spec P (pbkdf2_U P S i)"

definition pbkdf2_spec :: "u8 list \<Rightarrow> u8 list \<Rightarrow> nat \<Rightarrow> u8 list" where
  "pbkdf2_spec P S c = foldl (map2 (XOR)) (pbkdf2_U P S 0) (map (pbkdf2_U P S) [1 ..< c])"

section \<open>Lemmas\<close>

lemma hash_two: "length g = 64 \<Longrightarrow>
    sha256_final (sha256_update (sha256_update (sha256_init g) p) q) = fips_sha256 (p @ q)"
  using final_absorbed [OF absorbs_chunks [OF absorbs_init, of g "[p, q]"]] by (simp add: chained_fips)

lemma hash_one: "length g = 64 \<Longrightarrow> sha256_hash g p = fips_sha256 p"
  using final_absorbed [OF absorbs_chunks [OF absorbs_init, of g "[p]"]] by (simp add: sha256_hash_def chained_fips)

lemma xor_pad_spec: "xor_pad c key = map (\<lambda>b. b XOR c) (key @ replicate (64 - length key) 0)"
  by (simp add: xor_pad_def)

lemma hmac_meets_spec: "\<forall>i. length (g i) = 64 \<Longrightarrow> hmac_sha256 g key data = hmac_spec key data"
  by (simp add: hmac_sha256_def hmac_spec_def hmac_key_def Let_def hash_two hash_one xor_pad_spec)

lemma pbkdf2_loop:
  assumes "\<forall>i j. length (g i j) = 64" and "n \<ge> 1"
  shows "fold (pbkdf2_step g P) [1 ..< n] (pbkdf2_U P S 0, pbkdf2_U P S 0) =
    (pbkdf2_U P S (n - 1), pbkdf2_spec P S n)"
  using assms(2)
proof (induction n rule: nat_induct_at_least)
  case base
  then show ?case by (simp add: pbkdf2_spec_def)
next
  case (Suc n)
  from Suc.hyps obtain k where k: "n = Suc k" by (cases n) auto
  have "pbkdf2_spec P S (Suc n) = map2 (XOR) (pbkdf2_spec P S n) (pbkdf2_U P S n)"
    using Suc.hyps by (simp add: pbkdf2_spec_def)
  then show ?case using Suc assms(1)
    by (simp add: pbkdf2_step_def hmac_meets_spec k Let_def)
qed

lemma pbkdf2_meets_spec:
  assumes "\<forall>i j. length (g i j) = 64" and "length salt \<le> 128" and "0 < iterations"
  shows "pbkdf2_hmac_sha256 g password salt iterations dk_len =
    take (min dk_len 32) (pbkdf2_spec password salt (unat iterations))"
proof -
  have "hmac_sha256 (g 0) password (salt_block salt) = pbkdf2_U password salt 0"
    using assms(1,2) by (simp add: hmac_meets_spec salt_block_def)
  moreover have "1 \<le> unat iterations" using assms(3) by (simp add: word_less_nat_alt Suc_le_eq)
  ultimately show ?thesis
    using pbkdf2_loop [OF assms(1), of "unat iterations" password salt]
    by (simp add: pbkdf2_hmac_sha256_def Let_def)
qed

lemma length_sha256_final [simp]: "length (sha256_final c) = 32"
proof -
  have "length (sha256_compress st b) = 8" for st b
    by (simp add: sha256_compress_def Let_def split: prod.splits)
  moreover have "length (concat (map be32 st)) = 4 * length st" for st
    by (induction st) (simp_all add: be32_def)
  ultimately show ?thesis
    by (simp add: sha256_final_def sha256_transform_def Let_def split: prod.splits)
qed

lemma length_hmac [simp]: "length (hmac_sha256 g k m) = 32"
  by (simp add: hmac_sha256_def Let_def)

lemma length_pbkdf2_hmac [simp]: "length (pbkdf2_hmac_sha256 g P S n dk) = min dk 32"
proof -
  have "length (snd (fold (pbkdf2_step g P) is UT)) = 32" if "length (snd UT) = 32" for "is" UT
    using that by (induction "is" arbitrary: UT) (simp_all add: pbkdf2_step_def Let_def)
  then show ?thesis by (simp add: pbkdf2_hmac_sha256_def Let_def)
qed

section \<open>Properties\<close>

text \<open>The code computes the HMAC of RFC 2104 for keys of every length.\<close>

theorem hmac_correct:
  assumes "\<forall>i. length (g i) = 64"
  shows "hmac_sha256 g key data = hmac_spec key data"
  using assms by (rule hmac_meets_spec)

text \<open>
  C40: the code computes the HMAC of RFC 2104, and with a salt of at most 128 bytes and at least one iteration the code derives the key of
  RFC 8018's PBKDF2, cut to the length asked for (at most one hash block).
\<close>

theorem pbkdf2_correct:
  assumes "\<forall>i j. length (g i j) = 64" and "length salt \<le> 128" and "0 < iterations" and "\<forall>i. length (h i) = 64"
  shows "hmac_sha256 h key data = hmac_spec key data \<and>
    pbkdf2_hmac_sha256 g password salt iterations dk_len =
      take (min dk_len 32) (pbkdf2_spec password salt (unat iterations))"
  using hmac_meets_spec [OF assms(4)] pbkdf2_meets_spec [OF assms(1-3)] by simp

lemma pbkdf2_correct_witness:
  "pbkdf2_hmac_sha256 (\<lambda>i j. replicate 64 0) [1, 2] [3, 4] 2 16 = take 16 (pbkdf2_spec [1, 2] [3, 4] 2)"
  using pbkdf2_correct [of "\<lambda>i j. replicate 64 0" "[3, 4]" 2 "\<lambda>i. replicate 64 7" "[5]" "[6]" "[1, 2]" 16] by simp

end
