(* ===== verification/Rng.thy ===== *)
theory Rng
  imports Prelude
begin

text \<open>
  The random number generator, \<^verbatim>\<open>crypto/random.c\<close>: RDRAND with a bounded retry, and the
  xoshiro256** generator seeded by SplitMix64 behind it. What the hardware delivers is an argument:
  \<open>hw i\<close> is what the \<open>i\<close>-th RDRAND instruction since boot gives, \<^const>\<open>None\<close> when it clears the
  carry flag; the values of CPUID, RDTSC and the address of the seed on the stack are arguments of
  \<open>random_init\<close>.
\<close>

type_synonym prng = "u64 \<times> u64 \<times> u64 \<times> u64"

record rng_state =
  has_rdrand :: bool
  prng_s :: prng
  rd_count :: nat

section \<open>The code\<close>

definition detect_rdrand :: "u32 \<Rightarrow> bool" where
  "detect_rdrand ecx \<longleftrightarrow> drop_bit 30 ecx AND 1 \<noteq> 0"

definition read_tsc :: "u32 \<Rightarrow> u32 \<Rightarrow> u64" where
  "read_tsc hi lo = push_bit 32 (ucast hi) OR ucast lo"

primrec rdrand_loop :: "(nat \<Rightarrow> u64 option) \<Rightarrow> nat \<Rightarrow> nat \<Rightarrow> u64 option \<times> nat" where
  "rdrand_loop hw 0 pos = (None, pos)"
| "rdrand_loop hw (Suc n) pos =
     (case hw pos of Some v \<Rightarrow> (Some v, pos + 1) | None \<Rightarrow> rdrand_loop hw n (pos + 1))"

definition rdrand64 :: "(nat \<Rightarrow> u64 option) \<Rightarrow> rng_state \<Rightarrow> u64 option \<times> rng_state" where
  "rdrand64 hw s = (case rdrand_loop hw 10 (rd_count s) of (v, pos) \<Rightarrow> (v, s\<lparr>rd_count := pos\<rparr>))"

definition rotl64 :: "u64 \<Rightarrow> nat \<Rightarrow> u64" where
  "rotl64 x k = push_bit k x OR drop_bit (64 - k) x"

fun xoshiro256ss :: "prng \<Rightarrow> u64 \<times> prng" where
  "xoshiro256ss (s0, s1, s2, s3) =
     (let result = rotl64 (s1 * 5) 7 * 9;
          t = push_bit 17 s1;
          s2 = s2 XOR s0;
          s3 = s3 XOR s1;
          s1 = s1 XOR s2;
          s0 = s0 XOR s3;
          s2 = s2 XOR t;
          s3 = rotl64 s3 45
      in (result, s0, s1, s2, s3))"

definition splitmix_mix :: "u64 \<Rightarrow> u64" where
  "splitmix_mix z =
     (let z = (z XOR drop_bit 30 z) * 0xbf58476d1ce4e5b9;
          z = (z XOR drop_bit 27 z) * 0x94d049bb133111eb
      in z XOR drop_bit 31 z)"

definition splitmix64 :: "u64 \<Rightarrow> u64 \<times> u64" where
  "splitmix64 state = (let state = state + 0x9e3779b97f4a7c15 in (splitmix_mix state, state))"

definition seed_prng :: "u64 \<Rightarrow> prng" where
  "seed_prng seed =
     (let (a, seed) = splitmix64 seed;
          (b, seed) = splitmix64 seed;
          (c, seed) = splitmix64 seed;
          (d, seed) = splitmix64 seed
      in (a, b, c, d))"

definition random_init ::
    "u32 \<Rightarrow> u32 \<times> u32 \<Rightarrow> u32 \<times> u32 \<Rightarrow> u64 \<Rightarrow> (nat \<Rightarrow> u64 option) \<Rightarrow> rng_state \<Rightarrow> rng_state" where
  "random_init ecx tsc1 tsc2 seed_addr hw s =
     (let s = s\<lparr>has_rdrand := detect_rdrand ecx\<rparr>;
          seed = case_prod read_tsc tsc1 XOR case_prod read_tsc tsc2 XOR seed_addr;
          (seed, s) =
            (if has_rdrand s
             then (case rdrand64 hw s of
                     (Some v, s) \<Rightarrow> (seed XOR v, s)
                   | (None, s) \<Rightarrow> (seed, s))
             else (seed, s))
      in s\<lparr>prng_s := seed_prng seed\<rparr>)"

definition fallback_u64 :: "rng_state \<Rightarrow> u64 \<times> rng_state" where
  "fallback_u64 s = (case xoshiro256ss (prng_s s) of (v, p) \<Rightarrow> (v, s\<lparr>prng_s := p\<rparr>))"

definition random_u64 :: "(nat \<Rightarrow> u64 option) \<Rightarrow> rng_state \<Rightarrow> u64 \<times> rng_state" where
  "random_u64 hw s =
     (if has_rdrand s
      then (case rdrand64 hw s of
              (Some v, s) \<Rightarrow> (v, s)
            | (None, s) \<Rightarrow> fallback_u64 s)
      else fallback_u64 s)"

definition random_u32 :: "(nat \<Rightarrow> u64 option) \<Rightarrow> rng_state \<Rightarrow> u32 \<times> rng_state" where
  "random_u32 hw s = (case random_u64 hw s of (v, s) \<Rightarrow> (ucast (drop_bit 32 v), s))"

definition word_bytes :: "u64 \<Rightarrow> nat \<Rightarrow> u8 list" where
  "word_bytes v n = map (\<lambda>i. ucast (drop_bit (i * 8) v)) [0 ..< n]"

text \<open>The bytes written for a request of \<open>len\<close> bytes: whole words, then a partial one.\<close>

fun random_bytes :: "(nat \<Rightarrow> u64 option) \<Rightarrow> nat \<Rightarrow> rng_state \<Rightarrow> u8 list \<times> rng_state" where
  "random_bytes hw len s =
     (if len \<ge> 8
      then (case random_u64 hw s of (v, s) \<Rightarrow>
              case random_bytes hw (len - 8) s of (bs, s) \<Rightarrow> (word_bytes v 8 @ bs, s))
      else if len > 0
      then (case random_u64 hw s of (v, s) \<Rightarrow> (word_bytes v len, s))
      else ([], s))"

declare random_bytes.simps [simp del]

section \<open>The mixing function is a permutation\<close>

lemma xorshift_inj:
  assumes "0 < k"
  shows "inj (\<lambda>x :: 'a :: len word. x XOR drop_bit k x)"
proof (rule injI)
  fix x y :: "'a word"
  assume eq: "x XOR drop_bit k x = y XOR drop_bit k y"
  have same: "bit x n = bit y n" if "n < LENGTH('a)" for n
    using that
  proof (induction n rule: measure_induct_rule [of "\<lambda>n. LENGTH('a) - n"])
    case (less n)
    have "bit (x XOR drop_bit k x) n = bit (y XOR drop_bit k y) n" using eq by simp
    then have "(bit x n \<noteq> bit x (n + k)) = (bit y n \<noteq> bit y (n + k))"
      by (simp add: bit_xor_iff bit_drop_bit_eq add.commute)
    moreover have "bit x (n + k) = bit y (n + k)"
    proof (cases "n + k < LENGTH('a)")
      case True
      then show ?thesis using less.IH [of "n + k"] less.prems assms by simp
    next
      case False
      then show ?thesis using bit_imp_le_length [of x "n + k"] bit_imp_le_length [of y "n + k"] by auto
    qed
    ultimately show ?case by blast
  qed
  then show "x = y" by (simp add: bit_word_eqI)
qed

lemma mult_unit_inj:
  assumes "c * d = (1 :: 'a :: len word)"
  shows "inj (\<lambda>x. x * c)"
proof (rule injI)
  fix x y :: "'a word"
  assume "x * c = y * c"
  then have "x * c * d = y * c * d" by simp
  then show "x = y" by (simp add: mult.assoc assms)
qed

lemma splitmix_mix_inj: "inj splitmix_mix"
proof -
  have m1: "inj (\<lambda>x :: u64. x * 0xbf58476d1ce4e5b9)"
    by (rule mult_unit_inj [of _ "0x96de1b173f119089"]) simp
  have m2: "inj (\<lambda>x :: u64. x * 0x94d049bb133111eb)"
    by (rule mult_unit_inj [of _ "0x319642b2d24d8ec3"]) simp
  have "splitmix_mix = (\<lambda>z. z XOR drop_bit 31 z) \<circ> (\<lambda>x. x * 0x94d049bb133111eb) \<circ>
      (\<lambda>z. z XOR drop_bit 27 z) \<circ> (\<lambda>x. x * 0xbf58476d1ce4e5b9) \<circ> (\<lambda>z. z XOR drop_bit 30 z)"
    by (rule ext) (simp add: splitmix_mix_def Let_def)
  moreover have "inj \<dots>" by (intro inj_compose xorshift_inj m1 m2; simp)
  ultimately show ?thesis by simp
qed

section \<open>The fallback state never becomes zero\<close>

definition live_prng :: "prng \<Rightarrow> bool" where
  "live_prng p \<longleftrightarrow> p \<noteq> (0, 0, 0, 0)"

lemma seed_prng_live: "live_prng (seed_prng seed)"
proof -
  let ?g = "0x9e3779b97f4a7c15 :: u64"
  have "splitmix_mix (seed + ?g) \<noteq> splitmix_mix (seed + ?g + ?g)"
    using injD [OF splitmix_mix_inj, of "seed + ?g" "seed + ?g + ?g"] by auto
  then show ?thesis
    by (auto simp: live_prng_def seed_prng_def splitmix64_def Let_def)
qed

lemma rotl64_zero: "rotl64 x 45 = 0 \<Longrightarrow> x = 0"
proof (rule bit_word_eqI)
  fix n
  assume z: "rotl64 x 45 = 0" and n: "n < LENGTH(64)"
  have b: "\<not> bit (rotl64 x 45) m" for m using z by simp
  show "bit x n = bit 0 n"
  proof (cases "n < 19")
    case True
    then show ?thesis using b [of "n + 45"] n
      by (simp add: rotl64_def bit_or_iff bit_push_bit_iff bit_drop_bit_eq)
  next
    case False
    then show ?thesis using b [of "n - 19"] n
      by (simp add: rotl64_def bit_or_iff bit_push_bit_iff bit_drop_bit_eq)
  qed
qed

lemma xor_eq_zero: "x XOR y = 0 \<longleftrightarrow> x = (y :: 'a :: len word)"
  using xor.assoc [of x y y] by auto

lemma xoshiro_live:
  assumes "live_prng p"
  shows "live_prng (snd (xoshiro256ss p))"
proof (cases p)
  case (fields s0 s1 s2 s3)
  show ?thesis
  proof (rule ccontr)
    assume "\<not> ?thesis"
    then have z: "s0 XOR (s3 XOR s1) = 0" "s1 XOR (s2 XOR s0) = 0" "(s2 XOR s0) XOR push_bit 17 s1 = 0"
      "rotl64 (s3 XOR s1) 45 = 0"
      by (simp_all add: fields live_prng_def Let_def)
    from z(4) have s3: "s3 XOR s1 = 0" by (rule rotl64_zero)
    then have s0: "s0 = 0" using z(1) by simp
    then have e1: "s1 = s2" using z(2) by (simp add: xor_eq_zero)
    have e2: "s2 = push_bit 17 s1" using z(3) s0 by (simp add: xor_eq_zero)
    have "s1 = 0"
    proof (rule bit_word_eqI)
      fix n
      show "bit s1 n = bit 0 n"
      proof (induction n rule: less_induct)
        case (less n)
        have "bit s1 n = bit (push_bit 17 s1) n"
          by (rule arg_cong [OF trans [OF e1 e2], of "\<lambda>w. bit w n"])
        then show ?case using less [of "n - 17"] by (auto simp: bit_push_bit_iff)
      qed
    qed
    then show False using assms s0 s3 unfolding fields live_prng_def e1 [symmetric] by simp
  qed
qed

lemma fallback_live: "live_prng (prng_s s) \<Longrightarrow> live_prng (prng_s (snd (fallback_u64 s)))"
  using xoshiro_live [of "prng_s s"] by (cases "xoshiro256ss (prng_s s)") (simp add: fallback_u64_def)

lemma rdrand64_prng: "rdrand64 hw s = (v, s') \<Longrightarrow> prng_s s' = prng_s s"
  by (auto simp: rdrand64_def split: prod.splits)

lemma random_u64_live: "live_prng (prng_s s) \<Longrightarrow> live_prng (prng_s (snd (random_u64 hw s)))"
  by (auto simp: random_u64_def fallback_live dest: rdrand64_prng split: prod.splits option.splits)

lemma random_bytes_live:
  "live_prng (prng_s s) \<Longrightarrow>
    length (fst (random_bytes hw len s)) = len \<and> live_prng (prng_s (snd (random_bytes hw len s)))"
proof (induction hw len s rule: random_bytes.induct)
  case (1 hw len s)
  obtain v s1 where u: "random_u64 hw s = (v, s1)" by (cases "random_u64 hw s")
  have l: "live_prng (prng_s s1)" using random_u64_live [OF "1.prems", of hw] u by simp
  have ih: "8 \<le> len \<Longrightarrow> length (fst (random_bytes hw (len - 8) s1)) = len - 8 \<and>
      live_prng (prng_s (snd (random_bytes hw (len - 8) s1)))"
    using "1.IH" [OF _ u [symmetric]] l by simp
  show ?case
    using ih l "1.prems" by (subst random_bytes.simps, subst (2) random_bytes.simps)
      (auto simp: u word_bytes_def split: prod.splits)
qed

lemma length_random_bytes [simp]: "length (fst (random_bytes hw len s)) = len"
proof (induction hw len s rule: random_bytes.induct)
  case (1 hw len s)
  obtain v s1 where u: "random_u64 hw s = (v, s1)" by (cases "random_u64 hw s")
  show ?case using "1.IH" [OF _ u [symmetric]]
    by (subst random_bytes.simps) (auto simp: u word_bytes_def split: prod.splits)
qed

section \<open>Properties\<close>

end
