(* ===== verification/SlotTable.thy ===== *)
theory SlotTable
  imports CString
begin

text \<open>
  The fixed tables of named entries (user accounts, key store): a slot is free or live, a live slot
  has a key, lookup scans for the first live slot with the key, insertion takes the first free one.
  Here are the facts about those scans, and the contract \<open>keyed_store\<close> that a store built on such a
  table gives its clients.
\<close>

section \<open>Scans of a table with distinct keys\<close>

definition slots_distinct :: "('e \<Rightarrow> bool) \<Rightarrow> ('e \<Rightarrow> 'k) \<Rightarrow> 'e list \<Rightarrow> bool" where
  "slots_distinct live key t \<longleftrightarrow>
     (\<forall>i < length t. \<forall>j < length t. live (t ! i) \<and> live (t ! j) \<and> key (t ! i) = key (t ! j) \<longrightarrow> i = j)"

lemma slots_distinctD:
  "slots_distinct live key t \<Longrightarrow> i < length t \<Longrightarrow> j < length t \<Longrightarrow> live (t ! i) \<Longrightarrow> live (t ! j) \<Longrightarrow>
    key (t ! i) = key (t ! j) \<Longrightarrow> i = j"
  by (auto simp: slots_distinct_def)

lemma slots_distinct_Cons:
  "slots_distinct live key (x # xs) \<longleftrightarrow>
    (live x \<longrightarrow> (\<forall>y \<in> set xs. live y \<longrightarrow> key y \<noteq> key x)) \<and> slots_distinct live key xs"
proof -
  have "slots_distinct live key (x # xs) \<longleftrightarrow>
      (\<forall>i < length xs. live x \<and> live (xs ! i) \<longrightarrow> key (xs ! i) \<noteq> key x) \<and> slots_distinct live key xs"
    unfolding slots_distinct_def by (simp add: All_less_Suc2 eq_commute [of "key x"]) blast
  then show ?thesis unfolding all_set_conv_all_nth by blast
qed

lemma slots_distinct_dead: "\<forall>x \<in> set xs. \<not> live x \<Longrightarrow> slots_distinct live key xs"
  by (simp add: slots_distinct_def)

lemma find_slot:
  assumes "slots_distinct live key t" and "i < length t" and "live (t ! i)"
  shows "find_idx (\<lambda>e. live e \<and> key e = key (t ! i)) t = Some i"
  using assms(2,3) slots_distinctD [OF assms(1)] by (intro find_idx_unique) auto

lemma find_update_same:
  assumes "i < length t" and "P v" and "\<And>j. j < length t \<Longrightarrow> j \<noteq> i \<Longrightarrow> \<not> P (t ! j)"
  shows "find_idx P (t[i := v]) = Some i"
  using assms by (intro find_idx_unique) (auto simp: nth_list_update split: if_splits)

lemma find_update_other:
  assumes "i < length t" and "\<not> P v" and "\<not> P (t ! i)"
  shows "find_idx P (t[i := v]) = find_idx P t"
  using assms by (intro find_idx_cong) (auto simp: nth_list_update)

lemma slots_distinct_update:
  assumes "slots_distinct live key t"
    and "\<And>j. j < length t \<Longrightarrow> j \<noteq> i \<Longrightarrow> live v \<Longrightarrow> live (t ! j) \<Longrightarrow> key (t ! j) \<noteq> key v"
  shows "slots_distinct live key (t[i := v])"
proof (cases "i < length t")
  case True
  have sym: "\<And>j. j < length t \<Longrightarrow> j \<noteq> i \<Longrightarrow> live v \<Longrightarrow> live (t ! j) \<Longrightarrow> key v \<noteq> key (t ! j)"
    using assms(2) by metis
  have "a = b" if "a < length t" "b < length t" "live (t[i := v] ! a)" "live (t[i := v] ! b)"
    "key (t[i := v] ! a) = key (t[i := v] ! b)" for a b
    using that assms(2) [of a] assms(2) [of b] sym [of a] sym [of b] slots_distinctD [OF assms(1), of a b]
    by (cases "a = i"; cases "b = i") auto
  then show ?thesis by (simp add: slots_distinct_def)
next
  case False
  then show ?thesis using assms(1) by (simp add: list_update_beyond)
qed

lemma slots_distinct_same:
  assumes d: "slots_distinct live key t" and "i < length t" and "live (t ! i)" and "key v = key (t ! i)"
  shows "slots_distinct live key (t[i := v])"
proof (rule slots_distinct_update [OF d])
  fix j assume "j < length t" "j \<noteq> i" "live v" "live (t ! j)"
  then show "key (t ! j) \<noteq> key v" using slots_distinctD [OF d, of j i] assms(2-) by auto
qed

lemma all_update: "\<forall>x \<in> set xs. P x \<Longrightarrow> P v \<Longrightarrow> \<forall>x \<in> set (xs[i := v]). P x"
  using set_update_subset_insert [of xs i v] by blast

lemma count_if_full: "find_idx (\<lambda>e. \<not> P e) t = None \<Longrightarrow> count_if P t = length t"
  by (simp add: count_if_def find_idx_None_iff)

lemma count_if_room: "find_idx (\<lambda>e. \<not> P e) t = Some i \<Longrightarrow> count_if P t < length t"
proof -
  assume f: "find_idx (\<lambda>e. \<not> P e) t = Some i"
  have "t ! i \<in> set t" "\<not> P (t ! i)" using find_idx_SomeD [OF f] by auto
  then show ?thesis by (simp add: count_if_def length_filter_less)
qed

section \<open>The contract of a keyed store\<close>

text \<open>
  What a store promises: an accepted \<open>put\<close> makes the value readable under its name and disturbs no
  other name, a removal takes exactly that name away, and a refused operation changes no reading.
  A client that issues any sequence of operations then sees a finite map.
\<close>

datatype ('k, 'v) store_op = Put 'k 'v | Del 'k

text \<open>The same operations on a map; whether a \<open>put\<close> was accepted is what the store answered.\<close>

primrec map_step :: "('k, 'v) store_op \<times> bool \<Rightarrow> ('k \<Rightarrow> 'v option) \<Rightarrow> 'k \<Rightarrow> 'v option" where
  "map_step (q, ok) m = (case q of Put k v \<Rightarrow> if ok then m(k \<mapsto> v) else m | Del k \<Rightarrow> m(k := None))"

locale keyed_store =
  fixes inv :: "'s \<Rightarrow> bool"
    and valid :: "'k \<Rightarrow> bool"
    and look :: "'s \<Rightarrow> 'k \<Rightarrow> 'v option"
    and put :: "'k \<Rightarrow> 'v \<Rightarrow> 's \<Rightarrow> 's \<times> bool"
    and del :: "'k \<Rightarrow> 's \<Rightarrow> 's \<times> bool"
  assumes put_inv: "inv s \<Longrightarrow> valid k \<Longrightarrow> inv (fst (put k v s))"
    and del_inv: "inv s \<Longrightarrow> valid k \<Longrightarrow> inv (fst (del k s))"
    and put_look: "inv s \<Longrightarrow> valid k \<Longrightarrow> valid k' \<Longrightarrow>
      look (fst (put k v s)) k' = (if snd (put k v s) \<and> k' = k then Some v else look s k')"
    and del_look: "inv s \<Longrightarrow> valid k \<Longrightarrow> valid k' \<Longrightarrow>
      look (fst (del k s)) k' = (if k' = k then None else look s k')"
    and del_found: "inv s \<Longrightarrow> valid k \<Longrightarrow> snd (del k s) \<longleftrightarrow> look s k \<noteq> None"
begin

primrec step :: "('k, 'v) store_op \<Rightarrow> 's \<Rightarrow> 's \<times> bool" where
  "step (Put k v) s = put k v s"
| "step (Del k) s = del k s"

primrec op_valid :: "('k, 'v) store_op \<Rightarrow> bool" where
  "op_valid (Put k v) = valid k"
| "op_valid (Del k) = valid k"

primrec run :: "('k, 'v) store_op list \<Rightarrow> 's \<Rightarrow> 's \<times> bool list" where
  "run [] s = (s, [])"
| "run (q # qs) s = (case step q s of (s, ok) \<Rightarrow> case run qs s of (s, oks) \<Rightarrow> (s, ok # oks))"

lemma step_inv: "inv s \<Longrightarrow> op_valid q \<Longrightarrow> inv (fst (step q s))"
  by (cases q) (simp_all add: put_inv del_inv)

lemma step_look:
  "inv s \<Longrightarrow> op_valid q \<Longrightarrow> (\<And>k. valid k \<Longrightarrow> look s k = m k) \<Longrightarrow> valid k \<Longrightarrow>
    look (fst (step q s)) k = map_step (q, snd (step q s)) m k"
  by (cases q) (simp_all add: put_look del_look)

lemma run_refines:
  "inv s \<Longrightarrow> \<forall>q \<in> set qs. op_valid q \<Longrightarrow> (\<And>k. valid k \<Longrightarrow> look s k = m k) \<Longrightarrow> run qs s = (s', oks) \<Longrightarrow>
    inv s' \<and> (\<forall>k. valid k \<longrightarrow> look s' k = fold map_step (zip qs oks) m k)"
proof (induction qs arbitrary: s m s' oks)
  case Nil
  then show ?case by simp
next
  case (Cons q qs)
  obtain s1 ok where q: "step q s = (s1, ok)" by (cases "step q s")
  obtain s2 oks' where r: "run qs s1 = (s2, oks')" by (cases "run qs s1")
  have e: "s' = s2" "oks = ok # oks'" using Cons.prems(4) q r by auto
  have i: "inv s1" using step_inv [of s q] Cons.prems(1,2) q by simp
  have l: "\<And>k. valid k \<Longrightarrow> look s1 k = map_step (q, ok) m k"
    using step_look [of s q m] Cons.prems(1-3) q by (simp del: map_step.simps)
  show ?case using Cons.IH [OF i _ l r] Cons.prems(2) e by simp
qed

end

end
