(* ===== verification/Cred.thy ===== *)
theory Cred
  imports Hmac Rng SlotTable
begin

text \<open>
  User accounts and authentication, \<^verbatim>\<open>security/cred.c\<close>. The two file-level variables are the fields
  of \<open>cred_state\<close>, with the state of the shared random generator; \<open>hw\<close> is what RDRAND delivers and
  \<open>g\<close> the uninitialised contents of the hash buffers, as in \<open>Rng\<close> and \<open>Hmac\<close>. The \<^verbatim>\<open>int\<close> results keep
  C's values, with -1 for an error. Messages on the serial line are left out.
\<close>

section \<open>The code\<close>

record user_account =
  username :: "u8 list"
  uid :: u32
  gid :: u32
  salt :: "u8 list"
  password_hash :: "u8 list"
  active :: bool

record cred_state =
  users :: "user_account list"
  next_uid :: u32
  cred_rng :: rng_state

abbreviation MAX_USERS :: nat where "MAX_USERS \<equiv> 8"
abbreviation USERNAME_MAX :: nat where "USERNAME_MAX \<equiv> 32"
abbreviation SALT_SIZE :: nat where "SALT_SIZE \<equiv> 16"
abbreviation HASH_SIZE :: nat where "HASH_SIZE \<equiv> 32"
abbreviation PBKDF2_ITERATIONS :: u32 where "PBKDF2_ITERATIONS \<equiv> 10"

definition hash_password :: "(nat \<Rightarrow> nat \<Rightarrow> u8 list) \<Rightarrow> u8 list \<Rightarrow> u8 list \<Rightarrow> u8 list" where
  "hash_password g password slt =
     pbkdf2_hmac_sha256 g (take (strlen password) password) (take SALT_SIZE slt)
       PBKDF2_ITERATIONS HASH_SIZE"

definition secure_compare :: "u8 list \<Rightarrow> u8 list \<Rightarrow> nat \<Rightarrow> bool" where
  "secure_compare a b len = (fold (\<lambda>i diff. diff OR (a ! i XOR b ! i)) [0 ..< len] 0 = 0)"

definition create_user_at ::
    "(nat \<Rightarrow> nat \<Rightarrow> u8 list) \<Rightarrow> (nat \<Rightarrow> u64 option) \<Rightarrow> nat \<Rightarrow> u8 list \<Rightarrow> u8 list \<Rightarrow> u32 \<Rightarrow> u32 \<Rightarrow>
     cred_state \<Rightarrow> cred_state" where
  "create_user_at g hw idx name password who grp s =
     (let u = users s ! idx;
          u = u\<lparr>username := copy_name (USERNAME_MAX - 1) name (username u),
                uid := who, gid := grp, active := True\<rparr>;
          (bs, r) = random_bytes hw SALT_SIZE (cred_rng s);
          u = u\<lparr>salt := bs\<rparr>;
          u = u\<lparr>password_hash := hash_password g password (salt u)\<rparr>
      in s\<lparr>users := (users s)[idx := u], cred_rng := r\<rparr>)"

definition cred_init :: "(nat \<Rightarrow> nat \<Rightarrow> u8 list) \<Rightarrow> (nat \<Rightarrow> u64 option) \<Rightarrow> cred_state \<Rightarrow> cred_state" where
  "cred_init g hw s =
     (let s = s\<lparr>users := map (\<lambda>u. u\<lparr>active := False\<rparr>) (users s)\<rparr>;
          s = create_user_at g hw 0 (bytes_of ''root'') (bytes_of ''root'') 0 0 s
      in create_user_at g hw 1 (bytes_of ''mandor'') (bytes_of ''genos'') 1000 1000 s)"

definition named_user :: "u8 list \<Rightarrow> user_account \<Rightarrow> bool" where
  "named_user name u \<longleftrightarrow> active u \<and> str_eq (username u) name"

definition user_with_uid :: "u32 \<Rightarrow> user_account \<Rightarrow> bool" where
  "user_with_uid who u \<longleftrightarrow> active u \<and> uid u = who"

definition cred_authenticate ::
    "(nat \<Rightarrow> nat \<Rightarrow> u8 list) \<Rightarrow> u8 list \<Rightarrow> u8 list \<Rightarrow> cred_state \<Rightarrow> int" where
  "cred_authenticate g name password s =
     (case find_idx (named_user name) (users s) of
        None \<Rightarrow> -1
      | Some i \<Rightarrow>
          let u = users s ! i;
              test_hash = hash_password g password (salt u)
          in if secure_compare test_hash (password_hash u) HASH_SIZE then sint (uid u) else -1)"

definition cred_get_username :: "u32 \<Rightarrow> cred_state \<Rightarrow> u8 list option" where
  "cred_get_username who s =
     map_option (\<lambda>i. username (users s ! i)) (find_idx (user_with_uid who) (users s))"

definition cred_get_uid :: "u8 list \<Rightarrow> cred_state \<Rightarrow> int" where
  "cred_get_uid name s =
     (case find_idx (named_user name) (users s) of
        None \<Rightarrow> -1 | Some i \<Rightarrow> sint (uid (users s ! i)))"

definition cred_change_password ::
    "(nat \<Rightarrow> nat \<Rightarrow> u8 list) \<Rightarrow> (nat \<Rightarrow> u64 option) \<Rightarrow> u32 \<Rightarrow> u8 list \<Rightarrow> cred_state \<Rightarrow> cred_state \<times> int" where
  "cred_change_password g hw who new_password s =
     (case find_idx (user_with_uid who) (users s) of
        None \<Rightarrow> (s, -1)
      | Some i \<Rightarrow>
          let u = users s ! i;
              (bs, r) = random_bytes hw SALT_SIZE (cred_rng s);
              u = u\<lparr>salt := bs\<rparr>;
              u = u\<lparr>password_hash := hash_password g new_password (salt u)\<rparr>
          in (s\<lparr>users := (users s)[i := u], cred_rng := r\<rparr>, 0))"

definition cred_create_user ::
    "(nat \<Rightarrow> nat \<Rightarrow> u8 list) \<Rightarrow> (nat \<Rightarrow> u64 option) \<Rightarrow> u8 list \<Rightarrow> u8 list \<Rightarrow> u32 \<Rightarrow> cred_state \<Rightarrow> cred_state \<times> int" where
  "cred_create_user g hw name password grp s =
     (case find_idx (named_user name) (users s) of
        Some i \<Rightarrow> (s, -1)
      | None \<Rightarrow>
          (case find_idx (\<lambda>u. \<not> active u) (users s) of
             Some i \<Rightarrow>
               let s = create_user_at g hw i name password (next_uid s) grp s
               in (s\<lparr>next_uid := next_uid s + 1\<rparr>, sint (next_uid s))
           | None \<Rightarrow> (s, -1)))"

definition cred_user_count :: "cred_state \<Rightarrow> int" where
  "cred_user_count s = fold (\<lambda>u n. if active u then n + 1 else n) (users s) 0"

section \<open>The accounts as a map\<close>

text \<open>
  What the table means: a map from names to the user id, the group, the salt and the derived hash.
  \<open>verifier\<close> is the PBKDF2 value of RFC 8018 that a password has under a salt.
\<close>

type_synonym account = "u32 \<times> u32 \<times> u8 list \<times> u8 list"

definition verifier :: "u8 list \<Rightarrow> u8 list \<Rightarrow> u8 list" where
  "verifier password slt = take HASH_SIZE (pbkdf2_spec (cstr password) slt 10)"

definition accounts :: "cred_state \<Rightarrow> u8 list \<Rightarrow> account option" where
  "accounts s n =
     map_option (\<lambda>i. let u = users s ! i in (uid u, gid u, salt u, password_hash u))
       (find_idx (\<lambda>u. active u \<and> cstr (username u) = n) (users s))"

definition login :: "(u8 list \<Rightarrow> account option) \<Rightarrow> u8 list \<Rightarrow> u8 list \<Rightarrow> int" where
  "login acc name password =
     (case acc (cstr name) of
        None \<Rightarrow> -1
      | Some (who, grp, slt, h) \<Rightarrow> if h = verifier password slt then uint who else -1)"

definition user_ok :: "user_account \<Rightarrow> bool" where
  "user_ok u \<longleftrightarrow> length (username u) = USERNAME_MAX \<and>
     (active u \<longrightarrow> length (cstr (username u)) < USERNAME_MAX \<and>
       length (salt u) = SALT_SIZE \<and> length (password_hash u) = HASH_SIZE)"

text \<open>
  The invariant of the account table: names and user ids are unique, and ids are handed out in
  order, so that the next one is determined by the number of accounts.
\<close>

definition cred_inv :: "cred_state \<Rightarrow> bool" where
  "cred_inv s \<longleftrightarrow> length (users s) = MAX_USERS \<and> (\<forall>u \<in> set (users s). user_ok u) \<and>
     slots_distinct active uid (users s) \<and>
     slots_distinct active (\<lambda>u. cstr (username u)) (users s) \<and>
     (\<forall>u \<in> set (users s). active u \<longrightarrow> uid u < next_uid s) \<and>
     2 \<le> count_if active (users s) \<and> unat (next_uid s) = 999 + count_if active (users s)"

definition g_ok :: "(nat \<Rightarrow> nat \<Rightarrow> u8 list) \<Rightarrow> bool" where
  "g_ok g \<longleftrightarrow> (\<forall>i j. length (g i j) = 64)"

section \<open>Lemmas\<close>

lemma take_strlen: "take (strlen s) s = cstr s"
  by (simp add: strlen_cstr cstr_def takeWhile_eq_take [symmetric])

lemma hash_verifier: "g_ok g \<Longrightarrow> length slt = SALT_SIZE \<Longrightarrow> hash_password g p slt = verifier p slt"
  using pbkdf2_meets_spec [of g slt PBKDF2_ITERATIONS "cstr p" HASH_SIZE]
  by (simp add: g_ok_def hash_password_def verifier_def take_strlen)

lemma length_hash_password [simp]: "length (hash_password g p slt) = HASH_SIZE"
  by (simp add: hash_password_def)

lemma or_fold_zero: "fold (\<lambda>i d. d OR f i) ks d = (0 :: u8) \<longleftrightarrow> d = 0 \<and> (\<forall>i \<in> set ks. f i = 0)"
proof (induction ks arbitrary: d)
  case (Cons i ks)
  have "d OR f i = 0 \<longleftrightarrow> d = 0 \<and> f i = 0" by (simp add: or_eq_0_iff)
  then show ?case using Cons by auto
qed simp

lemma secure_compare_iff:
  assumes "length a = n" and "length b = n"
  shows "secure_compare a b n \<longleftrightarrow> a = b"
proof -
  have "secure_compare a b n \<longleftrightarrow> (\<forall>i < n. a ! i = b ! i)"
    by (auto simp: secure_compare_def or_fold_zero xor_eq_zero)
  then show ?thesis using assms by (auto simp: list_eq_iff_nth_eq)
qed

lemma named_user_alt: "named_user name = (\<lambda>u. active u \<and> cstr (username u) = cstr name)"
  by (auto simp: named_user_def str_eq_iff)

lemma cred_invD:
  assumes "cred_inv s"
  shows "length (users s) = MAX_USERS" and "\<And>i. i < MAX_USERS \<Longrightarrow> user_ok (users s ! i)"
    and "slots_distinct active uid (users s)"
    and "slots_distinct active (\<lambda>u. cstr (username u)) (users s)"
    and "\<And>i. i < MAX_USERS \<Longrightarrow> active (users s ! i) \<Longrightarrow> uid (users s ! i) < next_uid s"
    and "unat (next_uid s) = 999 + count_if active (users s)"
    and "unat (next_uid s) \<le> 1007" and "2 \<le> count_if active (users s)"
  using assms count_if_le [of active "users s"] by (auto simp: cred_inv_def)

lemma sint_uid:
  fixes w :: u32
  assumes "unat w \<le> 1007"
  shows "sint w = uint w"
proof -
  have "int (unat w) \<le> int 1007" using assms by (simp only: of_nat_le_iff)
  then have "uint w < 2 ^ 31" by simp
  moreover have "- (2 ^ 31) \<le> uint w" by (rule order.trans [of _ 0]) simp_all
  ultimately have "signed_take_bit 31 (uint w) = uint w" by (intro signed_take_bit_int_eq_self) auto
  then show ?thesis by (simp add: sint_uint)
qed

lemma sint_active: "cred_inv s \<Longrightarrow> i < MAX_USERS \<Longrightarrow> active (users s ! i) \<Longrightarrow> sint (uid (users s ! i)) = uint (uid (users s ! i))"
  using cred_invD(5,7) [of s] by (intro sint_uid) (fastforce simp: word_less_nat_alt)

lemma login_correct:
  assumes "g_ok g" and inv: "cred_inv s"
  shows "cred_authenticate g name password s = login (accounts s) name password"
proof (cases "find_idx (named_user name) (users s)")
  case None
  then show ?thesis by (simp add: cred_authenticate_def login_def accounts_def named_user_alt)
next
  case (Some i)
  let ?u = "users s ! i"
  have i: "i < MAX_USERS" "active ?u"
    using find_idx_SomeD [OF Some] cred_invD(1) [OF inv] by (auto simp: named_user_def)
  have u: "length (salt ?u) = SALT_SIZE" "length (password_hash ?u) = HASH_SIZE"
    using cred_invD(2) [OF inv i(1)] i(2) by (auto simp: user_ok_def)
  have "secure_compare (hash_password g password (salt ?u)) (password_hash ?u) HASH_SIZE \<longleftrightarrow>
      password_hash ?u = verifier password (salt ?u)"
    using secure_compare_iff [OF length_hash_password u(2), of g password "salt ?u"]
    by (auto simp: hash_verifier [OF assms(1) u(1)])
  then show ?thesis using Some sint_active [OF inv i]
    by (simp add: cred_authenticate_def login_def accounts_def Let_def flip: named_user_alt)
qed

text \<open>The slot that carries a user id carries a name that no other slot has.\<close>

lemma accounts_slot:
  assumes "cred_inv s" and "i < MAX_USERS" and "active (users s ! i)"
  shows "find_idx (\<lambda>u. active u \<and> cstr (username u) = cstr (username (users s ! i))) (users s) = Some i"
  using find_slot [OF cred_invD(4) [OF assms(1)], of i] assms cred_invD(1) [OF assms(1)] by simp

lemma accounts_update_same:
  assumes "cred_inv s" and "i < MAX_USERS" and "active v" and "cstr (username v) = n"
    and "\<And>j. j < MAX_USERS \<Longrightarrow> j \<noteq> i \<Longrightarrow> active (users s ! j) \<Longrightarrow> cstr (username (users s ! j)) \<noteq> n"
    and "active (users s ! i) \<Longrightarrow> cstr (username (users s ! i)) = n"
  shows "accounts (s\<lparr>users := (users s)[i := v], cred_rng := r, next_uid := k\<rparr>) =
    (accounts s)(n \<mapsto> (uid v, gid v, salt v, password_hash v))"
proof (rule ext)
  fix m
  let ?P = "\<lambda>u. active u \<and> cstr (username u) = m"
  have l: "length (users s) = MAX_USERS" by (rule cred_invD [OF assms(1)])
  show "accounts (s\<lparr>users := (users s)[i := v], cred_rng := r, next_uid := k\<rparr>) m =
      ((accounts s)(n \<mapsto> (uid v, gid v, salt v, password_hash v))) m"
  proof (cases "m = n")
    case True
    then have "find_idx ?P ((users s)[i := v]) = Some i"
      using assms l by (intro find_update_same) auto
    then show ?thesis using True assms(2) l by (simp add: accounts_def)
  next
    case False
    then have f: "find_idx ?P ((users s)[i := v]) = find_idx ?P (users s)"
      using assms l by (intro find_update_other) auto
    have "j \<noteq> i" if "find_idx ?P (users s) = Some j" for j
      using find_idx_SomeD(2) [OF that] False assms(6) by auto
    then show ?thesis using f False
      by (cases "find_idx ?P (users s)") (simp_all add: accounts_def)
  qed
qed

lemma find_account: "find_idx (named_user name) (users s) = None \<longleftrightarrow> accounts s (cstr name) = None"
  by (simp add: accounts_def named_user_alt)

lemma create_user_at_eq:
  assumes "g_ok g" and "random_bytes hw SALT_SIZE (cred_rng s) = (bs, r)"
  shows "create_user_at g hw i name pw k grp s =
    s\<lparr>users := (users s)[i := \<lparr>username = copy_name 31 name (username (users s ! i)), uid = k, gid = grp,
        salt = bs, password_hash = verifier pw bs, active = True\<rparr>], cred_rng := r\<rparr>"
proof -
  have "length bs = SALT_SIZE" using length_random_bytes [of hw SALT_SIZE "cred_rng s"] assms(2) by simp
  then show ?thesis using assms
    by (cases "users s ! i") (simp add: create_user_at_def hash_verifier Let_def)
qed

lemma new_account:
  assumes inv: "cred_inv s" and i: "i < MAX_USERS" "\<not> active (users s ! i)"
    and v: "active v" "user_ok v" "uid v = next_uid s" "cstr (username v) = n"
    and new: "accounts s n = None"
  shows "cred_inv (s\<lparr>users := (users s)[i := v], cred_rng := r, next_uid := next_uid s + 1\<rparr>)"
    and "accounts (s\<lparr>users := (users s)[i := v], cred_rng := r, next_uid := next_uid s + 1\<rparr>) =
      (accounts s)(n \<mapsto> (next_uid s, gid v, salt v, password_hash v))"
proof -
  note d = cred_invD [OF inv]
  let ?us = "(users s)[i := v]"
  have fresh: "cstr (username (users s ! j)) \<noteq> n" if "j < MAX_USERS" "active (users s ! j)" for j
    using new that d(1) by (auto simp: accounts_def find_idx_None_iff)
  have k: "unat (next_uid s + 1) = unat (next_uid s) + 1"
    using d(7) by (simp add: unat_word_ariths)
  have c: "count_if active ?us = count_if active (users s) + 1"
    using count_if_update [of i "users s" active v] i v(1) d(1) by simp
  have old: "\<forall>u \<in> set (users s). user_ok u" "\<forall>u \<in> set (users s). active u \<longrightarrow> uid u < next_uid s"
    using inv by (simp_all add: cred_inv_def)
  have "\<forall>u \<in> set (users s). active u \<longrightarrow> uid u < next_uid s + 1"
    using old(2) k by (auto simp: word_less_nat_alt)
  then have "\<forall>u \<in> set ?us. active u \<longrightarrow> uid u < next_uid s + 1"
    using v(3) k by (intro all_update) (auto simp: word_less_nat_alt)
  moreover have "slots_distinct active uid ?us"
    using d(1,3,5) v(3) by (intro slots_distinct_update) fastforce+
  moreover have "slots_distinct active (\<lambda>u. cstr (username u)) ?us"
    using d(1,4) v(4) fresh by (intro slots_distinct_update) fastforce+
  moreover have "\<forall>u \<in> set ?us. user_ok u"
    using old(1) v(2) by (rule all_update)
  ultimately show "cred_inv (s\<lparr>users := ?us, cred_rng := r, next_uid := next_uid s + 1\<rparr>)"
    using d(1,6,8) k c by (simp add: cred_inv_def)
  show "accounts (s\<lparr>users := ?us, cred_rng := r, next_uid := next_uid s + 1\<rparr>) =
      (accounts s)(n \<mapsto> (next_uid s, gid v, salt v, password_hash v))"
    using accounts_update_same [OF inv i(1) v(1,4)] fresh i(2) v(3) by simp
qed

lemma create_spec:
  assumes "g_ok g" and inv: "cred_inv s" and short: "length (cstr name) < USERNAME_MAX"
    and run: "cred_create_user g hw name pw grp s = (s', res)"
  shows "if accounts s (cstr name) \<noteq> None \<or> count_if active (users s) = MAX_USERS then s' = s \<and> res = -1
    else cred_inv s' \<and> res = uint (next_uid s) \<and> 1001 \<le> res \<and>
      count_if active (users s') = count_if active (users s) + 1 \<and>
      (\<exists>slt. accounts s' = (accounts s)(cstr name \<mapsto> (next_uid s, grp, slt, verifier pw slt)))"
proof (cases "find_idx (named_user name) (users s)")
  case (Some i)
  then have "accounts s (cstr name) \<noteq> None" using find_account [of name s] by simp
  then show ?thesis using run Some by (simp add: cred_create_user_def)
next
  case None
  then have new: "accounts s (cstr name) = None" using find_account by simp
  note d = cred_invD [OF inv]
  show ?thesis
  proof (cases "find_idx (\<lambda>u. \<not> active u) (users s)")
    case full: None
    then have "count_if active (users s) = MAX_USERS" using count_if_full [of active "users s"] d(1) by simp
    then show ?thesis using run None full by (simp add: cred_create_user_def)
  next
    case (Some i)
    then have room: "count_if active (users s) < MAX_USERS" using count_if_room [of active "users s"] d(1) by simp
    have i: "i < MAX_USERS" "\<not> active (users s ! i)" using find_idx_SomeD [OF Some] d(1) by auto
    obtain bs r where bs: "random_bytes hw SALT_SIZE (cred_rng s) = (bs, r)" by fastforce
    define v where "v = \<lparr>username = copy_name 31 name (username (users s ! i)), uid = next_uid s, gid = grp,
        salt = bs, password_hash = verifier pw bs, active = True\<rparr>"
    have lb: "length bs = SALT_SIZE" using length_random_bytes [of hw SALT_SIZE "cred_rng s"] bs by simp
    have lh: "length (verifier pw bs) = HASH_SIZE"
      using length_hash_password [of g pw bs] by (simp add: hash_verifier [OF assms(1) lb])
    have n: "length (username (users s ! i)) = USERNAME_MAX" using d(2) [OF i(1)] by (simp add: user_ok_def)
    have v: "active v" "user_ok v" "uid v = next_uid s" "cstr (username v) = cstr name"
      using lb lh n short by (simp_all add: v_def user_ok_def cstr_copy_name)
    define s2 where "s2 = s\<lparr>users := (users s)[i := v], cred_rng := r, next_uid := next_uid s + 1\<rparr>"
    have e: "s' = s2" "res = sint (next_uid s)"
      using run None Some create_user_at_eq [OF assms(1) bs, of i name pw "next_uid s" grp]
      by (auto simp: cred_create_user_def Let_def v_def s2_def)
    have "count_if active (users s2) = count_if active (users s) + 1"
      using count_if_update [of i "users s" active v] i v(1) d(1) by (simp add: s2_def)
    moreover have "1001 \<le> uint (next_uid s)"
    proof -
      have "int 1001 \<le> int (unat (next_uid s))" using d(6,8) by (subst of_nat_le_iff) linarith
      then show ?thesis by simp
    qed
    ultimately show ?thesis
      using new_account [OF inv i v new, of r] room new e sint_uid [OF d(7)]
      by (auto simp flip: s2_def) (auto simp: v_def)
  qed
qed

lemma change_spec:
  assumes "g_ok g" and inv: "cred_inv s" and run: "cred_change_password g hw who pw s = (s', res)"
  shows "if \<exists>n. map_option fst (accounts s n) = Some who
    then res = 0 \<and> cred_inv s' \<and> next_uid s' = next_uid s \<and>
      (\<exists>n grp slt slt' h. accounts s n = Some (who, grp, slt', h) \<and>
        accounts s' = (accounts s)(n \<mapsto> (who, grp, slt, verifier pw slt)))
    else s' = s \<and> res = -1"
proof (cases "find_idx (user_with_uid who) (users s)")
  case None
  then have "\<And>j. j < length (users s) \<Longrightarrow> active (users s ! j) \<Longrightarrow> uid (users s ! j) \<noteq> who"
    by (simp add: find_idx_None_iff user_with_uid_def)
  then have "map_option fst (accounts s n) \<noteq> Some who" for n
    by (auto simp: accounts_def Let_def dest: find_idx_SomeD)
  then show ?thesis using run None by (simp add: cred_change_password_def)
next
  case (Some i)
  note d = cred_invD [OF inv]
  let ?u = "users s ! i"
  have i: "i < MAX_USERS" "active ?u" "uid ?u = who"
    using find_idx_SomeD [OF Some] d(1) by (auto simp: user_with_uid_def)
  obtain bs r where bs: "random_bytes hw SALT_SIZE (cred_rng s) = (bs, r)" by fastforce
  have lb: "length bs = SALT_SIZE" using length_random_bytes [of hw SALT_SIZE "cred_rng s"] bs by simp
  have lh: "length (verifier pw bs) = HASH_SIZE"
    using length_hash_password [of g pw bs] by (simp add: hash_verifier [OF assms(1) lb])
  define v where "v = ?u\<lparr>salt := bs, password_hash := verifier pw bs\<rparr>"
  let ?us = "(users s)[i := v]"
  let ?n = "cstr (username ?u)"
  have v: "active v" "uid v = who" "cstr (username v) = ?n" "user_ok v"
    using i d(2) [OF i(1)] lb lh by (simp_all add: v_def user_ok_def)
  have e: "s' = s\<lparr>users := ?us, cred_rng := r, next_uid := next_uid s\<rparr>" "res = 0"
    using run Some bs by (auto simp: cred_change_password_def Let_def v_def hash_verifier [OF assms(1) lb])
  have a: "accounts s ?n = Some (who, gid ?u, salt ?u, password_hash ?u)"
    using accounts_slot [OF inv i(1,2)] i(3) by (simp add: accounts_def Let_def)
  have n: "j = i" if "j < MAX_USERS" "active (users s ! j)" "cstr (username (users s ! j)) = ?n" for j
    using slots_distinctD [OF d(4)] that i(1,2) d(1) by simp
  have a2: "accounts s' = (accounts s)(?n \<mapsto> (who, gid ?u, bs, verifier pw bs))"
    using accounts_update_same [OF inv i(1) v(1,3), of "next_uid s" r] n v(2)
    by (auto simp: v_def e(1))
  have old: "\<forall>u \<in> set (users s). user_ok u" "\<forall>u \<in> set (users s). active u \<longrightarrow> uid u < next_uid s"
    using inv by (simp_all add: cred_inv_def)
  have "count_if active ?us = count_if active (users s)"
    using count_if_update [of i "users s" active v] i v(1) d(1) by simp
  moreover have "\<forall>u \<in> set ?us. user_ok u" "\<forall>u \<in> set ?us. active u \<longrightarrow> uid u < next_uid s"
    using old(1) v(4) old(2) v(2) d(5) [OF i(1,2)] i(3) by (intro all_update; simp)+
  moreover have "slots_distinct active uid ?us" "slots_distinct active (\<lambda>u. cstr (username u)) ?us"
    using d(1,3,4) i v(2,3) by (auto intro!: slots_distinct_same)
  ultimately have "cred_inv s'" using d(1,6,8) by (simp add: cred_inv_def e(1))
  then show ?thesis using e a a2 d(1) by auto
qed

lemma cred_user_count_eq: "cred_user_count s = int (count_if active (users s))"
proof -
  have "fold (\<lambda>u n. if active u then n + 1 else n) us k = k + int (count_if active us)" for us :: "user_account list" and k :: int
    by (induction us arbitrary: k) simp_all
  then show ?thesis by (simp add: cred_user_count_def)
qed

lemma card_accounts:
  assumes "cred_inv s"
  shows "card (dom (accounts s)) = count_if active (users s)"
proof -
  note d = cred_invD [OF assms]
  let ?I = "{i. i < length (users s) \<and> active (users s ! i)}"
  have "dom (accounts s) = (\<lambda>i. cstr (username (users s ! i))) ` ?I"
    by (auto simp: accounts_def find_idx_Some_iff accounts_slot [OF assms] d(1) image_iff
        dest!: find_idx_SomeD(1,2))
  moreover have "inj_on (\<lambda>i. cstr (username (users s ! i))) ?I"
    using slots_distinctD [OF d(4)] by (auto intro!: inj_onI)
  ultimately show ?thesis by (simp add: card_image count_if_def length_filter_conv_card)
qed

section \<open>What the table promises\<close>

datatype cred_op =
    CreateUser "u8 list" "u8 list" u32
  | ChangePassword u32 "u8 list"
  | Authenticate "u8 list" "u8 list"
  | GetUid "u8 list"
  | UserCount

primrec cred_exec ::
    "(nat \<Rightarrow> nat \<Rightarrow> u8 list) \<Rightarrow> (nat \<Rightarrow> u64 option) \<Rightarrow> cred_op \<Rightarrow> cred_state \<Rightarrow> cred_state \<times> int" where
  "cred_exec g hw (CreateUser nm pw grp) s = cred_create_user g hw nm pw grp s"
| "cred_exec g hw (ChangePassword who pw) s = cred_change_password g hw who pw s"
| "cred_exec g hw (Authenticate nm pw) s = (s, cred_authenticate g nm pw s)"
| "cred_exec g hw (GetUid nm) s = (s, cred_get_uid nm s)"
| "cred_exec g hw UserCount s = (s, cred_user_count s)"

primrec cred_run ::
    "(nat \<Rightarrow> nat \<Rightarrow> u8 list) \<Rightarrow> (nat \<Rightarrow> u64 option) \<Rightarrow> cred_op list \<Rightarrow> cred_state \<Rightarrow> cred_state \<times> int list" where
  "cred_run g hw [] s = (s, [])"
| "cred_run g hw (q # qs) s =
     (case cred_exec g hw q s of (s, r) \<Rightarrow> case cred_run g hw qs s of (s, rs) \<Rightarrow> (s, r # rs))"

text \<open>
  The specification: a map of accounts. A new account gets an id nobody has and some salt; it is
  refused only if the name is taken or the table is full. A password change replaces salt and hash of
  the one account with the id. Reading does not change the map.
\<close>

inductive cred_step :: "(u8 list \<Rightarrow> account option) \<Rightarrow> cred_op \<Rightarrow> int \<Rightarrow> (u8 list \<Rightarrow> account option) \<Rightarrow> bool" where
  created: "acc (cstr nm) = None \<Longrightarrow> \<forall>n. map_option fst (acc n) \<noteq> Some who \<Longrightarrow>
    cred_step acc (CreateUser nm pw grp) (uint who) (acc(cstr nm \<mapsto> (who, grp, slt, verifier pw slt)))"
| refused: "acc (cstr nm) \<noteq> None \<or> card (dom acc) = MAX_USERS \<Longrightarrow>
    cred_step acc (CreateUser nm pw grp) (-1) acc"
| changed: "acc n = Some (who, grp, slt, h) \<Longrightarrow>
    cred_step acc (ChangePassword who pw) 0 (acc(n \<mapsto> (who, grp, slt', verifier pw slt')))"
| unknown: "\<forall>n. map_option fst (acc n) \<noteq> Some who \<Longrightarrow> cred_step acc (ChangePassword who pw) (-1) acc"
| authenticated: "cred_step acc (Authenticate nm pw) (login acc nm pw) acc"
| identified: "cred_step acc (GetUid nm) (case acc (cstr nm) of None \<Rightarrow> -1 | Some a \<Rightarrow> uint (fst a)) acc"
| counted: "cred_step acc UserCount (int (card (dom acc))) acc"

inductive cred_steps :: "(u8 list \<Rightarrow> account option) \<Rightarrow> cred_op list \<Rightarrow> int list \<Rightarrow> (u8 list \<Rightarrow> account option) \<Rightarrow> bool" where
  none: "cred_steps acc [] [] acc"
| more: "cred_step acc q r acc' \<Longrightarrow> cred_steps acc' qs rs acc'' \<Longrightarrow> cred_steps acc (q # qs) (r # rs) acc''"

primrec cred_op_ok :: "cred_op \<Rightarrow> bool" where
  "cred_op_ok (CreateUser nm pw grp) \<longleftrightarrow> length (cstr nm) < USERNAME_MAX"
| "cred_op_ok (ChangePassword who pw) \<longleftrightarrow> True"
| "cred_op_ok (Authenticate nm pw) \<longleftrightarrow> True"
| "cred_op_ok (GetUid nm) \<longleftrightarrow> True"
| "cred_op_ok UserCount \<longleftrightarrow> True"

lemma fresh_uid:
  assumes "cred_inv s"
  shows "map_option fst (accounts s n) \<noteq> Some (next_uid s)"
proof
  assume "map_option fst (accounts s n) = Some (next_uid s)"
  then obtain i where "find_idx (\<lambda>u. active u \<and> cstr (username u) = n) (users s) = Some i"
    "uid (users s ! i) = next_uid s"
    by (auto simp: accounts_def Let_def)
  then show False using cred_invD(1) [OF assms] cred_invD(5) [OF assms, of i] find_idx_SomeD by fastforce
qed

lemma cred_exec_refines:
  assumes g: "g_ok g" and inv: "cred_inv s" and ok: "cred_op_ok q" and run: "cred_exec g hw q s = (s', r)"
  shows "cred_inv s' \<and> cred_step (accounts s) q r (accounts s')"
proof (cases q)
  case (CreateUser nm pw grp)
  then have c: "cred_create_user g hw nm pw grp s = (s', r)" "length (cstr nm) < USERNAME_MAX"
    using run ok by simp_all
  show ?thesis
  proof (cases "accounts s (cstr nm) \<noteq> None \<or> count_if active (users s) = MAX_USERS")
    case True
    then show ?thesis using create_spec [OF g inv c(2,1)] CreateUser inv card_accounts [OF inv]
      by (auto intro: cred_step.refused)
  next
    case False
    then have "accounts s (cstr nm) = None" by blast
    then show ?thesis using create_spec [OF g inv c(2,1)] False CreateUser fresh_uid [OF inv]
      by (auto intro!: cred_step.created)
  qed
next
  case (ChangePassword who pw)
  then have c: "cred_change_password g hw who pw s = (s', r)" using run by simp
  show ?thesis using change_spec [OF g inv c] ChangePassword inv
    by (auto intro!: cred_step.intros split: if_splits)
next
  case (GetUid nm)
  have "cred_get_uid nm s = (case accounts s (cstr nm) of None \<Rightarrow> -1 | Some a \<Rightarrow> uint (fst a))"
  proof (cases "find_idx (named_user nm) (users s)")
    case (Some i)
    then have "i < MAX_USERS" "active (users s ! i)"
      using find_idx_SomeD [OF Some] cred_invD(1) [OF inv] by (auto simp: named_user_def)
    then show ?thesis using Some sint_active [OF inv]
      by (simp add: cred_get_uid_def accounts_def Let_def flip: named_user_alt)
  qed (simp add: cred_get_uid_def accounts_def named_user_alt)
  then show ?thesis using GetUid run inv cred_step.identified [of "accounts s" nm] by auto
qed (use run inv login_correct [OF g inv] card_accounts [OF inv] cred_step.counted [of "accounts s"] in
    \<open>auto simp: cred_user_count_eq intro: cred_step.authenticated\<close>)

lemma cred_run_refines:
  "g_ok g \<Longrightarrow> cred_inv s \<Longrightarrow> \<forall>q \<in> set qs. cred_op_ok q \<Longrightarrow> cred_run g hw qs s = (s', rs) \<Longrightarrow>
    cred_inv s' \<and> cred_steps (accounts s) qs rs (accounts s')"
proof (induction qs arbitrary: s s' rs)
  case Nil
  then show ?case by (auto intro: cred_steps.none)
next
  case (Cons q qs)
  obtain s1 r where q: "cred_exec g hw q s = (s1, r)" by fastforce
  obtain s2 rs' where r: "cred_run g hw qs s1 = (s2, rs')" by fastforce
  have e: "s' = s2" "rs = r # rs'" using Cons.prems(4) q r by auto
  have "cred_inv s1 \<and> cred_step (accounts s) q r (accounts s1)"
    using cred_exec_refines [OF Cons.prems(1,2) _ q] Cons.prems(3) by simp
  then show ?case using Cons.IH [OF Cons.prems(1) _ _ r] Cons.prems(3) e
    by (auto intro: cred_steps.more)
qed

text \<open>Booting: whatever the table held, it ends with the two default accounts.\<close>

definition boot_table :: "cred_state \<Rightarrow> bool" where
  "boot_table s \<longleftrightarrow> length (users s) = MAX_USERS \<and>
     (\<forall>u \<in> set (users s). length (username u) = USERNAME_MAX) \<and> next_uid s = 1001"

lemma boot_names: "cstr (bytes_of ''root'') = bytes_of ''root''" "cstr (bytes_of ''mandor'') = bytes_of ''mandor''"
  "bytes_of ''root'' \<noteq> bytes_of ''mandor''" "length (bytes_of ''root'') = 4" "length (bytes_of ''mandor'') = 6"
  by code_simp+

lemma length_verifier: "length (verifier p slt) = min 32 (length (pbkdf2_spec (cstr p) slt 10))"
  by (simp add: verifier_def)

lemma cred_init_boots:
  assumes g: "g_ok g" and b: "boot_table s"
  shows "cred_inv (cred_init g hw s) \<and>
    (\<exists>s1 s2. accounts (cred_init g hw s) =
      [bytes_of ''root'' \<mapsto> (0, 0, s1, verifier (bytes_of ''root'') s1),
       bytes_of ''mandor'' \<mapsto> (1000, 1000, s2, verifier (bytes_of ''genos'') s2)])"
proof -
  define s0 where "s0 = s\<lparr>users := map (\<lambda>u. u\<lparr>active := False\<rparr>) (users s)\<rparr>"
  have s0: "length (users s0) = MAX_USERS" "\<forall>u \<in> set (users s0). length (username u) = USERNAME_MAX \<and> \<not> active u"
    "next_uid s0 = 1001"
    using b by (auto simp: boot_table_def s0_def)
  from s0(1) obtain a c rest where us: "users s0 = a # c # rest" and r: "length rest = 6"
    by (auto simp: length_Suc_conv eval_nat_numeral)
  obtain b1 r1 where b1: "random_bytes hw SALT_SIZE (cred_rng s0) = (b1, r1)" by fastforce
  obtain b2 r2 where b2: "random_bytes hw SALT_SIZE r1 = (b2, r2)" by fastforce
  define u1 where "u1 = \<lparr>username = copy_name 31 (bytes_of ''root'') (username a), uid = 0, gid = 0,
        salt = b1, password_hash = verifier (bytes_of ''root'') b1, active = True\<rparr>"
  define u2 where "u2 = \<lparr>username = copy_name 31 (bytes_of ''mandor'') (username c), uid = 1000, gid = 1000,
        salt = b2, password_hash = verifier (bytes_of ''genos'') b2, active = True\<rparr>"
  define t where "t = s0\<lparr>users := u1 # u2 # rest, cred_rng := r2\<rparr>"
  have t: "cred_init g hw s = t"
    using create_user_at_eq [OF g b1, of 0 "bytes_of ''root''" "bytes_of ''root''" 0 0] us b2
      create_user_at_eq [OF g, of hw "s0\<lparr>users := u1 # c # rest, cred_rng := r1\<rparr>" b2 r2 1 "bytes_of ''mandor''"
        "bytes_of ''genos''" 1000 1000]
    by (simp add: cred_init_def Let_def s0_def [symmetric] u1_def u2_def t_def)
  have l: "length b1 = SALT_SIZE" "length b2 = SALT_SIZE"
    using length_random_bytes [of hw SALT_SIZE "cred_rng s0"] length_random_bytes [of hw SALT_SIZE r1] b1 b2
    by simp_all
  have h: "length (verifier p b1) = HASH_SIZE" "length (verifier p b2) = HASH_SIZE" for p
    using length_hash_password [of g p] by (metis hash_verifier [OF g] l)+
  have names: "cstr (username u1) = bytes_of ''root''" "cstr (username u2) = bytes_of ''mandor''"
    "bytes_of ''root'' \<noteq> bytes_of ''mandor''"
    using s0(2) us boot_names by (simp_all add: u1_def u2_def cstr_copy_name)
  have off: "\<not> active u" if "u \<in> set rest" for u using s0(2) us that by simp
  have "slots_distinct active uid (u1 # u2 # rest)" "slots_distinct active (\<lambda>u. cstr (username u)) (u1 # u2 # rest)"
    using off names by (auto simp: slots_distinct_Cons slots_distinct_dead) (simp_all add: u1_def u2_def)
  moreover have "count_if active rest = 0" using off by (simp add: count_if_def)
  ultimately have "cred_inv t"
    using s0 us off r l h by (auto simp: cred_inv_def t_def user_ok_def u1_def u2_def cstr_copy_name)
  moreover have "accounts t =
      [bytes_of ''root'' \<mapsto> (0, 0, b1, verifier (bytes_of ''root'') b1),
       bytes_of ''mandor'' \<mapsto> (1000, 1000, b2, verifier (bytes_of ''genos'') b2)]"
  proof (rule ext)
    fix n
    have "find_idx (\<lambda>u. active u \<and> cstr (username u) = n) rest = None"
      using off by (auto simp: find_idx_None_iff)
    then show "accounts t n = [bytes_of ''root'' \<mapsto> (0, 0, b1, verifier (bytes_of ''root'') b1),
       bytes_of ''mandor'' \<mapsto> (1000, 1000, b2, verifier (bytes_of ''genos'') b2)] n"
      using names by (auto simp: accounts_def t_def Let_def) (auto simp: u1_def u2_def)
  qed
  ultimately show ?thesis using t by blast
qed

text \<open>
  A name that does not fit the field is stored cut off, so it is never found again: every attempt to
  create it succeeds while there is room, and every login under it fails.
\<close>

lemma long_name_unknown:
  assumes "\<forall>u \<in> set (users s). user_ok u" and "USERNAME_MAX \<le> length (cstr name)"
  shows "find_idx (named_user name) (users s) = None"
  using assms by (fastforce simp: find_idx_None_iff named_user_alt user_ok_def)

lemma cred_long_name:
  assumes g: "g_ok g" and inv: "cred_inv s" and long: "USERNAME_MAX \<le> length (cstr name)"
    and room: "count_if active (users s) < MAX_USERS"
    and run: "cred_create_user g hw name pw grp s = (s', r)"
  shows "r = uint (next_uid s) \<and> cred_authenticate g name pw s' = -1 \<and> cred_get_uid name s' = -1"
proof -
  have old: "\<forall>u \<in> set (users s). user_ok u" using inv by (simp add: cred_inv_def)
  note d = cred_invD [OF inv]
  have "find_idx (\<lambda>u. \<not> active u) (users s) \<noteq> None"
    using count_if_full [of active "users s"] room d(1) by auto
  then obtain i where i: "find_idx (\<lambda>u. \<not> active u) (users s) = Some i" by blast
  obtain bs rg where bs: "random_bytes hw SALT_SIZE (cred_rng s) = (bs, rg)" by fastforce
  define v where "v = \<lparr>username = copy_name 31 name (username (users s ! i)), uid = next_uid s, gid = grp,
      salt = bs, password_hash = verifier pw bs, active = True\<rparr>"
  have lb: "length bs = SALT_SIZE" using length_random_bytes [of hw SALT_SIZE "cred_rng s"] bs by simp
  have "length (verifier pw bs) = HASH_SIZE"
    using length_hash_password [of g pw bs] by (simp add: hash_verifier [OF g lb])
  then have "user_ok v"
    using lb d(1) d(2) [of i] find_idx_SomeD(1) [OF i] by (simp add: v_def user_ok_def cstr_copy_name)
  then have "\<forall>u \<in> set ((users s)[i := v]). user_ok u" using old by (intro all_update)
  moreover have "users s' = (users s)[i := v]" and "r = uint (next_uid s)"
    using run i long_name_unknown [OF old long] create_user_at_eq [OF g bs, of i name pw "next_uid s" grp]
      sint_uid [OF d(7)]
    by (auto simp: cred_create_user_def Let_def v_def)
  ultimately show ?thesis
    using long_name_unknown [of s' name] long by (simp add: cred_authenticate_def cred_get_uid_def)
qed

section \<open>Properties\<close>

text \<open>
  C24: from the boot of the account table, any sequence of operations with names that fit the field
  behaves like the map of accounts: the answers are those of the specification, a login succeeds
  exactly when the PBKDF2 value of the password under the account's salt is the stored one, and names
  and ids stay unique. The map starts with the two default accounts.
\<close>

theorem cred_refines:
  assumes "g_ok g" and "boot_table s" and "\<forall>q \<in> set qs. cred_op_ok q"
    and "cred_run g hw qs (cred_init g hw s) = (s', rs)"
  shows "cred_inv s' \<and> (\<exists>s1 s2. cred_steps
      [bytes_of ''root'' \<mapsto> (0, 0, s1, verifier (bytes_of ''root'') s1),
       bytes_of ''mandor'' \<mapsto> (1000, 1000, s2, verifier (bytes_of ''genos'') s2)] qs rs (accounts s'))"
proof -
  obtain s1 s2 where i: "cred_inv (cred_init g hw s)"
    "accounts (cred_init g hw s) = [bytes_of ''root'' \<mapsto> (0, 0, s1, verifier (bytes_of ''root'') s1),
       bytes_of ''mandor'' \<mapsto> (1000, 1000, s2, verifier (bytes_of ''genos'') s2)]"
    using cred_init_boots [OF assms(1,2)] by blast
  show ?thesis using cred_run_refines [OF assms(1) i(1) assms(3,4)] unfolding i(2) by blast
qed

definition blank_cred :: cred_state where
  "blank_cred = \<lparr>users = replicate 8 \<lparr>username = replicate 32 0, uid = 0, gid = 0, salt = replicate 16 0,
       password_hash = replicate 32 0, active = False\<rparr>,
     next_uid = 1001, cred_rng = \<lparr>has_rdrand = False, prng_s = (1, 2, 3, 4), rd_count = 0\<rparr>\<rparr>"

abbreviation zero_buf :: "nat \<Rightarrow> nat \<Rightarrow> u8 list" where "zero_buf \<equiv> \<lambda>i j. replicate 64 0"

lemma cred_refines_witness:
  "\<exists>s' rs s1 s2. cred_run zero_buf (\<lambda>i. None) [CreateUser [97, 98] [99] 5, Authenticate [97, 98] [99]]
      (cred_init zero_buf (\<lambda>i. None) blank_cred) = (s', rs) \<and>
    cred_steps [bytes_of ''root'' \<mapsto> (0, 0, s1, verifier (bytes_of ''root'') s1),
       bytes_of ''mandor'' \<mapsto> (1000, 1000, s2, verifier (bytes_of ''genos'') s2)]
      [CreateUser [97, 98] [99] 5, Authenticate [97, 98] [99]] rs (accounts s')"
proof -
  have c: "g_ok zero_buf" "boot_table blank_cred"
    by (simp_all add: g_ok_def boot_table_def blank_cred_def)
  let ?qs = "[CreateUser [97, 98] [99] 5, Authenticate [97, 98] [99]]"
  obtain s' rs where r: "cred_run zero_buf (\<lambda>i. None) ?qs (cred_init zero_buf (\<lambda>i. None) blank_cred) = (s', rs)"
    by fastforce
  show ?thesis using cred_refines [OF c _ r] r by simp
qed

text \<open>
  A new account can log in with its password and gets the id \<^verbatim>\<open>cred_create_user\<close> returned;
  after a password change it logs in with the new one, and no login under another name has changed.
\<close>

theorem cred_password_lifecycle:
  assumes "g_ok g" and "cred_inv s" and "length (cstr name) < USERNAME_MAX"
    and "accounts s (cstr name) = None" and "count_if active (users s) < MAX_USERS"
    and "cred_create_user g hw name pw grp s = (s1, r)"
    and "cred_change_password g hw' (next_uid s) pw' s1 = (s2, r')"
  shows "r = uint (next_uid s) \<and> r' = 0 \<and> cred_authenticate g name pw s1 = r \<and>
    cred_authenticate g name pw' s2 = r \<and>
    (\<forall>n p. cstr n \<noteq> cstr name \<longrightarrow> cred_authenticate g n p s2 = cred_authenticate g n p s)"
proof -
  obtain slt where c: "cred_inv s1" "r = uint (next_uid s)"
    "accounts s1 = (accounts s)(cstr name \<mapsto> (next_uid s, grp, slt, verifier pw slt))"
    using create_spec [OF assms(1,2,3,6)] assms(4,5) by auto
  have here: "\<exists>n. map_option fst (accounts s1 n) = Some (next_uid s)"
    by (rule exI [of _ "cstr name"]) (simp add: c(3))
  then obtain n grp' slt1 slt2 h where d: "r' = 0" "cred_inv s2"
    "accounts s1 n = Some (next_uid s, grp', slt2, h)"
    "accounts s2 = (accounts s1)(n \<mapsto> (next_uid s, grp', slt1, verifier pw' slt1))"
    using change_spec [OF assms(1) c(1) assms(7)] by auto
  have "n = cstr name"
  proof (rule ccontr)
    assume "n \<noteq> cstr name"
    then have "accounts s n = Some (next_uid s, grp', slt2, h)" using d(3) c(3) by simp
    then show False using fresh_uid [OF assms(2), of n] by simp
  qed
  then show ?thesis using c d assms(1,2) by (simp add: login_correct login_def)
qed

lemma cred_password_lifecycle_witness:
  "\<exists>s s1 s2 r r'. cred_create_user zero_buf (\<lambda>i. None) [97, 98] [99] 5 s = (s1, r) \<and>
    cred_change_password zero_buf (\<lambda>i. None) (next_uid s) [100] s1 = (s2, r') \<and>
    r = uint (next_uid s) \<and> r' = 0 \<and> cred_authenticate zero_buf [97, 98] [100] s2 = r"
proof -
  have c: "g_ok zero_buf" "boot_table blank_cred"
    by (simp_all add: g_ok_def boot_table_def blank_cred_def)
  let ?s = "cred_init zero_buf (\<lambda>i. None) blank_cred"
  have names: "cstr [97, 98] \<noteq> bytes_of ''root''" "cstr [97, 98] \<noteq> bytes_of ''mandor''" by code_simp+
  obtain s1 s2 where b: "cred_inv ?s"
    "accounts ?s = [bytes_of ''root'' \<mapsto> (0, 0, s1, verifier (bytes_of ''root'') s1),
       bytes_of ''mandor'' \<mapsto> (1000, 1000, s2, verifier (bytes_of ''genos'') s2)]"
    using cred_init_boots [OF c] by blast
  have i: "cred_inv ?s" "accounts ?s (cstr [97, 98]) = None" "card (dom (accounts ?s)) = 2"
    using b names boot_names(3) by (simp_all del: cstr_simps)
  then have n: "count_if active (users ?s) < MAX_USERS" using card_accounts [OF i(1)] by simp
  obtain s1 r where r: "cred_create_user zero_buf (\<lambda>i. None) [97, 98] [99] 5 ?s = (s1, r)" by fastforce
  obtain s2 r' where r': "cred_change_password zero_buf (\<lambda>i. None) (next_uid ?s) [100] s1 = (s2, r')" by fastforce
  show ?thesis using cred_password_lifecycle [OF c(1) i(1) _ i(2) n r r'] r r' by simp blast
qed

end
