(* ===== verification/Aes.thy ===== *)
theory Aes
  imports Prelude
begin

text \<open>
  AES-256 and its CBC mode with PKCS#7 padding, \<^verbatim>\<open>crypto/aes.c\<close>. A 16-byte state is a list; the C
  functions that update it in place return it. The main results are that block decryption undoes
  block encryption and that CBC decryption undoes CBC encryption, padding included.
\<close>

section \<open>Tables and field arithmetic\<close>

definition sbox :: "u8 list" where
  "sbox =
    [0x63, 0x7c, 0x77, 0x7b, 0xf2, 0x6b, 0x6f, 0xc5, 0x30, 0x01, 0x67, 0x2b, 0xfe, 0xd7, 0xab, 0x76,
     0xca, 0x82, 0xc9, 0x7d, 0xfa, 0x59, 0x47, 0xf0, 0xad, 0xd4, 0xa2, 0xaf, 0x9c, 0xa4, 0x72, 0xc0,
     0xb7, 0xfd, 0x93, 0x26, 0x36, 0x3f, 0xf7, 0xcc, 0x34, 0xa5, 0xe5, 0xf1, 0x71, 0xd8, 0x31, 0x15,
     0x04, 0xc7, 0x23, 0xc3, 0x18, 0x96, 0x05, 0x9a, 0x07, 0x12, 0x80, 0xe2, 0xeb, 0x27, 0xb2, 0x75,
     0x09, 0x83, 0x2c, 0x1a, 0x1b, 0x6e, 0x5a, 0xa0, 0x52, 0x3b, 0xd6, 0xb3, 0x29, 0xe3, 0x2f, 0x84,
     0x53, 0xd1, 0x00, 0xed, 0x20, 0xfc, 0xb1, 0x5b, 0x6a, 0xcb, 0xbe, 0x39, 0x4a, 0x4c, 0x58, 0xcf,
     0xd0, 0xef, 0xaa, 0xfb, 0x43, 0x4d, 0x33, 0x85, 0x45, 0xf9, 0x02, 0x7f, 0x50, 0x3c, 0x9f, 0xa8,
     0x51, 0xa3, 0x40, 0x8f, 0x92, 0x9d, 0x38, 0xf5, 0xbc, 0xb6, 0xda, 0x21, 0x10, 0xff, 0xf3, 0xd2,
     0xcd, 0x0c, 0x13, 0xec, 0x5f, 0x97, 0x44, 0x17, 0xc4, 0xa7, 0x7e, 0x3d, 0x64, 0x5d, 0x19, 0x73,
     0x60, 0x81, 0x4f, 0xdc, 0x22, 0x2a, 0x90, 0x88, 0x46, 0xee, 0xb8, 0x14, 0xde, 0x5e, 0x0b, 0xdb,
     0xe0, 0x32, 0x3a, 0x0a, 0x49, 0x06, 0x24, 0x5c, 0xc2, 0xd3, 0xac, 0x62, 0x91, 0x95, 0xe4, 0x79,
     0xe7, 0xc8, 0x37, 0x6d, 0x8d, 0xd5, 0x4e, 0xa9, 0x6c, 0x56, 0xf4, 0xea, 0x65, 0x7a, 0xae, 0x08,
     0xba, 0x78, 0x25, 0x2e, 0x1c, 0xa6, 0xb4, 0xc6, 0xe8, 0xdd, 0x74, 0x1f, 0x4b, 0xbd, 0x8b, 0x8a,
     0x70, 0x3e, 0xb5, 0x66, 0x48, 0x03, 0xf6, 0x0e, 0x61, 0x35, 0x57, 0xb9, 0x86, 0xc1, 0x1d, 0x9e,
     0xe1, 0xf8, 0x98, 0x11, 0x69, 0xd9, 0x8e, 0x94, 0x9b, 0x1e, 0x87, 0xe9, 0xce, 0x55, 0x28, 0xdf,
     0x8c, 0xa1, 0x89, 0x0d, 0xbf, 0xe6, 0x42, 0x68, 0x41, 0x99, 0x2d, 0x0f, 0xb0, 0x54, 0xbb, 0x16]"

definition inv_sbox :: "u8 list" where
  "inv_sbox =
    [0x52, 0x09, 0x6a, 0xd5, 0x30, 0x36, 0xa5, 0x38, 0xbf, 0x40, 0xa3, 0x9e, 0x81, 0xf3, 0xd7, 0xfb,
     0x7c, 0xe3, 0x39, 0x82, 0x9b, 0x2f, 0xff, 0x87, 0x34, 0x8e, 0x43, 0x44, 0xc4, 0xde, 0xe9, 0xcb,
     0x54, 0x7b, 0x94, 0x32, 0xa6, 0xc2, 0x23, 0x3d, 0xee, 0x4c, 0x95, 0x0b, 0x42, 0xfa, 0xc3, 0x4e,
     0x08, 0x2e, 0xa1, 0x66, 0x28, 0xd9, 0x24, 0xb2, 0x76, 0x5b, 0xa2, 0x49, 0x6d, 0x8b, 0xd1, 0x25,
     0x72, 0xf8, 0xf6, 0x64, 0x86, 0x68, 0x98, 0x16, 0xd4, 0xa4, 0x5c, 0xcc, 0x5d, 0x65, 0xb6, 0x92,
     0x6c, 0x70, 0x48, 0x50, 0xfd, 0xed, 0xb9, 0xda, 0x5e, 0x15, 0x46, 0x57, 0xa7, 0x8d, 0x9d, 0x84,
     0x90, 0xd8, 0xab, 0x00, 0x8c, 0xbc, 0xd3, 0x0a, 0xf7, 0xe4, 0x58, 0x05, 0xb8, 0xb3, 0x45, 0x06,
     0xd0, 0x2c, 0x1e, 0x8f, 0xca, 0x3f, 0x0f, 0x02, 0xc1, 0xaf, 0xbd, 0x03, 0x01, 0x13, 0x8a, 0x6b,
     0x3a, 0x91, 0x11, 0x41, 0x4f, 0x67, 0xdc, 0xea, 0x97, 0xf2, 0xcf, 0xce, 0xf0, 0xb4, 0xe6, 0x73,
     0x96, 0xac, 0x74, 0x22, 0xe7, 0xad, 0x35, 0x85, 0xe2, 0xf9, 0x37, 0xe8, 0x1c, 0x75, 0xdf, 0x6e,
     0x47, 0xf1, 0x1a, 0x71, 0x1d, 0x29, 0xc5, 0x89, 0x6f, 0xb7, 0x62, 0x0e, 0xaa, 0x18, 0xbe, 0x1b,
     0xfc, 0x56, 0x3e, 0x4b, 0xc6, 0xd2, 0x79, 0x20, 0x9a, 0xdb, 0xc0, 0xfe, 0x78, 0xcd, 0x5a, 0xf4,
     0x1f, 0xdd, 0xa8, 0x33, 0x88, 0x07, 0xc7, 0x31, 0xb1, 0x12, 0x10, 0x59, 0x27, 0x80, 0xec, 0x5f,
     0x60, 0x51, 0x7f, 0xa9, 0x19, 0xb5, 0x4a, 0x0d, 0x2d, 0xe5, 0x7a, 0x9f, 0x93, 0xc9, 0x9c, 0xef,
     0xa0, 0xe0, 0x3b, 0x4d, 0xae, 0x2a, 0xf5, 0xb0, 0xc8, 0xeb, 0xbb, 0x3c, 0x83, 0x53, 0x99, 0x61,
     0x17, 0x2b, 0x04, 0x7e, 0xba, 0x77, 0xd6, 0x26, 0xe1, 0x69, 0x14, 0x63, 0x55, 0x21, 0x0c, 0x7d]"

definition rcon :: "u8 list" where
  "rcon = [0x01, 0x02, 0x04, 0x08, 0x10, 0x20, 0x40, 0x80, 0x1b, 0x36]"

definition sub :: "u8 \<Rightarrow> u8" where
  "sub x = sbox ! unat x"

definition inv_sub :: "u8 \<Rightarrow> u8" where
  "inv_sub x = inv_sbox ! unat x"

definition xtime :: "u8 \<Rightarrow> u8" where
  "xtime x = push_bit 1 x XOR ((drop_bit 7 x AND 1) * 0x1b)"

text \<open>One turn of the loop of \<open>gf_mul\<close>, on \<open>a\<close>, \<open>b\<close> and the product so far.\<close>

fun gf_step :: "u8 \<times> u8 \<times> u8 \<Rightarrow> u8 \<times> u8 \<times> u8" where
  "gf_step (a, b, p) =
     (let p = (if b AND 1 \<noteq> 0 then p XOR a else p);
          hi = a AND 0x80;
          a = push_bit 1 a;
          a = (if hi \<noteq> 0 then a XOR 0x1b else a)
      in (a, drop_bit 1 b, p))"

definition gf_mul :: "u8 \<Rightarrow> u8 \<Rightarrow> u8" where
  "gf_mul a b = snd (snd ((gf_step ^^ 8) (a, b, 0)))"

section \<open>Key expansion\<close>

text \<open>
  One turn of the expansion loop appends four bytes to the \<open>n\<close> bytes of round keys made so far;
  the second component is the index of the next round constant.
\<close>

definition expand_step :: "nat \<Rightarrow> u8 list \<times> nat \<Rightarrow> u8 list \<times> nat" where
  "expand_step n = (\<lambda>(rk, ri).
     let t0 = rk ! (n - 4); t1 = rk ! (n - 3); t2 = rk ! (n - 2); t3 = rk ! (n - 1);
         (tmp, ri) =
           (if n mod 32 = 0 then ([sub t1 XOR rcon ! ri, sub t2, sub t3, sub t0], ri + 1)
            else if n mod 32 = 16 then ([sub t0, sub t1, sub t2, sub t3], ri)
            else ([t0, t1, t2, t3], ri))
     in (rk @ map (\<lambda>i. rk ! (n - 32 + i) XOR tmp ! i) [0 ..< 4], ri))"

definition key_expansion :: "u8 list \<Rightarrow> u8 list" where
  "key_expansion key = fst (fold expand_step (map (\<lambda>k. 32 + 4 * k) [0 ..< 52]) (key, 0))"

section \<open>The round transformations\<close>

definition add_round_key :: "u8 list \<Rightarrow> u8 list \<Rightarrow> u8 list" where
  "add_round_key rk state = map (\<lambda>i. state ! i XOR rk ! i) [0 ..< 16]"

definition sub_bytes :: "u8 list \<Rightarrow> u8 list" where
  "sub_bytes state = map sub state"

definition inv_sub_bytes :: "u8 list \<Rightarrow> u8 list" where
  "inv_sub_bytes state = map inv_sub state"

definition shift_rows :: "u8 list \<Rightarrow> u8 list" where
  "shift_rows s =
     (let t = s ! 1; s = s[1 := s ! 5]; s = s[5 := s ! 9]; s = s[9 := s ! 13]; s = s[13 := t];
          t = s ! 2; s = s[2 := s ! 10]; s = s[10 := t];
          t = s ! 6; s = s[6 := s ! 14]; s = s[14 := t];
          t = s ! 15; s = s[15 := s ! 11]; s = s[11 := s ! 7]; s = s[7 := s ! 3]
      in s[3 := t])"

definition inv_shift_rows :: "u8 list \<Rightarrow> u8 list" where
  "inv_shift_rows s =
     (let t = s ! 13; s = s[13 := s ! 9]; s = s[9 := s ! 5]; s = s[5 := s ! 1]; s = s[1 := t];
          t = s ! 2; s = s[2 := s ! 10]; s = s[10 := t];
          t = s ! 6; s = s[6 := s ! 14]; s = s[14 := t];
          t = s ! 3; s = s[3 := s ! 7]; s = s[7 := s ! 11]; s = s[11 := s ! 15]
      in s[15 := t])"

definition mix_column :: "u8 list \<Rightarrow> nat \<Rightarrow> u8 list" where
  "mix_column s i =
     (let a0 = s ! i; a1 = s ! (i + 1); a2 = s ! (i + 2); a3 = s ! (i + 3)
      in [xtime a0 XOR xtime a1 XOR a1 XOR a2 XOR a3,
          a0 XOR xtime a1 XOR xtime a2 XOR a2 XOR a3,
          a0 XOR a1 XOR xtime a2 XOR xtime a3 XOR a3,
          xtime a0 XOR a0 XOR a1 XOR a2 XOR xtime a3])"

definition mix_columns :: "u8 list \<Rightarrow> u8 list" where
  "mix_columns s = concat (map (\<lambda>c. mix_column s (c * 4)) [0 ..< 4])"

definition inv_mix_column :: "u8 list \<Rightarrow> nat \<Rightarrow> u8 list" where
  "inv_mix_column s i =
     (let a0 = s ! i; a1 = s ! (i + 1); a2 = s ! (i + 2); a3 = s ! (i + 3)
      in [gf_mul a0 0x0e XOR gf_mul a1 0x0b XOR gf_mul a2 0x0d XOR gf_mul a3 0x09,
          gf_mul a0 0x09 XOR gf_mul a1 0x0e XOR gf_mul a2 0x0b XOR gf_mul a3 0x0d,
          gf_mul a0 0x0d XOR gf_mul a1 0x09 XOR gf_mul a2 0x0e XOR gf_mul a3 0x0b,
          gf_mul a0 0x0b XOR gf_mul a1 0x0d XOR gf_mul a2 0x09 XOR gf_mul a3 0x0e])"

definition inv_mix_columns :: "u8 list \<Rightarrow> u8 list" where
  "inv_mix_columns s = concat (map (\<lambda>c. inv_mix_column s (c * 4)) [0 ..< 4])"

section \<open>Blocks\<close>

definition round_key :: "u8 list \<Rightarrow> nat \<Rightarrow> u8 list" where
  "round_key rk r = drop (r * 16) rk"

definition encrypt_round :: "u8 list \<Rightarrow> nat \<Rightarrow> u8 list \<Rightarrow> u8 list" where
  "encrypt_round rk r s = add_round_key (round_key rk r) (mix_columns (shift_rows (sub_bytes s)))"

definition decrypt_round :: "u8 list \<Rightarrow> nat \<Rightarrow> u8 list \<Rightarrow> u8 list" where
  "decrypt_round rk r s = inv_mix_columns (add_round_key (round_key rk r) (inv_sub_bytes (inv_shift_rows s)))"

definition aes256_encrypt_block :: "u8 list \<Rightarrow> u8 list \<Rightarrow> u8 list" where
  "aes256_encrypt_block key inp =
     (let rk = key_expansion key;
          s = add_round_key (round_key rk 0) inp;
          s = fold (encrypt_round rk) [1 ..< 14] s
      in add_round_key (round_key rk 14) (shift_rows (sub_bytes s)))"

definition aes256_decrypt_block :: "u8 list \<Rightarrow> u8 list \<Rightarrow> u8 list" where
  "aes256_decrypt_block key inp =
     (let rk = key_expansion key;
          s = add_round_key (round_key rk 14) inp;
          s = fold (decrypt_round rk) (rev [1 ..< 14]) s
      in add_round_key (round_key rk 0) (inv_sub_bytes (inv_shift_rows s)))"

section \<open>Cipher block chaining\<close>

text \<open>
  \<open>cbc_blocks\<close> is the encryption loop: the plaintext from \<open>offset\<close> on, block by block, with the
  previous cipher block. The two functions return C's \<^verbatim>\<open>int\<close> and the bytes written to the output buffer.
  Lengths are \<^verbatim>\<open>size_t\<close>, 64-bit words that wrap; \<open>c_int\<close> is the conversion to \<^verbatim>\<open>int\<close> of the value
  returned, which keeps the low 32 bits. Decryption has written its whole output when it finds the padding
  broken.
\<close>

definition c_int :: "u64 \<Rightarrow> int" where
  "c_int x = sint (ucast x :: u32)"

definition padded_block :: "u8 list \<Rightarrow> nat \<Rightarrow> nat \<Rightarrow> u8 list" where
  "padded_block pt padded_len offset =
     map (\<lambda>i. let idx = offset + i
              in if idx < length pt then pt ! idx else of_nat (padded_len - length pt)) [0 ..< 16]"

fun cbc_blocks :: "u8 list \<Rightarrow> u8 list \<Rightarrow> nat \<Rightarrow> nat list \<Rightarrow> u8 list \<Rightarrow> u8 list" where
  "cbc_blocks key pt padded_len [] prev = []"
| "cbc_blocks key pt padded_len (offset # os) prev =
     (let block = map2 (XOR) (padded_block pt padded_len offset) prev;
          ct = aes256_encrypt_block key block
      in ct @ cbc_blocks key pt padded_len os ct)"

definition aes256_cbc_encrypt :: "u8 list \<Rightarrow> u8 list \<Rightarrow> u8 list \<Rightarrow> nat \<Rightarrow> int \<times> u8 list" where
  "aes256_cbc_encrypt key iv pt out_max =
     (let pt_len = of_nat (length pt) :: u64;
          padded_len = (pt_len div 16 + 1) * 16
      in if unat padded_len > out_max then (-1, [])
         else (c_int padded_len,
               cbc_blocks key pt (unat padded_len) (map (\<lambda>k. k * 16) [0 ..< unat padded_len div 16]) iv))"

fun cbc_undo :: "u8 list \<Rightarrow> u8 list \<Rightarrow> nat list \<Rightarrow> u8 list \<Rightarrow> u8 list" where
  "cbc_undo key ct [] prev = []"
| "cbc_undo key ct (offset # os) prev =
     (let cblock = take 16 (drop offset ct);
          block = aes256_decrypt_block key cblock
      in map2 (XOR) block prev @ cbc_undo key ct os cblock)"

definition unpad :: "u64 \<Rightarrow> u8 list \<Rightarrow> int" where
  "unpad ct_len pt =
     (let n = unat ct_len; pad_val = pt ! (n - 1)
      in if pad_val = 0 \<or> pad_val > 16 then -1
         else if \<exists>i \<in> set [0 ..< unat pad_val]. pt ! (n - 1 - i) \<noteq> pad_val then -1
         else c_int (ct_len - ucast pad_val))"

definition aes256_cbc_decrypt :: "u8 list \<Rightarrow> u8 list \<Rightarrow> u8 list \<Rightarrow> nat \<Rightarrow> int \<times> u8 list" where
  "aes256_cbc_decrypt key iv ct out_max =
     (let ct_len = of_nat (length ct) :: u64
      in if ct_len = 0 \<or> ct_len mod 16 \<noteq> 0 then (-1, [])
         else if unat ct_len > out_max then (-1, [])
         else let pt = cbc_undo key ct (map (\<lambda>k. k * 16) [0 ..< unat ct_len div 16]) iv
              in (unpad ct_len pt, pt))"

section \<open>The transformations are inverses\<close>

lemma sbox_table: "map inv_sub sbox = map of_nat [0 ..< 256]"
  by code_simp

lemma length_sbox: "length sbox = 256"
  by (simp add: sbox_def)

lemma inv_sub_sub [simp]: "inv_sub (sub x) = x"
proof -
  have lt: "unat x < 256" using unsigned_less [of x] by simp
  then have "inv_sub (sbox ! unat x) = map inv_sub sbox ! unat x" by (simp add: length_sbox)
  also have "\<dots> = x" using lt by (simp add: sbox_table)
  finally show ?thesis by (simp add: sub_def)
qed

lemma xtime_alt: "xtime x = push_bit 1 x XOR (if bit x 7 then 0x1b else 0)"
proof -
  have "drop_bit 7 x AND 1 = (if bit x 7 then 1 else 0)"
    by (simp add: and_one_eq bit_iff_odd_drop_bit mod_2_eq_odd)
  then show ?thesis by (simp add: xtime_def)
qed

lemma xtime_xor: "xtime (x XOR y) = xtime x XOR xtime y"
  by (simp add: xtime_alt push_bit_xor bit_xor_iff xor.assoc xor.left_commute)

lemma top_bit: "(a :: u8) AND 0x80 \<noteq> 0 \<longleftrightarrow> bit a 7"
  using and_exp_eq_0_iff_not_bit [of a 7] by simp

lemma gf_step_xtime [simp]:
  "gf_step (a, b, p) = (xtime a, drop_bit 1 b, if odd b then p XOR a else p)"
  by (simp add: Let_def top_bit xtime_alt and_one_eq mod_2_eq_odd)

declare gf_step.simps [simp del]

lemma funpow_8: "(f ^^ 8) x = f (f (f (f (f (f (f (f x)))))))"
  by (simp add: eval_nat_numeral)

lemma halves:
  "drop_bit 1 (9 :: u8) = 4" "drop_bit 1 (11 :: u8) = 5" "drop_bit 1 (13 :: u8) = 6"
  "drop_bit 1 (14 :: u8) = 7" "drop_bit 1 (7 :: u8) = 3" "drop_bit 1 (6 :: u8) = 3"
  "drop_bit 1 (5 :: u8) = 2" "drop_bit 1 (4 :: u8) = 2" "drop_bit 1 (3 :: u8) = 1"
  "drop_bit 1 (2 :: u8) = 1" "drop_bit 1 (1 :: u8) = 0"
  by simp_all

lemma gf_mul_consts:
  "gf_mul a 0x09 = a XOR xtime (xtime (xtime a))"
  "gf_mul a 0x0b = a XOR xtime a XOR xtime (xtime (xtime a))"
  "gf_mul a 0x0d = a XOR xtime (xtime a) XOR xtime (xtime (xtime a))"
  "gf_mul a 0x0e = xtime a XOR xtime (xtime a) XOR xtime (xtime (xtime a))"
  by (simp_all add: gf_mul_def funpow_8 halves xor.assoc del: One_nat_def)

lemma xor_cancel: "x XOR (x XOR y) = (y :: u8)"
  by (simp flip: xor.assoc)

lemma mix_column_inverse:
  assumes "mix_column s i = [b0, b1, b2, b3]"
  shows "inv_mix_column [b0, b1, b2, b3] 0 = [s ! i, s ! (i + 1), s ! (i + 2), s ! (i + 3)]"
  using assms
  by (auto simp: mix_column_def inv_mix_column_def Let_def gf_mul_consts xtime_xor
      xor_cancel xor.assoc xor.commute xor.left_commute numeral_2_eq_2 numeral_3_eq_3)

lemma upt_16: "[0 ..< 16] = [0, 1, 2, 3, 4, 5, 6, 7, 8, 9, 10, 11, 12, 13, 14, 15]"
  by code_simp

lemma list_16: "length s = 16 \<Longrightarrow> s = [s ! 0, s ! 1, s ! 2, s ! 3, s ! 4, s ! 5, s ! 6, s ! 7,
    s ! 8, s ! 9, s ! 10, s ! 11, s ! 12, s ! 13, s ! 14, s ! 15]"
  using map_nth [of s] by (simp add: upt_16)

lemma shift_rows_inverse_list:
  "inv_shift_rows (shift_rows [a, b, c, d, e, f, g, h, i, j, k, l, m, n, q, r]) =
    [a, b, c, d, e, f, g, h, i, j, k, l, m, n, q, r]"
  by (simp add: shift_rows_def inv_shift_rows_def Let_def)

lemma shift_rows_inverse: "length s = 16 \<Longrightarrow> inv_shift_rows (shift_rows s) = s"
  by (subst (1 2) list_16) (simp_all only: shift_rows_inverse_list)

lemma sub_bytes_inverse: "inv_sub_bytes (sub_bytes s) = s"
  by (simp add: inv_sub_bytes_def sub_bytes_def map_idI)

lemma add_round_key_inverse: "length s = 16 \<Longrightarrow> add_round_key rk (add_round_key rk s) = s"
  by (rule nth_equalityI) (simp_all add: add_round_key_def xor.assoc)

lemma length_add_round_key [simp]: "length (add_round_key rk s) = 16"
  by (simp add: add_round_key_def)

lemma length_shift_rows [simp]: "length (shift_rows s) = length s"
  by (simp add: shift_rows_def Let_def)

lemma length_sub_bytes [simp]: "length (sub_bytes s) = length s"
  by (simp add: sub_bytes_def)

lemma length_mix_column [simp]: "length (mix_column s i) = 4"
  by (simp add: mix_column_def Let_def)

lemma mix_columns_unfold:
  "mix_columns s = mix_column s 0 @ mix_column s 4 @ mix_column s 8 @ mix_column s 12"
  by (simp add: mix_columns_def upt_rec)

lemma inv_mix_columns_unfold:
  "inv_mix_columns s =
    inv_mix_column s 0 @ inv_mix_column s 4 @ inv_mix_column s 8 @ inv_mix_column s 12"
  by (simp add: inv_mix_columns_def upt_rec)

lemma length_mix_columns [simp]: "length (mix_columns s) = 16"
  by (simp add: mix_columns_unfold)

lemma inv_mix_column_append:
  assumes "i = length p" and "length c = 4"
  shows "inv_mix_column (p @ c @ q) i = inv_mix_column c 0"
  using assms by (auto simp: inv_mix_column_def Let_def nth_append numeral_2_eq_2)

lemma inv_mix_mix: "inv_mix_column (mix_column s i) 0 = [s ! i, s ! (i + 1), s ! (i + 2), s ! (i + 3)]"
proof -
  obtain b0 b1 b2 b3 where "mix_column s i = [b0, b1, b2, b3]"
    by (simp add: mix_column_def Let_def)
  then show ?thesis using mix_column_inverse [of s i] by simp
qed

lemma mix_columns_inverse:
  assumes "length s = 16"
  shows "inv_mix_columns (mix_columns s) = s"
proof -
  let ?c = "mix_column s"
  let ?m = "?c 0 @ ?c 4 @ ?c 8 @ ?c 12"
  have "inv_mix_column ?m 0 = inv_mix_column (?c 0) 0"
    using inv_mix_column_append [of 0 "[]" "?c 0" "?c 4 @ ?c 8 @ ?c 12"] by simp
  moreover have "inv_mix_column ?m 4 = inv_mix_column (?c 4) 0"
    using inv_mix_column_append [of 4 "?c 0" "?c 4" "?c 8 @ ?c 12"] by simp
  moreover have "inv_mix_column ?m 8 = inv_mix_column (?c 8) 0"
    using inv_mix_column_append [of 8 "?c 0 @ ?c 4" "?c 8" "?c 12"] by simp
  moreover have "inv_mix_column ?m 12 = inv_mix_column (?c 12) 0"
    using inv_mix_column_append [of 12 "?c 0 @ ?c 4 @ ?c 8" "?c 12" "[]"] by simp
  ultimately show ?thesis
    using list_16 [OF assms] unfolding mix_columns_unfold inv_mix_columns_unfold
    by (simp add: inv_mix_mix numeral_2_eq_2)
qed

lemma length_encrypt_round [simp]: "length (encrypt_round rk r s) = 16"
  by (simp add: encrypt_round_def)

text \<open>
  The decryption loop interleaves the rounds differently: it keeps the state between the inverse
  rounds one half-round earlier. \<open>half\<close> is that state.
\<close>

definition half :: "u8 list \<Rightarrow> u8 list" where
  "half s = shift_rows (sub_bytes s)"

lemma half_inverse: "length s = 16 \<Longrightarrow> inv_sub_bytes (inv_shift_rows (half s)) = s"
  by (simp add: half_def shift_rows_inverse sub_bytes_inverse)

lemma length_half [simp]: "length (half s) = length s"
  by (simp add: half_def)

lemma decrypt_round_inverse: "length s = 16 \<Longrightarrow> decrypt_round rk r (half (encrypt_round rk r s)) = half s"
  by (simp add: decrypt_round_def half_inverse)
    (simp add: encrypt_round_def half_def add_round_key_inverse mix_columns_inverse)

lemma rounds_inverse:
  "length s = 16 \<Longrightarrow>
    fold (decrypt_round rk) (rev rs) (half (fold (encrypt_round rk) rs s)) = half s \<and>
    length (fold (encrypt_round rk) rs s) = 16"
  by (induction rs arbitrary: s) (simp_all add: decrypt_round_inverse)

lemma block_inverse:
  assumes "length b = 16"
  shows "aes256_decrypt_block key (aes256_encrypt_block key b) = b"
proof -
  let ?rk = "key_expansion key"
  let ?s = "add_round_key (round_key ?rk 0) b"
  note r = rounds_inverse [of ?s ?rk "[1 ..< 14]"]
  have "aes256_encrypt_block key b =
      add_round_key (round_key ?rk 14) (half (fold (encrypt_round ?rk) [1 ..< 14] ?s))"
    by (simp add: aes256_encrypt_block_def half_def Let_def)
  moreover have "add_round_key (round_key ?rk 14) (add_round_key (round_key ?rk 14)
      (half (fold (encrypt_round ?rk) [1 ..< 14] ?s))) = half (fold (encrypt_round ?rk) [1 ..< 14] ?s)"
    using r by (intro add_round_key_inverse) simp
  ultimately show ?thesis
    unfolding aes256_decrypt_block_def Let_def
    using r by (simp only: length_add_round_key half_inverse add_round_key_inverse assms)
qed

lemma length_encrypt_block [simp]: "length (aes256_encrypt_block key b) = 16"
  by (simp add: aes256_encrypt_block_def Let_def)

section \<open>Chaining and padding\<close>

lemma xor_blocks_inverse: "length b = length p \<Longrightarrow> map2 (XOR) (map2 (XOR) b p) p = (b :: u8 list)"
  by (rule nth_equalityI) (simp_all add: xor.assoc)

lemma length_padded_block [simp]: "length (padded_block pt n off) = 16"
  by (simp add: padded_block_def)

lemma length_cbc_blocks [simp]:
  "length (cbc_blocks key pt n os prev) = 16 * length os"
  by (induction os arbitrary: prev) (simp_all add: Let_def)

lemma cbc_undo_blocks:
  "length prev = 16 \<Longrightarrow> length pre = j * 16 \<Longrightarrow> ct = pre @ cbc_blocks key pt n os prev \<Longrightarrow>
    cbc_undo key ct (map (\<lambda>k. k * 16) [j ..< j + length os]) prev = concat (map (padded_block pt n) os)"
proof (induction os arbitrary: prev pre j)
  case Nil
  then show ?case by simp
next
  case (Cons off os)
  let ?b = "padded_block pt n off"
  let ?c = "aes256_encrypt_block key (map2 (XOR) ?b prev)"
  have ct: "ct = (pre @ ?c) @ cbc_blocks key pt n os ?c" using Cons.prems(3) by (simp add: Let_def)
  then have c: "take 16 (drop (j * 16) ct) = ?c" using Cons.prems(2) by simp
  have "cbc_undo key ct (map (\<lambda>k. k * 16) [Suc j ..< Suc j + length os]) ?c =
      concat (map (padded_block pt n) os)"
    by (rule Cons.IH [OF _ _ ct]) (simp_all add: Cons.prems(2))
  moreover have "[j ..< j + length (off # os)] = j # [Suc j ..< Suc j + length os]"
    using upt_conv_Cons [of j "j + length (off # os)"] by simp
  ultimately show ?case
    using Cons.prems(1) by (simp add: Let_def c block_inverse xor_blocks_inverse)
qed

lemma concat_blocks:
  "concat (map (\<lambda>k. map (\<lambda>i. f (k * 16 + i)) [0 ..< 16]) [0 ..< n]) = map f [0 ..< n * 16]"
proof (induction n)
  case (Suc n)
  have "[0 ..< Suc n * 16] = [0 ..< n * 16] @ map (\<lambda>i. n * 16 + i) [0 ..< 16]"
    by (rule nth_equalityI) (simp_all add: nth_append)
  then show ?case using Suc by (simp add: comp_def)
qed simp

definition pkcs7 :: "u8 list \<Rightarrow> u8 list" where
  "pkcs7 pt = (let c = 16 - length pt mod 16 in pt @ replicate c (of_nat c))"

lemma pad_count: "(length pt div 16 + 1) * 16 - length pt = 16 - length pt mod 16"
  using div_mult_mod_eq [of "length pt" 16] mod_less_divisor [of 16 "length pt"]
  by (simp add: algebra_simps; linarith)

lemma padded_message:
  assumes "n = (length pt div 16 + 1) * 16"
  shows "concat (map (padded_block pt n) (map (\<lambda>k. k * 16) [0 ..< n div 16])) = pkcs7 pt"
proof -
  let ?f = "\<lambda>i. if i < length pt then pt ! i else (of_nat (n - length pt) :: u8)"
  have n: "n div 16 * 16 = n" "length pt \<le> n" using assms pad_count [of pt] by auto
  have "concat (map (padded_block pt n) (map (\<lambda>k. k * 16) [0 ..< n div 16])) = map ?f [0 ..< n]"
    using concat_blocks [of ?f "n div 16"] n(1) by (simp add: padded_block_def Let_def comp_def)
  also have "\<dots> = pt @ replicate (n - length pt) (of_nat (n - length pt))"
    using n(2) by (intro nth_equalityI) (simp_all add: nth_append)
  finally show ?thesis using pad_count [of pt] by (simp only: pkcs7_def Let_def assms)
qed

lemma unat_of_nat_u64: "n < 2 ^ 64 \<Longrightarrow> unat (of_nat n :: u64) = n"
  by (simp add: unat_of_nat take_bit_eq_mod)

lemma unpad_pkcs7:
  assumes "length pt < 2 ^ 64 - 16"
  shows "unpad (of_nat (length (pkcs7 pt))) (pkcs7 pt) = c_int (of_nat (length pt))"
proof -
  define c where "c = 16 - length pt mod 16"
  let ?len = "of_nat (length (pkcs7 pt)) :: u64"
  have c: "1 \<le> c" "c \<le> 16" unfolding c_def by auto
  have l: "length (pkcs7 pt) = length pt + c" by (simp add: pkcs7_def Let_def flip: c_def)
  have n: "unat ?len = length (pkcs7 pt)" unfolding l by (rule unat_of_nat_u64) (use assms c in simp)
  have u: "unat (of_nat c :: u8) = c" using c by (simp add: unat_of_nat)
  have nz: "of_nat c \<noteq> (0 :: u8)" using u c by auto
  have le: "\<not> of_nat c > (16 :: u8)" using u c by (simp add: word_less_nat_alt)
  have at: "pkcs7 pt ! (length (pkcs7 pt) - 1 - i) = of_nat c" if "i < c" for i
    using that c by (simp add: pkcs7_def Let_def nth_append flip: c_def) linarith
  have last: "pkcs7 pt ! (length (pkcs7 pt) - 1) = of_nat c" using at [of 0] c by simp
  have "(ucast (of_nat c :: u8) :: u64) = of_nat c"
    by (rule word_unat_eq_iff [THEN iffD2]) (use c u in \<open>simp add: unsigned_ucast_eq unat_of_nat_u64\<close>)
  then have "?len - ucast (of_nat c :: u8) = of_nat (length pt)" by (simp add: l)
  then show ?thesis using at nz le u last unfolding unpad_def Let_def n by auto
qed

lemma padded_length:
  assumes "length pt < 2 ^ 64 - 16"
  shows "unat ((of_nat (length pt) div 16 + 1) * 16 :: u64) = (length pt div 16 + 1) * 16"
proof -
  let ?q = "of_nat (length pt) div 16 :: u64"
  have "length pt div 16 + 1 < 2 ^ 60" using assms by simp
  moreover have "unat ?q = length pt div 16" using assms by (simp add: unat_div unat_of_nat_u64)
  ultimately have q: "unat (?q + 1) = length pt div 16 + 1" "unat (?q + 1) < 2 ^ 60"
    by (simp_all add: unat_word_ariths unat_of_nat)
  then have "unat (?q + 1) * unat (16 :: u64) < 2 ^ 64" by simp
  then show ?thesis using q(1) unat_mult_lem [of "?q + 1" 16] by simp
qed

lemma cbc_encrypt_decrypt:
  assumes "length iv = 16" and "length pt < 2 ^ 64 - 16" and "aes256_cbc_encrypt key iv pt out_max = (r, ct)"
  defines "n \<equiv> (length pt div 16 + 1) * 16"
  shows "out_max < n \<Longrightarrow> r = -1 \<and> ct = []"
    and "n \<le> out_max \<Longrightarrow> r = c_int (of_nat n) \<and> length ct = n"
    and "n \<le> out_max \<Longrightarrow> n \<le> m \<Longrightarrow> aes256_cbc_decrypt key iv ct m = (c_int (of_nat (length pt)), pkcs7 pt)"
    and "n \<le> out_max \<Longrightarrow> m < n \<Longrightarrow> aes256_cbc_decrypt key iv ct m = (-1, [])"
proof -
  let ?os = "map (\<lambda>k. k * 16) [0 ..< n div 16]"
  note pl = padded_length [OF assms(2), folded n_def]
  have w: "((of_nat (length pt) div 16 + 1) * 16 :: u64) = of_nat n" unfolding pl [symmetric] by simp
  have run: "(r, ct) = (if n > out_max then (-1, []) else (c_int (of_nat n), cbc_blocks key pt n ?os iv))"
    using assms(3) unfolding aes256_cbc_encrypt_def Let_def pl unfolding w by simp
  then show "out_max < n \<Longrightarrow> r = -1 \<and> ct = []" by simp
  have n: "n mod 16 = 0" "0 < n" "16 * (n div 16) = n" "n < 2 ^ 64" using assms(2) by (simp_all add: n_def)
  have un: "unat (of_nat n :: u64) = n" using n(4) by (simp add: unat_of_nat_u64)
  have nz: "(of_nat n :: u64) \<noteq> 0" "(of_nat n :: u64) mod 16 = 0"
    using un n(1,2) by (auto simp: word_unat_eq_iff unat_mod)
  have ct: "r = c_int (of_nat n)" "ct = cbc_blocks key pt n ?os iv" if "n \<le> out_max" using run that by simp_all
  have l: "length ct = n" if "n \<le> out_max" using n(3) by (simp add: ct(2) [OF that])
  show "n \<le> out_max \<Longrightarrow> r = c_int (of_nat n) \<and> length ct = n" using ct(1) l by blast
  have "cbc_undo key ct ?os iv = pkcs7 pt" if "n \<le> out_max"
    using cbc_undo_blocks [of iv "[]" 0 ct key pt n ?os] assms(1) ct(2) [OF that] padded_message [of n pt]
    by (simp add: n_def)
  moreover have "length (pkcs7 pt) = n"
    using pad_count [of pt] by (simp add: pkcs7_def Let_def n_def)
  moreover note unpad_pkcs7 [OF assms(2)]
  ultimately show "n \<le> out_max \<Longrightarrow> n \<le> m \<Longrightarrow>
      aes256_cbc_decrypt key iv ct m = (c_int (of_nat (length pt)), pkcs7 pt)"
    by (simp add: aes256_cbc_decrypt_def Let_def l nz un)
  show "n \<le> out_max \<Longrightarrow> m < n \<Longrightarrow> aes256_cbc_decrypt key iv ct m = (-1, [])"
    by (simp add: aes256_cbc_decrypt_def Let_def l nz un)
qed

lemma c_int_small:
  assumes "n < 2 ^ 31"
  shows "c_int (of_nat n) = int n"
proof -
  have u: "uint (ucast (of_nat n :: u64) :: u32) = int n"
    using assms by (simp add: unsigned_ucast_eq unsigned_of_nat take_bit_eq_mod)
  have "- (2 ^ 31) \<le> int n" "int n < 2 ^ 31" using assms by simp_all
  then show ?thesis using signed_take_bit_int_eq_self [of 31 "int n"] by (simp add: c_int_def sint_uint u)
qed

section \<open>Properties\<close>

text \<open>
  C23: for every key, every 16-byte initialisation vector and every text that fits the address space,
  encryption fails exactly when the output buffer is smaller than the padded text. Otherwise it writes the
  padded length, and decrypting what it wrote gives back the plaintext and then the padding. Both lengths
  are returned as C's \<^verbatim>\<open>int\<close>, so they are the lengths themselves below 2 GiB.
\<close>

theorem cbc_roundtrip:
  assumes "length iv = 16" and "length pt < 2 ^ 64 - 16"
  defines "n \<equiv> (length pt div 16 + 1) * 16"
  shows "case aes256_cbc_encrypt key iv pt out_max of (r, ct) \<Rightarrow>
    if out_max < n then r = -1 \<and> ct = []
    else length ct = n \<and> r = c_int (of_nat n) \<and>
      (case aes256_cbc_decrypt key iv ct out_max of (r', out) \<Rightarrow>
         length out = n \<and> take (length pt) out = pt \<and> r' = c_int (of_nat (length pt)) \<and>
         (n < 2 ^ 31 \<longrightarrow> r = int n \<and> r' = int (length pt)))"
proof -
  obtain r ct where run: "aes256_cbc_encrypt key iv pt out_max = (r, ct)" by fastforce
  note c = cbc_encrypt_decrypt [OF assms(1,2) run, folded n_def]
  have "length (pkcs7 pt) = n" "take (length pt) (pkcs7 pt) = pt"
    using pad_count [of pt] by (simp_all add: pkcs7_def Let_def n_def)
  moreover have "length pt < n" unfolding n_def using div_mult_mod_eq [of "length pt" 16] mod_less_divisor [of 16 "length pt"] by presburger
  ultimately show ?thesis using c(1) c(2) c(3) [of out_max] c_int_small [of n] c_int_small [of "length pt"]
    by (auto simp: run not_less)
qed

lemma cbc_roundtrip_witness:
  "\<exists>ct out. aes256_cbc_encrypt (replicate 32 7) (replicate 16 0) [1, 2, 3] 16 = (16, ct) \<and> length ct = 16 \<and>
    aes256_cbc_decrypt (replicate 32 7) (replicate 16 0) ct 16 = (3, out) \<and> take (length [1, 2, 3 :: u8]) out = [1, 2, 3]"
  using cbc_roundtrip [of "replicate 16 0" "[1, 2, 3]" 16 "replicate 32 7"] by (auto split: prod.splits)

end
