(* ===== verification/Keystore.thy ===== *)
theory Keystore
  imports Aes Hmac Rng SlotTable
begin

text \<open>
  The encrypted key store, \<^verbatim>\<open>security/keystore.c\<close>: a table of 16 named values, each encrypted with
  AES-256-CBC under a master key and an initialisation vector of its own. A pointer that may be NULL
  is an option; a value of \<open>val_len\<close> bytes is the list of them; a result of \<^const>\<open>None\<close>
  (\<^verbatim>\<open>keystore_get\<close>) or \<^const>\<open>False\<close> stands for -1.
\<close>

section \<open>The code\<close>

record keystore_entry =
  ks_name :: "u8 list"
  encrypted :: "u8 list"
  enc_len :: int
  iv :: "u8 list"
  ks_active :: bool

record keystore_state =
  ks_entries :: "keystore_entry list"
  master_key :: "u8 list"
  initialized :: bool
  ks_rng :: rng_state

abbreviation KEYSTORE_MAX_ENTRIES :: nat where "KEYSTORE_MAX_ENTRIES \<equiv> 16"
abbreviation KEYSTORE_KEY_MAX :: nat where "KEYSTORE_KEY_MAX \<equiv> 32"
abbreviation KEYSTORE_VAL_MAX :: nat where "KEYSTORE_VAL_MAX \<equiv> 256"

definition keystore_init ::
    "(nat \<Rightarrow> nat \<Rightarrow> u8 list) \<Rightarrow> u8 list \<Rightarrow> keystore_state \<Rightarrow> keystore_state" where
  "keystore_init g master_passphrase s =
     s\<lparr>ks_entries := map (\<lambda>e. e\<lparr>ks_active := False\<rparr>) (ks_entries s),
       master_key := pbkdf2_hmac_sha256 g (take (strlen master_passphrase) master_passphrase)
         (bytes_of ''GenOS_Keystore_Salt_v1'') 10 32,
       initialized := True\<rparr>"

definition named_entry :: "u8 list \<Rightarrow> keystore_entry \<Rightarrow> bool" where
  "named_entry name e \<longleftrightarrow> ks_active e \<and> str_eq (ks_name e) name"

definition entry_slot :: "u8 list \<Rightarrow> keystore_entry list \<Rightarrow> nat option" where
  "entry_slot name es =
     (case find_idx (named_entry name) es of
        Some i \<Rightarrow> Some i | None \<Rightarrow> find_idx (\<lambda>e. \<not> ks_active e) es)"

definition keystore_set ::
    "(nat \<Rightarrow> u64 option) \<Rightarrow> u8 list option \<Rightarrow> u8 list option \<Rightarrow> keystore_state \<Rightarrow> keystore_state \<times> bool" where
  "keystore_set hw name value s =
     (case (name, value) of
        (Some name, Some value) \<Rightarrow>
          if \<not> initialized s then (s, False)
          else if length value > KEYSTORE_VAL_MAX - 16 then (s, False)
          else (case entry_slot name (ks_entries s) of
                  None \<Rightarrow> (s, False)
                | Some idx \<Rightarrow>
                    let e = ks_entries s ! idx;
                        e = e\<lparr>ks_name := copy_name (KEYSTORE_KEY_MAX - 1) name (ks_name e)\<rparr>;
                        (bs, r) = random_bytes hw 16 (ks_rng s);
                        e = e\<lparr>iv := bs\<rparr>
                    in (case aes256_cbc_encrypt (master_key s) (iv e) value KEYSTORE_VAL_MAX of
                          (len, ct) \<Rightarrow>
                            let e = e\<lparr>encrypted := overwrite (encrypted e) 0 ct, enc_len := len\<rparr>
                            in if len < 0
                               then (s\<lparr>ks_entries := (ks_entries s)[idx := e], ks_rng := r\<rparr>, False)
                               else (s\<lparr>ks_entries := (ks_entries s)[idx := e\<lparr>ks_active := True\<rparr>],
                                      ks_rng := r\<rparr>, True)))
      | _ \<Rightarrow> (s, False))"

text \<open>
  The decryption reads \<open>enc_len\<close> bytes of the stored ciphertext. A length of -1 would become a
  \<^verbatim>\<open>size_t\<close> that is not a multiple of 16, which decryption refuses, as it does an empty text. The client
  gets the bytes that the returned length covers.
\<close>

definition entry_plain :: "u8 list \<Rightarrow> keystore_entry \<Rightarrow> nat \<Rightarrow> u8 list option" where
  "entry_plain key e out_max =
     (case aes256_cbc_decrypt key (iv e) (take (nat (enc_len e)) (encrypted e)) out_max of
        (len, out) \<Rightarrow> if len < 0 then None else Some (take (nat len) out))"

definition keystore_get :: "u8 list option \<Rightarrow> nat \<Rightarrow> keystore_state \<Rightarrow> u8 list option" where
  "keystore_get name out_max s =
     (case name of
        None \<Rightarrow> None
      | Some name \<Rightarrow>
          if \<not> initialized s then None
          else (case find_idx (named_entry name) (ks_entries s) of
                  None \<Rightarrow> None
                | Some i \<Rightarrow> entry_plain (master_key s) (ks_entries s ! i) out_max))"

definition keystore_delete :: "u8 list \<Rightarrow> keystore_state \<Rightarrow> keystore_state \<times> bool" where
  "keystore_delete name s =
     (if \<not> initialized s then (s, False)
      else (case find_idx (named_entry name) (ks_entries s) of
              None \<Rightarrow> (s, False)
            | Some i \<Rightarrow>
                let e = ks_entries s ! i;
                    e = e\<lparr>encrypted := replicate KEYSTORE_VAL_MAX 0, iv := replicate 16 0, ks_active := False\<rparr>
                in (s\<lparr>ks_entries := (ks_entries s)[i := e]\<rparr>, True)))"

definition keystore_count :: "keystore_state \<Rightarrow> int" where
  "keystore_count s = fold (\<lambda>e n. if ks_active e then n + 1 else n) (ks_entries s) 0"

definition keystore_is_ready :: "keystore_state \<Rightarrow> bool" where
  "keystore_is_ready s = initialized s"

section \<open>The invariant\<close>

definition entry_ok :: "u8 list \<Rightarrow> keystore_entry \<Rightarrow> bool" where
  "entry_ok key e \<longleftrightarrow> length (ks_name e) = KEYSTORE_KEY_MAX \<and> length (encrypted e) = KEYSTORE_VAL_MAX \<and>
     (ks_active e \<longrightarrow> length (cstr (ks_name e)) < KEYSTORE_KEY_MAX \<and> length (iv e) = 16 \<and>
        entry_plain key e KEYSTORE_VAL_MAX \<noteq> None)"

abbreviation entry_key :: "keystore_entry \<Rightarrow> u8 list" where
  "entry_key e \<equiv> cstr (ks_name e)"

definition ks_inv :: "keystore_state \<Rightarrow> bool" where
  "ks_inv s \<longleftrightarrow> length (ks_entries s) = KEYSTORE_MAX_ENTRIES \<and> (\<forall>e \<in> set (ks_entries s). entry_ok (master_key s) e) \<and>
     slots_distinct ks_active entry_key (ks_entries s)"

text \<open>A name that fits the field and is exactly its C value.\<close>

definition key_ok :: "u8 list \<Rightarrow> bool" where
  "key_ok k \<longleftrightarrow> 0 \<notin> set k \<and> length k < KEYSTORE_KEY_MAX"

lemma key_cstr: "key_ok k \<Longrightarrow> cstr k = k"
  using cstr_append_nul [of k "[]"] by (simp add: key_ok_def cstr_def takeWhile_eq_all_conv) metis

lemma named_entry_alt: "named_entry name = (\<lambda>e. ks_active e \<and> entry_key e = cstr name)"
  by (auto simp: named_entry_def str_eq_iff)

text \<open>What the store holds under a name, as a client with a large enough buffer reads it.\<close>

abbreviation reading :: "keystore_state \<Rightarrow> u8 list \<Rightarrow> u8 list option" where
  "reading s k \<equiv> keystore_get (Some k) KEYSTORE_VAL_MAX s"

lemma ks_invD:
  assumes "ks_inv s"
  shows "length (ks_entries s) = KEYSTORE_MAX_ENTRIES" and "\<And>i. i < KEYSTORE_MAX_ENTRIES \<Longrightarrow> entry_ok (master_key s) (ks_entries s ! i)"
    and "slots_distinct ks_active entry_key (ks_entries s)" and "\<forall>e \<in> set (ks_entries s). entry_ok (master_key s) e"
  using assms by (auto simp: ks_inv_def)

lemma get_update:
  assumes inv: "ks_inv s" and i: "i < KEYSTORE_MAX_ENTRIES" and init: "initialized s"
    and free: "ks_active (ks_entries s ! i) \<Longrightarrow> entry_key (ks_entries s ! i) = n"
    and other: "\<And>j. j < KEYSTORE_MAX_ENTRIES \<Longrightarrow> j \<noteq> i \<Longrightarrow> ks_active (ks_entries s ! j) \<Longrightarrow> entry_key (ks_entries s ! j) \<noteq> n"
    and v: "ks_active v \<Longrightarrow> entry_key v = n"
  shows "keystore_get (Some k) m (s\<lparr>ks_entries := (ks_entries s)[i := v], ks_rng := r\<rparr>) =
    (if cstr k = n then (if ks_active v then entry_plain (master_key s) v m else None)
     else keystore_get (Some k) m s)"
proof -
  have l: "length (ks_entries s) = KEYSTORE_MAX_ENTRIES" by (rule ks_invD [OF inv])
  show ?thesis
  proof (cases "cstr k = n")
    case True
    show ?thesis
    proof (cases "ks_active v")
      case act: True
      have "find_idx (named_entry k) ((ks_entries s)[i := v]) = Some i"
        using i l other v act True by (intro find_update_same) (auto simp: named_entry_alt)
      then show ?thesis using True act init i l by (simp add: keystore_get_def)
    next
      case False
      have "find_idx (named_entry k) ((ks_entries s)[i := v]) = None"
        using i l other False True
        by (auto simp: find_idx_None_iff named_entry_alt in_set_conv_nth nth_list_update split: if_splits)
      then show ?thesis using True False init by (simp add: keystore_get_def)
    qed
  next
    case False
    have f: "find_idx (named_entry k) ((ks_entries s)[i := v]) = find_idx (named_entry k) (ks_entries s)"
      using i l free v False by (intro find_update_other) (auto simp: named_entry_alt)
    have "j \<noteq> i" if "find_idx (named_entry k) (ks_entries s) = Some j" for j
      using find_idx_SomeD(2) [OF that] free False by (auto simp: named_entry_alt)
    then show ?thesis using f False
      by (cases "find_idx (named_entry k) (ks_entries s)") (simp_all add: keystore_get_def)
  qed
qed

lemma entry_slot_spec:
  assumes inv: "ks_inv s" and f: "entry_slot k (ks_entries s) = Some i"
  shows "i < KEYSTORE_MAX_ENTRIES" and "ks_active (ks_entries s ! i) \<Longrightarrow> entry_key (ks_entries s ! i) = cstr k"
    and "j < KEYSTORE_MAX_ENTRIES \<Longrightarrow> j \<noteq> i \<Longrightarrow> ks_active (ks_entries s ! j) \<Longrightarrow> entry_key (ks_entries s ! j) \<noteq> cstr k"
proof -
  note d = ks_invD [OF inv]
  show "i < KEYSTORE_MAX_ENTRIES"
    using f d(1) find_idx_SomeD(1) by (fastforce simp: entry_slot_def split: option.splits)
  show "ks_active (ks_entries s ! i) \<Longrightarrow> entry_key (ks_entries s ! i) = cstr k"
    using f find_idx_SomeD(2) by (fastforce simp: entry_slot_def named_entry_alt split: option.splits)
  assume j: "j < KEYSTORE_MAX_ENTRIES" "j \<noteq> i" "ks_active (ks_entries s ! j)"
  show "entry_key (ks_entries s ! j) \<noteq> cstr k"
  proof (cases "find_idx (named_entry k) (ks_entries s)")
    case None
    then show ?thesis using j d(1) by (auto simp: find_idx_None_iff named_entry_alt)
  next
    case (Some i')
    then have "i' = i" using f by (simp add: entry_slot_def)
    then show ?thesis using find_idx_SomeD [OF Some] slots_distinctD [OF d(3), of j i] j d(1)
      by (auto simp: named_entry_alt)
  qed
qed

lemma reading_iff:
  assumes "ks_inv s" and "initialized s"
  shows "reading s k \<noteq> None \<longleftrightarrow> find_idx (named_entry k) (ks_entries s) \<noteq> None"
  using ks_invD(1,2) [OF assms(1)] assms(2)
  by (auto simp: keystore_get_def entry_ok_def named_entry_alt dest!: find_idx_Some_iff [THEN iffD1]
      split: option.splits)

lemma entry_slot_full:
  assumes inv: "ks_inv s" and init: "initialized s"
  shows "entry_slot k (ks_entries s) = None \<longleftrightarrow>
    reading s k = None \<and> count_if ks_active (ks_entries s) = KEYSTORE_MAX_ENTRIES"
  using reading_iff [OF assms, of k] count_if_full [of ks_active "ks_entries s"]
    count_if_room [of ks_active "ks_entries s"] ks_invD(1) [OF inv]
  by (auto simp: entry_slot_def split: option.splits)

lemma encrypt_room:
  assumes "length bs = 16" and "length v \<le> 240" and "aes256_cbc_encrypt key bs v 256 = (len, ct)"
  shows "len = int (length ct)" and "length ct = (length v div 16 + 1) * 16" and "length ct \<le> 256"
proof -
  have n: "(length v div 16 + 1) * 16 \<le> 256" "length v < 2 ^ 64 - 16" using assms(2) by simp_all
  note c = cbc_encrypt_decrypt(2) [OF assms(1) n(2) assms(3) n(1)]
  then show "length ct = (length v div 16 + 1) * 16" by blast
  then show "length ct \<le> 256" using n(1) by simp
  then show "len = int (length ct)" using c c_int_small [of "length ct"] by simp
qed

text \<open>An entry just filled decrypts to the value, for buffers that hold the padded text.\<close>

lemma filled_entry:
  assumes "length bs = 16" and "length v \<le> 240" and "aes256_cbc_encrypt key bs v 256 = (len, ct)"
    and "length (encrypted e) = 256"
  shows "entry_plain key (e\<lparr>ks_name := nm, iv := bs, encrypted := overwrite (encrypted e) 0 ct,
      enc_len := len, ks_active := True\<rparr>) m = (if (length v div 16 + 1) * 16 \<le> m then Some v else None)"
proof -
  note r = encrypt_room [OF assms(1-3)]
  have n: "(length v div 16 + 1) * 16 \<le> 256" "length v < 2 ^ 64 - 16" using assms(2) by simp_all
  note c = cbc_encrypt_decrypt(3,4) [OF assms(1) n(2) assms(3) n(1)]
  have "take (length ct) (overwrite (encrypted e) 0 ct) = ct" by (simp add: overwrite_def)
  then have "entry_plain key (e\<lparr>ks_name := nm, iv := bs, encrypted := overwrite (encrypted e) 0 ct,
      enc_len := len, ks_active := True\<rparr>) m =
    (case aes256_cbc_decrypt key bs ct m of (len, out) \<Rightarrow> if len < 0 then None else Some (take (nat len) out))"
    by (simp add: entry_plain_def r(1))
  moreover have "c_int (of_nat (length v)) = int (length v)" using assms(2) by (simp add: c_int_small)
  moreover have "take (length v) (pkcs7 v) = v" by (simp add: pkcs7_def Let_def)
  ultimately show ?thesis using c(1) [of m] c(2) [of m] by (cases "(length v div 16 + 1) * 16 \<le> m") (simp_all add: not_le)
qed

lemma set_spec:
  assumes inv: "ks_inv s" and init: "initialized s" and short: "length (cstr k) < KEYSTORE_KEY_MAX"
    and run: "keystore_set hw (Some k) (Some v) s = (s', ok)"
  shows "ok \<longleftrightarrow> length v \<le> 240 \<and> (reading s k \<noteq> None \<or> count_if ks_active (ks_entries s) < KEYSTORE_MAX_ENTRIES)"
    and "\<not> ok \<Longrightarrow> s' = s"
    and "ok \<Longrightarrow> ks_inv s' \<and> initialized s' \<and> (\<forall>k' m. keystore_get (Some k') m s' =
      (if cstr k' = cstr k then (if (length v div 16 + 1) * 16 \<le> m then Some v else None)
       else keystore_get (Some k') m s))"
proof -
  note d = ks_invD [OF inv]
  have cnt: "count_if ks_active (ks_entries s) \<le> KEYSTORE_MAX_ENTRIES" using count_if_le d(1) by metis
  have "(ok \<longleftrightarrow> length v \<le> 240 \<and> (reading s k \<noteq> None \<or> count_if ks_active (ks_entries s) < KEYSTORE_MAX_ENTRIES)) \<and>
    (\<not> ok \<longrightarrow> s' = s) \<and> (ok \<longrightarrow> ks_inv s' \<and> initialized s' \<and> (\<forall>k' m. keystore_get (Some k') m s' =
      (if cstr k' = cstr k then (if (length v div 16 + 1) * 16 \<le> m then Some v else None)
       else keystore_get (Some k') m s)))"
  proof (cases "length v \<le> 240 \<and> entry_slot k (ks_entries s) \<noteq> None")
    case False
    then have "s' = s \<and> \<not> ok" using run init by (auto simp: keystore_set_def split: if_splits)
    then show ?thesis using False entry_slot_full [OF inv init, of k] by auto
  next
    case True
    then obtain i where v: "length v \<le> 240" and i: "entry_slot k (ks_entries s) = Some i" by blast
    obtain bs r where bs: "random_bytes hw 16 (ks_rng s) = (bs, r)" by fastforce
    have lb: "length bs = 16" using length_random_bytes [of hw 16 "ks_rng s"] bs by simp
    obtain len ct where ct: "aes256_cbc_encrypt (master_key s) bs v 256 = (len, ct)" by fastforce
    note room = encrypt_room [OF lb v ct]
    note sl = entry_slot_spec [OF inv i]
    let ?e = "ks_entries s ! i"
    define w where "w = ?e\<lparr>ks_name := copy_name 31 k (ks_name ?e), iv := bs,
      encrypted := overwrite (encrypted ?e) 0 ct, enc_len := len, ks_active := True\<rparr>"
    have le: "length ct \<le> 256" "length (encrypted ?e) = 256" "length (ks_name ?e) = 32"
      using room(3) d(2) [OF sl(1)] by (auto simp: entry_ok_def)
    have plain: "entry_plain (master_key s) w m = (if (length v div 16 + 1) * 16 \<le> m then Some v else None)" for m
      unfolding w_def by (rule filled_entry [OF lb v ct le(2)])
    have w: "ks_active w" "entry_key w = cstr k" "entry_ok (master_key s) w"
      using le short lb v plain [of 256] by (auto simp: w_def entry_ok_def cstr_copy_name overwrite_def)
    have e: "s' = s\<lparr>ks_entries := (ks_entries s)[i := w], ks_rng := r\<rparr>" "ok"
      using run init v i bs ct room(1) by (auto simp: keystore_set_def w_def Let_def)
    have "ks_inv s'"
      using d(1) all_update [OF d(4) w(3)] slots_distinct_update [OF d(3), of i w] sl(3) w(2)
      by (simp add: ks_inv_def e(1))
    moreover have "keystore_get (Some k') m s' =
        (if cstr k' = cstr k then (if (length v div 16 + 1) * 16 \<le> m then Some v else None)
         else keystore_get (Some k') m s)" for k' m
      using get_update [OF inv sl(1) init sl(2,3) w(2), of k' m r] w(1) plain [of m] by (simp add: e(1))
    ultimately show ?thesis using e init v True entry_slot_full [OF inv init, of k] cnt by auto
  qed
  then show "ok \<longleftrightarrow> length v \<le> 240 \<and> (reading s k \<noteq> None \<or> count_if ks_active (ks_entries s) < KEYSTORE_MAX_ENTRIES)"
    and "\<not> ok \<Longrightarrow> s' = s"
    and "ok \<Longrightarrow> ks_inv s' \<and> initialized s' \<and> (\<forall>k' m. keystore_get (Some k') m s' =
      (if cstr k' = cstr k then (if (length v div 16 + 1) * 16 \<le> m then Some v else None)
       else keystore_get (Some k') m s))" by blast+
qed

lemma delete_spec:
  assumes inv: "ks_inv s" and init: "initialized s" and run: "keystore_delete k s = (s', ok)"
  shows "ok \<longleftrightarrow> reading s k \<noteq> None"
    and "ks_inv s' \<and> initialized s' \<and>
      (\<forall>k' m. keystore_get (Some k') m s' = (if cstr k' = cstr k then None else keystore_get (Some k') m s))"
proof -
  note d = ks_invD [OF inv]
  have "(ok \<longleftrightarrow> reading s k \<noteq> None) \<and> ks_inv s' \<and> initialized s' \<and>
    (\<forall>k' m. keystore_get (Some k') m s' = (if cstr k' = cstr k then None else keystore_get (Some k') m s))"
  proof (cases "find_idx (named_entry k) (ks_entries s)")
    case None
    then have "s' = s" "\<not> ok" using run init by (simp_all add: keystore_delete_def)
    moreover have "keystore_get (Some k') m s = None" if "cstr k' = cstr k" for k' m
      using None that init by (simp add: keystore_get_def named_entry_alt)
    ultimately show ?thesis using inv init by auto
  next
    case (Some i)
    let ?e = "ks_entries s ! i"
    have i: "i < KEYSTORE_MAX_ENTRIES" "ks_active ?e" "entry_key ?e = cstr k"
      using find_idx_SomeD [OF Some] d(1) by (auto simp: named_entry_alt)
    have other: "entry_key (ks_entries s ! j) \<noteq> cstr k"
      if "j < KEYSTORE_MAX_ENTRIES" "j \<noteq> i" "ks_active (ks_entries s ! j)" for j
      using slots_distinctD [OF d(3), of j i] that i d(1) by auto
    define w where "w = ?e\<lparr>encrypted := replicate KEYSTORE_VAL_MAX 0, iv := replicate 16 0, ks_active := False\<rparr>"
    have w: "\<not> ks_active w" "entry_ok (master_key s) w"
      using d(2) [OF i(1)] by (auto simp: w_def entry_ok_def)
    have e: "s' = s\<lparr>ks_entries := (ks_entries s)[i := w], ks_rng := ks_rng s\<rparr>" "ok"
      using run init Some by (auto simp: keystore_delete_def w_def Let_def)
    have "ks_inv s'"
      using d(1) all_update [OF d(4) w(2)] slots_distinct_update [OF d(3), of i w] w(1)
      by (simp add: ks_inv_def e(1))
    then show ?thesis
      using get_update [OF inv i(1) init, of "cstr k" w _ _ "ks_rng s"] i(3) other w(1) e init
        reading_iff [OF inv init, of k] Some
      by simp
  qed
  then show "ok \<longleftrightarrow> reading s k \<noteq> None" and "ks_inv s' \<and> initialized s' \<and>
      (\<forall>k' m. keystore_get (Some k') m s' = (if cstr k' = cstr k then None else keystore_get (Some k') m s))"
    by blast+
qed

text \<open>The store keeps the contract of a keyed store for names that fit.\<close>

interpretation ks: keyed_store "\<lambda>s. ks_inv s \<and> initialized s" key_ok reading
    "\<lambda>k v. keystore_set hw (Some k) (Some v)" keystore_delete for hw
proof
  fix s k v k' assume s: "ks_inv s \<and> initialized s" and k: "key_ok k"
  obtain s1 ok1 where put: "keystore_set hw (Some k) (Some v) s = (s1, ok1)" by fastforce
  obtain s2 ok2 where del: "keystore_delete k s = (s2, ok2)" by fastforce
  have short: "length (cstr k) < KEYSTORE_KEY_MAX" using k key_cstr [OF k] by (simp add: key_ok_def)
  note p = set_spec [OF _ _ short put] and q = delete_spec [OF _ _ del]
  show "ks_inv (fst (keystore_set hw (Some k) (Some v) s)) \<and> initialized (fst (keystore_set hw (Some k) (Some v) s))"
    using p(2,3) s put by (cases ok1) auto
  show "ks_inv (fst (keystore_delete k s)) \<and> initialized (fst (keystore_delete k s))"
    using q(2) s del by auto
  show "snd (keystore_delete k s) \<longleftrightarrow> reading s k \<noteq> None"
    using q(1) s del by auto
  assume k': "key_ok k'"
  show "reading (fst (keystore_delete k s)) k' = (if k' = k then None else reading s k')"
    using q(2) s del key_cstr [OF k] key_cstr [OF k'] by simp
  show "reading (fst (keystore_set hw (Some k) (Some v) s)) k' =
      (if snd (keystore_set hw (Some k) (Some v) s) \<and> k' = k then Some v else reading s k')"
  proof (cases ok1)
    case True
    then have "(length v div 16 + 1) * 16 \<le> 256" using p(1) s by auto
    then show ?thesis using p(3) s put True key_cstr [OF k] key_cstr [OF k'] by simp
  next
    case False
    then show ?thesis using p(2) s put by simp
  qed
qed

section \<open>Sequences of operations\<close>

primrec ks_exec :: "(nat \<Rightarrow> u64 option) \<Rightarrow> (u8 list, u8 list) store_op \<Rightarrow> keystore_state \<Rightarrow> keystore_state \<times> bool" where
  "ks_exec hw (Put k v) s = keystore_set hw (Some k) (Some v) s"
| "ks_exec hw (Del k) s = keystore_delete k s"

primrec ks_run ::
    "(nat \<Rightarrow> u64 option) \<Rightarrow> (u8 list, u8 list) store_op list \<Rightarrow> keystore_state \<Rightarrow> keystore_state \<times> bool list" where
  "ks_run hw [] s = (s, [])"
| "ks_run hw (q # qs) s =
     (case ks_exec hw q s of (s, ok) \<Rightarrow> case ks_run hw qs s of (s, oks) \<Rightarrow> (s, ok # oks))"

primrec ks_op_ok :: "(u8 list, u8 list) store_op \<Rightarrow> bool" where
  "ks_op_ok (Put k v) = key_ok k"
| "ks_op_ok (Del k) = key_ok k"

lemma ks_run_eq: "ks_run hw qs s = ks.run hw qs s"
proof -
  have "ks_exec hw q s = ks.step hw q s" for q s by (cases q) simp_all
  then show ?thesis by (induction qs arbitrary: s) (simp_all split: prod.splits)
qed

lemma ks_op_ok_eq: "ks_op_ok q = ks.op_valid q"
  by (cases q) simp_all

definition ks_table :: "keystore_state \<Rightarrow> bool" where
  "ks_table s \<longleftrightarrow> length (ks_entries s) = KEYSTORE_MAX_ENTRIES \<and>
     (\<forall>e \<in> set (ks_entries s). length (ks_name e) = KEYSTORE_KEY_MAX \<and> length (encrypted e) = KEYSTORE_VAL_MAX)"

lemma keystore_init_spec:
  assumes "ks_table s"
  shows "ks_inv (keystore_init g p s)" and "initialized (keystore_init g p s)"
    and "keystore_get (Some k) m (keystore_init g p s) = None"
proof -
  show "ks_inv (keystore_init g p s)"
    using assms by (auto simp: ks_inv_def ks_table_def keystore_init_def entry_ok_def slots_distinct_dead)
  have "find_idx (named_entry k) (ks_entries (keystore_init g p s)) = None"
    by (auto simp: find_idx_None_iff named_entry_def keystore_init_def)
  then show "keystore_get (Some k) m (keystore_init g p s) = None" by (simp add: keystore_get_def)
  show "initialized (keystore_init g p s)" by (simp add: keystore_init_def)
qed

lemma keystore_count_eq: "keystore_count s = int (count_if ks_active (ks_entries s))"
proof -
  have "fold (\<lambda>e n. if ks_active e then n + 1 else n) es k = k + int (count_if ks_active es)"
    for es :: "keystore_entry list" and k :: int
    by (induction es arbitrary: k) simp_all
  then show ?thesis by (simp add: keystore_count_def)
qed

section \<open>Properties\<close>

text \<open>
  C36: after initialisation the store is a map: whatever sequence of stores and removals follows, a
  name reads as the last value accepted for it, and as nothing if there is none or it was removed.
\<close>

theorem keystore_refines:
  assumes "ks_table s" and "\<forall>q \<in> set qs. ks_op_ok q" and "ks_run hw qs (keystore_init g p s) = (s', oks)"
    and "key_ok k"
  shows "keystore_get (Some k) KEYSTORE_VAL_MAX s' = fold map_step (zip qs oks) Map.empty k"
proof -
  have "ks_inv (keystore_init g p s) \<and> initialized (keystore_init g p s)"
    using keystore_init_spec(1,2) [OF assms(1)] by blast
  then show ?thesis
    using ks.run_refines [of "keystore_init g p s" qs Map.empty hw s' oks] keystore_init_spec(3) [OF assms(1)]
      assms(2-4) by (simp add: ks_run_eq ks_op_ok_eq)
qed

definition blank_keystore :: keystore_state where
  "blank_keystore = \<lparr>ks_entries = replicate 16 \<lparr>ks_name = replicate 32 0, encrypted = replicate 256 0, enc_len = 0,
       iv = replicate 16 0, ks_active = False\<rparr>,
     master_key = replicate 32 0, initialized = False,
     ks_rng = \<lparr>has_rdrand = False, prng_s = (1, 2, 3, 4), rd_count = 0\<rparr>\<rparr>"

lemma blank_keystore_table: "ks_table blank_keystore"
  by (simp add: ks_table_def blank_keystore_def)

definition three_ops :: "(u8 list, u8 list) store_op list" where
  "three_ops = [Put [97] [1, 2], Put [98] [3], Del [97]]"

lemma keystore_refines_witness:
  "\<exists>s' oks. ks_run (\<lambda>i. None) three_ops (keystore_init (\<lambda>i j. replicate 64 0) [112] blank_keystore) = (s', oks) \<and>
    keystore_get (Some [98]) 256 s' = fold map_step (zip three_ops oks) Map.empty [98]"
proof -
  obtain s' oks where r: "ks_run (\<lambda>i. None) three_ops
      (keystore_init (\<lambda>i j. replicate 64 0) [112] blank_keystore) = (s', oks)"
    by fastforce
  have "\<forall>q \<in> set three_ops. ks_op_ok q" "key_ok [98]" by (simp_all add: key_ok_def three_ops_def)
  then show ?thesis using keystore_refines [OF blank_keystore_table _ r] r by blast
qed

end
