(* ===== verification/SchedProps.thy ===== *)
theory SchedProps
  imports SchedInv
begin

text \<open>
  What the scheduler promises: a task is on at most one CPU, no wake-up is lost, the selection is by
  priority and age in circular order, a task that has waited long enough is passed over fewer times
  than there are tasks, and the scheduling fields stay in their ranges.
\<close>

section \<open>A small machine\<close>

definition blank_regs :: registers where
  "blank_regs = \<lparr>r15 = 0, r14 = 0, r13 = 0, r12 = 0, r11 = 0, r10 = 0, r9 = 0, r8 = 0, rdi = 0, rsi = 0,
     rbp = 0, rbx = 0, rdx = 0, rcx = 0, rax = 0, vector = 0, err_code = 0, rip = 0, cs = 8, rflags = 0x202,
     rsp = 0, ss = 16\<rparr>"

definition blank_task :: "u32 \<Rightarrow> u32 \<Rightarrow> task_run_state \<Rightarrow> int \<Rightarrow> task" where
  "blank_task p c st prio = task_init_priority prio
     \<lparr>pid = p, cpu_id = c, ready_since = 0, tgid = p, tstate = st, regs = blank_regs, fpu = replicate 512 0,
      stack_base = 0, sleep_until = 0, wait_target_pid = 0, t_pml4 = 0, kernel_stack = 0, kernel_stack_phys = 0,
      kernel_stack_pages = 0, entry_point = 0, allocations = [], is_thread = False, thread_count = 1,
      priority = 0, base_priority = 0, nice = 0, quantum = 0, quantum_max = 0, cpu_ticks = 0, sleep_count = 0,
      user_pages = [], user_vaddrs = [], page_array = 0, user_page_capacity = 32, task_fds = [],
      shm_attached = [], t_uid = 0, t_gid = 0\<rparr>"

definition blank_cpu :: "nat \<Rightarrow> u64 \<Rightarrow> u64 \<Rightarrow> percpu_data" where
  "blank_cpu i cur idle = \<lparr>pc_cpu_id = of_nat i, lapic_id = of_nat i, kernel_stack_top = 0, tss_rsp0 = 0,
     current = cur, retiring = 0, idle_task = idle, scheduler_online = True, switches = 0,
     live_fpu = replicate 512 0\<rparr>"

text \<open>
  Two CPUs; task 1 is the boot task, idle on CPU 0, task 2 the reaper, task 3 the idle task of CPU 1,
  tasks 4 and 5 have the process ids 2 and 3 and belong to CPU 1.
\<close>

definition tiny_sched :: sched_state where
  "tiny_sched = heap_state.extend tiny_heap (sched_state.fields
     (\<lambda>a. if a = 1 then blank_task 0 0 TASK_RUNNING 0 else if a = 2 then blank_task 1 0 TASK_WAITING 3
          else if a = 3 then blank_task 0 1 TASK_RUNNING 0 else blank_task (ucast a - 2) 1 TASK_READY 2)
     [1, 2, 4, 5] 4 0 2 \<lparr>kernel_stack_pages_used = 4, stack_alloc_failures = 0, tasks_reaped = 0\<rparr>
     (blank_cpu 0 1 1 # blank_cpu 1 3 3 # map (\<lambda>i. blank_cpu i 0 0) [2 ..< 16]) 2 0)"

lemma tiny_sched_simps [simp]:
  "tasks tiny_sched = (\<lambda>a. if a = 1 then blank_task 0 0 TASK_RUNNING 0 else if a = 2 then blank_task 1 0 TASK_WAITING 3
          else if a = 3 then blank_task 0 1 TASK_RUNNING 0 else blank_task (ucast a - 2) 1 TASK_READY 2)"
  "task_list tiny_sched = [1, 2, 4, 5]" "next_pid tiny_sched = 4" "reaper_task tiny_sched = 2"
  "cpus tiny_sched = blank_cpu 0 1 1 # blank_cpu 1 3 3 # map (\<lambda>i. blank_cpu i 0 0) [2 ..< 16]"
  "cpu_count tiny_sched = 2"
  by (simp_all add: tiny_sched_def heap_state.defs sched_state.defs)

lemma blank_task_simps [simp]:
  "pid (blank_task p c st prio) = p" "cpu_id (blank_task p c st prio) = c" "tstate (blank_task p c st prio) = st"
  "wait_target_pid (blank_task p c st prio) = 0" "ready_since (blank_task p c st prio) = 0"
  "priority (blank_task p c st prio) = prio" "base_priority (blank_task p c st prio) = prio"
  "nice (blank_task p c st prio) = 0"
  "quantum (blank_task p c st prio) = quantum_table ! nat prio"
  "quantum_max (blank_task p c st prio) = quantum_table ! nat prio"
  by (simp_all add: blank_task_def task_init_priority_def)

lemma blank_cpu_simps [simp]:
  "pc_cpu_id (blank_cpu i cur idle) = of_nat i" "current (blank_cpu i cur idle) = cur"
  "retiring (blank_cpu i cur idle) = 0" "idle_task (blank_cpu i cur idle) = idle"
  by (simp_all add: blank_cpu_def)

lemma cpu_cases: "c < (2 :: u32) \<Longrightarrow> c = 0 \<or> c = 1"
  by (auto simp: word_less_nat_alt word_unat_eq_iff)

lemma tiny_percpu [simp]:
  "percpu_get 0 tiny_sched = blank_cpu 0 1 1" "percpu_get 1 tiny_sched = blank_cpu 1 3 3"
  by (simp_all add: percpu_get_def cpu_slot_def)

lemma tiny_sched_inv: "sched_inv tiny_sched"
proof -
  have "cpu_ok 0 tiny_sched" "cpu_ok 1 tiny_sched" by (simp_all add: cpu_ok_def Let_def)
  then have "cpus_ok tiny_sched" by (auto simp: cpus_ok_def dest!: cpu_cases)
  then show ?thesis by (simp add: sched_inv_def list_ok_def waits_ok_def pids_def)
qed

lemma percpu_tasks [simp]: "percpu_get c (s\<lparr>tasks := m\<rparr>) = percpu_get c s"
  by (simp add: percpu_get_def)

lemma tiny_pick: "next_task 1 now 3 (upd_task 3 (save_context now blank_regs) tiny_sched) = 4"
  by (simp add: next_task_def pick_def scan_order_def pick_step_def eligible_def boosted_def save_context_def upd_task_def Let_def)

lemma tiny_switch: "current_task 1 (fst (switch_task 1 now blank_regs tiny_sched)) = 4"
proof -
  define u where "u = upd_task 3 (save_context now blank_regs) tiny_sched"
  have u: "length (cpus u) = 16" "pc_cpu_id (percpu_get 1 u) = 1" by (simp_all add: u_def)
  have "switch_task 1 now blank_regs tiny_sched = switch_to 1 now 3 4 u"
    by (simp add: switch_task_def Let_def current_task_def tiny_pick u_def)
  moreover obtain v r where "switch_to 1 now 3 4 u = (v, r)" by fastforce
  moreover from switch_shape(2) [OF u _ this] obtain p where "cpus v = (cpus u)[cpu_slot 1 := p]" "current p = 4" by auto
  ultimately show ?thesis using u by (simp add: current_task_def percpu_get_def cpu_slot_def)
qed

section \<open>Ownership\<close>

lemma on_one_cpu:
  assumes "cpus_ok s" and "c < cpu_count s" and "c' < cpu_count s" and "c \<noteq> c'" and "t \<noteq> 0"
    and "t = current (percpu_get c s) \<or> t = retiring (percpu_get c s)"
  shows "t \<noteq> current (percpu_get c' s) \<and> t \<noteq> retiring (percpu_get c' s)"
proof -
  have ok: "cpu_ok c s" "cpu_ok c' s" using assms(1-3) by (auto simp: cpus_ok_def)
  have idle: "idle_task (percpu_get c s) = idle_task (percpu_get c' s) \<Longrightarrow> idle_task (percpu_get c s) = 0"
    using assms(1-4) unfolding cpus_ok_def by blast
  show ?thesis using ok idle assms(4-6) by (auto simp: cpu_ok_def Let_def owns_def)
qed

text \<open>
  C4: from every consistent state, whatever the CPUs do, no task is on two CPUs: a task that runs on
  one, or whose kernel stack one has just left, is neither running nor retiring on another.
\<close>

theorem sched_exclusive:
  assumes "sched_inv s0" and "sched_step\<^sup>*\<^sup>* s0 s" and "c < cpu_count s" and "c' < cpu_count s" and "c \<noteq> c'"
    and "t \<noteq> 0" and "t = current (percpu_get c s) \<or> t = retiring (percpu_get c s)"
  shows "t \<noteq> current (percpu_get c' s) \<and> t \<noteq> retiring (percpu_get c' s)"
proof -
  have "cpus_ok s" using sched_steps_inv [OF assms(2,1)] by (simp add: sched_inv_def)
  then show ?thesis using assms(3-) by (rule on_one_cpu)
qed

lemma sched_exclusive_witness:
  "current (percpu_get 1 tiny_sched) = 3 \<and> 3 \<noteq> current (percpu_get 0 tiny_sched) \<and> 3 \<noteq> retiring (percpu_get 0 tiny_sched)"
  using sched_exclusive [OF tiny_sched_inv rtranclp.rtrancl_refl, of 1 0 3] by simp

section \<open>Waiting\<close>

lemma exit_wakes:
  assumes "list_ok s" and "current_task c s \<noteq> 0" and "a \<in> set (task_list s)" and "a \<noteq> current_task c s"
    and "tstate (tasks s a) = TASK_WAITING" and "wait_target_pid (tasks s a) = pid (tasks s (current_task c s))"
  shows "tstate (tasks (exit_current_task c s) a) = TASK_READY"
  using assms by (simp add: exit_current_task_def Let_def each_task_apply list_ok_def wake_def)

lemma unlink_wakes:
  assumes "list_ok s" and "a \<in> set (task_list s)" and "a \<noteq> t"
    and "tstate (tasks s a) = TASK_WAITING" and "wait_target_pid (tasks s a) = pid (tasks s t)"
  shows "tstate (tasks (unlink_task t s) a) = TASK_READY"
proof -
  define v where "v = each_task (wake (\<lambda>p. p = pid (tasks s t))) (s\<lparr>task_list := remove1 t (task_list s)\<rparr>)"
  have "tstate (tasks v a) = TASK_READY"
    using assms by (simp add: v_def each_task_apply list_ok_def wake_def)
  then show ?thesis by (auto simp: unlink_task_def Let_def v_def [symmetric])
qed

text \<open>
  C14: no wake-up is lost. In every state that can be reached a waiting task waits for a process that is
  still in the task list; when that process exits, and when the reaper removes it, the waiter becomes
  ready.
\<close>

theorem sched_no_lost_wakeup:
  assumes "sched_inv s0" and "sched_step\<^sup>*\<^sup>* s0 s" and "a \<in> set (task_list s)" and "tstate (tasks s a) = TASK_WAITING"
  shows "(\<exists>b \<in> set (task_list s). pid (tasks s b) = wait_target_pid (tasks s a)) \<and>
    (\<forall>c. current_task c s \<noteq> 0 \<and> current_task c s \<noteq> a \<and>
        pid (tasks s (current_task c s)) = wait_target_pid (tasks s a) \<longrightarrow>
      tstate (tasks (exit_current_task c s) a) = TASK_READY) \<and>
    (\<forall>t. t \<noteq> a \<and> pid (tasks s t) = wait_target_pid (tasks s a) \<longrightarrow>
      tstate (tasks (unlink_task t s) a) = TASK_READY)"
proof -
  have i: "list_ok s" "waits_ok s" using sched_steps_inv [OF assms(2,1)] by (auto simp: sched_inv_def)
  have "wait_target_pid (tasks s a) \<in> pids s" using i(2) assms(3,4) by (simp add: waits_ok_def)
  then show ?thesis
    using exit_wakes [OF i(1) _ assms(3) _ assms(4)] unlink_wakes [OF i(1) assms(3) _ assms(4)]
    by (auto simp: pids_def)
qed

lemma sched_no_lost_wakeup_witness:
  "\<exists>b \<in> set (task_list tiny_sched). pid (tasks tiny_sched b) = wait_target_pid (tasks tiny_sched 2)"
  using sched_no_lost_wakeup [OF tiny_sched_inv rtranclp.rtrancl_refl, of 2] by simp

section \<open>Ranges of the scheduling fields\<close>

definition prios_ok :: "'a sched_state_scheme \<Rightarrow> bool" where
  "prios_ok s \<longleftrightarrow> (\<forall>a \<in> set (task_list s). prio_ok (tasks s a))"

lemma prio_ok_priority: "prio_ok t \<Longrightarrow> priority t \<in> {PRIO_IDLE .. PRIO_HIGH}"
  by (auto simp: prio_ok_def clamp_priority_def)

lemma quantum_table_range: "k \<in> {PRIO_IDLE .. PRIO_HIGH} \<Longrightarrow> 1 \<le> quantum_table ! nat k \<and> quantum_table ! nat k \<le> 4"
proof -
  assume "k \<in> {PRIO_IDLE .. PRIO_HIGH}"
  then have "k = 0 \<or> k = 1 \<or> k = 2 \<or> k = 3" by auto
  then show ?thesis by (auto simp: quantum_table_def)
qed

lemma upd_task_prios: "(\<And>t. prio_ok t \<Longrightarrow> prio_ok (f t)) \<Longrightarrow> prios_ok s \<Longrightarrow> prios_ok (upd_task a f s)"
  by (simp add: prios_ok_def)

lemma each_task_prios: "(\<And>t. prio_ok t \<Longrightarrow> prio_ok (f t)) \<Longrightarrow> prios_ok s \<Longrightarrow> prios_ok (each_task f s)"
proof -
  assume f: "\<And>t. prio_ok t \<Longrightarrow> prio_ok (f t)"
  have "prios_ok s \<Longrightarrow> prios_ok (fold (\<lambda>a. upd_task a f) l s)" for l
    by (induction l arbitrary: s) (simp_all add: upd_task_prios f)
  then show "prios_ok s \<Longrightarrow> ?thesis" by (simp add: each_task_def)
qed

lemma prio_ok_cong:
  "base_priority t' = base_priority t \<Longrightarrow> nice t' = nice t \<Longrightarrow> priority t' = priority t \<Longrightarrow>
    quantum_max t' = quantum_max t \<Longrightarrow> quantum t' \<le> 4 \<Longrightarrow> prio_ok t \<Longrightarrow> prio_ok t'"
  by (simp add: prio_ok_def)

lemma prio_ok_steps:
  assumes "prio_ok t"
  shows "prio_ok (wake P t)" "prio_ok (save_context now rs t)" "prio_ok (resume now t)"
    "prio_ok (t\<lparr>tstate := st\<rparr>)" "prio_ok (t\<lparr>tstate := st, ready_since := now\<rparr>)"
    "prio_ok (t\<lparr>sleep_until := now, tstate := st, sleep_count := k\<rparr>)"
    "prio_ok (t\<lparr>tstate := st, wait_target_pid := p\<rparr>)" "prio_ok (t\<lparr>cpu_id := p\<rparr>)" "prio_ok (t\<lparr>pid := p\<rparr>)"
    "prio_ok (t\<lparr>pid := p, tgid := p\<rparr>)" "prio_ok (t\<lparr>t_uid := p, t_gid := p'\<rparr>)" "prio_ok (t\<lparr>thread_count := p\<rparr>)"
    "prio_ok (t\<lparr>fpu := x\<rparr>)" "prio_ok (t\<lparr>cpu_ticks := p\<rparr>)" "quantum t \<noteq> 0 \<Longrightarrow> prio_ok (t\<lparr>quantum := quantum t - 1\<rparr>)"
proof -
  have q: "quantum t \<le> 4" using assms by (simp add: prio_ok_def)
  have m: "quantum_max t \<le> 4"
    using assms quantum_table_range [OF prio_ok_priority [OF assms]] by (simp add: prio_ok_def)
  show "prio_ok (wake P t)" using assms q by (simp add: wake_def prio_ok_cong [OF _ _ _ _ _ assms])
  show "prio_ok (save_context now rs t)"
    using assms q by (simp add: save_context_def Let_def prio_ok_cong [OF _ _ _ _ _ assms])
  show "prio_ok (resume now t)" using m by (simp add: resume_def prio_ok_cong [OF _ _ _ _ _ assms])
  show "quantum t \<noteq> 0 \<Longrightarrow> prio_ok (t\<lparr>quantum := quantum t - 1\<rparr>)"
  proof -
    assume "quantum t \<noteq> 0"
    then have "quantum t - 1 \<le> quantum t" by (simp add: word_le_nat_alt unat_minus_one)
    then show ?thesis using q by (simp add: prio_ok_cong [OF _ _ _ _ _ assms])
  qed
qed (use assms in \<open>simp_all add: prio_ok_def\<close>)

lemma nice_prio: "prio_ok t \<Longrightarrow> k \<in> {-2 .. 2} \<Longrightarrow>
    prio_ok (t\<lparr>nice := k, priority := clamp_priority (base_priority t - k),
      quantum_max := quantum_table ! nat (clamp_priority (base_priority t - k))\<rparr>)"
  by (simp add: prio_ok_def)

lemma exit_prios: "prios_ok s \<Longrightarrow> prios_ok (exit_current_task c s)"
  by (simp add: exit_current_task_def Let_def each_task_prios upd_task_prios prio_ok_steps)

lemma enter_prios: "prios_ok s \<Longrightarrow> prios_ok (fst (syscall_enter c s))"
  by (simp add: syscall_enter_def exit_prios task_mark_running_def Let_def upd_task_prios prio_ok_steps)

lemma tick_prios: "prios_ok s \<Longrightarrow> prios_ok (fold (tick_task now) l s)"
  by (induction l arbitrary: s) (simp_all add: tick_task_def Let_def upd_task_prios prio_ok_steps)

lemma switch_prios:
  assumes "prios_ok s"
  shows "prios_ok (fst (switch_task c now rs s))"
proof -
  define t where "t = upd_task (current_task c s) (save_context now rs) s"
  have t: "prios_ok t" using assms by (simp add: t_def upd_task_prios prio_ok_steps)
  have "prios_ok (fst (switch_to c now prev to t))" for prev to
    using t by (auto simp: switch_to_def Let_def prios_ok_def prio_ok_steps)
  then show ?thesis by (simp add: switch_task_def Let_def t_def)
qed

lemma schedule_prios:
  assumes "prios_ok s"
  shows "prios_ok (fst (schedule got c now rs s))"
proof -
  define u where "u = upd_task (current_task c s) (\<lambda>t. t\<lparr>cpu_ticks := cpu_ticks t + 1\<rparr>) (fold (tick_task now) (task_list s) s)"
  have c: "current_task c (fold (tick_task now) (task_list s) s) = current_task c s"
    by (rule current_cong) (rule ticks_fields)
  have u: "prios_ok u" using assms by (simp add: u_def upd_task_prios prio_ok_steps tick_prios)
  have q: "prios_ok (upd_task a (\<lambda>t. t\<lparr>quantum := quantum t - 1\<rparr>) u)" if "quantum (tasks u a) \<noteq> 0" for a
    using u that by (simp add: prios_ok_def prio_ok_steps)
  note sw = switch_prios [OF u] switch_prios [OF q]
  show ?thesis using assms u q by (auto simp: schedule_def Let_def c sw simp flip: u_def)
qed

lemma sched_step_prios: "sched_step s s' \<Longrightarrow> prios_ok s \<Longrightarrow> prios_ok s'"
proof (induction rule: sched_step.induct)
  case (sleep c s t w)
  then show ?case using enter_prios [of s c]
    by (simp add: sleep_current_task_def Let_def upd_task_prios prio_ok_steps)
next
  case (wait c s t p)
  then show ?case using enter_prios [of s c]
    by (simp add: wait_for_pid_def Let_def upd_task_prios prio_ok_steps)
next
  case (exit c s t)
  then show ?case using enter_prios [of s c] by (simp add: exit_prios)
next
  case (nice c s t n)
  then have "prios_ok t" using enter_prios [of s c] by simp
  then show ?case by (simp add: task_set_nice_def Let_def upd_task_prios nice_prio)
next
  case (uid c s t u g)
  then show ?case using enter_prios [of s c] by (simp add: task_set_uid_def upd_task_prios prio_ok_steps)
next
  case (move s p cpu)
  then show ?case by (simp add: task_set_cpu_def Let_def upd_task_prios prio_ok_steps)
next
  case (abort s c)
  then show ?case
    by (simp add: task_abort_current_group_def Let_def exit_prios each_task_prios prio_ok_steps)
next
  case (publish t s)
  then show ?case by (auto simp: task_publish_def Let_def prios_ok_def fresh_task_def prio_ok_steps)
next
  case (check s t)
  have "prios_ok u \<Longrightarrow> prios_ok (fst (fold (\<lambda>th (s, can_reap).
      if th \<noteq> t \<and> t_pml4 (tasks s th) = t_pml4 (tasks s t)
      then (upd_task th (\<lambda>x. x\<lparr>tstate := TASK_DEAD\<rparr>) s, False) else (s, can_reap)) l (u, b)))" for u :: sched_state and l b
    by (induction l arbitrary: u b) (simp_all add: upd_task_prios prio_ok_steps)
  then show ?case using check by (simp add: reap_check_def Let_def)
next
  case (reap t s s')
  have "prios_ok (s\<lparr>task_list := remove1 t (task_list s)\<rparr>)"
    using reap(3) notin_set_remove1 by (fastforce simp: prios_ok_def)
  then show ?case using reap_check_true [OF reap(2)]
    by (simp add: unlink_task_def Let_def each_task_prios upd_task_prios prio_ok_steps)
qed (simp_all add: schedule_prios enter_prios task_context_enter_def reaper_wait_def Let_def upd_task_prios prio_ok_steps,
    simp add: prios_ok_def)

text \<open>
  In every state that can be reached the scheduling fields of every task are in range: the priority
  is the base priority less the nice value, cut to the four levels, the time slice belongs to the
  priority, and at most four ticks of it are left.
\<close>

lemma sched_fields_in_range:
  assumes "sched_step\<^sup>*\<^sup>* s0 s" and "\<forall>a \<in> set (task_list s0). prio_ok (tasks s0 a)" and "a \<in> set (task_list s)"
  shows "priority (tasks s a) \<in> {PRIO_IDLE .. PRIO_HIGH} \<and> base_priority (tasks s a) \<in> {PRIO_IDLE .. PRIO_HIGH} \<and>
    nice (tasks s a) \<in> {-2 .. 2} \<and> priority (tasks s a) = clamp_priority (base_priority (tasks s a) - nice (tasks s a)) \<and>
    1 \<le> quantum_max (tasks s a) \<and> quantum_max (tasks s a) \<le> 4 \<and> quantum (tasks s a) \<le> 4"
proof -
  have "prios_ok s" using assms(1)
  proof (induction rule: rtranclp_induct)
    case base
    then show ?case using assms(2) by (simp add: prios_ok_def)
  qed (auto intro: sched_step_prios)
  then have t: "prio_ok (tasks s a)" using assms(3) by (simp add: prios_ok_def)
  then show ?thesis using prio_ok_priority [OF t] quantum_table_range [OF prio_ok_priority [OF t]]
    by (simp add: prio_ok_def)
qed

lemma tiny_prios: "prios_ok tiny_sched"
  by (simp add: prios_ok_def prio_ok_def clamp_priority_def quantum_table_def)

lemma sched_fields_in_range_witness:
  "quantum_max (tasks tiny_sched 4) \<le> 4 \<and> priority (tasks tiny_sched 4) \<in> {PRIO_IDLE .. PRIO_HIGH}"
  using sched_fields_in_range [OF rtranclp.rtrancl_refl, of tiny_sched 4] tiny_prios
  by (simp add: prios_ok_def)

section \<open>The circular scan\<close>

lemma successor_notin: "a \<notin> set l \<Longrightarrow> successor a l = 0"
  by (induction a l rule: successor.induct) auto

lemma successor_nth:
  "distinct l \<Longrightarrow> m < length l \<Longrightarrow> successor (l ! m) l = (if Suc m < length l then l ! Suc m else 0)"
proof (induction l arbitrary: m)
  case (Cons x l)
  show ?case
  proof (cases m)
    case 0
    then show ?thesis by (cases l) auto
  next
    case (Suc k)
    then have k: "k < length l" "l ! k \<noteq> x" using Cons.prems by auto
    then obtain y zs where "l = y # zs" by (cases l) auto
    then show ?thesis using Cons.IH [of k] Cons.prems k Suc by auto
  qed
qed simp

lemma split_at_nth:
  "distinct l \<Longrightarrow> k < length l \<Longrightarrow> dropWhile (\<lambda>a. a \<noteq> l ! k) l = drop k l \<and> takeWhile (\<lambda>a. a \<noteq> l ! k) l = take k l"
proof (induction l arbitrary: k)
  case (Cons x l)
  then show ?case by (cases k) auto
qed simp

lemma scan_order_nth:
  assumes "distinct l" and "0 \<notin> set l" and "m < length l"
  shows "scan_order (l ! m) l = rotate (Suc m) l"
proof (cases "Suc m < length l")
  case True
  then have "l ! Suc m \<noteq> 0" using assms(2) by (metis nth_mem)
  then show ?thesis using True assms split_at_nth [OF assms(1) True]
    by (simp add: scan_order_def Let_def successor_nth rotate_drop_take del: rotate_Suc)
next
  case False
  then have e: "Suc m = length l" using assms(3) by simp
  have "l \<noteq> []" using assms(3) by auto
  moreover from this have "hd l = l ! 0" by (simp add: hd_conv_nth)
  ultimately show ?thesis using assms split_at_nth [of l 0] e
    by (simp add: scan_order_def Let_def successor_nth del: rotate_Suc)
qed

lemma scan_order_rotate:
  assumes "distinct l" and "0 \<notin> set l" and "l \<noteq> []"
  shows "\<exists>k. scan_order a l = rotate k l"
proof (cases "a \<in> set l")
  case True
  then obtain m where "m < length l" "l ! m = a" by (auto simp: in_set_conv_nth)
  then show ?thesis using scan_order_nth [OF assms(1,2)] by blast
next
  case False
  have "hd l = l ! 0" using assms(3) by (simp add: hd_conv_nth)
  then have "scan_order a l = rotate 0 l"
    using split_at_nth [OF assms(1), of 0] assms(3) by (simp add: scan_order_def Let_def successor_notin [OF False])
  then show ?thesis by blast
qed

text \<open>How many tasks the scan behind \<open>a\<close> looks at before it comes to \<open>t\<close>.\<close>

definition scan_distance :: "u64 \<Rightarrow> u64 \<Rightarrow> u64 list \<Rightarrow> nat" where
  "scan_distance t a l = length (takeWhile (\<lambda>x. x \<noteq> t) (scan_order a l))"

lemma takeWhile_le: "q < length ys \<Longrightarrow> ys ! q = t \<Longrightarrow> length (takeWhile (\<lambda>x. x \<noteq> t) ys) \<le> q"
proof (induction ys arbitrary: q)
  case (Cons y ys)
  then show ?case by (cases q) auto
qed simp

lemma scan_distance_less:
  assumes l: "distinct l" "0 \<notin> set l" and t: "t \<in> set l"
  shows "scan_distance t a l < length l"
proof -
  have "t \<in> set (scan_order a l)" using t by (simp add: set_scan_order)
  then obtain ys zs where "scan_order a l = ys @ t # zs" "t \<notin> set ys" by (meson split_list_first)
  then have "length (takeWhile (\<lambda>x. x \<noteq> t) (scan_order a l)) < length (scan_order a l)"
    by (simp add: takeWhile_append)
  moreover obtain k where "scan_order a l = rotate k l" using scan_order_rotate [OF l] t by fastforce
  ultimately show ?thesis by (simp add: scan_distance_def)
qed

lemma scan_distance_decreases:
  assumes l: "distinct l" "0 \<notin> set l" and t: "t \<in> set l"
    and x: "x \<in> set (takeWhile (\<lambda>y. y \<noteq> t) (scan_order a l))"
  shows "scan_distance t x l < scan_distance t a l"
proof -
  let ?n = "length l"
  obtain k where k: "scan_order a l = rotate k l" using scan_order_rotate [OF l] t by fastforce
  define j where "j = scan_distance t a l"
  have j: "j < ?n" using scan_distance_less [OF l t] by (simp add: j_def)
  obtain i where i: "i < j" "rotate k l ! i = x"
    using x unfolding k by (auto simp: in_set_conv_nth j_def scan_distance_def k takeWhile_nth)
  have tj: "rotate k l ! j = t"
    using nth_length_takeWhile [of "\<lambda>y. y \<noteq> t" "rotate k l"] j by (simp add: j_def scan_distance_def k)
  define m where "m = (k + i) mod ?n"
  have m: "m < ?n" "l ! m = x" using i j by (auto simp: m_def nth_rotate intro: mod_less_divisor)
  have so: "scan_order x l = rotate (Suc m) l" using scan_order_nth [OF l m(1)] m(2) by simp
  have "Suc m + (j - i - 1) = m + (j - i)" using i(1) by linarith
  then have "(Suc m + (j - i - 1)) mod ?n = (m + (j - i)) mod ?n" by (rule arg_cong)
  also have "\<dots> = (k + i + (j - i)) mod ?n" unfolding m_def by (rule mod_add_left_eq)
  also have "\<dots> = (k + j) mod ?n" using i(1) by simp
  finally have "rotate (Suc m) l ! (j - i - 1) = t"
    using tj j i(1) by (simp add: nth_rotate del: rotate_Suc)
  then have "scan_distance t x l \<le> j - i - 1"
    unfolding scan_distance_def so using j by (intro takeWhile_le) simp_all
  then show ?thesis using i(1) by (simp add: j_def)
qed

section \<open>Starvation\<close>

text \<open>A task of CPU \<open>c\<close> that is ready and has waited for the boost interval.\<close>

definition starving :: "u32 \<Rightarrow> u64 \<Rightarrow> u64 \<Rightarrow> 'a sched_state_scheme \<Rightarrow> bool" where
  "starving c t now s \<longleftrightarrow> t \<in> set (task_list s) \<and> eligible c now s t \<and>
     now - ready_since (tasks s t) \<ge> STARVATION_BOOST_INTERVAL"

lemma boosted_le: "prio_ok t \<Longrightarrow> boosted now t \<le> PRIO_HIGH + 1"
  using prio_ok_priority [of t] by (auto simp: boosted_def)

lemma pick_starving:
  assumes s: "list_ok s" "prios_ok s" and t: "starving c t now s"
  shows "pick c now a s = t \<or> pick c now a s \<in> set (takeWhile (\<lambda>y. y \<noteq> t) (scan_order a (task_list s)))"
proof -
  let ?xs = "scan_order a (task_list s)"
  have "t \<in> set ?xs" using t by (simp add: starving_def set_scan_order)
  then obtain ys zs where xs: "?xs = ys @ t # zs" "t \<notin> set ys" by (meson split_list_first)
  have ys: "takeWhile (\<lambda>y. y \<noteq> t) ?xs = ys" using xs(2) unfolding xs(1) by (simp add: takeWhile_append)
  let ?ys = "ys @ [t]"
  have le: "boosted now (tasks s x) \<le> 4" if "x \<in> set ?xs" for x
    using that s(2) boosted_le [of "tasks s x" now] by (auto simp: prios_ok_def set_scan_order)
  obtain b k where f: "fold (pick_step c now s) ?ys (0, -1) = (b, k)" by fastforce
  have b4: "boosted now (tasks s t) = 4" using t by (simp add: starving_def boosted_def)
  have sub: "set ?ys \<subseteq> set ?xs" "set zs \<subseteq> set ?xs" unfolding xs(1) by auto
  note pf = pick_fold [OF f]
  have k4: "4 \<le> k" using pf t b4 by (simp add: starving_def)
  then have bin: "b \<in> set ?ys" "k = boosted now (tasks s b)" using pf by auto
  moreover from this have "k \<le> 4" using le sub(1) by auto
  ultimately have "k = 4 \<and> b \<in> set ?ys" using k4 by simp
  moreover have "fold (pick_step c now s) zs (b, 4) = (b, 4)"
    using sub(2)
  proof (induction zs)
    case (Cons z zs)
    then show ?case using le [of z] by (simp add: pick_step_def)
  qed simp
  ultimately have "fold (pick_step c now s) (?ys @ zs) (0, -1) = (b, 4)" using f by simp
  then have "fold (pick_step c now s) ?xs (0, -1) = (b, 4)" using xs(1) by simp
  then have "pick c now a s = b" unfolding pick_def by (simp only: fst_conv)
  then show ?thesis using \<open>k = 4 \<and> b \<in> set ?ys\<close> ys by auto
qed

text \<open>
  \<open>passed_over c t n s s'\<close>: from \<open>s\<close> to \<open>s'\<close> CPU \<open>c\<close> has switched \<open>n\<close> times to another task although \<open>t\<close>
  was starving on it each time. Between the switches anything may happen that keeps the task list and
  what runs on \<open>c\<close>.
\<close>

inductive passed_over :: "u32 \<Rightarrow> u64 \<Rightarrow> nat \<Rightarrow> sched_state \<Rightarrow> sched_state \<Rightarrow> bool" for c t where
  none: "passed_over c t 0 s s"
| pass: "passed_over c t n s u \<Longrightarrow> list_ok u \<Longrightarrow> prios_ok u \<Longrightarrow> length (cpus u) = MAX_CPUS \<Longrightarrow> c < cpu_count u \<Longrightarrow>
    cpu_count u \<le> of_nat MAX_CPUS \<Longrightarrow> pc_cpu_id (percpu_get c u) = c \<Longrightarrow>
    starving c t now u \<Longrightarrow> switch_task c now rs u = (v, rs') \<Longrightarrow> current_task c v \<noteq> t \<Longrightarrow>
    task_list w = task_list v \<Longrightarrow> current_task c w = current_task c v \<Longrightarrow> passed_over c t (Suc n) s w"

lemma starving_save:
  "starving c t now (upd_task p (save_context now rs) s) = starving c t now s" if "tstate (tasks s p) \<noteq> TASK_RUNNING"
  using that by (auto simp: starving_def eligible_def)

lemma starving_saved:
  assumes "starving c t now s"
  shows "starving c t now (upd_task p (save_context now rs) s)"
  using assms by (auto simp: starving_def eligible_def)

lemma passed_over_step:
  assumes "list_ok u" "prios_ok u" and l: "length (cpus u) = MAX_CPUS" and c: "unat c < 16" "pc_cpu_id (percpu_get c u) = c"
    and t: "starving c t now u" and sw: "switch_task c now rs u = (v, rs')" and ne: "current_task c v \<noteq> t"
  shows "task_list v = task_list u \<and>
    scan_distance t (current_task c v) (task_list u) < scan_distance t (current_task c u) (task_list u)"
proof -
  define prev where "prev = current_task c u"
  define s where "s = upd_task prev (save_context now rs) u"
  have same: "same_tasks u s" by (simp add: s_def upd_task_same)
  have s: "list_ok s" "prios_ok s" "starving c t now s"
    using same_list_ok [OF same] assms(1,2) t by (simp_all add: s_def upd_task_prios prio_ok_steps starving_saved)
  have st: "switch_to c now prev (next_task c now prev s) s = (v, rs')"
    using sw by (simp add: switch_task_def Let_def prev_def s_def)
  have cs: "length (cpus s) = 16" "pc_cpu_id (percpu_get c s) = c" using l c by (simp_all add: s_def)
  note sh = switch_shape [OF cs c(1) st]
  obtain p where "cpus v = (cpus s)[cpu_slot c := p]" "current p = next_task c now prev s" using sh(2) by blast
  then have cur: "current_task c v = next_task c now prev s" using cs by (simp add: current_task_def percpu_get_def)
  have tl: "t \<in> set (task_list s)" "t \<noteq> 0" using s(1,3) by (auto simp: starving_def list_ok_def)
  have lst: "distinct (task_list s)" "0 \<notin> set (task_list s)" using s(1) by (simp_all add: list_ok_def)
  have "pick c now prev s \<noteq> 0"
  proof -
    have "pick c now prev s = t \<or> pick c now prev s \<in> set (scan_order prev (task_list s))"
      using pick_starving [OF s] set_takeWhileD by metis
    then show ?thesis using tl lst(2) by (metis set_scan_order)
  qed
  then have "pick c now prev s \<noteq> t" "current_task c v = pick c now prev s" using cur ne by (auto simp: next_task_def Let_def)
  then have "scan_distance t (current_task c v) (task_list s) < scan_distance t prev (task_list s)"
    using pick_starving [OF s, of prev] by (auto intro: scan_distance_decreases [OF lst tl(1)])
  then show ?thesis using sh(1) by (simp add: s_def prev_def)
qed

lemma passed_over_distance:
  "passed_over c t n s s' \<Longrightarrow> list_ok s \<Longrightarrow> t \<in> set (task_list s) \<Longrightarrow>
    task_list s' = task_list s \<and> n + scan_distance t (current_task c s') (task_list s) < length (task_list s)"
proof (induction rule: passed_over.induct)
  case (none s)
  then show ?case by (simp add: list_ok_def scan_distance_less)
next
  case (pass n s u now rs v rs' w)
  have "unat c < 16" using pass.hyps(5,6) by (simp add: word_less_nat_alt word_le_nat_alt)
  from passed_over_step [OF pass.hyps(2,3,4) this pass.hyps(7,8,9,10)] show ?case using pass.IH pass.prems pass.hyps(11,12) by simp
qed

text \<open>
  C16: a task that has been ready for the boost interval is passed over fewer times than there are
  tasks: with \<open>n\<close> tasks in the list, at most \<open>n - 1\<close> switches of its CPU go to others before it runs.
\<close>

theorem sched_no_starvation:
  assumes "passed_over c t n s s'" and "list_ok s" and "t \<in> set (task_list s)"
  shows "n < length (task_list s)"
  using passed_over_distance [OF assms] by simp

lemma sched_no_starvation_witness:
  "current_task 1 (fst (switch_task 1 1000 blank_regs tiny_sched)) = 4 \<and> 1 < length (task_list tiny_sched)"
proof -
  obtain v rs' where v: "switch_task 1 1000 blank_regs tiny_sched = (v, rs')" by fastforce
  have cur: "current_task 1 (fst (switch_task 1 1000 blank_regs tiny_sched)) = 4" by (rule tiny_switch)
  have inv: "list_ok tiny_sched" "length (cpus tiny_sched) = MAX_CPUS"
    using tiny_sched_inv by (simp_all add: sched_inv_def)
  have "starving 1 5 1000 tiny_sched" by (simp add: starving_def eligible_def)
  then have "passed_over 1 5 (Suc 0) tiny_sched v"
    using cur v by (intro passed_over.pass [OF passed_over.none inv(1) tiny_prios inv(2)]) simp_all
  from sched_no_starvation [OF this inv(1)] show ?thesis using cur by simp
qed

section \<open>The choice\<close>

lemma pick_first:
  assumes "fold (pick_step c now s) l (b, k) = (b', k')"
  shows "b' = b \<and> k' = k \<and> (\<forall>t \<in> set l. eligible c now s t \<longrightarrow> boosted now (tasks s t) \<le> k) \<or>
    (\<exists>ys zs. l = ys @ b' # zs \<and> eligible c now s b' \<and> k' = boosted now (tasks s b') \<and> k < k' \<and>
      (\<forall>t \<in> set ys. eligible c now s t \<longrightarrow> boosted now (tasks s t) < k') \<and>
      (\<forall>t \<in> set zs. eligible c now s t \<longrightarrow> boosted now (tasks s t) \<le> k'))"
  using assms
proof (induction l arbitrary: b' k' rule: rev_induct)
  case (snoc t l)
  obtain b1 k1 where f: "fold (pick_step c now s) l (b, k) = (b1, k1)" by fastforce
  then have st: "pick_step c now s t (b1, k1) = (b', k')" using snoc.prems by simp
  note m = pick_fold [OF f]
  show ?case
  proof (cases "eligible c now s t \<and> boosted now (tasks s t) > k1")
    case True
    then have "t = b'" "k' = boosted now (tasks s b')" using st by (auto simp: pick_step_def)
    then show ?thesis using True m by (intro disjI2 exI [of _ l] exI [of _ "[]"]) auto
  next
    case False
    then have "b' = b1 \<and> k' = k1" using st by (auto simp: pick_step_def split: if_splits)
    then have b: "b1 = b'" "k1 = k'" by simp_all
    have t: "eligible c now s t \<longrightarrow> boosted now (tasks s t) \<le> k'" using False b by auto
    from snoc.IH [OF f] show ?thesis unfolding b
    proof (elim disjE exE conjE)
      fix ys zs
      assume d: "l = ys @ b' # zs" "eligible c now s b'" "k' = boosted now (tasks s b')" "k < k'"
        "\<forall>t \<in> set ys. eligible c now s t \<longrightarrow> boosted now (tasks s t) < k'"
        "\<forall>t \<in> set zs. eligible c now s t \<longrightarrow> boosted now (tasks s t) \<le> k'"
      show ?thesis using d(2-6) t by (intro disjI2 exI [of _ ys] exI [of _ "zs @ [t]"] conjI) (simp_all add: d(1))
    qed (use t in auto)
  qed
qed simp

text \<open>
  C19: a switch on CPU \<open>c\<close> takes, of the tasks that are ready there, one of the greatest priority (tasks
  that starve count above all levels), and among these the first in the circular order behind the
  outgoing task; with none ready it takes the idle task. The chosen task runs with a full time slice, on
  its own address space and kernel stack, and its saved registers are resumed.
\<close>

theorem sched_selects:
  assumes "list_ok s" and "prios_ok s" and "length (cpus s) = MAX_CPUS" and "unat c < MAX_CPUS"
    and "pc_cpu_id (percpu_get c s) = c" and "switch_task c now rs s = (v, rs')"
  shows "let prev = current_task c s; u = upd_task prev (save_context now rs) s; b = current_task c v in
    (if \<exists>t \<in> set (task_list s). eligible c now u t
     then \<exists>ys zs. scan_order prev (task_list s) = ys @ b # zs \<and> eligible c now u b \<and>
       (\<forall>t \<in> set ys. eligible c now u t \<longrightarrow> boosted now (tasks u t) < boosted now (tasks u b)) \<and>
       (\<forall>t \<in> set zs. eligible c now u t \<longrightarrow> boosted now (tasks u t) \<le> boosted now (tasks u b))
     else b = idle_task (percpu_get c s)) \<and>
    tstate (tasks v b) = TASK_RUNNING \<and> quantum (tasks v b) = quantum_max (tasks v b) \<and>
    rs' = regs (tasks v b)"
proof -
  define prev where "prev = current_task c s"
  define u where "u = upd_task prev (save_context now rs) s"
  have "same_tasks s u" by (simp add: u_def upd_task_same)
  from same_list_ok [OF this]
  have u: "list_ok u" "prios_ok u" "length (cpus u) = 16" "pc_cpu_id (percpu_get c u) = c" "task_list u = task_list s"
    using assms by (simp_all add: u_def upd_task_prios prio_ok_steps)
  have st: "switch_to c now prev (next_task c now prev u) u = (v, rs')"
    using assms(6) by (simp add: switch_task_def Let_def prev_def u_def)
  note sh = switch_shape [OF u(3,4) assms(4) st]
  obtain p where "cpus v = (cpus u)[cpu_slot c := p]" "current p = next_task c now prev u" using sh(2) by blast
  then have cur: "current_task c v = next_task c now prev u"
    using u(3) assms(4) by (simp add: current_task_def percpu_get_def cpu_slot_def)
  have idle: "idle_task (percpu_get c u) = idle_task (percpu_get c s)" by (simp add: u_def)
  define b where "b = next_task c now prev u"
  have run: "tstate (tasks v b) = TASK_RUNNING" "quantum (tasks v b) = quantum_max (tasks v b)"
    using sh(3) by (auto simp: resume_def Let_def b_def)
  obtain x k where f: "fold (pick_step c now u) (scan_order prev (task_list u)) (0, -1) = (x, k)" by fastforce
  have x: "pick c now prev u = x" using f by (simp add: pick_def)
  have pos: "boosted now (tasks u t) \<ge> 0" if "t \<in> set (task_list s)" for t
    using that u(2,5) prio_ok_priority [of "tasks u t"] by (auto simp: prios_ok_def boosted_def)
  have nz: "0 \<notin> set (task_list s)" using assms(1) by (simp add: list_ok_def)
  show ?thesis
  proof (cases "\<exists>t \<in> set (task_list s). eligible c now u t")
    case True
    have "\<not> (x = 0 \<and> k = -1)" using pick_fold [OF f] True pos u(5) by (fastforce simp: set_scan_order)
    with pick_first [OF f] obtain ys zs where d: "scan_order prev (task_list s) = ys @ x # zs" "eligible c now u x"
      "\<forall>t \<in> set ys. eligible c now u t \<longrightarrow> boosted now (tasks u t) < boosted now (tasks u x)"
      "\<forall>t \<in> set zs. eligible c now u t \<longrightarrow> boosted now (tasks u t) \<le> boosted now (tasks u x)"
      unfolding u(5) by auto
    have "x \<in> set (scan_order prev (task_list s))" unfolding d(1) by simp
    then have "b = x" using nz x by (auto simp: b_def next_task_def Let_def set_scan_order)
    then show ?thesis using True d cur run sh(4) by (auto simp: Let_def b_def simp flip: prev_def u_def)
  next
    case False
    have "x = 0" using pick_fold [OF f] False u(5) by (auto simp: set_scan_order)
    then have "b = idle_task (percpu_get c s)" using x idle by (simp add: b_def next_task_def)
    then show ?thesis using False cur run sh(4) by (simp add: Let_def b_def flip: prev_def u_def)
  qed
qed

lemma sched_selects_witness:
  "current_task 1 (fst (switch_task 1 7 blank_regs tiny_sched)) = 4 \<and>
   tstate (tasks (fst (switch_task 1 7 blank_regs tiny_sched)) 4) = TASK_RUNNING"
proof -
  obtain v rs' where v: "switch_task 1 7 blank_regs tiny_sched = (v, rs')" by fastforce
  have "list_ok tiny_sched" using tiny_sched_inv by (simp add: sched_inv_def)
  from sched_selects [OF this tiny_prios _ _ _ v] show ?thesis using v tiny_switch [of 7] by (simp add: Let_def)
qed

end
