(* ===== verification/Ports.thy ===== *)
theory Ports
  imports Prelude
begin

text \<open>
  Port input and output, \<^verbatim>\<open>drivers/io.h\<close>, and the interrupt controller, \<^verbatim>\<open>cpu/pic.c\<close>. What a read of
  a port answers is up to the devices: \<open>answers n p\<close> is the answer of port \<open>p\<close> to the \<open>n\<close>-th read, an
  arbitrary function. Writes are kept in the order of the program. Interrupts are disabled where the
  code takes an interrupt lock; log messages are left out.
\<close>

section \<open>Port access\<close>

record port_state =
  answers :: "nat \<Rightarrow> u16 \<Rightarrow> u32"
  reads :: nat
  written :: "(u16 \<times> u32) list"

definition inl :: "u16 \<Rightarrow> 'a port_state_scheme \<Rightarrow> u32 \<times> 'a port_state_scheme" where
  "inl port s = (answers s (reads s) port, s\<lparr>reads := reads s + 1\<rparr>)"

definition inw :: "u16 \<Rightarrow> 'a port_state_scheme \<Rightarrow> u16 \<times> 'a port_state_scheme" where
  "inw port s = (ucast (answers s (reads s) port), s\<lparr>reads := reads s + 1\<rparr>)"

definition inb :: "u16 \<Rightarrow> 'a port_state_scheme \<Rightarrow> u8 \<times> 'a port_state_scheme" where
  "inb port s = (ucast (answers s (reads s) port), s\<lparr>reads := reads s + 1\<rparr>)"

definition outl :: "u16 \<Rightarrow> u32 \<Rightarrow> 'a port_state_scheme \<Rightarrow> 'a port_state_scheme" where
  "outl port v s = s\<lparr>written := written s @ [(port, v)]\<rparr>"

definition outw :: "u16 \<Rightarrow> u16 \<Rightarrow> 'a port_state_scheme \<Rightarrow> 'a port_state_scheme" where
  "outw port v s = s\<lparr>written := written s @ [(port, ucast v)]\<rparr>"

definition outb :: "u16 \<Rightarrow> u8 \<Rightarrow> 'a port_state_scheme \<Rightarrow> 'a port_state_scheme" where
  "outb port v s = s\<lparr>written := written s @ [(port, ucast v)]\<rparr>"

definition io_wait :: "'a port_state_scheme \<Rightarrow> 'a port_state_scheme" where
  "io_wait s = outb 0x80 0 s"

section \<open>The interrupt controller\<close>

record pic_state = port_state +
  spurious7 :: u64
  spurious15 :: u64

abbreviation PIC1_COMMAND :: u16 where "PIC1_COMMAND \<equiv> 0x20"
abbreviation PIC1_DATA :: u16 where "PIC1_DATA \<equiv> 0x21"
abbreviation PIC2_COMMAND :: u16 where "PIC2_COMMAND \<equiv> 0xA0"
abbreviation PIC2_DATA :: u16 where "PIC2_DATA \<equiv> 0xA1"

definition pic_remap :: "'a port_state_scheme \<Rightarrow> 'a port_state_scheme" where
  "pic_remap s = fold (\<lambda>(port, v) s. io_wait (outb port v s))
     [(PIC1_COMMAND, 0x11), (PIC2_COMMAND, 0x11), (PIC1_DATA, 0x20), (PIC2_DATA, 0x28),
      (PIC1_DATA, 4), (PIC2_DATA, 2), (PIC1_DATA, 1), (PIC2_DATA, 1), (PIC1_DATA, 0xFC), (PIC2_DATA, 0xFF)] s"

definition pic_unmask_irq :: "u8 \<Rightarrow> 'a port_state_scheme \<Rightarrow> 'a port_state_scheme" where
  "pic_unmask_irq irq s =
     (if irq \<ge> 16 then s
      else let (port, b) = (if irq < 8 then (PIC1_DATA, irq) else (PIC2_DATA, irq - 8));
               (v, s) = inb port s
           in outb port (v AND NOT (push_bit (unat b) 1)) s)"

definition pic_enable_pci_irq :: "u8 \<Rightarrow> 'a port_state_scheme \<Rightarrow> bool \<times> 'a port_state_scheme" where
  "pic_enable_pci_irq irq s =
     (if irq \<ge> 16 \<or> 0xcef8 AND push_bit (unat irq) (1 :: u32) = 0 then (False, s)
      else let elcr = 0x4d0 + ucast (irq div 8);
               mask = push_bit (unat (irq AND 7)) 1;
               (v, s) = inb elcr s;
               s = outb elcr (v OR mask) s;
               (v, s) = inb elcr s
           in if v AND mask = 0 then (False, s)
              else let s = (if irq \<ge> 8
                            then let (v, s) = inb PIC1_DATA s in outb PIC1_DATA (v AND NOT 4) s else s);
                       port = (if irq \<ge> 8 then PIC2_DATA else PIC1_DATA);
                       (v, s) = inb port s
                   in (True, outb port (v AND NOT mask) s))"

definition pic_begin_irq :: "u8 \<Rightarrow> 'a pic_state_scheme \<Rightarrow> bool \<times> 'a pic_state_scheme" where
  "pic_begin_irq irq s =
     (if irq \<ge> 16 then (False, s)
      else if irq \<noteq> 7 \<and> irq \<noteq> 15 then (True, s)
      else let command = (if irq = 7 then PIC1_COMMAND else PIC2_COMMAND);
               s = outb command 0x0b s;
               (v, s) = inb command s
           in if v AND 0x80 \<noteq> 0 then (True, s)
              else if irq = 7 then (False, s\<lparr>spurious7 := spurious7 s + 1\<rparr>)
              else (False, outb PIC1_COMMAND 0x20 (s\<lparr>spurious15 := spurious15 s + 1\<rparr>)))"

definition pic_end_irq :: "u8 \<Rightarrow> 'a port_state_scheme \<Rightarrow> 'a port_state_scheme" where
  "pic_end_irq irq s =
     (let s = (if irq \<ge> 8 then outb PIC2_COMMAND 0x20 s else s) in outb PIC1_COMMAND 0x20 s)"

definition pic_get_irq_stats :: "'a pic_state_scheme \<Rightarrow> u64 \<times> u64" where
  "pic_get_irq_stats s = (spurious7 s, spurious15 s)"

section \<open>Port access leaves the rest of the state alone\<close>

lemma port_simps [simp]:
  "reads (outb p v s) = reads s" "answers (outb p v s) = answers s"
  "written (outb p v s) = written s @ [(p, ucast v)]"
  "reads (outw p w s) = reads s" "answers (outw p w s) = answers s"
  "written (outw p w s) = written s @ [(p, ucast w)]"
  "reads (outl p x s) = reads s" "answers (outl p x s) = answers s"
  "written (outl p x s) = written s @ [(p, x)]"
  by (simp_all add: outb_def outw_def outl_def)

lemma port_more [simp]:
  "port_state.more (outb p v s) = port_state.more s" "port_state.more (outw p w s) = port_state.more s"
  "port_state.more (outl p x s) = port_state.more s" "port_state.more (io_wait s) = port_state.more s"
  "port_state.more (snd (inb p s)) = port_state.more s" "port_state.more (snd (inw p s)) = port_state.more s"
  "port_state.more (snd (inl p s)) = port_state.more s"
  by (simp_all add: outb_def outw_def outl_def inb_def inw_def inl_def io_wait_def)

text \<open>Unmasking clears the bit of the interrupt and no other bit of the mask register.\<close>

lemma pic_unmask_bits:
  assumes "irq < 16"
  shows "\<exists>port v w. written (pic_unmask_irq irq s) = written s @ [(port, ucast w)] \<and>
    port = (if irq < 8 then PIC1_DATA else PIC2_DATA) \<and> fst (inb port s) = v \<and>
    (\<forall>n < 8. bit (w :: u8) n \<longleftrightarrow> bit v n \<and> n \<noteq> unat irq mod 8)"
proof -
  let ?port = "if irq < 8 then PIC1_DATA else PIC2_DATA"
  let ?b = "if irq < 8 then irq else irq - 8"
  have b: "unat ?b = unat irq mod 8"
    using assms by (auto simp: word_less_nat_alt unat_sub word_le_nat_alt mod_if)
  let ?v = "fst (inb ?port s)"
  let ?w = "?v AND NOT (push_bit (unat ?b) 1)"
  have "written (pic_unmask_irq irq s) = written s @ [(?port, ucast ?w)]"
    using assms by (auto simp: pic_unmask_irq_def Let_def inb_def split: prod.splits)
  moreover have "bit ?w n \<longleftrightarrow> bit ?v n \<and> n \<noteq> unat irq mod 8" if "n < 8" for n
    using that b by (auto simp: bit_simps)
  ultimately show ?thesis by blast
qed

end
