(* ===== verification/Input.thy ===== *)
theory Input
  imports Ports CString
begin

text \<open>
  The input queue, \<^verbatim>\<open>drivers/input.c\<close>, and the keyboard, \<^verbatim>\<open>drivers/keyboard.c\<close>: both keep a ring buffer
  of 256 slots with one slot left empty. The \<open>bounded_fifo\<close> contract is what the drivers rely on; both
  rings satisfy it with room for 255 entries. The producer runs with interrupts disabled and the
  consumer under the preemption guard, so each operation is one step.
\<close>

section \<open>State\<close>

record genos_input_event =
  ev_type :: u32
  ev_code :: u32
  ev_value :: "32 word"
  ev_dx :: "32 word"
  ev_dy :: "32 word"
  ev_reserved :: u32

abbreviation GENOS_INPUT_KEY :: u32 where "GENOS_INPUT_KEY \<equiv> 1"
abbreviation GENOS_INPUT_MOUSE :: u32 where "GENOS_INPUT_MOUSE \<equiv> 2"
abbreviation INPUT_CAPACITY :: u32 where "INPUT_CAPACITY \<equiv> 256"

record input_state = pic_state +
  events :: "genos_input_event list"
  in_head :: u32
  in_tail :: u32
  dropped :: u64

record kbd_state = input_state +
  key_buffer :: "u8 list"
  buffer_head :: int
  buffer_tail :: int
  shift_pressed :: bool
  caps_lock_active :: bool
  extended_key :: bool
  pause_bytes :: u32

abbreviation BUFFER_SIZE :: int where "BUFFER_SIZE \<equiv> 256"

section \<open>The input queue\<close>

definition input_push :: "genos_input_event \<Rightarrow> 'a input_state_scheme \<Rightarrow> 'a input_state_scheme" where
  "input_push event s =
     (let h = in_head s; nxt = (h + 1) mod INPUT_CAPACITY
      in if nxt = in_tail s then s\<lparr>dropped := dropped s + 1\<rparr>
         else s\<lparr>events := (events s)[unat h := event], in_head := nxt\<rparr>)"

definition input_peek :: "'a input_state_scheme \<Rightarrow> genos_input_event option" where
  "input_peek s = (if in_tail s = in_head s then None else Some (events s ! unat (in_tail s)))"

definition input_consume :: "'a input_state_scheme \<Rightarrow> 'a input_state_scheme" where
  "input_consume s =
     (if in_tail s \<noteq> in_head s then s\<lparr>in_tail := (in_tail s + 1) mod INPUT_CAPACITY\<rparr> else s)"

definition input_dropped :: "'a input_state_scheme \<Rightarrow> u64" where
  "input_dropped s = dropped s"

section \<open>The key queue\<close>

definition buffer_push :: "u8 \<Rightarrow> 'a kbd_state_scheme \<Rightarrow> 'a kbd_state_scheme" where
  "buffer_push c s =
     (let next_head = (buffer_head s + 1) mod BUFFER_SIZE
      in if next_head \<noteq> buffer_tail s
         then s\<lparr>key_buffer := (key_buffer s)[nat (buffer_head s) := c], buffer_head := next_head\<rparr>
         else s)"

definition keyboard_get_char :: "'a kbd_state_scheme \<Rightarrow> u8 \<times> 'a kbd_state_scheme" where
  "keyboard_get_char s =
     (if buffer_head s = buffer_tail s then (0, s)
      else (key_buffer s ! nat (buffer_tail s), s\<lparr>buffer_tail := (buffer_tail s + 1) mod BUFFER_SIZE\<rparr>))"

section \<open>Scan codes\<close>

definition scancode_to_ascii_base :: "u8 list" where
  "scancode_to_ascii_base =
     [0, 27] @ bytes_of ''1234567890-='' @ [8, 9] @ bytes_of ''qwertyuiop[]'' @ [10, 0] @
     bytes_of ''asdfghjkl;'' @ [39] @ [96] @ [0, 92] @ bytes_of ''zxcvbnm,./'' @ [0] @ bytes_of ''*'' @ [0] @ bytes_of '' ''"

definition scancode_to_ascii_shift :: "u8 list" where
  "scancode_to_ascii_shift =
     [0, 27] @ bytes_of ''!@#$%^&*()_+'' @ [8, 9] @ bytes_of ''QWERTYUIOP{}'' @ [10, 0] @
     bytes_of ''ASDFGHJKL:'' @ [34, 126] @ [0] @ bytes_of ''|ZXCVBNM<>?'' @ [0] @ bytes_of ''*'' @ [0] @ bytes_of '' ''"

definition extended_char :: "u8 \<Rightarrow> u8 option" where
  "extended_char scancode =
     (if scancode = 0x48 then Some 0x80 else if scancode = 0x50 then Some 0x81
      else if scancode = 0x4B then Some 0x82 else if scancode = 0x4D then Some 0x83
      else if scancode = 0x49 then Some 0x84 else if scancode = 0x51 then Some 0x85 else None)"

definition translate_key :: "bool \<Rightarrow> bool \<Rightarrow> u8 \<Rightarrow> u8" where
  "translate_key shift caps scancode =
     (let base_c = scancode_to_ascii_base ! unat scancode;
          shift_c = scancode_to_ascii_shift ! unat scancode
      in if base_c \<ge> 97 \<and> base_c \<le> 122
         then (let uppercase = (shift \<noteq> caps) in if uppercase then shift_c else base_c)
         else (if shift then shift_c else base_c))"

definition key_event :: "bool \<Rightarrow> u8 \<Rightarrow> genos_input_event" where
  "key_event extended scancode =
     \<lparr>ev_type = GENOS_INPUT_KEY, ev_code = ucast (scancode AND 0x7f) OR (if extended then 0x100 else 0),
      ev_value = (if scancode AND 0x80 = 0 then 1 else 0), ev_dx = 0, ev_dy = 0, ev_reserved = 0\<rparr>"

definition plain_key :: "u8 \<Rightarrow> 'a kbd_state_scheme \<Rightarrow> 'a kbd_state_scheme" where
  "plain_key scancode s =
     (if scancode AND 0x80 \<noteq> 0
      then let base_scancode = scancode AND 0x7F
           in if base_scancode = 0x2A \<or> base_scancode = 0x36 then s\<lparr>shift_pressed := False\<rparr> else s
      else if scancode = 0x2A \<or> scancode = 0x36 then s\<lparr>shift_pressed := True\<rparr>
      else if scancode = 0x3A then s\<lparr>caps_lock_active := \<not> caps_lock_active s\<rparr>
      else if unat scancode < length scancode_to_ascii_base
      then let final_c = translate_key (shift_pressed s) (caps_lock_active s) scancode
           in if final_c \<noteq> 0 then buffer_push final_c s else s
      else s)"

definition keyboard_handler :: "u8 \<Rightarrow> 'a kbd_state_scheme \<Rightarrow> 'a kbd_state_scheme" where
  "keyboard_handler scancode s =
     (if pause_bytes s \<noteq> 0 then s\<lparr>pause_bytes := pause_bytes s - 1\<rparr>
      else if scancode = 0xe1 then s\<lparr>pause_bytes := 5, extended_key := False\<rparr>
      else if scancode = 0xE0 then s\<lparr>extended_key := True\<rparr>
      else let s = input_push (key_event (extended_key s) scancode) s
           in if extended_key s
              then let s = s\<lparr>extended_key := False\<rparr>
                   in if scancode AND 0x80 \<noteq> 0 then s
                      else (case extended_char scancode of Some c \<Rightarrow> buffer_push c s | None \<Rightarrow> s)
              else plain_key scancode s)"

end
