(* ===== verification/Ps2.thy ===== *)
theory Ps2
  imports Input
begin

text \<open>
  The PS/2 controller, \<^verbatim>\<open>drivers/ps2.c\<close>: its commands with their bounded waits, initialisation, the
  mouse packets and the interrupt that drains the controller. The loops count down their bounds.
\<close>

record ps2_state = kbd_state +
  mouse_present :: bool
  packet :: "u8 list"
  packet_used :: u32

abbreviation PS2_TRIES :: nat where "PS2_TRIES \<equiv> 100000"

section \<open>Commands\<close>

primrec wait_write :: "nat \<Rightarrow> 'a port_state_scheme \<Rightarrow> bool \<times> 'a port_state_scheme" where
  "wait_write 0 s = (False, s)"
| "wait_write (Suc n) s =
     (let (status, s) = inb 0x64 s in if status AND 2 = 0 then (True, s) else wait_write n s)"

definition command :: "u8 \<Rightarrow> 'a port_state_scheme \<Rightarrow> bool \<times> 'a port_state_scheme" where
  "command v s =
     (let (ready, s) = wait_write PS2_TRIES s in if \<not> ready then (False, s) else (True, outb 0x64 v s))"

definition data_write :: "u8 \<Rightarrow> 'a port_state_scheme \<Rightarrow> bool \<times> 'a port_state_scheme" where
  "data_write v s =
     (let (ready, s) = wait_write PS2_TRIES s in if \<not> ready then (False, s) else (True, outb 0x60 v s))"

text \<open>Bytes of the other port that arrive meanwhile are handled or dropped; \<open>None\<close> is the result -1.\<close>

primrec read_byte :: "nat \<Rightarrow> bool \<Rightarrow> 'a kbd_state_scheme \<Rightarrow> u8 option \<times> 'a kbd_state_scheme" where
  "read_byte 0 aux s = (None, s)"
| "read_byte (Suc n) aux s =
     (let (status, s) = inb 0x64 s
      in if status AND 1 \<noteq> 0
         then let (v, s) = inb 0x60 s
              in if status AND 0xc0 \<noteq> 0 then read_byte n aux s
                 else if (status AND 0x20 \<noteq> 0) = aux then (Some v, s)
                 else read_byte n aux (if status AND 0x20 = 0 then keyboard_handler v s else s)
         else read_byte n aux s)"

primrec mouse_command_retry :: "nat \<Rightarrow> u8 \<Rightarrow> 'a kbd_state_scheme \<Rightarrow> bool \<times> 'a kbd_state_scheme" where
  "mouse_command_retry 0 v s = (False, s)"
| "mouse_command_retry (Suc n) v s =
     (let (sent, s) = command 0xd4 s
      in if \<not> sent then (False, s)
         else let (sent, s) = data_write v s
              in if \<not> sent then (False, s)
                 else let (reply, s) = read_byte PS2_TRIES True s
                      in if reply = Some 0xfa then (True, s)
                         else if reply \<noteq> Some 0xfe then (False, s)
                         else mouse_command_retry n v s)"

definition mouse_command :: "u8 \<Rightarrow> 'a kbd_state_scheme \<Rightarrow> bool \<times> 'a kbd_state_scheme" where
  "mouse_command v s = mouse_command_retry 3 v s"

section \<open>Initialisation\<close>

primrec drain_output :: "nat \<Rightarrow> 'a port_state_scheme \<Rightarrow> 'a port_state_scheme" where
  "drain_output 0 s = s"
| "drain_output (Suc n) s =
     (let (status, s) = inb 0x64 s in if status AND 1 \<noteq> 0 then drain_output n (snd (inb 0x60 s)) else s)"

text \<open>A chain of conditions joined by \<^verbatim>\<open>||\<close>: the steps run in order until one fails.\<close>

primrec try_all :: "('s \<Rightarrow> bool \<times> 's) list \<Rightarrow> 's \<Rightarrow> bool \<times> 's" where
  "try_all [] s = (True, s)"
| "try_all (f # fs) s = (let (sent, s) = f s in if sent then try_all fs s else (False, s))"

definition ps2_setup :: "'a ps2_state_scheme \<Rightarrow> bool \<times> 'a ps2_state_scheme" where
  "ps2_setup s =
     (let (sent, s) = try_all [command 0xad, command 0xa7] s
      in if \<not> sent then (False, s)
         else let s = drain_output 256 s;
                  (sent, s) = command 0x20 s
              in if \<not> sent then (False, s)
                 else let (config, s) = read_byte PS2_TRIES False s
                      in case config of None \<Rightarrow> (False, s)
                         | Some config \<Rightarrow>
                             let settings = (config OR 0x41) AND NOT 0x12;
                                 (sent, s) = try_all [command 0x60, data_write settings, command 0xae, command 0xa8] s
                             in if \<not> sent then (False, s)
                                else let (sent, s) = try_all [mouse_command 0xf6, mouse_command 0xf4] s
                                     in if \<not> sent then (False, s)
                                        else let settings = (settings OR 2) AND NOT 0x20
                                             in try_all [command 0x60, data_write settings] s)"

definition ps2_init :: "'a ps2_state_scheme \<Rightarrow> 'a ps2_state_scheme" where
  "ps2_init s =
     (let s = s\<lparr>mouse_present := False, packet_used := 0\<rparr>;
          (ready, s) = ps2_setup s
      in if ready then pic_unmask_irq 12 (pic_unmask_irq 2 (s\<lparr>mouse_present := True\<rparr>))
         else snd (command 0xae s))"

definition ps2_mouse_present :: "'a ps2_state_scheme \<Rightarrow> bool" where
  "ps2_mouse_present s = mouse_present s"

section \<open>Mouse packets\<close>

definition packet_event :: "u8 list \<Rightarrow> genos_input_event" where
  "packet_event p =
     (let dx = uint (p ! 1) - (if p ! 0 AND 0x10 \<noteq> 0 then 256 else 0);
          dy = uint (p ! 2) - (if p ! 0 AND 0x20 \<noteq> 0 then 256 else 0)
      in \<lparr>ev_type = GENOS_INPUT_MOUSE, ev_code = ucast (p ! 0 AND 7), ev_value = 0,
          ev_dx = word_of_int dx, ev_dy = word_of_int (- dy), ev_reserved = 0\<rparr>)"

definition ps2_mouse_byte :: "u8 \<Rightarrow> 'a ps2_state_scheme \<Rightarrow> 'a ps2_state_scheme" where
  "ps2_mouse_byte data s =
     (if packet_used s = 0 \<and> data AND 8 = 0 then s
      else let s = s\<lparr>packet := (packet s)[unat (packet_used s) := data], packet_used := packet_used s + 1\<rparr>
           in if packet_used s \<noteq> 3 then s
              else let s = s\<lparr>packet_used := 0\<rparr>
                   in if packet s ! 0 AND 0xc0 \<noteq> 0 then s else input_push (packet_event (packet s)) s)"

section \<open>The interrupt\<close>

definition ps2_receive :: "u8 \<Rightarrow> u8 \<Rightarrow> 'a ps2_state_scheme \<Rightarrow> 'a ps2_state_scheme" where
  "ps2_receive status v s =
     (if status AND 0xc0 \<noteq> 0 then s\<lparr>packet_used := 0\<rparr>
      else if status AND 0x20 \<noteq> 0 then (if mouse_present s then ps2_mouse_byte v s else s)
      else keyboard_handler v s)"

primrec ps2_drain :: "nat \<Rightarrow> 'a ps2_state_scheme \<Rightarrow> 'a ps2_state_scheme" where
  "ps2_drain 0 s = s"
| "ps2_drain (Suc n) s =
     (let (status, s) = inb 0x64 s
      in if status AND 1 = 0 then s
         else let (v, s) = inb 0x60 s in ps2_drain n (ps2_receive status v s))"

definition ps2_irq :: "'a ps2_state_scheme \<Rightarrow> 'a ps2_state_scheme" where
  "ps2_irq s = ps2_drain 32 s"

end
