(* ===== verification/InputProps.thy ===== *)
theory InputProps
  imports Ps2 "HOL-Library.Sublist"
begin

text \<open>
  The queues and the decoders: both ring buffers are FIFO queues of 255 entries, and whatever way the
  bytes of the two PS/2 ports are mixed, key strokes and mouse movements come out as they went in.
\<close>

section \<open>Bounded queues\<close>

text \<open>The contract of a queue that refuses entries when it is full.\<close>

datatype 'a fifo_op = Put 'a | Get

primrec fifo_run :: "('a \<Rightarrow> 's \<Rightarrow> 's) \<Rightarrow> ('s \<Rightarrow> 'a option \<times> 's) \<Rightarrow> 'a fifo_op list \<Rightarrow> 's \<Rightarrow> 'a list \<times> 's" where
  "fifo_run put get [] s = ([], s)"
| "fifo_run put get (x # xs) s =
     (case x of Put a \<Rightarrow> fifo_run put get xs (put a s)
      | Get \<Rightarrow> (let (r, s) = get s; (out, s) = fifo_run put get xs s
                in ((case r of None \<Rightarrow> out | Some a \<Rightarrow> a # out), s)))"

definition queue_put :: "nat \<Rightarrow> 'a \<Rightarrow> 'a list \<Rightarrow> 'a list" where
  "queue_put room a q = (if length q < room then q @ [a] else q)"

definition queue_get :: "'a list \<Rightarrow> 'a option \<times> 'a list" where
  "queue_get q = (case q of [] \<Rightarrow> (None, []) | a # q \<Rightarrow> (Some a, q))"

locale bounded_fifo =
  fixes ok :: "'s \<Rightarrow> bool" and entries :: "'s \<Rightarrow> 'a list" and put :: "'a \<Rightarrow> 's \<Rightarrow> 's"
    and get :: "'s \<Rightarrow> 'a option \<times> 's" and room :: nat
  assumes put_ok: "ok s \<Longrightarrow> ok (put a s)"
    and put_entries: "ok s \<Longrightarrow> entries (put a s) = queue_put room a (entries s)"
    and get_ok: "ok s \<Longrightarrow> ok (snd (get s))"
    and get_entries: "ok s \<Longrightarrow> (fst (get s), entries (snd (get s))) = queue_get (entries s)"
begin

lemma run_refines:
  "ok s \<Longrightarrow> fifo_run put get xs s = (out, s') \<Longrightarrow>
    ok s' \<and> fifo_run (queue_put room) queue_get xs (entries s) = (out, entries s')"
proof (induction xs arbitrary: s out)
  case (Cons x xs)
  show ?case
  proof (cases x)
    case (Put a)
    then show ?thesis using Cons.IH [OF put_ok [OF Cons.prems(1)]] Cons.prems
      by (simp add: put_entries)
  next
    case Get
    obtain r t where g: "get s = (r, t)" by fastforce
    obtain o2 u where f: "fifo_run put get xs t = (o2, u)" by fastforce
    have q: "queue_get (entries s) = (r, entries t)" using get_entries [OF Cons.prems(1)] g by simp
    have "ok t" using get_ok [OF Cons.prems(1)] g by simp
    then show ?thesis using Cons.IH [of t o2] Cons.prems(2) Get g f q by (auto split: option.splits)
  qed
qed simp

lemma fills:
  "ok s \<Longrightarrow> length (entries s) + length as \<le> room \<Longrightarrow> ok (fold put as s) \<and> entries (fold put as s) = entries s @ as"
proof (induction as arbitrary: s)
  case (Cons a as)
  then show ?case using Cons.IH [OF put_ok [OF Cons.prems(1)]] by (simp add: put_entries queue_put_def)
qed simp

end

section \<open>Ring buffers\<close>

definition ring_len :: "nat \<Rightarrow> nat \<Rightarrow> nat \<Rightarrow> nat" where
  "ring_len n h t = (if t \<le> h then h - t else h + n - t)"

definition ring_at :: "nat \<Rightarrow> nat \<Rightarrow> nat \<Rightarrow> nat" where
  "ring_at n t i = (if t + i < n then t + i else t + i - n)"

definition ring :: "'a list \<Rightarrow> nat \<Rightarrow> nat \<Rightarrow> 'a list" where
  "ring xs h t = map (\<lambda>i. xs ! ring_at (length xs) t i) [0 ..< ring_len (length xs) h t]"

lemma ring_next: "h < n \<Longrightarrow> (h + 1) mod n = (if h + 1 = n then 0 else h + 1)" for n :: nat
  by simp

lemma length_ring [simp]: "length (ring xs h t) = ring_len (length xs) h t"
  by (simp add: ring_def)

lemma ring_empty_iff: "h < length xs \<Longrightarrow> t < length xs \<Longrightarrow> ring xs h t = [] \<longleftrightarrow> h = t"
  by (auto simp: ring_def ring_len_def split: if_splits)

lemma ring_put:
  assumes h: "h < length xs" and t: "t < length xs" and nf: "(h + 1) mod length xs \<noteq> t"
  shows "ring (xs[h := a]) ((h + 1) mod length xs) t = ring xs h t @ [a]"
proof -
  let ?n = "length xs" and ?d = "ring_len (length xs) h t"
  have e: "ring_len ?n ((h + 1) mod ?n) t = Suc ?d" and d: "ring_at ?n t ?d = h"
    using h t nf unfolding ring_next [OF h] by (auto simp: ring_len_def ring_at_def split: if_splits)
  have "h \<noteq> ring_at ?n t i" if "i < ?d" for i
    using that h t by (auto simp: ring_len_def ring_at_def split: if_splits)
  then have "map (\<lambda>i. xs[h := a] ! ring_at ?n t i) [0 ..< ?d] = ring xs h t"
    unfolding ring_def by (intro map_cong) simp_all
  then show ?thesis using h unfolding ring_def length_list_update e by (simp add: d)
qed

lemma ring_full_iff:
  assumes "h < length xs" and "t < length xs"
  shows "(h + 1) mod length xs = t \<longleftrightarrow> \<not> ring_len (length xs) h t < length xs - 1"
  using assms unfolding ring_next [OF assms(1)] by (auto simp: ring_len_def split: if_splits)

lemma ring_get:
  assumes h: "h < length xs" and t: "t < length xs" and ne: "h \<noteq> t"
  shows "ring xs h t = xs ! t # ring xs h ((t + 1) mod length xs)"
proof -
  let ?n = "length xs"
  define k where "k = ring_len ?n h ((t + 1) mod ?n)"
  have d: "ring_len ?n h t = Suc k"
    using h t ne unfolding k_def ring_next [OF t] by (auto simp: ring_len_def split: if_splits)
  have "ring_at ?n t (Suc i) = ring_at ?n ((t + 1) mod ?n) i" if "i < k" for i
    using that h t unfolding k_def ring_next [OF t] by (auto simp: ring_len_def ring_at_def split: if_splits)
  then have "map (\<lambda>i. xs ! ring_at ?n t i) [Suc 0 ..< Suc k] = ring xs h ((t + 1) mod ?n)"
    unfolding ring_def k_def [symmetric] map_Suc_upt [symmetric] map_map by (intro map_cong) simp_all
  then show ?thesis using t unfolding ring_def d by (simp add: upt_conv_Cons ring_at_def del: upt_Suc)
qed

section \<open>The two queues\<close>

definition input_ok :: "'a input_state_scheme \<Rightarrow> bool" where
  "input_ok s \<longleftrightarrow> length (events s) = 256 \<and> in_head s < INPUT_CAPACITY \<and> in_tail s < INPUT_CAPACITY"

definition input_queue :: "'a input_state_scheme \<Rightarrow> genos_input_event list" where
  "input_queue s = ring (events s) (unat (in_head s)) (unat (in_tail s))"

text \<open>The consumer's two calls: look at the first event, then take it.\<close>

definition input_take :: "'a input_state_scheme \<Rightarrow> genos_input_event option \<times> 'a input_state_scheme" where
  "input_take s = (input_peek s, input_consume s)"

definition keys_ok :: "'a kbd_state_scheme \<Rightarrow> bool" where
  "keys_ok s \<longleftrightarrow> length (key_buffer s) = 256 \<and> buffer_head s \<in> {0 ..< BUFFER_SIZE} \<and> buffer_tail s \<in> {0 ..< BUFFER_SIZE}"

definition key_queue :: "'a kbd_state_scheme \<Rightarrow> u8 list" where
  "key_queue s = ring (key_buffer s) (nat (buffer_head s)) (nat (buffer_tail s))"

definition key_take :: "'a kbd_state_scheme \<Rightarrow> u8 option \<times> 'a kbd_state_scheme" where
  "key_take s = (if buffer_head s = buffer_tail s then None else Some (fst (keyboard_get_char s)), snd (keyboard_get_char s))"

lemma unat_next: "h < INPUT_CAPACITY \<Longrightarrow> unat ((h + 1) mod INPUT_CAPACITY) = (unat h + 1) mod 256 \<and> (h + 1) mod INPUT_CAPACITY < INPUT_CAPACITY"
  by (simp add: word_less_nat_alt unat_mod unat_word_ariths)

interpretation evq: bounded_fifo input_ok input_queue input_push input_take 255
proof
  fix s :: "'b input_state_scheme" and e
  assume ok: "input_ok s"
  have len: "length (events s) = 256" "unat (in_head s) < 256" "unat (in_tail s) < 256"
    and lt: "in_head s < INPUT_CAPACITY" "in_tail s < INPUT_CAPACITY"
    using ok by (auto simp: input_ok_def word_less_nat_alt)
  have full: "(in_head s + 1) mod INPUT_CAPACITY = in_tail s \<longleftrightarrow> (unat (in_head s) + 1) mod 256 = unat (in_tail s)"
    using unat_next [OF lt(1)] by (metis word_unat_eq_iff)
  show "input_ok (input_push e s)"
    using ok unat_next [OF lt(1)] by (simp add: input_ok_def input_push_def Let_def)
  show "input_queue (input_push e s) = queue_put 255 e (input_queue s)"
    using len ring_put [of "unat (in_head s)" "events s" "unat (in_tail s)" e] unat_next [OF lt(1)] full
      ring_full_iff [of "unat (in_head s)" "events s" "unat (in_tail s)"]
    by (auto simp: input_queue_def input_push_def Let_def queue_put_def)
  have emp: "in_tail s = in_head s \<longleftrightarrow> input_queue s = []"
    using ring_empty_iff [of "unat (in_head s)" "events s" "unat (in_tail s)"] len
    by (auto simp: input_queue_def word_unat_eq_iff)
  show "input_ok (snd (input_take s))"
    using ok unat_next [OF lt(2)] by (simp add: input_ok_def input_take_def input_consume_def)
  show "(fst (input_take s), input_queue (snd (input_take s))) = queue_get (input_queue s)"
    using len ring_get [of "unat (in_head s)" "events s" "unat (in_tail s)"] unat_next [OF lt(2)] emp
    by (cases "in_tail s = in_head s")
      (auto simp: input_queue_def input_take_def input_consume_def input_peek_def queue_get_def word_unat_eq_iff)
qed

lemma nat_next: "h \<in> {0 ..< BUFFER_SIZE} \<Longrightarrow> nat ((h + 1) mod BUFFER_SIZE) = (nat h + 1) mod 256"
  by (simp add: nat_mod_distrib nat_add_distrib)

interpretation keyq: bounded_fifo keys_ok key_queue buffer_push key_take 255
proof
  fix s :: "'b kbd_state_scheme" and e
  assume ok: "keys_ok s"
  have len: "length (key_buffer s) = 256" "nat (buffer_head s) < 256" "nat (buffer_tail s) < 256"
    and lt: "buffer_head s \<in> {0 ..< BUFFER_SIZE}" "buffer_tail s \<in> {0 ..< BUFFER_SIZE}"
    using ok by (auto simp: keys_ok_def)
  have full: "(buffer_head s + 1) mod BUFFER_SIZE = buffer_tail s \<longleftrightarrow> (nat (buffer_head s) + 1) mod 256 = nat (buffer_tail s)"
    using nat_next [OF lt(1)] lt(2) by (simp add: nat_eq_iff2) (smt (verit) atLeastLessThan_iff int_nat_eq nat_next pos_mod_sign)
  show "keys_ok (buffer_push e s)"
    using ok by (simp add: keys_ok_def buffer_push_def Let_def)
  show "key_queue (buffer_push e s) = queue_put 255 e (key_queue s)"
    using len ring_put [of "nat (buffer_head s)" "key_buffer s" "nat (buffer_tail s)" e] nat_next [OF lt(1)] full
      ring_full_iff [of "nat (buffer_head s)" "key_buffer s" "nat (buffer_tail s)"]
    by (auto simp: key_queue_def buffer_push_def Let_def queue_put_def)
  have emp: "buffer_head s = buffer_tail s \<longleftrightarrow> key_queue s = []"
    using ring_empty_iff [of "nat (buffer_head s)" "key_buffer s" "nat (buffer_tail s)"] len lt
    by (auto simp: key_queue_def nat_eq_iff)
  show "keys_ok (snd (key_take s))" using ok by (simp add: keys_ok_def key_take_def keyboard_get_char_def)
  show "(fst (key_take s), key_queue (snd (key_take s))) = queue_get (key_queue s)"
    using len ring_get [of "nat (buffer_head s)" "key_buffer s" "nat (buffer_tail s)"] nat_next [OF lt(2)] emp lt
    by (cases "buffer_head s = buffer_tail s")
      (auto simp: key_queue_def key_take_def keyboard_get_char_def queue_get_def)
qed

text \<open>How many entries the queue refuses in a run.\<close>

primrec fifo_lost :: "nat \<Rightarrow> 'a fifo_op list \<Rightarrow> 'a list \<Rightarrow> nat" where
  "fifo_lost room [] q = 0"
| "fifo_lost room (x # xs) q =
     (case x of Put a \<Rightarrow> (if length q < room then 0 else 1) + fifo_lost room xs (queue_put room a q)
      | Get \<Rightarrow> fifo_lost room xs (snd (queue_get q)))"

lemma push_dropped:
  assumes "input_ok s"
  shows "dropped (input_push e s) = (if length (input_queue s) < 255 then dropped s else dropped s + 1)"
proof -
  have len: "length (events s) = 256" "unat (in_head s) < 256" "unat (in_tail s) < 256" "in_head s < INPUT_CAPACITY"
    using assms by (auto simp: input_ok_def word_less_nat_alt)
  then show ?thesis using ring_full_iff [of "unat (in_head s)" "events s" "unat (in_tail s)"] unat_next [OF len(4)]
    by (auto simp: input_push_def Let_def input_queue_def word_unat_eq_iff)
qed

lemma run_dropped:
  "input_ok s \<Longrightarrow> fifo_run input_push input_take xs s = (out, s') \<Longrightarrow>
    dropped s' = dropped s + of_nat (fifo_lost 255 xs (input_queue s))"
proof (induction xs arbitrary: s out)
  case (Cons x xs)
  show ?case
  proof (cases x)
    case (Put e)
    then show ?thesis using Cons.IH [OF evq.put_ok [OF Cons.prems(1)]] Cons.prems
      by (simp add: evq.put_entries push_dropped)
  next
    case Get
    obtain r t where t: "input_take s = (r, t)" by fastforce
    then obtain o2 where "fifo_run input_push input_take xs t = (o2, s')"
      using Cons.prems(2) Get by (auto simp: Let_def split: prod.splits)
    moreover have "input_ok t" "dropped t = dropped s" "snd (queue_get (input_queue s)) = input_queue t"
      using evq.get_ok [OF Cons.prems(1)] evq.get_entries [OF Cons.prems(1)] t
      by (auto simp: input_take_def input_consume_def dest: arg_cong [of _ _ snd])
    ultimately show ?thesis using Cons.IH [of t o2] Get by simp
  qed
qed simp


end
