(* ===== verification/Ps2Props.thy ===== *)
theory Ps2Props
  imports InputProps
begin

text \<open>
  Decoding: the bytes of key strokes and mouse movements, mixed in any way on the controller, come out
  of the interrupt handler as the events and characters that were entered.
\<close>

section \<open>The decoders without their queues\<close>

record key_decoder =
  kd_extended :: bool
  kd_pause :: u32
  kd_shift :: bool
  kd_caps :: bool

definition plain_step :: "u8 \<Rightarrow> key_decoder \<Rightarrow> u8 list \<times> key_decoder" where
  "plain_step b d =
     (if b AND 0x80 \<noteq> 0 then ([], if b AND 0x7F \<in> {0x2A, 0x36} then d\<lparr>kd_shift := False\<rparr> else d)
      else if b = 0x2A \<or> b = 0x36 then ([], d\<lparr>kd_shift := True\<rparr>)
      else if b = 0x3A then ([], d\<lparr>kd_caps := \<not> kd_caps d\<rparr>)
      else (if unat b < length scancode_to_ascii_base \<and> translate_key (kd_shift d) (kd_caps d) b \<noteq> 0
            then [translate_key (kd_shift d) (kd_caps d) b] else [], d))"

definition key_step :: "u8 \<Rightarrow> key_decoder \<Rightarrow> genos_input_event list \<times> u8 list \<times> key_decoder" where
  "key_step b d =
     (if kd_pause d \<noteq> 0 then ([], [], d\<lparr>kd_pause := kd_pause d - 1\<rparr>)
      else if b = 0xe1 then ([], [], d\<lparr>kd_pause := 5, kd_extended := False\<rparr>)
      else if b = 0xE0 then ([], [], d\<lparr>kd_extended := True\<rparr>)
      else if kd_extended d
      then ([key_event True b],
            if b AND 0x80 \<noteq> 0 then [] else (case extended_char b of Some c \<Rightarrow> [c] | None \<Rightarrow> []),
            d\<lparr>kd_extended := False\<rparr>)
      else ([key_event False b], plain_step b d))"

definition mouse_step :: "u8 \<Rightarrow> u8 list \<Rightarrow> genos_input_event list \<times> u8 list" where
  "mouse_step b p =
     (if p = [] \<and> b AND 8 = 0 then ([], [])
      else if length p < 2 then ([], p @ [b])
      else (if p ! 0 AND 0xc0 \<noteq> 0 then [] else [packet_event (p @ [b])], []))"

definition key_state :: "'a kbd_state_scheme \<Rightarrow> key_decoder" where
  "key_state s = \<lparr>kd_extended = extended_key s, kd_pause = pause_bytes s, kd_shift = shift_pressed s,
     kd_caps = caps_lock_active s\<rparr>"

definition packet_state :: "'a ps2_state_scheme \<Rightarrow> u8 list" where
  "packet_state s = take (unat (packet_used s)) (packet s)"

text \<open>\<open>entered s es cs s'\<close>: between \<open>s\<close> and \<open>s'\<close> exactly these events and characters were queued.\<close>

definition entered :: "ps2_state \<Rightarrow> genos_input_event list \<Rightarrow> u8 list \<Rightarrow> ps2_state \<Rightarrow> bool" where
  "entered s es cs s' \<longleftrightarrow> input_ok s' \<and> keys_ok s' \<and> length (packet s') = 3 \<and> unat (packet_used s') < 3 \<and>
     input_queue s' = fold (queue_put 255) es (input_queue s) \<and>
     key_queue s' = fold (queue_put 255) cs (key_queue s)"

definition ps2_ok :: "ps2_state \<Rightarrow> bool" where
  "ps2_ok s \<longleftrightarrow> input_ok s \<and> keys_ok s \<and> length (packet s) = 3 \<and> unat (packet_used s) < 3"

lemma entered_ok: "entered s es cs s' \<Longrightarrow> ps2_ok s'"
  by (simp add: entered_def ps2_ok_def)

lemma entered_refl: "ps2_ok s \<Longrightarrow> entered s [] [] s"
  by (simp add: entered_def ps2_ok_def)

lemma entered_trans: "entered s es cs t \<Longrightarrow> entered t es' cs' u \<Longrightarrow> entered s (es @ es') (cs @ cs') u"
  by (simp add: entered_def)

lemma input_push_other [simp]:
  "key_queue (input_push e s) = key_queue s" "keys_ok (input_push e s) = keys_ok s" "key_state (input_push e s) = key_state s"
  "extended_key (input_push e s) = extended_key s" "shift_pressed (input_push e s) = shift_pressed s"
  "caps_lock_active (input_push e s) = caps_lock_active s" "pause_bytes (input_push e s) = pause_bytes s"
  for s :: "'a kbd_state_scheme"
  by (simp_all add: input_push_def Let_def key_queue_def keys_ok_def key_state_def)

lemma input_push_mouse [simp]:
  "packet (input_push e s) = packet s" "packet_used (input_push e s) = packet_used s"
  "mouse_present (input_push e s) = mouse_present s" for s :: "'a ps2_state_scheme"
  by (simp_all add: input_push_def Let_def)

lemma buffer_push_other [simp]:
  "input_queue (buffer_push c s) = input_queue s" "input_ok (buffer_push c s) = input_ok s"
  "key_state (buffer_push c s) = key_state s" for s :: "'a kbd_state_scheme"
  by (simp_all add: buffer_push_def Let_def input_queue_def input_ok_def key_state_def)

lemma buffer_push_mouse [simp]:
  "packet (buffer_push c s) = packet s" "packet_used (buffer_push c s) = packet_used s"
  "mouse_present (buffer_push c s) = mouse_present s" for s :: "'a ps2_state_scheme"
  by (simp_all add: buffer_push_def Let_def)

lemma push_event: "ps2_ok s \<Longrightarrow> entered s [e] [] (input_push e s)"
  by (simp add: entered_def ps2_ok_def evq.put_ok evq.put_entries)

lemma push_char: "ps2_ok s \<Longrightarrow> entered s [] [c] (buffer_push c s)"
  by (simp add: entered_def ps2_ok_def keyq.put_ok keyq.put_entries)

lemma flags_only:
  "ps2_ok s \<Longrightarrow> entered s [] [] (s\<lparr>shift_pressed := a\<rparr>)" "ps2_ok s \<Longrightarrow> entered s [] [] (s\<lparr>caps_lock_active := a\<rparr>)"
  "ps2_ok s \<Longrightarrow> entered s [] [] (s\<lparr>extended_key := a\<rparr>)" "ps2_ok s \<Longrightarrow> entered s [] [] (s\<lparr>pause_bytes := n\<rparr>)"
  "ps2_ok s \<Longrightarrow> entered s [] [] (s\<lparr>pause_bytes := n, extended_key := a\<rparr>)"
  by (simp_all add: entered_def ps2_ok_def input_ok_def keys_ok_def input_queue_def key_queue_def)

lemma plain_key_step:
  assumes "ps2_ok s" and "plain_step b (key_state s) = (cs, d)"
  shows "entered s [] cs (plain_key b s) \<and> key_state (plain_key b s) = d \<and>
    packet_state (plain_key b s) = packet_state s \<and> mouse_present (plain_key b s) = mouse_present s"
  using assms flags_only [OF assms(1)] push_char [OF assms(1)] entered_refl [OF assms(1)]
  by (auto simp: plain_key_def plain_step_def Let_def packet_state_def) (auto simp: key_state_def)

lemma keyboard_step:
  assumes s: "ps2_ok s" and st: "key_step b (key_state s) = (es, cs, d)"
  shows "entered s es cs (keyboard_handler b s) \<and> key_state (keyboard_handler b s) = d \<and>
    packet_state (keyboard_handler b s) = packet_state s \<and> mouse_present (keyboard_handler b s) = mouse_present s"
proof -
  have k: "kd_pause (key_state s) = pause_bytes s" "kd_extended (key_state s) = extended_key s"
    by (simp_all add: key_state_def)
  define t where "t = input_push (key_event (extended_key s) b) s"
  have t: "entered s [key_event (extended_key s) b] [] t" "key_state t = key_state s" "extended_key t = extended_key s"
    "packet_state t = packet_state s" "mouse_present t = mouse_present s"
    using push_event [OF s] by (simp_all add: t_def packet_state_def)
  define u where "u = t\<lparr>extended_key := False\<rparr>"
  have u: "entered s [key_event (extended_key s) b] [] u" "key_state u = (key_state s)\<lparr>kd_extended := False\<rparr>"
    "packet_state u = packet_state s" "mouse_present u = mouse_present s"
    using entered_trans [OF t(1) flags_only(3) [OF entered_ok [OF t(1)]], of False] t
    by (simp_all add: u_def key_state_def packet_state_def)
  note uc = entered_trans [OF u(1) push_char [OF entered_ok [OF u(1)]]]
  consider (pause) "pause_bytes s \<noteq> 0" | (e1) "pause_bytes s = 0" "b = 0xe1" | (e0) "pause_bytes s = 0" "b = 0xe0"
    | (extended) "pause_bytes s = 0" "b \<noteq> 0xe1" "b \<noteq> 0xe0" "extended_key s"
    | (plain) "pause_bytes s = 0" "b \<noteq> 0xe1" "b \<noteq> 0xe0" "\<not> extended_key s" by blast
  then show ?thesis
  proof cases
    case extended
    then have h: "keyboard_handler b s = (if b AND 0x80 \<noteq> 0 then u
        else (case extended_char b of Some c \<Rightarrow> buffer_push c u | None \<Rightarrow> u))"
      by (simp add: keyboard_handler_def Let_def t_def u_def split: option.split)
    have d: "es = [key_event True b]" "d = (key_state s)\<lparr>kd_extended := False\<rparr>"
      "cs = (if b AND 0x80 \<noteq> 0 then [] else (case extended_char b of Some c \<Rightarrow> [c] | None \<Rightarrow> []))"
      using st extended k by (simp_all add: key_step_def)
    show ?thesis unfolding h d using u uc extended
      by (cases "b AND 0x80 = 0"; cases "extended_char b") (simp_all add: packet_state_def)
  next
    case plain
    then have h: "keyboard_handler b s = plain_key b t" by (simp add: keyboard_handler_def Let_def t_def t(3))
    have d: "es = [key_event False b]" "plain_step b (key_state t) = (cs, d)"
      using st plain k t(2) by (simp_all add: key_step_def)
    show ?thesis unfolding h using plain_key_step [OF entered_ok [OF t(1)] d(2)] t entered_trans [OF t(1)] plain d(1)
      by fastforce
  qed (use st k flags_only [OF s] in \<open>simp_all add: key_step_def keyboard_handler_def packet_state_def, simp_all add: key_state_def\<close>)
qed

lemma mouse_byte_step:
  assumes s: "ps2_ok s" and st: "mouse_step b (packet_state s) = (es, p)"
  shows "entered s es [] (ps2_mouse_byte b s) \<and> key_state (ps2_mouse_byte b s) = key_state s \<and>
    packet_state (ps2_mouse_byte b s) = p \<and> mouse_present (ps2_mouse_byte b s) = mouse_present s"
proof -
  obtain p0 p1 p2 where p: "packet s = [p0, p1, p2]"
    using s by (auto simp: ps2_ok_def numeral_3_eq_3 length_Suc_conv)
  have "unat (packet_used s) = 0 \<or> unat (packet_used s) = 1 \<or> unat (packet_used s) = 2"
    using s unfolding ps2_ok_def by linarith
  then consider "packet_used s = 0" | "packet_used s = 1" | "packet_used s = 2"
    by (auto simp: word_unat_eq_iff)
  then show ?thesis
  proof cases
    case 3
    define t where "t = s\<lparr>packet := [p0, p1, b], packet_used := 0\<rparr>"
    have t: "ps2_ok t" "input_queue t = input_queue s" "key_queue t = key_queue s"
      using s by (simp_all add: t_def ps2_ok_def input_ok_def keys_ok_def input_queue_def key_queue_def)
    have h: "ps2_mouse_byte b s = (if p0 AND 0xc0 \<noteq> 0 then t else input_push (packet_event [p0, p1, b]) t)"
      using 3 p by (simp add: ps2_mouse_byte_def Let_def t_def)
    show ?thesis unfolding h using st 3 p t push_event [OF t(1), of "packet_event [p0, p1, b]"] entered_refl [OF t(1)]
      by (auto simp: mouse_step_def packet_state_def entered_def) (auto simp: t_def key_state_def)
  qed (use s st p in \<open>auto simp: ps2_mouse_byte_def mouse_step_def packet_state_def Let_def entered_def ps2_ok_def
      input_ok_def keys_ok_def input_queue_def key_queue_def key_state_def split: if_splits\<close>)
qed

section \<open>Bytes from both ports\<close>

text \<open>A byte with its status: bit 5 tells the port. Bits 6 and 7 report errors.\<close>

definition port_step :: "u8 \<times> u8 \<Rightarrow> key_decoder \<times> u8 list \<Rightarrow> genos_input_event list \<times> u8 list \<times> key_decoder \<times> u8 list" where
  "port_step sb kp =
     (if fst sb AND 0x20 \<noteq> 0
      then let (es, p) = mouse_step (snd sb) (snd kp) in (es, [], fst kp, p)
      else let (es, cs, k) = key_step (snd sb) (fst kp) in (es, cs, k, snd kp))"

primrec port_decode :: "(u8 \<times> u8) list \<Rightarrow> key_decoder \<times> u8 list \<Rightarrow> genos_input_event list \<times> u8 list \<times> key_decoder \<times> u8 list" where
  "port_decode [] kp = ([], [], kp)"
| "port_decode (sb # bs) kp =
     (let (es, cs, kp) = port_step sb kp; (es', cs', kp) = port_decode bs kp in (es @ es', cs @ cs', kp))"

lemma receive_step:
  assumes "ps2_ok s" and "mouse_present s" and "st AND 0xc0 = 0"
    and "port_step (st, b) (key_state s, packet_state s) = (es, cs, kp)"
  shows "entered s es cs (ps2_receive st b s) \<and> (key_state (ps2_receive st b s), packet_state (ps2_receive st b s)) = kp \<and>
    mouse_present (ps2_receive st b s)"
  using assms mouse_byte_step [OF assms(1), of b] keyboard_step [OF assms(1), of b]
  by (auto simp: port_step_def ps2_receive_def split: prod.splits if_splits)

lemma receive_all:
  "ps2_ok s \<Longrightarrow> mouse_present s \<Longrightarrow> (\<forall>sb \<in> set bs. fst sb AND 0xc0 = 0) \<Longrightarrow>
    port_decode bs (key_state s, packet_state s) = (es, cs, kp) \<Longrightarrow>
    entered s es cs (fold (\<lambda>(st, b). ps2_receive st b) bs s) \<and>
    (key_state (fold (\<lambda>(st, b). ps2_receive st b) bs s), packet_state (fold (\<lambda>(st, b). ps2_receive st b) bs s)) = kp"
proof (induction bs arbitrary: s es cs kp)
  case Nil
  then show ?case by (simp add: entered_refl)
next
  case (Cons sb bs)
  obtain st b where sb: "sb = (st, b)" by fastforce
  obtain es1 cs1 kp1 where p1: "port_step sb (key_state s, packet_state s) = (es1, cs1, kp1)" by (metis prod.exhaust)
  obtain es2 cs2 kp2 where p2: "port_decode bs kp1 = (es2, cs2, kp2)" by (metis prod.exhaust)
  have r: "es = es1 @ es2" "cs = cs1 @ cs2" "kp = kp2" using Cons.prems(4) p1 p2 by auto
  note step = receive_step [OF Cons.prems(1,2), of st b, OF _ p1 [unfolded sb]]
  have e1: "entered s es1 cs1 (ps2_receive st b s)" "(key_state (ps2_receive st b s), packet_state (ps2_receive st b s)) = kp1"
    "mouse_present (ps2_receive st b s)"
    using step Cons.prems(3) sb by auto
  have "port_decode bs (key_state (ps2_receive st b s), packet_state (ps2_receive st b s)) = (es2, cs2, kp2)"
    using p2 e1(2) by simp
  from Cons.IH [OF entered_ok [OF e1(1)] e1(3) _ this] Cons.prems(3) e1(1)
  show ?case by (auto simp: sb r intro: entered_trans)
qed

section \<open>The two streams\<close>

abbreviation from_mouse :: "u8 \<times> u8 \<Rightarrow> bool" where
  "from_mouse sb \<equiv> fst sb AND 0x20 \<noteq> 0"

primrec key_decode :: "u8 list \<Rightarrow> key_decoder \<Rightarrow> genos_input_event list \<times> u8 list \<times> key_decoder" where
  "key_decode [] d = ([], [], d)"
| "key_decode (b # bs) d =
     (let (es, cs, d) = key_step b d; (es', cs', d) = key_decode bs d in (es @ es', cs @ cs', d))"

primrec mouse_decode :: "u8 list \<Rightarrow> u8 list \<Rightarrow> genos_input_event list \<times> u8 list" where
  "mouse_decode [] p = ([], p)"
| "mouse_decode (b # bs) p =
     (let (es, p) = mouse_step b p; (es', p) = mouse_decode bs p in (es @ es', p))"

lemma key_step_type: "key_step b d = (es, cs, d') \<Longrightarrow> \<forall>e \<in> set es. ev_type e = GENOS_INPUT_KEY"
  by (auto simp: key_step_def key_event_def split: if_splits)

lemma mouse_step_type: "mouse_step b p = (es, p') \<Longrightarrow> \<forall>e \<in> set es. ev_type e = GENOS_INPUT_MOUSE"
  by (auto simp: mouse_step_def packet_event_def Let_def split: if_splits)

lemma filter_split: "\<forall>e \<in> set es. ev_type e = t \<Longrightarrow> [e \<leftarrow> es. ev_type e = u] = (if t = u then es else [])"
  by (auto simp: filter_id_conv filter_empty_conv)

lemma decode_split:
  "port_decode bs (k, p) = (es, cs, k', p') \<Longrightarrow>
    key_decode (map snd [sb \<leftarrow> bs. \<not> from_mouse sb]) k = ([e \<leftarrow> es. ev_type e = GENOS_INPUT_KEY], cs, k') \<and>
    mouse_decode (map snd [sb \<leftarrow> bs. from_mouse sb]) p = ([e \<leftarrow> es. ev_type e = GENOS_INPUT_MOUSE], p')"
proof (induction bs arbitrary: k p es cs)
  case (Cons sb bs)
  obtain es1 cs1 k1 p1 where s1: "port_step sb (k, p) = (es1, cs1, k1, p1)" by (metis prod.exhaust)
  obtain es2 cs2 kp2 where s2: "port_decode bs (k1, p1) = (es2, cs2, kp2)" by (metis prod.exhaust)
  have r: "es = es1 @ es2" "cs = cs1 @ cs2" "kp2 = (k', p')" using Cons.prems s1 s2 by auto
  note ih = Cons.IH [OF s2 [unfolded r(3)]]
  show ?case
  proof (cases "from_mouse sb")
    case True
    then have m: "mouse_step (snd sb) p = (es1, p1)" "cs1 = []" "k1 = k"
      using s1 by (auto simp: port_step_def split: prod.splits)
    show ?thesis using ih m filter_split [OF mouse_step_type [OF m(1)]] True by (simp add: r)
  next
    case False
    then have m: "key_step (snd sb) k = (es1, cs1, k1)" "p1 = p"
      using s1 by (auto simp: port_step_def split: prod.splits)
    show ?thesis using ih m filter_split [OF key_step_type [OF m(1)]] False by (simp add: r)
  qed
qed simp

lemma decode_types:
  "port_decode bs kp = (es, cs, kp') \<Longrightarrow> \<forall>e \<in> set es. ev_type e = GENOS_INPUT_KEY \<or> ev_type e = GENOS_INPUT_MOUSE"
proof (induction bs arbitrary: kp es cs)
  case (Cons sb bs)
  obtain es1 cs1 kp1 where s1: "port_step sb kp = (es1, cs1, kp1)" by (metis prod.exhaust)
  obtain es2 cs2 where s2: "port_decode bs kp1 = (es2, cs2, kp')" "es = es1 @ es2"
    using Cons.prems s1 by (auto split: prod.splits)
  have "\<forall>e \<in> set es1. ev_type e = GENOS_INPUT_KEY \<or> ev_type e = GENOS_INPUT_MOUSE"
    using s1 key_step_type mouse_step_type by (fastforce simp: port_step_def split: if_splits prod.splits)
  then show ?case using Cons.IH [OF s2(1)] s2(2) by auto
qed simp

lemma key_decode_append:
  "key_decode (as @ bs) d = (let (es, cs, d) = key_decode as d; (es', cs', d) = key_decode bs d in (es @ es', cs @ cs', d))"
  by (induction as arbitrary: d) (simp_all add: Let_def split_def)

lemma mouse_decode_append:
  "mouse_decode (as @ bs) p = (let (es, p) = mouse_decode as p; (es', p) = mouse_decode bs p in (es @ es', p))"
  by (induction as arbitrary: p) (simp_all add: Let_def split_def)

section \<open>Key strokes\<close>

datatype stroke = Stroke u8 bool | Extended u8 bool | Pause

definition stroke_valid :: "stroke \<Rightarrow> bool" where
  "stroke_valid k = (case k of Stroke c p \<Rightarrow> c < 0x80 \<and> c \<noteq> 0x60 \<and> c \<noteq> 0x61
     | Extended c p \<Rightarrow> c < 0x80 \<and> c \<noteq> 0x60 \<and> c \<noteq> 0x61 | Pause \<Rightarrow> True)"

text \<open>What the keyboard sends in scan code set 1.\<close>

definition stroke_bytes :: "stroke \<Rightarrow> u8 list" where
  "stroke_bytes k = (case k of Stroke c p \<Rightarrow> [if p then c else c OR 0x80]
     | Extended c p \<Rightarrow> [0xE0, if p then c else c OR 0x80]
     | Pause \<Rightarrow> [0xe1, 0x1d, 0x45, 0xe1, 0x9d, 0xc5])"

definition stroke_events :: "stroke \<Rightarrow> genos_input_event list" where
  "stroke_events k =
     (let event = \<lambda>code p. \<lparr>ev_type = GENOS_INPUT_KEY, ev_code = code, ev_value = (if p then 1 else 0),
            ev_dx = 0, ev_dy = 0, ev_reserved = 0\<rparr>
      in case k of Stroke c p \<Rightarrow> [event (ucast c) p] | Extended c p \<Rightarrow> [event (ucast c OR 0x100) p] | Pause \<Rightarrow> [])"

definition is_shift :: "stroke \<Rightarrow> bool" where
  "is_shift k \<longleftrightarrow> (case k of Stroke c p \<Rightarrow> c = 0x2A \<or> c = 0x36 | _ \<Rightarrow> False)"

definition pressed :: "stroke \<Rightarrow> bool" where
  "pressed k \<longleftrightarrow> (case k of Stroke c p \<Rightarrow> p | Extended c p \<Rightarrow> p | Pause \<Rightarrow> True)"

text \<open>Shift is what the last shift key did; caps lock is toggled by each press of its key.\<close>

definition shift_held :: "bool \<Rightarrow> stroke list \<Rightarrow> bool" where
  "shift_held s0 ks = (case rev [k \<leftarrow> ks. is_shift k] of [] \<Rightarrow> s0 | k # _ \<Rightarrow> pressed k)"

definition caps_on :: "bool \<Rightarrow> stroke list \<Rightarrow> bool" where
  "caps_on c0 ks \<longleftrightarrow> c0 \<noteq> odd (length [k \<leftarrow> ks. k = Stroke 0x3A True])"

definition typed_char :: "bool \<Rightarrow> bool \<Rightarrow> stroke \<Rightarrow> u8 list" where
  "typed_char shift caps k = (case k of
     Stroke c True \<Rightarrow> if c \<in> {0x2A, 0x36, 0x3A} \<or> unat c \<ge> 58 then [] else [x \<leftarrow> [translate_key shift caps c]. x \<noteq> 0]
   | Extended c True \<Rightarrow> (case extended_char c of Some x \<Rightarrow> [x] | None \<Rightarrow> []) | _ \<Rightarrow> [])"

definition typed :: "bool \<Rightarrow> bool \<Rightarrow> stroke list \<Rightarrow> u8 list" where
  "typed s0 c0 ks =
     concat (map (\<lambda>i. typed_char (shift_held s0 (take i ks)) (caps_on c0 (take i ks)) (ks ! i)) [0 ..< length ks])"

definition idle_keys :: "bool \<Rightarrow> bool \<Rightarrow> key_decoder" where
  "idle_keys shift caps = \<lparr>kd_extended = False, kd_pause = 0, kd_shift = shift, kd_caps = caps\<rparr>"

lemma low_bytes:
  "\<forall>n < 128. (word_of_nat n :: u8) AND 0x80 = 0 \<and> (word_of_nat n OR 0x80 :: u8) AND 0x80 \<noteq> 0 \<and>
    (word_of_nat n :: u8) AND 0x7f = word_of_nat n \<and> (word_of_nat n OR 0x80) AND (0x7f :: u8) = word_of_nat n \<and>
    (word_of_nat n OR (0x80 :: u8) = 0xE0 \<longleftrightarrow> word_of_nat n = (0x60 :: u8)) \<and>
    (word_of_nat n OR (0x80 :: u8) = 0xE1 \<longleftrightarrow> word_of_nat n = (0x61 :: u8)) \<and>
    (word_of_nat n :: u8) \<noteq> 0xE0 \<and> (word_of_nat n :: u8) \<noteq> 0xE1"
  by code_simp

lemma low_byte:
  assumes "c < (0x80 :: u8)"
  shows "c AND 0x80 = 0" "(c OR 0x80) AND 0x80 \<noteq> 0" "c AND 0x7f = c" "(c OR 0x80) AND 0x7f = c"
    "c OR 0x80 = 0xE0 \<longleftrightarrow> c = 0x60" "c OR 0x80 = 0xE1 \<longleftrightarrow> c = 0x61" "c \<noteq> 0xE0" "c \<noteq> 0xE1"
proof -
  have "unat c < 128" using assms by (simp add: word_less_nat_alt)
  note low_bytes [THEN spec [of _ "unat c"], THEN mp, OF this, unfolded of_nat_unat ucast_id]
  then show "c AND 0x80 = 0" "(c OR 0x80) AND 0x80 \<noteq> 0" "c AND 0x7f = c" "(c OR 0x80) AND 0x7f = c"
    "c OR 0x80 = 0xE0 \<longleftrightarrow> c = 0x60" "c OR 0x80 = 0xE1 \<longleftrightarrow> c = 0x61" "c \<noteq> 0xE0" "c \<noteq> 0xE1"
    by blast+
qed

lemma pause_decode: "key_decode (stroke_bytes Pause) (idle_keys a b) = ([], [], idle_keys a b)"
  by (simp add: stroke_bytes_def key_step_def idle_keys_def Let_def)

lemma stroke_decode:
  assumes "stroke_valid k"
  shows "key_decode (stroke_bytes k) (idle_keys sh cp) =
    (stroke_events k, typed_char sh cp k, idle_keys (if is_shift k then pressed k else sh) (cp \<noteq> (k = Stroke 0x3A True)))"
proof (cases k)
  case (Stroke c p)
  then have c: "c < 0x80" "c \<noteq> 0x60" "c \<noteq> 0x61" using assms by (auto simp: stroke_valid_def)
  note lb = low_byte [OF c(1)]
  have len: "length scancode_to_ascii_base = 58" by (simp add: scancode_to_ascii_base_def bytes_of_def)
  show ?thesis using lb c unfolding Stroke
    by (cases p) (auto simp: stroke_bytes_def key_step_def plain_step_def idle_keys_def key_event_def stroke_events_def
        typed_char_def is_shift_def pressed_def len Let_def)
next
  case (Extended c p)
  then have c: "c < 0x80" "c \<noteq> 0x60" "c \<noteq> 0x61" using assms by (auto simp: stroke_valid_def)
  note lb = low_byte [OF c(1)]
  show ?thesis using lb c unfolding Extended
    by (cases p) (auto simp: stroke_bytes_def key_step_def idle_keys_def key_event_def stroke_events_def
        typed_char_def is_shift_def pressed_def Let_def split: option.split)
next
  case Pause
  then show ?thesis by (simp add: pause_decode stroke_events_def typed_char_def is_shift_def)
qed

lemma shift_held_snoc: "shift_held s0 (ks @ [k]) = (if is_shift k then pressed k else shift_held s0 ks)"
  by (simp add: shift_held_def)

lemma caps_on_snoc: "caps_on c0 (ks @ [k]) = (caps_on c0 ks \<noteq> (k = Stroke 0x3A True))"
  by (auto simp: caps_on_def)

lemma typed_snoc: "typed s0 c0 (ks @ [k]) = typed s0 c0 ks @ typed_char (shift_held s0 ks) (caps_on c0 ks) k"
proof -
  define F where "F ks i = typed_char (shift_held s0 (take i ks)) (caps_on c0 (take i ks)) (ks ! i)" for ks i
  have "concat (map (F (ks @ [k])) [0 ..< length ks]) = concat (map (F ks) [0 ..< length ks])"
    by (intro arg_cong [of _ _ concat] map_cong) (simp_all add: F_def nth_append)
  moreover have "typed s0 c0 xs = concat (map (F xs) [0 ..< length xs])" for xs by (simp add: typed_def F_def [abs_def])
  ultimately have "typed s0 c0 (ks @ [k]) = typed s0 c0 ks @ F (ks @ [k]) (length ks)" by simp
  then show ?thesis by (simp add: F_def)
qed

lemma strokes_decode:
  "\<forall>k \<in> set ks. stroke_valid k \<Longrightarrow>
    key_decode (concat (map stroke_bytes ks)) (idle_keys s0 c0) =
      (concat (map stroke_events ks), typed s0 c0 ks, idle_keys (shift_held s0 ks) (caps_on c0 ks))"
proof (induction ks rule: rev_induct)
  case Nil
  then show ?case by (simp add: typed_def shift_held_def caps_on_def)
next
  case (snoc k ks)
  then show ?case
    by (simp add: key_decode_append stroke_decode typed_snoc shift_held_snoc caps_on_snoc)
qed

section \<open>Mouse movements\<close>

datatype movement = Move u8 int int

definition move_valid :: "movement \<Rightarrow> bool" where
  "move_valid m = (case m of Move b dx dy \<Rightarrow> b < 8 \<and> dx \<in> {-256 .. 255} \<and> dy \<in> {-256 .. 255})"

text \<open>The three bytes of a packet: buttons and signs, then the low bytes of the distances.\<close>

definition move_bytes :: "movement \<Rightarrow> u8 list" where
  "move_bytes m = (case m of Move b dx dy \<Rightarrow>
     [8 OR b OR (if dx < 0 then 0x10 else 0) OR (if dy < 0 then 0x20 else 0), word_of_int dx, word_of_int dy])"

definition move_event :: "movement \<Rightarrow> genos_input_event" where
  "move_event m = (case m of Move b dx dy \<Rightarrow>
     \<lparr>ev_type = GENOS_INPUT_MOUSE, ev_code = ucast b, ev_value = 0, ev_dx = word_of_int dx, ev_dy = word_of_int (- dy),
      ev_reserved = 0\<rparr>)"

lemma flag_bytes:
  "\<forall>n < 8. \<forall>x \<in> {0, 0x10 :: u8}. \<forall>y \<in> {0, 0x20 :: u8}. let f = 8 OR word_of_nat n OR x OR y in
     f AND 8 \<noteq> 0 \<and> f AND 0xc0 = 0 \<and> f AND 7 = word_of_nat n \<and> (f AND 0x10 = 0 \<longleftrightarrow> x = 0) \<and> (f AND 0x20 = 0 \<longleftrightarrow> y = 0)"
  by code_simp

lemma distance_byte:
  assumes "d \<in> {-256 .. 255}"
  shows "uint (word_of_int d :: u8) - (if d < 0 then 256 else 0) = d"
proof (cases "d < 0")
  case True
  then show ?thesis using assms mod_pos_pos_trivial [of "d + 256" 256] by (simp add: uint_word_of_int)
next
  case False
  then show ?thesis using assms by (simp add: uint_word_of_int)
qed

lemma move_decode:
  assumes "move_valid m"
  shows "mouse_decode (move_bytes m) [] = ([move_event m], [])"
proof (cases m)
  case (Move b dx dy)
  define f where "f = 8 OR b OR (if dx < 0 then 0x10 else 0) OR (if dy < 0 then 0x20 else 0)"
  have v: "unat b < 8" "dx \<in> {-256 .. 255}" "dy \<in> {-256 .. 255}"
    using assms by (auto simp: move_valid_def Move word_less_nat_alt)
  have f: "f AND 8 \<noteq> 0" "f AND 0xc0 = 0" "f AND 7 = b" "f AND 0x10 = 0 \<longleftrightarrow> \<not> dx < 0" "f AND 0x20 = 0 \<longleftrightarrow> \<not> dy < 0"
    using flag_bytes [rule_format, OF v(1), of "if dx < 0 then 0x10 else 0" "if dy < 0 then 0x20 else 0"]
    by (auto simp: f_def Let_def split: if_splits)
  have b: "move_bytes m = [f, word_of_int dx, word_of_int dy]" by (simp add: move_bytes_def Move f_def)
  show ?thesis unfolding b using f distance_byte [OF v(2)] distance_byte [OF v(3)]
    by (auto simp: mouse_step_def packet_event_def move_event_def Move Let_def)
qed

lemma moves_decode:
  "\<forall>m \<in> set ms. move_valid m \<Longrightarrow> mouse_decode (concat (map move_bytes ms)) [] = (map move_event ms, [])"
  by (induction ms) (simp_all add: mouse_decode_append move_decode)

section \<open>The interrupt\<close>

text \<open>The status and data bytes that the controller hands out to a row of interrupts, from read \<open>i\<close> on.\<close>

primrec drained :: "nat \<Rightarrow> (nat \<Rightarrow> u16 \<Rightarrow> u32) \<Rightarrow> nat \<Rightarrow> (u8 \<times> u8) list \<times> nat" where
  "drained 0 ans i = ([], i)"
| "drained (Suc n) ans i =
     (let status = ucast (ans i 0x64)
      in if status AND 1 = 0 then ([], i + 1)
         else let (bs, j) = drained n ans (i + 2) in ((status, ucast (ans (i + 1) 0x60)) # bs, j))"

primrec irq_bytes :: "nat \<Rightarrow> (nat \<Rightarrow> u16 \<Rightarrow> u32) \<Rightarrow> nat \<Rightarrow> (u8 \<times> u8) list \<times> nat" where
  "irq_bytes 0 ans i = ([], i)"
| "irq_bytes (Suc n) ans i = (let (bs, i) = drained 32 ans i; (bs', i) = irq_bytes n ans i in (bs @ bs', i))"

definition same_ports :: "'a port_state_scheme \<Rightarrow> 'a port_state_scheme \<Rightarrow> bool" where
  "same_ports s t \<longleftrightarrow> answers t = answers s \<and> reads t = reads s"

lemma same_ports_trans: "same_ports s t \<Longrightarrow> same_ports t u \<Longrightarrow> same_ports s u"
  by (simp add: same_ports_def)

lemma push_ports: "same_ports s (input_push e s)" "same_ports k (buffer_push c k)"
  by (simp_all add: same_ports_def input_push_def buffer_push_def Let_def)

lemma plain_ports: "same_ports s (plain_key b s)"
  using push_ports(2) by (auto simp: plain_key_def Let_def) (simp_all add: same_ports_def)

lemma keyboard_ports: "same_ports s (keyboard_handler b s)"
proof -
  have flag: "same_ports s (s\<lparr>extended_key := x\<rparr>)" "same_ports s (s\<lparr>pause_bytes := n\<rparr>)"
    "same_ports s (s\<lparr>pause_bytes := n, extended_key := x\<rparr>)" for s :: "'a kbd_state_scheme" and x n
    by (simp_all add: same_ports_def)
  define t where "t = input_push (key_event (extended_key s) b) s"
  have t: "same_ports s t" using push_ports(1) by (simp add: t_def)
  then have u: "same_ports s (t\<lparr>extended_key := False\<rparr>)" using flag(1) same_ports_trans by blast
  have "same_ports s (buffer_push c (t\<lparr>extended_key := False\<rparr>))" for c
    using same_ports_trans [OF u push_ports(2)] .
  moreover have "same_ports s (plain_key b t)" using same_ports_trans [OF t plain_ports] .
  ultimately show ?thesis using flag u
    unfolding keyboard_handler_def Let_def t_def [symmetric] by (simp split: option.split)
qed

lemma receive_ports: "same_ports s (ps2_receive st v s)"
proof -
  have flag: "same_ports s (s\<lparr>packet_used := n\<rparr>)" "same_ports s (s\<lparr>packet := p, packet_used := n\<rparr>)"
    for s :: "'a ps2_state_scheme" and n p
    by (simp_all add: same_ports_def)
  then have "same_ports s (ps2_mouse_byte v s)"
    using same_ports_trans [OF flag(2) push_ports(1)] by (auto simp: ps2_mouse_byte_def Let_def same_ports_def)
  then show ?thesis using flag keyboard_ports [of s v] by (auto simp: ps2_receive_def same_ports_def)
qed

lemma reads_entered: "entered s es cs t \<Longrightarrow> entered s es cs (t\<lparr>reads := n\<rparr>)"
  by (simp add: entered_def input_ok_def keys_ok_def input_queue_def key_queue_def)

lemma reads_state [simp]:
  "key_state (s\<lparr>reads := n\<rparr>) = key_state s" "packet_state (s\<lparr>reads := n\<rparr>) = packet_state s"
  by (simp_all add: key_state_def packet_state_def)

lemma drain_entered:
  "ps2_ok s \<Longrightarrow> mouse_present s \<Longrightarrow> drained n (answers s) (reads s) = (bs, r) \<Longrightarrow> \<forall>sb \<in> set bs. fst sb AND 0xc0 = 0 \<Longrightarrow>
    port_decode bs (key_state s, packet_state s) = (es, cs, kp) \<Longrightarrow>
    entered s es cs (ps2_drain n s) \<and> (key_state (ps2_drain n s), packet_state (ps2_drain n s)) = kp \<and>
    mouse_present (ps2_drain n s) \<and> answers (ps2_drain n s) = answers s \<and> reads (ps2_drain n s) = r"
proof (induction n arbitrary: s bs es cs kp)
  case 0
  then show ?case by (simp add: entered_refl)
next
  case (Suc n)
  define st where "st = (ucast (answers s (reads s) 0x64) :: u8)"
  define v where "v = (ucast (answers s (reads s + 1) 0x60) :: u8)"
  show ?case
  proof (cases "st AND 1 = 0")
    case True
    then show ?thesis using Suc.prems reads_entered [OF entered_refl [OF Suc.prems(1)]]
      by (auto simp: inb_def Let_def st_def)
  next
    case False
    define u where "u = s\<lparr>reads := reads s + 2\<rparr>"
    have su: "entered s [] [] u" using reads_entered [OF entered_refl [OF Suc.prems(1)]] by (simp add: u_def)
    have u: "ps2_ok u" "mouse_present u" "key_state u = key_state s" "packet_state u = packet_state s"
      using Suc.prems(2) entered_ok [OF su] by (simp_all add: u_def)
    have w: "answers (ps2_receive st v u) = answers s" "reads (ps2_receive st v u) = reads s + 2"
      using receive_ports [of u st v] by (simp_all add: same_ports_def u_def)
    have d: "ps2_drain (Suc n) s = ps2_drain n (ps2_receive st v u)"
      using False by (simp add: inb_def Let_def st_def v_def u_def)
    obtain bs' where b: "drained n (answers s) (reads s + 2) = (bs', r)" "bs = (st, v) # bs'"
      using Suc.prems(3) False by (auto simp: Let_def st_def v_def split: prod.splits)
    obtain es1 cs1 kp1 where p1: "port_step (st, v) (key_state u, packet_state u) = (es1, cs1, kp1)"
      by (metis prod.exhaust)
    obtain es2 cs2 kp2 where p2: "port_decode bs' kp1 = (es2, cs2, kp2)" by (metis prod.exhaust)
    have e: "es = es1 @ es2" "cs = cs1 @ cs2" "kp = kp2" using Suc.prems(5) p1 p2 b(2) u by auto
    have "st AND 0xc0 = 0" "\<forall>sb \<in> set bs'. fst sb AND 0xc0 = 0" using Suc.prems(4) b(2) by auto
    note r1 = receive_step [OF u(1,2) this(1) p1] and r2 = Suc.IH [OF _ _ _ this(2), of "ps2_receive st v u"]
    have "ps2_ok (ps2_receive st v u)" using r1 entered_ok by blast
    then show ?thesis using r1 r2 [of es2 cs2 kp2] b(1) p2 w entered_trans [OF su entered_trans]
      unfolding d e by auto
  qed
qed

lemma drained_irq: "irq_bytes (Suc n) ans i = (bs, r) \<Longrightarrow>
    \<exists>b1 j b2. drained 32 ans i = (b1, j) \<and> irq_bytes n ans j = (b2, r) \<and> bs = b1 @ b2"
  by (auto simp: Let_def split: prod.splits)

lemma port_decode_append:
  "port_decode (as @ bs) kp = (let (es, cs, kp) = port_decode as kp; (es', cs', kp) = port_decode bs kp
     in (es @ es', cs @ cs', kp))"
  by (induction as arbitrary: kp) (simp_all add: Let_def split_def)

lemma irqs_entered:
  "ps2_ok s \<Longrightarrow> mouse_present s \<Longrightarrow> irq_bytes n (answers s) (reads s) = (bs, r) \<Longrightarrow> \<forall>sb \<in> set bs. fst sb AND 0xc0 = 0 \<Longrightarrow>
    port_decode bs (key_state s, packet_state s) = (es, cs, kp) \<Longrightarrow> entered s es cs ((ps2_irq ^^ n) s)"
proof (induction n arbitrary: s bs es cs)
  case 0
  then show ?case by (simp add: entered_refl)
next
  case (Suc n)
  obtain b1 j b2 where b: "drained 32 (answers s) (reads s) = (b1, j)" "irq_bytes n (answers s) j = (b2, r)" "bs = b1 @ b2"
    using drained_irq [OF Suc.prems(3)] by blast
  obtain es1 cs1 kp1 where p1: "port_decode b1 (key_state s, packet_state s) = (es1, cs1, kp1)" by (metis prod.exhaust)
  obtain es2 cs2 where p2: "port_decode b2 kp1 = (es2, cs2, kp)" "es = es1 @ es2" "cs = cs1 @ cs2"
    using Suc.prems(5) p1 by (auto simp: b(3) port_decode_append Let_def split: prod.splits)
  have st: "\<forall>sb \<in> set b1. fst sb AND 0xc0 = 0" "\<forall>sb \<in> set b2. fst sb AND 0xc0 = 0" using Suc.prems(4) b(3) by auto
  have d: "entered s es1 cs1 (ps2_irq s)" "(key_state (ps2_irq s), packet_state (ps2_irq s)) = kp1"
    "mouse_present (ps2_irq s)" "answers (ps2_irq s) = answers s" "reads (ps2_irq s) = j"
    using drain_entered [OF Suc.prems(1,2) b(1) st(1) p1] by (simp_all add: ps2_irq_def)
  have "entered (ps2_irq s) es2 cs2 ((ps2_irq ^^ n) (ps2_irq s))"
    using Suc.IH [OF entered_ok [OF d(1)] d(3) _ st(2)] d(2,4,5) b(2) p2(1) by auto
  then show ?case using entered_trans [OF d(1)] p2(2,3) by (simp add: funpow_swap1)
qed

lemma fold_put_room: "length q + length as \<le> n \<Longrightarrow> fold (queue_put n) as q = q @ as"
  by (induction as arbitrary: q) (simp_all add: queue_put_def)

text \<open>
  C26: key strokes and mouse movements arrive byte by byte, mixed in any way and over any number of
  interrupts; what the queues then hold are the events of the strokes and of the movements, each kind in
  its order, and the characters typed, with shift and caps lock as the strokes before left them.
\<close>

theorem ps2_decodes_input:
  assumes "ps2_ok s" and "mouse_present s" and "irq_bytes n (answers s) (reads s) = (bs, r)"
    and "\<forall>sb \<in> set bs. fst sb AND 0xc0 = 0"
    and "key_state s = idle_keys shift caps" and "packet_used s = 0"
    and "\<forall>k \<in> set ks. stroke_valid k" and "map snd [sb \<leftarrow> bs. \<not> from_mouse sb] = concat (map stroke_bytes ks)"
    and "\<forall>m \<in> set ms. move_valid m" and "map snd [sb \<leftarrow> bs. from_mouse sb] = concat (map move_bytes ms)"
    and "length (input_queue s) + length (concat (map stroke_events ks)) + length ms \<le> 255"
    and "length (key_queue s) + length (typed shift caps ks) \<le> 255"
  shows "\<exists>es. input_queue ((ps2_irq ^^ n) s) = input_queue s @ es \<and>
      [e \<leftarrow> es. ev_type e = GENOS_INPUT_KEY] = concat (map stroke_events ks) \<and>
      [e \<leftarrow> es. ev_type e = GENOS_INPUT_MOUSE] = map move_event ms \<and>
    key_queue ((ps2_irq ^^ n) s) = key_queue s @ typed shift caps ks"
proof -
  obtain es cs k' p' where d: "port_decode bs (key_state s, packet_state s) = (es, cs, k', p')" by (metis prod.exhaust)
  have p0: "packet_state s = []" using assms(6) by (simp add: packet_state_def)
  have k: "[e \<leftarrow> es. ev_type e = GENOS_INPUT_KEY] = concat (map stroke_events ks)" "cs = typed shift caps ks"
    using decode_split [OF d, unfolded assms(5,8)] strokes_decode [OF assms(7)] by auto
  have m: "[e \<leftarrow> es. ev_type e = GENOS_INPUT_MOUSE] = map move_event ms"
    using decode_split [OF d, unfolded p0 assms(10)] moves_decode [OF assms(9)] by auto
  have "entered s es cs ((ps2_irq ^^ n) s)" using irqs_entered [OF assms(1-4) d] .
  moreover have "\<forall>e \<in> set es. ev_type e = GENOS_INPUT_KEY \<or> ev_type e = GENOS_INPUT_MOUSE" using decode_types [OF d] .
  then have "length es = length [e \<leftarrow> es. ev_type e = GENOS_INPUT_KEY] + length [e \<leftarrow> es. ev_type e = GENOS_INPUT_MOUSE]"
    by (induction es) auto
  ultimately show ?thesis using k m assms(11,12) by (auto simp: entered_def fold_put_room)
qed

text \<open>A state after boot, and a controller that hands out shift-A and one movement, mixed.\<close>

definition sample_tape :: "u32 list" where
  "sample_tape = [0x01, 0x2A, 0x21, 0x29, 0x01, 0x1E, 0x21, 0x05, 0x21, 0xFD]"

definition blank_ps2 :: ps2_state where
  "blank_ps2 = \<lparr>answers = \<lambda>i p. if i < length sample_tape then sample_tape ! i else 0, reads = 0, written = [],
     spurious7 = 0, spurious15 = 0,
     events = replicate 256 \<lparr>ev_type = 0, ev_code = 0, ev_value = 0, ev_dx = 0, ev_dy = 0, ev_reserved = 0\<rparr>,
     in_head = 0, in_tail = 0, dropped = 0, key_buffer = replicate 256 0, buffer_head = 0, buffer_tail = 0,
     shift_pressed = False, caps_lock_active = False, extended_key = False, pause_bytes = 0,
     mouse_present = True, packet = [0, 0, 0], packet_used = 0\<rparr>"

lemma sample_bytes:
  "irq_bytes 1 (answers blank_ps2) (reads blank_ps2) = ([(1, 0x2A), (0x21, 0x29), (1, 0x1E), (0x21, 5), (0x21, 0xFD)], 11)"
  by code_simp

lemma blank_ps2_ok: "ps2_ok blank_ps2 \<and> input_queue blank_ps2 = [] \<and> key_queue blank_ps2 = []"
  by (simp add: ps2_ok_def input_ok_def keys_ok_def blank_ps2_def input_queue_def key_queue_def ring_def ring_len_def)

lemma sample_typed: "typed False False [Stroke 0x2A True, Stroke 0x1E True] = [65]"
  by code_simp

lemma ps2_decodes_input_witness: "key_queue (ps2_irq blank_ps2) = [65] \<and>
    [e \<leftarrow> input_queue (ps2_irq blank_ps2). ev_type e = GENOS_INPUT_MOUSE] = [move_event (Move 1 5 (-3))]"
proof -
  have ex: "\<exists>es. input_queue ((ps2_irq ^^ 1) blank_ps2) = input_queue blank_ps2 @ es \<and>
      [e \<leftarrow> es. ev_type e = GENOS_INPUT_KEY] = concat (map stroke_events [Stroke 0x2A True, Stroke 0x1E True]) \<and>
      [e \<leftarrow> es. ev_type e = GENOS_INPUT_MOUSE] = map move_event [Move 1 5 (-3)] \<and>
    key_queue ((ps2_irq ^^ 1) blank_ps2) = key_queue blank_ps2 @ typed False False [Stroke 0x2A True, Stroke 0x1E True]"
    by (rule ps2_decodes_input [OF _ _ sample_bytes])
      (simp_all add: blank_ps2_ok sample_typed stroke_valid_def move_valid_def stroke_bytes_def move_bytes_def stroke_events_def
        key_state_def idle_keys_def, simp_all add: blank_ps2_def)
  then show ?thesis using sample_typed blank_ps2_ok by auto
qed


end
