(* ===== verification/Mouse.thy ===== *)
theory Mouse
  imports Ports
begin

text \<open>
  The stand-alone mouse driver, \<^verbatim>\<open>drivers/mouse.c\<close>, which keeps an absolute cursor position (the kernel
  links it but routes the interrupt to \<^verbatim>\<open>drivers/ps2.c\<close>). Cursor coordinates are C \<^verbatim>\<open>int32_t\<close>; the
  arithmetic is that of \<open>int\<close>, and it stays in range for screens of less than $2^{31} - 256$ pixels a side.
\<close>

record mouse_driver = pic_state +
  cur_x :: int
  cur_y :: int
  buttons :: u8
  changed :: u8
  packet_cycle :: u8
  mpacket :: "u8 list"
  irq_count :: u32
  pkt_count :: u32
  sync_drops :: u32
  screen_width :: u32
  screen_height :: u32

section \<open>Initialisation\<close>

primrec mouse_wait_write_loop :: "nat \<Rightarrow> 'a port_state_scheme \<Rightarrow> 'a port_state_scheme" where
  "mouse_wait_write_loop 0 s = s"
| "mouse_wait_write_loop (Suc n) s =
     (let (status, s) = inb 0x64 s in if status AND 2 = 0 then s else mouse_wait_write_loop n (io_wait s))"

primrec mouse_wait_read_loop :: "nat \<Rightarrow> 'a port_state_scheme \<Rightarrow> 'a port_state_scheme" where
  "mouse_wait_read_loop 0 s = s"
| "mouse_wait_read_loop (Suc n) s =
     (let (status, s) = inb 0x64 s in if status AND 1 \<noteq> 0 then s else mouse_wait_read_loop n (io_wait s))"

definition mouse_wait_write :: "'a port_state_scheme \<Rightarrow> 'a port_state_scheme" where
  "mouse_wait_write s = mouse_wait_write_loop 500000 s"

definition mouse_wait_read :: "'a port_state_scheme \<Rightarrow> 'a port_state_scheme" where
  "mouse_wait_read s = mouse_wait_read_loop 500000 s"

primrec mouse_wait_ack :: "nat \<Rightarrow> 'a port_state_scheme \<Rightarrow> bool \<times> 'a port_state_scheme" where
  "mouse_wait_ack 0 s = (False, s)"
| "mouse_wait_ack (Suc n) s =
     (let (status, s) = inb 0x64 s
      in if status AND 1 \<noteq> 0
         then let (resp, s) = inb 0x60 s
              in if resp = 0xFA then (True, s) else if resp = 0xFE then (False, s) else mouse_wait_ack n (io_wait s)
         else mouse_wait_ack n (io_wait s))"

definition mouse_cmd_ack :: "u8 \<Rightarrow> 'a port_state_scheme \<Rightarrow> bool \<times> 'a port_state_scheme" where
  "mouse_cmd_ack cmd s =
     (let s = outb 0x64 0xD4 (mouse_wait_write s); s = outb 0x60 cmd (mouse_wait_write s) in mouse_wait_ack 100000 s)"

primrec mouse_flush :: "nat \<Rightarrow> 'a port_state_scheme \<Rightarrow> 'a port_state_scheme" where
  "mouse_flush 0 s = s"
| "mouse_flush (Suc n) s =
     (let (status, s) = inb 0x64 s; s = (if status AND 1 \<noteq> 0 then snd (inb 0x60 s) else s) in mouse_flush n (io_wait s))"

primrec mouse_wait_selftest :: "nat \<Rightarrow> 'a port_state_scheme \<Rightarrow> 'a port_state_scheme" where
  "mouse_wait_selftest 0 s = s"
| "mouse_wait_selftest (Suc n) s =
     (let (status, s) = inb 0x64 s
      in if status AND 1 \<noteq> 0
         then let (b, s) = inb 0x60 s
              in if b = 0xAA then snd (inb 0x60 (mouse_wait_read s)) else mouse_wait_selftest n (io_wait s)
         else mouse_wait_selftest n (io_wait s))"

definition mouse_send :: "u8 \<Rightarrow> 'a port_state_scheme \<Rightarrow> 'a port_state_scheme" where
  "mouse_send v s = outb 0x64 v (mouse_wait_write s)"

definition mouse_ask :: "u8 \<Rightarrow> 'a port_state_scheme \<Rightarrow> u8 \<times> 'a port_state_scheme" where
  "mouse_ask v s = inb 0x60 (mouse_wait_read (mouse_send v s))"

definition mouse_init :: "'a mouse_driver_scheme \<Rightarrow> 'a mouse_driver_scheme" where
  "mouse_init s =
     (let s = mouse_send 0xA7 (mouse_send 0xAD s);
          s = mouse_flush 100 s;
          (selftest, s) = mouse_ask 0xAA s;
          s = mouse_send 0xA8 s;
          (auxtest, s) = mouse_ask 0xA9 s;
          s = mouse_send 0xA8 s;
          (config, s) = mouse_ask 0x20 s;
          config = (config OR 2 OR 1) AND NOT 0x20;
          s = mouse_send 0x60 s;
          s = outb 0x60 config (mouse_wait_write s);
          s = mouse_send 0xAE s;
          (ack, s) = mouse_cmd_ack 0xFF s;
          s = (if ack then mouse_wait_selftest 500000 s else mouse_flush 50 s);
          s = snd (mouse_cmd_ack 0xF6 s);
          s = snd (mouse_cmd_ack 0xF3 s);
          s = snd (mouse_cmd_ack 100 s);
          s = snd (mouse_cmd_ack 0xF4 s);
          s = mouse_flush 50 s;
          s = s\<lparr>packet_cycle := 0, cur_x := sint (screen_width s div 2), cur_y := sint (screen_height s div 2),
                buttons := 0, changed := 0\<rparr>
      in pic_unmask_irq 12 (pic_unmask_irq 2 s))"

definition mouse_reset :: "u32 \<Rightarrow> u32 \<Rightarrow> 'a mouse_driver_scheme \<Rightarrow> 'a mouse_driver_scheme" where
  "mouse_reset width height s =
     (let s = s\<lparr>screen_width := (if width \<noteq> 0 then width else 1024), screen_height := (if height \<noteq> 0 then height else 768)\<rparr>
      in s\<lparr>cur_x := sint (screen_width s div 2), cur_y := sint (screen_height s div 2), changed := 1\<rparr>)"

section \<open>Packets\<close>

definition clamp_coord :: "u32 \<Rightarrow> int \<Rightarrow> int" where
  "clamp_coord extent n =
     (let n = (if n < 0 then 0 else n) in if n \<ge> sint extent then sint extent - 1 else n)"

definition mouse_handler :: "u8 \<Rightarrow> 'a mouse_driver_scheme \<Rightarrow> 'a mouse_driver_scheme" where
  "mouse_handler data s =
     (let s = s\<lparr>irq_count := irq_count s + 1\<rparr>
      in if packet_cycle s = 0 \<and> data AND 8 = 0 then s\<lparr>sync_drops := sync_drops s + 1\<rparr>
         else let s = s\<lparr>mpacket := (mpacket s)[unat (packet_cycle s) := data], packet_cycle := packet_cycle s + 1\<rparr>
              in if packet_cycle s < 3 then s
                 else let s = s\<lparr>packet_cycle := 0, pkt_count := pkt_count s + 1\<rparr>;
                          dx = sint (mpacket s ! 1);
                          dy = sint (mpacket s ! 2)
                      in s\<lparr>cur_x := clamp_coord (screen_width s) (cur_x s + dx),
                           cur_y := clamp_coord (screen_height s) (cur_y s - dy),
                           buttons := mpacket s ! 0 AND 7, changed := 1\<rparr>)"

definition mouse_get_irq_count :: "'a mouse_driver_scheme \<Rightarrow> u32" where
  "mouse_get_irq_count s = irq_count s"

definition mouse_get_pkt_count :: "'a mouse_driver_scheme \<Rightarrow> u32" where
  "mouse_get_pkt_count s = pkt_count s"

definition mouse_get_sync_drops :: "'a mouse_driver_scheme \<Rightarrow> u32" where
  "mouse_get_sync_drops s = sync_drops s"

section \<open>The cursor stays on the screen\<close>

definition on_screen :: "u32 \<Rightarrow> u32 \<Rightarrow> 'a mouse_driver_scheme \<Rightarrow> bool" where
  "on_screen w h s \<longleftrightarrow> screen_width s = w \<and> screen_height s = h \<and> 0 \<le> cur_x s \<and> cur_x s < sint w \<and>
     0 \<le> cur_y s \<and> cur_y s < sint h \<and> packet_cycle s < 3 \<and> length (mpacket s) = 3 \<and>
     irq_count s = 3 * pkt_count s + sync_drops s + ucast (packet_cycle s)"

lemma clamp_coord_range: "0 < sint extent \<Longrightarrow> 0 \<le> clamp_coord extent n \<and> clamp_coord extent n < sint extent"
  by (simp add: clamp_coord_def)

lemma handler_on_screen:
  assumes "on_screen w h s" and "0 < sint w" and "0 < sint h"
  shows "on_screen w h (mouse_handler b s)"
proof -
  have "packet_cycle s = 0 \<or> packet_cycle s = 1 \<or> packet_cycle s = 2"
  proof -
    have "unat (packet_cycle s) = 0 \<or> unat (packet_cycle s) = 1 \<or> unat (packet_cycle s) = 2"
      using assms(1) by (simp add: on_screen_def word_less_nat_alt) linarith
    then show ?thesis by (auto simp: word_unat_eq_iff)
  qed
  moreover have "(1 :: u8) + 1 < 3" "(0 :: u8) + 1 < 3" "\<not> (2 :: u8) + 1 < 3" "(0 :: u8) < 3" by code_simp+
  ultimately show ?thesis using assms(1) clamp_coord_range [OF assms(2)] clamp_coord_range [OF assms(3)]
    by (elim disjE) (simp_all del: one_add_one numeral_plus_one add: on_screen_def mouse_handler_def Let_def distrib_left add_ac)
qed

lemma sint_half:
  fixes w :: u32
  assumes "w \<noteq> 0" and "w < 0x80000000"
  shows "0 \<le> sint (w div 2)" "sint (w div 2) < sint w" "0 < sint w"
proof -
  have n: "unat w < 2 ^ 31" "0 < unat w" using assms by (simp_all add: word_less_nat_alt unat_gt_0)
  have "sint v = int (unat v)" if "unat v < 2 ^ 31" for v :: u32
  proof -
    have "int (unat v) < 2 ^ 31" using that by (metis of_nat_less_iff of_nat_numeral of_nat_power)
    then have "signed_take_bit 31 (int (unat v)) = int (unat v)" by (intro signed_take_bit_int_eq_self) linarith+
    moreover have "sint v = signed_take_bit 31 (uint v)" by (simp add: sint_uint)
    ultimately show ?thesis by simp
  qed
  from this [OF n(1)] this [of "w div 2"] n
  have "sint w = int (unat w)" "sint (w div 2) = int (unat w div 2)" by (simp_all only: unat_div) (simp add: unat_div)
  then show "0 \<le> sint (w div 2)" "sint (w div 2) < sint w" "0 < sint w"
    using n by (simp_all only: of_nat_0_le_iff of_nat_less_iff of_nat_0_less_iff)
qed

lemma sint_1024: "sint (1024 :: u32) = 1024" "sint (768 :: u32) = 768"
  by code_simp+

text \<open>
  After a reset for a screen (zero sizes stand for 1024 and 768), whatever bytes arrive, the cursor
  is a pixel of the screen, and every byte is counted: as part of a packet or as dropped.
\<close>

lemma mouse_cursor_on_screen:
  assumes "width < 0x80000000" and "height < 0x80000000"
    and "packet_cycle s = 0" and "length (mpacket s) = 3" and "irq_count s = 0" and "pkt_count s = 0" and "sync_drops s = 0"
    and "t = fold mouse_handler bs (mouse_reset width height s)"
  shows "0 \<le> cur_x t \<and> cur_x t < (if width = 0 then 1024 else sint width) \<and>
    0 \<le> cur_y t \<and> cur_y t < (if height = 0 then 768 else sint height) \<and>
    mouse_get_irq_count t = 3 * mouse_get_pkt_count t + mouse_get_sync_drops t + ucast (packet_cycle t) \<and> packet_cycle t < 3"
proof -
  define w h where "w = (if width \<noteq> 0 then width else 1024)" and "h = (if height \<noteq> 0 then height else 768)"
  have n: "w \<noteq> 0" "h \<noteq> 0" "w < 0x80000000" "h < 0x80000000" using assms(1,2) by (auto simp: w_def h_def)
  have "on_screen w h (mouse_reset width height s)"
    using assms(3-7) sint_half [OF n(1,3)] sint_half [OF n(2,4)]
    by (simp add: on_screen_def mouse_reset_def Let_def flip: w_def h_def)
  then have "on_screen w h (fold mouse_handler cs (mouse_reset width height s))" for cs
    by (induction cs rule: rev_induct)
      (simp_all add: handler_on_screen [OF _ sint_half(3) [OF n(1,3)] sint_half(3) [OF n(2,4)]])
  from this [of bs] show ?thesis unfolding assms(8) [symmetric]
    by (auto simp: on_screen_def w_def h_def sint_1024 mouse_get_irq_count_def mouse_get_pkt_count_def mouse_get_sync_drops_def)
qed

definition blank_mouse :: mouse_driver where
  "blank_mouse = \<lparr>answers = \<lambda>i p. 0, reads = 0, written = [], spurious7 = 0, spurious15 = 0, cur_x = 0, cur_y = 0,
     buttons = 0, changed = 0, packet_cycle = 0, mpacket = [0, 0, 0], irq_count = 0, pkt_count = 0, sync_drops = 0,
     screen_width = 1024, screen_height = 768\<rparr>"

lemma mouse_cursor_on_screen_witness:
  "cur_x (fold mouse_handler [0, 9, 100, 0] (mouse_reset 640 0 blank_mouse)) < 640"
  using mouse_cursor_on_screen [of 640 0 blank_mouse _ "[0, 9, 100, 0]", OF _ _ _ _ _ _ _ refl]
  by (simp add: blank_mouse_def)

text \<open>
  A movement to the right of 255, as a packet gives it, moves the cursor one pixel to the left: the
  handler takes the sign from the distance byte and not from the first byte of the packet.
\<close>

lemma mouse_large_step:
  "cur_x (fold mouse_handler [8, 255, 0] (mouse_reset 640 480 blank_mouse)) = 319"
  by code_simp

end
