(* ===== verification/Guard.thy ===== *)
theory Guard
  imports Prelude
begin

text \<open>
  Mutual exclusion between CPUs: spin locks, \<^verbatim>\<open>cpu/spinlock.h\<close>, the kernel mutation guard,
  \<^verbatim>\<open>cpu/preempt.c\<close>, and the subsystem locks, \<^verbatim>\<open>cpu/local_lock.h\<close> with \<^verbatim>\<open>cpu/device_lock.h\<close>. Each
  definition is one access to shared memory with the code of its CPU around it (a CPU's own counters
  change with its interrupts off), so interleavings are sequences of these steps. \<open>None\<close> is a trap.
  Where a CPU spins is its control state: \<open>spinning\<close> in \<^verbatim>\<open>preempt_disable\<close>, \<open>local_want\<close> in
  \<^verbatim>\<open>local_lock_enter\<close>; \<open>local_held\<close> is the guard on its stack.
\<close>

section \<open>State\<close>

record guard_cpu =
  preempt_count :: u32
  local_preempt_count :: u32
  spinning :: bool
  local_want :: "nat option"
  local_held :: "nat option"

record guard_state =
  mutation_lock :: u32
  local_locks :: "nat \<Rightarrow> u32"
  gcpus :: "nat \<Rightarrow> guard_cpu"

definition upd_gcpu :: "nat \<Rightarrow> (guard_cpu \<Rightarrow> guard_cpu) \<Rightarrow> guard_state \<Rightarrow> guard_state" where
  "upd_gcpu c f s = s\<lparr>gcpus := (gcpus s)(c := f (gcpus s c))\<rparr>"

section \<open>Spin locks\<close>

definition spin_trylock :: "u32 \<Rightarrow> bool \<times> u32" where
  "spin_trylock lock = (lock = 0, 1)"

definition spin_unlock :: "u32 \<Rightarrow> u32" where
  "spin_unlock lock = 0"

section \<open>The mutation guard\<close>

text \<open>\<^verbatim>\<open>preempt_disable\<close> up to its loop, and one turn of the loop.\<close>

definition preempt_disable_begin :: "nat \<Rightarrow> guard_state \<Rightarrow> guard_state option" where
  "preempt_disable_begin c s =
     (let p = gcpus s c
      in if local_preempt_count p \<noteq> 0 then None
         else Some (upd_gcpu c (\<lambda>p. p\<lparr>preempt_count := preempt_count p + 1, spinning := (preempt_count p = 0)\<rparr>) s))"

definition preempt_disable_spin :: "nat \<Rightarrow> guard_state \<Rightarrow> guard_state" where
  "preempt_disable_spin c s =
     (let (got, l) = spin_trylock (mutation_lock s); s = s\<lparr>mutation_lock := l\<rparr>
      in if got then upd_gcpu c (\<lambda>p. p\<lparr>spinning := False\<rparr>) s else s)"

definition preempt_try_disable :: "nat \<Rightarrow> guard_state \<Rightarrow> guard_state \<times> bool" where
  "preempt_try_disable c s =
     (let p = gcpus s c
      in if preempt_count p = 0 \<and> local_preempt_count p = 0
         then let (got, l) = spin_trylock (mutation_lock s); s = s\<lparr>mutation_lock := l\<rparr>
              in (if got then upd_gcpu c (\<lambda>p. p\<lparr>preempt_count := 1\<rparr>) s else s, got)
         else (s, False))"

definition preempt_enable :: "nat \<Rightarrow> guard_state \<Rightarrow> guard_state option" where
  "preempt_enable c s =
     (if preempt_count (gcpus s c) = 0 then None
      else let s = upd_gcpu c (\<lambda>p. p\<lparr>preempt_count := preempt_count p - 1\<rparr>) s
           in Some (if preempt_count (gcpus s c) = 0 then s\<lparr>mutation_lock := spin_unlock (mutation_lock s)\<rparr> else s))"

definition preempt_depth :: "nat \<Rightarrow> guard_state \<Rightarrow> u32" where
  "preempt_depth c s = preempt_count (gcpus s c)"

section \<open>Local locks\<close>

definition preempt_local_disable :: "nat \<Rightarrow> guard_state \<Rightarrow> guard_state option" where
  "preempt_local_disable c s =
     (if local_preempt_count (gcpus s c) = UINT32_MAX then None
      else Some (upd_gcpu c (\<lambda>p. p\<lparr>local_preempt_count := local_preempt_count p + 1\<rparr>) s))"

definition preempt_local_enable :: "nat \<Rightarrow> guard_state \<Rightarrow> guard_state option" where
  "preempt_local_enable c s =
     (if local_preempt_count (gcpus s c) = 0 then None
      else Some (upd_gcpu c (\<lambda>p. p\<lparr>local_preempt_count := local_preempt_count p - 1\<rparr>) s))"

definition preempt_local_depth :: "nat \<Rightarrow> guard_state \<Rightarrow> u32" where
  "preempt_local_depth c s = local_preempt_count (gcpus s c)"

definition local_lock_begin :: "nat \<Rightarrow> nat \<Rightarrow> guard_state \<Rightarrow> guard_state option" where
  "local_lock_begin c l s =
     (if preempt_local_depth c s \<noteq> 0 then None
      else map_option (upd_gcpu c (\<lambda>p. p\<lparr>local_want := Some l\<rparr>)) (preempt_local_disable c s))"

definition local_lock_turn :: "bool \<Rightarrow> nat \<Rightarrow> nat \<Rightarrow> guard_state \<Rightarrow> guard_state option" where
  "local_lock_turn try_only c l s =
     (let (got, v) = spin_trylock (local_locks s l); s = s\<lparr>local_locks := (local_locks s)(l := v)\<rparr>
      in if got then Some (upd_gcpu c (\<lambda>p. p\<lparr>local_want := None, local_held := Some l\<rparr>) s)
         else if try_only then map_option (upd_gcpu c (\<lambda>p. p\<lparr>local_want := None\<rparr>)) (preempt_local_enable c s)
         else Some s)"

definition local_lock_leave :: "nat \<Rightarrow> guard_state \<Rightarrow> guard_state option" where
  "local_lock_leave c s =
     (case local_held (gcpus s c) of None \<Rightarrow> Some s
      | Some l \<Rightarrow> map_option (upd_gcpu c (\<lambda>p. p\<lparr>local_held := None\<rparr>))
          (preempt_local_enable c (s\<lparr>local_locks := (local_locks s)(l := spin_unlock (local_locks s l))\<rparr>)))"

section \<open>What the CPUs do\<close>

text \<open>
  A CPU that spins does nothing else, except that its timer interrupt tries the mutation guard. A trap
  stops the machine, so only steps that do not trap continue. Nesting stays below the counter's width.
\<close>

definition waiting :: "nat \<Rightarrow> guard_state \<Rightarrow> bool" where
  "waiting c s \<longleftrightarrow> spinning (gcpus s c) \<or> local_want (gcpus s c) \<noteq> None"

definition holds_guard :: "nat \<Rightarrow> guard_state \<Rightarrow> bool" where
  "holds_guard c s \<longleftrightarrow> preempt_count (gcpus s c) \<noteq> 0 \<and> \<not> spinning (gcpus s c)"

inductive guard_step :: "guard_state \<Rightarrow> guard_state \<Rightarrow> bool" where
  disable: "\<not> waiting c s \<Longrightarrow> preempt_count (gcpus s c) < UINT32_MAX \<Longrightarrow> preempt_disable_begin c s = Some t \<Longrightarrow> guard_step s t"
| spin: "spinning (gcpus s c) \<Longrightarrow> guard_step s (preempt_disable_spin c s)"
| timer: "preempt_try_disable c s = (t, got) \<Longrightarrow> guard_step s t"
| enable: "\<not> waiting c s \<Longrightarrow> preempt_enable c s = Some t \<Longrightarrow> guard_step s t"
| lock: "\<not> waiting c s \<Longrightarrow> local_lock_begin c l s = Some t \<Longrightarrow> guard_step s t"
| turn: "local_want (gcpus s c) = Some l \<Longrightarrow> local_lock_turn try_only c l s = Some t \<Longrightarrow> guard_step s t"
| unlock: "\<not> waiting c s \<Longrightarrow> local_lock_leave c s = Some t \<Longrightarrow> guard_step s t"

inductive_cases guard_stepE: "guard_step s t"

definition guard_boot :: guard_state where
  "guard_boot = \<lparr>mutation_lock = 0, local_locks = \<lambda>_. 0,
     gcpus = \<lambda>_. \<lparr>preempt_count = 0, local_preempt_count = 0, spinning = False, local_want = None, local_held = None\<rparr>\<rparr>"

section \<open>The invariant\<close>

definition cpu_consistent :: "guard_cpu \<Rightarrow> bool" where
  "cpu_consistent p \<longleftrightarrow> (spinning p \<longrightarrow> preempt_count p \<noteq> 0 \<and> local_preempt_count p = 0) \<and>
     local_preempt_count p = (if local_want p = None \<and> local_held p = None then 0 else 1) \<and>
     (local_want p = None \<or> local_held p = None)"

text \<open>At most one holder, and the lock word is free exactly when there is none.\<close>

definition exclusive :: "(nat \<Rightarrow> bool) \<Rightarrow> bool \<Rightarrow> bool" where
  "exclusive H free \<longleftrightarrow> (\<forall>c c'. H c \<and> H c' \<longrightarrow> c = c') \<and> (free \<longleftrightarrow> (\<forall>c. \<not> H c))"

definition guard_inv :: "guard_state \<Rightarrow> bool" where
  "guard_inv s \<longleftrightarrow> (\<forall>c. cpu_consistent (gcpus s c)) \<and>
     exclusive (\<lambda>c. holds_guard c s) (mutation_lock s = 0) \<and>
     (\<forall>l. exclusive (\<lambda>c. local_held (gcpus s c) = Some l) (local_locks s l = 0))"

lemmas guard_ops = preempt_disable_begin_def preempt_disable_spin_def preempt_try_disable_def preempt_enable_def
  preempt_local_disable_def preempt_local_enable_def local_lock_begin_def local_lock_turn_def local_lock_leave_def
  spin_trylock_def spin_unlock_def preempt_local_depth_def upd_gcpu_def Let_def


lemma exclusive_upd:
  assumes e: "exclusive H free"
    and h: "h = H c \<and> free' = free \<or> h \<and> free \<and> \<not> free' \<or> H c \<and> \<not> h \<and> free'"
  shows "exclusive (H(c := h)) free'"
  using h
proof (elim disjE)
  assume "h = H c \<and> free' = free"
  then show ?thesis using e by simp
next
  assume "h \<and> free \<and> \<not> free'"
  then show ?thesis using e by (simp add: exclusive_def)
next
  assume "H c \<and> \<not> h \<and> free'"
  then show ?thesis using e by (simp add: exclusive_def) blast
qed

lemma exclusive_unique: "exclusive H f \<Longrightarrow> H c \<Longrightarrow> H c' \<Longrightarrow> c = c'"
  by (simp add: exclusive_def)

text \<open>A step of CPU \<open>c\<close>: its own part, and what happens to the two kinds of locks.\<close>

definition cpu_holds :: "guard_cpu \<Rightarrow> bool" where
  "cpu_holds p \<longleftrightarrow> preempt_count p \<noteq> 0 \<and> \<not> spinning p"

lemma holds_guard_alt: "holds_guard c s = cpu_holds (gcpus s c)"
  by (simp add: holds_guard_def cpu_holds_def)

lemma guard_inv_step:
  assumes inv: "guard_inv s" and p: "cpu_consistent p'"
    and m: "cpu_holds p' = holds_guard c s \<and> (m = 0 \<longleftrightarrow> mutation_lock s = 0) \<or>
      cpu_holds p' \<and> mutation_lock s = 0 \<and> m \<noteq> 0 \<or> holds_guard c s \<and> \<not> cpu_holds p' \<and> m = 0"
    and l: "local_held p' = local_held (gcpus s c) \<and> (\<forall>l. ls l = 0 \<longleftrightarrow> local_locks s l = 0) \<or>
      (\<exists>l. local_held (gcpus s c) = None \<and> local_held p' = Some l \<and> local_locks s l = 0 \<and> ls l \<noteq> 0 \<and>
        (\<forall>k. k \<noteq> l \<longrightarrow> ls k = local_locks s k)) \<or>
      (\<exists>l. local_held (gcpus s c) = Some l \<and> local_held p' = None \<and> ls = (local_locks s)(l := 0))"
  shows "guard_inv \<lparr>mutation_lock = m, local_locks = ls, gcpus = (gcpus s)(c := p')\<rparr>"
proof -
  have e: "exclusive (\<lambda>c. holds_guard c s) (mutation_lock s = 0)"
    "exclusive (\<lambda>c. local_held (gcpus s c) = Some k) (local_locks s k = 0)" for k
    using inv by (auto simp: guard_inv_def)
  have "(\<lambda>x. cpu_holds (((gcpus s)(c := p')) x)) = (\<lambda>x. holds_guard x s)(c := cpu_holds p')"
    by (simp add: fun_eq_iff holds_guard_alt)
  moreover have "exclusive ((\<lambda>x. holds_guard x s)(c := cpu_holds p')) (m = 0)"
    by (rule exclusive_upd [OF e(1)]) (use m in blast)
  moreover have "(\<lambda>x. local_held (((gcpus s)(c := p')) x) = Some k) =
      (\<lambda>x. local_held (gcpus s x) = Some k)(c := (local_held p' = Some k))" for k
    by (simp add: fun_eq_iff)
  moreover have "exclusive ((\<lambda>x. local_held (gcpus s x) = Some k)(c := (local_held p' = Some k))) (ls k = 0)" for k
  proof (rule exclusive_upd [OF e(2)])
    from l show "(local_held p' = Some k) = (local_held (gcpus s c) = Some k) \<and> (ls k = 0) = (local_locks s k = 0) \<or>
        local_held p' = Some k \<and> local_locks s k = 0 \<and> ls k \<noteq> 0 \<or>
        local_held (gcpus s c) = Some k \<and> local_held p' \<noteq> Some k \<and> ls k = 0"
    proof (elim disjE exE conjE)
      fix l
      assume "local_held (gcpus s c) = None" "local_held p' = Some l" "local_locks s l = 0" "ls l \<noteq> 0"
        "\<forall>k. k \<noteq> l \<longrightarrow> ls k = local_locks s k"
      then show ?thesis by (cases "k = l") simp_all
    next
      fix l
      assume "local_held (gcpus s c) = Some l" "local_held p' = None" "ls = (local_locks s)(l := 0)"
      then show ?thesis by (cases "k = l") simp_all
    qed simp
  qed
  ultimately show ?thesis using inv p by (simp add: guard_inv_def holds_guard_alt)
qed

lemma count_up: "n < UINT32_MAX \<Longrightarrow> n + 1 \<noteq> 0" for n :: u32
  by (auto simp: word_less_nat_alt unat_eq_0 [symmetric] unat_word_ariths simp del: unat_eq_0)

lemma guard_step_inv: "guard_step s t \<Longrightarrow> guard_inv s \<Longrightarrow> guard_inv t"
proof (induction rule: guard_step.induct)
  case (disable c s t)
  have c: "cpu_consistent (gcpus s c)" using disable.prems by (simp add: guard_inv_def)
  define p where "p = gcpus s c"
  have t: "t = \<lparr>mutation_lock = mutation_lock s, local_locks = local_locks s,
      gcpus = (gcpus s)(c := p\<lparr>preempt_count := preempt_count p + 1, spinning := (preempt_count p = 0)\<rparr>)\<rparr>"
    "local_preempt_count p = 0"
    using disable.hyps by (auto simp: guard_ops p_def split: if_splits)
  show ?case unfolding t
    by (rule guard_inv_step [OF disable.prems])
      (use disable.hyps c count_up t(2) in \<open>auto simp: p_def cpu_consistent_def cpu_holds_def holds_guard_alt waiting_def\<close>)
next
  case (spin s c)
  have c: "cpu_consistent (gcpus s c)" using spin.prems by (simp add: guard_inv_def)
  have "preempt_disable_spin c s = \<lparr>mutation_lock = 1, local_locks = local_locks s,
      gcpus = (gcpus s)(c := if mutation_lock s = 0 then (gcpus s c)\<lparr>spinning := False\<rparr> else gcpus s c)\<rparr>"
    by (simp add: guard_ops)
  then show ?case using spin.hyps c
    by (simp only:) (rule guard_inv_step [OF spin.prems], auto simp: cpu_consistent_def cpu_holds_def holds_guard_alt split: if_splits)
next
  case (timer c s t got)
  have c: "cpu_consistent (gcpus s c)" using timer.prems by (simp add: guard_inv_def)
  let ?p = "gcpus s c"
  show ?case
  proof (cases "preempt_count ?p = 0 \<and> local_preempt_count ?p = 0")
    case True
    then have "t = \<lparr>mutation_lock = 1, local_locks = local_locks s,
      gcpus = (gcpus s)(c := if mutation_lock s = 0 then ?p\<lparr>preempt_count := 1\<rparr> else ?p)\<rparr>"
      using timer.hyps by (auto simp: guard_ops)
    then show ?thesis using True c
      by (simp only:) (rule guard_inv_step [OF timer.prems], auto simp: cpu_consistent_def cpu_holds_def holds_guard_alt split: if_splits)
  qed (use timer in \<open>auto simp: guard_ops\<close>)
next
  case (enable c s t)
  have c: "cpu_consistent (gcpus s c)" using enable.prems by (simp add: guard_inv_def)
  let ?p = "gcpus s c"
  have n: "preempt_count ?p \<noteq> 0" using enable.hyps by (auto simp: guard_ops split: if_splits)
  then have "t = \<lparr>mutation_lock = if preempt_count ?p - 1 = 0 then 0 else mutation_lock s, local_locks = local_locks s,
      gcpus = (gcpus s)(c := ?p\<lparr>preempt_count := preempt_count ?p - 1\<rparr>)\<rparr>"
    using enable.hyps by (auto simp: guard_ops)
  then show ?case using enable.hyps c n
    by (simp only:) (rule guard_inv_step [OF enable.prems],
      auto simp: cpu_consistent_def cpu_holds_def holds_guard_alt waiting_def split: if_splits)
next
  case (lock c s l t)
  have c: "cpu_consistent (gcpus s c)" using lock.prems by (simp add: guard_inv_def)
  let ?p = "gcpus s c"
  have t: "t = \<lparr>mutation_lock = mutation_lock s, local_locks = local_locks s,
      gcpus = (gcpus s)(c := ?p\<lparr>local_preempt_count := 1, local_want := Some l\<rparr>)\<rparr>" "local_preempt_count ?p = 0"
    using lock.hyps by (auto simp: guard_ops split: if_splits)
  show ?case unfolding t using lock.hyps c t(2)
    by (intro guard_inv_step [OF lock.prems])
      (auto simp: cpu_consistent_def cpu_holds_def holds_guard_alt waiting_def split: if_splits)
next
  case (turn s c l try_only t)
  have c: "cpu_consistent (gcpus s c)" using turn.prems by (simp add: guard_inv_def)
  let ?p = "gcpus s c"
  have k: "local_preempt_count ?p = 1" "local_held ?p = None"
    using c turn.hyps(1) by (auto simp: cpu_consistent_def split: if_splits)
  have "t = \<lparr>mutation_lock = mutation_lock s, local_locks = (local_locks s)(l := 1),
      gcpus = (gcpus s)(c := if local_locks s l = 0 then ?p\<lparr>local_want := None, local_held := Some l\<rparr>
        else if try_only then ?p\<lparr>local_preempt_count := 0, local_want := None\<rparr> else ?p)\<rparr>"
    using turn.hyps(2) k by (auto simp: guard_ops split: if_splits)
  then show ?case using turn.hyps(1) c k
    by (simp only:) (rule guard_inv_step [OF turn.prems],
      auto simp: cpu_consistent_def cpu_holds_def holds_guard_alt split: if_splits)
next
  case (unlock c s t)
  have c: "cpu_consistent (gcpus s c)" using unlock.prems by (simp add: guard_inv_def)
  let ?p = "gcpus s c"
  show ?case
  proof (cases "local_held ?p")
    case (Some l)
    then have k: "local_preempt_count ?p = 1" "local_want ?p = None" using c by (auto simp: cpu_consistent_def)
    have "t = \<lparr>mutation_lock = mutation_lock s, local_locks = (local_locks s)(l := 0),
      gcpus = (gcpus s)(c := ?p\<lparr>local_preempt_count := 0, local_held := None\<rparr>)\<rparr>"
      using unlock.hyps Some k by (auto simp: guard_ops split: if_splits)
    then show ?thesis using c k Some
      by (simp only:) (rule guard_inv_step [OF unlock.prems],
        auto simp: cpu_consistent_def cpu_holds_def holds_guard_alt split: if_splits)
  qed (use unlock in \<open>auto simp: guard_ops\<close>)
qed

lemma guard_boot_inv: "guard_inv guard_boot"
  by (simp add: guard_inv_def guard_boot_def cpu_consistent_def exclusive_def holds_guard_def)

lemma guard_reachable_inv: "guard_step\<^sup>*\<^sup>* guard_boot s \<Longrightarrow> guard_inv s"
  by (induction rule: rtranclp_induct) (auto intro: guard_boot_inv guard_step_inv)

text \<open>The next turn of the loop a CPU spins in succeeds.\<close>

definition would_get :: "nat \<Rightarrow> guard_state \<Rightarrow> bool" where
  "would_get c s \<longleftrightarrow> (spinning (gcpus s c) \<and> holds_guard c (preempt_disable_spin c s)) \<or>
     (case local_want (gcpus s c) of None \<Rightarrow> False
      | Some l \<Rightarrow> (case local_lock_turn False c l s of None \<Rightarrow> False | Some t \<Rightarrow> local_held (gcpus t c) = Some l))"

lemma would_get_guard:
  assumes "guard_inv s" and "spinning (gcpus s c)" and "mutation_lock s = 0"
  shows "would_get c s"
proof -
  have "preempt_count (gcpus s c) \<noteq> 0" using assms(1,2) by (simp add: guard_inv_def cpu_consistent_def)
  then show ?thesis using assms by (simp add: would_get_def guard_ops holds_guard_def)
qed

lemma would_get_local: "local_want (gcpus s c) = Some l \<Longrightarrow> local_locks s l = 0 \<Longrightarrow> would_get c s"
  by (simp add: would_get_def guard_ops)

lemma local_holder_runs:
  assumes "guard_inv s" and "local_held (gcpus s d) = Some l"
  shows "\<not> waiting d s"
proof -
  have "cpu_consistent (gcpus s d)" using assms(1) by (simp add: guard_inv_def)
  then show ?thesis using assms(2) by (auto simp: waiting_def cpu_consistent_def split: if_splits)
qed

lemma local_waiter:
  assumes "guard_inv s" and "local_want (gcpus s c) = Some l"
  shows "would_get c s \<or> (\<exists>d. \<not> waiting d s \<and> local_held (gcpus s d) \<noteq> None)"
proof (cases "local_locks s l = 0")
  case False
  then obtain d where "local_held (gcpus s d) = Some l" using assms(1) by (auto simp: guard_inv_def exclusive_def)
  then show ?thesis using local_holder_runs [OF assms(1)] by blast
qed (use assms(2) would_get_local in blast)

text \<open>
  C6: whatever the CPUs do, at most one holds the mutation guard and at most one each subsystem lock;
  and they never all wait for each other: while some CPU waits, either the next turn of a waiting CPU
  gets its lock, or some CPU that holds a lock is not waiting.
\<close>

theorem guard_mutual_exclusion:
  assumes "guard_step\<^sup>*\<^sup>* guard_boot s"
  shows "(\<forall>c c'. holds_guard c s \<and> holds_guard c' s \<longrightarrow> c = c') \<and>
    (\<forall>l c c'. local_held (gcpus s c) = Some l \<and> local_held (gcpus s c') = Some l \<longrightarrow> c = c') \<and>
    ((\<exists>c. waiting c s) \<longrightarrow> (\<exists>d. waiting d s \<and> would_get d s) \<or>
      (\<exists>d. \<not> waiting d s \<and> (holds_guard d s \<or> local_held (gcpus s d) \<noteq> None)))"
proof -
  have inv: "guard_inv s" using guard_reachable_inv [OF assms] .
  then have e: "exclusive (\<lambda>c. holds_guard c s) (mutation_lock s = 0)"
    "exclusive (\<lambda>c. local_held (gcpus s c) = Some k) (local_locks s k = 0)" for k
    by (auto simp: guard_inv_def)
  have "(\<exists>d. waiting d s \<and> would_get d s) \<or> (\<exists>d. \<not> waiting d s \<and> (holds_guard d s \<or> local_held (gcpus s d) \<noteq> None))"
    if c: "waiting c s" for c
  proof (cases "local_want (gcpus s c)")
    case (Some l)
    then show ?thesis using local_waiter [OF inv Some] c by blast
  next
    case None
    then have sp: "spinning (gcpus s c)" using c by (simp add: waiting_def)
    show ?thesis
    proof (cases "mutation_lock s = 0")
      case False
      then obtain d where d: "holds_guard d s" using e(1) by (auto simp: exclusive_def)
      then have "\<not> spinning (gcpus s d)" by (simp add: holds_guard_def)
      then show ?thesis using d local_waiter [OF inv, of d] by (cases "local_want (gcpus s d)") (auto simp: waiting_def)
    qed (use would_get_guard [OF inv sp] c in blast)
  qed
  then show ?thesis using exclusive_unique [OF e(1)] exclusive_unique [OF e(2)] by blast
qed

lemma guard_mutual_exclusion_witness:
  "let s = the (preempt_disable_begin 1 (preempt_disable_spin 0 (the (preempt_disable_begin 0 guard_boot)))) in
    holds_guard 0 s \<and> waiting 1 s \<and> (\<forall>c. holds_guard c s \<longrightarrow> c = 0)"
proof -
  define s1 s2 s where "s1 = the (preempt_disable_begin 0 guard_boot)" and "s2 = preempt_disable_spin 0 s1"
    and "s = the (preempt_disable_begin 1 s2)"
  have "guard_step guard_boot s1" by (rule guard_step.disable [of 0]) (simp_all add: s1_def guard_ops guard_boot_def waiting_def)
  moreover have "guard_step s1 s2" unfolding s2_def by (rule guard_step.spin) (simp add: s1_def guard_ops guard_boot_def)
  moreover have "guard_step s2 s"
    by (rule guard_step.disable [of 1]) (simp_all add: s_def s2_def s1_def guard_ops guard_boot_def waiting_def)
  ultimately have r: "guard_step\<^sup>*\<^sup>* guard_boot s" by (meson rtranclp.rtrancl_refl rtranclp.rtrancl_into_rtrancl)
  have "holds_guard 0 s \<and> waiting 1 s" by (simp add: s_def s2_def s1_def guard_ops guard_boot_def waiting_def holds_guard_def)
  then show ?thesis using guard_mutual_exclusion [OF r] by (auto simp: Let_def s_def s2_def s1_def)
qed

end
