(* ===== verification/Tlb.thy ===== *)
theory Tlb
  imports Prelude
begin

text \<open>
  Translation shootdown between CPUs, \<^verbatim>\<open>cpu/tlb.c\<close>. Each step is one access to a mailbox with the code of
  its CPU around it. \<open>stale\<close> holds the pages for which a CPU may still use a translation that the page
  tables no longer have: an edit of the tables adds its page on every CPU, an invalidation removes it,
  and a CPU may forget translations at any time. Edits and shootdowns are made under the VMM lock, so
  they come one after the other. The poll runs with interrupts off, so a CPU is in one poll at a time.
\<close>

section \<open>State\<close>

datatype poll_point = Away | Noticed u64 | Invalidated u64

datatype shooter = Quiet | Posting nat nat u32 | Posted nat u32 | Awaiting nat nat u32 | Finished nat u32

record tlb_cpu =
  tlb_request :: u64
  tlb_ack :: u64
  tlb_online :: bool
  stale :: "u64 set"
  poll_at :: poll_point

record tlb_state =
  tlb_sequence :: u64
  tlb_address :: u64
  tcpus :: "nat \<Rightarrow> tlb_cpu"
  tlb_count :: nat
  shoot :: shooter

definition upd_tcpu :: "nat \<Rightarrow> (tlb_cpu \<Rightarrow> tlb_cpu) \<Rightarrow> tlb_state \<Rightarrow> tlb_state" where
  "upd_tcpu c f s = s\<lparr>tcpus := (tcpus s)(c := f (tcpus s c))\<rparr>"

section \<open>Operations\<close>

definition tlb_invalidate :: "u64 \<Rightarrow> u64 set \<Rightarrow> u64 set" where
  "tlb_invalidate va st = (if va \<noteq> UINT64_MAX then st - {va div 0x1000} else {})"

definition tlb_poll_load :: "nat \<Rightarrow> tlb_state \<Rightarrow> tlb_state" where
  "tlb_poll_load c s =
     (let request = tlb_request (tcpus s c)
      in if request \<noteq> tlb_ack (tcpus s c) then upd_tcpu c (\<lambda>p. p\<lparr>poll_at := Noticed request\<rparr>) s else s)"

definition tlb_poll_invalidate :: "nat \<Rightarrow> tlb_state \<Rightarrow> tlb_state" where
  "tlb_poll_invalidate c s =
     (case poll_at (tcpus s c) of
        Noticed r \<Rightarrow> upd_tcpu c (\<lambda>p. p\<lparr>stale := tlb_invalidate (tlb_address s) (stale p), poll_at := Invalidated r\<rparr>) s
      | _ \<Rightarrow> s)"

definition tlb_poll_ack :: "nat \<Rightarrow> tlb_state \<Rightarrow> tlb_state" where
  "tlb_poll_ack c s =
     (case poll_at (tcpus s c) of
        Invalidated r \<Rightarrow> upd_tcpu c (\<lambda>p. p\<lparr>tlb_ack := r, poll_at := Away\<rparr>) s | _ \<Rightarrow> s)"

definition tlb_shoot_begin :: "nat \<Rightarrow> u64 \<Rightarrow> tlb_state \<Rightarrow> tlb_state" where
  "tlb_shoot_begin self va s =
     s\<lparr>tlb_sequence := tlb_sequence s + 1, tlb_address := va, shoot := Posting self 0 0\<rparr>"

definition tlb_shoot_post :: "tlb_state \<Rightarrow> tlb_state" where
  "tlb_shoot_post s =
     (case shoot s of
        Posting self i targets \<Rightarrow>
          if i < tlb_count s
          then if i = self \<or> \<not> tlb_online (tcpus s i) then s\<lparr>shoot := Posting self (i + 1) targets\<rparr>
               else upd_tcpu i (\<lambda>p. p\<lparr>tlb_request := tlb_sequence s\<rparr>)
                      (s\<lparr>shoot := Posting self (i + 1) (targets OR push_bit i 1)\<rparr>)
          else s\<lparr>shoot := Posted self targets\<rparr>
      | _ \<Rightarrow> s)"

definition tlb_shoot_own :: "tlb_state \<Rightarrow> tlb_state" where
  "tlb_shoot_own s =
     (case shoot s of
        Posted self targets \<Rightarrow>
          upd_tcpu self (\<lambda>p. p\<lparr>stale := tlb_invalidate (tlb_address s) (stale p)\<rparr>) (s\<lparr>shoot := Awaiting self 0 targets\<rparr>)
      | _ \<Rightarrow> s)"

definition tlb_shoot_wait :: "tlb_state \<Rightarrow> tlb_state" where
  "tlb_shoot_wait s =
     (case shoot s of
        Awaiting self i targets \<Rightarrow>
          if i < tlb_count s
          then if \<not> bit targets i \<or> tlb_ack (tcpus s i) = tlb_sequence s
               then s\<lparr>shoot := Awaiting self (i + 1) targets\<rparr> else s
          else s\<lparr>shoot := Finished self targets\<rparr>
      | _ \<Rightarrow> s)"

section \<open>Interleavings\<close>

text \<open>What may happen while a shootdown is under way.\<close>

inductive tlb_busy :: "tlb_state \<Rightarrow> tlb_state \<Rightarrow> bool" where
  load: "poll_at (tcpus s c) = Away \<Longrightarrow> tlb_busy s (tlb_poll_load c s)"
| invalidate: "tlb_busy s (tlb_poll_invalidate c s)"
| ack: "tlb_busy s (tlb_poll_ack c s)"
| post: "tlb_busy s (tlb_shoot_post s)"
| own: "tlb_busy s (tlb_shoot_own s)"
| wait: "tlb_busy s (tlb_shoot_wait s)"
| forget: "tlb_busy s (upd_tcpu c (\<lambda>p. p\<lparr>stale := stale p \<inter> keep\<rparr>) s)"
| online: "tlb_busy s (upd_tcpu c (\<lambda>p. p\<lparr>tlb_online := True\<rparr>) s)"

text \<open>
  In between, the holder of the VMM lock edits the page tables and begins the next shootdown. Fewer than
  $2^{64}$ shootdowns are made.
\<close>

inductive tlb_step :: "tlb_state \<Rightarrow> tlb_state \<Rightarrow> bool" where
  busy: "tlb_busy s t \<Longrightarrow> tlb_step s t"
| edit: "shoot s = Quiet \<Longrightarrow> tlb_step s (s\<lparr>tcpus := \<lambda>c. (tcpus s c)\<lparr>stale := insert page (stale (tcpus s c))\<rparr>\<rparr>)"
| start: "shoot s = Quiet \<Longrightarrow> tlb_sequence s < UINT64_MAX \<Longrightarrow> self < tlb_count s \<Longrightarrow> tlb_step s (tlb_shoot_begin self va s)"
| retire: "shoot s = Finished self targets \<Longrightarrow> tlb_step s (s\<lparr>shoot := Quiet\<rparr>)"

definition tlb_boot :: "nat \<Rightarrow> tlb_state" where
  "tlb_boot n = \<lparr>tlb_sequence = 0, tlb_address = 0,
     tcpus = \<lambda>_. \<lparr>tlb_request = 0, tlb_ack = 0, tlb_online = False, stale = {}, poll_at = Away\<rparr>, tlb_count = n, shoot = Quiet\<rparr>"

section \<open>The protocol's invariant\<close>

definition clean :: "u64 \<Rightarrow> u64 set \<Rightarrow> bool" where
  "clean va st \<longleftrightarrow> tlb_invalidate va st = st"

lemma clean_simps [simp]: "clean va (tlb_invalidate va st)" "clean va st \<Longrightarrow> clean va (st \<inter> K)"
  by (auto simp: clean_def tlb_invalidate_def split: if_splits)

fun posted :: "shooter \<Rightarrow> nat set" where
  "posted Quiet = {}"
| "posted (Posting self i ts) = {c. bit ts c}"
| "posted (Posted self ts) = {c. bit ts c}"
| "posted (Awaiting self i ts) = {c. bit ts c}"
| "posted (Finished self ts) = {c. bit ts c}"

text \<open>A CPU with no request, and one that got the request \<open>q\<close> to invalidate \<open>va\<close>.\<close>

definition idle_box :: "tlb_cpu \<Rightarrow> bool" where
  "idle_box p \<longleftrightarrow> tlb_request p = tlb_ack p \<and> poll_at p = Away"

definition asked_box :: "u64 \<Rightarrow> u64 \<Rightarrow> tlb_cpu \<Rightarrow> bool" where
  "asked_box q va p \<longleftrightarrow> tlb_request p = q \<and>
     (if tlb_ack p = q then poll_at p = Away \<and> clean va (stale p)
      else poll_at p \<in> {Away, Noticed q} \<or> poll_at p = Invalidated q \<and> clean va (stale p))"

definition phase_ok :: "tlb_state \<Rightarrow> bool" where
  "phase_ok s \<longleftrightarrow> (case shoot s of
     Quiet \<Rightarrow> True
   | Posting self i ts \<Rightarrow> \<forall>c. bit ts c \<longrightarrow> c < i
   | Posted self ts \<Rightarrow> True
   | Awaiting self i ts \<Rightarrow> clean (tlb_address s) (stale (tcpus s self)) \<and>
       (\<forall>c < i. bit ts c \<longrightarrow> tlb_ack (tcpus s c) = tlb_sequence s)
   | Finished self ts \<Rightarrow> clean (tlb_address s) (stale (tcpus s self)) \<and>
       (\<forall>c. bit ts c \<longrightarrow> tlb_ack (tcpus s c) = tlb_sequence s))"

definition box_ok :: "tlb_state \<Rightarrow> nat \<Rightarrow> tlb_cpu \<Rightarrow> bool" where
  "box_ok s c p \<longleftrightarrow> tlb_ack p \<le> tlb_sequence s \<and>
     (if c \<in> posted (shoot s) then asked_box (tlb_sequence s) (tlb_address s) p
      else idle_box p \<and> (shoot s = Quiet \<or> tlb_ack p < tlb_sequence s))"

definition tlb_inv :: "tlb_state \<Rightarrow> bool" where
  "tlb_inv s \<longleftrightarrow> tlb_count s \<le> 16 \<and> posted (shoot s) \<subseteq> {..< tlb_count s} \<and> phase_ok s \<and>
     (\<forall>c. box_ok s c (tcpus s c))"

lemma tcpus_upd [simp]:
  "tcpus (upd_tcpu c f s) = (tcpus s)(c := f (tcpus s c))" "tlb_sequence (upd_tcpu c f s) = tlb_sequence s"
  "tlb_address (upd_tcpu c f s) = tlb_address s" "shoot (upd_tcpu c f s) = shoot s" "tlb_count (upd_tcpu c f s) = tlb_count s"
  by (simp_all add: upd_tcpu_def)

text \<open>A change of one mailbox that keeps its state and an acknowledgement made.\<close>

lemma box_step:
  assumes inv: "tlb_inv s" and b: "box_ok s c (f (tcpus s c))"
    and a: "tlb_ack (tcpus s c) = tlb_sequence s \<Longrightarrow> tlb_ack (f (tcpus s c)) = tlb_sequence s"
    and st: "clean (tlb_address s) (stale (tcpus s c)) \<Longrightarrow> clean (tlb_address s) (stale (f (tcpus s c)))"
  shows "tlb_inv (upd_tcpu c f s)"
proof -
  have "box_ok (upd_tcpu c f s) x p = box_ok s x p" for x p by (simp add: box_ok_def)
  moreover have "phase_ok (upd_tcpu c f s)"
    using inv a st by (auto simp: tlb_inv_def phase_ok_def split: shooter.splits)
  ultimately show ?thesis using inv b by (simp add: tlb_inv_def)
qed

lemma poll_load_inv:
  assumes "tlb_inv s" and "poll_at (tcpus s c) = Away"
  shows "tlb_inv (tlb_poll_load c s)"
proof (cases "tlb_request (tcpus s c) = tlb_ack (tcpus s c)")
  case False
  have b: "box_ok s c (tcpus s c)" using assms(1) by (simp add: tlb_inv_def)
  have "tlb_inv (upd_tcpu c (\<lambda>p. p\<lparr>poll_at := Noticed (tlb_request (tcpus s c))\<rparr>) s)"
    by (rule box_step [OF assms(1)])
      (use b False in \<open>auto simp: box_ok_def asked_box_def idle_box_def split: if_splits\<close>)
  then show ?thesis using False by (simp add: tlb_poll_load_def Let_def)
qed (use assms(1) in \<open>simp add: tlb_poll_load_def\<close>)

lemma poll_invalidate_inv:
  assumes "tlb_inv s"
  shows "tlb_inv (tlb_poll_invalidate c s)"
proof (cases "poll_at (tcpus s c)")
  case (Noticed r)
  have b: "box_ok s c (tcpus s c)" using assms(1) by (simp add: tlb_inv_def)
  have "tlb_inv (upd_tcpu c (\<lambda>p. p\<lparr>stale := tlb_invalidate (tlb_address s) (stale p), poll_at := Invalidated r\<rparr>) s)"
    by (rule box_step [OF assms(1)])
      (use b Noticed in \<open>auto simp: box_ok_def asked_box_def idle_box_def split: if_splits\<close>)
  then show ?thesis using Noticed by (simp add: tlb_poll_invalidate_def)
qed (use assms(1) in \<open>simp_all add: tlb_poll_invalidate_def\<close>)

lemma poll_ack_inv:
  assumes "tlb_inv s"
  shows "tlb_inv (tlb_poll_ack c s)"
proof (cases "poll_at (tcpus s c)")
  case (Invalidated r)
  have b: "box_ok s c (tcpus s c)" using assms(1) by (simp add: tlb_inv_def)
  have "tlb_inv (upd_tcpu c (\<lambda>p. p\<lparr>tlb_ack := r, poll_at := Away\<rparr>) s)"
    by (rule box_step [OF assms(1)])
      (use b Invalidated in \<open>auto simp: box_ok_def asked_box_def idle_box_def split: if_splits\<close>)
  then show ?thesis using Invalidated by (simp add: tlb_poll_ack_def)
qed (use assms(1) in \<open>simp_all add: tlb_poll_ack_def\<close>)

text \<open>A change of phase that posts no request.\<close>

lemma phase_step:
  assumes "tlb_inv s" and "posted sh = posted (shoot s)" and "shoot s \<noteq> Quiet" and "phase_ok (s\<lparr>shoot := sh\<rparr>)"
  shows "tlb_inv (s\<lparr>shoot := sh\<rparr>)"
proof -
  have "box_ok (s\<lparr>shoot := sh\<rparr>) c p" if "box_ok s c p" for c p
    using that assms(2,3) by (simp add: box_ok_def split: if_splits)
  then show ?thesis using assms(1,2,4) by (simp add: tlb_inv_def)
qed

lemma post_bit: "i < 16 \<Longrightarrow> bit (ts OR push_bit i (1 :: u32)) c \<longleftrightarrow> bit ts c \<or> c = i"
  by (auto simp: bit_simps)

lemma shoot_post_inv:
  assumes inv: "tlb_inv s"
  shows "tlb_inv (tlb_shoot_post s)"
proof (cases "shoot s")
  case (Posting self i ts)
  have ph: "\<forall>c. bit ts c \<longrightarrow> c < i" "tlb_count s \<le> 16" using inv Posting by (auto simp: tlb_inv_def phase_ok_def)
  show ?thesis
  proof (cases "i < tlb_count s \<and> i \<noteq> self \<and> tlb_online (tcpus s i)")
    case True
    let ?ts = "ts OR push_bit i 1"
    define t where "t = upd_tcpu i (\<lambda>p. p\<lparr>tlb_request := tlb_sequence s\<rparr>) (s\<lparr>shoot := Posting self (i + 1) ?ts\<rparr>)"
    have bt: "bit ?ts c \<longleftrightarrow> bit ts c \<or> c = i" for c using post_bit True ph(2) by simp
    have "\<not> bit ts i" using ph(1) by blast
    then have bi: "idle_box (tcpus s i)" "tlb_ack (tcpus s i) < tlb_sequence s"
      using inv Posting by (auto simp: tlb_inv_def box_ok_def split: if_splits)
    have "box_ok t c (tcpus t c)" for c
      using inv bt bi Posting by (auto simp: tlb_inv_def box_ok_def t_def asked_box_def idle_box_def split: if_splits)
    moreover have "phase_ok t" using ph(1) bt by (auto simp: phase_ok_def t_def less_Suc_eq)
    moreover have "posted (shoot t) \<subseteq> {..< tlb_count t}" using ph(1) bt True by (force simp: t_def)
    ultimately have "tlb_inv t" using ph(2) by (simp add: tlb_inv_def t_def)
    then show ?thesis using True Posting by (simp add: tlb_shoot_post_def t_def)
  next
    case False
    have "tlb_inv (s\<lparr>shoot := Posting self (i + 1) ts\<rparr>)"
      by (rule phase_step [OF inv]) (use Posting ph(1) in \<open>auto simp: phase_ok_def less_Suc_eq\<close>)
    moreover have "tlb_inv (s\<lparr>shoot := Posted self ts\<rparr>)"
      by (rule phase_step [OF inv]) (use Posting in \<open>auto simp: phase_ok_def\<close>)
    ultimately show ?thesis using False Posting by (auto simp: tlb_shoot_post_def)
  qed
qed (use inv in \<open>simp_all add: tlb_shoot_post_def\<close>)

lemma shoot_own_inv:
  assumes inv: "tlb_inv s"
  shows "tlb_inv (tlb_shoot_own s)"
proof (cases "shoot s")
  case (Posted self ts)
  have b: "box_ok s self (tcpus s self)" using inv by (simp add: tlb_inv_def)
  define t where "t = upd_tcpu self (\<lambda>p. p\<lparr>stale := tlb_invalidate (tlb_address s) (stale p)\<rparr>) s"
  have t: "tlb_inv t" unfolding t_def
    by (rule box_step [OF inv]) (use b in \<open>auto simp: box_ok_def asked_box_def idle_box_def split: if_splits\<close>)
  have "tlb_inv (t\<lparr>shoot := Awaiting self 0 ts\<rparr>)"
    by (rule phase_step [OF t]) (simp_all add: phase_ok_def t_def Posted)
  moreover have "tlb_shoot_own s = t\<lparr>shoot := Awaiting self 0 ts\<rparr>"
    by (simp add: tlb_shoot_own_def Posted t_def upd_tcpu_def)
  ultimately show ?thesis by simp
qed (use inv in \<open>simp_all add: tlb_shoot_own_def\<close>)

lemma shoot_wait_inv:
  assumes inv: "tlb_inv s"
  shows "tlb_inv (tlb_shoot_wait s)"
proof (cases "shoot s")
  case (Awaiting self i ts)
  have ph: "clean (tlb_address s) (stale (tcpus s self))" "\<forall>c < i. bit ts c \<longrightarrow> tlb_ack (tcpus s c) = tlb_sequence s"
    using inv Awaiting by (auto simp: tlb_inv_def phase_ok_def)
  have bits: "\<forall>c. bit ts c \<longrightarrow> c < tlb_count s" using inv Awaiting by (auto simp: tlb_inv_def)
  have "tlb_inv (s\<lparr>shoot := Awaiting self (i + 1) ts\<rparr>)" if "\<not> bit ts i \<or> tlb_ack (tcpus s i) = tlb_sequence s"
    by (rule phase_step [OF inv]) (use Awaiting ph that in \<open>auto simp: phase_ok_def less_Suc_eq\<close>)
  moreover have "tlb_inv (s\<lparr>shoot := Finished self ts\<rparr>)" if "\<not> i < tlb_count s"
    by (rule phase_step [OF inv]) (use Awaiting ph bits that in \<open>auto simp: phase_ok_def\<close>)
  ultimately show ?thesis using inv Awaiting by (auto simp: tlb_shoot_wait_def)
qed (use inv in \<open>simp_all add: tlb_shoot_wait_def\<close>)

lemma tlb_busy_inv: "tlb_busy s t \<Longrightarrow> tlb_inv s \<Longrightarrow> tlb_inv t"
proof (induction rule: tlb_busy.induct)
  case (forget s c keep)
  have "box_ok s c (tcpus s c)" using forget by (simp add: tlb_inv_def)
  then show ?case
    by (intro box_step [OF forget]) (auto simp: box_ok_def asked_box_def idle_box_def split: if_splits)
next
  case (online s c)
  have "box_ok s c (tcpus s c)" using online by (simp add: tlb_inv_def)
  then show ?case
    by (intro box_step [OF online]) (auto simp: box_ok_def asked_box_def idle_box_def split: if_splits)
qed (simp_all add: poll_load_inv poll_invalidate_inv poll_ack_inv shoot_post_inv shoot_own_inv shoot_wait_inv)

lemma begin_inv:
  assumes inv: "tlb_inv s" and q: "shoot s = Quiet" and n: "tlb_sequence s < UINT64_MAX"
  shows "tlb_inv (tlb_shoot_begin self va s)"
proof -
  have "tlb_sequence s < tlb_sequence s + 1" using n by (auto simp: word_less_nat_alt unat_word_ariths)
  then have "tlb_ack p \<le> tlb_sequence s \<Longrightarrow> tlb_ack p < tlb_sequence s + 1" for p :: tlb_cpu
    using le_less_trans by blast
  then show ?thesis using inv q
    by (auto simp: tlb_inv_def tlb_shoot_begin_def phase_ok_def box_ok_def less_imp_le)
qed

lemma retire_inv:
  assumes inv: "tlb_inv s" and f: "shoot s = Finished self ts"
  shows "tlb_inv (s\<lparr>shoot := Quiet\<rparr>)"
proof -
  have "idle_box (tcpus s c)" for c
  proof -
    have "box_ok s c (tcpus s c)" "bit ts c \<longrightarrow> tlb_ack (tcpus s c) = tlb_sequence s"
      using inv f by (auto simp: tlb_inv_def phase_ok_def)
    then show ?thesis using f by (cases "bit ts c") (auto simp: box_ok_def asked_box_def idle_box_def)
  qed
  then show ?thesis using inv by (simp add: tlb_inv_def phase_ok_def box_ok_def)
qed

lemma tlb_step_inv: "tlb_step s t \<Longrightarrow> tlb_inv s \<Longrightarrow> tlb_inv t"
proof (induction rule: tlb_step.induct)
  case (edit s page)
  then show ?case by (auto simp: tlb_inv_def phase_ok_def box_ok_def idle_box_def)
qed (simp_all add: tlb_busy_inv begin_inv retire_inv)

lemma tlb_reachable_inv: "tlb_step\<^sup>*\<^sup>* (tlb_boot n) s \<Longrightarrow> n \<le> 16 \<Longrightarrow> tlb_inv s"
proof (induction rule: rtranclp_induct)
  case base
  then show ?case by (simp add: tlb_inv_def tlb_boot_def phase_ok_def box_ok_def idle_box_def)
qed (simp add: tlb_step_inv)

section \<open>Completeness and progress\<close>

text \<open>Every CPU of \<open>on\<close> other than the initiator has been asked, as far as the posting has come.\<close>

definition covers :: "nat set \<Rightarrow> nat \<Rightarrow> tlb_state \<Rightarrow> bool" where
  "covers on self s \<longleftrightarrow> (\<forall>c \<in> on. tlb_online (tcpus s c)) \<and>
     (case shoot s of Quiet \<Rightarrow> False
      | Posting self' i ts \<Rightarrow> self' = self \<and> (\<forall>c \<in> on. c < i \<and> c \<noteq> self \<longrightarrow> bit ts c)
      | Posted self' ts \<Rightarrow> self' = self \<and> (\<forall>c \<in> on. c < tlb_count s \<and> c \<noteq> self \<longrightarrow> bit ts c)
      | Awaiting self' i ts \<Rightarrow> self' = self \<and> (\<forall>c \<in> on. c < tlb_count s \<and> c \<noteq> self \<longrightarrow> bit ts c)
      | Finished self' ts \<Rightarrow> self' = self \<and> (\<forall>c \<in> on. c < tlb_count s \<and> c \<noteq> self \<longrightarrow> bit ts c))"

lemma busy_covers:
  "tlb_busy s t \<Longrightarrow> tlb_inv s \<Longrightarrow> covers on self s \<Longrightarrow>
    covers on self t \<and> tlb_address t = tlb_address s \<and> tlb_count t = tlb_count s"
proof (induction rule: tlb_busy.induct)
  case (post s)
  then show ?case
  proof (cases "shoot s")
    case (Posting self' i ts)
    have "tlb_count s \<le> 16" using post by (simp add: tlb_inv_def)
    then show ?thesis using post(2) Posting post_bit [of i ts]
      by (auto simp: covers_def tlb_shoot_post_def less_Suc_eq)
  qed (simp_all add: tlb_shoot_post_def)
next
  case (own s)
  then show ?case by (cases "shoot s") (auto simp: covers_def tlb_shoot_own_def)
next
  case (wait s)
  then show ?case by (cases "shoot s") (auto simp: covers_def tlb_shoot_wait_def)
next
  case (load s c)
  then show ?case by (auto simp: covers_def tlb_poll_load_def Let_def split: shooter.splits)
next
  case (invalidate s c)
  then show ?case by (cases "poll_at (tcpus s c)") (auto simp: covers_def tlb_poll_invalidate_def split: shooter.splits)
next
  case (ack s c)
  then show ?case by (cases "poll_at (tcpus s c)") (auto simp: covers_def tlb_poll_ack_def split: shooter.splits)
qed (auto simp: covers_def split: shooter.splits)

lemma busy_reach:
  "tlb_busy\<^sup>*\<^sup>* s t \<Longrightarrow> tlb_inv s \<Longrightarrow> covers on self s \<Longrightarrow>
    tlb_inv t \<and> covers on self t \<and> tlb_address t = tlb_address s \<and> tlb_count t = tlb_count s"
proof (induction rule: rtranclp_induct)
  case (step t u)
  then show ?case using busy_covers [OF step.hyps(2)] tlb_busy_inv [OF step.hyps(2)] by auto
qed simp

lemma finished_clean:
  assumes "tlb_inv t" and "covers on self t" and "shoot t = Finished self' ts" and "c \<in> on \<and> c < tlb_count t \<or> c = self"
  shows "clean (tlb_address t) (stale (tcpus t c))"
proof (cases "c = self")
  case True
  then show ?thesis using assms by (auto simp: tlb_inv_def phase_ok_def covers_def)
next
  case False
  then have "bit ts c" using assms by (auto simp: covers_def)
  moreover have "box_ok t c (tcpus t c)" "bit ts c \<longrightarrow> tlb_ack (tcpus t c) = tlb_sequence t"
    using assms(1,3) by (auto simp: tlb_inv_def phase_ok_def)
  ultimately show ?thesis using assms(3) by (simp add: box_ok_def asked_box_def)
qed

text \<open>A CPU that polls answers: three steps later its acknowledgement is there, and the phase is the same.\<close>

lemma poll_answers:
  assumes inv: "tlb_inv s" and c: "c \<in> posted (shoot s)"
  shows "\<exists>t. tlb_busy\<^sup>*\<^sup>* s t \<and> shoot t = shoot s \<and> tlb_count t = tlb_count s \<and> tlb_sequence t = tlb_sequence s \<and>
    tlb_ack (tcpus t c) = tlb_sequence t"
proof -
  let ?q = "tlb_sequence s"
  have ack: "\<exists>t. tlb_busy\<^sup>*\<^sup>* u t \<and> shoot t = shoot u \<and> tlb_count t = tlb_count u \<and> tlb_sequence t = tlb_sequence u \<and>
      tlb_ack (tcpus t c) = tlb_sequence t" if "poll_at (tcpus u c) = Invalidated (tlb_sequence u)" for u
    using that by (intro exI [of _ "tlb_poll_ack c u"]) (simp add: r_into_rtranclp tlb_busy.ack, simp add: tlb_poll_ack_def)
  have inval: "\<exists>t. tlb_busy\<^sup>*\<^sup>* u t \<and> shoot t = shoot u \<and> tlb_count t = tlb_count u \<and> tlb_sequence t = tlb_sequence u \<and>
      tlb_ack (tcpus t c) = tlb_sequence t" if n: "poll_at (tcpus u c) = Noticed (tlb_sequence u)" for u
  proof -
    let ?v = "tlb_poll_invalidate c u"
    have v: "poll_at (tcpus ?v c) = Invalidated (tlb_sequence ?v)" "shoot ?v = shoot u" "tlb_count ?v = tlb_count u"
      "tlb_sequence ?v = tlb_sequence u"
      using n by (simp_all add: tlb_poll_invalidate_def)
    from ack [OF v(1)] obtain t where "tlb_busy\<^sup>*\<^sup>* ?v t" "shoot t = shoot ?v" "tlb_count t = tlb_count ?v"
      "tlb_sequence t = tlb_sequence ?v" "tlb_ack (tcpus t c) = tlb_sequence t" by blast
    then show ?thesis using v by (intro exI [of _ t]) (auto intro: converse_rtranclp_into_rtranclp tlb_busy.invalidate)
  qed
  have "asked_box ?q (tlb_address s) (tcpus s c)" using inv c by (auto simp: tlb_inv_def box_ok_def split: if_splits)
  then consider "tlb_ack (tcpus s c) = ?q" | "tlb_ack (tcpus s c) \<noteq> ?q" "poll_at (tcpus s c) = Away" "tlb_request (tcpus s c) = ?q"
    | "poll_at (tcpus s c) = Noticed ?q" | "poll_at (tcpus s c) = Invalidated ?q"
    by (auto simp: asked_box_def split: if_splits)
  then show ?thesis
  proof cases
    case 2
    let ?v = "tlb_poll_load c s"
    have v: "poll_at (tcpus ?v c) = Noticed (tlb_sequence ?v)" "shoot ?v = shoot s" "tlb_count ?v = tlb_count s"
      "tlb_sequence ?v = tlb_sequence s"
      using 2 by (simp_all add: tlb_poll_load_def Let_def)
    from inval [OF v(1)] obtain t where "tlb_busy\<^sup>*\<^sup>* ?v t" "shoot t = shoot ?v" "tlb_count t = tlb_count ?v"
      "tlb_sequence t = tlb_sequence ?v" "tlb_ack (tcpus t c) = tlb_sequence t" by blast
    then show ?thesis using v 2(2) by (intro exI [of _ t]) (auto intro: converse_rtranclp_into_rtranclp tlb_busy.load)
  qed (use ack inval in \<open>auto intro: exI [of _ s]\<close>)
qed

lemma busy_inv_star: "tlb_busy\<^sup>*\<^sup>* s t \<Longrightarrow> tlb_inv s \<Longrightarrow> tlb_inv t"
  by (induction rule: rtranclp_induct) (simp_all add: tlb_busy_inv)

lemma await_finishes:
  "tlb_inv s \<Longrightarrow> shoot s = Awaiting self i ts \<Longrightarrow> \<exists>t. tlb_busy\<^sup>*\<^sup>* s t \<and> shoot t = Finished self ts"
proof (induction "tlb_count s - i" arbitrary: s i)
  case 0
  then have "shoot (tlb_shoot_wait s) = Finished self ts" by (simp add: tlb_shoot_wait_def)
  then show ?case using tlb_busy.wait by blast
next
  case (Suc k)
  then have i: "i < tlb_count s" by linarith
  obtain u where u: "tlb_busy\<^sup>*\<^sup>* s u" "shoot u = shoot s" "tlb_count u = tlb_count s" "tlb_inv u"
    "\<not> bit ts i \<or> tlb_ack (tcpus u i) = tlb_sequence u"
  proof (cases "bit ts i")
    case True
    then obtain t where t: "tlb_busy\<^sup>*\<^sup>* s t" "shoot t = shoot s" "tlb_count t = tlb_count s"
      "tlb_ack (tcpus t i) = tlb_sequence t"
      using poll_answers [OF Suc.prems(1), of i] Suc.prems(2) by auto
    then show ?thesis using that [OF t(1-3)] busy_inv_star [OF t(1) Suc.prems(1)] by blast
  qed (use Suc.prems(1) that in blast)
  let ?v = "tlb_shoot_wait u"
  have v: "shoot ?v = Awaiting self (i + 1) ts" "tlb_count ?v = tlb_count s"
    using u Suc.prems(2) i by (auto simp: tlb_shoot_wait_def)
  have "tlb_inv ?v" using shoot_wait_inv [OF u(4)] .
  moreover have "k = tlb_count ?v - (i + 1)" using Suc.hyps(2) v(2) by linarith
  ultimately obtain t where "tlb_busy\<^sup>*\<^sup>* ?v t" "shoot t = Finished self ts"
    using Suc.hyps(1) [of ?v "i + 1"] v(1) by blast
  moreover have "tlb_busy\<^sup>*\<^sup>* s ?v" using u(1) tlb_busy.wait by (rule rtranclp.rtrancl_into_rtrancl)
  ultimately show ?case by (meson rtranclp_trans)
qed

lemma post_finishes:
  "tlb_inv s \<Longrightarrow> shoot s = Posting self i ts \<Longrightarrow> \<exists>t ts'. tlb_busy\<^sup>*\<^sup>* s t \<and> shoot t = Posted self ts'"
proof (induction "tlb_count s - i" arbitrary: s i ts)
  case 0
  then have "shoot (tlb_shoot_post s) = Posted self ts" by (simp add: tlb_shoot_post_def)
  then show ?case using tlb_busy.post by blast
next
  case (Suc k)
  let ?v = "tlb_shoot_post s"
  have "\<exists>ts'. shoot ?v = Posting self (i + 1) ts' \<and> tlb_count ?v = tlb_count s"
    using Suc.prems(2) Suc.hyps(2) by (auto simp: tlb_shoot_post_def)
  then obtain ts' where v: "shoot ?v = Posting self (i + 1) ts'" "tlb_count ?v = tlb_count s" by blast
  have "k = tlb_count ?v - (i + 1)" using Suc.hyps(2) v(2) by linarith
  then obtain t ts2 where "tlb_busy\<^sup>*\<^sup>* ?v t" "shoot t = Posted self ts2"
    using Suc.hyps(1) [of ?v "i + 1"] v(1) shoot_post_inv [OF Suc.prems(1)] by blast
  then show ?case by (meson converse_rtranclp_into_rtranclp tlb_busy.post)
qed

lemma posted_finishes:
  assumes "tlb_inv s" and "shoot s = Posted self ts"
  shows "\<exists>t. tlb_busy\<^sup>*\<^sup>* s t \<and> shoot t = Finished self ts"
proof -
  have "shoot (tlb_shoot_own s) = Awaiting self 0 ts" using assms(2) by (simp add: tlb_shoot_own_def)
  from await_finishes [OF shoot_own_inv [OF assms(1)] this] show ?thesis
    by (meson converse_rtranclp_into_rtranclp tlb_busy.own)
qed

lemma shootdown_finishes:
  assumes inv: "tlb_inv s" and c: "covers on self s"
  shows "\<exists>t ts. tlb_busy\<^sup>*\<^sup>* s t \<and> shoot t = Finished self ts"
proof (cases "shoot s")
  case (Posting self' i ts)
  then have "self' = self" using c by (simp add: covers_def)
  then obtain t ts' where t: "tlb_busy\<^sup>*\<^sup>* s t" "shoot t = Posted self ts'" using post_finishes [OF inv Posting] by blast
  then show ?thesis using posted_finishes [OF busy_inv_star [OF t(1) inv] t(2)] by (meson rtranclp_trans)
qed (use c posted_finishes [OF inv] await_finishes [OF inv] in \<open>auto simp: covers_def\<close>)

lemma step_count: "tlb_step s t \<Longrightarrow> tlb_inv s \<Longrightarrow> tlb_count t = tlb_count s"
proof (induction rule: tlb_step.induct)
  case (busy s t)
  then show ?case
    by (induction rule: tlb_busy.induct)
      (auto simp: tlb_poll_load_def tlb_poll_invalidate_def tlb_poll_ack_def tlb_shoot_post_def tlb_shoot_own_def
        tlb_shoot_wait_def Let_def split: poll_point.splits shooter.splits)
qed (simp_all add: tlb_shoot_begin_def)

lemma reachable_count: "tlb_step\<^sup>*\<^sup>* (tlb_boot n) s \<Longrightarrow> n \<le> 16 \<Longrightarrow> tlb_count s = n"
  by (induction rule: rtranclp_induct) (simp_all add: step_count tlb_reachable_inv, simp add: tlb_boot_def)

text \<open>
  C7: however the CPUs interleave, when a shootdown returns, no CPU that was online at its start, nor the
  initiator, uses an old translation of the page (of any page, for a full flush); and a shootdown under
  way can always be completed by the CPUs polling: no state is a deadlock.
\<close>

theorem tlb_shootdown_complete:
  assumes "tlb_step\<^sup>*\<^sup>* (tlb_boot n) s" and "n \<le> 16" and "shoot s = Quiet" and "tlb_sequence s < UINT64_MAX"
    and "tlb_busy\<^sup>*\<^sup>* (tlb_shoot_begin self va s) t"
  shows "(\<forall>self' ts. shoot t = Finished self' ts \<longrightarrow>
      (\<forall>c < n. tlb_online (tcpus s c) \<or> c = self \<longrightarrow>
        (if va = UINT64_MAX then stale (tcpus t c) = {} else va div 0x1000 \<notin> stale (tcpus t c)))) \<and>
    (\<exists>u ts. tlb_busy\<^sup>*\<^sup>* t u \<and> shoot u = Finished self ts)"
proof -
  let ?b = "tlb_shoot_begin self va s" and ?on = "{c. tlb_online (tcpus s c)}"
  have inv: "tlb_inv ?b" using begin_inv [OF tlb_reachable_inv [OF assms(1,2)] assms(3,4)] .
  have cov: "covers ?on self ?b" by (simp add: covers_def tlb_shoot_begin_def)
  have b: "tlb_address ?b = va" "tlb_count ?b = n"
    using reachable_count [OF assms(1,2)] by (simp_all add: tlb_shoot_begin_def)
  have t: "tlb_inv t" "covers ?on self t" "tlb_address t = va" "tlb_count t = n"
    using busy_reach [OF assms(5) inv cov] b by auto
  have "if va = UINT64_MAX then stale (tcpus t c) = {} else va div 0x1000 \<notin> stale (tcpus t c)"
    if "shoot t = Finished self' ts" "c < n" "tlb_online (tcpus s c) \<or> c = self" for self' ts c
  proof -
    have "clean va (stale (tcpus t c))" using finished_clean [OF t(1,2) that(1), of c] t(3,4) that(2,3) by auto
    then show ?thesis by (auto simp: clean_def tlb_invalidate_def split: if_splits)
  qed
  then show ?thesis using shootdown_finishes [OF t(1,2)] by blast
qed

text \<open>Two CPUs: CPU 1 has come online and the page 5 was edited before CPU 0 shoots it down.\<close>

definition edited :: tlb_state where
  "edited = (upd_tcpu 1 (\<lambda>p. p\<lparr>tlb_online := True\<rparr>) (tlb_boot 2))
     \<lparr>tcpus := \<lambda>c. (tcpus (upd_tcpu 1 (\<lambda>p. p\<lparr>tlb_online := True\<rparr>) (tlb_boot 2)) c)\<lparr>stale := insert 5 (stale (tcpus (upd_tcpu 1 (\<lambda>p. p\<lparr>tlb_online := True\<rparr>) (tlb_boot 2)) c))\<rparr>\<rparr>"

lemma tlb_shootdown_complete_witness:
  "5 \<in> stale (tcpus edited 1) \<and> (\<exists>t ts. tlb_busy\<^sup>*\<^sup>* (tlb_shoot_begin 0 0x5000 edited) t \<and> shoot t = Finished 0 ts \<and> 5 \<notin> stale (tcpus t 1))"
proof -
  let ?o = "upd_tcpu 1 (\<lambda>p. p\<lparr>tlb_online := True\<rparr>) (tlb_boot 2)"
  have "tlb_step (tlb_boot 2) ?o" by (intro tlb_step.busy tlb_busy.online)
  moreover have "tlb_step ?o edited" unfolding edited_def by (rule tlb_step.edit) (simp add: tlb_boot_def)
  ultimately have r: "tlb_step\<^sup>*\<^sup>* (tlb_boot 2) edited" by (meson rtranclp.rtrancl_refl rtranclp.rtrancl_into_rtrancl)
  have q: "(2 :: nat) \<le> 16" "shoot edited = Quiet" "tlb_sequence edited < UINT64_MAX"
    by (simp_all add: edited_def tlb_boot_def)
  note c = tlb_shootdown_complete [OF r q, of 0 "0x5000"]
  obtain t ts where t: "tlb_busy\<^sup>*\<^sup>* (tlb_shoot_begin 0 0x5000 edited) t" "shoot t = Finished 0 ts"
    using c [OF rtranclp.rtrancl_refl] by blast
  have "tlb_online (tcpus edited 1)" "5 \<in> stale (tcpus edited 1)" by (simp_all add: edited_def)
  then show ?thesis using c [OF t(1)] t by fastforce
qed

end
