(* ===== verification/Pci.thy ===== *)
theory Pci
  imports Ports
begin

text \<open>
  The inventory of the PCI bus, \<^verbatim>\<open>drivers/pci.c\<close>. The array of devices with its count is a list. Each
  configuration access is the pair of an address write and a data access, which the code serializes
  with a lock. The fields of an initializer are read in the order of the text.
\<close>

section \<open>State\<close>

record pci_device =
  pd_vendor :: u16
  pd_device :: u16
  pd_bus :: u8
  pd_slot :: u8
  pd_function :: u8
  pd_class :: u8
  pd_subclass :: u8
  pd_prog_if :: u8
  pd_irq :: u8
  pd_header :: u8
  pd_bar :: "u32 list"

record pci_state = pic_state +
  pci_devices :: "pci_device list"

abbreviation PCI_MAX_DEVICES :: nat where "PCI_MAX_DEVICES \<equiv> 128"
abbreviation PCI_ADDRESS :: u16 where "PCI_ADDRESS \<equiv> 0xcf8"
abbreviation PCI_DATA :: u16 where "PCI_DATA \<equiv> 0xcfc"

section \<open>Configuration space\<close>

definition pci_config :: "u32 \<Rightarrow> u32 \<Rightarrow> u32 \<Rightarrow> u32 \<Rightarrow> 'a port_state_scheme \<Rightarrow> u32 \<times> 'a port_state_scheme" where
  "pci_config bus slot fn reg s =
     inl PCI_DATA (outl PCI_ADDRESS
       (0x80000000 OR push_bit 16 bus OR push_bit 11 slot OR push_bit 8 fn OR (reg AND 252)) s)"

primrec pci_bars ::
    "u32 \<Rightarrow> u32 \<Rightarrow> u32 \<Rightarrow> u32 list \<Rightarrow> 'a port_state_scheme \<Rightarrow> u32 list \<times> 'a port_state_scheme" where
  "pci_bars bus slot fn [] s = ([], s)"
| "pci_bars bus slot fn (i # is) s =
     (let (v, s) = pci_config bus slot fn (16 + 4 * i) s;
          (vs, s) = pci_bars bus slot fn is s
      in (v # vs, s))"

definition pci_describe ::
    "u32 \<Rightarrow> u32 \<Rightarrow> u32 \<Rightarrow> u32 \<Rightarrow> 'a port_state_scheme \<Rightarrow> pci_device \<times> 'a port_state_scheme" where
  "pci_describe bus slot fn ident s =
     (let (cls, s) = pci_config bus slot fn 8 s;
          (h, s) = pci_config bus slot fn 12 s;
          (irq, s) = pci_config bus slot fn 60 s;
          header = ucast (drop_bit 16 h AND 127) :: u8;
          bars = (if header = 0 then [0, 1, 2, 3, 4, 5] else if header = 1 then [0, 1] else []);
          (vs, s) = pci_bars bus slot fn bars s
      in (\<lparr>pd_vendor = ucast ident, pd_device = ucast (drop_bit 16 ident), pd_bus = ucast bus,
            pd_slot = ucast slot, pd_function = ucast fn, pd_class = ucast (drop_bit 24 cls),
            pd_subclass = ucast (drop_bit 16 cls), pd_prog_if = ucast (drop_bit 8 cls),
            pd_irq = ucast irq, pd_header = header, pd_bar = vs @ replicate (6 - length vs) 0\<rparr>, s))"

section \<open>The scan\<close>

text \<open>The result tells that the inventory is full, which ends the scan.\<close>

primrec pci_functions ::
    "u32 \<Rightarrow> u32 \<Rightarrow> u32 list \<Rightarrow> 'a pci_state_scheme \<Rightarrow> bool \<times> 'a pci_state_scheme" where
  "pci_functions bus slot [] s = (False, s)"
| "pci_functions bus slot (fn # fns) s =
     (let (ident, s) = pci_config bus slot fn 0 s
      in if ident AND 65535 = 65535 then pci_functions bus slot fns s
         else if length (pci_devices s) = PCI_MAX_DEVICES then (True, s)
         else let (d, s) = pci_describe bus slot fn ident s
              in pci_functions bus slot fns (s\<lparr>pci_devices := pci_devices s @ [d]\<rparr>))"

primrec pci_slots :: "(u32 \<times> u32) list \<Rightarrow> 'a pci_state_scheme \<Rightarrow> 'a pci_state_scheme" where
  "pci_slots [] s = s"
| "pci_slots (x # xs) s =
     (let (bus, slot) = x;
          (ident, s) = pci_config bus slot 0 0 s
      in if ident AND 65535 = 65535 then pci_slots xs s
         else let (h, s) = pci_config bus slot 0 12 s;
                  (full, s) = pci_functions bus slot
                    (if h AND push_bit 23 1 \<noteq> 0 then [0, 1, 2, 3, 4, 5, 6, 7] else [0]) s
              in if full then s else pci_slots xs s)"

definition pci_init :: "'a pci_state_scheme \<Rightarrow> 'a pci_state_scheme" where
  "pci_init s =
     pci_slots (List.product (map of_nat [0..<256]) (map of_nat [0..<32])) (s\<lparr>pci_devices := []\<rparr>)"

definition pci_count :: "'a pci_state_scheme \<Rightarrow> u32" where
  "pci_count s = of_nat (length (pci_devices s))"

definition pci_get :: "u32 \<Rightarrow> 'a pci_state_scheme \<Rightarrow> pci_device option" where
  "pci_get i s = (if i \<ge> pci_count s then None else Some (pci_devices s ! unat i))"

definition pci_update_command ::
    "pci_device \<Rightarrow> u16 \<Rightarrow> u16 \<Rightarrow> 'a port_state_scheme \<Rightarrow> 'a port_state_scheme" where
  "pci_update_command d set_bits clear_bits s =
     (let (command, s) = pci_config (ucast (pd_bus d)) (ucast (pd_slot d)) (ucast (pd_function d)) 4 s
      in outw PCI_DATA ((ucast command OR set_bits) AND NOT clear_bits) s)"

section \<open>What the scan leaves alone\<close>

text \<open>Only addresses are written: no register of a device changes.\<close>

definition addresses_only :: "'a port_state_scheme \<Rightarrow> 'b port_state_scheme \<Rightarrow> bool" where
  "addresses_only s s' \<longleftrightarrow> (\<exists>ws. written s' = written s @ ws \<and> fst ` set ws \<subseteq> {PCI_ADDRESS})"

lemma addresses_refl [simp]: "addresses_only s s"
  by (simp add: addresses_only_def)

lemma addresses_trans: "addresses_only s t \<Longrightarrow> addresses_only t u \<Longrightarrow> addresses_only s u"
  unfolding addresses_only_def by fastforce

lemma pci_config_keeps:
  assumes "pci_config bus slot fn reg s = (v, s')"
  shows "addresses_only s s'" and "port_state.more s' = port_state.more s"
  using assms by (auto simp: pci_config_def inl_def addresses_only_def outl_def)

lemma pci_bars_keeps:
  "pci_bars bus slot fn is s = (vs, s') \<Longrightarrow>
    addresses_only s s' \<and> port_state.more s' = port_state.more s \<and> length vs = length is"
proof (induction "is" arbitrary: s vs)
  case Nil
  then show ?case by simp
next
  case (Cons i "is")
  obtain v s1 where c: "pci_config bus slot fn (16 + 4 * i) s = (v, s1)" by fastforce
  obtain ws where b: "pci_bars bus slot fn is s1 = (ws, s')" "vs = v # ws"
    using Cons.prems c by (auto split: prod.splits)
  show ?case using Cons.IH [OF b(1)] pci_config_keeps [OF c] addresses_trans b(2) by fastforce
qed

lemma unat_ucast_narrow: "unat (ucast (w :: u32) :: u8) = unat w mod 256"
  by (simp add: unsigned_ucast_eq take_bit_eq_mod)

definition pci_entry_ok :: "pci_device \<Rightarrow> bool" where
  "pci_entry_ok d \<longleftrightarrow> pd_slot d < 32 \<and> pd_function d < 8 \<and> pd_header d < 128 \<and> length (pd_bar d) = 6"

lemma pci_describe_ok:
  assumes r: "pci_describe bus slot fn ident s = (d, s')" and a: "slot < 32" "fn < 8"
  shows "addresses_only s s'" and "port_state.more s' = port_state.more s" and "pci_entry_ok d"
proof -
  obtain cls s1 where c1: "pci_config bus slot fn 8 s = (cls, s1)" by fastforce
  obtain h s2 where c2: "pci_config bus slot fn 12 s1 = (h, s2)" by fastforce
  obtain irq s3 where c3: "pci_config bus slot fn 60 s2 = (irq, s3)" by fastforce
  let ?h = "ucast (drop_bit 16 h AND 127) :: u8"
  let ?bars = "if ?h = 0 then [0, 1, 2, 3, 4, 5] else if ?h = 1 then [0, 1] else []"
  obtain vs s4 where b: "pci_bars bus slot fn ?bars s3 = (vs, s4)" by fastforce
  note d = r [unfolded pci_describe_def c1 c2 c3 Let_def prod.case, unfolded b prod.case]
  note k = pci_config_keeps [OF c1] pci_config_keeps [OF c2] pci_config_keeps [OF c3] pci_bars_keeps [OF b]
  show "addresses_only s s'" using k d addresses_trans by blast
  show "port_state.more s' = port_state.more s" using k d by simp
  have "unat (drop_bit 16 h AND 127) < 128"
    using word_and_le1 [of "drop_bit 16 h" 127] by (simp add: word_le_nat_alt)
  then have "?h < 128" by (simp add: word_less_nat_alt unat_ucast_narrow)
  moreover have "(ucast slot :: u8) < 32" "(ucast fn :: u8) < 8"
    using a by (simp_all add: word_less_nat_alt unat_ucast_narrow)
  moreover have "length vs \<le> 6" using k(7) by (auto split: if_splits)
  ultimately show "pci_entry_ok d" using d by (auto simp: pci_entry_ok_def)
qed

definition inventory_ok :: "'a pci_state_scheme \<Rightarrow> bool" where
  "inventory_ok s \<longleftrightarrow> length (pci_devices s) \<le> PCI_MAX_DEVICES \<and> list_all pci_entry_ok (pci_devices s)"

lemma more_devices:
  fixes s s' :: "'a pci_state_scheme"
  assumes "port_state.more s' = port_state.more s" shows "pci_devices s' = pci_devices s"
  using assms by (cases s; cases s'; simp)

lemma pci_functions_ok:
  "pci_functions bus slot fns s = (full, s') \<Longrightarrow> inventory_ok s \<Longrightarrow> slot < 32 \<Longrightarrow> list_all (\<lambda>f. f < 8) fns \<Longrightarrow>
    inventory_ok s' \<and> addresses_only s s'"
proof (induction fns arbitrary: s)
  case Nil
  then show ?case by simp
next
  case (Cons fn fns)
  obtain ident s1 where c: "pci_config bus slot fn 0 s = (ident, s1)" by fastforce
  note k = pci_config_keeps [OF c]
  have i1: "inventory_ok s1" using Cons.prems(2) more_devices [OF k(2)] by (simp add: inventory_ok_def)
  have tr: "addresses_only s1 s' \<Longrightarrow> addresses_only s s'" using k(1) addresses_trans by blast
  show ?case
  proof (cases "ident AND 65535 = 65535 \<or> length (pci_devices s1) = PCI_MAX_DEVICES")
    case True
    then show ?thesis using Cons.prems c i1 tr Cons.IH [of s1] k(1) by (auto split: if_splits)
  next
    case False
    obtain d s2 where d: "pci_describe bus slot fn ident s1 = (d, s2)" by fastforce
    have fn: "fn < 8" using Cons.prems(4) by simp
    note ok = pci_describe_ok [OF d Cons.prems(3) fn]
    let ?s = "s2\<lparr>pci_devices := pci_devices s2 @ [d]\<rparr>"
    have "inventory_ok ?s" using i1 ok(3) False more_devices [OF ok(2)] by (simp add: inventory_ok_def)
    moreover have "pci_functions bus slot fns ?s = (full, s')" using Cons.prems(1) c d False by simp
    moreover have "addresses_only s1 ?s" using ok(1) by (simp add: addresses_only_def)
    ultimately show ?thesis using Cons.IH [of ?s] Cons.prems(3,4) tr addresses_trans by auto
  qed
qed

lemma pci_slots_ok:
  "inventory_ok s \<Longrightarrow> list_all (\<lambda>(bus, slot). slot < 32) xs \<Longrightarrow>
    inventory_ok (pci_slots xs s) \<and> addresses_only s (pci_slots xs s)"
proof (induction xs arbitrary: s)
  case Nil
  then show ?case by simp
next
  case (Cons x xs)
  obtain bus slot where x: "x = (bus, slot)" by fastforce
  obtain ident s1 where c: "pci_config bus slot 0 0 s = (ident, s1)" by fastforce
  obtain h s2 where c2: "pci_config bus slot 0 12 s1 = (h, s2)" by fastforce
  let ?fns = "if h AND push_bit 23 1 \<noteq> 0 then [0, 1, 2, 3, 4, 5, 6, 7] else [0] :: u32 list"
  obtain full s3 where f: "pci_functions bus slot ?fns s2 = (full, s3)" by fastforce
  note k = pci_config_keeps [OF c] pci_config_keeps [OF c2]
  have i: "inventory_ok s1" "inventory_ok s2"
    using Cons.prems(1) more_devices [OF k(2)] more_devices [OF k(4)] by (simp_all add: inventory_ok_def)
  have slot: "slot < 32" "list_all (\<lambda>f. f < 8) ?fns" using Cons.prems(2) x by simp_all
  note ok = pci_functions_ok [OF f i(2) slot]
  have run: "pci_slots (x # xs) s = (if ident AND 65535 = 65535 then pci_slots xs s1
      else if full then s3 else pci_slots xs s3)"
    using c c2 f by (simp add: x del: pci_functions.simps)
  have xs: "list_all (\<lambda>(bus, slot). slot < 32) xs" using Cons.prems(2) by simp
  show ?case using Cons.IH [OF i(1) xs] Cons.IH [of s3] xs ok k addresses_trans unfolding run
    by (cases "ident AND 65535 = 65535"; cases full) (simp_all, blast+)
qed

lemma pci_init_ok: "inventory_ok (pci_init s) \<and> addresses_only s (pci_init s)"
proof -
  let ?s = "s\<lparr>pci_devices := []\<rparr>"
  let ?xs = "List.product (map of_nat [0..<256]) (map of_nat [0..<32]) :: (u32 \<times> u32) list"
  have "list_all (\<lambda>(bus, slot). slot < 32) ?xs"
    by (auto simp: list_all_iff word_less_nat_alt unat_of_nat simp del: upt_conv_Cons)
  moreover have "inventory_ok ?s" by (simp add: inventory_ok_def)
  ultimately have "inventory_ok (pci_init s) \<and> addresses_only ?s (pci_init s)"
    unfolding pci_init_def by (intro pci_slots_ok)
  then show ?thesis by (simp add: addresses_only_def)
qed

end
