(* ===== verification/Virtio.thy ===== *)
theory Virtio
  imports Pci Vmm "HOL-Library.Monad_Syntax"
begin

text \<open>
  The virtio transport, \<^verbatim>\<open>drivers/virtio.c\<close> and \<^verbatim>\<open>drivers/virtio_irq.c\<close>: queues in memory that a device may
  read and write at any time. What the driver reads from such memory is up to the device: \<open>dma_answers n a\<close>
  is the value found at the physical address \<open>a\<close> by the \<open>n\<close>-th read, an arbitrary function. The parts of a
  queue that only the driver writes are fields of the queue. An access outside the frames in use is a
  wild one and has no result, like a trap. Operations run under the lock of their device, which the code
  tests; the registry's interrupt lock makes its operations single steps.

  \<open>exposed\<close> is no variable of the code: it records the frames that a device was told of, with the port by
  which it is known, and that it may use until it acknowledges a reset.
\<close>

section \<open>State\<close>

record irq_route =
  r_io :: u16
  r_irq :: u8
  config_pending :: bool
  r_queues :: u64
  r_config :: u64

record virtio_irq_stats =
  vectors :: u64
  claimed :: u64
  shared :: u64
  unclaimed :: u64
  queue_events :: u64
  config_events :: u64
  registered :: u32

record virtio_irq_info =
  i_queues :: u64
  i_config :: u64
  i_enabled :: bool
  i_line :: u8

record dma_state = machine +
  ports :: pci_state
  routes :: "irq_route list"
  irq_stats :: virtio_irq_stats
  dma_answers :: "nat \<Rightarrow> u64 \<Rightarrow> u64"
  dma_reads :: nat
  exposed :: "(u16 \<times> u64) list"

record virtio_desc =
  d_address :: u64
  d_length :: u32
  d_flags :: u16
  d_next :: u16

record virtio_used =
  u_id :: u32
  u_length :: u32

record virtio_queue =
  q_physical :: u64
  q_pages :: u32
  q_size :: u16
  q_index :: u16
  q_available :: u16
  q_consumed :: u16
  q_outstanding :: u16
  q_descriptors :: "virtio_desc list"
  q_avail_flags :: u16
  q_avail_idx :: u16
  q_avail_ring :: "u16 list"
  q_used :: u64

record virtio_device =
  v_pci :: pci_device
  v_io :: u16
  v_ready :: bool
  v_quarantined :: bool
  v_irq_enabled :: bool
  v_features :: u32
  v_queues :: "virtio_queue list"

abbreviation VIRTIO_DESC_NEXT :: u16 where "VIRTIO_DESC_NEXT \<equiv> 1"
abbreviation VIRTIO_DESC_WRITE :: u16 where "VIRTIO_DESC_WRITE \<equiv> 2"

text \<open>The cleared objects.\<close>

definition no_route :: irq_route where
  "no_route = \<lparr>r_io = 0, r_irq = 0, config_pending = False, r_queues = 0, r_config = 0\<rparr>"

definition no_queue :: virtio_queue where
  "no_queue = \<lparr>q_physical = 0, q_pages = 0, q_size = 0, q_index = 0, q_available = 0, q_consumed = 0,
     q_outstanding = 0, q_descriptors = [], q_avail_flags = 0, q_avail_idx = 0, q_avail_ring = [], q_used = 0\<rparr>"

definition no_pci :: pci_device where
  "no_pci = \<lparr>pd_vendor = 0, pd_device = 0, pd_bus = 0, pd_slot = 0, pd_function = 0, pd_class = 0,
     pd_subclass = 0, pd_prog_if = 0, pd_irq = 0, pd_header = 0, pd_bar = replicate 6 0\<rparr>"

definition no_virtio :: virtio_device where
  "no_virtio = \<lparr>v_pci = no_pci, v_io = 0, v_ready = False, v_quarantined = False, v_irq_enabled = False,
     v_features = 0, v_queues = [no_queue, no_queue]\<rparr>"

section \<open>Access\<close>

definition on_ports :: "(pci_state \<Rightarrow> 'b \<times> pci_state) \<Rightarrow> 'a dma_state_scheme \<Rightarrow> 'b \<times> 'a dma_state_scheme" where
  "on_ports f s = (let (v, p) = f (ports s) in (v, s\<lparr>ports := p\<rparr>))"

definition to_ports :: "(pci_state \<Rightarrow> pci_state) \<Rightarrow> 'a dma_state_scheme \<Rightarrow> 'a dma_state_scheme" where
  "to_ports f s = s\<lparr>ports := f (ports s)\<rparr>"

text \<open>Whether \<open>n\<close> bytes at a physical address lie in frames that are in use.\<close>

definition in_use :: "'a pmm_state_scheme \<Rightarrow> u64 \<Rightarrow> nat \<Rightarrow> bool" where
  "in_use s a n \<longleftrightarrow> list_all (\<lambda>k. 0 < frame_refs s ((a + of_nat k) AND NOT 4095)) [0..<n]"

definition dma_load :: "u64 \<Rightarrow> nat \<Rightarrow> 'a dma_state_scheme \<Rightarrow> (u64 \<times> 'a dma_state_scheme) option" where
  "dma_load a n s =
     (if in_use s a n then Some (dma_answers s (dma_reads s) a, s\<lparr>dma_reads := dma_reads s + 1\<rparr>) else None)"

text \<open>Copying out of such memory reads every byte once.\<close>

definition dma_copy :: "u64 \<Rightarrow> nat \<Rightarrow> 'a dma_state_scheme \<Rightarrow> (u8 list \<times> 'a dma_state_scheme) option" where
  "dma_copy a n s =
     (if in_use s a n
      then Some (map (\<lambda>k. ucast (dma_answers s (dma_reads s + k) (a + of_nat k))) [0..<n],
             s\<lparr>dma_reads := dma_reads s + n\<rparr>)
      else None)"

definition dma_write :: "u64 \<Rightarrow> u8 list \<Rightarrow> 'a dma_state_scheme \<Rightarrow> 'a dma_state_scheme option" where
  "dma_write a bs s =
     (if in_use s a (length bs)
      then Some (s\<lparr>mem := fold (\<lambda>k m. m(a + hhdm_offset s + of_nat k := bs ! k)) [0..<length bs] (mem s)\<rparr>)
      else None)"

text \<open>The frames that hold \<open>n\<close> bytes at a physical address.\<close>

definition frames_of :: "u64 \<Rightarrow> nat \<Rightarrow> u64 list" where
  "frames_of a n = remdups (map (\<lambda>k. (a + of_nat k) AND NOT 4095) [0..<n])"

definition expose :: "u16 \<Rightarrow> u64 \<Rightarrow> nat \<Rightarrow> 'a dma_state_scheme \<Rightarrow> 'a dma_state_scheme" where
  "expose io a n s = s\<lparr>exposed := map (Pair io) (frames_of a n) @ exposed s\<rparr>"

section \<open>Interrupt routes\<close>

definition virtio_irq_attach :: "u16 \<Rightarrow> u8 \<Rightarrow> 'a dma_state_scheme \<Rightarrow> bool \<times> 'a dma_state_scheme" where
  "virtio_irq_attach io irq s =
     (if io = 0 then (False, s)
      else let (ok, s) = on_ports (pic_enable_pci_irq irq) s
           in if \<not> ok then (False, s)
              else if list_ex (\<lambda>r. r_io r = io) (routes s) then (False, s)
              else case find_idx (\<lambda>r. r_io r = 0) (rev (routes s)) of
                     None \<Rightarrow> (False, s)
                   | Some k \<Rightarrow>
                       (True, s\<lparr>routes := (routes s)[length (routes s) - Suc k := no_route\<lparr>r_io := io, r_irq := irq\<rparr>],
                          irq_stats := (irq_stats s)\<lparr>registered := registered (irq_stats s) + 1\<rparr>\<rparr>))"

definition detach_route :: "u16 \<Rightarrow> nat \<Rightarrow> 'a dma_state_scheme \<Rightarrow> 'a dma_state_scheme" where
  "detach_route io i s =
     (if io \<noteq> 0 \<and> r_io (routes s ! i) = io
      then let s = snd (on_ports (inb (io + 19)) s)
           in s\<lparr>routes := (routes s)[i := no_route],
                irq_stats := (irq_stats s)\<lparr>registered := registered (irq_stats s) - 1\<rparr>\<rparr>
      else s)"

definition virtio_irq_detach :: "u16 \<Rightarrow> 'a dma_state_scheme \<Rightarrow> 'a dma_state_scheme" where
  "virtio_irq_detach io s = fold (detach_route io) [0, 1, 2, 3] s"

text \<open>One route of the dispatch loop, with the two counters of the loop.\<close>

definition dispatch_route ::
    "u8 \<Rightarrow> nat \<Rightarrow> u32 \<times> u32 \<times> 'a dma_state_scheme \<Rightarrow> u32 \<times> u32 \<times> 'a dma_state_scheme" where
  "dispatch_route irq i x =
     (let (matched, hits, s) = x; r = routes s ! i
      in if r_io r = 0 \<or> r_irq r \<noteq> irq then (matched, hits, s)
         else let (status, s) = on_ports (inb (r_io r + 19)) s;
                  st = irq_stats s;
                  (r, st) = (if status AND 1 \<noteq> 0
                     then (r\<lparr>r_queues := r_queues r + 1\<rparr>, st\<lparr>queue_events := queue_events st + 1\<rparr>) else (r, st));
                  (r, st) = (if status AND 2 \<noteq> 0
                     then (r\<lparr>r_config := r_config r + 1, config_pending := True\<rparr>,
                           st\<lparr>config_events := config_events st + 1\<rparr>) else (r, st))
              in (matched + 1, if status AND 3 \<noteq> 0 then hits + 1 else hits,
                  s\<lparr>routes := (routes s)[i := r], irq_stats := st\<rparr>))"

text \<open>The result tells that the completion worker is notified.\<close>

definition virtio_irq_dispatch :: "u8 \<Rightarrow> 'a dma_state_scheme \<Rightarrow> bool \<times> 'a dma_state_scheme" where
  "virtio_irq_dispatch irq s =
     (let s = s\<lparr>irq_stats := (irq_stats s)\<lparr>vectors := vectors (irq_stats s) + 1\<rparr>\<rparr>;
          (matched, hits, s) = fold (dispatch_route irq) [0, 1, 2, 3] (0, 0, s);
          st = irq_stats s;
          st = (if matched > 1 then st\<lparr>shared := shared st + 1\<rparr> else st);
          st = (if hits \<noteq> 0 then st\<lparr>claimed := claimed st + 1\<rparr> else st\<lparr>unclaimed := unclaimed st + 1\<rparr>)
      in (hits \<noteq> 0, s\<lparr>irq_stats := st\<rparr>))"

definition route_of :: "u16 \<Rightarrow> 'a dma_state_scheme \<Rightarrow> nat option" where
  "route_of io s = find_idx (\<lambda>r. io \<noteq> 0 \<and> r_io r = io) (routes s)"

text \<open>Routes of different slots have different ports, so the first match is the last.\<close>

definition virtio_irq_get_info :: "u16 \<Rightarrow> 'a dma_state_scheme \<Rightarrow> virtio_irq_info" where
  "virtio_irq_get_info io s =
     (case find_idx (\<lambda>r. io \<noteq> 0 \<and> r_io r = io) (rev (routes s)) of
        None \<Rightarrow> \<lparr>i_queues = 0, i_config = 0, i_enabled = False, i_line = 0\<rparr>
      | Some k \<Rightarrow> let r = rev (routes s) ! k
                  in \<lparr>i_queues = r_queues r, i_config = r_config r, i_enabled = True, i_line = r_irq r\<rparr>)"

definition virtio_irq_take_config :: "u16 \<Rightarrow> 'a dma_state_scheme \<Rightarrow> bool \<times> 'a dma_state_scheme" where
  "virtio_irq_take_config io s =
     (case route_of io s of
        None \<Rightarrow> (False, s)
      | Some i \<Rightarrow> (config_pending (routes s ! i),
          s\<lparr>routes := (routes s)[i := (routes s ! i)\<lparr>config_pending := False\<rparr>]\<rparr>))"

definition virtio_irq_get_stats :: "'a dma_state_scheme \<Rightarrow> virtio_irq_stats" where
  "virtio_irq_get_stats s = irq_stats s"

section \<open>Memory for devices\<close>

definition virtio_dma_alloc :: "u32 \<Rightarrow> 'a dma_state_scheme \<Rightarrow> u64 \<times> 'a dma_state_scheme" where
  "virtio_dma_alloc pages s =
     (let (s, physical) = pmm_alloc_contiguous_pages s (ucast pages)
      in if physical = 0 then (0, s)
         else (physical, s\<lparr>mem := memset (mem s) (physical + hhdm_offset s) 0 (unat pages * PAGE_SIZE)\<rparr>))"

definition virtio_dma_free :: "u64 \<Rightarrow> u32 \<Rightarrow> 'a dma_state_scheme \<Rightarrow> 'a dma_state_scheme" where
  "virtio_dma_free physical pages s =
     (if physical = 0 then s
      else foldl pmm_free_page s (map (\<lambda>i. physical + of_nat i * 4096) [0..<unat pages]))"

section \<open>Devices\<close>

primrec await_reset :: "nat \<Rightarrow> u16 \<Rightarrow> 'a dma_state_scheme \<Rightarrow> bool \<times> 'a dma_state_scheme" where
  "await_reset 0 io s = (False, s)"
| "await_reset (Suc n) io s =
     (let (v, s) = on_ports (inb (io + 18)) s
      in if v = 0 then (True, s) else await_reset n io s)"

definition virtio_reset :: "u16 \<Rightarrow> 'a dma_state_scheme \<Rightarrow> bool \<times> 'a dma_state_scheme" where
  "virtio_reset io s =
     (let (ok, s) = await_reset 100000 io (to_ports (outb (io + 18) 0) s)
      in (ok, if ok then s\<lparr>exposed := [x \<leftarrow> exposed s. fst x \<noteq> io]\<rparr> else s))"

definition virtio_open ::
    "pci_device \<Rightarrow> u32 \<Rightarrow> 'a dma_state_scheme \<Rightarrow> bool \<times> virtio_device \<times> 'a dma_state_scheme" where
  "virtio_open pci accepted s =
     (let dev = no_virtio; bar = pd_bar pci ! 0
      in if pd_vendor pci \<noteq> 0x1af4 \<or> bar AND 1 = 0 \<or> bar AND NOT 3 = 0 \<or> bar AND NOT 3 > 0xffc0 \<or> pd_header pci \<noteq> 0
         then (False, dev, s)
         else let dev = dev\<lparr>v_pci := pci, v_io := ucast (bar AND NOT 3)\<rparr>;
                  s = to_ports (pci_update_command pci (1 OR push_bit 10 1) 4) s;
                  (ok, s) = virtio_reset (v_io dev) s
              in if \<not> ok then (False, dev\<lparr>v_quarantined := True\<rparr>, s)
                 else let s = to_ports (outb (v_io dev + 18) 3) (to_ports (outb (v_io dev + 18) 1) s);
                          (features, s) = on_ports (inl (v_io dev)) s;
                          dev = dev\<lparr>v_features := features AND accepted\<rparr>
                      in (True, dev, to_ports (outl (v_io dev + 4) (v_features dev)) s))"

definition used_offset :: "u32 \<Rightarrow> u32" where
  "used_offset sz = (16 * sz + 6 + 2 * sz + 4096 - 1) AND NOT (4096 - 1)"

definition queue_pages :: "u32 \<Rightarrow> u32" where
  "queue_pages sz = (used_offset sz + 6 + 8 * sz + 4096 - 1) div 4096"

definition no_desc :: virtio_desc where
  "no_desc = \<lparr>d_address = 0, d_length = 0, d_flags = 0, d_next = 0\<rparr>"

definition new_queue :: "u64 \<Rightarrow> u32 \<Rightarrow> u32 \<Rightarrow> u16 \<Rightarrow> virtio_queue" where
  "new_queue physical pages index sz =
     no_queue\<lparr>q_physical := physical, q_pages := pages, q_index := ucast index, q_size := sz,
       q_descriptors := replicate (unat sz) no_desc, q_avail_flags := 1,
       q_avail_ring := replicate (unat sz) 0, q_used := physical + ucast (used_offset (ucast sz)) + 2\<rparr>"

definition set_queue :: "nat \<Rightarrow> virtio_queue \<Rightarrow> virtio_device \<Rightarrow> virtio_device" where
  "set_queue i q dev = dev\<lparr>v_queues := (v_queues dev)[i := q]\<rparr>"

definition virtio_queue_init ::
    "virtio_device \<Rightarrow> u32 \<Rightarrow> 'a dma_state_scheme \<Rightarrow> bool \<times> virtio_device \<times> 'a dma_state_scheme" where
  "virtio_queue_init dev index s =
     (if index \<ge> 2 \<or> q_physical (v_queues dev ! unat index) \<noteq> 0 then (False, dev, s)
      else let s = to_ports (outw (v_io dev + 14) (ucast index)) s;
               (sz, s) = on_ports (inw (v_io dev + 12)) s
           in if sz < 4 \<or> sz > 1024 \<or> sz AND (sz - 1) \<noteq> 0 then (False, dev, s)
              else let (taken, s) = on_ports (inl (v_io dev + 8)) s
                   in if taken \<noteq> 0 then (False, dev, s)
                      else let pages = queue_pages (ucast sz);
                               (physical, s) = virtio_dma_alloc pages s
                           in if physical = 0
                              then (False, set_queue (unat index) ((v_queues dev ! unat index)
                                      \<lparr>q_pages := pages, q_physical := 0\<rparr>) dev, s)
                              else if drop_bit 12 physical > (0xFFFFFFFF :: u64)
                              then (False, set_queue (unat index) no_queue dev, virtio_dma_free physical pages s)
                              else (True, set_queue (unat index) (new_queue physical pages index sz) dev,
                                to_ports (outl (v_io dev + 8) (ucast (drop_bit 12 physical)))
                                  (expose (v_io dev) physical (unat pages * PAGE_SIZE) s)))"

definition virtio_ready :: "virtio_device \<Rightarrow> 'a dma_state_scheme \<Rightarrow> virtio_device \<times> 'a dma_state_scheme" where
  "virtio_ready dev s =
     (let (enabled, s) = virtio_irq_attach (v_io dev) (pd_irq (v_pci dev)) s;
          dev = dev\<lparr>v_irq_enabled := enabled,
            v_queues := map (\<lambda>q. if q_physical q \<noteq> 0 then q\<lparr>q_avail_flags := if enabled then 0 else 1\<rparr> else q)
              (v_queues dev)\<rparr>;
          s = to_ports (pci_update_command (v_pci dev) (4 OR (if enabled then 0 else push_bit 10 1))
                (if enabled then push_bit 10 1 else 0)) s;
          s = to_ports (outb (v_io dev + 18) 7) s
      in (dev\<lparr>v_ready := True\<rparr>, s))"

definition virtio_stop :: "virtio_device \<Rightarrow> 'a dma_state_scheme \<Rightarrow> bool \<times> virtio_device \<times> 'a dma_state_scheme" where
  "virtio_stop dev s =
     (let dev = dev\<lparr>v_ready := False\<rparr>
      in if v_io dev = 0 then (True, dev, s)
         else let s = to_ports (pci_update_command (v_pci dev) (push_bit 10 1) 0) s;
                  s = virtio_irq_detach (v_io dev) s;
                  dev = dev\<lparr>v_irq_enabled := False\<rparr>;
                  (stopped, s) = virtio_reset (v_io dev) s;
                  s = to_ports (pci_update_command (v_pci dev) (push_bit 10 1) 4) s
              in if \<not> stopped then (False, dev\<lparr>v_quarantined := True\<rparr>, s)
                 else (True, dev\<lparr>v_queues := map (\<lambda>q. no_queue) (v_queues dev)\<rparr>,
                   foldl (\<lambda>s q. virtio_dma_free (q_physical q) (q_pages q) s) s (v_queues dev)))"

text \<open>\<open>None\<close> is a trap.\<close>

definition virtio_submit :: "virtio_queue \<Rightarrow> u16 \<Rightarrow> virtio_queue option" where
  "virtio_submit q d =
     (if d \<ge> q_size q \<or> q_outstanding q \<ge> q_size q then None
      else Some (q\<lparr>q_outstanding := q_outstanding q + 1,
        q_avail_ring := (q_avail_ring q)[unat (q_available q mod q_size q) := d],
        q_available := q_available q + 1, q_avail_idx := q_available q + 1\<rparr>))"

definition virtio_notify :: "virtio_device \<Rightarrow> u16 \<Rightarrow> 'a dma_state_scheme \<Rightarrow> 'a dma_state_scheme" where
  "virtio_notify dev queue s = to_ports (outw (v_io dev + 16) queue) s"

text \<open>The remainder by a size of 0 traps.\<close>

definition virtio_pop ::
    "virtio_queue \<Rightarrow> 'a dma_state_scheme \<Rightarrow> (int \<times> virtio_used \<times> virtio_queue \<times> 'a dma_state_scheme) option" where
  "virtio_pop q s = do {
     (v, s) \<leftarrow> dma_load (q_used q) 2 s;
     let count = ucast v - q_consumed q;
     let none = \<lparr>u_id = 0, u_length = 0\<rparr>;
     if count = 0 then Some (0, none, q, s)
     else if count > q_outstanding q then Some (-1, none, q, s)
     else if q_size q = 0 then None
     else do {
       let entry = q_used q + 2 + 8 * ucast (q_consumed q mod q_size q);
       (i, s) \<leftarrow> dma_load entry 4 s;
       (n, s) \<leftarrow> dma_load (entry + 4) 4 s;
       let used = \<lparr>u_id = ucast i, u_length = ucast n\<rparr>;
       if u_id used \<ge> ucast (q_size q) then Some (-1, used, q, s)
       else Some (1, used, q\<lparr>q_consumed := q_consumed q + 1, q_outstanding := q_outstanding q - 1\<rparr>, s)
     }
   }"

text \<open>A value that two reads agree on, within sixteen attempts.\<close>

primrec config64_from :: "nat \<Rightarrow> u16 \<Rightarrow> u16 \<Rightarrow> u64 \<Rightarrow> 'a dma_state_scheme \<Rightarrow> u64 \<times> 'a dma_state_scheme" where
  "config64_from 0 io offset old s = (0, s)"
| "config64_from (Suc n) io offset old s =
     (let (low, s) = on_ports (inl (io + 20 + offset)) s;
          (high, s) = on_ports (inl (io + 24 + offset)) s;
          v = ucast low OR push_bit 32 (ucast high)
      in if v = old then (v, s) else config64_from n io offset v s)"

definition virtio_read_config64 :: "virtio_device \<Rightarrow> u16 \<Rightarrow> 'a dma_state_scheme \<Rightarrow> u64 \<times> 'a dma_state_scheme" where
  "virtio_read_config64 dev offset s = config64_from 16 (v_io dev) offset UINT64_MAX s"

definition virtio_config_changed :: "virtio_device \<Rightarrow> 'a dma_state_scheme \<Rightarrow> bool \<times> 'a dma_state_scheme" where
  "virtio_config_changed dev s =
     (if v_irq_enabled dev then virtio_irq_take_config (v_io dev) s
      else let (v, s) = on_ports (inb (v_io dev + 19)) s in (v AND 2 \<noteq> 0, s))"

end
