(* ===== verification/IoRequest.thy ===== *)
theory IoRequest
  imports Prelude
begin

text \<open>
  The admission of I/O requests, \<^verbatim>\<open>drivers/io_request.c\<close>: a device serves one request at a time, blocking
  callers queue for it with tickets. Every operation runs under the lock of its device, so it is one step;
  \<open>now\<close> is \<^verbatim>\<open>timer_get_ticks()\<close>. The events that wake sleeping tasks (\<^verbatim>\<open>kernel/wait.h\<close>, not part of the
  repository) have no part in the state and are left out.
\<close>

section \<open>State\<close>

record io_request =
  rid :: u64
  started :: u64
  bytes :: u32
  operation :: u32
  owner_pid :: u32
  pending :: bool
  result :: int
  waiters :: "(u64 \<times> u64) list"

record io_world = io_request +
  next_id :: u64

record driver_token =
  tok_id :: u64
  tok_device :: u32

abbreviation DRIVER_OK :: int where "DRIVER_OK \<equiv> 0"
abbreviation DRIVER_INVALID :: int where "DRIVER_INVALID \<equiv> -1"
abbreviation DRIVER_OFFLINE :: int where "DRIVER_OFFLINE \<equiv> -2"
abbreviation DRIVER_READ_ONLY :: int where "DRIVER_READ_ONLY \<equiv> -3"
abbreviation DRIVER_IO :: int where "DRIVER_IO \<equiv> -4"
abbreviation DRIVER_TIMEOUT :: int where "DRIVER_TIMEOUT \<equiv> -5"
abbreviation DRIVER_UNSUPPORTED :: int where "DRIVER_UNSUPPORTED \<equiv> -6"
abbreviation DRIVER_BUFFER_SMALL :: int where "DRIVER_BUFFER_SMALL \<equiv> -7"
abbreviation DRIVER_BUSY :: int where "DRIVER_BUSY \<equiv> -8"
abbreviation DRIVER_CANCELED :: int where "DRIVER_CANCELED \<equiv> -9"
abbreviation DRIVER_PENDING :: int where "DRIVER_PENDING \<equiv> 1"
abbreviation IO_WAITERS_MAX :: nat where "IO_WAITERS_MAX \<equiv> 32"

section \<open>Tickets\<close>

text \<open>The result 0 means that there is none left.\<close>

definition allocate_id :: "io_world \<Rightarrow> u64 \<times> io_world" where
  "allocate_id s = (if next_id s = UINT64_MAX then (0, s) else (next_id s + 1, s\<lparr>next_id := next_id s + 1\<rparr>))"

definition drop_waiter :: "u64 \<Rightarrow> (u64 \<times> u64) list \<Rightarrow> (u64 \<times> u64) list" where
  "drop_waiter t ws = (case find_idx (\<lambda>w. fst w = t) ws of None \<Rightarrow> ws | Some i \<Rightarrow> take i ws @ drop (Suc i) ws)"

definition io_request_cancel_waiter :: "u64 \<Rightarrow> io_world \<Rightarrow> io_world" where
  "io_request_cancel_waiter t s = s\<lparr>waiters := drop_waiter t (waiters s)\<rparr>"

lemma drop_waiter_length: "t \<in> fst ` set ws \<Longrightarrow> length (drop_waiter t ws) < length ws"
proof -
  assume "t \<in> fst ` set ws"
  then have "find_idx (\<lambda>w. fst w = t) ws \<noteq> None" by (auto simp: find_idx_None_iff)
  then obtain i where i: "find_idx (\<lambda>w. fst w = t) ws = Some i" by auto
  then have "i < length ws" by (simp add: find_idx_Some_iff)
  then show ?thesis by (simp add: drop_waiter_def i)
qed

function expire_from :: "u64 \<Rightarrow> nat \<Rightarrow> (u64 \<times> u64) list \<Rightarrow> (u64 \<times> u64) list" where
  "expire_from now i ws =
     (if i < length ws
      then if now \<ge> snd (ws ! i) then expire_from now i (drop_waiter (fst (ws ! i)) ws) else expire_from now (i + 1) ws
      else ws)"
  by pat_completeness auto

termination
proof (relation "measure (\<lambda>(now, i, ws). length ws - i)")
  fix now i and ws :: "(u64 \<times> u64) list"
  assume i: "i < length ws"
  have "fst (ws ! i) \<in> fst ` set ws" using i by simp
  from drop_waiter_length [OF this]
  show "((now, i, drop_waiter (fst (ws ! i)) ws), now, i, ws) \<in> measure (\<lambda>(now, i, ws). length ws - i)" using i by simp
qed auto

declare expire_from.simps [simp del]

definition io_request_expire_waiters :: "u64 \<Rightarrow> io_world \<Rightarrow> io_world" where
  "io_request_expire_waiters now s = s\<lparr>waiters := expire_from now 0 (waiters s)\<rparr>"

definition io_request_cancel_waiters :: "io_world \<Rightarrow> io_world" where
  "io_request_cancel_waiters s = s\<lparr>waiters := []\<rparr>"

section \<open>Requests\<close>

text \<open>The loop that looks for the caller's ticket; the index is the number of waiters if it is gone.\<close>

definition ticket_index :: "u64 \<Rightarrow> (u64 \<times> u64) list \<Rightarrow> nat" where
  "ticket_index t ws = (case find_idx (\<lambda>w. fst w = t) ws of None \<Rightarrow> length ws | Some i \<Rightarrow> i)"

definition enqueue_waiter :: "u64 \<Rightarrow> io_world \<Rightarrow> int \<times> u64 \<times> io_world" where
  "enqueue_waiter deadline s =
     (let (t, s) = allocate_id s
      in if t = 0 then (DRIVER_INVALID, 0, s)
         else (DRIVER_BUSY, t, s\<lparr>waiters := waiters s @ [(t, deadline)]\<rparr>))"

definition start_request :: "u64 \<Rightarrow> u64 \<Rightarrow> u32 \<Rightarrow> io_world \<Rightarrow> io_world" where
  "start_request t now owner s =
     s\<lparr>rid := t, started := now, owner_pid := owner, pending := True, result := DRIVER_PENDING\<rparr>"

text \<open>
  \<open>admission\<close> is the caller's ticket variable, with 0 for none yet, or \<open>None\<close> for a null pointer; it is
  returned updated. \<open>has_token\<close> is whether the token pointer is not null.
\<close>

definition io_request_begin_owned ::
    "u64 \<Rightarrow> u32 \<Rightarrow> bool \<Rightarrow> u32 \<Rightarrow> u64 option \<Rightarrow> u64 \<Rightarrow> io_world \<Rightarrow> int \<times> driver_token option \<times> u64 option \<times> io_world" where
  "io_request_begin_owned now device has_token owner admission deadline s =
     (if \<not> has_token \<or> (owner \<noteq> 0) \<noteq> (admission \<noteq> None) then (DRIVER_INVALID, None, admission, s)
      else let s = io_request_expire_waiters now s
           in if admission \<noteq> None \<and> now \<ge> deadline
              then (DRIVER_TIMEOUT, None, admission, io_request_cancel_waiter (the admission) s)
              else let reserved = (case admission of Some t \<Rightarrow> t | None \<Rightarrow> 0)
                   in if reserved \<noteq> 0 \<and> ticket_index reserved (waiters s) = length (waiters s)
                      then (DRIVER_CANCELED, None, admission, s)
                      else if rid s \<noteq> 0 \<or> (waiters s \<noteq> [] \<and> fst (waiters s ! 0) \<noteq> reserved)
                      then if admission \<noteq> None \<and> reserved = 0 \<and> length (waiters s) < IO_WAITERS_MAX
                           then let (res, t, s) = enqueue_waiter deadline s
                                in (res, None, if t = 0 then admission else Some t, s)
                           else (DRIVER_BUSY, None, admission, s)
                      else let (t, s) = (if reserved \<noteq> 0 then (reserved, s) else allocate_id s)
                           in if t = 0 then (DRIVER_INVALID, None, admission, s)
                              else let s' = (if reserved \<noteq> 0 then io_request_cancel_waiter reserved s else s);
                                       admission' = (if reserved \<noteq> 0 then Some 0 else admission)
                                   in (DRIVER_OK, Some \<lparr>tok_id = t, tok_device = device\<rparr>, admission',
                                       start_request t now owner s'))"

definition io_request_begin :: "u64 \<Rightarrow> u32 \<Rightarrow> bool \<Rightarrow> io_world \<Rightarrow> int \<times> driver_token option \<times> u64 option \<times> io_world" where
  "io_request_begin now device has_token s = io_request_begin_owned now device has_token 0 None 0 s"

definition io_request_complete :: "int \<Rightarrow> io_world \<Rightarrow> io_world" where
  "io_request_complete res s = (if \<not> pending s then s else s\<lparr>result := res, pending := False\<rparr>)"

text \<open>\<open>None\<close> is a trap.\<close>

definition io_request_abort :: "int \<Rightarrow> io_world \<Rightarrow> io_world option" where
  "io_request_abort err s =
     (if err \<ge> 0 then None else if rid s = 0 then Some s else Some (s\<lparr>result := err, pending := False\<rparr>))"

definition io_request_release :: "io_world \<Rightarrow> io_world" where
  "io_request_release s = s\<lparr>rid := 0, pending := False, owner_pid := 0\<rparr>"

definition io_request_matches :: "io_world \<Rightarrow> driver_token \<Rightarrow> bool" where
  "io_request_matches s token \<longleftrightarrow> tok_id token \<noteq> 0 \<and> rid s = tok_id token"

section \<open>Runs\<close>

text \<open>Everything that happens to one device's request; \<open>Others\<close> are the identifiers other devices take.\<close>

datatype io_op = Begin u64 u32 bool u32 "u64 option" u64 | CancelTicket u64 | CancelAll | Expire u64
  | Complete int | Abort int | Release | Others u64

definition io_exec :: "io_op \<Rightarrow> io_world \<Rightarrow> u64 list \<times> io_world" where
  "io_exec x s = (case x of
     Begin now device has_token owner admission deadline \<Rightarrow>
       (let (res, tok, _, t) = io_request_begin_owned now device has_token owner admission deadline s
        in (case tok of None \<Rightarrow> [] | Some k \<Rightarrow> [tok_id k], t))
   | CancelTicket t \<Rightarrow> ([], io_request_cancel_waiter t s)
   | CancelAll \<Rightarrow> ([], io_request_cancel_waiters s)
   | Expire now \<Rightarrow> ([], io_request_expire_waiters now s)
   | Complete r \<Rightarrow> ([], io_request_complete r s)
   | Abort e \<Rightarrow> ([], case io_request_abort e s of None \<Rightarrow> s | Some t \<Rightarrow> t)
   | Release \<Rightarrow> ([], io_request_release s)
   | Others n \<Rightarrow> ([], if next_id s \<le> n then s\<lparr>next_id := n\<rparr> else s))"

primrec io_run :: "io_op list \<Rightarrow> io_world \<Rightarrow> u64 list \<times> io_world" where
  "io_run [] s = ([], s)"
| "io_run (x # xs) s = (let (g, s) = io_exec x s; (gs, s) = io_run xs s in (g @ gs, s))"

text \<open>\<open>b\<close> is the last identifier that was admitted.\<close>

definition io_inv :: "u64 \<Rightarrow> io_world \<Rightarrow> bool" where
  "io_inv b s \<longleftrightarrow> rid s \<le> b \<and> sorted_wrt (<) (b # map fst (waiters s)) \<and> b \<le> next_id s \<and>
     (\<forall>w \<in> set (waiters s). fst w \<le> next_id s) \<and> length (waiters s) \<le> IO_WAITERS_MAX \<and> (pending s \<longrightarrow> rid s \<noteq> 0)"

section \<open>Tickets stay in order\<close>

lemma find_unique:
  "sorted_wrt (<) (map fst ws) \<Longrightarrow> i < length ws \<Longrightarrow> find_idx (\<lambda>w. fst w = fst (ws ! i)) ws = Some i"
  for ws :: "(u64 \<times> u64) list"
  by (force simp: find_idx_Some_iff sorted_wrt_iff_nth_less)

lemma drop_waiter_filter:
  assumes "sorted_wrt (<) (map fst ws)"
  shows "drop_waiter t ws = [w \<leftarrow> ws. fst w \<noteq> t]"
proof (cases "find_idx (\<lambda>w. fst w = t) ws")
  case None
  then have "\<forall>w \<in> set ws. fst w \<noteq> t" by (auto simp: find_idx_None_iff)
  then have "[w \<leftarrow> ws. fst w \<noteq> t] = ws" by (simp add: filter_id_conv)
  then show ?thesis using None by (simp add: drop_waiter_def)
next
  case (Some i)
  then have i: "i < length ws" "fst (ws ! i) = t" by (auto simp: find_idx_Some_iff)
  have ws: "ws = take i ws @ ws ! i # drop (Suc i) ws" using i(1) by (simp add: id_take_nth_drop)
  have "sorted_wrt (<) (map fst (take i ws) @ t # map fst (drop (Suc i) ws))" using assms i(2) ws
    by (metis list.simps(9) map_append)
  then have "\<forall>w \<in> set (take i ws). fst w \<noteq> t" "\<forall>w \<in> set (drop (Suc i) ws). fst w \<noteq> t"
    by (auto simp: sorted_wrt_append)
  then have "[w \<leftarrow> take i ws @ ws ! i # drop (Suc i) ws. fst w \<noteq> t] = take i ws @ drop (Suc i) ws"
    using i(2) by (simp add: filter_id_conv)
  then show ?thesis using ws Some by (simp add: drop_waiter_def)
qed

lemma sorted_fst_filter: "sorted_wrt (<) (map fst ws) \<Longrightarrow> sorted_wrt (<) (map fst (filter P ws))"
  for ws :: "(u64 \<times> u64) list"
  by (induction ws) auto

lemma expire_filter:
  "sorted_wrt (<) (map fst ws) \<Longrightarrow> i \<le> length ws \<Longrightarrow> (\<forall>w \<in> set (take i ws). now < snd w) \<Longrightarrow>
    expire_from now i ws = [w \<leftarrow> ws. now < snd w]"
proof (induction now i ws rule: expire_from.induct)
  case (1 now i ws)
  show ?case
  proof (cases "i < length ws")
    case False
    then show ?thesis using 1(5) by (simp add: filter_id_conv expire_from.simps [of now i ws])
  next
    case i: True
    have ws: "ws = take i ws @ ws ! i # drop (Suc i) ws" using i by (simp add: id_take_nth_drop)
    show ?thesis
    proof (cases "now \<ge> snd (ws ! i)")
      case True
      let ?vs = "drop_waiter (fst (ws ! i)) ws"
      have d: "?vs = take i ws @ drop (Suc i) ws" using find_unique [OF 1(3) i] by (simp add: drop_waiter_def)
      have "sorted_wrt (<) (map fst ?vs)" unfolding drop_waiter_filter [OF 1(3)] by (rule sorted_fst_filter [OF 1(3)])
      then have "expire_from now i ?vs = [w \<leftarrow> ?vs. now < snd w]"
        using 1(1) [OF i True] 1(5) i by (simp add: d)
      also have "\<dots> = [w \<leftarrow> take i ws @ ws ! i # drop (Suc i) ws. now < snd w]" using True by (simp add: d)
      finally show ?thesis using i True ws by (simp add: expire_from.simps [of now i ws])
    next
      case False
      then have "\<forall>w \<in> set (take (i + 1) ws). now < snd w" using 1(5) i by (auto simp: take_Suc_conv_app_nth)
      then show ?thesis using 1(2) [OF i False] 1(3) i False by (simp add: expire_from.simps [of now i ws])
    qed
  qed
qed

lemma expire_all: "sorted_wrt (<) (map fst ws) \<Longrightarrow> expire_from now 0 ws = [w \<leftarrow> ws. now < snd w]"
  by (simp add: expire_filter)

lemma inv_filter:
  assumes "io_inv b s"
  shows "io_inv b (s\<lparr>waiters := filter P (waiters s)\<rparr>)"
proof -
  have "sorted_wrt (<) (map fst (filter P (waiters s)))"
    using assms by (intro sorted_fst_filter) (simp add: io_inv_def)
  moreover have "length (filter P (waiters s)) \<le> IO_WAITERS_MAX"
    using assms length_filter_le [of P "waiters s"] unfolding io_inv_def by linarith
  ultimately show ?thesis using assms by (simp add: io_inv_def)
qed

lemma inv_sorted: "io_inv b s \<Longrightarrow> sorted_wrt (<) (map fst (waiters s))"
  by (simp add: io_inv_def)

lemma expire_inv: "io_inv b s \<Longrightarrow> io_request_expire_waiters now s = s\<lparr>waiters := [w \<leftarrow> waiters s. now < snd w]\<rparr>"
  unfolding io_request_expire_waiters_def by (simp only: expire_all [OF inv_sorted])

lemma cancel_inv: "io_inv b s \<Longrightarrow> io_request_cancel_waiter t s = s\<lparr>waiters := [w \<leftarrow> waiters s. fst w \<noteq> t]\<rparr>"
  unfolding io_request_cancel_waiter_def by (simp only: drop_waiter_filter [OF inv_sorted])

section \<open>Admission\<close>

lemma next_above: "n \<noteq> UINT64_MAX \<Longrightarrow> n < n + 1 \<and> n + 1 \<noteq> 0" for n :: u64
proof -
  assume "n \<noteq> UINT64_MAX"
  then have "unat n + 1 < 2 ^ 64" using unat64_less [of n] by (auto simp: word_unat_eq_iff)
  then show ?thesis by (auto simp: word_less_nat_alt unat_word_ariths word_unat_eq_iff)
qed

lemma grant_ticket:
  assumes inv: "io_inv b s" and i: "ticket_index t (waiters s) < length (waiters s)" and h: "fst (waiters s ! 0) = t"
  shows "b < t \<and> io_inv t (start_request t now owner (io_request_cancel_waiter t s)) \<and> (\<forall>w \<in> set (waiters s). t \<le> fst w)"
proof -
  obtain w ws where ws: "waiters s = w # ws" "fst w = t" using i h by (cases "waiters s") auto
  have "sorted_wrt (<) (b # t # map fst ws)" using inv ws by (simp add: io_inv_def)
  then have "\<forall>x \<in> set ws. t < fst x" "b < t" "sorted_wrt (<) (map fst ws)" by auto
  moreover from this have "[x \<leftarrow> waiters s. fst x \<noteq> t] = ws" using ws by (auto simp: filter_id_conv)
  moreover have "t \<noteq> 0" using \<open>b < t\<close> by auto
  ultimately show ?thesis using inv ws cancel_inv [OF inv, of t]
    by (auto simp: io_inv_def start_request_def)
qed

lemma grant_fresh:
  assumes inv: "io_inv b s" and w: "waiters s = []" and a: "allocate_id s = (t, s')" and t: "t \<noteq> 0"
  shows "b < t \<and> io_inv t (start_request t now owner s')"
proof -
  have n: "t = next_id s + 1" "s' = s\<lparr>next_id := next_id s + 1\<rparr>" "next_id s \<noteq> UINT64_MAX"
    using a t by (auto simp: allocate_id_def split: if_splits)
  have "b \<le> next_id s" using inv by (simp add: io_inv_def)
  then have "b < next_id s + 1" using next_above [OF n(3)] by auto
  then show ?thesis using w t by (simp add: io_inv_def start_request_def n)
qed

lemma enqueue_inv:
  assumes inv: "io_inv b s" and l: "length (waiters s) < IO_WAITERS_MAX" and e: "enqueue_waiter deadline s = (res, t, s')"
  shows "io_inv b s' \<and> rid s' = rid s \<and> res \<noteq> DRIVER_OK"
proof (cases "next_id s = UINT64_MAX")
  case False
  have b: "b \<le> next_id s" "\<forall>w \<in> set (waiters s). fst w \<le> next_id s" using inv by (simp_all add: io_inv_def)
  then have "b < next_id s + 1" "b \<le> next_id s + 1" "\<forall>w \<in> set (waiters s). fst w < next_id s + 1"
    "\<forall>w \<in> set (waiters s). fst w \<le> next_id s + 1" using next_above [OF False] by fastforce+
  then show ?thesis using inv l e next_above [OF False]
    by (auto simp: enqueue_waiter_def allocate_id_def io_inv_def False sorted_wrt_append Let_def) force+
qed (use inv e in \<open>auto simp: enqueue_waiter_def allocate_id_def\<close>)

lemma begin_cases:
  assumes inv: "io_inv b s" and r: "io_request_begin_owned now device has_token owner admission deadline s = (res, tok, adm', t)"
  shows "(tok = None \<and> res \<noteq> DRIVER_OK \<and> io_inv b t \<and> rid t = rid s) \<or>
    (\<exists>k. tok = Some \<lparr>tok_id = k, tok_device = device\<rparr> \<and> res = DRIVER_OK \<and> rid s = 0 \<and> b < k \<and> rid t = k \<and>
      pending t \<and> io_inv k t \<and> (\<forall>w \<in> set (waiters s). now < snd w \<longrightarrow> k \<le> fst w))"
proof -
  define s1 where "s1 = s\<lparr>waiters := [w \<leftarrow> waiters s. now < snd w]\<rparr>"
  have e: "io_request_expire_waiters now s = s1" using expire_inv [OF inv] by (simp add: s1_def)
  have i1: "io_inv b s1" "rid s1 = rid s" using inv_filter [OF inv] by (simp_all add: s1_def)
  have w1: "set (waiters s1) = {w \<in> set (waiters s). now < snd w}" by (simp add: s1_def)
  define reserved where "reserved = (case admission of Some t \<Rightarrow> t | None \<Rightarrow> 0)"
  note u = r [unfolded io_request_begin_owned_def e Let_def reserved_def [symmetric]]
  consider (refused) "\<not> has_token \<or> (owner \<noteq> 0) \<noteq> (admission \<noteq> None)"
    | (late) "has_token" "(owner \<noteq> 0) = (admission \<noteq> None)" "admission \<noteq> None \<and> now \<ge> deadline"
    | (gone) "has_token" "(owner \<noteq> 0) = (admission \<noteq> None)" "\<not> (admission \<noteq> None \<and> now \<ge> deadline)"
        "reserved \<noteq> 0 \<and> ticket_index reserved (waiters s1) = length (waiters s1)"
    | (busy) "has_token" "(owner \<noteq> 0) = (admission \<noteq> None)" "\<not> (admission \<noteq> None \<and> now \<ge> deadline)"
        "\<not> (reserved \<noteq> 0 \<and> ticket_index reserved (waiters s1) = length (waiters s1))"
        "rid s1 \<noteq> 0 \<or> (waiters s1 \<noteq> [] \<and> fst (waiters s1 ! 0) \<noteq> reserved)"
    | (free) "has_token" "(owner \<noteq> 0) = (admission \<noteq> None)" "\<not> (admission \<noteq> None \<and> now \<ge> deadline)"
        "\<not> (reserved \<noteq> 0 \<and> ticket_index reserved (waiters s1) = length (waiters s1))"
        "\<not> (rid s1 \<noteq> 0 \<or> (waiters s1 \<noteq> [] \<and> fst (waiters s1 ! 0) \<noteq> reserved))" by blast
  then show ?thesis
  proof cases
    case refused
    then show ?thesis using u inv by simp
  next
    case late
    have "io_inv b (io_request_cancel_waiter x s1)" "rid (io_request_cancel_waiter x s1) = rid s" for x
      using cancel_inv [OF i1(1)] inv_filter [OF i1(1)] i1(2) by simp_all
    then show ?thesis using u late by auto
  next
    case gone
    then show ?thesis using u i1 by auto
  next
    case busy
    obtain res2 t2 s2 where q: "enqueue_waiter deadline s1 = (res2, t2, s2)" by (metis prod.exhaust)
    then show ?thesis using u busy i1 enqueue_inv [OF i1(1) _ q] by (auto split: if_splits)
  next
    case free
    show ?thesis
    proof (cases "reserved = 0")
      case True
      obtain t2 s2 where a: "allocate_id s1 = (t2, s2)" by fastforce
      have w: "waiters s1 = []"
      proof (rule ccontr)
        assume "waiters s1 \<noteq> []"
        then have "fst (waiters s1 ! 0) = 0" using free(5) True by auto
        moreover have "fst (waiters s1 ! 0) > b" using i1(1) \<open>waiters s1 \<noteq> []\<close> by (cases "waiters s1") (auto simp: io_inv_def)
        ultimately show False by simp
      qed
      show ?thesis
      proof (cases "t2 = 0")
        case True
        then have "s2 = s1" using a next_above by (auto simp: allocate_id_def split: if_splits)
        then show ?thesis using u free \<open>reserved = 0\<close> a True i1 by auto
      next
        case False
        have r: "tok = Some \<lparr>tok_id = t2, tok_device = device\<rparr>" "res = DRIVER_OK" "t = start_request t2 now owner s2"
          using u free \<open>reserved = 0\<close> a False by auto
        have "\<forall>w \<in> set (waiters s). \<not> now < snd w" using w w1 by auto
        then show ?thesis using r free(5) i1(2) grant_fresh [OF i1(1) w a False, of now owner]
          by (simp add: start_request_def)
      qed
    next
      case False
      then have ti: "ticket_index reserved (waiters s1) < length (waiters s1)"
        using free(4) by (auto simp: ticket_index_def find_idx_Some_iff split: option.splits)
      then have "fst (waiters s1 ! 0) = reserved" using free(5) by auto
      note g = grant_ticket [OF i1(1) ti this, of now owner]
      have r: "tok = Some \<lparr>tok_id = reserved, tok_device = device\<rparr>" "res = DRIVER_OK"
        "t = start_request reserved now owner (io_request_cancel_waiter reserved s1)"
        using u free False by auto
      have "\<forall>w \<in> set (waiters s). now < snd w \<longrightarrow> reserved \<le> fst w" using g w1 by blast
      then show ?thesis using r free(5) i1(2) g by (simp add: start_request_def)
    qed
  qed
qed

lemma inv_keep:
  assumes "io_inv b s" and "waiters t = waiters s" and "next_id t = next_id s" and "rid t = rid s \<or> rid t = 0"
    and "pending t \<longrightarrow> rid t \<noteq> 0"
  shows "io_inv b t"
  using assms unfolding io_inv_def by (elim disjE) simp_all

lemma io_exec_inv:
  assumes inv: "io_inv b s" and x: "io_exec x s = (gs, t)"
  shows "\<exists>b'. io_inv b' t \<and> b \<le> b' \<and> sorted_wrt (<) (b # gs) \<and> (\<forall>g \<in> set gs. g \<le> b')"
proof (cases x)
  case (Begin now device has_token owner admission deadline)
  obtain res tok adm' t' where q: "io_request_begin_owned now device has_token owner admission deadline s = (res, tok, adm', t')"
    by (metis prod.exhaust)
  from begin_cases [OF inv q] show ?thesis using x q Begin
    by (auto simp: io_exec_def intro: less_imp_le)
next
  case (CancelTicket k)
  have "io_inv b t" using inv_filter [OF inv, of "\<lambda>w. fst w \<noteq> k"] cancel_inv [OF inv, of k] x CancelTicket
    by (simp add: io_exec_def)
  then show ?thesis using x CancelTicket by (auto simp: io_exec_def)
next
  case (Expire now)
  have "io_inv b t" using inv_filter [OF inv, of "\<lambda>w. now < snd w"] expire_inv [OF inv, of now] x Expire
    by (simp add: io_exec_def)
  then show ?thesis using x Expire by (auto simp: io_exec_def)
next
  case (Others n)
  have "\<forall>w \<in> set (waiters s). fst w \<le> next_id s" using inv by (simp add: io_inv_def)
  then have "next_id s \<le> n \<Longrightarrow> \<forall>w \<in> set (waiters s). fst w \<le> n" using order_trans by blast
  moreover have "next_id s \<le> n \<Longrightarrow> b \<le> n" using inv order_trans by (auto simp: io_inv_def)
  moreover have "t = (if next_id s \<le> n then s\<lparr>next_id := n\<rparr> else s)" using x Others by (simp add: io_exec_def)
  ultimately have "io_inv b t" using inv by (simp add: io_inv_def)
  then show ?thesis using x Others by (auto simp: io_exec_def)
next
  case CancelAll
  then have "io_inv b t" "gs = []" using inv x by (auto simp: io_exec_def io_inv_def io_request_cancel_waiters_def)
  then show ?thesis by auto
next
  case (Complete r)
  then have "t = io_request_complete r s" "gs = []" using x by (simp_all add: io_exec_def)
  then show ?thesis using inv_keep [OF inv, of t] inv by (auto simp: io_request_complete_def)
next
  case (Abort e)
  have "io_inv b (s\<lparr>result := e, pending := False\<rparr>)" by (rule inv_keep [OF inv]) simp_all
  then have "io_inv b t" "gs = []" using x inv Abort by (auto simp: io_exec_def io_request_abort_def split: if_splits)
  then show ?thesis by auto
next
  case Release
  then have "t = io_request_release s" "gs = []" using x by (simp_all add: io_exec_def)
  moreover have "io_inv b (io_request_release s)" by (rule inv_keep [OF inv]) (simp_all add: io_request_release_def)
  ultimately show ?thesis by auto
qed

lemma io_run_inv:
  "io_inv b s \<Longrightarrow> io_run xs s = (gs, t) \<Longrightarrow> \<exists>b'. io_inv b' t \<and> sorted_wrt (<) (b # gs)"
proof (induction xs arbitrary: b s gs)
  case (Cons x xs)
  obtain g s1 where g: "io_exec x s = (g, s1)" by fastforce
  obtain gs2 where gs: "io_run xs s1 = (gs2, t)" "gs = g @ gs2" using Cons.prems(2) g by (auto split: prod.splits)
  obtain b1 where b1: "io_inv b1 s1" "b \<le> b1" "sorted_wrt (<) (b # g)" "\<forall>x \<in> set g. x \<le> b1"
    using io_exec_inv [OF Cons.prems(1) g] by blast
  obtain b2 where b2: "io_inv b2 t" "sorted_wrt (<) (b1 # gs2)" using Cons.IH [OF b1(1) gs(1)] by blast
  have "\<forall>y \<in> set gs2. b < y \<and> (\<forall>x \<in> set g. x < y)" using b1(2,4) b2(2) by fastforce
  then have "sorted_wrt (<) (b # gs)" using b1(3) b2(2) gs(2) by (auto simp: sorted_wrt_append)
  then show ?case using b2(1) by blast
qed auto

lemma head_admitted:
  assumes inv: "io_inv b s" and r: "rid s = 0" and h: "[w \<leftarrow> waiters s. now < snd w] = (k, d) # ws"
    and o: "owner \<noteq> 0" and d: "now < deadline"
  shows "fst (io_request_begin_owned now device True owner (Some k) deadline s) = DRIVER_OK"
proof -
  define s1 where "s1 = s\<lparr>waiters := [w \<leftarrow> waiters s. now < snd w]\<rparr>"
  have e: "io_request_expire_waiters now s = s1" using expire_inv [OF inv] by (simp add: s1_def)
  have w: "waiters s1 = (k, d) # ws" "rid s1 = 0" using h r by (simp_all add: s1_def)
  have "io_inv b s1" using inv_filter [OF inv] by (simp add: s1_def)
  then have "b < k" using w by (auto simp: io_inv_def)
  then have "k \<noteq> 0" by auto
  moreover have "ticket_index k (waiters s1) = 0" by (simp add: ticket_index_def w)
  ultimately show ?thesis using o d w by (simp add: io_request_begin_owned_def e Let_def)
qed

text \<open>
  C28: whatever callers and the device do, requests are admitted one at a time and in the order of their
  tickets, and no identifier is used twice; in every reachable state at most 32 callers wait, a request
  begins only when the slot is free and no caller that still waits came first, and the first caller that
  still waits is admitted as soon as it asks while the slot is free.
\<close>

theorem io_admission_fifo:
  assumes "io_inv b s0" and "io_run xs s0 = (gs, s)"
  shows "sorted_wrt (<) (b # gs) \<and> length (waiters s) \<le> IO_WAITERS_MAX \<and>
    (\<forall>now device owner adm deadline res tok adm' t.
      io_request_begin_owned now device True owner adm deadline s = (res, Some tok, adm', t) \<longrightarrow>
        rid s = 0 \<and> io_request_matches t tok \<and> pending t \<and> (\<forall>w \<in> set (waiters s). now < snd w \<longrightarrow> tok_id tok \<le> fst w)) \<and>
    (\<forall>now device owner deadline k d ws.
      rid s = 0 \<and> [w \<leftarrow> waiters s. now < snd w] = (k, d) # ws \<and> owner \<noteq> 0 \<and> now < deadline \<longrightarrow>
        fst (io_request_begin_owned now device True owner (Some k) deadline s) = DRIVER_OK)"
proof -
  obtain b' where b': "io_inv b' s" "sorted_wrt (<) (b # gs)" using io_run_inv [OF assms] by blast
  have "rid s = 0 \<and> io_request_matches t tok \<and> pending t \<and> (\<forall>w \<in> set (waiters s). now < snd w \<longrightarrow> tok_id tok \<le> fst w)"
    if "io_request_begin_owned now device True owner adm deadline s = (res, Some tok, adm', t)"
    for now device owner adm deadline res tok adm' t
    using begin_cases [OF b'(1) that] by (auto simp: io_request_matches_def)
  moreover have "length (waiters s) \<le> IO_WAITERS_MAX" using b'(1) by (simp add: io_inv_def)
  ultimately show ?thesis using b'(2) head_admitted [OF b'(1)] by blast
qed

definition blank_io :: io_world where
  "blank_io = \<lparr>rid = 0, started = 0, bytes = 0, operation = 0, owner_pid = 0, pending = False, result = 0, waiters = [],
     next_id = 0\<rparr>"

text \<open>Caller 7 is served, caller 8 waits and is served after the release.\<close>

definition sample_io :: "io_op list" where
  "sample_io = [Begin 1 0 True 7 (Some 0) 100, Begin 2 0 True 8 (Some 0) 100, Complete 0, Release, Begin 3 0 True 8 (Some 2) 100]"

lemma sample_io_grants: "fst (io_run sample_io blank_io) = [1, 2]"
  by code_simp

lemma io_admission_fifo_witness:
  "fst (io_run sample_io blank_io) = [1, 2] \<and> sorted_wrt (<) (0 # fst (io_run sample_io blank_io))"
proof -
  have inv: "io_inv 0 blank_io" by (simp add: io_inv_def blank_io_def)
  obtain gs s where r: "io_run sample_io blank_io = (gs, s)" by fastforce
  show ?thesis using io_admission_fifo [OF inv r] sample_io_grants r by simp
qed

end
