(* ===== verification/Block.thy ===== *)
theory Block
  imports Virtio IoRequest
begin

text \<open>
  The disk driver, \<^verbatim>\<open>drivers/block.c\<close>. Every operation runs under the lock of its disk and is one step;
  the worker \<open>block_service\<close> takes the lock of a disk twice, so its two halves are two steps. \<open>now\<close> is
  \<^verbatim>\<open>timer_get_ticks()\<close>, \<open>irqs\<close> is \<^verbatim>\<open>virtio_irqs_enabled()\<close>, \<open>service\<close> is \<^verbatim>\<open>io_service_ready()\<close>. A buffer
  of the caller is the list of its bytes, or \<open>None\<close> for a null pointer. \<^verbatim>\<open>dma\<close> is null exactly when
  \<open>b_physical\<close> is 0. The blocking adapters (\<^verbatim>\<open>request\<close>) sleep on \<^verbatim>\<open>kernel/wait.h\<close>, which is not in the
  repository; what they do between sleeps are the steps below. \<open>None\<close> as a result is a trap.
\<close>

section \<open>State\<close>

record block_info =
  bi_sectors :: u64
  bi_requests :: u64
  bi_errors :: u64
  bi_online :: bool
  bi_read_only :: bool
  bi_can_flush :: bool

record block_device =
  transport :: virtio_device
  binfo :: block_info
  b_physical :: u64

record io_state = dma_state +
  next_ticket :: u64

record block_state = io_state +
  disks :: "block_device list"
  disk_requests :: "io_request list"
  disk_count :: u32
  disk_initialized :: bool

abbreviation BLK_RO :: u32 where "BLK_RO \<equiv> 0x20"
abbreviation BLK_FLUSH :: u32 where "BLK_FLUSH \<equiv> 0x200"
abbreviation BLOCK_SECTOR_SIZE :: u32 where "BLOCK_SECTOR_SIZE \<equiv> 512"
abbreviation BLOCK_MAX_SECTORS :: u32 where "BLOCK_MAX_SECTORS \<equiv> 8"
abbreviation BLOCK_READ :: u32 where "BLOCK_READ \<equiv> 0"
abbreviation BLOCK_WRITE :: u32 where "BLOCK_WRITE \<equiv> 1"
abbreviation BLOCK_FLUSH :: u32 where "BLOCK_FLUSH \<equiv> 4"

definition no_disk :: block_device where
  "no_disk = \<lparr>transport = no_virtio, binfo = \<lparr>bi_sectors = 0, bi_requests = 0, bi_errors = 0, bi_online = False,
     bi_read_only = False, bi_can_flush = False\<rparr>, b_physical = 0\<rparr>"

text \<open>A request together with the counter of identifiers that all devices share.\<close>

definition world :: "io_request \<Rightarrow> u64 \<Rightarrow> io_world" where
  "world r n = \<lparr>rid = rid r, started = started r, bytes = bytes r, operation = operation r, owner_pid = owner_pid r,
     pending = pending r, result = result r, waiters = waiters r, next_id = n\<rparr>"

definition request_of :: "io_world \<Rightarrow> io_request" where
  "request_of w = \<lparr>rid = rid w, started = started w, bytes = bytes w, operation = operation w, owner_pid = owner_pid w,
     pending = pending w, result = result w, waiters = waiters w\<rparr>"

definition disk_world :: "nat \<Rightarrow> 'a block_state_scheme \<Rightarrow> io_world" where
  "disk_world i s = world (disk_requests s ! i) (next_ticket s)"

definition put_disk_world :: "nat \<Rightarrow> io_world \<Rightarrow> 'a block_state_scheme \<Rightarrow> 'a block_state_scheme" where
  "put_disk_world i w s = s\<lparr>next_ticket := next_id w, disk_requests := (disk_requests s)[i := request_of w]\<rparr>"

definition put_disk :: "nat \<Rightarrow> block_device \<Rightarrow> 'a block_state_scheme \<Rightarrow> 'a block_state_scheme" where
  "put_disk i d s = s\<lparr>disks := (disks s)[i := d]\<rparr>"

text \<open>The bytes of a number, the lowest first.\<close>

definition le_bytes :: "nat \<Rightarrow> u64 \<Rightarrow> u8 list" where
  "le_bytes n v = map (\<lambda>k. ucast (drop_bit (8 * k) v)) [0..<n]"

section \<open>Stopping a disk\<close>

definition disk_stop :: "nat \<Rightarrow> 'a block_state_scheme \<Rightarrow> (bool \<times> 'a block_state_scheme) option" where
  "disk_stop i s = do {
     let w = io_request_cancel_waiters (disk_world i s);
     w \<leftarrow> (if result w = DRIVER_OK then io_request_abort DRIVER_CANCELED w
            else Some (io_request_complete DRIVER_CANCELED w));
     let s = put_disk_world i w s;
     let d = disks s ! i;
     let d = d\<lparr>binfo := (binfo d)\<lparr>bi_online := False\<rparr>\<rparr>;
     let (stopped, dev, s) = virtio_stop (transport d) s;
     let d = d\<lparr>transport := dev\<rparr>;
     if \<not> stopped then Some (False, put_disk i d s)
     else Some (True, put_disk i (d\<lparr>b_physical := 0\<rparr>) (virtio_dma_free (b_physical d) 2 s))
   }"

section \<open>Initialisation\<close>

text \<open>The steps up to a disk that is online; the result tells whether they succeeded.\<close>

definition disk_open :: "pci_device \<Rightarrow> 'a block_state_scheme \<Rightarrow> bool \<times> block_device \<times> 'a block_state_scheme" where
  "disk_open pci s =
     (let d = no_disk;
          (ok, dev, s) = virtio_open pci (BLK_RO OR BLK_FLUSH) s;
          (ok, dev, s) = (if ok then virtio_queue_init dev 0 s else (False, dev, s))
      in if \<not> ok then (False, d\<lparr>transport := dev\<rparr>, s)
         else let (sectors, s) = virtio_read_config64 dev 0 s;
                  d = d\<lparr>transport := dev, binfo := (binfo d)\<lparr>bi_sectors := sectors\<rparr>\<rparr>
              in if sectors = 0 then (False, d, s)
                 else let (physical, s) = virtio_dma_alloc 2 s
                      in if physical = 0 then (False, d, s)
                         else let (dev, s) = virtio_ready dev s
                              in (True, d\<lparr>transport := dev, b_physical := physical,
                                    binfo := (binfo d)\<lparr>bi_read_only := v_features dev AND BLK_RO \<noteq> 0,
                                      bi_can_flush := v_features dev AND BLK_FLUSH \<noteq> 0, bi_online := True\<rparr>\<rparr>, s))"

definition disk_probe :: "pci_device \<Rightarrow> 'a block_state_scheme \<Rightarrow> 'a block_state_scheme option" where
  "disk_probe pci s =
     (let i = unat (disk_count s); (ok, d, s) = disk_open pci s; s = put_disk i d s
      in if ok then Some (s\<lparr>disk_count := of_nat i + 1\<rparr>)
         else do { (stopped, s) \<leftarrow> disk_stop i s; Some (s\<lparr>disk_count := of_nat i + 1\<rparr>) })"

primrec disk_probes :: "pci_device list \<Rightarrow> 'a block_state_scheme \<Rightarrow> 'a block_state_scheme option" where
  "disk_probes [] s = Some s"
| "disk_probes (pci # ps) s =
     (if disk_count s \<ge> 2 then Some s
      else if pd_vendor pci \<noteq> 0x1af4 \<or> pd_device pci \<noteq> 0x1001 then disk_probes ps s
      else do { s \<leftarrow> disk_probe pci s; disk_probes ps s })"

definition block_init :: "'a block_state_scheme \<Rightarrow> 'a block_state_scheme option" where
  "block_init s =
     (if disk_initialized s then Some s
      else disk_probes (pci_devices (ports s)) (s\<lparr>disk_initialized := True\<rparr>))"

definition block_count :: "'a block_state_scheme \<Rightarrow> u32" where
  "block_count s = disk_count s"

definition block_get_info :: "u32 \<Rightarrow> bool \<Rightarrow> 'a block_state_scheme \<Rightarrow> int \<times> (block_info \<times> virtio_irq_info) option" where
  "block_get_info index has_out s =
     (if index \<ge> 2 \<or> \<not> has_out \<or> index \<ge> block_count s then (DRIVER_INVALID, None)
      else let d = disks s ! unat index
           in (DRIVER_OK, Some (binfo d, virtio_irq_get_info (v_io (transport d)) s)))"

section \<open>Requests\<close>

definition disk_check :: "nat \<Rightarrow> 'a block_state_scheme \<Rightarrow> 'a block_state_scheme option" where
  "disk_check i s =
     (let d = disks s ! i
      in if \<not> bi_online (binfo d) then Some s
         else let (changed, s) = virtio_config_changed (transport d) s
              in if \<not> changed then Some s
                 else let (sectors, s) = virtio_read_config64 (transport d) 0 s
                      in if sectors = bi_sectors (binfo d) then Some s
                         else do {
                           w \<leftarrow> io_request_abort DRIVER_IO (disk_world i s);
                           (stopped, s) \<leftarrow> disk_stop i (put_disk_world i w s);
                           Some s
                         })"

text \<open>The three descriptors of a request, written and handed to the device.\<close>

definition disk_chain :: "u64 \<Rightarrow> u32 \<Rightarrow> u32 \<Rightarrow> virtio_desc list" where
  "disk_chain physical ty count =
     [\<lparr>d_address = physical, d_length = 16, d_flags = VIRTIO_DESC_NEXT, d_next = if ty = 4 then 2 else 1\<rparr>,
      \<lparr>d_address = physical + 4096, d_length = count * BLOCK_SECTOR_SIZE,
         d_flags = VIRTIO_DESC_NEXT OR (if ty = 0 then VIRTIO_DESC_WRITE else 0), d_next = 2\<rparr>,
      \<lparr>d_address = physical + 16, d_length = 1, d_flags = VIRTIO_DESC_WRITE, d_next = 0\<rparr>]"

definition put_descriptor ::
    "u16 \<Rightarrow> nat \<Rightarrow> virtio_desc \<Rightarrow> virtio_queue \<times> 'a dma_state_scheme \<Rightarrow> virtio_queue \<times> 'a dma_state_scheme" where
  "put_descriptor io k d x =
     (let (q, s) = x
      in (q\<lparr>q_descriptors := (q_descriptors q)[k := d]\<rparr>, expose io (d_address d) (unat (d_length d)) s))"

definition disk_start ::
    "nat \<Rightarrow> u32 \<Rightarrow> u64 \<Rightarrow> u32 \<Rightarrow> u8 list \<Rightarrow> 'a block_state_scheme \<Rightarrow> 'a block_state_scheme option" where
  "disk_start i ty sector count buffer s = do {
     let s = put_disk_world i ((disk_world i s)\<lparr>operation := ty, bytes := count * BLOCK_SECTOR_SIZE\<rparr>) s;
     let d = disks s ! i;
     let dev = transport d;
     s \<leftarrow> dma_write (b_physical d) (le_bytes 4 (ucast ty) @ le_bytes 4 0 @ le_bytes 8 sector) s;
     s \<leftarrow> dma_write (b_physical d + 16) [0xff] s;
     s \<leftarrow> (if ty = 1 then dma_write (b_physical d + 4096) (take (unat (count * BLOCK_SECTOR_SIZE)) buffer) s else Some s);
     let (q, s) = fold (\<lambda>k. put_descriptor (v_io dev) k (disk_chain (b_physical d) ty count ! k)) [0, 1, 2]
       (v_queues dev ! 0, s);
     q \<leftarrow> virtio_submit q 0;
     let s = virtio_notify dev 0 s;
     Some (put_disk i (d\<lparr>transport := set_queue 0 q dev, binfo := (binfo d)\<lparr>bi_requests := bi_requests (binfo d) + 1\<rparr>\<rparr>) s)
   }"

definition disk_submit_owned ::
    "bool \<Rightarrow> bool \<Rightarrow> u64 \<Rightarrow> u32 \<Rightarrow> u32 \<Rightarrow> u64 \<Rightarrow> u32 \<Rightarrow> u8 list option \<Rightarrow> bool \<Rightarrow> u32 \<Rightarrow> u64 option \<Rightarrow> u64 \<Rightarrow>
     'a block_state_scheme \<Rightarrow> (int \<times> driver_token option \<times> u64 option \<times> 'a block_state_scheme) option" where
  "disk_submit_owned irqs service now index ty sector count buffer has_token owner admission deadline s =
     (if \<not> irqs \<or> index \<ge> 2 \<or> \<not> has_token \<or> (ty \<noteq> 0 \<and> ty \<noteq> 1 \<and> ty \<noteq> 4) \<or> index \<ge> block_count s
      then Some (DRIVER_INVALID, None, admission, s)
      else do {
        let i = unat index;
        s \<leftarrow> disk_check i s;
        let f = binfo (disks s ! i);
        if \<not> bi_online f \<or> \<not> service then Some (DRIVER_OFFLINE, None, admission, s)
        else if ty \<noteq> 4 \<and> ((ty = 1 \<and> buffer = None) \<or> count = 0 \<or> count > BLOCK_MAX_SECTORS \<or>
             sector \<ge> bi_sectors f \<or> ucast count > bi_sectors f - sector)
        then Some (DRIVER_INVALID, None, admission, s)
        else if ty = 4 \<and> (sector \<noteq> 0 \<or> count \<noteq> 0 \<or> buffer \<noteq> None) then Some (DRIVER_INVALID, None, admission, s)
        else if ty = 1 \<and> bi_read_only f then Some (DRIVER_READ_ONLY, None, admission, s)
        else if ty = 4 \<and> \<not> bi_can_flush f then Some (DRIVER_UNSUPPORTED, None, admission, s)
        else let (res, token, admission, w) =
                   io_request_begin_owned now index has_token owner admission deadline (disk_world i s);
                 s = put_disk_world i w s
             in if res \<noteq> 0 then Some (res, token, admission, s)
                else do {
                  s \<leftarrow> disk_start i ty sector count (case buffer of None \<Rightarrow> [] | Some b \<Rightarrow> b) s;
                  Some (DRIVER_OK, token, admission, s)
                }
      })"

definition block_submit ::
    "bool \<Rightarrow> bool \<Rightarrow> u64 \<Rightarrow> u32 \<Rightarrow> u32 \<Rightarrow> u64 \<Rightarrow> u32 \<Rightarrow> u8 list option \<Rightarrow> bool \<Rightarrow>
     'a block_state_scheme \<Rightarrow> (int \<times> driver_token option \<times> u64 option \<times> 'a block_state_scheme) option" where
  "block_submit irqs service now index ty sector count buffer has_token s =
     disk_submit_owned irqs service now index ty sector count buffer has_token 0 None 0 s"

section \<open>Completion\<close>

definition disk_error :: "nat \<Rightarrow> 'a block_state_scheme \<Rightarrow> 'a block_state_scheme" where
  "disk_error i s =
     (let d = disks s ! i in put_disk i (d\<lparr>binfo := (binfo d)\<lparr>bi_errors := bi_errors (binfo d) + 1\<rparr>\<rparr>) s)"

text \<open>The status byte is read again for every test.\<close>

definition disk_poll :: "u64 \<Rightarrow> nat \<Rightarrow> 'a block_state_scheme \<Rightarrow> 'a block_state_scheme option" where
  "disk_poll now i s =
     (if \<not> pending (disk_requests s ! i) then Some s
      else do {
        let d = disks s ! i;
        let status = b_physical d + 16;
        (res, used, q, s) \<leftarrow> virtio_pop (v_queues (transport d) ! 0) s;
        let s = put_disk i (d\<lparr>transport := set_queue 0 q (transport d)\<rparr>) s;
        if res = 0 \<and> now - started (disk_requests s ! i) < 500 then Some s
        else do {
          (bad, s) \<leftarrow> (if res \<noteq> 1 \<or> u_id used \<noteq> 0 then Some (True, s)
                       else do { (v, s) \<leftarrow> dma_load status 1 s; Some ((ucast v :: u8) > 2, s) });
          if bad
          then do {
            let s = disk_error i s;
            let s = put_disk_world i
              (io_request_complete (if res = 0 then DRIVER_TIMEOUT else DRIVER_IO) (disk_world i s)) s;
            (stopped, s) \<leftarrow> disk_stop i s;
            Some s
          }
          else do {
            (v, s) \<leftarrow> dma_load status 1 s;
            if (ucast v :: u8) \<noteq> 0
            then do {
              let s = disk_error i s;
              (v, s) \<leftarrow> dma_load status 1 s;
              Some (put_disk_world i
                (io_request_complete (if (ucast v :: u8) = 2 then DRIVER_UNSUPPORTED else DRIVER_IO) (disk_world i s)) s)
            }
            else Some (put_disk_world i (io_request_complete DRIVER_OK (disk_world i s)) s)
          }
        }
      })"

definition disk_service :: "u64 \<Rightarrow> nat \<Rightarrow> 'a block_state_scheme \<Rightarrow> 'a block_state_scheme option" where
  "disk_service now i s = do {
     let s = put_disk_world i (io_request_expire_waiters now (disk_world i s)) s;
     s \<leftarrow> disk_check i s;
     disk_poll now i s
   }"

text \<open>
  The two halves of the worker for one disk. Between them the lock is free, and \<open>dead\<close> is what
  \<^verbatim>\<open>task_is_dead\<close> says of the owner seen by the first half.
\<close>

definition block_service_begin :: "u64 \<Rightarrow> nat \<Rightarrow> 'a block_state_scheme \<Rightarrow> ((u64 \<times> u32) \<times> 'a block_state_scheme) option" where
  "block_service_begin now i s =
     (let r = disk_requests s ! i
      in if owner_pid r = 0 then do { s \<leftarrow> disk_service now i s; Some ((rid r, owner_pid r), s) }
         else Some ((rid r, owner_pid r), s))"

definition block_service_end ::
    "u64 \<Rightarrow> nat \<Rightarrow> u64 \<times> u32 \<Rightarrow> bool \<Rightarrow> 'a block_state_scheme \<Rightarrow> 'a block_state_scheme option" where
  "block_service_end now i seen dead s = do {
     let r = disk_requests s ! i;
     s \<leftarrow> (if dead \<and> rid r = fst seen \<and> owner_pid r = snd seen
           then do {
             s \<leftarrow> (if pending r then do { (stopped, s) \<leftarrow> disk_stop i s; Some s } else Some s);
             Some (put_disk_world i (io_request_release (disk_world i s)) s)
           }
           else Some s);
     disk_service now i s
   }"

definition block_collect ::
    "u64 \<Rightarrow> driver_token \<Rightarrow> bool \<Rightarrow> u32 \<Rightarrow> 'a block_state_scheme \<Rightarrow> (int \<times> u8 list \<times> 'a block_state_scheme) option" where
  "block_collect now token has_buffer capacity s =
     (if tok_device token \<ge> 2 \<or> tok_id token = 0 then Some (DRIVER_INVALID, [], s)
      else let i = unat (tok_device token)
           in if \<not> io_request_matches (disk_world i s) token then Some (DRIVER_CANCELED, [], s)
              else do {
                s \<leftarrow> disk_service now i s;
                let w = disk_world i s;
                if \<not> io_request_matches w token then Some (DRIVER_CANCELED, [], s)
                else if pending w then Some (DRIVER_PENDING, [], s)
                else if result w = 0 \<and> operation w = BLOCK_READ \<and> (\<not> has_buffer \<or> capacity < bytes w)
                then Some (DRIVER_BUFFER_SMALL, [], s)
                else do {
                  (bs, s) \<leftarrow> (if result w = 0 \<and> operation w = BLOCK_READ
                              then dma_copy (b_physical (disks s ! i) + 4096) (unat (bytes w)) s else Some ([], s));
                  Some (result w, bs, put_disk_world i (io_request_release (disk_world i s)) s)
                }
              })"

definition block_cancel :: "driver_token \<Rightarrow> 'a block_state_scheme \<Rightarrow> (int \<times> 'a block_state_scheme) option" where
  "block_cancel token s =
     (if tok_device token \<ge> 2 \<or> tok_id token = 0 then Some (DRIVER_INVALID, s)
      else let i = unat (tok_device token)
           in if \<not> io_request_matches (disk_world i s) token then Some (DRIVER_CANCELED, s)
              else do {
                s \<leftarrow> (if pending (disk_requests s ! i) then do { (stopped, s) \<leftarrow> disk_stop i s; Some s } else Some s);
                Some (DRIVER_OK, put_disk_world i (io_request_release (disk_world i s)) s)
              })"

text \<open>The waiting caller gives up its ticket.\<close>

definition block_cancel_waiter :: "u32 \<Rightarrow> u64 \<Rightarrow> 'a block_state_scheme \<Rightarrow> 'a block_state_scheme" where
  "block_cancel_waiter index t s =
     put_disk_world (unat index) (io_request_cancel_waiter t (disk_world (unat index) s)) s"

primrec disk_stops :: "nat list \<Rightarrow> 'a block_state_scheme \<Rightarrow> (bool \<times> 'a block_state_scheme) option" where
  "disk_stops [] s = Some (True, s)"
| "disk_stops (i # is) s = do {
     (stopped, s) \<leftarrow> disk_stop i s;
     let s = put_disk_world i (io_request_release (disk_world i s)) s;
     (rest, s) \<leftarrow> disk_stops is s;
     Some (stopped \<and> rest, s)
   }"

definition block_shutdown :: "'a block_state_scheme \<Rightarrow> (int \<times> 'a block_state_scheme) option" where
  "block_shutdown s = do {
     (stopped, s) \<leftarrow> disk_stops [0..<unat (block_count s)] s;
     if stopped then Some (DRIVER_OK, s\<lparr>disk_initialized := False, disk_count := 0\<rparr>) else Some (DRIVER_IO, s)
   }"

end
