(* ===== verification/VirtioProps.thy ===== *)
theory VirtioProps
  imports Virtio VmmSpace "HOL-Library.Multiset"
begin

text \<open>
  Who owns the memory that devices use. A holder is a device, by its port, with the frames its driver
  keeps for it. The invariant says that holders have disjoint frames, that these are in use, and that
  whatever a device was told of and may still use belongs to its holder.
\<close>

section \<open>Holders\<close>

type_synonym holder = "u16 \<times> u64 multiset"

definition held :: "holder multiset \<Rightarrow> u64 multiset" where
  "held H = sum_mset (image_mset snd H)"

lemma held_simps [simp]: "held {#} = {#}" "held (add_mset h H) = snd h + held H" "held (H + H') = held H + held H'"
  by (simp_all add: held_def)

definition dma_inv :: "'a dma_state_scheme \<Rightarrow> holder multiset \<Rightarrow> bool" where
  "dma_inv s H \<longleftrightarrow> pmm_inv s \<and> (\<forall>f. count (held H) f \<le> 1) \<and> (\<forall>f \<in># held H. 0 < frame_refs s f) \<and>
     (\<forall>io f. (io, f) \<in> set (exposed s) \<longrightarrow> io \<noteq> 0 \<and> (\<exists>F. (io, F) \<in># H \<and> f \<in># F))"

lemma dma_invD:
  assumes "dma_inv s H"
  shows "pmm_inv s" and "count (held H) f \<le> 1" and "f \<in># held H \<Longrightarrow> 0 < frame_refs s f"
    and "(io, f) \<in> set (exposed s) \<Longrightarrow> io \<noteq> 0 \<and> (\<exists>F. (io, F) \<in># H \<and> f \<in># F)"
  using assms unfolding dma_inv_def by blast+

text \<open>Frames that a device may use are in use, so nobody is given them.\<close>

lemma exposed_upd [simp]:
  "frame_refs (s\<lparr>exposed := x\<rparr>) = frame_refs s" "pmm_inv (s\<lparr>exposed := x\<rparr>) = pmm_inv s"
  by (rule pmm_facts_cong; simp)+

lemma dma_inv_shrink:
  assumes inv: "dma_inv s H" and e: "set (exposed s') \<subseteq> set (exposed s)" and f: "frame_refs s' = frame_refs s" "pmm_inv s' = pmm_inv s"
  shows "dma_inv s' H"
proof -
  have "io \<noteq> 0 \<and> (\<exists>F. (io, F) \<in># H \<and> f \<in># F)" if "(io, f) \<in> set (exposed s')" for io f
    using dma_invD(4) [OF inv] subsetD [OF e that] by blast
  then show ?thesis using inv f unfolding dma_inv_def by simp
qed

lemma exposed_held: "dma_inv s H \<Longrightarrow> (io, f) \<in> set (exposed s) \<Longrightarrow> f \<in># held H"
  using dma_invD(4) [of s H io f] by (force simp: held_def)

section \<open>Operations that leave frames alone\<close>

definition quiet :: "'a dma_state_scheme \<Rightarrow> 'a dma_state_scheme \<Rightarrow> bool" where
  "quiet s s' \<longleftrightarrow> dma_state.more s' = dma_state.more s \<and> exposed s' = exposed s \<and>
     frame_refs s' = frame_refs s \<and> pmm_inv s' = pmm_inv s"

lemma quiet_refl [simp]: "quiet s s"
  by (simp add: quiet_def)

lemma quiet_trans: "quiet s t \<Longrightarrow> quiet t u \<Longrightarrow> quiet s u"
  by (simp add: quiet_def)

lemma quiet_inv: "quiet s s' \<Longrightarrow> dma_inv s' H = dma_inv s H"
  by (simp add: quiet_def dma_inv_def)

lemma quiet_more: "quiet s s' \<Longrightarrow> dma_state.more s' = dma_state.more s"
  by (simp add: quiet_def)

lemma quiet_in_use: "quiet s s' \<Longrightarrow> in_use s' a n = in_use s a n"
  by (simp add: quiet_def in_use_def)

lemma quietI:
  assumes "dma_state.more s' = dma_state.more s" "exposed s' = exposed s" "bitmap s' = bitmap s"
    "refcounts s' = refcounts s" "total_pages s' = total_pages s" "free_pages s' = free_pages s"
  shows "quiet s s'"
  using assms(1,2) pmm_facts_cong(1,2) [OF assms(3-6)] by (simp add: quiet_def)

lemma quiet_upd [simp]:
  "quiet s (s\<lparr>ports := p\<rparr>)" "quiet s (s\<lparr>routes := r\<rparr>)" "quiet s (s\<lparr>irq_stats := t\<rparr>)"
  "quiet s (s\<lparr>dma_reads := n\<rparr>)" "quiet s (s\<lparr>mem := m\<rparr>)" "quiet s (s\<lparr>routes := r, irq_stats := t\<rparr>)"
  by (rule quietI; simp)+

lemma quiet_to_ports [simp]: "quiet s (to_ports f s)"
  by (simp add: to_ports_def)

lemma quiet_on_ports: "on_ports f s = (v, s') \<Longrightarrow> quiet s s'"
  by (auto simp: on_ports_def split: prod.splits)

lemma quiet_load: "dma_load a n s = Some (v, s') \<Longrightarrow> quiet s s'"
  by (auto simp: dma_load_def split: if_splits)

lemma quiet_copy: "dma_copy a n s = Some (bs, s') \<Longrightarrow> quiet s s'"
  by (auto simp: dma_copy_def split: if_splits)

lemma quiet_write: "dma_write a bs s = Some s' \<Longrightarrow> quiet s s'"
  by (auto simp: dma_write_def split: if_splits)

lemma quiet_attach:
  assumes "virtio_irq_attach io irq s = (ok, s')" shows "quiet s s'"
proof -
  obtain v s1 where p: "on_ports (pic_enable_pci_irq irq) s = (v, s1)" by fastforce
  note q = quiet_on_ports [OF p]
  show ?thesis using assms p q quiet_trans [OF q quiet_upd(6)]
    by (auto simp: virtio_irq_attach_def Let_def split: if_splits option.splits)
qed

lemma quiet_detach [simp]: "quiet s (virtio_irq_detach io s)"
proof -
  have "quiet s (detach_route io i s)" for i and s :: "'a dma_state_scheme"
  proof -
    obtain v s1 where p: "on_ports (inb (io + 19)) s = (v, s1)" by fastforce
    show ?thesis using quiet_trans [OF quiet_on_ports [OF p] quiet_upd(6)] p by (simp add: detach_route_def Let_def)
  qed
  then have "quiet s (fold (detach_route io) is s)" for "is" and s :: "'a dma_state_scheme"
    by (induction "is" arbitrary: s) (auto intro: quiet_trans)
  from this [of s "[0, 1, 2, 3]"] show ?thesis unfolding virtio_irq_detach_def .
qed

lemma quiet_take_config: "virtio_irq_take_config io s = (v, s') \<Longrightarrow> quiet s s'"
  by (auto simp: virtio_irq_take_config_def split: option.splits)

lemma quiet_config_changed: "virtio_config_changed dev s = (v, s') \<Longrightarrow> quiet s s'"
  by (auto simp: virtio_config_changed_def split: if_splits prod.splits dest: quiet_take_config quiet_on_ports)

lemma quiet_config64: "config64_from n io off old s = (v, s') \<Longrightarrow> quiet s s'"
proof (induction n arbitrary: old s)
  case 0
  then show ?case by simp
next
  case (Suc n)
  obtain l s1 where l: "on_ports (inl (io + 20 + off)) s = (l, s1)" by fastforce
  obtain h s2 where h: "on_ports (inl (io + 24 + off)) s1 = (h, s2)" by fastforce
  have q: "quiet s s2" by (rule quiet_trans [OF quiet_on_ports [OF l] quiet_on_ports [OF h]])
  show ?case using Suc.prems l h q quiet_trans [OF q Suc.IH] by (auto simp: Let_def split: if_splits)
qed

lemma quiet_read_config: "virtio_read_config64 dev off s = (v, s') \<Longrightarrow> quiet s s'"
  unfolding virtio_read_config64_def by (rule quiet_config64)

lemma quiet_notify [simp]: "quiet s (virtio_notify dev queue s)"
  by (simp add: virtio_notify_def)

section \<open>Blocks of frames\<close>

definition block :: "u64 \<Rightarrow> u32 \<Rightarrow> u64 multiset" where
  "block p n = (if p = 0 then {#} else mset (map (\<lambda>i. p + of_nat i * 4096) [0..<unat n]))"

lemma contiguous_aligned:
  assumes inv: "pmm_inv s" and al: "pmm_alloc_contiguous_pages s n = (s', a)"
  shows "a AND 4095 = 0"
  using inv al
proof (cases rule: pmm_alloc_contiguous_cases)
  case fail
  then show ?thesis by simp
next
  case one
  then show ?thesis using pmm_alloc_contract(5,6) [OF inv one(2)] by auto
next
  case (run p)
  have "p < total_pages s" using run by (auto simp: free_run_def)
  then have "p < 2 ^ 40" using pmm_invD(3) [OF inv] by (rule order.strict_trans2)
  then show ?thesis using page_addr_aligned run(3) by simp
qed

lemma more_take_pages: "machine.more (fold take_page ps s) = machine.more s"
  by (induction ps arbitrary: s) (simp_all add: take_page_def)

lemma contiguous_more:
  assumes inv: "pmm_inv s" and al: "pmm_alloc_contiguous_pages s n = (s', a)"
  shows "machine.more s' = machine.more s"
  using inv al
proof (cases rule: pmm_alloc_contiguous_cases)
  case fail
  then show ?thesis by simp
next
  case one
  then show ?thesis using more_alloc [of s] by simp
next
  case (run p)
  then show ?thesis by (simp add: taken_run_def more_take_pages)
qed

lemma more_dma_fields:
  fixes s s' :: "'a dma_state_scheme"
  assumes "machine.more s' = machine.more s"
  shows "exposed s' = exposed s" "dma_state.more s' = dma_state.more s" "ports s' = ports s"
  using assms by (cases s; cases s'; simp)+

lemma block_pages:
  assumes "a AND 4095 = 0" and "a \<noteq> 0"
  shows "block a n = mset (map page_addr [addr_page a ..< addr_page a + unat n])"
proof -
  have a: "a = page_addr (addr_page a)" using aligned_page_addr [OF assms(1)] by simp
  have "a + of_nat i * 4096 = page_addr (addr_page a + i)" for i
    by (subst a) (simp add: page_addr_def algebra_simps)
  then have "map (\<lambda>i. a + of_nat i * 4096) [0..<unat n] = map page_addr (map (\<lambda>i. i + addr_page a) [0..<unat n])"
    by (simp add: add.commute)
  also have "\<dots> = map page_addr [addr_page a ..< addr_page a + unat n]"
    by (simp only: map_add_upt add.commute)
  finally show ?thesis using assms(2) by (simp add: block_def)
qed

lemma contiguous_inv:
  fixes n :: u32
  assumes inv: "dma_inv s (add_mset (io, F) H)" and c: "pmm_alloc_contiguous_pages s (ucast n) = (s1, a)"
  shows "dma_inv s1 (add_mset (io, F + block a n) H)" and "a AND 4095 = 0"
    and "dma_state.more s1 = dma_state.more s" and "exposed s1 = exposed s"
proof -
  note d = dma_invD [OF inv]
  note ef = pmm_alloc_contiguous_effect [OF d(1) c] and alg = contiguous_aligned [OF d(1) c]
    and mf = more_dma_fields [OF contiguous_more [OF d(1) c]]
  show "a AND 4095 = 0" using alg by simp
  show "dma_state.more s1 = dma_state.more s" "exposed s1 = exposed s" using mf by simp_all
  show "dma_inv s1 (add_mset (io, F + block a n) H)"
  proof (cases "a = 0")
    case True
    then have "s1 = s" using ef by simp
    then show ?thesis using inv True by (simp add: block_def)
  next
    case False
    let ?P = "addr_page a" and ?n = "unat n"
    have fr: "free_run s ?P ?n" and pm: "pmm_inv s1"
      and refs: "frame_refs s1 = (\<lambda>x. if x \<in> page_addr ` {?P ..< ?P + ?n} then 1 else frame_refs s x)"
      using ef False by simp_all
    have lim: "q < 2 ^ 40" if "q < ?P + ?n" for q
      using fr that pmm_invD(3) [OF d(1)] by (auto simp: free_run_def)
    have bl: "block a n = mset (map page_addr [?P ..< ?P + ?n])" by (rule block_pages [OF alg False])
    have inj: "inj_on page_addr {?P ..< ?P + ?n}"
      using lim addr_page_page_addr by (metis atLeastLessThan_iff inj_onI)
    have dist: "count (block a n) f \<le> 1" for f
    proof -
      have "distinct (map page_addr [?P ..< ?P + ?n])" using inj by (simp add: distinct_map)
      then show ?thesis unfolding bl by (simp add: distinct_count_atmost_1)
    qed
    have set_b: "set_mset (block a n) = page_addr ` {?P ..< ?P + ?n}" unfolding bl by simp
    have free: "frame_refs s f = 0" if f: "f \<in># block a n" for f
    proof -
      obtain q where q: "f = page_addr q" "?P \<le> q" "q < ?P + ?n" using f set_b by auto
      have "\<not> bitmap_test q (bitmap s)" "q < total_pages s" using fr q by (auto simp: free_run_def)
      then show ?thesis using frame_refs_pos [OF d(1), of f] lim [OF q(3)] q(1)
        by (auto simp: allocated_frame_def Let_def)
    qed
    have apart: "f \<notin># block a n" if "f \<in># held (add_mset (io, F) H)" for f
      using d(3) [OF that] free by force
    show ?thesis
      unfolding dma_inv_def
    proof (intro conjI allI ballI impI)
      show "pmm_inv s1" by (rule pm)
      fix f show "count (held (add_mset (io, F + block a n) H)) f \<le> 1"
      proof (cases "f \<in># block a n")
        case True
        then have "f \<notin># held (add_mset (io, F) H)" using apart by blast
        then have "count (held (add_mset (io, F) H)) f = 0" by (simp only: not_in_iff)
        then show ?thesis using dist [of f] by simp
      next
        case False
        then have "count (block a n) f = 0" by (simp only: not_in_iff)
        then show ?thesis using d(2) [of f] by simp
      qed
    next
      fix f assume "f \<in># held (add_mset (io, F + block a n) H)"
      then show "0 < frame_refs s1 f" using d(3) [of f] set_b by (auto simp: refs)
    next
      fix i f assume "(i, f) \<in> set (exposed s1)"
      then have "i \<noteq> 0 \<and> (\<exists>F'. (i, F') \<in># add_mset (io, F) H \<and> f \<in># F')" using d(4) [of i f] mf(1) by simp
      then show "i \<noteq> 0" "\<exists>F'. (i, F') \<in># add_mset (io, F + block a n) H \<and> f \<in># F'" by fastforce+
    qed
  qed
qed

lemma dma_alloc_inv:
  assumes inv: "dma_inv s (add_mset (io, F) H)" and al: "virtio_dma_alloc n s = (p, s')"
  shows "dma_inv s' (add_mset (io, F + block p n) H)" and "p AND 4095 = 0"
    and "dma_state.more s' = dma_state.more s" and "exposed s' = exposed s"
proof -
  obtain s1 a where c: "pmm_alloc_contiguous_pages s (ucast n) = (s1, a)" by fastforce
  have p: "p = a" and q: "quiet s1 s'" using al c by (auto simp: virtio_dma_alloc_def split: if_splits)
  note k = contiguous_inv [OF inv c]
  show "dma_inv s' (add_mset (io, F + block p n) H)" using k(1) quiet_inv [OF q] p by simp
  show "p AND 4095 = 0" "dma_state.more s' = dma_state.more s" "exposed s' = exposed s"
    using k(2-4) q p by (simp_all add: quiet_def)
qed

lemma frees_inv:
  "dma_inv s (add_mset (io, F + mset fs) H) \<Longrightarrow> (\<forall>i. \<forall>f \<in> set fs. (i, f) \<notin> set (exposed s)) \<Longrightarrow>
    dma_inv (foldl pmm_free_page s fs) (add_mset (io, F) H)"
proof (induction fs arbitrary: s)
  case Nil
  then show ?case by simp
next
  case (Cons f fs)
  note d = dma_invD [OF Cons.prems(1)] and fp = pmm_free_page_inv [OF dma_invD(1) [OF Cons.prems(1)], of f]
  let ?s = "pmm_free_page s f"
  have ex: "exposed ?s = exposed s" using more_dma_fields(1) [of ?s s] more_frees [of s "[f]"] by simp
  have out: "f \<notin># held (add_mset (io, F + mset fs) H)"
    using d(2) [of f] by (auto simp: not_in_iff)
  have "dma_inv ?s (add_mset (io, F + mset fs) H)"
    unfolding dma_inv_def
  proof (intro conjI allI ballI impI)
    show "pmm_inv ?s" by (rule fp(1))
    fix g show "count (held (add_mset (io, F + mset fs) H)) g \<le> 1"
      by (rule order.trans [OF _ d(2) [of g]]) simp
  next
    fix g assume g: "g \<in># held (add_mset (io, F + mset fs) H)"
    then have "0 < frame_refs s g" using d(3) by simp
    moreover have "g \<noteq> f" using out g by blast
    ultimately show "0 < frame_refs ?s g" by (simp add: fp(2))
  next
    fix i g assume ig: "(i, g) \<in> set (exposed ?s)"
    then have "g \<noteq> f" using Cons.prems(2) ex by auto
    moreover have "i \<noteq> 0 \<and> (\<exists>F'. (i, F') \<in># add_mset (io, F + mset (f # fs)) H \<and> g \<in># F')" using d(4) [of i g] ig ex by simp
    ultimately show "i \<noteq> 0" "\<exists>F'. (i, F') \<in># add_mset (io, F + mset fs) H \<and> g \<in># F'" by fastforce+
  qed
  then show ?case using Cons.IH [of ?s] Cons.prems(2) ex by simp
qed

lemma dma_free_inv:
  assumes inv: "dma_inv s (add_mset (io, F + block p n) H)" and ex: "\<And>i f. f \<in># block p n \<Longrightarrow> (i, f) \<notin> set (exposed s)"
  shows "dma_inv (virtio_dma_free p n s) (add_mset (io, F) H)"
proof (cases "p = 0")
  case True
  then show ?thesis using inv by (simp add: virtio_dma_free_def block_def)
next
  case False
  then show ?thesis using frees_inv [of s io F _ H] inv ex by (simp add: virtio_dma_free_def block_def)
qed

lemma dma_free_keeps:
  "dma_state.more (virtio_dma_free p n s) = dma_state.more s" "exposed (virtio_dma_free p n s) = exposed s"
proof -
  have "machine.more (virtio_dma_free p n s) = machine.more s" by (simp add: virtio_dma_free_def more_frees)
  from more_dma_fields [OF this]
  show "dma_state.more (virtio_dma_free p n s) = dma_state.more s" "exposed (virtio_dma_free p n s) = exposed s" by simp_all
qed

section \<open>Access within a block\<close>

lemma page_of_block:
  fixes p :: u64
  assumes "p AND 4095 = 0"
  shows "(p + of_nat m) AND NOT 4095 = p + of_nat (m div 4096) * 4096"
proof -
  obtain q where q: "unat p = 4096 * q" using assms by (rule page_aligned)
  have split: "X mod 2 ^ 64 div 4096 * 4096 = X div 4096 * 4096 mod 2 ^ 64" for X :: nat
  proof -
    have "X mod (4096 * 2 ^ 52) = 4096 * (X div 4096 mod 2 ^ 52) + X mod 4096" by (rule mod_mult2_eq)
    then have "X mod 2 ^ 64 div 4096 = X div 4096 mod 2 ^ 52" by simp
    moreover have "X div 4096 * 4096 mod (2 ^ 52 * 4096) = X div 4096 mod 2 ^ 52 * 4096" by (rule mod_mult_mult2)
    ultimately show ?thesis by simp
  qed
  have add: "unat (p + of_nat k) = (4096 * q + k) mod 2 ^ 64" for k
  proof -
    have "unat (p + of_nat k) = (unat p + unat (of_nat k :: u64)) mod 2 ^ LENGTH(64)" by (rule unat_word_ariths(1))
    also have "unat (of_nat k :: u64) = k mod 2 ^ LENGTH(64)" by (simp only: unat_of_nat take_bit_eq_mod)
    finally show ?thesis unfolding q mod_add_right_eq by simp
  qed
  have "unat ((p + of_nat m) AND NOT 4095) = (4096 * q + m) mod 2 ^ 64 div 4096 * 4096"
    by (simp only: unat_page_floor add)
  also have "\<dots> = (4096 * q + m) div 4096 * 4096 mod 2 ^ 64" by (rule split)
  also have "\<dots> = (4096 * q + m div 4096 * 4096) mod 2 ^ 64"
  proof -
    have "(4096 * q + m) div 4096 = q + m div 4096" by simp
    then show ?thesis by (simp only: distrib_right mult.commute [of 4096 q])
  qed
  also have "\<dots> = unat (p + of_nat (m div 4096 * 4096))" by (simp only: add)
  finally show ?thesis by (simp add: word_unat_eq_iff of_nat_mult)
qed

lemma in_use_block:
  assumes inv: "dma_inv s H" and sub: "block p n \<subseteq># held H" and p: "p \<noteq> 0" "p AND 4095 = 0"
    and a: "a = p + of_nat off" and fits: "off + k \<le> unat n * 4096"
  shows "in_use s a k" and "f \<in> set (frames_of a k) \<Longrightarrow> f \<in># block p n"
proof -
  have pg: "(a + of_nat i) AND NOT 4095 \<in># block p n" if i: "i < k" for i
  proof -
    have e: "(a + of_nat i) AND NOT 4095 = p + of_nat ((off + i) div 4096) * 4096"
      using page_of_block [OF p(2), of "off + i"] by (simp add: a add.assoc)
    have "(off + i) div 4096 < unat n" using fits i by (simp add: less_mult_imp_div_less)
    then show ?thesis unfolding e using p(1) by (auto simp: block_def)
  qed
  then show "f \<in> set (frames_of a k) \<Longrightarrow> f \<in># block p n" by (auto simp: frames_of_def)
  have "g \<in># held H" if "g \<in># block p n" for g using that sub by (rule mset_subset_eqD [rotated])
  then show "in_use s a k" using pg dma_invD(3) [OF inv] by (auto simp: in_use_def list_all_iff)
qed

section \<open>The transport\<close>

definition queue_frames :: "virtio_queue \<Rightarrow> u64 multiset" where
  "queue_frames q = block (q_physical q) (q_pages q)"

definition queue_ok :: "virtio_queue \<Rightarrow> bool" where
  "queue_ok q \<longleftrightarrow> q_physical q = 0 \<or>
     (4 \<le> q_size q \<and> q_size q \<le> 1024 \<and> q_physical q AND 4095 = 0 \<and> q_pages q = queue_pages (ucast (q_size q)) \<and>
      q_used q = q_physical q + ucast (used_offset (ucast (q_size q))) + 2 \<and> q_outstanding q \<le> q_size q \<and>
      length (q_descriptors q) = unat (q_size q) \<and> length (q_avail_ring q) = unat (q_size q))"

definition transport_frames :: "virtio_device \<Rightarrow> u64 multiset" where
  "transport_frames dev = queue_frames (v_queues dev ! 0) + queue_frames (v_queues dev ! 1)"

definition transport_ok :: "virtio_device \<Rightarrow> bool" where
  "transport_ok dev \<longleftrightarrow> length (v_queues dev) = 2 \<and> queue_ok (v_queues dev ! 0) \<and> queue_ok (v_queues dev ! 1) \<and>
     (v_io dev = 0 \<longrightarrow> q_physical (v_queues dev ! 0) = 0 \<and> q_physical (v_queues dev ! 1) = 0)"

lemma transport_two:
  assumes "transport_ok dev" obtains q0 q1 where "v_queues dev = [q0, q1]" "queue_ok q0" "queue_ok q1"
proof -
  have "length (v_queues dev) = Suc (Suc 0)" using assms by (simp add: transport_ok_def)
  then obtain q0 q1 where "v_queues dev = [q0, q1]" by (metis length_0_conv length_Suc_conv)
  then show thesis using assms that by (simp add: transport_ok_def)
qed

lemma no_virtio_ok [simp]: "transport_ok no_virtio" "transport_frames no_virtio = {#}" "v_io no_virtio = 0"
  by (simp_all add: transport_ok_def transport_frames_def no_virtio_def queue_ok_def queue_frames_def no_queue_def block_def)

text \<open>The layout of a queue: the used ring ends within the pages.\<close>

lemma queue_layout:
  assumes "n \<le> 1024"
  shows "unat (queue_pages (of_nat n)) * 4096 \<ge> unat (used_offset (of_nat n)) + 6 + 8 * n"
proof -
  have fl: "unat (w AND NOT 4095) = unat w div 4096 * 4096" for w :: u32
  proof -
    have m: "unat (w AND mask 12) = unat w mod 2 ^ 12"
      by (simp only: take_bit_eq_mask [symmetric] unsigned_take_bit_eq) (simp add: take_bit_eq_mod)
    have "NOT w AND (w AND 4095) = 0" by (rule bit_eqI) (simp add: bit_simps)
    then have "w - (w AND 4095) = w AND NOT (w AND 4095)" by (rule disjunctive_diff_eq_and_not)
    also have "\<dots> = w AND NOT 4095" by (rule bit_eqI) (auto simp: bit_simps)
    finally have e: "w AND NOT 4095 = w - (w AND 4095)" by simp
    have m': "unat (w AND 4095) = unat w mod 4096" using m by (simp add: mask_eq_exp_minus_1)
    then have "w AND 4095 \<le> w" by (simp add: word_le_nat_alt)
    then have "unat (w AND NOT 4095) = unat w - unat w mod 4096" unfolding e by (simp only: unat_sub m')
    then show ?thesis by (simp add: minus_mod_eq_div_mult)
  qed
  have of: "unat (of_nat k :: u32) = k" if "k < 2 ^ 32" for k
    using that by (simp add: unat_of_nat take_bit_eq_mod)
  have u0: "used_offset (of_nat n) = of_nat (18 * n + 4101) AND NOT 4095" by (simp add: used_offset_def add.commute)
  have uo: "unat (used_offset (of_nat n)) = (18 * n + 4101) div 4096 * 4096"
  proof -
    have "unat (of_nat (18 * n + 4101) :: u32) = 18 * n + 4101" by (rule of) (use assms in simp)
    then show ?thesis by (simp only: u0 fl)
  qed
  let ?u = "(18 * n + 4101) div 4096 * 4096"
  have u: "?u \<le> 22533" using assms by simp
  obtain w where w: "w = ?u" by blast
  have "used_offset (of_nat n) = of_nat w" unfolding w using uo by (metis of_nat_unat ucast_id)
  then have e: "used_offset (of_nat n) + 6 + 8 * of_nat n + 4096 - 1 = (of_nat (w + 8 * n + 4101) :: u32)" by simp
  have "unat (of_nat (w + 8 * n + 4101) :: u32) = w + 8 * n + 4101" by (rule of) (use u w assms in simp)
  then have "unat (queue_pages (of_nat n)) = (w + 8 * n + 4101) div 4096"
    unfolding queue_pages_def e by (simp only: unat_div) simp
  then show ?thesis using uo w by simp
qed

lemma await_reset_quiet: "await_reset n io s = (ok, s') \<Longrightarrow> quiet s s'"
proof (induction n arbitrary: s)
  case 0
  then show ?case by simp
next
  case (Suc n)
  obtain v s1 where v: "on_ports (inb (io + 18)) s = (v, s1)" by fastforce
  show ?case using Suc.prems v quiet_on_ports [OF v] quiet_trans [OF quiet_on_ports [OF v] Suc.IH]
    by (auto split: if_splits)
qed

lemma reset_inv:
  assumes inv: "dma_inv s H" and r: "virtio_reset io s = (ok, s')"
  shows "dma_inv s' H" and "dma_state.more s' = dma_state.more s" and "set (exposed s') \<subseteq> set (exposed s)"
    and "ok \<Longrightarrow> (io, f) \<notin> set (exposed s')"
proof -
  obtain ok1 s1 where w: "await_reset 100000 io (to_ports (outb (io + 18) 0) s) = (ok1, s1)" by fastforce
  have q: "quiet s s1" by (rule quiet_trans [OF quiet_to_ports await_reset_quiet [OF w]])
  have e: "ok = ok1" "s' = (if ok1 then s1\<lparr>exposed := [x \<leftarrow> exposed s1. fst x \<noteq> io]\<rparr> else s1)"
    using r w by (auto simp: virtio_reset_def)
  have x: "exposed s1 = exposed s" using q by (simp add: quiet_def)
  show "set (exposed s') \<subseteq> set (exposed s)" using x by (auto simp: e(2))
  show "ok \<Longrightarrow> (io, f) \<notin> set (exposed s')" by (simp add: e)
  show "dma_state.more s' = dma_state.more s" using q by (simp add: e(2) quiet_def)
  have "frame_refs s' = frame_refs s1" "pmm_inv s' = pmm_inv s1" by (simp_all add: e(2))
  moreover have "dma_inv s1 H" using inv quiet_inv [OF q] by blast
  moreover have "set (exposed s') \<subseteq> set (exposed s1)" by (auto simp: e(2))
  ultimately show "dma_inv s' H" using dma_inv_shrink by blast
qed

lemma holder_renamed: "dma_inv s (add_mset (io, {#}) H) \<Longrightarrow> dma_inv s (add_mset (io', {#}) H)"
  unfolding dma_inv_def by fastforce

lemma exposed_unique:
  assumes inv: "dma_inv s (add_mset (io, F) H)" and f: "f \<in># F" and e: "(i, f) \<in> set (exposed s)"
  shows "i = io"
proof (rule ccontr)
  assume "i \<noteq> io"
  then obtain F' where F': "(i, F') \<in># H" "f \<in># F'" using dma_invD(4) [OF inv e] by auto
  then have "f \<in># held H" by (force simp: held_def)
  then have "0 < count (held H) f" "0 < count F f" using f by simp_all
  then have "1 < count (held (add_mset (io, F) H)) f" by (simp only: held_simps snd_conv count_union)
  then show False using dma_invD(2) [OF inv, of f] by linarith
qed

lemma open_inv:
  assumes inv: "dma_inv s H" and r: "virtio_open pci accepted s = (ok, dev, s')"
  shows "dma_inv s' H" and "dma_state.more s' = dma_state.more s" and "v_queues dev = [no_queue, no_queue]"
    and "ok \<Longrightarrow> v_io dev \<noteq> 0"
proof -
  let ?bar = "pd_bar pci ! 0"
  have "dma_inv s' H \<and> dma_state.more s' = dma_state.more s \<and> v_queues dev = [no_queue, no_queue] \<and>
    (ok \<longrightarrow> v_io dev \<noteq> 0)"
  proof (cases "pd_vendor pci \<noteq> 0x1af4 \<or> ?bar AND 1 = 0 \<or> ?bar AND NOT 3 = 0 \<or> ?bar AND NOT 3 > 0xffc0 \<or> pd_header pci \<noteq> 0")
    case True
    then show ?thesis using r inv by (auto simp: virtio_open_def Let_def no_virtio_def)
  next
    case accepted: False
    let ?io = "ucast (?bar AND NOT 3) :: u16" and ?s = "to_ports (pci_update_command pci (1 OR push_bit 10 1) 4) s"
    have io: "?io \<noteq> 0"
    proof
      assume "?io = 0"
      then have "unat (ucast (?bar AND NOT 3) :: u16) = 0" by simp
      then have "unat (?bar AND NOT 3) mod 2 ^ 16 = 0" by (simp add: unsigned_ucast_eq take_bit_eq_mod)
      moreover have "unat (?bar AND NOT 3) \<le> 0xffc0" using accepted by (simp add: word_le_nat_alt not_less)
      ultimately have "unat (?bar AND NOT 3) = 0" by simp
      then have "?bar AND NOT 3 = 0" by (simp only: unat_eq_zero)
      then show False using accepted by blast
    qed
    obtain ok1 s1 where rs: "virtio_reset ?io ?s = (ok1, s1)" by fastforce
    have "dma_inv ?s H" using inv quiet_inv [OF quiet_to_ports] by blast
    note ri = reset_inv [OF this rs]
    have m: "dma_state.more s1 = dma_state.more s" using ri(2) by (simp add: to_ports_def)
    show ?thesis
    proof (cases ok1)
      case False
      then show ?thesis using r rs accepted ri(1) m by (auto simp: virtio_open_def Let_def no_virtio_def)
    next
      case True
      let ?s2 = "to_ports (outb (?io + 18) 3) (to_ports (outb (?io + 18) 1) s1)"
      obtain fs s3 where f: "on_ports (inl ?io) ?s2 = (fs, s3)" by fastforce
      have q: "quiet s1 s3"
        by (rule quiet_trans [OF quiet_trans [OF quiet_to_ports quiet_to_ports] quiet_on_ports [OF f]])
      have e: "ok" "v_io dev = ?io" "v_queues dev = [no_queue, no_queue]" "s' = to_ports (outl (?io + 4) (fs AND accepted)) s3"
        using r [unfolded virtio_open_def Let_def] accepted rs True f by (auto simp: no_virtio_def)
      have "quiet s1 s'" unfolding e(4) by (rule quiet_trans [OF q quiet_to_ports])
      then show ?thesis using e io ri(1) m quiet_inv quiet_more by metis
    qed
  qed
  then show "dma_inv s' H" "dma_state.more s' = dma_state.more s" "v_queues dev = [no_queue, no_queue]"
    "ok \<Longrightarrow> v_io dev \<noteq> 0" by blast+
qed

lemma expose_inv:
  assumes inv: "dma_inv s (add_mset (io, F) H)" and io: "io \<noteq> 0" and sub: "\<And>f. f \<in> set (frames_of a n) \<Longrightarrow> f \<in># F"
  shows "dma_inv (expose io a n s) (add_mset (io, F) H)"
proof -
  let ?s = "expose io a n s"
  have e: "pmm_inv ?s = pmm_inv s" "frame_refs ?s = frame_refs s" by (simp_all add: expose_def)
  show ?thesis using inv io sub unfolding dma_inv_def e by (auto simp: expose_def)
qed

lemma expose_more [simp]: "dma_state.more (expose io a n s) = dma_state.more s"
  by (simp add: expose_def)

lemma new_queue_ok:
  assumes "p AND 4095 = 0" and "4 \<le> sz" "sz \<le> 1024"
  shows "queue_ok (new_queue p (queue_pages (ucast sz)) i sz)"
    and "queue_frames (new_queue p n i sz) = block p n" and "q_outstanding (new_queue p n i sz) = 0"
    and "q_physical (new_queue p n i sz) = p" and "q_size (new_queue p n i sz) = sz"
  using assms by (simp_all add: queue_ok_def queue_frames_def new_queue_def no_queue_def)

lemma blank_queue [simp]: "queue_ok (q\<lparr>q_pages := n, q_physical := 0\<rparr>)" "queue_ok no_queue"
  "queue_frames (q\<lparr>q_pages := n, q_physical := 0\<rparr>) = {#}" "queue_frames no_queue = {#}" "q_physical no_queue = 0"
  by (simp_all add: queue_ok_def queue_frames_def block_def no_queue_def)

lemma queue_frames_0: "q_physical q = 0 \<Longrightarrow> queue_frames q = {#}"
  by (simp add: queue_frames_def block_def)

lemma set_queue_ok:
  assumes t: "transport_ok dev" and i: "i < 2" and q: "queue_ok q" and io: "v_io dev \<noteq> 0"
  shows "transport_ok (set_queue i q dev)" and "v_io (set_queue i q dev) = v_io dev"
    and "v_queues (set_queue i q dev) ! i = q" and "j \<noteq> i \<Longrightarrow> v_queues (set_queue i q dev) ! j = v_queues dev ! j"
    and "transport_frames (set_queue i q dev) + queue_frames (v_queues dev ! i) = transport_frames dev + queue_frames q"
proof -
  obtain q0 q1 where v: "v_queues dev = [q0, q1]" "queue_ok q0" "queue_ok q1" using t by (rule transport_two)
  have i': "i = 0 \<or> i = 1" using i by auto
  show "transport_ok (set_queue i q dev)" "v_io (set_queue i q dev) = v_io dev"
    "v_queues (set_queue i q dev) ! i = q" "j \<noteq> i \<Longrightarrow> v_queues (set_queue i q dev) ! j = v_queues dev ! j"
    "transport_frames (set_queue i q dev) + queue_frames (v_queues dev ! i) = transport_frames dev + queue_frames q"
    using i' v q io by (auto simp: set_queue_def transport_ok_def transport_frames_def nth_Cons')
qed

lemma queue_init_inv:
  assumes inv: "dma_inv s (add_mset (v_io dev, transport_frames dev + B) H)" and t: "transport_ok dev"
    and io: "v_io dev \<noteq> 0" and ix: "index < 2" and r: "virtio_queue_init dev index s = (ok, dev', s')"
  shows "dma_inv s' (add_mset (v_io dev', transport_frames dev' + B) H)" and "transport_ok dev'"
    and "v_io dev' = v_io dev" and "dma_state.more s' = dma_state.more s"
    and "ok \<Longrightarrow> q_physical (v_queues dev' ! unat index) \<noteq> 0 \<and> q_outstanding (v_queues dev' ! unat index) = 0"
    and "j \<noteq> unat index \<Longrightarrow> v_queues dev' ! j = v_queues dev ! j"
proof -
  let ?i = "unat index" and ?q = "v_queues dev ! unat index"
  have i: "?i < 2" using ix by (simp add: word_less_nat_alt)
  have "dma_inv s' (add_mset (v_io dev', transport_frames dev' + B) H) \<and> transport_ok dev' \<and> v_io dev' = v_io dev \<and>
    dma_state.more s' = dma_state.more s \<and>
    (ok \<longrightarrow> q_physical (v_queues dev' ! ?i) \<noteq> 0 \<and> q_outstanding (v_queues dev' ! ?i) = 0) \<and>
    (\<forall>j. j \<noteq> ?i \<longrightarrow> v_queues dev' ! j = v_queues dev ! j)"
  proof (cases "q_physical ?q = 0")
    case False
    then show ?thesis using r inv t by (auto simp: virtio_queue_init_def)
  next
    case free: True
    let ?s = "to_ports (outw (v_io dev + 14) (ucast index)) s"
    obtain sz s1 where c1: "on_ports (inw (v_io dev + 12)) ?s = (sz, s1)" by fastforce
    obtain taken s2 where c2: "on_ports (inl (v_io dev + 8)) s1 = (taken, s2)" by fastforce
    have q1: "quiet s s1" by (rule quiet_trans [OF quiet_to_ports quiet_on_ports [OF c1]])
    have q2: "quiet s s2" by (rule quiet_trans [OF q1 quiet_on_ports [OF c2]])
    note code = r [unfolded virtio_queue_init_def Let_def c1 prod.case]
    have g: "(index \<ge> 2 \<or> q_physical ?q \<noteq> 0) = False" using ix free by (simp add: not_le)
    note code = code [unfolded g if_False]
    show ?thesis
    proof (cases "sz < 4 \<or> sz > 1024 \<or> sz AND (sz - 1) \<noteq> 0 \<or> taken \<noteq> 0")
      case True
      then have "dev' = dev" "\<not> ok" "s' = s1 \<or> s' = s2" using code c2 by (auto split: if_splits)
      then show ?thesis using inv t quiet_inv [OF q1] quiet_inv [OF q2] quiet_more [OF q1] quiet_more [OF q2] by auto
    next
      case sz: False
      let ?n = "queue_pages (ucast sz)"
      obtain p s3 where al: "virtio_dma_alloc ?n s2 = (p, s3)" by fastforce
      have "dma_inv s2 (add_mset (v_io dev, transport_frames dev + B) H)" using inv quiet_inv [OF q2] by blast
      note ai = dma_alloc_inv [OF this al]
      have g2: "(sz < 4 \<or> sz > 1024 \<or> sz AND (sz - 1) \<noteq> 0) = False" "(taken \<noteq> 0) = False" using sz by blast+
      note code = code [unfolded g2 if_False c2 prod.case al]
      have m3: "dma_state.more s3 = dma_state.more s" using ai(3) quiet_more [OF q2] by simp
      note qf = queue_frames_0 [OF free]
      consider (none) "p = 0" | (high) "p \<noteq> 0" "drop_bit 12 p > (0xFFFFFFFF :: u64)"
        | (ok) "p \<noteq> 0" "\<not> drop_bit 12 p > (0xFFFFFFFF :: u64)" by blast
      then show ?thesis
      proof cases
        case none
        let ?q' = "?q\<lparr>q_pages := ?n, q_physical := 0\<rparr>"
        have e: "\<not> ok" "dev' = set_queue ?i ?q' dev" "s' = s3" using code none by simp_all
        have "queue_ok ?q'" by simp
        note so = set_queue_ok [OF t i this io]
        have "transport_frames dev' = transport_frames dev" using so(5) e(2) by (simp add: qf)
        then show ?thesis using e ai(1) so(1-4) m3 none by (simp add: block_def)
      next
        case high
        have e: "\<not> ok" "dev' = set_queue ?i no_queue dev" "s' = virtio_dma_free p ?n s3" using code high by simp_all
        note so = set_queue_ok [OF t i blank_queue(2) io]
        have tf: "transport_frames dev' = transport_frames dev" using so(5) e(2) by (simp add: qf)
        have "(i', f) \<notin> set (exposed s3)" if f: "f \<in># block p ?n" for i' f
        proof
          assume x: "(i', f) \<in> set (exposed s3)"
          then have "f \<in># held (add_mset (v_io dev, transport_frames dev + B) H)"
            using exposed_held [OF \<open>dma_inv s2 _\<close>] ai(4) by simp
          then have "1 < count (held (add_mset (v_io dev, transport_frames dev + B + block p ?n) H)) f"
            using f by (simp only: held_simps snd_conv count_union count_greater_zero_iff [symmetric])
          then show False using dma_invD(2) [OF ai(1), of f] by linarith
        qed
        then have "dma_inv s' (add_mset (v_io dev, transport_frames dev + B) H)"
          unfolding e(3) by (rule dma_free_inv [OF ai(1)])
        then show ?thesis using e so(1-4) tf m3 dma_free_keeps(1) [of p ?n s3] by simp
      next
        case ok
        let ?q' = "new_queue p ?n index sz"
        have lim: "4 \<le> sz" "sz \<le> 1024" using sz by auto
        note nq = new_queue_ok [OF ai(2) lim, where i = index]
        have e: "ok" "dev' = set_queue ?i ?q' dev"
          "s' = to_ports (outl (v_io dev + 8) (ucast (drop_bit 12 p))) (expose (v_io dev) p (unat ?n * 4096) s3)"
          using code ok by simp_all
        note so = set_queue_ok [OF t i nq(1) io]
        have tf: "transport_frames dev' = transport_frames dev + block p ?n" using so(5) e(2) by (simp add: qf nq(2))
        have "dma_inv s3 (add_mset (v_io dev, transport_frames dev' + B) H)" using ai(1) tf by (simp add: ac_simps)
        moreover have "f \<in># transport_frames dev' + B" if "f \<in> set (frames_of p (unat ?n * 4096))" for f
        proof -
          have "block p ?n \<subseteq># held (add_mset (v_io dev, transport_frames dev + B + block p ?n) H)" by (simp add: ac_simps)
          from in_use_block(2) [OF ai(1) this ok(1) ai(2) _ _ that, of 0] have "f \<in># block p ?n" by simp
          then show ?thesis by (simp add: tf)
        qed
        ultimately have "dma_inv s' (add_mset (v_io dev, transport_frames dev' + B) H)"
          unfolding e(3) quiet_inv [OF quiet_to_ports] by (rule expose_inv [OF _ io])
        moreover have "dma_state.more s' = dma_state.more s" by (simp add: e(3) m3 to_ports_def)
        ultimately show ?thesis using e(1,2) so(1-4) nq ok by simp
      qed
    qed
  qed
  then show "dma_inv s' (add_mset (v_io dev', transport_frames dev' + B) H)" "transport_ok dev'" "v_io dev' = v_io dev"
    "dma_state.more s' = dma_state.more s"
    "ok \<Longrightarrow> q_physical (v_queues dev' ! ?i) \<noteq> 0 \<and> q_outstanding (v_queues dev' ! ?i) = 0"
    "j \<noteq> ?i \<Longrightarrow> v_queues dev' ! j = v_queues dev ! j" by blast+
qed

lemma ready_inv:
  assumes t: "transport_ok dev" and r: "virtio_ready dev s = (dev', s')"
  shows "quiet s s'" and "transport_ok dev'" and "transport_frames dev' = transport_frames dev" and "v_io dev' = v_io dev"
    and "j < 2 \<Longrightarrow> q_physical (v_queues dev' ! j) = q_physical (v_queues dev ! j) \<and>
      q_outstanding (v_queues dev' ! j) = q_outstanding (v_queues dev ! j) \<and> q_size (v_queues dev' ! j) = q_size (v_queues dev ! j)"
    and "v_ready dev'"
proof -
  obtain q0 q1 where v: "v_queues dev = [q0, q1]" "queue_ok q0" "queue_ok q1" using t by (rule transport_two)
  obtain en s1 where a: "virtio_irq_attach (v_io dev) (pd_irq (v_pci dev)) s = (en, s1)" by fastforce
  show "quiet s s'" using r a quiet_trans [OF quiet_trans [OF quiet_attach [OF a] quiet_to_ports] quiet_to_ports]
    by (auto simp: virtio_ready_def Let_def)
  show "transport_ok dev'" "transport_frames dev' = transport_frames dev" "v_io dev' = v_io dev" "v_ready dev'"
    using r a v t by (auto simp: virtio_ready_def Let_def transport_ok_def transport_frames_def queue_ok_def queue_frames_def)
  show "j < 2 \<Longrightarrow> q_physical (v_queues dev' ! j) = q_physical (v_queues dev ! j) \<and>
      q_outstanding (v_queues dev' ! j) = q_outstanding (v_queues dev ! j) \<and> q_size (v_queues dev' ! j) = q_size (v_queues dev ! j)"
    using r a v by (auto simp: virtio_ready_def Let_def nth_Cons' split: if_splits)
qed

lemma stop_inv:
  assumes inv: "dma_inv s (add_mset (v_io dev, transport_frames dev + B) H)" and t: "transport_ok dev"
    and b0: "v_io dev = 0 \<Longrightarrow> B = {#}" and r: "virtio_stop dev s = (ok, dev', s')"
  shows "transport_ok dev'" and "v_io dev' = v_io dev" and "dma_state.more s' = dma_state.more s"
    and "dma_inv s' (add_mset (v_io dev', transport_frames dev' + B) H)" and "ok \<Longrightarrow> transport_frames dev' = {#}"
    and "ok \<Longrightarrow> f \<in># B \<Longrightarrow> (i, f) \<notin> set (exposed s')"
    and "transport_frames dev' \<subseteq># transport_frames dev"
proof -
  obtain q0 q1 where v: "v_queues dev = [q0, q1]" "queue_ok q0" "queue_ok q1" using t by (rule transport_two)
  have "transport_ok dev' \<and> v_io dev' = v_io dev \<and> dma_state.more s' = dma_state.more s \<and>
    dma_inv s' (add_mset (v_io dev', transport_frames dev' + B) H) \<and> (ok \<longrightarrow> transport_frames dev' = {#}) \<and>
    (ok \<longrightarrow> (\<forall>i. \<forall>f \<in># B. (i, f) \<notin> set (exposed s'))) \<and> transport_frames dev' \<subseteq># transport_frames dev"
  proof (cases "v_io dev = 0")
    case True
    then have "q_physical q0 = 0" "q_physical q1 = 0" using t v by (simp_all add: transport_ok_def)
    then show ?thesis using r True inv t v b0 by (auto simp: virtio_stop_def transport_frames_def transport_ok_def queue_frames_0)
  next
    case io: False
    let ?s1 = "to_ports (pci_update_command (v_pci dev) (push_bit 10 1) 0) s"
    let ?s2 = "virtio_irq_detach (v_io dev) ?s1"
    obtain st s3 where rs: "virtio_reset (v_io dev) ?s2 = (st, s3)" by fastforce
    let ?s4 = "to_ports (pci_update_command (v_pci dev) (push_bit 10 1) 4) s3"
    have q2: "quiet s ?s2" by (rule quiet_trans [OF quiet_to_ports quiet_detach])
    have "dma_inv ?s2 (add_mset (v_io dev, transport_frames dev + B) H)" using inv quiet_inv [OF q2] by blast
    note ri = reset_inv [OF this rs]
    have i4: "dma_inv ?s4 (add_mset (v_io dev, transport_frames dev + B) H)" using ri(1) quiet_inv [OF quiet_to_ports] by blast
    have m4: "dma_state.more ?s4 = dma_state.more s" using ri(2) quiet_more [OF q2] by (simp add: to_ports_def)
    have x4: "exposed ?s4 = exposed s3" by (simp add: to_ports_def)
    have code: "ok = st" "dev' = (if st then dev\<lparr>v_ready := False, v_irq_enabled := False, v_queues := [no_queue, no_queue]\<rparr>
        else dev\<lparr>v_ready := False, v_irq_enabled := False, v_quarantined := True\<rparr>)"
      "s' = (if st then virtio_dma_free (q_physical q1) (q_pages q1) (virtio_dma_free (q_physical q0) (q_pages q0) ?s4) else ?s4)"
      using r rs io v by (auto simp: virtio_stop_def Let_def split: if_splits)
    show ?thesis
    proof (cases st)
      case False
      then show ?thesis using code io i4 m4 t v by (auto simp: transport_ok_def transport_frames_def)
    next
      case True
      let ?f0 = "virtio_dma_free (q_physical q0) (q_pages q0) ?s4"
      have e: "ok" "v_queues dev' = [no_queue, no_queue]" "v_io dev' = v_io dev"
        "s' = virtio_dma_free (q_physical q1) (q_pages q1) ?f0"
        using code True io v by auto
      have no: "(i, f) \<notin> set (exposed ?s4)" if f: "f \<in># transport_frames dev + B" for i f
        using exposed_unique [OF i4 f, of i] ri(4) [OF True, of f] x4 by auto
      have tf: "transport_frames dev = queue_frames q0 + queue_frames q1" by (simp add: transport_frames_def v)
      have "dma_inv ?s4 (add_mset (v_io dev, queue_frames q1 + B + block (q_physical q0) (q_pages q0)) H)"
        using i4 by (simp add: tf queue_frames_def ac_simps)
      then have "dma_inv ?f0 (add_mset (v_io dev, queue_frames q1 + B) H)"
        by (rule dma_free_inv) (rule no, simp add: tf queue_frames_def)
      then have "dma_inv ?f0 (add_mset (v_io dev, B + block (q_physical q1) (q_pages q1)) H)"
        by (simp add: queue_frames_def ac_simps)
      then have "dma_inv s' (add_mset (v_io dev, B) H)"
        unfolding e(4) by (rule dma_free_inv) (unfold dma_free_keeps, rule no, simp add: tf queue_frames_def)
      moreover have "dma_state.more s' = dma_state.more s" "exposed s' = exposed ?s4"
        unfolding e(4) dma_free_keeps by (simp_all only: m4)
      moreover have "transport_frames dev' = {#}" "transport_ok dev'"
        using e(2) by (simp_all add: transport_frames_def transport_ok_def)
      ultimately show ?thesis using e(1,3) no by auto
    qed
  qed
  then show "transport_ok dev'" "v_io dev' = v_io dev" "dma_state.more s' = dma_state.more s"
    "dma_inv s' (add_mset (v_io dev', transport_frames dev' + B) H)" "ok \<Longrightarrow> transport_frames dev' = {#}"
    "ok \<Longrightarrow> f \<in># B \<Longrightarrow> (i, f) \<notin> set (exposed s')" "transport_frames dev' \<subseteq># transport_frames dev" by blast+
qed

lemma submit_ok:
  assumes q: "queue_ok q" and d: "d < q_size q" and o: "q_outstanding q < q_size q"
  obtains q' where "virtio_submit q d = Some q'" "q_outstanding q' = q_outstanding q + 1"
    "q_physical q' = q_physical q" "q_size q' = q_size q" "queue_frames q' = queue_frames q" "queue_ok q'"
proof -
  let ?q = "q\<lparr>q_outstanding := q_outstanding q + 1, q_avail_ring := (q_avail_ring q)[unat (q_available q mod q_size q) := d],
    q_available := q_available q + 1, q_avail_idx := q_available q + 1\<rparr>"
  have "q_outstanding q + 1 \<le> q_size q" using o by (rule inc_le)
  then have "queue_ok ?q" using q by (auto simp: queue_ok_def)
  moreover have "virtio_submit q d = Some ?q" using d o by (simp add: virtio_submit_def not_le)
  ultimately show thesis using that [of ?q] by (simp add: queue_frames_def)
qed

lemma pop_ok:
  assumes inv: "dma_inv s H" and q: "queue_ok q" "q_physical q \<noteq> 0" and sub: "queue_frames q \<subseteq># held H"
  obtains r u q' s' where "virtio_pop q s = Some (r, u, q', s')" "quiet s s'"
    "queue_ok q'" "queue_frames q' = queue_frames q" "q_physical q' = q_physical q" "q_size q' = q_size q"
    "r = 0 \<and> q' = q \<or> r = -1 \<and> q' = q \<or>
     r = 1 \<and> q' = q\<lparr>q_consumed := q_consumed q + 1, q_outstanding := q_outstanding q - 1\<rparr> \<and> 0 < q_outstanding q \<and>
       u_id u < ucast (q_size q)"
proof -
  let ?sz = "unat (q_size q)" and ?p = "q_physical q" and ?U = "unat (used_offset (of_nat (unat (q_size q))))"
  have lim: "4 \<le> q_size q" "q_size q \<le> 1024" and al: "?p AND 4095 = 0" and pg: "q_pages q = queue_pages (ucast (q_size q))"
    and used: "q_used q = ?p + ucast (used_offset (ucast (q_size q))) + 2"
    using q by (simp_all add: queue_ok_def)
  have sz: "?sz \<le> 1024" "0 < ?sz" using lim by (simp_all add: word_le_nat_alt)
  have us: "(ucast (q_size q) :: u32) = of_nat ?sz" by (simp add: unat_of_nat word_unat_eq_iff)
  have lay: "?U + 6 + 8 * ?sz \<le> unat (q_pages q) * 4096" using queue_layout [OF sz(1)] by (simp only: pg us)
  have at: "q_used q = ?p + of_nat (?U + 2)"
  proof -
    have "ucast (used_offset (of_nat ?sz)) = (of_nat ?U :: u64)" by (simp add: word_unat_eq_iff unat_of_nat take_bit_eq_mod)
    then show ?thesis unfolding used us by (simp add: add.assoc)
  qed
  have use: "in_use s a k" if "a = ?p + of_nat off" "off + k \<le> ?U + 6 + 8 * ?sz" for a off k
    by (rule in_use_block(1) [OF inv sub [unfolded queue_frames_def] q(2) al that(1)]) (use that(2) lay in linarith)
  have l1: "dma_load (q_used q) 2 s = Some (dma_answers s (dma_reads s) (q_used q), s\<lparr>dma_reads := dma_reads s + 1\<rparr>)"
    unfolding dma_load_def using use [OF at, of 2] by simp
  define s1 where "s1 = s\<lparr>dma_reads := dma_reads s + 1\<rparr>"
  define count where "count = ucast (dma_answers s (dma_reads s) (q_used q)) - q_consumed q"
  have q1: "quiet s s1" by (simp add: s1_def)
  let ?none = "\<lparr>u_id = 0, u_length = 0\<rparr>"
  have code: "virtio_pop q s = (if count = 0 then Some (0, ?none, q, s1)
    else if count > q_outstanding q then Some (-1, ?none, q, s1) else
    if q_size q = 0 then None else do {
      let entry = q_used q + 2 + 8 * ucast (q_consumed q mod q_size q);
      (i, s) \<leftarrow> dma_load entry 4 s1;
      (n, s) \<leftarrow> dma_load (entry + 4) 4 s;
      let used = \<lparr>u_id = ucast i, u_length = ucast n\<rparr>;
      if u_id used \<ge> ucast (q_size q) then Some (-1, used, q, s)
      else Some (1, used, q\<lparr>q_consumed := q_consumed q + 1, q_outstanding := q_outstanding q - 1\<rparr>, s)
    })"
    unfolding virtio_pop_def l1 by (simp add: Let_def count_def s1_def)
  show thesis
  proof (cases "count = 0 \<or> count > q_outstanding q")
    case True
    then show ?thesis using code q1 q(1) that by (auto split: if_splits)
  next
    case False
    let ?k = "unat (q_consumed q mod q_size q)" and ?e = "q_used q + 2 + 8 * ucast (q_consumed q mod q_size q)"
    have k: "?k < ?sz" using sz(2) by (simp add: unat_mod)
    have e: "?e = ?p + of_nat (?U + 4 + 8 * ?k)" 
    proof -
      have "(ucast (q_consumed q mod q_size q) :: u64) = of_nat ?k" by (simp add: word_unat_eq_iff unat_of_nat take_bit_eq_mod)
      then show ?thesis unfolding at by (simp add: algebra_simps)
    qed
    have e4: "?e + 4 = ?p + of_nat (?U + 8 + 8 * ?k)" unfolding e by simp
    have "in_use s ?e 4" "in_use s (?e + 4) 4" using use [OF e, of 4] use [OF e4, of 4] k by simp_all
    then have "in_use s1 ?e 4" "in_use (s1\<lparr>dma_reads := dma_reads s1 + 1\<rparr>) (?e + 4) 4"
      using quiet_in_use [OF q1] quiet_in_use [OF quiet_trans [OF q1 quiet_upd(4)]] by blast+
    then obtain i n where l: "dma_load ?e 4 s1 = Some (i, s1\<lparr>dma_reads := dma_reads s1 + 1\<rparr>)"
      "dma_load (?e + 4) 4 (s1\<lparr>dma_reads := dma_reads s1 + 1\<rparr>) = Some (n, s1\<lparr>dma_reads := dma_reads s1 + 2\<rparr>)"
      by (simp add: dma_load_def)
    let ?q' = "q\<lparr>q_consumed := q_consumed q + 1, q_outstanding := q_outstanding q - 1\<rparr>"
    have q2: "quiet s (s1\<lparr>dma_reads := dma_reads s1 + 2\<rparr>)" by (rule quiet_trans [OF q1 quiet_upd(4)])
    have "q_size q \<noteq> 0" using sz(2) by (metis less_irrefl unsigned_0)
    then have run: "virtio_pop q s = Some (if (ucast i :: u32) \<ge> ucast (q_size q)
        then (-1, \<lparr>u_id = ucast i, u_length = ucast n\<rparr>, q, s1\<lparr>dma_reads := dma_reads s1 + 2\<rparr>)
        else (1, \<lparr>u_id = ucast i, u_length = ucast n\<rparr>, ?q', s1\<lparr>dma_reads := dma_reads s1 + 2\<rparr>))"
      using code False l by (simp add: Let_def)
    have o: "0 < q_outstanding q" using False by (auto simp: word_gt_0)
    have "q_outstanding q - 1 \<le> q_outstanding q" using o by (simp add: word_le_nat_alt unat_minus_one)
    then have "queue_ok ?q'" using q(1) by (auto simp: queue_ok_def)
    show ?thesis
    proof (cases "(ucast i :: u32) \<ge> ucast (q_size q)")
      case True
      show ?thesis by (rule that [OF run [unfolded if_P [OF True]] q2 q(1)]) simp_all
    next
      case small: False
      have fr: "queue_frames ?q' = queue_frames q" by (simp add: queue_frames_def)
      show ?thesis
        by (rule that [OF run [unfolded if_not_P [OF small]] q2 \<open>queue_ok ?q'\<close> fr]) (use o small in \<open>simp_all add: not_le\<close>)
    qed
  qed
qed

lemma same_dma:
  assumes "exposed s' = exposed s" "bitmap s' = bitmap s" "refcounts s' = refcounts s" "total_pages s' = total_pages s"
    "free_pages s' = free_pages s"
  shows "dma_inv s' H = dma_inv s H" and "in_use s' a n = in_use s a n"
  using assms(1) pmm_facts_cong(1,2) [OF assms(2-5)] by (simp_all add: dma_inv_def in_use_def)

end
