(* ===== verification/BlockProps.thy ===== *)
theory BlockProps
  imports Block VirtioProps
begin

text \<open>
  Whatever the disks answer, the driver never traps, never reads or writes outside its memory, and no
  memory that a disk may still use is given to anybody else.
\<close>

section \<open>Disks and their frames\<close>

definition disk_frames :: "block_device \<Rightarrow> u64 multiset" where
  "disk_frames d = transport_frames (transport d) + block (b_physical d) 2"

definition disk_holder :: "block_device \<Rightarrow> holder" where
  "disk_holder d = (v_io (transport d), disk_frames d)"

text \<open>What always holds of a disk and its request, and what holds between operations.\<close>

definition disk_sound :: "block_device \<Rightarrow> io_request \<Rightarrow> bool" where
  "disk_sound d r \<longleftrightarrow> transport_ok (transport d) \<and> b_physical d AND 4095 = 0 \<and>
     (v_io (transport d) = 0 \<longrightarrow> b_physical d = 0) \<and> (pending r \<longrightarrow> rid r \<noteq> 0) \<and> bytes r \<le> 4096"

definition disk_ok :: "block_device \<Rightarrow> io_request \<Rightarrow> bool" where
  "disk_ok d r \<longleftrightarrow> disk_sound d r \<and>
     (bi_online (binfo d) \<longrightarrow> q_physical (v_queues (transport d) ! 0) \<noteq> 0 \<and> b_physical d \<noteq> 0 \<and>
        q_outstanding (v_queues (transport d) ! 0) = (if pending r then 1 else 0)) \<and>
     (pending r \<longrightarrow> bi_online (binfo d)) \<and> (rid r \<noteq> 0 \<and> result r = 0 \<longrightarrow> bi_online (binfo d))"

definition disk_blank :: "block_device \<Rightarrow> bool" where
  "disk_blank d \<longleftrightarrow> \<not> bi_online (binfo d) \<and> disk_frames d = {#}"

definition disks_inv :: "nat \<Rightarrow> 'a block_state_scheme \<Rightarrow> holder multiset \<Rightarrow> bool" where
  "disks_inv n s H \<longleftrightarrow> length (disks s) = 2 \<and> length (disk_requests s) = 2 \<and>
     dma_inv s (mset (map disk_holder (disks s)) + H) \<and>
     (\<forall>i < 2. disk_ok (disks s ! i) (disk_requests s ! i) \<and> (n \<le> i \<longrightarrow> disk_blank (disks s ! i)))"

text \<open>While disk \<open>i\<close> is being stopped.\<close>

definition stopping :: "nat \<Rightarrow> nat \<Rightarrow> 'a block_state_scheme \<Rightarrow> holder multiset \<Rightarrow> bool" where
  "stopping n i s H \<longleftrightarrow> length (disks s) = 2 \<and> length (disk_requests s) = 2 \<and>
     dma_inv s (mset (map disk_holder (disks s)) + H) \<and> disk_sound (disks s ! i) (disk_requests s ! i) \<and>
     (\<forall>j < 2. j \<noteq> i \<longrightarrow> disk_ok (disks s ! j) (disk_requests s ! j) \<and> (n \<le> j \<longrightarrow> disk_blank (disks s ! j)))"

definition block_inv :: "'a block_state_scheme \<Rightarrow> holder multiset \<Rightarrow> bool" where
  "block_inv s H \<longleftrightarrow> disk_count s \<le> 2 \<and> disks_inv (unat (disk_count s)) s H"

text \<open>The holders other than disk \<open>i\<close>.\<close>

definition others :: "nat \<Rightarrow> block_device list \<Rightarrow> holder multiset" where
  "others i ds = mset (map disk_holder (take i ds @ drop (Suc i) ds))"

lemma focus: "i < length ds \<Longrightarrow> mset (map disk_holder ds) = add_mset (disk_holder (ds ! i)) (others i ds)"
  by (subst id_take_nth_drop [of i ds]) (simp_all add: others_def)

lemma focus_upd: "i < length ds \<Longrightarrow> mset (map disk_holder (ds[i := d])) = add_mset (disk_holder d) (others i ds)"
  by (simp add: upd_conv_take_nth_drop others_def)

lemma block_fields:
  fixes s s' :: "'a block_state_scheme"
  assumes "dma_state.more s' = dma_state.more s"
  shows "disks s' = disks s" "disk_requests s' = disk_requests s" "disk_count s' = disk_count s"
    "disk_initialized s' = disk_initialized s" "next_ticket s' = next_ticket s" "block_state.more s' = block_state.more s"
  using assms by (cases s; cases s'; simp)+

lemma free_fields [simp]:
  "disks (virtio_dma_free p n s) = disks s" "disk_requests (virtio_dma_free p n s) = disk_requests s"
  "disk_count (virtio_dma_free p n s) = disk_count s" "block_state.more (virtio_dma_free p n s) = block_state.more s"
  by (rule block_fields [OF dma_free_keeps(1)])+

lemma put_simps [simp]:
  "dma_inv (put_disk_world i w s) H = dma_inv s H" "dma_inv (put_disk i d s) H = dma_inv s H"
  "disks (put_disk_world i w s) = disks s" "disk_requests (put_disk_world i w s) = (disk_requests s)[i := request_of w]"
  "disk_requests (put_disk i d s) = disk_requests s" "disks (put_disk i d s) = (disks s)[i := d]"
  "disk_count (put_disk_world i w s) = disk_count s" "disk_count (put_disk i d s) = disk_count s"
  "block_state.more (put_disk_world i w s) = block_state.more s" "block_state.more (put_disk i d s) = block_state.more s"
  by (rule same_dma | simp add: put_disk_world_def put_disk_def)+

lemma request_of_simps [simp]:
  "rid (request_of w) = rid w" "pending (request_of w) = pending w" "result (request_of w) = result w"
  "bytes (request_of w) = bytes w" "operation (request_of w) = operation w" "owner_pid (request_of w) = owner_pid w"
  "started (request_of w) = started w" "waiters (request_of w) = waiters w"
  by (simp_all add: request_of_def)

lemma world_simps [simp]:
  "rid (world r n) = rid r" "pending (world r n) = pending r" "result (world r n) = result r"
  "bytes (world r n) = bytes r" "operation (world r n) = operation r" "owner_pid (world r n) = owner_pid r"
  "started (world r n) = started r" "waiters (world r n) = waiters r"
  by (simp_all add: world_def)

lemma disks_invD:
  assumes "disks_inv n s H" and "i < 2"
  shows "dma_inv s (add_mset (disk_holder (disks s ! i)) (others i (disks s) + H))"
    and "disk_ok (disks s ! i) (disk_requests s ! i)" and "n \<le> i \<Longrightarrow> disk_blank (disks s ! i)"
    and "length (disks s) = 2" "length (disk_requests s) = 2"
    and "bi_online (binfo (disks s ! i)) \<Longrightarrow> i < n"
  using assms focus [of i "disks s"] unfolding disks_inv_def by (auto simp: disk_blank_def not_le [symmetric])

lemma disk_ok_sound: "disk_ok d r \<Longrightarrow> disk_sound d r"
  by (simp add: disk_ok_def)

lemma inv_stopping: "disks_inv n s H \<Longrightarrow> i < 2 \<Longrightarrow> stopping n i s H"
  by (simp add: disks_inv_def stopping_def disk_ok_sound)

lemma stoppingD:
  assumes "stopping n i s H" and "i < 2"
  shows "dma_inv s (add_mset (disk_holder (disks s ! i)) (others i (disks s) + H))"
    and "disk_sound (disks s ! i) (disk_requests s ! i)" and "length (disks s) = 2" "length (disk_requests s) = 2"
  using assms focus [of i "disks s"] unfolding stopping_def by auto

text \<open>The invariant after a step at disk \<open>i\<close>.\<close>

lemma disks_inv_step:
  assumes inv: "stopping n i s H" and i: "i < 2"
    and ds: "disks s' = (disks s)[i := d]" "disk_requests s' = (disk_requests s)[i := r]"
    and dma: "dma_inv s' (add_mset (disk_holder d) (others i (disks s) + H))"
  shows "disk_sound d r \<Longrightarrow> stopping n i s' H"
    and "disk_ok d r \<Longrightarrow> (n \<le> i \<Longrightarrow> disk_blank d) \<Longrightarrow> disks_inv n s' H"
proof -
  note l = stoppingD(3,4) [OF inv i]
  have j: "disk_ok (disks s' ! j) (disk_requests s' ! j) \<and> (n \<le> j \<longrightarrow> disk_blank (disks s' ! j))" if "j < 2" "j \<noteq> i" for j
    using inv that l i by (auto simp: ds stopping_def)
  have at: "disks s' ! i = d" "disk_requests s' ! i = r" using l i by (simp_all add: ds)
  have dm: "dma_inv s' (mset (map disk_holder (disks s')) + H)"
    using dma focus_upd [of i "disks s" d] i l by (simp add: ds)
  show "disk_sound d r \<Longrightarrow> stopping n i s' H" using l dm j at by (simp add: stopping_def ds)
  show "disks_inv n s' H" if h: "disk_ok d r" "n \<le> i \<Longrightarrow> disk_blank d"
  proof -
    have "disk_ok (disks s' ! j) (disk_requests s' ! j) \<and> (n \<le> j \<longrightarrow> disk_blank (disks s' ! j))" if "j < 2" for j
      using j [OF that] h at by (cases "j = i") simp_all
    then show ?thesis using l dm by (simp add: disks_inv_def ds)
  qed
qed

section \<open>Stopping\<close>

lemma stop_frames: "v_io dev = 0 \<Longrightarrow> transport_ok dev \<Longrightarrow> transport_frames dev = {#}"
  by (simp add: transport_ok_def transport_frames_def queue_frames_0)

lemma disk_stop_ok:
  assumes inv: "stopping n i s H" and i: "i < 2" "i < n"
  obtains ok s' where "disk_stop i s = Some (ok, s')" "disks_inv n s' H" "block_state.more s' = block_state.more s"
    "disk_count s' = disk_count s" "\<not> bi_online (binfo (disks s' ! i))" "ok \<Longrightarrow> disk_frames (disks s' ! i) = {#}"
    "j \<noteq> i \<Longrightarrow> disks s' ! j = disks s ! j" "pending (disk_requests s' ! i) = False"
    "rid (disk_requests s' ! i) = rid (disk_requests s ! i)"
proof -
  note d = stoppingD [OF inv i(1)]
  let ?d = "disks s ! i" and ?w = "io_request_cancel_waiters (disk_world i s)"
  define w where "w = (if result ?w = 0 then (if rid ?w = 0 then ?w else ?w\<lparr>result := DRIVER_CANCELED, pending := False\<rparr>)
    else io_request_complete DRIVER_CANCELED ?w)"
  have w: "(if result ?w = DRIVER_OK then io_request_abort DRIVER_CANCELED ?w
            else Some (io_request_complete DRIVER_CANCELED ?w)) = Some w"
    by (simp add: w_def io_request_abort_def)
  have wf: "rid w = rid (disk_requests s ! i)" "\<not> pending w" "\<not> (rid w \<noteq> 0 \<and> result w = 0)" "bytes w \<le> 4096"
    using d(2) by (auto simp: w_def disk_sound_def io_request_cancel_waiters_def io_request_complete_def disk_world_def)
  define s1 where "s1 = put_disk_world i w s"
  obtain ok dev s2 where st: "virtio_stop (transport ?d) s1 = (ok, dev, s2)" by (metis prod_cases3)
  let ?B = "block (b_physical ?d) 2"
  have t: "transport_ok (transport ?d)" "v_io (transport ?d) = 0 \<Longrightarrow> ?B = {#}"
    using d(2) by (simp_all add: disk_sound_def block_def)
  have "dma_inv s1 (add_mset (v_io (transport ?d), transport_frames (transport ?d) + ?B) (others i (disks s) + H))"
    using d(1) by (simp add: s1_def disk_holder_def disk_frames_def)
  note sp = stop_inv [OF this t st]
  have s2: "disks s2 = disks s" "disk_requests s2 = (disk_requests s)[i := request_of w]" "disk_count s2 = disk_count s"
    "block_state.more s2 = block_state.more s"
    using block_fields [OF sp(3)] by (simp_all add: s1_def)
  define d1 where "d1 = ?d\<lparr>binfo := (binfo ?d)\<lparr>bi_online := False\<rparr>, transport := dev\<rparr>"
  define d' where "d' = (if ok then d1\<lparr>b_physical := 0\<rparr> else d1)"
  define s' where "s' = put_disk i d' (if ok then virtio_dma_free (b_physical ?d) 2 s2 else s2)"
  have run: "disk_stop i s = Some (ok, s')"
    unfolding disk_stop_def Let_def w using st
    by (simp add: s1_def [symmetric] s'_def d'_def d1_def) (simp add: s1_def)
  have f: "transport d' = dev" "\<not> bi_online (binfo d')" "b_physical d' = (if ok then 0 else b_physical ?d)"
    by (simp_all add: d'_def d1_def)
  have fr: "ok \<Longrightarrow> disk_frames d' = {#}" using sp(5) f by (simp add: disk_frames_def block_def)
  have "dma_inv s' (add_mset (disk_holder d') (others i (disks s) + H))"
  proof (cases ok)
    case True
    have "dma_inv s2 (add_mset (v_io dev, {#} + ?B) (others i (disks s) + H))" using sp(4,5) True by simp
    then have "dma_inv (virtio_dma_free (b_physical ?d) 2 s2) (add_mset (v_io dev, {#}) (others i (disks s) + H))"
      by (rule dma_free_inv) (use sp(6) True in blast)
    then show ?thesis using True fr f by (simp add: s'_def disk_holder_def)
  next
    case False
    then show ?thesis using sp(4) f by (simp add: s'_def disk_holder_def disk_frames_def)
  qed
  moreover have flds: "disks s' = (disks s)[i := d']" "disk_requests s' = (disk_requests s)[i := request_of w]"
    "disk_count s' = disk_count s" "block_state.more s' = block_state.more s"
    using s2 by (simp_all add: s'_def)
  moreover have "disk_ok d' (request_of w)"
    using d(2) sp(1,2) f wf by (auto simp: disk_ok_def disk_sound_def)
  ultimately have "disks_inv n s' H" using i(2) by (intro disks_inv_step(2) [OF inv i(1)]) simp_all
  then show thesis using that [OF run] flds f fr wf(1,2) d(3,4) i(1) by simp
qed

section \<open>Steps of a disk\<close>

text \<open>What every operation does: it has a result and keeps the invariant.\<close>

definition kept :: "nat \<Rightarrow> holder multiset \<Rightarrow> 'a block_state_scheme \<Rightarrow> 'a block_state_scheme \<Rightarrow> bool" where
  "kept n H s s' \<longleftrightarrow> disks_inv n s' H \<and> block_state.more s' = block_state.more s \<and> disk_count s' = disk_count s"

lemma keptI: "disks_inv n s' H \<Longrightarrow> block_state.more s' = block_state.more s \<Longrightarrow> disk_count s' = disk_count s \<Longrightarrow> kept n H s s'"
  by (simp add: kept_def)

lemma kept_trans: "kept n H s t \<Longrightarrow> kept n H t u \<Longrightarrow> kept n H s u"
  by (simp add: kept_def)

lemma kept_inv: "kept n H s s' \<Longrightarrow> disks_inv n s' H"
  by (simp add: kept_def)

lemma quiet_kept:
  assumes inv: "disks_inv n s H" and q: "quiet s s'" shows "kept n H s s'"
  using assms quiet_inv [OF q] block_fields [OF quiet_more [OF q]] by (simp add: kept_def disks_inv_def)

lemma put_world_kept:
  assumes inv: "disks_inv n s H" and i: "i < 2" and ok: "disk_ok (disks s ! i) (request_of w)"
  shows "kept n H s (put_disk_world i w s)"
proof (rule keptI)
  note d = disks_invD [OF inv i]
  show "disks_inv n (put_disk_world i w s) H"
    by (rule disks_inv_step(2) [OF inv_stopping [OF inv i] i, of _ "disks s ! i" "request_of w"]) (use d ok in simp_all)
qed simp_all

lemma put_disk_kept:
  assumes inv: "disks_inv n s H" and i: "i < 2" and q: "quiet s s1"
    and h: "transport_frames (transport d) = transport_frames (transport (disks s ! i))" "b_physical d = b_physical (disks s ! i)"
      "v_io (transport d) = v_io (transport (disks s ! i))"
    and ok: "disk_ok d (disk_requests s ! i)" and on: "bi_online (binfo d) = bi_online (binfo (disks s ! i))"
  shows "kept n H s (put_disk i d s1)"
proof (rule keptI)
  note d = disks_invD [OF inv i] and f = block_fields [OF quiet_more [OF q]]
  have fr: "disk_frames d = disk_frames (disks s ! i)" using h by (simp add: disk_frames_def)
  have same: "(disk_requests s)[i := disk_requests s ! i] = disk_requests s" by simp
  show "disks_inv n (put_disk i d s1) H"
  proof (rule disks_inv_step(2) [OF inv_stopping [OF inv i] i, of _ d "disk_requests s ! i"])
    show "dma_inv (put_disk i d s1) (add_mset (disk_holder d) (others i (disks s) + H))"
      using d(1) quiet_inv [OF q] fr h(3) by (simp add: disk_holder_def)
    show "n \<le> i \<Longrightarrow> disk_blank d" using d(3) on fr by (simp add: disk_blank_def)
  qed (use f ok same in simp_all)
  show "block_state.more (put_disk i d s1) = block_state.more s" "disk_count (put_disk i d s1) = disk_count s"
    using f by simp_all
qed

lemma kept_length: "kept n H s s' \<Longrightarrow> length (disks s') = 2 \<and> length (disk_requests s') = 2"
  by (simp add: kept_def disks_inv_def)

lemma abort_some: "err < 0 \<Longrightarrow> io_request_abort err w = Some (if rid w = 0 then w else w\<lparr>result := err, pending := False\<rparr>)"
  by (simp add: io_request_abort_def)

lemma disk_stop_kept:
  assumes inv: "stopping n i s H" and i: "i < 2" "i < n"
  obtains ok s' where "disk_stop i s = Some (ok, s')" "kept n H s s'" "\<not> bi_online (binfo (disks s' ! i))"
    "ok \<Longrightarrow> disk_frames (disks s' ! i) = {#}" "\<And>j. j \<noteq> i \<Longrightarrow> disks s' ! j = disks s ! j"
    "\<not> pending (disk_requests s' ! i)" "rid (disk_requests s' ! i) = rid (disk_requests s ! i)"
proof -
  obtain ok s' where a: "disk_stop i s = Some (ok, s')" by (rule disk_stop_ok [OF inv i])
  have "kept n H s s' \<and> \<not> bi_online (binfo (disks s' ! i)) \<and> (ok \<longrightarrow> disk_frames (disks s' ! i) = {#}) \<and>
    (j \<noteq> i \<longrightarrow> disks s' ! j = disks s ! j) \<and> \<not> pending (disk_requests s' ! i) \<and>
    rid (disk_requests s' ! i) = rid (disk_requests s ! i)" for j
    by (rule disk_stop_ok [OF inv i, of j]) (use a in \<open>simp add: kept_def\<close>)
  then show thesis using that [OF a] by blast
qed

lemma put_world_stopping:
  assumes inv: "stopping n i s H" and i: "i < 2" and w: "pending w \<Longrightarrow> rid w \<noteq> 0" "bytes w \<le> 4096"
  shows "stopping n i (put_disk_world i w s) H"
proof -
  note d = stoppingD [OF inv i]
  show ?thesis
    by (rule disks_inv_step(1) [OF inv i, of _ "disks s ! i" "request_of w"])
      (use d w in \<open>simp_all add: disk_sound_def\<close>)
qed

lemma put_disk_stopping:
  assumes inv: "stopping n i s H" and i: "i < 2" and q: "quiet s s1"
    and h: "transport_frames (transport d) = transport_frames (transport (disks s ! i))" "b_physical d = b_physical (disks s ! i)"
      "v_io (transport d) = v_io (transport (disks s ! i))" "transport_ok (transport d)"
  shows "stopping n i (put_disk i d s1) H"
proof -
  note d = stoppingD [OF inv i] and f = block_fields [OF quiet_more [OF q]]
  have fr: "disk_frames d = disk_frames (disks s ! i)" using h by (simp add: disk_frames_def)
  have same: "(disk_requests s)[i := disk_requests s ! i] = disk_requests s" by simp
  show ?thesis
  proof (rule disks_inv_step(1) [OF inv i, of _ d "disk_requests s ! i"])
    show "dma_inv (put_disk i d s1) (add_mset (disk_holder d) (others i (disks s) + H))"
      using d(1) quiet_inv [OF q] fr h(3) by (simp add: disk_holder_def)
    show "disk_sound d (disk_requests s ! i)" using d(2) h by (simp add: disk_sound_def)
  qed (use f same in simp_all)
qed

lemma disk_check_kept:
  assumes inv: "disks_inv n s H" and i: "i < 2"
  obtains s' where "disk_check i s = Some s'" "kept n H s s'" "rid (disk_requests s' ! i) = rid (disk_requests s ! i)"
    "disks s' = disks s \<and> disk_requests s' = disk_requests s \<or> \<not> bi_online (binfo (disks s' ! i))"
proof (cases "bi_online (binfo (disks s ! i))")
  case False
  then show ?thesis using inv that [of s] by (simp add: disk_check_def kept_def)
next
  case on: True
  let ?d = "disks s ! i"
  note d = disks_invD [OF inv i]
  obtain ch s1 where c: "virtio_config_changed (transport ?d) s = (ch, s1)" by fastforce
  obtain v s2 where v: "virtio_read_config64 (transport ?d) 0 s1 = (v, s2)" by fastforce
  have q1: "quiet s s1" by (rule quiet_config_changed [OF c])
  have q2: "quiet s s2" by (rule quiet_trans [OF q1 quiet_read_config [OF v]])
  note f1 = block_fields [OF quiet_more [OF q1]] and f2 = block_fields [OF quiet_more [OF q2]]
  show ?thesis
  proof (cases "ch \<and> v \<noteq> bi_sectors (binfo ?d)")
    case False
    then have "disk_check i s = Some (if ch then s2 else s1)"
      using on c v by (auto simp: disk_check_def Let_def)
    then show ?thesis using that [of "if ch then s2 else s1"] quiet_kept [OF inv q1] quiet_kept [OF inv q2] f1 f2 by simp
  next
    case True
    define w where "w = (let w = disk_world i s2 in if rid w = 0 then w else w\<lparr>result := DRIVER_IO, pending := False\<rparr>)"
    have ab: "io_request_abort DRIVER_IO (disk_world i s2) = Some w" by (simp add: io_request_abort_def w_def Let_def)
    have k2: "kept n H s s2" by (rule quiet_kept [OF inv q2])
    have "stopping n i s2 H" by (rule inv_stopping [OF kept_inv [OF k2] i])
    then have st: "stopping n i (put_disk_world i w s2) H"
      by (rule put_world_stopping [OF _ i]) (use d(2) f2 in \<open>auto simp: w_def Let_def disk_world_def disk_ok_def disk_sound_def\<close>)
    obtain ok s' where sp: "disk_stop i (put_disk_world i w s2) = Some (ok, s')" "kept n H (put_disk_world i w s2) s'"
      "\<not> bi_online (binfo (disks s' ! i))" "rid (disk_requests s' ! i) = rid (disk_requests (put_disk_world i w s2) ! i)"
      by (rule disk_stop_kept [OF st i d(6) [OF on]])
    have "disk_check i s = Some s'"
      using on c v True ab sp(1) by (simp add: disk_check_def Let_def)
    moreover have "kept n H s s'" using k2 sp(2) by (simp add: kept_def)
    moreover have "rid (disk_requests s' ! i) = rid (disk_requests s ! i)"
      using sp(4) f2 d(5) i by (simp add: w_def Let_def disk_world_def)
    ultimately show ?thesis using that sp(3) by blast
  qed
qed

lemma put_world_done:
  assumes inv: "stopping n i s H" and i: "i < 2" "i < n" and ok: "disk_ok (disks s ! i) (request_of w)"
  shows "disks_inv n (put_disk_world i w s) H"
proof -
  note d = stoppingD [OF inv i(1)]
  show ?thesis
    by (rule disks_inv_step(2) [OF inv i(1), of _ "disks s ! i" "request_of w"]) (use d ok i in simp_all)
qed

lemma disk_error_stopping:
  assumes "stopping n i s H" and "i < 2"
  shows "stopping n i (disk_error i s) H"
  unfolding disk_error_def Let_def
  by (rule put_disk_stopping [OF assms quiet_refl]) (use stoppingD(2) [OF assms] in \<open>simp_all add: disk_sound_def\<close>)

lemma disk_error_simps [simp]:
  "disk_requests (disk_error i s) = disk_requests s" "disk_count (disk_error i s) = disk_count s"
  "block_state.more (disk_error i s) = block_state.more s"
  "b_physical (disks (disk_error i s) ! i) = b_physical (disks s ! i)"
proof -
  show "disk_requests (disk_error i s) = disk_requests s" "disk_count (disk_error i s) = disk_count s"
    "block_state.more (disk_error i s) = block_state.more s"
    by (simp_all add: disk_error_def Let_def)
  show "b_physical (disks (disk_error i s) ! i) = b_physical (disks s ! i)"
    by (cases "i < length (disks s)") (simp_all add: disk_error_def Let_def not_less list_update_beyond)
qed

text \<open>The buffers of an online disk.\<close>

lemma disk_buffer:
  assumes inv: "stopping n i s H" and i: "i < 2" and p: "b_physical (disks s ! i) \<noteq> 0" and fits: "off + k \<le> 8192"
  shows "in_use s (b_physical (disks s ! i) + of_nat off) k"
    and "f \<in> set (frames_of (b_physical (disks s ! i) + of_nat off) k) \<Longrightarrow> f \<in># block (b_physical (disks s ! i)) 2"
proof -
  note d = stoppingD [OF inv i]
  have sub: "block (b_physical (disks s ! i)) 2 \<subseteq># held (add_mset (disk_holder (disks s ! i)) (others i (disks s) + H))"
    by (simp add: disk_holder_def disk_frames_def)
  have al: "b_physical (disks s ! i) AND 4095 = 0" using d(2) by (simp add: disk_sound_def)
  have f2: "off + k \<le> unat (2 :: u32) * 4096" using fits by simp
  show "in_use s (b_physical (disks s ! i) + of_nat off) k"
    by (rule in_use_block(1) [OF d(1) sub p al refl f2])
  show "f \<in> set (frames_of (b_physical (disks s ! i) + of_nat off) k) \<Longrightarrow> f \<in># block (b_physical (disks s ! i)) 2"
    by (rule in_use_block(2) [OF d(1) sub p al refl f2])
qed

lemma disk_status:
  assumes inv: "stopping n i s H" and i: "i < 2" and p: "b_physical (disks s ! i) \<noteq> 0"
  obtains v where "dma_load (b_physical (disks s ! i) + 16) 1 s = Some (v, s\<lparr>dma_reads := dma_reads s + 1\<rparr>)"
    "stopping n i (s\<lparr>dma_reads := dma_reads s + 1\<rparr>) H"
proof -
  have "in_use s (b_physical (disks s ! i) + of_nat 16) 1" by (rule disk_buffer(1) [OF inv i p]) simp
  moreover have "dma_inv (s\<lparr>dma_reads := dma_reads s + 1\<rparr>) K = dma_inv s K" for K by (rule same_dma) simp_all
  then have "stopping n i (s\<lparr>dma_reads := dma_reads s + 1\<rparr>) H" using inv by (simp add: stopping_def)
  ultimately show thesis using that by (simp add: dma_load_def)
qed

lemma complete_simps [simp]:
  "rid (io_request_complete r w) = rid w" "pending (io_request_complete r w) = False"
  "bytes (io_request_complete r w) = bytes w" "operation (io_request_complete r w) = operation w"
  by (simp_all add: io_request_complete_def)

lemma disk_give_up:
  assumes st: "stopping n i s H" and i: "i < 2" "i < n"
  obtains ok s' where "disk_stop i (put_disk_world i (io_request_complete r (disk_world i (disk_error i s))) (disk_error i s)) =
      Some (ok, s')" "disks_inv n s' H" "block_state.more s' = block_state.more s" "disk_count s' = disk_count s"
    "rid (disk_requests s' ! i) = rid (disk_requests s ! i)"
proof -
  let ?w = "io_request_complete r (disk_world i (disk_error i s))" and ?e = "disk_error i s"
  note d = stoppingD [OF st i(1)]
  have "stopping n i ?e H" by (rule disk_error_stopping [OF st i(1)])
  then have "stopping n i (put_disk_world i ?w ?e) H"
    by (rule put_world_stopping [OF _ i(1)]) (use d(2) in \<open>simp_all add: disk_sound_def disk_world_def\<close>)
  from disk_stop_kept [OF this i] obtain ok s' where
    sp: "disk_stop i (put_disk_world i ?w ?e) = Some (ok, s')" "kept n H (put_disk_world i ?w ?e) s'"
      "rid (disk_requests s' ! i) = rid (disk_requests (put_disk_world i ?w ?e) ! i)" by metis
  show thesis
    by (rule that [OF sp(1)]) (use sp(2,3) d(4) i in \<open>simp_all add: kept_def disk_world_def\<close>)
qed

lemma disk_poll_kept:
  assumes inv: "disks_inv n s H" and i: "i < 2"
  obtains s' where "disk_poll now i s = Some s'" "kept n H s s'" "rid (disk_requests s' ! i) = rid (disk_requests s ! i)"
proof (cases "pending (disk_requests s ! i)")
  case False
  then show ?thesis using inv that [of s] by (simp add: disk_poll_def kept_def)
next
  case pend: True
  let ?d = "disks s ! i" and ?r = "disk_requests s ! i"
  let ?dev = "transport ?d" let ?q = "v_queues ?dev ! 0" and ?p = "b_physical ?d"
  note d = disks_invD [OF inv i]
  have on: "bi_online (binfo ?d)" and t: "transport_ok ?dev" and p: "?p \<noteq> 0" and q: "q_physical ?q \<noteq> 0" "q_outstanding ?q = 1"
    and r0: "rid ?r \<noteq> 0"
    using d(2) pend by (simp_all add: disk_ok_def disk_sound_def)
  have n: "i < n" by (rule d(6) [OF on])
  have qok: "queue_ok ?q" and io: "v_io ?dev \<noteq> 0" using t q(1) by (auto simp: transport_ok_def)
  have sub: "queue_frames ?q \<subseteq># held (add_mset (disk_holder ?d) (others i (disks s) + H))"
    by (simp add: disk_holder_def disk_frames_def transport_frames_def)
  obtain res u q' s1 where pop: "virtio_pop ?q s = Some (res, u, q', s1)" and q1: "quiet s s1"
    and q': "queue_ok q'" "queue_frames q' = queue_frames ?q" "q_physical q' = q_physical ?q"
    and cs: "res = 0 \<and> q' = ?q \<or> res = -1 \<and> q' = ?q \<or>
     res = 1 \<and> q' = ?q\<lparr>q_consumed := q_consumed ?q + 1, q_outstanding := q_outstanding ?q - 1\<rparr> \<and> 0 < q_outstanding ?q \<and>
       u_id u < ucast (q_size ?q)"
    by (rule pop_ok [OF d(1) qok q(1) sub])
  note so = set_queue_ok [OF t _ q'(1) io, where i = 0, simplified]
  define e where "e = ?d\<lparr>transport := set_queue 0 q' ?dev\<rparr>"
  define s2 where "s2 = put_disk i e s1"
  have fr: "transport_frames (transport e) = transport_frames ?dev" using so(5) q'(2) by (simp add: e_def)
  note f1 = block_fields [OF quiet_more [OF q1]]
  have s2: "disks s2 ! i = e" "disk_requests s2 = disk_requests s" "disk_count s2 = disk_count s"
    "block_state.more s2 = block_state.more s" and ep: "b_physical e = ?p"
    using f1 d(4) i by (simp_all add: s2_def e_def)
  have st2: "stopping n i s2 H"
    unfolding s2_def by (rule put_disk_stopping [OF inv_stopping [OF inv i] i q1 fr]) (use so in \<open>simp_all add: e_def\<close>)
  have run: "disk_poll now i s =
    (if res = 0 \<and> now - started ?r < 500 then Some s2
     else do {
       (bad, s) \<leftarrow> (if res \<noteq> 1 \<or> u_id u \<noteq> 0 then Some (True, s2)
                    else do { (v, s) \<leftarrow> dma_load (?p + 16) 1 s2; Some ((ucast v :: u8) > 2, s) });
       if bad
       then do {
         let s = disk_error i s;
         let s = put_disk_world i
           (io_request_complete (if res = 0 then DRIVER_TIMEOUT else DRIVER_IO) (disk_world i s)) s;
         (stopped, s) \<leftarrow> disk_stop i s;
         Some s
       }
       else do {
         (v, s) \<leftarrow> dma_load (?p + 16) 1 s;
         if (ucast v :: u8) \<noteq> 0
         then do {
           let s = disk_error i s;
           (v, s) \<leftarrow> dma_load (?p + 16) 1 s;
           Some (put_disk_world i
             (io_request_complete (if (ucast v :: u8) = 2 then DRIVER_UNSUPPORTED else DRIVER_IO) (disk_world i s)) s)
         }
         else Some (put_disk_world i (io_request_complete DRIVER_OK (disk_world i s)) s)
       }
     })"
    using pend pop s2(2) by (simp add: disk_poll_def Let_def s2_def e_def)
  note result = that
  have bad: thesis if st: "stopping n i s3 H" "disk_requests s3 = disk_requests s" "disk_count s3 = disk_count s"
      "block_state.more s3 = block_state.more s"
    and run: "disk_poll now i s = do { (stopped, s) \<leftarrow> disk_stop i (put_disk_world i
      (io_request_complete k (disk_world i (disk_error i s3))) (disk_error i s3)); Some s }" for s3 k
  proof -
    obtain ok s' where "disk_stop i (put_disk_world i (io_request_complete k (disk_world i (disk_error i s3))) (disk_error i s3)) =
      Some (ok, s')" "disks_inv n s' H" "block_state.more s' = block_state.more s3" "disk_count s' = disk_count s3"
      "rid (disk_requests s' ! i) = rid (disk_requests s3 ! i)"
      by (rule disk_give_up [OF st(1) i n])
    then show thesis using result [of s'] run st by (simp add: kept_def)
  qed
  show ?thesis
  proof (cases "res = 1 \<and> u_id u = 0")
    case False
    show ?thesis
    proof (cases "res = 0 \<and> now - started ?r < 500")
      case True
      then have "q' = ?q" using cs by auto
      have k: "kept n H s s2"
        unfolding s2_def
        by (rule put_disk_kept [OF inv i q1 fr]) (use d(2) so \<open>q' = ?q\<close> in \<open>simp_all add: e_def disk_ok_def disk_sound_def\<close>)
      have "disk_poll now i s = Some s2" using run True by simp
      then show ?thesis using that k s2 by simp
    next
      case late: False
      have "res \<noteq> 1 \<or> u_id u \<noteq> 0" using False by blast
      then show ?thesis using bad [OF st2 s2(2-4)] run late by (simp add: Let_def)
    qed
  next
    case True
    have p2: "b_physical (disks s2 ! i) \<noteq> 0" using s2(1) ep p by simp
    obtain v1 where l1: "dma_load (?p + 16) 1 s2 = Some (v1, s2\<lparr>dma_reads := dma_reads s2 + 1\<rparr>)"
      and st3: "stopping n i (s2\<lparr>dma_reads := dma_reads s2 + 1\<rparr>) H"
      using disk_status [OF st2 i p2] s2(1) ep by metis
    define s3 where "s3 = s2\<lparr>dma_reads := dma_reads s2 + 1\<rparr>"
    have s3: "disks s3 ! i = e" "disk_requests s3 = disk_requests s" "disk_count s3 = disk_count s"
      "block_state.more s3 = block_state.more s" using s2 by (simp_all add: s3_def)
    show ?thesis
    proof (cases "(ucast v1 :: u8) > 2")
      case big: True
      show ?thesis
        by (rule bad [OF st3 [folded s3_def] s3(2-4), of DRIVER_IO]) (use run True l1 big in \<open>simp add: Let_def s3_def\<close>)
    next
      case small: False
      obtain v2 where l2: "dma_load (?p + 16) 1 s3 = Some (v2, s3\<lparr>dma_reads := dma_reads s3 + 1\<rparr>)"
        and st4: "stopping n i (s3\<lparr>dma_reads := dma_reads s3 + 1\<rparr>) H"
        using disk_status [OF st3 [folded s3_def] i] s3(1) ep p by metis
      define s4 where "s4 = s3\<lparr>dma_reads := dma_reads s3 + 1\<rparr>"
      have s4: "disks s4 ! i = e" "disk_requests s4 = disk_requests s" "disk_count s4 = disk_count s"
        "block_state.more s4 = block_state.more s" using s3 by (simp_all add: s4_def)
      have fin: thesis if st: "stopping n i s5 H" "disk_requests s5 = disk_requests s" "disk_count s5 = disk_count s"
          "block_state.more s5 = block_state.more s" and tr: "transport (disks s5 ! i) = transport e"
          "b_physical (disks s5 ! i) = ?p" "bi_online (binfo (disks s5 ! i))"
        and run: "disk_poll now i s = Some (put_disk_world i (io_request_complete k (disk_world i s5)) s5)" for s5 k
      proof -
        let ?w = "io_request_complete k (disk_world i s5)"
        have out: "q_outstanding (v_queues (transport e) ! 0) = 0"
          using cs True q(2) so(3) by (simp add: e_def)
        have "disk_ok (disks s5 ! i) (request_of ?w)"
          using stoppingD(2) [OF st(1) i] tr out p q(1) so(3) q'(3)
          by (simp add: disk_ok_def disk_sound_def e_def disk_world_def)
        from put_world_done [OF st(1) i n this] show thesis
          using result [OF run] st d(5) i by (simp add: kept_def disk_world_def)
      qed
      show ?thesis
      proof (cases "(ucast v2 :: u8) = 0")
        case zero: True
        show ?thesis
          by (rule fin [OF st4 [folded s4_def] s4(2-4), of DRIVER_OK])
            (use run True l1 l2 small zero s4(1) ep on in \<open>simp_all add: Let_def s3_def s4_def e_def\<close>)
      next
        case nz: False
        have st5: "stopping n i (disk_error i s4) H" by (rule disk_error_stopping [OF st4 [folded s4_def] i])
        have p5: "b_physical (disks (disk_error i s4) ! i) = ?p" using s4(1) ep by simp
        obtain v3 where l3: "dma_load (?p + 16) 1 (disk_error i s4) =
            Some (v3, (disk_error i s4)\<lparr>dma_reads := dma_reads (disk_error i s4) + 1\<rparr>)"
          and st6: "stopping n i ((disk_error i s4)\<lparr>dma_reads := dma_reads (disk_error i s4) + 1\<rparr>) H"
          using disk_status [OF st5 i] p5 p by metis
        have len: "i < length (disks s4)" using stoppingD(3) [OF st4 [folded s4_def] i] i by simp
        define s5 where "s5 = disk_error i s4"
        define s6 where "s6 = s5\<lparr>dma_reads := dma_reads s5 + 1\<rparr>"
        note l1' = l1 [folded s3_def] and l2' = l2 [folded s4_def] and l3' = l3 [folded s5_def, folded s6_def]
        have run6: "disk_poll now i s = Some (put_disk_world i (io_request_complete
            (if (ucast v3 :: u8) = 2 then DRIVER_UNSUPPORTED else DRIVER_IO) (disk_world i s6)) s6)"
          using run True l1' small l2' nz l3' by (simp add: Let_def s5_def [symmetric])
        have e5: "disks s5 ! i = e\<lparr>binfo := (binfo e)\<lparr>bi_errors := bi_errors (binfo e) + 1\<rparr>\<rparr>"
          using s4(1) len by (simp add: s5_def disk_error_def Let_def)
        have s6: "disk_requests s6 = disk_requests s" "disk_count s6 = disk_count s"
          "block_state.more s6 = block_state.more s" using s4 by (simp_all add: s6_def s5_def)
        have tr6: "transport (disks s6 ! i) = transport e" "b_physical (disks s6 ! i) = ?p" "bi_online (binfo (disks s6 ! i))"
          using e5 ep on by (simp_all add: s6_def) (simp add: e_def)
        show ?thesis by (rule fin [OF st6 [folded s5_def, folded s6_def] s6 tr6 run6])
      qed
    qed
  qed
qed

lemma disk_ok_world:
  assumes "disk_ok d r" and "rid w = rid r" "pending w = pending r" "result w = result r" "bytes w = bytes r"
  shows "disk_ok d (request_of w)"
  using assms by (simp add: disk_ok_def disk_sound_def)

lemma disk_world_fields [simp]:
  "rid (disk_world i s) = rid (disk_requests s ! i)" "pending (disk_world i s) = pending (disk_requests s ! i)"
  "result (disk_world i s) = result (disk_requests s ! i)" "bytes (disk_world i s) = bytes (disk_requests s ! i)"
  "operation (disk_world i s) = operation (disk_requests s ! i)"
  by (simp_all add: disk_world_def)

lemma waiter_simps [simp]:
  "rid (io_request_expire_waiters now w) = rid w" "pending (io_request_expire_waiters now w) = pending w"
  "result (io_request_expire_waiters now w) = result w" "bytes (io_request_expire_waiters now w) = bytes w"
  "rid (io_request_cancel_waiter t w) = rid w" "pending (io_request_cancel_waiter t w) = pending w"
  "result (io_request_cancel_waiter t w) = result w" "bytes (io_request_cancel_waiter t w) = bytes w"
  by (simp_all add: io_request_expire_waiters_def io_request_cancel_waiter_def)

lemma disk_service_kept:
  assumes inv: "disks_inv n s H" and i: "i < 2"
  obtains s' where "disk_service now i s = Some s'" "kept n H s s'" "rid (disk_requests s' ! i) = rid (disk_requests s ! i)"
proof -
  let ?w = "io_request_expire_waiters now (disk_world i s)"
  note d = disks_invD [OF inv i]
  have "disk_ok (disks s ! i) (request_of ?w)" by (rule disk_ok_world [OF d(2)]) simp_all
  note k1 = put_world_kept [OF inv i this]
  obtain s1 where c: "disk_check i (put_disk_world i ?w s) = Some s1" "kept n H (put_disk_world i ?w s) s1"
    "rid (disk_requests s1 ! i) = rid (disk_requests (put_disk_world i ?w s) ! i)"
    by (rule disk_check_kept [OF kept_inv [OF k1] i])
  obtain s2 where p: "disk_poll now i s1 = Some s2" "kept n H s1 s2" "rid (disk_requests s2 ! i) = rid (disk_requests s1 ! i)"
    by (rule disk_poll_kept [OF kept_inv [OF c(2)] i])
  have "disk_service now i s = Some s2" using c(1) p(1) by (simp add: disk_service_def Let_def)
  moreover have "kept n H s s2" by (rule kept_trans [OF k1 kept_trans [OF c(2) p(2)]])
  ultimately show thesis using that [of s2] c(3) p(3) d(5) i by simp
qed

lemma release_kept:
  assumes inv: "disks_inv n s H" and i: "i < 2" and p: "\<not> pending (disk_requests s ! i)"
  shows "kept n H s (put_disk_world i (io_request_release (disk_world i s)) s)"
  by (rule put_world_kept [OF inv i])
    (use disks_invD(2) [OF inv i] p in \<open>simp add: disk_ok_def disk_sound_def io_request_release_def\<close>)

lemma pending_online: "disks_inv n s H \<Longrightarrow> i < 2 \<Longrightarrow> pending (disk_requests s ! i) \<Longrightarrow> i < n"
  using disks_invD(2,6) [of n s H i] by (auto simp: disk_ok_def)

text \<open>Giving up whatever the disk is doing and freeing the slot.\<close>

lemma disk_discard:
  assumes inv: "disks_inv n s H" and i: "i < 2"
  obtains s1 where "(if pending (disk_requests s ! i) then do { (stopped, s) \<leftarrow> disk_stop i s; Some s } else Some s) = Some s1"
    "kept n H s (put_disk_world i (io_request_release (disk_world i s1)) s1)"
proof (cases "pending (disk_requests s ! i)")
  case False
  then show ?thesis using that [of s] release_kept [OF inv i False] by simp
next
  case True
  obtain ok s1 where sp: "disk_stop i s = Some (ok, s1)" "kept n H s s1" "\<not> pending (disk_requests s1 ! i)"
    by (rule disk_stop_kept [OF inv_stopping [OF inv i] i pending_online [OF inv i True]])
  show ?thesis
    by (rule that [of s1]) (use True sp in simp, rule kept_trans [OF sp(2) release_kept [OF kept_inv [OF sp(2)] i sp(3)]])
qed

lemma block_service_begin_kept:
  assumes inv: "disks_inv n s H" and i: "i < 2"
  shows "\<exists>seen s'. block_service_begin now i s = Some (seen, s') \<and> kept n H s s'"
proof -
  obtain s' where "disk_service now i s = Some s'" "kept n H s s'" by (rule disk_service_kept [OF inv i])
  then show ?thesis using inv by (simp add: block_service_begin_def Let_def kept_def)
qed

lemma block_service_end_kept:
  assumes inv: "disks_inv n s H" and i: "i < 2"
  shows "\<exists>s'. block_service_end now i seen dead s = Some s' \<and> kept n H s s'"
proof -
  let ?r = "disk_requests s ! i"
  obtain s1 where a: "(if dead \<and> rid ?r = fst seen \<and> owner_pid ?r = snd seen
      then do {
        s \<leftarrow> (if pending ?r then do { (stopped, s) \<leftarrow> disk_stop i s; Some s } else Some s);
        Some (put_disk_world i (io_request_release (disk_world i s)) s)
      } else Some s) = Some s1" and k: "kept n H s s1"
  proof (cases "dead \<and> rid ?r = fst seen \<and> owner_pid ?r = snd seen")
    case False
    show ?thesis by (rule that [OF if_not_P [OF False]]) (use inv in \<open>simp add: kept_def\<close>)
  next
    case True
    obtain s2 where "(if pending ?r then do { (stopped, s) \<leftarrow> disk_stop i s; Some s } else Some s) = Some s2"
      "kept n H s (put_disk_world i (io_request_release (disk_world i s2)) s2)" by (rule disk_discard [OF inv i])
    then show ?thesis using that True by simp
  qed
  obtain s2 where "disk_service now i s1 = Some s2" "kept n H s1 s2" by (rule disk_service_kept [OF kept_inv [OF k] i])
  then show ?thesis using a kept_trans [OF k] by (simp add: block_service_end_def Let_def)
qed

lemma block_cancel_kept:
  assumes inv: "disks_inv n s H"
  shows "\<exists>res s'. block_cancel token s = Some (res, s') \<and> kept n H s s'"
proof (cases "tok_device token \<ge> 2 \<or> tok_id token = 0 \<or> \<not> io_request_matches (disk_world (unat (tok_device token)) s) token")
  case True
  then show ?thesis using inv by (auto simp: block_cancel_def Let_def kept_def)
next
  case False
  then have i: "unat (tok_device token) < 2" by (simp add: word_less_nat_alt not_le)
  obtain s1 where "(if pending (disk_requests s ! unat (tok_device token))
      then do { (stopped, s) \<leftarrow> disk_stop (unat (tok_device token)) s; Some s } else Some s) = Some s1"
    "kept n H s (put_disk_world (unat (tok_device token)) (io_request_release (disk_world (unat (tok_device token)) s1)) s1)"
    by (rule disk_discard [OF inv i])
  then show ?thesis using False by (simp add: block_cancel_def Let_def)
qed

lemma block_cancel_waiter_kept:
  assumes inv: "disks_inv n s H" and i: "unat index < 2"
  shows "kept n H s (block_cancel_waiter index t s)"
  unfolding block_cancel_waiter_def
  by (rule put_world_kept [OF inv i]) (rule disk_ok_world [OF disks_invD(2) [OF inv i]], simp_all)

lemma block_collect_kept:
  assumes inv: "disks_inv n s H"
  shows "\<exists>res bs s'. block_collect now token has_buffer capacity s = Some (res, bs, s') \<and> kept n H s s'"
proof (cases "tok_device token \<ge> 2 \<or> tok_id token = 0 \<or> \<not> io_request_matches (disk_world (unat (tok_device token)) s) token")
  case True
  then show ?thesis using inv by (auto simp: block_collect_def Let_def kept_def)
next
  case False
  let ?i = "unat (tok_device token)"
  have i: "?i < 2" using False by (simp add: word_less_nat_alt not_le)
  obtain s1 where sv: "disk_service now ?i s = Some s1" and k: "kept n H s s1"
    by (rule disk_service_kept [OF inv i])
  note inv1 = kept_inv [OF k]
  let ?w = "disk_world ?i s1" and ?p = "b_physical (disks s1 ! ?i)"
  have run: "block_collect now token has_buffer capacity s =
    (if \<not> io_request_matches ?w token then Some (DRIVER_CANCELED, [], s1)
     else if pending ?w then Some (DRIVER_PENDING, [], s1)
     else if result ?w = 0 \<and> operation ?w = BLOCK_READ \<and> (\<not> has_buffer \<or> capacity < bytes ?w)
     then Some (DRIVER_BUFFER_SMALL, [], s1)
     else do {
       (bs, s) \<leftarrow> (if result ?w = 0 \<and> operation ?w = BLOCK_READ
                   then dma_copy (?p + 4096) (unat (bytes ?w)) s1 else Some ([], s1));
       Some (result ?w, bs, put_disk_world ?i (io_request_release (disk_world ?i s)) s)
     })"
    using False sv by (simp add: block_collect_def Let_def)
  show ?thesis
  proof (cases "\<not> io_request_matches ?w token \<or> pending ?w \<or>
      result ?w = 0 \<and> operation ?w = BLOCK_READ \<and> (\<not> has_buffer \<or> capacity < bytes ?w)")
    case True
    then show ?thesis using run k by auto
  next
    case fin: False
    then have np: "\<not> pending (disk_requests s1 ! ?i)" and m: "io_request_matches ?w token" by simp_all
    show ?thesis
    proof (cases "result ?w = 0 \<and> operation ?w = BLOCK_READ")
      case False
      then show ?thesis using run fin release_kept [OF inv1 i np] kept_trans [OF k] by auto
    next
      case rd: True
      note d = disks_invD [OF inv1 i]
      have "bi_online (binfo (disks s1 ! ?i))"
        using d(2) rd m by (auto simp: disk_ok_def io_request_matches_def)
      then have p: "?p \<noteq> 0" using d(2) by (simp add: disk_ok_def)
      have "bytes ?w \<le> 4096" using d(2) by (simp add: disk_ok_def disk_sound_def)
      then have "4096 + unat (bytes ?w) \<le> 8192" by (simp add: word_le_nat_alt)
      then have "in_use s1 (?p + of_nat 4096) (unat (bytes ?w))"
        by (rule disk_buffer(1) [OF inv_stopping [OF inv1 i] i p])
      then obtain bs s2 where c: "dma_copy (?p + 4096) (unat (bytes ?w)) s1 = Some (bs, s2)"
        by (simp add: dma_copy_def)
      have k2: "kept n H s1 s2" by (rule quiet_kept [OF inv1 quiet_copy [OF c]])
      have "disk_requests s2 = disk_requests s1" using block_fields(2) [OF quiet_more [OF quiet_copy [OF c]]] .
      then have "kept n H s2 (put_disk_world ?i (io_request_release (disk_world ?i s2)) s2)"
        using release_kept [OF kept_inv [OF k2] i] np by simp
      then have "kept n H s (put_disk_world ?i (io_request_release (disk_world ?i s2)) s2)"
        using k k2 kept_trans by blast
      then show ?thesis using run fin rd c by auto
    qed
  qed
qed

end
