(* ===== verification/BlockRun.thy ===== *)
theory BlockRun
  imports BlockProps
begin

text \<open>
  The rest of the disk driver keeps its invariant: requests handed to a disk, probing and shutting down.
  At the end, whole runs of the driver among everything else that happens.
\<close>

section \<open>Submitting\<close>

lemma begin_effect:
  assumes r: "io_request_begin_owned now device has_token owner admission deadline w = (res, tok, adm, w')"
  shows "bytes w' = bytes w" and "operation w' = operation w"
    and "res = 0 \<Longrightarrow> rid w = 0 \<and> pending w' \<and> rid w' \<noteq> 0 \<and> result w' = DRIVER_PENDING"
    and "res \<noteq> 0 \<Longrightarrow> rid w' = rid w \<and> pending w' = pending w \<and> result w' = result w"
    and "res = 0 \<Longrightarrow> tok = Some \<lparr>tok_id = rid w', tok_device = device\<rparr>"
  using r
  by (auto simp: io_request_begin_owned_def Let_def io_request_expire_waiters_def io_request_cancel_waiter_def
      enqueue_waiter_def allocate_id_def start_request_def split: if_splits option.splits)

lemma quiet_stopping:
  assumes inv: "stopping n i s H" and q: "quiet s s'" shows "stopping n i s' H"
  using assms quiet_inv [OF q] block_fields [OF quiet_more [OF q]] by (simp add: stopping_def)

lemma write_stopping:
  assumes inv: "stopping n i s H" and i: "i < 2" and p: "b_physical (disks s ! i) \<noteq> 0"
    and a: "a = b_physical (disks s ! i) + of_nat off" and fits: "off + length bs \<le> 8192"
  obtains s' where "dma_write a bs s = Some s'" "quiet s s'" "stopping n i s' H"
proof -
  have "in_use s a (length bs)" unfolding a by (rule disk_buffer(1) [OF inv i p fits])
  then obtain s' where w: "dma_write a bs s = Some s'" by (simp add: dma_write_def)
  from that [OF w quiet_write [OF w] quiet_stopping [OF inv quiet_write [OF w]]] show thesis .
qed

lemma expose_stopping:
  assumes inv: "stopping n i s H" and i: "i < 2" and p: "b_physical (disks s ! i) \<noteq> 0"
    and a: "a = b_physical (disks s ! i) + of_nat off" and fits: "off + k \<le> 8192"
    and io: "io = v_io (transport (disks s ! i))"
  shows "stopping n i (expose io a k s) H"
proof -
  note d = stoppingD [OF inv i]
  have io0: "io \<noteq> 0" using d(2) p io by (auto simp: disk_sound_def)
  have f: "f \<in># disk_frames (disks s ! i)" if "f \<in> set (frames_of a k)" for f
    using disk_buffer(2) [OF inv i p fits, of f] that by (simp add: a disk_frames_def)
  have "dma_inv s (add_mset (io, disk_frames (disks s ! i)) (others i (disks s) + H))"
    using d(1) by (simp add: disk_holder_def io)
  then have "dma_inv (expose io a k s) (add_mset (io, disk_frames (disks s ! i)) (others i (disks s) + H))"
    by (rule expose_inv [OF _ io0]) (rule f)
  moreover note fl = block_fields [OF expose_more [of io a k s]]
  ultimately show ?thesis
    using inv focus [of i "disks s"] d(3) i by (simp add: stopping_def disk_holder_def io)
qed

lemma sectors_fit:
  fixes count :: u32
  assumes "count \<le> 8"
  shows "count * BLOCK_SECTOR_SIZE \<le> 4096" "unat (count * BLOCK_SECTOR_SIZE) \<le> 4096"
proof -
  have c: "unat count \<le> 8" using assms by (simp add: word_le_nat_alt)
  then have "unat count * unat (512 :: u32) < 2 ^ LENGTH(32)" by simp
  then have "unat (count * 512) = unat count * 512" using unat_mult_lem [of count 512] by simp
  then show "unat (count * BLOCK_SECTOR_SIZE) \<le> 4096" "count * BLOCK_SECTOR_SIZE \<le> 4096"
    using c by (simp_all add: word_le_nat_alt)
qed

lemma le_bytes_length [simp]: "length (le_bytes n v) = n"
  by (simp add: le_bytes_def)

text \<open>A disk that is online and whose request was just admitted.\<close>

definition disk_started :: "block_device \<Rightarrow> io_request \<Rightarrow> bool" where
  "disk_started d r \<longleftrightarrow> bi_online (binfo d) \<and> q_physical (v_queues (transport d) ! 0) \<noteq> 0 \<and> b_physical d \<noteq> 0 \<and>
     q_outstanding (v_queues (transport d) ! 0) = 0 \<and> pending r \<and> rid r \<noteq> 0 \<and> result r = DRIVER_PENDING"

lemma put_descriptors:
  fixes count :: u32 and s :: "'a block_state_scheme"
  assumes inv: "stopping n i s H" and i: "i < 2" and p: "b_physical (disks s ! i) = p" "p \<noteq> 0"
    and io: "io = v_io (transport (disks s ! i))" and c: "count \<le> 8"
  obtains q' s' where "fold (\<lambda>k. put_descriptor io k (disk_chain p ty count ! k)) [0, 1, 2] (q, s) = (q', s')"
    "stopping n i s' H" "dma_state.more s' = dma_state.more s"
    "q_size q' = q_size q" "q_outstanding q' = q_outstanding q" "q_physical q' = q_physical q"
    "queue_frames q' = queue_frames q" "queue_ok q' = queue_ok q"
proof -
  let ?c = "disk_chain p ty count"
  let ?s1 = "expose io p 16 s"
  let ?s2 = "expose io (p + 4096) (unat (count * BLOCK_SECTOR_SIZE)) ?s1"
  let ?s3 = "expose io (p + 16) 1 ?s2"
  let ?q = "q\<lparr>q_descriptors := ((q_descriptors q)[0 := ?c ! 0])[1 := ?c ! 1, 2 := ?c ! 2]\<rparr>"
  have run: "fold (\<lambda>k. put_descriptor io k (?c ! k)) [0, 1, 2] (q, s) = (?q, ?s3)"
    by (simp add: put_descriptor_def disk_chain_def)
  have st: "stopping n i (expose io a k t) H" if "stopping n i t H" "disks t = disks s" "a = p + of_nat off" "off + k \<le> 8192"
    for a k off and t :: "'a block_state_scheme"
    by (rule expose_stopping [OF that(1) i _ _ that(4)]) (use that p io in simp_all)
  have ds: "disks (expose io a k t) = disks t" for a k and t :: "'a block_state_scheme"
    by (rule block_fields(1) [OF expose_more])
  have "stopping n i ?s1 H" by (rule st [OF inv, of p 0 16]) simp_all
  then have "stopping n i ?s2 H"
    by (rule st [of _ _ 4096]) (use sectors_fit(2) [OF c] in \<open>simp_all add: ds\<close>)
  then have "stopping n i ?s3 H" by (rule st [of _ _ 16]) (simp_all add: ds)
  then show thesis by (rule that [OF run]) (simp_all add: queue_frames_def queue_ok_def)
qed

lemma disk_start_kept:
  fixes count :: u32
  assumes inv: "stopping n i s H" and i: "i < 2" "i < n" and st: "disk_started (disks s ! i) (disk_requests s ! i)"
    and c: "count \<le> 8"
  shows "\<exists>s'. disk_start i ty sector count buffer s = Some s' \<and> kept n H s s'"
proof -
  let ?w = "(disk_world i s)\<lparr>operation := ty, bytes := count * BLOCK_SECTOR_SIZE\<rparr>"
  let ?d = "disks s ! i" and ?r = "request_of ?w"
  let ?dev = "transport ?d" let ?q = "v_queues ?dev ! 0" and ?p = "b_physical ?d"
  note d = stoppingD [OF inv i(1)]
  have on: "bi_online (binfo ?d)" and q: "q_physical ?q \<noteq> 0" "q_outstanding ?q = 0" and p: "?p \<noteq> 0"
    using st by (simp_all add: disk_started_def)
  have t: "transport_ok ?dev" using d(2) by (simp add: disk_sound_def)
  have qok: "queue_ok ?q" and io: "v_io ?dev \<noteq> 0" using t q(1) by (auto simp: transport_ok_def)
  define s0 where "s0 = put_disk_world i ?w s"
  have s0: "disks s0 = disks s" "disk_requests s0 = (disk_requests s)[i := ?r]" "disk_count s0 = disk_count s"
    "block_state.more s0 = block_state.more s" by (simp_all add: s0_def)
  have st0: "stopping n i s0 H"
    unfolding s0_def by (rule put_world_stopping [OF inv i(1)]) (use d(2) sectors_fit(1) [OF c] in \<open>simp_all add: disk_sound_def\<close>)
  have keep: "disks t = disks s0 \<and> disk_requests t = disk_requests s0 \<and> disk_count t = disk_count s0 \<and>
    block_state.more t = block_state.more s0" if "dma_state.more t = dma_state.more s0" for t
    using block_fields [OF that] by simp
  obtain s1 where w1: "dma_write ?p (le_bytes 4 (ucast ty) @ le_bytes 4 0 @ le_bytes 8 sector) s0 = Some s1"
    and q1: "quiet s0 s1" and st1: "stopping n i s1 H"
    by (rule write_stopping [OF st0 i(1), of ?p 0 "le_bytes 4 (ucast ty) @ le_bytes 4 0 @ le_bytes 8 sector"])
      (use p in \<open>simp_all add: s0\<close>)
  have m1: "dma_state.more s1 = dma_state.more s0" by (rule quiet_more [OF q1])
  obtain s2 where w2: "dma_write (?p + 16) [0xff] s1 = Some s2"
    and q2: "quiet s1 s2" and st2: "stopping n i s2 H"
    by (rule write_stopping [OF st1 i(1), of "?p + 16" 16 "[0xff]"]) (use p keep [OF m1] in \<open>simp_all add: s0\<close>)
  have m2: "dma_state.more s2 = dma_state.more s0" using quiet_more [OF q2] m1 by simp
  obtain s3 where w3: "(if ty = 1 then dma_write (?p + 4096) (take (unat (count * BLOCK_SECTOR_SIZE)) buffer) s2 else Some s2) = Some s3"
    and q3: "quiet s2 s3" and st3: "stopping n i s3 H"
  proof (cases "ty = 1")
    case False
    show ?thesis by (rule that [OF if_not_P [OF False] quiet_refl st2])
  next
    case True
    obtain s3 where w: "dma_write (?p + 4096) (take (unat (count * BLOCK_SECTOR_SIZE)) buffer) s2 = Some s3" "quiet s2 s3" "stopping n i s3 H"
      by (rule write_stopping [OF st2 i(1), of "?p + 4096" 4096 "take (unat (count * BLOCK_SECTOR_SIZE)) buffer"])
        (use p keep [OF m2] sectors_fit(2) [OF c] in \<open>simp_all add: s0\<close>)
    show ?thesis by (rule that [of s3]) (use w True in simp_all)
  qed
  have m3: "dma_state.more s3 = dma_state.more s0" using quiet_more [OF q3] m2 by simp
  have ds3: "disks s3 ! i = ?d" using keep [OF m3] s0 by simp
  obtain q' s4 where ch: "fold (\<lambda>k. put_descriptor (v_io ?dev) k (disk_chain ?p ty count ! k)) [0, 1, 2] (?q, s3) = (q', s4)"
    and st4: "stopping n i s4 H" and m4: "dma_state.more s4 = dma_state.more s3"
    and q': "q_size q' = q_size ?q" "q_outstanding q' = q_outstanding ?q" "q_physical q' = q_physical ?q"
      "queue_frames q' = queue_frames ?q" "queue_ok q' = queue_ok ?q"
    by (rule put_descriptors [OF st3 i(1) _ p _ c, of "v_io ?dev" ty ?q]) (use ds3 in simp_all)
  have sz: "0 < q_size q'" using qok q(1) q'(1) by (auto simp: queue_ok_def word_gt_0)
  obtain q'' where sub: "virtio_submit q' 0 = Some q''" and q'': "q_outstanding q'' = q_outstanding q' + 1"
    "q_physical q'' = q_physical q'" "queue_frames q'' = queue_frames q'" "queue_ok q''"
    by (rule submit_ok [of q' 0]) (use q' qok q(2) sz in simp_all)
  define s5 where "s5 = virtio_notify ?dev 0 s4"
  define d' where "d' = ?d\<lparr>transport := set_queue 0 q'' ?dev, binfo := (binfo ?d)\<lparr>bi_requests := bi_requests (binfo ?d) + 1\<rparr>\<rparr>"
  have q5: "quiet s4 s5" by (simp add: s5_def)
  have st5: "stopping n i s5 H" by (rule quiet_stopping [OF st4 q5])
  have m5: "dma_state.more s5 = dma_state.more s0" using quiet_more [OF q5] m4 m3 by simp
  note k5 = keep [OF m5]
  have ds0: "disks s0 ! i = ?d" using s0 by simp
  have run: "disk_start i ty sector count buffer s = Some (put_disk i d' s5)"
    unfolding disk_start_def Let_def s0_def [symmetric] ds0
    using w1 w2 w3 ch sub by (simp add: s5_def d'_def Let_def)
  note so = set_queue_ok [OF t _ q''(4) io, where i = 0, simplified]
  have tf: "transport_frames (transport d') = transport_frames ?dev"
    using so(5) q''(3) q'(4) by (simp add: d'_def)
  have fr: "disk_holder d' = disk_holder ?d"
    using tf so(2) by (simp add: disk_holder_def disk_frames_def) (simp add: d'_def)
  have "disk_ok d' ?r"
    using d(2) st so q'' q' q by (simp add: disk_ok_def disk_sound_def disk_started_def d'_def sectors_fit(1) [OF c])
  moreover have "dma_inv (put_disk i d' s5) (add_mset (disk_holder d') (others i (disks s5) + H))"
    using stoppingD(1) [OF st5 i(1)] k5 s0 by (simp add: fr)
  moreover have "(disk_requests s5)[i := ?r] = disk_requests s5" using k5 s0 by simp
  ultimately have "disks_inv n (put_disk i d' s5) H"
    using i(2) by (intro disks_inv_step(2) [OF st5 i(1), of _ d' ?r]) simp_all
  then show ?thesis using run k5 s0 by (simp add: kept_def)
qed

lemma begin_started:
  fixes count :: u32
  assumes inv: "disks_inv n s H" and i: "i < 2" and on: "bi_online (binfo (disks s ! i))" and c: "count \<le> 8"
    and r: "io_request_begin_owned now index has_token owner admission deadline (disk_world i s) = (res, tok, adm, w)"
  shows "res \<noteq> 0 \<Longrightarrow> kept n H s (put_disk_world i w s)"
    and "res = 0 \<Longrightarrow> \<exists>s'. disk_start i ty sector count buffer (put_disk_world i w s) = Some s' \<and> kept n H s s'"
proof -
  note d = disks_invD [OF inv i] and b = begin_effect [OF r]
  show "kept n H s (put_disk_world i w s)" if "res \<noteq> 0"
    by (rule put_world_kept [OF inv i]) (rule disk_ok_world [OF d(2)], use b(4) [OF that] b(1) in simp_all)
  show "\<exists>s'. disk_start i ty sector count buffer (put_disk_world i w s) = Some s' \<and> kept n H s s'" if "res = 0"
  proof -
    note b0 = b(3) [OF that]
    have idle: "\<not> pending (disk_requests s ! i)" using d(2) b0 by (auto simp: disk_ok_def disk_sound_def)
    have st: "stopping n i (put_disk_world i w s) H"
      by (rule put_world_stopping [OF inv_stopping [OF inv i] i]) (use b0 b(1) d(2) in \<open>simp_all add: disk_ok_def disk_sound_def\<close>)
    have "disk_started (disks (put_disk_world i w s) ! i) (disk_requests (put_disk_world i w s) ! i)"
      using d(2,5) i idle on b0 by (simp add: disk_started_def disk_ok_def)
    from disk_start_kept [OF st i d(6) [OF on] this c, of ty sector buffer]
    show ?thesis by (simp add: kept_def)
  qed
qed

text \<open>What is done once the arguments were checked and a changed configuration was noticed.\<close>

lemma disk_submit_steps:
  fixes count :: u32 and s :: "'a block_state_scheme"
  assumes pre: "\<not> (\<not> irqs \<or> index \<ge> 2 \<or> \<not> has_token \<or> (ty \<noteq> 0 \<and> ty \<noteq> 1 \<and> ty \<noteq> 4) \<or> index \<ge> block_count s)"
    and ck: "disk_check (unat index) s = Some s1"
    and b: "io_request_begin_owned now index has_token owner admission deadline (disk_world (unat index) s1) = (res, tok, adm, w)"
  shows "disk_submit_owned irqs service now index ty sector count buffer has_token owner admission deadline s =
    (if \<not> bi_online (binfo (disks s1 ! unat index)) \<or> \<not> service then Some (DRIVER_OFFLINE, None, admission, s1)
     else if ty \<noteq> 4 \<and> ((ty = 1 \<and> buffer = None) \<or> count = 0 \<or> count > BLOCK_MAX_SECTORS \<or>
       sector \<ge> bi_sectors (binfo (disks s1 ! unat index)) \<or> ucast count > bi_sectors (binfo (disks s1 ! unat index)) - sector)
     then Some (DRIVER_INVALID, None, admission, s1)
     else if ty = 4 \<and> (sector \<noteq> 0 \<or> count \<noteq> 0 \<or> buffer \<noteq> None) then Some (DRIVER_INVALID, None, admission, s1)
     else if ty = 1 \<and> bi_read_only (binfo (disks s1 ! unat index)) then Some (DRIVER_READ_ONLY, None, admission, s1)
     else if ty = 4 \<and> \<not> bi_can_flush (binfo (disks s1 ! unat index)) then Some (DRIVER_UNSUPPORTED, None, admission, s1)
     else if res \<noteq> 0 then Some (res, tok, adm, put_disk_world (unat index) w s1)
     else do {
       s \<leftarrow> disk_start (unat index) ty sector count (case buffer of None \<Rightarrow> [] | Some b \<Rightarrow> b) (put_disk_world (unat index) w s1);
       Some (DRIVER_OK, tok, adm, s)
     })"
  unfolding disk_submit_owned_def if_not_P [OF pre] Let_def ck by (simp add: b Let_def)

lemma disk_submit_kept:
  fixes count :: u32
  assumes inv: "disks_inv n s H"
  shows "\<exists>res tok adm s'. disk_submit_owned irqs service now index ty sector count buffer has_token owner admission deadline s =
    Some (res, tok, adm, s') \<and> kept n H s s'"
proof (cases "\<not> irqs \<or> index \<ge> 2 \<or> \<not> has_token \<or> (ty \<noteq> 0 \<and> ty \<noteq> 1 \<and> ty \<noteq> 4) \<or> index \<ge> block_count s")
  case True
  then show ?thesis using inv by (simp add: disk_submit_owned_def kept_def)
next
  case False
  let ?i = "unat index"
  have i: "?i < 2" using False by (simp add: word_less_nat_alt not_le)
  obtain s1 where ck: "disk_check ?i s = Some s1" and k: "kept n H s s1" by (rule disk_check_kept [OF inv i])
  note inv1 = kept_inv [OF k]
  let ?f = "binfo (disks s1 ! ?i)"
  let ?bytes = "case buffer of None \<Rightarrow> [] | Some b \<Rightarrow> b"
  define stop1 where "stop1 \<longleftrightarrow> \<not> bi_online ?f \<or> \<not> service"
  define stop2 where "stop2 \<longleftrightarrow> ty \<noteq> 4 \<and> ((ty = 1 \<and> buffer = None) \<or> count = 0 \<or> count > BLOCK_MAX_SECTORS \<or>
    sector \<ge> bi_sectors ?f \<or> ucast count > bi_sectors ?f - sector)"
  define stop3 where "stop3 \<longleftrightarrow> ty = 4 \<and> (sector \<noteq> 0 \<or> count \<noteq> 0 \<or> buffer \<noteq> None)"
  define stop4 where "stop4 \<longleftrightarrow> ty = 1 \<and> bi_read_only ?f"
  define stop5 where "stop5 \<longleftrightarrow> ty = 4 \<and> \<not> bi_can_flush ?f"
  obtain res tok adm w where b: "io_request_begin_owned now index has_token owner admission deadline (disk_world ?i s1) =
    (res, tok, adm, w)" by (metis prod_cases4)
  note run = disk_submit_steps [OF False ck b, where service = service and sector = sector and count = count and buffer = buffer,
      folded stop1_def stop2_def stop3_def stop4_def stop5_def]
  show ?thesis
  proof (cases "stop1 \<or> stop2 \<or> stop3 \<or> stop4 \<or> stop5")
    case True
    then show ?thesis using run k by auto
  next
    case go: False
    have on: "bi_online ?f" and c: "count \<le> 8" using go by (auto simp: stop1_def stop2_def stop3_def not_less)
    have go': "\<not> stop1" "\<not> stop2" "\<not> stop3" "\<not> stop4" "\<not> stop5" using go by simp_all
    note bs = begin_started [OF inv1 i on c b]
    show ?thesis
    proof (cases "res = 0")
      case False
      then show ?thesis using run [unfolded if_not_P [OF go'(1)] if_not_P [OF go'(2)] if_not_P [OF go'(3)] if_not_P [OF go'(4)]
          if_not_P [OF go'(5)]] kept_trans [OF k bs(1)] by simp
    next
      case True
      obtain s2 where "disk_start ?i ty sector count ?bytes (put_disk_world ?i w s1) = Some s2" "kept n H s1 s2"
        using bs(2) [OF True] by blast
      then show ?thesis using True kept_trans [OF k] run [unfolded if_not_P [OF go'(1)] if_not_P [OF go'(2)]
          if_not_P [OF go'(3)] if_not_P [OF go'(4)] if_not_P [OF go'(5)]] by simp
    qed
  qed
qed

section \<open>Probing\<close>

lemma holder_new: "dma_inv s H \<Longrightarrow> dma_inv s (add_mset (io, {#}) H)"
  unfolding dma_inv_def by fastforce

lemma disk_open_inv:
  assumes inv: "dma_inv s H" and r: "disk_open pci s = (ok, d, s')"
  shows "dma_inv s' (add_mset (disk_holder d) H) \<and> dma_state.more s' = dma_state.more s \<and>
    transport_ok (transport d) \<and> b_physical d AND 4095 = 0 \<and> (v_io (transport d) = 0 \<longrightarrow> b_physical d = 0) \<and>
    (ok \<longrightarrow> bi_online (binfo d) \<and> q_physical (v_queues (transport d) ! 0) \<noteq> 0 \<and> b_physical d \<noteq> 0 \<and>
      q_outstanding (v_queues (transport d) ! 0) = 0)"
    (is "?P ok d s'")
proof -
  obtain ok1 dev s1 where op: "virtio_open pci (BLK_RO OR BLK_FLUSH) s = (ok1, dev, s1)" by (metis prod_cases3)
  note o = open_inv [OF inv op]
  have t: "transport_ok dev" "transport_frames dev = {#}"
    by (simp_all add: transport_ok_def transport_frames_def o(3) queue_frames_0)
  have none: "b_physical (d :: block_device) = 0 \<Longrightarrow> disk_holder d = (v_io (transport d), transport_frames (transport d))" for d
    by (simp add: disk_holder_def disk_frames_def block_def)
  have phys: "b_physical no_disk = 0" by (simp add: no_disk_def)
  have start: "dma_inv s1 (add_mset (v_io dev, transport_frames dev + {#}) H)" using holder_new [OF o(1)] t(2) by simp
  show ?thesis
  proof (cases ok1)
    case False
    then have e: "\<not> ok" "d = no_disk\<lparr>transport := dev\<rparr>" "s' = s1"
      using r op by (simp_all add: disk_open_def)
    show ?thesis using start o(2) t none [of d] phys e by simp
  next
    case True
    obtain ok2 dv s2 where qi: "virtio_queue_init dev 0 s1 = (ok2, dv, s2)" by (metis prod_cases3)
    note q = queue_init_inv [OF start t(1) o(4) [OF True] _ qi, simplified]
    have io: "v_io dv \<noteq> 0" using q(3) o(4) [OF True] by simp
    have m2: "dma_state.more s2 = dma_state.more s" using q(4) o(2) by simp
    obtain v s3 where rd: "virtio_read_config64 dv 0 s2 = (v, s3)" by fastforce
    note q3 = quiet_read_config [OF rd]
    have i3: "dma_inv s3 (add_mset (v_io dv, transport_frames dv) H)" using q(1) quiet_inv [OF q3] by simp
    have m3: "dma_state.more s3 = dma_state.more s" using quiet_more [OF q3] m2 by simp
    obtain p s4 where al: "virtio_dma_alloc 2 s3 = (p, s4)" by fastforce
    note a = dma_alloc_inv [OF i3 al]
    obtain dw s5 where rd5: "virtio_ready dv s4 = (dw, s5)" by fastforce
    note y = ready_inv [OF q(2) rd5]
    consider (queue) "\<not> ok2" | (empty) "ok2" "v = 0" | (full) "ok2" "v \<noteq> 0" "p = 0" | (fine) "ok2" "v \<noteq> 0" "p \<noteq> 0" by blast
    then show ?thesis
    proof cases
      case queue
      then have e: "\<not> ok" "d = no_disk\<lparr>transport := dv\<rparr>" "s' = s2"
        using r op qi True by (simp_all add: disk_open_def)
      show ?thesis using q(1,2) m2 none [of d] phys e by simp
    next
      case empty
      then have e: "\<not> ok" "d = no_disk\<lparr>transport := dv, binfo := (binfo no_disk)\<lparr>bi_sectors := v\<rparr>\<rparr>" "s' = s3"
        using r op qi rd True by (simp_all add: disk_open_def Let_def)
      show ?thesis using i3 q(2) m3 none [of d] phys e by simp
    next
      case full
      then have e: "\<not> ok" "d = no_disk\<lparr>transport := dv, binfo := (binfo no_disk)\<lparr>bi_sectors := v\<rparr>\<rparr>" "s' = s4"
        using r op qi rd al True by (simp_all add: disk_open_def Let_def)
      have "dma_inv s4 (add_mset (v_io dv, transport_frames dv) H)" using a(1) full(3) by (simp add: block_def)
      then show ?thesis using q(2) a(3) m3 none [of d] phys e by simp
    next
      case fine
      then have e: "ok" "transport d = dw" "b_physical d = p" "bi_online (binfo d)" "s' = s5"
        using r op qi rd al rd5 True by (auto simp: disk_open_def Let_def)
      have "dma_inv s5 (add_mset (disk_holder d) H)"
        using a(1) quiet_inv [OF y(1)] e y(3,4) by (simp add: disk_holder_def disk_frames_def)
      then show ?thesis using e y a(2,3) m3 q(5) fine io quiet_more [OF y(1)] by simp
    qed
  qed
qed

lemma holder_gone: "dma_inv s (add_mset (io, {#}) H) \<Longrightarrow> dma_inv s H"
  unfolding dma_inv_def by fastforce

lemma disk_probe_inv:
  assumes inv: "block_inv s H" and c: "disk_count s < 2"
  shows "\<exists>s'. disk_probe pci s = Some s' \<and> block_inv s' H \<and> block_state.more s' = block_state.more s"
proof -
  let ?i = "unat (disk_count s)"
  have i: "?i < 2" using c by (simp add: word_less_nat_alt)
  have inv: "disks_inv ?i s H" using inv by (simp add: block_inv_def)
  note d = disks_invD [OF inv i]
  have bl: "\<not> bi_online (binfo (disks s ! ?i))" "disk_frames (disks s ! ?i) = {#}" using d(3) by (simp_all add: disk_blank_def)
  have r: "\<not> pending (disk_requests s ! ?i)" "bytes (disk_requests s ! ?i) \<le> 4096"
    using d(2) bl(1) by (simp_all add: disk_ok_def disk_sound_def)
  have pre: "stopping (Suc ?i) ?i s H" using inv d(2) by (simp add: stopping_def disks_inv_def disk_ok_def)
  have "dma_inv s (others ?i (disks s) + H)" using d(1) holder_gone bl(2) by (simp add: disk_holder_def)
  moreover obtain ok e s1 where op: "disk_open pci s = (ok, e, s1)" by (metis prod_cases3)
  ultimately have o: "dma_inv s1 (add_mset (disk_holder e) (others ?i (disks s) + H))" "dma_state.more s1 = dma_state.more s"
    "transport_ok (transport e)" "b_physical e AND 4095 = 0" "v_io (transport e) = 0 \<Longrightarrow> b_physical e = 0"
    and good: "ok \<Longrightarrow> bi_online (binfo e) \<and> q_physical (v_queues (transport e) ! 0) \<noteq> 0 \<and> b_physical e \<noteq> 0 \<and>
      q_outstanding (v_queues (transport e) ! 0) = 0"
    using disk_open_inv [of s _ pci ok e s1] by blast+
  note f = block_fields [OF o(2)]
  let ?s2 = "put_disk ?i e s1" and ?n = "of_nat ?i + 1 :: u32"
  have n: "unat ?n = Suc ?i" "?n \<le> 2" using i by (simp_all add: word_le_nat_alt unat_word_ariths)
  have ds: "disks ?s2 = (disks s)[?i := e]" "disk_requests ?s2 = (disk_requests s)[?i := disk_requests s ! ?i]"
    using f by simp_all
  have dm: "dma_inv ?s2 (add_mset (disk_holder e) (others ?i (disks s) + H))" using o(1) by simp
  have so: "disk_sound e (disk_requests s ! ?i)" using o r by (simp add: disk_sound_def)
  have fin: "\<exists>s'. disk_probe pci s = Some s' \<and> block_inv s' H \<and> block_state.more s' = block_state.more s"
    if run: "disk_probe pci s = Some (u\<lparr>disk_count := ?n\<rparr>)" and u: "disks_inv (Suc ?i) u H" "block_state.more u = block_state.more s" for u
  proof -
    have "dma_inv (u\<lparr>disk_count := ?n\<rparr>) K = dma_inv u K" for K by (rule same_dma) simp_all
    then have "block_inv (u\<lparr>disk_count := ?n\<rparr>) H" using u(1) n by (simp add: block_inv_def disks_inv_def)
    then show ?thesis using run u(2) by simp
  qed
  show ?thesis
  proof (cases ok)
    case True
    have "disk_ok e (disk_requests s ! ?i)" using so good [OF True] r by (simp add: disk_ok_def)
    then have "disks_inv (Suc ?i) ?s2 H" by (intro disks_inv_step(2) [OF pre i ds dm]) simp_all
    then show ?thesis by (rule fin [rotated]) (use op True f in \<open>simp_all add: disk_probe_def Let_def\<close>)
  next
    case False
    have st: "stopping (Suc ?i) ?i ?s2 H" by (rule disks_inv_step(1) [OF pre i ds dm so])
    obtain b s3 where sp: "disk_stop ?i ?s2 = Some (b, s3)" "kept (Suc ?i) H ?s2 s3"
      by (rule disk_stop_kept [OF st i]) simp
    show ?thesis
      by (rule fin [of s3]) (use op False sp f in \<open>simp_all add: disk_probe_def Let_def kept_def\<close>)
  qed
qed

lemma disk_probes_inv:
  "block_inv s H \<Longrightarrow> \<exists>s'. disk_probes ps s = Some s' \<and> block_inv s' H \<and> block_state.more s' = block_state.more s"
proof (induction ps arbitrary: s)
  case Nil
  then show ?case by simp
next
  case (Cons pci ps)
  show ?case
  proof (cases "disk_count s \<ge> 2 \<or> pd_vendor pci \<noteq> 0x1af4 \<or> pd_device pci \<noteq> 0x1001")
    case True
    then show ?thesis using Cons.prems Cons.IH [OF Cons.prems] by auto
  next
    case False
    then have "disk_count s < 2" by (simp add: not_le)
    then obtain s1 where p: "disk_probe pci s = Some s1" "block_inv s1 H" "block_state.more s1 = block_state.more s"
      using disk_probe_inv [OF Cons.prems] by blast
    show ?thesis using False p(1,3) Cons.IH [OF p(2)] by simp
  qed
qed

lemma block_init_inv:
  assumes inv: "block_inv s H"
  shows "\<exists>s'. block_init s = Some s' \<and> block_inv s' H \<and> block_state.more s' = block_state.more s"
proof (cases "disk_initialized s")
  case True
  then show ?thesis using inv by (simp add: block_init_def)
next
  case False
  let ?s = "s\<lparr>disk_initialized := True\<rparr>"
  have "dma_inv ?s K = dma_inv s K" for K by (rule same_dma) simp_all
  then have "block_inv ?s H" using inv by (simp add: block_inv_def disks_inv_def)
  from disk_probes_inv [OF this] show ?thesis using False by (simp add: block_init_def)
qed

section \<open>Shutting down\<close>

lemma disk_stops_kept:
  "disks_inv n s H \<Longrightarrow> distinct is \<Longrightarrow> (\<forall>i \<in> set is. i < 2 \<and> i < n) \<Longrightarrow>
    \<exists>ok s'. disk_stops is s = Some (ok, s') \<and> kept n H s s' \<and> (\<forall>j. j \<notin> set is \<longrightarrow> disks s' ! j = disks s ! j) \<and>
      (ok \<longrightarrow> (\<forall>j \<in> set is. disk_blank (disks s' ! j)))"
proof (induction "is" arbitrary: s)
  case Nil
  then show ?case by (auto simp: kept_def)
next
  case (Cons i "is")
  have i: "i < 2" "i < n" using Cons.prems(3) by simp_all
  obtain ok s1 where sp: "disk_stop i s = Some (ok, s1)" "kept n H s s1" "\<not> bi_online (binfo (disks s1 ! i))"
    "ok \<Longrightarrow> disk_frames (disks s1 ! i) = {#}" "\<And>j. j \<noteq> i \<Longrightarrow> disks s1 ! j = disks s ! j" "\<not> pending (disk_requests s1 ! i)"
    "rid (disk_requests s1 ! i) = rid (disk_requests s ! i)"
    by (rule disk_stop_kept [OF inv_stopping [OF Cons.prems(1) i(1)] i]) (rule that)
  let ?s2 = "put_disk_world i (io_request_release (disk_world i s1)) s1"
  have k2: "kept n H s1 ?s2" by (rule release_kept [OF kept_inv [OF sp(2)] i(1) sp(6)])
  obtain rest s3 where r: "disk_stops is ?s2 = Some (rest, s3)" "kept n H ?s2 s3"
    "\<And>j. j \<notin> set is \<Longrightarrow> disks s3 ! j = disks ?s2 ! j" "rest \<Longrightarrow> \<forall>j \<in> set is. disk_blank (disks s3 ! j)"
    using Cons.IH [OF kept_inv [OF k2]] Cons.prems(2,3) by auto
  have "disks s3 ! i = disks s1 ! i" using r(3) [of i] Cons.prems(2) by simp
  then have "disk_blank (disks s3 ! i)" if ok using sp(3,4) that by (simp add: disk_blank_def)
  then show ?case using sp(1,5) r kept_trans [OF sp(2) kept_trans [OF k2 r(2)]] by simp
qed

lemma block_shutdown_inv:
  assumes inv: "block_inv s H"
  shows "\<exists>r s'. block_shutdown s = Some (r, s') \<and> block_inv s' H \<and> block_state.more s' = block_state.more s"
proof -
  let ?n = "unat (disk_count s)"
  have n: "?n \<le> 2" and inv: "disks_inv ?n s H" using inv by (simp_all add: block_inv_def word_le_nat_alt)
  obtain ok s1 where r: "disk_stops [0..<?n] s = Some (ok, s1)" "kept ?n H s s1"
    "\<And>j. j \<notin> {0..<?n} \<Longrightarrow> disks s1 ! j = disks s ! j" "ok \<Longrightarrow> \<forall>j < ?n. disk_blank (disks s1 ! j)"
    using disk_stops_kept [OF inv, of "[0..<?n]"] n by auto
  note k = r(2) [unfolded kept_def]
  show ?thesis
  proof (cases ok)
    case False
    then show ?thesis using r(1) k n by (simp add: block_shutdown_def block_count_def block_inv_def word_le_nat_alt)
  next
    case True
    let ?s = "s1\<lparr>disk_initialized := False, disk_count := 0\<rparr>"
    have "dma_inv ?s K = dma_inv s1 K" for K by (rule same_dma) simp_all
    moreover have "disk_blank (disks s1 ! j)" if "j < 2" for j
      using r(4) [OF True] disks_invD(3) [OF kept_inv [OF r(2)] that] by (cases "j < ?n") simp_all
    ultimately have "block_inv ?s H" using k by (simp add: block_inv_def disks_inv_def)
    then show ?thesis using r(1) k True by (simp add: block_shutdown_def block_count_def)
  qed
qed

end
