(* ===== verification/BlockSafe.thy ===== *)
theory BlockSafe
  imports BlockRun
begin

text \<open>
  Runs of the disk driver: its operations in any order and with any arguments, the interrupts of virtio
  devices, and the rest of the kernel taking pages and giving back what it was given.
\<close>

section \<open>Runs\<close>

datatype block_op = InitDisks
  | SubmitIo bool bool u64 u32 u32 u64 u32 "u8 list option" bool u32 "u64 option" u64
  | WorkerBegin u64 u32 | WorkerEnd u64 u32 "u64 \<times> u32" bool
  | CollectIo u64 driver_token bool u32 | CancelIo driver_token | LeaveQueue u32 u64
  | OtherTickets u64 | VirtioInterrupt u8 | ShutDisks | TakePages u32 | GivePage nat

text \<open>
  The list holds the pages that others were given. The worker and a waiter that gives up only name disks
  below 2: the one counts up to \<open>disk_count\<close>, the other was checked. \<open>OtherTickets\<close> are the identifiers that
  other devices take.
\<close>

definition block_exec :: "block_op \<Rightarrow> block_state \<times> u64 list \<Rightarrow> (block_state \<times> u64 list) option" where
  "block_exec x sg = (let (s, given) = sg in case x of
     InitDisks \<Rightarrow> do { s \<leftarrow> block_init s; Some (s, given) }
   | SubmitIo irqs service now index ty sector n buffer has_token owner admission deadline \<Rightarrow>
       do { (res, tok, adm, s) \<leftarrow>
              disk_submit_owned irqs service now index ty sector n buffer has_token owner admission deadline s;
            Some (s, given) }
   | WorkerBegin now i \<Rightarrow>
       if i < 2 then do { (seen, s) \<leftarrow> block_service_begin now (unat i) s; Some (s, given) } else Some (s, given)
   | WorkerEnd now i seen dead \<Rightarrow>
       if i < 2 then do { s \<leftarrow> block_service_end now (unat i) seen dead s; Some (s, given) } else Some (s, given)
   | CollectIo now token has_buffer capacity \<Rightarrow>
       do { (res, bs, s) \<leftarrow> block_collect now token has_buffer capacity s; Some (s, given) }
   | CancelIo token \<Rightarrow> do { (res, s) \<leftarrow> block_cancel token s; Some (s, given) }
   | LeaveQueue i t \<Rightarrow> Some (if i < 2 then block_cancel_waiter i t s else s, given)
   | OtherTickets n \<Rightarrow> Some (if next_ticket s \<le> n then s\<lparr>next_ticket := n\<rparr> else s, given)
   | VirtioInterrupt irq \<Rightarrow> Some (snd (virtio_irq_dispatch irq s), given)
   | ShutDisks \<Rightarrow> do { (res, s) \<leftarrow> block_shutdown s; Some (s, given) }
   | TakePages n \<Rightarrow>
       (let (s, a) = pmm_alloc_contiguous_pages s (ucast n)
        in Some (s, given @ (if a = 0 then [] else map (\<lambda>i. a + of_nat i * 4096) [0..<unat n])))
   | GivePage k \<Rightarrow>
       Some (if k < length given then (pmm_free_page s (given ! k), take k given @ drop (Suc k) given) else (s, given)))"

primrec block_run :: "block_op list \<Rightarrow> block_state \<times> u64 list \<Rightarrow> (block_state \<times> u64 list) option" where
  "block_run [] sg = Some sg"
| "block_run (x # xs) sg = do { sg \<leftarrow> block_exec x sg; block_run xs sg }"

section \<open>Steps\<close>

lemma quiet_dispatch: "quiet s (snd (virtio_irq_dispatch irq s))"
proof -
  have one: "quiet s (snd (snd (dispatch_route irq i (m, h, s))))" for i m h and s :: "'a dma_state_scheme"
  proof -
    obtain v s1 where p: "on_ports (inb (r_io (routes s ! i) + 19)) s = (v, s1)" by fastforce
    have "quiet s (s1\<lparr>routes := r, irq_stats := t\<rparr>)" for r t
      by (rule quiet_trans [OF quiet_on_ports [OF p] quiet_upd(6)])
    moreover have "quiet s (s1\<lparr>routes := r\<rparr>)" for r by (rule quiet_trans [OF quiet_on_ports [OF p] quiet_upd(2)])
    ultimately show ?thesis using p by (simp add: dispatch_route_def Let_def)
  qed
  have "quiet (snd (snd x)) (snd (snd (fold (dispatch_route irq) is x)))" for "is" and x :: "u32 \<times> u32 \<times> 'a dma_state_scheme"
  proof (induction "is" arbitrary: x)
    case Nil
    then show ?case by simp
  next
    case (Cons i "is")
    obtain m h u where x: "x = (m, h, u)" by (metis prod_cases3)
    show ?case using quiet_trans [OF one [of u i m h] Cons.IH [of "dispatch_route irq i (m, h, u)"]] by (simp add: x)
  qed
  from this [of "(0, 0, s\<lparr>irq_stats := (irq_stats s)\<lparr>vectors := vectors (irq_stats s) + 1\<rparr>\<rparr>)" "[0, 1, 2, 3]"]
  have q: "quiet s (snd (snd (fold (dispatch_route irq) [0, 1, 2, 3] (0, 0,
      s\<lparr>irq_stats := (irq_stats s)\<lparr>vectors := vectors (irq_stats s) + 1\<rparr>\<rparr>))))"
    using quiet_trans [OF quiet_upd(3)] by simp
  obtain m h u where f: "fold (dispatch_route irq) [0, 1, 2, 3] (0, 0,
      s\<lparr>irq_stats := (irq_stats s)\<lparr>vectors := vectors (irq_stats s) + 1\<rparr>\<rparr>) = (m, h, u)" by (metis prod_cases3)
  have "quiet s (u\<lparr>irq_stats := t\<rparr>)" for t using q f quiet_trans [OF _ quiet_upd(3)] by simp
  then show ?thesis unfolding virtio_irq_dispatch_def Let_def f by simp
qed

text \<open>Pages given to others are a holder without a port.\<close>

definition run_inv :: "block_state \<times> u64 list \<Rightarrow> bool" where
  "run_inv sg \<longleftrightarrow> block_inv (fst sg) {#(0, mset (snd sg))#}"

lemma kept_run: "kept (unat (disk_count s)) {#(0, mset given)#} s s' \<Longrightarrow> block_inv s {#(0, mset given)#} \<Longrightarrow> run_inv (s', given)"
  by (simp add: kept_def run_inv_def block_inv_def)

lemma others_inv:
  assumes "block_inv s {#(0, mset given)#}"
  shows "dma_inv s (add_mset (0, mset given) (mset (map disk_holder (disks s))))"
  using assms by (simp add: block_inv_def disks_inv_def)

lemma others_step:
  assumes inv: "block_inv s {#(0, mset given)#}" and m: "dma_state.more s' = dma_state.more s"
    and dma: "dma_inv s' (add_mset (0, mset g) (mset (map disk_holder (disks s))))"
  shows "run_inv (s', g)"
  using inv dma block_fields [OF m] by (simp add: run_inv_def block_inv_def disks_inv_def)

lemma take_step:
  assumes inv: "block_inv s {#(0, mset given)#}" and al: "pmm_alloc_contiguous_pages s (ucast n) = (s', a)"
  shows "run_inv (s', given @ (if a = 0 then [] else map (\<lambda>i. a + of_nat i * 4096) [0..<unat (n :: u32)]))"
proof -
  note k = contiguous_inv [OF others_inv [OF inv] al]
  show ?thesis by (rule others_step [OF inv k(3)]) (use k(1) in \<open>auto simp: block_def\<close>)
qed

lemma give_step:
  assumes inv: "block_inv s {#(0, mset given)#}" and k: "k < length given"
  shows "run_inv (pmm_free_page s (given ! k), take k given @ drop (Suc k) given)"
proof -
  let ?f = "given ! k" and ?g = "take k given @ drop (Suc k) given"
  have g: "mset given = mset ?g + mset [?f]"
    by (subst (1) id_take_nth_drop [OF k]) simp
  note o = others_inv [OF inv]
  have "(i, ?f) \<notin> set (exposed s)" for i
  proof
    assume e: "(i, ?f) \<in> set (exposed s)"
    have "i = 0" by (rule exposed_unique [OF o _ e]) (use k in simp)
    then show False using dma_invD(4) [OF o e] by simp
  qed
  then have "dma_inv (foldl pmm_free_page s [?f]) (add_mset (0, mset ?g) (mset (map disk_holder (disks s))))"
    using o by (intro frees_inv) (simp_all only: g, simp_all)
  moreover have "machine.more (pmm_free_page s ?f) = machine.more s" using more_frees [of s "[?f]"] by simp
  ultimately show ?thesis using others_step [OF inv more_dma_fields(2)] by simp
qed

lemma block_exec_inv:
  assumes "run_inv sg"
  shows "\<exists>sg'. block_exec x sg = Some sg' \<and> run_inv sg'"
proof -
  obtain s given where sg: "sg = (s, given)" by fastforce
  let ?H = "{#(0 :: u16, mset given)#}" and ?n = "unat (disk_count s)"
  have inv: "block_inv s ?H" and d: "disks_inv ?n s ?H" using assms by (simp_all add: sg run_inv_def block_inv_def)
  have i2: "unat i < 2" if "i < 2" for i :: u32 using that by (simp add: word_less_nat_alt)
  note k = kept_run [OF _ inv]
  have init: "run_inv (s', given)" if "block_inv s' ?H" for s' using that by (simp add: run_inv_def)
  show ?thesis
  proof (cases x)
    case InitDisks
    then show ?thesis using block_init_inv [OF inv] init by (auto simp: sg block_exec_def)
  next
    case (SubmitIo irqs service now index ty sector n buffer has_token owner admission deadline)
    show ?thesis
      using disk_submit_kept [OF d, of irqs service now index ty sector n buffer has_token owner admission deadline] k
      by (auto simp: SubmitIo sg block_exec_def)
  next
    case (WorkerBegin now i)
    show ?thesis
    proof (cases "i < 2")
      case True
      from block_service_begin_kept [OF d i2 [OF True], of now] show ?thesis using k True
        by (auto simp: WorkerBegin sg block_exec_def)
    qed (use assms in \<open>simp add: WorkerBegin sg block_exec_def\<close>)
  next
    case (WorkerEnd now i seen dead)
    show ?thesis
    proof (cases "i < 2")
      case True
      from block_service_end_kept [OF d i2 [OF True], of now seen dead] show ?thesis using k True
        by (auto simp: WorkerEnd sg block_exec_def)
    qed (use assms in \<open>simp add: WorkerEnd sg block_exec_def\<close>)
  next
    case (CollectIo now token has_buffer capacity)
    from block_collect_kept [OF d, of now token has_buffer capacity] show ?thesis using k
      by (auto simp: CollectIo sg block_exec_def)
  next
    case (CancelIo token)
    from block_cancel_kept [OF d, of token] show ?thesis using k by (auto simp: CancelIo sg block_exec_def)
  next
    case (LeaveQueue i t)
    show ?thesis using assms k [OF block_cancel_waiter_kept [OF d i2, of i t]]
      by (simp add: LeaveQueue sg block_exec_def)
  next
    case (OtherTickets n)
    have "dma_inv (s\<lparr>next_ticket := n\<rparr>) K = dma_inv s K" for K by (rule same_dma) simp_all
    then have "block_inv (s\<lparr>next_ticket := n\<rparr>) ?H" using inv by (simp add: block_inv_def disks_inv_def)
    then show ?thesis using inv init by (simp add: OtherTickets sg block_exec_def)
  next
    case (VirtioInterrupt irq)
    then show ?thesis using k [OF quiet_kept [OF d quiet_dispatch]] by (simp add: sg block_exec_def)
  next
    case ShutDisks
    then show ?thesis using block_shutdown_inv [OF inv] init by (auto simp: sg block_exec_def)
  next
    case (TakePages n)
    obtain s' a where a: "pmm_alloc_contiguous_pages s (ucast n) = (s', a)" by fastforce
    show ?thesis using take_step [OF inv a] by (simp add: TakePages sg block_exec_def a)
  next
    case (GivePage m)
    show ?thesis using give_step [OF inv, of m] assms by (simp add: GivePage sg block_exec_def)
  qed
qed

lemma block_run_inv: "run_inv sg \<Longrightarrow> \<exists>sg'. block_run ops sg = Some sg' \<and> run_inv sg'"
proof (induction ops arbitrary: sg)
  case Nil
  then show ?case by simp
next
  case (Cons x ops)
  obtain sg1 where x: "block_exec x sg = Some sg1" "run_inv sg1" using block_exec_inv [OF Cons.prems] by blast
  then show ?case using Cons.IH [OF x(2)] by simp
qed

lemma run_inv_safe:
  assumes "run_inv (s, given)"
  shows "list_all (\<lambda>(io, f). f \<notin> set given \<and> 0 < frame_refs s f) (exposed s)"
proof -
  have o: "dma_inv s (add_mset (0, mset given) (mset (map disk_holder (disks s))))"
    by (rule others_inv) (use assms in \<open>simp add: run_inv_def\<close>)
  have "f \<notin> set given \<and> 0 < frame_refs s f" if e: "(io, f) \<in> set (exposed s)" for io f
  proof
    show "f \<notin> set given"
    proof
      assume "f \<in> set given"
      then have "io = 0" by (intro exposed_unique [OF o _ e]) simp
      then show False using dma_invD(4) [OF o e] by simp
    qed
    show "0 < frame_refs s f" by (rule dma_invD(3) [OF o exposed_held [OF o e]])
  qed
  then show ?thesis by (auto simp: list_all_iff)
qed

section \<open>Safety\<close>

definition no_request :: io_request where
  "no_request = \<lparr>rid = 0, started = 0, bytes = 0, operation = 0, owner_pid = 0, pending = False, result = 0, waiters = []\<rparr>"

lemma fresh_run:
  assumes "pmm_inv s" and "disks s = [no_disk, no_disk]" and "disk_requests s = [no_request, no_request]"
    and "disk_count s = 0" and "exposed s = []"
  shows "run_inv (s, [])"
proof -
  have "disk_ok no_disk no_request" "disk_frames no_disk = {#}" "disk_holder no_disk = (0, {#})" "disk_blank no_disk"
    by (simp_all add: disk_ok_def disk_sound_def disk_blank_def disk_holder_def disk_frames_def no_request_def no_disk_def block_def)
  then show ?thesis using assms
    by (simp add: run_inv_def block_inv_def disks_inv_def dma_inv_def less_2_cases_iff all_conj_distrib)
qed

text \<open>
  C8: Whatever the disks put in their memory and answer at their ports, and in whatever order requests,
  completions, cancellations, deaths of owners, interrupts, initialisation and shutdown come, the disk
  driver never traps and never touches memory outside the frames it allocated; and no page that a device
  was told of and may still use, because it has not acknowledged a reset, is ever free or given to
  anybody else, while the rest of the kernel allocates and frees as it likes.
\<close>

theorem block_driver_safe:
  assumes "pmm_inv s" and "disks s = [no_disk, no_disk]" and "disk_requests s = [no_request, no_request]"
    and "disk_count s = 0" and "exposed s = []"
  shows "\<exists>t given. block_run ops (s, []) = Some (t, given) \<and>
    list_all (\<lambda>(io, f). f \<notin> set given \<and> 0 < frame_refs t f) (exposed t)"
proof -
  obtain t given where "block_run ops (s, []) = Some (t, given)" "run_inv (t, given)"
    using block_run_inv [OF fresh_run [OF assms]] by (metis surj_pair)
  then show ?thesis using run_inv_safe by blast
qed

text \<open>A machine of eight pages with one disk: a write that the disk completes with the status 0.\<close>

definition disk_card :: pci_device where
  "disk_card = \<lparr>pd_vendor = 0x1af4, pd_device = 0x1001, pd_bus = 0, pd_slot = 4, pd_function = 0, pd_class = 1,
     pd_subclass = 0, pd_prog_if = 0, pd_irq = 11, pd_header = 0, pd_bar = [0xc001, 0, 0, 0, 0, 0]\<rparr>"

definition card_ports :: pci_state where
  "card_ports = \<lparr>answers = \<lambda>n port. if port = 0xc00c then 4 else if port = 0xc014 then 64 else 0, reads = 0,
     written = [], spurious7 = 0, spurious15 = 0, pci_devices = [disk_card]\<rparr>"

definition disk_machine :: block_state where
  "disk_machine = \<lparr>bitmap = [0x03], refcounts = [UINT32_MAX, UINT32_MAX, 0, 0, 0, 0, 0, 0], total_pages = 8,
     free_pages = 6, last_alloc_index = 0, highest_address = 0x8000, hhdm_offset = 0,
     mem = \<lambda>a. 0, kernel_pml4 = 0, cr3 = 0, active_cr3 = 0, tlb_log = [],
     ports = card_ports, routes = replicate 4 no_route,
     irq_stats = \<lparr>vectors = 0, claimed = 0, shared = 0, unclaimed = 0, queue_events = 0, config_events = 0, registered = 0\<rparr>,
     dma_answers = \<lambda>n a. if a = 0x3002 then 1 else 0, dma_reads = 0, exposed = [], next_ticket = 0,
     disks = [no_disk, no_disk], disk_requests = [no_request, no_request], disk_count = 0, disk_initialized = False\<rparr>"

definition disk_story :: "block_op list" where
  "disk_story = [InitDisks, TakePages 1, SubmitIo True True 7 0 1 5 1 (Some (replicate 512 0xab)) True 0 None 0,
     VirtioInterrupt 11, GivePage 0, WorkerBegin 8 0, CollectIo 9 \<lparr>tok_id = 1, tok_device = 0\<rparr> False 0, ShutDisks]"

lemma disk_machine_inv: "pmm_inv disk_machine"
proof -
  have "bitmap_test p [0x03] \<longleftrightarrow> [UINT32_MAX, UINT32_MAX, 0, 0, 0, 0, 0, 0] ! p \<noteq> 0" if "p < 8" for p
  proof -
    have "p \<in> {0, 1, 2, 3, 4, 5, 6, 7}" using that by auto
    then show ?thesis by (auto simp: bitmap_test_def)
  qed
  then show ?thesis by (simp add: pmm_inv_def disk_machine_def)
qed

lemma block_driver_safe_witness:
  "\<exists>t given. block_run disk_story (disk_machine, []) = Some (t, given) \<and>
    list_all (\<lambda>(io, f). f \<notin> set given \<and> 0 < frame_refs t f) (exposed t)"
  by (rule block_driver_safe [OF disk_machine_inv]) (simp_all add: disk_machine_def)

end
