(* ===== verification/BlockSubmit.thy ===== *)
theory BlockSubmit
  imports BlockSafe
begin

text \<open>
  What a disk finds when a request was accepted: the device follows the chain of descriptors from the
  last entry of the available ring, decodes the header and sees the data, the way the virtio
  specification has it.
\<close>

section \<open>The device's view\<close>

text \<open>The buffers of a chain: address, length and whether the device writes them; \<open>n\<close> bounds the walk.\<close>

primrec chain_buffers :: "nat \<Rightarrow> virtio_desc list \<Rightarrow> nat \<Rightarrow> (u64 \<times> u32 \<times> bool) list" where
  "chain_buffers 0 ds k = []"
| "chain_buffers (Suc n) ds k =
     (let d = ds ! k
      in (d_address d, d_length d, d_flags d AND 2 \<noteq> 0) #
         (if d_flags d AND 1 \<noteq> 0 then chain_buffers n ds (unat (d_next d)) else []))"

definition bytes_at :: "'a machine_scheme \<Rightarrow> u64 \<Rightarrow> nat \<Rightarrow> u8 list" where
  "bytes_at s a n = map (\<lambda>k. mem s (a + hhdm_offset s + of_nat k)) [0..<n]"

definition le_value :: "u8 list \<Rightarrow> nat" where
  "le_value bs = foldr (\<lambda>b v. unat b + 256 * v) bs 0"

text \<open>Type, sector, the bytes the device is to store, and how many it is to fill in.\<close>

definition device_request :: "'a machine_scheme \<Rightarrow> virtio_queue \<Rightarrow> (nat \<times> nat \<times> u8 list \<times> nat) option" where
  "device_request s q =
     (let bs = chain_buffers (unat (q_size q)) (q_descriptors q)
                 (unat (q_avail_ring q ! (unat (q_avail_idx q - 1) mod unat (q_size q))));
          outs = concat (map (\<lambda>(a, n, w). if w then [] else bytes_at s a (unat n)) bs);
          ins = sum_list (map (\<lambda>(a, n, w). if w then unat n else 0) bs)
      in if length outs < 16 \<or> ins = 0 then None
         else Some (le_value (take 4 outs), le_value (take 8 (drop 8 outs)), drop 16 outs, ins - 1))"

section \<open>Bytes\<close>

definition put_bytes :: "u64 \<Rightarrow> u8 list \<Rightarrow> (u64 \<Rightarrow> u8) \<Rightarrow> u64 \<Rightarrow> u8" where
  "put_bytes a bs m = fold (\<lambda>k m. m(a + of_nat k := bs ! k)) [0..<length bs] m"

lemma put_bytes_at:
  assumes "length bs \<le> 2 ^ 63"
  shows "put_bytes a bs m x = (if unat (x - a) < length bs then bs ! unat (x - a) else m x)"
proof -
  have "n \<le> 2 ^ 63 \<Longrightarrow> fold (\<lambda>k m. m(a + of_nat k := bs ! k)) [0..<n] m x =
    (if unat (x - a) < n then bs ! unat (x - a) else m x)" for n
  proof (induction n)
    case 0
    then show ?case by simp
  next
    case (Suc n)
    have n: "n < 2 ^ 64" using Suc.prems by simp
    have "x = a + of_nat n \<longleftrightarrow> unat (x - a) = n"
    proof
      assume "x = a + of_nat n"
      then show "unat (x - a) = n" using n by (simp add: unat_of_nat take_bit_eq_mod)
    next
      assume "unat (x - a) = n"
      then have "of_nat n = x - a" by (simp add: word_unat_eq_iff unat_of_nat take_bit_eq_mod flip: \<open>unat (x - a) = n\<close>)
      then show "x = a + of_nat n" by simp
    qed
    then show ?case using Suc by (auto simp: less_Suc_eq)
  qed
  from this [OF assms] show ?thesis by (simp add: put_bytes_def)
qed

lemma put_bytes_off:
  assumes "length bs \<le> 8192" "j \<le> 8192" "k \<le> 8192"
  shows "put_bytes (b + of_nat j) bs m (b + of_nat k) =
    (if j \<le> k \<and> k < j + length bs then bs ! (k - j) else m (b + of_nat k))"
proof -
  have len: "length bs \<le> 2 ^ 63" using assms(1) by simp
  note at = put_bytes_at [OF len, of "b + of_nat j" m "b + of_nat k"]
  show ?thesis
  proof (cases "j \<le> k")
    case True
    then have "(b + of_nat k) - (b + of_nat j) = (of_nat (k - j) :: u64)" by (simp add: of_nat_diff)
    then have "unat ((b + of_nat k) - (b + of_nat j)) = k - j"
      using assms(3) by (simp add: unat_of_nat take_bit_eq_mod)
    then show ?thesis using at True by (simp only:) auto
  next
    case False
    then have e: "(b + of_nat k) - (b + of_nat j) = - (of_nat (j - k) :: u64)" by (simp add: of_nat_diff)
    have "- (of_nat (j - k) :: u64) = of_nat (2 ^ 64 - (j - k))"
    proof -
      have "(of_nat (2 ^ 64 - (j - k)) :: u64) + of_nat (j - k) = of_nat (2 ^ 64)"
        using assms(2) by (simp only: of_nat_add [symmetric]) simp
      also have "(of_nat (2 ^ 64) :: u64) = 0" by simp
      finally show ?thesis by (metis add_eq_0_iff2 minus_minus)
    qed
    moreover have "2 ^ 64 - (j - k) < 2 ^ LENGTH(64)" using False by simp
    ultimately have "unat ((b + of_nat k) - (b + of_nat j)) = 2 ^ 64 - (j - k)"
      unfolding e by (simp only: unat_of_nat take_bit_eq_mod mod_less)
    moreover have "\<not> (2 :: nat) ^ 64 - (j - k) < length bs"
    proof -
      have "(2 :: nat) ^ 64 = 18446744073709551616" by simp
      then show ?thesis using assms(1,2) by linarith
    qed
    ultimately show ?thesis using at False by (simp only:) simp
  qed
qed

lemma write_mem:
  "dma_write a bs s = Some s' \<Longrightarrow> s' = s\<lparr>mem := put_bytes (a + hhdm_offset s) bs (mem s)\<rparr>"
  by (simp add: dma_write_def put_bytes_def split: if_splits)

lemma le_value_bytes: "le_value (le_bytes n v) = unat v mod 2 ^ (8 * n)"
proof (induction n arbitrary: v)
  case 0
  then show ?case by (simp add: le_value_def le_bytes_def)
next
  case (Suc n)
  have e: "le_bytes (Suc n) v = ucast v # le_bytes n (drop_bit 8 v)"
    by (simp add: le_bytes_def upt_conv_Cons map_Suc_upt [symmetric] drop_bit_drop_bit add.commute del: upt_Suc)
  have "unat (ucast v :: u8) = unat v mod 256" by (simp add: unsigned_ucast_eq take_bit_eq_mod)
  moreover have "unat (drop_bit 8 v) = unat v div 256" by (simp add: drop_bit_eq_div unat_div)
  moreover have "unat v mod (256 * 2 ^ (8 * n)) = 256 * (unat v div 256 mod 2 ^ (8 * n)) + unat v mod 256"
    by (rule mod_mult2_eq)
  moreover have "256 * 2 ^ (8 * n) = (2 :: nat) ^ (8 * Suc n)" by (simp add: power_add)
  ultimately show ?case using Suc [of "drop_bit 8 v"] unfolding e le_value_def by simp
qed

section \<open>What a start leaves\<close>

lemma memory_keeps [simp]:
  "mem (expose io a k s) = mem s" "hhdm_offset (expose io a k s) = hhdm_offset s"
  "mem (virtio_notify dev j s) = mem s" "hhdm_offset (virtio_notify dev j s) = hhdm_offset s"
  "mem (put_disk i d s) = mem s" "hhdm_offset (put_disk i d s) = hhdm_offset s"
  "mem (put_disk_world i w s) = mem s" "hhdm_offset (put_disk_world i w s) = hhdm_offset s"
  by (simp_all add: expose_def virtio_notify_def to_ports_def put_disk_def put_disk_world_def)

definition start_header :: "u32 \<Rightarrow> u64 \<Rightarrow> u8 list" where
  "start_header ty sector = le_bytes 4 (ucast ty) @ le_bytes 4 0 @ le_bytes 8 sector"

lemma disk_start_effect:
  fixes n :: u32
  assumes r: "disk_start i ty sector n buffer s = Some t" and i: "i < length (disks s)" "i < length (disk_requests s)"
  defines "d \<equiv> disks s ! i"
  defines "p \<equiv> b_physical d" and "Q \<equiv> v_queues (transport d) ! 0" and "h \<equiv> hhdm_offset s"
  obtains q where
    "mem t = (if ty = 1 then put_bytes (p + 4096 + h) (take (unat (n * BLOCK_SECTOR_SIZE)) buffer) else (\<lambda>m. m))
       (put_bytes (p + 16 + h) [0xff] (put_bytes (p + h) (start_header ty sector) (mem s)))"
    and "hhdm_offset t = h"
    and "virtio_submit (Q\<lparr>q_descriptors := (q_descriptors Q)[0 := disk_chain p ty n ! 0, 1 := disk_chain p ty n ! 1,
       2 := disk_chain p ty n ! 2]\<rparr>) 0 = Some q"
    and "transport (disks t ! i) = set_queue 0 q (transport d)"
    and "b_physical (disks t ! i) = p" and "bi_sectors (binfo (disks t ! i)) = bi_sectors (binfo d)"
    and "bi_read_only (binfo (disks t ! i)) = bi_read_only (binfo d)" and "bi_can_flush (binfo (disks t ! i)) = bi_can_flush (binfo d)"
    and "bi_online (binfo (disks t ! i)) = bi_online (binfo d)"
    and "pending (disk_requests t ! i) = pending (disk_requests s ! i)" and "rid (disk_requests t ! i) = rid (disk_requests s ! i)"
    and "operation (disk_requests t ! i) = ty" and "bytes (disk_requests t ! i) = n * BLOCK_SECTOR_SIZE"
proof -
  let ?w = "(disk_world i s)\<lparr>operation := ty, bytes := n * BLOCK_SECTOR_SIZE\<rparr>"
  let ?s0 = "put_disk_world i ?w s"
  have d0: "disks ?s0 ! i = d" by (simp add: d_def)
  note u = r [unfolded disk_start_def Let_def d0, folded p_def start_header_def Q_def]
  obtain s1 where w1: "dma_write p (start_header ty sector) ?s0 = Some s1"
    using u by (auto simp: bind_eq_Some_conv)
  obtain s2 where w2: "dma_write (p + 16) [0xff] s1 = Some s2" using u w1 by (auto simp: bind_eq_Some_conv)
  obtain s3 where w3: "(if ty = 1 then dma_write (p + 4096) (take (unat (n * BLOCK_SECTOR_SIZE)) buffer) s2 else Some s2) = Some s3"
    using u w1 w2 by (auto simp: bind_eq_Some_conv split: if_splits)
  let ?q = "Q\<lparr>q_descriptors := (q_descriptors Q)[0 := disk_chain p ty n ! 0, 1 := disk_chain p ty n ! 1, 2 := disk_chain p ty n ! 2]\<rparr>"
  obtain s4 where f: "fold (\<lambda>k. put_descriptor (v_io (transport d)) k (disk_chain p ty n ! k)) [0, 1, 2] (Q, s3) = (?q, s4)"
    and e4: "mem s4 = mem s3" "hhdm_offset s4 = hhdm_offset s3" "dma_state.more s4 = dma_state.more s3"
    by (simp add: put_descriptor_def)
  obtain q where sub: "virtio_submit ?q 0 = Some q" using u w1 w2 w3 f by (auto simp: bind_eq_Some_conv)
  let ?d = "d\<lparr>transport := set_queue 0 q (transport d), binfo := (binfo d)\<lparr>bi_requests := bi_requests (binfo d) + 1\<rparr>\<rparr>"
  have t: "t = put_disk i ?d (virtio_notify (transport d) 0 s4)" using u w1 w2 w3 f sub by simp
  have e1: "mem s1 = put_bytes (p + h) (start_header ty sector) (mem s)" "hhdm_offset s1 = h"
    "dma_state.more s1 = dma_state.more ?s0" using write_mem [OF w1] by (simp_all add: h_def)
  have e2: "mem s2 = put_bytes (p + 16 + h) [0xff] (mem s1)" "hhdm_offset s2 = h" "dma_state.more s2 = dma_state.more ?s0"
    using write_mem [OF w2] e1 by simp_all
  have e3: "mem s3 = (if ty = 1 then put_bytes (p + 4096 + h) (take (unat (n * BLOCK_SECTOR_SIZE)) buffer) else (\<lambda>m. m)) (mem s2)
      \<and> hhdm_offset s3 = h \<and> dma_state.more s3 = dma_state.more ?s0"
  proof (cases "ty = 1")
    case True
    then have "dma_write (p + 4096) (take (unat (n * BLOCK_SECTOR_SIZE)) buffer) s2 = Some s3" using w3 by simp
    from write_mem [OF this] show ?thesis using True e2 by simp
  qed (use w3 e2 in simp)
  have m: "dma_state.more (virtio_notify (transport d) 0 s4) = dma_state.more ?s0"
    using e3 e4 by (simp add: virtio_notify_def to_ports_def)
  note b = block_fields [OF m]
  have at: "disks t ! i = ?d" "disk_requests t ! i = request_of ?w" using b i by (simp_all add: t)
  show thesis
    by (rule that [of q]) (use e1 e2 e3 e4 sub at in \<open>simp_all add: t p_def [symmetric]\<close>)
qed

lemma start_header_values:
  "length (start_header ty sector) = 16" "le_value (take 4 (start_header ty sector)) = unat ty"
  "le_value (take 8 (drop 8 (start_header ty sector))) = unat sector"
proof -
  have "unat ty < 2 ^ 32" "unat sector < 2 ^ 64" using unsigned_less [of ty, where ?'a = nat] unsigned_less [of sector, where ?'a = nat] by simp_all
  then have "unat (ucast ty :: u64) mod 2 ^ 32 = unat ty" "unat sector mod 2 ^ 64 = unat sector"
    by (simp_all add: unsigned_ucast_eq take_bit_eq_mod)
  then show "length (start_header ty sector) = 16" "le_value (take 4 (start_header ty sector)) = unat ty"
    "le_value (take 8 (drop 8 (start_header ty sector))) = unat sector"
    by (simp_all add: start_header_def le_value_bytes)
qed

lemma start_bytes:
  fixes n :: u32
  assumes m: "mem t = (if ty = 1 then put_bytes (p + 4096 + h) D else (\<lambda>m. m))
      (put_bytes (p + 16 + h) [0xff] (put_bytes (p + h) (start_header ty sector) m0))" and h: "hhdm_offset t = h"
    and D: "length D = k" "k \<le> 4096"
  shows "bytes_at t p 16 = start_header ty sector" and "ty = 1 \<Longrightarrow> bytes_at t (p + 4096) k = D"
proof -
  let ?b = "p + h"
  let ?m1 = "put_bytes (p + h) (start_header ty sector) m0"
  let ?m2 = "put_bytes (p + 16 + h) [0xff] ?m1"
  note len = start_header_values(1) [of ty sector]
  have b: "p + h = ?b + of_nat 0" "p + 16 + h = ?b + of_nat 16" "p + 4096 + h = ?b + of_nat 4096" by simp_all
  have m1: "?m1 (?b + of_nat j) = start_header ty sector ! j" if "j < 16" for j
    using put_bytes_off [of "start_header ty sector" 0 j ?b m0] len that by simp
  have m2: "?m2 (?b + of_nat j) = start_header ty sector ! j" if "j < 16" for j
    using put_bytes_off [of "[0xff]" 16 j ?b ?m1] m1 [OF that] that unfolding b(2) by simp
  have mt: "mem t (?b + of_nat j) = start_header ty sector ! j" if "j < 16" for j
    using put_bytes_off [of D 4096 j ?b ?m2] m2 [OF that] that D unfolding m b(3)
    by (cases "ty = 1") (simp_all add: add.commute add.left_commute)
  show "bytes_at t p 16 = start_header ty sector"
    by (rule nth_equalityI) (use mt len in \<open>simp_all add: bytes_at_def h\<close>)
  have md: "mem t (?b + of_nat (4096 + j)) = D ! j" if "ty = 1" "j < k" for j
    using put_bytes_off [of D 4096 "4096 + j" ?b ?m2] that D unfolding m b(3) by simp
  have "p + 4096 + h + of_nat j = ?b + of_nat (4096 + j)" for j by simp
  then show "bytes_at t (p + 4096) k = D" if "ty = 1"
    by (intro nth_equalityI) (use md [OF that] D in \<open>simp_all add: bytes_at_def h algebra_simps\<close>)
qed

lemma device_view:
  fixes n :: u32
  assumes sub: "virtio_submit (Q\<lparr>q_descriptors := (q_descriptors Q)[0 := disk_chain p ty n ! 0, 1 := disk_chain p ty n ! 1,
       2 := disk_chain p ty n ! 2]\<rparr>) 0 = Some q"
    and len: "length (q_descriptors Q) = unat (q_size Q)" "length (q_avail_ring Q) = unat (q_size Q)" "4 \<le> q_size Q"
    and ty: "ty = 0 \<or> ty = 1 \<or> ty = 4" and n: "n \<le> 8" "ty = 4 \<Longrightarrow> n = 0"
    and hd: "bytes_at t p 16 = start_header ty sector" and D: "ty = 1 \<Longrightarrow> bytes_at t (p + 4096) (unat n * 512) = D"
  shows "device_request t q = Some (unat ty, unat sector, if ty = 1 then D else [], if ty = 0 then unat n * 512 else 0)"
proof -
  obtain m where sz: "unat (q_size Q) = Suc (Suc (Suc (Suc m)))"
  proof -
    have "4 \<le> unat (q_size Q)" using len(3) by (simp add: word_le_nat_alt)
    then obtain m where "unat (q_size Q) = 4 + m" using le_Suc_ex by blast
    then show thesis using that by simp
  qed
  have bytes: "unat (n * 512) = unat n * 512"
  proof -
    have "unat n \<le> 8" using n(1) by (simp add: word_le_nat_alt)
    then have "unat n * unat (512 :: u32) < 2 ^ LENGTH(32)" by simp
    then show ?thesis using unat_mult_lem [of n 512] by simp
  qed
  let ?c = "disk_chain p ty n"
  have q: "q_size q = q_size Q" "q_descriptors q = (q_descriptors Q)[0 := ?c ! 0, 1 := ?c ! 1, 2 := ?c ! 2]"
    "q_avail_idx q = q_available Q + 1" "q_avail_ring q = (q_avail_ring Q)[unat (q_available Q mod q_size Q) := 0]"
    using sub by (auto simp: virtio_submit_def split: if_splits)
  have hd0: "q_avail_ring q ! (unat (q_avail_idx q - 1) mod unat (q_size q)) = 0"
  proof -
    have "unat (q_available Q mod q_size Q) < length (q_avail_ring Q)" unfolding unat_mod using len(2) sz by (metis mod_less_divisor zero_less_Suc)
    moreover have "unat (q_avail_idx q - 1) mod unat (q_size q) = unat (q_available Q mod q_size Q)"
      by (simp add: q unat_mod)
    ultimately show ?thesis by (simp only: q(4) nth_list_update_eq)
  qed
  have ds: "q_descriptors q ! 0 = ?c ! 0" "q_descriptors q ! 1 = ?c ! 1" "q_descriptors q ! 2 = ?c ! 2"
    using len(1) sz by (simp_all add: q)
  have ch: "chain_buffers (unat (q_size q)) (q_descriptors q) 0 =
    (p, 16, False) # (if ty = 4 then [] else [(p + 4096, n * 512, ty = 0)]) @ [(p + 16, 1, True)]"
    using ty by (auto simp: q(1) sz ds disk_chain_def ds [unfolded One_nat_def])
  note v = start_header_values [of ty sector]
  show ?thesis
    using ty n(2) v by (auto simp: device_request_def hd0 ch hd D bytes Let_def)
qed

section \<open>Accepted requests\<close>

text \<open>
  C17: An accepted request is what the disk sees. When \<^verbatim>\<open>submit_owned\<close> answers OK, the request was admissible
  (a known type, one to eight sectors within the disk, no write to a read-only disk, a flush only where
  the disk can), it is pending under the identifier the caller got, and a device that follows the chain
  at the newest entry of the ring decodes exactly this request: the type, the sector, for a write the
  first \<open>n\<close> sectors of the caller's buffer, and for a read room for \<open>n\<close> sectors.
\<close>

theorem block_submit_correct:
  fixes n :: u32
  assumes inv: "block_inv s H"
    and r: "disk_submit_owned irqs service now index ty sector n buffer has_token owner admission deadline s =
      Some (DRIVER_OK, tok, adm, t)"
    and buf: "ty = BLOCK_WRITE \<Longrightarrow> unat n * 512 \<le> length (the buffer)"
  defines "d \<equiv> disks t ! unat index" and "q \<equiv> disk_requests t ! unat index"
  shows "tok = Some \<lparr>tok_id = rid q, tok_device = index\<rparr> \<and> pending q \<and> bi_online (binfo d) \<and>
    (ty \<noteq> BLOCK_FLUSH \<longrightarrow> 1 \<le> unat n \<and> unat n \<le> 8 \<and> unat sector + unat n \<le> unat (bi_sectors (binfo d))) \<and>
    (ty = BLOCK_WRITE \<longrightarrow> \<not> bi_read_only (binfo d)) \<and> (ty = BLOCK_FLUSH \<longrightarrow> bi_can_flush (binfo d)) \<and>
    device_request t (v_queues (transport d) ! 0) = Some (unat ty, unat sector,
      if ty = BLOCK_WRITE then take (unat n * 512) (the buffer) else [], if ty = BLOCK_READ then unat n * 512 else 0)"
proof -
  let ?i = "unat index"
  have pre: "irqs" "index < 2" "has_token" "ty = 0 \<or> ty = 1 \<or> ty = 4"
    using r by (auto simp: disk_submit_owned_def not_le split: if_splits)
  have i: "?i < 2" using pre(2) by (simp add: word_less_nat_alt)
  have inv: "disks_inv (unat (disk_count s)) s H" using inv by (simp add: block_inv_def)
  obtain s1 where ck: "disk_check ?i s = Some s1" and k: "kept (unat (disk_count s)) H s s1" by (rule disk_check_kept [OF inv i])
  note inv1 = kept_inv [OF k]
  note e = disks_invD [OF inv1 i]
  let ?f = "binfo (disks s1 ! ?i)" and ?d = "disks s1 ! ?i"
  let ?bytes = "case buffer of None \<Rightarrow> [] | Some b \<Rightarrow> b"
  obtain res tk ad w where b: "io_request_begin_owned now index has_token owner admission deadline (disk_world ?i s1) =
    (res, tk, ad, w)" by (metis prod_cases4)
  have g: "\<not> (\<not> irqs \<or> index \<ge> 2 \<or> \<not> has_token \<or> (ty \<noteq> 0 \<and> ty \<noteq> 1 \<and> ty \<noteq> 4) \<or> index \<ge> block_count s)"
    using r by (auto simp: disk_submit_owned_def split: if_splits)
  note u = r [unfolded disk_submit_steps [OF g ck b]]
  have ok: "bi_online ?f" "ty \<noteq> 4 \<Longrightarrow> n \<noteq> 0 \<and> n \<le> 8 \<and> sector < bi_sectors ?f \<and> ucast n \<le> bi_sectors ?f - sector"
    "ty = 4 \<Longrightarrow> n = 0" "ty = 1 \<Longrightarrow> \<not> bi_read_only ?f \<and> buffer \<noteq> None" "ty = 4 \<Longrightarrow> bi_can_flush ?f" "res = 0" "tok = tk"
    and st: "disk_start ?i ty sector n ?bytes (put_disk_world ?i w s1) = Some t"
    using u by (auto simp: bind_eq_Some_conv not_le not_less split: if_splits)
  note be = begin_effect [OF b]
  let ?p = "b_physical ?d" and ?Q = "v_queues (transport ?d) ! 0"
  have on: "q_physical ?Q \<noteq> 0" "transport_ok (transport ?d)" using e(2) ok(1) by (simp_all add: disk_ok_def disk_sound_def)
  have io: "v_io (transport ?d) \<noteq> 0" using on by (auto simp: transport_ok_def)
  have len: "length (q_descriptors ?Q) = unat (q_size ?Q)" "length (q_avail_ring ?Q) = unat (q_size ?Q)" "4 \<le> q_size ?Q"
    using on by (simp_all add: transport_ok_def queue_ok_def)
  have n8: "n \<le> 8" using ok(2,3) by (cases "ty = 4") simp_all
  have n512: "unat (n * 512) = unat n * 512"
  proof -
    have "unat n \<le> 8" using n8 by (simp add: word_le_nat_alt)
    then have "unat n * unat (512 :: u32) < 2 ^ LENGTH(32)" by simp
    then show ?thesis using unat_mult_lem [of n 512] by simp
  qed
  let ?D = "take (unat (n * BLOCK_SECTOR_SIZE)) ?bytes"
  let ?h = "hhdm_offset (put_disk_world ?i w s1)"
  obtain Q' where m: "mem t = (if ty = 1 then put_bytes (?p + 4096 + ?h) ?D else (\<lambda>m. m))
       (put_bytes (?p + 16 + ?h) [0xff] (put_bytes (?p + ?h) (start_header ty sector) (mem (put_disk_world ?i w s1))))"
    and h: "hhdm_offset t = ?h"
    and sub: "virtio_submit (?Q\<lparr>q_descriptors := (q_descriptors ?Q)[0 := disk_chain ?p ty n ! 0, 1 := disk_chain ?p ty n ! 1,
       2 := disk_chain ?p ty n ! 2]\<rparr>) 0 = Some Q'"
    and tr: "transport (disks t ! ?i) = set_queue 0 Q' (transport ?d)"
    and fl: "bi_sectors (binfo (disks t ! ?i)) = bi_sectors ?f" "bi_read_only (binfo (disks t ! ?i)) = bi_read_only ?f"
      "bi_can_flush (binfo (disks t ! ?i)) = bi_can_flush ?f" "bi_online (binfo (disks t ! ?i)) = bi_online ?f"
      "pending (disk_requests t ! ?i) = pending w" "rid (disk_requests t ! ?i) = rid w"
    by (rule disk_start_effect [OF st]) (use e(4,5) i in simp_all)
  have q0: "v_queues (transport (disks t ! ?i)) ! 0 = Q'"
    using on(2) by (simp add: tr set_queue_def transport_ok_def)
  have "length ?D \<le> 4096" using n8 n512 by (simp add: word_le_nat_alt)
  note sb = start_bytes [OF m h refl this]
  have data: "?D = take (unat n * 512) (the buffer)" "length ?D = unat n * 512" if "ty = 1"
    using buf that ok(4) n512 by auto
  have view: "device_request t Q' = Some (unat ty, unat sector, if ty = 1 then ?D else [], if ty = 0 then unat n * 512 else 0)"
    by (rule device_view [OF sub len pre(4) n8 ok(3) sb(1)]) (use sb(2) data in simp_all)
  have range: "1 \<le> unat n \<and> unat n \<le> 8 \<and> unat sector + unat n \<le> unat (bi_sectors ?f)" if "ty \<noteq> 4"
  proof -
    have "unat n < 2 ^ 64" using unsigned_less [of n, where ?'a = nat] by simp
    then have "unat (ucast n :: u64) = unat n" by (simp add: unsigned_ucast_eq take_bit_eq_mod)
    moreover have "unat (bi_sectors ?f - sector) = unat (bi_sectors ?f) - unat sector"
      using ok(2) [OF that] by (intro unat_sub order.strict_implies_order) simp
    moreover have "unat sector < unat (bi_sectors ?f)" using ok(2) [OF that] by (simp add: word_less_nat_alt)
    moreover have "unat n \<noteq> 0" using ok(2) [OF that] by (simp add: word_unat_eq_iff)
    ultimately show ?thesis using ok(2) [OF that] by (auto simp: word_le_nat_alt)
  qed
  show ?thesis
    using ok be(3,5) fl view q0 range data by (auto simp: d_def q_def)
qed

text \<open>A machine whose disk is online, and a write of one sector.\<close>

definition online_disk :: block_device where
  "online_disk = no_disk\<lparr>transport := no_virtio\<lparr>v_pci := disk_card, v_io := 0xc000, v_ready := True,
     v_queues := [new_queue 0x2000 2 0 4, no_queue]\<rparr>, b_physical := 0x4000,
     binfo := (binfo no_disk)\<lparr>bi_sectors := 64, bi_online := True\<rparr>\<rparr>"

definition online_machine :: block_state where
  "online_machine = disk_machine\<lparr>bitmap := [0x3f], refcounts := [UINT32_MAX, UINT32_MAX, 1, 1, 1, 1, 0, 0], free_pages := 2,
     disks := [online_disk, no_disk], disk_count := 1, disk_initialized := True\<rparr>"

lemma online_frames: "disk_frames online_disk = {#0x2000, 0x3000, 0x4000, 0x5000#}" "disk_frames no_disk = {#}"
  by (simp_all add: disk_frames_def online_disk_def no_disk_def transport_frames_def queue_frames_def new_queue_def
      no_queue_def block_def no_virtio_def upt_conv_Cons)

lemma online_machine_inv: "block_inv online_machine {#}"
proof -
  have bits: "bitmap_test p [0x3f] \<longleftrightarrow> [UINT32_MAX, UINT32_MAX, 1, 1, 1, 1, 0, 0] ! p \<noteq> 0" if "p < 8" for p
  proof -
    have "p \<in> {0, 1, 2, 3, 4, 5, 6, 7}" using that by auto
    then show ?thesis by (auto simp: bitmap_test_def)
  qed
  then have pm: "pmm_inv online_machine" by (simp add: pmm_inv_def online_machine_def disk_machine_def)
  have refs: "0 < frame_refs online_machine f" if "f \<in># {#0x2000, 0x3000, 0x4000, 0x5000#}" for f
  proof -
    have "f \<in> page_addr ` {2, 3, 4, 5}" using that by (auto simp: page_addr_def)
    moreover have "0 < frame_refs online_machine (page_addr p)" if "p \<in> {2, 3, 4, 5}" for p
    proof -
      have "p < total_pages online_machine" using that by (auto simp: online_machine_def disk_machine_def)
      moreover have "p \<noteq> 0 \<and> refcounts online_machine ! p \<noteq> 0 \<and> refcounts online_machine ! p \<noteq> UINT32_MAX"
        using that by (auto simp: online_machine_def)
      ultimately show ?thesis using frame_refs_pos [OF pm] allocated_page_addr [OF pm] by simp
    qed
    ultimately show ?thesis by blast
  qed
  have once: "count {#0x2000, 0x3000, 0x4000, 0x5000#} f \<le> 1" for f :: u64
  proof -
    have "distinct [0x2000, 0x3000, 0x4000, 0x5000 :: u64]" by simp
    then have "count (mset [0x2000, 0x3000, 0x4000, 0x5000]) f \<le> 1" by (simp only: distinct_count_atmost_1) simp
    then show ?thesis by simp
  qed
  have h: "held (mset (map disk_holder [online_disk, no_disk])) = {#0x2000, 0x3000, 0x4000, 0x5000#}"
    by (simp add: disk_holder_def online_frames)
  have "exposed online_machine = []" by (simp add: online_machine_def disk_machine_def)
  then have "dma_inv online_machine (mset (map disk_holder [online_disk, no_disk]))"
    using pm refs once unfolding dma_inv_def h by simp
  moreover have "queue_pages 4 = 2" by code_simp
  then have "disk_ok online_disk no_request"
    by (simp add: disk_ok_def disk_sound_def online_disk_def no_disk_def transport_ok_def queue_ok_def new_queue_def
        no_queue_def no_virtio_def no_request_def)
  moreover have "disk_ok no_disk no_request" "disk_blank no_disk"
    by (simp_all add: disk_ok_def disk_sound_def disk_blank_def online_frames no_request_def) (simp_all add: no_disk_def)
  ultimately show ?thesis
    by (simp add: block_inv_def disks_inv_def less_2_cases_iff all_conj_distrib) (simp add: online_machine_def disk_machine_def)
qed

lemma online_submit:
  "\<exists>tok adm t. disk_submit_owned True True 7 0 BLOCK_WRITE 5 1 (Some (replicate 512 0xab)) True 0 None 0 online_machine =
    Some (DRIVER_OK, tok, adm, t)"
proof -
  let ?s = "online_machine" and ?i = "unat (0 :: u32)"
  have inv: "disks_inv (unat (disk_count ?s)) ?s {#}" using online_machine_inv by (simp add: block_inv_def)
  obtain s1 where ck: "disk_check ?i ?s = Some s1" and k: "kept (unat (disk_count ?s)) {#} ?s s1"
    and same: "disks s1 = disks ?s \<and> disk_requests s1 = disk_requests ?s \<and> next_ticket s1 = next_ticket ?s"
  proof -
    let ?t = "?s\<lparr>ports := (ports ?s)\<lparr>reads := 1\<rparr>\<rparr>"
    have "disk_check ?i ?s = Some ?t"
      by (simp add: disk_check_def virtio_config_changed_def on_ports_def inb_def online_machine_def online_disk_def
          disk_machine_def card_ports_def no_virtio_def no_disk_def)
    moreover have "kept (unat (disk_count ?s)) {#} ?s ?t" by (rule quiet_kept [OF inv quiet_upd(1)])
    ultimately show thesis using that by simp
  qed
  obtain tok adm w where b: "io_request_begin_owned 7 0 True 0 None 0 (disk_world ?i s1) = (DRIVER_OK, tok, adm, w)"
    using same by (simp add: io_request_begin_owned_def disk_world_def world_def online_machine_def disk_machine_def
        no_request_def io_request_expire_waiters_def allocate_id_def expire_from.simps Let_def)
  have d: "disks s1 ! ?i = online_disk" using same by (simp add: online_machine_def)
  have f: "bi_online (binfo online_disk)" "bi_sectors (binfo online_disk) = 64" "\<not> bi_read_only (binfo online_disk)"
    by (simp_all add: online_disk_def no_disk_def)
  have on: "bi_online (binfo (disks s1 ! ?i))" using d f by simp
  obtain t where st: "disk_start ?i BLOCK_WRITE 5 1 (replicate 512 0xab) (put_disk_world ?i w s1) = Some t"
    using begin_started(2) [OF kept_inv [OF k] _ on _ b, of 1 BLOCK_WRITE 5 "replicate 512 0xab"] by auto
  have g: "\<not> (\<not> True \<or> (0 :: u32) \<ge> 2 \<or> \<not> True \<or> (BLOCK_WRITE \<noteq> 0 \<and> BLOCK_WRITE \<noteq> 1 \<and> BLOCK_WRITE \<noteq> 4) \<or> 0 \<ge> block_count ?s)"
    by (simp add: block_count_def online_machine_def)
  show ?thesis
    unfolding disk_submit_steps [OF g ck b, where service = True and sector = 5 and count = 1 and buffer = "Some (replicate 512 0xab)"]
    using st d f by simp
qed

lemma block_submit_correct_witness:
  "\<exists>tok adm t. disk_submit_owned True True 7 0 BLOCK_WRITE 5 1 (Some (replicate 512 0xab)) True 0 None 0 online_machine =
      Some (DRIVER_OK, tok, adm, t) \<and>
    device_request t (v_queues (transport (disks t ! 0)) ! 0) = Some (1, 5, replicate 512 0xab, 0)"
proof -
  obtain tok adm t where r: "disk_submit_owned True True 7 0 BLOCK_WRITE 5 1 (Some (replicate 512 0xab)) True 0 None 0 online_machine =
    Some (DRIVER_OK, tok, adm, t)" using online_submit by blast
  from block_submit_correct [OF online_machine_inv r] show ?thesis using r by simp
qed

end
