(* ===== verification/Spec2Isabelle.thy ===== *)
theory Spec2Isabelle
  imports CString HeapMem UaccessProps VfsProps ElfValidate Cred Keystore SchedProps Ps2Props Mouse Guard Tlb BlockSubmit
begin

text \<open>
  A verification development for GenOS, a 64-bit UEFI kernel in C (\<^verbatim>\<open>src/\<close>).

  \<^bold>\<open>The program.\<close> After the boot loader hands over (\<^verbatim>\<open>kernel/kernel.c\<close>), the kernel builds a physical page
  allocator from the memory map (\<^verbatim>\<open>mm/pmm.c\<close>), adopts the loader's page tables (\<^verbatim>\<open>mm/vmm.c\<close>), and puts a
  heap in the upper half (\<^verbatim>\<open>mm/heap.c\<close>). On the heap live tasks with their address spaces and kernel
  stacks (\<^verbatim>\<open>kernel/task.c\<close>) and the files of an in-memory file system (\<^verbatim>\<open>fs/tmpfs.c\<close>). Descriptors
  (\<^verbatim>\<open>fs/vfs.c\<close>) lead to these files or, through a block cache (\<^verbatim>\<open>fs/cache.c\<close>), to a read-only archive
  (\<^verbatim>\<open>fs/tar.c\<close>). Programs are checked (\<^verbatim>\<open>fs/elf_validate.c\<close>) before they are loaded. Accounts and a key
  store (\<^verbatim>\<open>security/\<close>) use hashing, encryption and random numbers (\<^verbatim>\<open>crypto/\<close>). Several CPUs share one
  mutation lock (\<^verbatim>\<open>cpu/preempt.c\<close>), per-subsystem locks, and a shootdown of stale translations
  (\<^verbatim>\<open>cpu/tlb.c\<close>). Keyboard and mouse reach programs through a queue of events (\<^verbatim>\<open>drivers/\<close>).

  \<^bold>\<open>How the code is modelled.\<close> Each C struct is a record, each set of file-level variables a record that
  extends the state of the component below it: \<open>pmm_state\<close>, \<open>machine\<close> (page tables in byte-addressed
  memory), \<open>heap_state\<close>, then \<open>tmpfs_state\<close>, \<open>vfs_state\<close> and \<open>sched_state\<close>. A C function is a HOL function of
  the same name on that state; integers keep their width (\<open>u8\<close> \<dots> \<open>u64\<close> are words, an \<^verbatim>\<open>int\<close> that cannot
  overflow is an \<open>int\<close>). Pointers are 64-bit addresses, 0 is null; a null-or-valid buffer of the caller
  is an option. A function whose C code can halt, trap or write through a wild pointer returns an
  option, and the properties show that it has a result in every sound state. What a device, an
  instruction (RDRAND, CPUID, FXSAVE) or uninitialised memory delivers is an argument or an arbitrary
  function in the state. An operation under \<^verbatim>\<open>PREEMPT_GUARD\<close> is one atomic step, which theory \<open>Guard\<close>
  justifies; the lock-free protocols (\<open>Guard\<close>, \<open>Tlb\<close>) are step relations on single accesses.

  \<^bold>\<open>Theories.\<close>
  \<^item> \<open>Prelude\<close>, \<open>ByteMem\<close>, \<open>CString\<close>: words, table scans, byte memory, C strings; \<^verbatim>\<open>kernel/utils.c\<close>,
    \<^verbatim>\<open>libc/string.c\<close>, \<^verbatim>\<open>libc/stdlib.c\<close>.
  \<^item> \<open>Frames\<close>: the contract \<open>frame_alloc\<close> of a page allocator; \<open>Pmm\<close> models \<^verbatim>\<open>mm/pmm.c\<close> and interprets it.
  \<^item> \<open>Vmm\<close> models \<^verbatim>\<open>mm/vmm.c\<close>; \<open>VmmTree\<close> has the invariant (each frame in use as a table has one place in
    one tree) and mapping, \<open>VmmSpace\<close> unmapping with pruning and new address spaces.
  \<^item> \<open>Heap\<close> models \<^verbatim>\<open>mm/heap.c\<close> and interprets the contract \<open>region_alloc\<close>; \<open>HeapMem\<close> adds the bytes behind
    the regions (contract \<open>byte_alloc\<close>) and \<^verbatim>\<open>krealloc\<close>.
  \<^item> \<open>Sha256\<close>, \<open>Hmac\<close>, \<open>Aes\<close>, \<open>Rng\<close>: \<^verbatim>\<open>crypto/\<close>, against the published definitions.
  \<^item> \<open>Tmpfs\<close>, \<open>TmpfsRefine\<close>, \<open>Tar\<close>, \<open>Cache\<close>, \<open>ElfValidate\<close>, \<open>Vfs\<close>, \<open>VfsProps\<close>: \<^verbatim>\<open>fs/\<close>. \<open>TmpfsRefine\<close> is the abstract file
    table and the simulation.
  \<^item> \<open>SlotTable\<close>: the contract \<open>keyed_store\<close> of a table of named entries; \<open>Cred\<close> and \<open>Keystore\<close> model
    \<^verbatim>\<open>security/cred.c\<close> and \<^verbatim>\<open>security/keystore.c\<close> and interpret it.
  \<^item> \<open>TaskState\<close>: \<^verbatim>\<open>struct task\<close> and the per-CPU data; \<open>Sched\<close> the scheduling operations of
    \<^verbatim>\<open>kernel/task.c\<close>; \<open>SchedInv\<close> the transition system of all CPUs and its invariant; \<open>SchedProps\<close> what
    follows.
  \<^item> \<open>UserMemory\<close>, \<open>Shm\<close>, \<open>Cow\<close>, \<open>ElfLoad\<close>, \<open>TaskLife\<close>: \<^verbatim>\<open>mm/user_memory.c\<close>, \<^verbatim>\<open>mm/shm.c\<close>, \<^verbatim>\<open>mm/cow.c\<close>,
    \<^verbatim>\<open>fs/elf.c\<close> and the rest of \<^verbatim>\<open>kernel/task.c\<close> over the task state. \<open>VmmFrame\<close> and \<open>VmmRange\<close> have what a
    table operation leaves alone and the operations on ranges, \<open>DataPages\<close> frames with user data;
    \<open>UserFind\<close>, \<open>UserAlloc\<close>, \<open>UserFree\<close> the search for a free range, allocation and release.
  \<^item> \<open>CowProps\<close>: what user programs see of the memory, the invariant on shared frames, and the resolution
    of a write fault. \<open>Uaccess\<close> models \<^verbatim>\<open>cpu/uaccess.c\<close> with its assembly and the page fault handler;
    \<open>UaccessProps\<close> shows what the copies do.
  \<^item> \<open>Ports\<close> (\<^verbatim>\<open>drivers/io.h\<close>, \<^verbatim>\<open>cpu/pic.c\<close>), \<open>Input\<close> (\<^verbatim>\<open>drivers/input.c\<close>, \<^verbatim>\<open>drivers/keyboard.c\<close>), \<open>Ps2\<close>
    (\<^verbatim>\<open>drivers/ps2.c\<close>), \<open>Mouse\<close> (\<^verbatim>\<open>drivers/mouse.c\<close>); \<open>InputProps\<close> the contract \<open>bounded_fifo\<close> of the two ring
    buffers, \<open>Ps2Props\<close> the decoding.
  \<^item> \<open>Guard\<close> (\<^verbatim>\<open>cpu/preempt.c\<close>, \<^verbatim>\<open>cpu/spinlock.h\<close>, \<^verbatim>\<open>cpu/local_lock.h\<close>), \<open>Tlb\<close> (\<^verbatim>\<open>cpu/tlb.c\<close>), \<open>IoRequest\<close>
    (\<^verbatim>\<open>drivers/io_request.c\<close>).
  \<^item> \<open>Pci\<close> (\<^verbatim>\<open>drivers/pci.c\<close>), \<open>Virtio\<close> (\<^verbatim>\<open>drivers/virtio.c\<close>, \<^verbatim>\<open>drivers/virtio_irq.c\<close>), \<open>Block\<close>
    (\<^verbatim>\<open>drivers/block.c\<close>); \<open>VirtioProps\<close> says who holds the memory that devices use, \<open>BlockProps\<close>, \<open>BlockRun\<close>
    and \<open>BlockSafe\<close> carry the invariant through every operation of the disk driver, and \<open>BlockSubmit\<close>
    reads a request the way a disk does.

  \<^bold>\<open>What is shown.\<close> The memory theories show that allocation, mapping, unmapping and the heap do exactly
  what they promise and keep their invariants, failures included, so that no two owners share a frame
  or a region. User memory is handed out cleared, at the first fit, and given back; resolving a write
  fault is invisible to every process, and a copy to or from user memory reads and writes exactly the
  bytes the process would, or reports the fault. The file theories show that tmpfs is an abstract file table, that the cache cannot be
  told from direct reads, and that archive files and written data read back. The crypto theories show
  agreement with FIPS 180-4, RFC 2104, RFC 8018 and the round trip of CBC; \<open>Cred\<close> and \<open>Keystore\<close> that the
  tables are finite maps. The scheduler theories show that no task is on two CPUs, that waiters are
  woken, which task is selected, and that no ready task starves. The driver theories show that what
  is typed comes out, in order, that a disk sees the requests that were accepted, and that no answer of a
  disk makes its driver trap or lets it use memory that was given to somebody else. \<open>Guard\<close> and \<open>Tlb\<close> cover all interleavings of the CPUs.

  \<^bold>\<open>Bounds and fuel.\<close> \<open>kmalloc_retry\<close> may grow the heap once per free frame: every growth takes sixteen
  frames or fails, so that is enough (\<open>kmalloc_correct\<close>). The waits of the PS/2 drivers count down from
  100000 as in the code. \<open>partial_function\<close> models the loops that end only in sound states (the
  doubling of \<open>grow_cap\<close>). Some properties assume that a counter has not wrapped: \<open>next_pid\<close> below
  $2^{32}-1$ when a task is published, the shootdown's sequence number below $2^{64}-1$, nesting depths below
  $2^{32}-1$; file names are shorter than the 100 bytes their slots have, account and key names than 32.

  \<^bold>\<open>Not modelled.\<close> The dispatch of system calls (\<^verbatim>\<open>cpu/syscall.c\<close> and its parts) checks arguments and calls
  the modelled operations of every component. The network card (\<^verbatim>\<open>drivers/net.c\<close>) is a second user of the
  modelled transport. Assembly and privileged instructions (segment and interrupt tables, APIC and SMP
  start-up, FPU instructions, the entry stubs), serial output, the framebuffer and fonts, the vendored
  image and font libraries (\<^verbatim>\<open>drivers/tirdlib/\<close>), the boot sequence, the loader's protocol header
  \<^verbatim>\<open>limine.h\<close>, and the user programs (shell, desktop, libc's stdio) have no state to keep right beyond
  what they call. The wait queues of \<^verbatim>\<open>drivers/io_request.c\<close> are not in the repository
  (\<^verbatim>\<open>kernel/wait.h\<close>), so the blocking calls of the drivers are modelled by what they do between waits.
\<close>

end
